(* ===== verification/Prelude.thy ===== *)
theory Prelude
  imports Main "HOL-Library.Word"
begin

text \<open>
  The base of the development: machine integers, the byte-addressed memory that the mapped
  file and every buffer of the program live in, the little-endian layout of integers in it,
  and the lemmas on masks and lists that the components share.

  An address is an \<open>int\<close> (a \<open>std::uint8_t*\<close> whose arithmetic never leaves the address
  space), a byte is an \<open>8 word\<close>, and a memory is a total function: the queue removes bounds
  checks on purpose, so an access outside a buffer is an access to another address, never an
  error. Signed and unsigned integers of the same width share a word type; \<open>sint\<close> reads a
  word as the signed value, \<open>uint\<close> and \<open>unat\<close> as the unsigned one.
\<close>

unbundle bit_operations_syntax

named_theorems mem_simps "reads of a memory after writes to it"
named_theorems layout "offsets and sizes of the fields of a shared buffer"

type_synonym byte = "8 word"
type_synonym addr = int
type_synonym mem = "addr \<Rightarrow> byte"
type_synonym int8_t = "8 word"
type_synonym int16_t = "16 word"
type_synonym int32_t = "32 word"
type_synonym int64_t = "64 word"
type_synonym uint32_t = "32 word"
type_synonym uint64_t = "64 word"

section \<open>Little-endian integers\<close>

fun enc :: "nat \<Rightarrow> 'a::len word \<Rightarrow> byte list" where
  "enc 0 w = []"
| "enc (Suc n) w = ucast w # enc n (drop_bit 8 w)"

fun dec :: "byte list \<Rightarrow> 'a::len word" where
  "dec [] = 0"
| "dec (b # bs) = ucast b OR push_bit 8 (dec bs)"

lemma length_enc [simp]: "length (enc n w) = n"
  by (induction n arbitrary: w) auto

lemma enc_numeral [simp]:
  "enc (numeral k) w = ucast w # enc (pred_numeral k) (drop_bit 8 w)"
  by (simp add: numeral_eq_Suc)

lemma dec_enc_take_bit: "dec (enc n w) = take_bit (8 * n) (w :: 'a::len word)"
proof (induction n arbitrary: w)
  case 0
  then show ?case by simp
next
  case (Suc n)
  show ?case
    by (rule bit_word_eqI)
      (auto simp: Suc bit_or_iff bit_push_bit_iff bit_take_bit_iff bit_drop_bit_eq
        bit_ucast_iff le_Suc_ex)
qed

lemma dec_enc:
  fixes w :: "'a::len word"
  assumes "LENGTH('a) \<le> 8 * n"
  shows "dec (enc n w) = w"
  using assms by (simp add: dec_enc_take_bit take_bit_word_eq_self)

lemma enc_dec:
  assumes "8 * length bs \<le> LENGTH('a)"
  shows "enc (length bs) (dec bs :: 'a::len word) = bs"
  using assms
proof (induction bs)
  case Nil
  then show ?case by simp
next
  case (Cons b bs)
  let ?d = "dec bs :: 'a word"
  have low: "ucast (dec (b # bs) :: 'a word) = b"
    using Cons.prems
    by (intro bit_word_eqI) (auto simp: bit_ucast_iff bit_or_iff bit_push_bit_iff)
  have top: "\<And>k. bit ?d k \<Longrightarrow> k < 8 * length bs"
  proof -
    fix k assume k: "bit ?d k"
    have "?d = dec (enc (length bs) ?d)" using Cons by simp
    also have "\<dots> = take_bit (8 * length bs) ?d" by (rule dec_enc_take_bit)
    finally show "k < 8 * length bs" using k by (metis bit_take_bit_iff)
  qed
  have high: "drop_bit 8 (dec (b # bs) :: 'a word) = ?d"
    using Cons.prems
    by (intro bit_word_eqI)
      (auto simp: bit_drop_bit_eq bit_or_iff bit_push_bit_iff bit_ucast_iff bit_imp_le_length
        dest: top bit_imp_le_length[of b])
  show ?case using low high Cons by simp
qed

section \<open>Reads and writes of byte ranges\<close>

definition read_bytes :: "mem \<Rightarrow> addr \<Rightarrow> nat \<Rightarrow> byte list" where
  "read_bytes m a n = map (\<lambda>k. m (a + int k)) [0..<n]"

definition write_bytes :: "mem \<Rightarrow> addr \<Rightarrow> byte list \<Rightarrow> mem" where
  "write_bytes m a bs = (\<lambda>x. if a \<le> x \<and> x < a + int (length bs) then bs ! nat (x - a) else m x)"

lemma length_read_bytes [simp]: "length (read_bytes m a n) = n"
  by (simp add: read_bytes_def)

lemma read_bytes_0 [simp]: "read_bytes m a 0 = []"
  by (simp add: read_bytes_def)

lemma read_write_same [mem_simps]:
  "n = length bs \<Longrightarrow> read_bytes (write_bytes m a bs) a n = bs"
  by (auto simp: read_bytes_def write_bytes_def intro!: nth_equalityI)

lemma write_bytes_outside [mem_simps]:
  "x < a \<or> a + int (length bs) \<le> x \<Longrightarrow> write_bytes m a bs x = m x"
  by (auto simp: write_bytes_def)

lemma write_bytes_Nil [simp]: "write_bytes m a [] = m"
  by (auto simp: write_bytes_def fun_eq_iff)

lemma read_bytes_cong:
  "(\<And>x. a \<le> x \<Longrightarrow> x < a + int n \<Longrightarrow> m x = m' x) \<Longrightarrow> read_bytes m a n = read_bytes m' a n"
  by (auto simp: read_bytes_def)

lemma read_write_disjoint [mem_simps]:
  assumes "b + int n \<le> a \<or> a + int (length bs) \<le> b"
  shows "read_bytes (write_bytes m a bs) b n = read_bytes m b n"
  using assms by (intro read_bytes_cong) (auto simp: write_bytes_def)

lemma write_bytes_read: "write_bytes m a (read_bytes m a n) = m"
  by (auto simp: write_bytes_def read_bytes_def fun_eq_iff)

lemma write_bytes_commute:
  assumes "a + int (length as) \<le> b \<or> b + int (length bs) \<le> a"
  shows "write_bytes (write_bytes m a as) b bs = write_bytes (write_bytes m b bs) a as"
  using assms by (auto simp: write_bytes_def fun_eq_iff)

lemma read_bytes_nth: "k < n \<Longrightarrow> read_bytes m a n ! k = m (a + int k)"
  by (simp add: read_bytes_def)

lemma read_bytes_sub:
  "j + k \<le> n \<Longrightarrow> take k (drop j (read_bytes m a n)) = read_bytes m (a + int j) k"
  by (auto simp: read_bytes_def add.assoc intro!: nth_equalityI)

lemma read_bytes_append: "read_bytes m a (j + k) = read_bytes m a j @ read_bytes m (a + int j) k"
  by (rule nth_equalityI) (auto simp: read_bytes_def nth_append)

lemma read_write_inside:
  assumes "a \<le> b" "b + int n \<le> a + int (length bs)"
  shows "read_bytes (write_bytes m a bs) b n = take n (drop (nat (b - a)) bs)"
proof (rule nth_equalityI)
  have "nat (b - a) + n \<le> length bs" using assms by linarith
  then show len: "length (read_bytes (write_bytes m a bs) b n) = length (take n (drop (nat (b - a)) bs))" by simp
  fix i assume i: "i < length (read_bytes (write_bytes m a bs) b n)"
  then have "nat (b + int i - a) = nat (b - a) + i" using assms(1) by simp
  then show "read_bytes (write_bytes m a bs) b n ! i = take n (drop (nat (b - a)) bs) ! i"
    using i assms by (simp add: read_bytes_nth write_bytes_def)
qed

lemma write_bytes_join:
  "write_bytes (write_bytes m a xs) (a + int (length xs)) ys = write_bytes m a (xs @ ys)"
proof
  fix x
  have "nat (x - (a + int (length xs))) = nat (x - a) - length xs" by linarith
  then show "write_bytes (write_bytes m a xs) (a + int (length xs)) ys x = write_bytes m a (xs @ ys) x"
    by (auto simp: write_bytes_def nth_append nat_less_iff)
qed

lemma tl_map_upt: "tl (map f [0..<n]) = map (\<lambda>j. f (Suc j)) [0..<n - 1]"
  by (cases n) (auto intro!: nth_equalityI simp: nth_tl simp del: upt_Suc)

section \<open>Masks\<close>

lemma and_mask_take_bit: "(w :: 'a::len word) AND mask n = take_bit n w"
  by (simp add: take_bit_eq_mask)

lemma unat_take_bit: "unat (take_bit n (w :: 'a::len word)) = unat w mod 2 ^ n"
  unfolding unsigned_take_bit_eq by (rule take_bit_eq_mod)

lemma take_bit_of_nat_word: "take_bit n (of_nat k :: 'a::len word) = of_nat (k mod 2 ^ n)"
  by (simp only: take_bit_of_nat take_bit_eq_mod[symmetric])

lemma unat_add_of_nat_mod:
  fixes w :: "'a::len word"
  assumes "n \<le> LENGTH('a)"
  shows "unat (w + of_nat a) mod 2 ^ n = (unat w + a) mod 2 ^ n"
proof -
  have "(2::nat) ^ n dvd 2 ^ LENGTH('a)" using assms by (rule le_imp_power_dvd)
  then show ?thesis
    by (simp add: unat_word_ariths unat_of_nat mod_mod_cancel mod_add_right_eq)
qed

lemma take_bit_diff_word:
  fixes w :: "'a::len word"
  assumes "a \<le> b"
  shows "take_bit n ((w + of_nat b) - (w + of_nat a)) = of_nat ((b - a) mod 2 ^ n)"
proof -
  have "(w + of_nat b) - (w + of_nat a) = (of_nat (b - a) :: 'a word)"
    using assms by (simp add: of_nat_diff)
  then show ?thesis by (simp only: take_bit_of_nat_word)
qed

lemma unat_take_bit_diff:
  fixes w :: "'a::len word"
  assumes "a \<le> b" "b - a < 2 ^ n" "n \<le> LENGTH('a)"
  shows "unat (take_bit n ((w + of_nat b) - (w + of_nat a))) = b - a"
proof -
  have "b - a < 2 ^ LENGTH('a)"
    using assms(2,3) by (meson less_le_trans one_le_numeral power_increasing)
  then show ?thesis
    using assms by (simp only: take_bit_diff_word unat_of_nat mod_less)
qed

lemma take_bit_diff_eq_0_iff:
  fixes w :: "'a::len word"
  assumes "a \<le> b" "b - a < 2 ^ n" "n \<le> LENGTH('a)"
  shows "take_bit n ((w + of_nat b) - (w + of_nat a)) = 0 \<longleftrightarrow> a = b"
  using unat_take_bit_diff[OF assms, of w] assms(1)
  by (metis diff_is_0_eq le_antisym order_refl unat_0 unat_eq_zero)

lemma nat_mod_add_cancel: "(c + a) mod m = (c + b) mod m \<longleftrightarrow> a mod m = (b mod m :: nat)"
proof -
  have "int ((c + a) mod m) = int ((c + b) mod m) \<longleftrightarrow> int (a mod m) = int (b mod m)"
    by (simp only: zmod_int mod_eq_dvd_iff of_nat_add add_diff_cancel_left)
  then show ?thesis by (simp only: of_nat_eq_iff)
qed

lemma take_bit_add_eq_iff:
  fixes w :: "'a::len word"
  assumes "n \<le> LENGTH('a)"
  shows "take_bit n (w + of_nat a) = take_bit n (w + of_nat b) \<longleftrightarrow> a mod 2 ^ n = b mod 2 ^ n"
  using assms
  by (simp only: word_unat_eq_iff unat_take_bit unat_add_of_nat_mod nat_mod_add_cancel)

section \<open>Signed values\<close>

lemma sint_eq_unat:
  fixes w :: "'a::len word"
  assumes "unat w < 2 ^ (LENGTH('a) - 1)"
  shows "sint w = int (unat w)"
proof -
  have "int (unat w) < int (2 ^ (LENGTH('a) - 1))" using assms by (simp only: of_nat_less_iff)
  then have "uint w < 2 ^ (LENGTH('a) - 1)" by simp
  moreover have "- (2 ^ (LENGTH('a) - 1)) \<le> (0::int)" by simp
  ultimately have "signed_take_bit (LENGTH('a) - 1) (uint w) = uint w"
    by (intro signed_take_bit_int_eq_self) (auto intro: order_trans[of _ 0])
  then show ?thesis by (simp add: sint_uint)
qed

lemma sint_nonneg_unat:
  fixes w :: "'a::len word"
  assumes "0 \<le> sint w"
  shows "sint w = int (unat w)"
proof -
  have "sint w < 2 ^ (LENGTH('a) - 1)" by (rule sint_lt)
  also have "(2::int) ^ (LENGTH('a) - 1) \<le> 2 ^ LENGTH('a)" by (rule power_increasing) simp_all
  finally have "take_bit LENGTH('a) (sint w) = sint w" using assms by (rule take_bit_int_eq_self[rotated])
  then show ?thesis by (simp add: uint_sint)
qed

lemma unat_less_half_iff:
  fixes w :: "'a::len word"
  shows "unat w < 2 ^ (LENGTH('a) - 1) \<longleftrightarrow> 0 \<le> sint w"
proof
  assume "0 \<le> sint w"
  then have "int (unat w) < 2 ^ (LENGTH('a) - 1)" using sint_lt[of w] sint_nonneg_unat[of w] by linarith
  then have "int (unat w) < int (2 ^ (LENGTH('a) - 1))" by simp
  then show "unat w < 2 ^ (LENGTH('a) - 1)" by (simp only: of_nat_less_iff)
qed (simp add: sint_eq_unat)

lemma unat_of_nat_small: "n < 2 ^ LENGTH('a) \<Longrightarrow> unat (of_nat n :: 'a::len word) = n"
  by (simp add: unat_of_nat)

section \<open>Distance on a ring of a power of two positions\<close>

text \<open>
  The counters of a ring buffer run freely and are compared through a mask. \<open>ring_dist n x y\<close> is
  how many steps lead from \<open>x\<close> forward to \<open>y\<close> on a ring of \<open>2 ^ n\<close> positions.
\<close>

definition ring_dist :: "nat \<Rightarrow> 'a::len word \<Rightarrow> 'a word \<Rightarrow> nat" where
  "ring_dist n x y = unat (take_bit n (y - x))"

lemma ring_dist_less: "ring_dist n x y < 2 ^ n"
  by (simp add: ring_dist_def unat_take_bit)

lemma ring_dist_self [simp]: "ring_dist n x x = 0"
  by (simp add: ring_dist_def)

lemma take_bit_eq_0_ring: "take_bit n (y - x) = 0 \<longleftrightarrow> ring_dist n x y = 0"
  by (simp add: ring_dist_def unat_eq_zero)

lemma ring_dist_of_nat:
  assumes "a \<le> b" "b - a < 2 ^ n" "n \<le> LENGTH('a)"
  shows "ring_dist n (w + of_nat a) (w + of_nat b :: 'a::len word) = b - a"
  unfolding ring_dist_def using assms by (rule unat_take_bit_diff)

lemma ring_dist_trans:
  fixes x y z :: "'a::len word"
  assumes "ring_dist n x y + ring_dist n y z < 2 ^ n" "n \<le> LENGTH('a)"
  shows "ring_dist n x z = ring_dist n x y + ring_dist n y z"
proof -
  have dvd: "(2::nat) ^ n dvd 2 ^ LENGTH('a)" using assms(2) by (rule le_imp_power_dvd)
  have "unat (z - x) = (unat (y - x) + unat (z - y)) mod 2 ^ LENGTH('a)"
    by (metis add.commute diff_add_cancel diff_add_eq unat_word_ariths(1))
  then have "unat (z - x) mod 2 ^ n = (unat (y - x) + unat (z - y)) mod 2 ^ n"
    using dvd by (simp add: mod_mod_cancel)
  also have "\<dots> = (unat (y - x) mod 2 ^ n + unat (z - y) mod 2 ^ n) mod 2 ^ n"
    by (simp add: mod_add_eq)
  finally show ?thesis
    using assms(1) by (simp add: ring_dist_def unat_take_bit)
qed

lemma ring_dist_one:
  assumes "0 < n" "n \<le> LENGTH('a)"
  shows "ring_dist n x (x + 1 :: 'a::len word) = 1"
proof -
  have "(1::nat) < 2 ^ n" by (rule one_less_power) (use assms(1) in simp_all)
  then show ?thesis using ring_dist_of_nat[of 0 1 n x] assms(2) by simp
qed

lemma ring_dist_succ:
  fixes x y :: "'a::len word"
  assumes "ring_dist n x y + 1 < 2 ^ n" "n \<le> LENGTH('a)"
  shows "ring_dist n x (y + 1) = ring_dist n x y + 1"
proof -
  have "0 < n" using assms(1) by (cases n) auto
  then have "ring_dist n y (y + 1) = 1" using assms(2) by (rule ring_dist_one)
  with ring_dist_trans[of n x y "y + 1"] assms show ?thesis by simp
qed

lemma ring_dist_pred:
  fixes x y :: "'a::len word"
  assumes "0 < ring_dist n x y" "n \<le> LENGTH('a)"
  shows "ring_dist n (x + 1) y = ring_dist n x y - 1"
proof -
  let ?r = "ring_dist n (x + 1) y"
  have "0 < n" using assms(1) ring_dist_less[of n x y] by (cases n) auto
  then have one: "ring_dist n x (x + 1) = 1" using assms(2) by (rule ring_dist_one)
  show ?thesis
  proof (cases "1 + ?r < 2 ^ n")
    case True
    with ring_dist_trans[of n x "x + 1" y] one assms(2) show ?thesis by simp
  next
    case False
    then have "?r = 2 ^ n - 1" using ring_dist_less[of n "x + 1" y] by simp
    then have "unat (y - (x + 1)) mod 2 ^ n = 2 ^ n - 1" by (simp add: ring_dist_def unat_take_bit)
    moreover have "unat (y - x) mod 2 ^ n = (unat (y - (x + 1)) + 1) mod 2 ^ n"
      using unat_add_of_nat_mod[OF assms(2), of "y - (x + 1)" 1] by simp
    moreover have "(unat (y - (x + 1)) + 1) mod 2 ^ n =
        (unat (y - (x + 1)) mod 2 ^ n + 1) mod 2 ^ n" by (rule mod_add_left_eq[symmetric])
    ultimately have "unat (y - x) mod 2 ^ n = (2 ^ n - 1 + 1) mod 2 ^ n" by (simp only:)
    then have "ring_dist n x y = 0" by (simp add: ring_dist_def unat_take_bit)
    with assms(1) show ?thesis by simp
  qed
qed

lemma ring_dist_pos_nat:
  fixes x y :: "'a::len word"
  assumes "n \<le> LENGTH('a)"
  shows "take_bit n y = take_bit n (x + of_nat (ring_dist n x y))"
proof -
  have "unat (x + of_nat (ring_dist n x y)) mod 2 ^ n = (unat x + unat (y - x)) mod 2 ^ n"
    using unat_add_of_nat_mod[OF assms, of x "ring_dist n x y"]
    by (simp add: ring_dist_def unat_take_bit mod_add_right_eq)
  also have "\<dots> = unat (x + of_nat (unat (y - x))) mod 2 ^ n"
    using unat_add_of_nat_mod[OF assms, of x "unat (y - x)"] by simp
  finally show ?thesis by (simp add: word_unat_eq_iff unat_take_bit)
qed

lemma ring_dist_succ_0:
  fixes x y :: "'a::len word"
  assumes "n \<le> LENGTH('a)"
  shows "ring_dist n x (y + 1) = 0 \<longleftrightarrow> ring_dist n x y = 2 ^ n - 1"
proof (cases "ring_dist n x y + 1 < 2 ^ n")
  case True
  with ring_dist_succ[OF _ assms] show ?thesis by auto
next
  case False
  then have e: "ring_dist n x y = 2 ^ n - 1" using ring_dist_less[of n x y] by linarith
  have "unat (y + 1 - x) mod 2 ^ n = (unat (y - x) + 1) mod 2 ^ n"
    using unat_add_of_nat_mod[OF assms, of "y - x" 1] by (simp add: algebra_simps)
  also have "\<dots> = (unat (y - x) mod 2 ^ n + 1) mod 2 ^ n" by (rule mod_add_left_eq[symmetric])
  also have "unat (y - x) mod 2 ^ n = 2 ^ n - 1"
    using e by (simp add: ring_dist_def unat_take_bit)
  finally have "ring_dist n x (y + 1) = 0" by (simp add: ring_dist_def unat_take_bit)
  with e show ?thesis by simp
qed

lemma ring_dist_0_sym:
  fixes x y :: "'a::len word"
  assumes "n \<le> LENGTH('a)"
  shows "ring_dist n y x = 0 \<longleftrightarrow> ring_dist n x y = 0"
proof -
  have "ring_dist n a b = 0" if "ring_dist n b a = 0" for a b :: "'a word"
    using ring_dist_trans[of n b a b] ring_dist_less[of n a b] that assms by simp
  then show ?thesis by blast
qed

end
