(* ===== verification/X86Memory.thy ===== *)
theory X86Memory
  imports Prelude
begin

text \<open>
  The memory of an x86-64 machine as one of its threads sees it. The code is written for this
  machine (\<open>Atomic64.h\<close> refuses other targets and implements its barriers with x86
  instructions), whose memory model is total store order: a store of a thread first enters the
  thread's store buffer, a buffer leaves for the shared memory oldest store first, a load sees
  the thread's own buffered stores, and a \<^verbatim>\<open>lock\<close>-prefixed instruction empties the buffer
  before it works on the shared memory.

  A thread's state is a record \<open>cpu\<close>; \<open>view\<close> is the memory its loads see. Sequential
  reasoning is reasoning about \<open>view\<close>; the interleavings of two threads over one shared
  memory are the subject of theory \<open>SpscTso\<close>.
\<close>

type_synonym store = "addr \<times> byte list"

record cpu =
  shared :: mem
  sbuf :: "store list"

fun apply_store :: "mem \<Rightarrow> store \<Rightarrow> mem" where
  "apply_store m (a, bs) = write_bytes m a bs"

definition apply_stores :: "mem \<Rightarrow> store list \<Rightarrow> mem" where
  "apply_stores m ss = foldl apply_store m ss"

definition view :: "cpu \<Rightarrow> mem" where
  "view c = apply_stores (shared c) (sbuf c)"

text \<open>A plain load, a plain store, and the effect of a locked instruction on the buffer.\<close>

definition load :: "cpu \<Rightarrow> addr \<Rightarrow> nat \<Rightarrow> byte list" where
  "load c a n = read_bytes (view c) a n"

definition emit :: "cpu \<Rightarrow> addr \<Rightarrow> byte list \<Rightarrow> cpu" where
  "emit c a bs = c\<lparr>sbuf := sbuf c @ [(a, bs)]\<rparr>"

definition drain :: "cpu \<Rightarrow> cpu" where
  "drain c = \<lparr>shared = view c, sbuf = []\<rparr>"

definition locked_store :: "cpu \<Rightarrow> addr \<Rightarrow> byte list \<Rightarrow> cpu" where
  "locked_store c a bs = (let d = drain c in d\<lparr>shared := write_bytes (shared d) a bs\<rparr>)"

lemma apply_stores_Nil [simp]: "apply_stores m [] = m"
  by (simp add: apply_stores_def)

lemma apply_stores_Cons [simp]: "apply_stores m (s # ss) = apply_stores (apply_store m s) ss"
  by (simp add: apply_stores_def)

lemma apply_stores_append [simp]:
  "apply_stores m (ss @ ts) = apply_stores (apply_stores m ss) ts"
  by (simp add: apply_stores_def)

lemma view_emit [mem_simps]: "view (emit c a bs) = write_bytes (view c) a bs"
  by (simp add: view_def emit_def)

lemma view_drain [mem_simps]: "view (drain c) = view c"
  by (simp add: view_def drain_def)

lemma view_locked_store [mem_simps]: "view (locked_store c a bs) = write_bytes (view c) a bs"
  by (simp add: view_def locked_store_def drain_def)

text \<open>
  A store to a range leaves every other range of the memory as it was, and stores to disjoint
  ranges commute: the facts that let one thread's buffer be emptied past the other's stores.
\<close>

definition outside :: "store \<Rightarrow> addr \<Rightarrow> nat \<Rightarrow> bool" where
  "outside s a n \<longleftrightarrow> a + int n \<le> fst s \<or> fst s + int (length (snd s)) \<le> a"

definition apart :: "store \<Rightarrow> store \<Rightarrow> bool" where
  "apart s t \<longleftrightarrow> outside s (fst t) (length (snd t))"

lemma read_apply_store_outside:
  "outside s a n \<Longrightarrow> read_bytes (apply_store m s) a n = read_bytes m a n"
  by (cases s) (auto simp: outside_def intro: read_write_disjoint)

lemma read_apply_stores_outside:
  "\<forall>s\<in>set ss. outside s a n \<Longrightarrow> read_bytes (apply_stores m ss) a n = read_bytes m a n"
  by (induction ss arbitrary: m) (auto simp: read_apply_store_outside)

lemma apply_store_commute:
  "apart s t \<Longrightarrow> apply_store (apply_store m s) t = apply_store (apply_store m t) s"
  by (cases s; cases t) (auto simp: apart_def outside_def intro: write_bytes_commute)

lemma apply_stores_commute:
  "\<forall>s\<in>set ss. apart s t \<Longrightarrow>
    apply_stores (apply_store m t) ss = apply_store (apply_stores m ss) t"
proof (induction ss arbitrary: m)
  case Nil
  then show ?case by simp
next
  case (Cons s ss)
  then have "apply_store (apply_store m t) s = apply_store (apply_store m s) t"
    by (intro apply_store_commute[symmetric]) simp
  with Cons show ?case by simp
qed

text \<open>
  \<^verbatim>\<open>memset\<close> and \<^verbatim>\<open>memcpy\<close> into a buffer: byte stores in ascending order. They are many stores,
  never one, so another thread may see any prefix of them.
\<close>

fun emit_bytes :: "cpu \<Rightarrow> addr \<Rightarrow> byte list \<Rightarrow> cpu" where
  "emit_bytes c a [] = c"
| "emit_bytes c a (b # bs) = emit_bytes (emit c a [b]) (a + 1) bs"

lemma view_emit_bytes [mem_simps]: "view (emit_bytes c a bs) = write_bytes (view c) a bs"
proof (induction bs arbitrary: c a)
  case Nil
  then show ?case by simp
next
  case (Cons b bs)
  have "view (emit_bytes c a (b # bs)) = write_bytes (write_bytes (view c) a [b]) (a + 1) bs"
    by (simp add: Cons mem_simps)
  also have "\<dots> = write_bytes (view c) a (b # bs)"
  proof
    fix x
    have "nat (x - a) = Suc (nat (x - (a + 1)))" if "a < x" using that by arith
    then show "write_bytes (write_bytes (view c) a [b]) (a + 1) bs x =
        write_bytes (view c) a (b # bs) x"
      by (auto simp: write_bytes_def)
  qed
  finally show ?case .
qed

section \<open>The interface of an integer accessor\<close>

text \<open>
  Every accessor pair of the program reads and writes an integer of a fixed number of bytes.
  Its clients need three laws only: the value written is the value read, nothing outside the
  range changes, and a read depends on the bytes of its range only.
\<close>

locale accessor =
  fixes get :: "cpu \<Rightarrow> addr \<Rightarrow> 'v"
    and put :: "cpu \<Rightarrow> addr \<Rightarrow> 'v \<Rightarrow> cpu"
    and width :: nat
  assumes get_put: "get (put c a v) a = v"
    and put_frame: "x < a \<or> a + int width \<le> x \<Longrightarrow> view (put c a v) x = view c x"
    and get_cong: "(\<And>x. a \<le> x \<Longrightarrow> x < a + int width \<Longrightarrow> view c x = view d x) \<Longrightarrow>
        get c a = get d a"
begin

lemma get_put_disjoint:
  "b + int width \<le> a \<or> a + int width \<le> b \<Longrightarrow> get (put c a v) b = get c b"
  by (rule get_cong) (auto intro: put_frame)

lemma get_emit_disjoint:
  "b + int width \<le> a \<or> a + int (length bs) \<le> b \<Longrightarrow> get (emit c a bs) b = get c b"
  by (rule get_cong) (auto simp: mem_simps write_bytes_def)

lemma load_put_disjoint:
  "b + int n \<le> a \<or> a + int width \<le> b \<Longrightarrow> load (put c a v) b n = load c b n"
  unfolding load_def by (rule read_bytes_cong) (auto intro: put_frame)

lemma get_view: "view c = view d \<Longrightarrow> get c a = get d a"
  by (rule get_cong) simp

end

text \<open>The accessors built from the plain load and store and the little-endian layout.\<close>

definition get_le :: "nat \<Rightarrow> cpu \<Rightarrow> addr \<Rightarrow> 'a::len word" where
  "get_le n c a = dec (load c a n)"

definition put_le :: "nat \<Rightarrow> cpu \<Rightarrow> addr \<Rightarrow> 'a::len word \<Rightarrow> cpu" where
  "put_le n c a v = emit c a (enc n v)"

lemma accessor_le:
  assumes "LENGTH('a::len) \<le> 8 * n"
  shows "accessor (get_le n :: cpu \<Rightarrow> addr \<Rightarrow> 'a word) (put_le n) n"
proof
  fix c a and v :: "'a word"
  show "get_le n (put_le n c a v) a = v"
    using assms by (simp add: get_le_def put_le_def load_def mem_simps dec_enc)
next
  fix x a c and v :: "'a word"
  assume "x < a \<or> a + int n \<le> x"
  then show "view (put_le n c a v) x = view c x"
    by (simp add: put_le_def mem_simps)
next
  fix a and c d :: cpu
  assume "\<And>x. a \<le> x \<Longrightarrow> x < a + int n \<Longrightarrow> view c x = view d x"
  then show "get_le n c a = (get_le n d a :: 'a word)"
    by (auto simp: get_le_def load_def intro: arg_cong[where f = dec] read_bytes_cong)
qed

lemma accessor_locked:
  assumes "LENGTH('a::len) \<le> 8 * n"
  shows "accessor (get_le n :: cpu \<Rightarrow> addr \<Rightarrow> 'a word) (\<lambda>c a v. locked_store c a (enc n v)) n"
proof -
  have le: "accessor (get_le n :: cpu \<Rightarrow> addr \<Rightarrow> 'a word) (put_le n) n"
    using assms by (rule accessor_le)
  have same: "view (locked_store c a (enc n v)) = view (put_le n c a v)" for c a and v :: "'a word"
    by (simp add: mem_simps put_le_def)
  show ?thesis
  proof
    show "get_le n (locked_store c a (enc n v)) a = v" for c a and v :: "'a word"
      using accessor.get_view[OF le same] accessor.get_put[OF le] by metis
    show "x < a \<or> a + int n \<le> x \<Longrightarrow> view (locked_store c a (enc n v)) x = view c x"
      for x c a and v :: "'a word"
      using accessor.put_frame[OF le] by (simp add: same)
    show "(\<And>x. a \<le> x \<Longrightarrow> x < a + int n \<Longrightarrow> view c x = view d x) \<Longrightarrow>
        get_le n c a = (get_le n d a :: 'a word)" for a c d
      using accessor.get_cong[OF le] by metis
  qed
qed

end
