(* ===== verification/Atomic64.thy ===== *)
theory Atomic64
  imports X86Memory
begin

text \<open>
  \<^verbatim>\<open>src/main/cpp/Atomic64.h\<close>: the loads, stores, barriers and locked instructions the queue is
  built from, one definition per function, on the state of the thread that executes it.

  \<^verbatim>\<open>threadFence\<close> is an empty instruction with a memory clobber: it orders the compiler and has
  no effect when it runs. \<^verbatim>\<open>acquire\<close> loads the top of the stack, \<^verbatim>\<open>release\<close> stores to a local
  variable and \<^verbatim>\<open>cpu_pause\<close> is a hint: none of them touches the shared buffer or empties the
  store buffer. \<^verbatim>\<open>fence\<close> and the two locked instructions do empty it.
\<close>

definition threadFence :: "cpu \<Rightarrow> cpu" where
  "threadFence c = c"

definition fence :: "cpu \<Rightarrow> cpu" where
  "fence c = drain c"

definition acquire :: "cpu \<Rightarrow> cpu" where
  "acquire c = c"

definition release :: "cpu \<Rightarrow> cpu" where
  "release c = c"

definition cpu_pause :: "cpu \<Rightarrow> cpu" where
  "cpu_pause c = c"

definition getInt16 :: "cpu \<Rightarrow> addr \<Rightarrow> int16_t" where
  "getInt16 c source = get_le 2 c source"

definition getInt32 :: "cpu \<Rightarrow> addr \<Rightarrow> int32_t" where
  "getInt32 c source = get_le 4 c source"

definition putInt8 :: "cpu \<Rightarrow> addr \<Rightarrow> int8_t \<Rightarrow> cpu" where
  "putInt8 c source value = put_le 1 c source value"

definition putInt16 :: "cpu \<Rightarrow> addr \<Rightarrow> int16_t \<Rightarrow> cpu" where
  "putInt16 c source value = put_le 2 c source value"

definition putInt32 :: "cpu \<Rightarrow> addr \<Rightarrow> int32_t \<Rightarrow> cpu" where
  "putInt32 c source value = put_le 4 c source value"

definition getInt64 :: "cpu \<Rightarrow> addr \<Rightarrow> int64_t" where
  "getInt64 c source = get_le 8 c source"

text \<open>The load comes first and the compiler barrier after it; the barrier has no run-time effect.\<close>

definition getInt64Ordered :: "cpu \<Rightarrow> addr \<Rightarrow> int64_t" where
  "getInt64Ordered c source =
     (let sequence = get_le 8 c source; c' = threadFence c in sequence)"

definition getInt64Volatile :: "cpu \<Rightarrow> addr \<Rightarrow> int64_t" where
  "getInt64Volatile c source =
     (let sequence = get_le 8 c source; c' = threadFence c in sequence)"

definition putInt64 :: "cpu \<Rightarrow> addr \<Rightarrow> int64_t \<Rightarrow> cpu" where
  "putInt64 c address value = put_le 8 c address value"

definition putInt64Ordered :: "cpu \<Rightarrow> addr \<Rightarrow> int64_t \<Rightarrow> cpu" where
  "putInt64Ordered c address value = put_le 8 (threadFence c) address value"

text \<open>\<^verbatim>\<open>xchgq\<close> with a memory operand is locked; the exchanged old value is dropped.\<close>

definition putInt64Atomic :: "cpu \<Rightarrow> addr \<Rightarrow> int64_t \<Rightarrow> cpu" where
  "putInt64Atomic c address value = locked_store c address (enc 8 value)"

text \<open>\<^verbatim>\<open>lock; cmpxchgq\<close>: the value found is returned, and replaced only if it is the expected one.\<close>

definition cmpxchg :: "cpu \<Rightarrow> addr \<Rightarrow> int64_t \<Rightarrow> int64_t \<Rightarrow> int64_t \<times> cpu" where
  "cmpxchg c destination expected desired =
     (let d = drain c; original = get_le 8 d destination
      in (original,
          if original = expected then d\<lparr>shared := write_bytes (shared d) destination (enc 8 desired)\<rparr>
          else d))"

lemmas atomic64_defs =
  threadFence_def fence_def getInt16_def getInt32_def putInt8_def putInt16_def putInt32_def
  getInt64_def getInt64Ordered_def getInt64Volatile_def putInt64_def putInt64Ordered_def
  putInt64Atomic_def Let_def

section \<open>The accessor pairs obey the accessor laws\<close>

interpretation a16: accessor getInt16 putInt16 2
  unfolding getInt16_def putInt16_def by (rule accessor_le) simp

interpretation a32: accessor getInt32 putInt32 4
  unfolding getInt32_def putInt32_def by (rule accessor_le) simp

interpretation a64: accessor getInt64 putInt64 8
  unfolding getInt64_def putInt64_def by (rule accessor_le) simp

interpretation a64o: accessor getInt64Volatile putInt64Ordered 8
  unfolding atomic64_defs by (rule accessor_le) simp

interpretation a64x: accessor getInt64Ordered putInt64Atomic 8
  unfolding atomic64_defs by (rule accessor_locked) simp

text \<open>
  The strengths differ in what they do to the store buffer, never in the value: on a single
  thread the plain, ordered and atomic variants read the same value and leave the same view.
\<close>

lemma getInt64_variants:
  "getInt64Ordered c a = getInt64 c a" "getInt64Volatile c a = getInt64 c a"
  by (simp_all add: atomic64_defs)

lemma view_puts [mem_simps]:
  "view (putInt8 c a v8) = write_bytes (view c) a (enc 1 v8)"
  "view (putInt16 c a v16) = write_bytes (view c) a (enc 2 v16)"
  "view (putInt32 c a v32) = write_bytes (view c) a (enc 4 v32)"
  "view (putInt64 c a v) = write_bytes (view c) a (enc 8 v)"
  "view (putInt64Ordered c a v) = write_bytes (view c) a (enc 8 v)"
  "view (putInt64Atomic c a v) = write_bytes (view c) a (enc 8 v)"
  by (simp_all add: atomic64_defs put_le_def mem_simps)

lemma view_barriers [mem_simps]:
  "view (threadFence c) = view c" "view (fence c) = view c" "view (acquire c) = view c"
  "view (release c) = view c" "view (cpu_pause c) = view c"
  by (simp_all add: threadFence_def fence_def acquire_def release_def cpu_pause_def mem_simps)

lemma cmpxchg_fst: "fst (cmpxchg c a e d) = getInt64 c a"
  by (simp add: cmpxchg_def Let_def getInt64_def get_le_def load_def mem_simps)

lemma cmpxchg_sbuf [simp]: "sbuf (snd (cmpxchg c a e d)) = []"
  by (simp add: cmpxchg_def Let_def drain_def)

lemma view_cmpxchg:
  "view (snd (cmpxchg c a e d)) =
     (if getInt64 c a = e then write_bytes (view c) a (enc 8 d) else view c)"
  by (simp add: cmpxchg_def Let_def getInt64_def get_le_def load_def mem_simps view_def drain_def)

text \<open>
  The compare-and-exchange instruction is an atomic update of the shared memory: it
  returns the value the thread sees at the address, and the memory it leaves (the buffer is
  empty, so every thread sees it) holds the desired value there if the value found was the
  expected one, the value found otherwise, and the bytes of every other address as the thread
  saw them.
\<close>

theorem cmpxchg_atomic:
  "case cmpxchg c a expected desired of (original, c') \<Rightarrow>
     original = getInt64 c a \<and> sbuf c' = [] \<and>
     getInt64 c' a = (if original = expected then desired else original) \<and>
     (\<forall>x. x < a \<or> a + 8 \<le> x \<longrightarrow> shared c' x = view c x)"
proof -
  obtain original c' where r: "cmpxchg c a expected desired = (original, c')" by fastforce
  have "view c' = shared c'" "sbuf c' = []"
    using cmpxchg_sbuf[of c a expected desired] r by (simp_all add: view_def)
  moreover have "original = getInt64 c a" using cmpxchg_fst[of c a expected desired] r by simp
  moreover have v: "view c' = (if original = expected then view (putInt64 c a desired) else view c)"
    using view_cmpxchg[of c a expected desired] r calculation by (simp add: mem_simps)
  moreover have "getInt64 c' a = (if original = expected then desired else original)"
    using v a64.get_view[of c' "putInt64 c a desired"] a64.get_view[of c' c] calculation
    by (auto simp: a64.get_put)
  ultimately show ?thesis
    using r a64.put_frame[of _ a c desired] by (auto split: if_splits)
qed

theorem cmpxchg_atomic_witness:
  "shared (snd (cmpxchg \<lparr>shared = (\<lambda>_. 0), sbuf = []\<rparr> 0 0 7)) (-3) = 0 \<and>
   shared (snd (cmpxchg \<lparr>shared = (\<lambda>_. 0), sbuf = []\<rparr> 0 0 7)) 12 = 0"
proof -
  let ?c = "\<lparr>shared = (\<lambda>_. 0), sbuf = []\<rparr>"
  obtain v c' where r: "cmpxchg ?c 0 0 7 = (v, c')" by fastforce
  from cmpxchg_atomic[of ?c 0 0 7] show ?thesis by (simp add: r view_def)
qed

end
