(* ===== verification/CacheLine.thy ===== *)
theory CacheLine
  imports Atomic64
begin

text \<open>
  \<^verbatim>\<open>src/main/cpp/CacheLine.h\<close>: a pointer and a length, and accessors at an offset from the
  pointer, none of which checks the offset against the length (the source says the bounds
  checks are removed on purpose). The pointer 0 is the null pointer. Offsets are signed 64-bit
  integers, except in \<^verbatim>\<open>compareAndSetInt64\<close>, where the offset is a 32-bit one.
\<close>

record cacheline =
  cl_buffer :: addr
  cl_length :: int64_t

definition CacheLine :: "addr \<Rightarrow> int64_t \<Rightarrow> cacheline" where
  "CacheLine buffer len = \<lparr>cl_buffer = buffer, cl_length = len\<rparr>"

definition CacheLine_getCapacity :: "cacheline \<Rightarrow> int64_t" where
  "CacheLine_getCapacity l = cl_length l"

definition CacheLine_setCapacity :: "cacheline \<Rightarrow> int64_t \<Rightarrow> cacheline" where
  "CacheLine_setCapacity l len = l\<lparr>cl_length := len\<rparr>"

definition CacheLine_getBuffer :: "cacheline \<Rightarrow> addr" where
  "CacheLine_getBuffer l = cl_buffer l"

definition CacheLine_setBuffer :: "cacheline \<Rightarrow> addr \<Rightarrow> cacheline" where
  "CacheLine_setBuffer l buffer = l\<lparr>cl_buffer := buffer\<rparr>"

definition isValid :: "cacheline \<Rightarrow> bool" where
  "isValid l \<longleftrightarrow> CacheLine_getBuffer l \<noteq> 0"

definition updateWrap :: "cacheline \<Rightarrow> addr \<Rightarrow> int64_t \<Rightarrow> cacheline" where
  "updateWrap l buffer len = CacheLine_setBuffer (CacheLine_setCapacity l len) buffer"

definition CacheLine_getInt8 :: "cpu \<Rightarrow> cacheline \<Rightarrow> int64_t \<Rightarrow> int8_t" where
  "CacheLine_getInt8 c l offset = get_le 1 c (cl_buffer l + sint offset)"

definition CacheLine_getInt16 :: "cpu \<Rightarrow> cacheline \<Rightarrow> int64_t \<Rightarrow> int16_t" where
  "CacheLine_getInt16 c l offset = getInt16 c (cl_buffer l + sint offset)"

definition CacheLine_getInt32 :: "cpu \<Rightarrow> cacheline \<Rightarrow> int64_t \<Rightarrow> int32_t" where
  "CacheLine_getInt32 c l offset = getInt32 c (cl_buffer l + sint offset)"

definition CacheLine_getInt64 :: "cpu \<Rightarrow> cacheline \<Rightarrow> int64_t \<Rightarrow> int64_t" where
  "CacheLine_getInt64 c l offset = getInt64 c (cl_buffer l + sint offset)"

definition CacheLine_putInt8 :: "cpu \<Rightarrow> cacheline \<Rightarrow> int64_t \<Rightarrow> int8_t \<Rightarrow> cpu" where
  "CacheLine_putInt8 c l offset v = putInt8 c (cl_buffer l + sint offset) v"

definition CacheLine_putInt16 :: "cpu \<Rightarrow> cacheline \<Rightarrow> int64_t \<Rightarrow> int16_t \<Rightarrow> cpu" where
  "CacheLine_putInt16 c l offset v = putInt16 c (cl_buffer l + sint offset) v"

definition CacheLine_putInt32 :: "cpu \<Rightarrow> cacheline \<Rightarrow> int64_t \<Rightarrow> int32_t \<Rightarrow> cpu" where
  "CacheLine_putInt32 c l offset v = putInt32 c (cl_buffer l + sint offset) v"

definition CacheLine_putInt64Ordered :: "cpu \<Rightarrow> cacheline \<Rightarrow> int64_t \<Rightarrow> int64_t \<Rightarrow> cpu" where
  "CacheLine_putInt64Ordered c l offset v = putInt64Ordered c (cl_buffer l + sint offset) v"

definition CacheLine_putInt64 :: "cpu \<Rightarrow> cacheline \<Rightarrow> int64_t \<Rightarrow> int64_t \<Rightarrow> cpu" where
  "CacheLine_putInt64 c l offset v = putInt64 c (cl_buffer l + sint offset) v"

definition compareAndSetInt64 ::
    "cpu \<Rightarrow> cacheline \<Rightarrow> int32_t \<Rightarrow> int64_t \<Rightarrow> int64_t \<Rightarrow> bool \<times> cpu" where
  "compareAndSetInt64 c l offset expectedValue updateValue =
     (let (original, c') = cmpxchg c (cl_buffer l + sint offset) expectedValue updateValue
      in (original = expectedValue, c'))"

definition setMemory :: "cpu \<Rightarrow> cacheline \<Rightarrow> int64_t \<Rightarrow> uint64_t \<Rightarrow> byte \<Rightarrow> cpu" where
  "setMemory c l offset len value =
     emit_bytes c (cl_buffer l + sint offset) (replicate (unat len) value)"

lemma updateWrap_fields [simp]:
  "cl_buffer (updateWrap l b n) = b" "cl_length (updateWrap l b n) = n"
  by (simp_all add: updateWrap_def CacheLine_setBuffer_def CacheLine_setCapacity_def)

lemma CacheLine_fields [simp]:
  "cl_buffer (CacheLine b n) = b" "cl_length (CacheLine b n) = n"
  by (simp_all add: CacheLine_def)

lemma view_setMemory [mem_simps]:
  "view (setMemory c l offset n v) =
     write_bytes (view c) (cl_buffer l + sint offset) (replicate (unat n) v)"
  by (simp add: setMemory_def mem_simps)

lemma compareAndSet_view:
  "view (snd (compareAndSetInt64 c l off e u)) =
     (if fst (compareAndSetInt64 c l off e u)
      then write_bytes (view c) (cl_buffer l + sint off) (enc 8 u) else view c)"
  by (simp add: compareAndSetInt64_def split_beta cmpxchg_fst view_cmpxchg)

lemma compareAndSet_fst:
  "fst (compareAndSetInt64 c l off e u) \<longleftrightarrow> getInt64 c (cl_buffer l + sint off) = e"
  by (simp add: compareAndSetInt64_def split_beta cmpxchg_fst)

lemma compareAndSet_sbuf [simp]: "sbuf (snd (compareAndSetInt64 c l off e u)) = []"
  by (simp add: compareAndSetInt64_def split_beta)

text \<open>
  Every accessor of a cache line round-trips at its own width: the value put at an offset
  is the value the getter of that width returns there, on the plain and on the ordered store.
\<close>

theorem CacheLine_put_get:
  "CacheLine_getInt8 (CacheLine_putInt8 c l off v8) l off = v8 \<and>
   CacheLine_getInt16 (CacheLine_putInt16 c l off v16) l off = v16 \<and>
   CacheLine_getInt32 (CacheLine_putInt32 c l off v32) l off = v32 \<and>
   CacheLine_getInt64 (CacheLine_putInt64 c l off v64) l off = v64 \<and>
   CacheLine_getInt64 (CacheLine_putInt64Ordered c l off v64) l off = v64"
proof -
  have "get_le 1 (putInt8 c a v) a = v" for c a and v :: int8_t
    by (simp add: get_le_def load_def mem_simps dec_enc)
  moreover have "getInt64 (putInt64Ordered c a v) a = v" for c a v
    using a64o.get_put[of c a v] by (simp add: getInt64_variants)
  ultimately show ?thesis
    by (simp add: CacheLine_getInt8_def CacheLine_putInt8_def CacheLine_getInt16_def
        CacheLine_putInt16_def CacheLine_getInt32_def CacheLine_putInt32_def
        CacheLine_getInt64_def CacheLine_putInt64_def CacheLine_putInt64Ordered_def
        a16.get_put a32.get_put a64.get_put)
qed

end
