(* ===== verification/Exceptions.thy ===== *)
theory Exceptions
  imports Prelude
begin

text \<open>
  The exception classes of \<^verbatim>\<open>util/Exceptions.h\<close>, \<^verbatim>\<open>util/CommandOption.h\<close> and \<^verbatim>\<open>concurrent\<close>. The message
  and the source position an exception carries are diagnostics and are left out; the error code of
  a \<^verbatim>\<open>RegistrationException\<close> is kept, and \<open>StandardException\<close> is a plain \<^verbatim>\<open>std::exception\<close>. A fallible function returns \<open>Inl e\<close> where the code throws \<open>e\<close>.

  Code that reads and writes memory and may throw is an action: a function from the state to the
  exception or the result and the state at that moment. A throw keeps what was written before it.
\<close>

datatype exn =
    IOException
  | FormatException
  | OutOfBoundsException
  | ParseException
  | ElementNotFound
  | IllegalArgumentException
  | IllegalStateException
  | DriverTimeoutException
  | CommandOptionException
  | RegistrationException int32_t
  | StandardException

type_synonym ('s, 'a) act = "'s \<Rightarrow> (exn + 'a) \<times> 's"

definition ret :: "'a \<Rightarrow> ('s, 'a) act" where
  "ret x c = (Inr x, c)"

definition throw :: "exn \<Rightarrow> ('s, 'a) act" where
  "throw e c = (Inl e, c)"

definition bind :: "('s, 'a) act \<Rightarrow> ('a \<Rightarrow> ('s, 'b) act) \<Rightarrow> ('s, 'b) act" where
  "bind m f c = (case m c of (Inl e, c') \<Rightarrow> (Inl e, c') | (Inr x, c') \<Rightarrow> f x c')"

definition andThen :: "('s, unit) act \<Rightarrow> ('s, 'b) act \<Rightarrow> ('s, 'b) act" where
  "andThen m k = bind m (\<lambda>_. k)"

definition guard :: "bool \<Rightarrow> exn \<Rightarrow> ('s, unit) act" where
  "guard fails e = (if fails then throw e else ret ())"

definition peek :: "('s \<Rightarrow> 'a) \<Rightarrow> ('s, 'a) act" where
  "peek f c = (Inr (f c), c)"

definition poke :: "('s \<Rightarrow> 's) \<Rightarrow> ('s, unit) act" where
  "poke f c = (Inr (), f c)"

definition exchange :: "('s \<Rightarrow> 'a \<times> 's) \<Rightarrow> ('s, 'a) act" where
  "exchange f c = (case f c of (x, c') \<Rightarrow> (Inr x, c'))"

lemma act_simps [simp]:
  "ret x c = (Inr x, c)" "throw e c = (Inl e, c)"
  "peek g c = (Inr (g c), c)" "poke h c = (Inr (), h c)" "exchange f c = (Inr (fst (f c)), snd (f c))"
  "guard b e c = (if b then Inl e else Inr (), c)"
  by (simp_all add: ret_def throw_def peek_def poke_def exchange_def guard_def split: prod.splits)

lemma bind_cases [simp]:
  "m c = (Inr x, c') \<Longrightarrow> bind m f c = f x c'" "m c = (Inl e, c') \<Longrightarrow> bind m f c = (Inl e, c')"
  "m' c = (Inr (), c') \<Longrightarrow> andThen m' k c = k c'" "m' c = (Inl e, c') \<Longrightarrow> andThen m' k c = (Inl e, c')"
  by (simp_all add: bind_def andThen_def)

lemma bind_laws:
  "bind (ret x) f = f x" "bind m ret = m" "bind (bind m f) g = bind m (\<lambda>x. bind (f x) g)"
  by (auto simp: bind_def ret_def fun_eq_iff split: prod.splits sum.splits)

lemma andThen_assoc:
  "andThen (andThen m k) l = andThen m (andThen k l)" "bind (andThen m n) f = andThen m (bind n f)"
  by (auto simp: bind_def andThen_def fun_eq_iff split: prod.splits sum.splits)

lemma bind_Inr_iff:
  "bind m f c = (Inr y, d) \<longleftrightarrow> (\<exists>x c'. m c = (Inr x, c') \<and> f x c' = (Inr y, d))"
  "andThen m' k c = (Inr y, d) \<longleftrightarrow> (\<exists>c'. m' c = (Inr (), c') \<and> k c' = (Inr y, d))"
  by (auto simp: bind_def andThen_def split: prod.splits sum.splits)

text \<open>A call that works on the first part of the state only.\<close>

definition on_fst :: "('c, 'a) act \<Rightarrow> ('c \<times> 'u, 'a) act" where
  "on_fst m s = (case m (fst s) of (r, c') \<Rightarrow> (r, (c', snd s)))"

lemma on_fst_simp [simp]: "m (fst s) = (r, c') \<Longrightarrow> on_fst m s = (r, (c', snd s))"
  by (simp add: on_fst_def)

text \<open>
  Calls that may not return: the result is then \<open>None\<close>. \<open>lift_act\<close> runs a call on the first part of
  the state.
\<close>

type_synonym ('s, 'a) oact = "'s \<Rightarrow> ((exn + 'a) \<times> 's) option"

definition oret :: "'a \<Rightarrow> ('s, 'a) oact" where
  "oret x s = Some (Inr x, s)"

definition obind :: "('s, 'a) oact \<Rightarrow> ('a \<Rightarrow> ('s, 'b) oact) \<Rightarrow> ('s, 'b) oact" where
  "obind m f s = (case m s of None \<Rightarrow> None | Some (Inl e, s') \<Rightarrow> Some (Inl e, s') | Some (Inr x, s') \<Rightarrow> f x s')"

definition lift_act :: "('c, 'a) act \<Rightarrow> ('c \<times> 'u, 'a) oact" where
  "lift_act m s = (case m (fst s) of (r, c') \<Rightarrow> Some (r, (c', snd s)))"

definition total :: "('s, 'a) act \<Rightarrow> ('s, 'a) oact" where
  "total m s = Some (m s)"

text \<open>A value that may be missing, and the outcome of a call that leaves the state alone.\<close>

definition ofOption :: "'a option \<Rightarrow> ('s, 'a) oact" where
  "ofOption v s = (case v of None \<Rightarrow> None | Some x \<Rightarrow> Some (Inr x, s))"

definition ofSum :: "exn + 'a \<Rightarrow> ('s, 'a) act" where
  "ofSum r s = (r, s)"

lemma oact_simps [simp]:
  "total b t' = Some (b t')"
  "oret x s = Some (Inr x, s)"
  "m s = Some (Inr x, s') \<Longrightarrow> obind m f s = f x s'" "m s = Some (Inl e, s') \<Longrightarrow> obind m f s = Some (Inl e, s')"
  "a (fst t) = (r, c') \<Longrightarrow> lift_act a t = Some (r, (c', snd t))"
  "ofOption (Some x) s = Some (Inr x, s)" "ofSum r t = (r, t)"
  by (simp_all add: oret_def obind_def lift_act_def total_def ofOption_def ofSum_def)

end
