(* ===== verification/MemoryMappedFile.thy ===== *)
theory MemoryMappedFile
  imports CacheLine Exceptions
begin

text \<open>
  The POSIX half of \<^verbatim>\<open>util/MemoryMappedFile.cpp\<close> (Aeron), through which the queue obtains its
  buffer. The system calls are the parameters of a record \<open>posix\<close>: \<open>px_stat\<close> gives the size of
  a file that exists and \<open>px_fstat\<close> that of an open one, \<open>px_open name creat\<close> says whether \<^verbatim>\<open>open\<close> succeeds (with \<^verbatim>\<open>O_CREAT\<close> or
  without), \<open>px_write k n\<close> is what the \<open>k\<close>-th \<^verbatim>\<open>write\<close> of a fill returns for a request of \<open>n\<close>
  bytes, converted to \<^verbatim>\<open>size_t\<close> as the code does, \<open>px_mmap n off\<close> is the address of a mapping of
  \<open>n\<close> bytes at file offset \<open>off\<close>, or \<open>None\<close> for \<^verbatim>\<open>MAP_FAILED\<close>.
\<close>

record posix =
  px_stat :: "string \<Rightarrow> int64_t option"
  px_fstat :: "string \<Rightarrow> int64_t"
  px_open :: "string \<Rightarrow> bool \<Rightarrow> bool"
  px_write :: "nat \<Rightarrow> uint64_t \<Rightarrow> uint64_t"
  px_mmap :: "uint64_t \<Rightarrow> uint64_t \<Rightarrow> addr option"
  px_pagesize :: uint64_t

record mmfile =
  mm_memory :: addr
  mm_memorySize :: uint64_t

definition getMemoryPtr :: "mmfile \<Rightarrow> addr" where
  "getMemoryPtr f = mm_memory f"

definition getMemorySize :: "mmfile \<Rightarrow> uint64_t" where
  "getMemorySize f = mm_memorySize f"

definition getPageSize :: "posix \<Rightarrow> uint64_t" where
  "getPageSize os = px_pagesize os"

definition getFileSize :: "posix \<Rightarrow> string \<Rightarrow> int64_t" where
  "getFileSize os filename = (case px_stat os filename of None \<Rightarrow> -1 | Some n \<Rightarrow> n)"

text \<open>
  \<open>fill\<close> writes a file of a given size page by page. The model returns, beside the code's
  boolean, the requests of the \<^verbatim>\<open>write\<close> calls it made. A page size of 0 would make the loop run
  forever, hence the option type.
\<close>

partial_function (option) fill :: "posix \<Rightarrow> nat \<Rightarrow> uint64_t \<Rightarrow> uint64_t list \<Rightarrow> (bool \<times> uint64_t list) option"
where
  "fill os k sz ws =
     (if getPageSize os \<le> sz
      then if px_write os k (getPageSize os) \<noteq> getPageSize os
           then Some (False, ws @ [getPageSize os])
           else fill os (Suc k) (sz - getPageSize os) (ws @ [getPageSize os])
      else if sz \<noteq> 0
      then Some (px_write os k sz = sz, ws @ [sz])
      else Some (True, ws))"

definition doMapping :: "posix \<Rightarrow> uint64_t \<Rightarrow> uint64_t \<Rightarrow> exn + addr" where
  "doMapping os len offset =
     (case px_mmap os len offset of None \<Rightarrow> Inl IOException | Some memory \<Rightarrow> Inr memory)"

text \<open>The constructor behind \<^verbatim>\<open>createNew\<close>: create, fill with zeroes, map.\<close>

definition createNew :: "posix \<Rightarrow> string \<Rightarrow> uint64_t \<Rightarrow> (exn + mmfile) option" where
  "createNew os filename len =
     (if \<not> px_open os filename True then Some (Inl IOException)
      else case fill os 0 len [] of
             None \<Rightarrow> None
           | Some (ok, _) \<Rightarrow>
               Some (if \<not> ok then Inl IOException
                     else case doMapping os len 0 of
                            Inl e \<Rightarrow> Inl e
                          | Inr p \<Rightarrow> Inr \<lparr>mm_memory = p, mm_memorySize = len\<rparr>))"

text \<open>
  The constructor behind \<^verbatim>\<open>mapExisting\<close>. Its POSIX definition names its parameters
  \<^verbatim>\<open>(filename, length, offset)\<close>; the class declares them, and both factories pass them, as
  \<^verbatim>\<open>(filename, offset, length)\<close>.
\<close>

definition MemoryMappedFile3 :: "posix \<Rightarrow> string \<Rightarrow> uint64_t \<Rightarrow> uint64_t \<Rightarrow> exn + mmfile" where
  "MemoryMappedFile3 os filename len offset =
     (if \<not> px_open os filename False then Inl IOException
      else let len = (if 0 = len \<and> 0 = offset then px_fstat os filename else len)
           in case doMapping os len offset of
                Inl e \<Rightarrow> Inl e
              | Inr p \<Rightarrow> Inr \<lparr>mm_memory = p, mm_memorySize = len\<rparr>)"

definition mapExisting :: "posix \<Rightarrow> string \<Rightarrow> exn + mmfile" where
  "mapExisting os filename = MemoryMappedFile3 os filename 0 0"

definition mapExisting_range :: "posix \<Rightarrow> string \<Rightarrow> uint64_t \<Rightarrow> uint64_t \<Rightarrow> exn + mmfile" where
  "mapExisting_range os filename offset len = MemoryMappedFile3 os filename offset len"

section \<open>Filling a file\<close>

lemma unat_diff_less:
  fixes p sz :: uint64_t
  assumes "0 < p" "p \<le> sz"
  shows "unat (sz - p) = unat sz - unat p" "unat p \<le> unat sz" "0 < unat p"
  using assms by (simp_all add: unat_sub word_le_nat_alt unat_gt_0 word_gt_0)

lemma fill_total:
  assumes "0 < getPageSize os" and ok: "\<And>k n. px_write os k n = n"
  shows "\<exists>ws'. fill os k sz ws = Some (True, ws @ ws') \<and>
      sum_list (map unat ws') = unat sz \<and> (\<forall>w\<in>set ws'. 0 < w \<and> w \<le> getPageSize os)"
proof (induction "unat sz" arbitrary: sz k ws rule: less_induct)
  case less
  let ?p = "getPageSize os"
  show ?case
  proof (cases "?p \<le> sz")
    case True
    note d = unat_diff_less[OF assms(1) True]
    have "unat (sz - ?p) < unat sz" using d by simp
    from less[OF this, of "Suc k" "ws @ [?p]"] obtain ws' where
      "fill os (Suc k) (sz - ?p) (ws @ [?p]) = Some (True, (ws @ [?p]) @ ws')"
      "sum_list (map unat ws') = unat (sz - ?p)" "\<forall>w\<in>set ws'. 0 < w \<and> w \<le> ?p" by blast
    then show ?thesis
      using True d ok assms(1) by (intro exI[of _ "?p # ws'"]) (simp add: fill.simps[of os k sz])
  next
    case False
    then show ?thesis
      using ok by (intro exI[of _ "if sz = 0 then [] else [sz]"])
        (auto simp: fill.simps[of os k sz] word_gt_0)
  qed
qed

lemma fill_returns:
  assumes "0 < getPageSize os"
  shows "\<exists>r. fill os k sz ws = Some r"
proof (induction "unat sz" arbitrary: sz k ws rule: less_induct)
  case less
  show ?case
  proof (cases "getPageSize os \<le> sz")
    case True
    then have "unat (sz - getPageSize os) < unat sz"
      using unat_diff_less[OF assms True] by simp
    from less[OF this] True show ?thesis by (subst fill.simps) auto
  next
    case False
    then show ?thesis by (subst fill.simps) auto
  qed
qed

text \<open>
  On a machine whose page size is not 0, \<^verbatim>\<open>fill\<close> always returns; when every \<^verbatim>\<open>write\<close> is
  complete it returns true after writing exactly the requested number of bytes, in requests of
  between 1 byte and one page.
\<close>

theorem fill_writes_exactly:
  assumes "0 < getPageSize os"
  shows "(\<exists>r. fill os 0 sz [] = Some r) \<and>
    ((\<forall>k n. px_write os k n = n) \<longrightarrow>
       (\<exists>ws. fill os 0 sz [] = Some (True, ws) \<and> sum_list (map unat ws) = unat sz \<and>
          (\<forall>w\<in>set ws. 0 < w \<and> w \<le> getPageSize os)))"
  using fill_returns[OF assms] fill_total[OF assms, of 0 sz "[]"] by auto

theorem fill_writes_exactly_witness:
  "fill \<lparr>px_stat = (\<lambda>_. None), px_fstat = (\<lambda>_. 8192), px_open = (\<lambda>_ _. True), px_write = (\<lambda>_ n. n),
         px_mmap = (\<lambda>_ _. Some 4096), px_pagesize = 4096\<rparr> 0 10000 [] = Some (True, [4096, 4096, 1808])"
proof -
  let ?os = "\<lparr>px_stat = (\<lambda>_. None), px_fstat = (\<lambda>_. 8192), px_open = (\<lambda>_ _. True), px_write = (\<lambda>_ n. n),
         px_mmap = (\<lambda>_ _. Some 4096), px_pagesize = 4096\<rparr>"
  have "0 < getPageSize ?os" by (simp add: getPageSize_def)
  from fill_writes_exactly[OF this, of 10000] obtain ws where
    "fill ?os 0 10000 [] = Some (True, ws)" by auto
  moreover have "fill ?os 0 10000 [] = Some (True, [4096, 4096, 1808])"
    by (simp add: fill.simps getPageSize_def)
  ultimately show ?thesis by simp
qed

text \<open>
  Mapping a range of an existing file swaps its two arguments: the mapping asked for at
  \<open>offset\<close> with \<open>len\<close> bytes is one of \<open>offset\<close> bytes at file offset \<open>len\<close>. Only a request for
  the whole file (both 0) is unaffected.
\<close>

theorem mapExisting_range_swapped:
  assumes "px_open os filename False" "offset \<noteq> 0"
  shows "mapExisting_range os filename offset len =
    (case px_mmap os offset len of
       None \<Rightarrow> Inl IOException
     | Some p \<Rightarrow> Inr \<lparr>mm_memory = p, mm_memorySize = offset\<rparr>)"
  using assms
  by (auto simp: mapExisting_range_def MemoryMappedFile3_def doMapping_def split: option.splits)

theorem mapExisting_range_swapped_witness:
  "mapExisting_range \<lparr>px_stat = (\<lambda>_. Some 8192), px_fstat = (\<lambda>_. 8192), px_open = (\<lambda>_ _. True), px_write = (\<lambda>_ n. n),
      px_mmap = (\<lambda>_ _. Some 65536), px_pagesize = 4096\<rparr> ''q'' 4096 100
    = Inr \<lparr>mm_memory = 65536, mm_memorySize = 4096\<rparr>"
  using mapExisting_range_swapped[of "\<lparr>px_stat = (\<lambda>_. Some 8192), px_fstat = (\<lambda>_. 8192), px_open = (\<lambda>_ _. True),
      px_write = (\<lambda>_ n. n), px_mmap = (\<lambda>_ _. Some 65536), px_pagesize = 4096\<rparr>" "''q''" 4096 100]
  by simp

end
