(* ===== verification/CPUStats.thy ===== *)
theory CPUStats
  imports Prelude
begin

text \<open>
  \<^verbatim>\<open>src/main/cpp/CPUStats.h\<close>, \<^verbatim>\<open>CPUStats.cpp\<close>: the cache geometry of the machine. One of four
  bodies of \<^verbatim>\<open>initStat\<close> is compiled, by platform; the operating system's answers are parameters:
  \<open>sysctl name\<close> is the value \<^verbatim>\<open>sysctlbyname\<close> stores, or \<open>None\<close> when it fails and leaves the
  variable alone, \<open>sysconf\<close> is the returned \<^verbatim>\<open>long\<close>, and \<open>glpi\<close> is the pair of what the first
  (sizing) call of \<^verbatim>\<open>GetLogicalProcessorInformation\<close> returned and of the descriptors the second
  call filled in.
\<close>

type_synonym size_t = "64 word"

record cpustats =
  m_lineSize :: size_t
  m_l1CacheSize :: size_t
  m_l2CacheSize :: size_t
  m_l3CacheSize :: size_t

definition zero_stats :: cpustats where
  "zero_stats = \<lparr>m_lineSize = 0, m_l1CacheSize = 0, m_l2CacheSize = 0, m_l3CacheSize = 0\<rparr>"

definition initStat_apple :: "(string \<Rightarrow> size_t option) \<Rightarrow> cpustats \<Rightarrow> cpustats" where
  "initStat_apple sysctl s =
     (let rd = (\<lambda>name old. case sysctl name of None \<Rightarrow> old | Some v \<Rightarrow> v);
          s = s\<lparr>m_lineSize := rd ''hw.cachelinesize'' (m_lineSize s)\<rparr>;
          s = s\<lparr>m_l1CacheSize := rd ''hw.l1dcachesize'' (m_l1CacheSize s)\<rparr>;
          s = s\<lparr>m_l2CacheSize := rd ''hw.l2cachesize'' (m_l2CacheSize s)\<rparr>;
          s = s\<lparr>m_l3CacheSize := rd ''hw.l3cachesize'' (m_l3CacheSize s)\<rparr>
      in s)"

text \<open>A processor descriptor: whether it describes a cache, its level, line size and size.\<close>

record lpinfo =
  isRelationCache :: bool
  cacheLevel :: nat
  cacheLineSize :: "16 word"
  cacheSize :: "32 word"

fun win_scan :: "lpinfo list \<Rightarrow> cpustats \<Rightarrow> cpustats" where
  "win_scan [] s = s"
| "win_scan (b # bs) s =
     (if isRelationCache b \<and> cacheLevel b = 1
      then s\<lparr>m_lineSize := ucast (cacheLineSize b), m_l1CacheSize := ucast (cacheSize b)\<rparr>
      else if isRelationCache b \<and> cacheLevel b = 2 then s\<lparr>m_l2CacheSize := ucast (cacheSize b)\<rparr>
      else if isRelationCache b \<and> cacheLevel b = 3 then s\<lparr>m_l3CacheSize := ucast (cacheSize b)\<rparr>
      else win_scan bs s)"

definition initStat_win32 :: "bool \<times> lpinfo list \<Rightarrow> cpustats \<Rightarrow> cpustats" where
  "initStat_win32 glpi s = (if \<not> fst glpi then s else win_scan (snd glpi) s)"

datatype sc_name =
    SC_LEVEL1_ICACHE_LINESIZE | SC_LEVEL1_DCACHE_SIZE | SC_LEVEL2_CACHE_SIZE | SC_LEVEL3_CACHE_SIZE

definition initStat_linux :: "(sc_name \<Rightarrow> int64_t) \<Rightarrow> cpustats \<Rightarrow> cpustats" where
  "initStat_linux sysconf s =
     s\<lparr>m_lineSize := sysconf SC_LEVEL1_ICACHE_LINESIZE,
       m_l1CacheSize := sysconf SC_LEVEL1_DCACHE_SIZE,
       m_l2CacheSize := sysconf SC_LEVEL2_CACHE_SIZE,
       m_l3CacheSize := sysconf SC_LEVEL3_CACHE_SIZE\<rparr>"

definition initStat_solaris :: "cpustats \<Rightarrow> cpustats" where
  "initStat_solaris s =
     s\<lparr>m_lineSize := 64, m_l1CacheSize := 32768, m_l2CacheSize := 4194304, m_l3CacheSize := 0\<rparr>"

datatype platform =
    Apple "string \<Rightarrow> size_t option"
  | Win32 "bool \<times> lpinfo list"
  | Linux "sc_name \<Rightarrow> int64_t"
  | Solaris

fun initStat :: "platform \<Rightarrow> cpustats \<Rightarrow> cpustats" where
  "initStat (Apple sysctl) s = initStat_apple sysctl s"
| "initStat (Win32 glpi) s = initStat_win32 glpi s"
| "initStat (Linux sysconf) s = initStat_linux sysconf s"
| "initStat Solaris s = initStat_solaris s"

definition CPUStats :: "platform \<Rightarrow> cpustats" where
  "CPUStats p = initStat p zero_stats"

definition getCacheLineSize :: "cpustats \<Rightarrow> size_t" where
  "getCacheLineSize s = m_lineSize s"

definition getL1CacheSize :: "cpustats \<Rightarrow> size_t" where
  "getL1CacheSize s = m_l1CacheSize s"

definition getL2CacheSize :: "cpustats \<Rightarrow> size_t" where
  "getL2CacheSize s = m_l2CacheSize s"

definition getL3CacheSize :: "cpustats \<Rightarrow> size_t" where
  "getL3CacheSize s = m_l3CacheSize s"

text \<open>What \<^verbatim>\<open>CPUStatsMain.cpp\<close> prints, as its four labelled numbers.\<close>

definition CPUStatsMain :: "platform \<Rightarrow> (string \<times> size_t) list" where
  "CPUStatsMain p =
     (let stats = CPUStats p in
      [(''Cache Line Size is: '', getCacheLineSize stats), (''l1 Cache Size is: '', getL1CacheSize stats),
       (''l2 Cache Size is: '', getL2CacheSize stats), (''l3 Cache Size is: '', getL3CacheSize stats)])"

lemma win_scan_one_level:
  "(m_l2CacheSize (win_scan bs zero_stats) \<noteq> 0 \<or> m_l3CacheSize (win_scan bs zero_stats) \<noteq> 0 \<longrightarrow>
      m_lineSize (win_scan bs zero_stats) = 0 \<and> m_l1CacheSize (win_scan bs zero_stats) = 0) \<and>
   (m_l2CacheSize (win_scan bs zero_stats) = 0 \<or> m_l3CacheSize (win_scan bs zero_stats) = 0)"
  by (induction bs) (auto simp: zero_stats_def)

text \<open>
  The Windows body stops at the first cache descriptor of any level, whatever the machine
  reports: when a level-2 or level-3 size is filled in, the line size and the level-1 size stay
  0, and at most one of the three sizes is ever filled in.
\<close>

theorem initStat_win32_single_level:
  fixes glpi :: "bool \<times> lpinfo list"
  defines "s \<equiv> CPUStats (Win32 glpi)"
  shows "(getL2CacheSize s \<noteq> 0 \<or> getL3CacheSize s \<noteq> 0 \<longrightarrow>
            getCacheLineSize s = 0 \<and> getL1CacheSize s = 0) \<and>
         (getL2CacheSize s = 0 \<or> getL3CacheSize s = 0)"
proof (cases "fst glpi")
  case True
  then show ?thesis
    using win_scan_one_level[of "snd glpi"]
    by (simp add: s_def CPUStats_def initStat_win32_def getL1CacheSize_def getL2CacheSize_def
        getL3CacheSize_def getCacheLineSize_def)
next
  case False
  then show ?thesis
    by (simp add: s_def CPUStats_def initStat_win32_def getL1CacheSize_def getL2CacheSize_def
        getL3CacheSize_def getCacheLineSize_def zero_stats_def)
qed

theorem initStat_win32_single_level_witness:
  "getCacheLineSize (CPUStats (Win32 (True,
     [\<lparr>isRelationCache = True, cacheLevel = 2, cacheLineSize = 64, cacheSize = 262144\<rparr>,
      \<lparr>isRelationCache = True, cacheLevel = 1, cacheLineSize = 64, cacheSize = 32768\<rparr>]))) = 0"
  using initStat_win32_single_level[of "(True,
     [\<lparr>isRelationCache = True, cacheLevel = 2, cacheLineSize = 64, cacheSize = 262144\<rparr>,
      \<lparr>isRelationCache = True, cacheLevel = 1, cacheLineSize = 64, cacheSize = 32768\<rparr>])"]
  by (simp add: CPUStats_def initStat_win32_def getL2CacheSize_def zero_stats_def)

end
