(* ===== verification/BitUtil.thy ===== *)
theory BitUtil
  imports Prelude "HOL-Library.Signed_Division"
begin

text \<open>
  \<^verbatim>\<open>util/BitUtil.h\<close> of the Aeron client library that the queue is compiled against.
  The functions are templates; the models are polymorphic in the word width, with \<open>sint\<close> where
  a comparison of the template's signed instances needs the sign. Their arithmetic wraps.
\<close>

definition CACHE_LINE_LENGTH :: nat where
  [layout]: "CACHE_LINE_LENGTH = 64"

definition isPowerOfTwo :: "'a::len word \<Rightarrow> bool" where
  "isPowerOfTwo value \<longleftrightarrow> 0 < sint value \<and> value AND (NOT value + 1) = value"

definition align :: "'a::len word \<Rightarrow> 'a word \<Rightarrow> 'a word" where
  "align value alignment = (value + (alignment - 1)) AND NOT (alignment - 1)"

definition isEven :: "'a::len word \<Rightarrow> bool" where
  "isEven value \<longleftrightarrow> value AND 1 = 0"

definition next_in :: "'a::len word \<Rightarrow> 'a word \<Rightarrow> 'a word" where
  "next_in current limit = (let next = current + 1 in if next = limit then 0 else next)"

definition previous_in :: "'a::len word \<Rightarrow> 'a word \<Rightarrow> 'a word" where
  "previous_in current limit = (if 0 = current then limit - 1 else current - 1)"

text \<open>\<^verbatim>\<open>__builtin_clz\<close> on a 32-bit value; the compiler leaves the result for 0 undefined, here 32.\<close>

fun bit_length :: "nat \<Rightarrow> nat" where
  "bit_length 0 = 0"
| "bit_length n = Suc (bit_length (n div 2))"

definition numberOfLeadingZeroes :: "32 word \<Rightarrow> nat" where
  "numberOfLeadingZeroes value = 32 - bit_length (unat value)"

text \<open>The portable branch of \<^verbatim>\<open>numberOfTrailingZeroes\<close> (\<^verbatim>\<open>char\<close> table, unsigned shift).\<close>

definition ntz_table :: "nat list" where
  "ntz_table = [0, 1, 2, 24, 3, 19, 6, 25, 22, 4, 20, 10, 16, 7, 12, 26,
     31, 23, 18, 5, 21, 9, 15, 11, 30, 17, 8, 14, 29, 13, 28, 27]"

definition numberOfTrailingZeroes :: "32 word \<Rightarrow> nat" where
  "numberOfTrailingZeroes value =
     (if value = 0 then 32
      else ntz_table ! unat (drop_bit 27 ((value AND (- value)) * 0x04D7651F)))"

definition findNextPowerOfTwo :: "32 word \<Rightarrow> 32 word" where
  "findNextPowerOfTwo value = push_bit (32 - numberOfLeadingZeroes (value - 1)) 1"

definition mod3_table :: "nat list" where
  "mod3_table = concat (replicate 20 [0, 1, 2]) @ [0, 1]"

text \<open>
  The template \<^verbatim>\<open>fastMod3\<close> for unsigned types, whose right shifts are logical, and its instance for
  \<^verbatim>\<open>int\<close>, whose right shifts keep the sign. \<open>None\<close> is a read outside the table.
\<close>

definition fastMod3 :: "'a::len word \<Rightarrow> nat option" where
  "fastMod3 value =
     (let value = drop_bit 16 value + (value AND 0xFFFF);
          value = drop_bit 8 value + (value AND 0x00FF);
          value = drop_bit 4 value + (value AND 0x000F)
      in if unat value < length mod3_table then Some (mod3_table ! unat value) else None)"

definition fastMod3_int :: "int32_t \<Rightarrow> nat option" where
  "fastMod3_int value =
     (let value = signed_drop_bit 16 value + (value AND 0xFFFF);
          value = signed_drop_bit 8 value + (value AND 0x00FF);
          value = signed_drop_bit 4 value + (value AND 0x000F)
      in if 0 \<le> sint value \<and> nat (sint value) < length mod3_table
         then Some (mod3_table ! nat (sint value)) else None)"

section \<open>Powers of two\<close>

lemma bit_length_bounds: "0 < n \<Longrightarrow> 2 ^ (bit_length n - 1) \<le> n \<and> n < 2 ^ bit_length n \<and> 0 < bit_length n"
proof (induction n rule: bit_length.induct)
  case 1
  then show ?case by simp
next
  case (2 m)
  let ?n = "Suc m" and ?h = "Suc m div 2"
  show ?case
  proof (cases "?h = 0")
    case True
    then have "m = 0" by simp
    then show ?thesis by simp
  next
    case False
    then have ih: "2 ^ (bit_length ?h - 1) \<le> ?h" "?h < 2 ^ bit_length ?h" "0 < bit_length ?h"
      using 2 by auto
    obtain j where j: "bit_length ?h = Suc j" using ih(3) by (cases "bit_length ?h") auto
    have "2 * ?h \<le> ?n" "?n < 2 * ?h + 2" by linarith+
    with ih show ?thesis by (simp add: j)
  qed
qed

lemma bit_length_le: "n < 2 ^ k \<Longrightarrow> bit_length n \<le> k"
proof (rule ccontr)
  assume n: "n < 2 ^ k" "\<not> bit_length n \<le> k"
  then have "0 < n" by (cases n) auto
  then have "2 ^ (bit_length n - 1) \<le> n" using bit_length_bounds by blast
  moreover have "(2::nat) ^ k \<le> 2 ^ (bit_length n - 1)" using n(2) by (intro power_increasing) auto
  ultimately show False using n(1) by linarith
qed

lemma bit_unat: "bit (w :: 'a::len word) n \<longleftrightarrow> odd (unat w div 2 ^ n)"
  by (simp add: bit_unsigned_iff flip: bit_iff_odd)

lemma top_bit: "0 < unat w \<Longrightarrow> bit (w :: 'a::len word) (bit_length (unat w) - 1)"
proof -
  assume "0 < unat w"
  then have b: "2 ^ (bit_length (unat w) - 1) \<le> unat w" "unat w < 2 ^ bit_length (unat w)" "0 < bit_length (unat w)"
    using bit_length_bounds by blast+
  then have "unat w < 2 * 2 ^ (bit_length (unat w) - 1)"
    by (metis power_Suc Suc_diff_1)
  with b(1) have "unat w div 2 ^ (bit_length (unat w) - 1) = 1"
    by (intro div_nat_eqI) simp_all
  then show ?thesis by (simp add: bit_unat)
qed

lemma and_pred_0:
  assumes "w AND (w - 1) = 0" "w \<noteq> (0 :: 'a::len word)"
  shows "\<exists>k. unat w = 2 ^ k"
proof (rule ccontr)
  let ?n = "unat w" and ?k = "bit_length (unat w) - 1"
  assume not2: "\<nexists>k. unat w = 2 ^ k"
  have n: "0 < ?n" using assms(2) by (simp add: unat_gt_0)
  then have b: "2 ^ ?k \<le> ?n" "?n < 2 ^ bit_length ?n" "0 < bit_length ?n" using bit_length_bounds by blast+
  then have up: "?n < 2 * 2 ^ ?k" by (metis power_Suc Suc_diff_1)
  have "unat (w - 1) = ?n - 1" using assms(2) by (metis One_nat_def unat_minus_one)
  moreover have "2 ^ ?k \<noteq> ?n" using not2 by metis
  ultimately have "unat (w - 1) div 2 ^ ?k = 1" using b(1) up by (intro div_nat_eqI) simp_all
  then have "bit (w - 1) ?k" by (simp add: bit_unat)
  with top_bit[OF n] have "bit (w AND (w - 1)) ?k" by (simp add: bit_and_iff)
  with assms(1) show False by simp
qed

lemma isPowerOfTwo_unat:
  assumes "isPowerOfTwo (w :: 'a::len word)"
  shows "\<exists>k. unat w = 2 ^ k \<and> sint w = 2 ^ k"
proof -
  have pos: "0 < sint w" and a: "w AND - w = w"
    using assms by (auto simp: isPowerOfTwo_def minus_eq_not_plus_1 add.commute)
  have "w AND (w - 1) = 0"
  proof (rule bit_word_eqI)
    fix n assume n: "n < LENGTH('a)"
    have "- w = NOT (w - 1)" by (simp add: minus_eq_not_minus_1 not_diff_distrib)
    then have "bit w n \<Longrightarrow> \<not> bit (w - 1) n" using a n by (metis bit_and_iff bit_not_iff)
    then show "bit (w AND (w - 1)) n = bit 0 n" by (auto simp: bit_and_iff)
  qed
  moreover have "w \<noteq> 0" using pos by auto
  ultimately obtain k where k: "unat w = 2 ^ k" using and_pred_0 by blast
  have "sint w = int (unat w)" using pos by (intro sint_nonneg_unat) simp
  with k show ?thesis by auto
qed

lemma findNextPowerOfTwo_least:
  assumes "2 \<le> unat v" "unat v \<le> 2 ^ 31"
  shows "\<exists>k. unat (findNextPowerOfTwo v) = 2 ^ k \<and> unat v \<le> 2 ^ k \<and> (\<forall>j. unat v \<le> 2 ^ j \<longrightarrow> k \<le> j)"
proof -
  let ?m = "unat v - 1" and ?k = "bit_length (unat v - 1)"
  have v1: "unat (v - 1) = ?m" using assms by (metis One_nat_def unat_minus_one unat_0 not_numeral_le_zero)
  have k: "?k \<le> 31" using assms by (intro bit_length_le) simp
  have b: "2 ^ (?k - 1) \<le> ?m" "?m < 2 ^ ?k" "0 < ?k" using bit_length_bounds[of ?m] assms by auto
  have "findNextPowerOfTwo v = push_bit ?k 1"
    using k by (simp add: findNextPowerOfTwo_def numberOfLeadingZeroes_def v1)
  then have f: "findNextPowerOfTwo v = of_nat (2 ^ ?k)" by simp
  have "(2::nat) ^ ?k < 2 ^ LENGTH(32)" using k by (intro power_strict_increasing) auto
  then have r: "unat (findNextPowerOfTwo v) = 2 ^ ?k" unfolding f by (rule unat_of_nat_small)
  have "?k \<le> j" if "unat v \<le> 2 ^ j" for j
  proof -
    have "?m < 2 ^ j" using that assms by linarith
    then show ?thesis by (rule bit_length_le)
  qed
  with r b show ?thesis using assms by (intro exI[of _ ?k]) auto
qed

text \<open>
  \<^verbatim>\<open>findNextPowerOfTwo\<close> returns the least power of two that is not below its argument, for the
  arguments from 2 up to \<open>2 ^ 31\<close> (at 1 the source calls \<^verbatim>\<open>__builtin_clz\<close> with 0, and above \<open>2 ^ 31\<close>
  there is no such power in 32 bits).
\<close>

theorem findNextPowerOfTwo_correct:
  assumes "2 \<le> unat v" "unat v \<le> 2 ^ 31"
  shows "\<exists>k. unat (findNextPowerOfTwo v) = 2 ^ k \<and> unat v \<le> 2 ^ k \<and> (\<forall>j. unat v \<le> 2 ^ j \<longrightarrow> k \<le> j)"
  using findNextPowerOfTwo_least[OF assms] .

theorem findNextPowerOfTwo_correct_witness: "\<exists>k. unat (findNextPowerOfTwo 1000) = 2 ^ k \<and> 1000 \<le> (2::nat) ^ k"
  using findNextPowerOfTwo_correct[of 1000] by auto

section \<open>Alignment\<close>

lemma and_not_mask: "(w :: 'a::len word) AND NOT (mask k) = push_bit k (drop_bit k w)"
  by (rule bit_word_eqI) (auto simp: bit_simps)

lemma unat_and_not_mask: "unat ((w :: 'a::len word) AND NOT (mask k)) = unat w div 2 ^ k * 2 ^ k"
proof -
  have "unat w div 2 ^ k * 2 ^ k \<le> unat w" by simp
  also have "\<dots> < 2 ^ LENGTH('a)" by (rule unsigned_less)
  finally have "take_bit LENGTH('a) (unat w div 2 ^ k * 2 ^ k) = unat w div 2 ^ k * 2 ^ k"
    by (simp only: take_bit_eq_mod mod_less)
  then show ?thesis
    by (simp only: and_not_mask unsigned_push_bit_eq unat_drop_bit_eq drop_bit_eq_div[of k "unat w"]
        push_bit_eq_mult[of k "unat w div 2 ^ k"])
qed

lemma align_unat:
  fixes v :: "'a::len word"
  assumes "unat v + (2 ^ k - 1) < 2 ^ LENGTH('a)" "k < LENGTH('a)"
  shows "unat (align v (2 ^ k)) = (unat v + (2 ^ k - 1)) div 2 ^ k * 2 ^ k"
proof -
  have m: "(2 ^ k - 1 :: 'a word) = mask k" by (simp add: mask_eq_exp_minus_1)
  have "(2::nat) ^ k < 2 ^ LENGTH('a)" using assms(2) by (intro power_strict_increasing) auto
  then have "(mask k :: nat) < 2 ^ LENGTH('a)" by (simp only: mask_nat_def less_imp_diff_less)
  then have "unat (of_nat (mask k) :: 'a word) = mask k" by (rule unat_of_nat_small)
  then have u: "unat (mask k :: 'a word) = 2 ^ k - 1" by (simp only: of_nat_mask_eq) (simp only: mask_nat_def)
  have "unat (v + mask k) = unat v + (2 ^ k - 1)"
    using assms(1) by (simp add: unat_word_ariths(1) u)
  then show ?thesis by (simp add: align_def m unat_and_not_mask)
qed

lemma align_of_nat:
  assumes "n + (2 ^ k - 1) < 2 ^ 32" "k < 32"
  shows "align (of_nat n :: 32 word) (2 ^ k) = of_nat ((n + (2 ^ k - 1)) div 2 ^ k * 2 ^ k)"
proof -
  have "n < 2 ^ LENGTH(32)" using le_less_trans[OF le_add1 assms(1)] by simp
  then have u: "unat (of_nat n :: 32 word) = n" by (rule unat_of_nat_small)
  have "(n + (2 ^ k - 1)) div 2 ^ k * 2 ^ k \<le> n + (2 ^ k - 1)" by (metis div_times_less_eq_dividend)
  from le_less_trans[OF this assms(1)] have "(n + (2 ^ k - 1)) div 2 ^ k * 2 ^ k < 2 ^ LENGTH(32)" by simp
  then have "unat (of_nat ((n + (2 ^ k - 1)) div 2 ^ k * 2 ^ k) :: 32 word) = (n + (2 ^ k - 1)) div 2 ^ k * 2 ^ k"
    by (rule unat_of_nat_small)
  moreover have "unat (align (of_nat n :: 32 word) (2 ^ k)) = (n + (2 ^ k - 1)) div 2 ^ k * 2 ^ k"
    using align_unat[of "of_nat n :: 32 word" k] assms unfolding u by simp
  ultimately show ?thesis by (simp only: word_unat_eq_iff)
qed

lemma align_facts:
  fixes n k :: nat
  defines "a \<equiv> (n + (2 ^ k - 1)) div 2 ^ k * 2 ^ k"
  shows "n \<le> a" "a < n + 2 ^ k" "2 ^ k dvd a" "2 ^ k dvd n \<Longrightarrow> a = n"
proof -
  let ?p = "(2::nat) ^ k"
  have p: "0 < ?p" by simp
  have m: "a = n + (?p - 1) - (n + (?p - 1)) mod ?p" by (simp add: a_def minus_mod_eq_div_mult)
  have "(n + (?p - 1)) mod ?p < ?p" using p by (rule mod_less_divisor)
  with m p show "n \<le> a" by linarith
  show "a < n + ?p" using m p by linarith
  show "?p dvd a" by (simp add: a_def)
  show "a = n" if "?p dvd n"
  proof -
    from that obtain c where c: "n = c * ?p" by (metis dvd_def mult.commute)
    have "(c * ?p + (?p - 1)) div ?p = c + (?p - 1) div ?p" using p by (intro div_mult_self3) simp
    also have "(?p - 1) div ?p = 0" using p by simp
    finally have "(c * ?p + (?p - 1)) div ?p = c" by simp
    then show ?thesis by (simp add: a_def c)
  qed
qed

text \<open>
  \<^verbatim>\<open>align\<close> to a power of two rounds up: the result is the least multiple of the alignment that
  is not below the value, as long as the sum fits the type.
\<close>

theorem align_correct:
  fixes v :: "'a::len word"
  assumes "unat v + (2 ^ k - 1) < 2 ^ LENGTH('a)" "k < LENGTH('a)"
  shows "2 ^ k dvd unat (align v (2 ^ k)) \<and> unat v \<le> unat (align v (2 ^ k)) \<and>
    unat (align v (2 ^ k)) < unat v + 2 ^ k \<and> (2 ^ k dvd unat v \<longrightarrow> align v (2 ^ k) = v)"
  using align_facts[where n = "unat v" and k = k] align_unat[OF assms] by (metis unsigned_word_eqI)

theorem align_correct_witness: "32 dvd unat (align (100 :: 32 word) (2 ^ 5)) \<and> 100 \<le> unat (align (100 :: 32 word) (2 ^ 5))"
  using align_correct[of "100 :: 32 word" 5] by simp

section \<open>Division-free remainder and trailing zeroes\<close>

lemma mod3_table_nth: "i < 62 \<Longrightarrow> mod3_table ! i = i mod 3"
proof -
  have "list_all (\<lambda>i. mod3_table ! i = i mod 3) [0..<62]" by code_simp
  then show "i < 62 \<Longrightarrow> mod3_table ! i = i mod 3" by (simp add: list_all_iff)
qed

lemma fold_digits:
  fixes v :: "'a::len word"
  assumes "unat v div 2 ^ n + unat v mod 2 ^ n < 2 ^ 32" "32 \<le> LENGTH('a)"
  shows "unat (drop_bit n v + (v AND mask n)) = unat v div 2 ^ n + unat v mod 2 ^ n"
proof -
  have "(2::nat) ^ 32 \<le> 2 ^ LENGTH('a)" using assms(2) by (intro power_increasing) simp_all
  then have "unat v div 2 ^ n + unat v mod 2 ^ n < 2 ^ LENGTH('a)" using assms(1) by linarith
  then show ?thesis
    by (simp only: unat_word_ariths(1) unat_drop_bit_eq drop_bit_eq_div[of n "unat v"] and_mask_take_bit
        unat_take_bit mod_less)
qed

lemma digits_mod3:
  fixes x p :: nat
  assumes "p mod 3 = 1"
  shows "(x div p + x mod p) mod 3 = x mod 3"
proof -
  have "x mod 3 = (x div p * p + x mod p) mod 3" by simp
  also have "\<dots> = (x div p * (p mod 3) + x mod p) mod 3"
    by (metis mod_add_left_eq mod_mult_right_eq)
  finally show ?thesis using assms by simp
qed

lemma length_mod3_table: "length mod3_table = 62"
  by (simp add: mod3_table_def length_concat sum_list_replicate)

lemma fastMod3_mod:
  fixes v :: "'a::len word"
  assumes "unat v < 2 ^ 32" "32 \<le> LENGTH('a)"
  shows "fastMod3 v = Some (unat v mod 3)"
proof -
  define a b c where "a = drop_bit 16 v + (v AND 0xFFFF)" and "b = drop_bit 8 a + (a AND 0x00FF)"
    and "c = drop_bit 4 b + (b AND 0x000F)"
  have msk: "(0xFFFF :: 'a word) = mask 16" "(0x00FF :: 'a word) = mask 8" "(0x000F :: 'a word) = mask 4"
    by (simp_all add: mask_eq_exp_minus_1)
  note fold = fold_digits[OF _ assms(2)]
  have a: "unat a = unat v div 2 ^ 16 + unat v mod 2 ^ 16"
    unfolding a_def msk using assms(1) by (intro fold) simp
  have "unat v div 2 ^ 16 < 2 ^ 16" using assms(1) by simp
  then have al: "unat a \<le> 131070" using a by simp
  have b: "unat b = unat a div 2 ^ 8 + unat a mod 2 ^ 8"
    unfolding b_def msk using al by (intro fold) simp
  have bl: "unat b \<le> 766" using b al by simp
  have c: "unat c = unat b div 2 ^ 4 + unat b mod 2 ^ 4"
    unfolding c_def msk using bl by (intro fold) simp
  obtain x y where xy: "unat b = 16 * x + y" "y < 16" "unat b div 16 = x" "unat b mod 16 = y"
    by (metis mult_div_mod_eq mod_less_divisor zero_less_numeral)
  have "x + y < 62"
  proof (cases "x = 47")
    case True
    then show ?thesis using xy bl by simp
  next
    case False
    then show ?thesis using xy bl by simp
  qed
  then have "unat b div 16 + unat b mod 16 < 62" using xy by simp
  then have "unat c < 62" using c by simp
  then have "fastMod3 v = Some (unat c mod 3)"
    by (simp add: fastMod3_def Let_def mod3_table_nth length_mod3_table flip: a_def b_def c_def)
  moreover have "unat c mod 3 = unat v mod 3" unfolding c b a
    using digits_mod3[of "2 ^ 4"] digits_mod3[of "2 ^ 8"] digits_mod3[of "2 ^ 16"] by (simp del: div_add_self1)
  ultimately show ?thesis by simp
qed

text \<open>On values that are not negative the two instances agree.\<close>

lemma signed_drop_bit_nonneg:
  fixes w :: "'a::len word"
  assumes "0 \<le> sint w"
  shows "signed_drop_bit n w = drop_bit n w"
proof (rule bit_word_eqI)
  fix k assume "k < LENGTH('a)"
  moreover have "\<not> bit w (LENGTH('a) - 1)" using assms bit_last_iff[of w] by simp
  ultimately show "bit (signed_drop_bit n w) k \<longleftrightarrow> bit (drop_bit n w) k"
    by (auto simp: bit_signed_drop_bit_iff bit_drop_bit_eq bit_imp_le_length not_le dest: bit_imp_le_length)
qed

lemma fold_digits_int:
  fixes v :: int32_t
  assumes "unat v < 2 ^ 31" "unat v div 2 ^ n + unat v mod 2 ^ n < 2 ^ 31"
  defines "a \<equiv> drop_bit n v + (v AND mask n)"
  shows "signed_drop_bit n v + (v AND mask n) = a" "unat a < 2 ^ 31"
proof -
  have "0 \<le> sint v" using assms(1) unat_less_half_iff[of v] by simp
  then show "signed_drop_bit n v + (v AND mask n) = a" by (simp add: a_def signed_drop_bit_nonneg)
  show "unat a < 2 ^ 31" using fold_digits[of v n] assms(2) by (simp add: a_def)
qed

lemma fastMod3_int_mod:
  assumes "0 \<le> sint v"
  shows "fastMod3_int v = Some (unat v mod 3)"
proof -
  have msk: "(0xFFFF :: int32_t) = mask 16" "(0x00FF :: int32_t) = mask 8" "(0x000F :: int32_t) = mask 4"
    by (simp_all add: mask_eq_exp_minus_1)
  have lt: "x div 2 ^ n + x mod 2 ^ n < 2 ^ 31" if "x < 2 ^ 31" for x n :: nat
  proof -
    have "x div 2 ^ n * 1 \<le> x div 2 ^ n * 2 ^ n" by (intro mult_le_mono2) simp
    then show ?thesis using that div_mult_mod_eq[of x "2 ^ n"] by linarith
  qed
  define a b c where "a = drop_bit 16 v + (v AND mask 16)" and "b = drop_bit 8 a + (a AND mask 8)"
    and "c = drop_bit 4 b + (b AND mask 4)"
  have v: "unat v < 2 ^ 31" using assms unat_less_half_iff[of v] by simp
  note fold = fold_digits_int[OF _ lt]
  have a: "signed_drop_bit 16 v + (v AND mask 16) = a" "unat a < 2 ^ 31"
    unfolding a_def by (intro fold v)+
  have b: "signed_drop_bit 8 a + (a AND mask 8) = b" "unat b < 2 ^ 31"
    unfolding b_def by (intro fold a(2))+
  have c: "signed_drop_bit 4 b + (b AND mask 4) = c" "unat c < 2 ^ 31"
    unfolding c_def by (intro fold b(2))+
  have "sint c = int (unat c)" using c(2) by (intro sint_eq_unat) simp
  then have "fastMod3_int v = (if unat c < length mod3_table then Some (mod3_table ! unat c) else None)"
    unfolding fastMod3_int_def Let_def msk a(1) b(1) c(1) by (simp only: nat_int of_nat_0_le_iff simp_thms)
  also have "\<dots> = fastMod3 v" by (simp add: fastMod3_def Let_def msk a_def b_def c_def)
  finally show ?thesis using v by (simp add: fastMod3_mod)
qed

text \<open>
  \<^verbatim>\<open>fastMod3\<close> is the remainder by three on every unsigned 32-bit value; its table is never read
  outside.
\<close>

theorem fastMod3_correct: "fastMod3 (v :: uint32_t) = Some (unat v mod 3)"
  using unsigned_less[of v] by (intro fastMod3_mod) simp_all

text \<open>On a power of two the table lookup of \<^verbatim>\<open>numberOfTrailingZeroes\<close> finds its exponent.\<close>

lemma numberOfTrailingZeroes_power: "k < 32 \<Longrightarrow> numberOfTrailingZeroes (push_bit k 1) = k"
proof -
  have "list_all (\<lambda>k. numberOfTrailingZeroes (push_bit k 1) = k) [0..<32]" by code_simp
  then show "k < 32 \<Longrightarrow> numberOfTrailingZeroes (push_bit k 1) = k" by (simp add: list_all_iff)
qed

end
