(* ===== verification/QueueMemoryMappedBuffer.thy ===== *)
theory QueueMemoryMappedBuffer
  imports MemoryMappedFile CPUStats BitUtil
begin

text \<open>
  \<^verbatim>\<open>src/main/cpp/QueueMemoryMappedBuffer.h\<close>, \<^verbatim>\<open>QueueMemoryMappedBuffer.cpp\<close>: the buffer of a
  queue, a file mapped into memory. \<open>None\<close> stands for the null pointer \<^verbatim>\<open>m_buffer\<close> and for the
  empty shared pointer \<^verbatim>\<open>m_mmFile\<close>. The methods that map the file return the outcome
  (an exception, or the value of \<^verbatim>\<open>m_mmFile\<close>), the object and the thread afterwards.
\<close>

definition QUEUE_HEADER_SIZE :: int64_t where
  [layout]: "QUEUE_HEADER_SIZE = 8"

definition DEFAULT_QUEUE_SIZE :: int64_t where
  [layout]: "DEFAULT_QUEUE_SIZE = 4096"

record qbuf =
  qb_capacity :: int64_t
  qb_fileSize :: int64_t
  qb_buffer :: "cacheline option"
  qb_mmFile :: "mmfile option"
  qb_filename :: string

definition QueueMemoryMappedBuffer :: "platform \<Rightarrow> string \<Rightarrow> qbuf" where
  "QueueMemoryMappedBuffer p aFilename =
     (let stats = CPUStats p; capacity = DEFAULT_QUEUE_SIZE
      in \<lparr>qb_capacity = capacity,
          qb_fileSize = (QUEUE_HEADER_SIZE + capacity) * getCacheLineSize stats,
          qb_buffer = None, qb_mmFile = None, qb_filename = aFilename\<rparr>)"

definition QueueMemoryMappedBuffer_destroy :: "qbuf \<Rightarrow> qbuf" where
  "QueueMemoryMappedBuffer_destroy b = b\<lparr>qb_buffer := None\<rparr>"

definition QueueMemoryMappedBuffer_getCapacity :: "qbuf \<Rightarrow> int64_t" where
  "QueueMemoryMappedBuffer_getCapacity b = qb_capacity b"

definition QueueMemoryMappedBuffer_getBuffer :: "qbuf \<Rightarrow> cacheline option" where
  "QueueMemoryMappedBuffer_getBuffer b = qb_buffer b"

definition getMappedFile :: "qbuf \<Rightarrow> mmfile option" where
  "getMappedFile b = qb_mmFile b"

definition mapBuffer :: "posix \<Rightarrow> qbuf \<Rightarrow> cpu \<Rightarrow> (exn + mmfile option) \<times> qbuf \<times> cpu" where
  "mapBuffer os b c =
     (if qb_buffer b \<noteq> None then (Inr (qb_mmFile b), b, c)
      else case mapExisting os (qb_filename b) of
             Inl e \<Rightarrow> (Inl e, b, c)
           | Inr f \<Rightarrow>
               (let b = b\<lparr>qb_mmFile := Some f, qb_buffer := Some (CacheLine (getMemoryPtr f) (getMemorySize f))\<rparr>
                in (Inr (qb_mmFile b), b, c)))"

definition createAndLoadMappedFile ::
    "posix \<Rightarrow> qbuf \<Rightarrow> cpu \<Rightarrow> ((exn + mmfile option) \<times> qbuf \<times> cpu) option" where
  "createAndLoadMappedFile os b c =
     (if qb_buffer b \<noteq> None then Some (Inr (qb_mmFile b), b, c)
      else case createNew os (qb_filename b) (qb_fileSize b) of
             None \<Rightarrow> None
           | Some (Inl e) \<Rightarrow> Some (Inl e, b, c)
           | Some (Inr f) \<Rightarrow>
               (let l = CacheLine (getMemoryPtr f) (getMemorySize f);
                    b = b\<lparr>qb_mmFile := Some f, qb_buffer := Some l\<rparr>;
                    c = setMemory c l 0 (getMemorySize f) 0
                in Some (Inr (qb_mmFile b), b, c)))"

definition mapProducerBuffer ::
    "posix \<Rightarrow> qbuf \<Rightarrow> cpu \<Rightarrow> ((exn + mmfile option) \<times> qbuf \<times> cpu) option" where
  "mapProducerBuffer os b c =
     (if px_stat os (qb_filename b) \<noteq> None then Some (mapBuffer os b c)
      else createAndLoadMappedFile os b c)"

section \<open>The mapped buffer\<close>

lemma fresh_buffer [simp]:
  "qb_capacity (QueueMemoryMappedBuffer p fn) = 4096"
  "qb_buffer (QueueMemoryMappedBuffer p fn) = None"
  "qb_filename (QueueMemoryMappedBuffer p fn) = fn"
  "qb_fileSize (QueueMemoryMappedBuffer p fn) = 4104 * getCacheLineSize (CPUStats p)"
  by (simp_all add: QueueMemoryMappedBuffer_def Let_def layout)

text \<open>A successful creation: the buffer is the whole mapping, and the thread sees it zeroed.\<close>

definition zeroed :: "cpu \<Rightarrow> addr \<Rightarrow> nat \<Rightarrow> bool" where
  "zeroed c a n \<longleftrightarrow> load c a n = replicate n 0"

lemma zeroed_setMemory:
  "zeroed (setMemory c l 0 n 0) (cl_buffer l) (unat n)"
  by (simp add: zeroed_def load_def mem_simps)

lemma createNew_Inr:
  "createNew os fn n = Some (Inr f) \<Longrightarrow> mm_memorySize f = n \<and> px_mmap os n 0 = Some (mm_memory f)"
  by (auto simp: createNew_def doMapping_def split: if_splits option.splits sum.splits)

text \<open>
  Creating the queue file: with a working page size, a fresh buffer object either keeps its
  null buffer and reports an exception, or holds a cache line over the whole mapping of
  \<^verbatim>\<open>(QUEUE_HEADER_SIZE + capacity) * lineSize\<close> bytes, every byte of which the creating thread
  reads as 0; a second call returns the same mapping and does not touch the memory.
\<close>

theorem createAndLoadMappedFile_correct:
  fixes p :: platform and fn :: string
  assumes "0 < getPageSize os"
  defines "b \<equiv> QueueMemoryMappedBuffer p fn"
  shows "\<exists>r b' c'. createAndLoadMappedFile os b c = Some (r, b', c') \<and>
    (case r of
       Inl e \<Rightarrow> e = IOException \<and> b' = b \<and> c' = c
     | Inr mf \<Rightarrow> (\<exists>f. mf = Some f \<and> qb_mmFile b' = Some f \<and>
           mm_memorySize f = 4104 * getCacheLineSize (CPUStats p) \<and>
           qb_buffer b' = Some (CacheLine (mm_memory f) (mm_memorySize f)) \<and>
           qb_capacity b' = 4096 \<and>
           zeroed c' (mm_memory f) (unat (mm_memorySize f)) \<and>
           createAndLoadMappedFile os b' c' = Some (Inr (Some f), b', c')))"
proof -
  have fresh: "qb_buffer b = None" "qb_capacity b = 4096" "qb_filename b = fn"
    "qb_fileSize b = 4104 * getCacheLineSize (CPUStats p)" unfolding b_def by simp_all
  have "createNew os fn n \<noteq> None" for n
    using fill_returns[OF assms(1), of 0 n "[]"] by (auto simp: createNew_def)
  then obtain r where r: "createNew os fn (4104 * getCacheLineSize (CPUStats p)) = Some r" by blast
  show ?thesis
  proof (cases r)
    case (Inl e)
    then have "e = IOException"
      using r by (auto simp: createNew_def doMapping_def split: if_splits option.splits)
    with Inl r show ?thesis by (simp add: createAndLoadMappedFile_def fresh)
  next
    case (Inr f)
    with createNew_Inr r have "mm_memorySize f = 4104 * getCacheLineSize (CPUStats p)" by blast
    with Inr r zeroed_setMemory[of c "CacheLine (mm_memory f) (mm_memorySize f)" "mm_memorySize f"]
    show ?thesis
      by (auto simp: createAndLoadMappedFile_def fresh getMemoryPtr_def getMemorySize_def Let_def)
  qed
qed

theorem createAndLoadMappedFile_correct_witness:
  "\<exists>r b' c'. createAndLoadMappedFile \<lparr>px_stat = (\<lambda>_. None), px_fstat = (\<lambda>_. 0),
      px_open = (\<lambda>_ _. True), px_write = (\<lambda>_ n. n), px_mmap = (\<lambda>_ _. Some 65536),
      px_pagesize = 4096\<rparr> (QueueMemoryMappedBuffer Solaris ''queue.ipc'')
      \<lparr>shared = (\<lambda>_. 7), sbuf = []\<rparr> = Some (r, b', c')"
proof -
  let ?os = "\<lparr>px_stat = (\<lambda>_. None), px_fstat = (\<lambda>_. 0), px_open = (\<lambda>_ _. True),
      px_write = (\<lambda>_ n. n), px_mmap = (\<lambda>_ _. Some 65536), px_pagesize = 4096\<rparr>"
  have "0 < getPageSize ?os" by (simp add: getPageSize_def)
  from createAndLoadMappedFile_correct[OF this, of Solaris "''queue.ipc''"] show ?thesis by blast
qed

text \<open>
  C10. The element array, which starts four cache lines into the buffer and holds 4096 elements
  of 64 bytes, fits into the file the constructor sizes exactly when the reported line size is
  at least 64 bytes (and small enough for the product not to wrap): on a machine that reports
  32-byte lines, or 0, the queue writes past its mapping.
\<close>

theorem queue_file_fits_iff:
  assumes "unat (getCacheLineSize (CPUStats p)) < 2 ^ 48"
  shows "256 + 64 * 4096 \<le> unat (qb_fileSize (QueueMemoryMappedBuffer p fn)) \<longleftrightarrow>
         64 \<le> unat (getCacheLineSize (CPUStats p))"
proof -
  let ?n = "unat (getCacheLineSize (CPUStats p))"
  have "4104 * ?n < 2 ^ 64" using assms by simp
  then have "unat (4104 * getCacheLineSize (CPUStats p)) = 4104 * ?n"
    by (simp add: unat_word_ariths)
  then show ?thesis by (simp, arith)
qed

theorem queue_file_fits_iff_witness:
  "256 + 64 * 4096 \<le> unat (qb_fileSize (QueueMemoryMappedBuffer Solaris ''queue.ipc''))"
proof -
  have n: "getCacheLineSize (CPUStats Solaris) = 64"
    by (simp add: getCacheLineSize_def CPUStats_def initStat_solaris_def)
  have "unat (getCacheLineSize (CPUStats Solaris)) < 2 ^ 48" by (simp add: n)
  from queue_file_fits_iff[OF this, of "''queue.ipc''"] show ?thesis by (simp add: n)
qed

end
