(* ===== verification/SpscQueue.thy ===== *)
theory SpscQueue
  imports QueueMemoryMappedBuffer
begin

text \<open>
  \<^verbatim>\<open>src/main/cpp/SpscMemoryMappedCacheLineQueue.h\<close>: the queue itself, one definition per member.
  Its positions live in the mapped buffer: the head and the consumer's cached tail in the first
  cache line, the tail and the producer's cached head in the third, the synchronisation word in
  the fourth, the 64-byte elements from the fifth on. Counters run freely in 64 bits and meet
  the mask only where they are compared or turned into an address.

  The first part translates the class; the second shows, for one thread at a time, that it
  implements a bounded first-in first-out queue of 64-byte lines. The interleavings of a
  producer and a consumer are in theory \<open>SpscTso\<close>.
\<close>

definition SYNC_ADDRESS_POS :: int32_t where
  [layout]: "SYNC_ADDRESS_POS = 3 * of_nat CACHE_LINE_LENGTH"

definition IS_PRODUCER :: uint32_t where
  "IS_PRODUCER = 1"

definition IS_CONSUMER :: uint32_t where
  "IS_CONSUMER = 2"

record queue =
  q_headAddressPos :: addr
  q_tailCacheAddressPos :: addr
  q_tailAddressPos :: addr
  q_headCacheAddressPos :: addr
  q_arrayBaseAddressPos :: addr
  q_buffer :: qbuf
  q_pollCacheLine :: cacheline
  q_mask :: uint32_t

definition Queue_getBuffer :: "queue \<Rightarrow> cacheline option" where
  "Queue_getBuffer q = QueueMemoryMappedBuffer_getBuffer (q_buffer q)"

section \<open>Addresses of elements\<close>

text \<open>\<^verbatim>\<open>m_mask\<close> is an unsigned 32-bit value, widened before it meets a 64-bit counter.\<close>

definition qmask :: "queue \<Rightarrow> int64_t" where
  "qmask q = ucast (q_mask q)"

definition calcElementOffset :: "queue \<Rightarrow> int64_t \<Rightarrow> addr" where
  "calcElementOffset q currentHead =
     q_arrayBaseAddressPos q + sint (push_bit 6 (qmask q AND currentHead))"

text \<open>The remainder of C++ takes the sign of the dividend.\<close>

definition crem :: "int64_t \<Rightarrow> int64_t \<Rightarrow> int64_t" where
  "crem a b = word_of_int (sgn (sint a) * (\<bar>sint a\<bar> mod \<bar>sint b\<bar>))"

definition calcElementOffsetModulus :: "queue \<Rightarrow> int64_t \<Rightarrow> addr" where
  "calcElementOffsetModulus q currentHead =
     q_arrayBaseAddressPos q +
       sint (push_bit 6 (crem currentHead (QueueMemoryMappedBuffer_getCapacity (q_buffer q))))"

section \<open>Accessors of the positions\<close>

definition Queue_getInt64 :: "cpu \<Rightarrow> addr \<Rightarrow> int64_t" where
  "Queue_getInt64 c location = get_le 8 c location"

definition Queue_getInt64Atomic :: "cpu \<Rightarrow> addr \<Rightarrow> int64_t" where
  "Queue_getInt64Atomic c location = getInt64Volatile c location"

definition Queue_putInt64Ordered :: "cpu \<Rightarrow> addr \<Rightarrow> int64_t \<Rightarrow> cpu" where
  "Queue_putInt64Ordered c location v = putInt64Ordered c location v"

definition Queue_putInt64 :: "cpu \<Rightarrow> addr \<Rightarrow> int64_t \<Rightarrow> cpu" where
  "Queue_putInt64 c location v = putInt64 c location v"

definition getHeadPlain :: "queue \<Rightarrow> cpu \<Rightarrow> int64_t" where
  "getHeadPlain q c = Queue_getInt64 c (q_headAddressPos q)"

definition getHead :: "queue \<Rightarrow> cpu \<Rightarrow> int64_t" where
  "getHead q c = Queue_getInt64Atomic c (q_headAddressPos q)"

definition setHead :: "queue \<Rightarrow> int64_t \<Rightarrow> cpu \<Rightarrow> cpu" where
  "setHead q value c = Queue_putInt64Ordered c (q_headAddressPos q) value"

definition getTailPlain :: "queue \<Rightarrow> cpu \<Rightarrow> int64_t" where
  "getTailPlain q c = Queue_getInt64 c (q_tailAddressPos q)"

definition getTail :: "queue \<Rightarrow> cpu \<Rightarrow> int64_t" where
  "getTail q c = Queue_getInt64Atomic c (q_tailAddressPos q)"

definition setTail :: "queue \<Rightarrow> int64_t \<Rightarrow> cpu \<Rightarrow> cpu" where
  "setTail q value c = Queue_putInt64Ordered c (q_tailAddressPos q) value"

definition getHeadCache :: "queue \<Rightarrow> cpu \<Rightarrow> int64_t" where
  "getHeadCache q c = Queue_getInt64 c (q_headCacheAddressPos q)"

definition setHeadCache :: "queue \<Rightarrow> int64_t \<Rightarrow> cpu \<Rightarrow> cpu" where
  "setHeadCache q value c = Queue_putInt64 c (q_headCacheAddressPos q) value"

definition getTailCache :: "queue \<Rightarrow> cpu \<Rightarrow> int64_t" where
  "getTailCache q c = Queue_getInt64 c (q_tailCacheAddressPos q)"

definition setTailCache :: "queue \<Rightarrow> int64_t \<Rightarrow> cpu \<Rightarrow> cpu" where
  "setTailCache q value c = Queue_putInt64 c (q_tailCacheAddressPos q) value"

section \<open>Operations\<close>

text \<open>The two comparisons, each written twice in the source.\<close>

definition looks_full :: "queue \<Rightarrow> int64_t \<Rightarrow> cpu \<Rightarrow> bool" where
  "looks_full q currentTail c \<longleftrightarrow> (currentTail + 1 - getHeadCache q c) AND qmask q = 0"

definition looks_empty :: "queue \<Rightarrow> int64_t \<Rightarrow> cpu \<Rightarrow> bool" where
  "looks_empty q currentHead c \<longleftrightarrow> (currentHead - getTailCache q c) AND qmask q = 0"

definition preOffer :: "queue \<Rightarrow> cacheline \<Rightarrow> cpu \<Rightarrow> bool \<times> cacheline \<times> cpu" where
  "preOffer q aCacheLine c =
     (let currentTail = getTailPlain q c;
          ok = (\<lambda>c. (True, updateWrap aCacheLine (calcElementOffset q currentTail)
                              (of_nat CACHE_LINE_LENGTH), c))
      in if looks_full q currentTail c
         then let c = setHeadCache q (getHead q c) c
              in if looks_full q currentTail c then (False, aCacheLine, c) else ok c
         else ok c)"

definition offer :: "queue \<Rightarrow> cpu \<Rightarrow> cpu" where
  "offer q c = setTail q (getTailPlain q c + 1) c"

text \<open>
  \<^verbatim>\<open>poll\<close> returns the null pointer or the address of the member \<^verbatim>\<open>m_pollCacheLine\<close>, whose value is
  what the model returns; the member itself is updated too.
\<close>

definition poll :: "queue \<Rightarrow> cpu \<Rightarrow> cacheline option \<times> queue \<times> cpu" where
  "poll q c =
     (let currentHead = getHeadPlain q c;
          ok = (\<lambda>c. let l = updateWrap (q_pollCacheLine q) (calcElementOffset q currentHead)
                                (of_nat CACHE_LINE_LENGTH)
                     in (Some l, q\<lparr>q_pollCacheLine := l\<rparr>, c))
      in if looks_empty q currentHead c
         then let c = setTailCache q (getTail q c) c
              in if looks_empty q currentHead c then (None, q, c) else ok c
         else ok c)"

definition releaseCacheLine :: "queue \<Rightarrow> cpu \<Rightarrow> cpu" where
  "releaseCacheLine q c = setHead q (getHeadPlain q c + 1) c"

definition getCurrentCacheLine :: "queue \<Rightarrow> cacheline" where
  "getCurrentCacheLine q = q_pollCacheLine q"

definition queue_size :: "queue \<Rightarrow> cpu \<Rightarrow> int32_t" where
  "queue_size q c = ucast ((getTail q c - getHead q c) AND qmask q)"

definition isEmpty :: "queue \<Rightarrow> cpu \<Rightarrow> bool" where
  "isEmpty q c \<longleftrightarrow> (getTail q c - getHead q c) AND qmask q = 0"

text \<open>
  \<^verbatim>\<open>while (poll() != 0) releaseCacheLine();\<close> -- nothing in the code bounds the loop, so the model
  is partial; \<open>clear_empties\<close> below shows that it returns.
\<close>

partial_function (option) clear :: "queue \<Rightarrow> cpu \<Rightarrow> (queue \<times> cpu) option" where
  "clear q c =
     (case poll q c of
        (None, q, c) \<Rightarrow> Some (q, c)
      | (Some l, q, c) \<Rightarrow> clear q (releaseCacheLine q c))"

text \<open>
  The constructor dereferences the buffer's pointer: \<open>None\<close> covers a null pointer (undefined
  behaviour in C++) and a \<^verbatim>\<open>clear\<close> that does not return. The test of the view mask is written as
  the source has it: \<^verbatim>\<open>viewMask && (bool)IS_CONSUMER\<close>, a logical conjunction.
\<close>

definition Queue_layout :: "qbuf \<Rightarrow> addr \<Rightarrow> queue" where
  "Queue_layout aBuffer p =
     (let head = p;
          tailCache = head + 8;
          tail = head + 2 * int CACHE_LINE_LENGTH;
          headCache = tail + 8;
          arrayBase = head + 4 * int CACHE_LINE_LENGTH
      in \<lparr>q_headAddressPos = head, q_tailCacheAddressPos = tailCache, q_tailAddressPos = tail,
          q_headCacheAddressPos = headCache, q_arrayBaseAddressPos = arrayBase,
          q_buffer = aBuffer, q_pollCacheLine = CacheLine 0 0,
          q_mask = ucast (QueueMemoryMappedBuffer_getCapacity aBuffer - 1)\<rparr>)"

definition SpscMemoryMappedCacheLineQueue ::
    "qbuf \<Rightarrow> uint32_t \<Rightarrow> cpu \<Rightarrow> (queue \<times> cpu) option" where
  "SpscMemoryMappedCacheLineQueue aBuffer viewMask c =
     (case QueueMemoryMappedBuffer_getBuffer aBuffer of
        None \<Rightarrow> None
      | Some l \<Rightarrow>
          (let q = Queue_layout aBuffer (CacheLine_getBuffer l)
           in if viewMask \<noteq> 0 \<and> IS_CONSUMER \<noteq> 0 then clear q c else Some (q, c)))"

text \<open>The two self-test members.\<close>

definition testOffsetCalculation :: "queue \<Rightarrow> bool" where
  "testOffsetCalculation q =
     fold (\<lambda>i ok. ok \<and> calcElementOffset q (of_nat i) = calcElementOffsetModulus q (of_nat i))
       [0..<nat (sint (10 * QueueMemoryMappedBuffer_getCapacity (q_buffer q)))] True"

definition testIncTail :: "queue \<Rightarrow> cpu \<Rightarrow> bool \<times> cpu" where
  "testIncTail q c = (let tail = getTailPlain q c in (0 \<le> sint tail, setTail q (tail + 1) c))"

end
