(* ===== verification/BoundedFifo.thy ===== *)
theory BoundedFifo
  imports Main
begin

text \<open>
  The abstract specification of a bounded queue, and the interface a queue implementation meets.
  The specification is a list: an insertion at the end that is refused when the list is as long
  as the capacity, a removal at the front. The locale \<open>bounded_fifo\<close> states the laws of an
  implementation over its states; what a whole sequence of operations returns follows once.
\<close>

datatype 'e qop = Enq 'e | Deq

datatype 'e qres = Accepted bool | Taken "'e option"

fun fifo_step :: "nat \<Rightarrow> 'e list \<Rightarrow> 'e qop \<Rightarrow> 'e qres \<times> 'e list" where
  "fifo_step n xs (Enq x) = (if length xs < n then (Accepted True, xs @ [x]) else (Accepted False, xs))"
| "fifo_step n xs Deq = (case xs of [] \<Rightarrow> (Taken None, []) | y # ys \<Rightarrow> (Taken (Some y), ys))"

fun run :: "('s \<Rightarrow> 'e qop \<Rightarrow> 'e qres \<times> 's) \<Rightarrow> 's \<Rightarrow> 'e qop list \<Rightarrow> 'e qres list \<times> 's" where
  "run step s [] = ([], s)"
| "run step s (x # xs) =
     (let (r, s') = step s x; (rs, s'') = run step s' xs in (r # rs, s''))"

fun impl_step :: "('s \<Rightarrow> 'e \<Rightarrow> bool \<times> 's) \<Rightarrow> ('s \<Rightarrow> 'e option \<times> 's) \<Rightarrow> 's \<Rightarrow> 'e qop \<Rightarrow> 'e qres \<times> 's" where
  "impl_step enq deq s (Enq x) = (let (b, s') = enq s x in (Accepted b, s'))"
| "impl_step enq deq s Deq = (let (r, s') = deq s in (Taken r, s'))"

fun ops_ok :: "('e \<Rightarrow> bool) \<Rightarrow> 'e qop list \<Rightarrow> bool" where
  "ops_ok P [] = True"
| "ops_ok P (Enq x # xs) = (P x \<and> ops_ok P xs)"
| "ops_ok P (Deq # xs) = ops_ok P xs"

locale bounded_fifo =
  fixes enq :: "'s \<Rightarrow> 'e \<Rightarrow> bool \<times> 's"
    and deq :: "'s \<Rightarrow> 'e option \<times> 's"
    and elems :: "'s \<Rightarrow> 'e list"
    and cap :: "'s \<Rightarrow> nat"
    and invar :: "'s \<Rightarrow> bool"
    and ok :: "'e \<Rightarrow> bool"
  assumes enq: "invar s \<Longrightarrow> ok x \<Longrightarrow> enq s x = (b, s') \<Longrightarrow>
      b = (length (elems s) < cap s) \<and> elems s' = (if b then elems s @ [x] else elems s) \<and>
      cap s' = cap s \<and> invar s'"
    and deq: "invar s \<Longrightarrow> deq s = (r, s') \<Longrightarrow>
      (case elems s of [] \<Rightarrow> r = None \<and> elems s' = [] | y # ys \<Rightarrow> r = Some y \<and> elems s' = ys) \<and>
      cap s' = cap s \<and> invar s'"
begin

lemma step_refines:
  assumes "invar s" "ops_ok ok [x]" "impl_step enq deq s x = (r, s')"
  shows "fifo_step (cap s) (elems s) x = (r, elems s') \<and> cap s' = cap s \<and> invar s'"
proof (cases x)
  case (Enq e)
  with assms obtain b where b: "enq s e = (b, s')" "r = Accepted b" "ok e"
    by (auto split: prod.splits)
  with enq[OF assms(1) b(3) b(1)] Enq show ?thesis by auto
next
  case Deq
  with assms obtain b where b: "deq s = (b, s')" "r = Taken b" by (auto split: prod.splits)
  with deq[OF assms(1) b(1)] Deq show ?thesis by (auto split: list.splits)
qed

lemma run_refines:
  assumes "invar s" "ops_ok ok xs" "run (impl_step enq deq) s xs = (rs, s')"
  shows "run (fifo_step (cap s)) (elems s) xs = (rs, elems s') \<and> cap s' = cap s \<and> invar s'"
  using assms
proof (induction xs arbitrary: s rs)
  case Nil
  then show ?case by simp
next
  case (Cons x xs)
  from Cons.prems(3) obtain r s1 rs' where
    x: "impl_step enq deq s x = (r, s1)" "run (impl_step enq deq) s1 xs = (rs', s')" "rs = r # rs'"
    by (auto split: prod.splits)
  have okx: "ops_ok ok [x]" and okxs: "ops_ok ok xs" using Cons.prems(2) by (cases x; simp)+
  from step_refines[OF Cons.prems(1) okx x(1)]
  have s1: "fifo_step (cap s) (elems s) x = (r, elems s1)" "cap s1 = cap s" "invar s1" by auto
  from Cons.IH[OF s1(3) okxs x(2)] s1 x(3) show ?case by simp
qed

end

section \<open>Behaviour of the specification\<close>

lemma run_append:
  "run step s (xs @ ys) = (let (rs, s') = run step s xs; (qs, s'') = run step s' ys in (rs @ qs, s''))"
  by (induction xs arbitrary: s) (auto split: prod.splits)

lemma fifo_fill:
  "length xs + length ys \<le> n \<Longrightarrow>
    run (fifo_step n) xs (map Enq ys) = (replicate (length ys) (Accepted True), xs @ ys)"
  by (induction ys arbitrary: xs) auto

lemma fifo_drain:
  "run (fifo_step n) xs (replicate (length xs) Deq) = (map (\<lambda>x. Taken (Some x)) xs, [])"
  by (induction xs) auto

lemma ops_ok_append: "ops_ok P (xs @ ys) \<longleftrightarrow> ops_ok P xs \<and> ops_ok P ys"
  by (induction P xs rule: ops_ok.induct) auto

lemma ops_ok_map_Enq [simp]: "ops_ok P (map Enq xs) \<longleftrightarrow> (\<forall>x\<in>set xs. P x)"
  by (induction xs) auto

lemma ops_ok_replicate_Deq [simp]: "ops_ok P (replicate n Deq)"
  by (induction n) auto

end
