(* ===== verification/SpscFifo.thy ===== *)
theory SpscFifo
  imports SpscQueue BoundedFifo
begin

text \<open>
  The queue as a bounded first-in first-out container, seen by one thread. \<open>wf_queue\<close> is what the
  constructor establishes, \<open>spsc_inv\<close> the invariant of the four positions that every operation
  keeps, \<open>contents\<close> the abstraction of the mapped memory to the list of the queued 64-byte lines.
  The operations are then shown to refine those of the locale \<open>bounded_fifo\<close>, in which the
  behaviour of any sequence of operations is proved once.
\<close>

definition wf_queue :: "nat \<Rightarrow> queue \<Rightarrow> bool" where
  "wf_queue k q \<longleftrightarrow> k \<le> 32 \<and> q_mask q = mask k \<and>
     q_tailCacheAddressPos q = q_headAddressPos q + 8 \<and>
     q_tailAddressPos q = q_headAddressPos q + 128 \<and>
     q_headCacheAddressPos q = q_headAddressPos q + 136 \<and>
     q_arrayBaseAddressPos q = q_headAddressPos q + 256"

definition line :: "queue \<Rightarrow> cpu \<Rightarrow> int64_t \<Rightarrow> byte list" where
  "line q c i = load c (calcElementOffset q i) 64"

definition dist :: "queue \<Rightarrow> int64_t \<Rightarrow> int64_t \<Rightarrow> nat" where
  "dist q x y = unat ((y - x) AND qmask q)"

definition spsc_inv :: "queue \<Rightarrow> cpu \<Rightarrow> bool" where
  "spsc_inv q c \<longleftrightarrow>
     dist q (getHeadCache q c) (getHead q c) + dist q (getHead q c) (getTailCache q c)
       + dist q (getTailCache q c) (getTail q c) \<le> unat (qmask q)"

definition contents :: "queue \<Rightarrow> cpu \<Rightarrow> byte list list" where
  "contents q c =
     map (\<lambda>j. line q c (getHead q c + of_nat j)) [0..<dist q (getHead q c) (getTail q c)]"

section \<open>Addresses\<close>

lemma ucast_mask: "k \<le> 32 \<Longrightarrow> (ucast (mask k :: 32 word) :: 64 word) = mask k"
  by (rule bit_word_eqI) (auto simp: bit_ucast_iff bit_mask_iff)

lemma qmask_wf: "wf_queue k q \<Longrightarrow> qmask q = mask k"
  by (simp add: wf_queue_def qmask_def ucast_mask)

lemma wf_k: "wf_queue k q \<Longrightarrow> k \<le> 32" "wf_queue k q \<Longrightarrow> k \<le> LENGTH(64)"
  by (simp_all add: wf_queue_def)

lemma unat_mask64: "k \<le> 32 \<Longrightarrow> unat (mask k :: 64 word) = 2 ^ k - 1"
proof -
  assume "k \<le> 32"
  then have "(2::nat) ^ k \<le> 2 ^ 32" by (intro power_increasing) simp_all
  then have "mask k < (2::nat) ^ LENGTH(64)" by (simp add: mask_nat_def)
  then have "unat (of_nat (mask k) :: 64 word) = mask k" by (rule unat_of_nat_small)
  then show ?thesis by (simp only: of_nat_mask_eq) (simp only: mask_nat_def)
qed

lemma dist_wf: "wf_queue k q \<Longrightarrow> dist q x y = ring_dist k x y"
  by (simp add: dist_def ring_dist_def qmask_wf and_mask_take_bit)

lemma sint_shift6:
  assumes "unat (w :: 64 word) < 2 ^ 32"
  shows "sint (push_bit 6 w) = 64 * int (unat w)"
proof -
  have "push_bit 6 w = of_nat (64 * unat w)"
    by (simp add: push_bit_eq_mult mult.commute)
  then have u: "unat (push_bit 6 w) = 64 * unat w"
    using assms by (simp only: unat_of_nat) simp
  then show ?thesis using assms by (subst sint_eq_unat) simp_all
qed

lemma unat_slot_less: "wf_queue k q \<Longrightarrow> unat (take_bit k (i :: 64 word)) < 2 ^ 32"
proof -
  assume "wf_queue k q"
  then have "(2::nat) ^ k \<le> 2 ^ 32" by (intro power_increasing) (simp_all add: wf_queue_def)
  then show ?thesis by (meson less_le_trans pos_mod_bound unat_take_bit[THEN eq_refl] mod_less_divisor
        le_less_trans zero_less_power zero_less_numeral)
qed

lemma calcElementOffset_wf:
  assumes "wf_queue k q"
  shows "calcElementOffset q i = q_headAddressPos q + 256 + 64 * int (unat (take_bit k i))"
proof -
  have "qmask q AND i = take_bit k i"
    using assms by (simp add: qmask_wf take_bit_eq_mask and.commute)
  moreover have "q_arrayBaseAddressPos q = q_headAddressPos q + 256"
    using assms by (simp add: wf_queue_def)
  ultimately show ?thesis
    by (simp only: calcElementOffset_def sint_shift6[OF unat_slot_less[OF assms, of i]])
qed

lemma elements_apart:
  assumes "wf_queue k q" "take_bit k i \<noteq> take_bit k j"
  shows "calcElementOffset q i + 64 \<le> calcElementOffset q j \<or>
         calcElementOffset q j + 64 \<le> calcElementOffset q i"
proof -
  have "uint (take_bit k i) \<noteq> uint (take_bit k j)" using assms(2)
    by (simp add: word_uint_eq_iff)
  then show ?thesis by (simp add: calcElementOffset_wf[OF assms(1)]) linarith
qed

lemma element_above: "wf_queue k q \<Longrightarrow> q_headAddressPos q + 256 \<le> calcElementOffset q i"
  by (simp add: calcElementOffset_wf)

section \<open>Positions read after positions written\<close>

lemma pos_defs:
  "getHeadPlain q c = getHead q c" "getTailPlain q c = getTail q c"
  "getHead q c = getInt64 c (q_headAddressPos q)"
  "getTail q c = getInt64 c (q_tailAddressPos q)"
  "getHeadCache q c = getInt64 c (q_headCacheAddressPos q)"
  "getTailCache q c = getInt64 c (q_tailCacheAddressPos q)"
  "setHead q v c = putInt64 c (q_headAddressPos q) v"
  "setTail q v c = putInt64 c (q_tailAddressPos q) v"
  "setHeadCache q v c = putInt64 c (q_headCacheAddressPos q) v"
  "setTailCache q v c = putInt64 c (q_tailCacheAddressPos q) v"
  by (simp_all add: getHeadPlain_def getHead_def getTailPlain_def getTail_def getHeadCache_def
      getTailCache_def setHead_def setTail_def setHeadCache_def setTailCache_def Queue_getInt64_def
      Queue_getInt64Atomic_def Queue_putInt64Ordered_def Queue_putInt64_def atomic64_defs)

lemmas get_defs = pos_defs(3-6)
lemmas set_defs = pos_defs(7-10)

lemma get_set:
  assumes "wf_queue k q"
  shows "getHead q (setHead q v c) = v" "getHead q (setTail q v c) = getHead q c"
    "getHead q (setHeadCache q v c) = getHead q c" "getHead q (setTailCache q v c) = getHead q c"
    "getTail q (setHead q v c) = getTail q c" "getTail q (setTail q v c) = v"
    "getTail q (setHeadCache q v c) = getTail q c" "getTail q (setTailCache q v c) = getTail q c"
    "getHeadCache q (setHead q v c) = getHeadCache q c"
    "getHeadCache q (setTail q v c) = getHeadCache q c"
    "getHeadCache q (setHeadCache q v c) = v"
    "getHeadCache q (setTailCache q v c) = getHeadCache q c"
    "getTailCache q (setHead q v c) = getTailCache q c"
    "getTailCache q (setTail q v c) = getTailCache q c"
    "getTailCache q (setHeadCache q v c) = getTailCache q c"
    "getTailCache q (setTailCache q v c) = v"
  using assms
  by (simp_all add: get_defs set_defs a64.get_put a64.get_put_disjoint wf_queue_def)

lemma line_set:
  assumes "wf_queue k q"
  shows "line q (setHead q v c) i = line q c i" "line q (setTail q v c) i = line q c i"
    "line q (setHeadCache q v c) i = line q c i" "line q (setTailCache q v c) i = line q c i"
  using assms element_above[OF assms, of i]
  by (simp_all add: line_def set_defs a64.load_put_disjoint wf_queue_def)

text \<open>The line returned by the last \<^verbatim>\<open>poll\<close> is no part of the queue's shared state.\<close>

lemma poll_line_irrelevant [simp]:
  "calcElementOffset (q\<lparr>q_pollCacheLine := l\<rparr>) = calcElementOffset q"
  "getHead (q\<lparr>q_pollCacheLine := l\<rparr>) = getHead q" "getTail (q\<lparr>q_pollCacheLine := l\<rparr>) = getTail q"
  "getHeadCache (q\<lparr>q_pollCacheLine := l\<rparr>) = getHeadCache q"
  "getTailCache (q\<lparr>q_pollCacheLine := l\<rparr>) = getTailCache q"
  "wf_queue k (q\<lparr>q_pollCacheLine := l\<rparr>) = wf_queue k q"
  "line (q\<lparr>q_pollCacheLine := l\<rparr>) = line q" "dist (q\<lparr>q_pollCacheLine := l\<rparr>) = dist q"
  "qmask (q\<lparr>q_pollCacheLine := l\<rparr>) = qmask q"
  by (auto simp: fun_eq_iff calcElementOffset_def qmask_def get_defs wf_queue_def line_def dist_def)

lemma poll_line_irrelevant' [simp]:
  "spsc_inv (q\<lparr>q_pollCacheLine := l\<rparr>) = spsc_inv q"
  "contents (q\<lparr>q_pollCacheLine := l\<rparr>) = contents q"
  by (auto simp: fun_eq_iff spsc_inv_def contents_def)

section \<open>The invariant of the positions\<close>

lemma spsc_inv_wf:
  assumes "wf_queue k q"
  shows "spsc_inv q c \<longleftrightarrow>
    ring_dist k (getHeadCache q c) (getHead q c) + ring_dist k (getHead q c) (getTailCache q c)
      + ring_dist k (getTailCache q c) (getTail q c) < 2 ^ k"
proof -
  have "unat (qmask q) = 2 ^ k - 1" using assms by (simp add: qmask_wf unat_mask64 wf_k)
  moreover have "0 < (2::nat) ^ k" by simp
  ultimately show ?thesis unfolding spsc_inv_def dist_wf[OF assms] by linarith
qed

lemma spsc_inv_dists:
  assumes wf: "wf_queue k q" and inv: "spsc_inv q c"
  shows "ring_dist k (getHead q c) (getTail q c) =
      ring_dist k (getHead q c) (getTailCache q c) + ring_dist k (getTailCache q c) (getTail q c)"
    and "ring_dist k (getHeadCache q c) (getTail q c) =
      ring_dist k (getHeadCache q c) (getHead q c) + ring_dist k (getHead q c) (getTail q c)"
proof -
  note k = wf_k(2)[OF wf]
  have sum: "ring_dist k (getHeadCache q c) (getHead q c) + ring_dist k (getHead q c) (getTailCache q c)
      + ring_dist k (getTailCache q c) (getTail q c) < 2 ^ k"
    using inv wf by (simp add: spsc_inv_wf)
  show 1: "ring_dist k (getHead q c) (getTail q c) =
      ring_dist k (getHead q c) (getTailCache q c) + ring_dist k (getTailCache q c) (getTail q c)"
    using sum by (intro ring_dist_trans k) linarith
  show "ring_dist k (getHeadCache q c) (getTail q c) =
      ring_dist k (getHeadCache q c) (getHead q c) + ring_dist k (getHead q c) (getTail q c)"
    using sum 1 by (intro ring_dist_trans k) linarith
qed

lemma looks_full_iff:
  assumes "wf_queue k q"
  shows "looks_full q t c \<longleftrightarrow> ring_dist k (getHeadCache q c) t = 2 ^ k - 1"
  using ring_dist_succ_0[OF wf_k(2)[OF assms], of "getHeadCache q c" t] assms
  by (simp add: looks_full_def qmask_wf and_mask_take_bit take_bit_eq_0_ring)

lemma looks_empty_iff:
  assumes "wf_queue k q"
  shows "looks_empty q h c \<longleftrightarrow> ring_dist k h (getTailCache q c) = 0"
  using ring_dist_0_sym[OF wf_k(2)[OF assms], of h "getTailCache q c"] assms
  by (simp add: looks_empty_def qmask_wf and_mask_take_bit take_bit_eq_0_ring)

lemma length_contents: "wf_queue k q \<Longrightarrow> length (contents q c) = ring_dist k (getHead q c) (getTail q c)"
  by (simp add: contents_def dist_wf)

lemma contents_cong:
  assumes "getHead q c = getHead q d" "getTail q c = getTail q d" "\<And>i. line q c i = line q d i"
  shows "contents q c = contents q d"
  using assms by (simp add: contents_def)

lemma line_ring: "wf_queue k q \<Longrightarrow> take_bit k i = take_bit k j \<Longrightarrow> line q c i = line q c j"
  by (simp add: line_def calcElementOffset_wf)

section \<open>The operations\<close>

lemma preOffer_spec:
  assumes wf: "wf_queue k q" and inv: "spsc_inv q c" and pre: "preOffer q l c = (ok, l', c')"
  shows "spsc_inv q c' \<and> contents q c' = contents q c \<and>
    getHead q c' = getHead q c \<and> getTail q c' = getTail q c \<and> (\<forall>i. line q c' i = line q c i) \<and>
    ok = (length (contents q c) < 2 ^ k - 1) \<and>
    l' = (if ok then CacheLine (calcElementOffset q (getTail q c)) 64 else l) \<and>
    ok = (\<not> looks_full q (getTail q c) c')"
proof -
  let ?t = "getTail q c" and ?c1 = "setHeadCache q (getHead q c) c"
  have d: "ring_dist k (getHeadCache q c) ?t =
      ring_dist k (getHeadCache q c) (getHead q c) + ring_dist k (getHead q c) ?t"
    using spsc_inv_dists(2)[OF wf inv] .
  have le: "ring_dist k (getHeadCache q c) ?t \<le> 2 ^ k - 1"
    using ring_dist_less[of k "getHeadCache q c" ?t] by simp
  have c1: "spsc_inv q ?c1" "contents q ?c1 = contents q c" "getHead q ?c1 = getHead q c"
    "getTail q ?c1 = ?t" "\<forall>i. line q ?c1 i = line q c i"
    using inv by (auto simp: spsc_inv_wf[OF wf] get_set[OF wf] line_set[OF wf] intro: contents_cong)
  have f1: "looks_full q ?t ?c1 \<longleftrightarrow> ring_dist k (getHead q c) ?t = 2 ^ k - 1"
    by (simp add: looks_full_iff[OF wf] get_set[OF wf])
  have w: "updateWrap l (calcElementOffset q ?t) (of_nat CACHE_LINE_LENGTH) =
      CacheLine (calcElementOffset q ?t) 64"
    by (simp add: updateWrap_def CacheLine_setBuffer_def CacheLine_setCapacity_def CacheLine_def
        CACHE_LINE_LENGTH_def)
  show ?thesis
  proof (cases "looks_full q ?t c")
    case False
    with pre have "ok" "l' = CacheLine (calcElementOffset q ?t) 64" "c' = c"
      by (auto simp: preOffer_def Let_def pos_defs(1,2) w)
    with False inv d le show ?thesis
      by (auto simp: looks_full_iff[OF wf] length_contents[OF wf])
  next
    case True
    note full = this
    show ?thesis
    proof (cases "looks_full q ?t ?c1")
      case True
      with pre full have "\<not> ok" "l' = l" "c' = ?c1" by (auto simp: preOffer_def Let_def pos_defs(1,2))
      with True c1 f1 show ?thesis by (simp add: length_contents[OF wf])
    next
      case False
      with pre full have "ok" "l' = CacheLine (calcElementOffset q ?t) 64" "c' = ?c1"
        by (auto simp: preOffer_def Let_def pos_defs(1,2) w)
      with False c1 f1 ring_dist_less[of k "getHead q c" ?t] show ?thesis
        by (auto simp: length_contents[OF wf])
    qed
  qed
qed

lemma offer_spec:
  assumes wf: "wf_queue k q" and inv: "spsc_inv q c" and room: "\<not> looks_full q (getTail q c) c"
  shows "spsc_inv q (offer q c) \<and> contents q (offer q c) = contents q c @ [line q c (getTail q c)]"
proof -
  let ?h = "getHead q c" and ?t = "getTail q c"
  note k = wf_k(2)[OF wf]
  note d = spsc_inv_dists[OF wf inv]
  have lt: "ring_dist k (getHeadCache q c) ?t + 1 < 2 ^ k"
    using room ring_dist_less[of k "getHeadCache q c" ?t] by (auto simp: looks_full_iff[OF wf])
  have t: "ring_dist k (getTailCache q c) (?t + 1) = ring_dist k (getTailCache q c) ?t + 1"
    using lt d by (intro ring_dist_succ k) linarith
  have n: "ring_dist k ?h (?t + 1) = ring_dist k ?h ?t + 1"
    using lt d by (intro ring_dist_succ k) linarith
  have "spsc_inv q (offer q c)"
    using lt d t by (simp add: spsc_inv_wf[OF wf] offer_def pos_defs(1,2) get_set[OF wf])
  moreover have "line q c (?h + of_nat (ring_dist k ?h ?t)) = line q c ?t"
    using ring_dist_pos_nat[OF k, of ?t ?h] by (intro line_ring[OF wf]) simp
  ultimately show ?thesis
    using n by (simp add: contents_def offer_def pos_defs(1,2) get_set[OF wf] line_set[OF wf] dist_wf[OF wf])
qed

lemma poll_spec:
  assumes wf: "wf_queue k q" and inv: "spsc_inv q c" and r: "poll q c = (r, q', c')"
  shows "spsc_inv q c' \<and> contents q c' = contents q c \<and>
    getHead q c' = getHead q c \<and> getTail q c' = getTail q c \<and> (\<forall>i. line q c' i = line q c i) \<and>
    (if contents q c = [] then r = None \<and> q' = q
     else r = Some (CacheLine (calcElementOffset q (getHead q c)) 64) \<and>
       q' = q\<lparr>q_pollCacheLine := CacheLine (calcElementOffset q (getHead q c)) 64\<rparr> \<and>
       \<not> looks_empty q (getHead q c) c')"
proof -
  let ?h = "getHead q c" and ?c1 = "setTailCache q (getTail q c) c"
  note d = spsc_inv_dists[OF wf inv]
  have c1: "spsc_inv q ?c1" "contents q ?c1 = contents q c" "getHead q ?c1 = ?h"
    "getTail q ?c1 = getTail q c" "\<forall>i. line q ?c1 i = line q c i"
    using inv d by (auto simp: spsc_inv_wf[OF wf] get_set[OF wf] line_set[OF wf] intro: contents_cong)
  have e1: "looks_empty q ?h ?c1 \<longleftrightarrow> contents q c = []"
    using length_contents[OF wf, of c] by (auto simp: looks_empty_iff[OF wf] get_set[OF wf])
  have ne: "contents q c \<noteq> []" if "\<not> looks_empty q ?h c"
    using that d length_contents[OF wf, of c] by (auto simp: looks_empty_iff[OF wf])
  have w: "updateWrap (q_pollCacheLine q) (calcElementOffset q ?h) (of_nat CACHE_LINE_LENGTH) =
      CacheLine (calcElementOffset q ?h) 64"
    by (simp add: updateWrap_def CacheLine_setBuffer_def CacheLine_setCapacity_def CacheLine_def
        CACHE_LINE_LENGTH_def)
  show ?thesis
  proof (cases "looks_empty q ?h c")
    case False
    with r inv ne show ?thesis by (auto simp: poll_def Let_def pos_defs(1,2) w)
  next
    case True
    with r c1 e1 show ?thesis by (auto simp: poll_def Let_def pos_defs(1,2) w split: if_splits)
  qed
qed

lemma releaseCacheLine_spec:
  assumes wf: "wf_queue k q" and inv: "spsc_inv q c" and ne: "\<not> looks_empty q (getHead q c) c"
  shows "spsc_inv q (releaseCacheLine q c) \<and> contents q (releaseCacheLine q c) = tl (contents q c) \<and>
    contents q c \<noteq> [] \<and> hd (contents q c) = line q c (getHead q c)"
proof -
  let ?h = "getHead q c" and ?t = "getTail q c" and ?tc = "getTailCache q c"
  note k = wf_k(2)[OF wf]
  note d = spsc_inv_dists[OF wf inv]
  have pos: "0 < ring_dist k ?h ?tc" using ne by (simp add: looks_empty_iff[OF wf])
  have t: "ring_dist k (?h + 1) ?tc = ring_dist k ?h ?tc - 1"
    using pos k by (rule ring_dist_pred)
  have n: "ring_dist k (?h + 1) ?t = ring_dist k ?h ?t - 1"
    using pos d k by (intro ring_dist_pred) linarith
  have sum: "ring_dist k (getHeadCache q c) ?h + ring_dist k ?h ?tc + ring_dist k ?tc ?t < 2 ^ k"
    using inv by (simp add: spsc_inv_wf[OF wf])
  have hc: "ring_dist k (getHeadCache q c) (?h + 1) = ring_dist k (getHeadCache q c) ?h + 1"
    using sum pos by (intro ring_dist_succ k) linarith
  have "spsc_inv q (releaseCacheLine q c)"
    using sum pos t hc
    by (simp add: spsc_inv_wf[OF wf] releaseCacheLine_def pos_defs(1,2) get_set[OF wf])
  moreover have "contents q (releaseCacheLine q c) = tl (contents q c)"
    using n by (simp add: contents_def releaseCacheLine_def pos_defs(1,2) get_set[OF wf] line_set[OF wf]
        dist_wf[OF wf] tl_map_upt add.assoc del: map_tl)
  moreover have "contents q c \<noteq> []"
    using pos d length_contents[OF wf, of c] by auto
  moreover from this have "hd (contents q c) = line q c ?h"
    by (simp add: contents_def hd_map upt_conv_Cons)
  ultimately show ?thesis by blast
qed

section \<open>Writing the claimed line\<close>

text \<open>
  Between \<^verbatim>\<open>preOffer\<close> and \<^verbatim>\<open>offer\<close> the producer writes the line at the tail. That line is not one
  of the queued ones, so what it writes there changes neither the positions nor the contents.
\<close>

lemma tail_line_free:
  assumes wf: "wf_queue k q" and j: "j < ring_dist k (getHead q c) (getTail q c)"
  shows "take_bit k (getHead q c + of_nat j) \<noteq> take_bit k (getTail q c)"
proof -
  note k = wf_k(2)[OF wf]
  let ?n = "ring_dist k (getHead q c) (getTail q c)"
  have "j mod 2 ^ k \<noteq> ?n mod 2 ^ k"
    using j ring_dist_less[of k "getHead q c" "getTail q c"] by simp
  then show ?thesis
    using ring_dist_pos_nat[OF k, of "getTail q c" "getHead q c"] take_bit_add_eq_iff[OF k] by metis
qed

lemma write_line_frame:
  assumes wf: "wf_queue k q" and v: "view d = write_bytes (view c) (calcElementOffset q i + off) bs"
    and bnd: "0 \<le> off" "off + int (length bs) \<le> 64"
  shows "getHead q d = getHead q c" "getTail q d = getTail q c"
    "getHeadCache q d = getHeadCache q c" "getTailCache q d = getTailCache q c"
    and "take_bit k j \<noteq> take_bit k i \<Longrightarrow> line q d j = line q c j"
proof -
  let ?a = "calcElementOffset q i + off"
  have e: "view d = view (emit c ?a bs)" using v by (simp add: mem_simps)
  have get: "getInt64 d b = getInt64 c b" if "b + 8 \<le> q_headAddressPos q + 256" for b
  proof -
    have "b + int 8 \<le> ?a" using that element_above[OF wf, of i] bnd(1) by simp
    then have "getInt64 (emit c ?a bs) b = getInt64 c b" by (intro a64.get_emit_disjoint) simp
    with a64.get_view[OF e] show ?thesis by simp
  qed
  show "getHead q d = getHead q c" "getTail q d = getTail q c"
    "getHeadCache q d = getHeadCache q c" "getTailCache q d = getTailCache q c"
    using wf by (simp_all add: get_defs get wf_queue_def)
  show "take_bit k j \<noteq> take_bit k i \<Longrightarrow> line q d j = line q c j"
    using elements_apart[OF wf, of j i] bnd
    by (auto simp: line_def load_def v intro!: read_write_disjoint)
qed

lemma write_tail_line:
  assumes wf: "wf_queue k q"
    and v: "view d = write_bytes (view c) (calcElementOffset q (getTail q c) + off) bs"
    and bnd: "0 \<le> off" "off + int (length bs) \<le> 64"
  shows "spsc_inv q d = spsc_inv q c" "contents q d = contents q c"
    "looks_full q t d = looks_full q t c"
proof -
  note f = write_line_frame[OF wf v bnd]
  show "spsc_inv q d = spsc_inv q c" "looks_full q t d = looks_full q t c"
    by (simp_all add: spsc_inv_def looks_full_def f)
  show "contents q d = contents q c"
    unfolding contents_def f dist_wf[OF wf]
    by (rule map_cong) (auto intro!: f(5) dest: tail_line_free[OF wf])
qed

section \<open>The queue refines a bounded first-in first-out queue\<close>

text \<open>
  The way the program uses the queue: claim a line, fill it and offer it; poll a line, read it
  and release it (\<^verbatim>\<open>producerRun\<close> and \<^verbatim>\<open>consumerRun\<close> of \<^verbatim>\<open>IPCQueueMain.cpp\<close>, \<^verbatim>\<open>testAddAndPurge\<close>).
\<close>

definition enqueue_line :: "queue \<times> cpu \<Rightarrow> byte list \<Rightarrow> bool \<times> queue \<times> cpu" where
  "enqueue_line s bs =
     (case preOffer (fst s) (CacheLine 0 0) (snd s) of
        (False, l, c) \<Rightarrow> (False, fst s, c)
      | (True, l, c) \<Rightarrow> (True, fst s, offer (fst s) (emit_bytes c (cl_buffer l) bs)))"

definition dequeue_line :: "queue \<times> cpu \<Rightarrow> byte list option \<times> queue \<times> cpu" where
  "dequeue_line s =
     (case poll (fst s) (snd s) of
        (None, q, c) \<Rightarrow> (None, q, c)
      | (Some l, q, c) \<Rightarrow> (Some (load c (cl_buffer l) 64), q, releaseCacheLine q c))"

definition fifo_inv :: "queue \<times> cpu \<Rightarrow> bool" where
  "fifo_inv s \<longleftrightarrow> (\<exists>k\<le>32. wf_queue k (fst s)) \<and> spsc_inv (fst s) (snd s)"

definition fifo_elems :: "queue \<times> cpu \<Rightarrow> byte list list" where
  "fifo_elems s = contents (fst s) (snd s)"

definition fifo_cap :: "queue \<times> cpu \<Rightarrow> nat" where
  "fifo_cap s = unat (qmask (fst s))"

lemma fifo_cap_wf: "wf_queue k q \<Longrightarrow> fifo_cap (q, c) = 2 ^ k - 1"
  by (simp add: fifo_cap_def qmask_wf unat_mask64 wf_k)

lemma enqueue_line_spec:
  assumes wf: "wf_queue k q" and inv: "spsc_inv q c" and len: "length bs = 64"
    and r: "enqueue_line (q, c) bs = (b, q', c')"
  shows "q' = q \<and> spsc_inv q c' \<and> b = (length (contents q c) < 2 ^ k - 1) \<and>
    contents q c' = (if b then contents q c @ [bs] else contents q c)"
proof -
  obtain ok l c1 where pre: "preOffer q (CacheLine 0 0) c = (ok, l, c1)" by (metis prod_cases3)
  note p = preOffer_spec[OF wf inv pre]
  show ?thesis
  proof (cases ok)
    case False
    with r pre p show ?thesis by (auto simp: enqueue_line_def)
  next
    case True
    let ?t = "getTail q c1" and ?d = "emit_bytes c1 (cl_buffer l) bs"
    have l: "cl_buffer l = calcElementOffset q ?t" using p True by simp
    have v: "view ?d = write_bytes (view c1) (calcElementOffset q ?t + 0) bs"
      by (simp add: l mem_simps)
    note w = write_tail_line[OF wf v _ _] and f = write_line_frame[OF wf v]
    have "line q ?d ?t = bs" using len by (simp add: line_def load_def l mem_simps)
    moreover have "\<not> looks_full q (getTail q ?d) ?d" "spsc_inv q ?d" "contents q ?d = contents q c"
      "getTail q ?d = ?t"
      using w f p True len by auto
    ultimately have "spsc_inv q (offer q ?d)" "contents q (offer q ?d) = contents q c @ [bs]"
      using offer_spec[OF wf, of ?d] by auto
    with r pre p True show ?thesis by (auto simp: enqueue_line_def)
  qed
qed

lemma dequeue_line_spec:
  assumes wf: "wf_queue k q" and inv: "spsc_inv q c"
    and r: "dequeue_line (q, c) = (b, q', c')"
  shows "(\<exists>l. q' = q\<lparr>q_pollCacheLine := l\<rparr>) \<and> spsc_inv q c' \<and>
    (case contents q c of [] \<Rightarrow> b = None \<and> contents q c' = []
     | x # xs \<Rightarrow> b = Some x \<and> contents q c' = xs)"
proof -
  obtain m q1 c1 where pl: "poll q c = (m, q1, c1)" by (metis prod_cases3)
  note p = poll_spec[OF wf inv pl]
  show ?thesis
  proof (cases "contents q c")
    case Nil
    with r pl p show ?thesis by (auto simp: dequeue_line_def intro: exI[of _ "q_pollCacheLine q"])
  next
    case (Cons x xs)
    let ?l = "CacheLine (calcElementOffset q (getHead q c)) 64"
    have m: "m = Some ?l" "q1 = q\<lparr>q_pollCacheLine := ?l\<rparr>" "\<not> looks_empty q (getHead q c1) c1"
      using p Cons by auto
    have rel: "releaseCacheLine q1 c1 = releaseCacheLine q c1"
      by (simp add: m releaseCacheLine_def pos_defs)
    from releaseCacheLine_spec[OF wf _ m(3)] p Cons
    have "contents q (releaseCacheLine q c1) = xs" "spsc_inv q (releaseCacheLine q c1)"
      "line q c1 (getHead q c) = x" by auto
    with r pl m rel Cons show ?thesis by (auto simp: dequeue_line_def line_def)
  qed
qed

interpretation spsc: bounded_fifo enqueue_line dequeue_line fifo_elems fifo_cap fifo_inv
  "\<lambda>bs. length bs = 64"
proof
  fix s b s' and x :: "byte list"
  assume a: "fifo_inv s" "length x = 64" "enqueue_line s x = (b, s')"
  obtain q c q' c' where s: "s = (q, c)" "s' = (q', c')" by fastforce
  with a obtain k where k: "wf_queue k q" "spsc_inv q c" "k \<le> 32" by (auto simp: fifo_inv_def)
  from enqueue_line_spec[OF k(1,2) a(2)] a(3) s k
  show "b = (length (fifo_elems s) < fifo_cap s) \<and>
      fifo_elems s' = (if b then fifo_elems s @ [x] else fifo_elems s) \<and>
      fifo_cap s' = fifo_cap s \<and> fifo_inv s'"
    by (auto simp: fifo_elems_def fifo_inv_def fifo_cap_wf[OF k(1)])
next
  fix s r s'
  assume a: "fifo_inv s" "dequeue_line s = (r, s')"
  obtain q c q' c' where s: "s = (q, c)" "s' = (q', c')" by fastforce
  with a obtain k where k: "wf_queue k q" "spsc_inv q c" "k \<le> 32" by (auto simp: fifo_inv_def)
  from dequeue_line_spec[OF k(1,2)] a(2) s k
  show "(case fifo_elems s of [] \<Rightarrow> r = None \<and> fifo_elems s' = []
         | y # ys \<Rightarrow> r = Some y \<and> fifo_elems s' = ys) \<and> fifo_cap s' = fifo_cap s \<and> fifo_inv s'"
    by (fastforce simp: fifo_elems_def fifo_inv_def fifo_cap_def split: list.splits)
qed

section \<open>Construction\<close>

lemma Queue_layout_wf:
  assumes "k \<le> 32" "qb_capacity b = 2 ^ k"
  shows "wf_queue k (Queue_layout b p)"
proof -
  have "ucast ((2::64 word) ^ k - 1) = (mask k :: 32 word)"
    by (rule bit_word_eqI) (auto simp: mask_eq_exp_minus_1[symmetric] bit_ucast_iff bit_mask_iff)
  then show ?thesis
    using assms by (simp add: wf_queue_def Queue_layout_def Let_def CACHE_LINE_LENGTH_def
        QueueMemoryMappedBuffer_getCapacity_def)
qed

lemma Queue_layout_default_wf: "qb_capacity b = 4096 \<Longrightarrow> wf_queue 12 (Queue_layout b p)"
  by (rule Queue_layout_wf) simp_all

text \<open>The synchronisation word, which lies in the header between the positions, is not written.\<close>

lemma poll_release_sync:
  assumes "wf_queue k q"
  shows "poll q c = (r, q', c') \<Longrightarrow> getInt64 c' (q_headAddressPos q + 192) = getInt64 c (q_headAddressPos q + 192)"
    and "getInt64 (releaseCacheLine q c) (q_headAddressPos q + 192) = getInt64 c (q_headAddressPos q + 192)"
  using assms by (auto simp: poll_def Let_def releaseCacheLine_def set_defs a64.get_put_disjoint wf_queue_def split: if_splits)

lemma clear_returns:
  assumes "wf_queue k q" "spsc_inv q c"
  shows "\<exists>l c'. clear q c = Some (q\<lparr>q_pollCacheLine := l\<rparr>, c') \<and> contents q c' = [] \<and>
    spsc_inv q c' \<and> getTail q c' = getTail q c \<and>
    getInt64 c' (q_headAddressPos q + 192) = getInt64 c (q_headAddressPos q + 192)"
  using assms
proof (induction "length (contents q c)" arbitrary: q c rule: less_induct)
  case less
  obtain m q1 c1 where pl: "poll q c = (m, q1, c1)" by (metis prod_cases3)
  note p = poll_spec[OF less.prems pl] and sync = poll_release_sync(1)[OF less.prems(1) pl] poll_release_sync(2)[OF less.prems(1)]
  show ?case
  proof (cases "contents q c")
    case Nil
    with p pl sync show ?thesis
      by (subst clear.simps) (auto intro: exI[of _ "q_pollCacheLine q"])
  next
    case (Cons x xs)
    let ?l = "CacheLine (calcElementOffset q (getHead q c)) 64" and ?c2 = "releaseCacheLine q c1"
    have m: "m = Some ?l" "q1 = q\<lparr>q_pollCacheLine := ?l\<rparr>" "\<not> looks_empty q (getHead q c1) c1"
      using p Cons by auto
    have rel: "releaseCacheLine q1 c1 = ?c2" by (simp add: m releaseCacheLine_def pos_defs)
    have tl: "getTail q ?c2 = getTail q c"
      using p by (simp add: releaseCacheLine_def get_set[OF less.prems(1)])
    from releaseCacheLine_spec[OF less.prems(1) _ m(3)] p Cons
    have c2: "contents q ?c2 = xs" "spsc_inv q ?c2" by auto
    have "\<exists>l c'. clear q1 ?c2 = Some (q1\<lparr>q_pollCacheLine := l\<rparr>, c') \<and> contents q1 c' = [] \<and>
        spsc_inv q1 c' \<and> getTail q1 c' = getTail q1 ?c2 \<and>
        getInt64 c' (q_headAddressPos q1 + 192) = getInt64 ?c2 (q_headAddressPos q1 + 192)"
      using less.prems c2 Cons by (intro less.hyps) (simp_all add: m)
    then show ?thesis
      using pl m rel tl sync by (subst clear.simps) auto
  qed
qed

text \<open>A zeroed buffer is an empty queue; one byte set in it is a queue of one line.\<close>

definition zero_cpu :: cpu where
  "zero_cpu = \<lparr>shared = (\<lambda>_. 0), sbuf = []\<rparr>"

definition demo_queue :: queue where
  "demo_queue = Queue_layout (QueueMemoryMappedBuffer Solaris ''queue.ipc'') 4096"

definition one_line_cpu :: cpu where
  "one_line_cpu = \<lparr>shared = (\<lambda>_. 0)(4224 := 1), sbuf = []\<rparr>"

lemma demo_wf: "wf_queue 12 demo_queue"
  unfolding demo_queue_def by (rule Queue_layout_default_wf) simp

lemma get_zero: "getInt64 zero_cpu a = 0"
  by (simp add: getInt64_def get_le_def load_def read_bytes_def view_def zero_cpu_def upt_rec[of _ 8])

lemma zero_inv: "spsc_inv q zero_cpu" "contents q zero_cpu = []"
  by (simp_all add: spsc_inv_def contents_def get_defs get_zero dist_def)

lemma one_line_positions:
  "getHead demo_queue one_line_cpu = 0" "getTail demo_queue one_line_cpu = 1"
  "getHeadCache demo_queue one_line_cpu = 0" "getTailCache demo_queue one_line_cpu = 0"
  by (simp_all add: get_defs demo_queue_def Queue_layout_def Let_def CACHE_LINE_LENGTH_def
      getInt64_def get_le_def load_def read_bytes_def view_def one_line_cpu_def upt_rec[of _ 8])

lemma one_line_inv: "spsc_inv demo_queue one_line_cpu" "contents demo_queue one_line_cpu \<noteq> []"
proof -
  have q: "qmask demo_queue = 4095"
    using qmask_wf[OF demo_wf] by (simp add: mask_eq_exp_minus_1)
  show "spsc_inv demo_queue one_line_cpu"
    by (simp add: spsc_inv_def one_line_positions dist_def q)
  show "contents demo_queue one_line_cpu \<noteq> []"
    by (simp add: contents_def one_line_positions dist_def q)
qed

text \<open>
  C7. For any sequence of enqueue and dequeue operations on 64-byte lines, on any ring of \<open>2 ^ k\<close>
  elements and wherever its counters stand (so also across their wrap-around), the queue returns
  what a list bounded by \<open>2 ^ k - 1\<close> elements returns, and holds the same elements at the end.
\<close>

theorem queue_refines_fifo:
  assumes "wf_queue k q" "spsc_inv q c" "ops_ok (\<lambda>bs. length bs = 64) ops"
    and "run (impl_step enqueue_line dequeue_line) (q, c) ops = (rs, q', c')"
  shows "run (fifo_step (2 ^ k - 1)) (contents q c) ops = (rs, contents q' c') \<and> spsc_inv q' c'"
proof -
  have "fifo_inv (q, c)" using assms(1,2) wf_k[OF assms(1)] by (auto simp: fifo_inv_def)
  from spsc.run_refines[OF this assms(3,4)] show ?thesis
    by (simp add: fifo_cap_wf[OF assms(1)] fifo_elems_def fifo_inv_def)
qed

theorem queue_refines_fifo_witness:
  "fst (run (impl_step enqueue_line dequeue_line) (demo_queue, zero_cpu)
      [Enq (replicate 64 7), Deq, Deq]) =
    [Accepted True, Taken (Some (replicate 64 7)), Taken None]"
proof -
  obtain rs q' c' where r: "run (impl_step enqueue_line dequeue_line) (demo_queue, zero_cpu)
      [Enq (replicate 64 7), Deq, Deq] = (rs, q', c')" by (metis prod_cases3)
  have "ops_ok (\<lambda>bs. length bs = 64) [Enq (replicate 64 (7::byte)), Deq, Deq]" by simp
  from queue_refines_fifo[OF demo_wf zero_inv(1) this r] r show ?thesis by (simp add: zero_inv)
qed

text \<open>
  \<^verbatim>\<open>clear\<close>, run by one thread, always returns; afterwards the queue is empty, its tail is where
  it was, and the invariant holds.
\<close>

theorem clear_empties:
  assumes "wf_queue k q" "spsc_inv q c"
  shows "\<exists>q' c'. clear q c = Some (q', c') \<and> contents q' c' = [] \<and> isEmpty q' c' \<and>
    spsc_inv q' c' \<and> getTail q' c' = getTail q c"
proof -
  from clear_returns[OF assms] obtain l c' where
    r: "clear q c = Some (q\<lparr>q_pollCacheLine := l\<rparr>, c')" "contents q c' = []" "spsc_inv q c'"
      "getTail q c' = getTail q c" by blast
  have "isEmpty q c'"
    using length_contents[OF assms(1), of c'] r(2) assms(1)
    by (simp add: isEmpty_def qmask_wf and_mask_take_bit take_bit_eq_0_ring)
  then have "isEmpty (q\<lparr>q_pollCacheLine := l\<rparr>) c'" by (simp add: isEmpty_def)
  with r show ?thesis by simp
qed

theorem clear_empties_witness:
  "\<exists>q' c'. clear demo_queue one_line_cpu = Some (q', c') \<and> contents q' c' = []"
  using clear_empties[OF demo_wf one_line_inv(1)] by blast

text \<open>
  C8. The constructor clears the queue for every view mask other than 0, because the mask is
  tested with a logical conjunction: a producer that attaches to a buffer with queued lines
  removes all of them, where only a consumer is meant to.
\<close>

theorem producer_constructor_drains:
  assumes "qb_capacity b = 2 ^ k" "k \<le> 32" "qb_buffer b = Some l"
    and "spsc_inv (Queue_layout b (cl_buffer l)) c"
    and "contents (Queue_layout b (cl_buffer l)) c \<noteq> []"
  shows "\<exists>q' c'. SpscMemoryMappedCacheLineQueue b IS_PRODUCER c = Some (q', c') \<and>
    contents q' c' = [] \<and> spsc_inv q' c'"
proof -
  have "wf_queue k (Queue_layout b (cl_buffer l))" using assms(1,2) by (intro Queue_layout_wf)
  from clear_returns[OF this assms(4)] show ?thesis
    using assms(3)
    by (auto simp: SpscMemoryMappedCacheLineQueue_def QueueMemoryMappedBuffer_getBuffer_def
        CacheLine_getBuffer_def IS_PRODUCER_def IS_CONSUMER_def)
qed

theorem producer_constructor_drains_witness:
  "\<exists>q' c'. SpscMemoryMappedCacheLineQueue
      ((QueueMemoryMappedBuffer Solaris ''queue.ipc'')\<lparr>qb_buffer := Some (CacheLine 4096 262656)\<rparr>)
      IS_PRODUCER one_line_cpu = Some (q', c') \<and> contents q' c' = [] \<and> spsc_inv q' c'"
proof -
  let ?b = "(QueueMemoryMappedBuffer Solaris ''queue.ipc'')\<lparr>qb_buffer := Some (CacheLine 4096 262656)\<rparr>"
  have same: "contents (Queue_layout ?b 4096) = contents demo_queue"
    "spsc_inv (Queue_layout ?b 4096) = spsc_inv demo_queue"
    by (simp_all add: fun_eq_iff contents_def spsc_inv_def get_defs dist_def qmask_def line_def
        calcElementOffset_def demo_queue_def Queue_layout_def Let_def
        QueueMemoryMappedBuffer_getCapacity_def)
  have "qb_capacity ?b = 2 ^ 12" "(12::nat) \<le> 32" "qb_buffer ?b = Some (CacheLine 4096 262656)"
    by simp_all
  from producer_constructor_drains[OF this] show ?thesis
    using one_line_inv by (simp add: same)
qed

text \<open>
  \<^verbatim>\<open>size\<close> is the number of queued lines (on rings of fewer than \<open>2 ^ 32\<close> elements, whose size
  fits the returned \<^verbatim>\<open>int\<close> up to its sign bit), at most \<open>2 ^ k - 1\<close>, and \<^verbatim>\<open>isEmpty\<close> holds exactly when
  there is none.
\<close>

theorem queue_size_correct:
  assumes "wf_queue k q"
  shows "queue_size q c = of_nat (length (contents q c)) \<and>
    unat (queue_size q c) = length (contents q c) \<and> length (contents q c) \<le> 2 ^ k - 1 \<and>
    (isEmpty q c \<longleftrightarrow> contents q c = [])"
proof -
  let ?n = "ring_dist k (getHead q c) (getTail q c)"
  have n: "length (contents q c) = ?n" by (rule length_contents[OF assms])
  have lt: "?n < 2 ^ k" by (rule ring_dist_less)
  moreover have "(2::nat) ^ k \<le> 2 ^ 32" using wf_k(1)[OF assms] by (intro power_increasing) simp_all
  ultimately have "?n < 2 ^ LENGTH(32)" by simp
  then have u: "unat (of_nat ?n :: 32 word) = ?n" by (rule unat_of_nat_small)
  have s: "queue_size q c = of_nat ?n"
    using assms by (simp add: queue_size_def ring_dist_def qmask_wf and_mask_take_bit)
  have "isEmpty q c \<longleftrightarrow> ?n = 0"
    using assms by (simp add: isEmpty_def qmask_wf and_mask_take_bit take_bit_eq_0_ring)
  with n lt u s show ?thesis by auto
qed

theorem queue_size_correct_witness: "queue_size demo_queue one_line_cpu = 1"
proof -
  have q: "qmask demo_queue = 4095"
    using qmask_wf[OF demo_wf] by (simp add: mask_eq_exp_minus_1)
  have "length (contents demo_queue one_line_cpu) = 1"
    by (simp add: contents_def one_line_positions dist_def q)
  then show ?thesis using queue_size_correct[OF demo_wf, of one_line_cpu] by simp
qed

section \<open>Memory safety\<close>

lemma put_outside: "x < a \<or> a + 8 \<le> x \<Longrightarrow> view (putInt64 c a v) x = view c x"
  using a64.put_frame[of x a c v] by simp

lemma element_below:
  assumes "wf_queue k q"
  shows "calcElementOffset q i + 64 \<le> q_headAddressPos q + 256 + 64 * 2 ^ k"
proof -
  have "unat (take_bit k i) < 2 ^ k" by (simp add: unat_take_bit)
  then have "int (unat (take_bit k i)) < 2 ^ k" by (metis of_nat_less_iff of_nat_numeral of_nat_power)
  then show ?thesis unfolding calcElementOffset_wf[OF assms] by linarith
qed

text \<open>
  C9. No operation of the queue writes outside its buffer: outside the four cache lines of the
  header and the \<open>2 ^ k\<close> elements after it, the memory is as before, and the line handed to the
  producer or the consumer lies inside the element array.
\<close>

theorem queue_memory_safe:
  assumes "wf_queue k q" and "x < q_headAddressPos q \<or> q_headAddressPos q + 256 + 64 * 2 ^ k \<le> x"
  shows "view (snd (snd (preOffer q l c))) x = view c x \<and> view (offer q c) x = view c x \<and>
    view (snd (snd (poll q c))) x = view c x \<and> view (releaseCacheLine q c) x = view c x \<and>
    q_headAddressPos q + 256 \<le> calcElementOffset q i \<and>
    calcElementOffset q i + 64 \<le> q_headAddressPos q + 256 + 64 * 2 ^ k"
proof -
  have out: "x < q_headAddressPos q \<or> q_headAddressPos q + 256 \<le> x"
    using assms(2) by (smt (verit) zero_le_power)
  have set: "view (setHead q v c) x = view c x" "view (setTail q v c) x = view c x"
    "view (setHeadCache q v c) x = view c x" "view (setTailCache q v c) x = view c x" for v c
    using assms(1) out by (auto simp: set_defs wf_queue_def intro!: put_outside)
  have "view (snd (snd (preOffer q l c))) x = view c x" "view (snd (snd (poll q c))) x = view c x"
    by (simp_all add: preOffer_def poll_def Let_def set)
  then show ?thesis
    using element_above[OF assms(1), of i] element_below[OF assms(1), of i]
    by (simp add: offer_def releaseCacheLine_def set)
qed

theorem queue_memory_safe_witness:
  "view (offer demo_queue zero_cpu) 300000 = 0 \<and> view (offer demo_queue zero_cpu) 4095 = 0"
proof -
  have h: "q_headAddressPos demo_queue = 4096" by (simp add: demo_queue_def Queue_layout_def Let_def)
  show ?thesis
    using queue_memory_safe[OF demo_wf, of 300000 undefined zero_cpu 0]
      queue_memory_safe[OF demo_wf, of 4095 undefined zero_cpu 0]
    by (simp add: h) (simp add: view_def zero_cpu_def)
qed

section \<open>The mask against the remainder\<close>

lemma crem_power:
  assumes "k \<le> 32" "i < 10 * 2 ^ k"
  shows "crem (of_nat i) (2 ^ k) = take_bit k (of_nat i)"
proof -
  have "(2::nat) ^ k \<le> 2 ^ 32" using assms(1) by (intro power_increasing) simp_all
  then have lt: "i < 2 ^ 63" "(2::nat) ^ k < 2 ^ 63" using assms(2) by simp_all
  have i: "sint (of_nat i :: 64 word) = int i"
    using lt(1) by (subst sint_eq_unat) (simp_all add: unat_of_nat)
  have "unat (of_nat (2 ^ k) :: 64 word) = 2 ^ k" using lt(2) by (simp only: unat_of_nat) simp
  then have p: "sint (2 ^ k :: 64 word) = 2 ^ k"
    using lt(2) sint_eq_unat[of "2 ^ k :: 64 word"] by simp
  have "int i mod 2 ^ k = int (i mod 2 ^ k)" by (simp add: zmod_int)
  then have "crem (of_nat i) (2 ^ k) = of_nat (i mod 2 ^ k)"
    by (cases "i = 0") (simp_all add: crem_def i p)
  then show ?thesis by (simp only: take_bit_of_nat_word)
qed

text \<open>
  The optimised address calculation agrees with the one it replaces: for a capacity that is
  a power of two, the built-in self test, which compares the masked offset with the remainder
  over ten times the capacity, succeeds.
\<close>

theorem testOffsetCalculation_succeeds:
  assumes "wf_queue k q" "qb_capacity (q_buffer q) = 2 ^ k"
  shows "testOffsetCalculation q"
proof -
  have k: "k \<le> 32" by (rule wf_k(1)[OF assms(1)])
  have "(2::nat) ^ k \<le> 2 ^ 32" using k by (intro power_increasing) simp_all
  then have "10 * 2 ^ k < (2::nat) ^ 63" by simp
  then have u: "unat (of_nat (10 * 2 ^ k) :: 64 word) = 10 * 2 ^ k" by (simp only: unat_of_nat) simp
  then have n: "nat (sint (10 * 2 ^ k :: 64 word)) = 10 * 2 ^ k"
    using \<open>10 * 2 ^ k < (2::nat) ^ 63\<close> sint_eq_unat[of "10 * 2 ^ k :: 64 word"]
    by (simp add: nat_mult_distrib nat_power_eq)
  have eq: "calcElementOffset q (of_nat i) = calcElementOffsetModulus q (of_nat i)"
    if "i < 10 * 2 ^ k" for i
    using crem_power[OF k that] assms qmask_wf[OF assms(1)]
    by (simp add: calcElementOffset_def calcElementOffsetModulus_def
        QueueMemoryMappedBuffer_getCapacity_def take_bit_eq_mask and.commute)
  have "fold (\<lambda>i ok. ok \<and> calcElementOffset q (of_nat i) = calcElementOffsetModulus q (of_nat i)) xs True"
    if "\<forall>i\<in>set xs. i < 10 * 2 ^ k" for xs
    using that by (induction xs) (auto simp: eq)
  then show ?thesis
    by (simp add: testOffsetCalculation_def QueueMemoryMappedBuffer_getCapacity_def assms(2) n)
qed

theorem testOffsetCalculation_succeeds_witness: "testOffsetCalculation demo_queue"
  by (rule testOffsetCalculation_succeeds[OF demo_wf])
    (simp add: demo_queue_def Queue_layout_def Let_def)

end
