(* ===== verification/SpscTso.thy ===== *)
theory SpscTso
  imports SpscFifo
begin

text \<open>
  One producer and one consumer on the same queue, on two cores of an x86 machine. Each thread
  has its own store buffer; every load, every store and every arrival of a buffered store in the
  shared memory is a step, and the steps of the two threads interleave freely. The steps are cut
  out of the methods of \<^verbatim>\<open>SpscMemoryMappedCacheLineQueue.h\<close> at each access to shared memory and
  use the accessors of theory \<open>SpscQueue\<close>; \<open>steps_are_methods\<close> shows that what a thread which is not
  interrupted can do is exactly what the methods do.

  Between \<^verbatim>\<open>preOffer\<close> and \<^verbatim>\<open>offer\<close> the producer may store any bytes anywhere in the line it was
  given; between \<^verbatim>\<open>poll\<close> and \<^verbatim>\<open>releaseCacheLine\<close> the consumer reads the line it was given.
  \<open>t_hist\<close> and \<open>t_taken\<close> are history variables: the lines published by \<^verbatim>\<open>offer\<close> and the lines
  the consumer saw when it released them; no step depends on them.
\<close>

datatype ppc = PIdle | PTail int64_t | PFull int64_t | PHead int64_t int64_t | PRecheck int64_t
  | PClaim int64_t | POffer int64_t int64_t

datatype cpc = CIdle | CHead int64_t | CEmpty int64_t | CTail int64_t int64_t | CRecheck int64_t
  | CHeld int64_t | CRelease int64_t int64_t

record tso =
  t_mem :: mem
  t_pbuf :: "store list"
  t_cbuf :: "store list"
  t_ppc :: ppc
  t_cpc :: cpc
  t_hist :: "byte list list"
  t_taken :: "byte list list"

definition pcpu :: "tso \<Rightarrow> cpu" where
  "pcpu s = \<lparr>shared = t_mem s, sbuf = t_pbuf s\<rparr>"

definition ccpu :: "tso \<Rightarrow> cpu" where
  "ccpu s = \<lparr>shared = t_mem s, sbuf = t_cbuf s\<rparr>"

definition set_pcpu :: "cpu \<Rightarrow> tso \<Rightarrow> tso" where
  "set_pcpu c s = s\<lparr>t_mem := shared c, t_pbuf := sbuf c\<rparr>"

definition set_ccpu :: "cpu \<Rightarrow> tso \<Rightarrow> tso" where
  "set_ccpu c s = s\<lparr>t_mem := shared c, t_cbuf := sbuf c\<rparr>"

text \<open>
  The methods, cut at their accesses. \<open>PClaim t\<close> is the state after a \<^verbatim>\<open>preOffer\<close> that returned true
  for position \<open>t\<close>, \<open>CHeld h\<close> the state after a \<^verbatim>\<open>poll\<close> that returned the line of position \<open>h\<close>.
\<close>

inductive producer_step :: "queue \<Rightarrow> tso \<Rightarrow> tso \<Rightarrow> bool" for q where
  p_tail: "t_ppc s = PIdle \<Longrightarrow>
    producer_step q s (s\<lparr>t_ppc := PTail (getTailPlain q (pcpu s))\<rparr>)"
| p_check: "t_ppc s = PTail t \<Longrightarrow>
    producer_step q s (s\<lparr>t_ppc := if looks_full q t (pcpu s) then PFull t else PClaim t\<rparr>)"
| p_head: "t_ppc s = PFull t \<Longrightarrow>
    producer_step q s (s\<lparr>t_ppc := PHead t (getHead q (pcpu s))\<rparr>)"
| p_cache: "t_ppc s = PHead t h \<Longrightarrow>
    producer_step q s (set_pcpu (setHeadCache q h (pcpu s)) (s\<lparr>t_ppc := PRecheck t\<rparr>))"
| p_recheck: "t_ppc s = PRecheck t \<Longrightarrow>
    producer_step q s (s\<lparr>t_ppc := if looks_full q t (pcpu s) then PIdle else PClaim t\<rparr>)"
| p_write: "t_ppc s = PClaim t \<Longrightarrow> calcElementOffset q t \<le> a \<Longrightarrow>
    a + int (length bs) \<le> calcElementOffset q t + 64 \<Longrightarrow>
    producer_step q s (set_pcpu (emit (pcpu s) a bs) s)"
| p_offer: "t_ppc s = PClaim t \<Longrightarrow>
    producer_step q s (s\<lparr>t_ppc := POffer t (getTailPlain q (pcpu s))\<rparr>)"
| p_publish: "t_ppc s = POffer t t' \<Longrightarrow>
    producer_step q s (set_pcpu (setTail q (t' + 1) (pcpu s))
      (s\<lparr>t_ppc := PIdle, t_hist := t_hist s @ [line q (pcpu s) t]\<rparr>))"

inductive consumer_step :: "queue \<Rightarrow> tso \<Rightarrow> tso \<Rightarrow> bool" for q where
  c_head: "t_cpc s = CIdle \<Longrightarrow>
    consumer_step q s (s\<lparr>t_cpc := CHead (getHeadPlain q (ccpu s))\<rparr>)"
| c_check: "t_cpc s = CHead h \<Longrightarrow>
    consumer_step q s (s\<lparr>t_cpc := if looks_empty q h (ccpu s) then CEmpty h else CHeld h\<rparr>)"
| c_tail: "t_cpc s = CEmpty h \<Longrightarrow>
    consumer_step q s (s\<lparr>t_cpc := CTail h (getTail q (ccpu s))\<rparr>)"
| c_cache: "t_cpc s = CTail h t \<Longrightarrow>
    consumer_step q s (set_ccpu (setTailCache q t (ccpu s)) (s\<lparr>t_cpc := CRecheck h\<rparr>))"
| c_recheck: "t_cpc s = CRecheck h \<Longrightarrow>
    consumer_step q s (s\<lparr>t_cpc := if looks_empty q h (ccpu s) then CIdle else CHeld h\<rparr>)"
| c_release: "t_cpc s = CHeld h \<Longrightarrow>
    consumer_step q s (s\<lparr>t_cpc := CRelease h (getHeadPlain q (ccpu s))\<rparr>)"
| c_publish: "t_cpc s = CRelease h h' \<Longrightarrow>
    consumer_step q s (set_ccpu (setHead q (h' + 1) (ccpu s))
      (s\<lparr>t_cpc := CIdle, t_taken := t_taken s @ [line q (ccpu s) h]\<rparr>))"

inductive memory_step :: "tso \<Rightarrow> tso \<Rightarrow> bool" where
  p_flush: "t_pbuf s = b # bs \<Longrightarrow>
    memory_step s (s\<lparr>t_mem := apply_store (t_mem s) b, t_pbuf := bs\<rparr>)"
| c_flush: "t_cbuf s = b # bs \<Longrightarrow>
    memory_step s (s\<lparr>t_mem := apply_store (t_mem s) b, t_cbuf := bs\<rparr>)"

definition step :: "queue \<Rightarrow> tso \<Rightarrow> tso \<Rightarrow> bool" where
  "step q s s' \<longleftrightarrow> producer_step q s s' \<or> consumer_step q s s' \<or> memory_step s s'"

text \<open>
  The start: both threads idle, their buffers empty, the positions in order within one ring. A
  zeroed file is such a memory, and so is a queue that was used before. The history starts at the
  position the producer last saw as the head.
\<close>

definition start :: "queue \<Rightarrow> nat \<Rightarrow> tso \<Rightarrow> bool" where
  "start q k s \<longleftrightarrow> t_pbuf s = [] \<and> t_cbuf s = [] \<and> t_ppc s = PIdle \<and> t_cpc s = CIdle \<and>
     (\<exists>h tc t. h \<le> tc \<and> tc \<le> t \<and> t < 2 ^ k \<and>
        getHead q (pcpu s) = getHeadCache q (pcpu s) + of_nat h \<and>
        getTailCache q (pcpu s) = getHeadCache q (pcpu s) + of_nat tc \<and>
        getTail q (pcpu s) = getHeadCache q (pcpu s) + of_nat t \<and>
        t_hist s = map (\<lambda>i. line q (pcpu s) (getHeadCache q (pcpu s) + of_nat i)) [0..<t] \<and>
        t_taken s = take h (t_hist s))"

inductive reachable :: "queue \<Rightarrow> nat \<Rightarrow> tso \<Rightarrow> bool" for q k where
  init: "start q k s \<Longrightarrow> reachable q k s"
| next_state: "reachable q k s \<Longrightarrow> step q s s' \<Longrightarrow> reachable q k s'"

inductive_cases producer_stepE: "producer_step q s s'"
inductive_cases consumer_stepE: "consumer_step q s s'"
inductive_cases memory_stepE: "memory_step s s'"

section \<open>A store buffer whose stores only move a counter forward\<close>

text \<open>
  \<open>advancing a w P N n m ss\<close>: as the stores \<open>ss\<close> reach the memory \<open>m\<close> one after another, the word at
  \<open>a\<close> moves from \<open>w + n\<close> to \<open>w + N\<close> without ever going back, and at each stage the memory
  satisfies \<open>P\<close> of the counter it then holds. This is the form in which each thread may
  rely on what it finds of the other's stores.
\<close>

definition word_at :: "mem \<Rightarrow> addr \<Rightarrow> int64_t" where
  "word_at m a = dec (read_bytes m a 8)"

fun advancing :: "addr \<Rightarrow> int64_t \<Rightarrow> (nat \<Rightarrow> mem \<Rightarrow> bool) \<Rightarrow> nat \<Rightarrow> nat \<Rightarrow> mem \<Rightarrow> store list \<Rightarrow> bool" where
  "advancing a w P N n m [] \<longleftrightarrow> word_at m a = w + of_nat n \<and> P n m \<and> n = N"
| "advancing a w P N n m (s # ss) \<longleftrightarrow> word_at m a = w + of_nat n \<and> P n m \<and>
     (\<exists>n'\<ge>n. advancing a w P N n' (apply_store m s) ss)"

lemma advancing_start: "advancing a w P N n m ss \<Longrightarrow> word_at m a = w + of_nat n \<and> P n m"
  by (cases ss) auto

lemma advancing_le: "advancing a w P N n m ss \<Longrightarrow> n \<le> N"
  by (induction ss arbitrary: n m) (auto intro: order_trans)

lemma advancing_end:
  "advancing a w P N n m ss \<Longrightarrow>
    word_at (apply_stores m ss) a = w + of_nat N \<and> P N (apply_stores m ss)"
  by (induction ss arbitrary: n m) auto

lemma advancing_append:
  assumes "advancing a w P N n m ss" "N \<le> N'"
    "word_at (apply_stores m (ss @ [s])) a = w + of_nat N'" "P N' (apply_stores m (ss @ [s]))"
  shows "advancing a w P N' n m (ss @ [s])"
  using assms by (induction ss arbitrary: n m) auto

lemma advancing_mono:
  assumes "advancing a w P N n m ss" "\<And>i m. i \<le> N \<Longrightarrow> P i m \<Longrightarrow> P' i m"
  shows "advancing a w P' N n m ss"
  using assms(1)
proof (induction ss arbitrary: n m)
  case Nil
  then show ?case using assms(2) by auto
next
  case (Cons s ss)
  then have "n \<le> N" by (blast intro: advancing_le)
  with Cons show ?case using assms(2) by auto
qed

text \<open>A store of the other thread, apart from every store in the buffer, may arrive in between.\<close>

lemma advancing_other:
  assumes "advancing a w P N n m ss" "\<forall>s\<in>set ss. apart s d" "outside d a 8"
    "\<And>i m. P i m \<Longrightarrow> P i (apply_store m d)"
  shows "advancing a w P N n (apply_store m d) ss"
  using assms(1,2)
proof (induction ss arbitrary: n m)
  case Nil
  then show ?case using assms(3,4) by (auto simp: word_at_def read_apply_store_outside)
next
  case (Cons s ss)
  then have "apply_store (apply_store m d) s = apply_store (apply_store m s) d"
    by (intro apply_store_commute[symmetric]) simp
  with Cons show ?case using assms(3,4) by (auto simp: word_at_def read_apply_store_outside)
qed

section \<open>The invariant\<close>

definition line_at :: "queue \<Rightarrow> mem \<Rightarrow> int64_t \<Rightarrow> byte list" where
  "line_at q m i = read_bytes m (calcElementOffset q i) 64"

text \<open>The published lines from position \<open>r\<close> up to \<open>n\<close> are in the memory as they were published.\<close>

definition lines_kept :: "queue \<Rightarrow> int64_t \<Rightarrow> byte list list \<Rightarrow> nat \<Rightarrow> nat \<Rightarrow> mem \<Rightarrow> bool" where
  "lines_kept q w hist r n m \<longleftrightarrow>
     (\<forall>i. r \<le> i \<and> i < n \<longrightarrow> line_at q m (w + of_nat i) = hist ! i)"

fun ppc_ok :: "int64_t \<Rightarrow> nat \<Rightarrow> nat \<Rightarrow> nat \<Rightarrow> nat \<Rightarrow> ppc \<Rightarrow> bool" where
  "ppc_ok w k hc hm n PIdle \<longleftrightarrow> True"
| "ppc_ok w k hc hm n (PTail t) \<longleftrightarrow> t = w + of_nat n"
| "ppc_ok w k hc hm n (PFull t) \<longleftrightarrow> t = w + of_nat n"
| "ppc_ok w k hc hm n (PHead t h) \<longleftrightarrow> t = w + of_nat n \<and>
     (\<exists>x. hc \<le> x \<and> x \<le> hm \<and> h = w + of_nat x)"
| "ppc_ok w k hc hm n (PRecheck t) \<longleftrightarrow> t = w + of_nat n"
| "ppc_ok w k hc hm n (PClaim t) \<longleftrightarrow> t = w + of_nat n \<and> n + 1 < hc + 2 ^ k"
| "ppc_ok w k hc hm n (POffer t t') \<longleftrightarrow> t = w + of_nat n \<and> t' = t \<and> n + 1 < hc + 2 ^ k"

fun cpc_ok :: "int64_t \<Rightarrow> nat \<Rightarrow> nat \<Rightarrow> nat \<Rightarrow> cpc \<Rightarrow> bool" where
  "cpc_ok w tc tm r CIdle \<longleftrightarrow> True"
| "cpc_ok w tc tm r (CHead h) \<longleftrightarrow> h = w + of_nat r"
| "cpc_ok w tc tm r (CEmpty h) \<longleftrightarrow> h = w + of_nat r"
| "cpc_ok w tc tm r (CTail h t) \<longleftrightarrow> h = w + of_nat r \<and>
     (\<exists>x. tc \<le> x \<and> x \<le> tm \<and> t = w + of_nat x)"
| "cpc_ok w tc tm r (CRecheck h) \<longleftrightarrow> h = w + of_nat r"
| "cpc_ok w tc tm r (CHeld h) \<longleftrightarrow> h = w + of_nat r \<and> r < tc"
| "cpc_ok w tc tm r (CRelease h h') \<longleftrightarrow> h = w + of_nat r \<and> h' = h \<and> r < tc"

text \<open>
  \<open>hc\<close>, \<open>hm\<close>, \<open>tc\<close> and \<open>tm\<close> number the producer's cached head, the head in the shared memory, the
  consumer's cached tail and the tail in the shared memory, counted from \<open>w\<close>; the true head and
  tail are the lengths of the two histories. The producer's stores lie above the first two cache
  lines of the buffer and the consumer's below.
\<close>

definition tso_inv :: "queue \<Rightarrow> nat \<Rightarrow> int64_t \<Rightarrow> nat \<Rightarrow> nat \<Rightarrow> nat \<Rightarrow> nat \<Rightarrow> tso \<Rightarrow> bool" where
  "tso_inv q k w hc hm tc tm s \<longleftrightarrow>
     (let n = length (t_hist s); r = length (t_taken s) in
       hc \<le> hm \<and> r \<le> tc \<and> tc \<le> tm \<and> n < hc + 2 ^ k \<and> t_taken s = take r (t_hist s) \<and>
       advancing (q_tailAddressPos q) w (lines_kept q w (t_hist s) r) n tm (t_mem s) (t_pbuf s) \<and>
       advancing (q_headAddressPos q) w (\<lambda>_ _. True) r hm (t_mem s) (t_cbuf s) \<and>
       getHeadCache q (pcpu s) = w + of_nat hc \<and> getTailCache q (ccpu s) = w + of_nat tc \<and>
       (\<forall>b\<in>set (t_pbuf s). q_headAddressPos q + 128 \<le> fst b) \<and>
       (\<forall>b\<in>set (t_cbuf s). fst b + int (length (snd b)) \<le> q_headAddressPos q + 128) \<and>
       ppc_ok w k hc hm n (t_ppc s) \<and> cpc_ok w tc tm r (t_cpc s))"

lemma getInt64_word_at: "getInt64 c a = word_at (view c) a"
  by (simp add: getInt64_def get_le_def load_def word_at_def)

lemma word_at_outside: "\<forall>b\<in>set ss. outside b a 8 \<Longrightarrow> word_at (apply_stores m ss) a = word_at m a"
  by (simp add: word_at_def read_apply_stores_outside)

lemma line_line_at: "line q c i = line_at q (view c) i"
  by (simp add: line_def line_at_def load_def)

lemma view_threads:
  "view (pcpu s) = apply_stores (t_mem s) (t_pbuf s)"
  "view (ccpu s) = apply_stores (t_mem s) (t_cbuf s)"
  by (simp_all add: view_def pcpu_def ccpu_def)

lemma set_stores:
  "set_pcpu (emit (pcpu s) a bs) s' = s'\<lparr>t_mem := t_mem s, t_pbuf := t_pbuf s @ [(a, bs)]\<rparr>"
  "set_ccpu (emit (ccpu s) a bs) s' = s'\<lparr>t_mem := t_mem s, t_cbuf := t_cbuf s @ [(a, bs)]\<rparr>"
  by (simp_all add: set_pcpu_def set_ccpu_def emit_def pcpu_def ccpu_def)

lemma set_emits:
  "setHead q v c = emit c (q_headAddressPos q) (enc 8 v)"
  "setTail q v c = emit c (q_tailAddressPos q) (enc 8 v)"
  "setHeadCache q v c = emit c (q_headCacheAddressPos q) (enc 8 v)"
  "setTailCache q v c = emit c (q_tailCacheAddressPos q) (enc 8 v)"
  by (simp_all add: set_defs putInt64_def put_le_def)

lemma pcpu_simps [simp]:
  "pcpu (s\<lparr>t_ppc := x\<rparr>) = pcpu s" "pcpu (s\<lparr>t_cpc := y\<rparr>) = pcpu s"
  "pcpu (s\<lparr>t_hist := u\<rparr>) = pcpu s" "pcpu (s\<lparr>t_taken := u\<rparr>) = pcpu s"
  "pcpu (s\<lparr>t_cbuf := b\<rparr>) = pcpu s"
  "ccpu (s\<lparr>t_ppc := x\<rparr>) = ccpu s" "ccpu (s\<lparr>t_cpc := y\<rparr>) = ccpu s"
  "ccpu (s\<lparr>t_hist := u\<rparr>) = ccpu s" "ccpu (s\<lparr>t_taken := u\<rparr>) = ccpu s"
  "ccpu (s\<lparr>t_pbuf := b\<rparr>) = ccpu s"
  by (simp_all add: pcpu_def ccpu_def)

text \<open>A queue whose positions and mask are as the constructor sets them, for a ring of \<open>2 ^ k\<close>.\<close>

locale spsc_ring =
  fixes q :: queue and k :: nat
  assumes wf: "wf_queue k q"
begin

lemma producer_sees:
  assumes "tso_inv q k w hc hm tc tm s"
  shows "getTail q (pcpu s) = w + of_nat (length (t_hist s))"
    and "getHead q (pcpu s) = w + of_nat hm"
    and "getHeadCache q (pcpu s) = w + of_nat hc"
    and "lines_kept q w (t_hist s) (length (t_taken s)) (length (t_hist s)) (view (pcpu s))"
proof -
  note i = assms[unfolded tso_inv_def Let_def]
  have "\<forall>b\<in>set (t_pbuf s). outside b (q_headAddressPos q) 8" using i by (auto simp: outside_def)
  then show "getHead q (pcpu s) = w + of_nat hm"
    using i advancing_start by (fastforce simp: get_defs getInt64_word_at view_threads word_at_outside)
  show "getTail q (pcpu s) = w + of_nat (length (t_hist s))"
    "lines_kept q w (t_hist s) (length (t_taken s)) (length (t_hist s)) (view (pcpu s))"
    using i advancing_end by (fastforce simp: get_defs getInt64_word_at view_threads)+
  show "getHeadCache q (pcpu s) = w + of_nat hc" using i by blast
qed

lemma consumer_sees:
  assumes "tso_inv q k w hc hm tc tm s"
  shows "getHead q (ccpu s) = w + of_nat (length (t_taken s))"
    and "getTail q (ccpu s) = w + of_nat tm"
    and "getTailCache q (ccpu s) = w + of_nat tc"
    and "line q (ccpu s) i = line_at q (t_mem s) i"
    and "lines_kept q w (t_hist s) (length (t_taken s)) tm (t_mem s)"
proof -
  note i = assms[unfolded tso_inv_def Let_def]
  have "\<forall>b\<in>set (t_cbuf s). outside b (q_tailAddressPos q) 8"
    using i wf by (auto simp: outside_def wf_queue_def)
  then show "getTail q (ccpu s) = w + of_nat tm"
    using i advancing_start by (fastforce simp: get_defs getInt64_word_at view_threads word_at_outside)
  have "\<forall>b\<in>set (t_cbuf s). outside b (calcElementOffset q j) 64" for j
    using i element_above[OF wf, of j] by (auto simp: outside_def)
  then show "line q (ccpu s) i = line_at q (t_mem s) i"
    by (simp add: line_line_at line_at_def view_threads read_apply_stores_outside)
  show "getHead q (ccpu s) = w + of_nat (length (t_taken s))"
    using i advancing_end by (fastforce simp: get_defs getInt64_word_at view_threads)
  show "getTailCache q (ccpu s) = w + of_nat tc" using i by blast
  show "lines_kept q w (t_hist s) (length (t_taken s)) tm (t_mem s)" using i advancing_start by blast
qed

lemma inv_order:
  assumes "tso_inv q k w hc hm tc tm s"
  shows "hc \<le> hm" "hm \<le> length (t_taken s)" "length (t_taken s) \<le> tc" "tc \<le> tm"
    "tm \<le> length (t_hist s)" "length (t_hist s) < hc + 2 ^ k"
  using assms advancing_le by (auto simp: tso_inv_def Let_def)

lemma full_iff:
  assumes "tso_inv q k w hc hm tc tm s"
  shows "looks_full q (w + of_nat (length (t_hist s))) (pcpu s) \<longleftrightarrow> length (t_hist s) + 1 = hc + 2 ^ k"
proof -
  note o = inv_order[OF assms]
  have "ring_dist k (w + of_nat hc) (w + of_nat (length (t_hist s))) = length (t_hist s) - hc"
    using o by (intro ring_dist_of_nat wf_k(2)[OF wf]) linarith+
  then show ?thesis
    using o by (auto simp: looks_full_iff[OF wf] producer_sees(3)[OF assms])
qed

lemma empty_iff:
  assumes "tso_inv q k w hc hm tc tm s"
  shows "looks_empty q (w + of_nat (length (t_taken s))) (ccpu s) \<longleftrightarrow> tc = length (t_taken s)"
proof -
  note o = inv_order[OF assms]
  have "ring_dist k (w + of_nat (length (t_taken s))) (w + of_nat tc) = tc - length (t_taken s)"
    using o by (intro ring_dist_of_nat wf_k(2)[OF wf]) linarith+
  then show ?thesis
    using o by (auto simp: looks_empty_iff[OF wf] consumer_sees(3)[OF assms])
qed

lemma ring_slots_apart:
  assumes "i < j" "j < i + 2 ^ k"
  shows "calcElementOffset q (w + of_nat i) + 64 \<le> calcElementOffset q (w + of_nat j) \<or>
         calcElementOffset q (w + of_nat j) + 64 \<le> calcElementOffset q (w + of_nat i)"
proof (rule elements_apart[OF wf])
  have "i mod 2 ^ k \<noteq> j mod 2 ^ k"
  proof
    assume "i mod 2 ^ k = j mod 2 ^ k"
    then have "2 ^ k dvd j - i" using assms(1) mod_eq_dvd_iff_nat[of i j "2 ^ k"] by simp
    with assms show False by (auto dest: dvd_imp_le)
  qed
  then show "take_bit k (w + of_nat i) \<noteq> take_bit k (w + of_nat j)"
    by (simp add: take_bit_add_eq_iff[OF wf_k(2)[OF wf]])
qed

lemma lines_kept_store:
  assumes "lines_kept q w hist r n m"
    "\<And>i. r \<le> i \<Longrightarrow> i < n \<Longrightarrow> outside b (calcElementOffset q (w + of_nat i)) 64"
  shows "lines_kept q w hist r n (apply_store m b)"
  using assms by (auto simp: lines_kept_def line_at_def read_apply_store_outside)

lemma lines_kept_grow:
  assumes "lines_kept q w hist r n m" "r \<le> n" "n = length hist"
  shows "lines_kept q w (hist @ [line_at q m (w + of_nat n)]) r (Suc n) m"
  using assms by (auto simp: lines_kept_def nth_append less_Suc_eq)

lemma lines_kept_weaken:
  "lines_kept q w hist r i m \<Longrightarrow> i \<le> length hist \<Longrightarrow> r \<le> r' \<Longrightarrow> lines_kept q w (hist @ hist') r' i m"
  by (auto simp: lines_kept_def nth_append)

lemma word_at_store:
  "outside b a 8 \<Longrightarrow> word_at (apply_store m b) a = word_at m a"
  "word_at (apply_store m (a, enc 8 v)) a = v"
  by (simp_all add: word_at_def read_apply_store_outside read_write_same dec_enc del: enc_numeral)

text \<open>A store of the producer that is not a publication leaves what was published alone.\<close>

lemma producer_store_keeps:
  assumes inv: "tso_inv q k w hc hm tc tm s"
    and b: "q_headAddressPos q + 128 \<le> fst b" "outside b (q_tailAddressPos q) 8"
    and lines: "\<And>i. length (t_taken s) \<le> i \<Longrightarrow> i < length (t_hist s) \<Longrightarrow>
      outside b (calcElementOffset q (w + of_nat i)) 64"
    and hc: "hc \<le> hc'" "hc' \<le> hm"
      "word_at (apply_stores (t_mem s) (t_pbuf s @ [b])) (q_headCacheAddressPos q) = w + of_nat hc'"
    and pc: "ppc_ok w k hc' hm (length (t_hist s)) pc"
  shows "tso_inv q k w hc' hm tc tm (s\<lparr>t_ppc := pc, t_pbuf := t_pbuf s @ [b]\<rparr>)"
proof -
  let ?n = "length (t_hist s)" and ?r = "length (t_taken s)"
  note i = inv[unfolded tso_inv_def Let_def]
  let ?m = "apply_stores (t_mem s) (t_pbuf s)"
  have e: "word_at ?m (q_tailAddressPos q) = w + of_nat ?n" "lines_kept q w (t_hist s) ?r ?n ?m"
    using i advancing_end by blast+
  have "advancing (q_tailAddressPos q) w (lines_kept q w (t_hist s) ?r) ?n tm (t_mem s) (t_pbuf s @ [b])"
    using i e b(2) lines_kept_store[OF e(2) lines] by (intro advancing_append) (auto simp: word_at_store)
  then show ?thesis using i b hc pc
    by (auto simp: tso_inv_def Let_def get_defs getInt64_word_at view_threads ccpu_def)
qed

lemma producer_publish_keeps:
  assumes inv: "tso_inv q k w hc hm tc tm s" and room: "length (t_hist s) + 1 < hc + 2 ^ k"
  shows "tso_inv q k w hc hm tc tm
    (s\<lparr>t_ppc := PIdle, t_hist := t_hist s @ [line q (pcpu s) (w + of_nat (length (t_hist s)))],
       t_pbuf := t_pbuf s @ [(q_tailAddressPos q, enc 8 (w + of_nat (length (t_hist s)) + 1))]\<rparr>)"
proof -
  let ?n = "length (t_hist s)" and ?r = "length (t_taken s)"
  let ?m = "apply_stores (t_mem s) (t_pbuf s)" and ?b = "(q_tailAddressPos q, enc 8 (w + of_nat ?n + 1))"
  let ?h = "t_hist s @ [line q (pcpu s) (w + of_nat ?n)]"
  note i = inv[unfolded tso_inv_def Let_def] and o = inv_order[OF inv]
  have e: "lines_kept q w (t_hist s) ?r ?n ?m" using i advancing_end by blast
  have out: "outside ?b (calcElementOffset q j) 64" for j
    using element_above[OF wf, of j] wf by (simp add: outside_def wf_queue_def)
  have hc: "outside ?b (q_headCacheAddressPos q) 8" using wf by (simp add: outside_def wf_queue_def)
  have "lines_kept q w ?h ?r (Suc ?n) (apply_store ?m ?b)"
    using lines_kept_grow[OF e _ refl] o out by (intro lines_kept_store) (auto simp: line_line_at view_threads)
  moreover have "advancing (q_tailAddressPos q) w (lines_kept q w ?h ?r) ?n tm (t_mem s) (t_pbuf s)"
    using i by (auto elim!: advancing_mono intro: lines_kept_weaken)
  ultimately have "advancing (q_tailAddressPos q) w (lines_kept q w ?h ?r) (Suc ?n) tm (t_mem s) (t_pbuf s @ [?b])"
    by (intro advancing_append) (auto simp: word_at_store algebra_simps simp del: apply_store.simps enc_numeral)
  then show ?thesis using i room o word_at_store(1)[OF hc] wf
    by (auto simp: tso_inv_def Let_def get_defs getInt64_word_at view_threads ccpu_def wf_queue_def
        simp del: apply_store.simps enc_numeral)
qed

lemma producer_keeps:
  assumes inv: "tso_inv q k w hc hm tc tm s" and step: "producer_step q s s'"
  shows "\<exists>hc'. tso_inv q k w hc' hm tc tm s'"
proof -
  let ?n = "length (t_hist s)"
  note i = inv[unfolded tso_inv_def Let_def] and o = inv_order[OF inv]
  note see = producer_sees[OF inv]
  have pc: "tso_inv q k w hc hm tc tm (s\<lparr>t_ppc := pc\<rparr>)" if "ppc_ok w k hc hm ?n pc" for pc
    using i that by (simp add: tso_inv_def Let_def)
  from step show ?thesis
  proof cases
    case p_tail
    show ?thesis unfolding p_tail by (intro exI[of _ hc] pc) (simp add: pos_defs(1,2) see)
  next
    case (p_check t)
    then have t: "t = w + of_nat ?n" using i by simp
    have "ppc_ok w k hc hm ?n (if looks_full q t (pcpu s) then PFull t else PClaim t)"
      using o by (auto simp: t full_iff[OF inv])
    then show ?thesis unfolding p_check(1) using pc by blast
  next
    case (p_head t)
    then show ?thesis using i o by (intro exI[of _ hc]) (auto intro!: pc simp: see)
  next
    case (p_cache t h)
    then obtain x where x: "hc \<le> x" "x \<le> hm" "h = w + of_nat x" "t = w + of_nat ?n" using i by auto
    let ?b = "(q_headCacheAddressPos q, enc 8 h)"
    have "outside ?b (calcElementOffset q j) 64" for j
      using element_above[OF wf, of j] wf by (simp add: outside_def wf_queue_def)
    then have "tso_inv q k w x hm tc tm (s\<lparr>t_ppc := PRecheck t, t_pbuf := t_pbuf s @ [?b]\<rparr>)"
      using x wf word_at_store(2)
      by (intro producer_store_keeps[OF inv]) (auto simp: outside_def wf_queue_def simp del: apply_store.simps)
    then show ?thesis unfolding p_cache(1) by (auto simp: set_emits set_stores simp del: enc_numeral)
  next
    case (p_recheck t)
    then have t: "t = w + of_nat ?n" using i by simp
    have "ppc_ok w k hc hm ?n (if looks_full q t (pcpu s) then PIdle else PClaim t)"
      using o by (auto simp: t full_iff[OF inv])
    then show ?thesis unfolding p_recheck(1) using pc by blast
  next
    case (p_write t a bs)
    then have t: "t = w + of_nat ?n" "?n + 1 < hc + 2 ^ k" using i by auto
    have above: "q_headAddressPos q + 256 \<le> a" using p_write element_above[OF wf, of t] by simp
    have "outside (a, bs) (calcElementOffset q (w + of_nat j)) 64"
      if "length (t_taken s) \<le> j" "j < ?n" for j
    proof -
      have "?n < j + 2 ^ k" using that o t(2) by linarith
      from ring_slots_apart[OF that(2) this, of w] p_write t show ?thesis by (auto simp: outside_def)
    qed
    then have "tso_inv q k w hc hm tc tm (s\<lparr>t_ppc := t_ppc s, t_pbuf := t_pbuf s @ [(a, bs)]\<rparr>)"
      using above i p_write wf o see(3) word_at_store(1)[of "(a, bs)" "q_headCacheAddressPos q"]
      by (intro producer_store_keeps[OF inv])
        (auto simp: outside_def wf_queue_def get_defs getInt64_word_at view_threads simp del: apply_store.simps)
    then show ?thesis unfolding p_write(1) by (auto simp: set_stores)
  next
    case (p_offer t)
    then show ?thesis using i by (intro exI[of _ hc]) (auto intro!: pc simp: pos_defs(1,2) see)
  next
    case (p_publish t t')
    then have "t = w + of_nat ?n" "t' = t" "?n + 1 < hc + 2 ^ k" using i by auto
    with producer_publish_keeps[OF inv this(3)] show ?thesis
      unfolding p_publish(1) by (auto simp: set_emits set_stores simp del: enc_numeral)
  qed
qed

lemma consumer_cache_keeps:
  assumes inv: "tso_inv q k w hc hm tc tm s" and x: "tc \<le> x" "x \<le> tm"
    and pc: "cpc_ok w x tm (length (t_taken s)) pc"
  shows "tso_inv q k w hc hm x tm
    (s\<lparr>t_cpc := pc, t_cbuf := t_cbuf s @ [(q_tailCacheAddressPos q, enc 8 (w + of_nat x))]\<rparr>)"
proof -
  let ?r = "length (t_taken s)" and ?b = "(q_tailCacheAddressPos q, enc 8 (w + of_nat x))"
  note i = inv[unfolded tso_inv_def Let_def]
  have out: "outside ?b (q_headAddressPos q) 8" using wf by (simp add: outside_def wf_queue_def)
  have e: "word_at (apply_stores (t_mem s) (t_cbuf s)) (q_headAddressPos q) = w + of_nat ?r"
    using i advancing_end by blast
  have "advancing (q_headAddressPos q) w (\<lambda>_ _. True) ?r hm (t_mem s) (t_cbuf s @ [?b])"
    using i by (intro advancing_append[where N = ?r])
      (simp_all add: e word_at_store(1)[OF out] del: apply_store.simps enc_numeral)
  then show ?thesis using i x pc word_at_store(2) wf
    by (auto simp: tso_inv_def Let_def get_defs getInt64_word_at view_threads pcpu_def wf_queue_def
        simp del: apply_store.simps enc_numeral)
qed

lemma consumer_publish_keeps:
  assumes inv: "tso_inv q k w hc hm tc tm s" and some: "length (t_taken s) < tc"
  shows "tso_inv q k w hc hm tc tm
    (s\<lparr>t_cpc := CIdle, t_taken := t_taken s @ [line q (ccpu s) (w + of_nat (length (t_taken s)))],
       t_cbuf := t_cbuf s @ [(q_headAddressPos q, enc 8 (w + of_nat (length (t_taken s)) + 1))]\<rparr>)"
proof -
  let ?r = "length (t_taken s)" and ?b = "(q_headAddressPos q, enc 8 (w + of_nat (length (t_taken s)) + 1))"
  note i = inv[unfolded tso_inv_def Let_def] and o = inv_order[OF inv] and see = consumer_sees[OF inv]
  have ln: "line q (ccpu s) (w + of_nat ?r) = t_hist s ! ?r"
    using see(5) some o by (simp add: see(4) lines_kept_def)
  have tk: "take (Suc ?r) (t_hist s) = t_taken s @ [t_hist s ! ?r]"
    using i some o by (metis take_Suc_conv_app_nth less_le_trans)
  have hd: "advancing (q_headAddressPos q) w (\<lambda>_ _. True) (Suc ?r) hm (t_mem s) (t_cbuf s @ [?b])"
    using i by (intro advancing_append[where N = ?r])
      (auto simp: word_at_store(2) algebra_simps simp del: apply_store.simps enc_numeral)
  have tl: "advancing (q_tailAddressPos q) w (lines_kept q w (t_hist s) (Suc ?r)) (length (t_hist s)) tm
      (t_mem s) (t_pbuf s)"
    using i by (auto elim!: advancing_mono simp: lines_kept_def)
  have hc: "outside ?b (q_tailCacheAddressPos q) 8" using wf by (simp add: outside_def wf_queue_def)
  from hd tl show ?thesis using i some ln tk word_at_store(1)[OF hc] wf
    by (auto simp: tso_inv_def Let_def get_defs getInt64_word_at view_threads pcpu_def wf_queue_def
        simp del: apply_store.simps enc_numeral)
qed

lemma consumer_keeps:
  assumes inv: "tso_inv q k w hc hm tc tm s" and step: "consumer_step q s s'"
  shows "\<exists>tc'. tso_inv q k w hc hm tc' tm s'"
proof -
  let ?r = "length (t_taken s)"
  note i = inv[unfolded tso_inv_def Let_def] and o = inv_order[OF inv] and see = consumer_sees[OF inv]
  have pc: "tso_inv q k w hc hm tc tm (s\<lparr>t_cpc := pc\<rparr>)" if "cpc_ok w tc tm ?r pc" for pc
    using i that by (simp add: tso_inv_def Let_def)
  from step show ?thesis
  proof cases
    case c_head
    show ?thesis unfolding c_head by (intro exI[of _ tc] pc) (simp add: pos_defs(1,2) see)
  next
    case (c_check h)
    then have h: "h = w + of_nat ?r" using i by simp
    have "cpc_ok w tc tm ?r (if looks_empty q h (ccpu s) then CEmpty h else CHeld h)"
      using o by (auto simp: h empty_iff[OF inv])
    then show ?thesis unfolding c_check(1) using pc by blast
  next
    case (c_tail h)
    then show ?thesis using i o by (intro exI[of _ tc]) (auto intro!: pc simp: see)
  next
    case (c_cache h t)
    then obtain x where x: "tc \<le> x" "x \<le> tm" "t = w + of_nat x" "h = w + of_nat ?r" using i by auto
    have "cpc_ok w x tm ?r (CRecheck h)" using x by simp
    from consumer_cache_keeps[OF inv x(1,2) this] x(3) show ?thesis
      unfolding c_cache(1) by (auto simp: set_emits set_stores simp del: enc_numeral)
  next
    case (c_recheck h)
    then have h: "h = w + of_nat ?r" using i by simp
    have "cpc_ok w tc tm ?r (if looks_empty q h (ccpu s) then CIdle else CHeld h)"
      using o by (auto simp: h empty_iff[OF inv])
    then show ?thesis unfolding c_recheck(1) using pc by blast
  next
    case (c_release h)
    then show ?thesis using i by (intro exI[of _ tc]) (auto intro!: pc simp: pos_defs(1,2) see)
  next
    case (c_publish h h')
    then have "h = w + of_nat ?r" "h' = h" "?r < tc" using i by auto
    with consumer_publish_keeps[OF inv this(3)] show ?thesis
      unfolding c_publish(1) by (auto simp: set_emits set_stores simp del: enc_numeral)
  qed
qed

lemma ppc_ok_mono: "ppc_ok w k hc hm n pc \<Longrightarrow> hm \<le> hm' \<Longrightarrow> ppc_ok w k hc hm' n pc"
  by (cases pc) (auto intro: order_trans)

lemma cpc_ok_mono: "cpc_ok w tc tm r pc \<Longrightarrow> tm \<le> tm' \<Longrightarrow> cpc_ok w tc tm' r pc"
  by (cases pc) (auto intro: order_trans)

lemma memory_keeps:
  assumes inv: "tso_inv q k w hc hm tc tm s" and step: "memory_step s s'"
  shows "\<exists>hm' tm'. tso_inv q k w hc hm' tc tm' s'"
proof -
  let ?n = "length (t_hist s)" and ?r = "length (t_taken s)"
  note i = inv[unfolded tso_inv_def Let_def] and o = inv_order[OF inv]
  from step show ?thesis
  proof cases
    case (p_flush b bs)
    let ?m = "apply_store (t_mem s) b"
    obtain tm' where tm: "tm \<le> tm'"
      "advancing (q_tailAddressPos q) w (lines_kept q w (t_hist s) ?r) ?n tm' ?m bs"
      using i p_flush by auto
    have lo: "q_headAddressPos q + 128 \<le> fst b" using i p_flush by simp
    have ap: "\<forall>c\<in>set (t_cbuf s). apart c b"
      using i lo by (force simp: apart_def outside_def)
    have "advancing (q_headAddressPos q) w (\<lambda>_ _. True) ?r hm ?m (t_cbuf s)"
      using i lo ap by (intro advancing_other) (auto simp: outside_def)
    moreover have "word_at (apply_stores ?m (t_cbuf s)) (q_tailCacheAddressPos q) =
        word_at (apply_stores (t_mem s) (t_cbuf s)) (q_tailCacheAddressPos q)"
      using lo wf by (simp add: apply_stores_commute[OF ap] word_at_store outside_def wf_queue_def)
    ultimately have "tso_inv q k w hc hm tc tm' s'"
      using i tm p_flush cpc_ok_mono
      by (auto simp: tso_inv_def Let_def get_defs getInt64_word_at view_threads)
    then show ?thesis by blast
  next
    case (c_flush b bs)
    let ?m = "apply_store (t_mem s) b"
    obtain hm' where hm: "hm \<le> hm'"
      "advancing (q_headAddressPos q) w (\<lambda>_ _. True) ?r hm' ?m bs"
      using i c_flush by auto
    have hi: "fst b + int (length (snd b)) \<le> q_headAddressPos q + 128" using i c_flush by simp
    have ap: "\<forall>c\<in>set (t_pbuf s). apart c b"
      using i hi by (force simp: apart_def outside_def)
    have out: "outside b (calcElementOffset q j) 64" for j
      using element_above[OF wf, of j] hi by (simp add: outside_def)
    have "advancing (q_tailAddressPos q) w (lines_kept q w (t_hist s) ?r) ?n tm ?m (t_pbuf s)"
      using i hi ap wf out by (intro advancing_other) (auto simp: outside_def wf_queue_def intro!: lines_kept_store)
    moreover have "word_at (apply_stores ?m (t_pbuf s)) (q_headCacheAddressPos q) =
        word_at (apply_stores (t_mem s) (t_pbuf s)) (q_headCacheAddressPos q)"
      using hi wf by (simp add: apply_stores_commute[OF ap] word_at_store outside_def wf_queue_def)
    ultimately have "tso_inv q k w hc hm' tc tm s'"
      using i hm c_flush ppc_ok_mono
      by (auto simp: tso_inv_def Let_def get_defs getInt64_word_at view_threads)
    then show ?thesis by blast
  qed
qed

lemma start_inv:
  assumes "start q k s"
  shows "\<exists>w hc hm tc tm. tso_inv q k w hc hm tc tm s"
proof -
  let ?w = "getHeadCache q (pcpu s)"
  from assms obtain h tc t where s: "h \<le> tc" "tc \<le> t" "t < 2 ^ k" "getHead q (pcpu s) = ?w + of_nat h"
    "getTailCache q (pcpu s) = ?w + of_nat tc" "getTail q (pcpu s) = ?w + of_nat t"
    "t_hist s = map (\<lambda>i. line q (pcpu s) (?w + of_nat i)) [0..<t]" "t_taken s = take h (t_hist s)"
    "t_pbuf s = []" "t_cbuf s = []" "t_ppc s = PIdle" "t_cpc s = CIdle"
    by (auto simp: start_def)
  have "ccpu s = pcpu s" using s by (simp add: ccpu_def pcpu_def)
  moreover have "length (t_hist s) = t" "length (t_taken s) = h" using s by simp_all
  ultimately have "tso_inv q k ?w 0 h tc t s"
    using s by (auto simp: tso_inv_def Let_def get_defs getInt64_word_at view_threads lines_kept_def line_line_at)
  then show ?thesis by blast
qed

lemma reachable_inv:
  "reachable q k s \<Longrightarrow> \<exists>w hc hm tc tm. tso_inv q k w hc hm tc tm s"
proof (induction rule: reachable.induct)
  case (init s)
  then show ?case by (rule start_inv)
next
  case (next_state s s')
  then show ?case using producer_keeps consumer_keeps memory_keeps unfolding step_def by metis
qed

lemma drained_consumer: "tso_inv q k w hc hm tc tm s \<Longrightarrow> t_cbuf s = [] \<Longrightarrow> hm = length (t_taken s)"
  by (simp add: tso_inv_def Let_def)

lemma drained_producer: "tso_inv q k w hc hm tc tm s \<Longrightarrow> t_pbuf s = [] \<Longrightarrow> tm = length (t_hist s)"
  by (simp add: tso_inv_def Let_def)

lemma preOffer_iff:
  assumes inv: "tso_inv q k w hc hm tc tm s"
  shows "fst (preOffer q l (pcpu s)) \<longleftrightarrow> length (t_hist s) - hm < 2 ^ k - 1"
proof -
  note o = inv_order[OF inv] and see = producer_sees[OF inv]
  have "ring_dist k (w + of_nat hm) (w + of_nat (length (t_hist s))) = length (t_hist s) - hm"
    using o by (intro ring_dist_of_nat wf_k(2)[OF wf]) linarith+
  then have "looks_full q (w + of_nat (length (t_hist s))) (setHeadCache q (w + of_nat hm) (pcpu s))
      \<longleftrightarrow> length (t_hist s) - hm = 2 ^ k - 1"
    by (simp add: looks_full_iff[OF wf] get_set[OF wf])
  then have "fst (preOffer q l (pcpu s)) \<longleftrightarrow>
      \<not> (length (t_hist s) + 1 = hc + 2 ^ k) \<or> length (t_hist s) - hm \<noteq> 2 ^ k - 1"
    by (simp add: preOffer_def Let_def pos_defs(1,2) see full_iff[OF inv])
  with o show ?thesis by linarith
qed

lemma poll_iff:
  assumes inv: "tso_inv q k w hc hm tc tm s"
  shows "fst (poll q (ccpu s)) \<noteq> None \<longleftrightarrow> length (t_taken s) < tm"
proof -
  note o = inv_order[OF inv] and see = consumer_sees[OF inv]
  have "ring_dist k (w + of_nat (length (t_taken s))) (w + of_nat tm) = tm - length (t_taken s)"
    using o by (intro ring_dist_of_nat wf_k(2)[OF wf]) linarith+
  then have "looks_empty q (w + of_nat (length (t_taken s))) (setTailCache q (w + of_nat tm) (ccpu s))
      \<longleftrightarrow> tm = length (t_taken s)"
    using o by (auto simp: looks_empty_iff[OF wf] get_set[OF wf])
  then have "fst (poll q (ccpu s)) \<noteq> None \<longleftrightarrow> \<not> (tc = length (t_taken s)) \<or> tm \<noteq> length (t_taken s)"
    by (simp add: poll_def Let_def pos_defs(1,2) see empty_iff[OF inv])
  with o show ?thesis by linarith
qed

end

text \<open>The queue that the program creates: 4096 elements, whatever the platform and the file.\<close>

interpretation created: spsc_ring "Queue_layout (QueueMemoryMappedBuffer pf fn) p" 12 for pf fn p
  by unfold_locales (rule Queue_layout_default_wf, simp)

definition zero_tso :: tso where
  "zero_tso = \<lparr>t_mem = (\<lambda>_. 0), t_pbuf = [], t_cbuf = [], t_ppc = PIdle, t_cpc = CIdle,
     t_hist = [], t_taken = []\<rparr>"

lemma zero_tso_cpus: "pcpu zero_tso = zero_cpu" "ccpu zero_tso = zero_cpu"
  by (simp_all add: pcpu_def ccpu_def zero_tso_def zero_cpu_def)

lemma zero_tso_start: "start q k zero_tso"
  by (simp add: start_def zero_tso_cpus get_defs get_zero) (simp add: zero_tso_def)

lemma zero_tso_reachable: "reachable q k zero_tso"
  by (rule init[OF zero_tso_start])

section \<open>The steps of an uninterrupted thread are the methods\<close>

lemma set_pcpu_simps [simp]:
  "set_pcpu (pcpu s) s = s" "set_pcpu (pcpu s) (s\<lparr>t_ppc := x\<rparr>) = s\<lparr>t_ppc := x\<rparr>"
  "pcpu (set_pcpu c s) = c" "(set_pcpu c s)\<lparr>t_ppc := x\<rparr> = set_pcpu c (s\<lparr>t_ppc := x\<rparr>)"
  "t_ppc (set_pcpu c s) = t_ppc s" "t_hist (set_pcpu c s) = t_hist s"
  by (simp_all add: set_pcpu_def pcpu_def)

lemma set_ccpu_simps [simp]:
  "set_ccpu (ccpu s) s = s" "set_ccpu (ccpu s) (s\<lparr>t_cpc := x\<rparr>) = s\<lparr>t_cpc := x\<rparr>"
  "ccpu (set_ccpu c s) = c" "(set_ccpu c s)\<lparr>t_cpc := x\<rparr> = set_ccpu c (s\<lparr>t_cpc := x\<rparr>)"
  "t_cpc (set_ccpu c s) = t_cpc s" "t_taken (set_ccpu c s) = t_taken s"
  by (simp_all add: set_ccpu_def ccpu_def)

text \<open>
  A call of a thread that is not interrupted: its own steps, up to the first state in which it is not
  inside a method. Every step but the stores into a claimed line has one outcome only.
\<close>

inductive call :: "('s \<Rightarrow> 's \<Rightarrow> bool) \<Rightarrow> ('s \<Rightarrow> bool) \<Rightarrow> 's \<Rightarrow> 's \<Rightarrow> bool" for R inside where
  last_step: "R s s' \<Longrightarrow> \<not> inside s' \<Longrightarrow> call R inside s s'"
| inner_step: "R s s1 \<Longrightarrow> inside s1 \<Longrightarrow> call R inside s1 s' \<Longrightarrow> call R inside s s'"

lemma call_path: "call R inside s s' \<Longrightarrow> R\<^sup>*\<^sup>* s s'"
  by (induction rule: call.induct) (auto intro: converse_rtranclp_into_rtranclp)

lemma call_unfold:
  "call R inside s s' \<longleftrightarrow> (\<exists>s1. R s s1 \<and> (if inside s1 then call R inside s1 s' else s' = s1))"
  by (subst call.simps) auto

lemma call_det:
  "(\<And>s1. R s s1 \<longleftrightarrow> s1 = t) \<Longrightarrow> call R inside s s' \<longleftrightarrow> (if inside t then call R inside t s' else s' = t)"
  by (subst call_unfold) simp

definition p_inside :: "tso \<Rightarrow> bool" where
  "p_inside s \<longleftrightarrow> (case t_ppc s of PIdle \<Rightarrow> False | PClaim t \<Rightarrow> False | _ \<Rightarrow> True)"

definition c_inside :: "tso \<Rightarrow> bool" where
  "c_inside s \<longleftrightarrow> (case t_cpc s of CIdle \<Rightarrow> False | CHeld h \<Rightarrow> False | _ \<Rightarrow> True)"

abbreviation (input) p_call :: "queue \<Rightarrow> tso \<Rightarrow> tso \<Rightarrow> bool" where
  "p_call q \<equiv> call (producer_step q) p_inside"

abbreviation (input) c_call :: "queue \<Rightarrow> tso \<Rightarrow> tso \<Rightarrow> bool" where
  "c_call q \<equiv> call (consumer_step q) c_inside"

lemma producer_det:
  "t_ppc s = PIdle \<Longrightarrow> producer_step q s s1 \<longleftrightarrow> s1 = s\<lparr>t_ppc := PTail (getTailPlain q (pcpu s))\<rparr>"
  "t_ppc s = PTail t \<Longrightarrow> producer_step q s s1 \<longleftrightarrow>
    s1 = s\<lparr>t_ppc := if looks_full q t (pcpu s) then PFull t else PClaim t\<rparr>"
  "t_ppc s = PFull t \<Longrightarrow> producer_step q s s1 \<longleftrightarrow> s1 = s\<lparr>t_ppc := PHead t (getHead q (pcpu s))\<rparr>"
  "t_ppc s = PHead t h \<Longrightarrow> producer_step q s s1 \<longleftrightarrow>
    s1 = set_pcpu (setHeadCache q h (pcpu s)) (s\<lparr>t_ppc := PRecheck t\<rparr>)"
  "t_ppc s = PRecheck t \<Longrightarrow> producer_step q s s1 \<longleftrightarrow>
    s1 = s\<lparr>t_ppc := if looks_full q t (pcpu s) then PIdle else PClaim t\<rparr>"
  "t_ppc s = POffer t t' \<Longrightarrow> producer_step q s s1 \<longleftrightarrow> s1 = set_pcpu (setTail q (t' + 1) (pcpu s))
    (s\<lparr>t_ppc := PIdle, t_hist := t_hist s @ [line q (pcpu s) t]\<rparr>)"
  by (auto simp: producer_step.simps)

lemma consumer_det:
  "t_cpc s = CIdle \<Longrightarrow> consumer_step q s s1 \<longleftrightarrow> s1 = s\<lparr>t_cpc := CHead (getHeadPlain q (ccpu s))\<rparr>"
  "t_cpc s = CHead h \<Longrightarrow> consumer_step q s s1 \<longleftrightarrow>
    s1 = s\<lparr>t_cpc := if looks_empty q h (ccpu s) then CEmpty h else CHeld h\<rparr>"
  "t_cpc s = CEmpty h \<Longrightarrow> consumer_step q s s1 \<longleftrightarrow> s1 = s\<lparr>t_cpc := CTail h (getTail q (ccpu s))\<rparr>"
  "t_cpc s = CTail h t \<Longrightarrow> consumer_step q s s1 \<longleftrightarrow>
    s1 = set_ccpu (setTailCache q t (ccpu s)) (s\<lparr>t_cpc := CRecheck h\<rparr>)"
  "t_cpc s = CRecheck h \<Longrightarrow> consumer_step q s s1 \<longleftrightarrow>
    s1 = s\<lparr>t_cpc := if looks_empty q h (ccpu s) then CIdle else CHeld h\<rparr>"
  "t_cpc s = CHeld h \<Longrightarrow> consumer_step q s s1 \<longleftrightarrow> s1 = s\<lparr>t_cpc := CRelease h (getHeadPlain q (ccpu s))\<rparr>"
  "t_cpc s = CRelease h h' \<Longrightarrow> consumer_step q s s1 \<longleftrightarrow> s1 = set_ccpu (setHead q (h' + 1) (ccpu s))
    (s\<lparr>t_cpc := CIdle, t_taken := t_taken s @ [line q (ccpu s) h]\<rparr>)"
  by (auto simp: consumer_step.simps)

lemmas p_calls = producer_det[THEN call_det[where inside = p_inside]]

lemmas c_calls = consumer_det[THEN call_det[where inside = c_inside]]

lemma preOffer_calls:
  assumes "t_ppc s = PIdle" "preOffer q l (pcpu s) = (ok, l', c')"
  shows "p_call q s s' \<longleftrightarrow>
    s' = set_pcpu c' (s\<lparr>t_ppc := if ok then PClaim (getTailPlain q (pcpu s)) else PIdle\<rparr>)"
proof (cases "looks_full q (getTailPlain q (pcpu s)) (pcpu s)")
  case False
  then have "ok" "c' = pcpu s" using assms(2) by (auto simp: preOffer_def Let_def)
  then show ?thesis using False assms(1) by (simp add: p_calls p_inside_def)
next
  case True
  then have "ok = (\<not> looks_full q (getTailPlain q (pcpu s)) (setHeadCache q (getHead q (pcpu s)) (pcpu s)))"
    "c' = setHeadCache q (getHead q (pcpu s)) (pcpu s)"
    using assms(2) by (auto simp: preOffer_def Let_def split: if_splits)
  then show ?thesis using True assms(1)
    by (cases "looks_full q (getTailPlain q (pcpu s)) (setHeadCache q (getHead q (pcpu s)) (pcpu s))")
      (simp_all add: p_calls p_inside_def)
qed

lemma poll_calls:
  assumes "t_cpc s = CIdle" "poll q (ccpu s) = (r, q', c')"
  shows "c_call q s s' \<longleftrightarrow>
    s' = set_ccpu c' (s\<lparr>t_cpc := if r = None then CIdle else CHeld (getHeadPlain q (ccpu s))\<rparr>)"
proof (cases "looks_empty q (getHeadPlain q (ccpu s)) (ccpu s)")
  case False
  then obtain l where "r = Some l" "c' = ccpu s" using assms(2) by (auto simp: poll_def Let_def)
  then show ?thesis using False assms(1) by (simp add: c_calls c_inside_def)
next
  case True
  then have "r = None \<longleftrightarrow> looks_empty q (getHeadPlain q (ccpu s)) (setTailCache q (getTail q (ccpu s)) (ccpu s))"
    "c' = setTailCache q (getTail q (ccpu s)) (ccpu s)"
    using assms(2) by (auto simp: poll_def Let_def split: if_splits)
  then show ?thesis using True assms(1)
    by (cases "looks_empty q (getHeadPlain q (ccpu s)) (setTailCache q (getTail q (ccpu s)) (ccpu s))")
      (auto simp: c_calls c_inside_def)
qed

lemma release_calls:
  assumes "t_cpc s = CHeld h"
  shows "c_call q s s' \<longleftrightarrow> s' = set_ccpu (releaseCacheLine q (ccpu s))
    (s\<lparr>t_cpc := CIdle, t_taken := t_taken s @ [line q (ccpu s) h]\<rparr>)"
  using assms by (simp add: c_calls c_inside_def releaseCacheLine_def)

text \<open>Holding a line, the producer stores into it or offers it.\<close>

lemma claimed_calls:
  assumes "t_ppc s = PClaim t"
  shows "p_call q s s' \<longleftrightarrow>
    s' = set_pcpu (offer q (pcpu s)) (s\<lparr>t_ppc := PIdle, t_hist := t_hist s @ [line q (pcpu s) t]\<rparr>) \<or>
    (\<exists>a bs. calcElementOffset q t \<le> a \<and> a + int (length bs) \<le> calcElementOffset q t + 64 \<and>
      s' = set_pcpu (emit (pcpu s) a bs) s)"
proof -
  have "producer_step q s s1 \<longleftrightarrow> s1 = s\<lparr>t_ppc := POffer t (getTailPlain q (pcpu s))\<rparr> \<or>
      (\<exists>a bs. calcElementOffset q t \<le> a \<and> a + int (length bs) \<le> calcElementOffset q t + 64 \<and>
        s1 = set_pcpu (emit (pcpu s) a bs) s)" for s1
    using assms by (auto simp: producer_step.simps)
  note step = this
  have offered: "p_call q (s\<lparr>t_ppc := POffer t (getTailPlain q (pcpu s))\<rparr>) s' \<longleftrightarrow>
      s' = set_pcpu (offer q (pcpu s)) (s\<lparr>t_ppc := PIdle, t_hist := t_hist s @ [line q (pcpu s) t]\<rparr>)"
    by (simp add: p_calls p_inside_def offer_def)
  have inside: "p_inside (s\<lparr>t_ppc := POffer t (getTailPlain q (pcpu s))\<rparr>)"
    "\<not> p_inside (set_pcpu c s)" for c
    using assms by (simp_all add: p_inside_def)
  show ?thesis unfolding call_unfold[of _ _ s] step using offered inside by auto
qed

text \<open>The lines that the methods answer with.\<close>

lemma preOffer_line:
  "preOffer q l c = (ok, l', c') \<Longrightarrow>
    l' = (if ok then CacheLine (calcElementOffset q (getTailPlain q c)) 64 else l)"
  by (auto simp: preOffer_def Let_def updateWrap_def CacheLine_def CacheLine_setBuffer_def CacheLine_setCapacity_def
      CACHE_LINE_LENGTH_def split: if_splits)

lemma poll_line:
  "poll q c = (r, q', c') \<Longrightarrow> r = None \<and> q' = q \<or>
    r = Some (CacheLine (calcElementOffset q (getHeadPlain q c)) 64) \<and>
    q' = q\<lparr>q_pollCacheLine := CacheLine (calcElementOffset q (getHeadPlain q c)) 64\<rparr>"
  by (auto simp: poll_def Let_def updateWrap_def CacheLine_def CacheLine_setBuffer_def CacheLine_setCapacity_def
      CACHE_LINE_LENGTH_def split: if_splits)

section \<open>A run in which both threads hold a line\<close>

lemma reachable_producer: "(producer_step q)\<^sup>*\<^sup>* s s' \<Longrightarrow> reachable q k s \<Longrightarrow> reachable q k s'"
  by (induction rule: rtranclp_induct) (auto simp: step_def intro: next_state)

lemma reachable_consumer: "(consumer_step q)\<^sup>*\<^sup>* s s' \<Longrightarrow> reachable q k s \<Longrightarrow> reachable q k s'"
  by (induction rule: rtranclp_induct) (auto simp: step_def intro: next_state)

definition one_line_tso :: tso where
  "one_line_tso = \<lparr>t_mem = shared one_line_cpu, t_pbuf = [], t_cbuf = [], t_ppc = PIdle,
     t_cpc = CIdle, t_hist = [line demo_queue one_line_cpu 0], t_taken = []\<rparr>"

lemma one_line_tso_cpus: "pcpu one_line_tso = one_line_cpu" "ccpu one_line_tso = one_line_cpu"
  by (simp_all add: pcpu_def ccpu_def one_line_tso_def one_line_cpu_def)

lemma one_line_tso_start: "start demo_queue 12 one_line_tso"
  unfolding start_def one_line_tso_cpus one_line_positions
  by (intro conjI exI[of _ 0] exI[of _ 1]) (simp_all add: one_line_tso_def)

lemma both_hold_a_line:
  "\<exists>s. reachable demo_queue 12 s \<and> t_ppc s = PClaim 1 \<and> t_cpc s = CHeld 0 \<and>
     length (t_hist s) = 1 \<and> t_taken s = []"
proof -
  have qm: "qmask demo_queue = 4095"
    using qmask_wf[OF demo_wf] by (simp add: mask_eq_exp_minus_1)
  let ?s1 = "one_line_tso\<lparr>t_ppc := PClaim 1\<rparr>"
  obtain l' where "preOffer demo_queue (CacheLine 0 0) one_line_cpu = (True, l', one_line_cpu)"
    by (simp add: preOffer_def Let_def pos_defs(1,2) looks_full_def one_line_positions qm)
  then have pre: "preOffer demo_queue (CacheLine 0 0) (pcpu one_line_tso) = (True, l', pcpu one_line_tso)"
    by (simp add: one_line_tso_cpus)
  have "(producer_step demo_queue)\<^sup>*\<^sup>* one_line_tso ?s1"
    using call_path[OF preOffer_calls[OF _ pre, THEN iffD2, OF _ refl]] by (simp add: one_line_tso_cpus pos_defs(1,2) one_line_positions)
      (simp add: one_line_tso_def set_pcpu_def one_line_cpu_def)
  then have r1: "reachable demo_queue 12 ?s1"
    by (rule reachable_producer) (rule init[OF one_line_tso_start])
  obtain r q' c' where po: "poll demo_queue one_line_cpu = (r, q', c')" by (metis prod_cases3)
  have "\<exists>x. r = Some x"
    using poll_spec[OF demo_wf one_line_inv(1) po] one_line_inv(2) by auto
  then obtain x where "r = Some x" ..
  then have "(consumer_step demo_queue)\<^sup>*\<^sup>* ?s1 (set_ccpu c' (?s1\<lparr>t_cpc := CHeld 0\<rparr>))"
    using call_path[OF poll_calls[of ?s1 demo_queue r q' c', THEN iffD2, OF _ _ refl]] po
    by (simp add: one_line_tso_cpus pos_defs(1,2) one_line_positions) (simp add: one_line_tso_def)
  from reachable_consumer[OF this r1] show ?thesis
    by (intro exI conjI, assumption) (simp_all add: set_ccpu_def one_line_tso_def)
qed

section \<open>What holds in every interleaving\<close>

text \<open>
  C1. First in, first out, with nothing lost, duplicated or torn, under every interleaving of the
  two threads and of their store buffers: what the consumer has released is the beginning of what
  the producer has published; a line that \<^verbatim>\<open>poll\<close> handed out holds, for as long as the consumer
  keeps it, the bytes of the next published line; and the lines published but not released are at
  most \<open>2 ^ k - 1\<close>.
\<close>

theorem tso_fifo:
  assumes "wf_queue k q" "reachable q k s"
  shows "t_taken s = take (length (t_taken s)) (t_hist s) \<and>
    length (t_taken s) \<le> length (t_hist s) \<and> length (t_hist s) - length (t_taken s) \<le> 2 ^ k - 1 \<and>
    (\<forall>h. t_cpc s = CHeld h \<longrightarrow> length (t_taken s) < length (t_hist s) \<and>
       line q (ccpu s) h = t_hist s ! length (t_taken s))"
proof -
  have ring: "spsc_ring q k" using assms(1) by (rule spsc_ring.intro)
  obtain w hc hm tc tm where i: "tso_inv q k w hc hm tc tm s"
    using spsc_ring.reachable_inv[OF ring assms(2)] by blast
  note o = spsc_ring.inv_order[OF ring i] and see = spsc_ring.consumer_sees[OF ring i]
  have "line q (ccpu s) h = t_hist s ! length (t_taken s) \<and> length (t_taken s) < length (t_hist s)"
    if "t_cpc s = CHeld h" for h
    using i that see(5) o by (auto simp: tso_inv_def Let_def see(4) lines_kept_def)
  moreover have "t_taken s = take (length (t_taken s)) (t_hist s)"
    using i by (simp add: tso_inv_def Let_def)
  ultimately show ?thesis using o by auto
qed

theorem tso_fifo_witness:
  "\<exists>s. reachable demo_queue 12 s \<and> t_cpc s = CHeld 0 \<and> length (t_hist s) = 1 \<and>
     line demo_queue (ccpu s) 0 = t_hist s ! 0"
proof -
  obtain s where s: "reachable demo_queue 12 s" "t_cpc s = CHeld 0" "length (t_hist s) = 1"
    "t_taken s = []" using both_hold_a_line by blast
  with tso_fifo[OF demo_wf s(1)] show ?thesis by auto
qed

text \<open>
  C2. Mutual exclusion on lines: while the producer owns the line it claimed and the consumer the
  line it was handed, the two do not overlap, and every line published but not yet released is
  out of reach of the producer's stores.
\<close>

theorem tso_exclusive:
  assumes "wf_queue k q" "reachable q k s" "t_ppc s = PClaim t"
  shows "(\<forall>h. t_cpc s = CHeld h \<longrightarrow>
      calcElementOffset q h + 64 \<le> calcElementOffset q t \<or>
      calcElementOffset q t + 64 \<le> calcElementOffset q h) \<and>
    (\<forall>j. 0 < j \<and> j \<le> length (t_hist s) - length (t_taken s) \<longrightarrow>
      calcElementOffset q (t - of_nat j) + 64 \<le> calcElementOffset q t \<or>
      calcElementOffset q t + 64 \<le> calcElementOffset q (t - of_nat j))"
proof -
  have ring: "spsc_ring q k" using assms(1) by (rule spsc_ring.intro)
  obtain w hc hm tc tm where i: "tso_inv q k w hc hm tc tm s"
    using spsc_ring.reachable_inv[OF ring assms(2)] by blast
  note o = spsc_ring.inv_order[OF ring i] and ap = spsc_ring.ring_slots_apart[OF ring]
  let ?n = "length (t_hist s)" and ?r = "length (t_taken s)"
  have t: "t = w + of_nat ?n" "?n + 1 < hc + 2 ^ k" using i assms(3) by (auto simp: tso_inv_def Let_def)
  have apart: "calcElementOffset q (w + of_nat m) + 64 \<le> calcElementOffset q t \<or>
      calcElementOffset q t + 64 \<le> calcElementOffset q (w + of_nat m)" if "?r \<le> m" "m < ?n" for m
    using ap[of m ?n w] that o t by auto
  have held: "h = w + of_nat ?r \<and> ?r < ?n" if "t_cpc s = CHeld h" for h
    using i that o by (auto simp: tso_inv_def Let_def)
  have behind: "calcElementOffset q (t - of_nat j) + 64 \<le> calcElementOffset q t \<or>
      calcElementOffset q t + 64 \<le> calcElementOffset q (t - of_nat j)" if "0 < j" "j \<le> ?n - ?r" for j
  proof -
    have "t - of_nat j = w + of_nat (?n - j)" using that by (simp add: t of_nat_diff)
    moreover have "?r \<le> ?n - j" "?n - j < ?n" using that o by auto
    ultimately show ?thesis using apart[of "?n - j"] by (simp only:)
  qed
  show ?thesis using held apart[of ?r] behind by blast
qed

theorem tso_exclusive_witness:
  "\<exists>s. reachable demo_queue 12 s \<and> t_ppc s = PClaim 1 \<and> t_cpc s = CHeld 0 \<and>
     (calcElementOffset demo_queue 0 + 64 \<le> calcElementOffset demo_queue 1 \<or>
      calcElementOffset demo_queue 1 + 64 \<le> calcElementOffset demo_queue 0)"
proof -
  obtain s where s: "reachable demo_queue 12 s" "t_ppc s = PClaim 1" "t_cpc s = CHeld 0"
    using both_hold_a_line by blast
  with tso_exclusive[OF demo_wf s(1,2)] show ?thesis by blast
qed

text \<open>
  C5. No call fails or succeeds wrongly. Once the consumer's releases have left its store buffer,
  \<^verbatim>\<open>preOffer\<close> returns true exactly when fewer than \<open>2 ^ k - 1\<close> lines are outstanding; once the
  producer's stores have left its store buffer, \<^verbatim>\<open>poll\<close> returns a line exactly when one is
  outstanding. With stores still in flight each of them may only fail more often.
\<close>

theorem tso_progress:
  assumes "wf_queue k q" "reachable q k s"
  defines "n \<equiv> length (t_hist s) - length (t_taken s)"
  shows "(fst (preOffer q l (pcpu s)) \<longrightarrow> n < 2 ^ k - 1) \<and>
    (t_cbuf s = [] \<longrightarrow> (fst (preOffer q l (pcpu s)) \<longleftrightarrow> n < 2 ^ k - 1)) \<and>
    (fst (poll q (ccpu s)) \<noteq> None \<longrightarrow> 0 < n) \<and>
    (t_pbuf s = [] \<longrightarrow> (fst (poll q (ccpu s)) \<noteq> None \<longleftrightarrow> 0 < n))"
proof -
  have ring: "spsc_ring q k" using assms(1) by (rule spsc_ring.intro)
  obtain w hc hm tc tm where i: "tso_inv q k w hc hm tc tm s"
    using spsc_ring.reachable_inv[OF ring assms(2)] by blast
  note o = spsc_ring.inv_order[OF ring i]
  note d = spsc_ring.drained_consumer[OF ring i] spsc_ring.drained_producer[OF ring i]
  show ?thesis
    unfolding n_def spsc_ring.preOffer_iff[OF ring i] spsc_ring.poll_iff[OF ring i]
    using o d by auto
qed

theorem tso_progress_witness:
  "fst (preOffer demo_queue (CacheLine 0 0) (pcpu zero_tso)) \<and> fst (poll demo_queue (ccpu zero_tso)) = None"
  using tso_progress[OF demo_wf zero_tso_reachable[of demo_queue 12], of "CacheLine 0 0"] by (simp add: zero_tso_def)

text \<open>
  C6. The interleaved steps are the methods, in both directions: a thread that is idle and is not
  interrupted has exactly one way to the next state between methods, that of \<^verbatim>\<open>preOffer\<close> or \<^verbatim>\<open>poll\<close>,
  and the line that the method hands out is the one of the position the thread then holds; holding
  a line, the consumer can only release it as \<^verbatim>\<open>releaseCacheLine\<close> does, and the producer can only
  store into the 64 bytes of its line or publish it as \<^verbatim>\<open>offer\<close> does.
\<close>

theorem steps_are_methods:
  "(t_ppc s = PIdle \<longrightarrow> (case preOffer q l (pcpu s) of (ok, l', c') \<Rightarrow>
      (let t = getTailPlain q (pcpu s) in
        l' = (if ok then CacheLine (calcElementOffset q t) 64 else l) \<and>
        (\<forall>s'. call (producer_step q) p_inside s s' \<longleftrightarrow>
          s' = set_pcpu c' (s\<lparr>t_ppc := if ok then PClaim t else PIdle\<rparr>))))) \<and>
   (t_ppc s = PClaim t \<longrightarrow> (\<forall>s'. call (producer_step q) p_inside s s' \<longleftrightarrow>
      s' = set_pcpu (offer q (pcpu s)) (s\<lparr>t_ppc := PIdle, t_hist := t_hist s @ [line q (pcpu s) t]\<rparr>) \<or>
      (\<exists>a bs. calcElementOffset q t \<le> a \<and> a + int (length bs) \<le> calcElementOffset q t + 64 \<and>
        s' = set_pcpu (emit (pcpu s) a bs) s))) \<and>
   (t_cpc s = CIdle \<longrightarrow> (case poll q (ccpu s) of (r, q', c') \<Rightarrow>
      (let h = getHeadPlain q (ccpu s); held = CacheLine (calcElementOffset q h) 64 in
        (r = None \<and> q' = q \<or> r = Some held \<and> q' = q\<lparr>q_pollCacheLine := held\<rparr>) \<and>
        (\<forall>s'. call (consumer_step q) c_inside s s' \<longleftrightarrow>
          s' = set_ccpu c' (s\<lparr>t_cpc := if r = None then CIdle else CHeld h\<rparr>))))) \<and>
   (t_cpc s = CHeld h \<longrightarrow> (\<forall>s'. call (consumer_step q) c_inside s s' \<longleftrightarrow>
      s' = set_ccpu (releaseCacheLine q (ccpu s))
        (s\<lparr>t_cpc := CIdle, t_taken := t_taken s @ [line q (ccpu s) h]\<rparr>)))"
proof (intro conjI impI)
  assume i: "t_ppc s = PIdle"
  obtain ok l' c' where p: "preOffer q l (pcpu s) = (ok, l', c')" by (metis prod_cases3)
  show "case preOffer q l (pcpu s) of (ok, l', c') \<Rightarrow>
      (let t = getTailPlain q (pcpu s) in
        l' = (if ok then CacheLine (calcElementOffset q t) 64 else l) \<and>
        (\<forall>s'. call (producer_step q) p_inside s s' \<longleftrightarrow>
          s' = set_pcpu c' (s\<lparr>t_ppc := if ok then PClaim t else PIdle\<rparr>)))"
    unfolding p prod.case Let_def using preOffer_line[OF p] preOffer_calls[OF i p] by blast
next
  assume i: "t_cpc s = CIdle"
  obtain r q' c' where p: "poll q (ccpu s) = (r, q', c')" by (metis prod_cases3)
  show "case poll q (ccpu s) of (r, q', c') \<Rightarrow>
      (let h = getHeadPlain q (ccpu s); held = CacheLine (calcElementOffset q h) 64 in
        (r = None \<and> q' = q \<or> r = Some held \<and> q' = q\<lparr>q_pollCacheLine := held\<rparr>) \<and>
        (\<forall>s'. call (consumer_step q) c_inside s s' \<longleftrightarrow>
          s' = set_ccpu c' (s\<lparr>t_cpc := if r = None then CIdle else CHeld h\<rparr>)))"
    unfolding p prod.case Let_def using poll_line[OF p] poll_calls[OF i p] by blast
qed (use claimed_calls release_calls in blast)+

theorem steps_are_methods_witness:
  "\<forall>s'. call (consumer_step demo_queue) c_inside zero_tso s' \<longleftrightarrow>
     s' = set_ccpu (setTailCache demo_queue 0 zero_cpu) zero_tso"
proof -
  have "poll demo_queue zero_cpu = (None, demo_queue, setTailCache demo_queue 0 zero_cpu)"
    by (simp add: poll_def Let_def looks_empty_def pos_defs get_zero a64.get_put)
  with steps_are_methods[of zero_tso demo_queue undefined 0 0] show ?thesis
    by (simp add: zero_tso_cpus Let_def) (simp add: zero_tso_def)
qed

end
