(* ===== verification/StringUtil.thy ===== *)
theory StringUtil
  imports Exceptions
begin

text \<open>
  \<^verbatim>\<open>util/StringUtil.h\<close> and \<^verbatim>\<open>util/StringUtil.cpp\<close>: trimming, and numbers to and from text. Of the standard
  library this models the searches of \<^verbatim>\<open>std::string\<close>, the extraction and insertion of integers by a stream in
  the classic locale, and \<^verbatim>\<open>vsnprintf\<close> as the storing of a text that is already formatted.
\<close>

section \<open>Trimming\<close>

definition find_first_not_of :: "string \<Rightarrow> string \<Rightarrow> nat option" where
  "find_first_not_of chars str =
     (let n = length (takeWhile (\<lambda>ch. ch \<in> set chars) str) in if n = length str then None else Some n)"

definition find_last_not_of :: "string \<Rightarrow> string \<Rightarrow> nat option" where
  "find_last_not_of chars str = map_option (\<lambda>n. length str - 1 - n) (find_first_not_of chars (rev str))"

definition WS_CHARS :: string where
  "WS_CHARS = [CHR '' '', CHR 0x09]"

text \<open>Without a find the position is the largest number: everything is erased.\<close>

definition trimWSLeft :: "string \<Rightarrow> string \<Rightarrow> string" where
  "trimWSLeft wschars str = (case find_first_not_of wschars str of None \<Rightarrow> '''' | Some n \<Rightarrow> drop n str)"

text \<open>Here one more than the largest number is 0.\<close>

definition trimWSRight :: "string \<Rightarrow> string \<Rightarrow> string" where
  "trimWSRight wschars str = (case find_last_not_of wschars str of None \<Rightarrow> '''' | Some n \<Rightarrow> take (n + 1) str)"

definition trimWSBoth :: "string \<Rightarrow> string \<Rightarrow> string" where
  "trimWSBoth wschars str = trimWSLeft wschars (trimWSRight wschars str)"

section \<open>Numbers\<close>

definition isspace :: "char \<Rightarrow> bool" where
  "isspace ch \<longleftrightarrow> ch = CHR '' '' \<or> (9 \<le> (of_char ch :: nat) \<and> (of_char ch :: nat) \<le> 13)"

definition digit :: "nat \<Rightarrow> char \<Rightarrow> nat option" where
  "digit base ch =
     (let n = of_char ch :: nat;
          v = (if 48 \<le> n \<and> n \<le> 57 then Some (n - 48)
               else if 97 \<le> n \<and> n \<le> 102 then Some (n - 87)
               else if 65 \<le> n \<and> n \<le> 70 then Some (n - 55) else None)
      in case v of None \<Rightarrow> None | Some d \<Rightarrow> if d < base then Some d else None)"

fun value_of :: "nat \<Rightarrow> nat \<Rightarrow> string \<Rightarrow> nat" where
  "value_of base acc [] = acc"
| "value_of base acc (ch # str) =
     (case digit base ch of None \<Rightarrow> acc | Some d \<Rightarrow> value_of base (base * acc + d) str)"

text \<open>
  \<^verbatim>\<open>stream >> value\<close> for a signed integer of the result's width: the value and what is left of the text, or
  \<open>None\<close> where the stream fails.
\<close>

definition readDigits :: "nat \<Rightarrow> bool \<Rightarrow> string \<Rightarrow> ('a::len word \<times> string) option" where
  "readDigits base negative s =
     (let digits = takeWhile (\<lambda>ch. digit base ch \<noteq> None) s;
          v = (if negative then - int (value_of base 0 digits) else int (value_of base 0 digits))
      in if digits = [] \<or> v < - (2 ^ (LENGTH('a) - 1)) \<or> 2 ^ (LENGTH('a) - 1) \<le> v then None
         else Some (word_of_int v, drop (length digits) s))"

definition extractNumber :: "nat \<Rightarrow> string \<Rightarrow> ('a::len word \<times> string) option" where
  "extractNumber base str =
     (let s = dropWhile isspace str;
          negative = (s \<noteq> [] \<and> hd s = CHR ''-'');
          s = (if s \<noteq> [] \<and> (hd s = CHR ''-'' \<or> hd s = CHR ''+'') then tl s else s);
          s = (if base = 16 \<and> (take 2 s = ''0x'' \<or> take 2 s = ''0X'') then drop 2 s else s)
      in readDigits base negative s)"

text \<open>
  \<^verbatim>\<open>parse<valueType>\<close> for an integral type. Whether it is hexadecimal is decided by the text before trimming.
\<close>

definition parseValue :: "string \<Rightarrow> exn + 'a::len word" where
  "parseValue input =
     (let str = trimWSBoth WS_CHARS input;
          base = (if length input > 2 \<and> input ! 0 = CHR ''0'' \<and> (input ! 1 = CHR ''x'' \<or> input ! 1 = CHR ''X'') then 16 else 10)
      in case extractNumber base str of
           None \<Rightarrow> Inl ParseException
         | Some (v, rest) \<Rightarrow> if rest \<noteq> [] then Inl ParseException else Inr v)"

text \<open>\<^verbatim>\<open>stream << value\<close> for an unsigned number in a base, and \<^verbatim>\<open>toString\<close> for a signed integer.\<close>

definition digit_char :: "nat \<Rightarrow> char" where
  "digit_char d = char_of (if d < 10 then 48 + d else 87 + d)"

fun number :: "nat \<Rightarrow> nat \<Rightarrow> string" where
  "number base n = (if n < base \<or> base < 2 then [digit_char n] else number base (n div base) @ [digit_char (n mod base)])"

definition toString :: "'a::len word \<Rightarrow> string" where
  "toString v = (if sint v < 0 then CHR ''-'' # number 10 (nat (- sint v)) else number 10 (nat (sint v)))"

declare number.simps [simp del]

section \<open>Formatting\<close>

definition vsnprintf :: "nat \<Rightarrow> string \<Rightarrow> string" where
  "vsnprintf n str = take (n - 1) str @ [CHR 0x00]"

text \<open>The argument is the text that the format and its arguments stand for.\<close>

definition strPrintf :: "string \<Rightarrow> string" where
  "strPrintf str =
     (let BUFFER_SIZE = 128; buffer = vsnprintf BUFFER_SIZE str; len = length str
      in if len \<ge> BUFFER_SIZE then let len = len + 1; out = vsnprintf len str in butlast out
         else takeWhile (\<lambda>ch. ch \<noteq> CHR 0x00) buffer)"

text \<open>However long the text is, it comes out whole.\<close>

lemma strPrintf_whole:
  assumes "CHR 0x00 \<notin> set str"
  shows "strPrintf str = str"
proof (cases "length str < 128")
  case True
  have "takeWhile (\<lambda>ch. ch \<noteq> CHR 0x00) (str @ [CHR 0x00]) = str"
    using assms by (subst takeWhile_append2) auto
  then show ?thesis using True by (simp add: strPrintf_def vsnprintf_def Let_def)
qed (simp add: strPrintf_def vsnprintf_def Let_def)

section \<open>Numbers there and back\<close>

lemma digit_char:
  assumes "d < base" "base \<le> 16"
  shows "digit base (digit_char d) = Some d" "\<not> isspace (digit_char d)" "digit_char d \<noteq> CHR ''-''" "digit_char d \<noteq> CHR ''+''"
proof -
  define n where "n = (if d < 10 then 48 + d else 87 + d)"
  have n: "of_char (digit_char d) = n" "48 \<le> n" "n < 256" using assms by (auto simp: digit_char_def n_def)
  show "digit base (digit_char d) = Some d" using n(1) assms by (auto simp: digit_def Let_def n_def)
  have ne: "digit_char d \<noteq> ch" if "(of_char ch :: nat) < 48" for ch using n(1,2) that by auto
  show "digit_char d \<noteq> CHR ''-''" "digit_char d \<noteq> CHR ''+''" by (rule ne, simp)+
  have "digit_char d \<noteq> CHR '' ''" by (rule ne) simp
  then show "\<not> isspace (digit_char d)" using n(1,2) by (simp add: isspace_def)
qed

lemma value_of_append: "(\<And>ch. ch \<in> set xs \<Longrightarrow> digit base ch \<noteq> None) \<Longrightarrow> value_of base acc (xs @ ys) = value_of base (value_of base acc xs) ys"
proof (induction xs arbitrary: acc)
  case (Cons a xs)
  obtain d where "digit base a = Some d" using Cons.prems[of a] by auto
  then show ?case using Cons.IH Cons.prems by simp
qed simp

lemma number_digits:
  assumes "2 \<le> base" "base \<le> 16"
  shows "\<forall>ch\<in>set (number base n). digit base ch \<noteq> None \<and> \<not> isspace ch \<and> ch \<noteq> CHR ''-'' \<and> ch \<noteq> CHR ''+''"
    "number base n \<noteq> []" "value_of base 0 (number base n) = n"
proof -
  have "(\<forall>ch\<in>set (number base n). digit base ch \<noteq> None \<and> \<not> isspace ch \<and> ch \<noteq> CHR ''-'' \<and> ch \<noteq> CHR ''+'') \<and>
      number base n \<noteq> [] \<and> value_of base 0 (number base n) = n"
    using assms(1,2)
  proof (induction base n rule: number.induct)
    case (1 base n)
    show ?case
    proof (cases "n < base")
      case True
      then show ?thesis using 1 digit_char[of n base] by (subst (1 2 3) number.simps) simp
    next
      case False
      have d: "n mod base < base" using 1(2) by simp
      note IH = 1(1)[OF _ 1(2,3)] and dc = digit_char[OF d 1(3)]
      have n: "number base n = number base (n div base) @ [digit_char (n mod base)]" using False 1(2) by (subst number.simps) simp
      have v: "value_of base 0 (number base n) = base * (n div base) + n mod base"
        unfolding n using IH False 1(2) dc(1) by (subst value_of_append) auto
      show ?thesis unfolding v using IH False 1(2) dc by (simp add: n)
    qed
  qed
  then show "\<forall>ch\<in>set (number base n). digit base ch \<noteq> None \<and> \<not> isspace ch \<and> ch \<noteq> CHR ''-'' \<and> ch \<noteq> CHR ''+''"
    "number base n \<noteq> []" "value_of base 0 (number base n) = n" by blast+
qed

lemma trimWSBoth_middle:
  assumes "set ls \<subseteq> set ws" "set rs \<subseteq> set ws" "str \<noteq> []" "hd str \<notin> set ws" "last str \<notin> set ws"
  shows "trimWSBoth ws (ls @ str @ rs) = str"
proof -
  obtain a xs where a: "str = a # xs" "a \<notin> set ws" using assms(3,4) by (cases str) auto
  obtain b ys where b: "str = ys @ [b]" "b \<notin> set ws" using assms(3,5) by (cases str rule: rev_cases) auto
  have "takeWhile (\<lambda>ch. ch \<in> set ws) (rev rs @ b # rev ys @ rev ls) = rev rs"
    using assms(2) b(2) by (subst takeWhile_append2) auto
  then have "find_last_not_of ws (ls @ str @ rs) = Some (length ls + length ys)"
    by (simp add: find_last_not_of_def find_first_not_of_def Let_def b(1))
  then have r: "trimWSRight ws (ls @ str @ rs) = ls @ str"
    by (simp add: trimWSRight_def b(1))
  have "takeWhile (\<lambda>ch. ch \<in> set ws) (ls @ a # xs) = ls" using assms(1) a(2) by (subst takeWhile_append2) auto
  then have "find_first_not_of ws (ls @ str) = Some (length ls)" by (simp add: find_first_not_of_def Let_def a(1))
  then show ?thesis by (simp add: trimWSBoth_def r trimWSLeft_def)
qed

text \<open>What the extraction makes of digits, with a sign before them or not.\<close>

lemma extractNumber_digits:
  fixes v :: int
  assumes d: "\<forall>ch\<in>set ds. digit base ch \<noteq> None \<and> \<not> isspace ch \<and> ch \<noteq> CHR ''-'' \<and> ch \<noteq> CHR ''+''" "ds \<noteq> []"
    and pre: "if base = 16 then p = ''0x'' \<and> sg = [] else p = []" "sg = [] \<or> sg = ''-''"
    and v: "v = (if sg = [] then int (value_of base 0 ds) else - int (value_of base 0 ds))"
      "- (2 ^ (LENGTH('a) - 1)) \<le> v" "v < 2 ^ (LENGTH('a) - 1)"
  shows "extractNumber base (sg @ p @ ds) = Some (word_of_int v :: 'a::len word, [])"
proof -
  have all: "takeWhile (\<lambda>ch. digit base ch \<noteq> None) ds = ds" using d(1) by simp
  obtain c cs where c: "ds = c # cs" "\<not> isspace c" "c \<noteq> CHR ''-''" "c \<noteq> CHR ''+''" using d by (cases ds) auto
  have s: "\<not> isspace CHR ''-''" "\<not> isspace CHR ''0''" by (simp_all add: isspace_def)
  have body: "readDigits base (sg \<noteq> []) ds = Some (word_of_int v :: 'a word, [])"
    unfolding readDigits_def all Let_def using v d(2) by auto
  show ?thesis
  proof (cases "base = 16")
    case True
    then show ?thesis using pre body s by (simp add: extractNumber_def Let_def)
  next
    case False
    then have "p = []" using pre(1) by simp
    moreover have "dropWhile isspace ds = ds" "ds \<noteq> []" "hd ds \<noteq> CHR ''-''" "hd ds \<noteq> CHR ''+''" using c by simp_all
    ultimately show ?thesis using pre(2) body False s by (auto simp: extractNumber_def Let_def)
  qed
qed

lemma toString_text:
  fixes w :: "'a::len word"
  defines "ds \<equiv> number 10 (nat \<bar>sint w\<bar>)"
  shows "toString w = (if sint w < 0 then ''-'' else []) @ [] @ ds"
    "extractNumber 10 (toString w) = Some (w, [])"
proof -
  show t: "toString w = (if sint w < 0 then ''-'' else []) @ [] @ ds" by (simp add: toString_def ds_def)
  have b: "- (2 ^ (LENGTH('a) - 1)) \<le> sint w" "sint w < 2 ^ (LENGTH('a) - 1)" using sint_ge[of w] sint_lt[of w] by simp_all
  note n = number_digits[of 10 "nat \<bar>sint w\<bar>", simplified, folded ds_def]
  have "extractNumber 10 (toString w) = Some (word_of_int (sint w) :: 'a word, [])"
    unfolding t by (rule extractNumber_digits) (use n b in auto)
  then show "extractNumber 10 (toString w) = Some (w, [])" by simp
qed

lemma parseValue_extract:
  assumes "trimWSBoth WS_CHARS input = str" "extractNumber base str = Some (w, [])"
    and "base = (if length input > 2 \<and> input ! 0 = CHR ''0'' \<and> (input ! 1 = CHR ''x'' \<or> input ! 1 = CHR ''X'') then 16 else 10)"
  shows "parseValue input = Inr w"
  using assms by (simp add: parseValue_def Let_def split: if_splits)

text \<open>
  Numbers survive the way to text and back: what \<^verbatim>\<open>toString\<close> writes for an integer, \<^verbatim>\<open>parse\<close> reads as
  the same integer, with blanks around it or not; and so it does for a hexadecimal text that starts with \<^verbatim>\<open>0x\<close>.
\<close>

theorem parse_toString:
  assumes blanks: "set ls \<subseteq> set WS_CHARS" "set rs \<subseteq> set WS_CHARS"
  shows "parseValue (ls @ toString w @ rs) = Inr (w :: 'a::len word) \<and>
    (\<forall>n. n < 2 ^ (LENGTH('a) - 1) \<longrightarrow> parseValue (''0x'' @ number 16 n @ rs) = Inr (of_nat n :: 'a word))"
proof (intro conjI allI impI)
  have notsp: "ch \<notin> set WS_CHARS" if "\<not> isspace ch" for ch using that by (auto simp: WS_CHARS_def isspace_def)
  have x: "digit 10 CHR ''x'' = None" "digit 10 CHR ''X'' = None" by (simp_all add: digit_def Let_def)
  let ?ds = "number 10 (nat \<bar>sint w\<bar>)"
  note t = toString_text(1)[of w] and d = number_digits[of 10 "nat \<bar>sint w\<bar>", simplified]
  have ws: "ch \<in> set (toString w) \<Longrightarrow> ch \<notin> set WS_CHARS" for ch
    using d(1) notsp unfolding t by (auto simp: WS_CHARS_def split: if_splits)
  have ne: "toString w \<noteq> []" using d(2) unfolding t by simp
  have "CHR ''x'' \<notin> set (ls @ toString w @ rs)" "CHR ''X'' \<notin> set (ls @ toString w @ rs)"
    using blanks d(1) x unfolding t by (auto simp: WS_CHARS_def split: if_splits)
  then have "\<not> (length (ls @ toString w @ rs) > 2 \<and> ((ls @ toString w @ rs) ! 1 = CHR ''x'' \<or> (ls @ toString w @ rs) ! 1 = CHR ''X''))"
    using nth_mem[of 1 "ls @ toString w @ rs"] by (metis Suc_1 Suc_lessD One_nat_def)
  then show "parseValue (ls @ toString w @ rs) = Inr w"
    by (intro parseValue_extract[OF trimWSBoth_middle[OF blanks ne] toString_text(2)] ws) (use ne in auto)
  fix n :: nat assume n: "n < 2 ^ (LENGTH('a) - 1)"
  note d = number_digits[of 16 n, simplified]
  have "int n < int (2 ^ (LENGTH('a) - 1))" using n by (simp only: of_nat_less_iff)
  then have r: "- (2 ^ (LENGTH('a) - 1)) \<le> int n" "int n < 2 ^ (LENGTH('a) - 1)" by (simp_all add: order_trans[of _ 0])
  have e: "extractNumber 16 ([] @ ''0x'' @ number 16 n) = Some (word_of_int (int n) :: 'a word, [])"
    by (rule extractNumber_digits[OF _ d(2) _ _ _ r]) (simp_all add: d(1,3))
  have last: "last (number 16 n) \<notin> set WS_CHARS" using notsp d(1,2) last_in_set by blast
  have m: "trimWSBoth WS_CHARS ([] @ (''0x'' @ number 16 n) @ rs) = ''0x'' @ number 16 n"
    using blanks(2) last by (intro trimWSBoth_middle) (simp_all add: WS_CHARS_def d(2))
  show "parseValue (''0x'' @ number 16 n @ rs) = Inr (of_nat n :: 'a word)"
    using m e d(2) by (intro parseValue_extract[where base = 16 and str = "''0x'' @ number 16 n"]) simp_all
qed

theorem parse_toString_witness:
  "parseValue ('' '' @ toString (- 12 :: 32 word) @ []) = Inr (- 12 :: 32 word)"
proof -
  have "set '' '' \<subseteq> set WS_CHARS" "set [] \<subseteq> set WS_CHARS" by (simp_all add: WS_CHARS_def)
  from parse_toString[OF this, of "- 12 :: 32 word"] show ?thesis by blast
qed

end
