(* ===== verification/CommandOption.thy ===== *)
theory CommandOption
  imports StringUtil
begin

text \<open>
  \<^verbatim>\<open>util/CommandOption.h\<close>, \<^verbatim>\<open>util/CommandOption.cpp\<close>, \<^verbatim>\<open>util/CommandOptionParser.h\<close> and
  \<^verbatim>\<open>util/CommandOptionParser.cpp\<close> of the Aeron client: the command line of the test rig. A \<^verbatim>\<open>char\<close> is
  signed on the target, so \<^verbatim>\<open>UNNAMED = -1\<close> is the character 255 and comes first in the
  \<^verbatim>\<open>std::map<char, CommandOption>\<close>, which is an association list in ascending order of its keys.
  The operations on the parser are actions over that list; an element access past the end of
  \<^verbatim>\<open>m_params\<close>, undefined in C++, is \<open>None\<close>.
\<close>

record command_option =
  co_optionChar :: char
  co_minParams :: nat
  co_maxParams :: nat
  co_helpText :: string
  co_isPresent :: bool
  co_params :: "string list"

definition UNNAMED :: char where
  "UNNAMED = CHR 0xFF"

definition CommandOption_default :: command_option where
  "CommandOption_default = \<lparr>co_optionChar = CHR ''-'', co_minParams = 0, co_maxParams = 0,
     co_helpText = '''', co_isPresent = False, co_params = []\<rparr>"

definition CommandOption :: "char \<Rightarrow> nat \<Rightarrow> nat \<Rightarrow> string \<Rightarrow> command_option" where
  "CommandOption optionChar minParams maxParams helpText =
     \<lparr>co_optionChar = optionChar, co_minParams = minParams, co_maxParams = maxParams,
      co_helpText = helpText, co_isPresent = False, co_params = []\<rparr>"

definition getOptionChar :: "command_option \<Rightarrow> char" where
  "getOptionChar p = co_optionChar p"

definition getHelpText :: "command_option \<Rightarrow> string" where
  "getHelpText p = co_helpText p"

definition addParam :: "string \<Rightarrow> command_option \<Rightarrow> command_option" where
  "addParam s p = p\<lparr>co_params := co_params p @ [s]\<rparr>"

definition isPresent :: "command_option \<Rightarrow> bool" where
  "isPresent p = co_isPresent p"

definition setPresent :: "command_option \<Rightarrow> command_option" where
  "setPresent p = p\<lparr>co_isPresent := True\<rparr>"

definition getNumParams :: "command_option \<Rightarrow> nat" where
  "getNumParams p = length (co_params p)"

text \<open>The test is \<^verbatim>\<open>index > m_params.size()\<close>, which lets the index equal to the size pass.\<close>

definition checkIndex :: "command_option \<Rightarrow> nat \<Rightarrow> exn option" where
  "checkIndex p index = (if index > length (co_params p) then Some CommandOptionException else None)"

definition getParam :: "command_option \<Rightarrow> nat \<Rightarrow> (exn + string) option" where
  "getParam p index =
     (case checkIndex p index of
        Some e \<Rightarrow> Some (Inl e)
      | None \<Rightarrow> if index < length (co_params p) then Some (Inr (co_params p ! index)) else None)"

definition getParam_default :: "command_option \<Rightarrow> nat \<Rightarrow> string \<Rightarrow> (exn + string) option" where
  "getParam_default p index defaultValue =
     (if \<not> isPresent p then Some (Inr defaultValue) else getParam p index)"

text \<open>The numeric getters: a text that is no number of the type is refused like any other mistake.\<close>

definition getParamAsNumber :: "command_option \<Rightarrow> nat \<Rightarrow> (exn + 'a::len word) option" where
  "getParamAsNumber p index =
     (case getParam p index of
        None \<Rightarrow> None
      | Some (Inl e) \<Rightarrow> Some (Inl e)
      | Some (Inr param) \<Rightarrow>
          Some (case parseValue param of
                  Inl e \<Rightarrow> Inl (if e = ParseException then CommandOptionException else e)
                | Inr v \<Rightarrow> Inr v))"

definition getParamAsInt :: "command_option \<Rightarrow> nat \<Rightarrow> (exn + int32_t) option" where
  "getParamAsInt p index = getParamAsNumber p index"

definition getParamAsLong :: "command_option \<Rightarrow> nat \<Rightarrow> (exn + int64_t) option" where
  "getParamAsLong p index = getParamAsNumber p index"

definition inRange :: "'a::len word \<Rightarrow> 'a word \<Rightarrow> exn + 'a word \<Rightarrow> exn + 'a word" where
  "inRange minValue maxValue r =
     (case r of
        Inl e \<Rightarrow> Inl e
      | Inr v \<Rightarrow> if sint v < sint minValue \<or> sint v > sint maxValue then Inl CommandOptionException else Inr v)"

definition getParamAsInt_range :: "command_option \<Rightarrow> nat \<Rightarrow> int32_t \<Rightarrow> int32_t \<Rightarrow> int32_t \<Rightarrow> (exn + int32_t) option" where
  "getParamAsInt_range p index minValue maxValue defaultValue =
     (if \<not> isPresent p then Some (Inr defaultValue)
      else map_option (inRange minValue maxValue) (getParamAsInt p index))"

definition getParamAsLong_range :: "command_option \<Rightarrow> nat \<Rightarrow> int64_t \<Rightarrow> int64_t \<Rightarrow> int64_t \<Rightarrow> (exn + int64_t) option" where
  "getParamAsLong_range p index minValue maxValue defaultValue =
     (if \<not> isPresent p then Some (Inr defaultValue)
      else map_option (inRange minValue maxValue) (getParamAsLong p index))"

definition validate :: "command_option \<Rightarrow> exn option" where
  "validate p =
     (if \<not> isPresent p then None
      else if length (co_params p) > co_maxParams p then Some CommandOptionException
      else if length (co_params p) < co_minParams p then Some CommandOptionException
      else None)"

section \<open>The parser\<close>

type_synonym options = "(char \<times> command_option) list"

definition signed_char :: "char \<Rightarrow> int" where
  "signed_char c = sint (of_char c :: 8 word)"

fun insert_option :: "char \<Rightarrow> command_option \<Rightarrow> options \<Rightarrow> options" where
  "insert_option c p [] = [(c, p)]"
| "insert_option c p ((d, r) # os) =
     (if c = d then (c, p) # os
      else if signed_char c < signed_char d then (c, p) # (d, r) # os
      else (d, r) # insert_option c p os)"

definition addOption :: "command_option \<Rightarrow> options \<Rightarrow> options" where
  "addOption p os = insert_option (getOptionChar p) p os"

definition CommandOptionParser :: options where
  "CommandOptionParser = addOption (CommandOption UNNAMED 0 0 ''Unnamed Options'') []"

text \<open>\<^verbatim>\<open>getOption\<close> returns a reference; \<open>update_option\<close> is an update through it.\<close>

definition getOption :: "char \<Rightarrow> (options, command_option) act" where
  "getOption c os =
     (case map_of os c of None \<Rightarrow> throw CommandOptionException os | Some p \<Rightarrow> ret p os)"

definition update_option :: "char \<Rightarrow> (command_option \<Rightarrow> command_option) \<Rightarrow> options \<Rightarrow> options" where
  "update_option c f os = map (\<lambda>(d, p). (d, if c = d then f p else p)) os"

fun parse_chars :: "char \<Rightarrow> string \<Rightarrow> (options, char) act" where
  "parse_chars currentOption [] = ret currentOption"
| "parse_chars currentOption (c # cs) =
     bind (getOption c) (\<lambda>_. andThen (poke (update_option c setPresent)) (parse_chars c cs))"

fun parse_args :: "char \<Rightarrow> string list \<Rightarrow> (options, unit) act" where
  "parse_args currentOption [] = ret ()"
| "parse_args currentOption (argStr # args) =
     (if 2 \<le> length argStr \<and> hd argStr = CHR ''-''
      then bind (parse_chars currentOption (tl argStr)) (\<lambda>c. parse_args c args)
      else bind (getOption currentOption) (\<lambda>_.
             andThen (poke (update_option currentOption (addParam argStr)))
               (parse_args currentOption args)))"

fun validate_all :: "options \<Rightarrow> exn option" where
  "validate_all [] = None"
| "validate_all ((c, p) # os) = (case validate p of Some e \<Rightarrow> Some e | None \<Rightarrow> validate_all os)"

definition parse :: "string list \<Rightarrow> (options, unit) act" where
  "parse argv =
     bind (getOption UNNAMED) (\<lambda>_.
     andThen (poke (update_option UNNAMED setPresent))
     (andThen (parse_args UNNAMED (tl argv))
     (\<lambda>os. case validate_all os of Some e \<Rightarrow> throw e os | None \<Rightarrow> ret () os)))"

definition displayOptionsHelp :: "options \<Rightarrow> string" where
  "displayOptionsHelp os =
     concat (map (\<lambda>(c, p). if c \<noteq> UNNAMED
       then ''    -'' @ [c] @ '' '' @ getHelpText p @ [CHR 0x0A] else []) os)"

section \<open>What a successful parse leaves\<close>

lemma map_of_update: "map_of (update_option c f os) d = (if c = d then map_option f (map_of os d) else map_of os d)"
  by (induction os) (auto simp: update_option_def)

lemma update_keys [simp]: "map fst (update_option c f os) = map fst os"
  by (induction os) (auto simp: update_option_def)

text \<open>
  Parsing changes what is present and which parameters were given, and nothing else of an option:
  the keys, the bounds on the parameters and the help texts stay, whether it throws or not.
\<close>

definition same_declared :: "command_option \<Rightarrow> command_option \<Rightarrow> bool" where
  "same_declared p p' \<longleftrightarrow> co_optionChar p' = co_optionChar p \<and> co_minParams p' = co_minParams p \<and>
     co_maxParams p' = co_maxParams p \<and> co_helpText p' = co_helpText p"

definition declared :: "options \<Rightarrow> options \<Rightarrow> bool" where
  "declared os os' \<longleftrightarrow> list_all2 (\<lambda>(c, p) (c', p'). c' = c \<and> same_declared p p') os os'"

lemma declared_refl [simp]: "declared os os"
  by (auto simp: declared_def same_declared_def intro!: list_all2_refl)

lemma declared_trans: "declared os os' \<Longrightarrow> declared os' os'' \<Longrightarrow> declared os os''"
  unfolding declared_def by (erule (1) list_all2_trans[rotated]) (auto simp: same_declared_def)

lemma declared_update: "(\<And>p. same_declared p (f p)) \<Longrightarrow> declared os (update_option c f os)"
  by (induction os) (auto simp: declared_def update_option_def same_declared_def)

lemma declared_setters:
  "same_declared p (setPresent p)" "same_declared p (addParam s p)"
  by (simp_all add: same_declared_def setPresent_def addParam_def)

lemma declared_updates:
  "declared (update_option c setPresent os) os' \<Longrightarrow> declared os os'"
  "declared (update_option c (addParam s) os) os' \<Longrightarrow> declared os os'"
  by (auto intro: declared_trans[OF declared_update] declared_setters)

lemma parse_chars_declared: "parse_chars c cs os = (r, os') \<Longrightarrow> declared os os'"
proof (induction cs arbitrary: c os)
  case (Cons d cs)
  then show ?case
    by (auto simp: bind_def andThen_def getOption_def split: option.splits sum.splits prod.splits
        intro: declared_updates)
qed simp

lemma parse_args_declared: "parse_args c args os = (r, os') \<Longrightarrow> declared os os'"
proof (induction args arbitrary: c os)
  case (Cons s args)
  then show ?case
    by (auto simp: bind_def andThen_def getOption_def split: if_splits option.splits sum.splits prod.splits
        dest: parse_chars_declared intro: declared_updates declared_trans)
qed simp

lemma parse_declared: "parse argv os = (r, os') \<Longrightarrow> declared os os'"
  by (auto simp: parse_def bind_def andThen_def getOption_def
      split: option.splits sum.splits prod.splits dest!: parse_args_declared
      intro: declared_updates)

lemma validate_all_None: "validate_all os = None \<Longrightarrow> (c, p) \<in> set os \<Longrightarrow> validate p = None"
  by (induction os) (auto split: option.splits)

lemma validate_None:
  "validate p = None \<Longrightarrow> isPresent p \<Longrightarrow>
    co_minParams p \<le> length (co_params p) \<and> length (co_params p) \<le> co_maxParams p"
  by (auto simp: validate_def split: if_splits)

lemma parse_validates: "parse argv os = (Inr (), os') \<Longrightarrow> validate_all os' = None"
  by (auto simp: parse_def bind_def andThen_def split: option.splits sum.splits prod.splits)

lemma validate_all_exn: "validate_all os = Some e \<Longrightarrow> e = CommandOptionException"
  by (induction os) (auto simp: validate_def split: option.splits if_splits)

lemma getOption_exn: "getOption c os = (Inl e, os') \<Longrightarrow> e = CommandOptionException"
  by (auto simp: getOption_def split: option.splits)

lemma parse_chars_exn: "parse_chars c cs os = (Inl e, os') \<Longrightarrow> e = CommandOptionException"
  by (induction cs arbitrary: c os)
    (auto simp: bind_def andThen_def dest: getOption_exn split: sum.splits prod.splits)

lemma parse_args_exn: "parse_args c args os = (Inl e, os') \<Longrightarrow> e = CommandOptionException"
  by (induction args arbitrary: c os)
    (auto simp: bind_def andThen_def dest: getOption_exn parse_chars_exn split: if_splits sum.splits prod.splits)

lemma parse_exn: "parse argv os = (Inl e, os') \<Longrightarrow> e = CommandOptionException"
  by (auto simp: parse_def bind_def andThen_def dest: getOption_exn parse_args_exn validate_all_exn
      split: option.splits sum.splits prod.splits)

lemma declared_map_of:
  "declared os os' \<Longrightarrow> map_of os c = Some p \<Longrightarrow> \<exists>p'. map_of os' c = Some p' \<and> same_declared p p'"
  unfolding declared_def by (induction rule: list_all2_induct) (auto split: if_splits)

lemma declared_help: "declared os os' \<Longrightarrow> displayOptionsHelp os' = displayOptionsHelp os"
  unfolding declared_def
  by (induction rule: list_all2_induct) (auto simp: displayOptionsHelp_def getHelpText_def same_declared_def)

text \<open>
  An option that takes at least one parameter: after a successful parse its first parameter is
  there whenever the option is, so \<^verbatim>\<open>getParam(0, d)\<close> neither throws nor reads past the end.
\<close>

lemma getParam_after_parse:
  assumes "parse argv os = (Inr (), os')" "map_of os c = Some p" "0 < co_minParams p"
  obtains p' where "getOption c os' = (Inr p', os')" "same_declared p p'"
    "getParam_default p' 0 d = Some (Inr (if isPresent p' then co_params p' ! 0 else d))"
    "isPresent p' \<longrightarrow> co_minParams p \<le> length (co_params p') \<and> length (co_params p') \<le> co_maxParams p"
proof -
  obtain p' where p': "map_of os' c = Some p'" "same_declared p p'"
    using declared_map_of[OF parse_declared[OF assms(1)] assms(2)] by blast
  have v: "validate p' = None" using validate_all_None[OF parse_validates[OF assms(1)]] map_of_SomeD[OF p'(1)] .
  show ?thesis
    using that[of p'] p' validate_None[OF v] assms(3)
    by (cases "isPresent p'"; cases "co_params p'")
      (auto simp: getOption_def getParam_default_def getParam_def checkIndex_def same_declared_def)
qed

end
