(* ===== verification/IPCQueueMain.thy ===== *)
theory IPCQueueMain
  imports SpscTso CommandOption
begin

text \<open>
  \<^verbatim>\<open>src/main/cpp/IPCQueueMain.cpp\<close>: the test rig, a source process and a sink process on one queue
  file. \<open>main_setup\<close> is \<^verbatim>\<open>main\<close> up to its loop over the runs; from there on the two processes run
  concurrently and are the step relation \<open>rig_step\<close>, in which \<^verbatim>\<open>producerRun\<close>, \<^verbatim>\<open>consumerRun\<close> and
  \<^verbatim>\<open>waitTillNextState\<close> are cut at their accesses to shared memory and the queue's methods take the
  steps of theory \<open>SpscTso\<close>. The clock, the counts of failed attempts and the printed figures other
  than the number of out-of-order lines have no influence on the rest and are left out.
\<close>

section \<open>The command line\<close>

record settings =
  set_memoryMappedFile :: string
  set_mode :: string

definition Settings :: settings where
  "Settings = \<lparr>set_memoryMappedFile = ''queue.ipc'', set_mode = ''sink''\<rparr>"

definition optHelp :: char where "optHelp = CHR ''h''"

definition optPath :: char where "optPath = CHR ''p''"

definition optMode :: char where "optMode = CHR ''m''"

definition REPETITIONS :: int32_t where
  "REPETITIONS = 60000000"

definition RUNS :: nat where
  "RUNS = 10"

text \<open>The help texts have tabs in them, which are written out as characters.\<close>

definition rig_options :: options where
  "rig_options =
     (let tabs = [CHR 0x09, CHR 0x09]
      in addOption (CommandOption optMode 1 1 (''mode       '' @ tabs @ ''Processing Mode {sink | source}.''))
           (addOption (CommandOption optPath 1 1 (''path       '' @ tabs @ ''Memory Mapped File Path.''))
             (addOption (CommandOption optHelp 0 0 ''                Displays help information.'')
               CommandOptionParser)))"

text \<open>
  \<open>Help\<close> is the call of \<^verbatim>\<open>exit(0)\<close> after the help was displayed; \<open>None\<close> is a read past the end of a
  parameter list.
\<close>

datatype cmdline = Help string | Parsed settings | Refused exn

definition option_param :: "char \<Rightarrow> string \<Rightarrow> options \<Rightarrow> (exn + string) option" where
  "option_param c defaultValue os =
     (case getOption c os of (Inl e, _) \<Rightarrow> Some (Inl e) | (Inr p, _) \<Rightarrow> getParam_default p 0 defaultValue)"

definition parseCmdLine :: "options \<Rightarrow> string list \<Rightarrow> cmdline option" where
  "parseCmdLine cp argv =
     (case parse argv cp of
        (Inl e, cp) \<Rightarrow> Some (Refused e)
      | (Inr _, cp) \<Rightarrow>
          (case getOption optHelp cp of
             (Inl e, _) \<Rightarrow> Some (Refused e)
           | (Inr h, _) \<Rightarrow>
               if isPresent h then Some (Help (displayOptionsHelp cp))
               else case option_param optPath (set_memoryMappedFile Settings) cp of
                      None \<Rightarrow> None
                    | Some (Inl e) \<Rightarrow> Some (Refused e)
                    | Some (Inr path) \<Rightarrow>
                        (case option_param optMode (set_mode Settings) cp of
                           None \<Rightarrow> None
                         | Some (Inl e) \<Rightarrow> Some (Refused e)
                         | Some (Inr mode) \<Rightarrow>
                             Some (Parsed \<lparr>set_memoryMappedFile = path, set_mode = mode\<rparr>))))"

text \<open>
  \<^verbatim>\<open>main\<close> before its loop. Only \<^verbatim>\<open>CommandOptionException\<close> is caught: any other exception leaves
  \<^verbatim>\<open>main\<close> and ends the process (\<open>Uncaught\<close>). \<open>Started\<close> carries the queue and the thread with which
  the loop over the runs begins.
\<close>

datatype outcome = Exited int32_t | Uncaught exn | Started settings queue cpu

definition is_source :: "settings \<Rightarrow> bool" where
  "is_source s \<longleftrightarrow> set_mode s = ''source''"

definition attach :: "settings \<Rightarrow> qbuf \<Rightarrow> cpu \<Rightarrow> outcome option" where
  "attach settings mappedBuffer c =
     (case SpscMemoryMappedCacheLineQueue mappedBuffer
             (if is_source settings then IS_PRODUCER else IS_CONSUMER) c of
        None \<Rightarrow> None
      | Some (q, c) \<Rightarrow>
          (case Queue_getBuffer q of
             None \<Rightarrow> None
           | Some sharedBuffer \<Rightarrow>
               Some (Started settings q
                 (if is_source settings
                  then CacheLine_putInt64Ordered c sharedBuffer (scast SYNC_ADDRESS_POS) 0 else c))))"

definition main_setup :: "platform \<Rightarrow> posix \<Rightarrow> string list \<Rightarrow> cpu \<Rightarrow> outcome option" where
  "main_setup pf os argv c =
     (case parseCmdLine rig_options argv of
        None \<Rightarrow> None
      | Some (Help h) \<Rightarrow> Some (Exited 0)
      | Some (Refused e) \<Rightarrow> Some (if e = CommandOptionException then Exited (- 1) else Uncaught e)
      | Some (Parsed settings) \<Rightarrow>
          (case mapProducerBuffer os (QueueMemoryMappedBuffer pf (set_memoryMappedFile settings)) c of
             None \<Rightarrow> None
           | Some (Inl e, b, c) \<Rightarrow> Some (if e = CommandOptionException then Exited (- 1) else Uncaught e)
           | Some (Inr _, b, c) \<Rightarrow> attach settings b c))"

section \<open>The runs\<close>

text \<open>
  The state of the source is the point of \<^verbatim>\<open>producerRun\<close> it has reached, with the run number and the
  loop variable \<^verbatim>\<open>i\<close>: waiting for the start of the run, in the loop before and after the \<^verbatim>\<open>putInt32\<close>,
  waiting for the end of the run. The state of the sink is that of \<^verbatim>\<open>consumerRun\<close> with
  \<^verbatim>\<open>outOfOrderErrors\<close> besides. \<open>i_reports\<close> is the list of the printed error counts.
\<close>

datatype source_pc = SWaitStart nat | SProduce nat int32_t | SStored nat int32_t | SWaitEnd nat | SDone

datatype sink_pc = KWaitStart nat | KConsume nat int32_t int32_t | KChecked nat int32_t int32_t
  | KWaitEnd nat int32_t | KDone

record rig =
  i_tso :: tso
  i_src :: source_pc
  i_snk :: sink_pc
  i_reports :: "int32_t list"

text \<open>One attempt of \<^verbatim>\<open>waitTillNextState\<close>; the sleep between attempts does nothing.\<close>

definition waitTillNextState :: "cacheline \<Rightarrow> nat \<Rightarrow> nat \<Rightarrow> cpu \<Rightarrow> bool \<times> cpu" where
  "waitTillNextState sharedBuffer stateToWaitTill nextState c =
     compareAndSetInt64 c sharedBuffer SYNC_ADDRESS_POS (of_nat stateToWaitTill) (of_nat nextState)"

text \<open>The line that \<^verbatim>\<open>preOffer\<close> and \<^verbatim>\<open>poll\<close> hand out for a position.\<close>

definition handed :: "queue \<Rightarrow> int64_t \<Rightarrow> cacheline" where
  "handed q t = updateWrap (CacheLine 0 0) (calcElementOffset q t) (of_nat CACHE_LINE_LENGTH)"

inductive producerRun :: "queue \<Rightarrow> rig \<Rightarrow> rig \<Rightarrow> bool" for q where
  s_start: "i_src s = SWaitStart r \<Longrightarrow> Queue_getBuffer q = Some l \<Longrightarrow>
    waitTillNextState l (3 * r) (3 * r + 1) (pcpu (i_tso s)) = (ok, c) \<Longrightarrow>
    producerRun q s (s\<lparr>i_tso := set_pcpu c (i_tso s),
      i_src := if ok then SProduce r REPETITIONS else SWaitStart r\<rparr>)"
| s_preOffer: "i_src s = SProduce r i \<Longrightarrow> (\<forall>t. t_ppc (i_tso s) \<noteq> PClaim t) \<Longrightarrow>
    producer_step q (i_tso s) t' \<Longrightarrow> producerRun q s (s\<lparr>i_tso := t'\<rparr>)"
| s_put: "i_src s = SProduce r i \<Longrightarrow> t_ppc (i_tso s) = PClaim t \<Longrightarrow>
    producerRun q s (s\<lparr>i_tso := set_pcpu (CacheLine_putInt32 (pcpu (i_tso s)) (handed q t) 0 i) (i_tso s),
      i_src := SStored r i\<rparr>)"
| s_offer: "i_src s = SStored r i \<Longrightarrow> producer_step q (i_tso s) t' \<Longrightarrow> t_ppc t' = POffer t u \<Longrightarrow>
    producerRun q s (s\<lparr>i_tso := t'\<rparr>)"
| s_publish: "i_src s = SStored r i \<Longrightarrow> t_ppc (i_tso s) = POffer t u \<Longrightarrow> producer_step q (i_tso s) t' \<Longrightarrow>
    producerRun q s (s\<lparr>i_tso := t', i_src := if i - 1 \<noteq> 0 then SProduce r (i - 1) else SWaitEnd r\<rparr>)"
| s_end: "i_src s = SWaitEnd r \<Longrightarrow> Queue_getBuffer q = Some l \<Longrightarrow>
    waitTillNextState l (3 * r + 2) (3 * r + 3) (pcpu (i_tso s)) = (ok, c) \<Longrightarrow>
    producerRun q s (s\<lparr>i_tso := set_pcpu c (i_tso s),
      i_src := if \<not> ok then SWaitEnd r else if r + 1 < RUNS then SWaitStart (r + 1) else SDone\<rparr>)"

inductive consumerRun :: "queue \<Rightarrow> rig \<Rightarrow> rig \<Rightarrow> bool" for q where
  k_start: "i_snk s = KWaitStart r \<Longrightarrow> Queue_getBuffer q = Some l \<Longrightarrow>
    waitTillNextState l (3 * r + 1) (3 * r + 1) (ccpu (i_tso s)) = (ok, c) \<Longrightarrow>
    consumerRun q s (s\<lparr>i_tso := set_ccpu c (i_tso s),
      i_snk := if ok then KConsume r REPETITIONS 0 else KWaitStart r\<rparr>)"
| k_poll: "i_snk s = KConsume r i e \<Longrightarrow> (\<forall>h. t_cpc (i_tso s) \<noteq> CHeld h) \<Longrightarrow>
    consumer_step q (i_tso s) t' \<Longrightarrow> consumerRun q s (s\<lparr>i_tso := t'\<rparr>)"
| k_check: "i_snk s = KConsume r i e \<Longrightarrow> t_cpc (i_tso s) = CHeld h \<Longrightarrow>
    result = (scast (CacheLine_getInt32 (ccpu (i_tso s)) (handed q h) 0) :: int64_t) \<Longrightarrow>
    consumerRun q s (s\<lparr>i_snk := KChecked r i (if result \<noteq> scast i then e + 1 else e)\<rparr>)"
| k_release: "i_snk s = KChecked r i e \<Longrightarrow> t_cpc (i_tso s) = CHeld h \<Longrightarrow> consumer_step q (i_tso s) t' \<Longrightarrow>
    consumerRun q s (s\<lparr>i_tso := t'\<rparr>)"
| k_publish: "i_snk s = KChecked r i e \<Longrightarrow> t_cpc (i_tso s) = CRelease h h' \<Longrightarrow>
    consumer_step q (i_tso s) t' \<Longrightarrow>
    consumerRun q s (s\<lparr>i_tso := t', i_snk := if i - 1 \<noteq> 0 then KConsume r (i - 1) e else KWaitEnd r e\<rparr>)"
| k_end: "i_snk s = KWaitEnd r e \<Longrightarrow> Queue_getBuffer q = Some l \<Longrightarrow>
    waitTillNextState l (3 * r + 1) (3 * r + 2) (ccpu (i_tso s)) = (ok, c) \<Longrightarrow>
    consumerRun q s (s\<lparr>i_tso := set_ccpu c (i_tso s),
      i_snk := if \<not> ok then KWaitEnd r e else if r + 1 < RUNS then KWaitStart (r + 1) else KDone,
      i_reports := if ok then i_reports s @ [e] else i_reports s\<rparr>)"

definition rig_step :: "queue \<Rightarrow> rig \<Rightarrow> rig \<Rightarrow> bool" where
  "rig_step q s s' \<longleftrightarrow> producerRun q s s' \<or> consumerRun q s s' \<or>
     (\<exists>t'. memory_step (i_tso s) t' \<and> s' = s\<lparr>i_tso := t'\<rparr>)"

text \<open>
  The start: the queue is attached and empty on both sides, the source has reset the
  synchronisation word, and its reset has arrived in the shared memory.
\<close>

definition sync_at :: "queue \<Rightarrow> addr" where
  "sync_at q = q_headAddressPos q + 192"

definition rig_start :: "queue \<Rightarrow> nat \<Rightarrow> rig \<Rightarrow> bool" where
  "rig_start q k s \<longleftrightarrow> start q k (i_tso s) \<and> t_taken (i_tso s) = t_hist (i_tso s) \<and>
     word_at (t_mem (i_tso s)) (sync_at q) = 0 \<and>
     i_src s = SWaitStart 0 \<and> i_snk s = KWaitStart 0 \<and> i_reports s = []"

inductive rig_reachable :: "queue \<Rightarrow> nat \<Rightarrow> rig \<Rightarrow> bool" for q k where
  rig_init: "rig_start q k s \<Longrightarrow> rig_reachable q k s"
| rig_next: "rig_reachable q k s \<Longrightarrow> rig_step q s s' \<Longrightarrow> rig_reachable q k s'"

text \<open>The buffer pointer of the queue is the address its positions were computed from.\<close>

definition rig_queue :: "nat \<Rightarrow> queue \<Rightarrow> bool" where
  "rig_queue k q \<longleftrightarrow> wf_queue k q \<and>
     (\<exists>l. Queue_getBuffer q = Some l \<and> cl_buffer l = q_headAddressPos q)"

section \<open>The memory below the runs\<close>

text \<open>
  \<open>tso_ok\<close>: the invariant of the queue, and no store to the synchronisation word is ever in flight,
  since only the compare-and-set writes it. \<open>same_lines\<close>: a step that leaves both threads' program
  points, the histories and the lines as the producer sees them alone.
\<close>

definition tso_ok :: "queue \<Rightarrow> nat \<Rightarrow> int64_t \<Rightarrow> tso \<Rightarrow> bool" where
  "tso_ok q k w s \<longleftrightarrow> (\<exists>hc hm tc tm. tso_inv q k w hc hm tc tm s) \<and>
     (\<forall>b\<in>set (t_pbuf s). outside b (sync_at q) 8)"

definition same_lines :: "queue \<Rightarrow> tso \<Rightarrow> tso \<Rightarrow> bool" where
  "same_lines q s s' \<longleftrightarrow> t_ppc s' = t_ppc s \<and> t_cpc s' = t_cpc s \<and> t_hist s' = t_hist s \<and>
     t_taken s' = t_taken s \<and> (\<forall>t. line q (pcpu s') t = line q (pcpu s) t)"

lemma same_lines_trans: "same_lines q s s' \<Longrightarrow> same_lines q s' s'' \<Longrightarrow> same_lines q s s''"
  by (simp add: same_lines_def)

context spsc_ring
begin

lemma cbuf_below: "tso_ok q k w s \<Longrightarrow> b \<in> set (t_cbuf s) \<Longrightarrow> fst b + int (length (snd b)) \<le> q_headAddressPos q + 128"
  by (auto simp: tso_ok_def tso_inv_def Let_def)

lemma sync_outside:
  assumes "tso_ok q k w s"
  shows "\<forall>b\<in>set (t_pbuf s). outside b (sync_at q) 8" "\<forall>b\<in>set (t_cbuf s). outside b (sync_at q) 8"
  using assms cbuf_below[OF assms] by (force simp: tso_ok_def sync_at_def outside_def)+

lemma sync_seen:
  assumes "tso_ok q k w s"
  shows "getInt64 (pcpu s) (sync_at q) = word_at (t_mem s) (sync_at q)"
    "getInt64 (ccpu s) (sync_at q) = word_at (t_mem s) (sync_at q)"
  using sync_outside[OF assms] by (simp_all add: getInt64_word_at view_threads word_at_outside)

text \<open>A store that is apart from the producer's buffered ones and outside the array.\<close>

lemma line_other:
  assumes "\<forall>b\<in>set (t_pbuf s). apart b d" "\<And>j. outside d (calcElementOffset q j) 64"
  shows "line q (pcpu (s\<lparr>t_mem := apply_store (t_mem s) d\<rparr>)) t = line q (pcpu s) t"
  using assms(2)[of t] by (simp add: line_line_at line_at_def view_threads apply_stores_commute[OF assms(1)]
      read_apply_store_outside)

lemma memory_step_ok:
  assumes ok: "tso_ok q k w s" and st: "memory_step s s'"
  shows "tso_ok q k w s' \<and> same_lines q s s' \<and> word_at (t_mem s') (sync_at q) = word_at (t_mem s) (sync_at q)"
proof -
  from ok obtain hc hm tc tm where i: "tso_inv q k w hc hm tc tm s" by (auto simp: tso_ok_def)
  obtain hm' tm' where i': "tso_inv q k w hc hm' tc tm' s'" using memory_keeps[OF i st] by blast
  from st show ?thesis
  proof cases
    case (p_flush b bs)
    then show ?thesis using ok i' word_at_store(1)[of b "sync_at q"]
      by (auto simp: tso_ok_def same_lines_def line_line_at view_threads)
  next
    case (c_flush b bs)
    have hi: "fst b + int (length (snd b)) \<le> q_headAddressPos q + 128" using cbuf_below[OF ok] c_flush by simp
    have ap: "\<forall>c\<in>set (t_pbuf s). apart c b"
      using i hi by (force simp: apart_def outside_def tso_inv_def Let_def)
    have out: "outside b (calcElementOffset q j) 64" for j
      using element_above[OF wf, of j] hi by (simp add: outside_def)
    have "outside b (sync_at q) 8" using hi by (simp add: outside_def sync_at_def)
    then show ?thesis using ok i' word_at_store(1)[of b "sync_at q"] line_other[OF ap out] c_flush
      by (auto simp: tso_ok_def same_lines_def)
  qed
qed

lemma memory_steps_ok:
  assumes "memory_step\<^sup>*\<^sup>* s s'" "tso_ok q k w s"
  shows "tso_ok q k w s' \<and> same_lines q s s' \<and> word_at (t_mem s') (sync_at q) = word_at (t_mem s) (sync_at q)"
  using assms
proof (induction rule: rtranclp_induct)
  case base
  then show ?case by (simp add: same_lines_def)
next
  case (step y z)
  then show ?case using memory_step_ok same_lines_trans by metis
qed

lemma drain_steps:
  "memory_step\<^sup>*\<^sup>* s (s\<lparr>t_mem := apply_stores (t_mem s) (t_pbuf s), t_pbuf := []\<rparr>)"
  "memory_step\<^sup>*\<^sup>* s (s\<lparr>t_mem := apply_stores (t_mem s) (t_cbuf s), t_cbuf := []\<rparr>)"
proof -
  have "memory_step\<^sup>*\<^sup>* s (s\<lparr>t_mem := apply_stores (t_mem s) (t_pbuf s), t_pbuf := []\<rparr>)" if "t_pbuf s = bs" for s bs
    using that
  proof (induction bs arbitrary: s)
    case Nil
    then have "s\<lparr>t_mem := apply_stores (t_mem s) (t_pbuf s), t_pbuf := []\<rparr> = s" by simp
    then show ?case by simp
  next
    case (Cons b bs)
    then show ?case using p_flush[OF Cons.prems] Cons.IH[of "s\<lparr>t_mem := apply_store (t_mem s) b, t_pbuf := bs\<rparr>"]
      by (auto intro: converse_rtranclp_into_rtranclp)
  qed
  moreover have "memory_step\<^sup>*\<^sup>* s (s\<lparr>t_mem := apply_stores (t_mem s) (t_cbuf s), t_cbuf := []\<rparr>)" if "t_cbuf s = bs" for s bs
    using that
  proof (induction bs arbitrary: s)
    case Nil
    then have "s\<lparr>t_mem := apply_stores (t_mem s) (t_cbuf s), t_cbuf := []\<rparr> = s" by simp
    then show ?case by simp
  next
    case (Cons b bs)
    then show ?case using c_flush[OF Cons.prems] Cons.IH[of "s\<lparr>t_mem := apply_store (t_mem s) b, t_cbuf := bs\<rparr>"]
      by (auto intro: converse_rtranclp_into_rtranclp)
  qed
  ultimately show "memory_step\<^sup>*\<^sup>* s (s\<lparr>t_mem := apply_stores (t_mem s) (t_pbuf s), t_pbuf := []\<rparr>)"
    "memory_step\<^sup>*\<^sup>* s (s\<lparr>t_mem := apply_stores (t_mem s) (t_cbuf s), t_cbuf := []\<rparr>)" by blast+
qed

lemma sync_write_ok:
  fixes v :: int64_t
  assumes ok: "tso_ok q k w s"
  defines "s' \<equiv> s\<lparr>t_mem := write_bytes (t_mem s) (sync_at q) (enc 8 v)\<rparr>"
  shows "tso_ok q k w s' \<and> same_lines q s s' \<and> word_at (t_mem s') (sync_at q) = v"
proof -
  define d where "d = (sync_at q, enc 8 v)"
  from ok obtain hc hm tc tm where inv: "tso_inv q k w hc hm tc tm s" by (auto simp: tso_ok_def)
  note i = inv[unfolded tso_inv_def Let_def]
  have s': "s' = s\<lparr>t_mem := apply_store (t_mem s) d\<rparr>" by (simp add: s'_def d_def)
  have ap: "\<forall>c\<in>set (t_pbuf s). apart c d" "\<forall>c\<in>set (t_cbuf s). apart c d"
    using sync_outside[OF ok] by (simp_all add: apart_def d_def del: enc_numeral)
  have out: "outside d (calcElementOffset q j) 64" for j
    using element_above[OF wf, of j] by (simp add: outside_def sync_at_def d_def)
  have pos: "outside d (q_headAddressPos q) 8" "outside d (q_tailAddressPos q) 8"
    "outside d (q_headCacheAddressPos q) 8" "outside d (q_tailCacheAddressPos q) 8"
    using wf by (simp_all add: outside_def sync_at_def wf_queue_def d_def)
  have "advancing (q_tailAddressPos q) w (lines_kept q w (t_hist s) (length (t_taken s))) (length (t_hist s)) tm
      (apply_store (t_mem s) d) (t_pbuf s)"
    using i ap pos out by (intro advancing_other) (auto intro!: lines_kept_store)
  moreover have "advancing (q_headAddressPos q) w (\<lambda>_ _. True) (length (t_taken s)) hm
      (apply_store (t_mem s) d) (t_cbuf s)"
    using i ap pos by (intro advancing_other) auto
  ultimately have "tso_inv q k w hc hm tc tm s'"
    using i pos by (simp add: s' tso_inv_def Let_def get_defs getInt64_word_at view_threads
        apply_stores_commute[OF ap(1)] apply_stores_commute[OF ap(2)] word_at_store(1))
  moreover have "word_at (t_mem s') (sync_at q) = v" by (simp add: s' d_def word_at_store(2) del: apply_store.simps enc_numeral)
  moreover have "same_lines q s s'"
    using line_other[OF ap(1) out] by (simp add: s' same_lines_def)
  ultimately show ?thesis using ok by (auto simp: tso_ok_def s')
qed

text \<open>One attempt of \<^verbatim>\<open>waitTillNextState\<close>, by either thread, at the synchronisation word.\<close>

lemma wait_ok:
  assumes ok: "tso_ok q k w s" and l: "cl_buffer l = q_headAddressPos q"
    and cas: "waitTillNextState l a b c = (won, c')"
    and th: "c = pcpu s \<and> s' = set_pcpu c' s \<or> c = ccpu s \<and> s' = set_ccpu c' s"
  shows "tso_ok q k w s' \<and> same_lines q s s' \<and> won = (word_at (t_mem s) (sync_at q) = of_nat a) \<and>
    word_at (t_mem s') (sync_at q) = (if won then of_nat b else word_at (t_mem s) (sync_at q))"
proof -
  have at: "cl_buffer l + sint SYNC_ADDRESS_POS = sync_at q"
    by (simp add: l sync_at_def layout)
  have c': "c' = (if won then \<lparr>shared = write_bytes (view c) (sync_at q) (enc 8 (of_nat b :: int64_t)), sbuf = []\<rparr>
      else \<lparr>shared = view c, sbuf = []\<rparr>)" and won: "won = (getInt64 c (sync_at q) = of_nat a)"
    using cas by (auto simp: waitTillNextState_def compareAndSetInt64_def cmpxchg_def Let_def at drain_def
        getInt64_def get_le_def load_def view_def split: if_splits)
  obtain s1 where s1: "memory_step\<^sup>*\<^sup>* s s1"
    "s' = (if won then s1\<lparr>t_mem := write_bytes (t_mem s1) (sync_at q) (enc 8 (of_nat b :: int64_t))\<rparr> else s1)"
    using th
  proof
    assume "c = pcpu s \<and> s' = set_pcpu c' s"
    then show thesis using that[OF drain_steps(1)] c' by (simp add: set_pcpu_def view_threads del: enc_numeral)
  next
    assume "c = ccpu s \<and> s' = set_ccpu c' s"
    then show thesis using that[OF drain_steps(2)] c' by (simp add: set_ccpu_def view_threads del: enc_numeral)
  qed
  note m = memory_steps_ok[OF s1(1) ok]
  have "won = (word_at (t_mem s) (sync_at q) = of_nat a)" using won th sync_seen[OF ok] by auto
  then show ?thesis using m s1(2) sync_write_ok[of w s1 "of_nat b"] same_lines_trans by (cases won) auto
qed

lemma producer_step_ok:
  assumes ok: "tso_ok q k w s" and st: "producer_step q s s'"
  shows "tso_ok q k w s' \<and> t_mem s' = t_mem s \<and> t_cpc s' = t_cpc s \<and> t_taken s' = t_taken s"
proof -
  from ok obtain hc hm tc tm where i: "tso_inv q k w hc hm tc tm s" by (auto simp: tso_ok_def)
  obtain hc' where i': "tso_inv q k w hc' hm tc tm s'" using producer_keeps[OF i st] by blast
  have lay: "q_tailAddressPos q = q_headAddressPos q + 128" "q_headCacheAddressPos q = q_headAddressPos q + 136"
    using wf by (simp_all add: wf_queue_def)
  from st have "(\<forall>b\<in>set (t_pbuf s'). outside b (sync_at q) 8) \<and> t_mem s' = t_mem s \<and> t_cpc s' = t_cpc s \<and>
      t_taken s' = t_taken s"
  proof cases
    case (p_write t a bs)
    then show ?thesis using ok element_above[OF wf, of t]
      by (auto simp: tso_ok_def set_stores outside_def sync_at_def)
  qed (use ok in \<open>auto simp: tso_ok_def set_emits set_stores outside_def sync_at_def lay simp del: enc_numeral\<close>)
  with i' show ?thesis by (auto simp: tso_ok_def)
qed

lemma consumer_step_ok:
  assumes ok: "tso_ok q k w s" and st: "consumer_step q s s'"
  shows "tso_ok q k w s' \<and> t_mem s' = t_mem s \<and> t_pbuf s' = t_pbuf s \<and> t_ppc s' = t_ppc s \<and> t_hist s' = t_hist s"
proof -
  from ok obtain hc hm tc tm where i: "tso_inv q k w hc hm tc tm s" by (auto simp: tso_ok_def)
  obtain tc' where i': "tso_inv q k w hc hm tc' tm s'" using consumer_keeps[OF i st] by blast
  from st have "t_mem s' = t_mem s \<and> t_pbuf s' = t_pbuf s \<and> t_ppc s' = t_ppc s \<and> t_hist s' = t_hist s"
    by cases (simp_all add: set_emits set_stores del: enc_numeral)
  with i' ok show ?thesis by (auto simp: tso_ok_def)
qed

end

section \<open>The invariant of the runs\<close>

definition reps :: nat where
  "reps = unat REPETITIONS"

lemma reps_pos: "0 < reps" and reps_word: "of_nat reps = REPETITIONS" and RUNS_pos: "0 < RUNS"
  by (simp_all add: reps_def REPETITIONS_def RUNS_def)

text \<open>How many lines of the runs have been published, and how many released.\<close>

fun produced :: "source_pc \<Rightarrow> nat" where
  "produced (SWaitStart r) = r * reps"
| "produced (SProduce r i) = r * reps + (reps - unat i)"
| "produced (SStored r i) = r * reps + (reps - unat i)"
| "produced (SWaitEnd r) = (r + 1) * reps"
| "produced SDone = RUNS * reps"

fun consumed :: "sink_pc \<Rightarrow> nat" where
  "consumed (KWaitStart r) = r * reps"
| "consumed (KConsume r i e) = r * reps + (reps - unat i)"
| "consumed (KChecked r i e) = r * reps + (reps - unat i)"
| "consumed (KWaitEnd r e) = (r + 1) * reps"
| "consumed KDone = RUNS * reps"

text \<open>The first four bytes of the \<open>j\<close>-th line of the runs, and the same in a line that is being filled.\<close>

definition expected :: "nat \<Rightarrow> byte list" where
  "expected j = enc 4 (of_nat (reps - j mod reps) :: int32_t)"

definition in_loop :: "nat \<Rightarrow> int32_t \<Rightarrow> bool" where
  "in_loop r i \<longleftrightarrow> r < RUNS \<and> 0 < unat i \<and> unat i \<le> reps"

fun src_ok :: "queue \<Rightarrow> tso \<Rightarrow> source_pc \<Rightarrow> bool" where
  "src_ok q s (SWaitStart r) \<longleftrightarrow> r < RUNS \<and> t_ppc s = PIdle"
| "src_ok q s (SProduce r i) \<longleftrightarrow> in_loop r i \<and> (\<forall>t u. t_ppc s \<noteq> POffer t u)"
| "src_ok q s (SStored r i) \<longleftrightarrow> in_loop r i \<and>
     (\<exists>t. (t_ppc s = PClaim t \<or> (\<exists>u. t_ppc s = POffer t u)) \<and> take 4 (line q (pcpu s) t) = enc 4 i)"
| "src_ok q s (SWaitEnd r) \<longleftrightarrow> r < RUNS \<and> t_ppc s = PIdle"
| "src_ok q s SDone \<longleftrightarrow> t_ppc s = PIdle"

fun snk_ok :: "tso \<Rightarrow> sink_pc \<Rightarrow> bool" where
  "snk_ok s (KWaitStart r) \<longleftrightarrow> r < RUNS \<and> t_cpc s = CIdle"
| "snk_ok s (KConsume r i e) \<longleftrightarrow> in_loop r i \<and> e = 0 \<and> (\<forall>h h'. t_cpc s \<noteq> CRelease h h')"
| "snk_ok s (KChecked r i e) \<longleftrightarrow> in_loop r i \<and> e = 0 \<and>
     ((\<exists>h. t_cpc s = CHeld h) \<or> (\<exists>h h'. t_cpc s = CRelease h h'))"
| "snk_ok s (KWaitEnd r e) \<longleftrightarrow> r < RUNS \<and> e = 0 \<and> t_cpc s = CIdle"
| "snk_ok s KDone \<longleftrightarrow> t_cpc s = CIdle"

fun sink_run :: "sink_pc \<Rightarrow> nat" where
  "sink_run (KWaitStart r) = r"
| "sink_run (KConsume r i e) = r"
| "sink_run (KChecked r i e) = r"
| "sink_run (KWaitEnd r e) = r"
| "sink_run KDone = RUNS"

text \<open>The value of the synchronisation word, by the points the two processes have reached.\<close>

definition sink_start :: "nat \<Rightarrow> sink_pc" where
  "sink_start r = (if r < RUNS then KWaitStart r else KDone)"

fun sync_ok :: "source_pc \<Rightarrow> sink_pc \<Rightarrow> nat \<Rightarrow> bool" where
  "sync_ok (SWaitStart r) c v \<longleftrightarrow> v = 3 * r \<and> c = KWaitStart r"
| "sync_ok (SProduce r i) c v \<longleftrightarrow> v = 3 * r + 1 \<and> sink_run c = r"
| "sync_ok (SStored r i) c v \<longleftrightarrow> v = 3 * r + 1 \<and> sink_run c = r"
| "sync_ok (SWaitEnd r) c v \<longleftrightarrow> v = 3 * r + 1 \<and> sink_run c = r \<or> v = 3 * r + 2 \<and> c = sink_start (r + 1)"
| "sync_ok SDone c v \<longleftrightarrow> v = 3 * RUNS \<and> c = KDone"

definition rig_inv :: "queue \<Rightarrow> nat \<Rightarrow> int64_t \<Rightarrow> nat \<Rightarrow> nat \<Rightarrow> rig \<Rightarrow> bool" where
  "rig_inv q k w n0 v s \<longleftrightarrow> tso_ok q k w (i_tso s) \<and>
     length (t_hist (i_tso s)) = n0 + produced (i_src s) \<and>
     length (t_taken (i_tso s)) = n0 + consumed (i_snk s) \<and>
     (\<forall>j < produced (i_src s). take 4 (t_hist (i_tso s) ! (n0 + j)) = expected j) \<and>
     src_ok q (i_tso s) (i_src s) \<and> snk_ok (i_tso s) (i_snk s) \<and>
     v \<le> 3 * RUNS \<and> word_at (t_mem (i_tso s)) (sync_at q) = of_nat v \<and> sync_ok (i_src s) (i_snk s) v \<and>
     i_reports s = replicate (sink_run (i_snk s)) 0"

lemma src_ok_same: "same_lines q s s' \<Longrightarrow> src_ok q s' p = src_ok q s p"
  by (cases p) (auto simp: same_lines_def)

lemma snk_ok_same: "same_lines q s s' \<Longrightarrow> snk_ok s' p = snk_ok s p"
  by (cases p) (auto simp: same_lines_def)

lemma unat_dec:
  fixes i :: "'a::len word"
  assumes "0 < unat i"
  shows "unat (i - 1) = unat i - 1"
proof -
  have "1 \<le> i" using assms by (metis One_nat_def Suc_leI unat_1 word_le_nat_alt)
  then show ?thesis by (simp add: unat_sub)
qed

lemma sync_value_eq:
  assumes "v \<le> 3 * RUNS" "a \<le> 3 * RUNS"
  shows "(of_nat v :: int64_t) = of_nat a \<longleftrightarrow> v = a"
proof -
  have "unat (of_nat v :: int64_t) = v" "unat (of_nat a :: int64_t) = a"
    using assms by (auto simp: RUNS_def intro!: unat_of_nat_small)
  then show ?thesis by metis
qed

lemma expected_loop:
  assumes "in_loop r i"
  shows "expected (r * reps + (reps - unat i)) = enc 4 i"
proof -
  have "(r * reps + (reps - unat i)) mod reps = reps - unat i"
    unfolding mod_mult_self3 using assms by (simp add: in_loop_def)
  then have "reps - (r * reps + (reps - unat i)) mod reps = unat i" using assms unfolding in_loop_def by linarith
  then show ?thesis unfolding expected_def by (simp only:) (simp del: enc_numeral)
qed

context spsc_ring
begin

lemma rig_memory_keeps:
  assumes "rig_inv q k w n0 v s" "memory_step (i_tso s) t'"
  shows "rig_inv q k w n0 v (s\<lparr>i_tso := t'\<rparr>)"
  using assms memory_step_ok[of w "i_tso s" t']
  by (auto simp: rig_inv_def src_ok_same snk_ok_same) (simp_all add: same_lines_def)

text \<open>A wait of either process: what is left to show is that the new point fits the new word.\<close>

lemma rig_wait_keeps:
  assumes inv: "rig_inv q k w n0 v s" and l: "cl_buffer l = q_headAddressPos q"
    and cas: "waitTillNextState l a b c = (won, c')"
    and th: "c = pcpu (i_tso s) \<and> t' = set_pcpu c' (i_tso s) \<or> c = ccpu (i_tso s) \<and> t' = set_ccpu c' (i_tso s)"
    and le: "a \<le> 3 * RUNS" "b \<le> 3 * RUNS"
  shows "won \<longleftrightarrow> v = a"
    and "i_tso s' = t' \<Longrightarrow> rig_inv q k w n0 (if won then b else v) s' \<longleftrightarrow>
      produced (i_src s') = produced (i_src s) \<and> consumed (i_snk s') = consumed (i_snk s) \<and>
      src_ok q (i_tso s) (i_src s') \<and> snk_ok (i_tso s) (i_snk s') \<and>
      sync_ok (i_src s') (i_snk s') (if won then b else v) \<and> i_reports s' = replicate (sink_run (i_snk s')) 0"
proof -
  have i: "tso_ok q k w (i_tso s)" "word_at (t_mem (i_tso s)) (sync_at q) = of_nat v" "v \<le> 3 * RUNS"
    using inv by (simp_all add: rig_inv_def)
  note w = wait_ok[OF i(1) l cas th]
  show won: "won \<longleftrightarrow> v = a" using w i sync_value_eq[OF i(3) le(1)] by simp
  have same: "same_lines q (i_tso s) t'" using w by blast
  show "rig_inv q k w n0 (if won then b else v) s' \<longleftrightarrow>
      produced (i_src s') = produced (i_src s) \<and> consumed (i_snk s') = consumed (i_snk s) \<and>
      src_ok q (i_tso s) (i_src s') \<and> snk_ok (i_tso s) (i_snk s') \<and>
      sync_ok (i_src s') (i_snk s') (if won then b else v) \<and> i_reports s' = replicate (sink_run (i_snk s')) 0" if "i_tso s' = t'"
    using inv w i le same that unfolding rig_inv_def src_ok_same[OF same] snk_ok_same[OF same]
    by (auto simp: src_ok_same[OF same] snk_ok_same[OF same]) (auto simp: same_lines_def)
qed

lemma rig_source_keeps:
  assumes inv: "rig_inv q k w n0 v s" and buf: "\<And>l. Queue_getBuffer q = Some l \<Longrightarrow> cl_buffer l = q_headAddressPos q"
    and st: "producerRun q s s'"
  shows "\<exists>v'. rig_inv q k w n0 v' s'"
proof -
  note i = inv[unfolded rig_inv_def]
  from st show ?thesis
  proof cases
    case (s_start r l ok c)
    then have r: "r < RUNS" "t_ppc (i_tso s) = PIdle" "v = 3 * r" "i_snk s = KWaitStart r" using i by auto
    have le: "3 * r \<le> 3 * RUNS" "3 * r + 1 \<le> 3 * RUNS" using r by simp_all
    note w = rig_wait_keeps[OF inv buf[OF s_start(3)] s_start(4) disjI1[OF conjI[OF refl refl]] le]
    have "rig_inv q k w n0 (if ok then 3 * r + 1 else v) s'"
      using w(2)[of s'] w(1) i r s_start reps_pos
      by (auto simp: reps_def in_loop_def)
    then show ?thesis by blast
  next
    case (s_end r l ok c)
    then have r: "r < RUNS" "t_ppc (i_tso s) = PIdle" using i by auto
    have le: "3 * r + 2 \<le> 3 * RUNS" "3 * r + 3 \<le> 3 * RUNS" using r by simp_all
    note w = rig_wait_keeps[OF inv buf[OF s_end(3)] s_end(4) disjI1[OF conjI[OF refl refl]] le]
    have "rig_inv q k w n0 (if ok then 3 * r + 3 else v) s'"
    proof -
      have "Suc r < RUNS \<or> RUNS = Suc r" using r by linarith
      then show ?thesis using w(2)[of s'] w(1) i r s_end by (elim disjE) (auto simp: sink_start_def)
    qed
    then show ?thesis by blast
  next
    case (s_preOffer r i t')
    note w = producer_step_ok[OF _ s_preOffer(4), of w]
    from s_preOffer(4) have "t_hist t' = t_hist (i_tso s) \<and> (\<forall>t u. t_ppc t' \<noteq> POffer t u)"
      using i s_preOffer(2,3) by cases (auto simp: set_emits set_stores simp del: enc_numeral)
    moreover have "snk_ok t' (i_snk s)" using w i by (cases "i_snk s") auto
    ultimately have "rig_inv q k w n0 v s'" using i w s_preOffer by (auto simp: rig_inv_def)
    then show ?thesis by blast
  next
    case (s_put r i t)
    let ?t' = "set_pcpu (CacheLine_putInt32 (pcpu (i_tso s)) (handed q t) 0 i) (i_tso s)"
    have e: "CacheLine_putInt32 (pcpu (i_tso s)) (handed q t) 0 i = emit (pcpu (i_tso s)) (calcElementOffset q t) (enc 4 i)"
      by (simp add: CacheLine_putInt32_def putInt32_def handed_def put_le_def del: enc_numeral)
    have st: "producer_step q (i_tso s) ?t'" unfolding e using s_put(3) by (rule p_write) simp_all
    note w = producer_step_ok[OF _ st, of w]
    have "take 4 (line q (pcpu ?t') t) = enc 4 i"
      unfolding e by (simp add: line_def load_def set_pcpu_def pcpu_def view_def emit_def read_bytes_sub[of 0 4 64, simplified]
          mem_simps del: enc_numeral)
    moreover have "t_ppc ?t' = PClaim t" "t_hist ?t' = t_hist (i_tso s)" using s_put(3) by (simp_all add: set_pcpu_def)
    moreover have "snk_ok ?t' (i_snk s)" using w i by (cases "i_snk s") auto
    ultimately have "rig_inv q k w n0 v s'" using i w s_put by (auto simp: rig_inv_def simp del: enc_numeral)
    then show ?thesis by blast
  next
    case (s_offer r i t' t u)
    note w = producer_step_ok[OF _ s_offer(3), of w]
    from s_offer(3) have "t_hist t' = t_hist (i_tso s) \<and> pcpu t' = pcpu (i_tso s) \<and> t_ppc (i_tso s) = PClaim t"
      using i s_offer(4) by cases (auto simp: set_emits set_stores split: if_splits simp del: enc_numeral)
    moreover have "snk_ok t' (i_snk s)" using w i by (cases "i_snk s") auto
    ultimately have "rig_inv q k w n0 v s'" using i w s_offer by (auto simp: rig_inv_def simp del: enc_numeral)
    then show ?thesis by blast
  next
    case (s_publish r i t u t')
    note w = producer_step_ok[OF _ s_publish(4), of w]
    let ?p = "if i - 1 \<noteq> 0 then SProduce r (i - 1) else SWaitEnd r"
    have loop: "in_loop r i" and ln: "take 4 (line q (pcpu (i_tso s)) t) = enc 4 i" using i s_publish by auto
    have h: "t_hist t' = t_hist (i_tso s) @ [line q (pcpu (i_tso s)) t]" "t_ppc t' = PIdle"
      using s_publish(4) s_publish(3) by (cases; auto simp: set_emits set_stores simp del: enc_numeral)+
    have d: "unat (i - 1) = unat i - 1" using loop by (intro unat_dec) (simp add: in_loop_def)
    have p: "produced ?p = produced (SStored r i) + 1"
      using loop d by (auto simp: in_loop_def unat_eq_zero[symmetric])
    have "take 4 (t_hist t' ! (n0 + j)) = expected j" if "j < produced ?p" for j
    proof -
      have "j < produced (SStored r i) \<or> j = produced (SStored r i)" using that p by linarith
      then show ?thesis using i h(1) ln expected_loop[OF loop] s_publish(2)
        by (elim disjE) (simp_all add: nth_append del: enc_numeral)
    qed
    moreover have "src_ok q t' ?p" using loop d h by (auto simp: in_loop_def unat_eq_zero[symmetric])
    moreover have "snk_ok t' (i_snk s)" using w i by (cases "i_snk s") auto
    moreover have "sync_ok ?p (i_snk s) v" using i s_publish(2) by simp
    ultimately have "rig_inv q k w n0 v s'" using i w s_publish h p
      by (simp add: rig_inv_def del: enc_numeral)
    then show ?thesis by blast
  qed
qed

text \<open>The sink reads from a line it was handed the number that it counts down to.\<close>

lemma sink_reads:
  assumes inv: "rig_inv q k w n0 v s" and pc: "i_snk s = KConsume r i e" "t_cpc (i_tso s) = CHeld h"
  shows "CacheLine_getInt32 (ccpu (i_tso s)) (handed q h) 0 = i"
proof -
  note i = inv[unfolded rig_inv_def]
  let ?t = "i_tso s"
  from i obtain hc hm tc tm where t: "tso_inv q k w hc hm tc tm ?t" by (auto simp: tso_ok_def)
  note o = inv_order[OF t] and see = consumer_sees[OF t]
  have loop: "in_loop r i" using i pc by auto
  have h: "h = w + of_nat (length (t_taken ?t))" "length (t_taken ?t) < tc"
    using t pc(2) by (auto simp: tso_inv_def Let_def)
  then have ln: "line q (ccpu ?t) h = t_hist ?t ! length (t_taken ?t)"
    using see(5) o by (auto simp: see(4) lines_kept_def)
  have "consumed (i_snk s) < produced (i_src s)" using i h(2) o by linarith
  then have "take 4 (line q (ccpu ?t) h) = expected (consumed (i_snk s))" using i ln by simp
  also have "\<dots> = enc 4 i" using expected_loop[OF loop] pc(1) by simp
  finally have "load (ccpu ?t) (calcElementOffset q h) 4 = enc 4 i"
    by (simp add: line_def load_def read_bytes_sub[of 0 4 64, simplified] del: enc_numeral)
  then show ?thesis
    by (simp add: CacheLine_getInt32_def getInt32_def get_le_def handed_def dec_enc del: enc_numeral)
qed

text \<open>When the sink is done with a run, so is the source, and the word says so.\<close>

lemma sink_end_point:
  assumes inv: "rig_inv q k w n0 v s" and pc: "i_snk s = KWaitEnd r e"
  shows "i_src s = SWaitEnd r" "v = 3 * r + 1"
proof -
  note i = inv[unfolded rig_inv_def]
  from i obtain hc hm tc tm where t: "tso_inv q k w hc hm tc tm (i_tso s)" by (auto simp: tso_ok_def)
  have p: "(r + 1) * reps \<le> produced (i_src s)" using inv_order[OF t] i pc by simp
  have sy: "sync_ok (i_src s) (KWaitEnd r e) v" "src_ok q (i_tso s) (i_src s)" using i pc by auto
  have "i_src s = SWaitEnd r \<and> v = 3 * r + 1"
    using sy p reps_pos by (cases "i_src s") (auto simp: in_loop_def sink_start_def split: if_splits)
  then show "i_src s = SWaitEnd r" "v = 3 * r + 1" by simp_all
qed

lemma rig_sink_keeps:
  assumes inv: "rig_inv q k w n0 v s" and buf: "\<And>l. Queue_getBuffer q = Some l \<Longrightarrow> cl_buffer l = q_headAddressPos q"
    and st: "consumerRun q s s'"
  shows "\<exists>v'. rig_inv q k w n0 v' s'"
proof -
  note i = inv[unfolded rig_inv_def]
  have src: "src_ok q t' (i_src s)" if "consumer_step q (i_tso s) t'" for t'
    using consumer_step_ok[OF _ that, of w] i by (cases "i_src s") (auto simp: line_line_at view_threads)
  from st show ?thesis
  proof cases
    case (k_start r l ok c)
    then have r: "r < RUNS" "t_cpc (i_tso s) = CIdle" using i by auto
    have le: "3 * r + 1 \<le> 3 * RUNS" using r by simp
    note w = rig_wait_keeps[OF inv buf[OF k_start(3)] k_start(4) disjI2[OF conjI[OF refl refl]] le le]
    have "rig_inv q k w n0 (if ok then 3 * r + 1 else v) s'"
      using w(2)[of s'] w(1) i r k_start reps_pos
      by (cases "i_src s") (auto simp: reps_def in_loop_def sink_start_def split: if_splits)
    then show ?thesis by blast
  next
    case (k_end r e l ok c)
    then have r: "r < RUNS" "t_cpc (i_tso s) = CIdle" "e = 0" using i by auto
    have le: "3 * r + 1 \<le> 3 * RUNS" "3 * r + 2 \<le> 3 * RUNS" using r by simp_all
    note w = rig_wait_keeps[OF inv buf[OF k_end(3)] k_end(4) disjI2[OF conjI[OF refl refl]] le]
    note pt = sink_end_point[OF inv k_end(2)]
    have nxt: "i_snk s' = (if ok then sink_start (r + 1) else KWaitEnd r e)" using k_end by (simp add: sink_start_def)
    have run: "consumed (sink_start (r + 1)) = (r + 1) * reps" "sink_run (sink_start (r + 1)) = r + 1"
      "snk_ok (i_tso s) (sink_start (r + 1))"
    proof -
      have "Suc r < RUNS \<or> RUNS = Suc r" using r by linarith
      then show "consumed (sink_start (r + 1)) = (r + 1) * reps" "sink_run (sink_start (r + 1)) = r + 1"
        "snk_ok (i_tso s) (sink_start (r + 1))"
        using r(2) by (elim disjE; simp add: sink_start_def)+
    qed
    have "rig_inv q k w n0 (if ok then 3 * r + 2 else v) s'"
      using w(2)[of s'] w(1) i r pt run nxt k_end by (simp add: replicate_append_same)
    then show ?thesis by blast
  next
    case (k_poll r i e t')
    note w = consumer_step_ok[OF _ k_poll(4), of w]
    from k_poll(4) have "t_taken t' = t_taken (i_tso s) \<and> (\<forall>h h'. t_cpc t' \<noteq> CRelease h h')"
      using i k_poll(2,3) by cases (auto simp: set_emits set_stores simp del: enc_numeral)
    then have "rig_inv q k w n0 v s'" using i w k_poll src by (auto simp: rig_inv_def)
    then show ?thesis by blast
  next
    case (k_check r i e h result)
    then have "rig_inv q k w n0 v s'"
      using i sink_reads[OF inv k_check(2,3)] by (cases "i_src s") (auto simp: rig_inv_def sink_start_def split: if_splits)
    then show ?thesis by blast
  next
    case (k_release r i e h t')
    note w = consumer_step_ok[OF _ k_release(4), of w]
    from k_release(4) have "t_taken t' = t_taken (i_tso s) \<and> (\<exists>h h'. t_cpc t' = CRelease h h')"
      using i k_release(3) by cases (auto simp: set_emits set_stores simp del: enc_numeral)
    then have "rig_inv q k w n0 v s'" using i w k_release src by (auto simp: rig_inv_def)
    then show ?thesis by blast
  next
    case (k_publish r i e h h' t')
    note w = consumer_step_ok[OF _ k_publish(4), of w]
    let ?p = "if i - 1 \<noteq> 0 then KConsume r (i - 1) e else KWaitEnd r e"
    have loop: "in_loop r i" and e: "e = 0" using i k_publish by auto
    have h: "length (t_taken t') = length (t_taken (i_tso s)) + 1" "t_cpc t' = CIdle"
      using k_publish(4) k_publish(3) by (cases; auto simp: set_emits set_stores simp del: enc_numeral)+
    have d: "unat (i - 1) = unat i - 1" using loop by (intro unat_dec) (simp add: in_loop_def)
    have p: "consumed ?p = consumed (KChecked r i e) + 1" "snk_ok t' ?p"
      using loop d h e by (auto simp: in_loop_def unat_eq_zero[symmetric])
    have "sync_ok (i_src s) ?p v" using i k_publish(2) by (cases "i_src s") (auto simp: sink_start_def split: if_splits)
    then have "rig_inv q k w n0 v s'" using i w k_publish h p src by (simp add: rig_inv_def)
    then show ?thesis by blast
  qed
qed

lemma rig_start_inv:
  assumes "rig_start q k s"
  shows "\<exists>w n0 v. rig_inv q k w n0 v s"
proof -
  have s: "start q k (i_tso s)" using assms by (simp add: rig_start_def)
  then obtain w hc hm tc tm where "tso_inv q k w hc hm tc tm (i_tso s)" using start_inv by blast
  then have "tso_ok q k w (i_tso s)" using s by (auto simp: tso_ok_def start_def)
  then have "rig_inv q k w (length (t_hist (i_tso s))) 0 s"
    using assms s RUNS_pos by (auto simp: rig_inv_def rig_start_def start_def)
  then show ?thesis by blast
qed

lemma rig_reachable_inv:
  assumes "rig_reachable q k s" "\<And>l. Queue_getBuffer q = Some l \<Longrightarrow> cl_buffer l = q_headAddressPos q"
  shows "\<exists>w n0 v. rig_inv q k w n0 v s"
  using assms(1)
proof (induction rule: rig_reachable.induct)
  case (rig_init s)
  then show ?case by (rule rig_start_inv)
next
  case (rig_next s s')
  then obtain w n0 v where "rig_inv q k w n0 v s" by blast
  then show ?case using rig_next.hyps(2) rig_source_keeps[OF _ assms(2)] rig_sink_keeps[OF _ assms(2)] rig_memory_keeps
    unfolding rig_step_def by metis
qed

end

section \<open>The runs end without an out-of-order line\<close>

lemma rig_reachable_invariant:
  assumes "rig_queue k q" "rig_reachable q k s"
  obtains w n0 v where "rig_inv q k w n0 v s"
proof -
  have ring: "spsc_ring q k" using assms(1) by (intro spsc_ring.intro) (simp add: rig_queue_def)
  have "\<And>l. Queue_getBuffer q = Some l \<Longrightarrow> cl_buffer l = q_headAddressPos q"
    using assms(1) by (auto simp: rig_queue_def)
  from spsc_ring.rig_reachable_inv[OF ring assms(2) this] that show ?thesis by blast
qed

definition demo_rig_queue :: queue where
  "demo_rig_queue = Queue_layout ((QueueMemoryMappedBuffer Solaris ''queue.ipc'')
     \<lparr>qb_buffer := Some (CacheLine 4096 262656)\<rparr>) 4096"

definition demo_rig :: rig where
  "demo_rig = \<lparr>i_tso = zero_tso, i_src = SWaitStart 0, i_snk = KWaitStart 0, i_reports = []\<rparr>"

lemma demo_rig_queue_ok: "rig_queue 12 demo_rig_queue"
  unfolding rig_queue_def demo_rig_queue_def
  by (intro conjI Queue_layout_default_wf)
    (simp_all add: Queue_layout_def Let_def Queue_getBuffer_def QueueMemoryMappedBuffer_getBuffer_def)

lemma demo_rig_start: "rig_start demo_rig_queue 12 demo_rig"
  using zero_tso_start[of demo_rig_queue 12] get_zero[of "sync_at demo_rig_queue"]
  by (simp add: rig_start_def demo_rig_def getInt64_word_at)
    (simp add: zero_tso_def zero_cpu_def view_def)

lemma demo_rig_reachable: "rig_reachable demo_rig_queue 12 demo_rig"
  by (rule rig_init[OF demo_rig_start])

text \<open>
  C3. The rig reports no error, in any interleaving of the two processes and their store buffers: at
  every moment \<^verbatim>\<open>outOfOrderErrors\<close> is 0 in the run that is going on and was 0 in every run
  reported so far; the reports number the completed runs, and a sink that is done has reported
  all ten.
\<close>

theorem rig_reports_no_errors:
  assumes "rig_queue k q" "rig_reachable q k s"
  shows "i_reports s = replicate (sink_run (i_snk s)) 0 \<and>
    (\<forall>r i e. i_snk s = KConsume r i e \<or> i_snk s = KChecked r i e \<or> i_snk s = KWaitEnd r e \<longrightarrow> e = 0) \<and>
    (i_snk s = KDone \<longrightarrow> i_reports s = replicate 10 0)"
proof -
  obtain w n0 v where "rig_inv q k w n0 v s" using rig_reachable_invariant[OF assms] .
  then show ?thesis by (cases "i_snk s") (auto simp: rig_inv_def RUNS_def)
qed

theorem rig_reports_no_errors_witness: "i_reports demo_rig = []"
  using rig_reports_no_errors[OF demo_rig_queue_ok demo_rig_reachable] by (simp add: demo_rig_def)

text \<open>
  C4. The handshake on the synchronisation word cannot block: a source that waits for the start of
  a run, and a sink that waits for its end, win their next compare-and-set; a sink that waits for a
  start wins it, or the source is the one to move first; a source that waits for the end of a run
  wins it, or the sink is still in that run and all its lines are published. Neither process runs
  ahead of the other by more than the run they are in.
\<close>

theorem rig_handshake:
  assumes "rig_queue k q" "rig_reachable q k s"
  defines "v \<equiv> word_at (t_mem (i_tso s)) (sync_at q)"
  shows "(i_src s = SWaitStart r \<longrightarrow> v = of_nat (3 * r) \<and> i_snk s = KWaitStart r) \<and>
    (i_snk s = KWaitEnd r e \<longrightarrow> v = of_nat (3 * r + 1) \<and> i_src s = SWaitEnd r) \<and>
    (i_snk s = KWaitStart r \<longrightarrow> v = of_nat (3 * r + 1) \<or> i_src s = SWaitStart r \<or>
       0 < r \<and> i_src s = SWaitEnd (r - 1) \<and> v = of_nat (3 * (r - 1) + 2)) \<and>
    (i_src s = SWaitEnd r \<longrightarrow> v = of_nat (3 * r + 2) \<or> sink_run (i_snk s) = r \<and>
       length (t_hist (i_tso s)) - length (t_taken (i_tso s)) = (r + 1) * reps - consumed (i_snk s))"
proof -
  obtain w n0 u where inv: "rig_inv q k w n0 u s" using rig_reachable_invariant[OF assms(1,2)] .
  have ring: "spsc_ring q k" using assms(1) by (intro spsc_ring.intro) (simp add: rig_queue_def)
  have i: "sync_ok (i_src s) (i_snk s) u" "snk_ok (i_tso s) (i_snk s)" "v = of_nat u"
    "length (t_hist (i_tso s)) = n0 + produced (i_src s)" "length (t_taken (i_tso s)) = n0 + consumed (i_snk s)"
    using inv by (simp_all add: rig_inv_def v_def)
  note e = spsc_ring.sink_end_point[OF ring inv]
  have 1: "i_src s = SWaitStart r \<longrightarrow> v = of_nat (3 * r) \<and> i_snk s = KWaitStart r"
    using i by auto
  have 2: "i_snk s = KWaitEnd r e \<longrightarrow> v = of_nat (3 * r + 1) \<and> i_src s = SWaitEnd r"
    using i e[of r e] by auto
  have 3: "i_snk s = KWaitStart r \<longrightarrow> v = of_nat (3 * r + 1) \<or> i_src s = SWaitStart r \<or>
       0 < r \<and> i_src s = SWaitEnd (r - 1) \<and> v = of_nat (3 * (r - 1) + 2)"
    using i(1-3) by (cases "i_src s") (auto simp: sink_start_def split: if_splits)
  have 4: "i_src s = SWaitEnd r \<longrightarrow> v = of_nat (3 * r + 2) \<or> sink_run (i_snk s) = r \<and>
       length (t_hist (i_tso s)) - length (t_taken (i_tso s)) = (r + 1) * reps - consumed (i_snk s)"
    using i by auto
  show ?thesis using 1 2 3 4 by blast
qed

theorem rig_handshake_witness: "i_snk demo_rig = KWaitStart 0 \<and> word_at (t_mem zero_tso) (sync_at demo_rig_queue) = 0"
  using rig_handshake[OF demo_rig_queue_ok demo_rig_reachable, of 0] by (simp add: demo_rig_def)

section \<open>The command line and the start of the processes\<close>

lemma rig_options_map:
  "map_of rig_options optPath = Some (CommandOption optPath 1 1 (''path       '' @ [CHR 0x09, CHR 0x09] @ ''Memory Mapped File Path.''))"
  "map_of rig_options optMode = Some (CommandOption optMode 1 1 (''mode       '' @ [CHR 0x09, CHR 0x09] @ ''Processing Mode {sink | source}.''))"
  "map_of rig_options optHelp = Some (CommandOption optHelp 0 0 ''                Displays help information.'')"
  by (simp_all add: rig_options_def addOption_def CommandOptionParser_def getOptionChar_def CommandOption_def
      optPath_def optMode_def optHelp_def UNNAMED_def signed_char_def)

lemma option_param_parsed:
  assumes "parse argv os = (Inr (), os')" "map_of os c = Some (CommandOption c 1 1 h)"
  shows "\<exists>p. map_of os' c = Some p \<and> (isPresent p \<longrightarrow> length (co_params p) = 1) \<and>
    option_param c d os' = Some (Inr (if isPresent p then co_params p ! 0 else d))"
proof -
  obtain p where "getOption c os' = (Inr p, os')" "same_declared (CommandOption c 1 1 h) p"
    "getParam_default p 0 d = Some (Inr (if isPresent p then co_params p ! 0 else d))"
    "isPresent p \<longrightarrow> co_minParams (CommandOption c 1 1 h) \<le> length (co_params p) \<and>
       length (co_params p) \<le> co_maxParams (CommandOption c 1 1 h)"
    using getParam_after_parse[OF assms] by (auto simp: CommandOption_def)
  then show ?thesis
    by (intro exI[of _ p]) (auto simp: option_param_def CommandOption_def getOption_def split: option.splits)
qed

lemma parseCmdLine_result:
  "\<exists>r. parseCmdLine rig_options argv = Some r \<and>
     (case r of
        Refused e \<Rightarrow> e = CommandOptionException
      | Help h \<Rightarrow> h = displayOptionsHelp rig_options
      | Parsed s \<Rightarrow> (\<exists>os p m. parse argv rig_options = (Inr (), os) \<and>
          map_of os optPath = Some p \<and> map_of os optMode = Some m \<and>
          (if isPresent p then co_params p = [set_memoryMappedFile s] else set_memoryMappedFile s = ''queue.ipc'') \<and>
          (if isPresent m then co_params m = [set_mode s] else set_mode s = ''sink'')))"
proof -
  obtain r os where p: "parse argv rig_options = (r, os)" by (metis prod.exhaust)
  show ?thesis
  proof (cases r)
    case (Inl e)
    then show ?thesis using p parse_exn[of argv rig_options e os] by (simp add: parseCmdLine_def)
  next
    case (Inr u)
    with p have ok: "parse argv rig_options = (Inr (), os)" by simp
    obtain h where h: "map_of os optHelp = Some h"
      using declared_map_of[OF parse_declared[OF ok] rig_options_map(3)] by blast
    obtain p where pp: "map_of os optPath = Some p" "isPresent p \<longrightarrow> length (co_params p) = 1"
      "option_param optPath ''queue.ipc'' os = Some (Inr (if isPresent p then co_params p ! 0 else ''queue.ipc''))"
      using option_param_parsed[OF ok rig_options_map(1)] by blast
    obtain m where mm: "map_of os optMode = Some m" "isPresent m \<longrightarrow> length (co_params m) = 1"
      "option_param optMode ''sink'' os = Some (Inr (if isPresent m then co_params m ! 0 else ''sink''))"
      using option_param_parsed[OF ok rig_options_map(2)] by blast
    have one: "length xs = 1 \<Longrightarrow> xs = [xs ! 0]" for xs :: "string list" by (cases xs) auto
    show ?thesis
      using ok h pp mm declared_help[OF parse_declared[OF ok]]
      by (cases "isPresent h") (auto simp: parseCmdLine_def getOption_def Settings_def intro: one)
  qed
qed

text \<open>
  C12. Every command line is understood or refused: \<^verbatim>\<open>parseCmdLine\<close> never reads past a parameter list
  (although \<^verbatim>\<open>checkIndex\<close> would let it), the only exception it throws is a
  \<^verbatim>\<open>CommandOptionException\<close>, and otherwise it asks for help or returns, for the path and for the
  mode, the one parameter given or the default.
\<close>

theorem parseCmdLine_total:
  "\<exists>r. parseCmdLine rig_options argv = Some r \<and>
     (case r of
        Refused e \<Rightarrow> e = CommandOptionException
      | Help h \<Rightarrow> h = displayOptionsHelp rig_options
      | Parsed s \<Rightarrow> (\<exists>os p m. parse argv rig_options = (Inr (), os) \<and>
          map_of os optPath = Some p \<and> map_of os optMode = Some m \<and>
          (if isPresent p then co_params p = [set_memoryMappedFile s] else set_memoryMappedFile s = ''queue.ipc'') \<and>
          (if isPresent m then co_params m = [set_mode s] else set_mode s = ''sink'')))"
  by (rule parseCmdLine_result)

lemma zeroed_get: "zeroed c p n \<Longrightarrow> j + 8 \<le> n \<Longrightarrow> getInt64 c (p + int j) = 0"
proof -
  assume z: "zeroed c p n" and j: "j + 8 \<le> n"
  have "load c (p + int j) 8 = take 8 (drop j (load c p n))"
    unfolding load_def by (rule read_bytes_sub[symmetric, OF j])
  then have "load c (p + int j) 8 = replicate 8 0" using z j by (simp add: zeroed_def)
  then show ?thesis by (simp add: getInt64_def get_le_def numeral_eq_Suc)
qed

text \<open>
  Attaching to a buffer that holds a queue in order takes its lines out, for either role, and leaves its
  tail; the source resets the synchronisation word, which for the sink stays as it was.
\<close>

lemma attach_spec:
  assumes b: "qb_capacity b = 4096" "qb_buffer b = Some l"
  defines "q \<equiv> Queue_layout b (cl_buffer l)"
  assumes inv: "spsc_inv q c"
  shows "rig_queue 12 q \<and> (\<exists>m c'. attach st b c = Some (Started st (q\<lparr>q_pollCacheLine := m\<rparr>) c') \<and>
    spsc_inv q c' \<and> contents q c' = [] \<and> getTail q c' = getTail q c \<and>
    getInt64 c' (sync_at q) = (if is_source st then 0 else getInt64 c (sync_at q)))"
proof -
  have wf: "wf_queue 12 q" unfolding q_def by (rule Queue_layout_default_wf[OF b(1)])
  have pos: "q_headAddressPos q = cl_buffer l" "q_buffer q = b" by (simp_all add: q_def Queue_layout_def Let_def)
  have rig: "rig_queue 12 q"
    using wf b pos by (simp add: rig_queue_def Queue_getBuffer_def QueueMemoryMappedBuffer_getBuffer_def)
  obtain m c1 where cl: "clear q c = Some (q\<lparr>q_pollCacheLine := m\<rparr>, c1)" "contents q c1 = []" "spsc_inv q c1"
    "getTail q c1 = getTail q c" "getInt64 c1 (sync_at q) = getInt64 c (sync_at q)"
    using clear_returns[OF wf inv] by (auto simp: sync_at_def)
  define c2 where "c2 = (if is_source st then putInt64Ordered c1 (sync_at q) 0 else c1)"
  have "attach st b c = Some (Started st (q\<lparr>q_pollCacheLine := m\<rparr>) c2)"
    using cl(1) b pos
    by (simp add: attach_def SpscMemoryMappedCacheLineQueue_def QueueMemoryMappedBuffer_getBuffer_def CacheLine_putInt64Ordered_def
        IS_PRODUCER_def IS_CONSUMER_def q_def[symmetric] CacheLine_getBuffer_def Queue_getBuffer_def c2_def sync_at_def layout)
  moreover have same: "getHead q c2 = getHead q c1" "getTail q c2 = getTail q c1" "getHeadCache q c2 = getHeadCache q c1"
    "getTailCache q c2 = getTailCache q c1"
  proof -
    have "getInt64 (putInt64Ordered c1 (sync_at q) 0) a = getInt64 c1 a" if "a + 8 \<le> sync_at q" for a
      using a64o.get_put_disjoint[of a "sync_at q" c1 0] that by (simp add: getInt64_variants)
    then show "getHead q c2 = getHead q c1" "getTail q c2 = getTail q c1" "getHeadCache q c2 = getHeadCache q c1"
      "getTailCache q c2 = getTailCache q c1"
      using wf by (simp_all add: c2_def get_defs sync_at_def wf_queue_def)
  qed
  moreover have "contents q c2 = []"
    using cl(2) unfolding contents_def same by simp
  moreover have "getInt64 c2 (sync_at q) = (if is_source st then 0 else getInt64 c (sync_at q))"
    using cl(5) a64o.get_put[of c1 "sync_at q" 0] by (simp add: c2_def getInt64_variants)
  ultimately show ?thesis using rig cl(3,4) by (auto simp: spsc_inv_def)
qed

lemma zeroed_queue:
  assumes z: "zeroed c (q_headAddressPos q) n" "256 \<le> n" and wf: "wf_queue k q"
  shows "spsc_inv q c" "getTail q c = 0" "getInt64 c (sync_at q) = 0"
proof -
  have "getHead q c = 0" "getTail q c = 0" "getHeadCache q c = 0" "getTailCache q c = 0"
    using zeroed_get[OF z(1), of 0] zeroed_get[OF z(1), of 128] zeroed_get[OF z(1), of 136] zeroed_get[OF z(1), of 8]
      z(2) wf by (simp_all add: get_defs wf_queue_def)
  then show "spsc_inv q c" "getTail q c = 0" by (simp_all add: spsc_inv_def dist_def)
  show "getInt64 c (sync_at q) = 0" using zeroed_get[OF z(1), of 192] z(2) by (simp add: sync_at_def)
qed

text \<open>
  What the operating system answers when the file is opened, and the queue over the mapping \<open>f\<close> of the
  file: an existing file is mapped, a missing one created with the size of the buffer.
\<close>

definition opened :: "posix \<Rightarrow> string \<Rightarrow> (exn + mmfile) option" where
  "opened os fn = (if px_stat os fn = None then createNew os fn 262656 else Some (mapExisting os fn))"

definition mapped :: "platform \<Rightarrow> string \<Rightarrow> mmfile \<Rightarrow> qbuf" where
  "mapped pf fn f = (QueueMemoryMappedBuffer pf fn)
     \<lparr>qb_mmFile := Some f, qb_buffer := Some (CacheLine (mm_memory f) (mm_memorySize f))\<rparr>"

definition queue_over :: "platform \<Rightarrow> string \<Rightarrow> mmfile \<Rightarrow> queue" where
  "queue_over pf fn f = Queue_layout (mapped pf fn f) (mm_memory f)"

lemma queue_over_wf: "wf_queue 12 (queue_over pf fn f)" "q_headAddressPos (queue_over pf fn f) = mm_memory f"
  unfolding queue_over_def
  by (rule Queue_layout_default_wf) (simp_all add: mapped_def Queue_layout_def Let_def)

lemma opened_cases:
  assumes "0 < getPageSize os"
  obtains "opened os fn = Some (Inl IOException)"
  | f where "opened os fn = Some (Inr f)"
proof -
  have "createNew os fn 262656 \<noteq> None"
    using fill_returns[OF assms, of 0 262656 "[]"] by (auto simp: createNew_def)
  then obtain x where x: "opened os fn = Some x" unfolding opened_def by (cases "px_stat os fn") auto
  have "x = Inl IOException" if "x = Inl e" for e
    using x that by (auto simp: opened_def createNew_def mapExisting_def MemoryMappedFile3_def doMapping_def Let_def
        split: if_splits option.splits sum.splits)
  with x that show thesis by (cases x) auto
qed

text \<open>What \<^verbatim>\<open>main\<close> does with the answer.\<close>

lemma main_setup_opened:
  assumes "parseCmdLine rig_options argv = Some (Parsed st)" "getCacheLineSize (CPUStats pf) = 64"
  defines "fn \<equiv> set_memoryMappedFile st"
  shows "opened os fn = Some (Inl IOException) \<Longrightarrow> main_setup pf os argv c = Some (Uncaught IOException)"
    and "opened os fn = Some (Inr f) \<Longrightarrow> main_setup pf os argv c = attach st (mapped pf fn f)
      (if px_stat os fn = None then setMemory c (CacheLine (mm_memory f) 262656) 0 262656 0 else c)"
proof -
  have size: "qb_fileSize (QueueMemoryMappedBuffer pf fn) = 262656" using assms(2) by simp
  show "main_setup pf os argv c = Some (Uncaught IOException)" if "opened os fn = Some (Inl IOException)"
    using that assms(1) size
    by (auto simp: opened_def fn_def main_setup_def mapProducerBuffer_def createAndLoadMappedFile_def mapBuffer_def split: if_splits)
  show "main_setup pf os argv c = attach st (mapped pf fn f)
      (if px_stat os fn = None then setMemory c (CacheLine (mm_memory f) 262656) 0 262656 0 else c)"
    if "opened os fn = Some (Inr f)"
    using that assms(1) size createNew_Inr[of os fn 262656 f]
    by (auto simp: opened_def fn_def mapped_def main_setup_def mapProducerBuffer_def createAndLoadMappedFile_def mapBuffer_def Let_def
        getMemoryPtr_def getMemorySize_def split: if_splits)
qed

text \<open>
  C11. How a process starts, decided by the command line and by the operating system: asked for help it
  exits with status 0, with a command line that is refused with status -1; a file that cannot be opened,
  filled or mapped ends it by an \<^verbatim>\<open>IOException\<close> that \<^verbatim>\<open>main\<close> does not catch. Otherwise it attaches to the
  queue over the mapped file -- zeroed if the file is new, and in the order of an earlier run if it
  exists -- and comes up with the layout of the class, without lines even if there were some, with the tail
  where it was, and with a synchronisation word of 0 if it is the source or the file is new, and unchanged if it is the
  sink on an existing file.
\<close>

theorem main_setup_starts:
  assumes "0 < getPageSize os" "getCacheLineSize (CPUStats pf) = 64"
    "\<And>fn f. px_stat os fn \<noteq> None \<Longrightarrow> mapExisting os fn = Inr f \<Longrightarrow> spsc_inv (queue_over pf fn f) c"
  shows "case parseCmdLine rig_options argv of
      None \<Rightarrow> False
    | Some (Help h) \<Rightarrow> main_setup pf os argv c = Some (Exited 0)
    | Some (Refused e) \<Rightarrow> main_setup pf os argv c = Some (Exited (- 1))
    | Some (Parsed st) \<Rightarrow>
       (case opened os (set_memoryMappedFile st) of
          None \<Rightarrow> False
        | Some (Inl e) \<Rightarrow> main_setup pf os argv c = Some (Uncaught IOException)
        | Some (Inr f) \<Rightarrow>
           (let q = queue_over pf (set_memoryMappedFile st) f; new = (px_stat os (set_memoryMappedFile st) = None)
            in rig_queue 12 q \<and>
               (\<exists>m c'. main_setup pf os argv c = Some (Started st (q\<lparr>q_pollCacheLine := m\<rparr>) c') \<and>
                  spsc_inv q c' \<and> contents q c' = [] \<and> getTail q c' = (if new then 0 else getTail q c) \<and>
                  getInt64 c' (sync_at q) = (if new \<or> is_source st then 0 else getInt64 c (sync_at q)))))"
proof -
  obtain r where r: "parseCmdLine rig_options argv = Some r" using parseCmdLine_result[of argv] by blast
  have e: "e = CommandOptionException" if "r = Refused e" for e using parseCmdLine_result[of argv] r that by auto
  show ?thesis
  proof (cases r)
    case (Parsed st)
    let ?fn = "set_memoryMappedFile st"
    note run = main_setup_opened[OF r[unfolded Parsed] assms(2)]
    show ?thesis
    proof (rule opened_cases[OF assms(1), of ?fn])
      show ?thesis if "opened os ?fn = Some (Inl IOException)" using r Parsed that run(1)[OF that] by simp
    next
      fix f assume f: "opened os ?fn = Some (Inr f)"
      let ?q = "queue_over pf ?fn f"
      define c0 where "c0 = (if px_stat os ?fn = None then setMemory c (CacheLine (mm_memory f) 262656) 0 262656 0 else c)"
      have old: "spsc_inv ?q c0 \<and> getTail ?q c0 = (if px_stat os ?fn = None then 0 else getTail ?q c) \<and>
          getInt64 c0 (sync_at ?q) = (if px_stat os ?fn = None then 0 else getInt64 c (sync_at ?q))"
      proof (cases "px_stat os ?fn")
        case None
        then have "zeroed c0 (q_headAddressPos ?q) 262656"
          using zeroed_setMemory[of c "CacheLine (mm_memory f) 262656" 262656] by (simp add: c0_def queue_over_wf(2))
        from zeroed_queue[OF this _ queue_over_wf(1)] show ?thesis using None by simp
      next
        case (Some t)
        then show ?thesis using assms(3)[of ?fn f] f by (simp add: c0_def opened_def)
      qed
      have b: "qb_capacity (mapped pf ?fn f) = 4096"
        "qb_buffer (mapped pf ?fn f) = Some (CacheLine (mm_memory f) (mm_memorySize f))" by (simp_all add: mapped_def)
      have "Queue_layout (mapped pf ?fn f) (cl_buffer (CacheLine (mm_memory f) (mm_memorySize f))) = ?q"
        by (simp add: queue_over_def)
      note at = attach_spec[OF b, unfolded this, of c0 st]
      obtain m c' where m: "attach st (mapped pf ?fn f) c0 = Some (Started st (?q\<lparr>q_pollCacheLine := m\<rparr>) c')"
        "rig_queue 12 ?q" "spsc_inv ?q c'" "contents ?q c' = []" "getTail ?q c' = getTail ?q c0"
        "getInt64 c' (sync_at ?q) = (if is_source st then 0 else getInt64 c0 (sync_at ?q))"
        using at old by blast
      have "main_setup pf os argv c = Some (Started st (?q\<lparr>q_pollCacheLine := m\<rparr>) c')"
        using run(2)[OF f] m(1) by (simp add: c0_def)
      then show ?thesis
        unfolding r Parsed f option.case sum.case cmdline.case Let_def
        by (intro conjI exI[of _ m] exI[of _ c'] m(2-4)) (use m(5,6) old in auto)
    qed
  qed (use r e in \<open>auto simp: main_setup_def\<close>)
qed

text \<open>A source started on the file of an earlier run, with a line in the queue and 7 in the synchronisation word.\<close>

definition demo_used :: cpu where
  "demo_used = putInt64 one_line_cpu 4288 7"

definition demo_os :: posix where
  "demo_os = \<lparr>px_stat = (\<lambda>_. Some 262656), px_fstat = (\<lambda>_. 262656), px_open = (\<lambda>_ _. True),
      px_write = (\<lambda>_ n. n), px_mmap = (\<lambda>_ _. Some 4096), px_pagesize = 4096\<rparr>"

lemma demo_used_queue:
  fixes f :: mmfile
  assumes "mm_memory f = 4096"
  shows "spsc_inv (queue_over pf fn f) demo_used" "contents (queue_over pf fn f) demo_used \<noteq> []"
    "getInt64 demo_used (sync_at (queue_over pf fn f)) = 7"
proof -
  let ?q = "queue_over pf fn f"
  have at: "getInt64 demo_used a = getInt64 one_line_cpu a" if "a + 8 \<le> 4288" for a
    using that by (simp add: demo_used_def a64.get_put_disjoint)
  have same: "getHead ?q demo_used = 0" "getTail ?q demo_used = 1" "getHeadCache ?q demo_used = 0" "getTailCache ?q demo_used = 0"
    using one_line_positions assms
    by (simp_all add: get_defs queue_over_def mapped_def demo_queue_def Queue_layout_def Let_def CACHE_LINE_LENGTH_def at)
  have q: "qmask ?q = 4095" using qmask_wf[OF queue_over_wf(1)] by (simp add: mask_eq_exp_minus_1)
  show "spsc_inv ?q demo_used" "contents ?q demo_used \<noteq> []" by (simp_all add: spsc_inv_def contents_def same dist_def q)
  show "getInt64 demo_used (sync_at ?q) = 7" using assms by (simp add: sync_at_def queue_over_wf(2) demo_used_def a64.get_put)
qed

theorem main_setup_starts_witness:
  "\<exists>st q c'. main_setup Solaris demo_os [''rig'', ''-m'', ''source''] demo_used = Some (Started st q c') \<and>
    is_source st \<and> contents q c' = [] \<and> getInt64 c' (sync_at q) = 0"
proof -
  have "case parseCmdLine rig_options [''rig'', ''-m'', ''source''] of Some (Parsed st) \<Rightarrow> is_source st | _ \<Rightarrow> False"
    by code_simp
  then obtain st where p: "parseCmdLine rig_options [''rig'', ''-m'', ''source''] = Some (Parsed st)" "is_source st"
    by (auto split: option.splits cmdline.splits)
  have o: "opened demo_os fn = Some (Inr \<lparr>mm_memory = 4096, mm_memorySize = 262656\<rparr>)" for fn
    by (simp add: opened_def demo_os_def mapExisting_def MemoryMappedFile3_def doMapping_def)
  have "0 < getPageSize demo_os" "getCacheLineSize (CPUStats Solaris) = 64"
    by (simp_all add: getPageSize_def getCacheLineSize_def CPUStats_def initStat_solaris_def demo_os_def)
  moreover have "spsc_inv (queue_over Solaris fn f) demo_used" if "mapExisting demo_os fn = Inr f" for fn f
    using that by (intro demo_used_queue(1)) (auto simp: demo_os_def mapExisting_def MemoryMappedFile3_def doMapping_def)
  ultimately obtain q m c' where
    "main_setup Solaris demo_os [''rig'', ''-m'', ''source''] demo_used = Some (Started st (q\<lparr>q_pollCacheLine := m\<rparr>) c')"
    "contents q c' = []" "getInt64 c' (sync_at q) = 0"
    using main_setup_starts[of demo_os Solaris demo_used "[''rig'', ''-m'', ''source'']",
        unfolded p(1) o option.case cmdline.case sum.case Let_def] p(2)
    by (simp only: simp_thms if_True) blast
  moreover have "contents (q\<lparr>q_pollCacheLine := m\<rparr>) c' = contents q c'"
    "sync_at (q\<lparr>q_pollCacheLine := m\<rparr>) = sync_at q"
    by (simp_all add: contents_def line_def get_defs dist_def qmask_def calcElementOffset_def sync_at_def)
  ultimately show ?thesis using p(2) by metis
qed

end
