(* ===== verification/AtomicBuffer.thy ===== *)
theory AtomicBuffer
  imports Atomic64 Exceptions
begin

text \<open>
  \<^verbatim>\<open>concurrent/atomic/Atomic64_gcc_x86_64.h\<close> and \<^verbatim>\<open>concurrent/AtomicBuffer.h\<close> of the Aeron client: the
  32- and 64-bit atomic operations, and a buffer of bounds-checked accessors over raw memory.
  Offsets and lengths are \<^verbatim>\<open>index_t\<close>, a signed 32-bit integer; the sum in the bounds check wraps (it
  is undefined behaviour in C++). Strings are byte lists.
\<close>

type_synonym index_t = int32_t

section \<open>Atomic operations\<close>

definition thread_fence :: "cpu \<Rightarrow> cpu" where
  "thread_fence c = c"

definition atomic_fence :: "cpu \<Rightarrow> cpu" where
  "atomic_fence c = drain c"

definition atomic_acquire :: "cpu \<Rightarrow> cpu" where
  "atomic_acquire c = c"

definition atomic_release :: "cpu \<Rightarrow> cpu" where
  "atomic_release c = c"

definition atomic_cpu_pause :: "cpu \<Rightarrow> cpu" where
  "atomic_cpu_pause c = c"

definition getInt32Volatile :: "cpu \<Rightarrow> addr \<Rightarrow> int32_t" where
  "getInt32Volatile c source = (let sequence = get_le 4 c source; c' = thread_fence c in sequence)"

definition putInt32Volatile :: "cpu \<Rightarrow> addr \<Rightarrow> int32_t \<Rightarrow> cpu" where
  "putInt32Volatile c source value = put_le 4 (thread_fence c) source value"

definition putInt32Ordered :: "cpu \<Rightarrow> addr \<Rightarrow> int32_t \<Rightarrow> cpu" where
  "putInt32Ordered c source value = put_le 4 (thread_fence c) source value"

definition putInt32Atomic :: "cpu \<Rightarrow> addr \<Rightarrow> int32_t \<Rightarrow> cpu" where
  "putInt32Atomic c address value = locked_store c address (enc 4 value)"

definition atomic_getInt64Volatile :: "cpu \<Rightarrow> addr \<Rightarrow> int64_t" where
  "atomic_getInt64Volatile c source = (let sequence = get_le 8 c source; c' = thread_fence c in sequence)"

definition putInt64Volatile :: "cpu \<Rightarrow> addr \<Rightarrow> int64_t \<Rightarrow> cpu" where
  "putInt64Volatile c address value = put_le 8 (thread_fence c) address value"

definition atomic_putInt64Ordered :: "cpu \<Rightarrow> addr \<Rightarrow> int64_t \<Rightarrow> cpu" where
  "atomic_putInt64Ordered c address value = put_le 8 (thread_fence c) address value"

definition atomic_putInt64Atomic :: "cpu \<Rightarrow> addr \<Rightarrow> int64_t \<Rightarrow> cpu" where
  "atomic_putInt64Atomic c address value = locked_store c address (enc 8 value)"

definition atomic_getAndAddInt64 :: "cpu \<Rightarrow> addr \<Rightarrow> int64_t \<Rightarrow> int64_t \<times> cpu" where
  "atomic_getAndAddInt64 c address value =
     (let d = drain c; original = get_le 8 d address
      in (original, d\<lparr>shared := write_bytes (shared d) address (enc 8 (original + value))\<rparr>))"

definition atomic_getAndAddInt32 :: "cpu \<Rightarrow> addr \<Rightarrow> int32_t \<Rightarrow> int32_t \<times> cpu" where
  "atomic_getAndAddInt32 c address value =
     (let d = drain c; original = get_le 4 d address
      in (original, d\<lparr>shared := write_bytes (shared d) address (enc 4 (original + value))\<rparr>))"

definition atomic_cmpxchg32 :: "cpu \<Rightarrow> addr \<Rightarrow> int32_t \<Rightarrow> int32_t \<Rightarrow> int32_t \<times> cpu" where
  "atomic_cmpxchg32 c destination expected desired =
     (let d = drain c; original = get_le 4 d destination
      in (original,
          if original = expected then d\<lparr>shared := write_bytes (shared d) destination (enc 4 desired)\<rparr>
          else d))"

definition atomic_cmpxchg64 :: "cpu \<Rightarrow> addr \<Rightarrow> int64_t \<Rightarrow> int64_t \<Rightarrow> int64_t \<times> cpu" where
  "atomic_cmpxchg64 c destination expected desired =
     (let d = drain c; original = get_le 8 d destination
      in (original,
          if original = expected then d\<lparr>shared := write_bytes (shared d) destination (enc 8 desired)\<rparr>
          else d))"

section \<open>The buffer\<close>

record abuf =
  ab_buffer :: addr
  ab_length :: index_t

definition AtomicBuffer_empty :: abuf where
  "AtomicBuffer_empty = \<lparr>ab_buffer = 0, ab_length = 0\<rparr>"

definition AtomicBuffer :: "addr \<Rightarrow> index_t \<Rightarrow> abuf" where
  "AtomicBuffer buffer len = \<lparr>ab_buffer = buffer, ab_length = len\<rparr>"

definition wrap :: "addr \<Rightarrow> index_t \<Rightarrow> abuf \<Rightarrow> abuf" where
  "wrap buffer len b = b\<lparr>ab_buffer := buffer, ab_length := len\<rparr>"

definition wrap_buffer :: "abuf \<Rightarrow> abuf \<Rightarrow> abuf" where
  "wrap_buffer buffer b = b\<lparr>ab_buffer := ab_buffer buffer, ab_length := ab_length buffer\<rparr>"

definition wrap_array :: "addr \<Rightarrow> nat \<Rightarrow> abuf \<Rightarrow> abuf" where
  "wrap_array data N b = b\<lparr>ab_buffer := data, ab_length := of_nat N\<rparr>"

definition ab_capacity :: "abuf \<Rightarrow> index_t" where
  "ab_capacity b = ab_length b"

definition ab_setCapacity :: "index_t \<Rightarrow> abuf \<Rightarrow> abuf" where
  "ab_setCapacity len b = b\<lparr>ab_length := len\<rparr>"

definition ab_data :: "abuf \<Rightarrow> addr" where
  "ab_data b = ab_buffer b"

definition boundsCheck :: "abuf \<Rightarrow> index_t \<Rightarrow> index_t \<Rightarrow> (cpu, unit) act" where
  "boundsCheck b index len = guard (sint (ab_length b) < sint (index + len)) OutOfBoundsException"

definition at :: "abuf \<Rightarrow> index_t \<Rightarrow> addr" where
  "at b offset = ab_buffer b + sint offset"

text \<open>The address of a structure laid over the buffer, whose size is \<open>size_t\<close> bytes.\<close>

definition overlayStruct :: "nat \<Rightarrow> abuf \<Rightarrow> index_t \<Rightarrow> (cpu, addr) act" where
  "overlayStruct sz b offset = andThen (boundsCheck b offset (of_nat sz)) (ret (at b offset))"

definition ab_putInt64 :: "abuf \<Rightarrow> index_t \<Rightarrow> int64_t \<Rightarrow> (cpu, unit) act" where
  "ab_putInt64 b offset v =
     andThen (boundsCheck b offset 8) (poke (\<lambda>c. put_le 8 c (at b offset) v))"

definition ab_getInt64 :: "abuf \<Rightarrow> index_t \<Rightarrow> (cpu, int64_t) act" where
  "ab_getInt64 b offset = andThen (boundsCheck b offset 8) (peek (\<lambda>c. get_le 8 c (at b offset)))"

definition ab_putInt32 :: "abuf \<Rightarrow> index_t \<Rightarrow> int32_t \<Rightarrow> (cpu, unit) act" where
  "ab_putInt32 b offset v =
     andThen (boundsCheck b offset 4) (poke (\<lambda>c. put_le 4 c (at b offset) v))"

definition ab_getInt32 :: "abuf \<Rightarrow> index_t \<Rightarrow> (cpu, int32_t) act" where
  "ab_getInt32 b offset = andThen (boundsCheck b offset 4) (peek (\<lambda>c. get_le 4 c (at b offset)))"

definition ab_getUInt16 :: "abuf \<Rightarrow> index_t \<Rightarrow> (cpu, 16 word) act" where
  "ab_getUInt16 b offset = andThen (boundsCheck b offset 2) (peek (\<lambda>c. get_le 2 c (at b offset)))"

definition ab_putUInt16 :: "abuf \<Rightarrow> index_t \<Rightarrow> 16 word \<Rightarrow> (cpu, unit) act" where
  "ab_putUInt16 b offset v =
     andThen (boundsCheck b offset 2) (poke (\<lambda>c. put_le 2 c (at b offset) v))"

definition ab_getUInt8 :: "abuf \<Rightarrow> index_t \<Rightarrow> (cpu, byte) act" where
  "ab_getUInt8 b offset = andThen (boundsCheck b offset 1) (peek (\<lambda>c. get_le 1 c (at b offset)))"

definition ab_putUInt8 :: "abuf \<Rightarrow> index_t \<Rightarrow> byte \<Rightarrow> (cpu, unit) act" where
  "ab_putUInt8 b offset v =
     andThen (boundsCheck b offset 1) (poke (\<lambda>c. put_le 1 c (at b offset) v))"

definition ab_putInt64Ordered :: "abuf \<Rightarrow> index_t \<Rightarrow> int64_t \<Rightarrow> (cpu, unit) act" where
  "ab_putInt64Ordered b offset v =
     andThen (boundsCheck b offset 8) (poke (\<lambda>c. atomic_putInt64Ordered c (at b offset) v))"

definition ab_getInt64Volatile :: "abuf \<Rightarrow> index_t \<Rightarrow> (cpu, int64_t) act" where
  "ab_getInt64Volatile b offset =
     andThen (boundsCheck b offset 8) (peek (\<lambda>c. atomic_getInt64Volatile c (at b offset)))"

definition ab_putInt32Ordered :: "abuf \<Rightarrow> index_t \<Rightarrow> int32_t \<Rightarrow> (cpu, unit) act" where
  "ab_putInt32Ordered b offset v =
     andThen (boundsCheck b offset 4) (poke (\<lambda>c. putInt32Ordered c (at b offset) v))"

definition ab_getInt32Volatile :: "abuf \<Rightarrow> index_t \<Rightarrow> (cpu, int32_t) act" where
  "ab_getInt32Volatile b offset =
     andThen (boundsCheck b offset 4) (peek (\<lambda>c. getInt32Volatile c (at b offset)))"

definition ab_putInt64Atomic :: "abuf \<Rightarrow> index_t \<Rightarrow> int64_t \<Rightarrow> (cpu, unit) act" where
  "ab_putInt64Atomic b offset v =
     andThen (boundsCheck b offset 8) (poke (\<lambda>c. atomic_putInt64Atomic c (at b offset) v))"

definition ab_putInt32Atomic :: "abuf \<Rightarrow> index_t \<Rightarrow> int32_t \<Rightarrow> (cpu, unit) act" where
  "ab_putInt32Atomic b offset v =
     andThen (boundsCheck b offset 4) (poke (\<lambda>c. putInt32Atomic c (at b offset) v))"

definition ab_addInt64Ordered :: "abuf \<Rightarrow> index_t \<Rightarrow> int64_t \<Rightarrow> (cpu, unit) act" where
  "ab_addInt64Ordered b offset increment =
     andThen (boundsCheck b offset 8)
       (bind (ab_getInt64 b offset)
         (\<lambda>value. poke (\<lambda>c. atomic_putInt64Ordered c (at b offset) (value + increment))))"

definition ab_compareAndSetInt64 :: "abuf \<Rightarrow> index_t \<Rightarrow> int64_t \<Rightarrow> int64_t \<Rightarrow> (cpu, bool) act" where
  "ab_compareAndSetInt64 b offset expectedValue updateValue =
     andThen (boundsCheck b offset 8)
       (bind (exchange (\<lambda>c. atomic_cmpxchg64 c (at b offset) expectedValue updateValue))
         (\<lambda>original. ret (original = expectedValue)))"

definition ab_getAndAddInt64 :: "abuf \<Rightarrow> index_t \<Rightarrow> int64_t \<Rightarrow> (cpu, int64_t) act" where
  "ab_getAndAddInt64 b offset delta =
     andThen (boundsCheck b offset 8) (exchange (\<lambda>c. atomic_getAndAddInt64 c (at b offset) delta))"

definition ab_addInt32Ordered :: "abuf \<Rightarrow> index_t \<Rightarrow> int32_t \<Rightarrow> (cpu, unit) act" where
  "ab_addInt32Ordered b offset increment =
     andThen (boundsCheck b offset 4)
       (bind (ab_getInt32 b offset)
         (\<lambda>value. poke (\<lambda>c. putInt32Ordered c (at b offset) (value + increment))))"

definition ab_compareAndSetInt32 :: "abuf \<Rightarrow> index_t \<Rightarrow> int32_t \<Rightarrow> int32_t \<Rightarrow> (cpu, bool) act" where
  "ab_compareAndSetInt32 b offset expectedValue updateValue =
     andThen (boundsCheck b offset 4)
       (bind (exchange (\<lambda>c. atomic_cmpxchg32 c (at b offset) expectedValue updateValue))
         (\<lambda>original. ret (original = expectedValue)))"

definition ab_getAndAddInt32 :: "abuf \<Rightarrow> index_t \<Rightarrow> int32_t \<Rightarrow> (cpu, int32_t) act" where
  "ab_getAndAddInt32 b offset delta =
     andThen (boundsCheck b offset 4) (exchange (\<lambda>c. atomic_getAndAddInt32 c (at b offset) delta))"

text \<open>A length of type \<^verbatim>\<open>index_t\<close> passed to \<^verbatim>\<open>memcpy\<close> is converted to \<^verbatim>\<open>size_t\<close>.\<close>

definition size_of :: "index_t \<Rightarrow> nat" where
  "size_of len = unat (scast len :: uint64_t)"

definition ab_putBytes :: "abuf \<Rightarrow> index_t \<Rightarrow> abuf \<Rightarrow> index_t \<Rightarrow> index_t \<Rightarrow> (cpu, unit) act" where
  "ab_putBytes b index srcBuffer srcIndex len =
     andThen (boundsCheck b index len)
       (andThen (boundsCheck srcBuffer srcIndex len)
         (poke (\<lambda>c. emit_bytes c (at b index) (load c (at srcBuffer srcIndex) (size_of len)))))"

definition ab_putBytesFrom :: "abuf \<Rightarrow> index_t \<Rightarrow> addr \<Rightarrow> index_t \<Rightarrow> (cpu, unit) act" where
  "ab_putBytesFrom b index srcBuffer len =
     andThen (boundsCheck b index len)
       (poke (\<lambda>c. emit_bytes c (at b index) (load c srcBuffer (size_of len))))"

definition ab_getBytes :: "abuf \<Rightarrow> index_t \<Rightarrow> addr \<Rightarrow> index_t \<Rightarrow> (cpu, unit) act" where
  "ab_getBytes b index dst len =
     andThen (boundsCheck b index len)
       (poke (\<lambda>c. emit_bytes c dst (load c (at b index) (size_of len))))"

definition ab_setMemory :: "abuf \<Rightarrow> index_t \<Rightarrow> uint64_t \<Rightarrow> byte \<Rightarrow> (cpu, unit) act" where
  "ab_setMemory b offset len value =
     andThen (boundsCheck b offset (ucast len))
       (poke (\<lambda>c. emit_bytes c (at b offset) (replicate (unat len) value)))"

definition AtomicBuffer_init :: "addr \<Rightarrow> index_t \<Rightarrow> byte \<Rightarrow> (cpu, abuf) act" where
  "AtomicBuffer_init buffer len initialValue =
     (let b = AtomicBuffer buffer len
      in andThen (ab_setMemory b 0 (scast len) initialValue) (ret b))"

definition ab_getStringUtf8WithoutLength :: "abuf \<Rightarrow> index_t \<Rightarrow> uint64_t \<Rightarrow> (cpu, byte list) act" where
  "ab_getStringUtf8WithoutLength b offset len =
     andThen (boundsCheck b offset (ucast len)) (peek (\<lambda>c. load c (at b offset) (unat len)))"

definition ab_getStringUtf8 :: "abuf \<Rightarrow> index_t \<Rightarrow> (cpu, byte list) act" where
  "ab_getStringUtf8 b offset =
     bind (ab_getInt32 b offset)
       (\<lambda>len. ab_getStringUtf8WithoutLength b (offset + 4) (scast len))"

definition ab_getStringUtf8Length :: "abuf \<Rightarrow> index_t \<Rightarrow> (cpu, int32_t) act" where
  "ab_getStringUtf8Length b offset = ab_getInt32 b offset"

definition ab_putStringUtf8 :: "abuf \<Rightarrow> index_t \<Rightarrow> byte list \<Rightarrow> (cpu, int32_t) act" where
  "ab_putStringUtf8 b offset value =
     (let len = of_nat (length value)
      in andThen (boundsCheck b offset (of_nat (length value + 4)))
          (andThen (ab_putInt32 b offset len)
            (andThen (poke (\<lambda>c. emit_bytes c (at b offset + 4) value)) (ret (4 + len)))))"

definition ab_putStringUtf8WithoutLength :: "abuf \<Rightarrow> index_t \<Rightarrow> byte list \<Rightarrow> (cpu, int32_t) act" where
  "ab_putStringUtf8WithoutLength b offset value =
     andThen (boundsCheck b offset (of_nat (length value)))
       (andThen (poke (\<lambda>c. emit_bytes c (at b offset) value)) (ret (of_nat (length value))))"

section \<open>Accesses inside the buffer\<close>

definition in_range :: "abuf \<Rightarrow> index_t \<Rightarrow> nat \<Rightarrow> bool" where
  "in_range b i n \<longleftrightarrow> 0 \<le> sint i \<and> sint i + int n \<le> sint (ab_length b)"

lemma sint_of_nat32: "n < 2 ^ 31 \<Longrightarrow> sint (of_nat n :: 32 word) = int n"
  by (subst sint_eq_unat) (simp_all add: unat_of_nat)

lemma sint_of_nat64: "n < 2 ^ 63 \<Longrightarrow> sint (of_nat n :: 64 word) = int n"
  by (subst sint_eq_unat) (simp_all add: unat_of_nat)

lemma scast_of_nat: "n < 2 ^ 31 \<Longrightarrow> (scast (of_nat n :: int32_t) :: int64_t) = of_nat n"
  by (simp only: scast_eq sint_of_nat32 of_int_of_nat_eq)

lemma sint_add_of_nat:
  fixes i :: "32 word"
  assumes "0 \<le> sint i" "sint i + int n < 2 ^ 31"
  shows "sint (i + of_nat n) = sint i + int n"
proof -
  have i: "sint i = int (unat i)" using assms(1) by (rule sint_nonneg_unat)
  have "i + of_nat n = of_nat (unat i + n)" by simp
  moreover have "int (unat i) + int n < 2 ^ 31" using assms(2) by (simp only: i)
  then have "int (unat i + n) < int (2 ^ 31)" by (simp only: of_nat_add of_nat_power of_nat_numeral)
  then have "unat i + n < 2 ^ 31" by (simp only: of_nat_less_iff)
  ultimately show ?thesis using sint_of_nat32[of "unat i + n"] i by simp
qed

lemma sint32_lt: "sint (w :: 32 word) < 2 ^ 31"
  using sint_lt[of w] by simp

lemma in_range_add: "in_range b i n \<Longrightarrow> sint (i + of_nat n) = sint i + int n"
  if "sint i + int n < 2 ^ 31"
  using that by (auto simp: in_range_def intro: sint_add_of_nat)

lemma in_range_less: "in_range b i n \<Longrightarrow> sint i + int n < 2 ^ 31"
  using sint32_lt[of "ab_length b"] by (simp add: in_range_def)

lemma in_range_sub:
  assumes "in_range b i n" "j + m \<le> n"
  shows "in_range b (i + of_nat j) m" "at b (i + of_nat j) = at b i + int j"
proof -
  have "sint i + int j < 2 ^ 31" using in_range_less[OF assms(1)] assms(2) by simp
  then have s: "sint (i + of_nat j) = sint i + int j"
    using assms(1) by (auto simp: in_range_def intro: sint_add_of_nat)
  show "at b (i + of_nat j) = at b i + int j" by (simp add: at_def s)
  show "in_range b (i + of_nat j) m" using assms by (auto simp: in_range_def s)
qed

lemma boundsCheck_pass: "in_range b i n \<Longrightarrow> boundsCheck b i (of_nat n) c = (Inr (), c)"
  using in_range_less[of b i n] sint_add_of_nat[of i n] by (auto simp: boundsCheck_def in_range_def)

lemma boundsCheck_pass_numeral [simp]:
  "in_range b i (numeral k) \<Longrightarrow> boundsCheck b i (numeral k) c = (Inr (), c)"
  "in_range b i 1 \<Longrightarrow> boundsCheck b i 1 c = (Inr (), c)"
  using boundsCheck_pass[of b i "numeral k" c] boundsCheck_pass[of b i 1 c] by simp_all

lemma get_variants:
  "getInt32Volatile c a = get_le 4 c a" "putInt32Ordered c a v = put_le 4 c a v"
  "atomic_getInt64Volatile c a = get_le 8 c a" "atomic_putInt64Ordered c a w = put_le 8 c a w"
  by (simp_all add: getInt32Volatile_def putInt32Ordered_def atomic_getInt64Volatile_def
      atomic_putInt64Ordered_def thread_fence_def)

named_theorems ab_ok "accessors of a buffer inside its bounds"

lemma ab_get_ok [ab_ok]:
  "in_range b i 8 \<Longrightarrow> ab_getInt64 b i c = (Inr (get_le 8 c (at b i)), c)"
  "in_range b i 8 \<Longrightarrow> ab_getInt64Volatile b i c = (Inr (get_le 8 c (at b i)), c)"
  "in_range b i 4 \<Longrightarrow> ab_getInt32 b i c = (Inr (get_le 4 c (at b i)), c)"
  "in_range b i 4 \<Longrightarrow> ab_getInt32Volatile b i c = (Inr (get_le 4 c (at b i)), c)"
  "in_range b i 2 \<Longrightarrow> ab_getUInt16 b i c = (Inr (get_le 2 c (at b i)), c)"
  "in_range b i 1 \<Longrightarrow> ab_getUInt8 b i c = (Inr (get_le 1 c (at b i)), c)"
  by (simp_all add: ab_getInt64_def ab_getInt64Volatile_def ab_getInt32_def ab_getInt32Volatile_def
      ab_getUInt16_def ab_getUInt8_def get_variants)

lemma ab_put_ok [ab_ok]:
  "in_range b i 8 \<Longrightarrow> ab_putInt64 b i v64 c = (Inr (), put_le 8 c (at b i) v64)"
  "in_range b i 8 \<Longrightarrow> ab_putInt64Ordered b i v64 c = (Inr (), put_le 8 c (at b i) v64)"
  "in_range b i 4 \<Longrightarrow> ab_putInt32 b i v32 c = (Inr (), put_le 4 c (at b i) v32)"
  "in_range b i 4 \<Longrightarrow> ab_putInt32Ordered b i v32 c = (Inr (), put_le 4 c (at b i) v32)"
  "in_range b i 2 \<Longrightarrow> ab_putUInt16 b i v16 c = (Inr (), put_le 2 c (at b i) v16)"
  "in_range b i 1 \<Longrightarrow> ab_putUInt8 b i v8 c = (Inr (), put_le 1 c (at b i) v8)"
  by (simp_all add: ab_putInt64_def ab_putInt64Ordered_def ab_putInt32_def ab_putInt32Ordered_def
      ab_putUInt16_def ab_putUInt8_def get_variants)

lemma size_of_nat: "n < 2 ^ 31 \<Longrightarrow> size_of (of_nat n) = n"
proof -
  assume n: "n < 2 ^ 31"
  then have "(scast (of_nat n :: 32 word) :: 64 word) = of_nat n"
    by (simp only: scast_eq sint_of_nat32 of_int_of_nat_eq)
  then show ?thesis using n by (simp add: size_of_def unat_of_nat)
qed

lemma ab_bytes_ok [ab_ok]:
  assumes "in_range b i n" "n < 2 ^ 31"
  shows "in_range b' i' n \<Longrightarrow> ab_putBytes b i b' i' (of_nat n) c =
      (Inr (), emit_bytes c (at b i) (load c (at b' i') n))"
    and "ab_putBytesFrom b i src (of_nat n) c = (Inr (), emit_bytes c (at b i) (load c src n))"
    and "ab_setMemory b i (of_nat n) x c = (Inr (), emit_bytes c (at b i) (replicate n x))"
proof -
  have u: "(ucast (of_nat n :: 64 word) :: 32 word) = of_nat n"
    using assms(2) by (simp add: unsigned_of_nat take_bit_nat_eq_self)
  have "unat (of_nat n :: 64 word) = n" using assms(2) by (simp add: unat_of_nat)
  with u show "in_range b' i' n \<Longrightarrow> ab_putBytes b i b' i' (of_nat n) c =
      (Inr (), emit_bytes c (at b i) (load c (at b' i') n))"
    "ab_putBytesFrom b i src (of_nat n) c = (Inr (), emit_bytes c (at b i) (load c src n))"
    "ab_setMemory b i (of_nat n) x c = (Inr (), emit_bytes c (at b i) (replicate n x))"
    using assms
    by (simp_all add: ab_putBytes_def ab_putBytesFrom_def ab_setMemory_def boundsCheck_pass size_of_nat
        del: of_nat_numeral)
qed

text \<open>
  The bounds check of every accessor tests the end of the access only. For offsets and lengths
  that are not negative and whose sum is a 32-bit value it refuses exactly the accesses that leave
  the buffer; a negative offset passes, and the access then reads in front of the buffer.
\<close>

theorem boundsCheck_exact:
  "(0 \<le> sint i \<and> sint i + int n < 2 ^ 31 \<longrightarrow>
     (fst (boundsCheck b i (of_nat n) c) = Inr () \<longleftrightarrow> in_range b i n)) \<and>
   (- (2 ^ 31) \<le> sint i \<and> sint i \<le> - 8 \<and> 0 \<le> sint (ab_length b) \<longrightarrow>
     ab_getInt64 b i c = (Inr (get_le 8 c (ab_buffer b + sint i)), c))"
proof -
  have 1: "0 \<le> sint i \<Longrightarrow> sint i + int n < 2 ^ 31 \<Longrightarrow>
      fst (boundsCheck b i (of_nat n) c) = Inr () \<longleftrightarrow> in_range b i n"
    using sint_add_of_nat[of i n] by (auto simp: boundsCheck_def in_range_def)
  have 2: "sint (i + 8) \<le> 0" if "sint i \<le> - 8"
  proof -
    have "sint i + 8 = sint (i + 8)"
      using that sint_ge[of i]
      by (simp add: sint_word_ariths(1) signed_take_bit_int_eq_self[of 31])
    then show ?thesis using that by simp
  qed
  then have "ab_getInt64 b i c = (Inr (get_le 8 c (ab_buffer b + sint i)), c)"
    if "sint i \<le> - 8" "0 \<le> sint (ab_length b)"
    using that by (simp add: ab_getInt64_def boundsCheck_def at_def)
  with 1 show ?thesis by blast
qed

theorem boundsCheck_exact_witness:
  "fst (ab_getInt64 (AtomicBuffer 1000 64) (-8) \<lparr>shared = (\<lambda>a. if a = 992 then 7 else 0), sbuf = []\<rparr>) = Inr 7"
  using boundsCheck_exact[of "-8" 0 "AtomicBuffer 1000 64" "\<lparr>shared = (\<lambda>a. if a = 992 then 7 else 0), sbuf = []\<rparr>"]
  by (simp add: AtomicBuffer_def get_le_def load_def view_def read_bytes_def upt_rec[of _ 8])

lemma get_put_le:
  "LENGTH('a) \<le> 8 * n \<Longrightarrow> get_le n (put_le n c a v) a = (v :: 'a::len word)"
  by (rule accessor.get_put[OF accessor_le])

lemma view_put_le [mem_simps]: "view (put_le n c a v) = write_bytes (view c) a (enc n v)"
  by (simp add: put_le_def mem_simps)

lemma putStringUtf8_ok:
  assumes "in_range b i (length str + 4)"
  obtains c' where "ab_putStringUtf8 b i str c = (Inr (of_nat (4 + length str)), c')"
    "view c' = write_bytes (write_bytes (view c) (at b i) (enc 4 (of_nat (length str) :: int32_t))) (at b i + 4) str"
proof -
  have "in_range b i 4" using assms by (simp add: in_range_def)
  then show thesis
    using that boundsCheck_pass[OF assms] by (simp add: ab_putStringUtf8_def Let_def ab_ok mem_simps del: enc_numeral)
qed

lemma getStringUtf8_ok:
  assumes "in_range b i (length str + 4)" "get_le 4 c (at b i) = (of_nat (length str) :: int32_t)"
    "load c (at b i + 4) (length str) = str"
  shows "ab_getStringUtf8 b i c = (Inr str, c)" "ab_getStringUtf8Length b i c = (Inr (of_nat (length str)), c)"
proof -
  let ?n = "length str"
  have n: "?n < 2 ^ 31" using in_range_less[OF assms(1)] assms(1) by (simp add: in_range_def)
  have "in_range b i 4" using assms(1) by (simp add: in_range_def)
  then have l: "ab_getInt32 b i c = (Inr (of_nat ?n), c)" using assms(2) by (simp add: ab_ok)
  then show "ab_getStringUtf8Length b i c = (Inr (of_nat ?n), c)" by (simp add: ab_getStringUtf8Length_def)
  have rs: "in_range b (i + 4) ?n" "at b (i + 4) = at b i + 4" using in_range_sub[OF assms(1), of 4 ?n] by simp_all
  have sc: "(scast (of_nat ?n :: int32_t) :: uint64_t) = of_nat ?n"
    using n by (simp only: scast_eq sint_of_nat32 of_int_of_nat_eq)
  have u: "unat (of_nat ?n :: uint64_t) = ?n" "(ucast (of_nat ?n :: uint64_t) :: int32_t) = of_nat ?n"
    using n by (simp_all add: unat_of_nat unsigned_of_nat take_bit_nat_eq_self)
  show "ab_getStringUtf8 b i c = (Inr str, c)"
    using boundsCheck_pass[OF rs(1)] assms(3)
    by (simp add: ab_getStringUtf8_def l sc ab_getStringUtf8WithoutLength_def u rs(2))
qed

text \<open>
  A string put into a buffer with room for it and its four-byte length reads back, the length
  prefix is its size, \<^verbatim>\<open>putStringUtf8\<close> returns the number of bytes used, and no byte outside is touched.
\<close>

theorem stringUtf8_roundtrip:
  assumes "in_range b i (length str + 4)"
  shows "\<exists>c'. ab_putStringUtf8 b i str c = (Inr (of_nat (4 + length str)), c') \<and>
    ab_getStringUtf8 b i c' = (Inr str, c') \<and>
    ab_getStringUtf8Length b i c' = (Inr (of_nat (length str)), c') \<and>
    (\<forall>x. x < at b i \<or> at b i + 4 + int (length str) \<le> x \<longrightarrow> view c' x = view c x)"
proof -
  obtain c' where p: "ab_putStringUtf8 b i str c = (Inr (of_nat (4 + length str)), c')"
    and v: "view c' = write_bytes (write_bytes (view c) (at b i) (enc 4 (of_nat (length str) :: int32_t))) (at b i + 4) str"
    by (rule putStringUtf8_ok[OF assms])
  have "get_le 4 c' (at b i) = (of_nat (length str) :: int32_t)" "load c' (at b i + 4) (length str) = str"
    by (simp_all add: get_le_def load_def v mem_simps dec_enc del: enc_numeral)
  moreover have "view c' x = view c x" if "x < at b i \<or> at b i + 4 + int (length str) \<le> x" for x
    using that unfolding v by (auto simp: write_bytes_def)
  ultimately show ?thesis using p getStringUtf8_ok[OF assms] by blast
qed

theorem stringUtf8_roundtrip_witness:
  "\<exists>c'. ab_getStringUtf8 (AtomicBuffer 1000 64) 8 c' = (Inr [104, 105], c')"
  using stringUtf8_roundtrip[of "AtomicBuffer 1000 64" 8 "[104, 105]" "\<lparr>shared = (\<lambda>_. 0), sbuf = []\<rparr>"]
  by (auto simp: in_range_def AtomicBuffer_def)

section \<open>A memory of zeros\<close>

definition blank :: cpu where
  "blank = \<lparr>shared = (\<lambda>_. 0), sbuf = []\<rparr>"

lemma load_blank: "load blank a n = replicate n 0"
  by (simp add: load_def blank_def view_def read_bytes_def map_replicate_const)

lemma dec_zeros: "dec (replicate n 0) = 0"
  by (induction n) simp_all

end
