(* ===== verification/LogBuffer.thy ===== *)
theory LogBuffer
  imports AtomicBuffer BitUtil "HOL-Library.Signed_Division"
begin

text \<open>
  \<^verbatim>\<open>concurrent/logbuffer\<close> of the Aeron client: the layout of frames and logs (\<^verbatim>\<open>FrameDescriptor.h\<close>,
  \<^verbatim>\<open>DataFrameHeader.h\<close>, \<^verbatim>\<open>LogBufferDescriptor.h\<close>), one partition of a log (\<^verbatim>\<open>LogBufferPartition.h\<close>),
  the view of a frame's header (\<^verbatim>\<open>Header.h\<close>) and a claimed range (\<^verbatim>\<open>BufferClaim.h\<close>). Appending,
  reading and scanning are in theory \<open>TermBuffer\<close>.

  A frame is a header of 24 bytes -- length, version, flags, type, offset in the term, session,
  stream and term -- and its payload, aligned to 8 bytes. A length that is not positive marks
  the end of what has been committed.
\<close>

section \<open>FrameDescriptor\<close>

definition FRAME_ALIGNMENT :: index_t where [layout]: "FRAME_ALIGNMENT = 8"

definition WORD_ALIGNMENT :: index_t where [layout]: "WORD_ALIGNMENT = 8"

definition BEGIN_FRAG :: byte where [layout]: "BEGIN_FRAG = 0x80"

definition END_FRAG :: byte where [layout]: "END_FRAG = 0x40"

definition UNFRAGMENTED :: byte where "UNFRAGMENTED = BEGIN_FRAG OR END_FRAG"

definition fd_HEADER_LENGTH :: index_t where [layout]: "fd_HEADER_LENGTH = 24"

definition VERSION_OFFSET :: index_t where [layout]: "VERSION_OFFSET = 4"

definition FLAGS_OFFSET :: index_t where [layout]: "FLAGS_OFFSET = 5"

definition fd_TYPE_OFFSET :: index_t where [layout]: "fd_TYPE_OFFSET = 6"

definition fd_LENGTH_OFFSET :: index_t where [layout]: "fd_LENGTH_OFFSET = 0"

definition TERM_OFFSET :: index_t where [layout]: "TERM_OFFSET = 8"

definition PADDING_FRAME_TYPE :: "16 word" where [layout]: "PADDING_FRAME_TYPE = 0"

definition checkHeaderLength :: "index_t \<Rightarrow> (cpu, unit) act" where
  "checkHeaderLength len = guard (len \<noteq> fd_HEADER_LENGTH) IllegalStateException"

definition checkMaxFrameLength :: "index_t \<Rightarrow> (cpu, unit) act" where
  "checkMaxFrameLength len = guard (len AND (FRAME_ALIGNMENT - 1) \<noteq> 0) IllegalStateException"

definition computeMaxMessageLength :: "index_t \<Rightarrow> index_t" where
  "computeMaxMessageLength capacity = word_of_int (sint capacity sdiv 8)"

definition fd_typeOffset :: "index_t \<Rightarrow> index_t" where
  "fd_typeOffset frameOffset = frameOffset + fd_TYPE_OFFSET"

definition flagsOffset :: "index_t \<Rightarrow> index_t" where
  "flagsOffset frameOffset = frameOffset + FLAGS_OFFSET"

definition fd_lengthOffset :: "index_t \<Rightarrow> index_t" where
  "fd_lengthOffset frameOffset = frameOffset + fd_LENGTH_OFFSET"

definition termOffsetOffset :: "index_t \<Rightarrow> index_t" where
  "termOffsetOffset frameOffset = frameOffset + TERM_OFFSET"

definition frameType :: "abuf \<Rightarrow> index_t \<Rightarrow> 16 word \<Rightarrow> (cpu, unit) act" where
  "frameType logBuffer frameOffset type = ab_putUInt16 logBuffer (fd_typeOffset frameOffset) type"

definition frameFlags :: "abuf \<Rightarrow> index_t \<Rightarrow> byte \<Rightarrow> (cpu, unit) act" where
  "frameFlags logBuffer frameOffset flags = ab_putUInt8 logBuffer (flagsOffset frameOffset) flags"

definition frameTermOffset :: "abuf \<Rightarrow> index_t \<Rightarrow> int32_t \<Rightarrow> (cpu, unit) act" where
  "frameTermOffset logBuffer frameOffset termOffset =
     ab_putInt32 logBuffer (termOffsetOffset frameOffset) termOffset"

definition isPaddingFrame :: "abuf \<Rightarrow> index_t \<Rightarrow> (cpu, bool) act" where
  "isPaddingFrame logBuffer frameOffset =
     bind (ab_getUInt16 logBuffer (fd_typeOffset frameOffset)) (\<lambda>t. ret (t = PADDING_FRAME_TYPE))"

definition frameLengthVolatile :: "abuf \<Rightarrow> index_t \<Rightarrow> (cpu, int32_t) act" where
  "frameLengthVolatile logBuffer frameOffset = ab_getInt32Volatile logBuffer (fd_lengthOffset frameOffset)"

definition frameLengthOrdered :: "abuf \<Rightarrow> index_t \<Rightarrow> int32_t \<Rightarrow> (cpu, unit) act" where
  "frameLengthOrdered logBuffer frameOffset frameLength =
     ab_putInt32Ordered logBuffer (fd_lengthOffset frameOffset) frameLength"

section \<open>DataFrameHeader\<close>

definition FRAME_LENGTH_OFFSET :: index_t where [layout]: "FRAME_LENGTH_OFFSET = 0"

definition VERSION_FIELD_OFFSET :: index_t where [layout]: "VERSION_FIELD_OFFSET = 4"

definition FLAGS_FIELD_OFFSET :: index_t where [layout]: "FLAGS_FIELD_OFFSET = 5"

definition TYPE_FIELD_OFFSET :: index_t where [layout]: "TYPE_FIELD_OFFSET = 6"

definition TERM_OFFSET_FIELD_OFFSET :: index_t where [layout]: "TERM_OFFSET_FIELD_OFFSET = 8"

definition SESSION_ID_FIELD_OFFSET :: index_t where [layout]: "SESSION_ID_FIELD_OFFSET = 12"

definition STREAM_ID_FIELD_OFFSET :: index_t where [layout]: "STREAM_ID_FIELD_OFFSET = 16"

definition TERM_ID_FIELD_OFFSET :: index_t where [layout]: "TERM_ID_FIELD_OFFSET = 20"

definition DATA_OFFSET :: index_t where [layout]: "DATA_OFFSET = 24"

definition dh_LENGTH :: index_t where [layout]: "dh_LENGTH = DATA_OFFSET"

definition HDR_TYPE_PAD :: int16_t where [layout]: "HDR_TYPE_PAD = 0x00"

definition HDR_TYPE_DATA :: int16_t where [layout]: "HDR_TYPE_DATA = 0x01"

definition CURRENT_VERSION :: int8_t where [layout]: "CURRENT_VERSION = 0"

section \<open>LogBufferDescriptor\<close>

definition CLEAN :: int32_t where [layout]: "CLEAN = 0"

definition NEEDS_CLEANING :: int32_t where [layout]: "NEEDS_CLEANING = 1"

definition TERM_MIN_LENGTH :: index_t where [layout]: "TERM_MIN_LENGTH = 64 * 1024"

definition PARTITION_COUNT :: int32_t where [layout]: "PARTITION_COUNT = 3"

definition TERM_TAIL_COUNTER_OFFSET :: index_t where
  [layout]: "TERM_TAIL_COUNTER_OFFSET = of_nat CACHE_LINE_LENGTH * 2"

definition TERM_STATUS_OFFSET :: index_t where
  [layout]: "TERM_STATUS_OFFSET = (of_nat CACHE_LINE_LENGTH * 2) * 2"

definition TERM_META_DATA_LENGTH :: index_t where
  [layout]: "TERM_META_DATA_LENGTH = (of_nat CACHE_LINE_LENGTH * 2) * 3"

definition LOG_META_DATA_SECTION_INDEX :: index_t where
  [layout]: "LOG_META_DATA_SECTION_INDEX = PARTITION_COUNT * 2"

definition LOG_DEFAULT_FRAME_HEADER_MAX_LENGTH :: index_t where
  [layout]: "LOG_DEFAULT_FRAME_HEADER_MAX_LENGTH = of_nat CACHE_LINE_LENGTH * 2"

text \<open>Offsets and size of the packed \<^verbatim>\<open>LogMetaDataDefn\<close>: two cache-line pairs.\<close>

definition LOG_ACTIVE_TERM_ID_OFFSET :: index_t where [layout]: "LOG_ACTIVE_TERM_ID_OFFSET = 0"

definition LOG_INITIAL_TERM_ID_OFFSET :: index_t where
  [layout]: "LOG_INITIAL_TERM_ID_OFFSET = 2 * of_nat CACHE_LINE_LENGTH"

definition LOG_MTU_LENGTH_OFFSET :: index_t where
  [layout]: "LOG_MTU_LENGTH_OFFSET = 2 * of_nat CACHE_LINE_LENGTH + 8"

definition LOG_DEFAULT_FRAME_HEADERS_OFFSET :: index_t where
  [layout]: "LOG_DEFAULT_FRAME_HEADERS_OFFSET = 4 * of_nat CACHE_LINE_LENGTH"

definition LOG_META_DATA_LENGTH :: index_t where
  [layout]: "LOG_META_DATA_LENGTH =
    LOG_DEFAULT_FRAME_HEADERS_OFFSET + LOG_DEFAULT_FRAME_HEADER_MAX_LENGTH * 3"

definition checkTermLength :: "int64_t \<Rightarrow> (cpu, unit) act" where
  "checkTermLength termLength =
     andThen (guard (sint termLength < sint TERM_MIN_LENGTH) IllegalStateException)
       (guard (termLength AND scast (FRAME_ALIGNMENT - 1) \<noteq> 0) IllegalStateException)"

definition checkMetaDataBuffer :: "abuf \<Rightarrow> (cpu, unit) act" where
  "checkMetaDataBuffer buffer =
     (let capacity = ab_capacity buffer
      in guard (sint capacity < sint TERM_META_DATA_LENGTH) IllegalStateException)"

definition lb_initialTermId :: "abuf \<Rightarrow> (cpu, int32_t) act" where
  "lb_initialTermId logMetaDataBuffer = ab_getInt32 logMetaDataBuffer LOG_INITIAL_TERM_ID_OFFSET"

definition lb_activeTermId :: "abuf \<Rightarrow> (cpu, int32_t) act" where
  "lb_activeTermId logMetaDataBuffer = ab_getInt32 logMetaDataBuffer LOG_ACTIVE_TERM_ID_OFFSET"

definition set_activeTermId :: "abuf \<Rightarrow> int32_t \<Rightarrow> (cpu, unit) act" where
  "set_activeTermId logMetaDataBuffer t = ab_putInt32Ordered logMetaDataBuffer LOG_ACTIVE_TERM_ID_OFFSET t"

definition mtuLength :: "abuf \<Rightarrow> (cpu, int32_t) act" where
  "mtuLength logMetaDataBuffer = ab_getInt32 logMetaDataBuffer LOG_MTU_LENGTH_OFFSET"

definition nextPartitionIndex :: "int32_t \<Rightarrow> nat option" where
  "nextPartitionIndex currentIndex = fastMod3_int (currentIndex + 1)"

definition previousPartitionIndex :: "int32_t \<Rightarrow> nat option" where
  "previousPartitionIndex currentIndex = fastMod3_int (currentIndex + (PARTITION_COUNT - 1))"

definition indexByTerm :: "int32_t \<Rightarrow> int32_t \<Rightarrow> nat option" where
  "indexByTerm initialTermId activeTermId = fastMod3_int (activeTermId - initialTermId)"

definition indexByPosition :: "int64_t \<Rightarrow> int32_t \<Rightarrow> nat option" where
  "indexByPosition position positionBitsToShift = fastMod3 (drop_bit (unat positionBitsToShift) position)"

definition computePosition :: "int32_t \<Rightarrow> int32_t \<Rightarrow> int32_t \<Rightarrow> int32_t \<Rightarrow> int64_t" where
  "computePosition activeTermId termOffset positionBitsToShift initialTermId =
     (let termCount = scast (activeTermId - initialTermId) :: int64_t
      in push_bit (unat positionBitsToShift) termCount + scast termOffset)"

definition computeLogLength :: "int64_t \<Rightarrow> int64_t" where
  "computeLogLength termLength =
     (termLength * scast PARTITION_COUNT) + scast (TERM_META_DATA_LENGTH * PARTITION_COUNT) +
       scast LOG_META_DATA_LENGTH"

definition computeTermLength :: "int64_t \<Rightarrow> int64_t" where
  "computeTermLength logLength =
     (let metaDataSectionLength = scast ((TERM_META_DATA_LENGTH * PARTITION_COUNT) + LOG_META_DATA_LENGTH)
      in word_of_int (sint (logLength - metaDataSectionLength) sdiv 3))"

definition defaultFrameHeader :: "abuf \<Rightarrow> int32_t \<Rightarrow> abuf" where
  "defaultFrameHeader logMetaDataBuffer partitionIndex =
     AtomicBuffer (ab_data logMetaDataBuffer + sint LOG_DEFAULT_FRAME_HEADERS_OFFSET +
       sint (partitionIndex * LOG_DEFAULT_FRAME_HEADER_MAX_LENGTH)) dh_LENGTH"

definition defaultHeaderTermId :: "abuf \<Rightarrow> int32_t \<Rightarrow> int32_t \<Rightarrow> (cpu, unit) act" where
  "defaultHeaderTermId logMetaDataBuffer partitionIndex termId =
     (let headerOffset = LOG_DEFAULT_FRAME_HEADERS_OFFSET + partitionIndex * LOG_DEFAULT_FRAME_HEADER_MAX_LENGTH
      in ab_putInt32 logMetaDataBuffer (headerOffset + TERM_ID_FIELD_OFFSET) termId)"

section \<open>LogBufferPartition\<close>

record partition =
  lp_termBuffer :: abuf
  lp_metaDataBuffer :: abuf

definition LogBufferPartition :: "abuf \<Rightarrow> abuf \<Rightarrow> (cpu, partition) act" where
  "LogBufferPartition termBuffer metaDataBuffer =
     andThen (checkTermLength (scast (ab_capacity termBuffer)))
       (andThen (checkMetaDataBuffer metaDataBuffer)
         (ret \<lparr>lp_termBuffer = termBuffer, lp_metaDataBuffer = metaDataBuffer\<rparr>))"

definition statusOrdered :: "'a partition_scheme \<Rightarrow> int32_t \<Rightarrow> (cpu, unit) act" where
  "statusOrdered p status = ab_putInt32Ordered (lp_metaDataBuffer p) TERM_STATUS_OFFSET status"

definition clean :: "'a partition_scheme \<Rightarrow> (cpu, unit) act" where
  "clean p =
     andThen (ab_setMemory (lp_termBuffer p) 0 (scast (ab_capacity (lp_termBuffer p))) 0)
       (andThen (ab_setMemory (lp_metaDataBuffer p) 0 (scast (ab_capacity (lp_metaDataBuffer p))) 0)
         (statusOrdered p CLEAN))"

definition lp_status :: "'a partition_scheme \<Rightarrow> (cpu, int32_t) act" where
  "lp_status p = ab_getInt32Volatile (lp_metaDataBuffer p) TERM_STATUS_OFFSET"

definition min_index :: "index_t \<Rightarrow> index_t \<Rightarrow> index_t" where
  "min_index a b = (if sint b < sint a then b else a)"

definition tailVolatile :: "'a partition_scheme \<Rightarrow> (cpu, int32_t) act" where
  "tailVolatile p =
     bind (ab_getInt32Volatile (lp_metaDataBuffer p) TERM_TAIL_COUNTER_OFFSET)
       (\<lambda>t. ret (min_index t (ab_capacity (lp_termBuffer p))))"

definition rawTailVolatile :: "'a partition_scheme \<Rightarrow> (cpu, int32_t) act" where
  "rawTailVolatile p = ab_getInt32Volatile (lp_metaDataBuffer p) TERM_TAIL_COUNTER_OFFSET"

definition lp_tail :: "'a partition_scheme \<Rightarrow> (cpu, int32_t) act" where
  "lp_tail p =
     bind (ab_getInt32 (lp_metaDataBuffer p) TERM_TAIL_COUNTER_OFFSET)
       (\<lambda>t. ret (min_index t (ab_capacity (lp_termBuffer p))))"

section \<open>Header\<close>

record header =
  h_buffer :: abuf
  h_offset :: index_t
  h_initialTermId :: int32_t
  h_positionBitsToShift :: int32_t

definition Header :: "int32_t \<Rightarrow> index_t \<Rightarrow> header" where
  "Header initialTermId capacity =
     \<lparr>h_buffer = AtomicBuffer_empty, h_offset = 0, h_initialTermId = initialTermId,
      h_positionBitsToShift = of_nat (numberOfTrailingZeroes capacity)\<rparr>"

definition hd_initialTermId :: "header \<Rightarrow> int32_t" where
  "hd_initialTermId h = h_initialTermId h"

definition hd_setInitialTermId :: "int32_t \<Rightarrow> header \<Rightarrow> header" where
  "hd_setInitialTermId t h = h\<lparr>h_initialTermId := t\<rparr>"

definition hd_offset :: "header \<Rightarrow> index_t" where
  "hd_offset h = h_offset h"

definition hd_setOffset :: "index_t \<Rightarrow> header \<Rightarrow> header" where
  "hd_setOffset i h = h\<lparr>h_offset := i\<rparr>"

definition hd_buffer :: "header \<Rightarrow> abuf" where
  "hd_buffer h = h_buffer h"

definition hd_setBuffer :: "abuf \<Rightarrow> header \<Rightarrow> header" where
  "hd_setBuffer b h = h\<lparr>h_buffer := wrap_buffer b (h_buffer h)\<rparr>"

definition hd_frameLength :: "header \<Rightarrow> (cpu, int32_t) act" where
  "hd_frameLength h = ab_getInt32 (h_buffer h) (h_offset h)"

definition hd_sessionId :: "header \<Rightarrow> (cpu, int32_t) act" where
  "hd_sessionId h = ab_getInt32 (h_buffer h) (h_offset h + SESSION_ID_FIELD_OFFSET)"

definition hd_streamId :: "header \<Rightarrow> (cpu, int32_t) act" where
  "hd_streamId h = ab_getInt32 (h_buffer h) (h_offset h + STREAM_ID_FIELD_OFFSET)"

definition hd_termId :: "header \<Rightarrow> (cpu, int32_t) act" where
  "hd_termId h = ab_getInt32 (h_buffer h) (h_offset h + TERM_ID_FIELD_OFFSET)"

definition hd_termOffset :: "header \<Rightarrow> int32_t" where
  "hd_termOffset h = h_offset h"

definition hd_type :: "header \<Rightarrow> (cpu, 16 word) act" where
  "hd_type h = ab_getUInt16 (h_buffer h) (h_offset h + TYPE_FIELD_OFFSET)"

definition hd_flags :: "header \<Rightarrow> (cpu, byte) act" where
  "hd_flags h = ab_getUInt8 (h_buffer h) (h_offset h + FLAGS_FIELD_OFFSET)"

definition hd_position :: "header \<Rightarrow> (cpu, int64_t) act" where
  "hd_position h =
     bind (hd_termId h) (\<lambda>termId. bind (hd_frameLength h) (\<lambda>frameLength.
       ret (computePosition termId (hd_termOffset h + frameLength) (h_positionBitsToShift h) (h_initialTermId h))))"

section \<open>BufferClaim\<close>

text \<open>The object is the buffer it wraps.\<close>

definition bc_wrap :: "addr \<Rightarrow> index_t \<Rightarrow> abuf \<Rightarrow> abuf" where
  "bc_wrap buffer len claim = wrap buffer len claim"

definition bc_wrap_at :: "abuf \<Rightarrow> index_t \<Rightarrow> index_t \<Rightarrow> abuf \<Rightarrow> abuf" where
  "bc_wrap_at buffer offset len claim = wrap (ab_data buffer + sint offset) len claim"

definition bc_offset :: "abuf \<Rightarrow> index_t" where
  "bc_offset claim = dh_LENGTH"

definition bc_length :: "abuf \<Rightarrow> index_t" where
  "bc_length claim = ab_capacity claim - dh_LENGTH"

definition commit :: "abuf \<Rightarrow> (cpu, unit) act" where
  "commit claim = ab_putInt32Ordered claim 0 (ab_capacity claim)"

section \<open>Positions and partitions\<close>

lemma fastMod3_int_nat: "n < 2 ^ 31 \<Longrightarrow> fastMod3_int (of_nat n) = Some (n mod 3)"
  using fastMod3_int_mod[of "of_nat n"] sint_of_nat32[of n] by (simp add: unat_of_nat)

lemma computePosition_nat:
  assumes "k \<le> 30" "n < 2 ^ 31" "off \<le> 2 ^ k"
  shows "computePosition (t0 + of_nat n) (of_nat off) (of_nat k) t0 = of_nat (n * 2 ^ k + off)"
proof -
  have "(2::nat) ^ k \<le> 2 ^ 30" using assms(1) by (intro power_increasing) simp_all
  then have "off < 2 ^ 31" using assms(3) by simp
  moreover have "unat (of_nat k :: int32_t) = k" using assms(1) by (simp add: unat_of_nat)
  ultimately show ?thesis
    using assms(2) by (simp add: computePosition_def scast_of_nat push_bit_eq_mult)
qed

lemma and_7_iff: "n < 2 ^ LENGTH('a) \<Longrightarrow> (of_nat n :: 'a::len word) AND 7 = 0 \<longleftrightarrow> 8 dvd n"
proof -
  assume n: "n < 2 ^ LENGTH('a)"
  have "(of_nat n :: 'a word) AND 7 = of_nat (n mod 8)"
    using and_mask_take_bit[of "of_nat n :: 'a word" 3] take_bit_of_nat_word[of 3 n, where 'a = 'a]
    by (simp add: mask_numeral)
  moreover have "n mod 8 < 2 ^ LENGTH('a)" using n mod_less_eq_dividend[of n 8] by linarith
  ultimately show ?thesis by (auto simp: word_of_nat_eq_0_iff dvd_eq_mod_eq_0 dest: nat_dvd_not_less)
qed

lemma unat_position:
  assumes "k \<le> 30" "n < 2 ^ 31" "off \<le> 2 ^ k"
  shows "unat (of_nat (n * 2 ^ k + off) :: int64_t) = n * 2 ^ k + off" "sint (of_nat (n * 2 ^ k + off) :: int64_t) = int (n * 2 ^ k + off)"
proof -
  have k: "(2::nat) ^ k \<le> 2 ^ 30" using assms(1) by (intro power_increasing) simp_all
  have "n * 2 ^ k \<le> (2 ^ 31 - 1) * 2 ^ 30" using assms(2) k by (intro mult_le_mono) simp_all
  then have "n * 2 ^ k + off < 2 ^ 63" using assms(3) k by simp
  then show "sint (of_nat (n * 2 ^ k + off) :: int64_t) = int (n * 2 ^ k + off)" by (rule sint_of_nat64)
  show "unat (of_nat (n * 2 ^ k + off) :: int64_t) = n * 2 ^ k + off"
    using \<open>n * 2 ^ k + off < 2 ^ 63\<close> by (intro unat_of_nat_small) simp
qed

lemma indexByPosition_nat:
  assumes "k \<le> 30" "n < 2 ^ 31 - 2" "off < 2 ^ k"
  shows "indexByPosition (of_nat (n * 2 ^ k + off)) (of_nat k) = Some (n mod 3)"
proof -
  have "n < 2 ^ 31" using assms(2) by simp
  note u = unat_position(1)[OF assms(1) this less_imp_le[OF assms(3)]]
  have d: "unat (drop_bit k (of_nat (n * 2 ^ k + off) :: int64_t)) = n"
    using assms(3) by (simp only: unat_drop_bit_eq u) (simp add: drop_bit_eq_div)
  then show ?thesis
    using fastMod3_mod[of "drop_bit k (of_nat (n * 2 ^ k + off) :: int64_t)"] assms(1,2) d
    by (simp only: indexByPosition_def) (simp add: unat_of_nat)
qed

lemma indexByTerm_nat: "n < 2 ^ 31 \<Longrightarrow> indexByTerm t0 (t0 + of_nat n) = Some (n mod 3)"
  using fastMod3_int_nat[of n] by (simp add: indexByTerm_def)

lemma nextPartitionIndex_nat: "nextPartitionIndex (of_nat (n mod 3)) = Some ((n + 1) mod 3)"
  using fastMod3_int_nat[of "n mod 3 + 1"] by (simp add: nextPartitionIndex_def mod_Suc_eq add.commute)

lemma previousPartitionIndex_nat: "previousPartitionIndex (of_nat ((n + 1) mod 3)) = Some (n mod 3)"
proof -
  have "((n + 1) mod 3 + 2) mod 3 = n mod 3" by presburger
  then show ?thesis using fastMod3_int_nat[of "(n + 1) mod 3 + 2"]
    by (simp add: previousPartitionIndex_def layout add.commute)
qed

lemma computeTermLength_nat:
  assumes "len < 2 ^ 60"
  shows "computeTermLength (of_nat (3 * len + 1792)) = of_nat len"
    "computeLogLength (of_nat len) = of_nat (3 * len + 1792)"
proof -
  have "sint (of_nat (3 * len) :: int64_t) = int (3 * len)" using assms by (intro sint_of_nat64) simp
  moreover have "(3 * int len) sdiv 3 = int len" by (cases "len = 0") (simp_all add: signed_divide_int_def)
  ultimately show "computeTermLength (of_nat (3 * len + 1792)) = of_nat len"
    by (simp add: computeTermLength_def Let_def layout)
  show "computeLogLength (of_nat len) = of_nat (3 * len + 1792)"
    by (simp add: computeLogLength_def layout mult.commute)
qed

text \<open>
  Positions identify partitions: with terms of \<open>2 ^ k\<close> bytes, the position of offset \<open>off\<close> in the
  \<open>n\<close>-th term after the initial one is \<open>n * 2 ^ k + off\<close>; the partition looked up from the term id
  and the one looked up from the position are the same, \<open>n mod 3\<close>; the partitions follow each
  other in a ring of three; and the term length is recovered from the length of the log.
\<close>

theorem position_partition:
  fixes t0 :: int32_t
  assumes "k \<le> 30" "n < 2 ^ 31 - 2" "off < 2 ^ k" "len < 2 ^ 60"
  defines "pos \<equiv> computePosition (t0 + of_nat n) (of_nat off) (of_nat k) t0"
  shows "pos = of_nat (n * 2 ^ k + off) \<and>
    indexByTerm t0 (t0 + of_nat n) = Some (n mod 3) \<and> indexByPosition pos (of_nat k) = Some (n mod 3) \<and>
    nextPartitionIndex (of_nat (n mod 3)) = Some ((n + 1) mod 3) \<and>
    previousPartitionIndex (of_nat ((n + 1) mod 3)) = Some (n mod 3) \<and>
    computeTermLength (computeLogLength (of_nat len)) = of_nat len"
proof -
  have n: "n < 2 ^ 31" using assms(2) by simp
  have p: "pos = of_nat (n * 2 ^ k + off)" unfolding pos_def using assms n by (intro computePosition_nat) simp_all
  show ?thesis
    unfolding p computeTermLength_nat[OF assms(4)] indexByPosition_nat[OF assms(1-3)] indexByTerm_nat[OF n]
      nextPartitionIndex_nat previousPartitionIndex_nat by simp
qed

theorem position_partition_witness:
  "computePosition 12 4096 16 7 = 331776 \<and> indexByPosition (computePosition 12 4096 16 7) 16 = Some 2"
  using position_partition[where k = 16 and n = 5 and off = 4096 and len = 65536 and ?t0.0 = 7]
  by simp metis

end
