(* ===== verification/TermBuffer.thy ===== *)
theory TermBuffer
  imports LogBuffer
begin

text \<open>
  \<^verbatim>\<open>TermAppender.h\<close>: messages are appended to a term as frames, split over several frames when
  they exceed the payload of one; a term without room for a message is closed by a padding frame.

  \<open>frame_at\<close> describes one committed frame, \<open>frames\<close> the frames between two offsets of a term;
  the lemmas say how appending extends them.
\<close>

section \<open>TermAppender\<close>

definition TERM_APPENDER_TRIPPED :: int32_t where [layout]: "TERM_APPENDER_TRIPPED = - 1"

definition TERM_APPENDER_FAILED :: int32_t where [layout]: "TERM_APPENDER_FAILED = - 2"

record appender = partition +
  ta_defaultHdr :: addr
  ta_maxMessageLength :: index_t
  ta_maxFrameLength :: index_t
  ta_maxPayloadLength :: index_t

definition TermAppender :: "abuf \<Rightarrow> abuf \<Rightarrow> abuf \<Rightarrow> index_t \<Rightarrow> (cpu, appender) act" where
  "TermAppender termBuffer metaDataBuffer defaultHdr maxFrameLength =
     bind (LogBufferPartition termBuffer metaDataBuffer) (\<lambda>p.
     andThen (checkHeaderLength (ab_capacity defaultHdr))
     (andThen (checkMaxFrameLength maxFrameLength)
     (ret \<lparr>lp_termBuffer = lp_termBuffer p, lp_metaDataBuffer = lp_metaDataBuffer p,
           ta_defaultHdr = ab_data defaultHdr,
           ta_maxMessageLength = computeMaxMessageLength (ab_capacity termBuffer),
           ta_maxFrameLength = maxFrameLength,
           ta_maxPayloadLength = maxFrameLength - dh_LENGTH\<rparr>)))"

definition applyDefaultHeader :: "abuf \<Rightarrow> index_t \<Rightarrow> index_t \<Rightarrow> addr \<Rightarrow> (cpu, unit) act" where
  "applyDefaultHeader buffer frameOffset frameLength defaultHeaderBuffer =
     andThen (ab_putInt32 buffer frameOffset (- frameLength))
     (andThen (poke thread_fence)
     (poke (\<lambda>c. emit_bytes c (ab_data buffer + 4 + sint frameOffset)
        (load c (defaultHeaderBuffer + 4) (size_of (dh_LENGTH - 4))))))"

definition computeResultingOffset :: "appender \<Rightarrow> abuf \<Rightarrow> index_t \<Rightarrow> index_t \<Rightarrow> index_t \<Rightarrow> (cpu, int32_t) act" where
  "computeResultingOffset ta termBuffer frameOffset len capacity =
     (let resultingOffset = frameOffset + len
      in if sint resultingOffset > sint (capacity - dh_LENGTH)
         then if sint frameOffset \<le> sint (capacity - dh_LENGTH)
              then let frameLength = capacity - frameOffset
                   in andThen (applyDefaultHeader termBuffer frameOffset frameLength (ta_defaultHdr ta))
                     (andThen (frameType termBuffer frameOffset PADDING_FRAME_TYPE)
                     (andThen (frameTermOffset termBuffer frameOffset frameOffset)
                     (andThen (frameLengthOrdered termBuffer frameOffset frameLength)
                     (ret TERM_APPENDER_TRIPPED))))
              else ret TERM_APPENDER_FAILED
         else ret resultingOffset)"

definition appendUnfragmentedMessage :: "appender \<Rightarrow> abuf \<Rightarrow> index_t \<Rightarrow> index_t \<Rightarrow> (cpu, int32_t) act" where
  "appendUnfragmentedMessage ta srcBuffer srcOffset len =
     (let frameLength = len + dh_LENGTH;
          alignedLength = align frameLength FRAME_ALIGNMENT;
          buffer = lp_termBuffer ta
      in bind (ab_getAndAddInt32 (lp_metaDataBuffer ta) TERM_TAIL_COUNTER_OFFSET alignedLength) (\<lambda>frameOffset.
         bind (computeResultingOffset ta buffer frameOffset alignedLength (ab_capacity buffer)) (\<lambda>resultingOffset.
         andThen
           (if sint resultingOffset > 0
            then andThen (applyDefaultHeader buffer frameOffset frameLength (ta_defaultHdr ta))
              (andThen (ab_putBytes buffer (frameOffset + dh_LENGTH) srcBuffer srcOffset len)
              (andThen (frameTermOffset buffer frameOffset frameOffset)
              (frameLengthOrdered buffer frameOffset frameLength)))
            else ret ())
           (ret resultingOffset))))"

text \<open>The body of the loop that writes the fragments, and the loop.\<close>

definition writeFragment :: "appender \<Rightarrow> abuf \<Rightarrow> index_t \<Rightarrow> index_t \<Rightarrow> index_t \<Rightarrow> byte \<Rightarrow> index_t \<Rightarrow> (cpu, unit) act" where
  "writeFragment ta srcBuffer srcOffset len frameOffset flags remaining =
     (let buffer = lp_termBuffer ta;
          bytesToWrite = min_index remaining (ta_maxPayloadLength ta);
          frameLength = bytesToWrite + dh_LENGTH
      in andThen (applyDefaultHeader buffer frameOffset frameLength (ta_defaultHdr ta))
        (andThen (ab_putBytes buffer (frameOffset + dh_LENGTH) srcBuffer (srcOffset + (len - remaining)) bytesToWrite)
        (let flags = (if sint remaining \<le> sint (ta_maxPayloadLength ta) then flags OR END_FRAG else flags)
         in andThen (frameFlags buffer frameOffset flags)
           (andThen (frameTermOffset buffer frameOffset frameOffset)
           (frameLengthOrdered buffer frameOffset frameLength)))))"

partial_function (option) fragment_loop ::
    "appender \<Rightarrow> abuf \<Rightarrow> index_t \<Rightarrow> index_t \<Rightarrow> index_t \<Rightarrow> byte \<Rightarrow> index_t \<Rightarrow> cpu \<Rightarrow> ((exn + unit) \<times> cpu) option" where
  "fragment_loop ta srcBuffer srcOffset len frameOffset flags remaining c =
     (case writeFragment ta srcBuffer srcOffset len frameOffset flags remaining c of
        (Inl e, c) \<Rightarrow> Some (Inl e, c)
      | (Inr _, c) \<Rightarrow>
          (let bytesToWrite = min_index remaining (ta_maxPayloadLength ta);
               alignedLength = align (bytesToWrite + dh_LENGTH) FRAME_ALIGNMENT;
               remaining = remaining - bytesToWrite
           in if sint remaining > 0
              then fragment_loop ta srcBuffer srcOffset len (frameOffset + alignedLength) 0 remaining c
              else Some (Inr (), c)))"

definition requiredLength :: "appender \<Rightarrow> index_t \<Rightarrow> index_t" where
  "requiredLength ta len =
     (let numMaxPayloads = word_of_int (sint len sdiv sint (ta_maxPayloadLength ta));
          remainingPayload = word_of_int (sint len smod sint (ta_maxPayloadLength ta));
          lastFrameLength = (if sint remainingPayload > 0
            then align (remainingPayload + dh_LENGTH) FRAME_ALIGNMENT else 0)
      in numMaxPayloads * ta_maxFrameLength ta + lastFrameLength)"

definition appendFragmentedMessage ::
    "appender \<Rightarrow> abuf \<Rightarrow> index_t \<Rightarrow> index_t \<Rightarrow> cpu \<Rightarrow> ((exn + int32_t) \<times> cpu) option" where
  "appendFragmentedMessage ta srcBuffer srcOffset len c =
     (let buffer = lp_termBuffer ta; required = requiredLength ta len
      in case bind (ab_getAndAddInt32 (lp_metaDataBuffer ta) TERM_TAIL_COUNTER_OFFSET required) (\<lambda>frameOffset.
              bind (computeResultingOffset ta buffer frameOffset required (ab_capacity buffer)) (\<lambda>resultingOffset.
              ret (frameOffset, resultingOffset))) c of
           (Inl e, c) \<Rightarrow> Some (Inl e, c)
         | (Inr (frameOffset, resultingOffset), c) \<Rightarrow>
             if sint resultingOffset > 0
             then case fragment_loop ta srcBuffer srcOffset len frameOffset BEGIN_FRAG len c of
                    None \<Rightarrow> None
                  | Some (Inl e, c) \<Rightarrow> Some (Inl e, c)
                  | Some (Inr _, c) \<Rightarrow> Some (Inr resultingOffset, c)
             else Some (Inr resultingOffset, c))"

definition append_message :: "appender \<Rightarrow> abuf \<Rightarrow> index_t \<Rightarrow> index_t \<Rightarrow> cpu \<Rightarrow> ((exn + int32_t) \<times> cpu) option" where
  "append_message ta srcBuffer offset len c =
     (if sint len \<le> sint (ta_maxPayloadLength ta)
      then Some (appendUnfragmentedMessage ta srcBuffer offset len c)
      else if sint len > sint (ta_maxMessageLength ta) then Some (Inl IllegalArgumentException, c)
      else appendFragmentedMessage ta srcBuffer offset len c)"

text \<open>The claim returns the resulting offset and the claimed buffer, unchanged when the claim fails.\<close>

definition claim :: "appender \<Rightarrow> index_t \<Rightarrow> abuf \<Rightarrow> (cpu, int32_t \<times> abuf) act" where
  "claim ta len bufferClaim =
     andThen (guard (sint len > sint (ta_maxPayloadLength ta)) IllegalArgumentException)
     (let frameLength = len + dh_LENGTH;
          alignedLength = align frameLength FRAME_ALIGNMENT;
          buffer = lp_termBuffer ta
      in bind (ab_getAndAddInt32 (lp_metaDataBuffer ta) TERM_TAIL_COUNTER_OFFSET alignedLength) (\<lambda>frameOffset.
         bind (computeResultingOffset ta buffer frameOffset alignedLength (ab_capacity buffer)) (\<lambda>resultingOffset.
         if sint resultingOffset > 0
         then andThen (applyDefaultHeader buffer frameOffset frameLength (ta_defaultHdr ta))
           (andThen (frameTermOffset buffer frameOffset frameOffset)
           (ret (resultingOffset, bc_wrap_at buffer frameOffset frameLength bufferClaim)))
         else ret (resultingOffset, bufferClaim))))"

section \<open>Frames in a term\<close>

text \<open>A data frame with its flags and payload, or the padding that closes a term.\<close>

datatype frame = Data byte "byte list" | Padding nat

fun frame_length :: "frame \<Rightarrow> nat" where
  "frame_length (Data fl bs) = 24 + length bs"
| "frame_length (Padding n) = n"

fun frame_payload :: "frame \<Rightarrow> byte list" where
  "frame_payload (Data fl bs) = bs"
| "frame_payload (Padding n) = []"

definition frame_size :: "frame \<Rightarrow> nat" where
  "frame_size f = (frame_length f + 7) div 8 * 8"

text \<open>\<open>ids\<close> are the session, stream and term of the log, taken from its default header.\<close>

definition frame_at :: "addr \<Rightarrow> byte list \<Rightarrow> mem \<Rightarrow> nat \<Rightarrow> frame \<Rightarrow> bool" where
  "frame_at base ids m off f \<longleftrightarrow> 24 \<le> frame_length f \<and>
     dec (read_bytes m (base + int off) 4) = (of_nat (frame_length f) :: int32_t) \<and>
     (case f of
        Data fl bs \<Rightarrow> read_bytes m (base + int off + 5) 1 = [fl] \<and>
          dec (read_bytes m (base + int off + 6) 2) \<noteq> (0 :: 16 word)
      | Padding n \<Rightarrow> 8 dvd n \<and> dec (read_bytes m (base + int off + 6) 2) = (0 :: 16 word)) \<and>
     dec (read_bytes m (base + int off + 8) 4) = (of_nat off :: int32_t) \<and>
     read_bytes m (base + int off + 12) 12 = ids \<and>
     read_bytes m (base + int off + 24) (length (frame_payload f)) = frame_payload f"

fun frames :: "addr \<Rightarrow> byte list \<Rightarrow> mem \<Rightarrow> nat \<Rightarrow> frame list \<Rightarrow> nat \<Rightarrow> bool" where
  "frames base ids m p [] q \<longleftrightarrow> p = q"
| "frames base ids m p (f # fs) q \<longleftrightarrow> frame_at base ids m p f \<and> frames base ids m (p + frame_size f) fs q"

definition sizes :: "frame list \<Rightarrow> nat" where
  "sizes fs = sum_list (map frame_size fs)"

lemma sizes_simps [simp]: "sizes [] = 0" "sizes (f # fs) = frame_size f + sizes fs" "sizes (fs @ gs) = sizes fs + sizes gs"
  by (simp_all add: sizes_def)

lemma frame_size_bounds: "frame_length f \<le> frame_size f" "frame_size f < frame_length f + 8" "8 dvd frame_size f"
  using align_facts[where n = "frame_length f" and k = 3] by (simp_all add: frame_size_def)

lemma frame_at_bounds:
  assumes "frame_at base ids m off f"
  shows "24 \<le> frame_size f" "24 + length (frame_payload f) \<le> frame_size f"
  using assms frame_size_bounds(1)[of f] by (cases f; simp add: frame_at_def)+

lemma frames_end: "frames base ids m p fs q \<Longrightarrow> q = p + sizes fs"
  by (induction fs arbitrary: p) (fastforce simp: ac_simps)+

lemma frames_append:
  "frames base ids m p (fs @ gs) q \<longleftrightarrow> frames base ids m p fs (p + sizes fs) \<and> frames base ids m (p + sizes fs) gs q"
  by (induction fs arbitrary: p) (auto simp: add.assoc)

lemma frames_dvd: "frames base ids m p fs q \<Longrightarrow> 8 dvd p \<Longrightarrow> 8 dvd q"
  by (induction fs arbitrary: p) (auto intro: dvd_add simp: frame_size_bounds(3))

text \<open>Frames depend on the bytes between their offsets only.\<close>

lemma frame_at_cong:
  assumes "frame_at base ids m off f" "\<And>x. base + int off \<le> x \<Longrightarrow> x < base + int (off + frame_size f) \<Longrightarrow> m' x = m x"
  shows "frame_at base ids m' off f"
proof -
  note b = frame_at_bounds[OF assms(1)]
  have r: "read_bytes m' (base + int off + int j) n = read_bytes m (base + int off + int j) n"
    if "j + n \<le> frame_size f" for j n
    using that by (intro read_bytes_cong assms(2)) auto
  show ?thesis
    using assms(1) b r[of 0 4] r[of 5 1] r[of 6 2] r[of 8 4] r[of 12 12] r[of 24 "length (frame_payload f)"]
    by (simp add: frame_at_def split: frame.splits)
qed

lemma frames_cong:
  assumes "frames base ids m p fs q" "\<And>x. base + int p \<le> x \<Longrightarrow> x < base + int q \<Longrightarrow> m' x = m x"
  shows "frames base ids m' p fs q"
  using assms
proof (induction fs arbitrary: p)
  case (Cons f fs)
  have le: "p + frame_size f \<le> q" using frames_end[of base ids m "p + frame_size f" fs q] Cons.prems(1) by simp
  have "frame_at base ids m' p f"
  proof (rule frame_at_cong)
    show "frame_at base ids m p f" using Cons.prems(1) by simp
    show "m' x = m x" if "base + int p \<le> x" "x < base + int (p + frame_size f)" for x
      using that le by (intro Cons.prems(2)) linarith+
  qed
  moreover have "frames base ids m' (p + frame_size f) fs q"
  proof (rule Cons.IH)
    show "frames base ids m (p + frame_size f) fs q" using Cons.prems(1) by simp
    show "m' x = m x" if "base + int (p + frame_size f) \<le> x" "x < base + int q" for x
      using that by (intro Cons.prems(2)) linarith+
  qed
  ultimately show ?case by simp
qed simp

section \<open>Well-formed appenders\<close>

definition apart_ranges :: "addr \<Rightarrow> nat \<Rightarrow> addr \<Rightarrow> nat \<Rightarrow> bool" where
  "apart_ranges a n b m \<longleftrightarrow> a + int n \<le> b \<or> b + int m \<le> a"

abbreviation term_base :: "appender \<Rightarrow> addr" where
  "term_base ta \<equiv> ab_buffer (lp_termBuffer ta)"

abbreviation tail_addr :: "appender \<Rightarrow> addr" where
  "tail_addr ta \<equiv> ab_buffer (lp_metaDataBuffer ta) + 128"

definition wf_appender :: "nat \<Rightarrow> nat \<Rightarrow> appender \<Rightarrow> bool" where
  "wf_appender cap F ta \<longleftrightarrow> 65536 \<le> cap \<and> cap \<le> 2 ^ 30 \<and> 8 dvd cap \<and> 24 < F \<and> F \<le> cap \<and> 8 dvd F \<and>
     ab_length (lp_termBuffer ta) = of_nat cap \<and> 384 \<le> sint (ab_length (lp_metaDataBuffer ta)) \<and>
     ta_maxFrameLength ta = of_nat F \<and> ta_maxPayloadLength ta = of_nat (F - 24) \<and>
     ta_maxMessageLength ta = of_nat (cap div 8) \<and>
     apart_ranges (term_base ta) cap (tail_addr ta) 4 \<and>
     apart_ranges (term_base ta) cap (ta_defaultHdr ta) 24 \<and>
     apart_ranges (tail_addr ta) 4 (ta_defaultHdr ta) 24"

text \<open>The default header: session, stream and term ids, flags, and the type of a data frame.\<close>

definition default_header :: "appender \<Rightarrow> mem \<Rightarrow> byte list \<Rightarrow> byte \<Rightarrow> bool" where
  "default_header ta m ids fl \<longleftrightarrow> read_bytes m (ta_defaultHdr ta + 12) 12 = ids \<and>
     read_bytes m (ta_defaultHdr ta + 5) 1 = [fl] \<and>
     dec (read_bytes m (ta_defaultHdr ta + 6) 2) \<noteq> (0 :: 16 word)"

lemma term_index:
  assumes "wf_appender cap F ta" "off + n \<le> cap"
  shows "in_range (lp_termBuffer ta) (of_nat off) n" "at (lp_termBuffer ta) (of_nat off) = term_base ta + int off"
    "sint (of_nat off :: index_t) = int off"
proof -
  have c: "cap \<le> 1073741824" using assms(1) by (simp add: wf_appender_def)
  then show s: "sint (of_nat off :: index_t) = int off" using assms(2) by (intro sint_of_nat32) simp
  have "sint (ab_length (lp_termBuffer ta)) = int cap"
    using assms(1) c sint_of_nat32[of cap] by (simp add: wf_appender_def)
  then show "in_range (lp_termBuffer ta) (of_nat off) n" using assms(2) by (simp add: in_range_def s)
  show "at (lp_termBuffer ta) (of_nat off) = term_base ta + int off" by (simp only: at_def s)
qed

lemma term_field:
  assumes "wf_appender cap F ta" "off + j + n \<le> cap"
  shows "in_range (lp_termBuffer ta) (of_nat off + of_nat j) n"
    "at (lp_termBuffer ta) (of_nat off + of_nat j) = term_base ta + int off + int j"
  using term_index[OF assms(1), of "off + j" n] assms(2) by simp_all

lemma tail_add:
  assumes wf: "wf_appender cap F ta" and t: "get_le 4 c (tail_addr ta) = (of_nat T :: int32_t)"
  obtains c1 where "ab_getAndAddInt32 (lp_metaDataBuffer ta) TERM_TAIL_COUNTER_OFFSET (of_nat R) c = (Inr (of_nat T), c1)"
    "view c1 = write_bytes (view c) (tail_addr ta) (enc 4 (of_nat (T + R) :: int32_t))"
proof -
  have r: "in_range (lp_metaDataBuffer ta) 128 4" using wf by (simp add: in_range_def wf_appender_def)
  have a: "at (lp_metaDataBuffer ta) 128 = tail_addr ta" by (simp add: at_def)
  have "get_le 4 (drain c) (tail_addr ta) = (of_nat T :: int32_t)" using t by (simp add: get_le_def load_def mem_simps)
  then show thesis
    using that r by (simp add: ab_getAndAddInt32_def layout a atomic_getAndAddInt32_def Let_def view_def drain_def
        del: enc_numeral)
qed

section \<open>Writing a frame\<close>

lemma applyDefaultHeader_spec:
  assumes wf: "wf_appender cap F ta" and off: "off + 24 \<le> cap"
  obtains c' where "applyDefaultHeader (lp_termBuffer ta) (of_nat off) v (ta_defaultHdr ta) c = (Inr (), c')"
    "view c' = write_bytes (write_bytes (view c) (term_base ta + int off) (enc 4 (- v)))
       (term_base ta + int off + 4) (read_bytes (view c) (ta_defaultHdr ta + 4) 20)"
proof -
  let ?a = "term_base ta + int off"
  have r: "in_range (lp_termBuffer ta) (of_nat off) 4" using term_index(1)[OF wf, of off 4] off by simp
  have a: "at (lp_termBuffer ta) (of_nat off) = ?a" "sint (of_nat off :: index_t) = int off"
    using term_index(2,3)[OF wf, of off 24] off by simp_all
  have sz: "size_of (dh_LENGTH - 4) = 20" by (simp add: layout size_of_def)
  let ?c1 = "put_le 4 c ?a (- v)"
  have "ta_defaultHdr ta + 4 + int 20 \<le> ?a \<or> ?a + int (length (enc 4 (- v))) \<le> ta_defaultHdr ta + 4"
    using wf off by (auto simp: wf_appender_def apart_ranges_def)
  then have "load ?c1 (ta_defaultHdr ta + 4) 20 = read_bytes (view c) (ta_defaultHdr ta + 4) 20"
    unfolding load_def view_put_le by (rule read_write_disjoint)
  then show thesis
    using that[of "emit_bytes ?c1 (?a + 4) (read_bytes (view c) (ta_defaultHdr ta + 4) 20)"] r
    by (simp add: applyDefaultHeader_def ab_ok a sz ab_data_def thread_fence_def mem_simps algebra_simps
        del: enc_numeral)
qed

text \<open>What the copy of the default header leaves in the frame.\<close>

lemma header_copied:
  fixes v :: int32_t and a :: addr
  assumes "default_header ta m ids fl"
  defines "m' \<equiv> write_bytes (write_bytes m a (enc 4 v)) (a + 4) (read_bytes m (ta_defaultHdr ta + 4) 20)"
  shows "read_bytes m' (a + 12) 12 = ids" "read_bytes m' (a + 5) 1 = [fl]"
    "dec (read_bytes m' (a + 6) 2) \<noteq> (0 :: 16 word)"
proof -
  have "read_bytes m' (a + 4 + int j) n = read_bytes m (ta_defaultHdr ta + 4 + int j) n" if "j + n \<le> 20" for j n
    using that unfolding m'_def
    by (subst read_write_inside) (simp_all add: read_bytes_sub del: enc_numeral)
  from this[of 8 12] this[of 1 1] this[of 2 2] assms(1)
  show "read_bytes m' (a + 12) 12 = ids" "read_bytes m' (a + 5) 1 = [fl]"
    "dec (read_bytes m' (a + 6) 2) \<noteq> (0 :: 16 word)"
    by (simp_all add: default_header_def add.commute)
qed

text \<open>The last two stores of every frame: its offset in the term and then its length.\<close>

definition sealed :: "mem \<Rightarrow> addr \<Rightarrow> nat \<Rightarrow> nat \<Rightarrow> mem" where
  "sealed m a off n =
     write_bytes (write_bytes m (a + 8) (enc 4 (of_nat off :: int32_t))) a (enc 4 (of_nat n :: int32_t))"

lemma sealed_outside: "x < a \<or> a + 12 \<le> x \<Longrightarrow> sealed m a off n x = m x"
  by (auto simp: sealed_def write_bytes_def)

lemma sealed_frame:
  assumes "a = base + int off" "24 \<le> frame_length f" "read_bytes m (a + 12) 12 = ids"
    "read_bytes m (a + 24) (length (frame_payload f)) = frame_payload f"
    "case f of Data fl bs \<Rightarrow> read_bytes m (a + 5) 1 = [fl] \<and> dec (read_bytes m (a + 6) 2) \<noteq> (0 :: 16 word)
     | Padding n \<Rightarrow> 8 dvd n \<and> dec (read_bytes m (a + 6) 2) = (0 :: 16 word)"
  shows "frame_at base ids (sealed m a off (frame_length f)) off f"
  using assms
  by (cases f) (auto simp: frame_at_def sealed_def mem_simps dec_enc simp del: enc_numeral of_nat_add)

lemma seal_spec:
  assumes wf: "wf_appender cap F ta" and off: "off + 24 \<le> cap"
  obtains c' where "andThen (frameTermOffset (lp_termBuffer ta) (of_nat off) (of_nat off))
      (frameLengthOrdered (lp_termBuffer ta) (of_nat off) (of_nat n)) c = (Inr (), c')"
    "view c' = sealed (view c) (term_base ta + int off) off n"
proof -
  have r: "in_range (lp_termBuffer ta) (of_nat off) 4" "in_range (lp_termBuffer ta) (of_nat off + 8) 4"
    "at (lp_termBuffer ta) (of_nat off) = term_base ta + int off"
    "at (lp_termBuffer ta) (of_nat off + 8) = term_base ta + int off + 8"
    using term_index[OF wf, of off 4] term_field[OF wf, of off 8 4] off by simp_all
  show thesis
    using that r by (simp add: frameTermOffset_def frameLengthOrdered_def termOffsetOffset_def fd_lengthOffset_def layout
        ab_ok mem_simps sealed_def del: enc_numeral)
qed

text \<open>The trip: the rest of the term becomes a padding frame.\<close>

lemma trip_spec:
  assumes wf: "wf_appender cap F ta" and off: "off + 24 \<le> cap" "8 dvd off" and hdr: "default_header ta (view c) ids fl"
    and beyond: "sint (of_nat off + R) > sint (of_nat cap - dh_LENGTH)"
  obtains c' where
    "computeResultingOffset ta (lp_termBuffer ta) (of_nat off) R (of_nat cap) c = (Inr TERM_APPENDER_TRIPPED, c')"
    "frame_at (term_base ta) ids (view c') off (Padding (cap - off))"
    "\<And>x. x < term_base ta + int off \<or> term_base ta + int off + 24 \<le> x \<Longrightarrow> view c' x = view c x"
proof -
  let ?b = "lp_termBuffer ta" and ?a = "term_base ta + int off" and ?D = "ta_defaultHdr ta"
  have cap: "cap \<le> 1073741824" "8 dvd cap" using wf by (simp_all add: wf_appender_def)
  have fl: "(of_nat cap - of_nat off :: int32_t) = of_nat (cap - off)" using off by (simp add: of_nat_diff)
  have "(of_nat cap - dh_LENGTH :: int32_t) = of_nat (cap - 24)" using off by (simp add: layout of_nat_diff)
  then have le: "sint (of_nat off :: int32_t) \<le> sint (of_nat cap - dh_LENGTH)"
    using off cap by (simp add: sint_of_nat32 del: of_nat_diff)
  obtain c1 where c1: "applyDefaultHeader ?b (of_nat off) (of_nat (cap - off)) ?D c = (Inr (), c1)"
    "view c1 = write_bytes (write_bytes (view c) ?a (enc 4 (- of_nat (cap - off) :: int32_t))) (?a + 4) (read_bytes (view c) (?D + 4) 20)"
    by (rule applyDefaultHeader_spec[OF wf off(1)])
  note h = header_copied[OF hdr, of ?a "- of_nat (cap - off)", folded c1(2)]
  have ty: "in_range ?b (of_nat off + 6) 2" "at ?b (of_nat off + 6) = ?a + 6"
    using term_field[OF wf, of off 6 2] off by simp_all
  let ?c2 = "put_le 2 c1 (?a + 6) (0 :: 16 word)"
  have c2: "frameType ?b (of_nat off) PADDING_FRAME_TYPE c1 = (Inr (), ?c2)"
    using ty by (simp add: frameType_def fd_typeOffset_def layout ab_ok)
  obtain c3 where c3: "andThen (frameTermOffset ?b (of_nat off) (of_nat off))
      (frameLengthOrdered ?b (of_nat off) (of_nat (cap - off))) ?c2 = (Inr (), c3)"
    "view c3 = sealed (view ?c2) ?a off (cap - off)"
    by (rule seal_spec[OF wf off(1)])
  have m2: "view ?c2 = write_bytes (view c1) (?a + 6) (enc 2 (0 :: 16 word))" by (simp add: mem_simps del: enc_numeral)
  have "frame_at (term_base ta) ids (view c3) off (Padding (cap - off))"
    unfolding c3(2) using sealed_frame[of ?a "term_base ta" off "Padding (cap - off)" "view ?c2" ids] off cap h
    by (simp add: m2 mem_simps dec_enc del: enc_numeral)
  moreover have "computeResultingOffset ta ?b (of_nat off) R (of_nat cap) c = (Inr TERM_APPENDER_TRIPPED, c3)"
  proof -
    have "computeResultingOffset ta ?b (of_nat off) R (of_nat cap) c =
        andThen (applyDefaultHeader ?b (of_nat off) (of_nat (cap - off)) ?D)
          (andThen (frameType ?b (of_nat off) PADDING_FRAME_TYPE)
          (andThen (andThen (frameTermOffset ?b (of_nat off) (of_nat off))
             (frameLengthOrdered ?b (of_nat off) (of_nat (cap - off)))) (ret TERM_APPENDER_TRIPPED))) c"
      using beyond le by (simp add: computeResultingOffset_def Let_def fl andThen_assoc del: of_nat_diff)
    then show ?thesis using c1(1) c2 c3(1) by simp
  qed
  moreover have "view c3 x = view c x" if "x < ?a \<or> ?a + 24 \<le> x" for x
    using that by (auto simp: c3(2) sealed_outside m2 c1(2) write_bytes_def)
  ultimately show thesis using that by blast
qed

text \<open>
  The source of a message: \<open>n\<close> bytes \<open>bs\<close> at an offset of a buffer, outside the term and the tail.
\<close>

definition source_of :: "nat \<Rightarrow> appender \<Rightarrow> abuf \<Rightarrow> index_t \<Rightarrow> byte list \<Rightarrow> cpu \<Rightarrow> bool" where
  "source_of cap ta sb si bs c \<longleftrightarrow> in_range sb si (length bs) \<and> load c (at sb si) (length bs) = bs \<and>
     apart_ranges (term_base ta) cap (at sb si) (length bs) \<and> apart_ranges (tail_addr ta) 4 (at sb si) (length bs)"

definition outside :: "nat \<Rightarrow> appender \<Rightarrow> addr \<Rightarrow> bool" where
  "outside cap ta x \<longleftrightarrow> (x < term_base ta \<or> term_base ta + int cap \<le> x) \<and> (x < tail_addr ta \<or> tail_addr ta + 4 \<le> x)"

lemma source_of_outside:
  assumes "source_of cap ta sb si bs c" "\<And>x. outside cap ta x \<Longrightarrow> view c' x = view c x"
  shows "source_of cap ta sb si bs c'"
proof -
  have "load c' (at sb si) (length bs) = load c (at sb si) (length bs)"
    unfolding load_def using assms(1)
    by (intro read_bytes_cong assms(2)) (auto simp: source_of_def apart_ranges_def outside_def)
  then show ?thesis using assms(1) by (simp add: source_of_def)
qed

lemma source_of_cong:
  assumes "source_of cap ta sb si bs c" "off + n \<le> cap"
    "\<And>x. x < term_base ta + int off \<or> term_base ta + int (off + n) \<le> x \<Longrightarrow> view c' x = view c x"
  shows "source_of cap ta sb si bs c'"
proof -
  have "load c' (at sb si) (length bs) = load c (at sb si) (length bs)"
    unfolding load_def using assms by (intro read_bytes_cong) (auto simp: source_of_def apart_ranges_def)
  then show ?thesis using assms(1) by (simp add: source_of_def)
qed

lemma source_of_sub:
  assumes "source_of cap ta sb si bs c" "j + n \<le> length bs"
  shows "source_of cap ta sb (si + of_nat j) (take n (drop j bs)) c"
proof -
  have ir: "in_range sb si (length bs)" and ld: "read_bytes (view c) (at sb si) (length bs) = bs"
    using assms(1) by (simp_all add: source_of_def load_def)
  have "take n (drop j bs) = read_bytes (view c) (at sb si + int j) n"
    using read_bytes_sub[OF assms(2), of "view c" "at sb si"] ld by simp
  then show ?thesis using assms in_range_sub[OF ir assms(2)] by (auto simp: source_of_def load_def apart_ranges_def)
qed

lemma default_header_cong:
  assumes wf: "wf_appender cap F ta" and "default_header ta m ids fl" "off + n \<le> cap"
    "\<And>x. x < term_base ta + int off \<or> term_base ta + int (off + n) \<le> x \<Longrightarrow> m' x = m x"
  shows "default_header ta m' ids fl"
proof -
  have "read_bytes m' (ta_defaultHdr ta + int j) k = read_bytes m (ta_defaultHdr ta + int j) k" if "j + k \<le> 24" for j k
    using wf assms(3) that by (intro read_bytes_cong assms(4)) (auto simp: wf_appender_def apart_ranges_def)
  from this[of 12 12] this[of 5 1] this[of 6 2] assms(2) show ?thesis by (simp add: default_header_def)
qed

lemma payload_spec:
  assumes wf: "wf_appender cap F ta" and off: "off + 24 + length bs \<le> cap"
    and hdr: "default_header ta (view c) ids fl" and src: "source_of cap ta sb si bs c"
  obtains c' where "andThen (applyDefaultHeader (lp_termBuffer ta) (of_nat off) v (ta_defaultHdr ta))
      (ab_putBytes (lp_termBuffer ta) (of_nat off + dh_LENGTH) sb si (of_nat (length bs))) c = (Inr (), c')"
    "read_bytes (view c') (term_base ta + int off + 12) 12 = ids"
    "read_bytes (view c') (term_base ta + int off + 5) 1 = [fl]"
    "dec (read_bytes (view c') (term_base ta + int off + 6) 2) \<noteq> (0 :: 16 word)"
    "read_bytes (view c') (term_base ta + int off + 24) (length bs) = bs"
    "\<And>x. x < term_base ta + int off \<or> term_base ta + int (off + 24 + length bs) \<le> x \<Longrightarrow> view c' x = view c x"
proof -
  let ?b = "lp_termBuffer ta" and ?a = "term_base ta + int off" and ?D = "ta_defaultHdr ta" and ?n = "length bs"
  have off24: "off + 24 \<le> cap" using off by simp
  obtain c1 where c1: "applyDefaultHeader ?b (of_nat off) v ?D c = (Inr (), c1)"
    "view c1 = write_bytes (write_bytes (view c) ?a (enc 4 (- v))) (?a + 4) (read_bytes (view c) (?D + 4) 20)"
    by (rule applyDefaultHeader_spec[OF wf off24])
  note h = header_copied[OF hdr, of ?a "- v", folded c1(2)]
  have out1: "view c1 x = view c x" if "x < ?a \<or> ?a + 24 \<le> x" for x
    using that by (auto simp: c1(2) write_bytes_def)
  have src1: "source_of cap ta sb si bs c1" using out1 off by (intro source_of_cong[OF src, of off 24]) auto
  have r: "in_range ?b (of_nat off + 24) ?n" "at ?b (of_nat off + 24) = ?a + 24"
    using term_field[OF wf, of off 24 ?n] off by simp_all
  have n: "?n < 2 ^ 31" using off wf by (simp add: wf_appender_def)
  have "ab_putBytes ?b (of_nat off + 24) sb si (of_nat ?n) c1 = (Inr (), emit_bytes c1 (?a + 24) bs)"
    using ab_bytes_ok(1)[OF r(1) n] src1 r(2) by (simp add: source_of_def)
  moreover have m: "view (emit_bytes c1 (?a + 24) bs) = write_bytes (view c1) (?a + 24) bs" by (simp add: mem_simps)
  moreover have "write_bytes (view c1) (?a + 24) bs x = view c x"
    if "x < ?a \<or> term_base ta + int (off + 24 + ?n) \<le> x" for x
    using that out1[of x] by (auto simp: write_bytes_def)
  ultimately show thesis
    using that[of "emit_bytes c1 (?a + 24) bs"] c1(1) h by (simp add: layout mem_simps)
qed

lemma data_frame_spec:
  assumes wf: "wf_appender cap F ta" and off: "off + 24 + length bs \<le> cap"
    and hdr: "default_header ta (view c) ids fl" and src: "source_of cap ta sb si bs c"
  obtains c' where "andThen (applyDefaultHeader (lp_termBuffer ta) (of_nat off) (of_nat (length bs) + dh_LENGTH) (ta_defaultHdr ta))
      (andThen (ab_putBytes (lp_termBuffer ta) (of_nat off + dh_LENGTH) sb si (of_nat (length bs)))
      (andThen (frameTermOffset (lp_termBuffer ta) (of_nat off) (of_nat off))
      (frameLengthOrdered (lp_termBuffer ta) (of_nat off) (of_nat (length bs) + dh_LENGTH)))) c = (Inr (), c')"
    "frame_at (term_base ta) ids (view c') off (Data fl bs)"
    "\<And>x. x < term_base ta + int off \<or> term_base ta + int (off + 24 + length bs) \<le> x \<Longrightarrow> view c' x = view c x"
proof -
  let ?b = "lp_termBuffer ta" and ?a = "term_base ta + int off" and ?n = "length bs"
  have len: "(of_nat ?n + dh_LENGTH :: index_t) = of_nat (24 + ?n)" by (simp add: layout)
  have off24: "off + 24 \<le> cap" using off by simp
  obtain c1 where c1: "andThen (applyDefaultHeader ?b (of_nat off) (of_nat (24 + ?n)) (ta_defaultHdr ta))
      (ab_putBytes ?b (of_nat off + dh_LENGTH) sb si (of_nat ?n)) c = (Inr (), c1)"
    "read_bytes (view c1) (?a + 12) 12 = ids" "read_bytes (view c1) (?a + 5) 1 = [fl]"
    "dec (read_bytes (view c1) (?a + 6) 2) \<noteq> (0 :: 16 word)" "read_bytes (view c1) (?a + 24) ?n = bs"
    "\<And>x. x < ?a \<or> term_base ta + int (off + 24 + ?n) \<le> x \<Longrightarrow> view c1 x = view c x"
    by (rule payload_spec[OF wf off hdr src, where v = "of_nat (24 + ?n)"]) (rule that)
  obtain c2 where c2: "andThen (frameTermOffset ?b (of_nat off) (of_nat off))
      (frameLengthOrdered ?b (of_nat off) (of_nat (24 + ?n))) c1 = (Inr (), c2)"
    "view c2 = sealed (view c1) ?a off (24 + ?n)"
    by (rule seal_spec[OF wf off24])
  have fr: "frame_at (term_base ta) ids (view c2) off (Data fl bs)"
    unfolding c2(2) using sealed_frame[of ?a "term_base ta" off "Data fl bs" "view c1" ids] c1 by simp
  have out: "view c2 x = view c x" if "x < ?a \<or> term_base ta + int (off + 24 + ?n) \<le> x" for x
    using that c1(6)[of x] by (auto simp: c2(2) sealed_outside)
  have run: "andThen (applyDefaultHeader ?b (of_nat off) (of_nat (24 + ?n)) (ta_defaultHdr ta))
      (andThen (ab_putBytes ?b (of_nat off + dh_LENGTH) sb si (of_nat ?n)) K) c = K c1" for K :: "(cpu, unit) act"
    by (subst andThen_assoc(1)[symmetric]) (rule bind_cases(3), rule c1(1))
  show thesis using that[of c2] c2(1) fr out unfolding len run by blast
qed

lemma fragment_frame_spec:
  assumes wf: "wf_appender cap F ta" and off: "off + 24 + length bs \<le> cap"
    and hdr: "default_header ta (view c) ids fl" and src: "source_of cap ta sb si bs c"
  obtains c' where "andThen (applyDefaultHeader (lp_termBuffer ta) (of_nat off) (of_nat (length bs) + dh_LENGTH) (ta_defaultHdr ta))
      (andThen (ab_putBytes (lp_termBuffer ta) (of_nat off + dh_LENGTH) sb si (of_nat (length bs)))
      (andThen (frameFlags (lp_termBuffer ta) (of_nat off) flags)
      (andThen (frameTermOffset (lp_termBuffer ta) (of_nat off) (of_nat off))
      (frameLengthOrdered (lp_termBuffer ta) (of_nat off) (of_nat (length bs) + dh_LENGTH))))) c = (Inr (), c')"
    "frame_at (term_base ta) ids (view c') off (Data flags bs)"
    "\<And>x. x < term_base ta + int off \<or> term_base ta + int (off + 24 + length bs) \<le> x \<Longrightarrow> view c' x = view c x"
proof -
  let ?b = "lp_termBuffer ta" and ?a = "term_base ta + int off" and ?n = "length bs"
  have len: "(of_nat ?n + dh_LENGTH :: index_t) = of_nat (24 + ?n)" by (simp add: layout)
  have off24: "off + 24 \<le> cap" using off by simp
  obtain c1 where c1: "andThen (applyDefaultHeader ?b (of_nat off) (of_nat (24 + ?n)) (ta_defaultHdr ta))
      (ab_putBytes ?b (of_nat off + dh_LENGTH) sb si (of_nat ?n)) c = (Inr (), c1)"
    "read_bytes (view c1) (?a + 12) 12 = ids" "read_bytes (view c1) (?a + 5) 1 = [fl]"
    "dec (read_bytes (view c1) (?a + 6) 2) \<noteq> (0 :: 16 word)" "read_bytes (view c1) (?a + 24) ?n = bs"
    "\<And>x. x < ?a \<or> term_base ta + int (off + 24 + ?n) \<le> x \<Longrightarrow> view c1 x = view c x"
    by (rule payload_spec[OF wf off hdr src, where v = "of_nat (24 + ?n)"]) (rule that)
  have r: "in_range ?b (of_nat off + 5) 1" "at ?b (of_nat off + 5) = ?a + 5"
    using term_field[OF wf, of off 5 1] off by simp_all
  let ?c2 = "put_le 1 c1 (?a + 5) flags"
  have c2: "frameFlags ?b (of_nat off) flags c1 = (Inr (), ?c2)"
    using r by (simp add: frameFlags_def flagsOffset_def layout ab_ok)
  have m2: "view ?c2 = write_bytes (view c1) (?a + 5) [flags]" by (simp add: mem_simps)
  obtain c3 where c3: "andThen (frameTermOffset ?b (of_nat off) (of_nat off))
      (frameLengthOrdered ?b (of_nat off) (of_nat (24 + ?n))) ?c2 = (Inr (), c3)"
    "view c3 = sealed (view ?c2) ?a off (24 + ?n)"
    by (rule seal_spec[OF wf off24])
  have fr: "frame_at (term_base ta) ids (view c3) off (Data flags bs)"
    unfolding c3(2) using sealed_frame[of ?a "term_base ta" off "Data flags bs" "view ?c2" ids] c1
    by (simp add: m2 mem_simps)
  have out: "view c3 x = view c x" if "x < ?a \<or> term_base ta + int (off + 24 + ?n) \<le> x" for x
    using that c1(6)[of x] unfolding c3(2) m2 by (auto simp: sealed_outside write_bytes_def)
  have run: "andThen (applyDefaultHeader ?b (of_nat off) (of_nat (24 + ?n)) (ta_defaultHdr ta))
      (andThen (ab_putBytes ?b (of_nat off + dh_LENGTH) sb si (of_nat ?n)) K) c = K c1" for K :: "(cpu, unit) act"
    by (subst andThen_assoc(1)[symmetric]) (rule bind_cases(3), rule c1(1))
  have "andThen (frameFlags ?b (of_nat off) flags) (andThen (frameTermOffset ?b (of_nat off) (of_nat off))
      (frameLengthOrdered ?b (of_nat off) (of_nat (24 + ?n)))) c1 = (Inr (), c3)"
    using c2 c3(1) by simp
  then show thesis using that[of c3] fr out unfolding len run by blast
qed

section \<open>Appending\<close>

text \<open>
  The state of a term: its frames fill it from the start up to \<open>E\<close>, and the tail counter is \<open>T\<close>. In
  an open term the two agree; once an append did not fit, the term is closed by a padding frame and
  filled up to its capacity, while the counter keeps growing with every further attempt.
\<close>

definition log_inv :: "nat \<Rightarrow> nat \<Rightarrow> appender \<Rightarrow> byte list \<Rightarrow> byte \<Rightarrow> cpu \<Rightarrow> frame list \<Rightarrow> nat \<Rightarrow> nat \<Rightarrow> bool" where
  "log_inv cap F ta ids fl c fs E T \<longleftrightarrow> wf_appender cap F ta \<and> get_le 4 c (tail_addr ta) = (of_nat T :: int32_t) \<and>
     default_header ta (view c) ids fl \<and> frames (term_base ta) ids (view c) 0 fs E \<and> E \<le> cap \<and> 8 dvd T"

definition filled :: "nat \<Rightarrow> nat \<Rightarrow> nat" where
  "filled cap T = (if T + 24 \<le> cap then T else cap)"

definition term_inv :: "nat \<Rightarrow> nat \<Rightarrow> appender \<Rightarrow> byte list \<Rightarrow> byte \<Rightarrow> cpu \<Rightarrow> frame list \<Rightarrow> nat \<Rightarrow> bool" where
  "term_inv cap F ta ids fl c fs T \<longleftrightarrow> log_inv cap F ta ids fl c fs (filled cap T) T"

text \<open>What an append of \<open>R\<close> bytes answers, and what it leaves in the term.\<close>

definition append_result :: "nat \<Rightarrow> nat \<Rightarrow> nat \<Rightarrow> int32_t" where
  "append_result cap T R = (if T + R + 24 \<le> cap then of_nat (T + R)
     else if T + 24 \<le> cap then TERM_APPENDER_TRIPPED else TERM_APPENDER_FAILED)"

definition appended :: "nat \<Rightarrow> nat \<Rightarrow> frame list \<Rightarrow> frame list" where
  "appended cap T new = (if T + sizes new + 24 \<le> cap then new else if T + 24 \<le> cap then [Padding (cap - T)] else [])"

lemma sint_capacity:
  assumes "wf_appender cap F ta"
  shows "sint (of_nat cap - dh_LENGTH :: int32_t) = int (cap - 24)" "ab_capacity (lp_termBuffer ta) = of_nat cap"
proof -
  have "(of_nat cap - dh_LENGTH :: int32_t) = of_nat (cap - 24)"
    using assms by (simp add: layout of_nat_diff wf_appender_def)
  moreover have "cap - 24 < 2 ^ 31" using assms by (auto simp: wf_appender_def)
  ultimately show "sint (of_nat cap - dh_LENGTH :: int32_t) = int (cap - 24)" by (simp only: sint_of_nat32)
  show "ab_capacity (lp_termBuffer ta) = of_nat cap" using assms by (simp add: ab_capacity_def wf_appender_def)
qed

lemma log_inv_tail:
  assumes inv: "log_inv cap F ta ids fl c fs E T" and c': "view c' = write_bytes (view c) (tail_addr ta) (enc 4 (of_nat T' :: int32_t))"
    and "8 dvd T'"
  shows "log_inv cap F ta ids fl c' fs E T'"
proof -
  have wf: "wf_appender cap F ta" using inv by (simp add: log_inv_def)
  have same: "view c' x = view c x" if "x < tail_addr ta \<or> tail_addr ta + 4 \<le> x" for x
    using that by (auto simp: c' write_bytes_def)
  have "frames (term_base ta) ids (view c') 0 fs E"
  proof (rule frames_cong)
    show "frames (term_base ta) ids (view c) 0 fs E" using inv by (simp add: log_inv_def)
    show "view c' x = view c x" if "term_base ta + int 0 \<le> x" "x < term_base ta + int E" for x
    proof (rule same)
      have "apart_ranges (term_base ta) cap (tail_addr ta) 4" "E \<le> cap"
        using inv wf by (simp_all add: log_inv_def wf_appender_def)
      then show "x < tail_addr ta \<or> tail_addr ta + 4 \<le> x" using that unfolding apart_ranges_def by linarith
    qed
  qed
  moreover have "default_header ta (view c') ids fl"
  proof -
    have "read_bytes (view c') (ta_defaultHdr ta + int j) n = read_bytes (view c) (ta_defaultHdr ta + int j) n"
      if "j + n \<le> 24" for j n
      using wf that by (intro read_bytes_cong same) (auto simp: wf_appender_def apart_ranges_def)
    from this[of 12 12] this[of 5 1] this[of 6 2] inv show ?thesis by (simp add: default_header_def log_inv_def)
  qed
  moreover have "get_le 4 c' (tail_addr ta) = (of_nat T' :: int32_t)"
    by (simp add: get_le_def load_def c' mem_simps dec_enc del: enc_numeral)
  ultimately show ?thesis using inv assms(3) by (simp add: log_inv_def)
qed

text \<open>A change inside the free part of the term keeps the frames before it.\<close>

lemma log_inv_extend:
  assumes inv: "log_inv cap F ta ids fl c fs E T" and E: "E + n \<le> cap"
    and out: "\<And>x. x < term_base ta + int E \<or> term_base ta + int (E + n) \<le> x \<Longrightarrow> view c' x = view c x"
    and new: "frames (term_base ta) ids (view c') E new E'" "E' \<le> cap"
  shows "log_inv cap F ta ids fl c' (fs @ new) E' T"
proof -
  have wf: "wf_appender cap F ta" using inv by (simp add: log_inv_def)
  have "frames (term_base ta) ids (view c') 0 fs E"
  proof (rule frames_cong)
    show "frames (term_base ta) ids (view c) 0 fs E" using inv by (simp add: log_inv_def)
    show "view c' x = view c x" if "term_base ta + int 0 \<le> x" "x < term_base ta + int E" for x
      using that by (intro out) simp
  qed
  moreover have "E = 0 + sizes fs" using inv frames_end[of "term_base ta" ids "view c" 0 fs E] by (simp add: log_inv_def)
  moreover have "default_header ta (view c') ids fl"
    using inv default_header_cong[OF wf _ E out] by (simp add: log_inv_def)
  moreover have "get_le 4 c' (tail_addr ta) = (get_le 4 c (tail_addr ta) :: int32_t)"
    unfolding get_le_def load_def using wf E
    by (intro arg_cong[of _ _ dec] read_bytes_cong out) (auto simp: wf_appender_def apart_ranges_def)
  ultimately show ?thesis using inv new by (simp add: log_inv_def frames_append)
qed

lemma reserve_spec:
  assumes inv: "term_inv cap F ta ids fl c fs T" and R: "8 dvd R" "0 < R" "T + R < 2 ^ 31"
  obtains c' where "bind (ab_getAndAddInt32 (lp_metaDataBuffer ta) TERM_TAIL_COUNTER_OFFSET (of_nat R)) (\<lambda>frameOffset.
      bind (computeResultingOffset ta (lp_termBuffer ta) frameOffset (of_nat R) (ab_capacity (lp_termBuffer ta)))
        (K frameOffset)) c = K (of_nat T) (append_result cap T R) c'"
    "T + R + 24 \<le> cap \<Longrightarrow> log_inv cap F ta ids fl c' fs T (T + R)"
    "\<not> T + R + 24 \<le> cap \<Longrightarrow>
      term_inv cap F ta ids fl c' (fs @ (if T + 24 \<le> cap then [Padding (cap - T)] else [])) (T + R)"
    "\<And>x. outside cap ta x \<Longrightarrow> view c' x = view c x"
proof -
  let ?b = "lp_termBuffer ta"
  have wf: "wf_appender cap F ta" and log: "log_inv cap F ta ids fl c fs (filled cap T) T" and t8: "8 dvd T"
    and tl: "get_le 4 c (tail_addr ta) = (of_nat T :: int32_t)"
    using inv by (simp_all add: term_inv_def log_inv_def)
  obtain c1 where c1: "ab_getAndAddInt32 (lp_metaDataBuffer ta) TERM_TAIL_COUNTER_OFFSET (of_nat R) c = (Inr (of_nat T), c1)"
    "view c1 = write_bytes (view c) (tail_addr ta) (enc 4 (of_nat (T + R) :: int32_t))"
    by (rule tail_add[OF wf tl])
  have log1: "log_inv cap F ta ids fl c1 fs (filled cap T) (T + R)"
    using t8 R(1) by (intro log_inv_tail[OF log c1(2)]) simp
  have out1: "view c1 x = view c x" if "outside cap ta x" for x
    using that by (auto simp: c1(2) write_bytes_def outside_def)
  have cap: "24 \<le> cap" using wf by (simp add: wf_appender_def)
  note sc = sint_capacity[OF wf]
  have s: "sint (of_nat T + of_nat R :: int32_t) = int (T + R)" "sint (of_nat T :: int32_t) = int T"
    using R(3) sint_of_nat32[of "T + R"] sint_of_nat32[of T] by simp_all
  show thesis
  proof (cases "T + R + 24 \<le> cap")
    case True
    then have "computeResultingOffset ta ?b (of_nat T) (of_nat R) (of_nat cap) c1 = (Inr (of_nat (T + R)), c1)"
      using cap by (simp add: computeResultingOffset_def Let_def s sc(1))
    moreover have "filled cap T = T" using True by (simp add: filled_def)
    ultimately show thesis using that[of c1] c1(1) log1 out1 True by (simp add: append_result_def sc(2))
  next
    case False
    then have gt: "sint (of_nat T + of_nat R :: int32_t) > sint (of_nat cap - dh_LENGTH :: int32_t)"
      using cap by (simp add: s sc(1))
    have fin: "filled cap (T + R) = cap" using False by (simp add: filled_def)
    show thesis
    proof (cases "T + 24 \<le> cap")
      case True
      have hdr: "default_header ta (view c1) ids fl" using log1 by (simp add: log_inv_def)
      obtain c2 where c2: "computeResultingOffset ta ?b (of_nat T) (of_nat R) (of_nat cap) c1 = (Inr TERM_APPENDER_TRIPPED, c2)"
        "frame_at (term_base ta) ids (view c2) T (Padding (cap - T))"
        "\<And>x. x < term_base ta + int T \<or> term_base ta + int T + 24 \<le> x \<Longrightarrow> view c2 x = view c1 x"
        by (rule trip_spec[OF wf True t8 hdr gt]) (rule that)
      have "frame_size (Padding (cap - T)) = cap - T"
        using wf t8 align_facts(4)[where n = "cap - T" and k = 3]
        by (simp add: frame_size_def wf_appender_def dvd_diff_nat)
      then have "frames (term_base ta) ids (view c2) T [Padding (cap - T)] cap" using c2(2) True by simp
      moreover have "log_inv cap F ta ids fl c1 fs T (T + R)" using log1 True by (simp add: filled_def)
      ultimately have "log_inv cap F ta ids fl c2 (fs @ [Padding (cap - T)]) cap (T + R)"
        using True c2(3) log_inv_extend[of cap F ta ids fl c1 fs T "T + R" 24 c2 "[Padding (cap - T)]" cap]
        by (simp add: add.assoc)
      moreover have "view c2 x = view c x" if "outside cap ta x" for x
        using that True out1[OF that] c2(3)[of x] by (auto simp: outside_def)
      ultimately show thesis
        using that[of c2] c1(1) c2(1) True False by (simp add: append_result_def sc(2) term_inv_def fin)
    next
      case no: False
      then have "computeResultingOffset ta ?b (of_nat T) (of_nat R) (of_nat cap) c1 = (Inr TERM_APPENDER_FAILED, c1)"
        using gt cap by (simp add: computeResultingOffset_def Let_def s(2) sc(1) not_le)
      moreover have "filled cap T = cap" using no by (simp add: filled_def)
      ultimately show thesis
        using that[of c1] c1(1) log1 out1 no False by (simp add: append_result_def sc(2) term_inv_def fin)
    qed
  qed
qed

text \<open>The fragments of a message of which \<open>P\<close> bytes fit into a frame.\<close>

function fragments :: "nat \<Rightarrow> byte \<Rightarrow> byte list \<Rightarrow> frame list" where
  "fragments P fl bs =
     (if P = 0 \<or> length bs \<le> P then [Data (fl OR END_FRAG) bs]
      else Data fl (take P bs) # fragments P 0 (drop P bs))"
  by pat_completeness auto
termination by (relation "measure (\<lambda>(P, fl, bs). length bs)") auto

declare fragments.simps [simp del]

lemma frame_size_data: "8 dvd length bs + 24 \<Longrightarrow> frame_size (Data fl bs) = length bs + 24"
  using align_facts(4)[where n = "24 + length bs" and k = 3] by (simp add: frame_size_def add.commute)

lemma sizes_fragments:
  assumes "0 < P" "8 dvd P + 24" "bs \<noteq> []"
  shows "sizes (fragments P fl bs) = length bs div P * (P + 24) +
    (if 0 < length bs mod P then (length bs mod P + 31) div 8 * 8 else 0)"
  using assms
proof (induction P fl bs rule: fragments.induct)
  case (1 P fl bs)
  let ?n = "length bs"
  show ?case
  proof (cases "?n \<le> P")
    case True
    then consider "?n < P" | "?n = P" by linarith
    then show ?thesis
    proof cases
      case 1
      then show ?thesis using "1.prems" by (simp add: fragments.simps frame_size_def add.commute)
    next
      case 2
      then have "frame_size (Data (fl OR END_FRAG) bs) = P + 24" using "1.prems" frame_size_data[of bs] by simp
      then show ?thesis using "1.prems" 2 by (simp add: fragments.simps)
    qed
  next
    case False
    have "frame_size (Data fl (take P bs)) = P + 24" using False "1.prems" frame_size_data[of "take P bs"] by simp
    moreover have "sizes (fragments P 0 (drop P bs)) = (?n - P) div P * (P + 24) +
        (if 0 < (?n - P) mod P then ((?n - P) mod P + 31) div 8 * 8 else 0)"
      using "1.IH" "1.prems" False by simp
    moreover have "(?n - P) div P + 1 = ?n div P" "(?n - P) mod P = ?n mod P"
      using False "1.prems"(1) by (simp_all add: le_div_geq le_mod_geq)
    ultimately show ?thesis using False "1.prems" 
      by (subst fragments.simps) (simp add: distrib_right flip: \<open>(?n - P) div P + 1 = ?n div P\<close>)
  qed
qed

lemma appendUnfragmented_spec:
  assumes inv: "term_inv cap F ta ids fl c fs T" and len: "length bs + 24 \<le> F" and T: "T + frame_size (Data fl bs) < 2 ^ 31"
    and src: "source_of cap ta sb si bs c"
  obtains c' where "appendUnfragmentedMessage ta sb si (of_nat (length bs)) c =
      (Inr (append_result cap T (frame_size (Data fl bs))), c')"
    "term_inv cap F ta ids fl c' (fs @ appended cap T [Data fl bs]) (T + frame_size (Data fl bs))"
    "\<And>x. outside cap ta x \<Longrightarrow> view c' x = view c x"
proof -
  let ?b = "lp_termBuffer ta" and ?n = "length bs" and ?R = "frame_size (Data fl bs)"
  have wf: "wf_appender cap F ta" using inv by (simp add: term_inv_def log_inv_def)
  then have cap: "cap \<le> 2 ^ 30" "F \<le> cap" by (simp_all add: wf_appender_def)
  have R: "8 dvd ?R" "24 + ?n \<le> ?R" using frame_size_bounds[of "Data fl bs"] by simp_all
  have "align (of_nat ?n + dh_LENGTH) FRAME_ALIGNMENT = (of_nat ?R :: index_t)"
    using align_of_nat[of "24 + ?n" 3] len cap by (simp add: layout frame_size_def add.commute)
  then have al: "align (of_nat ?n + dh_LENGTH) FRAME_ALIGNMENT = (of_nat ?R :: index_t)" .
  define K where "K fo ro = andThen (if sint ro > 0
      then andThen (applyDefaultHeader ?b fo (of_nat ?n + dh_LENGTH) (ta_defaultHdr ta))
        (andThen (ab_putBytes ?b (fo + dh_LENGTH) sb si (of_nat ?n))
        (andThen (frameTermOffset ?b fo fo) (frameLengthOrdered ?b fo (of_nat ?n + dh_LENGTH)))) else ret ())
      (ret ro)" for fo ro :: int32_t
  have run: "appendUnfragmentedMessage ta sb si (of_nat ?n) c =
      bind (ab_getAndAddInt32 (lp_metaDataBuffer ta) TERM_TAIL_COUNTER_OFFSET (of_nat ?R)) (\<lambda>frameOffset.
      bind (computeResultingOffset ta ?b frameOffset (of_nat ?R) (ab_capacity ?b)) (K frameOffset)) c"
    by (simp add: appendUnfragmentedMessage_def Let_def al K_def[abs_def])
  have pos: "0 < ?R" using R by linarith
  obtain c1 where c1: "appendUnfragmentedMessage ta sb si (of_nat ?n) c = K (of_nat T) (append_result cap T ?R) c1"
    "T + ?R + 24 \<le> cap \<Longrightarrow> log_inv cap F ta ids fl c1 fs T (T + ?R)"
    "\<not> T + ?R + 24 \<le> cap \<Longrightarrow>
      term_inv cap F ta ids fl c1 (fs @ (if T + 24 \<le> cap then [Padding (cap - T)] else [])) (T + ?R)"
    "\<And>x. outside cap ta x \<Longrightarrow> view c1 x = view c x"
    by (rule reserve_spec[OF inv R(1) pos T, where K = K, folded run]) (rule that)
  show thesis
  proof (cases "T + ?R + 24 \<le> cap")
    case True
    have log1: "log_inv cap F ta ids fl c1 fs T (T + ?R)" using c1(2) True by blast
    then have hdr: "default_header ta (view c1) ids fl" by (simp add: log_inv_def)
    have off: "T + 24 + ?n \<le> cap" using True R by linarith
    have src1: "source_of cap ta sb si bs c1" using src c1(4) by (rule source_of_outside)
    obtain c2 where c2: "andThen (applyDefaultHeader ?b (of_nat T) (of_nat ?n + dh_LENGTH) (ta_defaultHdr ta))
        (andThen (ab_putBytes ?b (of_nat T + dh_LENGTH) sb si (of_nat ?n))
        (andThen (frameTermOffset ?b (of_nat T) (of_nat T))
        (frameLengthOrdered ?b (of_nat T) (of_nat ?n + dh_LENGTH)))) c1 = (Inr (), c2)"
      "frame_at (term_base ta) ids (view c2) T (Data fl bs)"
      "\<And>x. x < term_base ta + int T \<or> term_base ta + int (T + 24 + ?n) \<le> x \<Longrightarrow> view c2 x = view c1 x"
      by (rule data_frame_spec[OF wf off hdr src1]) (rule that)
    have "log_inv cap F ta ids fl c2 (fs @ [Data fl bs]) (T + ?R) (T + ?R)"
      using log_inv_extend[OF log1, of "24 + ?n" c2 "[Data fl bs]" "T + ?R"] off True c2(2,3) by (simp add: add.assoc)
    moreover have "sint (append_result cap T ?R) > 0"
      using True T pos sint_of_nat32[of "T + ?R"] by (simp add: append_result_def)
    moreover have "view c2 x = view c x" if "outside cap ta x" for x
      using that off c1(4)[OF that] c2(3)[of x] by (auto simp: outside_def)
    ultimately show thesis
      using that[of c2] True c1(1) c2(1) by (simp add: term_inv_def filled_def appended_def K_def)
  next
    case False
    have "\<not> sint (append_result cap T ?R) > 0" using False by (simp add: append_result_def layout)
    then show thesis using that[of c1] c1(1,3,4) False by (simp add: appended_def K_def)
  qed
qed

lemma min_index_of_nat: "a < 2 ^ 31 \<Longrightarrow> b < 2 ^ 31 \<Longrightarrow> min_index (of_nat a) (of_nat b) = of_nat (min a b)"
  by (simp add: min_index_def sint_of_nat32 min_def)

lemma writeFragment_spec:
  assumes wf: "wf_appender cap F ta" and hdr: "default_header ta (view c) ids fl"
    and src: "source_of cap ta sb si bs c" and j: "j < length bs" "length bs < 2 ^ 31"
    and off: "off + 24 + min (length bs - j) (F - 24) \<le> cap"
  defines "m \<equiv> length bs - j"
  obtains c' where "writeFragment ta sb si (of_nat (length bs)) (of_nat off) flags (of_nat m) c = (Inr (), c')"
    "frame_at (term_base ta) ids (view c') off
       (Data (if m \<le> F - 24 then flags OR END_FRAG else flags) (take (F - 24) (drop j bs)))"
    "\<And>x. x < term_base ta + int off \<or> term_base ta + int (off + 24 + min m (F - 24)) \<le> x \<Longrightarrow> view c' x = view c x"
proof -
  let ?P = "F - 24" and ?n = "length bs"
  let ?bs = "take ?P (drop j bs)" and ?fl = "if m \<le> F - 24 then flags OR END_FRAG else flags"
  have len: "length ?bs = min m ?P" by (simp add: m_def min.commute)
  have F: "F \<le> 1073741824" "ta_maxPayloadLength ta = of_nat ?P" using wf by (auto simp: wf_appender_def)
  have lt: "m < 2 ^ 31" "?P < 2 ^ 31" using F j unfolding m_def by auto
  note s = sint_of_nat32[OF lt(1)] sint_of_nat32[OF lt(2)]
  have mn: "min_index (of_nat m) (ta_maxPayloadLength ta) = of_nat (min m ?P)"
    unfolding F(2) by (rule min_index_of_nat[OF lt])
  have sub: "source_of cap ta sb (si + of_nat j) ?bs c"
  proof -
    have "take ?P (drop j bs) = take (min m ?P) (drop j bs)" by (simp add: m_def min_def)
    then show ?thesis using source_of_sub[OF src, of j "min m ?P"] j by (simp add: m_def)
  qed
  have so: "si + (of_nat ?n - of_nat m) = si + of_nat j" using j by (simp add: m_def of_nat_diff)
  have off': "off + 24 + length ?bs \<le> cap" using off len by (simp add: m_def)
  obtain c1 where c1: "andThen (applyDefaultHeader (lp_termBuffer ta) (of_nat off) (of_nat (length ?bs) + dh_LENGTH) (ta_defaultHdr ta))
      (andThen (ab_putBytes (lp_termBuffer ta) (of_nat off + dh_LENGTH) sb (si + of_nat j) (of_nat (length ?bs)))
      (andThen (frameFlags (lp_termBuffer ta) (of_nat off) ?fl)
      (andThen (frameTermOffset (lp_termBuffer ta) (of_nat off) (of_nat off))
      (frameLengthOrdered (lp_termBuffer ta) (of_nat off) (of_nat (length ?bs) + dh_LENGTH))))) c = (Inr (), c1)"
    "frame_at (term_base ta) ids (view c1) off (Data ?fl ?bs)"
    "\<And>x. x < term_base ta + int off \<or> term_base ta + int (off + 24 + length ?bs) \<le> x \<Longrightarrow> view c1 x = view c x"
    by (rule fragment_frame_spec[OF wf off' hdr sub]) (rule that)
  have cond: "sint (of_nat m :: int32_t) \<le> sint (ta_maxPayloadLength ta) \<longleftrightarrow> m \<le> ?P" using s F(2) by simp
  have "writeFragment ta sb si (of_nat ?n) (of_nat off) flags (of_nat m) c = (Inr (), c1)"
    unfolding writeFragment_def Let_def mn so cond using c1(1) unfolding len by simp
  then show thesis using that[of c1] c1(2,3) unfolding len by blast
qed

lemma fragment_loop_spec:
  assumes "log_inv cap F ta ids fl c fs E T" "source_of cap ta sb si bs c" "j < length bs" "length bs < 2 ^ 31"
    "E + sizes (fragments (F - 24) flags (drop j bs)) \<le> cap"
  shows "\<exists>c'. fragment_loop ta sb si (of_nat (length bs)) (of_nat E) flags (of_nat (length bs - j)) c = Some (Inr (), c') \<and>
    log_inv cap F ta ids fl c' (fs @ fragments (F - 24) flags (drop j bs)) (E + sizes (fragments (F - 24) flags (drop j bs))) T \<and>
    (\<forall>x. outside cap ta x \<longrightarrow> view c' x = view c x)"
  using assms
proof (induction "length bs - j" arbitrary: j E fs flags c rule: less_induct)
  case less
  let ?P = "F - 24" and ?n = "length bs" and ?m = "length bs - j"
  have wf: "wf_appender cap F ta" and hdr: "default_header ta (view c) ids fl" using less.prems(1) by (simp_all add: log_inv_def)
  then have F: "24 < F" "8 dvd F" "F \<le> 1073741824" "cap \<le> 1073741824" "ta_maxPayloadLength ta = of_nat ?P" by (auto simp: wf_appender_def)
  let ?fl = "if ?m \<le> ?P then flags OR END_FRAG else flags" and ?bs = "take ?P (drop j bs)"
  let ?f = "Data ?fl ?bs"
  have len: "length ?bs = min ?m ?P" by (simp add: min.commute)
  have step: "fragments ?P flags (drop j bs) = ?f # (if ?m \<le> ?P then [] else fragments ?P 0 (drop (j + ?P) bs))"
    using F(1) by (subst fragments.simps) (simp add: add.commute)
  have sz: "24 + min ?m ?P \<le> frame_size ?f" using frame_size_bounds(1)[of ?f] len by simp
  have fit: "E + frame_size ?f \<le> cap" using less.prems(5) by (simp add: step)
  then have off: "E + 24 + min ?m ?P \<le> cap" using sz by linarith
  obtain c1 where c1: "writeFragment ta sb si (of_nat ?n) (of_nat E) flags (of_nat ?m) c = (Inr (), c1)"
    "frame_at (term_base ta) ids (view c1) E ?f"
    "\<And>x. x < term_base ta + int E \<or> term_base ta + int (E + 24 + min ?m ?P) \<le> x \<Longrightarrow> view c1 x = view c x"
    by (rule writeFragment_spec[OF wf hdr less.prems(2,3,4) off]) (rule that)
  have "frames (term_base ta) ids (view c1) E [?f] (E + frame_size ?f)" using c1(2) by simp
  then have log1: "log_inv cap F ta ids fl c1 (fs @ [?f]) (E + frame_size ?f) T"
    using log_inv_extend[OF less.prems(1), of "24 + min ?m ?P" c1 "[?f]"] off fit c1(3) by (simp add: add.assoc)
  have out1: "view c1 x = view c x" if "outside cap ta x" for x
    using that off c1(3)[of x] by (auto simp: outside_def)
  have s: "sint (of_nat x :: int32_t) = int x" if "x \<le> ?n \<or> x \<le> cap" for x
    using that less.prems(4) F(4) by (intro sint_of_nat32) auto
  have mn: "min_index (of_nat ?m) (ta_maxPayloadLength ta) = of_nat (min ?m ?P)"
    unfolding F(5) using less.prems(4) F(3) by (intro min_index_of_nat) auto
  have rest: "(of_nat ?m - of_nat (min ?m ?P) :: index_t) = of_nat (?m - min ?m ?P)"
    by (subst of_nat_diff[of "min ?m ?P" ?m]) simp_all
  have al: "align (of_nat (min ?m ?P) + dh_LENGTH) FRAME_ALIGNMENT = (of_nat (frame_size ?f) :: index_t)"
    using align_of_nat[of "24 + min ?m ?P" 3] off F(4) len by (simp add: layout frame_size_def add.commute)
  have pos: "sint (of_nat (?m - min ?m ?P) :: int32_t) = int (?m - min ?m ?P)" by (intro s) simp
  have unf: "fragment_loop ta sb si (of_nat ?n) (of_nat E) flags (of_nat ?m) c =
      (if ?m \<le> ?P then Some (Inr (), c1)
       else fragment_loop ta sb si (of_nat ?n) (of_nat (E + frame_size ?f)) 0 (of_nat (?m - ?P)) c1)"
  proof -
    have "0 < sint (of_nat (?m - min ?m ?P) :: int32_t) \<longleftrightarrow> \<not> ?m \<le> ?P" unfolding pos by auto
    moreover have "?m - min ?m ?P = ?m - ?P" by simp
    ultimately show ?thesis
      by (subst fragment_loop.simps) (simp only: c1(1) prod.case sum.case Let_def mn rest al of_nat_add not_not if_not_P cong: if_cong, simp only: if_not_P if_P split: if_split, simp)
  qed
  show ?case
  proof (cases "?m \<le> ?P")
    case True
    then show ?thesis using unf step log1 out1 by auto
  next
    case False
    have src1: "source_of cap ta sb si bs c1"
      by (rule source_of_cong[OF less.prems(2), where off = E and n = "24 + min ?m ?P"]) (use off c1(3) in \<open>simp_all add: add.assoc\<close>)
    have j': "?n - (j + ?P) < ?n - j" "j + ?P < ?n" using F(1) False less.prems(3) by linarith+
    have fit': "E + frame_size ?f + sizes (fragments ?P 0 (drop (j + ?P) bs)) \<le> cap"
      using less.prems(5) False by (simp add: step add.assoc)
    obtain c2 where "fragment_loop ta sb si (of_nat ?n) (of_nat (E + frame_size ?f)) 0 (of_nat (?n - (j + ?P))) c1 = Some (Inr (), c2)"
      "log_inv cap F ta ids fl c2 ((fs @ [?f]) @ fragments ?P 0 (drop (j + ?P) bs))
        (E + frame_size ?f + sizes (fragments ?P 0 (drop (j + ?P) bs))) T"
      "\<forall>x. outside cap ta x \<longrightarrow> view c2 x = view c1 x"
      using less.hyps[OF j'(1) log1 src1 j'(2) less.prems(4) fit'] by blast
    moreover have "?m - ?P = ?n - (j + ?P)" by simp
    ultimately show ?thesis using unf False out1 by (auto simp: step add.assoc)
  qed
qed

lemma requiredLength_nat:
  assumes wf: "wf_appender cap F ta" and n: "n < 2 ^ 31"
  shows "requiredLength ta (of_nat n) =
    of_nat (n div (F - 24) * F + (if 0 < n mod (F - 24) then (n mod (F - 24) + 31) div 8 * 8 else 0))"
proof -
  let ?P = "F - 24"
  have F: "24 < F" "F \<le> 1073741824" "ta_maxPayloadLength ta = of_nat ?P" "ta_maxFrameLength ta = of_nat F"
    using wf by (auto simp: wf_appender_def)
  have P: "?P < 2 ^ 31" "0 < ?P" using F by auto
  have s: "sint (of_nat n :: int32_t) = int n" "sint (ta_maxPayloadLength ta) = int ?P"
    unfolding F(3) using n P by (simp_all only: sint_of_nat32)
  have d: "int n sdiv int ?P = int (n div ?P)" "int n smod int ?P = int (n mod ?P)"
    using P(2) by (cases "n = 0"; simp add: signed_divide_int_def signed_modulo_int_def zdiv_int zmod_int del: of_nat_diff)+
  have m: "n mod ?P < ?P" using P(2) by simp
  then have "n mod ?P < 2 ^ 31" using P(1) by linarith
  then have sm: "sint (of_nat (n mod ?P) :: int32_t) = int (n mod ?P)" by (rule sint_of_nat32)
  have al: "align (of_nat (n mod ?P) + dh_LENGTH) FRAME_ALIGNMENT = (of_nat ((n mod ?P + 31) div 8 * 8) :: index_t)"
    using align_of_nat[of "n mod ?P + 24" 3] order.strict_trans[OF m, of 4294967265] F
    by (simp add: layout add.commute)
  show ?thesis
    unfolding requiredLength_def Let_def s d F(4) of_int_of_nat_eq sm al of_nat_0_less_iff
    by (simp del: of_nat_diff)
qed

lemma appendFragmented_spec:
  assumes inv: "term_inv cap F ta ids fl c fs T" and bs: "bs \<noteq> []" "length bs < 2 ^ 31"
    and src: "source_of cap ta sb si bs c"
  defines "new \<equiv> fragments (F - 24) BEGIN_FRAG bs"
  assumes T: "T + sizes new < 2 ^ 31"
  shows "\<exists>c'. appendFragmentedMessage ta sb si (of_nat (length bs)) c = Some (Inr (append_result cap T (sizes new)), c') \<and>
    term_inv cap F ta ids fl c' (fs @ appended cap T new) (T + sizes new) \<and>
    (\<forall>x. outside cap ta x \<longrightarrow> view c' x = view c x)"
proof -
  let ?b = "lp_termBuffer ta" and ?n = "length bs" and ?R = "sizes new"
  have wf: "wf_appender cap F ta" using inv by (simp add: term_inv_def log_inv_def)
  then have F: "24 < F" "8 dvd F" by (simp_all add: wf_appender_def)
  have sz: "?R = ?n div (F - 24) * F + (if 0 < ?n mod (F - 24) then (?n mod (F - 24) + 31) div 8 * 8 else 0)"
    unfolding new_def using sizes_fragments[of "F - 24" bs BEGIN_FRAG] F bs(1) by simp
  have req: "requiredLength ta (of_nat ?n) = of_nat ?R" unfolding sz by (rule requiredLength_nat[OF wf bs(2)])
  have hd: "24 \<le> ?R" unfolding new_def
    using frame_size_bounds(1)[of "Data (BEGIN_FRAG OR END_FRAG) bs"]
      frame_size_bounds(1)[of "Data BEGIN_FRAG (take (F - 24) bs)"]
    by (subst fragments.simps) (simp del: of_nat_diff)
  have R8: "8 dvd ?R" using F(2) by (auto simp: sz)
  define K :: "int32_t \<Rightarrow> int32_t \<Rightarrow> (cpu, int32_t \<times> int32_t) act" where "K fo ro = ret (fo, ro)" for fo ro
  obtain c1 where c1: "bind (ab_getAndAddInt32 (lp_metaDataBuffer ta) TERM_TAIL_COUNTER_OFFSET (of_nat ?R)) (\<lambda>frameOffset.
      bind (computeResultingOffset ta ?b frameOffset (of_nat ?R) (ab_capacity ?b)) (K frameOffset)) c =
      K (of_nat T) (append_result cap T ?R) c1"
    "T + ?R + 24 \<le> cap \<Longrightarrow> log_inv cap F ta ids fl c1 fs T (T + ?R)"
    "\<not> T + ?R + 24 \<le> cap \<Longrightarrow>
      term_inv cap F ta ids fl c1 (fs @ (if T + 24 \<le> cap then [Padding (cap - T)] else [])) (T + ?R)"
    "\<And>x. outside cap ta x \<Longrightarrow> view c1 x = view c x"
    by (rule reserve_spec[OF inv R8 _ T, where K = K], (use hd in linarith)) (rule that)
  have run: "appendFragmentedMessage ta sb si (of_nat ?n) c =
      (if sint (append_result cap T ?R) > 0
       then case fragment_loop ta sb si (of_nat ?n) (of_nat T) BEGIN_FRAG (of_nat ?n) c1 of
              None \<Rightarrow> None | Some (Inl e, c) \<Rightarrow> Some (Inl e, c) | Some (Inr _, c) \<Rightarrow> Some (Inr (append_result cap T ?R), c)
       else Some (Inr (append_result cap T ?R), c1))"
    using c1(1) by (simp add: appendFragmentedMessage_def Let_def req K_def[abs_def])
  show ?thesis
  proof (cases "T + ?R + 24 \<le> cap")
    case True
    have log1: "log_inv cap F ta ids fl c1 fs T (T + ?R)" using c1(2) True by blast
    have fit: "T + sizes (fragments (F - 24) BEGIN_FRAG (drop 0 bs)) \<le> cap" using True by (simp add: new_def)
    have src1: "source_of cap ta sb si bs c1" using src c1(4) by (rule source_of_outside)
    obtain c2 where c2: "fragment_loop ta sb si (of_nat ?n) (of_nat T) BEGIN_FRAG (of_nat (?n - 0)) c1 = Some (Inr (), c2)"
      "log_inv cap F ta ids fl c2 (fs @ fragments (F - 24) BEGIN_FRAG (drop 0 bs))
         (T + sizes (fragments (F - 24) BEGIN_FRAG (drop 0 bs))) (T + ?R)"
      "\<forall>x. outside cap ta x \<longrightarrow> view c2 x = view c1 x"
      using fragment_loop_spec[OF log1 src1 _ bs(2) fit] bs(1) by blast
    moreover have "sint (append_result cap T ?R) > 0"
      using True T hd sint_of_nat32[of "T + ?R"] by (simp add: append_result_def)
    ultimately show ?thesis
      using True run c1(4) by (simp add: term_inv_def filled_def appended_def new_def)
  next
    case False
    have "\<not> sint (append_result cap T ?R) > 0" using False by (simp add: append_result_def layout)
    then show ?thesis using c1(3,4) False run by (simp add: appended_def)
  qed
qed

text \<open>The frames of a message, and that they carry the message.\<close>

definition message_frames :: "nat \<Rightarrow> byte \<Rightarrow> byte list \<Rightarrow> frame list" where
  "message_frames F fl bs = (if length bs + 24 \<le> F then [Data fl bs] else fragments (F - 24) BEGIN_FRAG bs)"

lemma fragments_payload: "concat (map frame_payload (fragments P fl bs)) = bs"
proof (induction P fl bs rule: fragments.induct)
  case (1 P fl bs)
  then show ?case by (subst fragments.simps) simp
qed

lemma append_message_spec:
  assumes "term_inv cap F ta ids fl c fs T" "source_of cap ta sb si bs c"
    and "T + sizes (message_frames F fl bs) < 2 ^ 31"
  shows "(length bs + 24 \<le> F \<or> length bs \<le> cap div 8 \<longrightarrow>
      (\<exists>c'. append_message ta sb si (of_nat (length bs)) c =
          Some (Inr (append_result cap T (sizes (message_frames F fl bs))), c') \<and>
        term_inv cap F ta ids fl c' (fs @ appended cap T (message_frames F fl bs)) (T + sizes (message_frames F fl bs)) \<and>
        (\<forall>x. outside cap ta x \<longrightarrow> view c' x = view c x))) \<and>
    (F < length bs + 24 \<and> cap div 8 < length bs \<longrightarrow>
      append_message ta sb si (of_nat (length bs)) c = Some (Inl IllegalArgumentException, c)) \<and>
    concat (map frame_payload (message_frames F fl bs)) = bs"
proof -
  let ?n = "length bs"
  have wf: "wf_appender cap F ta" using assms(1) by (simp add: term_inv_def log_inv_def)
  then have F: "24 < F" "F \<le> 1073741824" "cap \<le> 1073741824" "ta_maxPayloadLength ta = of_nat (F - 24)"
    "ta_maxMessageLength ta = of_nat (cap div 8)" by (auto simp: wf_appender_def)
  have n: "?n < 2 ^ 31"
  proof -
    have "0 \<le> sint si" "sint si + int ?n \<le> sint (ab_length sb)"
      using assms(2) by (simp_all add: source_of_def in_range_def)
    then show ?thesis using sint32_lt[of "ab_length sb"] by simp
  qed
  have P: "F - 24 < 2 ^ 31" "cap div 8 < 2 ^ 31" using F by auto
  have s: "sint (of_nat ?n :: int32_t) = int ?n" "sint (ta_maxPayloadLength ta) = int (F - 24)"
    "sint (ta_maxMessageLength ta) = int (cap div 8)"
    unfolding F using n P by (simp_all only: sint_of_nat32)
  have am: "append_message ta sb si (of_nat ?n) c =
      (if ?n + 24 \<le> F then Some (appendUnfragmentedMessage ta sb si (of_nat ?n) c)
       else if cap div 8 < ?n then Some (Inl IllegalArgumentException, c)
       else appendFragmentedMessage ta sb si (of_nat ?n) c)"
    using F(1) unfolding append_message_def s by (auto simp: le_diff_conv2)
  have "\<exists>c'. append_message ta sb si (of_nat ?n) c = Some (Inr (append_result cap T (sizes (message_frames F fl bs))), c') \<and>
      term_inv cap F ta ids fl c' (fs @ appended cap T (message_frames F fl bs)) (T + sizes (message_frames F fl bs)) \<and>
      (\<forall>x. outside cap ta x \<longrightarrow> view c' x = view c x)"
    if ok: "?n + 24 \<le> F \<or> ?n \<le> cap div 8"
  proof (cases "?n + 24 \<le> F")
    case True
    then have m: "message_frames F fl bs = [Data fl bs]" by (simp add: message_frames_def)
    have T: "T + frame_size (Data fl bs) < 2 ^ 31" using assms(3) m by simp
    obtain c' where "appendUnfragmentedMessage ta sb si (of_nat ?n) c = (Inr (append_result cap T (frame_size (Data fl bs))), c')"
      "term_inv cap F ta ids fl c' (fs @ appended cap T [Data fl bs]) (T + frame_size (Data fl bs))"
      "\<And>x. outside cap ta x \<Longrightarrow> view c' x = view c x"
      by (rule appendUnfragmented_spec[OF assms(1) True T assms(2)]) (rule that)
    then show ?thesis using True by (simp add: am m)
  next
    case False
    then have m: "message_frames F fl bs = fragments (F - 24) BEGIN_FRAG bs" by (simp add: message_frames_def)
    have "bs \<noteq> []" using False F(1) by auto
    from appendFragmented_spec[OF assms(1) this n assms(2)] assms(3) m False ok show ?thesis by (simp add: am)
  qed
  moreover have "concat (map frame_payload (message_frames F fl bs)) = bs"
    by (simp add: message_frames_def fragments_payload)
  ultimately show ?thesis by (simp add: am)
qed

text \<open>
  C19. Appending a message of at most an eighth of the term: it is written as one frame, or split
  over fragments whose payloads concatenate to it; the answer is the new tail, or the tripped or
  failed code when it does not fit into the rest of the term, which the first such append closes
  with a padding frame; what was in the term before stays, and the counter is advanced in every
  case. Nothing outside the term and its counter is written. A longer message is refused without
  touching anything.
\<close>

theorem append_appends:
  assumes "term_inv cap F ta ids fl c fs T" "source_of cap ta sb si bs c"
    and "T + sizes (message_frames F fl bs) < 2 ^ 31"
  shows "(length bs + 24 \<le> F \<or> length bs \<le> cap div 8 \<longrightarrow>
      (\<exists>c'. append_message ta sb si (of_nat (length bs)) c =
          Some (Inr (append_result cap T (sizes (message_frames F fl bs))), c') \<and>
        term_inv cap F ta ids fl c' (fs @ appended cap T (message_frames F fl bs)) (T + sizes (message_frames F fl bs)) \<and>
        (\<forall>x. outside cap ta x \<longrightarrow> view c' x = view c x))) \<and>
    (F < length bs + 24 \<and> cap div 8 < length bs \<longrightarrow>
      append_message ta sb si (of_nat (length bs)) c = Some (Inl IllegalArgumentException, c)) \<and>
    concat (map frame_payload (message_frames F fl bs)) = bs"
  using append_message_spec[OF assms] .

section \<open>Constructing an appender\<close>

text \<open>
  The constructor of an appender accepts exactly the terms of at least 64K and frame lengths
  that are multiples of eight, with a metadata section and a default header of the right size, and
  then yields a well-formed appender; otherwise it throws.
\<close>

theorem TermAppender_wf:
  assumes "ab_length tb = of_nat cap" "cap \<le> 2 ^ 30" "24 < F" "F \<le> cap"
    and "apart_ranges (ab_buffer tb) cap (ab_buffer mb + 128) 4" "apart_ranges (ab_buffer tb) cap (ab_buffer hb) 24"
      "apart_ranges (ab_buffer mb + 128) 4 (ab_buffer hb) 24"
  shows "case TermAppender tb mb hb (of_nat F) c of
      (Inl e, c') \<Rightarrow> e = IllegalStateException \<and> c' = c \<and>
        \<not> (65536 \<le> cap \<and> 8 dvd cap \<and> 384 \<le> sint (ab_length mb) \<and> ab_length hb = 24 \<and> 8 dvd F)
    | (Inr ta, c') \<Rightarrow> wf_appender cap F ta \<and> c' = c \<and> lp_termBuffer ta = tb \<and> lp_metaDataBuffer ta = mb \<and>
        65536 \<le> cap \<and> 8 dvd cap \<and> 384 \<le> sint (ab_length mb) \<and> ab_length hb = 24 \<and> 8 dvd F"
proof -
  have cap: "cap < 2 ^ 31" "F < 2 ^ 31" "F < 2 ^ 32" "cap < 2 ^ 64" "cap < 2 ^ 63" using assms(2,4) by simp_all
  have s: "sint (of_nat cap :: int32_t) = int cap" "scast (of_nat cap :: int32_t) = (of_nat cap :: int64_t)"
    "sint (of_nat cap :: int64_t) = int cap"
    using cap by (auto intro: sint_of_nat32 scast_of_nat sint_of_nat64)
  have d: "int cap sdiv 8 = int (cap div 8)" by (cases "cap = 0") (simp_all add: signed_divide_int_def zdiv_int)
  have "(of_nat cap :: int64_t) AND 7 = 0 \<longleftrightarrow> 8 dvd cap" "(of_nat F :: int32_t) AND 7 = 0 \<longleftrightarrow> 8 dvd F"
    using cap by (intro and_7_iff, simp)+
  then show ?thesis
    using assms s d
    by (simp add: TermAppender_def LogBufferPartition_def checkTermLength_def checkMetaDataBuffer_def checkHeaderLength_def
        checkMaxFrameLength_def computeMaxMessageLength_def ab_capacity_def layout guard_def Let_def wf_appender_def
        ab_data_def of_nat_diff)
qed

section \<open>A concrete appender\<close>

definition demo_term :: appender where
  "demo_term = \<lparr>lp_termBuffer = AtomicBuffer 0 65536, lp_metaDataBuffer = AtomicBuffer 65536 384, ta_defaultHdr = 70000,
     ta_maxMessageLength = 8192, ta_maxFrameLength = 4096, ta_maxPayloadLength = 4072\<rparr>"

definition demo_cpu :: cpu where
  "demo_cpu = put_le 2 blank 70006 (1 :: 16 word)"

lemma demo_view: "view demo_cpu x = (if x = 70006 then 1 else 0)"
proof -
  have "enc 2 (1 :: 16 word) = [1, 0]" by (simp add: numeral_2_eq_2)
  moreover have "view blank x = 0" by (simp add: blank_def view_def)
  moreover have "nat (x - 70006) < 2 \<Longrightarrow> 70006 \<le> x \<Longrightarrow> x = 70006 \<or> x = 70007" by linarith
  ultimately show ?thesis by (auto simp: demo_cpu_def mem_simps write_bytes_def)
qed

lemma demo_zero: "a + int n \<le> 70006 \<or> 70006 < a \<Longrightarrow> read_bytes (view demo_cpu) a n = replicate n 0"
  by (auto simp: read_bytes_def demo_view intro!: nth_equalityI)

lemma demo_term_wf: "wf_appender 65536 4096 demo_term"
  by (simp add: wf_appender_def demo_term_def AtomicBuffer_def apart_ranges_def)

lemma demo_term_inv: "term_inv 65536 4096 demo_term (replicate 12 0) 0 demo_cpu [] 0"
proof -
  have "read_bytes (view demo_cpu) 70006 2 = [1, 0]" by (simp add: read_bytes_def demo_view numeral_2_eq_2)
  then have "dec (read_bytes (view demo_cpu) 70006 2) \<noteq> (0 :: 16 word)" by simp
  then show ?thesis
    using demo_term_wf demo_zero[of 65664 4] demo_zero[of 70012 12] demo_zero[of 70005 1]
    by (simp add: term_inv_def log_inv_def default_header_def filled_def get_le_def load_def dec_zeros demo_term_def AtomicBuffer_def)
qed

lemma demo_source: "n \<le> 10000 \<Longrightarrow> source_of 65536 demo_term (AtomicBuffer 80000 10000) 0 (replicate n 0) demo_cpu"
  using demo_zero[of 80000 n]
  by (simp add: source_of_def in_range_def AtomicBuffer_def at_def load_def apart_ranges_def demo_term_def)

theorem append_appends_witness:
  "\<exists>c'. append_message demo_term (AtomicBuffer 80000 10000) 0 (of_nat (length (replicate 5000 (0 :: byte)))) demo_cpu =
     Some (Inr 5048, c')"
proof -
  have "sizes (message_frames 4096 0 (replicate 5000 0)) = 5048"
    using sizes_fragments[of 4072 "replicate 5000 0" BEGIN_FRAG] by (simp add: message_frames_def)
  then show ?thesis
    using append_appends[OF demo_term_inv demo_source, of 5000] by (auto simp: append_result_def)
qed

theorem TermAppender_wf_witness:
  "case TermAppender (AtomicBuffer 0 65536) (AtomicBuffer 65536 384) (AtomicBuffer 70000 24) 4096 demo_cpu of
     (Inl e, c') \<Rightarrow> False | (Inr ta, c') \<Rightarrow> wf_appender 65536 4096 ta"
  using TermAppender_wf[of "AtomicBuffer 0 65536" 65536 4096 "AtomicBuffer 65536 384" "AtomicBuffer 70000 24" demo_cpu]
  by (simp add: AtomicBuffer_def apart_ranges_def split: prod.splits sum.splits)

end
