(* ===== verification/TermReader.thy ===== *)
theory TermReader
  imports TermBuffer
begin

text \<open>
  \<^verbatim>\<open>TermReader.h\<close> and \<^verbatim>\<open>TermBlockScanner.h\<close>: a reader hands the payloads of the committed frames of
  a term to a handler, frame by frame, and a scanner finds the end of a block of whole frames. The
  lemmas say how reading consumes the frames that the appender has left.
\<close>

section \<open>TermReader\<close>

text \<open>
  A fragment handler is given the buffer, the offset and length of the payload and the header; it
  may throw, and it may not return. It works on the memory and on a state \<open>'u\<close> of its own. Whatever is
  thrown inside the loop -- all the exceptions here derive from \<^verbatim>\<open>std::exception\<close> -- is handed to the
  exception handler.
\<close>

type_synonym 'u fragment_handler = "abuf \<Rightarrow> index_t \<Rightarrow> index_t \<Rightarrow> header \<Rightarrow> (cpu \<times> 'u, unit) oact"

text \<open>An exception handler may throw itself, or end the program: then it does not return.\<close>

type_synonym 'u exception_handler = "exn \<Rightarrow> (cpu \<times> 'u, unit) oact"

record read_outcome =
  ro_offset :: int32_t
  ro_fragmentsRead :: int32_t

text \<open>The loop returns the exception that left it, if any, the outcome so far, the header and the state.\<close>

partial_function (option) read_loop ::
    "abuf \<Rightarrow> 'u fragment_handler \<Rightarrow> int32_t \<Rightarrow> int32_t \<Rightarrow> int32_t \<Rightarrow> header \<Rightarrow> cpu \<times> 'u \<Rightarrow>
      (exn option \<times> read_outcome \<times> header \<times> (cpu \<times> 'u)) option" where
  "read_loop termBuffer handler fragmentsLimit termOffset fragmentsRead hdr s =
     (case fst (frameLengthVolatile termBuffer termOffset (fst s)) of
        Inl e \<Rightarrow> Some (Some e, \<lparr>ro_offset = termOffset, ro_fragmentsRead = fragmentsRead\<rparr>, hdr, s)
      | Inr frameLength \<Rightarrow>
          if sint frameLength \<le> 0
          then Some (None, \<lparr>ro_offset = termOffset, ro_fragmentsRead = fragmentsRead\<rparr>, hdr, s)
          else let fragmentOffset = termOffset;
                   termOffset = termOffset + align frameLength FRAME_ALIGNMENT
               in case fst (isPaddingFrame termBuffer fragmentOffset (fst s)) of
                    Inl e \<Rightarrow> Some (Some e, \<lparr>ro_offset = termOffset, ro_fragmentsRead = fragmentsRead\<rparr>, hdr, s)
                  | Inr padding \<Rightarrow>
                      if padding
                      then if sint fragmentsRead < sint fragmentsLimit \<and> sint termOffset < sint (ab_capacity termBuffer)
                           then read_loop termBuffer handler fragmentsLimit termOffset fragmentsRead hdr s
                           else Some (None, \<lparr>ro_offset = termOffset, ro_fragmentsRead = fragmentsRead\<rparr>, hdr, s)
                      else let hdr = hd_setOffset fragmentOffset (hd_setBuffer termBuffer hdr)
                           in case handler termBuffer (fragmentOffset + dh_LENGTH) (frameLength - dh_LENGTH) hdr s of
                                None \<Rightarrow> None
                              | Some (Inl e, s) \<Rightarrow>
                                  Some (Some e, \<lparr>ro_offset = termOffset, ro_fragmentsRead = fragmentsRead\<rparr>, hdr, s)
                              | Some (Inr _, s) \<Rightarrow>
                                  (let fragmentsRead = fragmentsRead + 1
                                   in if sint fragmentsRead < sint fragmentsLimit \<and> sint termOffset < sint (ab_capacity termBuffer)
                                      then read_loop termBuffer handler fragmentsLimit termOffset fragmentsRead hdr s
                                      else Some (None, \<lparr>ro_offset = termOffset, ro_fragmentsRead = fragmentsRead\<rparr>, hdr, s)))"

text \<open>
  \<^verbatim>\<open>catch (std::exception ex)\<close> makes a copy of the base class: what the exception was is lost.
\<close>

definition sliced :: "exn \<Rightarrow> exn" where
  "sliced ex = StandardException"

definition tr_read ::
    "abuf \<Rightarrow> int32_t \<Rightarrow> 'u fragment_handler \<Rightarrow> int32_t \<Rightarrow> header \<Rightarrow> 'u exception_handler \<Rightarrow> cpu \<times> 'u \<Rightarrow>
      ((exn + unit) \<times> read_outcome \<times> header \<times> (cpu \<times> 'u)) option" where
  "tr_read termBuffer termOffset handler fragmentsLimit hdr exceptionHandler s =
     (case read_loop termBuffer handler fragmentsLimit termOffset 0 hdr s of
        None \<Rightarrow> None
      | Some (None, outcome, hdr, s) \<Rightarrow> Some (Inr (), outcome, hdr, s)
      | Some (Some ex, outcome, hdr, s) \<Rightarrow> map_option (\<lambda>(r, s). (r, outcome, hdr, s)) (exceptionHandler (sliced ex) s))"

text \<open>What becomes of the exception that left the loop, if any; and a handler that goes on.\<close>

definition handled :: "'u exception_handler \<Rightarrow> exn option \<Rightarrow> (cpu \<times> 'u, unit) oact" where
  "handled eh ex = (case ex of None \<Rightarrow> oret () | Some e \<Rightarrow> eh (sliced e))"

definition thrown :: "exn + unit \<Rightarrow> exn option" where
  "thrown r = (case r of Inl e \<Rightarrow> Some e | Inr _ \<Rightarrow> None)"

abbreviation ignore :: "'u exception_handler" where
  "ignore e \<equiv> oret ()"

section \<open>TermBlockScanner\<close>

partial_function (option) scan :: "abuf \<Rightarrow> int32_t \<Rightarrow> int32_t \<Rightarrow> cpu \<Rightarrow> (exn + int32_t) option" where
  "scan termBuffer offset limit c =
     (case fst (frameLengthVolatile termBuffer offset c) of
        Inl e \<Rightarrow> Some (Inl e)
      | Inr frameLength \<Rightarrow>
          if sint frameLength \<le> 0 then Some (Inr offset)
          else let alignedFrameLength = align frameLength FRAME_ALIGNMENT;
                   offset = offset + alignedFrameLength
               in if sint offset \<ge> sint limit
                  then Some (Inr (if sint offset > sint limit then offset - alignedFrameLength else offset))
                  else scan termBuffer offset limit c)"

section \<open>A term with committed frames\<close>

text \<open>
  From \<open>p\<close> to \<open>E\<close> the term holds the frames \<open>fs\<close>; at \<open>E\<close> there is no committed frame: the length there
  is zero, or negative while an appender is writing it.
\<close>

definition readable :: "abuf \<Rightarrow> nat \<Rightarrow> byte list \<Rightarrow> cpu \<Rightarrow> nat \<Rightarrow> frame list \<Rightarrow> nat \<Rightarrow> bool" where
  "readable b cap ids c p fs E \<longleftrightarrow> ab_length b = of_nat cap \<and> cap \<le> 2 ^ 30 \<and> 8 dvd cap \<and> 8 dvd p \<and>
     frames (ab_buffer b) ids (view c) p fs E \<and> E \<le> cap \<and>
     (E < cap \<longrightarrow> sint (get_le 4 c (ab_buffer b + int E) :: int32_t) \<le> 0)"

fun is_data :: "frame \<Rightarrow> bool" where
  "is_data (Data fl bs) = True"
| "is_data (Padding n) = False"

lemma readable_index:
  assumes "readable b cap ids c p fs E" "off + n \<le> cap"
  shows "in_range b (of_nat off) n" "at b (of_nat off) = ab_buffer b + int off" "sint (of_nat off :: index_t) = int off"
proof -
  have c: "cap \<le> 1073741824" using assms(1) by (simp add: readable_def)
  then show s: "sint (of_nat off :: index_t) = int off" using assms(2) by (intro sint_of_nat32) simp
  have "sint (ab_length b) = int cap" using assms(1) c sint_of_nat32[of cap] by (simp add: readable_def)
  then show "in_range b (of_nat off) n" using assms(2) by (simp add: in_range_def s)
  show "at b (of_nat off) = ab_buffer b + int off" by (simp only: at_def s)
qed

lemma readable_end:
  assumes "readable b cap ids c p fs E"
  shows "p \<le> E" "E \<le> cap" "8 dvd E" "sint (ab_capacity b) = int cap" "E = p + sizes fs"
proof -
  have fr: "frames (ab_buffer b) ids (view c) p fs E" and p8: "8 dvd p" and cap: "E \<le> cap" "cap \<le> 1073741824"
    and len: "ab_length b = of_nat cap" using assms by (simp_all add: readable_def)
  show E: "E = p + sizes fs" by (rule frames_end[OF fr])
  then show "p \<le> E" by simp
  show "E \<le> cap" "8 dvd E" by (fact cap(1)) (rule frames_dvd[OF fr p8])
  show "sint (ab_capacity b) = int cap" using cap sint_of_nat32[of cap] by (simp add: ab_capacity_def len)
qed

lemma readable_Nil:
  assumes "readable b cap ids c p [] E" "p < cap"
  obtains v where "frameLengthVolatile b (of_nat p) c = (Inr v, c)" "sint v \<le> 0"
proof -
  have p: "E = p" "8 dvd p" "8 dvd cap" using assms(1) by (auto simp: readable_def)
  then have "p + 8 \<le> cap" using assms(2) by (elim dvdE) simp
  then have "in_range b (of_nat p) 4" "at b (of_nat p) = ab_buffer b + int p"
    using readable_index[OF assms(1), of p 4] by simp_all
  moreover have "sint (get_le 4 c (ab_buffer b + int p) :: int32_t) \<le> 0"
    using assms p(1) by (simp add: readable_def)
  ultimately show thesis using that
    by (simp add: frameLengthVolatile_def fd_lengthOffset_def layout ab_ok)
qed

lemma readable_Cons:
  assumes "readable b cap ids c p (f # fs) E"
  shows "frameLengthVolatile b (of_nat p) c = (Inr (of_nat (frame_length f)), c)"
    "isPaddingFrame b (of_nat p) c = (Inr (\<not> is_data f), c)"
    "align (of_nat (frame_length f)) FRAME_ALIGNMENT = (of_nat (frame_size f) :: index_t)"
    "sint (of_nat (frame_length f) :: int32_t) = int (frame_length f)" "24 \<le> frame_length f"
    "readable b cap ids c (p + frame_size f) fs E"
    "p + frame_size f \<le> E"
    "frame_at (ab_buffer b) ids (view c) p f"
proof -
  have fr: "frame_at (ab_buffer b) ids (view c) p f" using assms by (simp add: readable_def)
  then show "frame_at (ab_buffer b) ids (view c) p f" .
  show n: "24 \<le> frame_length f" using fr by (simp add: frame_at_def)
  have le: "p + frame_size f \<le> E" using readable_end(5)[OF assms] by simp
  then show "p + frame_size f \<le> E" .
  have cap: "E \<le> cap" "cap \<le> 1073741824" using assms by (simp_all add: readable_def)
  have fb: "frame_length f \<le> frame_size f" "8 dvd frame_size f" by (fact frame_size_bounds)+
  have r: "in_range b (of_nat p) 4" "at b (of_nat p) = ab_buffer b + int p"
    "in_range b (of_nat p + 6) 2" "at b (of_nat p + 6) = ab_buffer b + int p + 6"
    using readable_index[OF assms, of p 4] readable_index[OF assms, of "p + 6" 2] fb n le cap by simp_all
  then show "frameLengthVolatile b (of_nat p) c = (Inr (of_nat (frame_length f)), c)"
    using fr by (simp add: frameLengthVolatile_def fd_lengthOffset_def layout ab_ok get_le_def load_def frame_at_def)
  show "isPaddingFrame b (of_nat p) c = (Inr (\<not> is_data f), c)"
    using fr r by (cases f) (simp_all add: isPaddingFrame_def fd_typeOffset_def layout ab_ok get_le_def load_def frame_at_def)
  show "align (of_nat (frame_length f)) FRAME_ALIGNMENT = (of_nat (frame_size f) :: index_t)"
    using align_of_nat[of "frame_length f" 3] fb le cap by (simp add: layout frame_size_def)
  show "sint (of_nat (frame_length f) :: int32_t) = int (frame_length f)"
    using fb le cap by (intro sint_of_nat32) simp
  show "readable b cap ids c (p + frame_size f) fs E" using assms fb(2) by (simp add: readable_def)
qed

section \<open>Reading\<close>

text \<open>
  The frames a read goes through: it ends with the data frame that reaches the limit, with the
  first frame when the limit is not positive, or with the last committed frame.
\<close>

fun taken :: "nat \<Rightarrow> frame list \<Rightarrow> frame list" where
  "taken lim [] = []"
| "taken lim (f # fs) =
     f # (let left = (if is_data f then lim - 1 else lim) in if left = 0 then [] else taken left fs)"

text \<open>
  What a handler makes of them: the exception it threw, if any, the offset reached, the number of
  fragments handled and the state it is left in.
\<close>

fun deliver :: "(nat \<Rightarrow> byte \<Rightarrow> byte list \<Rightarrow> 'x \<Rightarrow> (exn + unit) \<times> 'x) \<Rightarrow> nat \<Rightarrow> frame list \<Rightarrow> nat \<Rightarrow> 'x \<Rightarrow>
    exn option \<times> nat \<times> nat \<times> 'x" where
  "deliver h p [] n x = (None, p, n, x)"
| "deliver h p (Padding k # fs) n x = deliver h (p + frame_size (Padding k)) fs n x"
| "deliver h p (Data fl bs # fs) n x =
     (case h p fl bs x of
        (Inl e, x) \<Rightarrow> (Some e, p + frame_size (Data fl bs), n, x)
      | (Inr _, x) \<Rightarrow> deliver h (p + frame_size (Data fl bs)) fs (n + 1) x)"

text \<open>
  The contract of a handler: related to an abstract state at an offset, it returns and does with the
  frame at that offset what the abstract handler \<open>h\<close> does, and leaves the term alone.
\<close>

locale fragment_client =
  fixes b :: abuf and cap :: nat and ids :: "byte list" and m :: mem
    and handler :: "'u fragment_handler" and h :: "nat \<Rightarrow> byte \<Rightarrow> byte list \<Rightarrow> 'x \<Rightarrow> (exn + unit) \<times> 'x"
    and rel :: "nat \<Rightarrow> 'x \<Rightarrow> cpu \<times> 'u \<Rightarrow> bool"
  assumes later: "rel p x s \<Longrightarrow> p \<le> q \<Longrightarrow> rel q x s"
    and keeps: "rel p x s \<Longrightarrow> ab_buffer b \<le> a \<Longrightarrow> a < ab_buffer b + int cap \<Longrightarrow> view (fst s) a = m a"
    and handles: "frame_at (ab_buffer b) ids m p (Data fl bs) \<Longrightarrow> p + 24 + length bs \<le> cap \<Longrightarrow> rel p x s \<Longrightarrow>
      hd_buffer hdr = b \<Longrightarrow> hd_offset hdr = of_nat p \<Longrightarrow>
      \<exists>s'. handler b (of_nat p + dh_LENGTH) (of_nat (length bs)) hdr s = Some (fst (h p fl bs x), s') \<and>
        rel (p + frame_size (Data fl bs)) (snd (h p fl bs x)) s'"
begin

lemma readable_rel:
  assumes "rel i x s" "readable b cap ids c p fs E" "rel j y (c, u)"
  shows "readable b cap ids (fst s) p fs E"
proof -
  have same: "view (fst s) a = view c a" if "ab_buffer b \<le> a" "a < ab_buffer b + int cap" for a
    using keeps[OF assms(1) that] keeps[OF assms(3) that] by simp
  have E: "E \<le> cap" "p \<le> E" "8 dvd E" "8 dvd cap" using readable_end[OF assms(2)] assms(2) by (simp_all add: readable_def)
  have "frames (ab_buffer b) ids (view (fst s)) p fs E"
  proof (rule frames_cong)
    show "frames (ab_buffer b) ids (view c) p fs E" using assms(2) by (simp add: readable_def)
    show "view (fst s) a = view c a" if "ab_buffer b + int p \<le> a" "a < ab_buffer b + int E" for a
      using that E by (intro same) linarith+
  qed
  moreover have "get_le 4 (fst s) (ab_buffer b + int E) = (get_le 4 c (ab_buffer b + int E) :: int32_t)" if "E < cap"
  proof -
    have "E + 8 \<le> cap" using E(3,4) that by (elim dvdE) simp
    then show ?thesis unfolding get_le_def load_def by (intro arg_cong[of _ _ dec] read_bytes_cong same) auto
  qed
  ultimately show ?thesis using assms(2) by (auto simp: readable_def)
qed

lemma read_loop_spec:
  assumes "readable b cap ids (fst s) p fs E" "rel p x s" "p < cap" "8 * n \<le> p"
    "deliver h p (taken (nat (sint lim) - n) fs) n x = (ex, q, k, x')"
  shows "\<exists>hdr' s'. read_loop b handler lim (of_nat p) (of_nat n) hdr s =
    Some (ex, \<lparr>ro_offset = of_nat q, ro_fragmentsRead = of_nat k\<rparr>, hdr', s') \<and> rel q x' s'"
  using assms
proof (induction fs arbitrary: p n hdr x s)
  case Nil
  obtain v where "frameLengthVolatile b (of_nat p) (fst s) = (Inr v, fst s)" "sint v \<le> 0"
    using readable_Nil Nil.prems(1,3) by blast
  with Nil.prems show ?case by (subst read_loop.simps) simp
next
  case (Cons f fs)
  note r = readable_Cons[OF Cons.prems(1)]
  let ?p = "p + frame_size f"
  have cap: "cap \<le> 1073741824" "E \<le> cap" using Cons.prems(1) by (simp_all add: readable_def)
  have sp: "sint (of_nat ?p :: int32_t) = int ?p" using r(7) cap by (intro sint_of_nat32) simp
  have sn: "sint (of_nat j :: int32_t) = int j" if "j \<le> n + 1" for j
    using that Cons.prems(3,4) cap by (intro sint_of_nat32) simp
  have more: "sint (of_nat j :: int32_t) < sint lim \<longleftrightarrow> nat (sint lim) - j \<noteq> 0" if "j \<le> n + 1" for j
    using sn[OF that] by linarith
  have capb: "sint (ab_capacity b) = int cap" by (rule readable_end(4)[OF Cons.prems(1)])
  have stop: "deliver h ?p (taken j fs) m y = (None, ?p, m, y)" if "\<not> ?p < cap" for j m y
  proof -
    have "sizes fs = 0" using readable_end(5)[OF r(6)] that r(7) cap by linarith
    moreover have "fs \<noteq> [] \<Longrightarrow> 24 \<le> sizes fs"
      using r(6) readable_Cons(5)[of b cap ids "fst s" ?p "hd fs" "tl fs" E] frame_size_bounds(1)[of "hd fs"]
      by (cases fs) auto
    ultimately show ?thesis by (cases fs) auto
  qed
  let ?go = "\<lambda>m hdr s. if sint (of_nat m :: int32_t) < sint lim \<and> sint (of_nat ?p :: int32_t) < sint (ab_capacity b)
        then read_loop b handler lim (of_nat ?p) (of_nat m) hdr s
        else Some (None, \<lparr>ro_offset = of_nat ?p, ro_fragmentsRead = of_nat m\<rparr>, hdr, s)"
  have cont: "\<exists>hdr' s'. ?go m hdr t =
      Some (ex, \<lparr>ro_offset = of_nat q, ro_fragmentsRead = of_nat k\<rparr>, hdr', s') \<and> rel q x' s'"
    if m: "m \<le> n + 1" and t: "rel ?p y t"
      and d: "deliver h ?p (if nat (sint lim) - m = 0 then [] else taken (nat (sint lim) - m) fs) m y = (ex, q, k, x')"
    for m y t hdr
  proof (cases "nat (sint lim) - m \<noteq> 0 \<and> ?p < cap")
    case True
    have "8 * m \<le> ?p" using m Cons.prems(4) r(5) frame_size_bounds(1)[of f] by linarith
    moreover have "readable b cap ids (fst t) ?p fs E"
      using readable_rel[OF t r(6), of p x "snd s"] Cons.prems(2) by simp
    ultimately have "\<exists>hdr' s'. read_loop b handler lim (of_nat ?p) (of_nat m) hdr t =
        Some (ex, \<lparr>ro_offset = of_nat q, ro_fragmentsRead = of_nat k\<rparr>, hdr', s') \<and> rel q x' s'"
      using Cons.IH[of t ?p y m hdr] t True d by simp
    then show ?thesis using True by (simp only: more[OF m] sp capb of_nat_less_iff if_True simp_thms)
  next
    case False
    then have "(ex, q, k, x') = (None, ?p, m, y)" using d stop[of "nat (sint lim) - m" m y] by (auto split: if_splits)
    then show ?thesis using False t by (simp only: more[OF m] sp capb of_nat_less_iff if_False prod.inject) blast
  qed
  have head: "fst (frameLengthVolatile b (of_nat p) (fst s)) = Inr (of_nat (frame_length f))"
    "fst (isPaddingFrame b (of_nat p) (fst s)) = Inr (\<not> is_data f)" using r(1,2) by simp_all
  have al: "of_nat p + align (of_nat (frame_length f)) FRAME_ALIGNMENT = (of_nat ?p :: int32_t)" using r(3) by simp
  have pos: "\<not> sint (of_nat (frame_length f) :: int32_t) \<le> 0" using r(4,5) by simp
  let ?h = "hd_setOffset (of_nat p) (hd_setBuffer b hdr)"
  have one: "of_nat n + 1 = (of_nat (n + 1) :: int32_t)" by simp
  have unf: "read_loop b handler lim (of_nat p) (of_nat n) hdr s =
      (if \<not> is_data f then ?go n hdr s
       else case handler b (of_nat p + dh_LENGTH) (of_nat (frame_length f) - dh_LENGTH) ?h s of
              None \<Rightarrow> None
            | Some (Inl e, s) \<Rightarrow> Some (Some e, \<lparr>ro_offset = of_nat ?p, ro_fragmentsRead = of_nat n\<rparr>, ?h, s)
            | Some (Inr _, s) \<Rightarrow> ?go (n + 1) ?h s)"
    by (subst read_loop.simps) (simp only: head sum.case Let_def al pos if_False one)
  show ?case
  proof (cases f)
    case (Padding j)
    then have no: "\<not> is_data f" by simp
    have "deliver h ?p (if nat (sint lim) - n = 0 then [] else taken (nat (sint lim) - n) fs) n x = (ex, q, k, x')"
      using Cons.prems(5) Padding by (simp add: Let_def)
    from cont[OF _ later[OF Cons.prems(2), of ?p] this, of hdr] no show ?thesis unfolding unf by simp
  next
    case (Data fl bs)
    then have yes: "is_data f" by simp
    have fits: "p + 24 + length bs \<le> cap" using Data r(7) cap frame_size_bounds(1)[of f] by simp
    have "frame_at (ab_buffer b) ids m p (Data fl bs)"
    proof (rule frame_at_cong)
      show "frame_at (ab_buffer b) ids (view (fst s)) p (Data fl bs)" using r(8) Data by simp
      show "m a = view (fst s) a"
        if "ab_buffer b + int p \<le> a" "a < ab_buffer b + int (p + frame_size (Data fl bs))" for a
        using that r(7) cap Data by (intro keeps[OF Cons.prems(2), symmetric]) auto
    qed
    moreover have "hd_buffer ?h = b" "hd_offset ?h = of_nat p"
      by (simp_all add: hd_buffer_def hd_offset_def hd_setOffset_def hd_setBuffer_def wrap_buffer_def)
    moreover have "(of_nat (frame_length f) - dh_LENGTH :: int32_t) = of_nat (length bs)" using Data by (simp add: layout)
    ultimately obtain s' where s': "handler b (of_nat p + dh_LENGTH) (of_nat (frame_length f) - dh_LENGTH) ?h s =
        Some (fst (h p fl bs x), s')" "rel ?p (snd (h p fl bs x)) s'"
      using handles[OF _ fits Cons.prems(2), of fl ?h] Data by auto
    obtain res y where hy: "h p fl bs x = (res, y)" by (cases "h p fl bs x")
    show ?thesis
    proof (cases res)
      case (Inl e)
      with Cons.prems(5) Data hy have "(ex, q, k, x') = (Some e, ?p, n, y)" by (simp add: Let_def)
      then show ?thesis unfolding unf using yes Inl s' hy by simp
    next
      case (Inr w)
      have "deliver h ?p (if nat (sint lim) - (n + 1) = 0 then [] else taken (nat (sint lim) - (n + 1)) fs) (n + 1) y = (ex, q, k, x')"
        using Cons.prems(5) Data Inr hy by (auto simp: Let_def split: if_splits)
      from cont[OF _ _ this, of s' ?h] yes Inr s' hy show ?thesis unfolding unf by simp
    qed
  qed
qed

lemma tr_read_spec:
  assumes "readable b cap ids (fst s) p fs E" "rel p x s" "p < cap"
    "deliver h p (taken (nat (sint lim)) fs) 0 x = (ex, q, n, x')"
  shows "\<exists>hdr' s'. rel q x' s' \<and> tr_read b (of_nat p) handler lim hdr eh s =
    map_option (\<lambda>(r, t). (r, \<lparr>ro_offset = of_nat q, ro_fragmentsRead = of_nat n\<rparr>, hdr', t)) (handled eh ex s')"
proof -
  obtain hdr' s' where "read_loop b handler lim (of_nat p) (of_nat 0) hdr s =
      Some (ex, \<lparr>ro_offset = of_nat q, ro_fragmentsRead = of_nat n\<rparr>, hdr', s')" "rel q x' s'"
    using read_loop_spec[OF assms(1,2,3), of 0 lim ex q n x' hdr] assms(4) by auto
  then show ?thesis by (intro exI[of _ hdr'] exI[of _ s']) (cases ex; simp add: tr_read_def handled_def)
qed

end

text \<open>
  C20. A read from an offset of a term with committed frames returns, having handed the data
  frames to the handler in order, padding skipped, up to the limit or the last committed frame; it
  answers the offset after the last frame it went through and the number of fragments handled. An
  exception of the handler goes to the exception handler, which may throw or not return itself, and the
  frame it was thrown for is passed over without being counted. This holds for every handler that
  returns and leaves the term alone.
\<close>

theorem read_delivers:
  assumes "fragment_client b cap ids m handler h rel"
    and "readable b cap ids (fst s) p fs E" "rel p x s" "p < cap"
    and "deliver h p (taken (nat (sint lim)) fs) 0 x = (ex, q, n, x')"
  shows "\<exists>hdr' s'. rel q x' s' \<and> tr_read b (of_nat p) handler lim hdr eh s =
    map_option (\<lambda>(r, t). (r, \<lparr>ro_offset = of_nat q, ro_fragmentsRead = of_nat n\<rparr>, hdr', t)) (handled eh ex s')"
  using fragment_client.tr_read_spec[OF assms] .

section \<open>Scanning for a block\<close>

lemma scan_spec:
  assumes "readable b cap ids c p fs E" "p < lim" "lim \<le> cap"
  shows "\<exists>xs ys. fs = xs @ ys \<and> scan b (of_nat p) (of_nat lim) c = Some (Inr (of_nat (p + sizes xs))) \<and>
    p + sizes xs \<le> lim \<and> (ys = [] \<or> lim < p + sizes xs + frame_size (hd ys))"
  using assms
proof (induction fs arbitrary: p)
  case Nil
  obtain v where "frameLengthVolatile b (of_nat p) c = (Inr v, c)" "sint v \<le> 0"
    using readable_Nil[OF Nil.prems(1)] Nil.prems(2,3) by (metis less_le_trans)
  then show ?case using Nil.prems by (subst scan.simps) simp
next
  case (Cons f fs)
  note r = readable_Cons[OF Cons.prems(1)]
  let ?p = "p + frame_size f"
  have cap: "cap \<le> 1073741824" "E \<le> cap" using Cons.prems(1) by (simp_all add: readable_def)
  have s: "sint (of_nat ?p :: int32_t) = int ?p" "sint (of_nat lim :: int32_t) = int lim"
    using r(7) cap Cons.prems(3) by (intro sint_of_nat32, simp)+
  have head: "fst (frameLengthVolatile b (of_nat p) c) = Inr (of_nat (frame_length f))" using r(1) by simp
  have al: "of_nat p + align (of_nat (frame_length f)) FRAME_ALIGNMENT = (of_nat ?p :: int32_t)" using r(3) by simp
  have pos: "\<not> sint (of_nat (frame_length f) :: int32_t) \<le> 0" using r(4,5) by simp
  have bk: "of_nat ?p - align (of_nat (frame_length f)) FRAME_ALIGNMENT = (of_nat p :: int32_t)" using r(3) by simp
  have unf: "scan b (of_nat p) (of_nat lim) c = (if lim \<le> ?p then Some (Inr (if lim < ?p then of_nat p else of_nat ?p))
      else scan b (of_nat ?p) (of_nat lim) c)"
    by (subst scan.simps) (simp only: head sum.case Let_def pos if_False al bk s of_nat_le_iff of_nat_less_iff)
  consider "lim < ?p" | "lim = ?p" | "?p < lim" by linarith
  then show ?case
  proof cases
    case 1
    then show ?thesis using unf Cons.prems(2) by (intro exI[of _ "[]"] exI[of _ "f # fs"]) simp
  next
    case 2
    have "0 < frame_size g" if "fs = g # gs" for g gs
      using readable_Cons(5)[of b cap ids c ?p g gs E] r(6) that frame_size_bounds(1)[of g] by auto
    then show ?thesis using unf 2 by (intro exI[of _ "[f]"] exI[of _ fs]) (cases fs; simp)
  next
    case 3
    from Cons.IH[OF r(6) 3 Cons.prems(3)] obtain xs ys where ih: "fs = xs @ ys"
      "scan b (of_nat ?p) (of_nat lim) c = Some (Inr (of_nat (?p + sizes xs)))" "?p + sizes xs \<le> lim"
      "ys = [] \<or> lim < ?p + sizes xs + frame_size (hd ys)" by blast
    with unf 3 show ?thesis by (intro exI[of _ "f # xs"] exI[of _ ys]) (simp add: add.assoc)
  qed
qed

text \<open>
  Scanning for a block below a limit returns the end of the last whole committed frame that
  does not pass the limit.
\<close>

theorem scan_whole_frames:
  assumes "readable b cap ids c p fs E" "p < lim" "lim \<le> cap"
  obtains xs ys where "fs = xs @ ys" "scan b (of_nat p) (of_nat lim) c = Some (Inr (of_nat (p + sizes xs)))"
    "p + sizes xs \<le> lim" "ys = [] \<or> lim < p + sizes xs + frame_size (hd ys)"
  using scan_spec[OF assms] by blast

section \<open>A concrete term\<close>

text \<open>A handler that collects the payloads, and a term with one frame of three bytes.\<close>

definition collect_payload :: "byte list list fragment_handler" where
  "collect_payload b i n hdr s = Some (Inr (), (fst s, snd s @ [load (fst s) (at b i) (unat n)]))"

definition collected :: "abuf \<Rightarrow> nat \<Rightarrow> mem \<Rightarrow> nat \<Rightarrow> byte list list \<Rightarrow> cpu \<times> byte list list \<Rightarrow> bool" where
  "collected b cap m p x s \<longleftrightarrow> snd s = x \<and> (\<forall>a. ab_buffer b \<le> a \<longrightarrow> a < ab_buffer b + int cap \<longrightarrow> view (fst s) a = m a)"

lemma collect_payload_client:
  assumes "cap \<le> 2 ^ 30"
  shows "fragment_client b cap ids m collect_payload (\<lambda>p fl bs x. (Inr (), x @ [bs])) (collected b cap m)"
proof
  fix p fl bs x s hdr
  assume fr: "frame_at (ab_buffer b) ids m p (Data fl bs)" and le: "p + 24 + length bs \<le> cap" and rel: "collected b cap m p x s"
  have s: "sint (of_nat (p + 24) :: int32_t) = int (p + 24)" using assms le by (intro sint_of_nat32) simp
  have n: "unat (of_nat (length bs) :: int32_t) = length bs"
    using assms le by (simp add: unsigned_of_nat take_bit_nat_eq_self)
  have "at b (of_nat p + dh_LENGTH) = ab_buffer b + int p + 24" using s by (simp add: at_def layout)
  moreover have "read_bytes (view (fst s)) (ab_buffer b + int p + 24) (length bs) = read_bytes m (ab_buffer b + int p + 24) (length bs)"
    using rel le by (intro read_bytes_cong) (simp add: collected_def)
  ultimately show "\<exists>s'. collect_payload b (of_nat p + dh_LENGTH) (of_nat (length bs)) hdr s = Some (fst (Inr (), x @ [bs]), s') \<and>
      collected b cap m (p + frame_size (Data fl bs)) (snd (Inr (), x @ [bs])) s'"
    using fr rel n by (simp add: collect_payload_def load_def frame_at_def collected_def)
qed (simp_all add: collected_def)

interpretation demo_client: fragment_client "AtomicBuffer 0 65536" 65536 ids m collect_payload
    "\<lambda>p fl bs x. (Inr (), x @ [bs])" "collected (AtomicBuffer 0 65536) 65536 m" for ids m
  by (rule collect_payload_client) simp

lemma demo_readable_outside:
  "\<exists>c. readable (AtomicBuffer 0 65536) 65536 (replicate 12 0) c 0 [Data flags [0, 0, 0]] 32 \<and>
    (\<forall>x\<ge>65536. view c x = view demo_cpu x)"
proof -
  have hdr: "default_header demo_term (view demo_cpu) (replicate 12 0) 0"
    using demo_term_inv by (simp add: term_inv_def log_inv_def)
  have src: "source_of 65536 demo_term (AtomicBuffer 80000 10000) 0 [0, 0, 0] demo_cpu"
    using demo_source[of 3] by (simp add: numeral_3_eq_3)
  have fit: "0 + 24 + length [0, 0, 0 :: byte] \<le> 65536" by simp
  obtain c where c: "frame_at (term_base demo_term) (replicate 12 0) (view c) 0 (Data flags [0, 0, 0])"
    "\<And>x. x < term_base demo_term + int 0 \<or> term_base demo_term + int (0 + 24 + length [0, 0, 0 :: byte]) \<le> x \<Longrightarrow>
      view c x = view demo_cpu x"
    by (rule fragment_frame_spec[OF demo_term_wf fit hdr src]) (rule that)
  have "read_bytes (view c) 32 4 = read_bytes (view demo_cpu) 32 4"
    by (rule read_bytes_cong, rule c(2)) (simp add: demo_term_def AtomicBuffer_def)
  then have "get_le 4 c 32 = (0 :: int32_t)" using demo_zero[of 32 4] by (simp add: get_le_def load_def dec_zeros)
  then show ?thesis using c
    by (intro exI[of _ c]) (simp add: readable_def demo_term_def AtomicBuffer_def frame_size_def)
qed

lemma demo_readable: "\<exists>c ids. readable (AtomicBuffer 0 65536) 65536 ids c 0 [Data flags [0, 0, 0]] 32"
  using demo_readable_outside by blast

theorem read_delivers_witness:
  "\<exists>c hdr' c'. tr_read (AtomicBuffer 0 65536) 0 collect_payload 10 (Header 0 65536) ignore (c, []) =
     Some (Inr (), \<lparr>ro_offset = 32, ro_fragmentsRead = 1\<rparr>, hdr', (c', [[0, 0, 0]]))"
proof -
  obtain c ids where r: "readable (AtomicBuffer 0 65536) 65536 ids c 0 [Data 0 [0, 0, 0]] 32" using demo_readable by blast
  have rel: "collected (AtomicBuffer 0 65536) 65536 (view c) 0 [] (c, [])" by (simp add: collected_def)
  have "deliver (\<lambda>p fl bs x. (Inr (), x @ [bs])) 0 (taken (nat (sint (10 :: int32_t))) [Data 0 [0, 0, 0]]) 0 [] =
      (None, 32, 1, [[0, 0, 0]])" by (simp add: frame_size_def)
  from read_delivers[OF demo_client.fragment_client_axioms _ rel _ this, of ids 32 "Header 0 65536" ignore] r
  show ?thesis by (auto simp: collected_def handled_def)
qed

theorem scan_whole_frames_witness:
  "\<exists>c. scan (AtomicBuffer 0 65536) 0 1024 c = Some (Inr 32)"
proof -
  obtain c ids where r: "readable (AtomicBuffer 0 65536) 65536 ids c 0 [Data 0 [0, 0, 0]] 32" using demo_readable by blast
  have lim: "0 < (1024 :: nat)" "(1024 :: nat) \<le> 65536" by simp_all
  show ?thesis
    by (rule scan_whole_frames[OF r lim], rule exI[of _ c]) (auto simp: Cons_eq_append_conv frame_size_def)
qed

end
