(* ===== verification/FragmentAssembler.thy ===== *)
theory FragmentAssembler
  imports TermReader
begin

text \<open>
  \<^verbatim>\<open>FragmentAssembler.h\<close>: a fragment handler that puts the fragments of a message together in a buffer
  per session and hands whole messages to a delegate. The buffers are allocated with \<^verbatim>\<open>new\<close>, which
  is modelled by a pointer to the memory not yet allocated; it never fails.
\<close>

section \<open>BufferBuilder\<close>

record builder =
  bb_capacity :: uint32_t
  bb_limit :: uint32_t
  bb_buffer :: addr

definition new_array :: "uint32_t \<Rightarrow> addr \<Rightarrow> addr \<times> addr" where
  "new_array n heap = (heap, heap + int (unat n))"

definition BufferBuilder :: "uint32_t \<Rightarrow> addr \<Rightarrow> builder \<times> addr" where
  "BufferBuilder initialLength heap =
     (let capacity = findNextPowerOfTwo initialLength; (p, heap) = new_array capacity heap
      in (\<lparr>bb_capacity = capacity, bb_limit = dh_LENGTH, bb_buffer = p\<rparr>, heap))"

definition bb_reset :: "builder \<Rightarrow> builder" where
  "bb_reset b = b\<lparr>bb_limit := dh_LENGTH\<rparr>"

partial_function (option) findSuitableCapacity :: "uint32_t \<Rightarrow> uint32_t \<Rightarrow> uint32_t option" where
  "findSuitableCapacity capacity requiredCapacity =
     (let capacity = push_bit 1 capacity
      in if capacity < requiredCapacity then findSuitableCapacity capacity requiredCapacity else Some capacity)"

text \<open>The operations of a builder work on it, the memory and the heap pointer.\<close>

definition ensureCapacity :: "uint32_t \<Rightarrow> builder \<Rightarrow> cpu \<Rightarrow> addr \<Rightarrow> (builder \<times> cpu \<times> addr) option" where
  "ensureCapacity additionalCapacity b c heap =
     (let requiredCapacity = bb_limit b + additionalCapacity
      in if requiredCapacity > bb_capacity b
         then case findSuitableCapacity (bb_capacity b) requiredCapacity of
                None \<Rightarrow> None
              | Some newCapacity \<Rightarrow>
                  (let (newBuffer, heap) = new_array newCapacity heap;
                       c = emit_bytes c newBuffer (load c (bb_buffer b) (unat (bb_limit b)))
                   in Some (b\<lparr>bb_buffer := newBuffer, bb_capacity := newCapacity\<rparr>, c, heap))
         else Some (b, c, heap))"

definition bb_append :: "abuf \<Rightarrow> index_t \<Rightarrow> index_t \<Rightarrow> builder \<Rightarrow> cpu \<Rightarrow> addr \<Rightarrow> (builder \<times> cpu \<times> addr) option" where
  "bb_append buffer offset len b c heap =
     (case ensureCapacity len b c heap of
        None \<Rightarrow> None
      | Some (b, c, heap) \<Rightarrow>
          (let c = emit_bytes c (bb_buffer b + int (unat (bb_limit b)))
                 (load c (ab_data buffer + sint offset) (unat len))
           in Some (b\<lparr>bb_limit := bb_limit b + len\<rparr>, c, heap)))"

section \<open>FragmentAssembler\<close>

record assembler =
  fa_initialBufferLength :: uint64_t
  fa_builders :: "int32_t \<rightharpoonup> builder"
  fa_heap :: addr

definition DEFAULT_FRAGMENT_ASSEMBLY_BUFFER_LENGTH :: uint64_t where
  "DEFAULT_FRAGMENT_ASSEMBLY_BUFFER_LENGTH = 4096"

definition FragmentAssembler :: "uint64_t \<Rightarrow> addr \<Rightarrow> assembler" where
  "FragmentAssembler initialBufferLength heap =
     \<lparr>fa_initialBufferLength = initialBufferLength, fa_builders = Map.empty, fa_heap = heap\<rparr>"

definition deleteSessionBuffer :: "int32_t \<Rightarrow> assembler \<Rightarrow> assembler" where
  "deleteSessionBuffer sessionId fa = fa\<lparr>fa_builders := (fa_builders fa)(sessionId := None)\<rparr>"

definition set_builder :: "int32_t \<Rightarrow> builder \<Rightarrow> addr \<Rightarrow> assembler \<Rightarrow> assembler" where
  "set_builder sessionId b heap fa = fa\<lparr>fa_builders := (fa_builders fa)(sessionId \<mapsto> b), fa_heap := heap\<rparr>"

text \<open>The builder of a session, constructed when there is none.\<close>

definition emplace :: "int32_t \<Rightarrow> assembler \<Rightarrow> builder \<times> addr" where
  "emplace sessionId fa =
     (case fa_builders fa sessionId of
        Some b \<Rightarrow> (b, fa_heap fa)
      | None \<Rightarrow> BufferBuilder (ucast (fa_initialBufferLength fa)) (fa_heap fa))"

definition beginMessage :: "int32_t \<Rightarrow> abuf \<Rightarrow> index_t \<Rightarrow> index_t \<Rightarrow> (cpu \<times> assembler \<times> 'u, unit) oact" where
  "beginMessage sessionId buffer offset len s =
     (case s of (c, fa, u) \<Rightarrow>
        let (b, heap) = emplace sessionId fa
        in case bb_append buffer offset len (bb_reset b) c heap of
             None \<Rightarrow> None
           | Some (b, c, heap) \<Rightarrow> Some (Inr (), (c, set_builder sessionId b heap fa, u)))"

text \<open>The header of an assembled message, written over the first bytes of the builder's buffer.\<close>

definition assemblyFrame :: "abuf \<Rightarrow> index_t \<Rightarrow> header \<Rightarrow> (cpu, unit) act" where
  "assemblyFrame msgBuffer msgLength hdr =
     bind (overlayStruct 24 msgBuffer 0) (\<lambda>frame.
     andThen (poke (\<lambda>c. put_le 4 c (frame + sint FRAME_LENGTH_OFFSET) (dh_LENGTH + msgLength)))
     (bind (hd_sessionId hdr) (\<lambda>sessionId.
     andThen (poke (\<lambda>c. put_le 4 c (frame + sint SESSION_ID_FIELD_OFFSET) sessionId))
     (bind (hd_streamId hdr) (\<lambda>streamId.
     andThen (poke (\<lambda>c. put_le 4 c (frame + sint STREAM_ID_FIELD_OFFSET) streamId))
     (bind (hd_termId hdr) (\<lambda>termId.
     andThen (poke (\<lambda>c. put_le 4 c (frame + sint TERM_ID_FIELD_OFFSET) termId))
     (andThen (poke (\<lambda>c. put_le 1 c (frame + sint FLAGS_FIELD_OFFSET) UNFRAGMENTED))
     (andThen (poke (\<lambda>c. put_le 2 c (frame + sint TYPE_FIELD_OFFSET) HDR_TYPE_DATA))
     (bind (peek (\<lambda>c. get_le 4 c (frame + sint FRAME_LENGTH_OFFSET))) (\<lambda>frameLength.
     bind (hd_frameLength hdr) (\<lambda>lastLength.
     poke (\<lambda>c. put_le 4 c (frame + sint TERM_OFFSET_FIELD_OFFSET)
       (hd_termOffset hdr - (frameLength - lastLength)))))))))))))))"

definition call_delegate :: "'u fragment_handler \<Rightarrow> abuf \<Rightarrow> index_t \<Rightarrow> index_t \<Rightarrow> header \<Rightarrow> (cpu \<times> assembler \<times> 'u, unit) oact" where
  "call_delegate delegate buffer offset len hdr s =
     (case s of (c, fa, u) \<Rightarrow>
        case delegate buffer offset len hdr (c, u) of
          None \<Rightarrow> None
        | Some (r, (c, u)) \<Rightarrow> Some (r, (c, fa, u)))"

definition deliverMessage :: "'u fragment_handler \<Rightarrow> int32_t \<Rightarrow> builder \<Rightarrow> header \<Rightarrow> (cpu \<times> assembler \<times> 'u, unit) oact" where
  "deliverMessage delegate sessionId b hdr =
     (let msgLength = bb_limit b - dh_LENGTH;
          msgBuffer = AtomicBuffer (bb_buffer b) (bb_limit b);
          assemblyHeader = hd_setOffset 0 (hd_setBuffer msgBuffer hdr)
      in obind (lift_act (assemblyFrame msgBuffer msgLength hdr)) (\<lambda>_.
         obind (call_delegate delegate msgBuffer dh_LENGTH msgLength assemblyHeader) (\<lambda>_ s.
         case s of (c, fa, u) \<Rightarrow> Some (Inr (), (c, set_builder sessionId (bb_reset b) (fa_heap fa) fa, u)))))"

definition continueMessage :: "'u fragment_handler \<Rightarrow> byte \<Rightarrow> int32_t \<Rightarrow> abuf \<Rightarrow> index_t \<Rightarrow> index_t \<Rightarrow> header \<Rightarrow>
    (cpu \<times> assembler \<times> 'u, unit) oact" where
  "continueMessage delegate flags sessionId buffer offset len hdr s =
     (case s of (c, fa, u) \<Rightarrow>
        case fa_builders fa sessionId of
          None \<Rightarrow> Some (Inr (), s)
        | Some b \<Rightarrow>
            if bb_limit b \<noteq> dh_LENGTH
            then case bb_append buffer offset len b c (fa_heap fa) of
                   None \<Rightarrow> None
                 | Some (b, c, heap) \<Rightarrow>
                     if flags AND END_FRAG = END_FRAG
                     then deliverMessage delegate sessionId b hdr (c, set_builder sessionId b heap fa, u)
                     else Some (Inr (), (c, set_builder sessionId b heap fa, u))
            else Some (Inr (), s))"

definition onFragment :: "'u fragment_handler \<Rightarrow> (assembler \<times> 'u) fragment_handler" where
  "onFragment delegate buffer offset len hdr =
     obind (lift_act (hd_flags hdr)) (\<lambda>flags.
     if flags AND UNFRAGMENTED = UNFRAGMENTED then call_delegate delegate buffer offset len hdr
     else obind (lift_act (hd_sessionId hdr)) (\<lambda>sessionId.
       if flags AND BEGIN_FRAG = BEGIN_FRAG then beginMessage sessionId buffer offset len
       else continueMessage delegate flags sessionId buffer offset len hdr))"

section \<open>Growing a buffer\<close>

lemma unat_double: "unat (w :: uint32_t) < 2 ^ 31 \<Longrightarrow> unat (push_bit 1 w) = 2 * unat w"
  by (simp add: push_bit_eq_mult unat_word_ariths(2))

lemma findSuitableCapacity_spec:
  "0 < unat cap \<Longrightarrow> unat cap < unat req \<Longrightarrow> unat req \<le> 2 ^ 31 \<Longrightarrow>
    \<exists>r. findSuitableCapacity cap req = Some r \<and> unat req \<le> unat r"
proof (induction "unat req - unat cap" arbitrary: cap rule: less_induct)
  case less
  have d: "unat (push_bit 1 cap) = 2 * unat cap" using less.prems by (intro unat_double) linarith
  show ?case
  proof (cases "push_bit 1 cap < req")
    case True
    then have "unat (push_bit 1 cap) < unat req" by (simp add: word_less_nat_alt)
    then have "\<exists>r. findSuitableCapacity (push_bit 1 cap) req = Some r \<and> unat req \<le> unat r"
      using less.prems d by (intro less.hyps) linarith+
    then show ?thesis using True by (subst findSuitableCapacity.simps) simp
  next
    case False
    then show ?thesis by (subst findSuitableCapacity.simps) (simp add: word_less_nat_alt)
  qed
qed

text \<open>
  A builder that holds the bytes \<open>acc\<close> of a message: its buffer is one of the allocated ones, behind
  room for a header.
\<close>

definition holds :: "addr \<Rightarrow> addr \<Rightarrow> cpu \<Rightarrow> builder \<Rightarrow> byte list \<Rightarrow> bool" where
  "holds heap0 heap c bd acc \<longleftrightarrow> unat (bb_limit bd) = 24 + length acc \<and> unat (bb_limit bd) \<le> unat (bb_capacity bd) \<and>
     heap0 \<le> bb_buffer bd \<and> bb_buffer bd + int (unat (bb_capacity bd)) \<le> heap \<and>
     read_bytes (view c) (bb_buffer bd + 24) (length acc) = acc"

lemma ensureCapacity_spec:
  assumes "holds heap0 heap c bd acc" "24 + length acc + n \<le> 2 ^ 31"
  obtains bd' c' heap' where "ensureCapacity (of_nat n) bd c heap = Some (bd', c', heap')"
    "holds heap0 heap' c' bd' acc" "24 + length acc + n \<le> unat (bb_capacity bd')" "heap \<le> heap'"
    "\<And>a. a < heap0 \<Longrightarrow> view c' a = view c a"
proof -
  note h = assms(1)[unfolded holds_def]
  let ?req = "bb_limit bd + of_nat n" and ?L = "24 + length acc"
  have req: "unat ?req = ?L + n"
    using h assms(2) by (simp add: unat_word_ariths(1) unat_of_nat)
  show thesis
  proof (cases "bb_capacity bd < ?req")
    case False
    then have "?L + n \<le> unat (bb_capacity bd)" using req by (simp add: word_less_nat_alt)
    then show thesis using that[of bd c heap] False assms(1) by (simp add: ensureCapacity_def Let_def)
  next
    case True
    then have "unat (bb_capacity bd) < unat ?req" by (simp add: word_less_nat_alt)
    moreover have "0 < unat (bb_capacity bd)" using h by linarith
    ultimately obtain r where r: "findSuitableCapacity (bb_capacity bd) ?req = Some r" "unat ?req \<le> unat r"
      using findSuitableCapacity_spec[of "bb_capacity bd" ?req] req assms(2) by auto
    let ?bytes = "read_bytes (view c) (bb_buffer bd) ?L"
    let ?c = "emit_bytes c heap ?bytes"
    let ?bd = "bd\<lparr>bb_buffer := heap, bb_capacity := r\<rparr>"
    have v: "view ?c = write_bytes (view c) heap ?bytes" by (simp add: mem_simps)
    have "drop 24 ?bytes = acc"
      using h read_bytes_sub[of 24 "length acc" ?L "view c" "bb_buffer bd"] by simp
    moreover have "read_bytes (view ?c) (heap + 24) (length acc) = take (length acc) (drop 24 ?bytes)"
      unfolding v by (subst read_write_inside) simp_all
    ultimately have "read_bytes (view ?c) (heap + 24) (length acc) = acc" by simp
    moreover have le: "heap0 \<le> heap" using h by linarith
    ultimately have "holds heap0 (heap + int (unat r)) ?c ?bd acc"
      using h r(2) req le by (simp add: holds_def)
    moreover have "view ?c a = view c a" if "a < heap0" for a
      using that le unfolding v by (simp add: write_bytes_outside)
    moreover have "ensureCapacity (of_nat n) bd c heap = Some (?bd, ?c, heap + int (unat r))"
      using True r(1) h by (simp add: ensureCapacity_def Let_def new_array_def load_def)
    ultimately show thesis using that[of ?bd ?c "heap + int (unat r)"] r(2) req by simp
  qed
qed

lemma bb_append_spec:
  assumes "holds heap0 heap c bd acc" "24 + length acc + length bs \<le> 2 ^ 31"
    "load c (ab_data buffer + sint offset) (length bs) = bs" "ab_data buffer + sint offset + int (length bs) \<le> heap0"
  obtains bd' c' heap' where "bb_append buffer offset (of_nat (length bs)) bd c heap = Some (bd', c', heap')"
    "holds heap0 heap' c' bd' (acc @ bs)" "heap \<le> heap'" "\<And>a. a < heap0 \<Longrightarrow> view c' a = view c a"
proof -
  let ?n = "length bs" and ?s = "ab_data buffer + sint offset"
  have n: "unat (of_nat ?n :: uint32_t) = ?n" using assms(2) by (intro unat_of_nat_small) simp
  obtain bd1 c1 heap1 where e: "ensureCapacity (of_nat ?n) bd c heap = Some (bd1, c1, heap1)"
    "holds heap0 heap1 c1 bd1 acc" "24 + length acc + ?n \<le> unat (bb_capacity bd1)" "heap \<le> heap1"
    "\<And>a. a < heap0 \<Longrightarrow> view c1 a = view c a" by (rule ensureCapacity_spec[OF assms(1,2)]) (rule that)
  note h = e(2)[unfolded holds_def]
  have src: "load c1 ?s ?n = bs"
  proof -
    have "read_bytes (view c1) ?s ?n = read_bytes (view c) ?s ?n"
      using assms(4) by (intro read_bytes_cong e(5)) linarith
    then show ?thesis using assms(3) by (simp add: load_def)
  qed
  let ?a = "bb_buffer bd1 + int (unat (bb_limit bd1))"
  let ?c = "emit_bytes c1 ?a bs" and ?bd = "bd1\<lparr>bb_limit := bb_limit bd1 + of_nat ?n\<rparr>"
  have v: "view ?c = write_bytes (view c1) ?a bs" by (simp add: mem_simps)
  have a: "?a = bb_buffer bd1 + 24 + int (length acc)" using h by simp
  have "read_bytes (view ?c) (bb_buffer bd1 + 24) (length (acc @ bs)) = acc @ bs"
  proof -
    have "read_bytes (view ?c) (bb_buffer bd1 + 24) (length acc) = read_bytes (view c1) (bb_buffer bd1 + 24) (length acc)"
      unfolding v by (rule read_write_disjoint) (use a in linarith)
    moreover have "read_bytes (view ?c) (bb_buffer bd1 + 24 + int (length acc)) ?n = bs"
      unfolding v unfolding a by (rule read_write_same) simp
    ultimately show ?thesis using h by (simp add: read_bytes_append)
  qed
  moreover have "unat (bb_limit bd1 + of_nat ?n) = 24 + length (acc @ bs)"
    using h assms(2) n by (simp add: unat_word_ariths(1))
  ultimately have "holds heap0 heap1 ?c ?bd (acc @ bs)" using h e(3) by (simp add: holds_def)
  moreover have "view ?c x = view c x" if "x < heap0" for x
    using that h e(5)[of x] unfolding v by (simp add: write_bytes_outside)
  moreover have "bb_append buffer offset (of_nat ?n) bd c heap = Some (?bd, ?c, heap1)"
    using e(1) src n by (simp add: bb_append_def Let_def)
  ultimately show thesis using that[of ?bd ?c heap1] e(4) by blast
qed

section \<open>Assembling\<close>

text \<open>The header of the assembled message is written in front of the message only.\<close>

lemma assemblyFrame_spec:
  assumes "in_range (h_buffer hdr) (h_offset hdr) 24" "24 \<le> unat lim" "unat lim < 2 ^ 31"
  obtains c' where "assemblyFrame (AtomicBuffer a lim) n hdr c = (Inr (), c')"
    "\<And>x. x < a \<or> a + 24 \<le> x \<Longrightarrow> view c' x = view c x"
proof -
  note sub = in_range_sub[OF assms(1)]
  have r: "in_range (h_buffer hdr) (h_offset hdr) 4" "in_range (h_buffer hdr) (h_offset hdr + 12) 4"
    "in_range (h_buffer hdr) (h_offset hdr + 16) 4" "in_range (h_buffer hdr) (h_offset hdr + 20) 4"
    using sub(1)[of 0 4] sub(1)[of 12 4] sub(1)[of 16 4] sub(1)[of 20 4] by simp_all
  have "sint lim = int (unat lim)" using assms(3) by (intro sint_eq_unat) simp
  then have s24: "24 \<le> sint lim" using assms(2) by linarith
  have ov: "in_range (AtomicBuffer a lim) 0 24" "at (AtomicBuffer a lim) 0 = a"
    using s24 by (simp_all add: in_range_def AtomicBuffer_def at_def)
  have "\<exists>c'. assemblyFrame (AtomicBuffer a lim) n hdr c = (Inr (), c') \<and>
      (\<forall>x. x < a \<or> a + 24 \<le> x \<longrightarrow> view c' x = view c x)"
    using r ov
    by (simp add: assemblyFrame_def overlayStruct_def hd_sessionId_def hd_streamId_def hd_termId_def hd_frameLength_def
        layout ab_ok view_put_le write_bytes_outside del: enc_numeral)
  then show thesis using that by blast
qed

text \<open>
  What the assembler does, seen from the messages: \<open>acc\<close> is the part of a message received so far and
  \<open>d\<close> the delegate.
\<close>

definition assemble :: "(byte list \<Rightarrow> 'y \<Rightarrow> (exn + unit) \<times> 'y) \<Rightarrow> nat \<Rightarrow> byte \<Rightarrow> byte list \<Rightarrow> byte list \<times> 'y \<Rightarrow>
    (exn + unit) \<times> (byte list \<times> 'y)" where
  "assemble d p fl bs x =
     (case x of (acc, y) \<Rightarrow>
        if fl AND UNFRAGMENTED = UNFRAGMENTED then (case d bs y of (r, y') \<Rightarrow> (r, (acc, y')))
        else if fl AND BEGIN_FRAG = BEGIN_FRAG then (Inr (), (bs, y))
        else if acc = [] then (Inr (), ([], y))
        else if fl AND END_FRAG = END_FRAG
        then (case d (acc @ bs) y of (Inl e, y') \<Rightarrow> (Inl e, (acc @ bs, y')) | (Inr _, y') \<Rightarrow> (Inr (), ([], y')))
        else (Inr (), (acc @ bs, y)))"

text \<open>The assembler at an offset of a term, with a part of a message of its session in the builder.\<close>

definition assembles :: "('y \<Rightarrow> cpu \<times> 'u \<Rightarrow> bool) \<Rightarrow> abuf \<Rightarrow> nat \<Rightarrow> byte list \<Rightarrow> mem \<Rightarrow> addr \<Rightarrow> uint64_t \<Rightarrow>
    nat \<Rightarrow> byte list \<times> 'y \<Rightarrow> cpu \<times> assembler \<times> 'u \<Rightarrow> bool" where
  "assembles relD b cap ids m heap0 init p x s =
     (case x of (acc, y) \<Rightarrow> case s of (c, fa, u) \<Rightarrow> relD y (c, u) \<and> length acc \<le> p \<and>
        (\<forall>a. ab_buffer b \<le> a \<longrightarrow> a < ab_buffer b + int cap \<longrightarrow> view c a = m a) \<and>
        fa_initialBufferLength fa = init \<and> heap0 \<le> fa_heap fa \<and>
        (case fa_builders fa (dec (take 4 ids)) of None \<Rightarrow> acc = [] | Some bd \<Rightarrow> holds heap0 (fa_heap fa) c bd acc))"

text \<open>
  The contract of the delegate of an assembler whose buffers are allocated from \<open>heap0\<close> on: it
  returns, does with a message what \<open>d\<close> does, and leaves the term and those buffers alone.
\<close>

locale message_client =
  fixes b :: abuf and cap :: nat and ids :: "byte list" and m :: mem and heap0 :: addr and init :: uint64_t
    and delegate :: "'u fragment_handler" and d :: "byte list \<Rightarrow> 'y \<Rightarrow> (exn + unit) \<times> 'y"
    and relD :: "'y \<Rightarrow> cpu \<times> 'u \<Rightarrow> bool"
  assumes layout_ok: "cap \<le> 2 ^ 30" "ab_length b = of_nat cap" "ab_buffer b + int cap \<le> heap0"
    and init: "24 \<le> unat init" "unat init \<le> 2 ^ 30"
    and stable: "relD y (c, u) \<Longrightarrow> (\<And>a. a < heap0 \<Longrightarrow> view c' a = view c a) \<Longrightarrow> relD y (c', u)"
    and delegates: "in_range buf i (length bs) \<Longrightarrow> load c (at buf i) (length bs) = bs \<Longrightarrow> relD y (c, u) \<Longrightarrow>
      \<exists>c' u'. delegate buf i (of_nat (length bs)) hdr (c, u) = Some (fst (d bs y), (c', u')) \<and>
        relD (snd (d bs y)) (c', u') \<and>
        (\<forall>a. ab_buffer b \<le> a \<and> a < ab_buffer b + int cap \<or> heap0 \<le> a \<longrightarrow> view c' a = view c a)"
begin

lemma frame_fields:
  assumes "frame_at (ab_buffer b) ids m p (Data fl bs)" "p + 24 + length bs \<le> cap"
    and "\<forall>a. ab_buffer b \<le> a \<longrightarrow> a < ab_buffer b + int cap \<longrightarrow> view c a = m a"
    and "hd_buffer hdr = b" "hd_offset hdr = of_nat p"
  shows "hd_flags hdr c = (Inr fl, c)" "hd_sessionId hdr c = (Inr (dec (take 4 ids)), c)"
    "in_range b (of_nat p + dh_LENGTH) (length bs)" "load c (at b (of_nat p + dh_LENGTH)) (length bs) = bs"
    "at b (of_nat p + dh_LENGTH) = ab_buffer b + int p + 24" "in_range (h_buffer hdr) (h_offset hdr) 24"
proof -
  have hb: "h_buffer hdr = b" "h_offset hdr = of_nat p" using assms(4,5) by (simp_all add: hd_buffer_def hd_offset_def)
  have cap: "cap \<le> 1073741824" using layout_ok(1) by simp
  have sc: "sint (ab_length b) = int cap" using layout_ok(2) cap sint_of_nat32[of cap] by simp
  have ix: "in_range b (of_nat p + of_nat j) n" "at b (of_nat p + of_nat j) = ab_buffer b + int p + int j"
    if "p + j + n \<le> cap" for j n
  proof -
    have "sint (of_nat (p + j) :: index_t) = int (p + j)" using that cap by (intro sint_of_nat32) simp
    then show "in_range b (of_nat p + of_nat j) n" "at b (of_nat p + of_nat j) = ab_buffer b + int p + int j"
      using that by (simp_all add: in_range_def at_def sc)
  qed
  have rd: "read_bytes (view c) (ab_buffer b + int p + int j) n = read_bytes m (ab_buffer b + int p + int j) n"
    if "p + j + n \<le> cap" for j n
    using that assms(3) by (intro read_bytes_cong) simp
  show "hd_flags hdr c = (Inr fl, c)"
    using assms(1,2) ix[of 5 1] rd[of 5 1]
    by (simp add: hd_flags_def hb layout ab_ok get_le_def load_def frame_at_def)
  have "read_bytes m (ab_buffer b + int p + 12) 4 = take 4 ids"
    using assms(1) read_bytes_sub[of 0 4 12 m "ab_buffer b + int p + 12"] by (simp add: frame_at_def)
  then show "hd_sessionId hdr c = (Inr (dec (take 4 ids)), c)"
    using assms(2) ix[of 12 4] rd[of 12 4]
    by (simp add: hd_sessionId_def hb layout ab_ok get_le_def load_def)
  show "in_range b (of_nat p + dh_LENGTH) (length bs)" "at b (of_nat p + dh_LENGTH) = ab_buffer b + int p + 24"
    using assms(2) ix[of 24 "length bs"] by (simp_all add: layout)
  then show "load c (at b (of_nat p + dh_LENGTH)) (length bs) = bs"
    using assms(1,2) rd[of 24 "length bs"] by (simp add: load_def frame_at_def)
  show "in_range (h_buffer hdr) (h_offset hdr) 24" using assms(2) ix[of 0 24] by (simp add: hb)
qed

abbreviation related :: "nat \<Rightarrow> byte list \<times> 'y \<Rightarrow> cpu \<times> assembler \<times> 'u \<Rightarrow> bool" where
  "related \<equiv> assembles relD b cap ids m heap0 init"

lemma init_builder:
  assumes "BufferBuilder (ucast init) heap = (bd, heap')" "heap0 \<le> heap"
  shows "holds heap0 heap' c (bb_reset bd) []" "heap \<le> heap'"
proof -
  have u: "unat (ucast init :: uint32_t) = unat init"
    using init(2) by (simp add: unsigned_ucast_eq take_bit_nat_eq_self)
  obtain k where "unat (findNextPowerOfTwo (ucast init)) = 2 ^ k" "unat init \<le> 2 ^ k"
    using findNextPowerOfTwo_least[of "ucast init"] init u by auto
  then show "holds heap0 heap' c (bb_reset bd) []" "heap \<le> heap'"
    using assms init(1) by (auto simp: BufferBuilder_def Let_def new_array_def holds_def bb_reset_def layout)
qed

lemma reset_holds: "holds heap0 heap c bd acc \<Longrightarrow> holds heap0 heap c (bb_reset bd) []"
  by (auto simp: holds_def bb_reset_def layout)

lemma holds_cong:
  assumes "holds heap0 heap c bd acc" "\<And>a. bb_buffer bd + 24 \<le> a \<Longrightarrow> view c' a = view c a"
  shows "holds heap0 heap c' bd acc"
proof -
  have "read_bytes (view c') (bb_buffer bd + 24) (length acc) = read_bytes (view c) (bb_buffer bd + 24) (length acc)"
    by (intro read_bytes_cong assms(2)) simp
  then show ?thesis using assms(1) by (simp add: holds_def)
qed

lemma beginMessage_related:
  assumes "related p (acc, y) (c, fa, u)" "24 + length bs \<le> 2 ^ 31"
    "load c (at buf i) (length bs) = bs" "at buf i + int (length bs) \<le> heap0" "length bs \<le> q"
  shows "\<exists>s'. beginMessage (dec (take 4 ids)) buf i (of_nat (length bs)) (c, fa, u) = Some (Inr (), s') \<and> related q (bs, y) s'"
proof -
  let ?sid = "dec (take 4 ids)"
  obtain bd heap where e: "emplace ?sid fa = (bd, heap)" by fastforce
  have h: "holds heap0 heap c (bb_reset bd) []" "heap0 \<le> heap"
    using assms(1) e init_builder(1)[of "fa_heap fa" bd heap c] init_builder(2)[of "fa_heap fa" bd heap]
    by (auto simp: assembles_def emplace_def reset_holds split: option.splits)
  have fit: "24 + length ([] :: byte list) + length bs \<le> 2 ^ 31" using assms(2) by simp
  have src: "load c (ab_data buf + sint i) (length bs) = bs" "ab_data buf + sint i + int (length bs) \<le> heap0"
    using assms(3,4) by (simp_all add: ab_data_def at_def)
  obtain bd' c' heap' where a: "bb_append buf i (of_nat (length bs)) (bb_reset bd) c heap = Some (bd', c', heap')"
    "holds heap0 heap' c' bd' ([] @ bs)" "heap \<le> heap'" "\<And>a. a < heap0 \<Longrightarrow> view c' a = view c a"
    by (rule bb_append_spec[OF h(1) fit src]) (rule that)
  have "relD y (c', u)" using stable[OF _ a(4)] assms(1) by (simp add: assembles_def)
  moreover have "view c' a = m a" if "ab_buffer b \<le> a" "a < ab_buffer b + int cap" for a
    using that a(4)[of a] assms(1) layout_ok(3) by (simp add: assembles_def)
  ultimately show ?thesis
    using a assms(1,5) h(2) e by (auto simp: beginMessage_def assembles_def set_builder_def)
qed

lemma deliverMessage_related:
  assumes rel: "related q (msg, y) (c, fa, u)" and bd: "fa_builders fa (dec (take 4 ids)) = Some bd"
    and len: "24 + length msg < 2 ^ 31" and hdr: "in_range (h_buffer hdr) (h_offset hdr) 24"
  shows "\<exists>s'. deliverMessage delegate (dec (take 4 ids)) bd hdr (c, fa, u) = Some (fst (d msg y), s') \<and>
    related q (case d msg y of (Inl e, y') \<Rightarrow> (msg, y') | (Inr _, y') \<Rightarrow> ([], y')) s'"
proof -
  have h: "holds heap0 (fa_heap fa) c bd msg" and rd: "relD y (c, u)" using rel bd by (simp_all add: assembles_def)
  note hu = h[unfolded holds_def]
  have lim: "bb_limit bd = of_nat (24 + length msg)" using hu by (metis of_nat_unat ucast_id)
  have ml: "bb_limit bd - dh_LENGTH = of_nat (length msg)" by (simp add: lim layout)
  let ?buf = "AtomicBuffer (bb_buffer bd) (bb_limit bd)" and ?hdr = "hd_setOffset 0 (hd_setBuffer (AtomicBuffer (bb_buffer bd) (bb_limit bd)) hdr)"
  obtain c1 where c1: "assemblyFrame ?buf (of_nat (length msg)) hdr c = (Inr (), c1)"
    "\<And>x. x < bb_buffer bd \<or> bb_buffer bd + 24 \<le> x \<Longrightarrow> view c1 x = view c x"
    using assemblyFrame_spec[OF hdr, of "bb_limit bd" "bb_buffer bd" "of_nat (length msg)" c] hu len by auto
  have h1: "holds heap0 (fa_heap fa) c1 bd msg" using c1(2) by (intro holds_cong[OF h]) simp
  have "relD y (c1, u)" using hu c1(2) by (intro stable[OF rd]) simp
  moreover have "sint (bb_limit bd) = int (24 + length msg)" unfolding lim using len by (rule sint_of_nat32)
  then have "in_range ?buf dh_LENGTH (length msg)" "at ?buf dh_LENGTH = bb_buffer bd + 24"
    by (simp_all add: in_range_def AtomicBuffer_def layout at_def)
  moreover have "load c1 (bb_buffer bd + 24) (length msg) = msg" using h1 by (simp add: holds_def load_def)
  ultimately obtain c2 u2 where c2: "delegate ?buf dh_LENGTH (of_nat (length msg)) ?hdr (c1, u) = Some (fst (d msg y), (c2, u2))"
    "relD (snd (d msg y)) (c2, u2)"
    "\<And>a. ab_buffer b \<le> a \<and> a < ab_buffer b + int cap \<or> heap0 \<le> a \<Longrightarrow> view c2 a = view c1 a"
    using delegates[of ?buf dh_LENGTH msg c1 y u ?hdr] by auto
  have h2: "holds heap0 (fa_heap fa) c2 bd msg" using c2(3) hu by (intro holds_cong[OF h1]) simp
  have tm: "view c2 a = m a" if "ab_buffer b \<le> a" "a < ab_buffer b + int cap" for a
  proof -
    have "a < bb_buffer bd" using that layout_ok(3) hu by linarith
    then show ?thesis using that rel c1(2)[of a] c2(3)[of a] by (simp add: assembles_def)
  qed
  have run: "deliverMessage delegate (dec (take 4 ids)) bd hdr (c, fa, u) =
      (case d msg y of (Inl e, y') \<Rightarrow> Some (Inl e, (c2, fa, u2))
       | (Inr _, y') \<Rightarrow> Some (Inr (), (c2, set_builder (dec (take 4 ids)) (bb_reset bd) (fa_heap fa) fa, u2)))"
    using c1(1) c2(1) by (cases "d msg y"; cases "fst (d msg y)")
      (simp_all add: deliverMessage_def Let_def ml call_delegate_def obind_def lift_act_def)
  show ?thesis
  proof (cases "fst (d msg y)")
    case (Inl e)
    then show ?thesis using run c2(2) h2 tm rel bd by (cases "d msg y") (simp add: assembles_def)
  next
    case (Inr w)
    then show ?thesis using run c2(2) reset_holds[OF h2] tm rel
      by (cases "d msg y") (simp add: assembles_def set_builder_def)
  qed
qed

lemma continueMessage_related:
  assumes rel: "related p (acc, y) (c, fa, u)" and fits: "p + 24 + length bs \<le> cap" and q: "p + length bs \<le> q"
    and src: "load c (at buf i) (length bs) = bs" "at buf i + int (length bs) \<le> heap0"
    and hdr: "in_range (h_buffer hdr) (h_offset hdr) 24"
    and x': "(r, x') = (if acc = [] then (Inr (), ([], y))
        else if fl AND END_FRAG = END_FRAG
        then (case d (acc @ bs) y of (Inl e, y') \<Rightarrow> (Inl e, (acc @ bs, y')) | (Inr _, y') \<Rightarrow> (Inr (), ([], y')))
        else (Inr (), (acc @ bs, y)))"
  shows "\<exists>s'. continueMessage delegate fl (dec (take 4 ids)) buf i (of_nat (length bs)) hdr (c, fa, u) = Some (r, s') \<and> related q x' s'"
proof (cases "acc = []")
  case True
  have "continueMessage delegate fl (dec (take 4 ids)) buf i (of_nat (length bs)) hdr (c, fa, u) = Some (Inr (), (c, fa, u))"
  proof (cases "fa_builders fa (dec (take 4 ids))")
    case (Some bd)
    then have "unat (bb_limit bd) = unat (dh_LENGTH :: uint32_t)" using rel True by (simp add: assembles_def holds_def layout)
    then have "bb_limit bd = dh_LENGTH" by (rule word_unat_eq_iff[THEN iffD2])
    then show ?thesis using Some by (simp add: continueMessage_def)
  qed (simp add: continueMessage_def)
  then show ?thesis using True x' rel by (auto simp: assembles_def split: option.splits)
next
  case False
  let ?sid = "dec (take 4 ids)" and ?n = "length bs"
  obtain bd where bd: "fa_builders fa ?sid = Some bd" and h: "holds heap0 (fa_heap fa) c bd acc"
    and len: "length acc \<le> p" and rd: "relD y (c, u)"
    using rel False by (auto simp: assembles_def split: option.splits)
  have cap: "cap \<le> 1073741824" using layout_ok(1) by simp
  have ne: "bb_limit bd \<noteq> dh_LENGTH" using h False by (auto simp: holds_def layout)
  have fit: "24 + length acc + ?n \<le> 2 ^ 31" using len fits cap by simp
  have src': "load c (ab_data buf + sint i) ?n = bs" "ab_data buf + sint i + int ?n \<le> heap0"
    using src by (simp_all add: ab_data_def at_def)
  obtain bd' c' heap' where a: "bb_append buf i (of_nat ?n) bd c (fa_heap fa) = Some (bd', c', heap')"
    "holds heap0 heap' c' bd' (acc @ bs)" "fa_heap fa \<le> heap'" "\<And>a. a < heap0 \<Longrightarrow> view c' a = view c a"
    by (rule bb_append_spec[OF h fit src']) (rule that)
  let ?fa = "set_builder ?sid bd' heap' fa"
  have rel': "related q (acc @ bs, y) (c', ?fa, u)"
    using a rel stable[OF rd a(4)] layout_ok(3) len q by (auto simp: assembles_def set_builder_def)
  have bd': "fa_builders ?fa ?sid = Some bd'" by (simp add: set_builder_def)
  have run: "continueMessage delegate fl ?sid buf i (of_nat ?n) hdr (c, fa, u) =
      (if fl AND END_FRAG = END_FRAG then deliverMessage delegate ?sid bd' hdr (c', ?fa, u) else Some (Inr (), (c', ?fa, u)))"
    using bd ne a(1) by (simp add: continueMessage_def)
  have "24 + length (acc @ bs) < 2 ^ 31" using len fits cap by simp
  then show ?thesis
    using run x' False rel' deliverMessage_related[OF rel' bd' _ hdr]
    by (cases "d (acc @ bs) y"; cases "fst (d (acc @ bs) y)") (auto split: if_splits)
qed

lemma onFragment_related:
  assumes fr: "frame_at (ab_buffer b) ids m p (Data fl bs)" and fits: "p + 24 + length bs \<le> cap"
    and rel: "related p x s" and hdr: "hd_buffer hdr = b" "hd_offset hdr = of_nat p"
  shows "\<exists>s'. onFragment delegate b (of_nat p + dh_LENGTH) (of_nat (length bs)) hdr s = Some (fst (assemble d p fl bs x), s') \<and>
    related (p + frame_size (Data fl bs)) (snd (assemble d p fl bs x)) s'"
proof -
  obtain acc y where x: "x = (acc, y)" by fastforce
  obtain c fa u where s: "s = (c, fa, u)" by (cases s) auto
  let ?i = "of_nat p + dh_LENGTH :: index_t" and ?q = "p + frame_size (Data fl bs)" and ?sid = "dec (take 4 ids)"
  have tm: "\<forall>a. ab_buffer b \<le> a \<longrightarrow> a < ab_buffer b + int cap \<longrightarrow> view c a = m a"
    and rd: "relD y (c, u)" using rel by (simp_all add: assembles_def x s)
  note f = frame_fields[OF fr fits tm hdr]
  have q: "p + length bs \<le> ?q" "length bs \<le> ?q" using frame_size_bounds(1)[of "Data fl bs"] by simp_all
  have below: "at b ?i + int (length bs) \<le> heap0" using f(5) fits layout_ok(3) by simp
  consider "fl AND UNFRAGMENTED = UNFRAGMENTED"
    | "fl AND UNFRAGMENTED \<noteq> UNFRAGMENTED" "fl AND BEGIN_FRAG = BEGIN_FRAG"
    | "fl AND UNFRAGMENTED \<noteq> UNFRAGMENTED" "fl AND BEGIN_FRAG \<noteq> BEGIN_FRAG" by blast
  then show ?thesis
  proof cases
    case 1
    obtain c' u' where c': "delegate b ?i (of_nat (length bs)) hdr (c, u) = Some (fst (d bs y), (c', u'))"
      "relD (snd (d bs y)) (c', u')"
      "\<And>a. ab_buffer b \<le> a \<and> a < ab_buffer b + int cap \<or> heap0 \<le> a \<Longrightarrow> view c' a = view c a"
      using delegates[OF f(3,4) rd, of hdr] by blast
    have "holds heap0 (fa_heap fa) c' bd acc" if "fa_builders fa ?sid = Some bd" for bd
    proof (rule holds_cong)
      show h: "holds heap0 (fa_heap fa) c bd acc" using that rel by (simp add: assembles_def x s)
      show "view c' a = view c a" if "bb_buffer bd + 24 \<le> a" for a
        using that h by (intro c'(3)) (simp add: holds_def)
    qed
    then have "related ?q (acc, snd (d bs y)) (c', fa, u')"
      using rel c'(2,3) q by (auto simp: assembles_def x s split: option.splits)
    then show ?thesis
      using 1 c'(1) f(1) by (auto simp: onFragment_def call_delegate_def assemble_def x s split: prod.splits)
  next
    case 2
    have "24 + length bs \<le> 2 ^ 31" using fits layout_ok(1) by simp
    from beginMessage_related[OF rel[unfolded x s] this f(4) below q(2)] 2 f(1,2) show ?thesis
      by (auto simp: onFragment_def assemble_def x s)
  next
    case 3
    obtain r x' where rx: "(r, x') = assemble d p fl bs x" by (metis surj_pair)
    from rx have "\<exists>s'. continueMessage delegate fl ?sid b ?i (of_nat (length bs)) hdr (c, fa, u) = Some (r, s') \<and> related ?q x' s'"
      by (intro continueMessage_related[OF rel[unfolded x s] fits q(1) f(4) below f(6)]) (use 3 in \<open>simp add: assemble_def x\<close>)
    with 3 f(1,2) rx[symmetric] show ?thesis by (auto simp: onFragment_def s)
  qed
qed

sublocale assembled: fragment_client b cap ids m "onFragment delegate" "assemble d" related
proof
  show "related q x s" if "related p x s" "p \<le> q" for p q x s
    using that by (auto simp: assembles_def split: prod.splits)
  show "view (fst s) a = m a" if "related p x s" "ab_buffer b \<le> a" "a < ab_buffer b + int cap" for p x s a
    using that by (auto simp: assembles_def split: prod.splits)
qed (rule onFragment_related)

lemmas onFragment_client = assembled.fragment_client_axioms

end

section \<open>Whole messages\<close>

lemma assemble_steps:
  "assemble d p BEGIN_FRAG bs (acc, y) = (Inr (), (bs, y))"
  "acc \<noteq> [] \<Longrightarrow> assemble d p 0 bs (acc, y) = (Inr (), (acc @ bs, y))"
  "acc \<noteq> [] \<Longrightarrow> d (acc @ bs) y = (Inr (), y') \<Longrightarrow> assemble d p END_FRAG bs (acc, y) = (Inr (), ([], y'))"
  by (simp_all add: assemble_def layout UNFRAGMENTED_def)

lemma deliver_rest:
  assumes "acc \<noteq> []" "d (acc @ bs) y = (Inr (), y')" "0 < P"
  shows "deliver (assemble d) p (fragments P 0 bs @ fs) n (acc, y) =
    deliver (assemble d) (p + sizes (fragments P 0 bs)) fs (n + length (fragments P 0 bs)) ([], y')"
  using assms
proof (induction "length bs" arbitrary: bs acc p n rule: less_induct)
  case less
  show ?case
  proof (cases "length bs \<le> P")
    case True
    then show ?thesis using less.prems by (simp add: fragments.simps assemble_steps)
  next
    case False
    have "deliver (assemble d) q (fragments P 0 (drop P bs) @ fs) k (acc @ take P bs, y) =
        deliver (assemble d) (q + sizes (fragments P 0 (drop P bs))) fs (k + length (fragments P 0 (drop P bs))) ([], y')" for q k
      using less.prems False by (intro less.hyps) simp_all
    then show ?thesis using False less.prems
      by (subst (1 2 3) fragments.simps) (simp add: assemble_steps add.assoc)
  qed
qed

lemma deliver_message:
  assumes "24 < F" "fl AND UNFRAGMENTED = UNFRAGMENTED" "d bs y = (Inr (), y')"
  shows "deliver (assemble d) p (message_frames F fl bs @ fs) n ([], y) =
    deliver (assemble d) (p + sizes (message_frames F fl bs)) fs (n + length (message_frames F fl bs)) ([], y')"
proof (cases "length bs + 24 \<le> F")
  case True
  then show ?thesis using assms by (simp add: message_frames_def assemble_def)
next
  case False
  let ?P = "F - 24"
  have P: "0 < ?P" "\<not> length bs \<le> ?P" using False assms(1) by linarith+
  then have "take ?P bs \<noteq> []" by auto
  then have "deliver (assemble d) q (fragments ?P 0 (drop ?P bs) @ fs) k (take ?P bs, y) =
      deliver (assemble d) (q + sizes (fragments ?P 0 (drop ?P bs))) fs (k + length (fragments ?P 0 (drop ?P bs))) ([], y')" for q k
    using assms(3) P(1) by (intro deliver_rest) simp_all
  then show ?thesis using False P
    by (simp add: message_frames_def, subst (1 2 3) fragments.simps) (simp add: assemble_steps add.assoc)
qed

lemma deliver_messages:
  assumes "24 < F" "fl AND UNFRAGMENTED = UNFRAGMENTED" "\<And>msg y. fst (d msg y) = Inr ()"
  shows "deliver (assemble d) p (concat (map (message_frames F fl) msgs)) n ([], y) =
    (None, p + sizes (concat (map (message_frames F fl) msgs)), n + length (concat (map (message_frames F fl) msgs)),
     ([], fold (\<lambda>msg y. snd (d msg y)) msgs y))"
proof (induction msgs arbitrary: p n y)
  case (Cons msg msgs)
  have "d msg y = (Inr (), snd (d msg y))" using assms(3)[of msg y] by (cases "d msg y") simp
  from deliver_message[where d = d and bs = msg and y = y, OF assms(1,2) this,
      where fs = "concat (map (message_frames F fl) msgs)"] Cons show ?case by (simp add: add.assoc)
qed simp

lemma taken_all: "length fs \<le> lim \<Longrightarrow> taken lim fs = fs"
proof (induction fs arbitrary: lim)
  case (Cons f fs)
  have "taken (lim - 1) fs = fs" "taken lim fs = fs" using Cons.prems by (intro Cons.IH, simp)+
  moreover have "lim - 1 = 0 \<Longrightarrow> fs = []" using Cons.prems by (cases fs) auto
  ultimately show ?case using Cons.prems by (auto simp: Let_def)
qed simp

text \<open>
  C22. Reading a term that holds the frames of a sequence of messages through a fragment assembler
  hands the delegate exactly the messages, whole and in order, however they were fragmented, and
  leaves no partial message behind.
\<close>

theorem assembler_delivers_messages:
  fixes msgs :: "byte list list" and F :: nat and fl :: byte
  defines "fs \<equiv> concat (map (message_frames F fl) msgs)"
  assumes client: "message_client b cap heap0 init delegate d relD"
    and d: "\<And>msg y. fst (d msg y) = Inr ()"
    and F: "24 < F" "fl AND UNFRAGMENTED = UNFRAGMENTED"
    and lim: "length fs \<le> nat (sint lim)"
    and p: "readable b cap ids (fst s) p fs E" "p < cap" "assembles relD b cap ids m heap0 init p ([], y) s"
  shows "\<exists>hdr' s'. tr_read b (of_nat p) (onFragment delegate) lim hdr eh s =
      Some (Inr (), \<lparr>ro_offset = of_nat E, ro_fragmentsRead = of_nat (length fs)\<rparr>, hdr', s') \<and>
    assembles relD b cap ids m heap0 init E ([], fold (\<lambda>msg y. snd (d msg y)) msgs y) s'"
proof -
  have fc: "fragment_client b cap ids m (onFragment delegate) (assemble d) (assembles relD b cap ids m heap0 init)"
    by (rule message_client.onFragment_client[OF client])
  have "deliver (assemble d) p (taken (nat (sint lim)) fs) 0 ([], y) =
      (None, E, length fs, ([], fold (\<lambda>msg y. snd (d msg y)) msgs y))"
    using deliver_messages[where d = d, OF F d, of p msgs 0 y] readable_end(5)[OF p(1)] taken_all[OF lim] by (simp add: fs_def)
  from fragment_client.tr_read_spec[OF fc p(1,3,2) this, of hdr eh] show ?thesis by (auto simp: handled_def)
qed

section \<open>A concrete assembler\<close>

interpretation demo_messages: message_client "AtomicBuffer 0 65536" 65536 ids m 100000 4096 collect_payload
    "\<lambda>bs x. (Inr (), x @ [bs])" "\<lambda>x s. snd s = x" for ids m
proof
  show "\<exists>c' u'. collect_payload buf i (of_nat (length bs)) hdr (c, u) = Some (fst (Inr (), y @ [bs]), (c', u')) \<and>
      snd (c', u') = snd (Inr (), y @ [bs]) \<and>
      (\<forall>a. ab_buffer (AtomicBuffer 0 65536) \<le> a \<and> a < ab_buffer (AtomicBuffer 0 65536) + int 65536 \<or> 100000 \<le> a \<longrightarrow>
        view c' a = view c a)"
    if "in_range buf i (length bs)" "load c (at buf i) (length bs) = bs" "snd (c, u) = y" for buf i bs c y u hdr
  proof -
    have "length bs < 2 ^ 31" using in_range_less[OF that(1)] that(1) by (simp add: in_range_def)
    then have "unat (of_nat (length bs) :: int32_t) = length bs" by (intro unat_of_nat_small) simp
    then show ?thesis using that by (simp add: collect_payload_def)
  qed
qed (simp_all add: AtomicBuffer_def)

theorem assembler_delivers_messages_witness:
  "\<exists>c hdr' c' fa'. tr_read (AtomicBuffer 0 65536) 0 (onFragment collect_payload) 10 (Header 0 65536) ignore
      (c, FragmentAssembler 4096 100000, []) =
    Some (Inr (), \<lparr>ro_offset = 32, ro_fragmentsRead = 1\<rparr>, hdr', (c', fa', [[0, 0, 0]]))"
proof -
  obtain c ids where r: "readable (AtomicBuffer 0 65536) 65536 ids c 0 [Data UNFRAGMENTED [0, 0, 0]] 32"
    using demo_readable by blast
  let ?s = "(c, FragmentAssembler 4096 100000, []) :: cpu \<times> assembler \<times> byte list list"
  have mf: "concat (map (message_frames 4096 UNFRAGMENTED) [[0, 0, 0]]) = [Data UNFRAGMENTED [0, 0, 0]]"
    by (simp add: message_frames_def)
  have rel: "assembles (\<lambda>x s. snd s = x) (AtomicBuffer 0 65536) 65536 ids (view c) 100000 4096 0 ([], []) ?s"
    by (simp add: assembles_def FragmentAssembler_def)
  have r': "readable (AtomicBuffer 0 65536) 65536 ids (fst ?s) 0 (concat (map (message_frames 4096 UNFRAGMENTED) [[0, 0, 0]])) 32"
    using r mf by simp
  obtain hdr' s' where "tr_read (AtomicBuffer 0 65536) (of_nat 0) (onFragment collect_payload) 10 (Header 0 65536) ignore ?s =
      Some (Inr (), \<lparr>ro_offset = of_nat 32, ro_fragmentsRead = of_nat 1\<rparr>, hdr', s')"
    "assembles (\<lambda>x s. snd s = x) (AtomicBuffer 0 65536) 65536 ids (view c) 100000 4096 32 ([], [[0, 0, 0]]) s'"
    using assembler_delivers_messages[OF demo_messages.message_client_axioms _ _ _ _ r' _ rel,
        where lim = 10 and hdr = "Header 0 65536" and eh = ignore] mf by auto
  then show ?thesis by (cases s') (auto simp: assembles_def)
qed

end
