(* ===== verification/LogBuffers.thy ===== *)
theory LogBuffers
  imports LogBuffer MemoryMappedFile
begin

text \<open>
  \<^verbatim>\<open>LogBuffers.h\<close> and \<^verbatim>\<open>LogBuffers.cpp\<close>: the buffers of a log -- three terms, the metadata of each and
  the metadata of the log, in this order -- laid over a mapped file or over given memory. A log of
  2 GB or more is mapped in pieces. The system calls are those of \<open>posix\<close>.
\<close>

section \<open>LogBuffers\<close>

record log_buffers =
  lg_memoryMappedFiles :: "mmfile list"
  lg_buffers :: "abuf list"

definition MAX_SINGLE_MAPPING_SIZE :: int64_t where
  "MAX_SINGLE_MAPPING_SIZE = 0x7FFFFFFF"

definition atomicBuffer :: "log_buffers \<Rightarrow> nat \<Rightarrow> abuf" where
  "atomicBuffer lg index = lg_buffers lg ! index"

text \<open>The buffers of a log mapped as a whole at \<open>basePtr\<close>.\<close>

definition single_mapping :: "addr \<Rightarrow> int64_t \<Rightarrow> int64_t \<Rightarrow> abuf list" where
  "single_mapping basePtr logLength termLength =
     (let metaDataSectionOffset = ucast (termLength * scast PARTITION_COUNT) :: index_t
      in map (\<lambda>i. wrap (basePtr + sint (of_nat i * termLength)) (ucast termLength) AtomicBuffer_empty) [0..<3] @
         map (\<lambda>i. let metaDataOffset = metaDataSectionOffset + of_nat i * TERM_META_DATA_LENGTH
                in wrap (basePtr + sint metaDataOffset) TERM_META_DATA_LENGTH AtomicBuffer_empty) [0..<3] @
         [wrap (basePtr + sint (logLength - scast LOG_META_DATA_LENGTH)) LOG_META_DATA_LENGTH AtomicBuffer_empty])"

text \<open>The mappings of the terms of a larger log, one after the other.\<close>

fun map_terms :: "posix \<Rightarrow> string \<Rightarrow> int64_t \<Rightarrow> nat list \<Rightarrow> exn + mmfile list" where
  "map_terms os filename termLength [] = Inr []"
| "map_terms os filename termLength (i # is) =
     (case mapExisting_range os filename (of_nat i * termLength) termLength of
        Inl e \<Rightarrow> Inl e
      | Inr f \<Rightarrow>
          (case map_terms os filename termLength is of Inl e \<Rightarrow> Inl e | Inr fs \<Rightarrow> Inr (f # fs)))"

definition big_metaDataSectionOffset :: "int64_t \<Rightarrow> int64_t" where
  "big_metaDataSectionOffset termLength = scast (ucast (termLength * scast PARTITION_COUNT) :: index_t)"

definition big_metaDataSectionLength :: "int64_t \<Rightarrow> int64_t \<Rightarrow> int64_t" where
  "big_metaDataSectionLength logLength termLength =
     scast (ucast (logLength - big_metaDataSectionOffset termLength) :: index_t)"

definition separate_mappings :: "posix \<Rightarrow> string \<Rightarrow> int64_t \<Rightarrow> int64_t \<Rightarrow> exn + log_buffers" where
  "separate_mappings os filename logLength termLength =
     (let metaDataSectionOffset = big_metaDataSectionOffset termLength;
          metaDataSectionLength = big_metaDataSectionLength logLength termLength
      in case mapExisting_range os filename metaDataSectionOffset metaDataSectionLength of
           Inl e \<Rightarrow> Inl e
         | Inr meta \<Rightarrow>
             (case map_terms os filename termLength [0, 1, 2] of
                Inl e \<Rightarrow> Inl e
              | Inr terms \<Rightarrow>
                  (let metaDataBasePtr = getMemoryPtr meta
                   in Inr \<lparr>lg_memoryMappedFiles = meta # terms,
                       lg_buffers =
                         map (\<lambda>f. wrap (getMemoryPtr f) (ucast termLength) AtomicBuffer_empty) terms @
                         map (\<lambda>i. wrap (metaDataBasePtr + sint (of_nat i * TERM_META_DATA_LENGTH)) TERM_META_DATA_LENGTH
                           AtomicBuffer_empty) [0..<3] @
                         [wrap (metaDataBasePtr + sint (metaDataSectionLength - scast LOG_META_DATA_LENGTH))
                           LOG_META_DATA_LENGTH AtomicBuffer_empty]\<rparr>)))"

definition LogBuffers_file :: "posix \<Rightarrow> string \<Rightarrow> (cpu, log_buffers) act" where
  "LogBuffers_file os filename =
     (let logLength = getFileSize os filename;
          termLength = computeTermLength logLength
      in andThen (checkTermLength termLength)
        (if sint logLength < sint MAX_SINGLE_MAPPING_SIZE
         then bind (ofSum (mapExisting os filename)) (\<lambda>f.
           ret \<lparr>lg_memoryMappedFiles = [f], lg_buffers = single_mapping (getMemoryPtr f) logLength termLength\<rparr>)
         else ofSum (separate_mappings os filename logLength termLength)))"

text \<open>The constructor for given memory computes with \<^verbatim>\<open>index_t\<close> throughout.\<close>

definition LogBuffers_address :: "addr \<Rightarrow> index_t \<Rightarrow> log_buffers" where
  "LogBuffers_address address len =
     (let termLength = ucast (computeTermLength (scast len)) :: index_t;
          metaDataSectionOffset = termLength * PARTITION_COUNT
      in \<lparr>lg_memoryMappedFiles = [],
          lg_buffers =
            map (\<lambda>i. wrap (address + sint (of_nat i * termLength)) termLength AtomicBuffer_empty) [0..<3] @
            map (\<lambda>i. let metaDataOffset = metaDataSectionOffset + of_nat i * TERM_META_DATA_LENGTH
                   in wrap (address + sint metaDataOffset) TERM_META_DATA_LENGTH AtomicBuffer_empty) [0..<3] @
            [wrap (address + sint (len - LOG_META_DATA_LENGTH)) LOG_META_DATA_LENGTH AtomicBuffer_empty]\<rparr>)"

section \<open>The layout of a log\<close>

text \<open>A log of three terms of \<open>L\<close> bytes at an address, in all \<open>3 * L + 1792\<close> bytes.\<close>

definition log_layout :: "addr \<Rightarrow> nat \<Rightarrow> abuf list" where
  "log_layout a L =
     map (\<lambda>i. AtomicBuffer (a + int (i * L)) (of_nat L)) [0..<3] @
     map (\<lambda>i. AtomicBuffer (a + int (3 * L + i * 384)) 384) [0..<3] @
     [AtomicBuffer (a + int (3 * L + 1152)) 640]"

lemma log_layout_nth:
  "i < 3 \<Longrightarrow> log_layout a L ! i = AtomicBuffer (a + int (i * L)) (of_nat L)"
  "i < 3 \<Longrightarrow> log_layout a L ! (i + 3) = AtomicBuffer (a + int (3 * L + i * 384)) 384"
  "log_layout a L ! 6 = AtomicBuffer (a + int (3 * L + 1152)) 640"
  by (simp_all add: log_layout_def nth_append)

lemma ucast_nat: "n < 2 ^ 64 \<Longrightarrow> (ucast (of_nat n :: int64_t) :: index_t) = of_nat n"
  by (simp add: unsigned_of_nat take_bit_nat_eq_self)

lemma wrap_empty: "wrap p n AtomicBuffer_empty = AtomicBuffer p n"
  by (simp add: wrap_def AtomicBuffer_empty_def AtomicBuffer_def)

lemma upt3: "[0..<3] = [0, 1, 2 :: nat]"
  by (simp add: upt_rec)

lemma log_buffers_address:
  assumes "L \<le> 2 ^ 29"
  shows "lg_buffers (LogBuffers_address a (of_nat (3 * L + 1792))) = log_layout a L"
proof -
  have "3 * L + 1792 < 2 ^ 31" "L < 2 ^ 60" using assms by simp_all
  then have ct: "computeTermLength (scast (of_nat (3 * L + 1792) :: index_t)) = of_nat L"
    using scast_of_nat[of "3 * L + 1792"] computeTermLength_nat(1)[of L] by (simp only:)
  have t: "ucast (computeTermLength (scast (of_nat (3 * L + 1792) :: index_t))) = (of_nat L :: index_t)"
    unfolding ct using assms by (intro ucast_nat) simp
  have s: "sint (of_nat n :: index_t) = int n" if "n \<le> 3 * L + 1152" for n
    using that assms by (intro sint_of_nat32) simp
  have e: "of_nat (3 * L + 1792) - LOG_META_DATA_LENGTH = (of_nat (3 * L + 1152) :: index_t)" by (simp add: layout)
  have m: "(of_nat L :: index_t) * PARTITION_COUNT + of_nat i * TERM_META_DATA_LENGTH = of_nat (3 * L + i * 384)" for i
    by (simp add: layout mult.commute)
  have i: "of_nat i * (of_nat L :: index_t) = of_nat (i * L)" for i by simp
  show ?thesis
    unfolding LogBuffers_address_def Let_def t m i e log_layout_def wrap_empty
    using s by (simp add: upt3 layout del: of_nat_add of_nat_mult)
qed

text \<open>A file mapped as a whole.\<close>

lemma single_mapping_layout:
  assumes "3 * L + 1792 < 2 ^ 31 - 1"
  shows "single_mapping a (of_nat (3 * L + 1792)) (of_nat L) = log_layout a L"
proof -
  have s: "sint (of_nat n :: int64_t) = int n" "sint (of_nat n :: index_t) = int n" "ucast (of_nat n :: int64_t) = (of_nat n :: index_t)"
    if "n \<le> 3 * L + 1792" for n
    using that assms by (auto intro: sint_of_nat64 sint_of_nat32 ucast_nat)
  have m: "(of_nat L :: int64_t) * scast PARTITION_COUNT = of_nat (3 * L)" by (simp add: layout mult.commute)
  have e: "of_nat (3 * L + 1792) - scast LOG_META_DATA_LENGTH = (of_nat (3 * L + 1152) :: int64_t)" by (simp add: layout)
  have d: "of_nat (3 * L) + of_nat i * TERM_META_DATA_LENGTH = (of_nat (3 * L + i * 384) :: index_t)" for i
    by (simp add: layout)
  have i: "of_nat i * (of_nat L :: int64_t) = of_nat (i * L)" for i by simp
  have u: "ucast (of_nat (3 * L) :: int64_t) = (of_nat (3 * L) :: index_t)" "ucast (of_nat L :: int64_t) = (of_nat L :: index_t)"
    by (intro s(3), simp)+
  show ?thesis
    unfolding single_mapping_def Let_def m u e d i log_layout_def wrap_empty
    using s(1,2) by (simp add: upt3 layout del: of_nat_add of_nat_mult)
qed

lemma checkTermLength_nat:
  assumes "L < 2 ^ 60"
  shows "checkTermLength (of_nat L) c = (if 65536 \<le> L \<and> 8 dvd L then Inr () else Inl IllegalStateException, c)"
proof -
  have s: "sint (of_nat L :: int64_t) = int L" using assms by (intro sint_of_nat64) simp
  have "(of_nat L :: int64_t) AND 7 = 0 \<longleftrightarrow> 8 dvd L" using assms by (intro and_7_iff) simp
  then show ?thesis by (simp add: checkTermLength_def andThen_def bind_def layout s)
qed

text \<open>
  C13. Opening the file of a log: a log of terms of 64 KB to 512 MB, a multiple of the frame alignment, which
  is shorter than 2 GB, is mapped as a whole and gets exactly the buffers that the same log has in given memory;
  terms that are too short or not such a multiple are refused. Of the largest legal terms, 1 GB, no log can be
  opened: the offset of the metadata is cut to 32 bits and, with length and offset swapped in the
  mapping call, a mapping of almost the whole address space is requested.
\<close>

theorem log_file_layout:
  assumes "px_stat os name = Some (of_nat (3 * L + 1792))" "px_fstat os name = of_nat (3 * L + 1792)"
    and "px_open os name False" "px_mmap os (of_nat (3 * L + 1792)) 0 = Some a" "L < 2 ^ 60"
  shows "(\<not> (65536 \<le> L \<and> 8 dvd L) \<longrightarrow> LogBuffers_file os name c = (Inl IllegalStateException, c)) \<and>
    (65536 \<le> L \<and> 8 dvd L \<and> L \<le> 2 ^ 29 \<longrightarrow> (\<exists>lg. LogBuffers_file os name c = (Inr lg, c) \<and>
      lg_buffers lg = log_layout a L \<and> lg_buffers lg = lg_buffers (LogBuffers_address a (of_nat (3 * L + 1792))))) \<and>
    (L = 2 ^ 30 \<and> px_mmap os (- (2 ^ 30)) 1792 = None \<longrightarrow> LogBuffers_file os name c = (Inl IOException, c))"
proof -
  have tl: "computeTermLength (getFileSize os name) = of_nat L"
    unfolding getFileSize_def assms(1) option.case by (rule computeTermLength_nat(1)[OF assms(5)])
  have ln: "getFileSize os name = of_nat (3 * L + 1792)" by (simp add: getFileSize_def assms(1))
  have s: "sint (of_nat (3 * L + 1792) :: int64_t) = int (3 * L + 1792)" using assms(5) by (intro sint_of_nat64) simp
  have mp: "mapExisting os name = Inr \<lparr>mm_memory = a, mm_memorySize = of_nat (3 * L + 1792)\<rparr>"
    unfolding mapExisting_def MemoryMappedFile3_def doMapping_def using assms(2-4) by (simp add: Let_def)
  have run: "LogBuffers_file os name c = (if \<not> (65536 \<le> L \<and> 8 dvd L) then (Inl IllegalStateException, c)
      else if 3 * L + 1792 < 2147483647
        then (Inr \<lparr>lg_memoryMappedFiles = [\<lparr>mm_memory = a, mm_memorySize = of_nat (3 * L + 1792)\<rparr>],
          lg_buffers = single_mapping a (of_nat (3 * L + 1792)) (of_nat L)\<rparr>, c)
        else (separate_mappings os name (of_nat (3 * L + 1792)) (of_nat L), c))"
    unfolding LogBuffers_file_def Let_def tl unfolding ln s mp
    using checkTermLength_nat[OF assms(5)]
    by (simp add: andThen_def bind_def getMemoryPtr_def MAX_SINGLE_MAPPING_SIZE_def ofSum_def flip: of_nat_add)
  have "separate_mappings os name (of_nat (3 * L + 1792)) (of_nat L) = Inl IOException"
    if "L = 2 ^ 30" "px_mmap os (- (2 ^ 30)) 1792 = None"
    using that assms(3)
    by (simp add: separate_mappings_def Let_def big_metaDataSectionOffset_def big_metaDataSectionLength_def layout
        mapExisting_range_def MemoryMappedFile3_def doMapping_def)
  then show ?thesis
    using run single_mapping_layout[of L a] log_buffers_address[of L a] by auto
qed

definition demo_files :: posix where
  "demo_files = \<lparr>px_stat = (\<lambda>f. Some 198400), px_fstat = (\<lambda>f. 198400), px_open = (\<lambda>f w. True),
     px_write = (\<lambda>i n. n), px_mmap = (\<lambda>n i. Some 4096), px_pagesize = 4096\<rparr>"

theorem log_file_layout_witness:
  "\<exists>lg. LogBuffers_file demo_files ''log'' blank = (Inr lg, blank) \<and> lg_buffers lg = log_layout 4096 65536"
  using log_file_layout[of demo_files "''log''" 65536 4096 blank] by (auto simp: demo_files_def)

end
