(* ===== verification/CountersManager.thy ===== *)
theory CountersManager
  imports AtomicBuffer BitUtil
begin

text \<open>
  \<^verbatim>\<open>CountersManager.h\<close>, \<^verbatim>\<open>AtomicCounter.h\<close> and \<^verbatim>\<open>status/UnsafeBufferPosition.h\<close> with its wrappers: counters
  in a shared buffer, each with a label, numbered by an identifier that is allocated and freed. An
  operation of the manager works on the memory and on the manager's own fields.
\<close>

section \<open>CountersManager\<close>

definition LABEL_LENGTH :: index_t where [layout]: "LABEL_LENGTH = of_nat CACHE_LINE_LENGTH * 2"

definition COUNTER_LENGTH :: index_t where [layout]: "COUNTER_LENGTH = of_nat CACHE_LINE_LENGTH * 2"

definition UNREGISTERED_LABEL_LENGTH :: index_t where [layout]: "UNREGISTERED_LABEL_LENGTH = - 1"

record counters_manager =
  cm_highwaterMark :: index_t
  cm_freeList :: "int32_t list"
  cm_countersBuffer :: abuf
  cm_labelsBuffer :: abuf

definition CountersManager :: "abuf \<Rightarrow> abuf \<Rightarrow> counters_manager" where
  "CountersManager labelsBuffer countersBuffer =
     \<lparr>cm_highwaterMark = 0, cm_freeList = [], cm_countersBuffer = countersBuffer, cm_labelsBuffer = labelsBuffer\<rparr>"

definition counterOffset :: "int32_t \<Rightarrow> index_t" where
  "counterOffset counterId = counterId * COUNTER_LENGTH"

definition labelOffset :: "int32_t \<Rightarrow> index_t" where
  "labelOffset counterId = counterId * LABEL_LENGTH"

definition labelsBuffer :: "counters_manager \<Rightarrow> abuf" where
  "labelsBuffer cm = cm_labelsBuffer cm"

definition valuesBuffer :: "counters_manager \<Rightarrow> abuf" where
  "valuesBuffer cm = cm_countersBuffer cm"

text \<open>The callback of \<^verbatim>\<open>forEach\<close> works on a state \<open>'u\<close> of its own.\<close>

partial_function (option) forEach_loop ::
    "(int32_t \<Rightarrow> byte list \<Rightarrow> 'u \<Rightarrow> 'u) \<Rightarrow> abuf \<Rightarrow> index_t \<Rightarrow> int32_t \<Rightarrow> cpu \<Rightarrow> 'u \<Rightarrow> (exn option \<times> 'u) option" where
  "forEach_loop f labels labelsOffset counterId c u =
     (if sint labelsOffset < sint (ab_capacity labels - 4)
      then case fst (ab_getInt32 labels labelsOffset c) of
             Inl e \<Rightarrow> Some (Some e, u)
           | Inr size_ \<Rightarrow>
               if size_ = 0 then Some (None, u)
               else if size_ \<noteq> UNREGISTERED_LABEL_LENGTH
               then case fst (ab_getStringUtf8 labels labelsOffset c) of
                      Inl e \<Rightarrow> Some (Some e, u)
                    | Inr label \<Rightarrow>
                        forEach_loop f labels (labelsOffset + LABEL_LENGTH) (counterId + 1) c (f counterId label u)
               else forEach_loop f labels (labelsOffset + LABEL_LENGTH) (counterId + 1) c u
      else Some (None, u))"

definition forEach :: "counters_manager \<Rightarrow> (int32_t \<Rightarrow> byte list \<Rightarrow> 'u \<Rightarrow> 'u) \<Rightarrow> cpu \<Rightarrow> 'u \<Rightarrow> (exn option \<times> 'u) option" where
  "forEach cm f c u = forEach_loop f (cm_labelsBuffer cm) 0 0 c u"

type_synonym 'a cm_act = "(cpu \<times> counters_manager, 'a) act"

definition new_counterId :: "int32_t cm_act" where
  "new_counterId s =
     (case s of (c, cm) \<Rightarrow>
        case cm_freeList cm of
          [] \<Rightarrow> (Inr (cm_highwaterMark cm), (c, cm\<lparr>cm_highwaterMark := cm_highwaterMark cm + 1\<rparr>))
        | counterId # rest \<Rightarrow>
            andThen (on_fst (ab_putInt64Ordered (cm_countersBuffer cm) (counterOffset counterId) 0)) (ret counterId)
              (c, cm\<lparr>cm_freeList := rest\<rparr>))"

definition allocate :: "byte list \<Rightarrow> int32_t cm_act" where
  "allocate label =
     bind new_counterId (\<lambda>counterId.
     let labelsOffset = labelOffset counterId
     in andThen (guard (of_nat (length label) > (scast LABEL_LENGTH - 4 :: uint64_t)) IllegalArgumentException)
       (bind (peek snd) (\<lambda>cm.
       andThen (guard (sint (counterOffset counterId + COUNTER_LENGTH) > sint (ab_capacity (cm_countersBuffer cm)))
         IllegalArgumentException)
       (andThen (guard (sint (labelsOffset + LABEL_LENGTH) > sint (ab_capacity (cm_labelsBuffer cm)))
         IllegalArgumentException)
       (bind (on_fst (ab_putStringUtf8 (cm_labelsBuffer cm) labelsOffset label)) (\<lambda>_. ret counterId))))))"

definition free_counter :: "int32_t \<Rightarrow> unit cm_act" where
  "free_counter counterId =
     bind (peek snd) (\<lambda>cm.
     bind (on_fst (ab_getInt32 (cm_labelsBuffer cm) (labelOffset counterId))) (\<lambda>lsize.
     andThen (guard (lsize = 0 \<or> lsize = UNREGISTERED_LABEL_LENGTH) IllegalArgumentException)
     (andThen (on_fst (ab_putInt32 (cm_labelsBuffer cm) (labelOffset counterId) UNREGISTERED_LABEL_LENGTH))
     (andThen (on_fst (ab_putInt64Ordered (cm_countersBuffer cm) (counterOffset counterId) 0))
     (poke (\<lambda>(c, cm). (c, cm\<lparr>cm_freeList := cm_freeList cm @ [counterId]\<rparr>)))))))"

section \<open>AtomicCounter\<close>

record atomic_counter =
  ac_buffer :: abuf
  ac_counterId :: int32_t
  ac_offset :: index_t

definition AtomicCounter :: "abuf \<Rightarrow> int32_t \<Rightarrow> atomic_counter cm_act" where
  "AtomicCounter buffer counterId =
     andThen (on_fst (ab_putInt64 buffer (counterOffset counterId) 0))
       (ret \<lparr>ac_buffer = buffer, ac_counterId = counterId, ac_offset = counterOffset counterId\<rparr>)"

definition destroy_counter :: "atomic_counter \<Rightarrow> unit cm_act" where
  "destroy_counter ac = free_counter (ac_counterId ac)"

definition makeCounter :: "byte list \<Rightarrow> atomic_counter cm_act" where
  "makeCounter label =
     bind (allocate label) (\<lambda>counterId. bind (peek snd) (\<lambda>cm. AtomicCounter (valuesBuffer cm) counterId))"

definition increment :: "atomic_counter \<Rightarrow> (cpu, unit) act" where
  "increment ac = bind (ab_getAndAddInt64 (ac_buffer ac) (ac_offset ac) 1) (\<lambda>_. ret ())"

definition orderedIncrement :: "atomic_counter \<Rightarrow> (cpu, unit) act" where
  "orderedIncrement ac = ab_addInt64Ordered (ac_buffer ac) (ac_offset ac) 1"

definition ac_set :: "atomic_counter \<Rightarrow> int64_t \<Rightarrow> (cpu, unit) act" where
  "ac_set ac v = ab_putInt64Atomic (ac_buffer ac) (ac_offset ac) v"

definition ac_setOrdered :: "atomic_counter \<Rightarrow> int64_t \<Rightarrow> (cpu, unit) act" where
  "ac_setOrdered ac v = ab_putInt64Ordered (ac_buffer ac) (ac_offset ac) v"

definition addOrdered :: "atomic_counter \<Rightarrow> int64_t \<Rightarrow> (cpu, unit) act" where
  "addOrdered ac inc = ab_addInt64Ordered (ac_buffer ac) (ac_offset ac) inc"

definition ac_get :: "atomic_counter \<Rightarrow> (cpu, int64_t) act" where
  "ac_get ac = ab_getInt64Volatile (ac_buffer ac) (ac_offset ac)"

section \<open>UnsafeBufferPosition\<close>

record buffer_position =
  bp_buffer :: abuf
  bp_id :: int32_t
  bp_offset :: int32_t

definition UnsafeBufferPosition :: "abuf \<Rightarrow> int32_t \<Rightarrow> buffer_position" where
  "UnsafeBufferPosition buffer counterId = \<lparr>bp_buffer = buffer, bp_id = counterId, bp_offset = counterOffset counterId\<rparr>"

definition UnsafeBufferPosition_default :: buffer_position where
  "UnsafeBufferPosition_default = \<lparr>bp_buffer = AtomicBuffer_empty, bp_id = - 1, bp_offset = 0\<rparr>"

definition bp_wrap :: "buffer_position \<Rightarrow> buffer_position \<Rightarrow> buffer_position" where
  "bp_wrap position bp =
     bp\<lparr>bp_buffer := wrap_buffer (bp_buffer position) (bp_buffer bp), bp_id := bp_id position, bp_offset := bp_offset position\<rparr>"

definition UnsafeBufferPosition_copy :: "buffer_position \<Rightarrow> buffer_position" where
  "UnsafeBufferPosition_copy position = bp_wrap position UnsafeBufferPosition_default"

definition position_get :: "buffer_position \<Rightarrow> (cpu, int64_t) act" where
  "position_get bp = ab_getInt64 (bp_buffer bp) (bp_offset bp)"

definition position_getVolatile :: "buffer_position \<Rightarrow> (cpu, int64_t) act" where
  "position_getVolatile bp = ab_getInt64Volatile (bp_buffer bp) (bp_offset bp)"

definition position_set :: "buffer_position \<Rightarrow> int64_t \<Rightarrow> (cpu, unit) act" where
  "position_set bp v = ab_putInt64 (bp_buffer bp) (bp_offset bp) v"

definition position_setOrdered :: "buffer_position \<Rightarrow> int64_t \<Rightarrow> (cpu, unit) act" where
  "position_setOrdered bp v = ab_putInt64Ordered (bp_buffer bp) (bp_offset bp) v"

section \<open>The registry of counters\<close>

text \<open>
  \<open>live\<close> are the labels of the allocated identifiers, \<open>fr\<close> the freed ones in the order in which they
  will be used again, \<open>H\<close> the number of identifiers ever used. \<open>slot\<close> is the length field of a label.
\<close>

definition slot :: "counters_manager \<Rightarrow> cpu \<Rightarrow> nat \<Rightarrow> int32_t" where
  "slot cm c i = get_le 4 c (ab_buffer (cm_labelsBuffer cm) + int (128 * i))"

definition fits :: "nat \<Rightarrow> nat \<Rightarrow> nat \<Rightarrow> bool" where
  "fits L V i \<longleftrightarrow> 128 * i + 128 \<le> L \<and> 128 * i + 128 \<le> V"

definition wf_counters :: "nat \<Rightarrow> nat \<Rightarrow> counters_manager \<Rightarrow> bool" where
  "wf_counters L V cm \<longleftrightarrow> L \<le> 2 ^ 30 \<and> V \<le> 2 ^ 30 \<and> 128 dvd L \<and>
     ab_length (cm_labelsBuffer cm) = of_nat L \<and> ab_length (cm_countersBuffer cm) = of_nat V \<and>
     (ab_buffer (cm_labelsBuffer cm) + int L \<le> ab_buffer (cm_countersBuffer cm) \<or>
      ab_buffer (cm_countersBuffer cm) + int V \<le> ab_buffer (cm_labelsBuffer cm))"

definition label_at :: "counters_manager \<Rightarrow> cpu \<Rightarrow> nat \<Rightarrow> byte list \<Rightarrow> bool" where
  "label_at cm c i lab \<longleftrightarrow> lab \<noteq> [] \<and> length lab \<le> 124 \<and> slot cm c i = of_nat (length lab) \<and>
     load c (ab_buffer (cm_labelsBuffer cm) + int (128 * i) + 4) (length lab) = lab"

definition counters_inv :: "nat \<Rightarrow> nat \<Rightarrow> nat \<Rightarrow> nat list \<Rightarrow> (nat \<rightharpoonup> byte list) \<Rightarrow> cpu \<times> counters_manager \<Rightarrow> bool" where
  "counters_inv L V H fr live s \<longleftrightarrow> (case s of (c, cm) \<Rightarrow> wf_counters L V cm \<and>
     cm_highwaterMark cm = of_nat H \<and> cm_freeList cm = map of_nat fr \<and> distinct fr \<and>
     (\<forall>i \<in> set fr. i < H \<and> fits L V i \<and> live i = None \<and> slot cm c i = UNREGISTERED_LABEL_LENGTH) \<and>
     (\<forall>i lab. live i = Some lab \<longrightarrow> i < H \<and> fits L V i \<and> label_at cm c i lab) \<and>
     (\<forall>i. live i = None \<longrightarrow> 128 * i + 128 \<le> L \<longrightarrow> slot cm c i = 0 \<or> i < H \<and> slot cm c i = UNREGISTERED_LABEL_LENGTH))"

lemma slot_address:
  assumes "wf_counters L V cm" "128 * i + 128 \<le> L"
  shows "labelOffset (of_nat i) = of_nat (128 * i)" "in_range (cm_labelsBuffer cm) (labelOffset (of_nat i)) 128"
    "at (cm_labelsBuffer cm) (labelOffset (of_nat i)) = ab_buffer (cm_labelsBuffer cm) + int (128 * i)"
proof -
  have L: "L \<le> 1073741824" using assms(1) by (simp add: wf_counters_def)
  show o: "labelOffset (of_nat i) = of_nat (128 * i)" by (simp add: labelOffset_def layout mult.commute)
  have s: "sint (of_nat (128 * i) :: index_t) = int (128 * i)" using assms(2) L by (intro sint_of_nat32) simp
  have "sint (ab_length (cm_labelsBuffer cm)) = int L" using assms(1) L sint_of_nat32[of L] by (simp add: wf_counters_def)
  then show "in_range (cm_labelsBuffer cm) (labelOffset (of_nat i)) 128" unfolding o in_range_def s using assms(2) by simp
  show "at (cm_labelsBuffer cm) (labelOffset (of_nat i)) = ab_buffer (cm_labelsBuffer cm) + int (128 * i)"
    unfolding o at_def s by simp
qed

lemma value_address:
  assumes "wf_counters L V cm" "128 * i + 128 \<le> V"
  shows "in_range (cm_countersBuffer cm) (counterOffset (of_nat i)) 8"
    "at (cm_countersBuffer cm) (counterOffset (of_nat i)) = ab_buffer (cm_countersBuffer cm) + int (128 * i)"
proof -
  have V: "V \<le> 1073741824" using assms(1) by (simp add: wf_counters_def)
  have o: "counterOffset (of_nat i) = of_nat (128 * i)" by (simp add: counterOffset_def layout mult.commute)
  have s: "sint (of_nat (128 * i) :: index_t) = int (128 * i)" using assms(2) V by (intro sint_of_nat32) simp
  have "sint (ab_length (cm_countersBuffer cm)) = int V" using assms(1) V sint_of_nat32[of V] by (simp add: wf_counters_def)
  then show "in_range (cm_countersBuffer cm) (counterOffset (of_nat i)) 8" unfolding o in_range_def s using assms(2) by simp
  show "at (cm_countersBuffer cm) (counterOffset (of_nat i)) = ab_buffer (cm_countersBuffer cm) + int (128 * i)"
    unfolding o at_def s by simp
qed

text \<open>Labels depend on the bytes of their slot only.\<close>

lemma slot_cong:
  assumes "\<And>a. ab_buffer (cm_labelsBuffer cm) + int (128 * i) \<le> a \<Longrightarrow>
      a < ab_buffer (cm_labelsBuffer cm) + int (128 * i) + 128 \<Longrightarrow> view c' a = view c a"
    and "cm_labelsBuffer cm' = cm_labelsBuffer cm"
  shows "slot cm' c' i = slot cm c i" "label_at cm' c' i lab = label_at cm c i lab"
proof -
  let ?a = "ab_buffer (cm_labelsBuffer cm) + int (128 * i)"
  have "read_bytes (view c') (?a + int j) n = read_bytes (view c) (?a + int j) n" if "j + n \<le> 128" for j n
    using that by (intro read_bytes_cong assms(1)) auto
  from this[of 0 4] this[of 4 "length lab"] show "slot cm' c' i = slot cm c i" "label_at cm' c' i lab = label_at cm c i lab"
    by (auto simp: slot_def label_at_def get_le_def load_def assms(2))
qed

text \<open>The identifier the next allocation uses, and what is left after it is taken.\<close>

definition next_id :: "nat \<Rightarrow> nat list \<Rightarrow> nat" where
  "next_id H fr = (case fr of [] \<Rightarrow> H | i # _ \<Rightarrow> i)"

definition next_H :: "nat \<Rightarrow> nat list \<Rightarrow> nat" where
  "next_H H fr = (if fr = [] then H + 1 else H)"

lemma wf_counters_cong:
  "cm_labelsBuffer cm' = cm_labelsBuffer cm \<Longrightarrow> cm_countersBuffer cm' = cm_countersBuffer cm \<Longrightarrow>
    wf_counters L V cm' = wf_counters L V cm"
  by (simp add: wf_counters_def)

lemma clear_value:
  assumes "wf_counters L V cm" "128 * i + 128 \<le> V"
  obtains c' where "ab_putInt64Ordered (cm_countersBuffer cm) (counterOffset (of_nat i)) 0 c = (Inr (), c')"
    "get_le 8 c' (ab_buffer (cm_countersBuffer cm) + int (128 * i)) = (0 :: int64_t)"
    "\<And>a. ab_buffer (cm_labelsBuffer cm) \<le> a \<Longrightarrow> a < ab_buffer (cm_labelsBuffer cm) + int L \<Longrightarrow> view c' a = view c a"
proof -
  let ?a = "ab_buffer (cm_countersBuffer cm) + int (128 * i)"
  note v = value_address[OF assms]
  have "view (put_le 8 c ?a (0 :: int64_t)) a = view c a"
    if "ab_buffer (cm_labelsBuffer cm) \<le> a" "a < ab_buffer (cm_labelsBuffer cm) + int L" for a
    using that assms by (auto simp: view_put_le wf_counters_def intro!: write_bytes_outside)
  moreover have "get_le 8 (put_le 8 c ?a (0 :: int64_t)) ?a = (0 :: int64_t)" by (rule get_put_le) simp
  ultimately show thesis using that[of "put_le 8 c ?a (0 :: int64_t)"] v by (simp add: ab_ok)
qed

lemma new_counterId_spec:
  assumes inv: "counters_inv L V H fr live (c, cm)"
  obtains c' cm' where "new_counterId (c, cm) = (Inr (of_nat (next_id H fr)), (c', cm'))"
    "counters_inv L V (next_H H fr) (tl fr) live (c', cm')" "live (next_id H fr) = None"
    "next_id H fr < next_H H fr" "next_id H fr \<notin> set (tl fr)"
    "cm_labelsBuffer cm' = cm_labelsBuffer cm" "cm_countersBuffer cm' = cm_countersBuffer cm"
proof -
  note i = inv[unfolded counters_inv_def prod.case]
  show thesis
  proof (cases fr)
    case Nil
    let ?cm = "cm\<lparr>cm_highwaterMark := cm_highwaterMark cm + 1\<rparr>"
    have "new_counterId (c, cm) = (Inr (of_nat H), (c, ?cm))" using i Nil by (simp add: new_counterId_def)
    moreover have "counters_inv L V (H + 1) [] live (c, ?cm)"
      using i Nil by (auto simp: counters_inv_def wf_counters_def slot_def label_at_def less_Suc_eq)
    moreover have "live H = None" using i by (metis nat_less_le not_None_eq)
    ultimately show thesis using that[of c ?cm] Nil by (simp add: next_id_def next_H_def)
  next
    case (Cons k rest)
    then have k: "k < H" "fits L V k" "live k = None" "k \<notin> set rest" using i by auto
    let ?cm = "cm\<lparr>cm_freeList := map of_nat rest\<rparr>"
    have wf: "wf_counters L V cm" using i by simp
    obtain c' where c': "ab_putInt64Ordered (cm_countersBuffer cm) (counterOffset (of_nat k)) 0 c = (Inr (), c')"
      "\<And>a. ab_buffer (cm_labelsBuffer cm) \<le> a \<Longrightarrow> a < ab_buffer (cm_labelsBuffer cm) + int L \<Longrightarrow> view c' a = view c a"
      using clear_value[OF wf, of k c] k(2) unfolding fits_def by metis
    have sl: "slot ?cm c' j = slot cm c j" "label_at ?cm c' j lab = label_at cm c j lab" if "128 * j + 128 \<le> L" for j lab
      using that by (intro slot_cong c'(2); simp)+
    have "new_counterId (c, cm) = (Inr (of_nat k), (c', ?cm))" using i Cons c'(1) by (simp add: new_counterId_def)
    moreover have "counters_inv L V H rest live (c', ?cm)"
      unfolding counters_inv_def prod.case
    proof (intro conjI allI impI ballI)
      show "wf_counters L V ?cm" using wf by (simp add: wf_counters_def)
      fix j lab assume "live j = Some lab"
      then show "label_at ?cm c' j lab" using i sl(2)[of j lab] by (simp add: fits_def)
    next
      fix j assume "j \<in> set rest"
      then show "slot ?cm c' j = UNREGISTERED_LABEL_LENGTH" using i Cons sl(1)[of j] by (simp add: fits_def)
    next
      fix j assume "live j = None" "128 * j + 128 \<le> L"
      then show "slot ?cm c' j = 0 \<or> j < H \<and> slot ?cm c' j = UNREGISTERED_LABEL_LENGTH" using i sl(1)[of j] by simp
    qed (use i Cons in auto)
    ultimately show thesis using that[of c' ?cm] Cons k by (simp add: next_id_def next_H_def)
  qed
qed

text \<open>A change inside one slot of the labels, and of the fields of the manager.\<close>

lemma counters_inv_slot:
  assumes inv: "counters_inv L V H fr live (c, cm)" and k: "k < H" "fits L V k"
    and out: "\<And>a. ab_buffer (cm_labelsBuffer cm) \<le> a \<Longrightarrow> a < ab_buffer (cm_labelsBuffer cm) + int L \<Longrightarrow>
      a < ab_buffer (cm_labelsBuffer cm) + int (128 * k) \<or> ab_buffer (cm_labelsBuffer cm) + int (128 * k) + 128 \<le> a \<Longrightarrow>
      view c' a = view c a"
    and cm': "cm_labelsBuffer cm' = cm_labelsBuffer cm" "cm_countersBuffer cm' = cm_countersBuffer cm"
      "cm_highwaterMark cm' = cm_highwaterMark cm" "cm_freeList cm' = map of_nat fr'"
    and fr': "distinct fr'" "set fr' - {k} = set fr - {k}"
    and new: "case lab of None \<Rightarrow> slot cm' c' k = (if k \<in> set fr' then UNREGISTERED_LABEL_LENGTH else 0)
      | Some l \<Rightarrow> k \<notin> set fr' \<and> label_at cm' c' k l"
  shows "counters_inv L V H fr' (live(k := lab)) (c', cm')"
proof -
  note i = inv[unfolded counters_inv_def prod.case]
  have sl: "slot cm' c' j = slot cm c j" "label_at cm' c' j l = label_at cm c j l" if "128 * j + 128 \<le> L" "j \<noteq> k" for j l
    using that by (intro slot_cong[OF out cm'(1)]; linarith)+
  have mem: "j \<in> set fr' \<longleftrightarrow> j \<in> set fr" if "j \<noteq> k" for j using fr'(2) that by blast
  show ?thesis unfolding counters_inv_def prod.case
  proof (intro conjI allI impI ballI)
    show "wf_counters L V cm'" using i wf_counters_cong[OF cm'(1,2)] by simp
    show "j < H" "fits L V j" if "j \<in> set fr'" for j using that i k mem[of j] by (cases "j = k"; auto)+
    show "slot cm' c' j = UNREGISTERED_LABEL_LENGTH" "(live(k := lab)) j = None" if "j \<in> set fr'" for j
      using that i new mem[of j] sl(1)[of j] by (cases "j = k"; auto simp: fits_def split: option.splits)+
    show "j < H" "fits L V j" "label_at cm' c' j l" if "(live(k := lab)) j = Some l" for j l
      using that i k new sl(2)[of j l] by (cases "j = k"; auto simp: fits_def)+
    show "slot cm' c' j = 0 \<or> j < H \<and> slot cm' c' j = UNREGISTERED_LABEL_LENGTH"
      if "(live(k := lab)) j = None" "128 * j + 128 \<le> L" for j
      using that i k new sl(1)[of j] by (cases "j = k") auto
  qed (use i cm' fr' in simp_all)
qed

lemma allocate_spec:
  assumes inv: "counters_inv L V H fr live (c, cm)" and H: "H < 2 ^ 23" and lab: "length lab < 2 ^ 31"
  defines "k \<equiv> next_id H fr"
  shows "\<exists>s'. allocate lab (c, cm) = (if length lab \<le> 124 \<and> fits L V k then Inr (of_nat k) else Inl IllegalArgumentException, s') \<and>
    counters_inv L V (next_H H fr) (tl fr)
      (if length lab \<le> 124 \<and> fits L V k \<and> lab \<noteq> [] then live(k \<mapsto> lab) else live) s' \<and> live k = None"
proof -
  obtain c1 cm1 where n: "new_counterId (c, cm) = (Inr (of_nat k), (c1, cm1))"
    "counters_inv L V (next_H H fr) (tl fr) live (c1, cm1)" "live k = None" "k < next_H H fr" "k \<notin> set (tl fr)"
    by (rule new_counterId_spec[OF inv]) (use that in \<open>auto simp: k_def\<close>)
  have wf: "wf_counters L V cm1" using n(2) by (simp add: counters_inv_def)
  then have LV: "L \<le> 1073741824" "V \<le> 1073741824" by (simp_all add: wf_counters_def)
  have kH: "k \<le> H" using n(4) by (simp add: next_H_def split: if_splits)
  have s: "sint (of_nat (128 * k + 128) :: int32_t) = int (128 * k + 128)" using kH H by (intro sint_of_nat32) simp
  have o: "counterOffset (of_nat k) + COUNTER_LENGTH = of_nat (128 * k + 128)"
    "labelOffset (of_nat k) + LABEL_LENGTH = of_nat (128 * k + 128)"
    by (simp_all add: counterOffset_def labelOffset_def layout mult.commute)
  have cap: "sint (ab_capacity (cm_countersBuffer cm1)) = int V" "sint (ab_capacity (cm_labelsBuffer cm1)) = int L"
    using wf LV sint_of_nat32[of V] sint_of_nat32[of L] by (simp_all add: wf_counters_def ab_capacity_def)
  have len: "of_nat (length lab) > (scast LABEL_LENGTH - 4 :: uint64_t) \<longleftrightarrow> 124 < length lab"
    using lab by (simp add: layout word_less_nat_alt unsigned_of_nat take_bit_nat_eq_self)
  have run: "allocate lab (c, cm) =
      (if 124 < length lab \<or> V < 128 * k + 128 \<or> L < 128 * k + 128 then (Inl IllegalArgumentException, (c1, cm1))
       else bind (on_fst (ab_putStringUtf8 (cm_labelsBuffer cm1) (labelOffset (of_nat k)) lab)) (\<lambda>_. ret (of_nat k)) (c1, cm1))"
    using n(1) by (simp add: allocate_def Let_def o len cap s del: of_nat_add of_nat_mult)
      (auto simp: andThen_def bind_def cap)
  show ?thesis
  proof (cases "length lab \<le> 124 \<and> fits L V k")
    case False
    then show ?thesis using run n(2,3) by (auto simp: fits_def)
  next
    case True
    then have fit: "128 * k + 128 \<le> L" "128 * k + 128 \<le> V" by (simp_all add: fits_def)
    let ?b = "cm_labelsBuffer cm1" and ?a = "ab_buffer (cm_labelsBuffer cm1) + int (128 * k)"
    note sa = slot_address[OF wf fit(1)]
    have "in_range ?b (labelOffset (of_nat k)) (length lab + 4)" using sa(2) True by (simp add: in_range_def)
    then obtain c2 where c2: "ab_putStringUtf8 ?b (labelOffset (of_nat k)) lab c1 = (Inr (of_nat (4 + length lab)), c2)"
      "view c2 = write_bytes (write_bytes (view c1) ?a (enc 4 (of_nat (length lab) :: int32_t))) (?a + 4) lab"
      using putStringUtf8_ok[of ?b "labelOffset (of_nat k)" lab c1] sa(3) by metis
    have new: "case (if lab = [] then None else Some lab) of
        None \<Rightarrow> slot cm1 c2 k = (if k \<in> set (tl fr) then UNREGISTERED_LABEL_LENGTH else 0)
      | Some l \<Rightarrow> k \<notin> set (tl fr) \<and> label_at cm1 c2 k l"
      using True n(5) by (simp add: label_at_def slot_def get_le_def load_def c2(2) mem_simps dec_enc add.assoc del: enc_numeral)
    have "view c2 a = view c1 a" if "a < ?a \<or> ?a + 128 \<le> a" for a
      using that True by (auto simp: c2(2) write_bytes_def)
    moreover have "cm_freeList cm1 = map of_nat (tl fr)" "distinct (tl fr)" using n(2) by (simp_all add: counters_inv_def)
    ultimately have "counters_inv L V (next_H H fr) (tl fr) (live(k := if lab = [] then None else Some lab)) (c2, cm1)"
      using True new by (intro counters_inv_slot[OF n(2,4)]) auto
    moreover have "live(k := None) = live" using n(3) by (simp add: fun_upd_idem)
    ultimately show ?thesis using run True fit c2(1) n(3) by (simp split: if_splits)
  qed
qed

lemma free_spec:
  assumes inv: "counters_inv L V H fr live (c, cm)"
  shows "live k = Some lab \<Longrightarrow> \<exists>c' cm'. free_counter (of_nat k) (c, cm) = (Inr (), (c', cm')) \<and>
      counters_inv L V H (fr @ [k]) (live(k := None)) (c', cm')"
    and "live k = None \<Longrightarrow> 128 * k + 128 \<le> L \<Longrightarrow> free_counter (of_nat k) (c, cm) = (Inl IllegalArgumentException, (c, cm))"
proof -
  note i = inv[unfolded counters_inv_def prod.case]
  have wf: "wf_counters L V cm" using i by simp
  let ?b = "cm_labelsBuffer cm" and ?a = "ab_buffer (cm_labelsBuffer cm) + int (128 * k)"
  have get: "ab_getInt32 ?b (labelOffset (of_nat k)) c = (Inr (slot cm c k), c)" if "128 * k + 128 \<le> L"
    using slot_address[OF wf that] by (simp add: ab_ok slot_def in_range_def)
  show "free_counter (of_nat k) (c, cm) = (Inl IllegalArgumentException, (c, cm))" if "live k = None" "128 * k + 128 \<le> L"
  proof -
    have "slot cm c k = 0 \<or> slot cm c k = UNREGISTERED_LABEL_LENGTH" using i that by blast
    then show ?thesis using get[OF that(2)] by (simp add: free_counter_def bind_def andThen_def)
  qed
  assume live: "live k = Some lab"
  then have k: "k < H" "fits L V k" "label_at cm c k lab" "k \<notin> set fr" using i by auto
  then have fit: "128 * k + 128 \<le> L" "128 * k + 128 \<le> V" by (simp_all add: fits_def)
  have sl: "slot cm c k \<noteq> 0" "slot cm c k \<noteq> UNREGISTERED_LABEL_LENGTH"
  proof -
    have "sint (slot cm c k) = int (length lab)" using k(3) by (auto simp: label_at_def intro!: sint_of_nat32)
    moreover have "0 < length lab" using k(3) by (simp add: label_at_def)
    ultimately show "slot cm c k \<noteq> 0" "slot cm c k \<noteq> UNREGISTERED_LABEL_LENGTH" by (auto simp: layout)
  qed
  note sa = slot_address[OF wf fit(1)]
  let ?c1 = "put_le 4 c ?a UNREGISTERED_LABEL_LENGTH"
  have c1: "ab_putInt32 ?b (labelOffset (of_nat k)) UNREGISTERED_LABEL_LENGTH c = (Inr (), ?c1)"
    using sa by (simp add: ab_ok in_range_def)
  obtain c2 where c2: "ab_putInt64Ordered (cm_countersBuffer cm) (counterOffset (of_nat k)) 0 ?c1 = (Inr (), c2)"
    "\<And>a. ab_buffer ?b \<le> a \<Longrightarrow> a < ab_buffer ?b + int L \<Longrightarrow> view c2 a = view ?c1 a"
    using clear_value[OF wf fit(2), of ?c1] by metis
  let ?cm = "cm\<lparr>cm_freeList := cm_freeList cm @ [of_nat k]\<rparr>"
  have "free_counter (of_nat k) (c, cm) = (Inr (), (c2, ?cm))"
    using get[OF fit(1)] sl c1 c2(1) by (simp add: free_counter_def)
  moreover have "counters_inv L V H (fr @ [k]) (live(k := None)) (c2, ?cm)"
  proof (rule counters_inv_slot[OF inv k(1,2)])
    show "view c2 a = view c a" if "ab_buffer ?b \<le> a" "a < ab_buffer ?b + int L" "a < ?a \<or> ?a + 128 \<le> a" for a
      using that c2(2)[of a] by (auto simp: view_put_le write_bytes_def)
    have "slot ?cm c2 k = slot cm ?c1 k" using fit by (intro slot_cong(1)[OF c2(2)]) auto
    also have "\<dots> = UNREGISTERED_LABEL_LENGTH"
      by (simp add: slot_def get_put_le)
    finally show "case None of None \<Rightarrow> slot ?cm c2 k = (if k \<in> set (fr @ [k]) then UNREGISTERED_LABEL_LENGTH else 0)
      | Some l \<Rightarrow> k \<notin> set (fr @ [k]) \<and> label_at ?cm c2 k l" by simp
  qed (use i k(4) in auto)
  ultimately show "\<exists>c' cm'. free_counter (of_nat k) (c, cm) = (Inr (), (c', cm')) \<and>
      counters_inv L V H (fr @ [k]) (live(k := None)) (c', cm')" by blast
qed

text \<open>
  C34. The registry stays consistent: an allocation takes the identifier that has been free for the longest
  time, or a new one if none is free, which no live counter has in either case, and stores the label
  with it; or it throws when the label is too long or the buffers are full, and then
  the identifier it took is lost for good. An empty label is stored but makes no live counter:
  the identifier is given out, but it cannot be freed. Freeing a live counter puts its identifier behind
  the free ones, to be given out again; freeing any other throws and changes nothing.
\<close>

theorem counters_registry:
  assumes "counters_inv L V H fr live (c, cm)" "H < 2 ^ 23" "length lab < 2 ^ 31"
  defines "k \<equiv> next_id H fr"
  shows "live k = None \<and>
    (\<exists>s'. allocate lab (c, cm) = (if length lab \<le> 124 \<and> fits L V k then Inr (of_nat k) else Inl IllegalArgumentException, s') \<and>
      counters_inv L V (next_H H fr) (tl fr)
        (if length lab \<le> 124 \<and> fits L V k \<and> lab \<noteq> [] then live(k \<mapsto> lab) else live) s') \<and>
    (\<forall>i l. live i = Some l \<longrightarrow> (\<exists>s'. free_counter (of_nat i) (c, cm) = (Inr (), s') \<and>
      counters_inv L V H (fr @ [i]) (live(i := None)) s')) \<and>
    (\<forall>i. live i = None \<longrightarrow> 128 * i + 128 \<le> L \<longrightarrow>
      free_counter (of_nat i) (c, cm) = (Inl IllegalArgumentException, (c, cm)))"
  using allocate_spec[OF assms(1-3)] free_spec[OF assms(1)] unfolding k_def by blast

section \<open>Going through the counters\<close>

text \<open>What the callback is called with: the live counters from \<open>i\<close> up to \<open>n\<close>, in order.\<close>

definition visits :: "(int32_t \<Rightarrow> byte list \<Rightarrow> 'u \<Rightarrow> 'u) \<Rightarrow> (nat \<rightharpoonup> byte list) \<Rightarrow> nat \<Rightarrow> nat \<Rightarrow> 'u \<Rightarrow> 'u" where
  "visits f live i n u = fold (\<lambda>j u. case live j of None \<Rightarrow> u | Some lab \<Rightarrow> f (of_nat j) lab u) [i..<n] u"

lemma visits_simps:
  "visits f live n n u = u"
  "i < n \<Longrightarrow> visits f live i n u = visits f live (i + 1) n (case live i of None \<Rightarrow> u | Some lab \<Rightarrow> f (of_nat i) lab u)"
  by (simp_all add: visits_def upt_rec[of i])

text \<open>
  The first identifier that is neither live nor free -- lost, or not used yet -- or for which there
  is no room, ends the enumeration.
\<close>

definition unlisted :: "nat \<Rightarrow> nat list \<Rightarrow> (nat \<rightharpoonup> byte list) \<Rightarrow> nat \<Rightarrow> cpu \<times> counters_manager \<Rightarrow> bool" where
  "unlisted L fr live n s \<longleftrightarrow> L < 128 * n + 128 \<or> slot (snd s) (fst s) n = 0"

lemma unlisted_unused:
  assumes "counters_inv L V H fr live (c, cm)"
  shows "unlisted L fr live H (c, cm)"
proof -
  note i = assms[unfolded counters_inv_def prod.case]
  have none: "live H = None" using i by (cases "live H") (simp, blast)
  then have "128 * H + 128 \<le> L \<longrightarrow> slot cm c H = 0" using i by blast
  then show ?thesis by (auto simp: unlisted_def)
qed

lemma forEach_loop_spec:
  assumes inv: "counters_inv L V H fr live (c, cm)" and "i \<le> n" "128 * n \<le> L"
    and listed: "\<And>j. j < n \<Longrightarrow> slot cm c j \<noteq> 0" and stop: "unlisted L fr live n (c, cm)"
  shows "forEach_loop f (cm_labelsBuffer cm) (labelOffset (of_nat i)) (of_nat i) c u = Some (None, visits f live i n u)"
  using assms(2)
proof (induction "n - i" arbitrary: i u rule: less_induct)
  case less
  note iv = inv[unfolded counters_inv_def prod.case]
  have wf: "wf_counters L V cm" using iv by simp
  then have L: "L \<le> 1073741824" "128 dvd L" "ab_length (cm_labelsBuffer cm) = of_nat L" by (simp_all add: wf_counters_def)
  have o: "labelOffset (of_nat i) = of_nat (128 * i)" by (simp add: labelOffset_def layout mult.commute)
  have iL: "128 * i \<le> L" using less.prems assms(3) by linarith
  have si: "sint (of_nat (128 * i) :: index_t) = int (128 * i)" using iL L(1) by (intro sint_of_nat32) simp
  have room: "sint (of_nat (128 * i) :: index_t) < sint (ab_capacity (cm_labelsBuffer cm) - 4) \<longleftrightarrow> 128 * i + 128 \<le> L"
  proof (cases "L = 0")
    case True
    have "sint (- 4 :: index_t) = - 4" by simp
    then show ?thesis using True iL by (simp add: ab_capacity_def L(3))
  next
    case False
    then have "128 \<le> L" using L(2) by (auto dest: dvd_imp_le)
    then have "sint (of_nat (L - 4) :: index_t) = int (L - 4)" using L(1) by (intro sint_of_nat32) simp
    moreover have "ab_capacity (cm_labelsBuffer cm) - 4 = of_nat (L - 4)" using \<open>128 \<le> L\<close> by (simp add: ab_capacity_def L(3) of_nat_diff)
    moreover obtain q where q: "L = 128 * q" using L(2) by blast
    have "128 * i < L - 4 \<longleftrightarrow> 128 * i + 128 \<le> L" using \<open>128 \<le> L\<close> unfolding q by (cases "i < q") linarith+
    ultimately show ?thesis by (simp only: si of_nat_less_iff)
  qed
  have get: "ab_getInt32 (cm_labelsBuffer cm) (of_nat (128 * i)) c = (Inr (slot cm c i), c)" if "128 * i + 128 \<le> L"
    using slot_address[OF wf that] unfolding o by (simp add: ab_ok slot_def in_range_def)
  let ?o = "labelOffset (of_nat i)"
  have unf: "forEach_loop f (cm_labelsBuffer cm) ?o (of_nat i) c u =
      (if 128 * i + 128 \<le> L
       then if slot cm c i = 0 then Some (None, u)
            else if slot cm c i \<noteq> UNREGISTERED_LABEL_LENGTH
            then case fst (ab_getStringUtf8 (cm_labelsBuffer cm) ?o c) of
                   Inl e \<Rightarrow> Some (Some e, u)
                 | Inr label \<Rightarrow>
                     forEach_loop f (cm_labelsBuffer cm) (?o + LABEL_LENGTH) (of_nat i + 1) c (f (of_nat i) label u)
            else forEach_loop f (cm_labelsBuffer cm) (?o + LABEL_LENGTH) (of_nat i + 1) c u
       else Some (None, u))" for u
  proof (cases "128 * i + 128 \<le> L")
    case True
    then show ?thesis using get[folded o] room[folded o] by (subst forEach_loop.simps) simp
  next
    case False
    then show ?thesis using room[folded o] by (subst forEach_loop.simps) simp
  qed
  show ?case
  proof (cases "i = n")
    case True
    then show ?thesis using stop unf[of u] by (auto simp: unlisted_def visits_simps)
  next
    case False
    then have i: "i < n" using less.prems by simp
    then have fit: "128 * i + 128 \<le> L" using assms(3) by linarith
    have step: "?o + LABEL_LENGTH = labelOffset (of_nat (i + 1))" "of_nat i + 1 = (of_nat (i + 1) :: int32_t)"
      by (simp_all add: labelOffset_def layout algebra_simps)
    have IH: "forEach_loop f (cm_labelsBuffer cm) (labelOffset (of_nat (i + 1))) (of_nat (i + 1)) c u =
        Some (None, visits f live (i + 1) n u)" for u
      using i by (intro less.hyps) simp_all
    show ?thesis
    proof (cases "live i")
      case None
      then have "slot cm c i = UNREGISTERED_LABEL_LENGTH" using iv fit listed[OF i] by blast
      then show ?thesis
        using None fit listed[OF i] IH[of u] visits_simps(2)[OF i, of f live u] unfolding unf[of u] step by simp
    next
      case (Some lab)
      then have l: "label_at cm c i lab" using iv by simp
      then have "sint (slot cm c i) = int (length lab)" by (auto simp: label_at_def intro!: sint_of_nat32)
      then have ne: "slot cm c i \<noteq> UNREGISTERED_LABEL_LENGTH" by (auto simp: layout)
      have "in_range (cm_labelsBuffer cm) ?o (length lab + 4)"
        using slot_address[OF wf fit] l by (simp add: in_range_def label_at_def)
      then have "ab_getStringUtf8 (cm_labelsBuffer cm) ?o c = (Inr lab, c)"
        using slot_address(3)[OF wf fit] l by (intro getStringUtf8_ok) (simp_all add: label_at_def slot_def)
      then show ?thesis
        using Some fit listed[OF i] ne IH[of "f (of_nat i) lab u"] visits_simps(2)[OF i, of f live u]
        unfolding unf[of u] step by simp
    qed
  qed
qed

text \<open>
  Going through the counters calls the callback with exactly the live counters, in the order of
  their identifiers, as long as no identifier has been lost; after a failed allocation the
  enumeration ends at the identifier that was lost, and the counters behind it are not seen.
\<close>

theorem forEach_live:
  assumes inv: "counters_inv L V H fr live (c, cm)" and n: "128 * n \<le> L"
    and listed: "\<And>j. j < n \<Longrightarrow> slot cm c j \<noteq> 0" and stop: "unlisted L fr live n (c, cm)"
  shows "forEach cm f c u = Some (None, visits f live 0 n u)"
  using forEach_loop_spec[OF inv _ n listed stop, of 0 f u] by (simp add: forEach_def labelOffset_def)

section \<open>A concrete registry\<close>

definition demo_counters :: counters_manager where
  "demo_counters = CountersManager (AtomicBuffer 0 1024) (AtomicBuffer 1024 1024)"

lemma demo_counters_inv: "counters_inv 1024 1024 0 [] Map.empty (blank, demo_counters)"
  by (simp add: counters_inv_def demo_counters_def CountersManager_def wf_counters_def AtomicBuffer_def slot_def get_le_def
      load_blank dec_zeros)

theorem counters_registry_witness:
  "\<exists>s'. allocate [97, 98] (blank, demo_counters) = (Inr 0, s') \<and> counters_inv 1024 1024 1 [] [0 \<mapsto> [97, 98]] s'"
  using counters_registry[OF demo_counters_inv, of "[97, 98]"] by (auto simp: next_id_def next_H_def fits_def)

text \<open>Two allocations with a release in between give the same identifier, and an empty label one that cannot be freed.\<close>

theorem freed_identifier_returns:
  "\<exists>s1 s2 s3. allocate [97] (blank, demo_counters) = (Inr 0, s1) \<and> free_counter 0 s1 = (Inr (), s2) \<and>
    allocate [98] s2 = (Inr 0, s3)"
proof -
  obtain c1 cm1 where a: "allocate [97] (blank, demo_counters) = (Inr 0, (c1, cm1))"
    "counters_inv 1024 1024 1 [] [0 \<mapsto> [97]] (c1, cm1)"
    using allocate_spec[OF demo_counters_inv, of "[97]"] by (auto simp: next_id_def next_H_def fits_def)
  obtain c2 cm2 where f: "free_counter 0 (c1, cm1) = (Inr (), (c2, cm2))" "counters_inv 1024 1024 1 [0] Map.empty (c2, cm2)"
    using free_spec(1)[OF a(2), of 0 "[97]"] by auto
  then show ?thesis using allocate_spec[OF f(2), of "[98]"] a(1) by (auto simp: next_id_def fits_def)
qed

theorem empty_label_sticks:
  "\<exists>s1. allocate [] (blank, demo_counters) = (Inr 0, s1) \<and> free_counter 0 s1 = (Inl IllegalArgumentException, s1)"
proof -
  obtain c1 cm1 where a: "allocate [] (blank, demo_counters) = (Inr 0, (c1, cm1))"
    "counters_inv 1024 1024 1 [] Map.empty (c1, cm1)"
    using allocate_spec[OF demo_counters_inv, of "[]"] by (auto simp: next_id_def next_H_def fits_def)
  then show ?thesis using free_spec(2)[OF a(2), of 0] by auto
qed

theorem forEach_live_witness:
  "\<exists>c cm. forEach cm (\<lambda>i lab u. u @ [(i, lab)]) c [] = Some (None, [(0, [97, 98])])"
proof -
  obtain c cm where i: "counters_inv 1024 1024 1 [] [0 \<mapsto> [97, 98]] (c, cm)"
    using allocate_spec[OF demo_counters_inv, of "[97, 98]"] by (auto simp: next_id_def next_H_def fits_def)
  note iv = i[unfolded counters_inv_def prod.case]
  have "label_at cm c 0 [97, 98]" using iv by simp
  then have "slot cm c 0 \<noteq> 0" by (simp add: label_at_def)
  moreover have "unlisted 1024 [] [0 \<mapsto> [97, 98]] 1 (c, cm)" by (rule unlisted_unused[OF i])
  ultimately have "forEach cm (\<lambda>i lab u. u @ [(i, lab)]) c [] =
      Some (None, visits (\<lambda>i lab u. u @ [(i, lab)]) [0 \<mapsto> [97, 98]] 0 1 [])"
    using i by (intro forEach_live) auto
  then show ?thesis by (auto simp: visits_def)
qed

end
