(* ===== verification/Image.thy ===== *)
theory Image
  imports LogBuffers TermReader CountersManager
begin

text \<open>
  \<^verbatim>\<open>Image.h\<close>: the stream of a publisher as a subscriber sees it. Polling reads the term that the
  subscriber's position lies in and moves the position past what was read. The position wrappers
  \<^verbatim>\<open>Position.h\<close> and \<^verbatim>\<open>ReadablePosition.h\<close> only forward to the counter of theory \<open>CountersManager\<close>.
\<close>

section \<open>Image\<close>

type_synonym 'u block_handler = "abuf \<Rightarrow> int32_t \<Rightarrow> int32_t \<Rightarrow> int32_t \<Rightarrow> int32_t \<Rightarrow> (cpu \<times> 'u, unit) oact"

text \<open>The pointer to the log buffers may be null.\<close>

record 'u image =
  im_termBuffers :: "abuf list"
  im_header :: header
  im_subscriberPosition :: buffer_position
  im_logBuffers :: "log_buffers option"
  im_exceptionHandler :: "'u exception_handler"
  im_correlationId :: int64_t
  im_sessionId :: int32_t
  im_termLengthMask :: int32_t
  im_positionBitsToShift :: int32_t

definition Position :: "buffer_position \<Rightarrow> buffer_position" where
  "Position impl = UnsafeBufferPosition_copy impl"

definition ReadablePosition :: "buffer_position \<Rightarrow> buffer_position" where
  "ReadablePosition impl = UnsafeBufferPosition_copy impl"

definition NULL_POSITION :: buffer_position where
  "NULL_POSITION = UnsafeBufferPosition_default"

text \<open>The default constructor leaves the numbers and the exception handler of \<open>junk\<close> in place.\<close>

definition Image_default :: "'u image \<Rightarrow> 'u image" where
  "Image_default junk = junk
     \<lparr>im_termBuffers := [AtomicBuffer_empty, AtomicBuffer_empty, AtomicBuffer_empty],
      im_header := Header 0 0, im_subscriberPosition := Position NULL_POSITION, im_logBuffers := None\<rparr>"

definition Image_init ::
    "int32_t \<Rightarrow> int64_t \<Rightarrow> int64_t \<Rightarrow> buffer_position \<Rightarrow> log_buffers \<Rightarrow> 'u exception_handler \<Rightarrow> (cpu, 'u image) act" where
  "Image_init sessionId initialPosition correlationId subscriberPosition logBuffers exceptionHandler =
     bind (lb_initialTermId (atomicBuffer logBuffers (unat LOG_META_DATA_SECTION_INDEX))) (\<lambda>initialTermId.
     let termBuffers = map (atomicBuffer logBuffers) [0..<3];
         capacity = ab_capacity (termBuffers ! 0);
         position = Position subscriberPosition
     in andThen (position_setOrdered position initialPosition)
       (ret \<lparr>im_termBuffers = termBuffers,
         im_header = Header initialTermId (ab_capacity (atomicBuffer logBuffers 0)),
         im_subscriberPosition = position, im_logBuffers = Some logBuffers, im_exceptionHandler = exceptionHandler,
         im_correlationId = correlationId, im_sessionId = sessionId, im_termLengthMask = capacity - 1,
         im_positionBitsToShift = of_nat (numberOfTrailingZeroes capacity)\<rparr>))"

definition Image_copy :: "'u image \<Rightarrow> 'u image" where
  "Image_copy img =
     \<lparr>im_termBuffers = map (\<lambda>i. wrap_buffer (im_termBuffers img ! i) AtomicBuffer_empty) [0..<3],
      im_header = im_header img,
      im_subscriberPosition = bp_wrap (im_subscriberPosition img) (Position (im_subscriberPosition img)),
      im_logBuffers = im_logBuffers img, im_exceptionHandler = im_exceptionHandler img,
      im_correlationId = im_correlationId img, im_sessionId = im_sessionId img,
      im_termLengthMask = im_termLengthMask img, im_positionBitsToShift = im_positionBitsToShift img\<rparr>"

definition Image_assign :: "'u image \<Rightarrow> 'u image \<Rightarrow> 'u image" where
  "Image_assign img im =
     \<lparr>im_termBuffers = map (\<lambda>i. wrap_buffer (im_termBuffers img ! i) (im_termBuffers im ! i)) [0..<3],
      im_header = im_header img,
      im_subscriberPosition = bp_wrap (im_subscriberPosition img) (im_subscriberPosition im),
      im_logBuffers = im_logBuffers img, im_exceptionHandler = im_exceptionHandler img,
      im_correlationId = im_correlationId img, im_sessionId = im_sessionId img,
      im_termLengthMask = im_termLengthMask img, im_positionBitsToShift = im_positionBitsToShift img\<rparr>"

text \<open>Assigning from a temporary also takes its pointer.\<close>

definition Image_move :: "'u image \<Rightarrow> 'u image \<Rightarrow> 'u image \<times> 'u image" where
  "Image_move img im = (Image_assign img im, img\<lparr>im_logBuffers := None\<rparr>)"

definition im_getSessionId :: "'u image \<Rightarrow> int32_t" where
  "im_getSessionId im = im_sessionId im"

definition im_getCorrelationId :: "'u image \<Rightarrow> int64_t" where
  "im_getCorrelationId im = im_correlationId im"

definition im_initialTermId :: "'u image \<Rightarrow> int32_t" where
  "im_initialTermId im = hd_initialTermId (im_header im)"

definition im_getLogBuffers :: "'u image \<Rightarrow> log_buffers option" where
  "im_getLogBuffers im = im_logBuffers im"

text \<open>
  A poll returns the exception or result, the image -- reading changes its header -- and the state.
  It is \<open>None\<close> when the handler does not return or the partition lookup leaves its table.
\<close>

definition image_poll ::
    "'u image \<Rightarrow> 'u fragment_handler \<Rightarrow> int32_t \<Rightarrow> cpu \<times> 'u \<Rightarrow> ((exn + int32_t) \<times> 'u image \<times> (cpu \<times> 'u)) option" where
  "image_poll im fragmentHandler fragmentLimit s =
     (case fst (position_get (im_subscriberPosition im) (fst s)) of
        Inl e \<Rightarrow> Some (Inl e, im, s)
      | Inr position \<Rightarrow>
          let termOffset = ucast position AND im_termLengthMask im
          in case indexByPosition position (im_positionBitsToShift im) of
               None \<Rightarrow> None
             | Some index \<Rightarrow>
                 (case tr_read (im_termBuffers im ! index) termOffset fragmentHandler fragmentLimit (im_header im)
                     (im_exceptionHandler im) s of
                    None \<Rightarrow> None
                  | Some (Inl e, readOutcome, hdr, s) \<Rightarrow> Some (Inl e, im\<lparr>im_header := hdr\<rparr>, s)
                  | Some (Inr _, readOutcome, hdr, s) \<Rightarrow>
                      (let im = im\<lparr>im_header := hdr\<rparr>;
                           newPosition = position + scast (ro_offset readOutcome - termOffset)
                       in if sint newPosition > sint position
                          then case position_setOrdered (im_subscriberPosition im) newPosition (fst s) of
                                 (Inl e, c) \<Rightarrow> Some (Inl e, im, (c, snd s))
                               | (Inr _, c) \<Rightarrow> Some (Inr (ro_fragmentsRead readOutcome), im, (c, snd s))
                          else Some (Inr (ro_fragmentsRead readOutcome), im, s))))"

text \<open>Handing a block over: whatever is thrown goes to the exception handler.\<close>

definition handBlock :: "'u image \<Rightarrow> 'u block_handler \<Rightarrow> abuf \<Rightarrow> int32_t \<Rightarrow> int32_t \<Rightarrow> (cpu \<times> 'u, unit) oact" where
  "handBlock im blockHandler termBuffer termOffset bytesConsumed s =
     (case obind (lift_act (ab_getInt32 termBuffer (termOffset + TERM_ID_FIELD_OFFSET)))
             (\<lambda>termId. blockHandler termBuffer termOffset bytesConsumed (im_sessionId im) termId) s of
        None \<Rightarrow> None
      | Some (Inl ex, s) \<Rightarrow> im_exceptionHandler im (sliced ex) s
      | Some (Inr _, s) \<Rightarrow> Some (Inr (), s))"

definition blockPoll :: "'u image \<Rightarrow> 'u block_handler \<Rightarrow> int32_t \<Rightarrow> (cpu \<times> 'u, int32_t) oact" where
  "blockPoll im blockHandler blockLengthLimit =
     obind (lift_act (position_get (im_subscriberPosition im))) (\<lambda>position.
     let termOffset = ucast position AND im_termLengthMask im
     in obind (ofOption (indexByPosition position (im_positionBitsToShift im))) (\<lambda>index.
        let termBuffer = im_termBuffers im ! index;
            limit = min_index (termOffset + blockLengthLimit) (ab_capacity termBuffer)
        in obind (\<lambda>s. map_option (\<lambda>r. (r, s)) (scan termBuffer termOffset limit (fst s))) (\<lambda>resultingOffset.
           let bytesConsumed = resultingOffset - termOffset
           in if sint resultingOffset > sint termOffset
              then obind (handBlock im blockHandler termBuffer termOffset bytesConsumed)
                (\<lambda>_. obind (lift_act (position_setOrdered (im_subscriberPosition im) (position + scast bytesConsumed)))
                (\<lambda>_. oret bytesConsumed))
              else oret bytesConsumed)))"

section \<open>Well-formed images\<close>

definition wf_image :: "nat \<Rightarrow> 'u image \<Rightarrow> bool" where
  "wf_image k im \<longleftrightarrow> k \<le> 30 \<and> length (im_termBuffers im) = 3 \<and> im_termLengthMask im = of_nat (2 ^ k - 1) \<and>
     im_positionBitsToShift im = of_nat k \<and> in_range (bp_buffer (im_subscriberPosition im)) (bp_offset (im_subscriberPosition im)) 8"

abbreviation position_addr :: "'u image \<Rightarrow> addr" where
  "position_addr im \<equiv> at (bp_buffer (im_subscriberPosition im)) (bp_offset (im_subscriberPosition im))"

lemma Position_id [simp]: "Position p = p" "ReadablePosition p = p"
  by (simp_all add: Position_def ReadablePosition_def UnsafeBufferPosition_copy_def bp_wrap_def
      UnsafeBufferPosition_default_def wrap_buffer_def AtomicBuffer_empty_def)

lemma wrap_buffer_id [simp]: "wrap_buffer b b' = b"
  by (simp add: wrap_buffer_def)

lemma bp_wrap_id [simp]: "bp_wrap p p' = p"
  by (simp add: bp_wrap_def)

lemma image_copies:
  assumes "wf_image k im"
  shows "Image_copy im = im" "Image_assign im im' = im"
proof -
  have "map ((!) (im_termBuffers im)) [0..<3] = im_termBuffers im"
    using assms map_nth[of "im_termBuffers im"] by (simp add: wf_image_def)
  then show "Image_copy im = im" "Image_assign im im' = im" by (simp_all add: Image_copy_def Image_assign_def)
qed

lemma Image_init_wf:
  assumes "k \<le> 30" "in_range (bp_buffer sp) (bp_offset sp) 8" "lg_buffers lg = log_layout a (2 ^ k)"
  obtains im where "Image_init sid pos cid sp lg eh c =
      (Inr im, put_le 8 c (at (bp_buffer sp) (bp_offset sp)) pos)" "wf_image k im"
    "im_termBuffers im = map (\<lambda>i. AtomicBuffer (a + int (i * 2 ^ k)) (2 ^ k)) [0..<3]"
    "im_initialTermId im = get_le 4 c (a + int (3 * 2 ^ k + 1280))" "im_subscriberPosition im = sp"
    "im_sessionId im = sid" "im_exceptionHandler im = eh"
proof -
  have nth: "log_layout a (2 ^ k) ! 6 = AtomicBuffer (a + int (3 * 2 ^ k + 1152)) 640"
    "(i :: nat) < 3 \<Longrightarrow> log_layout a (2 ^ k) ! i = AtomicBuffer (a + int (i * 2 ^ k)) (2 ^ k)" for i
    using log_layout_nth(1)[of i a "2 ^ k"] log_layout_nth(3)[of a "2 ^ k"] by simp_all
  have bufs: "map (\<lambda>i. log_layout a (2 ^ k) ! i) [0..<3] = map (\<lambda>i. AtomicBuffer (a + int (i * 2 ^ k)) (2 ^ k)) [0..<3]"
    by (simp add: nth(2))
  have n0: "log_layout a (2 ^ k) ! 0 = AtomicBuffer a (2 ^ k)" using nth(2)[of 0] by simp
  have tz: "numberOfTrailingZeroes (2 ^ k) = k"
    using numberOfTrailingZeroes_power[of k] assms(1) by (simp add: push_bit_eq_mult)
  have m: "(2 ^ k - 1 :: int32_t) = of_nat (2 ^ k - 1)" by (simp add: of_nat_diff)
  have cp: "ab_capacity (AtomicBuffer a (2 ^ k)) = 2 ^ k" by (simp add: ab_capacity_def AtomicBuffer_def)
  have ix: "atomicBuffer lg (unat LOG_META_DATA_SECTION_INDEX) = AtomicBuffer (a + int (3 * 2 ^ k + 1152)) 640"
    "atomicBuffer lg 0 = AtomicBuffer a (2 ^ k)"
    by (simp_all only: atomicBuffer_def assms(3) n0) (simp add: layout nth(1))
  have bf: "map (atomicBuffer lg) [0..<3] = map (\<lambda>i. AtomicBuffer (a + int (i * 2 ^ k)) (2 ^ k)) [0..<3]"
    using bufs by (simp add: atomicBuffer_def assms(3))
  have b0: "map (\<lambda>i. AtomicBuffer (a + int (i * 2 ^ k)) (2 ^ k)) [0..<3] ! 0 = AtomicBuffer a (2 ^ k)"
    by (simp add: upt3)
  have mi: "in_range (AtomicBuffer (a + int (3 * 2 ^ k + 1152)) 640) 128 4"
    "at (AtomicBuffer (a + int (3 * 2 ^ k + 1152)) 640) 128 = a + int (3 * 2 ^ k + 1280)"
    by (simp_all add: in_range_def at_def AtomicBuffer_def)
  have t: "lb_initialTermId (AtomicBuffer (a + int (3 * 2 ^ k + 1152)) 640) c = (Inr (get_le 4 c (a + int (3 * 2 ^ k + 1280))), c)"
    using ab_get_ok(3)[OF mi(1), of c] unfolding mi(2) by (simp add: lb_initialTermId_def layout)
  have st: "position_setOrdered sp pos c = (Inr (), put_le 8 c (at (bp_buffer sp) (bp_offset sp)) pos)"
    using assms(2) by (simp add: position_setOrdered_def ab_ok)
  have "Image_init sid pos cid sp lg eh c = (Inr \<lparr>im_termBuffers = map (\<lambda>i. AtomicBuffer (a + int (i * 2 ^ k)) (2 ^ k)) [0..<3],
      im_header = Header (get_le 4 c (a + int (3 * 2 ^ k + 1280))) (2 ^ k), im_subscriberPosition = sp, im_logBuffers = Some lg,
      im_exceptionHandler = eh, im_correlationId = cid, im_sessionId = sid, im_termLengthMask = of_nat (2 ^ k - 1),
      im_positionBitsToShift = of_nat k\<rparr>, put_le 8 c (at (bp_buffer sp) (bp_offset sp)) pos)"
    unfolding Image_init_def ix bf Let_def b0 cp tz m Position_id
    by (subst bind_cases(1), rule t, subst bind_cases(3), rule st) (simp only: act_simps)
  then show thesis
    using that assms(1,2) by (simp add: wf_image_def im_initialTermId_def hd_initialTermId_def Header_def)
qed

section \<open>Polling\<close>

lemma term_offset_nat:
  assumes "k \<le> 30" "p < 2 ^ k"
  shows "ucast (of_nat (n * 2 ^ k + p) :: int64_t) AND (of_nat (2 ^ k - 1) :: int32_t) = of_nat p"
proof -
  have m: "(of_nat (2 ^ k - 1) :: int32_t) = mask k" by (simp add: mask_eq_exp_minus_1 of_nat_diff)
  have "ucast (of_nat (n * 2 ^ k + p) :: int64_t) = (of_nat (take_bit 64 (n * 2 ^ k + p)) :: int32_t)"
    by (simp only: unsigned_of_nat) simp
  also have "\<dots> AND mask k = of_nat (take_bit 64 (n * 2 ^ k + p) mod 2 ^ k)"
    by (simp only: and_mask_take_bit take_bit_of_nat_word)
  also have "take_bit 64 (n * 2 ^ k + p) mod 2 ^ k = p"
  proof -
    have "(2 :: nat) ^ k dvd 2 ^ 64" using assms(1) by (intro le_imp_power_dvd) simp
    then have "take_bit 64 (n * 2 ^ k + p) mod 2 ^ k = (n * 2 ^ k + p) mod 2 ^ k"
      unfolding take_bit_eq_mod by (rule mod_mod_cancel)
    then show ?thesis using assms(2) by simp
  qed
  finally show ?thesis unfolding m .
qed

text \<open>The position a read or scan that reaches \<open>q\<close> moves to.\<close>

lemma new_position_nat:
  assumes "k \<le> 30" "n < 2 ^ 31" "p \<le> q" "q \<le> 2 ^ k"
  shows "(of_nat (n * 2 ^ k + p) :: int64_t) + scast (of_nat q - of_nat p :: int32_t) = of_nat (n * 2 ^ k + q)"
    "sint (of_nat (n * 2 ^ k + p) :: int64_t) < sint (of_nat (n * 2 ^ k + q) :: int64_t) \<longleftrightarrow> p < q"
proof -
  have "(2 :: nat) ^ k \<le> 2 ^ 30" using assms(1) by (intro power_increasing) simp_all
  then have d: "q - p < 2 ^ 31" using assms(4) by simp
  have "(of_nat q - of_nat p :: int32_t) = of_nat (q - p)" using assms(3) by (simp add: of_nat_diff)
  then have "(of_nat (n * 2 ^ k + p) :: int64_t) + scast (of_nat q - of_nat p :: int32_t) = of_nat (n * 2 ^ k + p + (q - p))"
    by (simp only: scast_of_nat[OF d] of_nat_add)
  then show "(of_nat (n * 2 ^ k + p) :: int64_t) + scast (of_nat q - of_nat p :: int32_t) = of_nat (n * 2 ^ k + q)"
    using assms(3) by simp
  show "sint (of_nat (n * 2 ^ k + p) :: int64_t) < sint (of_nat (n * 2 ^ k + q) :: int64_t) \<longleftrightarrow> p < q"
    using unat_position(2)[OF assms(1,2), of p] unat_position(2)[OF assms(1,2), of q] assms(3,4) by simp
qed

lemma deliver_bounds: "deliver h p fs n x = (ex, q, m, y) \<Longrightarrow> p \<le> q \<and> q \<le> p + sizes fs"
  by (induction h p fs n x rule: deliver.induct) (auto split: prod.splits sum.splits simp: add.assoc)

lemma sizes_taken: "sizes (taken lim fs) \<le> sizes fs"
  by (induction lim fs rule: taken.induct) (auto simp: Let_def)

text \<open>
  C21. Polling an image whose subscriber is at offset \<open>p\<close> of the \<open>n\<close>-th term: the data frames from there
  on are handed to the handler in order up to the limit, out of the partition of that term; the
  answer is the number of fragments handled; and the position becomes that of the offset reached --
  at the end of the term the start of the next one -- and is written only if it moved. An exception
  of the handler goes to the exception handler and the position still passes the frame, unless the
  exception handler throws as well.
\<close>

theorem image_poll_advances:
  assumes "wf_image k im" "n < 2 ^ 31 - 2" "p < 2 ^ k"
    and pos: "get_le 8 (fst s) (position_addr im) = (of_nat (n * 2 ^ k + p) :: int64_t)"
    and client: "fragment_client (im_termBuffers im ! (n mod 3)) (2 ^ k) ids m handler h rel"
    and rd: "readable (im_termBuffers im ! (n mod 3)) (2 ^ k) ids (fst s) p fs E" and rel: "rel p x s"
    and dl: "deliver h p (taken (nat (sint lim)) fs) 0 x = (ex, q, cnt, x')"
  shows "\<exists>hdr' s'. rel q x' s' \<and> p \<le> q \<and> q \<le> E \<and>
    image_poll im handler lim s =
      (case handled (im_exceptionHandler im) ex s' of
         None \<Rightarrow> None
       | Some (Inl e, t) \<Rightarrow> Some (Inl e, im\<lparr>im_header := hdr'\<rparr>, t)
       | Some (Inr _, t) \<Rightarrow> Some (Inr (of_nat cnt), im\<lparr>im_header := hdr'\<rparr>,
           (if p < q then put_le 8 (fst t) (position_addr im) (of_nat (n * 2 ^ k + q) :: int64_t) else fst t, snd t)))"
proof -
  have wf: "k \<le> 30" "im_termLengthMask im = of_nat (2 ^ k - 1)" "im_positionBitsToShift im = of_nat k"
    "in_range (bp_buffer (im_subscriberPosition im)) (bp_offset (im_subscriberPosition im)) 8"
    using assms(1) by (simp_all add: wf_image_def)
  have n: "n < 2 ^ 31" using assms(2) by simp
  have E: "E = p + sizes fs" "E \<le> 2 ^ k" using readable_end[OF rd] by simp_all
  have q: "p \<le> q" "q \<le> E" using deliver_bounds[OF dl] sizes_taken[of "nat (sint lim)" fs] E by simp_all
  then have qk: "q \<le> 2 ^ k" using E(2) by simp
  obtain hdr' s' where r: "rel q x' s'" "tr_read (im_termBuffers im ! (n mod 3)) (of_nat p) handler lim (im_header im)
      (im_exceptionHandler im) s = map_option (\<lambda>(r, t). (r, \<lparr>ro_offset = of_nat q, ro_fragmentsRead = of_nat cnt\<rparr>, hdr', t))
        (handled (im_exceptionHandler im) ex s')"
    using fragment_client.tr_read_spec[OF client rd rel assms(3) dl] by blast
  have g: "fst (position_get (im_subscriberPosition im) (fst s)) = Inr (of_nat (n * 2 ^ k + p))"
    using wf(4) pos by (simp add: position_get_def ab_ok)
  note np = new_position_nat[OF wf(1) n q(1) qk]
  have st: "position_setOrdered (im_subscriberPosition im) v c = (Inr (), put_le 8 c (position_addr im) v)" for v c
    using wf(4) by (simp add: position_setOrdered_def ab_ok)
  have "image_poll im handler lim s =
      (case handled (im_exceptionHandler im) ex s' of
         None \<Rightarrow> None
       | Some (Inl e, t) \<Rightarrow> Some (Inl e, im\<lparr>im_header := hdr'\<rparr>, t)
       | Some (Inr _, t) \<Rightarrow> Some (Inr (of_nat cnt), im\<lparr>im_header := hdr'\<rparr>,
           (if p < q then put_le 8 (fst t) (position_addr im) (of_nat (n * 2 ^ k + q) :: int64_t) else fst t, snd t)))"
    unfolding image_poll_def g sum.case Let_def wf(2,3) term_offset_nat[OF wf(1) assms(3)]
      indexByPosition_nat[OF wf(1) assms(2,3)] option.case r(2)
    by (auto simp: np st simp del: of_nat_add of_nat_mult split: option.splits sum.splits)
  then show ?thesis using r(1) q by blast
qed

text \<open>
  Polling for a block hands the handler one block of whole frames, as many as fit into the limit,
  with the session of the image and the term id of its first frame, moves the position past it --
  also when the handler throws, in which case the exception handler is called -- and answers its
  length; without a whole frame nothing happens.
\<close>

theorem blockPoll_whole_frames:
  assumes wf: "wf_image k im" and n: "n < 2 ^ 31 - 2" and p: "p < 2 ^ k"
    and pos: "get_le 8 (fst s) (position_addr im) = (of_nat (n * 2 ^ k + p) :: int64_t)"
    and rd: "readable (im_termBuffers im ! (n mod 3)) (2 ^ k) ids (fst s) p fs E" and bl: "0 < bl" "p + bl < 2 ^ 31"
    and H: "\<And>b i d sid tid s. handler b i d sid tid s = Some (H b i d sid tid s)"
  defines "hand \<equiv> \<lambda>xs. H (im_termBuffers im ! (n mod 3)) (of_nat p) (of_nat (sizes xs)) (im_sessionId im) (dec (drop 8 ids)) s"
  shows "\<exists>xs ys. fs = xs @ ys \<and> sizes xs \<le> bl \<and> (ys = [] \<or> bl < sizes xs + frame_size (hd ys)) \<and>
    blockPoll im handler (of_nat bl) s =
      (if xs = [] then Some (Inr 0, s)
       else case handled (im_exceptionHandler im) (thrown (fst (hand xs))) (snd (hand xs)) of
              None \<Rightarrow> None
            | Some (Inl e, t) \<Rightarrow> Some (Inl e, t)
            | Some (Inr _, t) \<Rightarrow> Some (Inr (of_nat (sizes xs)),
                put_le 8 (fst t) (position_addr im) (of_nat (n * 2 ^ k + p + sizes xs) :: int64_t), snd t))"
proof -
  let ?b = "im_termBuffers im ! (n mod 3)" and ?lim = "min (p + bl) (2 ^ k)"
  have w: "k \<le> 30" "im_termLengthMask im = of_nat (2 ^ k - 1)" "im_positionBitsToShift im = of_nat k"
    "in_range (bp_buffer (im_subscriberPosition im)) (bp_offset (im_subscriberPosition im)) 8"
    using wf by (simp_all add: wf_image_def)
  have n': "n < 2 ^ 31" using n by simp
  note e = readable_end[OF rd]
  have cap: "ab_capacity ?b = of_nat (2 ^ k)" "(2 :: nat) ^ k < 2 ^ 31"
    using rd w(1) power_increasing[of k 30 "2 :: nat"] by (simp_all add: readable_def ab_capacity_def)
  have lim: "p < ?lim" "?lim \<le> 2 ^ k" using p bl(1) by simp_all
  obtain xs ys where x: "fs = xs @ ys" "scan ?b (of_nat p) (of_nat ?lim) (fst s) = Some (Inr (of_nat (p + sizes xs)))"
    "p + sizes xs \<le> ?lim" "ys = [] \<or> ?lim < p + sizes xs + frame_size (hd ys)"
    using scan_spec[OF rd lim] by blast
  have fits: "ys = [] \<or> bl < sizes xs + frame_size (hd ys)"
  proof (cases ys)
    case (Cons y ys')
    then have "p + sizes xs + frame_size y \<le> 2 ^ k" using e(2,5) x(1) by simp
    then show ?thesis using x(4) Cons by auto
  qed simp
  have mn: "min_index (of_nat p + of_nat bl) (of_nat (2 ^ k)) = of_nat ?lim"
    using min_index_of_nat[of "p + bl" "2 ^ k"] bl(2) cap(2) by simp
  have g: "lift_act (position_get (im_subscriberPosition im)) s = Some (Inr (of_nat (n * 2 ^ k + p)), s)"
    using w(4) pos by (simp add: position_get_def lift_act_def ab_ok)
  have qk: "p \<le> p + sizes xs" "p + sizes xs \<le> 2 ^ k" using x(3) by simp_all
  have d: "of_nat (p + sizes xs) - of_nat p = (of_nat (sizes xs) :: int32_t)" by simp
  have np: "(of_nat (n * 2 ^ k + p) :: int64_t) + scast (of_nat (sizes xs) :: int32_t) = of_nat (n * 2 ^ k + p + sizes xs)"
    using new_position_nat(1)[OF w(1) n' qk] unfolding d by (simp only: add.assoc)
  have sx: "sint (of_nat (p + sizes xs) :: int32_t) > sint (of_nat p :: int32_t) \<longleftrightarrow> xs \<noteq> []"
  proof -
    have "sizes xs = 0 \<longleftrightarrow> xs = []"
    proof (cases xs)
      case (Cons f fs')
      have "24 \<le> frame_length f" using readable_Cons(5)[of ?b "2 ^ k" ids "fst s" p f "fs' @ ys" E] rd x(1) Cons by simp
      then show ?thesis using frame_size_bounds(1)[of f] Cons by simp
    qed simp
    then have "0 < sizes xs \<longleftrightarrow> xs \<noteq> []" by auto
    then show ?thesis using sint_of_nat32[of p] sint_of_nat32[of "p + sizes xs"] qk cap(2) by simp
  qed
  have run: "blockPoll im handler (of_nat bl) s = (if xs = [] then Some (Inr (of_nat (sizes xs)), s)
      else obind (handBlock im handler ?b (of_nat p) (of_nat (sizes xs)))
        (\<lambda>_. obind (lift_act (position_setOrdered (im_subscriberPosition im) (of_nat (n * 2 ^ k + p + sizes xs))))
        (\<lambda>_. oret (of_nat (sizes xs)))) s)"
    unfolding blockPoll_def
    by (subst oact_simps(3), rule g)
      (simp only: Let_def w(2,3) term_offset_nat[OF w(1) p] indexByPosition_nat[OF w(1) n p] cap(1) mn obind_def ofOption_def
        option.case sum.case prod.case x(2) option.map d np sx oret_def if_not_P split: if_split, simp)
  have "handBlock im handler ?b (of_nat p) (of_nat (sizes xs)) s =
      handled (im_exceptionHandler im) (thrown (fst (hand xs))) (snd (hand xs))" if ne: "xs \<noteq> []"
  proof -
    obtain f fs' where xs: "xs = f # fs'" using ne by (cases xs) auto
    have rd': "readable ?b (2 ^ k) ids (fst s) p (f # fs' @ ys) E" using rd x(1) xs by simp
    note r = readable_Cons[OF rd']
    have le: "p + 24 \<le> 2 ^ k" using r(5,7) frame_size_bounds(1)[of f] e(2) by linarith
    have ids: "read_bytes (view (fst s)) (ab_buffer ?b + int p + 12) 12 = ids" using r(8) by (simp add: frame_at_def)
    have "read_bytes (view (fst s)) (ab_buffer ?b + int p + 20) 4 = drop 8 ids"
      using read_bytes_sub[of 8 4 12 "view (fst s)" "ab_buffer ?b + int p + 12"] ids
      by (simp add: add.assoc length_read_bytes[symmetric])
    moreover have "in_range ?b (of_nat p + 20) 4" "at ?b (of_nat p + 20) = ab_buffer ?b + int p + 20"
      using readable_index[OF rd, of "p + 20" 4] le by simp_all
    ultimately have "lift_act (ab_getInt32 ?b (of_nat p + TERM_ID_FIELD_OFFSET)) s = Some (Inr (dec (drop 8 ids)), s)"
      by (simp add: layout ab_ok lift_act_def get_le_def load_def)
    then show ?thesis by (simp add: handBlock_def H hand_def handled_def thrown_def split: prod.splits sum.splits)
  qed
  then have "blockPoll im handler (of_nat bl) s =
      (if xs = [] then Some (Inr 0, s)
       else case handled (im_exceptionHandler im) (thrown (fst (hand xs))) (snd (hand xs)) of
              None \<Rightarrow> None
            | Some (Inl e, t) \<Rightarrow> Some (Inl e, t)
            | Some (Inr _, t) \<Rightarrow> Some (Inr (of_nat (sizes xs)),
                put_le 8 (fst t) (position_addr im) (of_nat (n * 2 ^ k + p + sizes xs) :: int64_t), snd t))"
    unfolding run using w(4)
    by (auto simp: obind_def oret_def lift_act_def position_setOrdered_def ab_ok simp del: of_nat_add of_nat_mult
        split: option.splits sum.splits)
  moreover have "sizes xs \<le> bl" using x(3) by simp
  ultimately show ?thesis using x(1) fits by blast
qed

section \<open>A concrete image\<close>

definition demo_image :: "byte list list image" where
  "demo_image =
     \<lparr>im_termBuffers = [AtomicBuffer 0 65536, AtomicBuffer 0 65536, AtomicBuffer 0 65536], im_header = Header 0 65536,
      im_subscriberPosition = UnsafeBufferPosition (AtomicBuffer 100000 128) 0, im_logBuffers = None,
      im_exceptionHandler = ignore, im_correlationId = 3, im_sessionId = 7, im_termLengthMask = 65535,
      im_positionBitsToShift = 16\<rparr>"

lemma demo_image_wf: "wf_image 16 demo_image" "position_addr demo_image = 100000"
  by (simp_all add: wf_image_def demo_image_def in_range_def at_def UnsafeBufferPosition_def AtomicBuffer_def counterOffset_def)

lemma demo_position:
  assumes "\<forall>x\<ge>65536. view c x = view demo_cpu x"
  shows "get_le 8 c (position_addr demo_image) = (0 :: int64_t)"
proof -
  have "read_bytes (view c) 100000 8 = read_bytes (view demo_cpu) 100000 8"
    using assms by (intro read_bytes_cong) simp
  then show ?thesis using demo_zero[of 100000 8] by (simp add: demo_image_wf(2) get_le_def load_def dec_zeros)
qed

theorem image_poll_advances_witness:
  "\<exists>c hdr' c'. image_poll demo_image collect_payload 10 (c, []) =
     Some (Inr 1, demo_image\<lparr>im_header := hdr'\<rparr>, (put_le 8 c' 100000 (32 :: int64_t), [[0, 0, 0]]))"
proof -
  obtain c where r: "readable (AtomicBuffer 0 65536) 65536 (replicate 12 0) c 0 [Data 0 [0, 0, 0]] 32"
    "\<forall>x\<ge>65536. view c x = view demo_cpu x" using demo_readable_outside by blast
  have rel: "collected (AtomicBuffer 0 65536) 65536 (view c) 0 [] (c, [])" by (simp add: collected_def)
  have dl: "deliver (\<lambda>p fl bs x. (Inr (), x @ [bs])) 0 (taken (nat (sint (10 :: int32_t))) [Data 0 [0, 0, 0]]) 0 [] =
      (None, 32, 1, [[0, 0, 0]])" by (simp add: frame_size_def)
  have b: "im_termBuffers demo_image ! 0 = AtomicBuffer 0 65536" by (simp add: demo_image_def)
  show ?thesis
    using image_poll_advances[OF demo_image_wf(1), of 0 0 "(c, [])" "replicate 12 0" "view c" collect_payload
        "\<lambda>p fl bs x. (Inr (), x @ [bs])" "collected (AtomicBuffer 0 65536) 65536 (view c)" "[Data 0 [0, 0, 0]]" 32
        "[]" 10 None 32 1 "[[0, 0, 0]]"]
      demo_position[OF r(2)] r(1) rel dl demo_client.fragment_client_axioms[of "replicate 12 0" "view c"]
    by (auto simp: b demo_image_wf(2) collected_def handled_def)
qed

theorem blockPoll_whole_frames_witness:
  "\<exists>c. blockPoll demo_image (\<lambda>b i d sid tid s. Some (Inr (), (fst s, snd s @ [[ucast sid, ucast tid]]))) 1024 (c, []) =
     Some (Inr 32, (put_le 8 c 100000 (32 :: int64_t), [[7, 0]]))"
proof -
  obtain c where r: "readable (AtomicBuffer 0 65536) 65536 (replicate 12 0) c 0 [Data 0 [0, 0, 0]] 32"
    "\<forall>x\<ge>65536. view c x = view demo_cpu x" using demo_readable_outside by blast
  have b: "im_termBuffers demo_image ! 0 = AtomicBuffer 0 65536" by (simp add: demo_image_def)
  have i: "im_sessionId demo_image = 7" by (simp add: demo_image_def)
  show ?thesis
    using blockPoll_whole_frames[OF demo_image_wf(1), of 0 0 "(c, [])" "replicate 12 0" "[Data 0 [0, 0, 0]]" 32 1024
        "\<lambda>b i d sid tid s. Some (Inr (), (fst s, snd s @ [[ucast sid, ucast tid]]))"
        "\<lambda>b i d sid tid s. (Inr (), (fst s, snd s @ [[ucast sid, ucast tid]]))"]
      demo_position[OF r(2)] r(1)
    by (intro exI[of _ c]) (auto simp: b demo_image_wf(2) i dec_zeros Cons_eq_append_conv frame_size_def handled_def thrown_def)
qed

end
