(* ===== verification/Subscription.thy ===== *)
theory Subscription
  imports Image
begin

text \<open>
  \<^verbatim>\<open>Subscription.h\<close> and \<^verbatim>\<open>Subscription.cpp\<close>: the images of a channel and stream, kept in an array that the
  polling thread reads and the conductor thread replaces. The arrays live on a heap; an address is
  never used twice, and a freed array has no contents. Reading outside an array, through a null
  pointer or from a freed array is undefined: the outcome is then \<open>None\<close>, as it is for a handler that
  does not return.
\<close>

section \<open>Arrays of images\<close>

type_synonym 'u image_heap = "'u image list option list"
type_synonym image_ptr = "nat option"

definition array :: "'u image_heap \<Rightarrow> image_ptr \<Rightarrow> 'u image list option" where
  "array h p = (case p of None \<Rightarrow> None | Some a \<Rightarrow> if a < length h then h ! a else None)"

definition imageAt :: "'u image_heap \<Rightarrow> image_ptr \<Rightarrow> int32_t \<Rightarrow> 'u image option" where
  "imageAt h p i =
     (case array h p of
        None \<Rightarrow> None
      | Some xs \<Rightarrow> if 0 \<le> sint i \<and> nat (sint i) < length xs then Some (xs ! nat (sint i)) else None)"

definition putImage :: "'u image_heap \<Rightarrow> image_ptr \<Rightarrow> int32_t \<Rightarrow> 'u image \<Rightarrow> 'u image_heap option" where
  "putImage h p i im =
     (case (p, array h p) of
        (Some a, Some xs) \<Rightarrow> if 0 \<le> sint i \<and> nat (sint i) < length xs then Some (h[a := Some (xs[nat (sint i) := im])]) else None
      | _ \<Rightarrow> None)"

text \<open>
  \<^verbatim>\<open>new Image[length]\<close>; \<open>junk\<close> is what the default constructor leaves in the members it does not
  initialise. A negative length throws and is not modelled further: it is \<open>None\<close>.
\<close>

definition newArray :: "'u image \<Rightarrow> 'u image_heap \<Rightarrow> int32_t \<Rightarrow> (image_ptr \<times> 'u image_heap) option" where
  "newArray junk h n = (if 0 \<le> sint n
     then Some (Some (length h), h @ [Some (replicate (nat (sint n)) (Image_default junk))]) else None)"

text \<open>\<^verbatim>\<open>delete[]\<close>: a null pointer is fine, freeing an array twice is undefined.\<close>

definition deleteArray :: "'u image_heap \<Rightarrow> image_ptr \<Rightarrow> 'u image_heap option" where
  "deleteArray h p =
     (case p of None \<Rightarrow> Some h | Some a \<Rightarrow> if array h p = None then None else Some (h[a := None]))"

text \<open>\<^verbatim>\<open>newArray[j] = std::move(oldArray[i])\<close>.\<close>

definition moveImage :: "image_ptr \<Rightarrow> int32_t \<Rightarrow> image_ptr \<Rightarrow> int32_t \<Rightarrow> 'u image_heap \<Rightarrow> 'u image_heap option" where
  "moveImage old i new j h =
     (case (imageAt h old i, imageAt h new j) of
        (Some x, Some y) \<Rightarrow>
          (case Image_move x y of
             (y', x') \<Rightarrow> (case putImage h old i x' of None \<Rightarrow> None | Some h' \<Rightarrow> putImage h' new j y'))
      | _ \<Rightarrow> None)"

section \<open>Subscription\<close>

record subscription =
  sn_channel :: "byte list"
  sn_roundRobinIndex :: int32_t
  sn_registrationId :: int64_t
  sn_streamId :: int32_t
  sn_images :: image_ptr
  sn_imagesLength :: int32_t

definition Subscription_init :: "int64_t \<Rightarrow> byte list \<Rightarrow> int32_t \<Rightarrow> subscription" where
  "Subscription_init registrationId channel streamId =
     \<lparr>sn_channel = channel, sn_roundRobinIndex = 0, sn_registrationId = registrationId, sn_streamId = streamId,
      sn_images = None, sn_imagesLength = 0\<rparr>"

definition sn_getChannel :: "subscription \<Rightarrow> byte list" where
  "sn_getChannel sn = sn_channel sn"

definition sn_getStreamId :: "subscription \<Rightarrow> int32_t" where
  "sn_getStreamId sn = sn_streamId sn"

definition sn_getRegistrationId :: "subscription \<Rightarrow> int64_t" where
  "sn_getRegistrationId sn = sn_registrationId sn"

subsection \<open>Polling\<close>

text \<open>
  The rounds of a poll, on the array and the length that the poll read. A round reads the image \<open>i\<close>,
  polls it and stores what the poll changed in it.
\<close>

type_synonym 'u poll_state = "'u image_heap \<times> (cpu \<times> 'u)"

definition poll_one :: "image_ptr \<Rightarrow> 'u fragment_handler \<Rightarrow> int32_t \<Rightarrow> int32_t \<Rightarrow> ('u poll_state, int32_t) oact" where
  "poll_one images fragmentHandler fragmentLimit i = (\<lambda>(h, s).
     case imageAt h images i of
       None \<Rightarrow> None
     | Some im \<Rightarrow>
         (case image_poll im fragmentHandler fragmentLimit s of
            None \<Rightarrow> None
          | Some (r, im', s') \<Rightarrow> map_option (\<lambda>h'. (r, (h', s'))) (putImage h images i im')))"

partial_function (option) poll_rounds ::
    "image_ptr \<Rightarrow> int32_t \<Rightarrow> 'u fragment_handler \<Rightarrow> int32_t \<Rightarrow> int32_t \<Rightarrow> int32_t \<Rightarrow> int32_t \<Rightarrow> 'u poll_state \<Rightarrow>
      ((exn + int32_t) \<times> 'u poll_state) option" where
  "poll_rounds images len fragmentHandler fragmentLimit startingIndex i fragmentsRead s =
     (case poll_one images fragmentHandler fragmentLimit i s of
        None \<Rightarrow> None
      | Some (Inl e, s) \<Rightarrow> Some (Inl e, s)
      | Some (Inr n, s) \<Rightarrow>
          (let fragmentsRead = fragmentsRead + n; i = (if i + 1 = len then 0 else i + 1)
           in if sint fragmentsRead < sint fragmentLimit \<and> i \<noteq> startingIndex
              then poll_rounds images len fragmentHandler fragmentLimit startingIndex i fragmentsRead s
              else Some (Inr fragmentsRead, s)))"

text \<open>The part of a poll after it has read \<open>m_imagesLength\<close> and, after that, \<open>m_images\<close>.\<close>

definition poll_with ::
    "int32_t \<Rightarrow> image_ptr \<Rightarrow> subscription \<Rightarrow> 'u fragment_handler \<Rightarrow> int32_t \<Rightarrow> 'u poll_state \<Rightarrow>
      ((exn + int32_t) \<times> subscription \<times> 'u poll_state) option" where
  "poll_with len images sn fragmentHandler fragmentLimit s =
     (if sint len > 0
      then let reset = sint (sn_roundRobinIndex sn) \<ge> sint len;
               startingIndex = (if reset then 0 else sn_roundRobinIndex sn);
               sn = (if reset then sn\<lparr>sn_roundRobinIndex := 0\<rparr> else sn)
           in map_option (\<lambda>(r, s). (r, sn, s))
             (poll_rounds images len fragmentHandler fragmentLimit startingIndex startingIndex 0 s)
      else Some (Inr 0, sn, s))"

definition sn_poll ::
    "subscription \<Rightarrow> 'u fragment_handler \<Rightarrow> int32_t \<Rightarrow> 'u poll_state \<Rightarrow>
      ((exn + int32_t) \<times> subscription \<times> 'u poll_state) option" where
  "sn_poll sn = poll_with (sn_imagesLength sn) (sn_images sn) sn"

fun blockPoll_loop ::
    "nat \<Rightarrow> int32_t \<Rightarrow> int32_t \<Rightarrow> image_ptr \<Rightarrow> 'u block_handler \<Rightarrow> int32_t \<Rightarrow> int64_t \<Rightarrow> ('u poll_state, int64_t) oact" where
  "blockPoll_loop 0 i len images blockHandler blockLengthLimit bytesConsumed s = Some (Inr bytesConsumed, s)"
| "blockPoll_loop (Suc n) i len images blockHandler blockLengthLimit bytesConsumed s =
     (case imageAt (fst s) images i of
        None \<Rightarrow> None
      | Some im \<Rightarrow>
          (case blockPoll im blockHandler blockLengthLimit (snd s) of
             None \<Rightarrow> None
           | Some (Inl e, t) \<Rightarrow> Some (Inl e, (fst s, t))
           | Some (Inr b, t) \<Rightarrow>
               blockPoll_loop n (i + 1) len images blockHandler blockLengthLimit (bytesConsumed + scast b) (fst s, t)))"

definition sn_blockPoll :: "subscription \<Rightarrow> 'u block_handler \<Rightarrow> int32_t \<Rightarrow> ('u poll_state, int64_t) oact" where
  "sn_blockPoll sn blockHandler blockLengthLimit =
     (let len = sn_imagesLength sn; images = sn_images sn
      in blockPoll_loop (nat (sint len)) 0 len images blockHandler blockLengthLimit 0)"

subsection \<open>Searching\<close>

text \<open>The first index from \<open>i\<close> on whose image satisfies \<open>P\<close>, of the \<open>n\<close> that are left.\<close>

fun find_image :: "('u image \<Rightarrow> bool) \<Rightarrow> 'u image_heap \<Rightarrow> image_ptr \<Rightarrow> nat \<Rightarrow> int32_t \<Rightarrow> int32_t option" where
  "find_image P h images 0 i = Some (- 1)"
| "find_image P h images (Suc n) i =
     (case imageAt h images i of
        None \<Rightarrow> None
      | Some im \<Rightarrow> if P im then Some i else find_image P h images n (i + 1))"

definition getImage_with :: "int32_t \<Rightarrow> image_ptr \<Rightarrow> 'u image_heap \<Rightarrow> int32_t \<Rightarrow> 'u image option option" where
  "getImage_with len images h sessionId =
     (case find_image (\<lambda>im. im_getSessionId im = sessionId) h images (nat (sint len)) 0 of
        None \<Rightarrow> None
      | Some index \<Rightarrow> if index \<noteq> - 1 then map_option (\<lambda>im. Some (Image_copy im)) (imageAt h images index) else Some None)"

definition getImage :: "subscription \<Rightarrow> 'u image_heap \<Rightarrow> int32_t \<Rightarrow> 'u image option option" where
  "getImage sn = getImage_with (sn_imagesLength sn) (sn_images sn)"

fun copy_images :: "'u image \<Rightarrow> 'u image_heap \<Rightarrow> image_ptr \<Rightarrow> nat \<Rightarrow> int32_t \<Rightarrow> 'u image list option" where
  "copy_images junk h images 0 i = Some []"
| "copy_images junk h images (Suc n) i =
     (case imageAt h images i of
        None \<Rightarrow> None
      | Some im \<Rightarrow> map_option ((#) (Image_assign im (Image_default junk))) (copy_images junk h images n (i + 1)))"

definition sn_images_copy :: "'u image \<Rightarrow> subscription \<Rightarrow> 'u image_heap \<Rightarrow> 'u image list option" where
  "sn_images_copy junk sn h =
     (let len = sn_imagesLength sn; images = sn_images sn in copy_images junk h images (nat (sint len)) 0)"

definition hasImage :: "subscription \<Rightarrow> 'u image_heap \<Rightarrow> int32_t \<Rightarrow> bool option" where
  "hasImage sn h sessionId =
     (let len = sn_imagesLength sn; images = sn_images sn
      in map_option (\<lambda>i. i \<noteq> - 1) (find_image (\<lambda>im. im_getSessionId im = sessionId) h images (nat (sint len)) 0))"

subsection \<open>Replacing the array\<close>

text \<open>What the conductor thread stores into the members that the polling thread loads, in order.\<close>

datatype image_store = StoreImages image_ptr | StoreImagesLength int32_t

fun do_store :: "image_store \<Rightarrow> subscription \<Rightarrow> subscription" where
  "do_store (StoreImages p) sn = sn\<lparr>sn_images := p\<rparr>"
| "do_store (StoreImagesLength n) sn = sn\<lparr>sn_imagesLength := n\<rparr>"

fun move_images :: "image_ptr \<Rightarrow> image_ptr \<Rightarrow> nat \<Rightarrow> int32_t \<Rightarrow> 'u image_heap \<Rightarrow> 'u image_heap option" where
  "move_images old new 0 i h = Some h"
| "move_images old new (Suc n) i h =
     (case moveImage old i new i h of None \<Rightarrow> None | Some h \<Rightarrow> move_images old new n (i + 1) h)"

text \<open>
  \<open>addImage\<close> before its stores: the old array, the heap, the connection -- moved from -- and the stores.
\<close>

definition addImage_prepare ::
    "'u image \<Rightarrow> subscription \<Rightarrow> 'u image \<Rightarrow> 'u image_heap \<Rightarrow>
      (image_ptr \<times> 'u image \<times> image_store list \<times> 'u image_heap) option" where
  "addImage_prepare junk sn connection h =
     (let oldArray = sn_images sn; len = sn_imagesLength sn
      in case newArray junk h (len + 1) of
           None \<Rightarrow> None
         | Some (new, h) \<Rightarrow>
             (case move_images oldArray new (nat (sint len)) 0 h of
                None \<Rightarrow> None
              | Some h \<Rightarrow>
                  (case imageAt h new len of
                     None \<Rightarrow> None
                   | Some im \<Rightarrow>
                       (case Image_move connection im of
                          (im', connection') \<Rightarrow>
                            map_option (\<lambda>h. (oldArray, connection', [StoreImages new, StoreImagesLength (len + 1)], h))
                              (putImage h new len im')))))"

definition addImage ::
    "'u image \<Rightarrow> subscription \<Rightarrow> 'u image \<Rightarrow> 'u image_heap \<Rightarrow> (image_ptr \<times> 'u image \<times> subscription \<times> 'u image_heap) option" where
  "addImage junk sn connection h =
     map_option (\<lambda>(old, connection, stores, h). (old, connection, fold do_store stores sn, h))
       (addImage_prepare junk sn connection h)"

text \<open>Everything but the image at \<open>index\<close> moves to the new array.\<close>

fun move_others :: "image_ptr \<Rightarrow> image_ptr \<Rightarrow> int32_t \<Rightarrow> nat \<Rightarrow> int32_t \<Rightarrow> int32_t \<Rightarrow> 'u image_heap \<Rightarrow> 'u image_heap option" where
  "move_others old new index 0 i j h = Some h"
| "move_others old new index (Suc n) i j h =
     (if i \<noteq> index
      then case moveImage old i new j h of None \<Rightarrow> None | Some h \<Rightarrow> move_others old new index n (i + 1) (j + 1) h
      else move_others old new index n (i + 1) j h)"

definition removeImage_prepare ::
    "'u image \<Rightarrow> subscription \<Rightarrow> int64_t \<Rightarrow> 'u image_heap \<Rightarrow>
      ((image_ptr \<times> int32_t) \<times> image_store list \<times> 'u image_heap) option" where
  "removeImage_prepare junk sn correlationId h =
     (let oldArray = sn_images sn; len = sn_imagesLength sn
      in case find_image (\<lambda>im. im_getCorrelationId im = correlationId) h oldArray (nat (sint len)) 0 of
           None \<Rightarrow> None
         | Some index \<Rightarrow>
             if - 1 \<noteq> index
             then case newArray junk h (len - 1) of
                    None \<Rightarrow> None
                  | Some (new, h) \<Rightarrow>
                      map_option (\<lambda>h. ((oldArray, index), [StoreImagesLength (len - 1), StoreImages new], h))
                        (move_others oldArray new index (nat (sint len)) 0 0 h)
             else Some ((None, index), [], h))"

definition removeImage ::
    "'u image \<Rightarrow> subscription \<Rightarrow> int64_t \<Rightarrow> 'u image_heap \<Rightarrow> ((image_ptr \<times> int32_t) \<times> subscription \<times> 'u image_heap) option" where
  "removeImage junk sn correlationId h =
     map_option (\<lambda>(r, stores, h). (r, fold do_store stores sn, h)) (removeImage_prepare junk sn correlationId h)"

section \<open>Arrays\<close>

lemma sint_small:
  assumes "n < 2 ^ 31"
  shows "sint (of_nat n :: int32_t) = int n" "nat (sint (of_nat n :: int32_t)) = n"
proof -
  show "sint (of_nat n :: int32_t) = int n" using assms by (subst sint_eq_unat) (simp_all add: unat_of_nat)
  then show "nat (sint (of_nat n :: int32_t)) = n" by simp
qed

lemma imageAt_nth:
  assumes "array h p = Some xs" "i < 2 ^ 31"
  shows "imageAt h p (of_nat i) = (if i < length xs then Some (xs ! i) else None)"
  using assms by (simp add: imageAt_def sint_small)

lemma putImage_nth:
  assumes "array h (Some a) = Some xs" "i < length xs" "i < 2 ^ 31"
  shows "putImage h (Some a) (of_nat i) x = Some (h[a := Some (xs[i := x])])"
  using assms by (simp add: putImage_def sint_small)

lemma array_update:
  "a < length h \<Longrightarrow> array (h[a := v]) (Some b) = (if a = b then v else array h (Some b))"
  "array h (Some a) = Some xs \<Longrightarrow> a < length h"
  by (auto simp: array_def split: if_splits)

lemma array_new:
  "array (h @ [v]) (Some (length h)) = v" "array h (Some b) = Some ys \<Longrightarrow> array (h @ [v]) (Some b) = Some ys"
  by (auto simp: array_def nth_append split: if_splits)

lemma array_Some: "array h p = Some xs \<Longrightarrow> \<exists>a. p = Some a \<and> a < length h \<and> h ! a = Some xs"
  by (auto simp: array_def split: option.splits if_splits)

abbreviation moved :: "'u image \<Rightarrow> 'u image" where
  "moved x \<equiv> x\<lparr>im_logBuffers := None\<rparr>"

abbreviation copyable :: "'u image \<Rightarrow> bool" where
  "copyable x \<equiv> length (im_termBuffers x) = 3"

lemma image_copy_eq:
  assumes "copyable x"
  shows "Image_copy x = x" "Image_assign x y = x" "Image_move x y = (x, moved x)"
proof -
  have "map ((!) (im_termBuffers x)) [0..<3] = im_termBuffers x"
    using assms map_nth[of "im_termBuffers x"] by simp
  then show "Image_copy x = x" "Image_assign x y = x" "Image_move x y = (x, moved x)"
    by (simp_all add: Image_copy_def Image_assign_def Image_move_def)
qed

lemma moveImage_spec:
  assumes "array h (Some a) = Some xs" "array h (Some b) = Some ys" "a \<noteq> b" "i < length xs" "j < length ys"
    "length xs < 2 ^ 31" "length ys < 2 ^ 31" "copyable (xs ! i)"
  shows "moveImage (Some a) (of_nat i) (Some b) (of_nat j) h =
    Some (h[a := Some (xs[i := moved (xs ! i)]), b := Some (ys[j := xs ! i])])"
proof -
  have l: "a < length h" using assms(1) by (rule array_update(2))
  have b: "array (h[a := v]) (Some b) = Some ys" for v using assms(2,3) l by (simp add: array_update)
  have i: "i < 2 ^ 31" "j < 2 ^ 31" using assms(4-7) by simp_all
  show ?thesis
    using assms(1-5) i by (simp add: moveImage_def imageAt_nth image_copy_eq[OF assms(8)] putImage_nth putImage_nth[OF b])
qed

lemma move_images_spec:
  assumes "array h (Some a) = Some xs" "array h (Some b) = Some ys" "a \<noteq> b" "i + n = length xs" "length xs \<le> length ys"
    "length ys < 2 ^ 31" "\<forall>x\<in>set xs. copyable x"
  shows "move_images (Some a) (Some b) n (of_nat i) h = Some (h[a := Some (take i xs @ map moved (drop i xs)),
    b := Some (take i ys @ drop i xs @ drop (length xs) ys)])"
  using assms
proof (induction n arbitrary: i h xs ys)
  case 0
  then have "h[a := Some xs] = h" "h[b := Some ys] = h"
    using array_Some[of h "Some a" xs] array_Some[of h "Some b" ys] by (auto simp: list_update_same_conv)
  then show ?case using 0 by simp
next
  case (Suc n)
  let ?h = "h[a := Some (xs[i := moved (xs ! i)]), b := Some (ys[i := xs ! i])]"
  have len: "a < length h" "b < length h" using Suc.prems(1,2) array_update(2) by blast+
  have i: "i < length xs" "i < length ys" using Suc.prems(4,5) by simp_all
  have "moveImage (Some a) (of_nat i) (Some b) (of_nat i) h = Some ?h"
    using Suc.prems i by (intro moveImage_spec) simp_all
  moreover have "\<forall>x\<in>set (xs[i := moved (xs ! i)]). copyable x"
    using Suc.prems(7) i(1) set_update_subset_insert[of xs i "moved (xs ! i)"] nth_mem[OF i(1)] by fastforce
  then have "move_images (Some a) (Some b) n (of_nat (Suc i)) ?h =
    Some (?h[a := Some (take (Suc i) (xs[i := moved (xs ! i)]) @ map moved (drop (Suc i) (xs[i := moved (xs ! i)]))),
      b := Some (take (Suc i) (ys[i := xs ! i]) @ drop (Suc i) (xs[i := moved (xs ! i)]) @ drop (length xs) (ys[i := xs ! i]))])"
    using Suc.IH[of ?h "xs[i := moved (xs ! i)]" "ys[i := xs ! i]" "Suc i"] Suc.prems len i
    by (simp add: array_update)
  moreover have "take (Suc i) (xs[i := moved (xs ! i)]) @ map moved (drop (Suc i) (xs[i := moved (xs ! i)])) =
      take i xs @ map moved (drop i xs)"
    "take (Suc i) (ys[i := xs ! i]) @ drop (Suc i) (xs[i := moved (xs ! i)]) @ drop (length xs) (ys[i := xs ! i]) =
      take i ys @ drop i xs @ drop (length xs) ys"
    using i by (simp_all add: take_Suc_conv_app_nth drop_update_cancel Cons_nth_drop_Suc[of i xs, symmetric])
  moreover have "of_nat i + 1 = (of_nat (Suc i) :: int32_t)" by simp
  ultimately show ?case using Suc.prems(3) by (simp add: list_update_swap[of a b] del: of_nat_Suc)
qed

text \<open>Moving everything but the image at \<open>index\<close>: \<open>us\<close> before it and \<open>vs\<close> after it.\<close>

lemma move_others_after:
  assumes "array h (Some a) = Some (us @ vs)" "array h (Some b) = Some (ys @ zs)" "a \<noteq> b" "length vs = length zs"
    "index < length us" "length (us @ vs) < 2 ^ 31" "length (ys @ zs) < 2 ^ 31" "\<forall>x\<in>set vs. copyable x"
  shows "move_others (Some a) (Some b) (of_nat index) (length vs) (of_nat (length us)) (of_nat (length ys)) h =
    Some (h[a := Some (us @ map moved vs), b := Some (ys @ vs)])"
  using assms
proof (induction vs arbitrary: us ys zs h)
  case Nil
  then have "h[a := Some us] = h" "h[b := Some ys] = h"
    using array_Some[of h "Some a" us] array_Some[of h "Some b" ys] by (auto simp: list_update_same_conv)
  then show ?case by simp
next
  case (Cons v vs)
  obtain z zs' where z: "zs = z # zs'" using Cons.prems(4) by (cases zs) auto
  let ?h = "h[a := Some ((us @ [moved v]) @ vs), b := Some ((ys @ [v]) @ zs')]"
  have len: "a < length h" "b < length h" using Cons.prems(1,2) array_update(2) by blast+
  have ne: "(of_nat (length us) :: int32_t) \<noteq> of_nat index"
  proof
    assume "(of_nat (length us) :: int32_t) = of_nat index"
    then have "nat (sint (of_nat (length us) :: int32_t)) = nat (sint (of_nat index :: int32_t))" by simp
    then show False using Cons.prems(5,6) sint_small(2)[of "length us"] sint_small(2)[of index] by simp
  qed
  have "moveImage (Some a) (of_nat (length us)) (Some b) (of_nat (length ys)) h = Some ?h"
    using moveImage_spec[OF Cons.prems(1,2,3), of "length us" "length ys"] Cons.prems(4,6,7,8) z by simp
  moreover have "move_others (Some a) (Some b) (of_nat index) (length vs) (of_nat (length (us @ [moved v]))) (of_nat (length (ys @ [v]))) ?h =
      Some (?h[a := Some ((us @ [moved v]) @ map moved vs), b := Some ((ys @ [v]) @ vs)])"
    by (rule Cons.IH) (use Cons.prems z len in \<open>auto simp: array_update\<close>)
  ultimately show ?case using ne Cons.prems(3) by (simp add: add.commute list_update_swap[of a b])
qed

lemma move_others_spec:
  assumes "array h (Some a) = Some (us @ vs)" "array h (Some b) = Some (us' @ ys)" "a \<noteq> b" "length us = length us'"
    "vs = ws @ x # xs" "length ys = length ws + length xs" "index = length us + length ws"
    "length (us @ vs) < 2 ^ 31" "\<forall>x\<in>set vs. copyable x"
  shows "move_others (Some a) (Some b) (of_nat index) (length vs) (of_nat (length us)) (of_nat (length us)) h =
    Some (h[a := Some (us @ map moved ws @ x # map moved xs), b := Some (us' @ ws @ xs)])"
  using assms
proof (induction ws arbitrary: us us' ys vs h)
  case Nil
  have "move_others (Some a) (Some b) (of_nat index) (length xs) (of_nat (length (us @ [x]))) (of_nat (length us')) h =
      Some (h[a := Some ((us @ [x]) @ map moved xs), b := Some (us' @ xs)])"
    by (rule move_others_after[of h a "us @ [x]" xs b us' ys]) (use Nil.prems in auto)
  then show ?case using Nil.prems by (simp add: add.commute)
next
  case (Cons w ws)
  obtain y ys' where y: "ys = y # ys'" using Cons.prems(6) by (cases ys) auto
  let ?vs = "ws @ x # xs" and ?h = "h[a := Some ((us @ [moved w]) @ ws @ x # xs), b := Some ((us' @ [w]) @ ys')]"
  have len: "a < length h" "b < length h" using Cons.prems(1,2) array_update(2) by blast+
  have ne: "(of_nat (length us) :: int32_t) \<noteq> of_nat index"
  proof
    assume "(of_nat (length us) :: int32_t) = of_nat index"
    then have "nat (sint (of_nat (length us) :: int32_t)) = nat (sint (of_nat index :: int32_t))" by simp
    then show False using Cons.prems(5,7,8) sint_small(2)[of "length us"] sint_small(2)[of index] by simp
  qed
  have e0: "(us @ vs) ! length us = w" "(us @ vs)[length us := moved w] = (us @ [moved w]) @ ws @ x # xs"
    using Cons.prems(5) by simp_all
  have e: "(us' @ ys)[length us := w] = (us' @ [w]) @ ys'" "length us < length (us @ vs)" "length us < length (us' @ ys)"
    "length (us' @ ys) < 2 ^ 31" "copyable w"
    using Cons.prems(5,6,8,9) y by (simp_all add: Cons.prems(4))
  have "moveImage (Some a) (of_nat (length us)) (Some b) (of_nat (length us)) h = Some ?h"
    using moveImage_spec[OF Cons.prems(1,2,3) e(2,3) Cons.prems(8) e(4)] e(5) by (simp only: e0 e(1))
  moreover have "move_others (Some a) (Some b) (of_nat index) (length ?vs) (of_nat (length (us @ [moved w])))
      (of_nat (length (us @ [moved w]))) ?h =
      Some (?h[a := Some ((us @ [moved w]) @ map moved ws @ x # map moved xs), b := Some ((us' @ [w]) @ ws @ xs)])"
    by (rule Cons.IH[of ?h "us @ [moved w]" ?vs "us' @ [w]" ys']) (use Cons.prems y len in \<open>auto simp: array_update\<close>)
  ultimately show ?case using ne Cons.prems(3,5) by (simp add: add.commute list_update_swap[of a b])
qed

section \<open>Searching\<close>

lemma find_image_none:
  assumes "array h p = Some xs" "i + n = length xs" "length xs < 2 ^ 31" "\<forall>x\<in>set (drop i xs). \<not> P x"
  shows "find_image P h p n (of_nat i) = Some (- 1)"
  using assms
proof (induction n arbitrary: i)
  case (Suc n)
  have i: "i < length xs" using Suc.prems(2) by simp
  then have "\<not> P (xs ! i)" using Suc.prems(4) by (metis Cons_nth_drop_Suc list.set_intros(1))
  moreover have "find_image P h p n (of_nat (Suc i)) = Some (- 1)"
    using Suc.prems by (intro Suc.IH) (auto dest: in_set_dropD simp: drop_Suc[of i xs] drop_tl dest: list.set_sel(2)[rotated])
  ultimately show ?case using i Suc.prems by (simp add: imageAt_nth add.commute)
qed simp

lemma find_image_first:
  assumes "array h p = Some (ws @ us @ x # vs)" "n = length us + Suc k" "length (ws @ us @ x # vs) < 2 ^ 31" "P x" "\<forall>x\<in>set us. \<not> P x"
  shows "find_image P h p n (of_nat (length ws)) = Some (of_nat (length ws + length us))"
  using assms
proof (induction us arbitrary: ws n)
  case Nil
  then show ?case by (simp add: imageAt_nth)
next
  case (Cons u us)
  have "find_image P h p (n - 1) (of_nat (length (ws @ [u]))) = Some (of_nat (length (ws @ [u]) + length us))"
    by (rule Cons.IH) (use Cons.prems in auto)
  moreover have "imageAt h p (of_nat (length ws)) = Some u" using imageAt_nth[OF Cons.prems(1), of "length ws"] Cons.prems(3) by simp
  ultimately show ?case using Cons.prems(2,5) by (simp add: add.commute)
qed

section \<open>A subscription and its list of images\<close>

text \<open>\<open>xs\<close> are the images of the subscription. Before the first image there is no array.\<close>

definition consistent :: "subscription \<Rightarrow> 'u image_heap \<Rightarrow> 'u image list \<Rightarrow> bool" where
  "consistent sn h xs \<longleftrightarrow> sn_imagesLength sn = of_nat (length xs) \<and> length xs < 2 ^ 31 \<and> (\<forall>x\<in>set xs. copyable x) \<and>
     (array h (sn_images sn) = Some xs \<or> xs = [] \<and> sn_images sn = None)"

text \<open>What the old array holds afterwards: an update of it, if it exists, and the new array.\<close>

definition replaced :: "'u image_heap \<Rightarrow> image_ptr \<Rightarrow> 'u image list \<Rightarrow> 'u image list \<Rightarrow> 'u image_heap" where
  "replaced h old left new = (case old of None \<Rightarrow> h | Some a \<Rightarrow> h[a := Some left]) @ [Some new]"

lemma Subscription_init_consistent: "consistent (Subscription_init registrationId channel streamId) h []"
  by (simp add: consistent_def Subscription_init_def)

lemma consistent_length:
  "consistent sn h xs \<Longrightarrow> sint (sn_imagesLength sn) = int (length xs)"
  by (simp add: consistent_def sint_small)

lemma replaced_arrays:
  "array (replaced h old left new) (Some (length h)) = Some new"
  "array h q = Some ys \<Longrightarrow> array (replaced h old left new) q = Some (if q = old then left else ys)"
  by (auto simp: replaced_def array_def nth_append nth_list_update split: option.splits if_splits)

lemma addImage_prepare_spec:
  assumes "consistent sn h xs" "copyable connection" "Suc (length xs) < 2 ^ 31"
  shows "addImage_prepare junk sn connection h =
    Some (sn_images sn, moved connection, [StoreImages (Some (length h)), StoreImagesLength (of_nat (Suc (length xs)))],
      replaced h (sn_images sn) (map moved xs) (xs @ [connection]))"
proof -
  let ?n = "length xs" and ?new = "replicate (Suc (length xs)) (Image_default junk)"
  let ?h = "h @ [Some ?new]" and ?g = "(case sn_images sn of None \<Rightarrow> h | Some a \<Rightarrow> h[a := Some (map moved xs)]) @ [Some (xs @ [Image_default junk])]"
  have c: "sn_imagesLength sn = of_nat ?n" "\<forall>x\<in>set xs. copyable x"
    "array h (sn_images sn) = Some xs \<or> xs = [] \<and> sn_images sn = None"
    using assms(1) by (simp_all add: consistent_def)
  have n: "(of_nat ?n :: int32_t) + 1 = of_nat (Suc ?n)" by simp
  have new: "newArray junk h (of_nat (Suc ?n)) = Some (Some (length h), ?h)"
    unfolding newArray_def sint_small(2)[OF assms(3)] unfolding sint_small(1)[OF assms(3)] by simp
  have d: "drop ?n (y # replicate ?n y) = [y]" for y :: "'a image"
    using drop_replicate[of ?n "Suc ?n" y] by simp
  have mv: "move_images (sn_images sn) (Some (length h)) ?n 0 ?h = Some ?g"
  proof (cases "sn_images sn")
    case None
    then show ?thesis using c(3) by (simp add: array_def)
  next
    case (Some a)
    then have a: "a < length h" "array ?h (Some a) = Some xs" using c(3) array_new(2) array_update(2) by auto
    then show ?thesis using move_images_spec[OF a(2) array_new(1), of 0 ?n] c(2) assms(3) Some
      by (simp add: list_update_append d)
  qed
  have new2: "array ?g (Some (length h)) = Some (xs @ [Image_default junk])"
    by (auto simp: array_def nth_append split: option.splits)
  have at: "imageAt ?g (Some (length h)) (of_nat ?n) = Some (Image_default junk)"
    using imageAt_nth[OF new2, of ?n] assms(3) by simp
  have put: "putImage ?g (Some (length h)) (of_nat ?n) connection = Some (replaced h (sn_images sn) (map moved xs) (xs @ [connection]))"
    using putImage_nth[OF new2, of ?n] assms(3) by (auto simp: replaced_def list_update_append split: option.splits)
  have "nat (sint (of_nat ?n :: int32_t)) = ?n" using assms(3) by (intro sint_small) simp
  then show ?thesis
    unfolding addImage_prepare_def Let_def c(1) n new option.case prod.case
    by (simp only: mv option.case at image_copy_eq(3)[OF assms(2)] prod.case put option.map)
qed

lemma addImage_spec:
  assumes "consistent sn h xs" "copyable connection" "Suc (length xs) < 2 ^ 31"
  defines "sn' \<equiv> sn\<lparr>sn_images := Some (length h), sn_imagesLength := of_nat (Suc (length xs))\<rparr>"
    and "h' \<equiv> replaced h (sn_images sn) (map moved xs) (xs @ [connection])"
  shows "addImage junk sn connection h = Some (sn_images sn, moved connection, sn', h')" "consistent sn' h' (xs @ [connection])"
proof -
  show "addImage junk sn connection h = Some (sn_images sn, moved connection, sn', h')"
    unfolding addImage_def addImage_prepare_spec[OF assms(1-3)] by (simp add: sn'_def h'_def)
  show "consistent sn' h' (xs @ [connection])"
    using assms(1-3) by (auto simp: sn'_def h'_def consistent_def replaced_arrays(1))
qed

lemma find_correlation:
  assumes "consistent sn h (us @ x # vs)" "im_correlationId x = cid" "\<forall>u\<in>set us. im_correlationId u \<noteq> cid"
  shows "find_image (\<lambda>im. im_getCorrelationId im = cid) h (sn_images sn) (length (us @ x # vs)) 0 = Some (of_nat (length us))"
  using find_image_first[of h "sn_images sn" "[]" us x vs "length us + Suc (length vs)" "length vs"
      "\<lambda>im. im_getCorrelationId im = cid"] assms
  by (simp add: consistent_def im_getCorrelationId_def)

lemma removeImage_prepare_spec:
  assumes "consistent sn h (us @ x # vs)" "im_correlationId x = cid" "\<forall>u\<in>set us. im_correlationId u \<noteq> cid"
  shows "removeImage_prepare junk sn cid h =
    Some ((sn_images sn, of_nat (length us)),
      [StoreImagesLength (of_nat (length (us @ vs))), StoreImages (Some (length h))],
      replaced h (sn_images sn) (map moved us @ x # map moved vs) (us @ vs))"
proof -
  let ?xs = "us @ x # vs"
  let ?n = "length ?xs" and ?m = "length (us @ vs)"
  let ?h = "h @ [Some (replicate ?m (Image_default junk))]"
  have c: "sn_imagesLength sn = of_nat ?n" "?n < 2 ^ 31" "\<forall>x\<in>set ?xs. copyable x" "array h (sn_images sn) = Some ?xs"
    using assms(1) by (simp_all add: consistent_def)
  obtain a where a: "sn_images sn = Some a" "a < length h" using array_Some[OF c(4)] by blast
  have n: "(of_nat ?n :: int32_t) - 1 = of_nat ?m" by simp
  have m: "?m < 2 ^ 31" using c(2) by simp
  have new: "newArray junk h (of_nat ?m) = Some (Some (length h), ?h)"
    unfolding newArray_def sint_small[OF m] by simp
  have old: "array ?h (Some a) = Some ([] @ ?xs)" using c(4) a(1) array_new(2) by simp
  have mv: "move_others (Some a) (Some (length h)) (of_nat (length us)) ?n 0 0 ?h =
      Some (replaced h (sn_images sn) (map moved us @ x # map moved vs) (us @ vs))"
    using move_others_spec[OF old, of "length h" "[]" "replicate ?m (Image_default junk)" us x vs "length us"] c(2,3) a
    by (simp add: array_new(1) replaced_def list_update_append)
  have ne: "(- 1 :: int32_t) \<noteq> of_nat (length us)"
  proof
    assume "(- 1 :: int32_t) = of_nat (length us)"
    then have "sint (- 1 :: int32_t) = sint (of_nat (length us) :: int32_t)" by simp
    then show False using sint_small(1)[of "length us"] c(2) by simp
  qed
  have "nat (sint (of_nat ?n :: int32_t)) = ?n" using c(2) by (intro sint_small)
  then show ?thesis
    unfolding removeImage_prepare_def Let_def c(1) n
    by (simp only: find_correlation[OF assms, unfolded a(1)] option.case ne not_False_eq_True if_True a(1) new prod.case mv[unfolded a(1)] option.map)
qed

lemma removeImage_spec:
  assumes "consistent sn h (us @ x # vs)" "im_correlationId x = cid" "\<forall>u\<in>set us. im_correlationId u \<noteq> cid"
  defines "sn' \<equiv> sn\<lparr>sn_imagesLength := of_nat (length (us @ vs)), sn_images := Some (length h)\<rparr>"
    and "h' \<equiv> replaced h (sn_images sn) (map moved us @ x # map moved vs) (us @ vs)"
  shows "removeImage junk sn cid h = Some ((sn_images sn, of_nat (length us)), sn', h')" "consistent sn' h' (us @ vs)"
proof -
  show "removeImage junk sn cid h = Some ((sn_images sn, of_nat (length us)), sn', h')"
    unfolding removeImage_def removeImage_prepare_spec[OF assms(1-3)] by (simp add: sn'_def h'_def)
  show "consistent sn' h' (us @ vs)"
    using assms(1) by (auto simp: sn'_def h'_def consistent_def replaced_arrays(1))
qed

lemma removeImage_absent:
  assumes "consistent sn h xs" "\<forall>x\<in>set xs. im_correlationId x \<noteq> cid"
  shows "removeImage junk sn cid h = Some ((None, - 1), sn, h)"
proof -
  have "find_image (\<lambda>im. im_getCorrelationId im = cid) h (sn_images sn) (length xs) 0 = Some (- 1)"
  proof (cases "array h (sn_images sn) = Some xs")
    case True
    then show ?thesis
      using find_image_none[OF True, of 0 "length xs" "\<lambda>im. im_getCorrelationId im = cid"] assms
      by (simp add: consistent_def im_getCorrelationId_def)
  qed (use assms(1) in \<open>simp add: consistent_def\<close>)
  moreover have "nat (sint (of_nat (length xs) :: int32_t)) = length xs" "sn_imagesLength sn = of_nat (length xs)"
    using assms(1) by (simp_all add: consistent_def sint_small)
  ultimately show ?thesis by (simp add: removeImage_def removeImage_prepare_def Let_def)
qed

section \<open>Polling\<close>

text \<open>Polling the images at the given indices in turn until the limit is reached or one of them fails.\<close>

fun visit ::
    "nat list \<Rightarrow> 'u fragment_handler \<Rightarrow> int32_t \<Rightarrow> int32_t \<Rightarrow> 'u image list \<Rightarrow> cpu \<times> 'u \<Rightarrow>
      ((exn + int32_t) \<times> 'u image list \<times> (cpu \<times> 'u)) option" where
  "visit [] fragmentHandler fragmentLimit fragmentsRead xs s = Some (Inr fragmentsRead, xs, s)"
| "visit (i # is) fragmentHandler fragmentLimit fragmentsRead xs s =
     (case image_poll (xs ! i) fragmentHandler fragmentLimit s of
        None \<Rightarrow> None
      | Some (Inl e, im, s) \<Rightarrow> Some (Inl e, xs[i := im], s)
      | Some (Inr n, im, s) \<Rightarrow>
          if sint (fragmentsRead + n) < sint fragmentLimit
          then visit is fragmentHandler fragmentLimit (fragmentsRead + n) (xs[i := im]) s
          else Some (Inr (fragmentsRead + n), xs[i := im], s))"

lemma next_index:
  assumes "i < n" "n < 2 ^ 31"
  shows "(if of_nat i + 1 = (of_nat n :: int32_t) then 0 else of_nat i + 1 :: int32_t) = of_nat (Suc i mod n)"
proof -
  have "of_nat (Suc i) = (of_nat n :: int32_t) \<longleftrightarrow> Suc i = n"
    using sint_small(1)[of "Suc i"] sint_small(1)[OF assms(2)] assms
    by (metis Suc_lessI less_trans of_nat_eq_iff)
  then have "of_nat i + 1 = (of_nat n :: int32_t) \<longleftrightarrow> Suc i = n" by (simp add: add.commute)
  then show ?thesis using assms(1) by auto
qed

lemma poll_rounds_visit:
  assumes "array h (Some a) = Some xs" "length xs = n" "n < 2 ^ 31" "r < n" "0 < k" "k \<le> n"
  shows "poll_rounds (Some a) (of_nat n) handler lim (of_nat r) (of_nat ((r + (n - k)) mod n)) acc (h, s) =
    map_option (\<lambda>(r, ys, s). (r, (h[a := Some ys], s))) (visit (map (\<lambda>j. (r + j) mod n) [n - k..<n]) handler lim acc xs s)"
  using assms
proof (induction k arbitrary: h xs acc s)
  case (Suc k)
  let ?i = "(r + (n - Suc k)) mod n" and ?is = "map (\<lambda>j. (r + j) mod n) [n - k..<n]"
  have i: "?i < n" using Suc.prems(4) by simp
  then have i31: "?i < 2 ^ 31" using Suc.prems(3) by linarith
  have l: "a < length h" using Suc.prems(1) by (rule array_update(2))
  have order: "map (\<lambda>j. (r + j) mod n) [n - Suc k..<n] = ?i # ?is"
    using Suc.prems(6) by (simp add: upt_rec[of "n - Suc k" n] Suc_diff_Suc)
  have nxt: "(if of_nat ?i + 1 = (of_nat n :: int32_t) then 0 else of_nat ?i + 1) = (of_nat ((r + (n - k)) mod n) :: int32_t)"
    unfolding next_index[OF i Suc.prems(3)] using Suc.prems(6) by (simp add: mod_Suc_eq Suc_diff_Suc[of k n, symmetric])
  have last: "of_nat ((r + (n - k)) mod n) = (of_nat r :: int32_t) \<longleftrightarrow> k = 0"
  proof -
    have "(r + (n - k)) mod n = r \<longleftrightarrow> k = 0"
    proof (cases "k \<le> r")
      case True
      then have "r + (n - k) = (r - k) + n" using Suc.prems(6) by simp
      then have "(r + (n - k)) mod n = r - k" using Suc.prems(4) by (simp only: mod_add_self2 mod_less less_imp_diff_less)
      then show ?thesis using True by auto
    next
      case False
      then have "(r + (n - k)) mod n = r + (n - k)" using Suc.prems(6) by simp
      then show ?thesis using Suc.prems(6) False by simp
    qed
    moreover have "(r + (n - k)) mod n < n" using i by simp
    ultimately show ?thesis
      using sint_small(1)[of "(r + (n - k)) mod n"] sint_small(1)[of r] Suc.prems(3,4)
      by (metis less_trans of_nat_eq_iff)
  qed
  have at: "imageAt h (Some a) (of_nat ?i) = Some (xs ! ?i)" using imageAt_nth[OF Suc.prems(1) i31] i Suc.prems(2) by simp
  have put: "putImage h (Some a) (of_nat ?i) x = Some (h[a := Some (xs[?i := x])])" for x
    using putImage_nth[OF Suc.prems(1) _ i31] i Suc.prems(2) by simp
  have ih: "0 < k \<Longrightarrow> poll_rounds (Some a) (of_nat n) handler lim (of_nat r) (of_nat ((r + (n - k)) mod n)) acc'
      (h[a := Some (xs[?i := x])], s') = map_option (\<lambda>(r, ys, s). (r, (h[a := Some ys], s))) (visit ?is handler lim acc' (xs[?i := x]) s')"
    for acc' x s'
    using Suc.IH[of "h[a := Some (xs[?i := x])]" "xs[?i := x]" acc' s'] Suc.prems(2-4,6) l by (simp add: array_update)
  show ?case
  proof (cases "image_poll (xs ! ?i) handler lim s")
    case None
    then show ?thesis unfolding order by (simp add: poll_rounds.simps poll_one_def at)
  next
    case (Some t)
    obtain res im s' where t: "t = (res, im, s')" by (cases t) auto
    have one: "poll_one (Some a) handler lim (of_nat ?i) (h, s) = Some (res, (h[a := Some (xs[?i := im])], s'))"
      using Some t by (simp add: poll_one_def at put)
    show ?thesis
    proof (cases res)
      case (Inl e)
      then show ?thesis using Some t unfolding order by (simp add: poll_rounds.simps one)
    next
      case (Inr m)
      have "poll_rounds (Some a) (of_nat n) handler lim (of_nat r) (of_nat ?i) acc (h, s) =
          (if sint (acc + m) < sint lim \<and> k \<noteq> 0
           then poll_rounds (Some a) (of_nat n) handler lim (of_nat r) (of_nat ((r + (n - k)) mod n)) (acc + m) (h[a := Some (xs[?i := im])], s')
           else Some (Inr (acc + m), (h[a := Some (xs[?i := im])], s')))"
        by (subst poll_rounds.simps) (simp only: one Inr option.case prod.case sum.case Let_def nxt last)
      then show ?thesis unfolding order using Some t Inr ih by (cases "k = 0") simp_all
    qed
  qed
qed simp

lemma image_poll_copyable: "image_poll im handler lim s = Some (r, im', s') \<Longrightarrow> copyable im \<Longrightarrow> copyable im'"
  by (auto simp: image_poll_def Let_def split: sum.splits option.splits prod.splits if_splits)

lemma visit_copyable:
  assumes "visit is handler lim acc xs s = Some (r, ys, s')" "\<forall>x\<in>set xs. copyable x"  "\<forall>i\<in>set is. i < length xs"
  shows "length ys = length xs \<and> (\<forall>y\<in>set ys. copyable y)"
  using assms
proof (induction "is" handler lim acc xs s rule: visit.induct)
  case (2 i "is" handler lim acc xs s)
  have up: "\<forall>x\<in>set (xs[i := im]). copyable x" if "image_poll (xs ! i) handler lim s = Some (r', im, s'')" for r' im s''
  proof -
    have "copyable (xs ! i)" using 2(3,4) by simp
    then have "copyable im" using image_poll_copyable[OF that] by simp
    then show ?thesis using 2(3) set_update_subset_insert[of xs i im] by blast
  qed
  show ?case
  proof (cases "image_poll (xs ! i) handler lim s")
    case (Some t)
    obtain r' im s'' where t: "t = (r', im, s'')" by (cases t) auto
    show ?thesis
    proof (cases r')
      case (Inr n)
      show ?thesis
      proof (cases "sint (acc + n) < sint lim")
        case True
        then have "visit is handler lim (acc + n) (xs[i := im]) s'' = Some (r, ys, s')" using 2(2) Some t Inr by simp
        then show ?thesis using 2(1)[of "(r', im, s'')" r' "(im, s'')" n im s''] up Some t Inr True 2(4) by simp
      qed (use 2(2) Some t Inr up in auto)
    qed (use 2(2) Some t up in auto)
  qed (use 2(2) in simp)
qed simp

definition start_index :: "subscription \<Rightarrow> nat" where
  "start_index sn = (if sint (sn_roundRobinIndex sn) \<ge> sint (sn_imagesLength sn) then 0 else nat (sint (sn_roundRobinIndex sn)))"

lemma sn_poll_spec:
  assumes "consistent sn h xs" "xs \<noteq> []" "sn_images sn = Some a" "0 \<le> sint (sn_roundRobinIndex sn)"
  shows "sn_poll sn handler lim (h, s) =
    map_option (\<lambda>(res, ys, s'). (res, sn\<lparr>sn_roundRobinIndex := of_nat (start_index sn)\<rparr>, (h[a := Some ys], s')))
      (visit (map (\<lambda>j. (start_index sn + j) mod length xs) [0..<length xs]) handler lim 0 xs s)"
proof -
  let ?n = "length xs" and ?r = "start_index sn"
  have c: "sn_imagesLength sn = of_nat ?n" "?n < 2 ^ 31" "array h (Some a) = Some xs"
    using assms(1-3) by (auto simp: consistent_def)
  have len: "sint (of_nat ?n :: int32_t) = int ?n" using c(2) by (rule sint_small)
  have r: "?r < ?n" using assms(2,4) by (simp add: start_index_def c(1) len nat_less_iff)
  have idx: "(if sint (sn_roundRobinIndex sn) \<ge> int ?n then 0 else sn_roundRobinIndex sn) = of_nat ?r"
    using assms(4) by (simp add: start_index_def c(1) len sint_nonneg_unat)
  have rounds: "poll_rounds (Some a) (of_nat ?n) handler lim (of_nat ?r) (of_nat ?r) 0 (h, s) =
      map_option (\<lambda>(r, ys, s). (r, (h[a := Some ys], s))) (visit (map (\<lambda>j. (?r + j) mod ?n) [0..<?n]) handler lim 0 xs s)"
    using poll_rounds_visit[OF c(3) refl c(2) r, of ?n] r assms(2) by simp
  have keep: "(if sint (sn_roundRobinIndex sn) \<ge> int ?n then sn\<lparr>sn_roundRobinIndex := 0\<rparr> else sn) =
      sn\<lparr>sn_roundRobinIndex := of_nat ?r\<rparr>"
    unfolding idx[symmetric] by simp
  have "sint (of_nat ?n :: int32_t) > 0" using len assms(2) by simp
  then show ?thesis
    unfolding sn_poll_def poll_with_def c(1) assms(3) Let_def by (simp add: len idx keep rounds option.map_comp comp_def prod.case_distrib)
qed

lemma sn_poll_consistent:
  assumes "consistent sn h xs" "sn_roundRobinIndex sn = 0" "sn_poll sn handler lim (h, s) = Some (r, sn', h', s')"
  shows "sn' = sn \<and> (\<exists>ys. consistent sn h' ys \<and> (h' = h \<or> (\<exists>a. sn_images sn = Some a \<and> h' = h[a := Some ys])))"
proof (cases "xs = []")
  case True
  then have "sn' = sn" "h' = h" using assms by (auto simp: sn_poll_def poll_with_def consistent_def)
  then show ?thesis using assms(1) by blast
next
  case False
  then have arr: "array h (sn_images sn) = Some xs" using assms(1) by (simp add: consistent_def)
  then obtain a where a: "sn_images sn = Some a" "a < length h" using array_Some by blast
  have z: "start_index sn = 0" "sn\<lparr>sn_roundRobinIndex := 0\<rparr> = sn" using assms(2) by (simp_all add: start_index_def)
  let ?is = "map (\<lambda>j. (0 + j) mod length xs) [0..<length xs]"
  obtain ys where y: "visit ?is handler lim 0 xs s = Some (r, ys, s')" "sn' = sn" "h' = h[a := Some ys]"
    using sn_poll_spec[OF assms(1) False a(1), of handler lim s] assms(2,3) z
    by (cases "visit ?is handler lim 0 xs s") auto
  have "\<forall>i\<in>set ?is. i < length xs" using False by auto
  then have "length ys = length xs \<and> (\<forall>y\<in>set ys. copyable y)"
    using visit_copyable[OF y(1)] assms(1) by (simp add: consistent_def)
  then have "consistent sn h' ys" using assms(1) a y(3) by (simp add: consistent_def array_update)
  then show ?thesis using y a by blast
qed

text \<open>
  C29. A poll takes the images in the order of the array from the round-robin index on, wrapping at the
  end, each once at most, until the limit is reached or an image fails; it always ends, and the
  round-robin index is never advanced: it stays, or falls back to 0 when it is past the end.
\<close>

theorem sn_poll_visits:
  assumes "consistent sn h xs" "xs \<noteq> []" "sn_images sn = Some a" "0 \<le> sint (sn_roundRobinIndex sn)"
  shows "sn_poll sn handler lim (h, s) =
    map_option (\<lambda>(res, ys, s'). (res, sn\<lparr>sn_roundRobinIndex := of_nat (start_index sn)\<rparr>, (h[a := Some ys], s')))
      (visit (map (\<lambda>j. (start_index sn + j) mod length xs) [0..<length xs]) handler lim 0 xs s)"
  using assms by (rule sn_poll_spec)

lemma sn_poll_none:
  "consistent sn h [] \<Longrightarrow> sn_poll sn handler lim s = Some (Inr 0, sn, s)"
  by (simp add: sn_poll_def poll_with_def consistent_def)

text \<open>An image that always fills the limit keeps the ones after it from ever being polled.\<close>

theorem first_image_starves_others:
  assumes "consistent sn h (x # xs)" "sn_images sn = Some a" "sn_roundRobinIndex sn = 0"
    and "image_poll x handler lim s = Some (Inr n, x', s')" "sint lim \<le> sint n"
  shows "sn_poll sn handler lim (h, s) = Some (Inr n, sn, (h[a := Some (x' # xs)], s'))"
proof -
  have z: "start_index sn = 0" using assms(3) by (simp add: start_index_def)
  have o: "[0..<length (x # xs)] = 0 # [1..<length (x # xs)]" by (simp add: upt_rec)
  have "sn_poll sn handler lim (h, s) =
    map_option (\<lambda>(res, ys, s'). (res, sn\<lparr>sn_roundRobinIndex := of_nat 0\<rparr>, (h[a := Some ys], s')))
      (visit (map (\<lambda>j. (0 + j) mod length (x # xs)) [0..<length (x # xs)]) handler lim 0 (x # xs) s)"
    using sn_poll_spec[OF assms(1) _ assms(2), of handler lim s] assms(3) z by simp
  then show ?thesis unfolding o using assms(3-5) by simp
qed

text \<open>The limit bounds what a single image adds, so the sum may pass it.\<close>

theorem poll_exceeds_limit:
  assumes "consistent sn h [x, y]" "sn_images sn = Some a" "sn_roundRobinIndex sn = 0"
    and "image_poll x handler lim s = Some (Inr (lim - 1), x', s')" "image_poll y handler lim s' = Some (Inr lim, y', s'')"
    and "1 < sint lim" "sint lim < 2 ^ 30"
  shows "sn_poll sn handler lim (h, s) = Some (Inr (2 * lim - 1), sn, (h[a := Some [x', y']], s'')) \<and>
    sint lim < sint (2 * lim - 1)"
proof -
  obtain m where m: "lim = of_nat m" "sint lim = int m"
    using sint_nonneg_unat[of lim] assms(6) by (metis less_imp_le less_trans of_nat_unat ucast_id zero_less_one)
  then have b: "1 < m" "m < 2 ^ 30" using assms(6,7) by simp_all
  have e: "lim - 1 = of_nat (m - 1)" "2 * lim - 1 = of_nat (2 * m - 1)"
    using b(1) unfolding m(1) by (simp_all add: of_nat_diff)
  have s: "sint (lim - 1) = int m - 1" "sint (2 * lim - 1) = 2 * int m - 1"
    unfolding e using sint_small(1)[of "m - 1"] sint_small(1)[of "2 * m - 1"] b by simp_all
  have z: "start_index sn = 0" using assms(3) by (simp add: start_index_def)
  have "sn_poll sn handler lim (h, s) =
    map_option (\<lambda>(res, ys, s'). (res, sn\<lparr>sn_roundRobinIndex := of_nat 0\<rparr>, (h[a := Some ys], s')))
      (visit (map (\<lambda>j. (0 + j) mod length [x, y]) [0..<length [x, y]]) handler lim 0 [x, y] s)"
    using sn_poll_spec[OF assms(1) _ assms(2), of handler lim s] assms(3) z by simp
  moreover have "lim - 1 + lim = 2 * lim - 1" by simp
  ultimately have "sn_poll sn handler lim (h, s) = Some (Inr (2 * lim - 1), sn, (h[a := Some [x', y']], s''))"
    using assms(3-5) s m(2) b(1) by (cases s'') (simp add: upt_rec)
  then show ?thesis using s(2) m(2) b(1) by simp
qed

section \<open>The polling thread and the conductor thread\<close>

text \<open>
  A poll loads \<^verbatim>\<open>m_imagesLength\<close>, then \<^verbatim>\<open>m_images\<close>. The conductor builds the new array, then stores both
  members in the order of \<open>addImage\<close> or \<open>removeImage\<close>. An interleaving is a sequence of the steps
  below; \<open>removing\<close> says whether images may be removed. Building the array is one step, as the
  polling thread does not read the heap before it has both values; the arrays it replaces linger and
  are not freed here.
\<close>

datatype poller = Away | LengthLoaded int32_t | ImagesLoaded int32_t image_ptr

record 'u race =
  rc_sub :: subscription
  rc_heap :: "'u image_heap"
  rc_stores :: "image_store list"
  rc_poller :: poller

inductive race_step :: "'u image \<Rightarrow> bool \<Rightarrow> 'u race \<Rightarrow> 'u race \<Rightarrow> bool" for junk removing where
  begin_add: "rc_stores r = [] \<Longrightarrow> addImage_prepare junk (rc_sub r) connection (rc_heap r) = Some (old, connection', stores, h) \<Longrightarrow>
    copyable connection \<Longrightarrow> race_step junk removing r (r\<lparr>rc_heap := h, rc_stores := stores\<rparr>)"
| begin_remove: "removing \<Longrightarrow> rc_stores r = [] \<Longrightarrow>
    removeImage_prepare junk (rc_sub r) cid (rc_heap r) = Some (res, stores, h) \<Longrightarrow>
    race_step junk removing r (r\<lparr>rc_heap := h, rc_stores := stores\<rparr>)"
| store: "rc_stores r = st # sts \<Longrightarrow> race_step junk removing r (r\<lparr>rc_sub := do_store st (rc_sub r), rc_stores := sts\<rparr>)"
| load_length: "race_step junk removing r (r\<lparr>rc_poller := LengthLoaded (sn_imagesLength (rc_sub r))\<rparr>)"
| load_images: "rc_poller r = LengthLoaded n \<Longrightarrow>
    race_step junk removing r (r\<lparr>rc_poller := ImagesLoaded n (sn_images (rc_sub r))\<rparr>)"

inductive race_steps :: "'u image \<Rightarrow> bool \<Rightarrow> 'u race \<Rightarrow> 'u race \<Rightarrow> bool" for junk removing where
  no_step: "race_steps junk removing r r"
| one_more: "race_steps junk removing r s \<Longrightarrow> race_step junk removing s t \<Longrightarrow> race_steps junk removing r t"

text \<open>An array of at least \<open>n\<close> images.\<close>

definition covers :: "'u image_heap \<Rightarrow> image_ptr \<Rightarrow> int \<Rightarrow> bool" where
  "covers h p n = (case array h p of None \<Rightarrow> n \<le> 0 | Some ys \<Rightarrow> n \<le> int (length ys))"

definition race_inv :: "'u race \<Rightarrow> bool" where
  "race_inv r \<longleftrightarrow>
     (\<exists>xs. consistent (fold do_store (rc_stores r) (rc_sub r)) (rc_heap r) xs \<and>
        (rc_stores r = [] \<or>
         (\<exists>p. sint (sn_imagesLength (rc_sub r)) + 1 = int (length xs) \<and>
           (rc_stores r = [StoreImages p, StoreImagesLength (of_nat (length xs))] \<or>
            rc_stores r = [StoreImagesLength (of_nat (length xs))])))) \<and>
     covers (rc_heap r) (sn_images (rc_sub r)) (sint (sn_imagesLength (rc_sub r))) \<and>
     (case rc_poller r of
        Away \<Rightarrow> True
      | LengthLoaded n \<Rightarrow> sint n \<le> sint (sn_imagesLength (rc_sub r))
      | ImagesLoaded n p \<Rightarrow> covers (rc_heap r) p (sint n))"

lemma covers_mono: "covers h p n \<Longrightarrow> m \<le> n \<Longrightarrow> covers h p m"
  by (auto simp: covers_def split: option.splits)

lemma covers_replaced:
  assumes "covers h p n" "consistent sn h xs" "length left = length xs"
  shows "covers (replaced h (sn_images sn) left new) p n"
proof (cases "array h p")
  case None
  then have "n \<le> 0" using assms(1) by (simp add: covers_def)
  then show ?thesis by (auto simp: covers_def split: option.splits)
next
  case (Some ys)
  then have "n \<le> int (length ys)" using assms(1) by (simp add: covers_def)
  moreover have "p = sn_images sn \<Longrightarrow> ys = xs" using Some assms(2) by (auto simp: consistent_def array_def)
  ultimately show ?thesis using replaced_arrays(2)[OF Some] assms(3) by (auto simp: covers_def)
qed

lemma covers_consistent: "consistent sn h xs \<Longrightarrow> covers h (sn_images sn) (int (length xs))"
  by (auto simp: covers_def consistent_def split: option.splits)

lemma addImage_prepare_Some:
  assumes "addImage_prepare junk sn connection h = Some t" "consistent sn h xs"
  shows "Suc (length xs) < 2 ^ 31"
proof (rule ccontr)
  assume "\<not> Suc (length xs) < 2 ^ 31"
  then have "Suc (length xs) = 2 ^ 31" using assms(2) by (simp add: consistent_def)
  then have "sn_imagesLength sn + 1 = (of_nat (2 ^ 31) :: int32_t)"
    using assms(2) by (metis consistent_def of_nat_Suc add.commute)
  moreover have "sint (of_nat (2 ^ 31) :: int32_t) < 0" by simp
  ultimately have "newArray junk h (sn_imagesLength sn + 1) = None" by (simp add: newArray_def)
  then show False using assms(1) by (simp add: addImage_prepare_def Let_def)
qed

lemma race_step_inv:
  assumes "race_step junk False r r'" "race_inv r"
  shows "race_inv r'"
  using assms
proof cases
  case (begin_add connection old connection' stores h)
  obtain xs where x: "consistent (rc_sub r) (rc_heap r) xs" using assms(2) begin_add(2) by (auto simp: race_inv_def)
  have len: "Suc (length xs) < 2 ^ 31" using addImage_prepare_Some[OF begin_add(3) x] .
  have s: "stores = [StoreImages (Some (length (rc_heap r))), StoreImagesLength (of_nat (length (xs @ [connection])))]"
    "h = replaced (rc_heap r) (sn_images (rc_sub r)) (map moved xs) (xs @ [connection])"
    using addImage_prepare_spec[OF x begin_add(4) len, of junk] begin_add(3) by simp_all
  have "consistent (fold do_store stores (rc_sub r)) h (xs @ [connection])"
    using addImage_spec(2)[OF x begin_add(4) len] s by simp
  moreover have "covers (rc_heap r) p n \<Longrightarrow> covers h p n" for p n
    using covers_replaced[OF _ x] s(2) by simp
  moreover have "sint (sn_imagesLength (rc_sub r)) + 1 = int (length (xs @ [connection]))" using consistent_length[OF x] by simp
  ultimately show ?thesis using assms(2) s(1) unfolding race_inv_def begin_add(1) by (auto split: poller.splits)
next
  case (store st sts)
  obtain xs p where x: "consistent (fold do_store (st # sts) (rc_sub r)) (rc_heap r) xs"
    "sint (sn_imagesLength (rc_sub r)) + 1 = int (length xs)"
    "st # sts = [StoreImages p, StoreImagesLength (of_nat (length xs))] \<or> st # sts = [StoreImagesLength (of_nat (length xs))]"
    using assms(2) store(2) by (auto simp: race_inv_def)
  have len: "sint (of_nat (length xs) :: int32_t) = int (length xs)" using x(1) by (intro sint_small) (simp add: consistent_def)
  have cov: "covers (rc_heap r) (sn_images (fold do_store (st # sts) (rc_sub r))) (int (length xs))"
    using covers_consistent[OF x(1)] .
  show ?thesis using x(3)
  proof
    assume st: "st # sts = [StoreImages p, StoreImagesLength (of_nat (length xs))]"
    then have "covers (rc_heap r) p (sint (sn_imagesLength (rc_sub r)))" using covers_mono[OF cov] x(2) by simp
    then show ?thesis using assms(2) x(1,2) st unfolding race_inv_def store(1) by (auto split: poller.splits)
  next
    assume st: "st # sts = [StoreImagesLength (of_nat (length xs))]"
    then show ?thesis using assms(2) x(1,2) cov len unfolding race_inv_def store(1) by (auto split: poller.splits)
  qed
next
  case load_length
  then show ?thesis using assms(2) by (simp add: race_inv_def)
next
  case (load_images n)
  then have "covers (rc_heap r) (sn_images (rc_sub r)) (sint n)"
    using assms(2) covers_mono by (auto simp: race_inv_def)
  then show ?thesis using assms(2) load_images by (simp add: race_inv_def)
qed simp

definition race_start :: "subscription \<Rightarrow> 'u image_heap \<Rightarrow> 'u race" where
  "race_start sn h = \<lparr>rc_sub = sn, rc_heap = h, rc_stores = [], rc_poller = Away\<rparr>"

lemma race_steps_inv:
  assumes "race_steps junk False r s" "race_inv r"
  shows "race_inv s"
  using assms by (induction rule: race_steps.induct) (auto intro: race_step_inv)

lemma race_start_inv: "consistent sn h xs \<Longrightarrow> race_inv (race_start sn h)"
  by (auto simp: race_inv_def race_start_def consistent_length covers_consistent)

text \<open>
  C31. While images are only added, the length and the array that a poll has loaded belong together at
  every interleaving: each index below the length is inside the array.
\<close>

theorem adding_keeps_polls_inside:
  assumes "consistent sn h xs" "race_steps junk False (race_start sn h) r" "rc_poller r = ImagesLoaded n p" "int i < sint n"
  shows "imageAt (rc_heap r) p (of_nat i) \<noteq> None"
proof -
  have "race_inv r" using race_steps_inv[OF assms(2)] race_start_inv[OF assms(1)] .
  then obtain ys where y: "array (rc_heap r) p = Some ys" "sint n \<le> int (length ys)"
    using assms(3,4) by (auto simp: race_inv_def covers_def split: option.splits)
  have "sint n < 2 ^ 31" using sint_lt[of n] by simp
  then have "int i < 2 ^ 31" using assms(4) by linarith
  then have "i < 2 ^ 31" by simp
  then show ?thesis using imageAt_nth[OF y(1)] y(2) assms(4) by simp
qed

text \<open>
  Removing an image is not safe: a poll that has loaded the length before the removal and loads
  the array after it reaches past the end of the new array.
\<close>

theorem removing_races_with_poll:
  assumes "consistent sn h (us @ x # vs)" "im_correlationId x = cid" "\<forall>u\<in>set us. im_correlationId u \<noteq> cid"
  shows "\<exists>r p. race_steps junk True (race_start sn h) r \<and>
    rc_poller r = ImagesLoaded (of_nat (length (us @ x # vs))) p \<and>
    imageAt (rc_heap r) p (of_nat (length (us @ vs))) = None \<and>
    ((\<forall>y\<in>set (us @ vs). im_sessionId y \<noteq> sid) \<longrightarrow>
      getImage_with (of_nat (length (us @ x # vs))) p (rc_heap r) sid = None)"
proof -
  let ?n = "length (us @ x # vs)" and ?m = "length (us @ vs)"
  let ?p = "Some (length h)" and ?h = "replaced h (sn_images sn) (map moved us @ x # map moved vs) (us @ vs)"
  let ?r0 = "race_start sn h"
  let ?r1 = "?r0\<lparr>rc_poller := LengthLoaded (sn_imagesLength sn)\<rparr>"
  let ?r2 = "?r1\<lparr>rc_heap := ?h, rc_stores := [StoreImagesLength (of_nat ?m), StoreImages ?p]\<rparr>"
  let ?r3 = "?r2\<lparr>rc_sub := do_store (StoreImagesLength (of_nat ?m)) sn, rc_stores := [StoreImages ?p]\<rparr>"
  let ?r4 = "?r3\<lparr>rc_sub := do_store (StoreImages ?p) (rc_sub ?r3), rc_stores := []\<rparr>"
  let ?r5 = "?r4\<lparr>rc_poller := ImagesLoaded (sn_imagesLength sn) ?p\<rparr>"
  have n: "sn_imagesLength sn = of_nat ?n" "?n < 2 ^ 31" using assms(1) by (simp_all add: consistent_def)
  have s1: "race_step junk True ?r0 ?r1" using race_step.load_length[of junk True ?r0] by (simp add: race_start_def)
  have s2: "race_step junk True ?r1 ?r2"
    using removeImage_prepare_spec[OF assms, of junk] by (intro race_step.begin_remove) (simp_all add: race_start_def)
  have s3: "race_step junk True ?r2 ?r3"
    using race_step.store[of ?r2 _ _ junk True] by (simp add: race_start_def)
  have s4: "race_step junk True ?r3 ?r4" using race_step.store[of ?r3 _ _ junk True] by simp
  have s5: "race_step junk True ?r4 ?r5" using race_step.load_images[of ?r4 _ junk True] by simp
  note run = race_steps.one_more[OF race_steps.one_more[OF race_steps.one_more[OF race_steps.one_more[OF race_steps.one_more[OF race_steps.no_step s1] s2] s3] s4] s5]
  have arr: "array ?h ?p = Some (us @ vs)" by (rule replaced_arrays(1))
  have out: "imageAt ?h ?p (of_nat ?m) = None" using imageAt_nth[OF arr, of ?m] n(2) by simp
  have "getImage_with (of_nat ?n) ?p ?h sid = None" if "\<forall>y\<in>set (us @ vs). im_sessionId y \<noteq> sid"
  proof -
    have "find_image (\<lambda>im. im_getSessionId im = sid) ?h ?p (k + Suc 0) (of_nat (?m - k)) = None" if "k \<le> ?m" for k
      using that
    proof (induction k)
      case 0
      then show ?case using out by simp
    next
      case (Suc k)
      have i: "?m - Suc k < ?m" "Suc (?m - Suc k) = ?m - k" using Suc.prems by simp_all
      have "imageAt ?h ?p (of_nat (?m - Suc k)) = Some ((us @ vs) ! (?m - Suc k))"
        using imageAt_nth[OF arr, of "?m - Suc k"] i(1) n(2) by simp
      moreover have "im_sessionId ((us @ vs) ! (?m - Suc k)) \<noteq> sid"
        using \<open>\<forall>y\<in>set (us @ vs). im_sessionId y \<noteq> sid\<close> nth_mem[OF i(1)] by blast
      moreover have "of_nat (?m - Suc k) + 1 = (of_nat (?m - k) :: int32_t)" unfolding i(2)[symmetric] by simp
      ultimately show ?case using Suc by (simp add: im_getSessionId_def del: of_nat_diff)
    qed
    from this[of ?m] have "find_image (\<lambda>im. im_getSessionId im = sid) ?h ?p ?n 0 = None" by simp
    moreover have "nat (sint (of_nat ?n :: int32_t)) = ?n" using n(2) by (intro sint_small)
    ultimately show ?thesis by (simp add: getImage_with_def del: length_append)
  qed
  then show ?thesis using run out n(1)
    by (intro exI[of _ ?r5] exI[of _ ?p]) (simp add: race_start_def)
qed

text \<open>The list without the first image of a correlation id.\<close>

definition without :: "int64_t \<Rightarrow> 'u image list \<Rightarrow> 'u image list" where
  "without cid xs = takeWhile (\<lambda>x. im_correlationId x \<noteq> cid) xs @ tl (dropWhile (\<lambda>x. im_correlationId x \<noteq> cid) xs)"

lemma without_split:
  assumes "\<exists>x\<in>set xs. im_correlationId x = cid"
  obtains us x vs where "xs = us @ x # vs" "im_correlationId x = cid" "\<forall>u\<in>set us. im_correlationId u \<noteq> cid" "without cid xs = us @ vs"
proof -
  let ?P = "\<lambda>x. im_correlationId x \<noteq> cid"
  have ne: "dropWhile ?P xs \<noteq> []" using assms by simp
  have "xs = takeWhile ?P xs @ hd (dropWhile ?P xs) # tl (dropWhile ?P xs)" using ne by simp
  moreover have "im_correlationId (hd (dropWhile ?P xs)) = cid" using hd_dropWhile[OF ne] by simp
  moreover have "\<forall>u\<in>set (takeWhile ?P xs). im_correlationId u \<noteq> cid" by (auto dest: set_takeWhileD)
  ultimately show thesis using that without_def by blast
qed

text \<open>Old arrays keep their length, and only the one that was in use loses what it held.\<close>

definition keeps_arrays :: "'u image_heap \<Rightarrow> image_ptr \<Rightarrow> 'u image_heap \<Rightarrow> bool" where
  "keeps_arrays h old h' \<longleftrightarrow> (\<forall>a < length h. case h ! a of None \<Rightarrow> h' ! a = None
     | Some ys \<Rightarrow> (case h' ! a of None \<Rightarrow> False | Some zs \<Rightarrow> length zs = length ys \<and> (Some a \<noteq> old \<longrightarrow> zs = ys)))"

lemma keeps_arrays_replaced:
  assumes "consistent sn h xs" "length left = length xs"
  shows "keeps_arrays h (sn_images sn) (replaced h (sn_images sn) left new)"
  using assms
  by (auto simp: keeps_arrays_def replaced_def nth_append nth_list_update consistent_def array_def split: option.splits if_splits)

text \<open>
  C30. The arrays implement the list of images: adding an image appends it, removing one takes out the
  first of its correlation id -- its index is answered -- and an unknown id changes nothing. The array
  that was in use is handed back for lingering and still has its length, all others are untouched.
\<close>

theorem image_arrays_refine_list:
  assumes "consistent sn h xs" "copyable connection" "Suc (length xs) < 2 ^ 31"
  shows "(\<exists>sn' h'. addImage junk sn connection h = Some (sn_images sn, moved connection, sn', h') \<and>
      consistent sn' h' (xs @ [connection]) \<and> keeps_arrays h (sn_images sn) h') \<and>
    (\<exists>sn' h'. removeImage junk sn cid h =
        Some (if cid \<in> im_correlationId ` set xs
              then (sn_images sn, of_nat (length (takeWhile (\<lambda>x. im_correlationId x \<noteq> cid) xs))) else (None, - 1), sn', h') \<and>
      consistent sn' h' (without cid xs) \<and> keeps_arrays h (sn_images sn) h')"
proof
  show "\<exists>sn' h'. addImage junk sn connection h = Some (sn_images sn, moved connection, sn', h') \<and>
      consistent sn' h' (xs @ [connection]) \<and> keeps_arrays h (sn_images sn) h'"
    using addImage_spec[OF assms] keeps_arrays_replaced[OF assms(1)] by (metis length_map)
  show "\<exists>sn' h'. removeImage junk sn cid h =
        Some (if cid \<in> im_correlationId ` set xs
              then (sn_images sn, of_nat (length (takeWhile (\<lambda>x. im_correlationId x \<noteq> cid) xs))) else (None, - 1), sn', h') \<and>
      consistent sn' h' (without cid xs) \<and> keeps_arrays h (sn_images sn) h'"
  proof (cases "cid \<in> im_correlationId ` set xs")
    case True
    then obtain us x vs where x: "xs = us @ x # vs" "im_correlationId x = cid" "\<forall>u\<in>set us. im_correlationId u \<noteq> cid"
      "without cid xs = us @ vs"
      by (metis (no_types, lifting) imageE without_split)
    have "takeWhile (\<lambda>x. im_correlationId x \<noteq> cid) xs = us" using x(1-3) by (simp add: takeWhile_append2)
    moreover have "keeps_arrays h (sn_images sn) (replaced h (sn_images sn) (map moved us @ x # map moved vs) (us @ vs))"
      by (rule keeps_arrays_replaced[OF assms(1)]) (simp add: x(1))
    moreover note removeImage_spec[OF assms(1)[unfolded x(1)] x(2,3)]
    ultimately show ?thesis using True x(4) by auto
  next
    case False
    then have ne: "\<forall>x\<in>set xs. im_correlationId x \<noteq> cid" by auto
    have "takeWhile (\<lambda>x. im_correlationId x \<noteq> cid) xs = xs" using ne by (subst takeWhile_eq_all_conv)
    moreover have "dropWhile (\<lambda>x. im_correlationId x \<noteq> cid) xs = []" using ne by (subst dropWhile_eq_Nil_conv)
    ultimately have "without cid xs = xs" by (simp only: without_def list.sel append_Nil2)
    moreover have "keeps_arrays h (sn_images sn) h" by (simp add: keeps_arrays_def split: option.splits)
    ultimately show ?thesis using removeImage_absent[OF assms(1) ne] False assms(1) by auto
  qed
qed

section \<open>A concrete subscription\<close>

definition demo_subscription :: subscription where
  "demo_subscription = (Subscription_init 5 [] 10)\<lparr>sn_images := Some 0, sn_imagesLength := 1\<rparr>"

lemma demo_consistent: "consistent demo_subscription [Some [demo_image]] [demo_image]"
  by (simp add: consistent_def demo_subscription_def array_def demo_image_def)

theorem sn_poll_visits_witness:
  "sn_poll demo_subscription collect_payload 10 ([Some [demo_image]], (blank, [])) =
    map_option (\<lambda>(res, ys, s'). (res, demo_subscription, ([Some ys], s'))) (visit [0] collect_payload 10 0 [demo_image] (blank, []))"
proof -
  have r: "start_index demo_subscription = 0" "demo_subscription\<lparr>sn_roundRobinIndex := 0\<rparr> = demo_subscription"
    "sn_images demo_subscription = Some 0" "sint (sn_roundRobinIndex demo_subscription) = 0"
    by (simp_all add: start_index_def demo_subscription_def Subscription_init_def)
  show ?thesis using sn_poll_visits[OF demo_consistent _ r(3), of collect_payload 10 "(blank, [])"] by (simp add: r)
qed

theorem image_arrays_refine_list_witness:
  "\<exists>sn' h'. removeImage demo_image demo_subscription 3 [Some [demo_image]] = Some ((Some 0, 0), sn', h') \<and> consistent sn' h' []"
proof -
  have d: "copyable demo_image" "im_correlationId demo_image = 3" "sn_images demo_subscription = Some 0"
    by (simp_all add: demo_image_def demo_subscription_def)
  show ?thesis
    using image_arrays_refine_list[OF demo_consistent d(1), of demo_image 3] by (auto simp: d(2,3) without_def)
qed

theorem adding_keeps_polls_inside_witness:
  "\<exists>r. race_steps demo_image False (race_start demo_subscription [Some [demo_image]]) r \<and>
    rc_poller r = ImagesLoaded 1 (Some 0) \<and> imageAt (rc_heap r) (Some 0) 0 \<noteq> None"
proof -
  let ?r0 = "race_start demo_subscription [Some [demo_image]]"
  let ?r1 = "?r0\<lparr>rc_poller := LengthLoaded 1\<rparr>"
  let ?r2 = "?r1\<lparr>rc_poller := ImagesLoaded 1 (Some 0)\<rparr>"
  have "race_step demo_image False ?r0 ?r1"
    using race_step.load_length[of demo_image False ?r0] by (simp add: race_start_def demo_subscription_def)
  moreover have "race_step demo_image False ?r1 ?r2"
    using race_step.load_images[of ?r1 1 demo_image False] by (simp add: race_start_def demo_subscription_def)
  ultimately have run: "race_steps demo_image False ?r0 ?r2" by (blast intro: race_steps.intros)
  have "imageAt (rc_heap ?r2) (Some 0) (of_nat 0) \<noteq> None"
    by (rule adding_keeps_polls_inside[OF demo_consistent run, of 1 "Some 0"]) (use sint_small(1)[of 1] in simp_all)
  then show ?thesis using run by (intro exI[of _ ?r2]) simp
qed

end
