(* ===== verification/Publication.thy ===== *)
theory Publication
  imports Image
begin

text \<open>
  \<^verbatim>\<open>Publication.h\<close> and \<^verbatim>\<open>Publication.cpp\<close>: messages are offered to the active one of the three terms of a
  log, as long as the position is below the limit that the media driver sets; when a term is full the
  next one becomes active and the one after it is marked for cleaning.
\<close>

section \<open>Publication\<close>

definition PUBLICATION_NOT_CONNECTED :: int64_t where "PUBLICATION_NOT_CONNECTED = - 1"

definition PUBLICATION_BACK_PRESSURE :: int64_t where "PUBLICATION_BACK_PRESSURE = - 2"

text \<open>The reference to the conductor, which only the destructor uses, is left to the conductor's theory.\<close>

record publication =
  pb_channel :: "byte list"
  pb_registrationId :: int64_t
  pb_streamId :: int32_t
  pb_sessionId :: int32_t
  pb_publicationLimit :: buffer_position
  pb_logMetaDataBuffer :: abuf
  pb_appenders :: "appender list"
  pb_positionBitsToShift :: int32_t

fun makeAppenders :: "log_buffers \<Rightarrow> abuf \<Rightarrow> int32_t \<Rightarrow> nat list \<Rightarrow> (cpu, appender list) act" where
  "makeAppenders buffers logMetaDataBuffer mtu [] = ret []"
| "makeAppenders buffers logMetaDataBuffer mtu (i # is) =
     bind (TermAppender (atomicBuffer buffers i) (atomicBuffer buffers (i + 3))
       (defaultFrameHeader logMetaDataBuffer (of_nat i)) mtu) (\<lambda>appender.
     bind (makeAppenders buffers logMetaDataBuffer mtu is) (\<lambda>appenders. ret (appender # appenders)))"

definition Publication_init ::
    "byte list \<Rightarrow> int64_t \<Rightarrow> int32_t \<Rightarrow> int32_t \<Rightarrow> buffer_position \<Rightarrow> log_buffers \<Rightarrow> (cpu, publication) act" where
  "Publication_init channel registrationId streamId sessionId publicationLimit buffers =
     (let logMetaDataBuffer = atomicBuffer buffers (unat LOG_META_DATA_SECTION_INDEX)
      in bind (mtuLength logMetaDataBuffer) (\<lambda>mtu.
         let capacity = ab_capacity (atomicBuffer buffers 0)
         in bind (makeAppenders buffers logMetaDataBuffer mtu [0, 1, 2]) (\<lambda>appenders.
            bind (lb_initialTermId logMetaDataBuffer) (\<lambda>initialTermId.
            andThen (set_activeTermId logMetaDataBuffer initialTermId)
            (ret \<lparr>pb_channel = channel, pb_registrationId = registrationId, pb_streamId = streamId,
                  pb_sessionId = sessionId, pb_publicationLimit = ReadablePosition publicationLimit,
                  pb_logMetaDataBuffer = logMetaDataBuffer, pb_appenders = appenders,
                  pb_positionBitsToShift = of_nat (numberOfTrailingZeroes capacity)\<rparr>)))))"

definition pb_getChannel :: "publication \<Rightarrow> byte list" where
  "pb_getChannel pb = pb_channel pb"

definition pb_getStreamId :: "publication \<Rightarrow> int32_t" where
  "pb_getStreamId pb = pb_streamId pb"

definition pb_getSessionId :: "publication \<Rightarrow> int32_t" where
  "pb_getSessionId pb = pb_sessionId pb"

definition pb_getRegistrationId :: "publication \<Rightarrow> int64_t" where
  "pb_getRegistrationId pb = pb_registrationId pb"

definition pb_maxMessageLength :: "publication \<Rightarrow> index_t" where
  "pb_maxMessageLength pb = ta_maxMessageLength (pb_appenders pb ! 0)"

definition pb_position :: "publication \<Rightarrow> (cpu, int64_t) oact" where
  "pb_position pb =
     obind (total (lb_initialTermId (pb_logMetaDataBuffer pb))) (\<lambda>initialTermId.
     obind (total (lb_activeTermId (pb_logMetaDataBuffer pb))) (\<lambda>activeTermId.
     obind (ofOption (indexByTerm initialTermId activeTermId)) (\<lambda>index.
     obind (total (rawTailVolatile (pb_appenders pb ! index))) (\<lambda>currentTail.
       oret (computePosition activeTermId currentTail (pb_positionBitsToShift pb) initialTermId)))))"

text \<open>The case of the tripped term falls through to that of the failed one.\<close>

definition newPosition :: "publication \<Rightarrow> int32_t \<Rightarrow> nat \<Rightarrow> int32_t \<Rightarrow> int64_t \<Rightarrow> int32_t \<Rightarrow> (cpu, int64_t) oact" where
  "newPosition pb activeTermId activeIndex currentTail position nextOffset =
     (if nextOffset = TERM_APPENDER_TRIPPED
      then let newTermId = activeTermId + 1
           in obind (ofOption (nextPartitionIndex (of_nat activeIndex))) (\<lambda>nextIndex.
              obind (ofOption (nextPartitionIndex (of_nat nextIndex))) (\<lambda>nextNextIndex.
              obind (total (defaultHeaderTermId (pb_logMetaDataBuffer pb) (of_nat nextIndex) newTermId)) (\<lambda>_.
              obind (total (defaultHeaderTermId (pb_logMetaDataBuffer pb) (of_nat nextNextIndex) (newTermId + 1))) (\<lambda>_.
              obind (total (statusOrdered (pb_appenders pb ! nextNextIndex) NEEDS_CLEANING)) (\<lambda>_.
              obind (total (set_activeTermId (pb_logMetaDataBuffer pb) newTermId)) (\<lambda>_.
                oret PUBLICATION_BACK_PRESSURE))))))
      else if nextOffset = TERM_APPENDER_FAILED then oret PUBLICATION_BACK_PRESSURE
      else oret ((position - scast currentTail) + scast nextOffset))"

text \<open>
  \<^verbatim>\<open>offer\<close> and \<^verbatim>\<open>tryClaim\<close> have the same body around the call on the active appender; the result that
  the call leaves in an argument -- the claim -- is returned with the position.
\<close>

definition publish :: "publication \<Rightarrow> (appender \<Rightarrow> (cpu, int32_t \<times> 'x) oact) \<Rightarrow> 'x \<Rightarrow> (cpu, int64_t \<times> 'x) oact" where
  "publish pb call unchanged =
     obind (total (lb_initialTermId (pb_logMetaDataBuffer pb))) (\<lambda>initialTermId.
     obind (total (lb_activeTermId (pb_logMetaDataBuffer pb))) (\<lambda>activeTermId.
     obind (ofOption (indexByTerm initialTermId activeTermId)) (\<lambda>activeIndex.
     let appender = pb_appenders pb ! activeIndex
     in obind (total (rawTailVolatile appender)) (\<lambda>currentTail.
        let position = computePosition activeTermId currentTail (pb_positionBitsToShift pb) initialTermId;
            capacity = ab_capacity (lp_termBuffer appender)
        in obind (total (position_getVolatile (pb_publicationLimit pb))) (\<lambda>limit.
           if sint currentTail < sint capacity \<and> sint position < sint limit
           then obind (call appender) (\<lambda>(nextOffset, x).
                obind (newPosition pb activeTermId activeIndex currentTail position nextOffset) (\<lambda>p. oret (p, x)))
           else oret (if sint limit > 0 then PUBLICATION_BACK_PRESSURE else PUBLICATION_NOT_CONNECTED, unchanged))))))"

definition offer :: "publication \<Rightarrow> abuf \<Rightarrow> index_t \<Rightarrow> index_t \<Rightarrow> (cpu, int64_t) oact" where
  "offer pb buffer offset len =
     obind (publish pb (\<lambda>appender. obind (append_message appender buffer offset len) (\<lambda>nextOffset. oret (nextOffset, ()))) ())
       (\<lambda>(p, _). oret p)"

definition offer_buffer :: "publication \<Rightarrow> abuf \<Rightarrow> (cpu, int64_t) oact" where
  "offer_buffer pb buffer = offer pb buffer 0 (ab_capacity buffer)"

definition tryClaim :: "publication \<Rightarrow> index_t \<Rightarrow> abuf \<Rightarrow> (cpu, int64_t \<times> abuf) oact" where
  "tryClaim pb len bufferClaim = publish pb (\<lambda>appender. total (claim appender len bufferClaim)) bufferClaim"

section \<open>Publications over a log\<close>

text \<open>The appender of a partition of a log of terms of \<open>2 ^ k\<close> bytes at \<open>a\<close>, and the log's metadata.\<close>

definition term_part :: "addr \<Rightarrow> nat \<Rightarrow> nat \<Rightarrow> nat \<Rightarrow> appender" where
  "term_part a k F i =
     \<lparr>lp_termBuffer = AtomicBuffer (a + int (i * 2 ^ k)) (of_nat (2 ^ k)),
      lp_metaDataBuffer = AtomicBuffer (a + int (3 * 2 ^ k + i * 384)) 384,
      ta_defaultHdr = a + int (3 * 2 ^ k + 1408 + i * 128),
      ta_maxMessageLength = of_nat (2 ^ k div 8), ta_maxFrameLength = of_nat F, ta_maxPayloadLength = of_nat (F - 24)\<rparr>"

abbreviation log_meta :: "addr \<Rightarrow> nat \<Rightarrow> addr" where
  "log_meta a k \<equiv> a + int (3 * 2 ^ k + 1152)"

definition wf_publication :: "addr \<Rightarrow> nat \<Rightarrow> nat \<Rightarrow> publication \<Rightarrow> bool" where
  "wf_publication a k F pb \<longleftrightarrow> 16 \<le> k \<and> k \<le> 30 \<and> 24 < F \<and> F \<le> 2 ^ k \<and> 8 dvd F \<and>
     pb_appenders pb = map (term_part a k F) [0..<3] \<and> pb_logMetaDataBuffer pb = AtomicBuffer (log_meta a k) 640 \<and>
     pb_positionBitsToShift pb = of_nat k \<and>
     in_range (bp_buffer (pb_publicationLimit pb)) (bp_offset (pb_publicationLimit pb)) 8"

abbreviation limit_of :: "publication \<Rightarrow> cpu \<Rightarrow> int" where
  "limit_of pb c \<equiv> sint (get_le 8 c (at (bp_buffer (pb_publicationLimit pb)) (bp_offset (pb_publicationLimit pb))) :: int64_t)"

lemma power_k: "16 \<le> k \<Longrightarrow> k \<le> 30 \<Longrightarrow> 65536 \<le> (2 :: nat) ^ k \<and> (2 :: nat) ^ k \<le> 1073741824 \<and> 8 dvd (2 :: nat) ^ k"
  using power_increasing[of 16 k "2 :: nat"] power_increasing[of k 30 "2 :: nat"] le_imp_power_dvd[of 3 k "2 :: nat"] by simp

lemma term_part_wf:
  assumes "wf_publication a k F pb" "i < 3"
  shows "wf_appender (2 ^ k) F (term_part a k F i)"
proof -
  have F: "24 < F" "F \<le> 2 ^ k" "8 dvd F" and k: "65536 \<le> (2 :: nat) ^ k" "(2 :: nat) ^ k \<le> 1073741824" "8 dvd (2 :: nat) ^ k"
    using assms(1) power_k[of k] by (simp_all add: wf_publication_def)
  have "i = 0 \<or> i = 1 \<or> i = 2" using assms(2) by auto
  then show ?thesis
    using F k by (elim disjE) (simp_all add: wf_appender_def term_part_def AtomicBuffer_def apart_ranges_def)
qed

lemma meta_outside: "i < 3 \<Longrightarrow> log_meta a k \<le> x \<Longrightarrow> outside (2 ^ k) (term_part a k F i) x"
proof -
  assume "i < 3" "log_meta a k \<le> x"
  moreover have "i = 0 \<or> i = 1 \<or> i = 2" using \<open>i < 3\<close> by auto
  moreover have "0 < (2 :: int) ^ k" by simp
  ultimately show ?thesis
    by (elim disjE; simp add: outside_def term_part_def AtomicBuffer_def; linarith)
qed

lemma tail_outside:
  assumes "tail_addr (term_part a k F ((n + 1) mod 3)) \<le> x" "x < tail_addr (term_part a k F ((n + 1) mod 3)) + 4"
  shows "outside (2 ^ k) (term_part a k F (n mod 3)) x"
proof -
  have "n mod 3 = 0 \<and> (n + 1) mod 3 = 1 \<or> n mod 3 = 1 \<and> (n + 1) mod 3 = 2 \<or> n mod 3 = 2 \<and> (n + 1) mod 3 = 0" by presburger
  moreover have "0 < (2 :: int) ^ k" by simp
  ultimately show ?thesis
    using assms by (elim disjE conjE; simp add: outside_def term_part_def AtomicBuffer_def; linarith)
qed

section \<open>The state of a publication\<close>

text \<open>
  The \<open>n\<close>-th term of a log is the active one: its frames \<open>fs\<close> and tail \<open>T\<close> are those of its appender,
  and its default header carries its term id. The default headers of all partitions carry the
  session and stream \<open>ss\<close> and the flags \<open>fl\<close>.
\<close>

abbreviation hdr_addr :: "addr \<Rightarrow> nat \<Rightarrow> nat \<Rightarrow> addr" where
  "hdr_addr a k i \<equiv> a + int (3 * 2 ^ k + 1408 + i * 128)"

abbreviation status_addr :: "addr \<Rightarrow> nat \<Rightarrow> nat \<Rightarrow> addr" where
  "status_addr a k i \<equiv> a + int (3 * 2 ^ k + i * 384 + 256)"

definition headers :: "addr \<Rightarrow> nat \<Rightarrow> byte list \<Rightarrow> byte \<Rightarrow> mem \<Rightarrow> bool" where
  "headers a k ss fl m \<longleftrightarrow> (\<forall>i<3. read_bytes m (hdr_addr a k i + 12) 8 = ss \<and> read_bytes m (hdr_addr a k i + 5) 1 = [fl] \<and>
     dec (read_bytes m (hdr_addr a k i + 6) 2) \<noteq> (0 :: 16 word))"

definition term_ids :: "byte list \<Rightarrow> int32_t \<Rightarrow> byte list" where
  "term_ids ss tid = ss @ enc 4 tid"

definition pub_inv ::
    "addr \<Rightarrow> nat \<Rightarrow> nat \<Rightarrow> publication \<Rightarrow> int32_t \<Rightarrow> byte list \<Rightarrow> byte \<Rightarrow> nat \<Rightarrow> frame list \<Rightarrow> nat \<Rightarrow> cpu \<Rightarrow> bool" where
  "pub_inv a k F pb t0 ss fl n fs T c \<longleftrightarrow> wf_publication a k F pb \<and> n < 2 ^ 31 \<and>
     get_le 4 c (log_meta a k) = t0 + of_nat n \<and> get_le 4 c (log_meta a k + 128) = t0 \<and> headers a k ss fl (view c) \<and>
     term_inv (2 ^ k) F (term_part a k F (n mod 3)) (term_ids ss (t0 + of_nat n)) fl c fs T"

lemma meta_reads:
  assumes "wf_publication a k F pb"
  shows "lb_initialTermId (pb_logMetaDataBuffer pb) c = (Inr (get_le 4 c (log_meta a k + 128)), c)"
    "lb_activeTermId (pb_logMetaDataBuffer pb) c = (Inr (get_le 4 c (log_meta a k)), c)"
    "i < 3 \<Longrightarrow> rawTailVolatile (pb_appenders pb ! i) c = (Inr (get_le 4 c (tail_addr (term_part a k F i))), c)"
    "i < 3 \<Longrightarrow> pb_appenders pb ! i = term_part a k F i"
    "set_activeTermId (pb_logMetaDataBuffer pb) v c = (Inr (), put_le 4 c (log_meta a k) v)"
    "i < 3 \<Longrightarrow> statusOrdered (pb_appenders pb ! i) v c = (Inr (), put_le 4 c (status_addr a k i) v)"
    "i < 3 \<Longrightarrow> defaultHeaderTermId (pb_logMetaDataBuffer pb) (of_nat i) v c = (Inr (), put_le 4 c (hdr_addr a k i + 20) v)"
    "position_getVolatile (pb_publicationLimit pb) c =
      (Inr (get_le 8 c (at (bp_buffer (pb_publicationLimit pb)) (bp_offset (pb_publicationLimit pb)))), c)"
proof -
  have m: "pb_logMetaDataBuffer pb = AtomicBuffer (log_meta a k) 640" "pb_appenders pb = map (term_part a k F) [0..<3]"
    "in_range (bp_buffer (pb_publicationLimit pb)) (bp_offset (pb_publicationLimit pb)) 8"
    using assms by (simp_all add: wf_publication_def)
  note d = in_range_def at_def AtomicBuffer_def layout ab_ok
  show "lb_initialTermId (pb_logMetaDataBuffer pb) c = (Inr (get_le 4 c (log_meta a k + 128)), c)"
    "lb_activeTermId (pb_logMetaDataBuffer pb) c = (Inr (get_le 4 c (log_meta a k)), c)"
    "set_activeTermId (pb_logMetaDataBuffer pb) v c = (Inr (), put_le 4 c (log_meta a k) v)"
    by (simp_all add: m(1) lb_initialTermId_def lb_activeTermId_def set_activeTermId_def d)
  show ap: "pb_appenders pb ! i = term_part a k F i" if "i < 3" for i using that by (simp add: m(2))
  show "rawTailVolatile (pb_appenders pb ! i) c = (Inr (get_le 4 c (tail_addr (term_part a k F i))), c)"
    "statusOrdered (pb_appenders pb ! i) v c = (Inr (), put_le 4 c (status_addr a k i) v)" if "i < 3"
    using ap[OF that] by (simp_all add: rawTailVolatile_def statusOrdered_def term_part_def d add.assoc)
  show "defaultHeaderTermId (pb_logMetaDataBuffer pb) (of_nat i) v c = (Inr (), put_le 4 c (hdr_addr a k i + 20) v)" if "i < 3"
  proof -
    have "i = 0 \<or> i = 1 \<or> i = 2" using that by auto
    then show ?thesis by (elim disjE) (simp_all add: m(1) defaultHeaderTermId_def Let_def d)
  qed
  show "position_getVolatile (pb_publicationLimit pb) c =
      (Inr (get_le 8 c (at (bp_buffer (pb_publicationLimit pb)) (bp_offset (pb_publicationLimit pb)))), c)"
    using m(3) by (simp add: position_getVolatile_def ab_ok)
qed

text \<open>The body shared by offering and claiming, up to the call on the appender.\<close>

lemma publish_spec:
  assumes inv: "pub_inv a k F pb t0 ss fl n fs T c" and T: "T < 2 ^ 31"
  defines "ta \<equiv> term_part a k F (n mod 3)"
  shows "publish pb call u c = (if T < 2 ^ k \<and> int (n * 2 ^ k + T) < limit_of pb c
     then obind (call ta) (\<lambda>(nextOffset, x).
       obind (newPosition pb (t0 + of_nat n) (n mod 3) (of_nat T) (of_nat (n * 2 ^ k + T)) nextOffset) (\<lambda>p. oret (p, x))) c
     else Some (Inr (if limit_of pb c > 0 then PUBLICATION_BACK_PRESSURE else PUBLICATION_NOT_CONNECTED, u), c))"
proof -
  have wf: "wf_publication a k F pb" and n: "n < 2 ^ 31"
    and act: "get_le 4 c (log_meta a k) = t0 + of_nat n" and ini: "get_le 4 c (log_meta a k + 128) = t0"
    and ti: "term_inv (2 ^ k) F ta (term_ids ss (t0 + of_nat n)) fl c fs T"
    using inv by (simp_all add: pub_inv_def ta_def)
  have k: "k \<le> 30" "pb_positionBitsToShift pb = of_nat k" "(2 :: nat) ^ k \<le> 1073741824"
    using wf power_k[of k] by (simp_all add: wf_publication_def)
  have i: "n mod 3 < 3" by simp
  have tl: "get_le 4 c (tail_addr ta) = (of_nat T :: int32_t)" using ti by (simp add: term_inv_def log_inv_def)
  have cp: "sint (ab_capacity (lp_termBuffer ta)) = int (2 ^ k)"
    using sint_of_nat32[of "2 ^ k"] k(3) by (simp add: ta_def term_part_def ab_capacity_def AtomicBuffer_def)
  have sT: "sint (of_nat T :: int32_t) = int T" by (rule sint_of_nat32[OF T])
  have pos: "computePosition (t0 + of_nat n) (of_nat T) (of_nat k) t0 = of_nat (n * 2 ^ k + T)"
    "sint (of_nat (n * 2 ^ k + T) :: int64_t) = int (n * 2 ^ k + T)" if "T < 2 ^ k"
    using that computePosition_nat[OF k(1) n, of T t0] unat_position(2)[OF k(1) n, of T] by (simp_all only: less_imp_le)
  note r = meta_reads[OF wf]
  have rt: "rawTailVolatile ta c = (Inr (of_nat T), c)"
    using r(3)[OF i, of c] unfolding r(4)[OF i] ta_def[symmetric] tl .
  note u = publish_def obind_def total_def ofOption_def r(1,2) option.case prod.case sum.case act ini indexByTerm_nat[OF n]
    r(4)[OF i, folded ta_def] rt r(8) Let_def cp sT k(2)
  show ?thesis
  proof (cases "T < 2 ^ k")
    case True
    then show ?thesis unfolding u pos[OF True] by (simp add: oret_def del: of_nat_add of_nat_mult)
  next
    case False
    then show ?thesis unfolding u by (simp add: oret_def del: of_nat_add of_nat_mult)
  qed
qed

text \<open>The rotation to the next term.\<close>

definition rotated :: "addr \<Rightarrow> nat \<Rightarrow> int32_t \<Rightarrow> nat \<Rightarrow> mem \<Rightarrow> mem" where
  "rotated a k t0 n m =
     write_bytes (write_bytes (write_bytes (write_bytes m
       (hdr_addr a k ((n + 1) mod 3) + 20) (enc 4 (t0 + of_nat (n + 1))))
       (hdr_addr a k ((n + 2) mod 3) + 20) (enc 4 (t0 + of_nat (n + 2))))
       (status_addr a k ((n + 2) mod 3)) (enc 4 NEEDS_CLEANING))
       (log_meta a k) (enc 4 (t0 + of_nat (n + 1)))"

lemma newPosition_tripped:
  assumes "wf_publication a k F pb"
  obtains c' where "newPosition pb (t0 + of_nat n) (n mod 3) ct pos TERM_APPENDER_TRIPPED c =
      Some (Inr PUBLICATION_BACK_PRESSURE, c')" "view c' = rotated a k t0 n (view c)"
proof -
  have nx: "nextPartitionIndex (of_nat (n mod 3)) = Some ((n + 1) mod 3)"
    "nextPartitionIndex (of_nat ((n + 1) mod 3)) = Some ((n + 2) mod 3)"
    using nextPartitionIndex_nat[of n] nextPartitionIndex_nat[of "n + 1"] by (simp_all del: of_nat_add)
  have b: "(n + 1) mod 3 < 3" "(n + 2) mod 3 < 3" by simp_all
  have t: "t0 + of_nat n + 1 = t0 + of_nat (n + 1)" "t0 + of_nat (n + 1) + 1 = t0 + of_nat (n + 2)" by simp_all
  note r = meta_reads[OF assms]
  show thesis
    by (rule that[of "put_le 4 (put_le 4 (put_le 4 (put_le 4 c (hdr_addr a k ((n + 1) mod 3) + 20) (t0 + of_nat (n + 1)))
        (hdr_addr a k ((n + 2) mod 3) + 20) (t0 + of_nat (n + 2))) (status_addr a k ((n + 2) mod 3)) NEEDS_CLEANING)
        (log_meta a k) (t0 + of_nat (n + 1))"])
      (simp only: newPosition_def Let_def refl if_True obind_def total_def ofOption_def nx option.case prod.case sum.case
        r(5) r(6)[OF b(2)] r(7)[OF b(1)] r(7)[OF b(2)] t oret_def, simp only: rotated_def view_put_le)
qed

section \<open>Keeping the state\<close>

lemma meta_kept:
  assumes "\<And>x. log_meta a k \<le> x \<Longrightarrow> view c' x = view c x"
  shows "headers a k ss fl (view c) \<Longrightarrow> headers a k ss fl (view c')"
    "get_le 4 c' (log_meta a k) = (get_le 4 c (log_meta a k) :: int32_t)"
    "get_le 4 c' (log_meta a k + 128) = (get_le 4 c (log_meta a k + 128) :: int32_t)"
proof -
  have r: "read_bytes (view c') (log_meta a k + int j) n = read_bytes (view c) (log_meta a k + int j) n" for j n
    by (intro read_bytes_cong assms) simp
  show "get_le 4 c' (log_meta a k) = (get_le 4 c (log_meta a k) :: int32_t)"
    "get_le 4 c' (log_meta a k + 128) = (get_le 4 c (log_meta a k + 128) :: int32_t)"
    using r[of 0 4] r[of 128 4] by (simp_all add: get_le_def load_def)
  have "read_bytes (view c') (hdr_addr a k i + int j) n = read_bytes (view c) (hdr_addr a k i + int j) n" for i j n
    using r[of "256 + i * 128 + j" n] by (simp add: algebra_simps)
  from this[where j = 12] this[where j = 5] this[where j = 6]
  show "headers a k ss fl (view c) \<Longrightarrow> headers a k ss fl (view c')" by (simp add: headers_def)
qed

lemma pub_inv_appended:
  assumes inv: "pub_inv a k F pb t0 ss fl n fs T c"
    and "term_inv (2 ^ k) F (term_part a k F (n mod 3)) (term_ids ss (t0 + of_nat n)) fl c' fs' T'"
    and out: "\<And>x. outside (2 ^ k) (term_part a k F (n mod 3)) x \<Longrightarrow> view c' x = view c x"
  shows "pub_inv a k F pb t0 ss fl n fs' T' c'"
proof -
  have "view c' x = view c x" if "log_meta a k \<le> x" for x
    using that by (intro out meta_outside) simp_all
  from meta_kept[OF this] show ?thesis using inv assms(2) by (simp add: pub_inv_def)
qed

text \<open>What the rotation leaves alone, and what it writes.\<close>

lemma rotated_below:
  assumes "x < a + int (3 * 2 ^ k)"
  shows "rotated a k t0 n m x = m x"
  using assms by (simp add: rotated_def write_bytes_def)

lemma rotated_reads:
  fixes n :: nat
  defines "j \<equiv> (n + 1) mod 3" and "l \<equiv> (n + 2) mod 3"
  shows "read_bytes (rotated a k t0 n m) (hdr_addr a k j + 20) 4 = enc 4 (t0 + of_nat (n + 1) :: int32_t)"
    "read_bytes (rotated a k t0 n m) (hdr_addr a k l + 20) 4 = enc 4 (t0 + of_nat (n + 2) :: int32_t)"
    "read_bytes (rotated a k t0 n m) (status_addr a k l) 4 = enc 4 NEEDS_CLEANING"
    "read_bytes (rotated a k t0 n m) (log_meta a k) 4 = enc 4 (t0 + of_nat (n + 1) :: int32_t)"
    "read_bytes (rotated a k t0 n m) (log_meta a k + 128) 4 = read_bytes m (log_meta a k + 128) 4"
    "read_bytes (rotated a k t0 n m) (tail_addr (term_part a k F j)) 4 = read_bytes m (tail_addr (term_part a k F j)) 4"
    "i < 3 \<Longrightarrow> p + q \<le> 20 \<Longrightarrow> read_bytes (rotated a k t0 n m) (hdr_addr a k i + int p) q = read_bytes m (hdr_addr a k i + int p) q"
proof -
  define B where "B = a + int (3 * 2 ^ k)"
  have e: "hdr_addr a k i + x = B + (1408 + int i * 128 + x)" "status_addr a k i = B + (int i * 384 + 256)"
    "log_meta a k = B + 1152" "tail_addr (term_part a k F i) = B + (int i * 384 + 128)" for i x
    by (simp_all add: B_def term_part_def AtomicBuffer_def)
  have r: "rotated a k t0 n m =
     write_bytes (write_bytes (write_bytes (write_bytes m
       (B + (1408 + int j * 128 + 20)) (enc 4 (t0 + of_nat (n + 1))))
       (B + (1408 + int l * 128 + 20)) (enc 4 (t0 + of_nat (n + 2))))
       (B + (int l * 384 + 256)) (enc 4 NEEDS_CLEANING))
       (B + 1152) (enc 4 (t0 + of_nat (n + 1)))"
    by (simp only: rotated_def e j_def l_def)
  have jl: "j = 0 \<and> l = 1 \<or> j = 1 \<and> l = 2 \<or> j = 2 \<and> l = 0" unfolding j_def l_def by presburger
  then have d: "int j * 128 + 4 \<le> int l * 128 \<or> int l * 128 + 4 \<le> int j * 128" "0 \<le> int j" "0 \<le> int l"
    "int j * 384 + 4 \<le> int l * 384 + 128 \<or> int l * 384 + 132 \<le> int j * 384" "int l \<le> 2" "int j \<le> 2"
    by (elim disjE conjE; simp)+
  note s = read_write_disjoint read_write_same length_enc
  show "read_bytes (rotated a k t0 n m) (hdr_addr a k j + 20) 4 = enc 4 (t0 + of_nat (n + 1) :: int32_t)"
    using d(1-3,5,6) unfolding r e by (elim disjE; simp add: s del: enc_numeral of_nat_add)
  show "read_bytes (rotated a k t0 n m) (hdr_addr a k l + 20) 4 = enc 4 (t0 + of_nat (n + 2) :: int32_t)"
    using d(1-3,5,6) unfolding r e by (elim disjE; simp add: s del: enc_numeral of_nat_add)
  show "read_bytes (rotated a k t0 n m) (status_addr a k l) 4 = enc 4 NEEDS_CLEANING"
    unfolding r e using d(3,5) by (simp add: s del: enc_numeral of_nat_add)
  show "read_bytes (rotated a k t0 n m) (log_meta a k) 4 = enc 4 (t0 + of_nat (n + 1) :: int32_t)"
    unfolding r e by (simp add: s del: enc_numeral of_nat_add)
  show "read_bytes (rotated a k t0 n m) (log_meta a k + 128) 4 = read_bytes m (log_meta a k + 128) 4"
    unfolding r e using d(2,3,5) by (simp add: s del: enc_numeral of_nat_add)
  show "read_bytes (rotated a k t0 n m) (tail_addr (term_part a k F j)) 4 = read_bytes m (tail_addr (term_part a k F j)) 4"
    using d unfolding r e by (elim disjE; simp add: s del: enc_numeral of_nat_add)
  assume i: "i < 3" and pq: "p + q \<le> 20"
  have f: "int i * 128 + int p + int q \<le> int x * 128 + 20 \<or> int x * 128 + 24 \<le> int i * 128 + int p" for x
  proof (cases "i \<le> x")
    case False
    then have "int x + 1 \<le> int i" by simp
    then show ?thesis by linarith
  qed (use pq in linarith)
  show "read_bytes (rotated a k t0 n m) (hdr_addr a k i + int p) q = read_bytes m (hdr_addr a k i + int p) q"
    using d(2,3,5,6) f[of j] f[of l] unfolding r e by (elim disjE; simp add: s del: enc_numeral of_nat_add)
qed

lemma pb_position_spec:
  assumes inv: "pub_inv a k F pb t0 ss fl n fs T c" and T: "T \<le> 2 ^ k"
  shows "pb_position pb c = Some (Inr (of_nat (n * 2 ^ k + T)), c)"
proof -
  have wf: "wf_publication a k F pb" and n: "n < 2 ^ 31"
    and act: "get_le 4 c (log_meta a k) = t0 + of_nat n" and ini: "get_le 4 c (log_meta a k + 128) = t0"
    and tl: "get_le 4 c (tail_addr (term_part a k F (n mod 3))) = (of_nat T :: int32_t)"
    using inv by (simp_all add: pub_inv_def term_inv_def log_inv_def)
  have k: "k \<le> 30" "pb_positionBitsToShift pb = of_nat k" using wf by (simp_all add: wf_publication_def)
  have i: "n mod 3 < 3" by simp
  note r = meta_reads[OF wf]
  show ?thesis
    unfolding pb_position_def obind_def total_def ofOption_def r(1,2) option.case prod.case sum.case act ini indexByTerm_nat[OF n]
      r(3)[OF i] tl k(2) computePosition_nat[OF k(1) n T] oret_def ..
qed

text \<open>A rotated publication continues with the next term, if that one has been cleaned.\<close>

lemma pub_inv_rotated:
  assumes inv: "pub_inv a k F pb t0 ss fl n fs T c" and n: "n + 1 < 2 ^ 31" and c': "view c' = rotated a k t0 n (view c)"
  shows "get_le 4 c' (status_addr a k ((n + 2) mod 3)) = NEEDS_CLEANING"
    "frames (term_base (term_part a k F (n mod 3))) ids (view c) 0 gs (2 ^ k) \<Longrightarrow>
     frames (term_base (term_part a k F (n mod 3))) ids (view c') 0 gs (2 ^ k)"
    "get_le 4 c (tail_addr (term_part a k F ((n + 1) mod 3))) = (0 :: int32_t) \<Longrightarrow> pub_inv a k F pb t0 ss fl (n + 1) [] 0 c'"
proof -
  let ?ta = "term_part a k F ((n + 1) mod 3)"
  note r = rotated_reads[where a = a and k = k and ?t0.0 = t0 and n = n and m = "view c"]
  have wf: "wf_publication a k F pb" and ini: "get_le 4 c (log_meta a k + 128) = t0" and hd: "headers a k ss fl (view c)"
    using inv by (simp_all add: pub_inv_def)
  have j: "(n + 1) mod 3 < 3" by simp
  show "get_le 4 c' (status_addr a k ((n + 2) mod 3)) = NEEDS_CLEANING"
    unfolding get_le_def load_def c' r(3) by (simp add: dec_enc del: enc_numeral)
  show "frames (term_base (term_part a k F (n mod 3))) ids (view c') 0 gs (2 ^ k)"
    if "frames (term_base (term_part a k F (n mod 3))) ids (view c) 0 gs (2 ^ k)"
  proof (rule frames_cong[OF that])
    fix x assume x: "x < term_base (term_part a k F (n mod 3)) + int (2 ^ k)"
    have "n mod 3 = 0 \<or> n mod 3 = 1 \<or> n mod 3 = 2" by linarith
    then have "int (n mod 3 * 2 ^ k) + int (2 ^ k) \<le> int (3 * 2 ^ k)" by (elim disjE) simp_all
    then have "x < a + int (3 * 2 ^ k)" using x by (simp only: term_part_def AtomicBuffer_def partition.simps abuf.simps)
    then show "view c' x = view c x" unfolding c' by (rule rotated_below)
  qed
  assume tl: "get_le 4 c (tail_addr ?ta) = (0 :: int32_t)"
  have f: "read_bytes (view c') (hdr_addr a k i + int p) q = read_bytes (view c) (hdr_addr a k i + int p) q"
    if "i < 3" "p + q \<le> 20" for i p q
    unfolding c' by (rule r(7)[OF that])
  have hd': "headers a k ss fl (view c')" using hd f[of _ 12 8] f[of _ 5 1] f[of _ 6 2] by (simp add: headers_def)
  have act: "get_le 4 c' (log_meta a k) = t0 + of_nat (n + 1)" "get_le 4 c' (log_meta a k + 128) = t0"
    "get_le 4 c' (tail_addr ?ta) = (of_nat 0 :: int32_t)"
    using ini tl r(6)[of F] unfolding get_le_def load_def c' r(4,5) by (simp_all add: dec_enc del: enc_numeral of_nat_add)
  have "read_bytes (view c') (hdr_addr a k ((n + 1) mod 3) + 12) 12 = term_ids ss (t0 + of_nat (n + 1))"
  proof -
    have "read_bytes (view c') (hdr_addr a k ((n + 1) mod 3) + 12) (8 + 4) =
        read_bytes (view c') (hdr_addr a k ((n + 1) mod 3) + 12) 8 @ read_bytes (view c') (hdr_addr a k ((n + 1) mod 3) + 12 + int 8) 4"
      by (rule read_bytes_append)
    moreover have "read_bytes (view c') (hdr_addr a k ((n + 1) mod 3) + 12) 8 = ss" using hd' j by (simp only: headers_def)
    moreover have "read_bytes (view c') (hdr_addr a k ((n + 1) mod 3) + 12 + int 8) 4 = enc 4 (t0 + of_nat (n + 1))"
      using r(1) by (simp only: c' add.assoc) simp
    ultimately show ?thesis by (simp add: term_ids_def del: enc_numeral of_nat_add)
  qed
  moreover have "ta_defaultHdr ?ta = hdr_addr a k ((n + 1) mod 3)" by (simp add: term_part_def)
  ultimately have "default_header ?ta (view c') (term_ids ss (t0 + of_nat (n + 1))) fl"
    using hd' j by (simp only: default_header_def headers_def) blast
  moreover have "filled (2 ^ k) 0 = 0" using wf power_k[of k] by (simp add: filled_def wf_publication_def)
  ultimately have "term_inv (2 ^ k) F ?ta (term_ids ss (t0 + of_nat (n + 1))) fl c' [] 0"
    using act(3) term_part_wf[OF wf j] by (simp add: term_inv_def log_inv_def)
  then show "pub_inv a k F pb t0 ss fl (n + 1) [] 0 c'" using wf n act(1,2) hd' by (simp only: pub_inv_def)
qed

lemma newPosition_nat:
  assumes "k \<le> 30" "n < 2 ^ 31" "T < 2 ^ 31" "T' < 2 ^ 31"
  shows "newPosition pb tid i (of_nat T) (of_nat (n * 2 ^ k + T)) (of_nat T') c = Some (Inr (of_nat (n * 2 ^ k + T')), c)"
proof -
  have "0 \<le> sint (of_nat T' :: int32_t)" using sint_of_nat32[OF assms(4)] by simp
  then have "(of_nat T' :: int32_t) \<noteq> TERM_APPENDER_TRIPPED" "(of_nat T' :: int32_t) \<noteq> TERM_APPENDER_FAILED"
    by (auto simp: layout)
  then show ?thesis unfolding newPosition_def by (simp add: scast_of_nat[OF assms(3)] scast_of_nat[OF assms(4)])
qed

text \<open>What an offer comes to.\<close>

datatype offer_outcome = Refused | TooLong | Published | Rotated | Failed

definition offer_outcome :: "nat \<Rightarrow> nat \<Rightarrow> nat \<Rightarrow> nat \<Rightarrow> int \<Rightarrow> nat \<Rightarrow> nat \<Rightarrow> offer_outcome" where
  "offer_outcome k F n T limit len R =
     (if \<not> (T < 2 ^ k \<and> int (n * 2 ^ k + T) < limit) then Refused
      else if F < len + 24 \<and> 2 ^ k div 8 < len then TooLong
      else if T + R + 24 \<le> 2 ^ k then Published
      else if T + 24 \<le> 2 ^ k then Rotated else Failed)"

lemma offer_run:
  assumes inv: "pub_inv a k F pb t0 ss fl n fs T c" and T: "T < 2 ^ 31"
  shows "offer pb sb si len c = (if T < 2 ^ k \<and> int (n * 2 ^ k + T) < limit_of pb c
     then obind (append_message (term_part a k F (n mod 3)) sb si len)
       (newPosition pb (t0 + of_nat n) (n mod 3) (of_nat T) (of_nat (n * 2 ^ k + T))) c
     else Some (Inr (if limit_of pb c > 0 then PUBLICATION_BACK_PRESSURE else PUBLICATION_NOT_CONNECTED), c))"
proof -
  let ?call = "\<lambda>appender. obind (append_message appender sb si len) (\<lambda>nextOffset. oret (nextOffset, ()))"
  show ?thesis
    unfolding offer_def obind_def[of "publish pb ?call ()"] publish_spec[OF inv T]
    by (simp add: obind_def oret_def split: option.splits sum.splits prod.splits del: of_nat_add of_nat_mult)
qed

text \<open>An append that tripped, followed by the rotation.\<close>

lemma tripped_rotates:
  assumes inv: "pub_inv a k F pb t0 ss fl n fs T c" and n: "n + 1 < 2 ^ 31"
    and c1: "term_inv (2 ^ k) F (term_part a k F (n mod 3)) (term_ids ss (t0 + of_nat n)) fl c1 gs T'"
      "\<And>x. outside (2 ^ k) (term_part a k F (n mod 3)) x \<Longrightarrow> view c1 x = view c x"
    and full: "2 ^ k < T' + 24"
  obtains c' where "newPosition pb (t0 + of_nat n) (n mod 3) ct pos TERM_APPENDER_TRIPPED c1 =
      Some (Inr PUBLICATION_BACK_PRESSURE, c')"
    "frames (term_base (term_part a k F (n mod 3))) (term_ids ss (t0 + of_nat n)) (view c') 0 gs (2 ^ k)"
    "get_le 4 c' (status_addr a k ((n + 2) mod 3)) = NEEDS_CLEANING"
    "get_le 4 c (tail_addr (term_part a k F ((n + 1) mod 3))) = (0 :: int32_t) \<Longrightarrow> pub_inv a k F pb t0 ss fl (n + 1) [] 0 c'"
proof -
  have wf: "wf_publication a k F pb" using inv by (simp add: pub_inv_def)
  obtain c' where c': "newPosition pb (t0 + of_nat n) (n mod 3) ct pos TERM_APPENDER_TRIPPED c1 =
      Some (Inr PUBLICATION_BACK_PRESSURE, c')" "view c' = rotated a k t0 n (view c1)"
    by (rule newPosition_tripped[OF wf])
  have "get_le 4 c1 (tail_addr (term_part a k F ((n + 1) mod 3))) = (get_le 4 c (tail_addr (term_part a k F ((n + 1) mod 3))) :: int32_t)"
    unfolding get_le_def load_def by (intro arg_cong[of _ _ dec] read_bytes_cong c1(2) tail_outside) simp_all
  moreover have "frames (term_base (term_part a k F (n mod 3))) (term_ids ss (t0 + of_nat n)) (view c1) 0 gs (2 ^ k)"
    using c1(1) full by (simp add: term_inv_def log_inv_def filled_def)
  ultimately show thesis
    using that c'(1) pub_inv_rotated[OF pub_inv_appended[OF inv c1] n c'(2)] by auto
qed

text \<open>
  C23. Offering a message. At or above the limit, or in a full term, nothing changes and the answer is
  back pressure, or not connected when the limit is not positive; a message that is too long is
  refused. Otherwise, when the message fits into the active term its frames follow those before, and
  the answer is the new position, which \<open>position\<close> then returns too. When it does not fit, the answer
  is back pressure: the first such offer closes the term with padding, makes the next term active,
  with its own term id in its default header and, if that term has been cleaned, empty, and marks
  the one after it for cleaning; a later one on the closed term only advances its tail.
\<close>

theorem offer_publishes:
  assumes inv: "pub_inv a k F pb t0 ss fl n fs T c" and n: "n + 1 < 2 ^ 31"
    and src: "source_of (2 ^ k) (term_part a k F (n mod 3)) sb si bs c"
    and T: "T + sizes (message_frames F fl bs) < 2 ^ 31"
  shows "\<exists>r c'. offer pb sb si (of_nat (length bs)) c = Some (r, c') \<and>
    (case offer_outcome k F n T (limit_of pb c) (length bs) (sizes (message_frames F fl bs)) of
       Refused \<Rightarrow> c' = c \<and> r = Inr (if limit_of pb c > 0 then PUBLICATION_BACK_PRESSURE else PUBLICATION_NOT_CONNECTED)
     | TooLong \<Rightarrow> c' = c \<and> r = Inl IllegalArgumentException
     | Published \<Rightarrow> r = Inr (of_nat (n * 2 ^ k + (T + sizes (message_frames F fl bs)))) \<and>
         pub_inv a k F pb t0 ss fl n (fs @ message_frames F fl bs) (T + sizes (message_frames F fl bs)) c' \<and>
         pb_position pb c' = Some (r, c')
     | Rotated \<Rightarrow> r = Inr PUBLICATION_BACK_PRESSURE \<and>
         frames (term_base (term_part a k F (n mod 3))) (term_ids ss (t0 + of_nat n)) (view c') 0 (fs @ [Padding (2 ^ k - T)]) (2 ^ k) \<and>
         get_le 4 c' (status_addr a k ((n + 2) mod 3)) = NEEDS_CLEANING \<and>
         (get_le 4 c (tail_addr (term_part a k F ((n + 1) mod 3))) = (0 :: int32_t) \<longrightarrow>
           pub_inv a k F pb t0 ss fl (n + 1) [] 0 c')
     | Failed \<Rightarrow> r = Inr PUBLICATION_BACK_PRESSURE \<and>
         pub_inv a k F pb t0 ss fl n fs (T + sizes (message_frames F fl bs)) c')"
proof -
  let ?ta = "term_part a k F (n mod 3)" and ?R = "sizes (message_frames F fl bs)" and ?ids = "term_ids ss (t0 + of_nat n)"
  have wf: "wf_publication a k F pb" and ti: "term_inv (2 ^ k) F ?ta ?ids fl c fs T" using inv by (simp_all add: pub_inv_def)
  then have k: "k \<le> 30" by (simp add: wf_publication_def)
  have T31: "T < 2 ^ 31" and n31: "n < 2 ^ 31" using T n by simp_all
  note am = append_message_spec[OF ti src T]
  note run = offer_run[OF inv T31, of sb si "of_nat (length bs)"]
  show ?thesis
  proof (cases "offer_outcome k F n T (limit_of pb c) (length bs) ?R")
    case Refused
    then show ?thesis unfolding run by (auto simp: offer_outcome_def split: if_splits)
  next
    case TooLong
    then have "T < 2 ^ k \<and> int (n * 2 ^ k + T) < limit_of pb c" "F < length bs + 24 \<and> 2 ^ k div 8 < length bs"
      by (simp_all add: offer_outcome_def split: if_splits)
    then show ?thesis using am TooLong unfolding run by (simp add: obind_def)
  next
    case Published
    then have g: "T < 2 ^ k \<and> int (n * 2 ^ k + T) < limit_of pb c" "length bs + 24 \<le> F \<or> length bs \<le> 2 ^ k div 8" "T + ?R + 24 \<le> 2 ^ k"
      by (auto simp: offer_outcome_def split: if_splits)
    then obtain c' where c': "append_message ?ta sb si (of_nat (length bs)) c = Some (Inr (of_nat (T + ?R)), c')"
      "term_inv (2 ^ k) F ?ta ?ids fl c' (fs @ message_frames F fl bs) (T + ?R)"
      "\<And>x. outside (2 ^ k) ?ta x \<Longrightarrow> view c' x = view c x"
      using am by (auto simp: append_result_def appended_def)
    have "offer pb sb si (of_nat (length bs)) c = Some (Inr (of_nat (n * 2 ^ k + (T + ?R))), c')"
      unfolding run using g(1) c'(1) newPosition_nat[OF k n31 T31 T] by (simp add: obind_def del: of_nat_add of_nat_mult)
    moreover have "pub_inv a k F pb t0 ss fl n (fs @ message_frames F fl bs) (T + ?R) c'"
      by (rule pub_inv_appended[OF inv c'(2,3)])
    ultimately show ?thesis using Published pb_position_spec[of a k F pb t0 ss fl n _ "T + ?R" c'] g(3) by fastforce
  next
    case Rotated
    then have g: "T < 2 ^ k \<and> int (n * 2 ^ k + T) < limit_of pb c" "length bs + 24 \<le> F \<or> length bs \<le> 2 ^ k div 8"
      "\<not> T + ?R + 24 \<le> 2 ^ k" "T + 24 \<le> 2 ^ k" by (auto simp: offer_outcome_def split: if_splits)
    then obtain c1 where c1: "append_message ?ta sb si (of_nat (length bs)) c = Some (Inr TERM_APPENDER_TRIPPED, c1)"
      "term_inv (2 ^ k) F ?ta ?ids fl c1 (fs @ [Padding (2 ^ k - T)]) (T + ?R)"
      "\<And>x. outside (2 ^ k) ?ta x \<Longrightarrow> view c1 x = view c x"
      using am by (auto simp: append_result_def appended_def)
    have full: "2 ^ k < T + ?R + 24" using g(3) by simp
    obtain c' where c': "newPosition pb (t0 + of_nat n) (n mod 3) (of_nat T) (of_nat (n * 2 ^ k + T)) TERM_APPENDER_TRIPPED c1 =
        Some (Inr PUBLICATION_BACK_PRESSURE, c')"
      "frames (term_base ?ta) ?ids (view c') 0 (fs @ [Padding (2 ^ k - T)]) (2 ^ k)"
      "get_le 4 c' (status_addr a k ((n + 2) mod 3)) = NEEDS_CLEANING"
      "get_le 4 c (tail_addr (term_part a k F ((n + 1) mod 3))) = (0 :: int32_t) \<Longrightarrow> pub_inv a k F pb t0 ss fl (n + 1) [] 0 c'"
      by (rule tripped_rotates[OF inv n c1(2,3) full], assumption) (rule that)
    then show ?thesis unfolding run using g(1) c1(1) Rotated by (simp add: obind_def del: of_nat_add of_nat_mult)
  next
    case Failed
    then have g: "T < 2 ^ k \<and> int (n * 2 ^ k + T) < limit_of pb c" "length bs + 24 \<le> F \<or> length bs \<le> 2 ^ k div 8"
      "\<not> T + ?R + 24 \<le> 2 ^ k" "\<not> T + 24 \<le> 2 ^ k" by (auto simp: offer_outcome_def split: if_splits)
    then obtain c' where c': "append_message ?ta sb si (of_nat (length bs)) c = Some (Inr TERM_APPENDER_FAILED, c')"
      "term_inv (2 ^ k) F ?ta ?ids fl c' fs (T + ?R)" "\<And>x. outside (2 ^ k) ?ta x \<Longrightarrow> view c' x = view c x"
      using am by (auto simp: append_result_def appended_def)
    have "offer pb sb si (of_nat (length bs)) c = Some (Inr PUBLICATION_BACK_PRESSURE, c')"
      unfolding run using g(1) c'(1) by (simp add: obind_def newPosition_def layout del: of_nat_add of_nat_mult)
    then show ?thesis using Failed pub_inv_appended[OF inv c'(2,3)] by auto
  qed
qed

section \<open>Constructing a publication\<close>

lemma TermAppender_part:
  assumes k: "16 \<le> k" "k \<le> 30" and F: "24 < F" "F \<le> 2 ^ k" "8 dvd F"
  shows "TermAppender (AtomicBuffer (a + int (i * 2 ^ k)) (of_nat (2 ^ k))) (AtomicBuffer (a + int (3 * 2 ^ k + i * 384)) 384)
    (AtomicBuffer (a + int (3 * 2 ^ k + 1408 + i * 128)) 24) (of_nat F) c = (Inr (term_part a k F i), c)"
proof -
  note p = power_k[OF k]
  have d: "int (2 ^ k) sdiv 8 = int (2 ^ k div 8)" by (simp add: signed_divide_int_def zdiv_int)
  have s: "scast (of_nat (2 ^ k) :: int32_t) = (of_nat (2 ^ k) :: int64_t)" "sint (of_nat (2 ^ k) :: int32_t) = int (2 ^ k)"
    using p by (intro scast_of_nat sint_of_nat32, simp)+
  have ck: "checkTermLength (of_nat (2 ^ k)) c = (Inr (), c)" using checkTermLength_nat[of "2 ^ k" c] p by simp
  have f: "(of_nat F :: int32_t) AND 7 = 0" using F p by (subst and_7_iff) simp_all
  have g: "ab_capacity (AtomicBuffer x v) = v" "ab_data (AtomicBuffer x v) = x" for x v
    by (simp_all add: ab_capacity_def ab_data_def AtomicBuffer_def)
  have "LogBufferPartition (AtomicBuffer (a + int (i * 2 ^ k)) (of_nat (2 ^ k))) (AtomicBuffer (a + int (3 * 2 ^ k + i * 384)) 384) c =
      (Inr \<lparr>lp_termBuffer = AtomicBuffer (a + int (i * 2 ^ k)) (of_nat (2 ^ k)),
            lp_metaDataBuffer = AtomicBuffer (a + int (3 * 2 ^ k + i * 384)) 384\<rparr>, c)"
    unfolding LogBufferPartition_def g s(1) using ck by (simp add: checkMetaDataBuffer_def g layout)
  then show ?thesis
    unfolding TermAppender_def using f F(1)
    by (simp add: g checkHeaderLength_def checkMaxFrameLength_def layout computeMaxMessageLength_def s(2) d term_part_def
        of_nat_diff del: of_nat_power)
qed

lemma makeAppenders_ok:
  assumes "\<And>i. i \<in> set js \<Longrightarrow> TermAppender (atomicBuffer lg i) (atomicBuffer lg (i + 3)) (defaultFrameHeader m (of_nat i)) mtu c =
      (Inr (f i), c)"
  shows "makeAppenders lg m mtu js c = (Inr (map f js), c)"
  using assms
proof (induction js)
  case (Cons i js)
  then have "TermAppender (atomicBuffer lg i) (atomicBuffer lg (i + 3)) (defaultFrameHeader m (of_nat i)) mtu c = (Inr (f i), c)"
    "makeAppenders lg m mtu js c = (Inr (map f js), c)" by simp_all
  then show ?case by simp
qed simp

lemma Publication_init_wf:
  assumes k: "16 \<le> k" "k \<le> 30" and F: "24 < F" "F \<le> 2 ^ k" "8 dvd F"
    and lg: "lg_buffers lg = log_layout a (2 ^ k)" and mtu: "get_le 4 c (log_meta a k + 136) = (of_nat F :: int32_t)"
    and lim: "in_range (bp_buffer lim) (bp_offset lim) 8"
  obtains pb where "Publication_init channel reg stream session lim lg c =
      (Inr pb, put_le 4 c (log_meta a k) (get_le 4 c (log_meta a k + 128) :: int32_t))" "wf_publication a k F pb"
    "pb_publicationLimit pb = lim" "pb_registrationId pb = reg" "pb_streamId pb = stream" "pb_sessionId pb = session"
proof -
  let ?m = "AtomicBuffer (log_meta a k) 640"
  have ix: "unat LOG_META_DATA_SECTION_INDEX = 6" by (simp add: layout)
  have nth: "atomicBuffer lg (unat LOG_META_DATA_SECTION_INDEX) = ?m"
    "atomicBuffer lg 0 = AtomicBuffer (a + int (0 * 2 ^ k)) (of_nat (2 ^ k))"
    "i < 3 \<Longrightarrow> atomicBuffer lg i = AtomicBuffer (a + int (i * 2 ^ k)) (of_nat (2 ^ k))"
    "i < 3 \<Longrightarrow> atomicBuffer lg (i + 3) = AtomicBuffer (a + int (3 * 2 ^ k + i * 384)) 384" for i
    by (simp_all only: atomicBuffer_def lg ix log_layout_nth zero_less_numeral)
  have dh: "defaultFrameHeader ?m (of_nat i) = AtomicBuffer (a + int (3 * 2 ^ k + 1408 + i * 128)) 24" if "i < 3" for i
  proof -
    have "i = 0 \<or> i = 1 \<or> i = 2" using that by auto
    then show ?thesis by (elim disjE) (simp_all add: defaultFrameHeader_def layout ab_data_def AtomicBuffer_def)
  qed
  have ap: "TermAppender (atomicBuffer lg i) (atomicBuffer lg (i + 3)) (defaultFrameHeader ?m (of_nat i)) (of_nat F) c =
      (Inr (term_part a k F i), c)" if "i < 3" for i c
    unfolding nth(3,4)[OF that] dh[OF that] by (rule TermAppender_part[OF k F])
  have mk: "makeAppenders lg ?m (of_nat F) [0, 1, 2] c = (Inr (map (term_part a k F) [0..<3]), c)"
    unfolding upt3 by (rule makeAppenders_ok, rule ap) auto
  note d = in_range_def at_def AtomicBuffer_def layout ab_ok
  have io: "mtuLength ?m c = (Inr (of_nat F), c)" "lb_initialTermId ?m c = (Inr (get_le 4 c (log_meta a k + 128)), c)"
    "set_activeTermId ?m v c = (Inr (), put_le 4 c (log_meta a k) v)" for v
    using mtu by (simp_all add: mtuLength_def lb_initialTermId_def set_activeTermId_def d)
  have tz: "numberOfTrailingZeroes (of_nat (2 ^ k)) = k"
    using numberOfTrailingZeroes_power[of k] k(2) by (simp add: push_bit_eq_mult)
  have cp: "ab_capacity (AtomicBuffer x v) = v" for x v by (simp add: ab_capacity_def AtomicBuffer_def)
  let ?pb = "\<lparr>pb_channel = channel, pb_registrationId = reg, pb_streamId = stream, pb_sessionId = session,
    pb_publicationLimit = lim, pb_logMetaDataBuffer = ?m, pb_appenders = map (term_part a k F) [0..<3],
    pb_positionBitsToShift = of_nat k\<rparr>"
  have "Publication_init channel reg stream session lim lg c =
      (Inr ?pb, put_le 4 c (log_meta a k) (get_le 4 c (log_meta a k + 128) :: int32_t))"
    unfolding Publication_init_def Let_def nth(1,2) cp tz Position_id
    by (subst bind_cases(1), rule io(1), subst bind_cases(1), rule mk, subst bind_cases(1), rule io(2),
        subst bind_cases(3), rule io(3)) (simp only: act_simps)
  then show thesis using k F lim by (intro that[of ?pb]) (simp_all add: wf_publication_def)
qed

section \<open>A concrete publication\<close>

text \<open>Terms of 64 KB at address 0; the limit, at 300000, is one megabyte.\<close>

definition demo_publication :: publication where
  "demo_publication =
     \<lparr>pb_channel = [], pb_registrationId = 1, pb_streamId = 10, pb_sessionId = 200,
      pb_publicationLimit = UnsafeBufferPosition (AtomicBuffer 300000 128) 0, pb_logMetaDataBuffer = AtomicBuffer 197760 640,
      pb_appenders = map (term_part 0 16 4096) [0..<3], pb_positionBitsToShift = 16\<rparr>"

definition demo_log :: cpu where
  "demo_log = put_le 8 (put_le 2 (put_le 2 (put_le 2 blank 198022 (1 :: 16 word)) 198150 (1 :: 16 word)) 198278 (1 :: 16 word))
     300000 (1048576 :: int64_t)"

lemma demo_publication_wf: "wf_publication 0 16 4096 demo_publication"
  by (simp add: wf_publication_def demo_publication_def AtomicBuffer_def in_range_def UnsafeBufferPosition_def counterOffset_def)

lemma view_demo_log: "view demo_log = write_bytes (write_bytes (write_bytes (write_bytes (view blank)
    198022 (enc 2 (1 :: 16 word))) 198150 (enc 2 (1 :: 16 word))) 198278 (enc 2 (1 :: 16 word))) 300000 (enc 8 (1048576 :: int64_t))"
  by (simp only: demo_log_def view_put_le)

lemma demo_log_zero:
  assumes "a + int n \<le> 198022 \<or> 198024 \<le> a \<and> a + int n \<le> 198150 \<or> 198152 \<le> a \<and> a + int n \<le> 198278 \<or>
    198280 \<le> a \<and> a + int n \<le> 300000 \<or> 300008 \<le> a"
  shows "read_bytes (view demo_log) a n = replicate n 0"
proof -
  have "read_bytes (view demo_log) a n = read_bytes (view blank) a n"
    unfolding view_demo_log using assms by (elim disjE; simp add: read_write_disjoint del: enc_numeral)
  then show ?thesis using load_blank[of a n] by (simp add: load_def)
qed

lemma demo_log_type:
  assumes "a = 198022 \<or> a = 198150 \<or> a = 198278"
  shows "dec (read_bytes (view demo_log) a 2) = (1 :: 16 word)"
  unfolding view_demo_log using assms
  by (elim disjE; simp add: read_write_disjoint read_write_same dec_enc del: enc_numeral)

lemma demo_publication_inv: "pub_inv 0 16 4096 demo_publication 0 (replicate 8 0) 0 0 [] 0 demo_log"
proof -
  have three: "(\<forall>i<3. P i) \<longleftrightarrow> P 0 \<and> P 1 \<and> P (2 :: nat)" for P
    by (auto simp: numeral_3_eq_3 numeral_2_eq_2 less_Suc_eq)
  have "headers 0 16 (replicate 8 0) 0 (view demo_log)"
    unfolding headers_def three using demo_log_type[of 198022] demo_log_type[of 198150] demo_log_type[of 198278]
    by (simp add: demo_log_zero)
  moreover have ids: "term_ids (replicate 8 0) 0 = replicate 12 0"
    by (simp add: term_ids_def numeral_eq_Suc)
  have "term_inv (2 ^ 16) 4096 (term_part 0 16 4096 0) (term_ids (replicate 8 0) 0) 0 demo_log [] 0"
    using term_part_wf[OF demo_publication_wf, of 0] demo_log_type[of 198022]
    by (simp add: term_inv_def log_inv_def default_header_def filled_def get_le_def load_def term_part_def AtomicBuffer_def
        demo_log_zero dec_zeros ids)
  ultimately show ?thesis
    using demo_publication_wf by (simp add: pub_inv_def get_le_def load_def demo_log_zero dec_zeros)
qed

theorem offer_publishes_witness:
  "\<exists>c'. offer demo_publication (AtomicBuffer 310000 10000) 0 5000 demo_log = Some (Inr 5048, c') \<and>
     pb_position demo_publication c' = Some (Inr 5048, c')"
proof -
  have sz: "sizes (message_frames 4096 0 (replicate 5000 0)) = 5048"
    using sizes_fragments[of 4072 "replicate 5000 0" BEGIN_FRAG] by (simp add: message_frames_def)
  have lim: "limit_of demo_publication demo_log = 1048576"
    by (simp add: demo_publication_def UnsafeBufferPosition_def counterOffset_def at_def AtomicBuffer_def get_le_def load_def
        view_demo_log read_write_same dec_enc del: enc_numeral)
  have src: "source_of (2 ^ 16) (term_part 0 16 4096 (0 mod 3)) (AtomicBuffer 310000 10000) 0 (replicate 5000 0) demo_log"
    using demo_log_zero[of 310000 5000]
    by (simp add: source_of_def in_range_def AtomicBuffer_def at_def load_def apart_ranges_def term_part_def)
  have out: "offer_outcome 16 4096 0 0 1048576 5000 5048 = Published" by (simp add: offer_outcome_def)
  show ?thesis
    using offer_publishes[OF demo_publication_inv _ src] sz lim out by auto
qed

end
