(* ===== verification/RingBuffer.thy ===== *)
theory RingBuffer
  imports AtomicBuffer BitUtil
begin

text \<open>
  \<^verbatim>\<open>concurrent/ringbuffer\<close> of the Aeron client: \<^verbatim>\<open>RecordDescriptor.h\<close>, \<^verbatim>\<open>RingBufferDescriptor.h\<close> and
  \<^verbatim>\<open>ManyToOneRingBuffer.h\<close>, the queue of variable-length messages through which clients send commands
  to the media driver. The model is that of one thread; the compare-and-set loop that claims space
  and the read loop are partial functions whose value \<open>None\<close> stands for not returning.

  The handler of \<^verbatim>\<open>read\<close> is a parameter: it sees the memory, updates a state of its own, and may throw.
\<close>

section \<open>Record layout\<close>

definition HEADER_LENGTH :: index_t where
  [layout]: "HEADER_LENGTH = 8"

definition ALIGNMENT :: index_t where
  [layout]: "ALIGNMENT = HEADER_LENGTH"

definition PADDING_MSG_TYPE_ID :: int32_t where
  [layout]: "PADDING_MSG_TYPE_ID = -1"

definition lengthOffset :: "index_t \<Rightarrow> index_t" where
  "lengthOffset recordOffset = recordOffset"

definition typeOffset :: "index_t \<Rightarrow> index_t" where
  "typeOffset recordOffset = recordOffset + 4"

definition encodedMsgOffset :: "index_t \<Rightarrow> index_t" where
  "encodedMsgOffset recordOffset = recordOffset + HEADER_LENGTH"

definition checkMsgTypeId :: "int32_t \<Rightarrow> (cpu, unit) act" where
  "checkMsgTypeId msgTypeId = guard (sint msgTypeId < 1) IllegalArgumentException"

definition TAIL_COUNTER_OFFSET :: index_t where
  [layout]: "TAIL_COUNTER_OFFSET = of_nat CACHE_LINE_LENGTH * 2"

definition HEAD_COUNTER_OFFSET :: index_t where
  [layout]: "HEAD_COUNTER_OFFSET = of_nat CACHE_LINE_LENGTH * 4"

definition CORRELATION_COUNTER_OFFSET :: index_t where
  [layout]: "CORRELATION_COUNTER_OFFSET = of_nat CACHE_LINE_LENGTH * 6"

definition CONSUMER_HEARTBEAT_OFFSET :: index_t where
  [layout]: "CONSUMER_HEARTBEAT_OFFSET = of_nat CACHE_LINE_LENGTH * 8"

definition TRAILER_LENGTH :: index_t where
  [layout]: "TRAILER_LENGTH = of_nat CACHE_LINE_LENGTH * 10"

definition checkCapacity :: "index_t \<Rightarrow> exn + unit" where
  "checkCapacity capacity = (if \<not> isPowerOfTwo capacity then Inl IllegalArgumentException else Inr ())"

section \<open>The ring buffer\<close>

record ringbuf =
  rb_buffer :: abuf
  rb_capacity :: index_t
  rb_mask :: index_t
  rb_maxMsgLength :: index_t
  rb_headCounterIndex :: index_t
  rb_tailCounterIndex :: index_t
  rb_correlationIdCounterIndex :: index_t
  rb_consumerHeartbeatIndex :: index_t

definition INSUFFICIENT_CAPACITY :: index_t where
  "INSUFFICIENT_CAPACITY = -2"

definition ManyToOneRingBuffer :: "abuf \<Rightarrow> exn + ringbuf" where
  "ManyToOneRingBuffer buffer =
     (let capacity = ab_capacity buffer - TRAILER_LENGTH
      in case checkCapacity capacity of
           Inl e \<Rightarrow> Inl e
         | Inr _ \<Rightarrow> Inr
             \<lparr>rb_buffer = buffer, rb_capacity = capacity, rb_mask = capacity - 1,
              rb_maxMsgLength = word_of_int (sint capacity sdiv 8),
              rb_headCounterIndex = capacity + HEAD_COUNTER_OFFSET,
              rb_tailCounterIndex = capacity + TAIL_COUNTER_OFFSET,
              rb_correlationIdCounterIndex = capacity + CORRELATION_COUNTER_OFFSET,
              rb_consumerHeartbeatIndex = capacity + CONSUMER_HEARTBEAT_OFFSET\<rparr>)"

definition rb_checkMsgLength :: "ringbuf \<Rightarrow> index_t \<Rightarrow> (cpu, unit) act" where
  "rb_checkMsgLength rb len = guard (sint (rb_maxMsgLength rb) < sint len) IllegalArgumentException"

text \<open>
  The body of the claiming loop, as a function of the tail it read: \<open>None\<close> where it returns
  \<^verbatim>\<open>INSUFFICIENT_CAPACITY\<close>, otherwise the index of the tail and the padding before the record.
\<close>

definition claim_try :: "ringbuf \<Rightarrow> int64_t \<Rightarrow> index_t \<Rightarrow> int64_t \<Rightarrow> (index_t \<times> index_t) option" where
  "claim_try rb head requiredCapacity tail =
     (let headIndex = ucast head AND rb_mask rb;
          availableCapacity = rb_capacity rb - ucast (tail - head);
          tailIndex = ucast tail AND rb_mask rb;
          bufferEndLength = rb_capacity rb - tailIndex
      in if sint availableCapacity < sint requiredCapacity then None
         else if sint bufferEndLength < sint requiredCapacity
         then if sint headIndex < sint requiredCapacity then None
              else Some (tailIndex, bufferEndLength)
         else Some (tailIndex, 0))"

partial_function (option) claim_loop ::
    "ringbuf \<Rightarrow> int64_t \<Rightarrow> index_t \<Rightarrow> cpu \<Rightarrow> ((exn + (index_t \<times> index_t) option) \<times> cpu) option" where
  "claim_loop rb head requiredCapacity c =
     (case ab_getInt64Volatile (rb_buffer rb) (rb_tailCounterIndex rb) c of
        (Inl e, c) \<Rightarrow> Some (Inl e, c)
      | (Inr tail, c) \<Rightarrow>
          (case claim_try rb head requiredCapacity tail of
             None \<Rightarrow> Some (Inr None, c)
           | Some (tailIndex, padding) \<Rightarrow>
               (case ab_compareAndSetInt64 (rb_buffer rb) (rb_tailCounterIndex rb) tail
                       (tail + scast requiredCapacity + scast padding) c of
                  (Inl e, c) \<Rightarrow> Some (Inl e, c)
                | (Inr done, c) \<Rightarrow>
                    if done then Some (Inr (Some (tailIndex, padding)), c)
                    else claim_loop rb head requiredCapacity c)))"

definition rb_pad :: "ringbuf \<Rightarrow> index_t \<Rightarrow> index_t \<Rightarrow> (cpu, index_t) act" where
  "rb_pad rb tailIndex padding =
     (if 0 \<noteq> padding
      then andThen (ab_putInt32 (rb_buffer rb) (lengthOffset tailIndex) (- padding))
        (andThen (poke thread_fence)
        (andThen (ab_putInt32 (rb_buffer rb) (typeOffset tailIndex) PADDING_MSG_TYPE_ID)
        (andThen (ab_putInt32Ordered (rb_buffer rb) (lengthOffset tailIndex) padding)
        (ret 0))))
      else ret tailIndex)"

definition claimCapacity :: "ringbuf \<Rightarrow> index_t \<Rightarrow> cpu \<Rightarrow> ((exn + index_t) \<times> cpu) option" where
  "claimCapacity rb requiredCapacity c =
     (case ab_getInt64Volatile (rb_buffer rb) (rb_headCounterIndex rb) c of
        (Inl e, c) \<Rightarrow> Some (Inl e, c)
      | (Inr head, c) \<Rightarrow>
          (case claim_loop rb head requiredCapacity c of
             None \<Rightarrow> None
           | Some (Inl e, c) \<Rightarrow> Some (Inl e, c)
           | Some (Inr None, c) \<Rightarrow> Some (Inr INSUFFICIENT_CAPACITY, c)
           | Some (Inr (Some (tailIndex, padding)), c) \<Rightarrow> Some (rb_pad rb tailIndex padding c)))"

definition rb_fill :: "ringbuf \<Rightarrow> int32_t \<Rightarrow> abuf \<Rightarrow> index_t \<Rightarrow> index_t \<Rightarrow> index_t \<Rightarrow> (cpu, bool) act" where
  "rb_fill rb msgTypeId srcBuffer srcIndex len recordIndex =
     (let recordLength = len + HEADER_LENGTH
      in if INSUFFICIENT_CAPACITY \<noteq> recordIndex
         then andThen (ab_putInt32 (rb_buffer rb) (lengthOffset recordIndex) (- recordLength))
           (andThen (poke thread_fence)
           (andThen (ab_putBytes (rb_buffer rb) (encodedMsgOffset recordIndex) srcBuffer srcIndex len)
           (andThen (ab_putInt32 (rb_buffer rb) (typeOffset recordIndex) msgTypeId)
           (andThen (ab_putInt32Ordered (rb_buffer rb) (lengthOffset recordIndex) recordLength)
           (ret True)))))
         else ret False)"

definition rb_write ::
    "ringbuf \<Rightarrow> int32_t \<Rightarrow> abuf \<Rightarrow> index_t \<Rightarrow> index_t \<Rightarrow> cpu \<Rightarrow> ((exn + bool) \<times> cpu) option" where
  "rb_write rb msgTypeId srcBuffer srcIndex len c =
     (case andThen (checkMsgTypeId msgTypeId) (rb_checkMsgLength rb len) c of
        (Inl e, c) \<Rightarrow> Some (Inl e, c)
      | (Inr _, c) \<Rightarrow>
          (let recordLength = len + HEADER_LENGTH;
               requiredCapacity = align recordLength ALIGNMENT
           in case claimCapacity rb requiredCapacity c of
                None \<Rightarrow> None
              | Some (Inl e, c) \<Rightarrow> Some (Inl e, c)
              | Some (Inr recordIndex, c) \<Rightarrow>
                  Some (rb_fill rb msgTypeId srcBuffer srcIndex len recordIndex c)))"

type_synonym 'u handler = "int32_t \<Rightarrow> abuf \<Rightarrow> index_t \<Rightarrow> index_t \<Rightarrow> cpu \<Rightarrow> 'u \<Rightarrow> exn + 'u"

text \<open>
  The read loop returns the exception that left it, if any, the bytes and messages read so far and
  the handler's state.
\<close>

partial_function (option) rb_read_loop ::
    "ringbuf \<Rightarrow> 'u handler \<Rightarrow> int32_t \<Rightarrow> int32_t \<Rightarrow> int32_t \<Rightarrow> int32_t \<Rightarrow> int32_t \<Rightarrow> cpu \<Rightarrow> 'u \<Rightarrow>
      (exn option \<times> int32_t \<times> int32_t \<times> 'u) option" where
  "rb_read_loop rb handler limit headIndex contiguousBlockSize bytesRead messagesRead c u =
     (if sint bytesRead < sint contiguousBlockSize \<and> sint messagesRead < sint limit
      then let recordIndex = headIndex + bytesRead
           in case fst (ab_getInt32Volatile (rb_buffer rb) (lengthOffset recordIndex) c) of
                Inl e \<Rightarrow> Some (Some e, bytesRead, messagesRead, u)
              | Inr recordLength \<Rightarrow>
                  if sint recordLength \<le> 0 then Some (None, bytesRead, messagesRead, u)
                  else let bytesRead = bytesRead + align recordLength ALIGNMENT
                       in case fst (ab_getInt32 (rb_buffer rb) (typeOffset recordIndex) c) of
                            Inl e \<Rightarrow> Some (Some e, bytesRead, messagesRead, u)
                          | Inr msgTypeId \<Rightarrow>
                              if PADDING_MSG_TYPE_ID = msgTypeId
                              then rb_read_loop rb handler limit headIndex contiguousBlockSize
                                     bytesRead messagesRead c u
                              else let messagesRead = messagesRead + 1
                                   in case handler msgTypeId (rb_buffer rb) (encodedMsgOffset recordIndex)
                                             (recordLength - HEADER_LENGTH) c u of
                                        Inl e \<Rightarrow> Some (Some e, bytesRead, messagesRead, u)
                                      | Inr u \<Rightarrow> rb_read_loop rb handler limit headIndex
                                                  contiguousBlockSize bytesRead messagesRead c u
      else Some (None, bytesRead, messagesRead, u))"

text \<open>The guard object clears what was read and moves the head, also when the handler throws.\<close>

definition rb_cleanup :: "ringbuf \<Rightarrow> int64_t \<Rightarrow> index_t \<Rightarrow> int32_t \<Rightarrow> (cpu, unit) act" where
  "rb_cleanup rb head headIndex bytesRead =
     andThen (ab_setMemory (rb_buffer rb) headIndex (scast bytesRead) 0)
       (ab_putInt64Ordered (rb_buffer rb) (rb_headCounterIndex rb) (head + scast bytesRead))"

definition rb_read :: "ringbuf \<Rightarrow> 'u handler \<Rightarrow> int32_t \<Rightarrow> cpu \<Rightarrow> 'u \<Rightarrow> ((exn + int32_t) \<times> cpu \<times> 'u) option" where
  "rb_read rb handler messageCountLimit c u =
     (case bind (ab_getInt64Volatile (rb_buffer rb) (rb_tailCounterIndex rb))
             (\<lambda>tail. bind (ab_getInt64Volatile (rb_buffer rb) (rb_headCounterIndex rb))
               (\<lambda>head. ret (tail, head))) c of
        (Inl e, c) \<Rightarrow> Some (Inl e, c, u)
      | (Inr (tail, head), c) \<Rightarrow>
          (let available = ucast (tail - head) :: int32_t
           in if 0 < sint available
              then let headIndex = ucast head AND rb_mask rb;
                       blockEnd = rb_capacity rb - headIndex;
                       contiguousBlockSize = if sint blockEnd < sint available then blockEnd else available
                   in case rb_read_loop rb handler messageCountLimit headIndex contiguousBlockSize 0 0 c u of
                        None \<Rightarrow> None
                      | Some (thrown, bytesRead, messagesRead, u) \<Rightarrow>
                          (case rb_cleanup rb head headIndex bytesRead c of
                             (Inl e, c) \<Rightarrow> Some (Inl e, c, u)
                           | (Inr _, c) \<Rightarrow>
                               Some (case thrown of None \<Rightarrow> Inr messagesRead | Some e \<Rightarrow> Inl e, c, u))
              else Some (Inr 0, c, u)))"

definition rb_readAll :: "ringbuf \<Rightarrow> 'u handler \<Rightarrow> cpu \<Rightarrow> 'u \<Rightarrow> ((exn + int32_t) \<times> cpu \<times> 'u) option" where
  "rb_readAll rb handler = rb_read rb handler 0x7FFFFFFF"

definition nextCorrelationId :: "ringbuf \<Rightarrow> (cpu, int64_t) act" where
  "nextCorrelationId rb = ab_getAndAddInt64 (rb_buffer rb) (rb_correlationIdCounterIndex rb) 1"

definition set_consumerHeartbeatTime :: "ringbuf \<Rightarrow> int64_t \<Rightarrow> (cpu, unit) act" where
  "set_consumerHeartbeatTime rb time = ab_putInt64Ordered (rb_buffer rb) (rb_consumerHeartbeatIndex rb) time"

definition consumerHeartbeatTime :: "ringbuf \<Rightarrow> (cpu, int64_t) act" where
  "consumerHeartbeatTime rb = ab_getInt64Volatile (rb_buffer rb) (rb_consumerHeartbeatIndex rb)"

section \<open>Well-formed ring buffers\<close>

definition wf_ring :: "nat \<Rightarrow> ringbuf \<Rightarrow> bool" where
  "wf_ring k rb \<longleftrightarrow> 5 \<le> k \<and> k \<le> 30 \<and> ab_length (rb_buffer rb) = of_nat (2 ^ k + 640) \<and>
     rb_capacity rb = of_nat (2 ^ k) \<and> rb_mask rb = mask k \<and>
     rb_maxMsgLength rb = of_nat (2 ^ k div 8) \<and>
     rb_headCounterIndex rb = of_nat (2 ^ k + 256) \<and> rb_tailCounterIndex rb = of_nat (2 ^ k + 128) \<and>
     rb_correlationIdCounterIndex rb = of_nat (2 ^ k + 384) \<and>
     rb_consumerHeartbeatIndex rb = of_nat (2 ^ k + 512)"

abbreviation rb_base :: "ringbuf \<Rightarrow> addr" where
  "rb_base rb \<equiv> ab_buffer (rb_buffer rb)"

lemma pow_le30: "k \<le> 30 \<Longrightarrow> (2::nat) ^ k \<le> 1073741824"
  using power_increasing[of k 30 "2::nat"] by simp

lemma wf_ring_index:
  assumes "wf_ring k rb" "off + n \<le> 2 ^ k + 640"
  shows "in_range (rb_buffer rb) (of_nat off) n" "at (rb_buffer rb) (of_nat off) = rb_base rb + int off"
    "sint (of_nat off :: index_t) = int off"
proof -
  have k: "(2::nat) ^ k \<le> 1073741824" using assms(1) by (intro pow_le30) (simp add: wf_ring_def)
  then have "off < 2 ^ 31" using assms(2) by simp
  then show s: "sint (of_nat off :: index_t) = int off" by (rule sint_of_nat32)
  have "(2::nat) ^ k + 640 < 2 ^ 31" using k by simp
  then have "sint (of_nat (2 ^ k + 640) :: index_t) = int (2 ^ k + 640)" by (rule sint_of_nat32)
  then have l: "sint (ab_length (rb_buffer rb)) = int (2 ^ k + 640)"
    using assms(1) unfolding wf_ring_def by metis
  have "int off + int n \<le> int (2 ^ k + 640)" using assms(2) by (metis of_nat_add of_nat_mono)
  then show "in_range (rb_buffer rb) (of_nat off) n" unfolding in_range_def s l by simp
  show "at (rb_buffer rb) (of_nat off) = rb_base rb + int off" by (simp only: at_def s)
qed

definition rb_head :: "ringbuf \<Rightarrow> cpu \<Rightarrow> int64_t" where
  "rb_head rb c = get_le 8 c (at (rb_buffer rb) (rb_headCounterIndex rb))"

definition rb_tail :: "ringbuf \<Rightarrow> cpu \<Rightarrow> int64_t" where
  "rb_tail rb c = get_le 8 c (at (rb_buffer rb) (rb_tailCounterIndex rb))"

lemma rb_counters:
  assumes "wf_ring k rb"
  shows "ab_getInt64Volatile (rb_buffer rb) (rb_headCounterIndex rb) c = (Inr (rb_head rb c), c)"
    "ab_getInt64Volatile (rb_buffer rb) (rb_tailCounterIndex rb) c = (Inr (rb_tail rb c), c)"
    "at (rb_buffer rb) (rb_headCounterIndex rb) = rb_base rb + 2 ^ k + 256"
    "at (rb_buffer rb) (rb_tailCounterIndex rb) = rb_base rb + 2 ^ k + 128"
    "in_range (rb_buffer rb) (rb_headCounterIndex rb) 8" "in_range (rb_buffer rb) (rb_tailCounterIndex rb) 8"
proof -
  have h: "rb_headCounterIndex rb = of_nat (2 ^ k + 256)" "rb_tailCounterIndex rb = of_nat (2 ^ k + 128)"
    using assms by (simp_all only: wf_ring_def)
  have i: "in_range (rb_buffer rb) (of_nat (2 ^ k + 256)) 8" "in_range (rb_buffer rb) (of_nat (2 ^ k + 128)) 8"
    using assms by (intro wf_ring_index, assumption, simp)+
  have a: "at (rb_buffer rb) (of_nat (2 ^ k + 256)) = rb_base rb + int (2 ^ k + 256)"
    "at (rb_buffer rb) (of_nat (2 ^ k + 128)) = rb_base rb + int (2 ^ k + 128)"
    using assms by (intro wf_ring_index[where n = 8], assumption, simp)+
  show "in_range (rb_buffer rb) (rb_headCounterIndex rb) 8" "in_range (rb_buffer rb) (rb_tailCounterIndex rb) 8"
    unfolding h by (fact i)+
  then show "ab_getInt64Volatile (rb_buffer rb) (rb_headCounterIndex rb) c = (Inr (rb_head rb c), c)"
    "ab_getInt64Volatile (rb_buffer rb) (rb_tailCounterIndex rb) c = (Inr (rb_tail rb c), c)"
    by (simp_all add: ab_ok rb_head_def rb_tail_def)
  show "at (rb_buffer rb) (rb_headCounterIndex rb) = rb_base rb + 2 ^ k + 256"
    "at (rb_buffer rb) (rb_tailCounterIndex rb) = rb_base rb + 2 ^ k + 128"
    unfolding h a by simp_all
qed

lemma ManyToOneRingBuffer_wf:
  assumes "ab_length b = of_nat (2 ^ k + 640)" "5 \<le> k" "k \<le> 30" "ManyToOneRingBuffer b = Inr rb"
  shows "wf_ring k rb \<and> rb_buffer rb = b"
proof -
  have c: "ab_length b - 640 = of_nat (2 ^ k)" using assms(1) by simp
  have lt: "(2::nat) ^ k < 2 ^ 31" using pow_le30[OF assms(3)] by simp
  then have s: "sint (of_nat (2 ^ k) :: index_t) = int (2 ^ k)" by (rule sint_of_nat32)
  have "(2 ^ k - 1 :: index_t) = mask k" by (simp add: mask_eq_exp_minus_1)
  moreover have "word_of_int (sint (of_nat (2 ^ k) :: index_t) sdiv 8) = (of_nat (2 ^ k div 8) :: index_t)"
  proof -
    have "int (2 ^ k) sdiv 8 = int (2 ^ k div 8)" by (simp add: signed_divide_int_def zdiv_int)
    then show ?thesis unfolding s by (simp only: of_int_of_nat_eq)
  qed
  ultimately show ?thesis
    using assms c
    by (auto simp: ManyToOneRingBuffer_def Let_def wf_ring_def ab_capacity_def layout split: sum.splits)
qed

section \<open>Records in the ring\<close>

text \<open>
  A record is a message or the padding at the end of the buffer. \<open>chain\<close> describes the records
  that lie between two positions; positions grow for ever and meet the buffer modulo its capacity.
\<close>

datatype rb_rec = Msg int32_t "byte list" | Pad nat

fun rec_length :: "rb_rec \<Rightarrow> nat" where
  "rec_length (Msg t bs) = length bs + 8"
| "rec_length (Pad n) = n"

fun rec_type :: "rb_rec \<Rightarrow> int32_t" where
  "rec_type (Msg t bs) = t"
| "rec_type (Pad n) = -1"

fun rec_data :: "rb_rec \<Rightarrow> byte list" where
  "rec_data (Msg t bs) = bs"
| "rec_data (Pad n) = []"

definition rec_size :: "rb_rec \<Rightarrow> nat" where
  "rec_size r = (rec_length r + 7) div 8 * 8"

fun rec_wf :: "rb_rec \<Rightarrow> bool" where
  "rec_wf (Msg t bs) \<longleftrightarrow> t \<noteq> -1"
| "rec_wf (Pad n) \<longleftrightarrow> 8 \<le> n \<and> 8 dvd n"

definition rec_at :: "nat \<Rightarrow> addr \<Rightarrow> mem \<Rightarrow> nat \<Rightarrow> rb_rec \<Rightarrow> bool" where
  "rec_at k base m off r \<longleftrightarrow> rec_wf r \<and> off + rec_size r \<le> 2 ^ k \<and>
     dec (read_bytes m (base + int off) 4) = (of_nat (rec_length r) :: int32_t) \<and>
     dec (read_bytes m (base + int off + 4) 4) = rec_type r \<and>
     read_bytes m (base + int off + 8) (length (rec_data r)) = rec_data r"

fun chain :: "nat \<Rightarrow> addr \<Rightarrow> mem \<Rightarrow> nat \<Rightarrow> rb_rec list \<Rightarrow> nat \<Rightarrow> bool" where
  "chain k base m p [] q \<longleftrightarrow> p = q"
| "chain k base m p (r # rs) q \<longleftrightarrow> rec_at k base m (p mod 2 ^ k) r \<and> chain k base m (p + rec_size r) rs q"

definition messages :: "rb_rec list \<Rightarrow> (int32_t \<times> byte list) list" where
  "messages rs = concat (map (\<lambda>r. case r of Msg t bs \<Rightarrow> [(t, bs)] | Pad n \<Rightarrow> []) rs)"

definition ring_inv :: "nat \<Rightarrow> ringbuf \<Rightarrow> cpu \<Rightarrow> nat \<Rightarrow> rb_rec list \<Rightarrow> nat \<Rightarrow> bool" where
  "ring_inv k rb c H rs T \<longleftrightarrow> wf_ring k rb \<and> rb_head rb c = of_nat H \<and> rb_tail rb c = of_nat T \<and>
     chain k (rb_base rb) (view c) H rs T \<and> T \<le> H + 2 ^ k \<and> 8 dvd H \<and> 8 dvd T"

lemma messages_simps [simp]:
  "messages [] = []" "messages (Msg t bs # rs) = (t, bs) # messages rs" "messages (Pad n # rs) = messages rs"
  "messages (rs @ rs') = messages rs @ messages rs'"
  by (simp_all add: messages_def)

lemma rec_size_bounds: "rec_length r \<le> rec_size r" "8 dvd rec_size r" "rec_wf r \<Longrightarrow> 8 \<le> rec_size r"
  "rec_wf r \<Longrightarrow> length (rec_data r) + 8 \<le> rec_size r"
proof -
  show 1: "rec_length r \<le> rec_size r" using align_facts(1)[where n = "rec_length r" and k = 3] by (simp add: rec_size_def)
  show "8 dvd rec_size r" by (simp add: rec_size_def)
  show "rec_wf r \<Longrightarrow> 8 \<le> rec_size r" "rec_wf r \<Longrightarrow> length (rec_data r) + 8 \<le> rec_size r"
    using 1 by (cases r; simp)+
qed

lemma rec_size_Pad: "8 dvd n \<Longrightarrow> rec_size (Pad n) = n"
  using align_facts(4)[where n = n and k = 3] by (simp add: rec_size_def)

lemma chain_le: "chain k base m p rs q \<Longrightarrow> p \<le> q"
  by (induction rs arbitrary: p) (auto intro: add_leD1)

lemma chain_append: "chain k base m p rs q \<Longrightarrow> chain k base m q rs' q' \<Longrightarrow> chain k base m p (rs @ rs') q'"
  by (induction rs arbitrary: p) auto

text \<open>Records depend on the bytes of their positions only.\<close>

lemma rec_at_cong:
  assumes "rec_at k base m off r" "\<And>x. base + int off \<le> x \<Longrightarrow> x < base + int (off + rec_size r) \<Longrightarrow> m x = m' x"
  shows "rec_at k base m' off r"
proof -
  have w: "rec_wf r" using assms(1) by (simp add: rec_at_def)
  note b = rec_size_bounds(3,4)[OF w]
  have "read_bytes m (base + int off + int j) n = read_bytes m' (base + int off + int j) n"
    if "j + n \<le> rec_size r" for j n
    using that by (intro read_bytes_cong assms(2)) auto
  from this[of 0 4] this[of 4 4] this[of 8 "length (rec_data r)"] assms(1) b show ?thesis
    by (simp add: rec_at_def)
qed

lemma chain_cong:
  assumes "chain k base m p rs q"
    "\<And>off. (\<exists>j. p \<le> j \<and> j < q \<and> off = j mod 2 ^ k) \<Longrightarrow> m (base + int off) = m' (base + int off)"
  shows "chain k base m' p rs q"
  using assms
proof (induction rs arbitrary: p)
  case Nil
  then show ?case by simp
next
  case (Cons r rs)
  have le: "p + rec_size r \<le> q" using Cons.prems(1) chain_le by auto
  have r: "rec_at k base m (p mod 2 ^ k) r" using Cons.prems(1) by simp
  have "rec_at k base m' (p mod 2 ^ k) r"
  proof (rule rec_at_cong[OF r])
    fix x assume x: "base + int (p mod 2 ^ k) \<le> x" "x < base + int (p mod 2 ^ k + rec_size r)"
    define i where "i = nat (x - base - int (p mod 2 ^ k))"
    have i: "x = base + int (p mod 2 ^ k + i)" "i < rec_size r" using x by (auto simp: i_def)
    have "p mod 2 ^ k + i < 2 ^ k" using i(2) r by (simp add: rec_at_def)
    then have "(p + i) mod 2 ^ k = p mod 2 ^ k + i" by (metis mod_add_left_eq mod_less)
    then show "m x = m' x" using Cons.prems(2)[of "p mod 2 ^ k + i"] i le
      by (metis add_less_cancel_left le_add1 order_less_le_trans)
  qed
  moreover have "chain k base m' (p + rec_size r) rs q"
    using Cons.prems by (intro Cons.IH) (auto, metis add_leD1)
  ultimately show ?case by simp
qed

section \<open>Claiming space\<close>

lemma ucast_of_nat: "(ucast (of_nat T :: int64_t) :: int32_t) = of_nat T"
  by (rule bit_word_eqI) (auto simp: bit_simps)

lemma ucast_index: "(ucast (of_nat T :: int64_t) :: index_t) AND mask k = of_nat (T mod 2 ^ k)"
  by (simp only: ucast_of_nat and_mask_take_bit take_bit_of_nat_word)

lemma mod_wrap:
  fixes H T N R :: nat
  assumes "H \<le> T" "T - H + R \<le> N" "N - T mod N < R" "R \<le> H mod N"
  shows "T + (N - T mod N) + R \<le> H + N"
proof (cases "H mod N + (T - H) < N")
  case True
  then have "T mod N = H mod N + (T - H)"
    using assms(1) by (metis le_add_diff_inverse mod_add_left_eq mod_less)
  then show ?thesis using assms True by linarith
next
  case False
  have lt: "H mod N < N" using assms(2,3) by (cases "N = 0") auto
  have "T mod N = (H mod N + (T - H)) mod N"
    using assms(1) by (metis le_add_diff_inverse mod_add_left_eq)
  also have "\<dots> = H mod N + (T - H) - N"
    using False assms(2) lt le_mod_geq[of N "H mod N + (T - H)"] by simp
  finally show ?thesis using assms False lt by linarith
qed

text \<open>The claim as arithmetic on positions.\<close>

definition claim_spec :: "nat \<Rightarrow> nat \<Rightarrow> nat \<Rightarrow> nat \<Rightarrow> nat option" where
  "claim_spec N H T R =
     (if N - (T - H) < R then None
      else if N - T mod N < R then (if H mod N < R then None else Some (N - T mod N)) else Some 0)"

lemma claim_try_spec:
  assumes "wf_ring k rb" "H \<le> T" "T \<le> H + 2 ^ k" "R \<le> 2 ^ k"
  shows "claim_try rb (of_nat H) (of_nat R) (of_nat T) =
    map_option (\<lambda>pad. (of_nat (T mod 2 ^ k), of_nat pad)) (claim_spec (2 ^ k) H T R)"
proof -
  have k: "(2::nat) ^ k \<le> 1073741824" using assms(1) by (intro pow_le30) (simp add: wf_ring_def)
  have lt: "T mod 2 ^ k < 2 ^ k" "H mod 2 ^ k < 2 ^ k" by simp_all
  have s: "sint (of_nat x :: index_t) = int x" if "x \<le> 2 ^ k" for x
    using that k by (intro sint_of_nat32) simp
  have c: "rb_capacity rb = of_nat (2 ^ k)" "rb_mask rb = mask k" using assms(1) by (simp_all only: wf_ring_def)
  have hi: "ucast (of_nat H :: int64_t) AND rb_mask rb = of_nat (H mod 2 ^ k)"
    and ti: "ucast (of_nat T :: int64_t) AND rb_mask rb = of_nat (T mod 2 ^ k)"
    unfolding c by (rule ucast_index)+
  have "(of_nat T - of_nat H :: int64_t) = of_nat (T - H)" using assms(2) by (simp add: of_nat_diff)
  then have av: "rb_capacity rb - ucast (of_nat T - of_nat H :: int64_t) = of_nat (2 ^ k - (T - H))"
    using assms(2,3) by (simp only: c ucast_of_nat) (subst of_nat_diff, simp_all)
  have be: "rb_capacity rb - of_nat (T mod 2 ^ k) = of_nat (2 ^ k - T mod 2 ^ k)"
    unfolding c using lt(1) by (subst of_nat_diff) simp_all
  have si: "sint (of_nat (2 ^ k - (T - H)) :: index_t) = int (2 ^ k - (T - H))"
    "sint (of_nat (2 ^ k - T mod 2 ^ k) :: index_t) = int (2 ^ k - T mod 2 ^ k)"
    "sint (of_nat (H mod 2 ^ k) :: index_t) = int (H mod 2 ^ k)" "sint (of_nat R :: index_t) = int R"
    using lt assms(4) by (intro s; simp)+
  show ?thesis
    unfolding claim_try_def Let_def hi ti av be si of_nat_less_iff claim_spec_def
    by (simp only: option.map if_distrib[of "map_option f" for f] semiring_1_class.of_nat_0 cong: if_cong)
qed

lemma claim_spec_room:
  assumes "claim_spec N H T R = Some pad" "H \<le> T" "T \<le> H + N" "0 < R"
  shows "T + pad + R \<le> H + N" "(T + pad) mod N + R \<le> N"
    "pad \<noteq> 0 \<Longrightarrow> pad = N - T mod N \<and> (T + pad) mod N = 0"
proof -
  have N: "0 < N" using assms by (auto simp: claim_spec_def split: if_splits)
  have room: "T - H + R \<le> N" using assms by (auto simp: claim_spec_def split: if_splits)
  have t: "T mod N < N" using N by simp
  have "(T + (N - T mod N)) mod N = 0"
    using t by (metis add_diff_inverse_nat mod_add_left_eq mod_self not_less_iff_gr_or_eq order_less_imp_le le_add_diff_inverse)
  then show "T + pad + R \<le> H + N" "(T + pad) mod N + R \<le> N"
    "pad \<noteq> 0 \<Longrightarrow> pad = N - T mod N \<and> (T + pad) mod N = 0"
    using assms room t mod_wrap[OF assms(2) room]
    by (auto simp: claim_spec_def split: if_splits)
qed

lemma cmpxchg64_same:
  assumes "get_le 8 c a = v"
  shows "\<exists>c'. atomic_cmpxchg64 c a v w = (v, c') \<and> view c' = write_bytes (view c) a (enc 8 w)"
proof -
  have "get_le 8 (drain c) a = v" using assms by (simp add: get_le_def load_def mem_simps)
  then show ?thesis by (simp add: atomic_cmpxchg64_def Let_def view_def drain_def)
qed

lemma claim_loop_spec:
  assumes inv: "ring_inv k rb c H rs T" and R: "0 < R" "R \<le> 2 ^ k"
  shows "case claim_spec (2 ^ k) H T R of
      None \<Rightarrow> claim_loop rb (of_nat H) (of_nat R) c = Some (Inr None, c)
    | Some pad \<Rightarrow> \<exists>c'. claim_loop rb (of_nat H) (of_nat R) c =
          Some (Inr (Some (of_nat (T mod 2 ^ k), of_nat pad)), c') \<and>
        view c' = write_bytes (view c) (rb_base rb + 2 ^ k + 128) (enc 8 (of_nat (T + pad + R) :: int64_t))"
proof -
  have wf: "wf_ring k rb" and T: "rb_tail rb c = of_nat T" "H \<le> T" "T \<le> H + 2 ^ k"
    using inv chain_le by (auto simp: ring_inv_def)
  have k: "(2::nat) ^ k \<le> 1073741824" using wf by (intro pow_le30) (simp add: wf_ring_def)
  note attempt = claim_try_spec[OF wf T(2,3) R(2)] and cnt = rb_counters[OF wf]
  show ?thesis
  proof (cases "claim_spec (2 ^ k) H T R")
    case None
    then show ?thesis by (subst claim_loop.simps) (simp add: cnt(2) T attempt)
  next
    case (Some pad)
    have "T + pad + R \<le> H + 2 ^ k" using claim_spec_room(1)[OF Some T(2,3) R(1)] .
    then have p: "pad < 2 ^ 31" "R < 2 ^ 31" using T(2) k R by simp_all
    have w: "(of_nat T + scast (of_nat R :: index_t) + scast (of_nat pad :: index_t) :: int64_t) =
        of_nat (T + pad + R)" using p by (simp add: scast_of_nat)
    obtain c' where c': "atomic_cmpxchg64 c (rb_base rb + 2 ^ k + 128) (of_nat T) (of_nat (T + pad + R)) =
        (of_nat T, c')"
      "view c' = write_bytes (view c) (rb_base rb + 2 ^ k + 128) (enc 8 (of_nat (T + pad + R) :: int64_t))"
      using cmpxchg64_same[of c "rb_base rb + 2 ^ k + 128" "of_nat T" "of_nat (T + pad + R)"] T(1)
      by (auto simp: rb_tail_def cnt(4))
    have "ab_compareAndSetInt64 (rb_buffer rb) (rb_tailCounterIndex rb) (of_nat T) (of_nat (T + pad + R)) c =
        (Inr True, c')"
      using cnt(6) c'(1) by (simp add: ab_compareAndSetInt64_def cnt(4) del: of_nat_add)
    then have "claim_loop rb (of_nat H) (of_nat R) c = Some (Inr (Some (of_nat (T mod 2 ^ k), of_nat pad)), c')"
      using attempt w by (subst claim_loop.simps) (simp add: cnt(2) T(1) Some del: of_nat_add)
    then show ?thesis using Some c'(2) by auto
  qed
qed

section \<open>Writing a record\<close>

lemma rec_fields:
  assumes "wf_ring k rb" "off + rec_size r \<le> 2 ^ k" "rec_wf r"
  shows "at (rb_buffer rb) (lengthOffset (of_nat off)) = rb_base rb + int off"
    "at (rb_buffer rb) (typeOffset (of_nat off)) = rb_base rb + int off + 4"
    "at (rb_buffer rb) (encodedMsgOffset (of_nat off)) = rb_base rb + int off + 8"
    "in_range (rb_buffer rb) (lengthOffset (of_nat off)) 4"
    "in_range (rb_buffer rb) (typeOffset (of_nat off)) 4"
    "in_range (rb_buffer rb) (encodedMsgOffset (of_nat off)) (length (rec_data r))"
proof -
  note b = rec_size_bounds(3,4)[OF assms(3)]
  have e: "typeOffset (of_nat off) = of_nat (off + 4)" "encodedMsgOffset (of_nat off) = of_nat (off + 8)"
    "lengthOffset (of_nat off) = of_nat off"
    by (simp_all add: typeOffset_def encodedMsgOffset_def lengthOffset_def layout)
  show "at (rb_buffer rb) (lengthOffset (of_nat off)) = rb_base rb + int off"
    "at (rb_buffer rb) (typeOffset (of_nat off)) = rb_base rb + int off + 4"
    "at (rb_buffer rb) (encodedMsgOffset (of_nat off)) = rb_base rb + int off + 8"
    using wf_ring_index(2)[OF assms(1), of off 0] wf_ring_index(2)[OF assms(1), of "off + 4" 0]
      wf_ring_index(2)[OF assms(1), of "off + 8" 0] assms(2) b unfolding e by simp_all
  show "in_range (rb_buffer rb) (lengthOffset (of_nat off)) 4"
    "in_range (rb_buffer rb) (typeOffset (of_nat off)) 4"
    "in_range (rb_buffer rb) (encodedMsgOffset (of_nat off)) (length (rec_data r))"
    using assms(2) b unfolding e by (intro wf_ring_index(1)[OF assms(1)]; simp)+
qed

lemma rb_fill_spec:
  fixes t bs
  defines "r \<equiv> Msg t bs"
  assumes wf: "wf_ring k rb" and off: "off + rec_size r \<le> 2 ^ k" and t: "t \<noteq> -1"
    and src: "in_range sb si (length bs)" "load c (at sb si) (length bs) = bs"
      "at sb si + int (length bs) \<le> rb_base rb \<or> rb_base rb + 2 ^ k \<le> at sb si"
  shows "\<exists>c'. rb_fill rb t sb si (of_nat (length bs)) (of_nat off) c = (Inr True, c') \<and>
    rec_at k (rb_base rb) (view c') off r \<and>
    (\<forall>x. x < rb_base rb + int off \<or> rb_base rb + int (off + rec_size r) \<le> x \<longrightarrow> view c' x = view c x)"
proof -
  let ?n = "length bs" and ?b = "rb_buffer rb" and ?a = "rb_base rb + int off"
  have w: "rec_wf r" using t by (simp add: r_def)
  note f = rec_fields[OF wf off w] and b = rec_size_bounds(3,4)[OF w]
  have k: "(2::nat) ^ k \<le> 1073741824" using wf by (intro pow_le30) (simp add: wf_ring_def)
  have n: "?n + 8 \<le> rec_size r" "?n < 2 ^ 31" "off < 2 ^ 31" using b off k by (simp_all add: r_def)
  have rl: "of_nat ?n + HEADER_LENGTH = (of_nat (?n + 8) :: index_t)" by (simp add: layout)
  have ns: "INSUFFICIENT_CAPACITY \<noteq> (of_nat off :: index_t)"
  proof
    assume "INSUFFICIENT_CAPACITY = (of_nat off :: index_t)"
    then have "sint (INSUFFICIENT_CAPACITY) = int off" using sint_of_nat32[OF n(3)] by simp
    then show False by (simp add: INSUFFICIENT_CAPACITY_def)
  qed
  let ?c1 = "put_le 4 c ?a (- of_nat (?n + 8) :: int32_t)"
  have "off + 8 \<le> 2 ^ k" using off n(1) by linarith
  then have "int (off + 8) \<le> int (2 ^ k)" by (simp only: of_nat_le_iff)
  then have oi: "int off + 8 \<le> 2 ^ k" by simp
  have ld: "load ?c1 (at sb si) ?n = bs"
    using src(2,3) oi unfolding load_def view_put_le by (subst read_write_disjoint) auto
  let ?c2 = "emit_bytes ?c1 (?a + 8) bs"
  let ?c4 = "put_le 4 (put_le 4 ?c2 (?a + 4) t) ?a (of_nat (?n + 8) :: int32_t)"
  have fill: "rb_fill rb t sb si (of_nat ?n) (of_nat off) c = (Inr True, ?c4)"
    using f ns src(1) n(2) ld
    by (simp add: rb_fill_def Let_def rl ab_ok thread_fence_def r_def del: of_nat_add)
  have v: "view ?c4 = write_bytes (write_bytes (write_bytes (write_bytes (view c) ?a
      (enc 4 (- of_nat (?n + 8) :: int32_t))) (?a + 8) bs) (?a + 4) (enc 4 t)) ?a (enc 4 (of_nat (?n + 8) :: int32_t))"
    by (simp add: mem_simps del: enc_numeral)
  have "rec_at k (rb_base rb) (view ?c4) off r"
    using w off unfolding rec_at_def v r_def by (simp add: mem_simps dec_enc del: enc_numeral)
  moreover have "view ?c4 x = view c x" if "x < ?a \<or> ?a + int (rec_size r) \<le> x" for x
    using that n(1) unfolding v by (auto simp: write_bytes_def)
  ultimately show ?thesis using fill by auto
qed

lemma rb_pad_spec:
  assumes wf: "wf_ring k rb" and off: "off + n = 2 ^ k" and n: "8 \<le> n" "8 dvd n"
  shows "\<exists>c'. rb_pad rb (of_nat off) (of_nat n) c = (Inr 0, c') \<and>
    rec_at k (rb_base rb) (view c') off (Pad n) \<and>
    (\<forall>x. x < rb_base rb + int off \<or> rb_base rb + int (off + n) \<le> x \<longrightarrow> view c' x = view c x)"
proof -
  let ?b = "rb_buffer rb" and ?a = "rb_base rb + int off"
  have w: "rec_wf (Pad n)" and o: "off + rec_size (Pad n) \<le> 2 ^ k" using n off by (simp_all add: rec_size_Pad)
  note f = rec_fields[OF wf o w]
  have k: "(2::nat) ^ k \<le> 1073741824" using wf by (intro pow_le30) (simp add: wf_ring_def)
  have "sint (of_nat n :: index_t) = int n" using off k by (intro sint_of_nat32) simp
  then have nz: "(of_nat n :: index_t) \<noteq> 0" using n(1) by (metis of_nat_0_eq_iff signed_0 not_numeral_le_zero)
  let ?c3 = "put_le 4 (put_le 4 (put_le 4 c ?a (- of_nat n :: int32_t)) (?a + 4) (-1 :: int32_t)) ?a (of_nat n :: int32_t)"
  have "rb_pad rb (of_nat off) (of_nat n) c = (Inr 0, ?c3)"
    using f nz by (simp add: rb_pad_def ab_ok thread_fence_def layout)
  moreover have v: "view ?c3 = write_bytes (write_bytes (write_bytes (view c) ?a
      (enc 4 (- of_nat n :: int32_t))) (?a + 4) (enc 4 (-1 :: int32_t))) ?a (enc 4 (of_nat n :: int32_t))"
    by (simp add: mem_simps del: enc_numeral)
  moreover have "rec_at k (rb_base rb) (view ?c3) off (Pad n)"
    using w o unfolding rec_at_def v by (simp add: mem_simps dec_enc del: enc_numeral)
  moreover have "view ?c3 x = view c x" if "x < ?a \<or> ?a + int n \<le> x" for x
    using that n(1) unfolding v by (auto simp: write_bytes_def)
  ultimately show ?thesis by auto
qed

lemma chain_frame:
  assumes "chain k base m p rs q" "q \<le> P" "P + S \<le> p + 2 ^ k" "P mod 2 ^ k + S \<le> 2 ^ k"
    "\<And>x. x < base + int (P mod 2 ^ k) \<or> base + int (P mod 2 ^ k + S) \<le> x \<Longrightarrow>
      base \<le> x \<Longrightarrow> x < base + 2 ^ k \<Longrightarrow> m' x = m x"
  shows "chain k base m' p rs q"
proof (rule chain_cong[OF assms(1)])
  let ?N = "(2::nat) ^ k"
  fix off assume "\<exists>j. p \<le> j \<and> j < q \<and> off = j mod ?N"
  then obtain j where j: "p \<le> j" "j < q" "off = j mod ?N" by blast
  have "off < ?N" using j by simp
  then have "int off < int ?N" by (simp only: of_nat_less_iff)
  moreover have "off < P mod ?N \<or> P mod ?N + S \<le> off"
  proof (rule ccontr)
    assume "\<not> (off < P mod ?N \<or> P mod ?N + S \<le> off)"
    then obtain i where i: "off = P mod ?N + i" "i < S"
      by (metis le_add_diff_inverse add_less_cancel_left not_less)
    have "P mod ?N + i < ?N" using i assms(4) by linarith
    then have "(P + i) mod ?N = j mod ?N" using i j by (metis mod_add_left_eq mod_less)
    moreover have "j < P + i" "P + i < j + ?N" using i j assms(2,3) by linarith+
    ultimately show False
      by (metis add_diff_inverse_nat dvd_imp_le less_imp_le_nat linorder_not_less mod_eq_dvd_iff_nat
          nat_add_left_cancel_less zero_less_diff)
  qed
  ultimately show "m (base + int off) = m' (base + int off)"
    using assms(5)[of "base + int off"] by auto
qed

lemma ring_inv_counters:
  assumes "wf_ring k rb" "\<And>x. rb_base rb + 2 ^ k \<le> x \<Longrightarrow> view c' x = view c x"
  shows "rb_head rb c' = rb_head rb c" "rb_tail rb c' = rb_tail rb c"
  using rb_counters(3,4)[OF assms(1)] assms(2)
  by (auto simp: rb_head_def rb_tail_def get_le_def load_def intro!: arg_cong[where f = dec] read_bytes_cong)

lemma record_capacity:
  assumes "wf_ring k rb" "length bs \<le> 2 ^ k div 8"
  shows "align (of_nat (length bs) + HEADER_LENGTH) ALIGNMENT = (of_nat (rec_size (Msg t bs)) :: index_t)"
    "rec_size (Msg t bs) \<le> 2 ^ k" "0 < rec_size (Msg t bs)"
proof -
  let ?n = "length bs"
  have k: "(2::nat) ^ k \<le> 1073741824" using assms(1) by (intro pow_le30) (simp add: wf_ring_def)
  then have n: "?n + 15 < 2 ^ 31" using assms(2) by simp
  have R: "rec_size (Msg t bs) = (?n + 8 + (2 ^ 3 - 1)) div 2 ^ 3 * 2 ^ 3" by (simp add: rec_size_def)
  have "align (of_nat (?n + 8)) (2 ^ 3) = (of_nat (rec_size (Msg t bs)) :: index_t)"
    unfolding R by (rule align_of_nat) (use n in simp_all)
  then show "align (of_nat ?n + HEADER_LENGTH) ALIGNMENT = (of_nat (rec_size (Msg t bs)) :: index_t)"
    by (simp add: layout)
  have "(2::nat) ^ 5 \<le> 2 ^ k" using assms(1) by (intro power_increasing) (auto simp: wf_ring_def)
  then show "rec_size (Msg t bs) \<le> 2 ^ k" using assms(2) by (simp add: rec_size_def)
  show "0 < rec_size (Msg t bs)" using rec_size_bounds(1)[of "Msg t bs"] by simp
qed

lemma claimCapacity_spec:
  assumes inv: "ring_inv k rb c H rs T" and R: "0 < R" "R \<le> 2 ^ k" "8 dvd R"
  shows "case claim_spec (2 ^ k) H T R of
      None \<Rightarrow> claimCapacity rb (of_nat R) c = Some (Inr INSUFFICIENT_CAPACITY, c)
    | Some pad \<Rightarrow> \<exists>c' ps. claimCapacity rb (of_nat R) c = Some (Inr (of_nat ((T + pad) mod 2 ^ k)), c') \<and>
        chain k (rb_base rb) (view c') H (rs @ ps) (T + pad) \<and> messages ps = [] \<and> 8 dvd pad \<and>
        rb_head rb c' = of_nat H \<and> rb_tail rb c' = of_nat (T + pad + R) \<and>
        (\<forall>x. x < rb_base rb \<or> rb_base rb + 2 ^ k + 640 \<le> x \<longrightarrow> view c' x = view c x)"
proof -
  let ?N = "(2::nat) ^ k" and ?B = "rb_base rb"
  have wf: "wf_ring k rb" and T: "rb_head rb c = of_nat H" "rb_tail rb c = of_nat T" "H \<le> T" "T \<le> H + ?N"
    and ch: "chain k ?B (view c) H rs T" and d: "8 dvd H" "8 dvd T"
    using inv chain_le by (auto simp: ring_inv_def)
  have N8: "8 dvd ?N" using le_imp_power_dvd[of 3 k "2::nat"] wf by (simp add: wf_ring_def)
  note cnt = rb_counters[OF wf]
  have cc: "claimCapacity rb (of_nat R) c = (case claim_loop rb (of_nat H) (of_nat R) c of
      None \<Rightarrow> None | Some (Inl e, c) \<Rightarrow> Some (Inl e, c)
    | Some (Inr None, c) \<Rightarrow> Some (Inr INSUFFICIENT_CAPACITY, c)
    | Some (Inr (Some (tailIndex, padding)), c) \<Rightarrow> Some (rb_pad rb tailIndex padding c))"
    by (simp add: claimCapacity_def cnt(1) T(1))
  show ?thesis
  proof (cases "claim_spec ?N H T R")
    case None
    then show ?thesis using claim_loop_spec[OF inv R(1,2)] by (simp add: cc)
  next
    case (Some pad)
    note room = claim_spec_room[OF Some T(3,4) R(1)]
    obtain c1 where c1: "claim_loop rb (of_nat H) (of_nat R) c =
        Some (Inr (Some (of_nat (T mod ?N), of_nat pad)), c1)"
      "view c1 = write_bytes (view c) (?B + 2 ^ k + 128) (enc 8 (of_nat (T + pad + R) :: int64_t))"
      using claim_loop_spec[OF inv R(1,2)] Some by auto
    have ch1: "chain k ?B (view c1) H rs T"
      by (rule chain_frame[OF ch order_refl, of 0]) (use T(4) in \<open>auto simp: c1(2) write_bytes_def\<close>)
    have h1: "rb_head rb c1 = of_nat H" "rb_tail rb c1 = of_nat (T + pad + R)"
      using T(1) by (simp_all add: rb_head_def rb_tail_def cnt(3,4) get_le_def load_def c1(2) mem_simps dec_enc
          del: enc_numeral of_nat_add)
    have pos: "(0::int) < 2 ^ k" by simp
    have out1: "view c1 x = view c x" if "x < ?B \<or> ?B + 2 ^ k + 640 \<le> x" for x
      using that pos unfolding c1(2) by (intro write_bytes_outside) (simp only: length_enc, linarith)
    show ?thesis
    proof (cases "pad = 0")
      case True
      then have "claimCapacity rb (of_nat R) c = Some (Inr (of_nat ((T + pad) mod ?N)), c1)"
        using c1(1) by (simp add: cc rb_pad_def)
      then show ?thesis using Some True ch1 h1 out1 by (auto intro!: exI[of _ c1] exI[of _ "[]"])
    next
      case False
      then have pad: "T mod ?N + pad = ?N" "(T + pad) mod ?N = 0" using room(3) by auto
      have p8: "8 dvd pad"
        using pad(1) N8 d(2) by (metis dvd_add_right_iff dvd_mod)
      then have "8 \<le> pad" using False by (auto dest: dvd_imp_le)
      from rb_pad_spec[OF wf pad(1) this p8] obtain c2 where
        c2: "rb_pad rb (of_nat (T mod ?N)) (of_nat pad) c1 = (Inr 0, c2)"
          "rec_at k ?B (view c2) (T mod ?N) (Pad pad)"
          "\<And>x. x < ?B + int (T mod ?N) \<or> ?B + int (T mod ?N + pad) \<le> x \<Longrightarrow> view c2 x = view c1 x"
        by blast
      have Nint: "?B + int (T mod ?N + pad) = ?B + 2 ^ k" unfolding pad(1) by simp
      have "chain k ?B (view c2) H rs T"
        by (rule chain_frame[OF ch1 order_refl, of pad]) (use room(1) pad(1) c2(3) in auto)
      then have ch2: "chain k ?B (view c2) H (rs @ [Pad pad]) (T + pad)"
        using c2(2) p8 by (intro chain_append) (auto simp: rec_size_Pad)
      have "view c2 x = view c1 x" if "?B + 2 ^ k \<le> x" for x using c2(3) that unfolding Nint by blast
      note h2 = ring_inv_counters[OF wf this]
      have "view c2 x = view c x" if "x < ?B \<or> ?B + 2 ^ k + 640 \<le> x" for x
        using c2(3)[of x] out1[of x] that unfolding Nint by force
      then show ?thesis
        using Some c1(1) c2(1) ch2 h1 h2 p8
        by (auto simp: cc pad(2) intro!: exI[of _ c2] exI[of _ "[Pad pad]"])
    qed
  qed
qed

lemma rb_write_spec:
  assumes inv: "ring_inv k rb c H rs T" and t: "1 \<le> sint t" and len: "length bs \<le> 2 ^ k div 8"
    and src: "in_range sb si (length bs)" "load c (at sb si) (length bs) = bs"
      "at sb si + int (length bs) \<le> rb_base rb \<or> rb_base rb + 2 ^ k + 640 \<le> at sb si"
  shows "case claim_spec (2 ^ k) H T (rec_size (Msg t bs)) of
      None \<Rightarrow> rb_write rb t sb si (of_nat (length bs)) c = Some (Inr False, c)
    | Some pad \<Rightarrow> \<exists>c' rs' T'. rb_write rb t sb si (of_nat (length bs)) c = Some (Inr True, c') \<and>
        ring_inv k rb c' H (rs @ rs') T' \<and> messages rs' = [(t, bs)]"
proof -
  let ?N = "(2::nat) ^ k" and ?B = "rb_base rb" and ?n = "length bs" and ?R = "rec_size (Msg t bs)"
  have wf: "wf_ring k rb" and T: "H \<le> T" "T \<le> H + ?N" and d: "8 dvd H" "8 dvd T"
    using inv chain_le by (auto simp: ring_inv_def)
  note R = record_capacity[OF wf len, of t] and R8 = rec_size_bounds(2)[of "Msg t bs"]
  have k: "?N \<le> 1073741824" using wf by (intro pow_le30) (simp add: wf_ring_def)
  have "sint (rb_maxMsgLength rb) = int (?N div 8)"
    using wf k sint_of_nat32[of "?N div 8"] by (simp add: wf_ring_def del: of_nat_power)
  moreover have "sint (of_nat ?n :: index_t) = int ?n" using len k by (intro sint_of_nat32) simp
  ultimately have chk: "andThen (checkMsgTypeId t) (rb_checkMsgLength rb (of_nat ?n)) c = (Inr (), c)"
    using t len by (simp add: checkMsgTypeId_def rb_checkMsgLength_def) 
  have w: "rb_write rb t sb si (of_nat ?n) c = (case claimCapacity rb (of_nat ?R) c of
      None \<Rightarrow> None | Some (Inl e, c) \<Rightarrow> Some (Inl e, c)
    | Some (Inr recordIndex, c) \<Rightarrow> Some (rb_fill rb t sb si (of_nat ?n) recordIndex c))"
    by (simp add: rb_write_def chk R(1) Let_def)
  show ?thesis
  proof (cases "claim_spec ?N H T ?R")
    case None
    then show ?thesis using claimCapacity_spec[OF inv R(3,2) R8] by (simp add: w rb_fill_def Let_def)
  next
    case (Some pad)
    note room = claim_spec_room[OF Some T R(3)]
    obtain c1 ps where c1: "claimCapacity rb (of_nat ?R) c = Some (Inr (of_nat ((T + pad) mod ?N)), c1)"
      "chain k ?B (view c1) H (rs @ ps) (T + pad)" "messages ps = []" "8 dvd pad"
      "rb_head rb c1 = of_nat H" "rb_tail rb c1 = of_nat (T + pad + ?R)"
      "\<And>x. x < ?B \<or> ?B + 2 ^ k + 640 \<le> x \<Longrightarrow> view c1 x = view c x"
      using claimCapacity_spec[OF inv R(3,2) R8] Some by auto
    have "load c1 (at sb si) ?n = load c (at sb si) ?n"
      unfolding load_def using src(3) by (intro read_bytes_cong c1(7)) auto
    then have ld: "load c1 (at sb si) ?n = bs" using src(2) by simp
    have ap: "at sb si + int ?n \<le> ?B \<or> ?B + 2 ^ k \<le> at sb si" using src(3) by auto
    have "t \<noteq> -1" using t by auto
    from rb_fill_spec[OF wf room(2) this src(1) ld ap] obtain c2 where
      c2: "rb_fill rb t sb si (of_nat ?n) (of_nat ((T + pad) mod ?N)) c1 = (Inr True, c2)"
        "rec_at k ?B (view c2) ((T + pad) mod ?N) (Msg t bs)"
        "\<And>x. x < ?B + int ((T + pad) mod ?N) \<or> ?B + int ((T + pad) mod ?N + ?R) \<le> x \<Longrightarrow> view c2 x = view c1 x"
      by blast
    have "int ((T + pad) mod ?N + ?R) \<le> int ?N" using room(2) by (simp only: of_nat_le_iff)
    then have "view c2 x = view c1 x" if "?B + 2 ^ k \<le> x" for x using that by (intro c2(3)) auto
    note h2 = ring_inv_counters[OF wf this]
    have "chain k ?B (view c2) H (rs @ ps) (T + pad)"
      using room c2(3) by (intro chain_frame[OF c1(2) order_refl]) auto
    then have "chain k ?B (view c2) H ((rs @ ps) @ [Msg t bs]) (T + pad + ?R)"
      using c2(2) by (intro chain_append[where q = "T + pad" and rs = "rs @ ps"]) auto
    then have "ring_inv k rb c2 H (rs @ (ps @ [Msg t bs])) (T + pad + ?R)"
      using wf h2 c1 room d R8 by (simp add: ring_inv_def)
    moreover have "rb_write rb t sb si (of_nat ?n) c = Some (Inr True, c2)" by (simp add: w c1(1) c2(1))
    moreover have "messages (ps @ [Msg t bs]) = [(t, bs)]" using c1(3) by simp
    ultimately show ?thesis using Some by auto
  qed
qed

section \<open>Reading records\<close>

text \<open>The handler that records every message it is given.\<close>

definition collect :: "(int32_t \<times> byte list) list handler" where
  "collect msgTypeId b index len c u = Inr (u @ [(msgTypeId, load c (at b index) (size_of len))])"

definition sizes :: "rb_rec list \<Rightarrow> nat" where
  "sizes rs = sum_list (map rec_size rs)"

lemma chain_sizes: "chain k base m p rs q \<Longrightarrow> q = p + sizes rs"
  by (induction rs arbitrary: p) (fastforce simp: sizes_def)+

lemma sizes_dvd: "8 dvd sizes rs"
  by (induction rs) (auto simp: sizes_def rec_size_bounds(2))

lemma chain_empty: "chain k base m p rs p \<Longrightarrow> rs = []"
proof (cases rs)
  case (Cons r rs')
  assume "chain k base m p rs p"
  then have "rec_wf r" "chain k base m (p + rec_size r) rs' p" using Cons by (auto simp: rec_at_def)
  with chain_le[OF this(2)] show ?thesis using rec_size_bounds(3)[of r] by simp
qed

lemma length_messages_le: "8 * length (messages rs) \<le> sizes rs"
proof (induction rs)
  case (Cons r rs)
  then show ?case using rec_size_bounds(1)[of r] by (cases r) (auto simp: sizes_def)
qed (simp add: sizes_def)

lemma rb_read_loop_spec:
  assumes wf: "wf_ring k rb" and "chain k (rb_base rb) (view c) (H + B) rs T"
    and "K = min (T - H) (2 ^ k - H mod 2 ^ k)" "B \<le> K" "8 * n \<le> B"
  shows "\<exists>done rest. rs = done @ rest \<and> B + sizes done \<le> K \<and>
    rb_read_loop rb collect limit (of_nat (H mod 2 ^ k)) (of_nat K) (of_nat B) (of_nat n) c u =
      Some (None, of_nat (B + sizes done), of_nat (n + length (messages done)), u @ messages done) \<and>
    (B + sizes done = K \<or> sint limit \<le> int (n + length (messages done)))"
  using assms(2-)
proof (induction rs arbitrary: B n u)
  case Nil
  have "B = T - H" using Nil by simp
  then have "B = K" using Nil by simp
  then show ?case by (subst rb_read_loop.simps) (auto simp: sizes_def)
next
  case (Cons r rs)
  let ?N = "(2::nat) ^ k" and ?h = "H mod 2 ^ k" and ?B = "rb_base rb"
  have k: "?N \<le> 1073741824" using wf by (intro pow_le30) (simp add: wf_ring_def)
  have hN: "?h < ?N" by simp
  have KN: "K \<le> ?N" "K + ?h \<le> ?N" using Cons.prems(2) hN by linarith+
  have s: "sint (of_nat x :: int32_t) = int x" if "x \<le> ?N" for x using that k by (intro sint_of_nat32) simp
  have n8: "n \<le> ?N" using Cons.prems KN by linarith
  show ?case
  proof (cases "B < K \<and> int n < sint limit")
    case False
    then have "B = K \<or> sint limit \<le> int n" using Cons.prems(3) by auto
    moreover have "rb_read_loop rb collect limit (of_nat ?h) (of_nat K) (of_nat B) (of_nat n) c u =
        Some (None, of_nat B, of_nat n, u)"
      using False s[of B] s[of K] s[OF n8] Cons.prems(3) KN by (subst rb_read_loop.simps) auto
    ultimately show ?thesis using Cons.prems(3) by (intro exI[of _ "[]"] exI[of _ "r # rs"]) (auto simp: sizes_def)
  next
    case True
    have rc: "rec_at k ?B (view c) ((H + B) mod ?N) r" and ch: "chain k ?B (view c) (H + (B + rec_size r)) rs T"
      using Cons.prems(1) by (simp_all add: add.assoc)
    have "?h + B < ?N" using True KN by linarith
    then have off: "(H + B) mod ?N = ?h + B" by (metis mod_add_left_eq mod_less)
    have fits: "?h + B + rec_size r \<le> ?N" using rc by (simp add: rec_at_def off)
    have rw: "rec_wf r" using rc by (simp add: rec_at_def)
    note f = rec_fields[OF wf fits rw] and b = rec_size_bounds[of r]
    have T': "H + (B + rec_size r) \<le> T" using chain_le[OF ch] .
    have "B + rec_size r \<le> T - H" "B + rec_size r \<le> ?N - ?h" using T' fits by linarith+
    then have BK: "B + rec_size r \<le> K" using Cons.prems(2) by simp
    let ?L = "of_nat (rec_length r) :: int32_t"
    have rl: "rec_length r \<le> ?N" "0 < rec_length r" using b(1) fits rw by (cases r; simp)+
    have idx: "(of_nat ?h + of_nat B :: index_t) = of_nat (?h + B)" by simp
    have g1: "ab_getInt32Volatile (rb_buffer rb) (lengthOffset (of_nat (?h + B))) c = (Inr ?L, c)"
      and g2: "ab_getInt32 (rb_buffer rb) (typeOffset (of_nat (?h + B))) c = (Inr (rec_type r), c)"
      using f rc by (simp_all add: ab_ok get_le_def load_def rec_at_def off)
    have al: "of_nat B + align ?L ALIGNMENT = (of_nat (B + rec_size r) :: int32_t)"
      using align_of_nat[of "rec_length r" 3] rl(1) k by (simp add: rec_size_def layout)
    have LB: "int B < int K" "\<not> sint ?L \<le> 0" using True s[OF rl(1)] rl(2) by auto
    have cond: "sint (of_nat B :: int32_t) < sint (of_nat K :: int32_t) \<and> sint (of_nat n :: int32_t) < sint limit"
      using True s[of B] s[of K] s[OF n8] KN by auto
    have nx: "8 * n \<le> B + rec_size r" "8 * Suc n \<le> B + rec_size r" using Cons.prems(4) b(3)[OF rw] by auto
    show ?thesis
    proof (cases r)
      case (Pad m)
      then have "PADDING_MSG_TYPE_ID = rec_type r" by (simp add: layout)
      then have "rb_read_loop rb collect limit (of_nat ?h) (of_nat K) (of_nat B) (of_nat n) c u =
          rb_read_loop rb collect limit (of_nat ?h) (of_nat K) (of_nat (B + rec_size r)) (of_nat n) c u"
        using cond LB(2)
        by (subst rb_read_loop.simps) (simp only: if_True Let_def idx g1 g2 fst_conv sum.case al if_False simp_thms)
      with Cons.IH[OF ch Cons.prems(2) BK nx(1), of u] Pad show ?thesis
        by (elim exE conjE) (rule exI[of _ "r # ds" for ds], auto simp: sizes_def add.assoc)
    next
      case (Msg t bs)
      have ln: "length bs < 2 ^ 31" using rl(1) k Msg by simp
      have "?L - HEADER_LENGTH = of_nat (length bs)" using Msg by (simp add: layout)
      then have col: "collect (rec_type r) (rb_buffer rb) (encodedMsgOffset (of_nat (?h + B))) (?L - HEADER_LENGTH) c u =
          Inr (u @ [(t, bs)])"
        using f(3) rc Msg by (simp add: collect_def size_of_nat[OF ln] load_def rec_at_def off)
      have "PADDING_MSG_TYPE_ID \<noteq> rec_type r" using rw Msg by (auto simp: layout)
      then have "rb_read_loop rb collect limit (of_nat ?h) (of_nat K) (of_nat B) (of_nat n) c u =
          rb_read_loop rb collect limit (of_nat ?h) (of_nat K) (of_nat (B + rec_size r)) (of_nat n + 1) c (u @ [(t, bs)])"
        using cond LB(2) g2
        by (subst rb_read_loop.simps) (simp only: if_True Let_def idx g1 g2 fst_conv sum.case al if_False col simp_thms)
      moreover have "(of_nat n + 1 :: int32_t) = of_nat (Suc n)" by simp
      ultimately have "rb_read_loop rb collect limit (of_nat ?h) (of_nat K) (of_nat B) (of_nat n) c u =
          rb_read_loop rb collect limit (of_nat ?h) (of_nat K) (of_nat (B + rec_size r)) (of_nat (Suc n)) c (u @ [(t, bs)])"
        by (simp only:)
      with Cons.IH[OF ch Cons.prems(2) BK nx(2), of "u @ [(t, bs)]"] Msg show ?thesis
        by (elim exE conjE) (rule exI[of _ "r # ds" for ds], auto simp: sizes_def add.assoc)
    qed
  qed
qed

lemma rb_cleanup_spec:
  assumes inv: "ring_inv k rb c H (ds @ rest) T" and fit: "H mod 2 ^ k + sizes ds \<le> 2 ^ k"
  shows "\<exists>c'. rb_cleanup rb (of_nat H) (of_nat (H mod 2 ^ k)) (of_nat (sizes ds)) c = (Inr (), c') \<and>
    ring_inv k rb c' (H + sizes ds) rest T"
proof -
  let ?N = "(2::nat) ^ k" and ?B = "rb_base rb" and ?b = "rb_buffer rb" and ?S = "sizes ds" and ?h = "H mod 2 ^ k"
  have wf: "wf_ring k rb" and T: "rb_tail rb c = of_nat T" "T \<le> H + ?N" and d: "8 dvd H" "8 dvd T"
    and ch: "chain k ?B (view c) H (ds @ rest) T"
    using inv by (auto simp: ring_inv_def)
  have k: "?N \<le> 1073741824" using wf by (intro pow_le30) (simp add: wf_ring_def)
  note cnt = rb_counters[OF wf]
  have S: "?S < 2 ^ 31" using fit k by simp
  have r: "in_range ?b (of_nat ?h) ?S" "at ?b (of_nat ?h) = ?B + int ?h"
    using fit by (intro wf_ring_index(1)[OF wf] wf_ring_index(2)[OF wf, of _ ?S]; simp)+
  let ?c1 = "emit_bytes c (?B + int ?h) (replicate ?S 0)"
  let ?c2 = "put_le 8 ?c1 (?B + 2 ^ k + 256) (of_nat (H + ?S) :: int64_t)"
  have cl: "rb_cleanup rb (of_nat H) (of_nat ?h) (of_nat ?S) c = (Inr (), ?c2)"
    using ab_bytes_ok(3)[OF r(1) S] cnt(3,5) r(2)
    by (simp add: rb_cleanup_def scast_of_nat[OF S] ab_ok)
  have v: "view ?c2 = write_bytes (write_bytes (view c) (?B + int ?h) (replicate ?S 0)) (?B + 2 ^ k + 256)
      (enc 8 (of_nat (H + ?S) :: int64_t))"
    by (simp add: mem_simps del: enc_numeral of_nat_add)
  have fi: "int ?h + int ?S \<le> 2 ^ k" using fit by (metis of_nat_add of_nat_le_iff of_nat_numeral of_nat_power)
  have ch': "chain k ?B (view c) (H + ?S) rest T"
    using ch
  proof (induction ds arbitrary: H)
    case (Cons d ds)
    then show ?case using Cons.IH[of "H + rec_size d"] by (simp add: sizes_def add.assoc)
  qed (simp add: sizes_def)
  have "chain k ?B (view ?c2) (H + ?S) rest T"
  proof (rule chain_frame[OF ch', of "H + ?N" ?S])
    fix x assume "x < ?B + int ((H + ?N) mod ?N) \<or> ?B + int ((H + ?N) mod ?N + ?S) \<le> x"
      "?B \<le> x" "x < ?B + 2 ^ k"
    then show "view ?c2 x = view c x" unfolding v by (auto simp: write_bytes_def)
  qed (use T fit in auto)
  moreover have "rb_head rb ?c2 = of_nat (H + ?S)"
    by (simp add: rb_head_def cnt(3) get_le_def load_def v mem_simps dec_enc del: enc_numeral of_nat_add)
  moreover have "rb_tail rb ?c2 = rb_tail rb c"
    using fi by (simp add: rb_tail_def cnt(4) get_le_def load_def v mem_simps del: enc_numeral of_nat_add)
  moreover have "8 dvd ?S" by (rule sizes_dvd)
  ultimately have "ring_inv k rb ?c2 (H + ?S) rest T"
    using wf T d by (simp add: ring_inv_def)
  with cl show ?thesis by blast
qed

text \<open>
  C14. Reading a ring buffer hands the handler the oldest messages, in order, each with the type and
  the bytes it was written with, returns their number, and removes exactly them; at most the limit is
  read, and if anything is queued and the limit is positive some record is consumed. The read stops
  at the end of the buffer, so it may consume only the padding there and return 0.
\<close>

theorem rb_read_fifo:
  assumes inv: "ring_inv k rb c H rs T"
  shows "\<exists>ds rest c'. rs = ds @ rest \<and>
    rb_read rb collect limit c u = Some (Inr (of_nat (length (messages ds))), c', u @ messages ds) \<and>
    ring_inv k rb c' (H + sizes ds) rest T \<and> messages rs = messages ds @ messages rest \<and>
    (rs \<noteq> [] \<and> 0 < sint limit \<longrightarrow> ds \<noteq> [])"
proof -
  let ?N = "(2::nat) ^ k" and ?B = "rb_base rb" and ?h = "H mod 2 ^ k"
  have wf: "wf_ring k rb" and T: "rb_head rb c = of_nat H" "rb_tail rb c = of_nat T" "H \<le> T" "T \<le> H + ?N"
    and ch: "chain k ?B (view c) H rs T"
    using inv chain_le by (auto simp: ring_inv_def)
  have k: "?N \<le> 1073741824" using wf by (intro pow_le30) (simp add: wf_ring_def)
  note cnt = rb_counters[OF wf]
  have av: "(ucast (of_nat T - of_nat H :: int64_t) :: int32_t) = of_nat (T - H)"
    using T(3) ucast_of_nat[of "T - H"] by (simp add: of_nat_diff)
  have sav: "sint (of_nat (T - H) :: int32_t) = int (T - H)" using T k by (intro sint_of_nat32) simp
  show ?thesis
  proof (cases "T = H")
    case True
    then have "rs = []" using ch chain_empty by blast
    moreover have "rb_read rb collect limit c u = Some (Inr 0, c, u)"
      using True av by (simp add: rb_read_def cnt T)
    ultimately show ?thesis using inv by (auto simp: sizes_def)
  next
    case False
    let ?K = "min (T - H) (?N - ?h)"
    have hN: "?h < ?N" by simp
    have "rb_capacity rb = of_nat ?N" "rb_mask rb = mask k" using wf by (simp_all only: wf_ring_def)
    then have hi: "ucast (of_nat H :: int64_t) AND rb_mask rb = (of_nat ?h :: index_t)"
      "rb_capacity rb - of_nat ?h = of_nat (?N - ?h)"
      using hN by (simp_all only: ucast_index) (subst of_nat_diff, simp_all)
    have "sint (of_nat (?N - ?h) :: int32_t) = int (?N - ?h)" using k by (intro sint_of_nat32) simp
    then have blk: "(if sint (of_nat (?N - ?h) :: int32_t) < sint (of_nat (T - H) :: int32_t)
        then of_nat (?N - ?h) else of_nat (T - H)) = (of_nat ?K :: int32_t)"
      unfolding sav by (simp only: of_nat_less_iff min_def) (auto split: if_splits)
    have ch0: "chain k ?B (view c) (H + 0) rs T" using ch by simp
    obtain ds rest where l: "rs = ds @ rest" "sizes ds \<le> ?K"
      "rb_read_loop rb collect limit (of_nat ?h) (of_nat ?K) (of_nat 0) (of_nat 0) c u =
         Some (None, of_nat (sizes ds), of_nat (length (messages ds)), u @ messages ds)"
      "sizes ds = ?K \<or> sint limit \<le> int (length (messages ds))"
      using rb_read_loop_spec[OF wf ch0 refl, of 0 limit u] by auto
    have fit: "?h + sizes ds \<le> ?N" using l(2) hN by linarith
    obtain c' where cl: "rb_cleanup rb (of_nat H) (of_nat ?h) (of_nat (sizes ds)) c = (Inr (), c')"
      "ring_inv k rb c' (H + sizes ds) rest T"
      using rb_cleanup_spec[OF inv[unfolded l(1)] fit] by blast
    have "0 < sint (of_nat (T - H) :: int32_t)" unfolding sav using False T(3) by simp
    then have "rb_read rb collect limit c u = Some (Inr (of_nat (length (messages ds))), c', u @ messages ds)"
      using l(3) cl(1) by (simp add: rb_read_def cnt T(1,2) av hi blk del: of_nat_diff)
    moreover have "ds \<noteq> []" if "0 < sint limit"
    proof
      assume "ds = []"
      then have "?K = 0" using l(4) that by (simp add: sizes_def)
      moreover have "0 < ?K" using False T(3) hN by (simp only: min_less_iff_conj zero_less_diff) auto
      ultimately show False by simp
    qed
    ultimately show ?thesis using l(1) cl(2) by auto
  qed
qed

text \<open>
  C15. Writing to a ring buffer appends exactly the given message, or returns false and leaves the
  buffer as it was when there is no room; the claiming loop always returns. Room is decided by the
  free bytes and by the contiguous space before and after the wrap.
\<close>

theorem rb_write_appends:
  assumes inv: "ring_inv k rb c H rs T" and t: "1 \<le> sint t" and len: "length bs \<le> 2 ^ k div 8"
    and src: "in_range sb si (length bs)" "load c (at sb si) (length bs) = bs"
      "at sb si + int (length bs) \<le> rb_base rb \<or> rb_base rb + 2 ^ k + 640 \<le> at sb si"
  shows "\<exists>ok c' rs' T'. rb_write rb t sb si (of_nat (length bs)) c = Some (Inr ok, c') \<and>
    ring_inv k rb c' H (rs @ rs') T' \<and> messages rs' = (if ok then [(t, bs)] else []) \<and>
    (ok \<longleftrightarrow> claim_spec (2 ^ k) H T (rec_size (Msg t bs)) \<noteq> None)"
proof (cases "claim_spec (2 ^ k) H T (rec_size (Msg t bs))")
  case None
  then have "rb_write rb t sb si (of_nat (length bs)) c = Some (Inr False, c)"
    using rb_write_spec[OF assms] by simp
  moreover have "ring_inv k rb c H (rs @ []) T" using inv by simp
  ultimately show ?thesis using None by (metis messages_simps(1))
next
  case (Some pad)
  then show ?thesis using rb_write_spec[OF assms] by force
qed

text \<open>A zeroed buffer of 4096 bytes and its trailer is an empty ring buffer.\<close>

definition demo_abuf :: abuf where
  "demo_abuf = AtomicBuffer 8192 4736"

definition demo_ring :: ringbuf where
  "demo_ring = (case ManyToOneRingBuffer demo_abuf of Inr rb \<Rightarrow> rb | Inl e \<Rightarrow> undefined)"

lemma demo_ring_eq: "ManyToOneRingBuffer demo_abuf = Inr demo_ring"
  by (simp add: demo_ring_def ManyToOneRingBuffer_def Let_def demo_abuf_def AtomicBuffer_def ab_capacity_def layout
      checkCapacity_def isPowerOfTwo_def)

lemma demo_ring_wf: "wf_ring 12 demo_ring" "rb_buffer demo_ring = demo_abuf"
  using ManyToOneRingBuffer_wf[OF _ _ _ demo_ring_eq, of 12] by (simp_all add: demo_abuf_def AtomicBuffer_def)

lemma demo_ring_inv: "ring_inv 12 demo_ring blank 0 [] 0"
  using demo_ring_wf(1) by (simp add: ring_inv_def rb_head_def rb_tail_def get_le_def load_blank dec_zeros)

theorem rb_write_appends_witness:
  "\<exists>c' rs' T'. rb_write demo_ring 5 (AtomicBuffer 0 64) 0 3 blank = Some (Inr True, c') \<and>
    ring_inv 12 demo_ring c' 0 rs' T' \<and> messages rs' = [(5, [0, 0, 0])]"
proof -
  have "in_range (AtomicBuffer 0 64) 0 (length [0, 0, 0 :: byte])"
    "at (AtomicBuffer 0 64) 0 + int (length [0, 0, 0 :: byte]) \<le> rb_base demo_ring"
    by (simp_all add: in_range_def AtomicBuffer_def at_def demo_ring_wf(2) demo_abuf_def)
  moreover have "load blank (at (AtomicBuffer 0 64) 0) (length [0, 0, 0 :: byte]) = [0, 0, 0]"
    by (simp add: load_blank)
  moreover have "claim_spec (2 ^ 12) 0 0 (rec_size (Msg 5 [0, 0, 0])) \<noteq> None"
    by (simp add: claim_spec_def rec_size_def)
  moreover have "(1::int) \<le> sint (5 :: int32_t)" "length [0, 0, 0 :: byte] \<le> 2 ^ 12 div 8"
    "(of_nat (length [0, 0, 0 :: byte]) :: index_t) = 3" by simp_all
  ultimately show ?thesis
    using rb_write_appends[OF demo_ring_inv, of 5 "[0, 0, 0]" "AtomicBuffer 0 64" 0] by (metis append_Nil)
qed

theorem rb_read_fifo_witness:
  "\<exists>c'. rb_read demo_ring collect 10 blank [] = Some (Inr 0, c', [])"
  using rb_read_fifo[OF demo_ring_inv, of 10 "[]"] by auto

end
