(* ===== verification/Command.thy ===== *)
theory Command
  imports AtomicBuffer
begin

text \<open>
  The flyweights of \<^verbatim>\<open>command/*.h\<close>: views of the control messages between clients and media driver.
  A flyweight is the address of a packed structure laid over a buffer; its scalar fields are read
  and written there unchecked, its strings go through the bounds-checked accessors of the buffer.
\<close>

named_theorems events "message types of the control protocol"

section \<open>Flyweight\<close>

record flyweight =
  fw_struct :: addr
  fw_buffer :: abuf
  fw_baseOffset :: index_t

definition Flyweight :: "nat \<Rightarrow> abuf \<Rightarrow> index_t \<Rightarrow> (cpu, flyweight) act" where
  "Flyweight sz buffer offset =
     bind (overlayStruct sz buffer offset) (\<lambda>a. ret \<lparr>fw_struct = a, fw_buffer = buffer, fw_baseOffset = offset\<rparr>)"

definition stringGet :: "'a flyweight_scheme \<Rightarrow> index_t \<Rightarrow> (cpu, byte list) act" where
  "stringGet fw offset = ab_getStringUtf8 (fw_buffer fw) (fw_baseOffset fw + offset)"

definition stringGetLength :: "'a flyweight_scheme \<Rightarrow> index_t \<Rightarrow> (cpu, int32_t) act" where
  "stringGetLength fw offset = ab_getStringUtf8Length (fw_buffer fw) (fw_baseOffset fw + offset)"

definition stringPut :: "'a flyweight_scheme \<Rightarrow> index_t \<Rightarrow> byte list \<Rightarrow> (cpu, index_t) act" where
  "stringPut fw offset v = ab_putStringUtf8 (fw_buffer fw) (fw_baseOffset fw + offset) v"

definition stringPutWithoutLength :: "'a flyweight_scheme \<Rightarrow> index_t \<Rightarrow> byte list \<Rightarrow> (cpu, index_t) act" where
  "stringPutWithoutLength fw offset v = ab_putStringUtf8WithoutLength (fw_buffer fw) (fw_baseOffset fw + offset) v"

definition stringGetWithoutLength :: "'a flyweight_scheme \<Rightarrow> index_t \<Rightarrow> int32_t \<Rightarrow> (cpu, byte list) act" where
  "stringGetWithoutLength fw offset n =
     ab_getStringUtf8WithoutLength (fw_buffer fw) (fw_baseOffset fw + offset) (scast n)"

definition fw_overlayStruct :: "nat \<Rightarrow> 'a flyweight_scheme \<Rightarrow> index_t \<Rightarrow> (cpu, addr) act" where
  "fw_overlayStruct sz fw offset = overlayStruct sz (fw_buffer fw) (fw_baseOffset fw + offset)"

text \<open>A member of a structure: its size and its offset in the structure.\<close>

definition struct_get :: "nat \<Rightarrow> addr \<Rightarrow> int \<Rightarrow> (cpu, 'a::len word) act" where
  "struct_get n a off = peek (\<lambda>c. get_le n c (a + off))"

definition struct_put :: "nat \<Rightarrow> addr \<Rightarrow> int \<Rightarrow> 'a::len word \<Rightarrow> (cpu, unit) act" where
  "struct_put n a off v = poke (\<lambda>c. put_le n c (a + off) v)"

section \<open>CorrelatedMessageFlyweight\<close>

text \<open>The structure is packed: 8 bytes of client and 8 bytes of correlation identifier.\<close>

definition CORRELATED_MESSAGE_LENGTH :: "index_t" where [layout]:
  "CORRELATED_MESSAGE_LENGTH = 16"

definition CorrelatedMessageFlyweight :: "abuf \<Rightarrow> index_t \<Rightarrow> (cpu, flyweight) act" where
  "CorrelatedMessageFlyweight = Flyweight 16"

text \<open>The classes derived from it lay their own structure over the same bytes.\<close>

record derived_flyweight = flyweight +
  dw_struct :: addr

definition derived :: "nat \<Rightarrow> abuf \<Rightarrow> index_t \<Rightarrow> (cpu, derived_flyweight) act" where
  "derived sz buffer offset =
     bind (CorrelatedMessageFlyweight buffer offset) (\<lambda>fw. bind (fw_overlayStruct sz fw 0) (\<lambda>a.
       ret \<lparr>fw_struct = fw_struct fw, fw_buffer = fw_buffer fw, fw_baseOffset = fw_baseOffset fw, dw_struct = a\<rparr>))"

definition corr_correlationId :: "'a flyweight_scheme \<Rightarrow> (cpu, int64_t) act" where
  "corr_correlationId fw = struct_get 8 (fw_struct fw) 8"

definition corr_set_correlationId :: "'a flyweight_scheme \<Rightarrow> int64_t \<Rightarrow> (cpu, unit) act" where
  "corr_set_correlationId fw v = struct_put 8 (fw_struct fw) 8 v"

definition corr_clientId :: "'a flyweight_scheme \<Rightarrow> (cpu, int64_t) act" where
  "corr_clientId fw = struct_get 8 (fw_struct fw) 0"

definition corr_set_clientId :: "'a flyweight_scheme \<Rightarrow> int64_t \<Rightarrow> (cpu, unit) act" where
  "corr_set_clientId fw v = struct_put 8 (fw_struct fw) 0 v"

section \<open>PublicationMessageFlyweight\<close>

text \<open>Stream identifier at 16, channel length at 20, channel at 24; with its alignment the structure has 28 bytes.\<close>

definition PublicationMessageFlyweight :: "abuf \<Rightarrow> index_t \<Rightarrow> (cpu, derived_flyweight) act" where
  "PublicationMessageFlyweight = derived 28"

definition pub_streamId :: "derived_flyweight \<Rightarrow> (cpu, int32_t) act" where
  "pub_streamId fw = struct_get 4 (dw_struct fw) 16"

definition pub_set_streamId :: "derived_flyweight \<Rightarrow> int32_t \<Rightarrow> (cpu, unit) act" where
  "pub_set_streamId fw v = struct_put 4 (dw_struct fw) 16 v"

definition pub_channel :: "derived_flyweight \<Rightarrow> (cpu, byte list) act" where
  "pub_channel fw = stringGet fw 20"

definition pub_set_channel :: "derived_flyweight \<Rightarrow> byte list \<Rightarrow> (cpu, unit) act" where
  "pub_set_channel fw v = bind (stringPut fw 20 v) (\<lambda>_. ret ())"

definition pub_length :: "derived_flyweight \<Rightarrow> (cpu, index_t) act" where
  "pub_length fw = bind (struct_get 4 (dw_struct fw) 20) (\<lambda>n. ret (24 + n))"

section \<open>RemoveMessageFlyweight\<close>

text \<open>Registration identifier at 16.\<close>

definition RemoveMessageFlyweight :: "abuf \<Rightarrow> index_t \<Rightarrow> (cpu, derived_flyweight) act" where
  "RemoveMessageFlyweight = derived 24"

definition rem_registrationId :: "derived_flyweight \<Rightarrow> (cpu, int64_t) act" where
  "rem_registrationId fw = struct_get 8 (dw_struct fw) 16"

definition rem_set_registrationId :: "derived_flyweight \<Rightarrow> int64_t \<Rightarrow> (cpu, unit) act" where
  "rem_set_registrationId fw v = struct_put 8 (dw_struct fw) 16 v"

definition rem_length :: "index_t" where
  "rem_length = 24"

section \<open>SubscriptionMessageFlyweight\<close>

text \<open>Registration correlation identifier at 16, stream identifier at 24, channel length at 28, channel at 32.\<close>

definition SubscriptionMessageFlyweight :: "abuf \<Rightarrow> index_t \<Rightarrow> (cpu, derived_flyweight) act" where
  "SubscriptionMessageFlyweight = derived 36"

definition sub_registrationCorrelationId :: "derived_flyweight \<Rightarrow> (cpu, int64_t) act" where
  "sub_registrationCorrelationId fw = struct_get 8 (dw_struct fw) 16"

definition sub_set_registrationCorrelationId :: "derived_flyweight \<Rightarrow> int64_t \<Rightarrow> (cpu, unit) act" where
  "sub_set_registrationCorrelationId fw v = struct_put 8 (dw_struct fw) 16 v"

definition sub_streamId :: "derived_flyweight \<Rightarrow> (cpu, int32_t) act" where
  "sub_streamId fw = struct_get 4 (dw_struct fw) 24"

definition sub_set_streamId :: "derived_flyweight \<Rightarrow> int32_t \<Rightarrow> (cpu, unit) act" where
  "sub_set_streamId fw v = struct_put 4 (dw_struct fw) 24 v"

definition sub_channel :: "derived_flyweight \<Rightarrow> (cpu, byte list) act" where
  "sub_channel fw = stringGet fw 28"

definition sub_set_channel :: "derived_flyweight \<Rightarrow> byte list \<Rightarrow> (cpu, unit) act" where
  "sub_set_channel fw v = bind (stringPut fw 28 v) (\<lambda>_. ret ())"

definition sub_length :: "derived_flyweight \<Rightarrow> (cpu, index_t) act" where
  "sub_length fw = bind (struct_get 4 (dw_struct fw) 28) (\<lambda>n. ret (32 + n))"

section \<open>PublicationBuffersReadyFlyweight\<close>

text \<open>Correlation identifier at 0, session at 8, stream at 12, position limit counter at 16, log file name at 20.\<close>

definition PublicationBuffersReadyFlyweight :: "abuf \<Rightarrow> index_t \<Rightarrow> (cpu, flyweight) act" where
  "PublicationBuffersReadyFlyweight = Flyweight 28"

definition pubready_correlationId :: "flyweight \<Rightarrow> (cpu, int64_t) act" where
  "pubready_correlationId fw = struct_get 8 (fw_struct fw) 0"

definition pubready_set_correlationId :: "flyweight \<Rightarrow> int64_t \<Rightarrow> (cpu, unit) act" where
  "pubready_set_correlationId fw v = struct_put 8 (fw_struct fw) 0 v"

definition pubready_sessionId :: "flyweight \<Rightarrow> (cpu, int32_t) act" where
  "pubready_sessionId fw = struct_get 4 (fw_struct fw) 8"

definition pubready_set_sessionId :: "flyweight \<Rightarrow> int32_t \<Rightarrow> (cpu, unit) act" where
  "pubready_set_sessionId fw v = struct_put 4 (fw_struct fw) 8 v"

definition pubready_streamId :: "flyweight \<Rightarrow> (cpu, int32_t) act" where
  "pubready_streamId fw = struct_get 4 (fw_struct fw) 12"

definition pubready_set_streamId :: "flyweight \<Rightarrow> int32_t \<Rightarrow> (cpu, unit) act" where
  "pubready_set_streamId fw v = struct_put 4 (fw_struct fw) 12 v"

definition pubready_positionLimitCounterId :: "flyweight \<Rightarrow> (cpu, int32_t) act" where
  "pubready_positionLimitCounterId fw = struct_get 4 (fw_struct fw) 16"

definition pubready_set_positionLimitCounterId :: "flyweight \<Rightarrow> int32_t \<Rightarrow> (cpu, unit) act" where
  "pubready_set_positionLimitCounterId fw v = struct_put 4 (fw_struct fw) 16 v"

definition pubready_logFileName :: "flyweight \<Rightarrow> (cpu, byte list) act" where
  "pubready_logFileName fw = stringGet fw 20"

definition pubready_set_logFileName :: "flyweight \<Rightarrow> byte list \<Rightarrow> (cpu, unit) act" where
  "pubready_set_logFileName fw v = bind (stringPut fw 20 v) (\<lambda>_. ret ())"

definition pubready_length :: "flyweight \<Rightarrow> (cpu, index_t) act" where
  "pubready_length fw = bind (struct_get 4 (fw_struct fw) 20) (\<lambda>n. ret (24 + n))"

section \<open>ImageMessageFlyweight\<close>

text \<open>Correlation identifier at 0, session at 8, stream at 12, position at 16, channel at 24.\<close>

definition ImageMessageFlyweight :: "abuf \<Rightarrow> index_t \<Rightarrow> (cpu, flyweight) act" where
  "ImageMessageFlyweight = Flyweight 32"

definition img_correlationId :: "flyweight \<Rightarrow> (cpu, int64_t) act" where
  "img_correlationId fw = struct_get 8 (fw_struct fw) 0"

definition img_set_correlationId :: "flyweight \<Rightarrow> int64_t \<Rightarrow> (cpu, unit) act" where
  "img_set_correlationId fw v = struct_put 8 (fw_struct fw) 0 v"

definition img_sessionId :: "flyweight \<Rightarrow> (cpu, int32_t) act" where
  "img_sessionId fw = struct_get 4 (fw_struct fw) 8"

definition img_set_sessionId :: "flyweight \<Rightarrow> int32_t \<Rightarrow> (cpu, unit) act" where
  "img_set_sessionId fw v = struct_put 4 (fw_struct fw) 8 v"

definition img_streamId :: "flyweight \<Rightarrow> (cpu, int32_t) act" where
  "img_streamId fw = struct_get 4 (fw_struct fw) 12"

definition img_set_streamId :: "flyweight \<Rightarrow> int32_t \<Rightarrow> (cpu, unit) act" where
  "img_set_streamId fw v = struct_put 4 (fw_struct fw) 12 v"

definition img_position :: "flyweight \<Rightarrow> (cpu, int64_t) act" where
  "img_position fw = struct_get 8 (fw_struct fw) 16"

definition img_set_position :: "flyweight \<Rightarrow> int64_t \<Rightarrow> (cpu, unit) act" where
  "img_set_position fw v = struct_put 8 (fw_struct fw) 16 v"

definition img_channel :: "flyweight \<Rightarrow> (cpu, byte list) act" where
  "img_channel fw = stringGet fw 24"

definition img_set_channel :: "flyweight \<Rightarrow> byte list \<Rightarrow> (cpu, unit) act" where
  "img_set_channel fw v = bind (stringPut fw 24 v) (\<lambda>_. ret ())"

definition img_length :: "flyweight \<Rightarrow> (cpu, index_t) act" where
  "img_length fw = bind (struct_get 4 (fw_struct fw) 24) (\<lambda>n. ret (28 + n))"

section \<open>ErrorResponseFlyweight\<close>

text \<open>Offending correlation identifier at 0, error code at 8, error message at 12.\<close>

definition ERROR_CODE_GENERIC_ERROR :: "int32_t" where
  "ERROR_CODE_GENERIC_ERROR = 0"

definition ERROR_CODE_INVALID_CHANNEL :: "int32_t" where
  "ERROR_CODE_INVALID_CHANNEL = 1"

definition ERROR_CODE_UNKNOWN_SUBSCRIPTION :: "int32_t" where
  "ERROR_CODE_UNKNOWN_SUBSCRIPTION = 2"

definition ERROR_CODE_UNKNOWN_PUBLICATION :: "int32_t" where
  "ERROR_CODE_UNKNOWN_PUBLICATION = 3"

definition ErrorResponseFlyweight :: "abuf \<Rightarrow> index_t \<Rightarrow> (cpu, flyweight) act" where
  "ErrorResponseFlyweight = Flyweight 20"

definition err_offendingCommandCorrelationId :: "flyweight \<Rightarrow> (cpu, int64_t) act" where
  "err_offendingCommandCorrelationId fw = struct_get 8 (fw_struct fw) 0"

definition err_errorCode :: "flyweight \<Rightarrow> (cpu, int32_t) act" where
  "err_errorCode fw = struct_get 4 (fw_struct fw) 8"

definition err_errorMessage :: "flyweight \<Rightarrow> (cpu, byte list) act" where
  "err_errorMessage fw = stringGet fw 12"

definition err_length :: "flyweight \<Rightarrow> (cpu, index_t) act" where
  "err_length fw = bind (struct_get 4 (fw_struct fw) 12) (\<lambda>n. ret (16 + n))"

section \<open>ImageBuffersReadyFlyweight\<close>

text \<open>Correlation identifier at 0, joining position at 8, session at 16, stream at 20, length of a position block at 24, count of the position blocks at 28; then the blocks of 12 bytes each, the log file name and the source identity.\<close>

definition ImageBuffersReadyFlyweight :: "abuf \<Rightarrow> index_t \<Rightarrow> (cpu, flyweight) act" where
  "ImageBuffersReadyFlyweight = Flyweight 32"

definition imgready_correlationId :: "flyweight \<Rightarrow> (cpu, int64_t) act" where
  "imgready_correlationId fw = struct_get 8 (fw_struct fw) 0"

definition imgready_set_correlationId :: "flyweight \<Rightarrow> int64_t \<Rightarrow> (cpu, unit) act" where
  "imgready_set_correlationId fw v = struct_put 8 (fw_struct fw) 0 v"

definition imgready_joiningPosition :: "flyweight \<Rightarrow> (cpu, int64_t) act" where
  "imgready_joiningPosition fw = struct_get 8 (fw_struct fw) 8"

definition imgready_set_joiningPosition :: "flyweight \<Rightarrow> int64_t \<Rightarrow> (cpu, unit) act" where
  "imgready_set_joiningPosition fw v = struct_put 8 (fw_struct fw) 8 v"

definition imgready_sessionId :: "flyweight \<Rightarrow> (cpu, int32_t) act" where
  "imgready_sessionId fw = struct_get 4 (fw_struct fw) 16"

definition imgready_set_sessionId :: "flyweight \<Rightarrow> int32_t \<Rightarrow> (cpu, unit) act" where
  "imgready_set_sessionId fw v = struct_put 4 (fw_struct fw) 16 v"

definition imgready_streamId :: "flyweight \<Rightarrow> (cpu, int32_t) act" where
  "imgready_streamId fw = struct_get 4 (fw_struct fw) 20"

definition imgready_set_streamId :: "flyweight \<Rightarrow> int32_t \<Rightarrow> (cpu, unit) act" where
  "imgready_set_streamId fw v = struct_put 4 (fw_struct fw) 20 v"

definition imgready_subscriberPositionCount :: "flyweight \<Rightarrow> (cpu, int32_t) act" where
  "imgready_subscriberPositionCount fw = struct_get 4 (fw_struct fw) 28"

definition imgready_set_subscriberPositionCount :: "flyweight \<Rightarrow> int32_t \<Rightarrow> (cpu, unit) act" where
  "imgready_set_subscriberPositionCount fw v = andThen (struct_put 4 (fw_struct fw) 24 (12 :: int32_t)) (struct_put 4 (fw_struct fw) 28 v)"

record subscriber_position =
  sp_indicatorId :: int32_t
  sp_registrationId :: int64_t

definition subscriberPositionOffset :: "int32_t \<Rightarrow> index_t" where
  "subscriberPositionOffset index = 32 + index * 12"

definition imgready_set_subscriberPosition :: "flyweight \<Rightarrow> int32_t \<Rightarrow> subscriber_position \<Rightarrow> (cpu, unit) act" where
  "imgready_set_subscriberPosition fw index v =
     bind (fw_overlayStruct 12 fw (subscriberPositionOffset index)) (\<lambda>a.
       andThen (struct_put 4 a 0 (sp_indicatorId v)) (struct_put 8 a 4 (sp_registrationId v)))"

definition imgready_subscriberPosition :: "flyweight \<Rightarrow> int32_t \<Rightarrow> (cpu, subscriber_position) act" where
  "imgready_subscriberPosition fw index =
     bind (fw_overlayStruct 12 fw (subscriberPositionOffset index)) (\<lambda>a.
     bind (struct_get 4 a 0) (\<lambda>i. bind (struct_get 8 a 4) (\<lambda>r.
       ret \<lparr>sp_indicatorId = i, sp_registrationId = r\<rparr>)))"

definition imgready_subscriberPositions :: "flyweight \<Rightarrow> (cpu, addr) act" where
  "imgready_subscriberPositions fw = fw_overlayStruct 12 fw (subscriberPositionOffset 0)"

definition logFileNameOffset :: "flyweight \<Rightarrow> (cpu, index_t) act" where
  "logFileNameOffset fw = bind (imgready_subscriberPositionCount fw) (\<lambda>n. ret (subscriberPositionOffset n))"

definition sourceIdentityOffset :: "flyweight \<Rightarrow> (cpu, index_t) act" where
  "sourceIdentityOffset fw =
     bind (logFileNameOffset fw) (\<lambda>start. bind (stringGetLength fw start) (\<lambda>n. ret (start + n + 4)))"

definition imgready_logFileName :: "flyweight \<Rightarrow> (cpu, byte list) act" where
  "imgready_logFileName fw = bind (logFileNameOffset fw) (stringGet fw)"

definition imgready_set_logFileName :: "flyweight \<Rightarrow> byte list \<Rightarrow> (cpu, unit) act" where
  "imgready_set_logFileName fw v =
     bind (logFileNameOffset fw) (\<lambda>start. bind (stringPut fw start v) (\<lambda>_. ret ()))"

definition imgready_sourceIdentity :: "flyweight \<Rightarrow> (cpu, byte list) act" where
  "imgready_sourceIdentity fw = bind (sourceIdentityOffset fw) (stringGet fw)"

definition imgready_set_sourceIdentity :: "flyweight \<Rightarrow> byte list \<Rightarrow> (cpu, unit) act" where
  "imgready_set_sourceIdentity fw v =
     bind (sourceIdentityOffset fw) (\<lambda>start. bind (stringPut fw start v) (\<lambda>_. ret ()))"

definition imgready_length :: "flyweight \<Rightarrow> (cpu, index_t) act" where
  "imgready_length fw =
     bind (sourceIdentityOffset fw) (\<lambda>start. bind (stringGetLength fw start) (\<lambda>n. ret (start + n + 4)))"

section \<open>ControlProtocolEvents\<close>

text \<open>The types of the messages.\<close>

definition ADD_PUBLICATION :: "int32_t" where [events]:
  "ADD_PUBLICATION = 1"

definition REMOVE_PUBLICATION :: "int32_t" where [events]:
  "REMOVE_PUBLICATION = 2"

definition ADD_SUBSCRIPTION :: "int32_t" where [events]:
  "ADD_SUBSCRIPTION = 4"

definition REMOVE_SUBSCRIPTION :: "int32_t" where [events]:
  "REMOVE_SUBSCRIPTION = 5"

definition CLIENT_KEEPALIVE :: "int32_t" where [events]:
  "CLIENT_KEEPALIVE = 6"

definition ON_ERROR :: "int32_t" where [events]:
  "ON_ERROR = 0xF01"

definition ON_IMAGE_READY :: "int32_t" where [events]:
  "ON_IMAGE_READY = 0xF02"

definition ON_PUBLICATION_READY :: "int32_t" where [events]:
  "ON_PUBLICATION_READY = 0xF03"

definition ON_OPERATION_SUCCESS :: "int32_t" where [events]:
  "ON_OPERATION_SUCCESS = 0xF04"

definition ON_INACTIVE_IMAGE :: "int32_t" where [events]:
  "ON_INACTIVE_IMAGE = 0xF05"

end
