(* ===== verification/DriverProxy.thy ===== *)
theory DriverProxy
  imports RingBuffer Command
begin

text \<open>
  \<^verbatim>\<open>DriverProxy.h\<close>: the commands a client writes to the ring buffer of the media driver. A command is
  put together in an array of 512 bytes on the stack, at an address \<open>stack\<close> that is a parameter of
  each call; the array is not initialised.
\<close>

record driver_proxy =
  dp_toDriverCommandBuffer :: ringbuf
  dp_clientId :: int64_t

definition DriverProxy :: "ringbuf \<Rightarrow> (cpu, driver_proxy) act" where
  "DriverProxy toDriverCommandBuffer =
     bind (nextCorrelationId toDriverCommandBuffer)
       (\<lambda>i. ret \<lparr>dp_toDriverCommandBuffer = toDriverCommandBuffer, dp_clientId = i\<rparr>)"

definition timeOfLastDriverKeepalive :: "driver_proxy \<Rightarrow> (cpu, int64_t) act" where
  "timeOfLastDriverKeepalive dp = consumerHeartbeatTime (dp_toDriverCommandBuffer dp)"

text \<open>A filler writes a message into the buffer and returns its type and its length.\<close>

type_synonym filler = "abuf \<Rightarrow> (cpu, int32_t \<times> index_t) act"

definition writeCommandToDriver :: "driver_proxy \<Rightarrow> addr \<Rightarrow> filler \<Rightarrow> (cpu, unit) oact" where
  "writeCommandToDriver dp stack filler =
     (let buffer = AtomicBuffer stack 512
      in obind (total (filler buffer)) (\<lambda>(msgTypeId, len).
         obind (rb_write (dp_toDriverCommandBuffer dp) msgTypeId buffer 0 len) (\<lambda>ok.
         total (guard (\<not> ok) IllegalStateException))))"

definition fillAddPublication :: "int64_t \<Rightarrow> int64_t \<Rightarrow> byte list \<Rightarrow> int32_t \<Rightarrow> filler" where
  "fillAddPublication clientId correlationId channel streamId buffer =
     bind (PublicationMessageFlyweight buffer 0) (\<lambda>publicationMessage.
     andThen (corr_set_clientId publicationMessage clientId)
     (andThen (corr_set_correlationId publicationMessage correlationId)
     (andThen (pub_set_streamId publicationMessage streamId)
     (andThen (pub_set_channel publicationMessage channel)
     (bind (pub_length publicationMessage) (\<lambda>len. ret (ADD_PUBLICATION, len)))))))"

definition addPublication :: "driver_proxy \<Rightarrow> addr \<Rightarrow> byte list \<Rightarrow> int32_t \<Rightarrow> (cpu, int64_t) oact" where
  "addPublication dp stack channel streamId =
     obind (total (nextCorrelationId (dp_toDriverCommandBuffer dp))) (\<lambda>correlationId.
     obind (writeCommandToDriver dp stack (fillAddPublication (dp_clientId dp) correlationId channel streamId))
       (\<lambda>_. oret correlationId))"

definition fillRemove :: "int32_t \<Rightarrow> int64_t \<Rightarrow> int64_t \<Rightarrow> filler" where
  "fillRemove msgTypeId correlationId registrationId buffer =
     bind (RemoveMessageFlyweight buffer 0) (\<lambda>removeMessage.
     andThen (corr_set_correlationId removeMessage correlationId)
     (andThen (rem_set_registrationId removeMessage registrationId)
     (ret (msgTypeId, rem_length))))"

definition removePublication :: "driver_proxy \<Rightarrow> addr \<Rightarrow> int64_t \<Rightarrow> (cpu, int64_t) oact" where
  "removePublication dp stack registrationId =
     obind (total (nextCorrelationId (dp_toDriverCommandBuffer dp))) (\<lambda>correlationId.
     obind (writeCommandToDriver dp stack (fillRemove REMOVE_PUBLICATION correlationId registrationId))
       (\<lambda>_. oret correlationId))"

definition fillAddSubscription :: "int64_t \<Rightarrow> int64_t \<Rightarrow> byte list \<Rightarrow> int32_t \<Rightarrow> filler" where
  "fillAddSubscription clientId correlationId channel streamId buffer =
     bind (SubscriptionMessageFlyweight buffer 0) (\<lambda>subscriptionMessage.
     andThen (corr_set_clientId subscriptionMessage clientId)
     (andThen (sub_set_registrationCorrelationId subscriptionMessage (- 1))
     (andThen (corr_set_correlationId subscriptionMessage correlationId)
     (andThen (sub_set_streamId subscriptionMessage streamId)
     (andThen (sub_set_channel subscriptionMessage channel)
     (bind (sub_length subscriptionMessage) (\<lambda>len. ret (ADD_SUBSCRIPTION, len))))))))"

definition addSubscription :: "driver_proxy \<Rightarrow> addr \<Rightarrow> byte list \<Rightarrow> int32_t \<Rightarrow> (cpu, int64_t) oact" where
  "addSubscription dp stack channel streamId =
     obind (total (nextCorrelationId (dp_toDriverCommandBuffer dp))) (\<lambda>correlationId.
     obind (writeCommandToDriver dp stack (fillAddSubscription (dp_clientId dp) correlationId channel streamId))
       (\<lambda>_. oret correlationId))"

definition removeSubscription :: "driver_proxy \<Rightarrow> addr \<Rightarrow> int64_t \<Rightarrow> (cpu, int64_t) oact" where
  "removeSubscription dp stack registrationId =
     obind (total (nextCorrelationId (dp_toDriverCommandBuffer dp))) (\<lambda>correlationId.
     obind (writeCommandToDriver dp stack (fillRemove REMOVE_SUBSCRIPTION correlationId registrationId))
       (\<lambda>_. oret correlationId))"

definition fillKeepalive :: "int64_t \<Rightarrow> filler" where
  "fillKeepalive clientId buffer =
     bind (CorrelatedMessageFlyweight buffer 0) (\<lambda>correlatedMessage.
     andThen (corr_set_clientId correlatedMessage clientId)
     (andThen (corr_set_correlationId correlatedMessage 0)
     (ret (CLIENT_KEEPALIVE, CORRELATED_MESSAGE_LENGTH))))"

definition sendClientKeepalive :: "driver_proxy \<Rightarrow> addr \<Rightarrow> (cpu, unit) oact" where
  "sendClientKeepalive dp stack = writeCommandToDriver dp stack (fillKeepalive (dp_clientId dp))"

section \<open>The commands as bytes\<close>

definition publication_bytes :: "int64_t \<Rightarrow> int64_t \<Rightarrow> int32_t \<Rightarrow> byte list \<Rightarrow> byte list" where
  "publication_bytes client corr stream channel =
     enc 8 client @ enc 8 corr @ enc 4 stream @ enc 4 (of_nat (length channel) :: int32_t) @ channel"

definition subscription_bytes :: "int64_t \<Rightarrow> int64_t \<Rightarrow> int32_t \<Rightarrow> byte list \<Rightarrow> byte list" where
  "subscription_bytes client corr stream channel =
     enc 8 client @ enc 8 corr @ enc 8 (- 1 :: int64_t) @ enc 4 stream @
     enc 4 (of_nat (length channel) :: int32_t) @ channel"

text \<open>What a filler does: it writes the bytes of the message at the start of the array, nothing else.\<close>

definition fills :: "filler \<Rightarrow> addr \<Rightarrow> cpu \<Rightarrow> int32_t \<Rightarrow> byte list \<Rightarrow> bool" where
  "fills filler stack c t bs \<longleftrightarrow> (\<exists>c'. filler (AtomicBuffer stack 512) c = (Inr (t, of_nat (length bs)), c') \<and>
     load c' stack (length bs) = bs \<and> (\<forall>a. a < stack \<or> stack + 512 \<le> a \<longrightarrow> view c' a = view c a))"

lemma stack_in_range:
  "i + n \<le> 512 \<Longrightarrow> in_range (AtomicBuffer stack 512) (of_nat i) n"
  "i + n \<le> 512 \<Longrightarrow> at (AtomicBuffer stack 512) (of_nat i) = stack + int i"
  by (auto simp: in_range_def AtomicBuffer_def at_def sint_of_nat32)

lemmas flyweight_defs = Flyweight_def derived_def CorrelatedMessageFlyweight_def overlayStruct_def fw_overlayStruct_def
  struct_get_def struct_put_def

lemma join_at: "b = a + int (length xs) \<Longrightarrow> write_bytes (write_bytes m a xs) b ys = write_bytes m a (xs @ ys)"
  by (simp add: write_bytes_join)

lemma stack_string:
  assumes "i + 4 + length str \<le> 512"
  obtains c' where "ab_putStringUtf8 (AtomicBuffer stack 512) (of_nat i) str c = (Inr (of_nat (4 + length str)), c')"
    "view c' = write_bytes (view c) (stack + int i) (enc 4 (of_nat (length str) :: int32_t) @ str)"
proof -
  have r: "in_range (AtomicBuffer stack 512) (of_nat i) (length str + 4)" "at (AtomicBuffer stack 512) (of_nat i) = stack + int i"
    using assms stack_in_range[of i "length str + 4" stack] by simp_all
  show thesis
    by (rule putStringUtf8_ok[OF r(1)], rule that) (simp_all add: r(2) join_at del: enc_numeral)
qed

text \<open>A memory with the bytes of a message at the start of the array.\<close>

lemma fillsI:
  assumes "filler (AtomicBuffer stack 512) c = (Inr (t, n), c')" "n = of_nat (length bs)"
    "view c' = write_bytes (view c) stack bs" "length bs \<le> 512"
  shows "fills filler stack c t bs"
proof -
  have "load c' stack (length bs) = bs" unfolding load_def assms(3) by (rule read_write_same) simp
  moreover have "view c' a = view c a" if "a < stack \<or> stack + 512 \<le> a" for a
    using that assms(4) unfolding assms(3) by (intro write_bytes_outside) auto
  ultimately show ?thesis unfolding fills_def using assms(1,2) by blast
qed

lemma get_field:
  assumes "view c = write_bytes m a (xs @ enc n v @ ys)" "b = a + int (length xs)" "LENGTH('a) \<le> 8 * n"
  shows "get_le n c b = (v :: 'a::len word)"
proof -
  have "read_bytes (view c) b n = enc n v" unfolding assms(1,2) by (subst read_write_inside) simp_all
  then show ?thesis using assms(3) by (simp add: get_le_def load_def dec_enc)
qed

lemma fillAddPublication_fills:
  assumes "length ch \<le> 488"
  shows "fills (fillAddPublication client corr ch stream) stack c ADD_PUBLICATION (publication_bytes client corr stream ch)"
proof -
  let ?n = "length ch" and ?b = "AtomicBuffer stack 512"
  let ?c1 = "put_le 8 c stack client" let ?c2 = "put_le 8 ?c1 (stack + 8) corr" let ?c3 = "put_le 4 ?c2 (stack + 16) stream"
  have fit: "20 + 4 + length ch \<le> 512" using assms by simp
  obtain c4 where c4: "ab_putStringUtf8 ?b (of_nat 20) ch ?c3 = (Inr (of_nat (4 + ?n)), c4)"
    "view c4 = write_bytes (view ?c3) (stack + int 20) (enc 4 (of_nat ?n :: int32_t) @ ch)"
    by (rule stack_string[OF fit])
  have v: "view c4 = write_bytes (view c) stack (publication_bytes client corr stream ch)"
    unfolding c4(2) view_put_le publication_bytes_def by (simp add: join_at del: enc_numeral)
  have get: "get_le 4 c4 (stack + 20) = (of_nat ?n :: int32_t)"
    by (rule get_field[where xs = "enc 8 client @ enc 8 corr @ enc 4 stream" and ys = ch])
      (simp_all add: v publication_bytes_def del: enc_numeral)
  have "in_range ?b 0 28" "in_range ?b 0 16" "at ?b 0 = stack"
    using stack_in_range[of 0 28 stack] stack_in_range[of 0 16 stack] by simp_all
  then have "fillAddPublication client corr ch stream ?b c = (Inr (ADD_PUBLICATION, 24 + of_nat ?n), c4)"
    using c4(1) get
    by (simp add: fillAddPublication_def PublicationMessageFlyweight_def flyweight_defs corr_set_clientId_def
        corr_set_correlationId_def pub_set_streamId_def pub_set_channel_def pub_length_def stringPut_def)
  then show ?thesis using v assms by (intro fillsI) (simp_all add: publication_bytes_def del: enc_numeral)
qed

lemma fillAddSubscription_fills:
  assumes "length ch \<le> 476"
  shows "fills (fillAddSubscription client corr ch stream) stack c ADD_SUBSCRIPTION (subscription_bytes client corr stream ch)"
proof -
  let ?n = "length ch" and ?b = "AtomicBuffer stack 512"
  let ?c1 = "put_le 8 c stack client" let ?c2 = "put_le 8 ?c1 (stack + 16) (- 1 :: int64_t)"
  let ?c3 = "put_le 8 ?c2 (stack + 8) corr" let ?c4 = "put_le 4 ?c3 (stack + 24) stream"
  have fit: "28 + 4 + length ch \<le> 512" using assms by simp
  obtain c5 where c5: "ab_putStringUtf8 ?b (of_nat 28) ch ?c4 = (Inr (of_nat (4 + ?n)), c5)"
    "view c5 = write_bytes (view ?c4) (stack + int 28) (enc 4 (of_nat ?n :: int32_t) @ ch)"
    by (rule stack_string[OF fit])
  have "write_bytes (write_bytes m (stack + 16) (enc 8 (- 1 :: int64_t))) (stack + 8) (enc 8 corr) =
      write_bytes (write_bytes m (stack + 8) (enc 8 corr)) (stack + 16) (enc 8 (- 1 :: int64_t))" for m
    by (rule write_bytes_commute) simp
  then have v: "view c5 = write_bytes (view c) stack (subscription_bytes client corr stream ch)"
    unfolding c5(2) view_put_le subscription_bytes_def by (simp add: join_at del: enc_numeral)
  have get: "get_le 4 c5 (stack + 28) = (of_nat ?n :: int32_t)"
    by (rule get_field[where xs = "enc 8 client @ enc 8 corr @ enc 8 (- 1 :: int64_t) @ enc 4 stream" and ys = ch])
      (simp_all add: v subscription_bytes_def del: enc_numeral)
  have "in_range ?b 0 36" "in_range ?b 0 16" "at ?b 0 = stack"
    using stack_in_range[of 0 36 stack] stack_in_range[of 0 16 stack] by simp_all
  then have "fillAddSubscription client corr ch stream ?b c = (Inr (ADD_SUBSCRIPTION, 32 + of_nat ?n), c5)"
    using c5(1) get
    by (simp add: fillAddSubscription_def SubscriptionMessageFlyweight_def flyweight_defs corr_set_clientId_def
        corr_set_correlationId_def sub_set_streamId_def sub_set_registrationCorrelationId_def sub_set_channel_def
        sub_length_def stringPut_def)
  then show ?thesis using v assms by (intro fillsI) (simp_all add: subscription_bytes_def del: enc_numeral)
qed

text \<open>A command to remove something does not set the client: its first eight bytes are what the stack held.\<close>

lemma fillRemove_fills:
  "fills (fillRemove t corr reg) stack c t (load c stack 8 @ enc 8 corr @ enc 8 reg)"
proof (rule fillsI)
  let ?b = "AtomicBuffer stack 512"
  let ?c = "put_le 8 (put_le 8 c (stack + 8) corr) (stack + 16) reg"
  have "in_range ?b 0 24" "in_range ?b 0 16" "at ?b 0 = stack"
    using stack_in_range[of 0 24 stack] stack_in_range[of 0 16 stack] by simp_all
  then show "fillRemove t corr reg ?b c = (Inr (t, 24), ?c)"
    by (simp add: fillRemove_def RemoveMessageFlyweight_def flyweight_defs corr_set_correlationId_def
        rem_set_registrationId_def rem_length_def)
  have "view c = write_bytes (view c) stack (load c stack 8)" by (simp add: load_def write_bytes_read)
  then have "view ?c = write_bytes (write_bytes (write_bytes (view c) stack (load c stack 8)) (stack + 8) (enc 8 corr)) (stack + 16) (enc 8 reg)"
    by (simp add: view_put_le del: enc_numeral)
  then show "view ?c = write_bytes (view c) stack (load c stack 8 @ enc 8 corr @ enc 8 reg)"
    by (simp add: join_at load_def del: enc_numeral)
qed (simp_all add: load_def del: enc_numeral)

lemma fillKeepalive_fills:
  "fills (fillKeepalive client) stack c CLIENT_KEEPALIVE (enc 8 client @ enc 8 (0 :: int64_t))"
proof (rule fillsI)
  let ?b = "AtomicBuffer stack 512"
  let ?c = "put_le 8 (put_le 8 c stack client) (stack + 8) (0 :: int64_t)"
  have "in_range ?b 0 16" "at ?b 0 = stack" using stack_in_range[of 0 16 stack] by simp_all
  then show "fillKeepalive client ?b c = (Inr (CLIENT_KEEPALIVE, 16), ?c)"
    by (simp add: fillKeepalive_def flyweight_defs corr_set_correlationId_def corr_set_clientId_def layout)
  show "view ?c = write_bytes (view c) stack (enc 8 client @ enc 8 (0 :: int64_t))"
    by (simp add: view_put_le join_at del: enc_numeral)
qed (simp_all del: enc_numeral)

section \<open>Sending\<close>

lemma ring_inv_elsewhere:
  assumes "ring_inv k rb c H rs T" "\<And>a. rb_base rb \<le> a \<Longrightarrow> a < rb_base rb + 2 ^ k + 384 \<Longrightarrow> view c' a = view c a"
  shows "ring_inv k rb c' H rs T"
proof -
  have wf: "wf_ring k rb" using assms(1) by (simp add: ring_inv_def)
  have "chain k (rb_base rb) (view c') H rs T"
  proof (rule chain_cong)
    show "chain k (rb_base rb) (view c) H rs T" using assms(1) by (simp add: ring_inv_def)
    fix off assume "\<exists>j. H \<le> j \<and> j < T \<and> off = j mod 2 ^ k"
    then have "off < 2 ^ k" by auto
    then have "int off < 2 ^ k" by (metis of_nat_less_iff of_nat_numeral of_nat_power)
    then show "view c (rb_base rb + int off) = view c' (rb_base rb + int off)" by (intro assms(2)[symmetric]) linarith+
  qed
  moreover have pw: "(0::int) < 2 ^ k" by simp
  have "rb_head rb c' = rb_head rb c" "rb_tail rb c' = rb_tail rb c"
    unfolding rb_head_def rb_tail_def get_le_def load_def rb_counters(3,4)[OF wf]
    by (intro arg_cong[where f = dec] read_bytes_cong assms(2); use pw in linarith)+
  ultimately show ?thesis using assms(1) by (simp add: ring_inv_def)
qed

definition correlation_counter :: "ringbuf \<Rightarrow> cpu \<Rightarrow> int64_t" where
  "correlation_counter rb c = get_le 8 c (at (rb_buffer rb) (rb_correlationIdCounterIndex rb))"

lemma nextCorrelationId_spec:
  assumes "ring_inv k rb c H rs T"
  obtains c' where "nextCorrelationId rb c = (Inr (correlation_counter rb c), c')" "ring_inv k rb c' H rs T"
    "correlation_counter rb c' = correlation_counter rb c + 1"
    "\<And>a. a < rb_base rb \<or> rb_base rb + 2 ^ k + 640 \<le> a \<Longrightarrow> view c' a = view c a"
proof -
  have wf: "wf_ring k rb" using assms by (simp add: ring_inv_def)
  have ix: "rb_correlationIdCounterIndex rb = of_nat (2 ^ k + 384)" using wf by (simp only: wf_ring_def)
  have fit: "(2::nat) ^ k + 384 + 8 \<le> 2 ^ k + 640" by simp
  let ?a = "rb_base rb + int (2 ^ k + 384)"
  have r: "in_range (rb_buffer rb) (rb_correlationIdCounterIndex rb) 8"
    "at (rb_buffer rb) (rb_correlationIdCounterIndex rb) = ?a"
    unfolding ix using wf_ring_index(1,2)[OF wf fit] by simp_all
  have g: "get_le 8 (drain c) ?a = (get_le 8 c ?a :: int64_t)" by (simp add: get_le_def load_def mem_simps)
  obtain c' where c': "nextCorrelationId rb c = (Inr (correlation_counter rb c), c')"
    "view c' = write_bytes (view c) ?a (enc 8 (correlation_counter rb c + 1))"
    using r g by (simp add: nextCorrelationId_def ab_getAndAddInt64_def atomic_getAndAddInt64_def Let_def
        correlation_counter_def view_def drain_def del: enc_numeral)
  have "ring_inv k rb c' H rs T"
    by (rule ring_inv_elsewhere[OF assms]) (simp add: c'(2) write_bytes_outside del: enc_numeral)
  moreover have "correlation_counter rb c' = correlation_counter rb c + 1"
    using r(2) c'(2) by (simp add: correlation_counter_def[of rb c'] get_le_def load_def mem_simps dec_enc del: enc_numeral)
  moreover have "view c' a = view c a" if "a < rb_base rb \<or> rb_base rb + 2 ^ k + 640 \<le> a" for a
  proof -
    have "(0::int) < 2 ^ k" by simp
    then have "a < ?a \<or> ?a + 8 \<le> a" using that unfolding of_nat_add of_nat_power by (simp, linarith)
    then show ?thesis unfolding c'(2) by (intro write_bytes_outside) (simp del: enc_numeral)
  qed
  ultimately show thesis using that c'(1) by blast
qed

text \<open>
  The outcome of a command: the message is in the ring buffer if there is room for it, otherwise an
  exception is thrown; either way the ring buffer stays well formed.
\<close>

definition sends :: "nat \<Rightarrow> ringbuf \<Rightarrow> nat \<Rightarrow> rb_rec list \<Rightarrow> nat \<Rightarrow> 'v \<Rightarrow> int32_t \<Rightarrow> byte list \<Rightarrow>
    ((exn + 'v) \<times> cpu) option \<Rightarrow> bool" where
  "sends k rb H rs T v t bs r \<longleftrightarrow> (\<exists>c' T' rs'. ring_inv k rb c' H (rs @ rs') T' \<and>
     (if claim_spec (2 ^ k) H T (rec_size (Msg t bs)) = None
      then r = Some (Inl IllegalStateException, c') \<and> messages rs' = []
      else r = Some (Inr v, c') \<and> messages rs' = [(t, bs)]))"

definition stack_apart :: "nat \<Rightarrow> ringbuf \<Rightarrow> addr \<Rightarrow> bool" where
  "stack_apart k rb stack \<longleftrightarrow> stack + 512 \<le> rb_base rb \<or> rb_base rb + 2 ^ k + 640 \<le> stack"

lemma writeCommandToDriver_spec:
  assumes inv: "ring_inv k (dp_toDriverCommandBuffer dp) c H rs T" and k: "12 \<le> k"
    and stack: "stack_apart k (dp_toDriverCommandBuffer dp) stack"
    and f: "fills filler stack c t bs" and t: "1 \<le> sint t" and len: "length bs \<le> 512"
  shows "sends k (dp_toDriverCommandBuffer dp) H rs T () t bs (writeCommandToDriver dp stack filler c)"
proof -
  let ?rb = "dp_toDriverCommandBuffer dp" and ?b = "AtomicBuffer stack 512"
  obtain c1 where c1: "filler ?b c = (Inr (t, of_nat (length bs)), c1)" "load c1 stack (length bs) = bs"
    "\<And>a. a < stack \<or> stack + 512 \<le> a \<Longrightarrow> view c1 a = view c a" using f unfolding fills_def by blast
  have inv1: "ring_inv k ?rb c1 H rs T"
    by (rule ring_inv_elsewhere[OF inv], rule c1(3)) (use stack in \<open>auto simp: stack_apart_def\<close>)
  have "(2::nat) ^ 12 \<le> 2 ^ k" using k by (intro power_increasing) simp_all
  then have max: "length bs \<le> 2 ^ k div 8" using len by simp
  have src: "in_range ?b 0 (length bs)" "load c1 (at ?b 0) (length bs) = bs"
    "at ?b 0 + int (length bs) \<le> rb_base ?rb \<or> rb_base ?rb + 2 ^ k + 640 \<le> at ?b 0"
    using stack_in_range[of 0 "length bs" stack] len c1(2) stack by (auto simp: stack_apart_def)
  note w = rb_write_spec[OF inv1 t max src]
  have run: "writeCommandToDriver dp stack filler c =
      obind (rb_write ?rb t ?b 0 (of_nat (length bs))) (\<lambda>ok. total (guard (\<not> ok) IllegalStateException)) c1"
    using c1(1) by (simp add: writeCommandToDriver_def Let_def)
  show ?thesis
  proof (cases "claim_spec (2 ^ k) H T (rec_size (Msg t bs))")
    case None
    then have "writeCommandToDriver dp stack filler c = Some (Inl IllegalStateException, c1)"
      using w run by (simp add: obind_def)
    then show ?thesis using inv1 unfolding sends_def by (intro exI[of _ c1] exI[of _ T] exI[of _ "[]"]) (simp add: None)
  next
    case (Some pad)
    then obtain c2 rs' T' where "rb_write ?rb t ?b 0 (of_nat (length bs)) c1 = Some (Inr True, c2)"
      "ring_inv k ?rb c2 H (rs @ rs') T'" "messages rs' = [(t, bs)]" using w by auto
    then show ?thesis using run unfolding sends_def
      by (intro exI[of _ c2] exI[of _ T'] exI[of _ rs']) (simp add: obind_def Some)
  qed
qed

lemma command_spec:
  assumes inv: "ring_inv k (dp_toDriverCommandBuffer dp) c H rs T" "12 \<le> k"
    and stack: "stack_apart k (dp_toDriverCommandBuffer dp) stack"
    and f: "\<And>i c1. (\<And>a. stack \<le> a \<Longrightarrow> a < stack + 512 \<Longrightarrow> view c1 a = view c a) \<Longrightarrow>
      fills (filler i) stack c1 t (bs i)" and t: "1 \<le> sint t" and len: "\<And>i. length (bs i) \<le> 512"
  shows "sends k (dp_toDriverCommandBuffer dp) H rs T (correlation_counter (dp_toDriverCommandBuffer dp) c) t
    (bs (correlation_counter (dp_toDriverCommandBuffer dp) c))
    (obind (total (nextCorrelationId (dp_toDriverCommandBuffer dp))) (\<lambda>i.
       obind (writeCommandToDriver dp stack (filler i)) (\<lambda>_. oret i)) c)"
proof -
  let ?i = "correlation_counter (dp_toDriverCommandBuffer dp) c"
  obtain c1 where c1: "nextCorrelationId (dp_toDriverCommandBuffer dp) c = (Inr ?i, c1)"
    "ring_inv k (dp_toDriverCommandBuffer dp) c1 H rs T"
    "\<And>a. a < rb_base (dp_toDriverCommandBuffer dp) \<or> rb_base (dp_toDriverCommandBuffer dp) + 2 ^ k + 640 \<le> a \<Longrightarrow> view c1 a = view c a"
    by (rule nextCorrelationId_spec[OF inv(1)]) (rule that)
  have "fills (filler ?i) stack c1 t (bs ?i)"
    by (rule f, rule c1(3)) (use stack in \<open>auto simp: stack_apart_def\<close>)
  from writeCommandToDriver_spec[OF c1(2) inv(2) stack this t len] c1(1) show ?thesis
    unfolding sends_def by (fastforce split: if_splits)
qed

lemma keepalive_sends:
  assumes "ring_inv k (dp_toDriverCommandBuffer dp) c H rs T" "12 \<le> k" "stack_apart k (dp_toDriverCommandBuffer dp) stack"
  shows "sends k (dp_toDriverCommandBuffer dp) H rs T () CLIENT_KEEPALIVE (enc 8 (dp_clientId dp) @ enc 8 (0 :: int64_t))
    (sendClientKeepalive dp stack c)"
  unfolding sendClientKeepalive_def
  by (intro writeCommandToDriver_spec[OF assms fillKeepalive_fills]) (simp_all add: events del: enc_numeral)

lemma length_command_bytes:
  "length (publication_bytes client corr stream ch) = 24 + length ch"
  "length (subscription_bytes client corr stream ch) = 32 + length ch"
  by (simp_all add: publication_bytes_def subscription_bytes_def del: enc_numeral)

text \<open>
  C32. Every command of a client either puts exactly one message into the ring buffer of the driver
  or throws; the message carries the type of the command, the next correlation identifier, which
  is what the call returns, and the arguments in the layout of the protocol. The messages that remove
  something carry no client identifier: its place holds what was on the stack.
\<close>

theorem driver_commands:
  fixes dp c stack
  defines "rb \<equiv> dp_toDriverCommandBuffer dp" and "client \<equiv> dp_clientId dp"
    and "corr \<equiv> correlation_counter (dp_toDriverCommandBuffer dp) c"
  assumes inv: "ring_inv k rb c H rs T" and k: "12 \<le> k" and stack: "stack_apart k rb stack"
  shows "(length ch \<le> 488 \<longrightarrow> sends k rb H rs T corr ADD_PUBLICATION (publication_bytes client corr stream ch)
      (addPublication dp stack ch stream c)) \<and>
    (length ch \<le> 476 \<longrightarrow> sends k rb H rs T corr ADD_SUBSCRIPTION (subscription_bytes client corr stream ch)
      (addSubscription dp stack ch stream c)) \<and>
    sends k rb H rs T corr REMOVE_PUBLICATION (load c stack 8 @ enc 8 corr @ enc 8 reg) (removePublication dp stack reg c) \<and>
    sends k rb H rs T corr REMOVE_SUBSCRIPTION (load c stack 8 @ enc 8 corr @ enc 8 reg) (removeSubscription dp stack reg c) \<and>
    sends k rb H rs T () CLIENT_KEEPALIVE (enc 8 client @ enc 8 (0 :: int64_t)) (sendClientKeepalive dp stack c)"
proof -
  note cmd = command_spec[OF inv[unfolded rb_def] k stack[unfolded rb_def]]
  have rem: "sends k rb H rs T corr t (load c stack 8 @ enc 8 corr @ enc 8 reg)
      (obind (total (nextCorrelationId (dp_toDriverCommandBuffer dp))) (\<lambda>i.
         obind (writeCommandToDriver dp stack (fillRemove t i reg)) (\<lambda>_. oret i)) c)" if t: "1 \<le> sint t" for t
    unfolding rb_def corr_def
  proof (rule cmd[where bs = "\<lambda>i. load c stack 8 @ enc 8 i @ enc 8 reg", OF _ t])
    fix i c1 assume same: "\<And>a. stack \<le> a \<Longrightarrow> a < stack + 512 \<Longrightarrow> view c1 a = view c a"
    have "load c1 stack 8 = load c stack 8" unfolding load_def by (intro read_bytes_cong same) auto
    then show "fills (fillRemove t i reg) stack c1 t (load c stack 8 @ enc 8 i @ enc 8 reg)"
      using fillRemove_fills[of t i reg stack c1] by simp
  qed (simp add: load_def del: enc_numeral)
  have "sends k rb H rs T corr ADD_PUBLICATION (publication_bytes client corr stream ch) (addPublication dp stack ch stream c)"
    if "length ch \<le> 488"
    unfolding addPublication_def rb_def corr_def client_def using that
    by (intro cmd[where bs = "\<lambda>i. publication_bytes (dp_clientId dp) i stream ch"] fillAddPublication_fills)
      (simp_all add: length_command_bytes events)
  moreover have "sends k rb H rs T corr ADD_SUBSCRIPTION (subscription_bytes client corr stream ch) (addSubscription dp stack ch stream c)"
    if "length ch \<le> 476"
    unfolding addSubscription_def rb_def corr_def client_def using that
    by (intro cmd[where bs = "\<lambda>i. subscription_bytes (dp_clientId dp) i stream ch"] fillAddSubscription_fills)
      (simp_all add: length_command_bytes events)
  moreover have "sends k rb H rs T () CLIENT_KEEPALIVE (enc 8 client @ enc 8 (0 :: int64_t)) (sendClientKeepalive dp stack c)"
    unfolding rb_def client_def by (rule keepalive_sends[OF inv[unfolded rb_def] k stack[unfolded rb_def]])
  ultimately show ?thesis
    using rem[of REMOVE_PUBLICATION] rem[of REMOVE_SUBSCRIPTION]
    by (simp add: removePublication_def removeSubscription_def events del: enc_numeral)
qed

theorem driver_commands_witness:
  "\<exists>c' rs' T'. addPublication \<lparr>dp_toDriverCommandBuffer = demo_ring, dp_clientId = 7\<rparr> 100000 [97, 98] 10 blank = Some (Inr 0, c') \<and>
     ring_inv 12 demo_ring c' 0 rs' T' \<and> messages rs' = [(ADD_PUBLICATION, publication_bytes 7 0 10 [97, 98])]"
proof -
  let ?dp = "\<lparr>dp_toDriverCommandBuffer = demo_ring, dp_clientId = 7\<rparr>"
  have z: "correlation_counter demo_ring blank = 0" by (simp add: correlation_counter_def get_le_def load_blank dec_zeros)
  have st: "stack_apart 12 (dp_toDriverCommandBuffer ?dp) 100000"
    using demo_ring_wf by (simp add: stack_apart_def demo_abuf_def AtomicBuffer_def)
  have inv: "ring_inv 12 (dp_toDriverCommandBuffer ?dp) blank 0 [] 0" using demo_ring_inv by simp
  have "sends 12 demo_ring 0 [] 0 0 ADD_PUBLICATION (publication_bytes 7 0 10 [97, 98])
      (addPublication ?dp 100000 [97, 98] 10 blank)"
    using conjunct1[OF driver_commands[OF inv _ st, where ch = "[97, 98]" and stream = 10]] z by simp
  moreover have "claim_spec (2 ^ 12) 0 0 (rec_size (Msg ADD_PUBLICATION (publication_bytes 7 0 10 [97, 98]))) \<noteq> None"
    by (simp add: claim_spec_def rec_size_def length_command_bytes)
  ultimately show ?thesis unfolding sends_def by (simp only: if_False append_Nil) blast
qed

end
