(* ===== verification/Broadcast.thy ===== *)
theory Broadcast
  imports RingBuffer
begin

text \<open>
  \<^verbatim>\<open>concurrent/broadcast\<close> of the Aeron client: the one-to-many buffer through which the media driver
  answers its clients. The transmitter never waits: it overwrites the oldest records, after announcing
  the new tail in a counter of its own (the tail intent); a receiver that was overtaken notices it by
  comparing its position with the announced tail, and jumps to the latest record.

  Records have the layout of the ring buffer's, so the predicates \<open>rec_at\<close> and \<open>chain\<close> of theory
  \<open>RingBuffer\<close> describe them.
\<close>

section \<open>Descriptors\<close>

definition TAIL_INTENT_COUNTER_OFFSET :: index_t where
  [layout]: "TAIL_INTENT_COUNTER_OFFSET = 0"

definition bc_TAIL_COUNTER_OFFSET :: index_t where
  [layout]: "bc_TAIL_COUNTER_OFFSET = TAIL_INTENT_COUNTER_OFFSET + 8"

definition LATEST_COUNTER_OFFSET :: index_t where
  [layout]: "LATEST_COUNTER_OFFSET = bc_TAIL_COUNTER_OFFSET + 8"

definition bc_TRAILER_LENGTH :: index_t where
  [layout]: "bc_TRAILER_LENGTH = of_nat CACHE_LINE_LENGTH * 2"

definition bc_checkCapacity :: "index_t \<Rightarrow> exn + unit" where
  "bc_checkCapacity capacity = (if \<not> isPowerOfTwo capacity then Inl IllegalStateException else Inr ())"

definition bc_PADDING_MSG_TYPE_ID :: int32_t where
  [layout]: "bc_PADDING_MSG_TYPE_ID = -1"

definition LENGTH_OFFSET :: index_t where
  [layout]: "LENGTH_OFFSET = 0"

definition TYPE_OFFSET :: index_t where
  [layout]: "TYPE_OFFSET = 4"

definition bc_HEADER_LENGTH :: index_t where
  [layout]: "bc_HEADER_LENGTH = 8"

definition RECORD_ALIGNMENT :: index_t where
  [layout]: "RECORD_ALIGNMENT = bc_HEADER_LENGTH"

definition calculateMaxMessageLength :: "index_t \<Rightarrow> int32_t" where
  "calculateMaxMessageLength capacity = word_of_int (sint capacity sdiv 8)"

definition bc_lengthOffset :: "index_t \<Rightarrow> index_t" where
  "bc_lengthOffset recordOffset = recordOffset + LENGTH_OFFSET"

definition bc_typeOffset :: "index_t \<Rightarrow> index_t" where
  "bc_typeOffset recordOffset = recordOffset + TYPE_OFFSET"

definition msgOffset :: "index_t \<Rightarrow> index_t" where
  "msgOffset recordOffset = recordOffset + bc_HEADER_LENGTH"

definition bc_checkMsgTypeId :: "int32_t \<Rightarrow> (cpu, unit) act" where
  "bc_checkMsgTypeId msgTypeId = guard (sint msgTypeId < 1) IllegalArgumentException"

section \<open>The transmitter\<close>

record btransmitter =
  bt_buffer :: abuf
  bt_capacity :: index_t
  bt_mask :: index_t
  bt_maxMsgLength :: index_t
  bt_tailIntentCounterIndex :: index_t
  bt_tailCounterIndex :: index_t
  bt_latestCounterIndex :: index_t

definition BroadcastTransmitter :: "abuf \<Rightarrow> exn + btransmitter" where
  "BroadcastTransmitter buffer =
     (let capacity = ab_capacity buffer - bc_TRAILER_LENGTH
      in case bc_checkCapacity capacity of
           Inl e \<Rightarrow> Inl e
         | Inr _ \<Rightarrow> Inr
             \<lparr>bt_buffer = buffer, bt_capacity = capacity, bt_mask = capacity - 1,
              bt_maxMsgLength = calculateMaxMessageLength capacity,
              bt_tailIntentCounterIndex = capacity + TAIL_INTENT_COUNTER_OFFSET,
              bt_tailCounterIndex = capacity + bc_TAIL_COUNTER_OFFSET,
              bt_latestCounterIndex = capacity + LATEST_COUNTER_OFFSET\<rparr>)"

definition bt_checkMessageLength :: "btransmitter \<Rightarrow> index_t \<Rightarrow> (cpu, unit) act" where
  "bt_checkMessageLength bt len = guard (sint (bt_maxMsgLength bt) < sint len) IllegalArgumentException"

definition signalTailIntent :: "btransmitter \<Rightarrow> abuf \<Rightarrow> int64_t \<Rightarrow> (cpu, unit) act" where
  "signalTailIntent bt buffer newTail =
     andThen (ab_putInt64Ordered buffer (bt_tailIntentCounterIndex bt) newTail) (poke atomic_release)"

definition insertPaddingRecord :: "abuf \<Rightarrow> int32_t \<Rightarrow> int32_t \<Rightarrow> (cpu, unit) act" where
  "insertPaddingRecord buffer recordOffset len =
     andThen (ab_putInt32 buffer (bc_lengthOffset recordOffset) len)
       (ab_putInt32 buffer (bc_typeOffset recordOffset) bc_PADDING_MSG_TYPE_ID)"

text \<open>The record itself and the two counters, once the place is known.\<close>

definition bt_put ::
    "btransmitter \<Rightarrow> int32_t \<Rightarrow> abuf \<Rightarrow> index_t \<Rightarrow> index_t \<Rightarrow> int64_t \<Rightarrow> int32_t \<Rightarrow> (cpu, unit) act" where
  "bt_put bt msgTypeId srcBuffer srcIndex len currentTail recordOffset =
     (let recordLength = len + bc_HEADER_LENGTH;
          alignedRecordLength = align recordLength RECORD_ALIGNMENT
      in andThen (ab_putInt32 (bt_buffer bt) (bc_lengthOffset recordOffset) recordLength)
        (andThen (ab_putInt32 (bt_buffer bt) (bc_typeOffset recordOffset) msgTypeId)
        (andThen (ab_putBytes (bt_buffer bt) (msgOffset recordOffset) srcBuffer srcIndex len)
        (andThen (ab_putInt64 (bt_buffer bt) (bt_latestCounterIndex bt) currentTail)
          (ab_putInt64Ordered (bt_buffer bt) (bt_tailCounterIndex bt)
             (currentTail + scast alignedRecordLength))))))"

definition transmit :: "btransmitter \<Rightarrow> int32_t \<Rightarrow> abuf \<Rightarrow> index_t \<Rightarrow> index_t \<Rightarrow> (cpu, unit) act" where
  "transmit bt msgTypeId srcBuffer srcIndex len =
     andThen (bc_checkMsgTypeId msgTypeId)
       (andThen (bt_checkMessageLength bt len)
       (bind (ab_getInt64 (bt_buffer bt) (bt_tailCounterIndex bt))
         (\<lambda>currentTail.
           let recordOffset = ucast currentTail AND bt_mask bt;
               recordLength = len + bc_HEADER_LENGTH;
               alignedRecordLength = align recordLength RECORD_ALIGNMENT;
               newTail = currentTail + scast alignedRecordLength;
               toEndOfBuffer = bt_capacity bt - recordOffset
           in if sint toEndOfBuffer < sint alignedRecordLength
              then andThen (signalTailIntent bt (bt_buffer bt) (newTail + scast toEndOfBuffer))
                (andThen (insertPaddingRecord (bt_buffer bt) recordOffset toEndOfBuffer)
                  (bt_put bt msgTypeId srcBuffer srcIndex len (currentTail + scast toEndOfBuffer) 0))
              else andThen (signalTailIntent bt (bt_buffer bt) newTail)
                (bt_put bt msgTypeId srcBuffer srcIndex len currentTail recordOffset))))"

section \<open>The receiver\<close>

record breceiver =
  br_buffer :: abuf
  br_capacity :: index_t
  br_mask :: index_t
  br_tailIntentCounterIndex :: index_t
  br_tailCounterIndex :: index_t
  br_latestCounterIndex :: index_t
  br_recordOffset :: index_t
  br_cursor :: int64_t
  br_nextRecord :: int64_t
  br_lappedCount :: int64_t

definition BroadcastReceiver :: "abuf \<Rightarrow> exn + breceiver" where
  "BroadcastReceiver buffer =
     (let capacity = ab_capacity buffer - bc_TRAILER_LENGTH
      in case bc_checkCapacity capacity of
           Inl e \<Rightarrow> Inl e
         | Inr _ \<Rightarrow> Inr
             \<lparr>br_buffer = buffer, br_capacity = capacity, br_mask = capacity - 1,
              br_tailIntentCounterIndex = capacity + TAIL_INTENT_COUNTER_OFFSET,
              br_tailCounterIndex = capacity + bc_TAIL_COUNTER_OFFSET,
              br_latestCounterIndex = capacity + LATEST_COUNTER_OFFSET,
              br_recordOffset = 0, br_cursor = 0, br_nextRecord = 0, br_lappedCount = 0\<rparr>)"

text \<open>The receiver only reads the buffer, so its methods are actions on the receiver object.\<close>

definition on_buffer :: "cpu \<Rightarrow> (breceiver \<Rightarrow> (cpu, 'a) act) \<Rightarrow> (breceiver, 'a) act" where
  "on_buffer c f r = (fst (f r c), r)"

definition br_typeId :: "cpu \<Rightarrow> (breceiver, int32_t) act" where
  "br_typeId c = on_buffer c (\<lambda>r. ab_getInt32 (br_buffer r) (bc_typeOffset (br_recordOffset r)))"

definition br_offset :: "breceiver \<Rightarrow> index_t" where
  "br_offset r = msgOffset (br_recordOffset r)"

definition br_length :: "cpu \<Rightarrow> (breceiver, int32_t) act" where
  "br_length c =
     bind (on_buffer c (\<lambda>r. ab_getInt32 (br_buffer r) (bc_lengthOffset (br_recordOffset r))))
       (\<lambda>n. ret (n - bc_HEADER_LENGTH))"

definition validate_cursor :: "cpu \<Rightarrow> int64_t \<Rightarrow> (breceiver, bool) act" where
  "validate_cursor c cursor =
     bind (on_buffer c (\<lambda>r. ab_getInt64Volatile (br_buffer r) (br_tailIntentCounterIndex r)))
       (\<lambda>intent. peek (\<lambda>r. sint intent < sint (cursor + scast (br_capacity r))))"

definition br_validate :: "cpu \<Rightarrow> (breceiver, bool) act" where
  "br_validate c = bind (peek br_cursor) (validate_cursor (atomic_acquire c))"

text \<open>Step over the record at \<open>recordOffset\<close>: the position after it.\<close>

definition br_advance :: "cpu \<Rightarrow> int64_t \<Rightarrow> index_t \<Rightarrow> (breceiver, unit) act" where
  "br_advance c cursor recordOffset =
     andThen (poke (\<lambda>r. r\<lparr>br_cursor := cursor\<rparr>))
       (bind (on_buffer c (\<lambda>r. ab_getInt32 (br_buffer r) (bc_lengthOffset recordOffset)))
         (\<lambda>n. poke (\<lambda>r. r\<lparr>br_nextRecord := cursor + scast (align n RECORD_ALIGNMENT)\<rparr>)))"

text \<open>Land on the record at \<open>recordOffset\<close>, or on the first record of the buffer if it is padding.\<close>

definition br_land :: "cpu \<Rightarrow> int64_t \<Rightarrow> index_t \<Rightarrow> (breceiver, bool) act" where
  "br_land c cursor recordOffset =
     andThen (br_advance c cursor recordOffset)
       (bind (on_buffer c (\<lambda>r. ab_getInt32 (br_buffer r) (bc_typeOffset recordOffset)))
       (\<lambda>typeId.
         andThen (if bc_PADDING_MSG_TYPE_ID = typeId
             then andThen (bind (peek br_nextRecord) (\<lambda>next. br_advance c next 0))
               (poke (\<lambda>r. r\<lparr>br_recordOffset := 0\<rparr>))
             else poke (\<lambda>r. r\<lparr>br_recordOffset := recordOffset\<rparr>))
           (ret True)))"

definition receiveNext :: "cpu \<Rightarrow> (breceiver, bool) act" where
  "receiveNext c =
     bind (on_buffer c (\<lambda>r. ab_getInt64Volatile (br_buffer r) (br_tailCounterIndex r)))
      (\<lambda>tail. bind (peek br_nextRecord)
      (\<lambda>cursor.
        if sint cursor < sint tail
        then bind (validate_cursor c cursor)
          (\<lambda>valid. bind (if \<not> valid
              then andThen (poke (\<lambda>r. r\<lparr>br_lappedCount := br_lappedCount r + 1\<rparr>))
                (on_buffer c (\<lambda>r. ab_getInt64 (br_buffer r) (br_latestCounterIndex r)))
              else ret cursor)
          (\<lambda>cursor. bind (peek (\<lambda>r. ucast cursor AND br_mask r)) (br_land c cursor)))
        else ret False))"

section \<open>The copying receiver\<close>

record copyreceiver =
  cb_receiver :: breceiver
  cb_scratchBuffer :: abuf

text \<open>The constructor skips everything already transmitted; nothing bounds its loop.\<close>

partial_function (option) br_skip :: "cpu \<Rightarrow> breceiver \<Rightarrow> ((exn + unit) \<times> breceiver) option" where
  "br_skip c r =
     (case receiveNext c r of
        (Inl e, r) \<Rightarrow> Some (Inl e, r)
      | (Inr got, r) \<Rightarrow> if got then br_skip c r else Some (Inr (), r))"

definition CopyBroadcastReceiver :: "breceiver \<Rightarrow> addr \<Rightarrow> cpu \<Rightarrow> (exn + copyreceiver) option" where
  "CopyBroadcastReceiver receiver scratch c =
     (case br_skip c receiver of
        None \<Rightarrow> None
      | Some (Inl e, r) \<Rightarrow> Some (Inl e)
      | Some (Inr _, r) \<Rightarrow>
          Some (Inr \<lparr>cb_receiver = r, cb_scratchBuffer = AtomicBuffer scratch 4096\<rparr>))"

text \<open>
  The state of \<^verbatim>\<open>receive\<close> is the receiver, the memory (of the scratch buffer) and the rest that the
  handler works on. The handler may change both, keeps what it changed when it throws, and may not
  return.
\<close>

type_synonym 'u message_handler = "int32_t \<Rightarrow> abuf \<Rightarrow> index_t \<Rightarrow> index_t \<Rightarrow> (cpu \<times> 'u, unit) oact"

definition receive :: "'u message_handler \<Rightarrow> (copyreceiver \<times> cpu \<times> 'u, int32_t) oact" where
  "receive handler = (\<lambda>(cb, c, u).
     let r0 = cb_receiver cb; lastSeenLappedCount = br_lappedCount r0
     in case receiveNext c r0 of
          (Inl e, r) \<Rightarrow> Some (Inl e, cb\<lparr>cb_receiver := r\<rparr>, c, u)
        | (Inr available, r) \<Rightarrow>
            (let cb = cb\<lparr>cb_receiver := r\<rparr>; sb = cb_scratchBuffer cb
             in if \<not> available then Some (Inr 0, cb, c, u)
                else if lastSeenLappedCount \<noteq> br_lappedCount r then Some (Inl IllegalArgumentException, cb, c, u)
                else case fst (br_length c r) of
                       Inl e \<Rightarrow> Some (Inl e, cb, c, u)
                     | Inr len \<Rightarrow>
                         if sint (ab_capacity sb) < sint len then Some (Inl IllegalStateException, cb, c, u)
                         else case fst (br_typeId c r) of
                                Inl e \<Rightarrow> Some (Inl e, cb, c, u)
                              | Inr msgTypeId \<Rightarrow>
                                  (case ab_putBytes sb 0 (br_buffer r) (br_offset r) len c of
                                     (Inl e, c) \<Rightarrow> Some (Inl e, cb, c, u)
                                   | (Inr _, c) \<Rightarrow>
                                       (case fst (br_validate c r) of
                                          Inl e \<Rightarrow> Some (Inl e, cb, c, u)
                                        | Inr ok \<Rightarrow>
                                            if \<not> ok then Some (Inl IllegalStateException, cb, c, u)
                                            else case handler msgTypeId sb 0 len (c, u) of
                                                   None \<Rightarrow> None
                                                 | Some (Inl e, s) \<Rightarrow> Some (Inl e, cb, s)
                                                 | Some (Inr _, s) \<Rightarrow> Some (Inr 1, cb, s)))))"

text \<open>A handler that only reads the memory.\<close>

definition reading :: "'u handler \<Rightarrow> 'u message_handler" where
  "reading handler msgTypeId buffer offset len s =
     (case handler msgTypeId buffer offset len (fst s) (snd s) of
        Inl e \<Rightarrow> Some (Inl e, s) | Inr u \<Rightarrow> Some (Inr (), (fst s, u)))"

text \<open>What the call makes of the outcome of the handler.\<close>

fun received :: "copyreceiver \<Rightarrow> ((exn + unit) \<times> cpu \<times> 'u) option \<Rightarrow> ((exn + int32_t) \<times> copyreceiver \<times> cpu \<times> 'u) option" where
  "received cb None = None"
| "received cb (Some (Inl e, s)) = Some (Inl e, cb, s)"
| "received cb (Some (Inr _, s)) = Some (Inr 1, cb, s)"

section \<open>Well-formed transmitters and receivers\<close>

definition wf_transmitter :: "nat \<Rightarrow> btransmitter \<Rightarrow> bool" where
  "wf_transmitter k bt \<longleftrightarrow> 5 \<le> k \<and> k \<le> 30 \<and> ab_length (bt_buffer bt) = of_nat (2 ^ k + 128) \<and>
     bt_capacity bt = of_nat (2 ^ k) \<and> bt_mask bt = mask k \<and> bt_maxMsgLength bt = of_nat (2 ^ k div 8) \<and>
     bt_tailIntentCounterIndex bt = of_nat (2 ^ k) \<and> bt_tailCounterIndex bt = of_nat (2 ^ k + 8) \<and>
     bt_latestCounterIndex bt = of_nat (2 ^ k + 16)"

definition wf_receiver :: "nat \<Rightarrow> breceiver \<Rightarrow> bool" where
  "wf_receiver k r \<longleftrightarrow> 5 \<le> k \<and> k \<le> 30 \<and> ab_length (br_buffer r) = of_nat (2 ^ k + 128) \<and>
     br_capacity r = of_nat (2 ^ k) \<and> br_mask r = mask k \<and>
     br_tailIntentCounterIndex r = of_nat (2 ^ k) \<and> br_tailCounterIndex r = of_nat (2 ^ k + 8) \<and>
     br_latestCounterIndex r = of_nat (2 ^ k + 16)"

lemma bc_constructors:
  assumes "ab_length b = of_nat (2 ^ k + 128)" "5 \<le> k" "k \<le> 30"
  shows "BroadcastTransmitter b = Inr bt \<Longrightarrow> wf_transmitter k bt \<and> bt_buffer bt = b"
    and "BroadcastReceiver b = Inr r \<Longrightarrow> wf_receiver k r \<and> br_buffer r = b \<and> br_nextRecord r = 0"
proof -
  have c: "ab_length b - 128 = of_nat (2 ^ k)" using assms(1) by simp
  have "(2::nat) ^ k < 2 ^ 31" using pow_le30[OF assms(3)] by simp
  then have s: "sint (of_nat (2 ^ k) :: index_t) = int (2 ^ k)" by (rule sint_of_nat32)
  have m: "(2 ^ k - 1 :: index_t) = mask k" by (simp add: mask_eq_exp_minus_1)
  have "calculateMaxMessageLength (of_nat (2 ^ k)) = of_nat (2 ^ k div 8)"
  proof -
    have "int (2 ^ k) sdiv 8 = int (2 ^ k div 8)" by (simp add: signed_divide_int_def zdiv_int)
    then show ?thesis unfolding calculateMaxMessageLength_def s by (simp only: of_int_of_nat_eq)
  qed
  then show "BroadcastTransmitter b = Inr bt \<Longrightarrow> wf_transmitter k bt \<and> bt_buffer bt = b"
    using assms c m
    by (auto simp: BroadcastTransmitter_def Let_def wf_transmitter_def ab_capacity_def layout split: sum.splits)
  show "BroadcastReceiver b = Inr r \<Longrightarrow> wf_receiver k r \<and> br_buffer r = b \<and> br_nextRecord r = 0"
    using assms c m
    by (auto simp: BroadcastReceiver_def Let_def wf_receiver_def ab_capacity_def layout split: sum.splits)
qed

lemma buffer_index:
  assumes "ab_length b = of_nat L" "L < 2 ^ 31" "off + n \<le> L"
  shows "in_range b (of_nat off) n" "at b (of_nat off) = ab_buffer b + int off"
    "sint (of_nat off :: index_t) = int off"
proof -
  have "off < 2 ^ 31" using assms by simp
  then show s: "sint (of_nat off :: index_t) = int off" by (rule sint_of_nat32)
  have "sint (ab_length b) = int L" using assms sint_of_nat32 by simp
  moreover have "int off + int n \<le> int L" using assms(3) by (metis of_nat_add of_nat_mono)
  ultimately show "in_range b (of_nat off) n" unfolding in_range_def s by simp
  show "at b (of_nat off) = ab_buffer b + int off" by (simp only: at_def s)
qed

lemma bc_size: "k \<le> 30 \<Longrightarrow> 2 ^ k + 128 < (2::nat) ^ 31"
  using pow_le30[of k] by simp

text \<open>The three counters of a broadcast buffer, at the end of its data.\<close>

definition bc_counter :: "abuf \<Rightarrow> nat \<Rightarrow> nat \<Rightarrow> cpu \<Rightarrow> int64_t" where
  "bc_counter b k i c = get_le 8 c (ab_buffer b + 2 ^ k + int i)"

lemma bc_index:
  assumes "ab_length b = of_nat (2 ^ k + 128)" "k \<le> 30" "i \<le> 120"
  shows "in_range b (of_nat (2 ^ k + i)) 8" "at b (of_nat (2 ^ k + i)) = ab_buffer b + 2 ^ k + int i"
  using buffer_index(1,2)[OF assms(1) bc_size[OF assms(2)], of "2 ^ k + i" 8] assms(3) by (simp_all add: add.assoc)

lemma bc_record:
  assumes "ab_length b = of_nat (2 ^ k + 128)" "k \<le> 30" "off + rec_size r \<le> 2 ^ k" "rec_wf r"
  shows "at b (bc_lengthOffset (of_nat off)) = ab_buffer b + int off"
    "at b (bc_typeOffset (of_nat off)) = ab_buffer b + int off + 4"
    "at b (msgOffset (of_nat off)) = ab_buffer b + int off + 8"
    "in_range b (bc_lengthOffset (of_nat off)) 4" "in_range b (bc_typeOffset (of_nat off)) 4"
    "in_range b (msgOffset (of_nat off)) (length (rec_data r))"
proof -
  note b = rec_size_bounds(3,4)[OF assms(4)] and ix = buffer_index[OF assms(1) bc_size[OF assms(2)]]
  have e: "bc_typeOffset (of_nat off) = of_nat (off + 4)" "msgOffset (of_nat off) = of_nat (off + 8)"
    "bc_lengthOffset (of_nat off) = of_nat off"
    by (simp_all add: bc_typeOffset_def msgOffset_def bc_lengthOffset_def layout)
  show "at b (bc_lengthOffset (of_nat off)) = ab_buffer b + int off"
    "at b (bc_typeOffset (of_nat off)) = ab_buffer b + int off + 4"
    "at b (msgOffset (of_nat off)) = ab_buffer b + int off + 8"
    using ix(2)[of off 0] ix(2)[of "off + 4" 0] ix(2)[of "off + 8" 0] assms(3) b unfolding e by simp_all
  show "in_range b (bc_lengthOffset (of_nat off)) 4" "in_range b (bc_typeOffset (of_nat off)) 4"
    "in_range b (msgOffset (of_nat off)) (length (rec_data r))"
    using assms(3) b unfolding e by (intro ix(1); simp)+
qed

section \<open>Transmitting\<close>

lemma bt_put_spec:
  fixes t bs
  defines "r \<equiv> Msg t bs"
  assumes wf: "wf_transmitter k bt" and off: "off + rec_size r \<le> 2 ^ k" and t: "t \<noteq> -1"
    and len: "length bs \<le> 2 ^ k div 8"
    and src: "in_range sb si (length bs)" "load c (at sb si) (length bs) = bs"
      "at sb si + int (length bs) \<le> ab_buffer (bt_buffer bt) \<or> ab_buffer (bt_buffer bt) + 2 ^ k \<le> at sb si"
  shows "\<exists>c'. bt_put bt t sb si (of_nat (length bs)) (of_nat P) (of_nat off) c = (Inr (), c') \<and>
    rec_at k (ab_buffer (bt_buffer bt)) (view c') off r \<and>
    bc_counter (bt_buffer bt) k 8 c' = of_nat (P + rec_size r) \<and>
    bc_counter (bt_buffer bt) k 16 c' = of_nat P \<and>
    bc_counter (bt_buffer bt) k 0 c' = bc_counter (bt_buffer bt) k 0 c \<and>
    (\<forall>x. (x < ab_buffer (bt_buffer bt) + int off \<or> ab_buffer (bt_buffer bt) + int (off + rec_size r) \<le> x) \<and>
       x < ab_buffer (bt_buffer bt) + 2 ^ k \<longrightarrow> view c' x = view c x)"
proof -
  let ?n = "length bs" and ?b = "bt_buffer bt" and ?B = "ab_buffer (bt_buffer bt)" and ?R = "rec_size r"
  let ?a = "?B + int off"
  have w: "rec_wf r" using t by (simp add: r_def)
  have L: "ab_length ?b = of_nat (2 ^ k + 128)" "k \<le> 30" using wf by (simp_all add: wf_transmitter_def)
  note f = bc_record[OF L off w] and b = rec_size_bounds(3,4)[OF w] and ix = bc_index[OF L]
  have k: "(2::nat) ^ k \<le> 1073741824" using L(2) by (rule pow_le30)
  have n: "?n + 8 \<le> ?R" "?n < 2 ^ 31" "?n + 15 < 2 ^ 31" "?R < 2 ^ 31" using b off k len by (simp_all add: r_def)
  have rl: "of_nat ?n + bc_HEADER_LENGTH = (of_nat (?n + 8) :: index_t)" by (simp add: layout)
  have al: "align (of_nat (?n + 8)) RECORD_ALIGNMENT = (of_nat ?R :: index_t)"
    using align_of_nat[of "?n + 8" 3] n(3) by (simp add: rec_size_def layout r_def)
  have oi: "int off + int ?R \<le> 2 ^ k" using off by (metis of_nat_add of_nat_le_iff of_nat_numeral of_nat_power)
  let ?c1 = "put_le 4 c ?a (of_nat (?n + 8) :: int32_t)"
  let ?c2 = "put_le 4 ?c1 (?a + 4) t"
  have ld: "load ?c2 (at sb si) ?n = bs"
    using src(2,3) oi n(1) unfolding load_def view_put_le
    by (subst read_write_disjoint, force)+ auto
  let ?c3 = "emit_bytes ?c2 (?a + 8) bs"
  let ?c4 = "put_le 8 ?c3 (?B + 2 ^ k + 16) (of_nat P :: int64_t)"
  let ?c5 = "put_le 8 ?c4 (?B + 2 ^ k + 8) (of_nat (P + ?R) :: int64_t)"
  have ci: "bt_latestCounterIndex bt = of_nat (2 ^ k + 16)" "bt_tailCounterIndex bt = of_nat (2 ^ k + 8)"
    using wf by (simp_all only: wf_transmitter_def)
  have cn: "in_range ?b (bt_latestCounterIndex bt) 8" "in_range ?b (bt_tailCounterIndex bt) 8"
    "at ?b (bt_latestCounterIndex bt) = ?B + 2 ^ k + 16" "at ?b (bt_tailCounterIndex bt) = ?B + 2 ^ k + 8"
    unfolding ci using ix[of 16] ix[of 8] by simp_all
  have put: "bt_put bt t sb si (of_nat ?n) (of_nat P) (of_nat off) c = (Inr (), ?c5)"
    using f src(1) n(2) ld cn
    by (simp add: bt_put_def Let_def rl al ab_ok r_def scast_of_nat[OF n(4)[unfolded r_def]] del: of_nat_add)
      (simp add: add.assoc)
  have v: "view ?c5 = write_bytes (write_bytes (write_bytes (write_bytes (write_bytes (view c) ?a
      (enc 4 (of_nat (?n + 8) :: int32_t))) (?a + 4) (enc 4 t)) (?a + 8) bs) (?B + 2 ^ k + 16) (enc 8 (of_nat P :: int64_t)))
      (?B + 2 ^ k + 8) (enc 8 (of_nat (P + ?R) :: int64_t))"
    by (simp add: mem_simps del: enc_numeral of_nat_add)
  have "rec_at k ?B (view ?c5) off r"
    using w off oi n(1) unfolding rec_at_def v r_def by (simp add: mem_simps dec_enc del: enc_numeral of_nat_add)
  moreover have "bc_counter ?b k 8 ?c5 = of_nat (P + ?R)" "bc_counter ?b k 16 ?c5 = of_nat P"
    by (simp_all add: bc_counter_def get_le_def load_def v mem_simps dec_enc del: enc_numeral of_nat_add)
  moreover have "bc_counter ?b k 0 ?c5 = bc_counter ?b k 0 c"
    using oi n(1) by (simp add: bc_counter_def get_le_def load_def v mem_simps del: enc_numeral of_nat_add)
  moreover have "view ?c5 x = view c x" if "x < ?a \<or> ?B + int (off + ?R) \<le> x" "x < ?B + 2 ^ k" for x
    using that n(1) unfolding v by (auto simp: write_bytes_def)
  ultimately show ?thesis using put by blast
qed

text \<open>The padding that a record of \<open>R\<close> bytes needs at position \<open>T\<close>.\<close>

definition bc_pad :: "nat \<Rightarrow> nat \<Rightarrow> nat \<Rightarrow> nat" where
  "bc_pad N T R = (if N - T mod N < R then N - T mod N else 0)"

definition pad_recs :: "nat \<Rightarrow> rb_rec list" where
  "pad_recs n = (if n = 0 then [] else [Pad n])"

lemma bc_pad_place:
  assumes "0 < N" "R \<le> N"
  shows "(T + bc_pad N T R) mod N + R \<le> N"
    "bc_pad N T R \<noteq> 0 \<Longrightarrow> T mod N + bc_pad N T R = N \<and> (T + bc_pad N T R) mod N = 0"
proof -
  have t: "T mod N < N" using assms(1) by simp
  have "(T + (N - T mod N)) mod N = (T mod N + (N - T mod N)) mod N" by (metis mod_add_left_eq)
  also have "\<dots> = 0" using t by simp
  finally show "(T + bc_pad N T R) mod N + R \<le> N"
    "bc_pad N T R \<noteq> 0 \<Longrightarrow> T mod N + bc_pad N T R = N \<and> (T + bc_pad N T R) mod N = 0"
    using assms t by (auto simp: bc_pad_def split: if_splits)
qed

lemma insertPaddingRecord_spec:
  assumes L: "ab_length b = of_nat (2 ^ k + 128)" "k \<le> 30" and off: "off + n = 2 ^ k" and n: "8 \<le> n" "8 dvd n"
  shows "\<exists>c'. insertPaddingRecord b (of_nat off) (of_nat n) c = (Inr (), c') \<and>
    rec_at k (ab_buffer b) (view c') off (Pad n) \<and>
    (\<forall>x. x < ab_buffer b + int off \<or> ab_buffer b + int (off + n) \<le> x \<longrightarrow> view c' x = view c x)"
proof -
  let ?a = "ab_buffer b + int off"
  have w: "rec_wf (Pad n)" and o: "off + rec_size (Pad n) \<le> 2 ^ k" using n off by (simp_all add: rec_size_Pad)
  note f = bc_record[OF L o w]
  let ?c2 = "put_le 4 (put_le 4 c ?a (of_nat n :: int32_t)) (?a + 4) (-1 :: int32_t)"
  have "insertPaddingRecord b (of_nat off) (of_nat n) c = (Inr (), ?c2)"
    using f by (simp add: insertPaddingRecord_def ab_ok layout)
  moreover have v: "view ?c2 = write_bytes (write_bytes (view c) ?a (enc 4 (of_nat n :: int32_t)))
      (?a + 4) (enc 4 (-1 :: int32_t))" by (simp add: mem_simps del: enc_numeral)
  moreover have "rec_at k (ab_buffer b) (view ?c2) off (Pad n)"
    using w o unfolding rec_at_def v by (simp add: mem_simps dec_enc del: enc_numeral)
  moreover have "view ?c2 x = view c x" if "x < ?a \<or> ?a + int n \<le> x" for x
    using that n(1) unfolding v by (auto simp: write_bytes_def)
  ultimately show ?thesis by auto
qed

text \<open>
  C16. Transmitting a message writes it after the current tail (after padding to the end of the buffer
  if it does not fit there), announces the new tail first and publishes it last, and leaves every
  earlier record that the announced tail has not overtaken as it was.
\<close>

theorem transmit_appends:
  fixes bs :: "byte list" and t :: int32_t and k T :: nat
  defines "n \<equiv> length bs"
  defines "R \<equiv> rec_size (Msg t bs)"
  defines "pad \<equiv> bc_pad (2 ^ k) T R"
  assumes wf: "wf_transmitter k bt" and T: "bc_counter (bt_buffer bt) k 8 c = of_nat T" "8 dvd T"
    and t: "1 \<le> sint t" and len: "n \<le> 2 ^ k div 8"
    and src: "in_range sb si n" "load c (at sb si) n = bs"
      "at sb si + int n \<le> ab_buffer (bt_buffer bt) \<or> ab_buffer (bt_buffer bt) + 2 ^ k + 128 \<le> at sb si"
  shows "\<exists>c'. transmit bt t sb si (of_nat n) c = (Inr (), c') \<and>
    bc_counter (bt_buffer bt) k 0 c' = of_nat (T + pad + R) \<and>
    bc_counter (bt_buffer bt) k 8 c' = of_nat (T + pad + R) \<and>
    bc_counter (bt_buffer bt) k 16 c' = of_nat (T + pad) \<and>
    (\<forall>H rs. chain k (ab_buffer (bt_buffer bt)) (view c) H rs T \<and> T + pad + R \<le> H + 2 ^ k \<longrightarrow>
       chain k (ab_buffer (bt_buffer bt)) (view c') H (rs @ pad_recs pad @ [Msg t bs]) (T + pad + R))"
proof -
  let ?N = "(2::nat) ^ k" and ?b = "bt_buffer bt" and ?B = "ab_buffer (bt_buffer bt)"
  have L: "ab_length ?b = of_nat (?N + 128)" "k \<le> 30" "5 \<le> k" using wf by (simp_all add: wf_transmitter_def)
  have k: "?N \<le> 1073741824" using L(2) by (rule pow_le30)
  have N5: "(2::nat) ^ 5 \<le> ?N" using L(3) by (intro power_increasing) auto
  have N8: "8 dvd ?N" using le_imp_power_dvd[of 3 k "2::nat"] L(3) by simp
  note ix = bc_index[OF L(1,2)]
  have R: "R \<le> ?N" "0 < R" "R < 2 ^ 31" "n + 15 < 2 ^ 31" "8 dvd R"
    using len N5 k rec_size_bounds(1,2)[of "Msg t bs"] unfolding R_def n_def by (simp_all add: rec_size_def)
  note pl = bc_pad_place[OF _ R(1), of T, folded pad_def]
  have al: "align (of_nat n + bc_HEADER_LENGTH) RECORD_ALIGNMENT = (of_nat R :: index_t)"
    using align_of_nat[of "n + 8" 3] R(4) by (simp add: rec_size_def layout R_def n_def)
  have ci: "bt_tailCounterIndex bt = of_nat (?N + 8)" "bt_tailIntentCounterIndex bt = of_nat (?N + 0)"
    "bt_capacity bt = of_nat ?N" "bt_mask bt = mask k" "bt_maxMsgLength bt = of_nat (?N div 8)"
    using wf by (simp_all only: wf_transmitter_def add_0_right)
  have "sint (of_nat (?N div 8) :: index_t) = int (?N div 8)" "sint (of_nat n :: index_t) = int n"
    using k len by (intro sint_of_nat32; simp)+
  then have chk: "bc_checkMsgTypeId t c = (Inr (), c)" "bt_checkMessageLength bt (of_nat n) c = (Inr (), c)"
    using t len by (simp_all add: bc_checkMsgTypeId_def bt_checkMessageLength_def ci(5) del: of_nat_div)
  have tl: "ab_getInt64 ?b (bt_tailCounterIndex bt) c = (Inr (of_nat T), c)"
    using ix[of 8] T(1) unfolding ci by (simp add: ab_ok bc_counter_def)
  have ti: "ucast (of_nat T :: int64_t) AND bt_mask bt = (of_nat (T mod ?N) :: index_t)"
    unfolding ci by (rule ucast_index)
  have te: "bt_capacity bt - of_nat (T mod ?N) = (of_nat (?N - T mod ?N) :: index_t)"
    unfolding ci by (subst of_nat_diff) simp_all
  have ste: "sint (of_nat (?N - T mod ?N) :: index_t) = int (?N - T mod ?N)" "sint (of_nat R :: index_t) = int R"
    using k R(3) by (intro sint_of_nat32; simp)+
  define c1 where "c1 = put_le 8 c (?B + 2 ^ k) (of_nat (T + pad + R) :: int64_t)"
  have sig: "signalTailIntent bt ?b (of_nat (T + pad + R)) c = (Inr (), c1)"
    using ix[of 0] unfolding signalTailIntent_def ci by (simp add: ab_ok atomic_release_def c1_def)
  have v1: "view c1 = write_bytes (view c) (?B + 2 ^ k) (enc 8 (of_nat (T + pad + R) :: int64_t))"
    by (simp only: view_put_le c1_def)
  have ch1: "chain k ?B (view c1) H rs T" if "chain k ?B (view c) H rs T" "T \<le> H + ?N" for H rs
    by (rule chain_frame[OF that(1) order_refl, of 0]) (use that(2) in \<open>auto simp: v1 write_bytes_def\<close>)
  have "\<exists>c2. (if pad = 0 then ret () else insertPaddingRecord ?b (of_nat (T mod ?N)) (of_nat pad)) c1 = (Inr (), c2) \<and>
      (\<forall>x. x < ?B \<or> ?B + 2 ^ k \<le> x \<longrightarrow> view c2 x = view c1 x) \<and>
      (\<forall>H rs. chain k ?B (view c) H rs T \<and> T + pad + R \<le> H + ?N \<longrightarrow>
         chain k ?B (view c2) H (rs @ pad_recs pad) (T + pad))"
  proof (cases "pad = 0")
    case True
    then show ?thesis using ch1 by (auto simp: pad_recs_def)
  next
    case False
    then have p: "T mod ?N + pad = ?N" using pl(2) by simp
    have p8: "8 dvd pad" using p N8 T(2) by (metis dvd_add_right_iff dvd_mod)
    then have "8 \<le> pad" using False by (auto dest: dvd_imp_le)
    from insertPaddingRecord_spec[OF L(1,2) p this p8, of c1] obtain c2 where
      c2: "insertPaddingRecord ?b (of_nat (T mod ?N)) (of_nat pad) c1 = (Inr (), c2)"
        "rec_at k ?B (view c2) (T mod ?N) (Pad pad)"
        "\<And>x. x < ?B + int (T mod ?N) \<or> ?B + int (T mod ?N + pad) \<le> x \<Longrightarrow> view c2 x = view c1 x" by blast
    have Ni: "?B + int (T mod ?N + pad) = ?B + 2 ^ k" unfolding p by simp
    have "chain k ?B (view c2) H (rs @ [Pad pad]) (T + pad)"
      if "chain k ?B (view c) H rs T" "T + pad + R \<le> H + ?N" for H rs
    proof -
      have "chain k ?B (view c2) H rs T"
        using that p c2(3) by (intro chain_frame[OF ch1[OF that(1)] order_refl, of pad]) auto
      then show ?thesis using c2(2) p8 by (intro chain_append[where q = T]) (auto simp: rec_size_Pad)
    qed
    moreover have "view c2 x = view c1 x" if "x < ?B \<or> ?B + 2 ^ k \<le> x" for x
      using c2(3)[of x] that unfolding Ni by force
    ultimately show ?thesis using c2(1) False by (auto simp: pad_recs_def)
  qed
  then obtain c2 where c2: "(if pad = 0 then ret () else insertPaddingRecord ?b (of_nat (T mod ?N)) (of_nat pad)) c1 = (Inr (), c2)"
    "\<And>x. x < ?B \<or> ?B + 2 ^ k \<le> x \<Longrightarrow> view c2 x = view c1 x"
    "\<And>H rs. chain k ?B (view c) H rs T \<Longrightarrow> T + pad + R \<le> H + ?N \<Longrightarrow>
         chain k ?B (view c2) H (rs @ pad_recs pad) (T + pad)" by blast
  have tr: "transmit bt t sb si (of_nat n) c =
      bt_put bt t sb si (of_nat n) (of_nat (T + pad)) (of_nat ((T + pad) mod ?N)) c2"
  proof (cases "?N - T mod ?N < R")
    case True
    then have pd: "pad = ?N - T mod ?N" by (simp add: pad_def bc_pad_def)
    have "T mod ?N < ?N" by simp
    then have "pad \<noteq> 0" unfolding pd by (simp only: diff_is_0_eq not_le)
    with pd pl(2) have pd: "pad = ?N - T mod ?N" "(T + pad) mod ?N = 0" "pad \<noteq> 0" by simp_all
    have "pad < 2 ^ 31" using pd(1) k by simp
    then have e: "of_nat T + scast (of_nat R :: index_t) + scast (of_nat pad :: index_t) = (of_nat (T + pad + R) :: int64_t)"
      "of_nat T + scast (of_nat pad :: index_t) = (of_nat (T + pad) :: int64_t)"
      using R(3) by (simp_all add: scast_of_nat)
    show ?thesis
      using True sig c2(1) pd(3)
      by (simp add: transmit_def chk tl ti te al ste(2) ste(1)[folded pd(1)] Let_def e pd(2)
          del: of_nat_add of_nat_diff flip: pd(1))
  next
    case False
    then have pd: "pad = 0" by (simp add: pad_def bc_pad_def)
    have e: "of_nat T + scast (of_nat R :: index_t) = (of_nat (T + pad + R) :: int64_t)"
      using R(3) pd by (simp add: scast_of_nat)
    show ?thesis
      using False sig c2(1) pd
      by (simp add: transmit_def chk tl ti te al ste Let_def e del: of_nat_add of_nat_diff)
  qed
  have pos: "(0::int) < 2 ^ k" by simp
  have "view c2 x = view c x" if "x < ?B \<or> ?B + 2 ^ k + 128 \<le> x" for x
  proof -
    have "x < ?B + 2 ^ k \<or> ?B + 2 ^ k + 8 \<le> x" using that pos by linarith
    then have "view c1 x = view c x" unfolding v1 by (intro write_bytes_outside) simp
    then show ?thesis using c2(2)[of x] that by auto
  qed
  then have "load c2 (at sb si) n = load c (at sb si) n"
    unfolding load_def using src(3) by (intro read_bytes_cong) auto
  then have ld: "load c2 (at sb si) n = bs" using src(2) by simp
  have ap: "at sb si + int n \<le> ?B \<or> ?B + 2 ^ k \<le> at sb si" using src(3) by auto
  have "t \<noteq> -1" using t by auto
  from bt_put_spec[OF wf pl(1)[unfolded R_def] this, of sb si c2 "T + pad"] len src(1) ld ap
  obtain c3 where c3: "bt_put bt t sb si (of_nat n) (of_nat (T + pad)) (of_nat ((T + pad) mod ?N)) c2 = (Inr (), c3)"
    "rec_at k ?B (view c3) ((T + pad) mod ?N) (Msg t bs)"
    "bc_counter ?b k 8 c3 = of_nat (T + pad + R)" "bc_counter ?b k 16 c3 = of_nat (T + pad)"
    "bc_counter ?b k 0 c3 = bc_counter ?b k 0 c2"
    "\<And>x. x < ?B + int ((T + pad) mod ?N) \<or> ?B + int ((T + pad) mod ?N + R) \<le> x \<Longrightarrow> x < ?B + 2 ^ k \<Longrightarrow>
       view c3 x = view c2 x"
    unfolding n_def R_def by auto
  have "bc_counter ?b k 0 c2 = of_nat (T + pad + R)"
    unfolding bc_counter_def get_le_def load_def
    by (subst read_bytes_cong[where m' = "view c1"])
      (simp_all add: c2(2) v1 mem_simps dec_enc del: enc_numeral of_nat_add)
  moreover have "chain k ?B (view c3) H (rs @ pad_recs pad @ [Msg t bs]) (T + pad + R)"
    if "chain k ?B (view c) H rs T" "T + pad + R \<le> H + ?N" for H rs
  proof -
    have "chain k ?B (view c3) H (rs @ pad_recs pad) (T + pad)"
      using that c3(6) pl(1) by (intro chain_frame[OF c2(3)[OF that] order_refl, of R]) auto
    then have "chain k ?B (view c3) H ((rs @ pad_recs pad) @ [Msg t bs]) (T + pad + R)"
      using c3(2) by (intro chain_append[where q = "T + pad" and rs = "rs @ pad_recs pad"]) (auto simp: R_def)
    then show ?thesis by simp
  qed
  ultimately show ?thesis using tr c3 by auto
qed

section \<open>Receiving\<close>

lemma receiver_counters:
  assumes "wf_receiver k r"
  shows "on_buffer c (\<lambda>r. ab_getInt64Volatile (br_buffer r) (br_tailCounterIndex r)) r =
      (Inr (bc_counter (br_buffer r) k 8 c), r)"
    "on_buffer c (\<lambda>r. ab_getInt64Volatile (br_buffer r) (br_tailIntentCounterIndex r)) r =
      (Inr (bc_counter (br_buffer r) k 0 c), r)"
    "on_buffer c (\<lambda>r. ab_getInt64 (br_buffer r) (br_latestCounterIndex r)) r =
      (Inr (bc_counter (br_buffer r) k 16 c), r)"
proof -
  have ci: "br_tailCounterIndex r = of_nat (2 ^ k + 8)" "br_tailIntentCounterIndex r = of_nat (2 ^ k + 0)"
    "br_latestCounterIndex r = of_nat (2 ^ k + 16)"
    and L: "ab_length (br_buffer r) = of_nat (2 ^ k + 128)" "k \<le> 30"
    using assms by (simp_all only: wf_receiver_def add_0_right)
  note ix = bc_index[OF L]
  show "on_buffer c (\<lambda>r. ab_getInt64Volatile (br_buffer r) (br_tailCounterIndex r)) r =
      (Inr (bc_counter (br_buffer r) k 8 c), r)"
    "on_buffer c (\<lambda>r. ab_getInt64Volatile (br_buffer r) (br_tailIntentCounterIndex r)) r =
      (Inr (bc_counter (br_buffer r) k 0 c), r)"
    "on_buffer c (\<lambda>r. ab_getInt64 (br_buffer r) (br_latestCounterIndex r)) r =
      (Inr (bc_counter (br_buffer r) k 16 c), r)"
    using ix[of 8] ix[of 0] ix[of 16] unfolding on_buffer_def ci by (simp_all add: ab_ok bc_counter_def)
qed

lemma receiver_record:
  assumes wf: "wf_receiver k r" and rc: "rec_at k (ab_buffer (br_buffer r)) (view c) off x"
  shows "br_advance c (of_nat P) (of_nat off) r =
      (Inr (), r\<lparr>br_cursor := of_nat P, br_nextRecord := of_nat (P + rec_size x)\<rparr>)"
    "on_buffer c (\<lambda>r. ab_getInt32 (br_buffer r) (bc_typeOffset (of_nat off))) r = (Inr (rec_type x), r)"
    "on_buffer c (\<lambda>r. ab_getInt32 (br_buffer r) (bc_lengthOffset (of_nat off))) r =
      (Inr (of_nat (rec_length x)), r)"
    "load c (at (br_buffer r) (msgOffset (of_nat off))) (length (rec_data x)) = rec_data x"
    "in_range (br_buffer r) (msgOffset (of_nat off)) (length (rec_data x))"
proof -
  have L: "ab_length (br_buffer r) = of_nat (2 ^ k + 128)" "k \<le> 30" using wf by (simp_all add: wf_receiver_def)
  have off: "off + rec_size x \<le> 2 ^ k" and w: "rec_wf x" using rc by (simp_all add: rec_at_def)
  note f = bc_record[OF L off w]
  have k: "(2::nat) ^ k \<le> 1073741824" using L(2) by (rule pow_le30)
  have sz: "rec_size x < 2 ^ 31" "rec_length x + 7 < 2 ^ 32" using off k rec_size_bounds(1)[of x] by simp_all
  have al: "align (of_nat (rec_length x)) RECORD_ALIGNMENT = (of_nat (rec_size x) :: index_t)"
    using align_of_nat[of "rec_length x" 3] sz by (simp add: rec_size_def layout)
  have g: "ab_getInt32 (br_buffer r) (bc_lengthOffset (of_nat off)) c = (Inr (of_nat (rec_length x)), c)"
    "ab_getInt32 (br_buffer r) (bc_typeOffset (of_nat off)) c = (Inr (rec_type x), c)"
    using f rc by (simp_all add: ab_ok get_le_def load_def rec_at_def)
  then show "on_buffer c (\<lambda>r. ab_getInt32 (br_buffer r) (bc_typeOffset (of_nat off))) r = (Inr (rec_type x), r)"
    "on_buffer c (\<lambda>r. ab_getInt32 (br_buffer r) (bc_lengthOffset (of_nat off))) r = (Inr (of_nat (rec_length x)), r)"
    by (simp_all add: on_buffer_def)
  show "br_advance c (of_nat P) (of_nat off) r =
      (Inr (), r\<lparr>br_cursor := of_nat P, br_nextRecord := of_nat (P + rec_size x)\<rparr>)"
    using g(1) by (simp add: br_advance_def on_buffer_def al scast_of_nat[OF sz(1)])
  show "load c (at (br_buffer r) (msgOffset (of_nat off))) (length (rec_data x)) = rec_data x"
    "in_range (br_buffer r) (msgOffset (of_nat off)) (length (rec_data x))"
    using f rc by (simp_all add: load_def rec_at_def)
qed

text \<open>The receiver stands on the message \<open>(t, bs)\<close>, which ends at position \<open>P\<close>.\<close>

definition stands_on :: "breceiver \<Rightarrow> cpu \<Rightarrow> int32_t \<Rightarrow> byte list \<Rightarrow> bool" where
  "stands_on r c t bs \<longleftrightarrow> fst (br_typeId c r) = Inr t \<and> fst (br_length c r) = Inr (of_nat (length bs)) \<and>
     load c (at (br_buffer r) (br_offset r)) (length bs) = bs \<and> in_range (br_buffer r) (br_offset r) (length bs)"

lemma stands_onI:
  assumes "wf_receiver k r" "rec_at k (ab_buffer (br_buffer r)) (view c) off (Msg t bs)" "br_recordOffset r = of_nat off"
  shows "stands_on r c t bs"
  using receiver_record[OF assms(1,2)] assms(3)
  by (simp add: stands_on_def br_typeId_def br_length_def br_offset_def layout on_buffer_def bind_def split: sum.splits prod.splits)

lemma wf_receiver_update [simp]:
  "wf_receiver k (r\<lparr>br_cursor := a\<rparr>) = wf_receiver k r" "wf_receiver k (r\<lparr>br_nextRecord := a\<rparr>) = wf_receiver k r"
  "wf_receiver k (r\<lparr>br_recordOffset := i\<rparr>) = wf_receiver k r" "wf_receiver k (r\<lparr>br_lappedCount := a\<rparr>) = wf_receiver k r"
  by (simp_all add: wf_receiver_def)

text \<open>The step onto a record at position \<open>P\<close>, over padding if there is some.\<close>

lemma receiver_step:
  assumes wf: "wf_receiver k r" and ch: "chain k (ab_buffer (br_buffer r)) (view c) P (pad_recs n @ [Msg t bs]) Q"
    and n: "n \<noteq> 0 \<Longrightarrow> (P + n) mod 2 ^ k = 0 \<and> 8 dvd n"
  shows "\<exists>r'. br_land c (of_nat P) (of_nat (P mod 2 ^ k)) r = (Inr True, r') \<and>
      wf_receiver k r' \<and> br_buffer r' = br_buffer r \<and> br_nextRecord r' = of_nat Q \<and>
      br_cursor r' = of_nat (P + n) \<and> br_lappedCount r' = br_lappedCount r \<and> stands_on r' c t bs"
proof (cases "n = 0")
  case True
  then have rc: "rec_at k (ab_buffer (br_buffer r)) (view c) (P mod 2 ^ k) (Msg t bs)"
    and Q: "Q = P + rec_size (Msg t bs)" and tt: "t \<noteq> -1"
    using ch by (auto simp: pad_recs_def rec_at_def)
  let ?r1 = "r\<lparr>br_cursor := of_nat P, br_nextRecord := of_nat (P + rec_size (Msg t bs))\<rparr>"
  let ?r2 = "?r1\<lparr>br_recordOffset := of_nat (P mod 2 ^ k)\<rparr>"
  have 2: "on_buffer c (\<lambda>r. ab_getInt32 (br_buffer r) (bc_typeOffset (of_nat (P mod 2 ^ k)))) ?r1 = (Inr t, ?r1)"
    using receiver_record(2)[of k ?r1 c "P mod 2 ^ k" "Msg t bs"] wf rc by simp
  have "stands_on ?r2 c t bs" using wf rc by (intro stands_onI[where k = k and off = "P mod 2 ^ k"]) simp_all
  then show ?thesis
    using receiver_record(1)[OF wf rc, of P] 2 wf Q True tt
    by (intro exI[of _ ?r2]) (simp add: br_land_def bc_PADDING_MSG_TYPE_ID_def)
next
  case False
  let ?B = "ab_buffer (br_buffer r)"
  have z: "(P + n) mod 2 ^ k = 0" "8 dvd n" using n False by auto
  have rp: "rec_at k ?B (view c) (P mod 2 ^ k) (Pad n)" and rc: "rec_at k ?B (view c) 0 (Msg t bs)"
    and Q: "Q = P + n + rec_size (Msg t bs)"
    using ch False z by (auto simp: pad_recs_def rec_size_Pad)
  let ?r1 = "r\<lparr>br_cursor := of_nat P, br_nextRecord := of_nat (P + n)\<rparr>"
  let ?r2 = "?r1\<lparr>br_cursor := of_nat (P + n), br_nextRecord := of_nat (P + n + rec_size (Msg t bs))\<rparr>"
  let ?r3 = "?r2\<lparr>br_recordOffset := 0\<rparr>"
  have 1: "br_advance c (of_nat P) (of_nat (P mod 2 ^ k)) r = (Inr (), ?r1)"
    using receiver_record(1)[OF wf rp, of P] z by (simp add: rec_size_Pad)
  have 2: "on_buffer c (\<lambda>r. ab_getInt32 (br_buffer r) (bc_typeOffset (of_nat (P mod 2 ^ k)))) ?r1 = (Inr (-1), ?r1)"
    using receiver_record(2)[of k ?r1 c "P mod 2 ^ k" "Pad n"] wf rp by simp
  have 3: "br_advance c (of_nat (P + n)) 0 ?r1 = (Inr (), ?r2)"
    using receiver_record(1)[of k ?r1 c 0 "Msg t bs" "P + n"] wf rc by simp
  have "stands_on ?r3 c t bs" using wf rc by (intro stands_onI[where k = k and off = 0]) simp_all
  then show ?thesis
    using 1 2 3 wf Q by (intro exI[of _ ?r3]) (simp add: br_land_def bc_PADDING_MSG_TYPE_ID_def)
qed

lemma receiveNext_valid:
  assumes wf: "wf_receiver k r"
    and T: "bc_counter (br_buffer r) k 8 c = of_nat T" "bc_counter (br_buffer r) k 0 c = of_nat U"
      "T < 2 ^ 62" "U < 2 ^ 62"
    and P: "br_nextRecord r = of_nat P" "P < 2 ^ 62"
  shows "P < T \<Longrightarrow> validate_cursor c (of_nat P) r = (Inr (U < P + 2 ^ k), r)"
    "receiveNext c r = (if \<not> P < T then (Inr False, r) else
       bind (if P + 2 ^ k \<le> U
              then andThen (poke (\<lambda>r. r\<lparr>br_lappedCount := br_lappedCount r + 1\<rparr>))
                (on_buffer c (\<lambda>r. ab_getInt64 (br_buffer r) (br_latestCounterIndex r)))
              else ret (of_nat P))
          (\<lambda>cursor. bind (peek (\<lambda>r. ucast cursor AND br_mask r)) (br_land c cursor)) r)"
proof -
  have L: "br_capacity r = of_nat (2 ^ k)" "k \<le> 30" using wf by (simp_all only: wf_receiver_def)
  have k: "(2::nat) ^ k \<le> 1073741824" using L(2) by (rule pow_le30)
  have s: "sint (of_nat T :: int64_t) = int T" "sint (of_nat U :: int64_t) = int U"
    "sint (of_nat P :: int64_t) = int P" "sint (of_nat (P + 2 ^ k) :: int64_t) = int (P + 2 ^ k)"
    using T P k by (intro sint_of_nat64; simp)+
  have c: "of_nat P + scast (br_capacity r) = (of_nat (P + 2 ^ k) :: int64_t)"
    unfolding L using k by (subst scast_of_nat) simp_all
  note rc = receiver_counters[OF wf]
  show v: "validate_cursor c (of_nat P) r = (Inr (U < P + 2 ^ k), r)"
    by (simp add: validate_cursor_def rc(2) T c s del: of_nat_add)
  show "receiveNext c r = (if \<not> P < T then (Inr False, r) else
       bind (if P + 2 ^ k \<le> U
              then andThen (poke (\<lambda>r. r\<lparr>br_lappedCount := br_lappedCount r + 1\<rparr>))
                (on_buffer c (\<lambda>r. ab_getInt64 (br_buffer r) (br_latestCounterIndex r)))
              else ret (of_nat P))
          (\<lambda>cursor. bind (peek (\<lambda>r. ucast cursor AND br_mask r)) (br_land c cursor)) r)"
    by (simp add: receiveNext_def rc(1) T P s v not_less)
qed

lemma receiveNext_message:
  assumes wf: "wf_receiver k r"
    and T: "bc_counter (br_buffer r) k 8 c = of_nat T" "bc_counter (br_buffer r) k 0 c = of_nat T" "T < 2 ^ 62"
    and P: "br_nextRecord r = of_nat P" "P \<le> T" "T < P + 2 ^ k"
    and ch: "chain k (ab_buffer (br_buffer r)) (view c) P (pad_recs n @ [Msg t bs]) Q" "Q \<le> T"
      "n \<noteq> 0 \<longrightarrow> (P + n) mod 2 ^ k = 0 \<and> 8 dvd n"
  shows "P < Q" "\<exists>r'. receiveNext c r = (Inr True, r') \<and> stands_on r' c t bs \<and> br_nextRecord r' = of_nat Q \<and>
    br_lappedCount r' = br_lappedCount r \<and> wf_receiver k r' \<and> br_buffer r' = br_buffer r"
proof -
  have Pl: "P < 2 ^ 62" using P T by simp
  note rn = receiveNext_valid(2)[OF wf T(1,2,3,3) P(1) Pl]
  have m: "br_mask r = mask k" using wf by (simp only: wf_receiver_def)
  have "sizes (pad_recs n @ [Msg t bs]) = Q - P" "0 < rec_size (Msg t bs)"
    using chain_sizes[OF ch(1)] rec_size_bounds(1)[of "Msg t bs"] by simp_all
  then show PQ: "P < Q" by (simp add: sizes_def)
  obtain r' where r': "br_land c (of_nat P) (of_nat (P mod 2 ^ k)) r = (Inr True, r')"
    "wf_receiver k r'" "br_buffer r' = br_buffer r" "br_nextRecord r' = of_nat Q"
    "br_lappedCount r' = br_lappedCount r" "stands_on r' c t bs"
    using receiver_step[OF wf ch(1)] ch(3) by blast
  have "receiveNext c r = (Inr True, r')"
    using P(3) PQ ch(2) r'(1) by (simp add: rn m ucast_index bind_laws)
  with r' show "\<exists>r'. receiveNext c r = (Inr True, r') \<and> stands_on r' c t bs \<and> br_nextRecord r' = of_nat Q \<and>
    br_lappedCount r' = br_lappedCount r \<and> wf_receiver k r' \<and> br_buffer r' = br_buffer r" by blast
qed

lemma receiveNext_none:
  assumes "wf_receiver k r" "bc_counter (br_buffer r) k 8 c = of_nat T" "bc_counter (br_buffer r) k 0 c = of_nat T" "T < 2 ^ 62"
    "br_nextRecord r = of_nat T"
  shows "receiveNext c r = (Inr False, r)"
  using receiveNext_valid(2)[OF assms(1-4) assms(4,5) assms(4)] by simp

lemma receiveNext_latest:
  assumes wf: "wf_receiver k r"
    and T: "bc_counter (br_buffer r) k 8 c = of_nat T" "bc_counter (br_buffer r) k 0 c = of_nat U"
      "T < 2 ^ 62" "U < 2 ^ 62"
    and P: "br_nextRecord r = of_nat P" "P < T" "P + 2 ^ k \<le> U"
    and latest: "bc_counter (br_buffer r) k 16 c = of_nat Y"
      "rec_at k (ab_buffer (br_buffer r)) (view c) (Y mod 2 ^ k) (Msg t bs)"
  shows "\<exists>r'. receiveNext c r = (Inr True, r') \<and> stands_on r' c t bs \<and> br_lappedCount r' = br_lappedCount r + 1 \<and>
    br_nextRecord r' = of_nat (Y + rec_size (Msg t bs)) \<and> wf_receiver k r' \<and> br_buffer r' = br_buffer r"
proof -
  have Pl: "P < 2 ^ 62" using P T by simp
  let ?r = "r\<lparr>br_lappedCount := br_lappedCount r + 1\<rparr>"
  have wf': "wf_receiver k ?r" using wf by simp
  have ch: "chain k (ab_buffer (br_buffer ?r)) (view c) Y (pad_recs 0 @ [Msg t bs]) (Y + rec_size (Msg t bs))"
    using latest(2) by (simp add: pad_recs_def)
  obtain r' where r': "br_land c (of_nat Y) (of_nat (Y mod 2 ^ k)) ?r = (Inr True, r')" "wf_receiver k r'"
    "br_buffer r' = br_buffer r" "br_nextRecord r' = of_nat (Y + rec_size (Msg t bs))"
    "br_lappedCount r' = br_lappedCount r + 1" "stands_on r' c t bs"
    using receiver_step[OF wf' ch] by auto
  have l: "on_buffer c (\<lambda>r. ab_getInt64 (br_buffer r) (br_latestCounterIndex r)) ?r = (Inr (of_nat Y), ?r)"
    using receiver_counters(3)[OF wf', of c] latest(1) by simp
  have m: "br_mask r = mask k" using wf by (simp only: wf_receiver_def)
  have "receiveNext c r = (Inr True, r')"
    using receiveNext_valid(2)[OF wf T P(1) Pl] P l r'(1) by (simp add: m ucast_index)
  with r' show ?thesis by blast
qed

text \<open>
  C17. A receiver that is not overtaken receives the messages of a broadcast buffer one by one, in the
  order they were transmitted and with their type and bytes, stepping over padding; it reports that
  there is none exactly when it has reached the tail.
\<close>

theorem receiveNext_in_order:
  assumes wf: "wf_receiver k r"
    and T: "bc_counter (br_buffer r) k 8 c = of_nat T" "bc_counter (br_buffer r) k 0 c = of_nat T" "T < 2 ^ 62"
    and P: "br_nextRecord r = of_nat P" "P \<le> T" "T < P + 2 ^ k"
  shows "(P = T \<longrightarrow> receiveNext c r = (Inr False, r)) \<and>
    (\<forall>n t bs Q. chain k (ab_buffer (br_buffer r)) (view c) P (pad_recs n @ [Msg t bs]) Q \<and> Q \<le> T \<and>
        (n \<noteq> 0 \<longrightarrow> (P + n) mod 2 ^ k = 0 \<and> 8 dvd n) \<longrightarrow>
      (\<exists>r'. receiveNext c r = (Inr True, r') \<and> stands_on r' c t bs \<and> br_nextRecord r' = of_nat Q \<and>
         br_lappedCount r' = br_lappedCount r \<and> wf_receiver k r' \<and> br_buffer r' = br_buffer r))"
proof (intro conjI impI allI; (elim conjE)?)
  show "receiveNext c r = (Inr False, r)" if "P = T" using receiveNext_none[OF wf T] P(1) that by simp
qed (rule receiveNext_message(2)[OF wf T P])

text \<open>
  C18. A receiver that the announced tail has overtaken counts it and jumps to the latest record, so it
  never delivers bytes of a record that may be being overwritten.
\<close>

theorem receiveNext_lapped:
  assumes wf: "wf_receiver k r"
    and T: "bc_counter (br_buffer r) k 8 c = of_nat T" "bc_counter (br_buffer r) k 0 c = of_nat U"
      "T < 2 ^ 62" "U < 2 ^ 62"
    and P: "br_nextRecord r = of_nat P" "P < T" "P + 2 ^ k \<le> U"
    and latest: "bc_counter (br_buffer r) k 16 c = of_nat Y"
      "rec_at k (ab_buffer (br_buffer r)) (view c) (Y mod 2 ^ k) (Msg t bs)"
  shows "\<exists>r'. receiveNext c r = (Inr True, r') \<and> stands_on r' c t bs \<and>
    br_lappedCount r' = br_lappedCount r + 1 \<and> br_nextRecord r' = of_nat (Y + rec_size (Msg t bs))"
  using receiveNext_latest[OF assms] by blast

section \<open>Attaching a copying receiver\<close>

text \<open>The messages from \<open>P\<close> to \<open>Q\<close>, each with the padding before it.\<close>

inductive message_run :: "nat \<Rightarrow> addr \<Rightarrow> mem \<Rightarrow> nat \<Rightarrow> (int32_t \<times> byte list) list \<Rightarrow> nat \<Rightarrow> bool" for k base m where
  no_message: "message_run k base m P [] P"
| a_message: "chain k base m P (pad_recs n @ [Msg t bs]) Q \<Longrightarrow> n \<noteq> 0 \<longrightarrow> (P + n) mod 2 ^ k = 0 \<and> 8 dvd n \<Longrightarrow>
    message_run k base m Q ms R \<Longrightarrow> message_run k base m P ((t, bs) # ms) R"

lemma message_run_le: "message_run k base m P ms R \<Longrightarrow> P \<le> R"
  by (induction rule: message_run.induct) (auto dest: chain_sizes)

lemma br_skip_run:
  assumes "message_run k B (view c) P ms T" "wf_receiver k r" "br_buffer r = b" "ab_buffer b = B"
    and "bc_counter b k 8 c = of_nat T" "bc_counter b k 0 c = of_nat T" "T < 2 ^ 62" "br_nextRecord r = of_nat P" "T < P + 2 ^ k"
  shows "\<exists>r'. br_skip c r = Some (Inr (), r') \<and> wf_receiver k r' \<and> br_buffer r' = b \<and> br_nextRecord r' = of_nat T"
  using assms
proof (induction arbitrary: r rule: message_run.induct)
  case (no_message P)
  then have "receiveNext c r = (Inr False, r)" using receiveNext_none[of k r c P] by simp
  then show ?case using no_message by (simp add: br_skip.simps)
next
  case (a_message P n t bs Q ms R)
  have le: "Q \<le> R" using message_run_le[OF a_message.hyps(3)] .
  have ch: "chain k (ab_buffer (br_buffer r)) (view c) P (pad_recs n @ [Msg t bs]) Q"
    using a_message.hyps(1) a_message.prems(2,3) by simp
  have ct: "bc_counter (br_buffer r) k 8 c = of_nat R" "bc_counter (br_buffer r) k 0 c = of_nat R"
    using a_message.prems(2,4,5) by simp_all
  have PR: "P \<le> R" using message_run_le[OF message_run.a_message[OF a_message.hyps(1-3)]] .
  note step = receiveNext_message[OF a_message.prems(1) ct a_message.prems(6,7) PR a_message.prems(8) ch le a_message.hyps(2)]
  obtain r1 where r1: "receiveNext c r = (Inr True, r1)" "br_nextRecord r1 = of_nat Q" "wf_receiver k r1" "br_buffer r1 = b"
    using step(2) a_message.prems(2) by blast
  have "R < Q + 2 ^ k" using step(1) a_message.prems(8) by simp
  with a_message.IH[OF r1(3,4) a_message.prems(3-6) r1(2)] obtain r' where
    "br_skip c r1 = Some (Inr (), r')" "wf_receiver k r'" "br_buffer r' = b" "br_nextRecord r' = of_nat R" by blast
  then show ?case using r1(1) by (subst br_skip.simps) simp
qed

text \<open>
  \<open>T\<close> bytes have been transmitted, whole messages with their padding: all of them are still there, or
  the latest is known and ends at \<open>T\<close>.
\<close>

definition transmitted :: "nat \<Rightarrow> abuf \<Rightarrow> cpu \<Rightarrow> nat \<Rightarrow> bool" where
  "transmitted k b c T \<longleftrightarrow> bc_counter b k 8 c = of_nat T \<and> bc_counter b k 0 c = of_nat T \<and> T < 2 ^ 62 \<and>
     (if T < 2 ^ k then \<exists>ms. message_run k (ab_buffer b) (view c) 0 ms T
      else \<exists>Y t bs. bc_counter b k 16 c = of_nat Y \<and> rec_at k (ab_buffer b) (view c) (Y mod 2 ^ k) (Msg t bs) \<and>
        Y + rec_size (Msg t bs) = T)"

lemma message_run_cong:
  assumes "message_run k base m P ms R" "\<And>x. base \<le> x \<Longrightarrow> x < base + 2 ^ k \<Longrightarrow> m x = m' x"
  shows "message_run k base m' P ms R"
  using assms(1)
proof induction
  case (a_message P n t bs Q ms R)
  have "int (j mod 2 ^ k) < int (2 ^ k)" for j unfolding of_nat_less_iff by (rule mod_less_divisor) simp
  then have "int (j mod 2 ^ k) < 2 ^ k" for j by simp
  then have "chain k base m' P (pad_recs n @ [Msg t bs]) Q"
    by (intro chain_cong[OF a_message.hyps(1)] assms(2)) auto
  then show ?case using a_message by (intro message_run.a_message)
qed (rule message_run.no_message)

lemma transmitted_cong:
  assumes "transmitted k b c T" "\<And>x. ab_buffer b \<le> x \<Longrightarrow> x < ab_buffer b + 2 ^ k + 128 \<Longrightarrow> view c x = view c' x"
  shows "transmitted k b c' T"
proof -
  have counter: "bc_counter b k n c' = bc_counter b k n c" if "n \<in> {0, 8, 16}" for n
  proof -
    have "(0::int) < 2 ^ k" by simp
    then have "ab_buffer b \<le> x" if "ab_buffer b + 2 ^ k \<le> x" for x using that by linarith
    note below = this
    have "read_bytes (view c') (ab_buffer b + 2 ^ k + int n) 8 = read_bytes (view c) (ab_buffer b + 2 ^ k + int n) 8"
      using that by (intro read_bytes_cong assms(2)[symmetric]) (auto intro: below)
    then show ?thesis by (simp add: bc_counter_def get_le_def load_def)
  qed
  have run: "message_run k (ab_buffer b) (view c') 0 ms T" if "message_run k (ab_buffer b) (view c) 0 ms T" for ms
    by (rule message_run_cong[OF that]) (auto intro: assms(2))
  have rec: "rec_at k (ab_buffer b) (view c') off r" if "rec_at k (ab_buffer b) (view c) off r" for off r
  proof (rule rec_at_cong[OF that])
    have "int (off + rec_size r) \<le> 2 ^ k" using that by (simp add: rec_at_def of_nat_le_numeral_power_cancel_iff flip: of_nat_add)
    then show "view c x = view c' x" if "ab_buffer b + int off \<le> x" "x < ab_buffer b + int (off + rec_size r)" for x
      using that by (intro assms(2)) auto
  qed
  have c: "bc_counter b k 8 c' = bc_counter b k 8 c" "bc_counter b k 0 c' = bc_counter b k 0 c"
    "bc_counter b k 16 c' = bc_counter b k 16 c" by (simp_all add: counter)
  show ?thesis using assms(1) unfolding transmitted_def c by (cases "T < 2 ^ k") (simp_all, (blast intro: run rec)+)
qed

lemma CopyBroadcastReceiver_spec:
  assumes r: "BroadcastReceiver b = Inr r" "ab_length b = of_nat (2 ^ k + 128)" "5 \<le> k" "k \<le> 30" and T: "transmitted k b c T"
  shows "\<exists>r'. CopyBroadcastReceiver r scratch c = Some (Inr \<lparr>cb_receiver = r', cb_scratchBuffer = AtomicBuffer scratch 4096\<rparr>) \<and>
    wf_receiver k r' \<and> br_buffer r' = b \<and> br_nextRecord r' = of_nat T"
proof -
  have wf: "wf_receiver k r" "br_buffer r = b" "br_nextRecord r = of_nat 0"
    using bc_constructors(2)[OF r(2-4,1)] by simp_all
  have t: "bc_counter b k 8 c = of_nat T" "bc_counter b k 0 c = of_nat T" "T < 2 ^ 62" using T by (simp_all add: transmitted_def)
  have "\<exists>r'. br_skip c r = Some (Inr (), r') \<and> wf_receiver k r' \<and> br_buffer r' = b \<and> br_nextRecord r' = of_nat T"
  proof (cases "T < 2 ^ k")
    case True
    then obtain ms where "message_run k (ab_buffer b) (view c) 0 ms T" using T by (auto simp: transmitted_def)
    then show ?thesis using br_skip_run[OF _ wf(1,2) HOL.refl t wf(3)] True by simp
  next
    case False
    then obtain Y t' bs where Y: "bc_counter (br_buffer r) k 16 c = of_nat Y"
      "rec_at k (ab_buffer (br_buffer r)) (view c) (Y mod 2 ^ k) (Msg t' bs)" "Y + rec_size (Msg t' bs) = T"
      using T wf(2) by (auto simp: transmitted_def)
    have "0 < (2 :: nat) ^ k" by simp
    then have T0: "0 < T" "0 + 2 ^ k \<le> T" using False by linarith+
    have ct: "bc_counter (br_buffer r) k 8 c = of_nat T" "bc_counter (br_buffer r) k 0 c = of_nat T" using t wf(2) by simp_all
    obtain r1 where r1: "receiveNext c r = (Inr True, r1)" "br_nextRecord r1 = of_nat T" "wf_receiver k r1" "br_buffer r1 = b"
      using receiveNext_latest[OF wf(1) ct t(3,3) wf(3) T0 Y(1,2)] Y(3) wf(2) by auto
    have "receiveNext c r1 = (Inr False, r1)" using receiveNext_none[OF r1(3) _ _ t(3) r1(2)] t r1(4) by simp
    then have "br_skip c r1 = Some (Inr (), r1)" by (subst br_skip.simps) simp
    then have "br_skip c r = Some (Inr (), r1)" using r1(1) by (subst br_skip.simps) simp
    then show ?thesis using r1 by blast
  qed
  then show ?thesis by (auto simp: CopyBroadcastReceiver_def)
qed

text \<open>
  Attaching a copying receiver to a broadcast buffer returns, and what it receives next is what is
  transmitted from then on: it skips the messages that are there one by one, or, if more has been
  transmitted than the buffer holds, goes to the latest and past it.
\<close>

theorem receiver_attaches:
  assumes "BroadcastReceiver b = Inr r" "ab_length b = of_nat (2 ^ k + 128)" "5 \<le> k" "k \<le> 30" "transmitted k b c T"
  shows "\<exists>r'. CopyBroadcastReceiver r scratch c = Some (Inr \<lparr>cb_receiver = r', cb_scratchBuffer = AtomicBuffer scratch 4096\<rparr>) \<and>
    wf_receiver k r' \<and> br_buffer r' = b \<and> br_nextRecord r' = of_nat T"
  by (rule CopyBroadcastReceiver_spec[OF assms])

lemma receive_spec:
  fixes cb c
  defines "r \<equiv> cb_receiver cb"
  assumes wf: "wf_receiver k r"
    and T: "bc_counter (br_buffer r) k 8 c = of_nat T" "bc_counter (br_buffer r) k 0 c = of_nat T" "T < 2 ^ 62"
    and P: "br_nextRecord r = of_nat P" "P \<le> T" "T < P + 2 ^ k"
    and sc: "cb_scratchBuffer cb = AtomicBuffer scratch 4096"
      "scratch + 4096 \<le> ab_buffer (br_buffer r) \<or> ab_buffer (br_buffer r) + 2 ^ k + 128 \<le> scratch"
    and msg: "chain k (ab_buffer (br_buffer r)) (view c) P (pad_recs n @ [Msg t bs]) Q" "Q \<le> T"
      "n \<noteq> 0 \<longrightarrow> (P + n) mod 2 ^ k = 0 \<and> 8 dvd n" "length bs \<le> 4096"
  shows "\<exists>cb' c'. br_nextRecord (cb_receiver cb') = of_nat Q \<and> load c' scratch (length bs) = bs \<and>
    receive handler (cb, c, u) = received cb' (handler t (AtomicBuffer scratch 4096) 0 (of_nat (length bs)) (c', u))"
proof -
  have Pl: "P < 2 ^ 62" using P T by simp
  have m: "br_mask r = mask k" "br_capacity r = of_nat (2 ^ k)" using wf by (simp_all only: wf_receiver_def)
  have L: "ab_length (br_buffer r) = of_nat (2 ^ k + 128)" "k \<le> 30" using wf by (simp_all add: wf_receiver_def)
  obtain r' where r': "br_land c (of_nat P) (of_nat (P mod 2 ^ k)) r = (Inr True, r')"
    "wf_receiver k r'" "br_buffer r' = br_buffer r" "br_nextRecord r' = of_nat Q" "br_cursor r' = of_nat (P + n)"
    "br_lappedCount r' = br_lappedCount r" "stands_on r' c t bs"
    using receiver_step[OF wf msg(1)] msg(3) by blast
  have "sizes (pad_recs n @ [Msg t bs]) = Q - P" "P \<le> Q" using chain_sizes[OF msg(1)] by simp_all
  moreover have "sizes (pad_recs n) = n" using msg(3) by (auto simp: sizes_def pad_recs_def rec_size_Pad)
  moreover have "0 < rec_size (Msg t bs)" using rec_size_bounds(1)[of "Msg t bs"] by simp
  ultimately have PT: "P < T" "P + n \<le> T" using msg(2) by (auto simp: sizes_def)
  have rn: "receiveNext c r = (Inr True, r')"
    using receiveNext_valid(2)[OF wf T(1,2,3,3) P(1) Pl] PT P(3) r'(1) by (simp add: m ucast_index bind_laws)
  have st: "fst (br_typeId c r') = Inr t" "fst (br_length c r') = Inr (of_nat (length bs))"
    "load c (at (br_buffer r') (br_offset r')) (length bs) = bs" "in_range (br_buffer r') (br_offset r') (length bs)"
    using r'(7) by (auto simp: stands_on_def)
  let ?sb = "AtomicBuffer scratch 4096" and ?n = "length bs"
  have n: "?n < 2 ^ 31" "sint (of_nat ?n :: index_t) = int ?n" using msg(4) by (simp, intro sint_of_nat32, simp)
  have rs: "in_range ?sb 0 ?n" "at ?sb 0 = scratch" using msg(4) by (simp_all add: in_range_def AtomicBuffer_def at_def)
  let ?c = "emit_bytes c scratch bs"
  have put: "ab_putBytes ?sb 0 (br_buffer r') (br_offset r') (of_nat ?n) c = (Inr (), ?c)"
    using ab_bytes_ok(1)[OF rs(1) n(1) st(4)] by (simp add: rs(2) st(3))
  have cnt: "bc_counter (br_buffer r) k 0 ?c = of_nat T"
  proof -
    have pos: "(0::int) < 2 ^ k" by simp
    have "scratch + int ?n \<le> ab_buffer (br_buffer r) + 2 ^ k \<or> ab_buffer (br_buffer r) + 2 ^ k + 8 \<le> scratch"
      using sc(2) msg(4) pos by linarith
    then have "read_bytes (view ?c) (ab_buffer (br_buffer r) + 2 ^ k) 8 = read_bytes (view c) (ab_buffer (br_buffer r) + 2 ^ k) 8"
      unfolding view_emit_bytes by (intro read_write_disjoint) auto
    then show ?thesis using T(2) by (simp add: bc_counter_def get_le_def load_def)
  qed
  have "validate_cursor ?c (of_nat (P + n)) r' = (Inr True, r')"
  proof -
    have k: "(2::nat) ^ k \<le> 1073741824" using L(2) by (rule pow_le30)
    have s: "sint (of_nat T :: int64_t) = int T" "sint (of_nat (P + n + 2 ^ k) :: int64_t) = int (P + n + 2 ^ k)"
      using T PT k by (intro sint_of_nat64; simp)+
    have cp: "of_nat (P + n) + scast (br_capacity r') = (of_nat (P + n + 2 ^ k) :: int64_t)"
      using r'(2) k by (simp add: wf_receiver_def scast_of_nat flip: of_nat_power[of 2 k] del: of_nat_power)
    have "T < P + n + 2 ^ k" using P(3) by simp
    then have "int T < int (P + n + 2 ^ k)" by (simp only: of_nat_less_iff)
    then show ?thesis
      using receiver_counters(2)[OF r'(2), of ?c] cnt r'(3)
      by (simp add: validate_cursor_def cp s del: of_nat_add)
  qed
  then have val: "fst (br_validate ?c r') = Inr True" by (simp add: br_validate_def r'(5) atomic_acquire_def)
  have "receive handler (cb, c, u) = (case handler t ?sb 0 (of_nat ?n) (?c, u) of
      None \<Rightarrow> None
    | Some (Inl e, s) \<Rightarrow> Some (Inl e, cb\<lparr>cb_receiver := r'\<rparr>, s)
    | Some (Inr _, s) \<Rightarrow> Some (Inr 1, cb\<lparr>cb_receiver := r'\<rparr>, s))"
    using rn r'(6) st(1,2) put val n(2) msg(4)
    by (simp add: receive_def sc(1) flip: r_def) (simp add: AtomicBuffer_def ab_capacity_def Let_def)
  also have "\<dots> = received (cb\<lparr>cb_receiver := r'\<rparr>) (handler t ?sb 0 (of_nat ?n) (?c, u))"
    by (auto split: option.splits prod.splits sum.splits)
  finally have "receive handler (cb, c, u) = received (cb\<lparr>cb_receiver := r'\<rparr>) (handler t ?sb 0 (of_nat ?n) (?c, u))" .
  moreover have "load ?c scratch ?n = bs" by (simp add: load_def mem_simps)
  ultimately show ?thesis using r'(4) by (intro exI[of _ "cb\<lparr>cb_receiver := r'\<rparr>"] exI[of _ ?c]) simp
qed

text \<open>
  The copying receiver hands the handler a private copy of the next message: it returns 1, the
  handler sees the type and the bytes that were transmitted, in the scratch buffer; with no message it
  returns 0 and calls no handler.
\<close>

theorem receive_copies:
  fixes cb c
  defines "r \<equiv> cb_receiver cb"
  assumes wf: "wf_receiver k r"
    and T: "bc_counter (br_buffer r) k 8 c = of_nat T" "bc_counter (br_buffer r) k 0 c = of_nat T" "T < 2 ^ 62"
    and P: "br_nextRecord r = of_nat P" "P \<le> T" "T < P + 2 ^ k"
    and sc: "cb_scratchBuffer cb = AtomicBuffer scratch 4096"
      "scratch + 4096 \<le> ab_buffer (br_buffer r) \<or> ab_buffer (br_buffer r) + 2 ^ k + 128 \<le> scratch"
    and msg: "chain k (ab_buffer (br_buffer r)) (view c) P (pad_recs n @ [Msg t bs]) Q" "Q \<le> T"
      "n \<noteq> 0 \<longrightarrow> (P + n) mod 2 ^ k = 0 \<and> 8 dvd n" "length bs \<le> 4096"
  shows "\<exists>cb' c'. receive (reading collect) (cb, c, u) = Some (Inr 1, cb', c', u @ [(t, bs)]) \<and>
    br_nextRecord (cb_receiver cb') = of_nat Q"
proof -
  obtain cb' c' where r: "br_nextRecord (cb_receiver cb') = of_nat Q" "load c' scratch (length bs) = bs"
    "receive (reading collect) (cb, c, u) =
      received cb' (reading collect t (AtomicBuffer scratch 4096) 0 (of_nat (length bs)) (c', u))"
    using receive_spec[OF assms(2-)[unfolded r_def], of "reading collect" u] by blast
  have "length bs < 2 ^ 31" using msg(4) by simp
  then have "collect t (AtomicBuffer scratch 4096) 0 (of_nat (length bs)) c' u = Inr (u @ [(t, bs)])"
    using r(2) by (simp add: collect_def size_of_nat AtomicBuffer_def at_def)
  then show ?thesis using r by (auto simp: reading_def)
qed

section \<open>A buffer with one message\<close>

definition demo_bc :: abuf where
  "demo_bc = AtomicBuffer 8192 4224"

definition demo_bt :: btransmitter where
  "demo_bt = (case BroadcastTransmitter demo_bc of Inr bt \<Rightarrow> bt | Inl e \<Rightarrow> undefined)"

definition demo_br :: breceiver where
  "demo_br = (case BroadcastReceiver demo_bc of Inr r \<Rightarrow> r | Inl e \<Rightarrow> undefined)"

lemma demo_bc_wf:
  "wf_transmitter 12 demo_bt" "bt_buffer demo_bt = demo_bc"
  "wf_receiver 12 demo_br" "br_buffer demo_br = demo_bc" "br_nextRecord demo_br = of_nat 0"
proof -
  have L: "ab_length demo_bc = of_nat (2 ^ 12 + 128)" by (simp add: demo_bc_def AtomicBuffer_def)
  have "BroadcastTransmitter demo_bc = Inr demo_bt" "BroadcastReceiver demo_bc = Inr demo_br"
    by (simp_all add: demo_bt_def demo_br_def BroadcastTransmitter_def BroadcastReceiver_def Let_def demo_bc_def
        AtomicBuffer_def ab_capacity_def layout bc_checkCapacity_def isPowerOfTwo_def)
  then show "wf_transmitter 12 demo_bt" "bt_buffer demo_bt = demo_bc"
    "wf_receiver 12 demo_br" "br_buffer demo_br = demo_bc" "br_nextRecord demo_br = of_nat 0"
    using bc_constructors[OF L] by auto
qed

lemma demo_zeros:
  assumes "t \<noteq> - 1" "n \<le> 60"
  shows "\<exists>c. bc_counter demo_bc 12 8 c = of_nat (rec_size (Msg t (replicate n 0))) \<and> bc_counter demo_bc 12 0 c = of_nat U \<and>
     bc_counter demo_bc 12 16 c = of_nat 0 \<and> rec_at 12 (ab_buffer demo_bc) (view c) 0 (Msg t (replicate n 0))"
proof -
  let ?c = "put_le 8 blank (8192 + 4096) (of_nat U :: int64_t)" and ?bs = "replicate n (0 :: byte)"
  have v: "view ?c = write_bytes (view blank) 12288 (enc 8 (of_nat U :: int64_t))" by (simp only: view_put_le) simp
  have i: "bc_counter demo_bc 12 0 ?c = of_nat U"
    by (simp add: bc_counter_def demo_bc_def AtomicBuffer_def get_le_def load_def v mem_simps dec_enc del: enc_numeral)
  have "read_bytes (view ?c) 0 n = read_bytes (view blank) 0 n"
    unfolding v using assms(2) by (intro read_write_disjoint) simp
  then have ld: "load ?c 0 n = ?bs" using load_blank[of 0 n] by (simp add: load_def)
  have "0 + rec_size (Msg t ?bs) \<le> 2 ^ 12" "t \<noteq> - 1" "length ?bs \<le> 2 ^ 12 div 8"
    "in_range (AtomicBuffer 0 64) 0 (length ?bs)" "load ?c (at (AtomicBuffer 0 64) 0) (length ?bs) = ?bs"
    "at (AtomicBuffer 0 64) 0 + int (length ?bs) \<le> ab_buffer (bt_buffer demo_bt)"
    using ld assms by (simp_all add: rec_size_def in_range_def AtomicBuffer_def at_def demo_bc_wf demo_bc_def)
  from bt_put_spec[OF demo_bc_wf(1) this(1-5) disjI1[OF this(6)], of 0] i
  show ?thesis by (auto simp: demo_bc_wf)
qed

lemma demo_one_message:
  "\<exists>c. bc_counter demo_bc 12 8 c = of_nat 16 \<and> bc_counter demo_bc 12 0 c = of_nat U \<and>
     bc_counter demo_bc 12 16 c = of_nat 0 \<and> rec_at 12 (ab_buffer demo_bc) (view c) 0 (Msg 5 [0, 0, 0])"
  using demo_zeros[of 5 3 U] by (simp add: rec_size_def numeral_3_eq_3)

theorem transmit_appends_witness:
  "\<exists>c'. transmit demo_bt 5 (AtomicBuffer 0 64) 0 3 blank = (Inr (), c') \<and> bc_counter demo_bc 12 8 c' = 16"
proof -
  have "bc_counter (bt_buffer demo_bt) 12 8 blank = of_nat 0"
    by (simp add: bc_counter_def get_le_def load_blank dec_zeros)
  moreover have "length [0, 0, 0 :: byte] \<le> 2 ^ 12 div 8" "in_range (AtomicBuffer 0 64) 0 (length [0, 0, 0 :: byte])"
    "load blank (at (AtomicBuffer 0 64) 0) (length [0, 0, 0 :: byte]) = [0, 0, 0]"
    "at (AtomicBuffer 0 64) 0 + int (length [0, 0, 0 :: byte]) \<le> ab_buffer (bt_buffer demo_bt)"
    by (simp_all add: in_range_def AtomicBuffer_def at_def demo_bc_wf demo_bc_def load_blank)
  ultimately show ?thesis
    using transmit_appends[where bs = "[0, 0, 0]" and t = 5 and T = 0 and c = blank and sb = "AtomicBuffer 0 64"
        and si = 0, OF demo_bc_wf(1)]
    by (auto simp: demo_bc_wf bc_pad_def rec_size_def)
qed

theorem receiveNext_in_order_witness:
  "\<exists>c r'. receiveNext c demo_br = (Inr True, r') \<and> stands_on r' c 5 [0, 0, 0]"
proof -
  obtain c where c: "bc_counter demo_bc 12 8 c = of_nat 16" "bc_counter demo_bc 12 0 c = of_nat 16"
    "rec_at 12 (ab_buffer demo_bc) (view c) 0 (Msg 5 [0, 0, 0])" using demo_one_message[of 16] by blast
  have "chain 12 (ab_buffer (br_buffer demo_br)) (view c) 0 (pad_recs 0 @ [Msg 5 [0, 0, 0]]) 16"
    using c(3) by (simp add: pad_recs_def demo_bc_wf rec_size_def)
  moreover have "bc_counter (br_buffer demo_br) 12 8 c = of_nat 16" "bc_counter (br_buffer demo_br) 12 0 c = of_nat 16"
    "(16::nat) < 2 ^ 62" "(0::nat) \<le> 16" "(16::nat) < 0 + 2 ^ 12" using c demo_bc_wf(4) by simp_all
  ultimately show ?thesis
    using conjunct2[OF receiveNext_in_order[OF demo_bc_wf(3) _ _ _ demo_bc_wf(5)], rule_format, of c 16 0 5 "[0, 0, 0]" 16]
    by blast
qed

theorem receiveNext_lapped_witness:
  "\<exists>c r'. receiveNext c demo_br = (Inr True, r') \<and> br_lappedCount r' = br_lappedCount demo_br + 1"
proof -
  obtain c where c: "bc_counter demo_bc 12 8 c = of_nat 16" "bc_counter demo_bc 12 0 c = of_nat 5000"
    "bc_counter demo_bc 12 16 c = of_nat 0"
    "rec_at 12 (ab_buffer demo_bc) (view c) 0 (Msg 5 [0, 0, 0])" using demo_one_message[of 5000] by blast
  with receiveNext_lapped[OF demo_bc_wf(3), of c 16 5000 0 0 5 "[0, 0, 0]"] demo_bc_wf show ?thesis by auto
qed

theorem receive_copies_witness:
  "\<exists>c cb' c'. receive (reading collect) (\<lparr>cb_receiver = demo_br, cb_scratchBuffer = AtomicBuffer 100 4096\<rparr>, c, []) =
     Some (Inr 1, cb', c', [(5, [0, 0, 0])])"
proof -
  obtain c where c: "bc_counter demo_bc 12 8 c = of_nat 16" "bc_counter demo_bc 12 0 c = of_nat 16"
    "rec_at 12 (ab_buffer demo_bc) (view c) 0 (Msg 5 [0, 0, 0])" using demo_one_message[of 16] by blast
  have "chain 12 (ab_buffer demo_bc) (view c) 0 (pad_recs 0 @ [Msg 5 [0, 0, 0]]) 16"
    using c(3) by (simp add: pad_recs_def rec_size_def)
  with receive_copies[where cb = "\<lparr>cb_receiver = demo_br, cb_scratchBuffer = AtomicBuffer 100 4096\<rparr>" and c = c and k = 12
      and T = 16 and P = 0 and scratch = 100 and n = 0 and t = 5 and bs = "[0, 0, 0]" and Q = 16 and u = "[]"]
    c demo_bc_wf
  show ?thesis by (auto simp: demo_bc_def AtomicBuffer_def)
qed

theorem receiver_attaches_witness:
  "\<exists>c r'. CopyBroadcastReceiver demo_br 100 c =
     Some (Inr \<lparr>cb_receiver = r', cb_scratchBuffer = AtomicBuffer 100 4096\<rparr>) \<and> br_nextRecord r' = 16"
proof -
  obtain c where c: "bc_counter demo_bc 12 8 c = of_nat 16" "bc_counter demo_bc 12 0 c = of_nat 16"
    "rec_at 12 (ab_buffer demo_bc) (view c) 0 (Msg 5 [0, 0, 0])" using demo_one_message[of 16] by blast
  have "chain 12 (ab_buffer demo_bc) (view c) 0 (pad_recs 0 @ [Msg 5 [0, 0, 0]]) 16"
    using c(3) by (simp add: pad_recs_def rec_size_def)
  then have run: "message_run 12 (ab_buffer demo_bc) (view c) 0 [(5, [0, 0, 0])] 16"
    by (intro message_run.a_message[where n = 0, OF _ _ message_run.no_message]) simp_all
  have "BroadcastReceiver demo_bc = Inr demo_br"
    by (simp add: demo_br_def BroadcastReceiver_def Let_def demo_bc_def AtomicBuffer_def ab_capacity_def layout
        bc_checkCapacity_def isPowerOfTwo_def)
  then show ?thesis
    using receiver_attaches[of demo_bc demo_br 12 c 16 100] c(1,2) run by (auto simp: transmitted_def demo_bc_def AtomicBuffer_def)
qed

end
