(* ===== verification/DriverListenerAdapter.thy ===== *)
theory DriverListenerAdapter
  imports Broadcast Command
begin

text \<open>
  \<^verbatim>\<open>DriverListenerAdapter.h\<close>: the messages of the media driver, received over the broadcast buffer,
  decoded and handed to a listener. The calls of the listener are values of \<open>driver_event\<close>, the
  listener is a parameter; it may throw. \<^verbatim>\<open>CncFileDescriptor.h\<close>: where the buffers are in the command
  and control file.
\<close>

section \<open>DriverListenerAdapter\<close>

datatype driver_event =
    OnNewPublication (ev_streamId: int32_t) (ev_sessionId: int32_t) (ev_positionLimitCounterId: int32_t)
      (ev_logFileName: "byte list") (ev_correlationId: int64_t)
  | OnNewImage (ev_streamId: int32_t) (ev_sessionId: int32_t) (ev_joiningPosition: int64_t) (ev_logFileName: "byte list")
      (ev_sourceIdentity: "byte list") (ev_positionCount: int32_t) (ev_positions: addr) (ev_correlationId: int64_t)
  | OnOperationSuccess (ev_correlationId: int64_t)
  | OnInactiveImage (ev_streamId: int32_t) (ev_sessionId: int32_t) (ev_position: int64_t) (ev_correlationId: int64_t)
  | OnErrorResponse (ev_correlationId: int64_t) (ev_errorCode: int32_t) (ev_errorMessage: "byte list")

type_synonym 'u listener = "driver_event \<Rightarrow> (cpu \<times> 'u, unit) oact"

definition publicationReady :: "abuf \<Rightarrow> index_t \<Rightarrow> (cpu, driver_event) act" where
  "publicationReady buffer offset =
     bind (PublicationBuffersReadyFlyweight buffer offset) (\<lambda>m.
     bind (pubready_streamId m) (\<lambda>stream. bind (pubready_sessionId m) (\<lambda>session.
     bind (pubready_positionLimitCounterId m) (\<lambda>limit. bind (pubready_logFileName m) (\<lambda>name.
     bind (pubready_correlationId m) (\<lambda>corr. ret (OnNewPublication stream session limit name corr)))))))"

definition imageReady :: "abuf \<Rightarrow> index_t \<Rightarrow> (cpu, driver_event) act" where
  "imageReady buffer offset =
     bind (ImageBuffersReadyFlyweight buffer offset) (\<lambda>m.
     bind (imgready_streamId m) (\<lambda>stream. bind (imgready_sessionId m) (\<lambda>session.
     bind (imgready_joiningPosition m) (\<lambda>joining. bind (imgready_logFileName m) (\<lambda>name.
     bind (imgready_sourceIdentity m) (\<lambda>source. bind (imgready_subscriberPositionCount m) (\<lambda>n.
     bind (imgready_subscriberPositions m) (\<lambda>a. bind (imgready_correlationId m) (\<lambda>corr.
       ret (OnNewImage stream session joining name source n a corr))))))))))"

definition operationSuccess :: "abuf \<Rightarrow> index_t \<Rightarrow> (cpu, driver_event) act" where
  "operationSuccess buffer offset =
     bind (CorrelatedMessageFlyweight buffer offset) (\<lambda>m. bind (corr_correlationId m) (\<lambda>corr. ret (OnOperationSuccess corr)))"

definition inactiveImage :: "abuf \<Rightarrow> index_t \<Rightarrow> (cpu, driver_event) act" where
  "inactiveImage buffer offset =
     bind (ImageMessageFlyweight buffer offset) (\<lambda>m.
     bind (img_streamId m) (\<lambda>stream. bind (img_sessionId m) (\<lambda>session. bind (img_position m) (\<lambda>pos.
     bind (img_correlationId m) (\<lambda>corr. ret (OnInactiveImage stream session pos corr))))))"

definition errorResponse :: "abuf \<Rightarrow> index_t \<Rightarrow> (cpu, driver_event) act" where
  "errorResponse buffer offset =
     bind (ErrorResponseFlyweight buffer offset) (\<lambda>m.
     bind (err_offendingCommandCorrelationId m) (\<lambda>corr. bind (err_errorCode m) (\<lambda>code.
     bind (err_errorMessage m) (\<lambda>msg. ret (OnErrorResponse corr code msg)))))"

definition notify :: "'u listener \<Rightarrow> (cpu, driver_event) act \<Rightarrow> (cpu \<times> 'u, unit) oact" where
  "notify listener decode = obind (lift_act decode) listener"

definition onMessage :: "'u listener \<Rightarrow> 'u message_handler" where
  "onMessage listener msgTypeId buffer offset len =
     (if msgTypeId = ON_PUBLICATION_READY then notify listener (publicationReady buffer offset)
      else if msgTypeId = ON_IMAGE_READY then notify listener (imageReady buffer offset)
      else if msgTypeId = ON_OPERATION_SUCCESS then notify listener (operationSuccess buffer offset)
      else if msgTypeId = ON_INACTIVE_IMAGE then notify listener (inactiveImage buffer offset)
      else if msgTypeId = ON_ERROR then notify listener (errorResponse buffer offset)
      else oret ())"

definition receiveMessages :: "'u listener \<Rightarrow> (copyreceiver \<times> cpu \<times> 'u, int32_t) oact" where
  "receiveMessages listener = receive (onMessage listener)"

section \<open>The messages as bytes\<close>

definition name_bytes :: "byte list \<Rightarrow> byte list" where
  "name_bytes s = enc 4 (of_nat (length s) :: int32_t) @ s"

definition position_bytes :: "subscriber_position list \<Rightarrow> byte list" where
  "position_bytes ps = concat (map (\<lambda>p. enc 4 (sp_indicatorId p) @ enc 8 (sp_registrationId p)) ps)"

text \<open>
  The messages of the driver: their types, their bytes, and what the listener is told. The
  positions of an image are read by the listener from the buffer.
\<close>

datatype driver_message =
    PublicationReady int64_t int32_t int32_t int32_t "byte list"
  | ImageReady int64_t int64_t int32_t int32_t "subscriber_position list" "byte list" "byte list"
  | OperationSuccess int64_t int64_t
  | InactiveImage int64_t int32_t int32_t int64_t "byte list"
  | ErrorResponse int64_t int32_t "byte list"

fun msg_type :: "driver_message \<Rightarrow> int32_t" where
  "msg_type (PublicationReady corr session stream limit name) = ON_PUBLICATION_READY"
| "msg_type (ImageReady corr joining session stream ps name source) = ON_IMAGE_READY"
| "msg_type (OperationSuccess client corr) = ON_OPERATION_SUCCESS"
| "msg_type (InactiveImage corr session stream pos channel) = ON_INACTIVE_IMAGE"
| "msg_type (ErrorResponse corr code msg) = ON_ERROR"

fun msg_bytes :: "driver_message \<Rightarrow> byte list" where
  "msg_bytes (PublicationReady corr session stream limit name) =
     enc 8 corr @ enc 4 session @ enc 4 stream @ enc 4 limit @ name_bytes name"
| "msg_bytes (ImageReady corr joining session stream ps name source) =
     enc 8 corr @ enc 8 joining @ enc 4 session @ enc 4 stream @ enc 4 (12 :: int32_t) @
     enc 4 (of_nat (length ps) :: int32_t) @ position_bytes ps @ name_bytes name @ name_bytes source"
| "msg_bytes (OperationSuccess client corr) = enc 8 client @ enc 8 corr"
| "msg_bytes (InactiveImage corr session stream pos channel) =
     enc 8 corr @ enc 4 session @ enc 4 stream @ enc 8 pos @ name_bytes channel"
| "msg_bytes (ErrorResponse corr code msg) = enc 8 corr @ enc 4 code @ name_bytes msg"

fun msg_event :: "addr \<Rightarrow> driver_message \<Rightarrow> driver_event" where
  "msg_event a (PublicationReady corr session stream limit name) = OnNewPublication stream session limit name corr"
| "msg_event a (ImageReady corr joining session stream ps name source) =
     OnNewImage stream session joining name source (of_nat (length ps)) (a + 32) corr"
| "msg_event a (OperationSuccess client corr) = OnOperationSuccess corr"
| "msg_event a (InactiveImage corr session stream pos channel) = OnInactiveImage stream session pos corr"
| "msg_event a (ErrorResponse corr code msg) = OnErrorResponse corr code msg"

section \<open>Decoding\<close>

lemma field_at:
  assumes "load c a (length bs) = bs" "bs = xs @ enc n v @ ys" "k = int (length xs)" "LENGTH('a) \<le> 8 * n"
  shows "get_le n c (a + k) = (v :: 'a::len word)"
proof -
  have "read_bytes (view c) (a + k) n = take n (drop (length xs) (read_bytes (view c) a (length bs)))"
    unfolding assms(3) by (rule read_bytes_sub[symmetric]) (simp add: assms(2))
  also have "\<dots> = enc n v" using assms(1) unfolding load_def by (simp add: assms(2))
  finally show ?thesis using assms(4) by (simp add: get_le_def load_def dec_enc)
qed

lemma name_at:
  assumes "load c a (length bs) = bs" "bs = xs @ name_bytes s @ ys" "length bs \<le> 4096" "fw_buffer fw = AtomicBuffer a 4096"
    "fw_baseOffset fw = 0" "k = of_nat (length xs)"
  shows "stringGet fw k c = (Inr s, c)" "stringGetLength fw k c = (Inr (of_nat (length s)), c)"
proof -
  let ?i = "length xs" and ?b = "AtomicBuffer a 4096"
  have len: "?i + (4 + length s) \<le> 4096" using assms(2,3) by (simp add: name_bytes_def del: enc_numeral)
  have i: "sint (of_nat ?i :: index_t) = int ?i" using len by (intro sint_of_nat32) simp
  have r: "in_range ?b (of_nat ?i) (length s + 4)" "at ?b (of_nat ?i) = a + int ?i"
    using len i by (simp_all add: in_range_def AtomicBuffer_def at_def)
  have g: "get_le 4 c (a + int ?i) = (of_nat (length s) :: int32_t)"
    by (rule field_at[OF assms(1), of xs _ _ "s @ ys"]) (simp_all add: assms(2) name_bytes_def del: enc_numeral)
  have "read_bytes (view c) (a + int (?i + 4)) (length s) = take (length s) (drop (?i + 4) (read_bytes (view c) a (length bs)))"
    by (rule read_bytes_sub[symmetric]) (simp add: assms(2) name_bytes_def del: enc_numeral)
  also have "\<dots> = s" using assms(1) unfolding load_def by (simp add: assms(2) name_bytes_def del: enc_numeral)
  finally have l: "load c (a + int ?i + 4) (length s) = s" by (simp add: load_def add.assoc)
  from getStringUtf8_ok[OF r(1)] g l r(2) show "stringGet fw k c = (Inr s, c)"
    "stringGetLength fw k c = (Inr (of_nat (length s)), c)"
    by (simp_all add: stringGet_def stringGetLength_def assms(4-6))
qed

lemma scratch_in_range: "n \<le> 4096 \<Longrightarrow> in_range (AtomicBuffer a 4096) 0 n" "at (AtomicBuffer a 4096) 0 = a"
  by (simp_all add: in_range_def AtomicBuffer_def at_def)

lemmas flyweight_get = Flyweight_def overlayStruct_def fw_overlayStruct_def struct_get_def scratch_in_range

lemma publicationReady_decodes:
  assumes ld: "load c a (length bs) = bs" and bs: "bs = msg_bytes (PublicationReady corr session stream limit name)"
    and len: "length bs \<le> 4096"
  shows "publicationReady (AtomicBuffer a 4096) 0 c = (Inr (OnNewPublication stream session limit name corr), c)"
proof -
  let ?fw = "\<lparr>fw_struct = a, fw_buffer = AtomicBuffer a 4096, fw_baseOffset = 0\<rparr>"
  have g: "get_le 8 c (a + 0) = corr" "get_le 4 c (a + 8) = session" "get_le 4 c (a + 12) = stream"
    "get_le 4 c (a + 16) = limit"
    by (rule field_at[OF ld, where xs = "[]"], simp_all add: bs del: enc_numeral)
      (rule field_at[OF ld, where xs = "enc 8 corr"], simp_all add: bs del: enc_numeral,
       rule field_at[OF ld, where xs = "enc 8 corr @ enc 4 session"], simp_all add: bs del: enc_numeral,
       rule field_at[OF ld, where xs = "enc 8 corr @ enc 4 session @ enc 4 stream"], simp_all add: bs del: enc_numeral)
  have n: "stringGet ?fw 20 c = (Inr name, c)"
    by (rule name_at[OF ld, where xs = "enc 8 corr @ enc 4 session @ enc 4 stream @ enc 4 limit" and ys = "[]"])
      (use len in \<open>simp_all add: bs del: enc_numeral\<close>)
  show ?thesis using g n
    by (simp add: publicationReady_def PublicationBuffersReadyFlyweight_def flyweight_get pubready_streamId_def
        pubready_sessionId_def pubready_positionLimitCounterId_def pubready_logFileName_def pubready_correlationId_def)
qed

lemma operationSuccess_decodes:
  assumes ld: "load c a (length bs) = bs" and bs: "bs = msg_bytes (OperationSuccess client corr)"
  shows "operationSuccess (AtomicBuffer a 4096) 0 c = (Inr (OnOperationSuccess corr), c)"
proof -
  have "get_le 8 c (a + 8) = corr"
    by (rule field_at[OF ld, where xs = "enc 8 client" and ys = "[]"]) (simp_all add: bs del: enc_numeral)
  then show ?thesis
    by (simp add: operationSuccess_def CorrelatedMessageFlyweight_def flyweight_get corr_correlationId_def)
qed

lemma inactiveImage_decodes:
  assumes ld: "load c a (length bs) = bs" and bs: "bs = msg_bytes (InactiveImage corr session stream pos channel)"
  shows "inactiveImage (AtomicBuffer a 4096) 0 c = (Inr (OnInactiveImage stream session pos corr), c)"
proof -
  have "get_le 8 c (a + 0) = corr" "get_le 4 c (a + 8) = session" "get_le 4 c (a + 12) = stream" "get_le 8 c (a + 16) = pos"
    by (rule field_at[OF ld, where xs = "[]"], simp_all add: bs del: enc_numeral)
      (rule field_at[OF ld, where xs = "enc 8 corr"], simp_all add: bs del: enc_numeral,
       rule field_at[OF ld, where xs = "enc 8 corr @ enc 4 session"], simp_all add: bs del: enc_numeral,
       rule field_at[OF ld, where xs = "enc 8 corr @ enc 4 session @ enc 4 stream"], simp_all add: bs del: enc_numeral)
  then show ?thesis
    by (simp add: inactiveImage_def ImageMessageFlyweight_def flyweight_get img_streamId_def img_sessionId_def
        img_position_def img_correlationId_def)
qed

lemma errorResponse_decodes:
  assumes ld: "load c a (length bs) = bs" and bs: "bs = msg_bytes (ErrorResponse corr code msg)" and len: "length bs \<le> 4096"
  shows "errorResponse (AtomicBuffer a 4096) 0 c = (Inr (OnErrorResponse corr code msg), c)"
proof -
  let ?fw = "\<lparr>fw_struct = a, fw_buffer = AtomicBuffer a 4096, fw_baseOffset = 0\<rparr>"
  have "get_le 8 c (a + 0) = corr" "get_le 4 c (a + 8) = code"
    by (rule field_at[OF ld, where xs = "[]"], simp_all add: bs del: enc_numeral)
      (rule field_at[OF ld, where xs = "enc 8 corr"], simp_all add: bs del: enc_numeral)
  moreover have "stringGet ?fw 12 c = (Inr msg, c)"
    by (rule name_at[OF ld, where xs = "enc 8 corr @ enc 4 code" and ys = "[]"])
      (use len in \<open>simp_all add: bs del: enc_numeral\<close>)
  ultimately show ?thesis
    by (simp add: errorResponse_def ErrorResponseFlyweight_def flyweight_get err_offendingCommandCorrelationId_def
        err_errorCode_def err_errorMessage_def)
qed

lemma length_position_bytes: "length (position_bytes ps) = 12 * length ps"
  by (induction ps) (simp_all add: position_bytes_def del: enc_numeral)

lemma imageReady_decodes:
  assumes ld: "load c a (length bs) = bs" and bs: "bs = msg_bytes (ImageReady corr joining session stream ps name source)"
    and len: "length bs \<le> 4096"
  shows "imageReady (AtomicBuffer a 4096) 0 c =
    (Inr (OnNewImage stream session joining name source (of_nat (length ps)) (a + 32) corr), c)"
proof -
  let ?fw = "\<lparr>fw_struct = a, fw_buffer = AtomicBuffer a 4096, fw_baseOffset = 0\<rparr>" and ?n = "length ps"
  let ?h = "enc 8 corr @ enc 8 joining @ enc 4 session @ enc 4 stream @ enc 4 (12 :: int32_t)"
  let ?p = "?h @ enc 4 (of_nat ?n :: int32_t) @ position_bytes ps"
  have g: "get_le 8 c (a + 0) = corr" "get_le 8 c (a + 8) = joining" "get_le 4 c (a + 16) = session"
    "get_le 4 c (a + 20) = stream" "get_le 4 c (a + 28) = (of_nat ?n :: int32_t)"
    by (rule field_at[OF ld, where xs = "[]"], simp_all add: bs del: enc_numeral)
      (rule field_at[OF ld, where xs = "enc 8 corr"], simp_all add: bs del: enc_numeral,
       rule field_at[OF ld, where xs = "enc 8 corr @ enc 8 joining"], simp_all add: bs del: enc_numeral,
       rule field_at[OF ld, where xs = "enc 8 corr @ enc 8 joining @ enc 4 session"], simp_all add: bs del: enc_numeral,
       rule field_at[OF ld, where xs = ?h], simp_all add: bs del: enc_numeral)
  have o: "subscriberPositionOffset (of_nat ?n) = of_nat (length ?p)"
    by (simp add: subscriberPositionOffset_def length_position_bytes del: enc_numeral)
  have n1: "stringGet ?fw (of_nat (length ?p)) c = (Inr name, c)"
    "stringGetLength ?fw (of_nat (length ?p)) c = (Inr (of_nat (length name)), c)"
    by (rule name_at[OF ld, where xs = ?p and ys = "name_bytes source"], use len in \<open>simp_all add: bs del: enc_numeral\<close>)+
  have n2: "stringGet ?fw (of_nat (length (?p @ name_bytes name))) c = (Inr source, c)"
    by (rule name_at[OF ld, where xs = "?p @ name_bytes name" and ys = "[]"], use len in \<open>simp_all add: bs del: enc_numeral\<close>)
  have l: "of_nat (length ?p) + of_nat (length name) + 4 = (of_nat (length (?p @ name_bytes name)) :: index_t)"
    by (simp add: name_bytes_def del: enc_numeral)
  have cnt: "imgready_subscriberPositionCount ?fw c = (Inr (of_nat ?n), c)"
    using g(5) by (simp add: imgready_subscriberPositionCount_def struct_get_def)
  have lo: "logFileNameOffset ?fw c = (Inr (of_nat (length ?p)), c)"
    using cnt o by (simp add: logFileNameOffset_def del: enc_numeral)
  have so: "sourceIdentityOffset ?fw c = (Inr (of_nat (length (?p @ name_bytes name))), c)"
    unfolding sourceIdentityOffset_def using lo n1(2) l by (simp del: enc_numeral length_append)
  have nm: "imgready_logFileName ?fw c = (Inr name, c)" "imgready_sourceIdentity ?fw c = (Inr source, c)"
    unfolding imgready_logFileName_def imgready_sourceIdentity_def
    using lo so n1(1) n2 by (simp_all del: enc_numeral length_append)
  have r: "in_range (AtomicBuffer a 4096) 32 12" "at (AtomicBuffer a 4096) 32 = a + 32"
    by (simp_all add: in_range_def AtomicBuffer_def at_def)
  have ps: "imgready_subscriberPositions ?fw c = (Inr (a + 32), c)"
    using r by (simp add: imgready_subscriberPositions_def fw_overlayStruct_def overlayStruct_def subscriberPositionOffset_def)
  have "ImageBuffersReadyFlyweight (AtomicBuffer a 4096) 0 c = (Inr ?fw, c)"
    by (simp add: ImageBuffersReadyFlyweight_def flyweight_get)
  then show ?thesis
    using g cnt nm ps
    by (simp add: imageReady_def imgready_streamId_def imgready_sessionId_def imgready_joiningPosition_def
        imgready_correlationId_def struct_get_def)
qed

lemma onMessage_decodes:
  assumes "load c a (length (msg_bytes M)) = msg_bytes M" "length (msg_bytes M) \<le> 4096"
  shows "onMessage listener (msg_type M) (AtomicBuffer a 4096) 0 n (c, u) = listener (msg_event a M) (c, u)"
  using assms
proof (cases M)
  case (PublicationReady corr session stream limit name)
  from publicationReady_decodes[OF assms(1) arg_cong[OF this, of msg_bytes] assms(2)] show ?thesis
    by (simp add: PublicationReady onMessage_def notify_def)
next
  case (ImageReady corr joining session stream ps name source)
  from imageReady_decodes[OF assms(1) arg_cong[OF this, of msg_bytes] assms(2)] show ?thesis
    by (simp add: ImageReady onMessage_def notify_def events)
next
  case (OperationSuccess client corr)
  from operationSuccess_decodes[OF assms(1) arg_cong[OF this, of msg_bytes]] show ?thesis
    by (simp add: OperationSuccess onMessage_def notify_def events)
next
  case (InactiveImage corr session stream pos channel)
  from inactiveImage_decodes[OF assms(1) arg_cong[OF this, of msg_bytes]] show ?thesis
    by (simp add: InactiveImage onMessage_def notify_def events)
next
  case (ErrorResponse corr code msg)
  from errorResponse_decodes[OF assms(1) arg_cong[OF this, of msg_bytes] assms(2)] show ?thesis
    by (simp add: ErrorResponse onMessage_def notify_def events)
qed

lemma receiveMessages_spec:
  fixes cb c
  defines "r \<equiv> cb_receiver cb"
  assumes wf: "wf_receiver k r"
    and T: "bc_counter (br_buffer r) k 8 c = of_nat T" "bc_counter (br_buffer r) k 0 c = of_nat T" "T < 2 ^ 62"
    and P: "br_nextRecord r = of_nat P" "P \<le> T" "T < P + 2 ^ k"
    and sc: "cb_scratchBuffer cb = AtomicBuffer scratch 4096"
      "scratch + 4096 \<le> ab_buffer (br_buffer r) \<or> ab_buffer (br_buffer r) + 2 ^ k + 128 \<le> scratch"
    and msg: "chain k (ab_buffer (br_buffer r)) (view c) P (pad_recs n @ [Msg (msg_type M) (msg_bytes M)]) Q" "Q \<le> T"
      "n \<noteq> 0 \<longrightarrow> (P + n) mod 2 ^ k = 0 \<and> 8 dvd n" "length (msg_bytes M) \<le> 4096"
  shows "\<exists>cb' c'. br_nextRecord (cb_receiver cb') = of_nat Q \<and>
    load c' scratch (length (msg_bytes M)) = msg_bytes M \<and>
    receiveMessages listener (cb, c, u) = received cb' (listener (msg_event scratch M) (c', u))"
proof -
  obtain cb' c' where "br_nextRecord (cb_receiver cb') = of_nat Q" "load c' scratch (length (msg_bytes M)) = msg_bytes M"
    "receiveMessages listener (cb, c, u) =
      received cb' (onMessage listener (msg_type M) (AtomicBuffer scratch 4096) 0 (of_nat (length (msg_bytes M))) (c', u))"
    using receive_spec[OF assms(2-)[unfolded r_def], of "onMessage listener" u] unfolding receiveMessages_def by blast
  then show ?thesis using onMessage_decodes[of c' scratch M listener] msg(4) by auto
qed

text \<open>
  C33. A receiver that has not been lapped and whose next message is one of the driver's, hands the
  listener exactly that message, with every field as the driver wrote it and its bytes in the scratch
  buffer; an exception of the listener is passed on.
\<close>

theorem receiveMessages_notifies:
  fixes cb c
  defines "r \<equiv> cb_receiver cb"
  assumes wf: "wf_receiver k r"
    and T: "bc_counter (br_buffer r) k 8 c = of_nat T" "bc_counter (br_buffer r) k 0 c = of_nat T" "T < 2 ^ 62"
    and P: "br_nextRecord r = of_nat P" "P \<le> T" "T < P + 2 ^ k"
    and sc: "cb_scratchBuffer cb = AtomicBuffer scratch 4096"
      "scratch + 4096 \<le> ab_buffer (br_buffer r) \<or> ab_buffer (br_buffer r) + 2 ^ k + 128 \<le> scratch"
    and msg: "chain k (ab_buffer (br_buffer r)) (view c) P (pad_recs n @ [Msg (msg_type M) (msg_bytes M)]) Q" "Q \<le> T"
      "n \<noteq> 0 \<longrightarrow> (P + n) mod 2 ^ k = 0 \<and> 8 dvd n" "length (msg_bytes M) \<le> 4096"
  shows "\<exists>cb' c'. br_nextRecord (cb_receiver cb') = of_nat Q \<and>
    load c' scratch (length (msg_bytes M)) = msg_bytes M \<and>
    receiveMessages listener (cb, c, u) = received cb' (listener (msg_event scratch M) (c', u))"
  using assms(2-) unfolding r_def by (rule receiveMessages_spec)

theorem receiveMessages_notifies_witness:
  "\<exists>c cb' c'. receiveMessages (\<lambda>ev s. Some (Inr (), (fst s, snd s @ [ev]))) (\<lparr>cb_receiver = demo_br, cb_scratchBuffer = AtomicBuffer 100 4096\<rparr>, c, []) =
     Some (Inr 1, cb', c', [OnOperationSuccess 0])"
proof -
  let ?M = "OperationSuccess 0 0" and ?cb = "\<lparr>cb_receiver = demo_br, cb_scratchBuffer = AtomicBuffer 100 4096\<rparr>"
  have bs: "msg_bytes ?M = replicate 16 0" by (simp add: numeral_eq_Suc)
  obtain c where c: "bc_counter demo_bc 12 8 c = of_nat 24" "bc_counter demo_bc 12 0 c = of_nat 24"
    "rec_at 12 (ab_buffer demo_bc) (view c) 0 (Msg (msg_type ?M) (msg_bytes ?M))"
    using demo_zeros[of "msg_type ?M" 16 24] unfolding bs by (auto simp: rec_size_def events)
  have "chain 12 (ab_buffer demo_bc) (view c) 0 (pad_recs 0 @ [Msg (msg_type ?M) (msg_bytes ?M)]) 24"
    using c(3) unfolding bs by (simp add: pad_recs_def rec_size_def)
  with receiveMessages_notifies[where cb = ?cb and c = c and k = 12 and T = 24 and P = 0 and scratch = 100 and n = 0
      and M = ?M and Q = 24 and u = "[]" and listener = "\<lambda>ev s. Some (Inr (), (fst s, snd s @ [ev]))"] c demo_bc_wf
  show ?thesis unfolding bs by (auto simp: demo_bc_def AtomicBuffer_def)
qed

end
