(* ===== verification/ClientConductor.thy ===== *)
theory ClientConductor
  imports Subscription Publication DriverProxy DriverListenerAdapter
begin

text \<open>
  \<^verbatim>\<open>ClientConductor.h\<close> and \<^verbatim>\<open>ClientConductor.cpp\<close>: the client's side of the protocol with the media driver.
  It registers publications and subscriptions, follows the driver's answers, gives out the objects,
  and frees what is no longer used after a linger time. The operations run under one lock and are
  atomic here; the handlers of the application are parameters that may change the memory and a state
  of their own and may throw, but do not call the conductor, whose lock is held.

  \<^item> A \<^verbatim>\<open>shared_ptr\<close> to a publication or subscription is an index into a table of objects with their
    counts of strong references; a \<^verbatim>\<open>weak_ptr\<close> is an index too, and locking it fails when the count is 0.
  \<^item> The clock is a sequence of readings, each call takes the next.
  \<^item> \<open>None\<close> is the outcome where the program is undefined, hangs, or is ended by an exception that
    leaves a destructor.
\<close>

section \<open>State\<close>

definition KEEPALIVE_TIMEOUT_MS :: int64_t where "KEEPALIVE_TIMEOUT_MS = 500"

definition RESOURCE_TIMEOUT_MS :: int64_t where "RESOURCE_TIMEOUT_MS = 1000"

datatype registration_status = AWAITING_MEDIA_DRIVER | REGISTERED_MEDIA_DRIVER | ERRORED_MEDIA_DRIVER

text \<open>The error code is not initialised: \<open>None\<close> until an error is stored.\<close>

record publication_state =
  ps_channel :: "byte list"
  ps_registrationId :: int64_t
  ps_streamId :: int32_t
  ps_sessionId :: int32_t
  ps_positionLimitCounterId :: int32_t
  ps_timeOfRegistration :: int64_t
  ps_status :: registration_status
  ps_errorCode :: "int32_t option"
  ps_errorMessage :: "byte list"
  ps_buffers :: "log_buffers option"
  ps_publication :: "nat option"

definition PublicationStateDefn :: "byte list \<Rightarrow> int64_t \<Rightarrow> int32_t \<Rightarrow> int64_t \<Rightarrow> publication_state" where
  "PublicationStateDefn channel registrationId streamId now =
     \<lparr>ps_channel = channel, ps_registrationId = registrationId, ps_streamId = streamId, ps_sessionId = - 1,
      ps_positionLimitCounterId = - 1, ps_timeOfRegistration = now, ps_status = AWAITING_MEDIA_DRIVER,
      ps_errorCode = None, ps_errorMessage = [], ps_buffers = None, ps_publication = None\<rparr>"

record subscription_state =
  ss_channel :: "byte list"
  ss_registrationId :: int64_t
  ss_streamId :: int32_t
  ss_timeOfRegistration :: int64_t
  ss_status :: registration_status
  ss_errorCode :: "int32_t option"
  ss_errorMessage :: "byte list"
  ss_subscriptionCache :: "nat option"
  ss_subscription :: "nat option"

definition SubscriptionStateDefn :: "byte list \<Rightarrow> int64_t \<Rightarrow> int32_t \<Rightarrow> int64_t \<Rightarrow> subscription_state" where
  "SubscriptionStateDefn channel registrationId streamId now =
     \<lparr>ss_channel = channel, ss_registrationId = registrationId, ss_streamId = streamId, ss_timeOfRegistration = now,
      ss_status = AWAITING_MEDIA_DRIVER, ss_errorCode = None, ss_errorMessage = [], ss_subscriptionCache = None,
      ss_subscription = None\<rparr>"

record array_linger =
  al_timeOfLastStatusChange :: int64_t
  al_array :: image_ptr

record log_linger =
  ll_timeOfLastStatusChange :: int64_t
  ll_logBuffers :: "log_buffers option"

type_synonym 'u app = "(cpu \<times> 'u, unit) oact"

text \<open>
  The conductor's members, and after them what it works on: the arrays of images, the objects with
  their reference counts, the clock, the state of the application, and what the calls it makes take
  as parameters (the system calls, the address of a command on the stack, uninitialised images).
\<close>

record 'u client =
  cc_publications :: "publication_state list"
  cc_subscriptions :: "subscription_state list"
  cc_lingeringLogBuffers :: "log_linger list"
  cc_lingeringImageArrays :: "array_linger list"
  cc_driverProxy :: driver_proxy
  cc_counterValuesBuffer :: abuf
  cc_onNewPublicationHandler :: "byte list \<Rightarrow> int32_t \<Rightarrow> int32_t \<Rightarrow> int64_t \<Rightarrow> 'u app"
  cc_onNewSubscriptionHandler :: "byte list \<Rightarrow> int32_t \<Rightarrow> int64_t \<Rightarrow> 'u app"
  cc_onNewImageHandler :: "'u image \<Rightarrow> byte list \<Rightarrow> int32_t \<Rightarrow> int32_t \<Rightarrow> int64_t \<Rightarrow> byte list \<Rightarrow> 'u app"
  cc_onInactiveImageHandler :: "'u image \<Rightarrow> byte list \<Rightarrow> int32_t \<Rightarrow> int32_t \<Rightarrow> int64_t \<Rightarrow> 'u app"
  cc_errorHandler :: "'u exception_handler"
  cc_timeOfLastKeepalive :: int64_t
  cc_timeOfLastCheckManagedResources :: int64_t
  cc_driverTimeoutMs :: int64_t
  cc_resourceLingerTimeoutMs :: int64_t
  cc_driverActive :: bool
  wd_heap :: "'u image_heap"
  wd_publications :: "(publication \<times> nat) list"
  wd_subscriptions :: "(subscription \<times> nat) list"
  wd_clock :: "nat \<Rightarrow> int64_t"
  wd_ticks :: nat
  wd_app :: 'u
  wd_os :: posix
  wd_stack :: addr
  wd_junk :: "'u image"

type_synonym ('u, 'a) cact = "(cpu \<times> 'u client, 'a) oact"

section \<open>Steps\<close>

definition gets :: "('u client \<Rightarrow> 'a) \<Rightarrow> ('u, 'a) cact" where
  "gets f s = Some (Inr (f (snd s)), s)"

definition modify :: "('u client \<Rightarrow> 'u client) \<Rightarrow> ('u, unit) cact" where
  "modify f s = Some (Inr (), (fst s, f (snd s)))"

definition othrow :: "exn \<Rightarrow> ('s, 'a) oact" where
  "othrow e s = Some (Inl e, s)"

definition undefined_behaviour :: "('s, 'a) oact" where
  "undefined_behaviour s = None"

definition on_cpu :: "(cpu, 'a) oact \<Rightarrow> ('u, 'a) cact" where
  "on_cpu m s = map_option (\<lambda>(r, c). (r, (c, snd s))) (m (fst s))"

definition on_app :: "'u app \<Rightarrow> ('u, unit) cact" where
  "on_app m s = map_option (\<lambda>(r, c, u). (r, (c, snd s\<lparr>wd_app := u\<rparr>))) (m (fst s, wd_app (snd s)))"

definition epochClock :: "('u, int64_t) cact" where
  "epochClock s = Some (Inr (wd_clock (snd s) (wd_ticks (snd s))), (fst s, (snd s)\<lparr>wd_ticks := Suc (wd_ticks (snd s))\<rparr>))"

text \<open>\<^verbatim>\<open>std::find_if\<close>: the index of the first element, or the end.\<close>

fun find_if :: "('a \<Rightarrow> bool) \<Rightarrow> 'a list \<Rightarrow> nat option" where
  "find_if P [] = None"
| "find_if P (x # xs) = (if P x then Some 0 else map_option Suc (find_if P xs))"

definition erase :: "nat \<Rightarrow> 'a list \<Rightarrow> 'a list" where
  "erase i xs = take i xs @ drop (Suc i) xs"

text \<open>The C string of a name: it ends at the first zero.\<close>

definition c_str :: "byte list \<Rightarrow> string" where
  "c_str name = map (\<lambda>b. char_of (unat b)) (takeWhile (\<lambda>b. b \<noteq> 0) name)"

definition verifyDriverIsActive :: "('u, unit) cact" where
  "verifyDriverIsActive = obind (gets cc_driverActive) (\<lambda>active. if active then oret () else othrow DriverTimeoutException)"

text \<open>Locking a weak pointer: the object, with one more reference, unless it has none left.\<close>

definition lock_object :: "nat option \<Rightarrow> ('o \<times> nat) list \<Rightarrow> nat option \<times> ('o \<times> nat) list" where
  "lock_object p objects =
     (case p of
        None \<Rightarrow> (None, objects)
      | Some k \<Rightarrow>
          if k < length objects \<and> 0 < snd (objects ! k)
          then (Some k, objects[k := (fst (objects ! k), Suc (snd (objects ! k)))]) else (None, objects))"

definition lockPublication :: "nat option \<Rightarrow> ('u, nat option) cact" where
  "lockPublication p =
     obind (gets (\<lambda>w. lock_object p (wd_publications w))) (\<lambda>(pub, objects).
     obind (modify (\<lambda>w. w\<lparr>wd_publications := objects\<rparr>)) (\<lambda>_. oret pub))"

definition lockSubscription :: "nat option \<Rightarrow> ('u, nat option) cact" where
  "lockSubscription p =
     obind (gets (\<lambda>w. lock_object p (wd_subscriptions w))) (\<lambda>(sub, objects).
     obind (modify (\<lambda>w. w\<lparr>wd_subscriptions := objects\<rparr>)) (\<lambda>_. oret sub))"

section \<open>Lingering resources\<close>

definition lingerArray :: "int64_t \<Rightarrow> image_ptr \<Rightarrow> ('u, unit) cact" where
  "lingerArray now images = modify (\<lambda>w. w\<lparr>cc_lingeringImageArrays := cc_lingeringImageArrays w @
     [\<lparr>al_timeOfLastStatusChange = now, al_array = images\<rparr>]\<rparr>)"

definition lingerLogBuffers :: "int64_t \<Rightarrow> log_buffers option \<Rightarrow> ('u, unit) cact" where
  "lingerLogBuffers now logBuffers = modify (\<lambda>w. w\<lparr>cc_lingeringLogBuffers := cc_lingeringLogBuffers w @
     [\<lparr>ll_timeOfLastStatusChange = now, ll_logBuffers = logBuffers\<rparr>]\<rparr>)"

definition deref :: "image_ptr \<Rightarrow> int32_t \<Rightarrow> ('u, 'u image) cact" where
  "deref images i = obind (gets wd_heap) (\<lambda>h. ofOption (imageAt h images i))"

fun lingerLogs :: "int64_t \<Rightarrow> image_ptr \<Rightarrow> nat \<Rightarrow> int32_t \<Rightarrow> ('u, unit) cact" where
  "lingerLogs now images 0 i = oret ()"
| "lingerLogs now images (Suc n) i =
     obind (deref images i) (\<lambda>im. obind (lingerLogBuffers now (im_getLogBuffers im)) (\<lambda>_. lingerLogs now images n (i + 1)))"

definition lingerResources :: "int64_t \<Rightarrow> image_ptr \<Rightarrow> int32_t \<Rightarrow> ('u, unit) cact" where
  "lingerResources now images connectionsLength =
     obind (lingerLogs now images (nat (sint connectionsLength)) 0) (\<lambda>_.
       if images \<noteq> None then lingerArray now images else oret ())"

text \<open>The arrays whose time has passed are freed, one after the other.\<close>

fun free_arrays :: "int64_t \<Rightarrow> int64_t \<Rightarrow> array_linger list \<Rightarrow> 'u image_heap \<Rightarrow> (array_linger list \<times> 'u image_heap) option" where
  "free_arrays now timeout [] h = Some ([], h)"
| "free_arrays now timeout (e # es) h =
     (if sint now > sint (al_timeOfLastStatusChange e + timeout)
      then case deleteArray h (al_array e) of None \<Rightarrow> None | Some h \<Rightarrow> free_arrays now timeout es h
      else map_option (\<lambda>(es, h). (e # es, h)) (free_arrays now timeout es h))"

definition onCheckManagedResources :: "int64_t \<Rightarrow> ('u, unit) cact" where
  "onCheckManagedResources now =
     obind (modify (\<lambda>w. w\<lparr>cc_lingeringLogBuffers := filter (\<lambda>entry.
       \<not> sint now > sint (ll_timeOfLastStatusChange entry + cc_resourceLingerTimeoutMs w)) (cc_lingeringLogBuffers w)\<rparr>)) (\<lambda>_.
     obind (gets (\<lambda>w. free_arrays now (cc_resourceLingerTimeoutMs w) (cc_lingeringImageArrays w) (wd_heap w))) (\<lambda>r.
     obind (ofOption r) (\<lambda>(es, h). modify (\<lambda>w. w\<lparr>cc_lingeringImageArrays := es, wd_heap := h\<rparr>))))"

section \<open>Publications\<close>

definition cc_addPublication :: "byte list \<Rightarrow> int32_t \<Rightarrow> ('u, int64_t) cact" where
  "cc_addPublication channel streamId =
     obind verifyDriverIsActive (\<lambda>_.
     obind (gets cc_publications) (\<lambda>publications.
       case find_if (\<lambda>entry. streamId = ps_streamId entry \<and> channel = ps_channel entry) publications of
         None \<Rightarrow>
           obind (gets cc_driverProxy) (\<lambda>dp. obind (gets wd_stack) (\<lambda>stack.
           obind (on_cpu (addPublication dp stack channel streamId)) (\<lambda>registrationId.
           obind epochClock (\<lambda>now.
           obind (modify (\<lambda>w. w\<lparr>cc_publications := cc_publications w @
             [PublicationStateDefn channel registrationId streamId now]\<rparr>)) (\<lambda>_.
           oret registrationId)))))
       | Some it \<Rightarrow> oret (ps_registrationId (publications ! it))))"

definition findPublicationState :: "int64_t \<Rightarrow> ('u, nat option) cact" where
  "findPublicationState registrationId =
     gets (\<lambda>w. find_if (\<lambda>entry. registrationId = ps_registrationId entry) (cc_publications w))"

text \<open>A new object of the table, with one reference.\<close>

definition makePublication :: "nat \<Rightarrow> ('u, nat option) cact" where
  "makePublication it =
     obind (gets (\<lambda>w. cc_publications w ! it)) (\<lambda>state.
     obind (gets cc_counterValuesBuffer) (\<lambda>counters.
     let publicationLimit = UnsafeBufferPosition counters (ps_positionLimitCounterId state)
     in obind (ofOption (ps_buffers state)) (\<lambda>buffers.
        obind (on_cpu (total (Publication_init (ps_channel state) (ps_registrationId state) (ps_streamId state)
          (ps_sessionId state) publicationLimit buffers))) (\<lambda>pub.
        obind (gets (\<lambda>w. length (wd_publications w))) (\<lambda>k.
        obind (modify (\<lambda>w. w\<lparr>wd_publications := wd_publications w @ [(pub, 1)],
          cc_publications := (cc_publications w)[it := state\<lparr>ps_publication := Some k\<rparr>]\<rparr>)) (\<lambda>_.
        oret (Some k)))))))"

definition findPublication :: "int64_t \<Rightarrow> ('u, nat option) cact" where
  "findPublication registrationId =
     obind (findPublicationState registrationId) (\<lambda>found.
       case found of
         None \<Rightarrow> oret None
       | Some it \<Rightarrow>
           obind (gets (\<lambda>w. cc_publications w ! it)) (\<lambda>state.
           obind (lockPublication (ps_publication state)) (\<lambda>pub.
             if pub \<noteq> None then oret pub
             else case ps_status state of
                    AWAITING_MEDIA_DRIVER \<Rightarrow>
                      obind epochClock (\<lambda>now. obind (gets cc_driverTimeoutMs) (\<lambda>timeout.
                        if sint now > sint (ps_timeOfRegistration state + timeout) then othrow DriverTimeoutException
                        else oret None))
                  | REGISTERED_MEDIA_DRIVER \<Rightarrow> makePublication it
                  | ERRORED_MEDIA_DRIVER \<Rightarrow>
                      obind (ofOption (ps_errorCode state)) (\<lambda>code. othrow (RegistrationException code)))))"

definition releasePublication :: "int64_t \<Rightarrow> ('u, unit) cact" where
  "releasePublication registrationId =
     obind verifyDriverIsActive (\<lambda>_.
     obind (findPublicationState registrationId) (\<lambda>found.
       case found of
         None \<Rightarrow> oret ()
       | Some it \<Rightarrow>
           obind (gets cc_driverProxy) (\<lambda>dp. obind (gets wd_stack) (\<lambda>stack.
           obind (on_cpu (removePublication dp stack registrationId)) (\<lambda>_.
           modify (\<lambda>w. w\<lparr>cc_publications := erase it (cc_publications w)\<rparr>))))))"

text \<open>A destructor: an exception that leaves it ends the program.\<close>

definition noexcept :: "('s, unit) oact \<Rightarrow> ('s, unit) oact" where
  "noexcept m s = (case m s of None \<Rightarrow> None | Some (Inl e, s') \<Rightarrow> None | Some (Inr _, s') \<Rightarrow> Some (Inr (), s'))"

definition destroyPublication :: "publication \<Rightarrow> ('u, unit) cact" where
  "destroyPublication pb = noexcept (releasePublication (pb_registrationId pb))"

text \<open>The application gives a reference back; the last one destroys the object.\<close>

definition resetPublication :: "nat \<Rightarrow> ('u, unit) cact" where
  "resetPublication k =
     obind (gets wd_publications) (\<lambda>objects.
       if k < length objects \<and> 0 < snd (objects ! k)
       then obind (modify (\<lambda>w. w\<lparr>wd_publications := objects[k := (fst (objects ! k), snd (objects ! k) - 1)]\<rparr>)) (\<lambda>_.
              if snd (objects ! k) = 1 then destroyPublication (fst (objects ! k)) else oret ())
       else undefined_behaviour)"

section \<open>Subscriptions\<close>

definition cc_addSubscription :: "byte list \<Rightarrow> int32_t \<Rightarrow> ('u, int64_t) cact" where
  "cc_addSubscription channel streamId =
     obind verifyDriverIsActive (\<lambda>_.
     obind (gets cc_driverProxy) (\<lambda>dp. obind (gets wd_stack) (\<lambda>stack.
     obind (on_cpu (addSubscription dp stack channel streamId)) (\<lambda>registrationId.
     obind epochClock (\<lambda>now.
     obind (modify (\<lambda>w. w\<lparr>cc_subscriptions := cc_subscriptions w @
       [SubscriptionStateDefn channel registrationId streamId now]\<rparr>)) (\<lambda>_.
     oret registrationId))))))"

definition findSubscriptionState :: "int64_t \<Rightarrow> ('u, nat option) cact" where
  "findSubscriptionState registrationId =
     gets (\<lambda>w. find_if (\<lambda>entry. registrationId = ss_registrationId entry) (cc_subscriptions w))"

text \<open>
  Resetting the cache under the lock: if this were the last reference, the destructor would wait for
  the lock its own thread holds.
\<close>

definition resetCache :: "nat \<Rightarrow> ('u, unit) cact" where
  "resetCache it =
     obind (gets (\<lambda>w. ss_subscriptionCache (cc_subscriptions w ! it))) (\<lambda>cache.
       case cache of
         None \<Rightarrow> oret ()
       | Some k \<Rightarrow>
           obind (gets wd_subscriptions) (\<lambda>objects.
             if k < length objects \<and> 1 < snd (objects ! k)
             then modify (\<lambda>w. w\<lparr>wd_subscriptions := objects[k := (fst (objects ! k), snd (objects ! k) - 1)],
               cc_subscriptions := (cc_subscriptions w)[it := (cc_subscriptions w ! it)\<lparr>ss_subscriptionCache := None\<rparr>]\<rparr>)
             else undefined_behaviour))"

definition findSubscription :: "int64_t \<Rightarrow> ('u, nat option) cact" where
  "findSubscription registrationId =
     obind (findSubscriptionState registrationId) (\<lambda>found.
       case found of
         None \<Rightarrow> oret None
       | Some it \<Rightarrow>
           obind (gets (\<lambda>w. cc_subscriptions w ! it)) (\<lambda>state.
           obind (lockSubscription (ss_subscription state)) (\<lambda>sub.
           obind (resetCache it) (\<lambda>_.
             if sub = None \<and> ss_status state = AWAITING_MEDIA_DRIVER
             then obind epochClock (\<lambda>now. obind (gets cc_driverTimeoutMs) (\<lambda>timeout.
                    if sint now > sint (ss_timeOfRegistration state + timeout) then othrow DriverTimeoutException
                    else oret sub))
             else if sub = None \<and> ss_status state = ERRORED_MEDIA_DRIVER
             then obind (ofOption (ss_errorCode state)) (\<lambda>code. othrow (RegistrationException code))
             else oret sub))))"

definition releaseSubscription :: "int64_t \<Rightarrow> image_ptr \<Rightarrow> int32_t \<Rightarrow> ('u, unit) cact" where
  "releaseSubscription registrationId connections connectionsLength =
     obind verifyDriverIsActive (\<lambda>_.
     obind (findSubscriptionState registrationId) (\<lambda>found.
       case found of
         None \<Rightarrow> oret ()
       | Some it \<Rightarrow>
           obind (gets cc_driverProxy) (\<lambda>dp. obind (gets wd_stack) (\<lambda>stack.
           obind (gets (\<lambda>w. ss_registrationId (cc_subscriptions w ! it))) (\<lambda>ident.
           obind (on_cpu (removeSubscription dp stack ident)) (\<lambda>_.
           obind (modify (\<lambda>w. w\<lparr>cc_subscriptions := erase it (cc_subscriptions w)\<rparr>)) (\<lambda>_.
           obind epochClock (\<lambda>now. lingerResources now connections connectionsLength))))))))"

definition destroySubscription :: "subscription \<Rightarrow> ('u, unit) cact" where
  "destroySubscription sn = noexcept (releaseSubscription (sn_registrationId sn) (sn_images sn) (sn_imagesLength sn))"

definition resetSubscription :: "nat \<Rightarrow> ('u, unit) cact" where
  "resetSubscription k =
     obind (gets wd_subscriptions) (\<lambda>objects.
       if k < length objects \<and> 0 < snd (objects ! k)
       then obind (modify (\<lambda>w. w\<lparr>wd_subscriptions := objects[k := (fst (objects ! k), snd (objects ! k) - 1)]\<rparr>)) (\<lambda>_.
              if snd (objects ! k) = 1 then destroySubscription (fst (objects ! k)) else oret ())
       else undefined_behaviour)"

section \<open>Answers of the driver\<close>

definition onNewPublication :: "int32_t \<Rightarrow> int32_t \<Rightarrow> int32_t \<Rightarrow> byte list \<Rightarrow> int64_t \<Rightarrow> ('u, unit) cact" where
  "onNewPublication streamId sessionId positionLimitCounterId logFileName registrationId =
     obind (findPublicationState registrationId) (\<lambda>found.
       case found of
         None \<Rightarrow> oret ()
       | Some it \<Rightarrow>
           obind (modify (\<lambda>w. w\<lparr>cc_publications := (cc_publications w)[it := (cc_publications w ! it)
             \<lparr>ps_status := REGISTERED_MEDIA_DRIVER, ps_sessionId := sessionId,
              ps_positionLimitCounterId := positionLimitCounterId\<rparr>]\<rparr>)) (\<lambda>_.
           obind (gets wd_os) (\<lambda>os.
           obind (on_cpu (total (LogBuffers_file os (c_str logFileName)))) (\<lambda>buffers.
           obind (modify (\<lambda>w. w\<lparr>cc_publications := (cc_publications w)[it := (cc_publications w ! it)
             \<lparr>ps_buffers := Some buffers\<rparr>]\<rparr>)) (\<lambda>_.
           obind (gets cc_onNewPublicationHandler) (\<lambda>handler.
           obind (gets (\<lambda>w. ps_channel (cc_publications w ! it))) (\<lambda>channel.
             on_app (handler channel streamId sessionId registrationId))))))))"

definition onOperationSuccess :: "int64_t \<Rightarrow> ('u, unit) cact" where
  "onOperationSuccess correlationId =
     obind (findSubscriptionState correlationId) (\<lambda>found.
       case found of
         None \<Rightarrow> oret ()
       | Some it \<Rightarrow>
           obind (gets (\<lambda>w. cc_subscriptions w ! it)) (\<lambda>state.
             if ss_status state = AWAITING_MEDIA_DRIVER
             then obind (gets (\<lambda>w. length (wd_subscriptions w))) (\<lambda>k.
                  let sn = Subscription_init (ss_registrationId state) (ss_channel state) (ss_streamId state)
                  in obind (modify (\<lambda>w. w\<lparr>wd_subscriptions := wd_subscriptions w @ [(sn, 1)],
                       cc_subscriptions := (cc_subscriptions w)[it := state\<lparr>ss_status := REGISTERED_MEDIA_DRIVER,
                         ss_subscriptionCache := Some k, ss_subscription := Some k\<rparr>]\<rparr>)) (\<lambda>_.
                     obind (gets cc_onNewSubscriptionHandler) (\<lambda>handler.
                       on_app (handler (ss_channel state) (ss_streamId state) correlationId))))
             else oret ()))"

definition onErrorResponse :: "int64_t \<Rightarrow> int32_t \<Rightarrow> byte list \<Rightarrow> ('u, unit) cact" where
  "onErrorResponse offendingCommandCorrelationId code message =
     obind (findSubscriptionState offendingCommandCorrelationId) (\<lambda>found.
       case found of
         Some it \<Rightarrow>
           modify (\<lambda>w. w\<lparr>cc_subscriptions := (cc_subscriptions w)[it := (cc_subscriptions w ! it)
             \<lparr>ss_status := ERRORED_MEDIA_DRIVER, ss_errorCode := Some code, ss_errorMessage := message\<rparr>]\<rparr>)
       | None \<Rightarrow>
           obind (findPublicationState offendingCommandCorrelationId) (\<lambda>found.
             case found of
               Some it \<Rightarrow>
                 modify (\<lambda>w. w\<lparr>cc_publications := (cc_publications w)[it := (cc_publications w ! it)
                   \<lparr>ps_status := ERRORED_MEDIA_DRIVER, ps_errorCode := Some code, ps_errorMessage := message\<rparr>]\<rparr>)
             | None \<Rightarrow> oret ()))"

text \<open>Adding the image to the subscription \<open>k\<close>; the array it replaces lingers, if there was one.\<close>

definition installImage :: "nat \<Rightarrow> 'u image \<Rightarrow> ('u, 'u image) cact" where
  "installImage k im =
     obind (gets (\<lambda>w. addImage (wd_junk w) (fst (wd_subscriptions w ! k)) im (wd_heap w))) (\<lambda>r.
     obind (ofOption r) (\<lambda>(oldArray, im, subscription, h).
     obind (modify (\<lambda>w. w\<lparr>wd_heap := h, wd_subscriptions := (wd_subscriptions w)
       [k := (subscription, snd (wd_subscriptions w ! k))]\<rparr>)) (\<lambda>_.
     obind (if oldArray \<noteq> None then obind epochClock (\<lambda>now. lingerArray now oldArray) else oret ()) (\<lambda>_.
     oret im))))"

text \<open>
  The new image of one subscription: the first of the given positions that is for it gives the
  counter of its position. The handler sees the image after the array has taken over its contents.
\<close>

fun newImageAt ::
    "nat \<Rightarrow> int32_t \<Rightarrow> int64_t \<Rightarrow> byte list \<Rightarrow> byte list \<Rightarrow> int32_t \<Rightarrow> nat \<Rightarrow> addr \<Rightarrow> int64_t \<Rightarrow> ('u, unit) cact" where
  "newImageAt k sessionId joiningPosition logFilename sourceIdentity streamId 0 a correlationId = oret ()"
| "newImageAt k sessionId joiningPosition logFilename sourceIdentity streamId (Suc n) a correlationId =
     obind (gets (\<lambda>w. fst (wd_subscriptions w ! k))) (\<lambda>subscription.
     obind (on_cpu (total (struct_get 8 a 4))) (\<lambda>registrationId.
       if sn_registrationId subscription = registrationId
       then obind (gets wd_os) (\<lambda>os.
            obind (on_cpu (total (LogBuffers_file os (c_str logFilename)))) (\<lambda>logBuffers.
            obind (gets cc_counterValuesBuffer) (\<lambda>counters.
            obind (on_cpu (total (struct_get 4 a 0))) (\<lambda>indicatorId.
            let subscriberPosition = UnsafeBufferPosition counters indicatorId
            in obind (gets cc_errorHandler) (\<lambda>errorHandler.
               obind (on_cpu (total (Image_init sessionId joiningPosition correlationId subscriberPosition logBuffers
                 errorHandler))) (\<lambda>image.
               obind (installImage k image) (\<lambda>image.
               obind (gets cc_onNewImageHandler) (\<lambda>handler.
                 on_app (handler image (sn_getChannel subscription) streamId sessionId joiningPosition sourceIdentity)))))))))
       else newImageAt k sessionId joiningPosition logFilename sourceIdentity streamId n (a + 12) correlationId))"

text \<open>Whether the weak pointer of a subscription could be locked; the lock is given back at once.\<close>

definition alive :: "nat option \<Rightarrow> ('o \<times> nat) list \<Rightarrow> nat option" where
  "alive p objects = fst (lock_object p objects)"

definition newImageFor ::
    "int32_t \<Rightarrow> int32_t \<Rightarrow> int64_t \<Rightarrow> byte list \<Rightarrow> byte list \<Rightarrow> int32_t \<Rightarrow> addr \<Rightarrow> int64_t \<Rightarrow> subscription_state \<Rightarrow> ('u, unit) cact" where
  "newImageFor streamId sessionId joiningPosition logFilename sourceIdentity count positions correlationId entry =
     (if streamId = ss_streamId entry
      then obind (gets (\<lambda>w. alive (ss_subscription entry) (wd_subscriptions w))) (\<lambda>found.
             case found of
               None \<Rightarrow> oret ()
             | Some k \<Rightarrow>
                 obind (gets (\<lambda>w. hasImage (fst (wd_subscriptions w ! k)) (wd_heap w) sessionId)) (\<lambda>r.
                 obind (ofOption r) (\<lambda>has.
                   if has then oret ()
                   else newImageAt k sessionId joiningPosition logFilename sourceIdentity streamId (nat (sint count))
                     positions correlationId)))
      else oret ())"

fun for_each :: "('a \<Rightarrow> ('s, unit) oact) \<Rightarrow> 'a list \<Rightarrow> ('s, unit) oact" where
  "for_each f [] = oret ()"
| "for_each f (x # xs) = obind (f x) (\<lambda>_. for_each f xs)"

definition onNewImage ::
    "int32_t \<Rightarrow> int32_t \<Rightarrow> int64_t \<Rightarrow> byte list \<Rightarrow> byte list \<Rightarrow> int32_t \<Rightarrow> addr \<Rightarrow> int64_t \<Rightarrow> ('u, unit) cact" where
  "onNewImage streamId sessionId joiningPosition logFilename sourceIdentity count positions correlationId =
     obind (gets cc_subscriptions)
       (for_each (newImageFor streamId sessionId joiningPosition logFilename sourceIdentity count positions correlationId))"

definition inactiveImageFor ::
    "int32_t \<Rightarrow> int32_t \<Rightarrow> int64_t \<Rightarrow> int64_t \<Rightarrow> int64_t \<Rightarrow> subscription_state \<Rightarrow> ('u, unit) cact" where
  "inactiveImageFor streamId sessionId pos correlationId now entry =
     (if streamId = ss_streamId entry
      then obind (gets (\<lambda>w. alive (ss_subscription entry) (wd_subscriptions w))) (\<lambda>found.
             case found of
               None \<Rightarrow> oret ()
             | Some k \<Rightarrow>
                 obind (gets (\<lambda>w. removeImage (wd_junk w) (fst (wd_subscriptions w ! k)) correlationId (wd_heap w))) (\<lambda>r.
                 obind (ofOption r) (\<lambda>((oldArray, index), subscription, h).
                 obind (modify (\<lambda>w. w\<lparr>wd_heap := h, wd_subscriptions := (wd_subscriptions w)
                   [k := (subscription, snd (wd_subscriptions w ! k))]\<rparr>)) (\<lambda>_.
                   if oldArray \<noteq> None
                   then obind (deref oldArray index) (\<lambda>im.
                        obind (lingerLogBuffers now (im_getLogBuffers im)) (\<lambda>_.
                        obind (lingerArray now oldArray) (\<lambda>_.
                        obind (gets cc_onInactiveImageHandler) (\<lambda>handler.
                          on_app (handler im (sn_getChannel subscription) streamId sessionId pos)))))
                   else oret ()))))
      else oret ())"

definition onInactiveImage :: "int32_t \<Rightarrow> int32_t \<Rightarrow> int64_t \<Rightarrow> int64_t \<Rightarrow> ('u, unit) cact" where
  "onInactiveImage streamId sessionId pos correlationId =
     obind epochClock (\<lambda>now. obind (gets cc_subscriptions)
       (for_each (inactiveImageFor streamId sessionId pos correlationId now)))"

text \<open>The conductor as the listener of its adapter.\<close>

fun client_listener :: "'u client listener" where
  "client_listener (OnNewPublication stream session limit name corr) = onNewPublication stream session limit name corr"
| "client_listener (OnNewImage stream session joining name source n a corr) =
     onNewImage stream session joining name source n a corr"
| "client_listener (OnOperationSuccess corr) = onOperationSuccess corr"
| "client_listener (OnInactiveImage stream session pos corr) = onInactiveImage stream session pos corr"
| "client_listener (OnErrorResponse corr code msg) = onErrorResponse corr code msg"

section \<open>The duty cycle\<close>

definition checkKeepalive :: "int64_t \<Rightarrow> ('u, bool) cact" where
  "checkKeepalive now =
     obind (gets cc_timeOfLastKeepalive) (\<lambda>last.
       if sint now > sint (last + KEEPALIVE_TIMEOUT_MS)
       then obind (gets cc_driverProxy) (\<lambda>dp. obind (gets wd_stack) (\<lambda>stack.
            obind (on_cpu (sendClientKeepalive dp stack)) (\<lambda>_.
            obind (on_cpu (total (timeOfLastDriverKeepalive dp))) (\<lambda>seen.
            obind (gets cc_driverTimeoutMs) (\<lambda>timeout.
            obind (if sint now > sint (seen + timeout)
                   then obind (modify (\<lambda>w. w\<lparr>cc_driverActive := False\<rparr>)) (\<lambda>_.
                        obind (gets cc_errorHandler) (\<lambda>handler.
                          on_app (handler DriverTimeoutException)))
                   else oret ()) (\<lambda>_.
            obind (modify (\<lambda>w. w\<lparr>cc_timeOfLastKeepalive := now\<rparr>)) (\<lambda>_. oret True)))))))
       else oret False)"

definition checkResources :: "int64_t \<Rightarrow> ('u, bool) cact" where
  "checkResources now =
     obind (gets cc_timeOfLastCheckManagedResources) (\<lambda>last.
       if sint now > sint (last + RESOURCE_TIMEOUT_MS)
       then obind (onCheckManagedResources now) (\<lambda>_.
            obind (modify (\<lambda>w. w\<lparr>cc_timeOfLastCheckManagedResources := now\<rparr>)) (\<lambda>_. oret True))
       else oret False)"

definition onHeartbeatCheckTimeouts :: "('u, int32_t) cact" where
  "onHeartbeatCheckTimeouts =
     obind epochClock (\<lambda>now. obind (checkKeepalive now) (\<lambda>a. obind (checkResources now) (\<lambda>b.
       oret (if a \<or> b then 1 else 0))))"

text \<open>The state of \<^verbatim>\<open>doWork\<close> has the broadcast receiver of the adapter in front.\<close>

definition doWork :: "(copyreceiver \<times> cpu \<times> 'u client, int32_t) oact" where
  "doWork =
     obind (receiveMessages client_listener) (\<lambda>received.
     obind (\<lambda>(cb, s). map_option (\<lambda>(r, s). (r, (cb, s))) (onHeartbeatCheckTimeouts s)) (\<lambda>beat.
       oret (received + beat)))"

definition onClose :: "('u, unit) cact" where
  "onClose = oret ()"

section \<open>Construction and destruction\<close>

text \<open>The world \<open>w\<close> gives what is not a member; the clock is read twice.\<close>

definition ClientConductor_init ::
    "driver_proxy \<Rightarrow> abuf \<Rightarrow> (byte list \<Rightarrow> int32_t \<Rightarrow> int32_t \<Rightarrow> int64_t \<Rightarrow> 'u app) \<Rightarrow>
      (byte list \<Rightarrow> int32_t \<Rightarrow> int64_t \<Rightarrow> 'u app) \<Rightarrow>
      ('u image \<Rightarrow> byte list \<Rightarrow> int32_t \<Rightarrow> int32_t \<Rightarrow> int64_t \<Rightarrow> byte list \<Rightarrow> 'u app) \<Rightarrow>
      ('u image \<Rightarrow> byte list \<Rightarrow> int32_t \<Rightarrow> int32_t \<Rightarrow> int64_t \<Rightarrow> 'u app) \<Rightarrow> 'u exception_handler \<Rightarrow>
      int64_t \<Rightarrow> int64_t \<Rightarrow> 'u client \<Rightarrow> 'u client" where
  "ClientConductor_init driverProxy counterValuesBuffer newPublicationHandler newSubscriptionHandler newImageHandler
     inactiveImageHandler errorHandler driverTimeoutMs resourceLingerTimeoutMs w =
     w\<lparr>cc_publications := [], cc_subscriptions := [], cc_lingeringLogBuffers := [], cc_lingeringImageArrays := [],
       cc_driverProxy := driverProxy, cc_counterValuesBuffer := counterValuesBuffer,
       cc_onNewPublicationHandler := newPublicationHandler, cc_onNewSubscriptionHandler := newSubscriptionHandler,
       cc_onNewImageHandler := newImageHandler, cc_onInactiveImageHandler := inactiveImageHandler,
       cc_errorHandler := errorHandler,
       cc_timeOfLastKeepalive := wd_clock w (wd_ticks w),
       cc_timeOfLastCheckManagedResources := wd_clock w (Suc (wd_ticks w)), wd_ticks := wd_ticks w + 2,
       cc_driverTimeoutMs := driverTimeoutMs, cc_resourceLingerTimeoutMs := resourceLingerTimeoutMs,
       cc_driverActive := True\<rparr>"

text \<open>
  The destructor takes the cached subscriptions out, frees the lingering arrays, and then drops the
  subscriptions, whose own destructors call back.
\<close>

fun delete_arrays :: "array_linger list \<Rightarrow> 'u image_heap \<Rightarrow> 'u image_heap option" where
  "delete_arrays [] h = Some h"
| "delete_arrays (e # es) h = (case deleteArray h (al_array e) of None \<Rightarrow> None | Some h \<Rightarrow> delete_arrays es h)"

definition ClientConductor_destroy :: "('u, unit) cact" where
  "ClientConductor_destroy =
     obind (gets (\<lambda>w. map ss_subscriptionCache (cc_subscriptions w))) (\<lambda>subscriptions.
     obind (modify (\<lambda>w. w\<lparr>cc_subscriptions :=
       map (\<lambda>e. e\<lparr>ss_subscriptionCache := None\<rparr>) (cc_subscriptions w)\<rparr>)) (\<lambda>_.
     obind (gets (\<lambda>w. delete_arrays (cc_lingeringImageArrays w) (wd_heap w))) (\<lambda>r.
     obind (ofOption r) (\<lambda>h.
     obind (modify (\<lambda>w. w\<lparr>wd_heap := h,
       cc_lingeringImageArrays := map (\<lambda>e. e\<lparr>al_array := None\<rparr>) (cc_lingeringImageArrays w)\<rparr>)) (\<lambda>_.
     for_each (\<lambda>s. case s of None \<Rightarrow> oret () | Some k \<Rightarrow> resetSubscription k) subscriptions)))))"

section \<open>A concrete client\<close>

text \<open>A subscription waits for the driver's answer, and an array has lingered for 10 seconds.\<close>

definition demo_client :: "byte list list client" where
  "demo_client =
     \<lparr>cc_publications = [], cc_subscriptions = [SubscriptionStateDefn [] 0 10 0], cc_lingeringLogBuffers = [],
      cc_lingeringImageArrays = [\<lparr>al_timeOfLastStatusChange = 0, al_array = Some 0\<rparr>],
      cc_driverProxy = \<lparr>dp_toDriverCommandBuffer = demo_ring, dp_clientId = 1\<rparr>,
      cc_counterValuesBuffer = AtomicBuffer 100000 128,
      cc_onNewPublicationHandler = (\<lambda>ch st se i s. Some (Inr (), s)),
      cc_onNewSubscriptionHandler = (\<lambda>ch st i s. Some (Inr (), (fst s, snd s @ [ch]))),
      cc_onNewImageHandler = (\<lambda>im ch st se p so s. Some (Inr (), s)),
      cc_onInactiveImageHandler = (\<lambda>im ch st se p s. Some (Inr (), s)), cc_errorHandler = ignore,
      cc_timeOfLastKeepalive = 0, cc_timeOfLastCheckManagedResources = 0, cc_driverTimeoutMs = 10000,
      cc_resourceLingerTimeoutMs = 5000, cc_driverActive = True, wd_heap = [Some [demo_image]], wd_publications = [],
      wd_subscriptions = [], wd_clock = (\<lambda>n. of_nat n), wd_ticks = 0, wd_app = [], wd_os = demo_files, wd_stack = 0,
      wd_junk = demo_image\<rparr>"

end
