(* ===== verification/CncFileDescriptor.thy ===== *)
theory CncFileDescriptor
  imports AtomicBuffer BitUtil MemoryMappedFile
begin

text \<open>
  \<^verbatim>\<open>CncFileDescriptor.h\<close>: the command and control file starts with its version and the lengths of the
  four buffers that follow one another behind it.
\<close>

definition CNC_FILE :: string where
  "CNC_FILE = ''cnc''"

definition CNC_VERSION :: int32_t where [layout]: "CNC_VERSION = 2"

definition VERSION_AND_META_DATA_LENGTH :: uint64_t where
  [layout]: "VERSION_AND_META_DATA_LENGTH = align 20 (of_nat CACHE_LINE_LENGTH)"

text \<open>A field of the meta data at the start of the file, as each of the functions below reads it.\<close>

definition metaData :: "mmfile \<Rightarrow> int \<Rightarrow> (cpu, int32_t) act" where
  "metaData cncFile off =
     bind (overlayStruct 20 (AtomicBuffer (getMemoryPtr cncFile) (ucast (getMemorySize cncFile))) 0)
       (\<lambda>a. peek (\<lambda>c. get_le 4 c (a + off)))"

definition cncVersion :: "mmfile \<Rightarrow> (cpu, int32_t) act" where
  "cncVersion cncFile = metaData cncFile 0"

definition createToDriverBuffer :: "mmfile \<Rightarrow> (cpu, abuf) act" where
  "createToDriverBuffer cncFile = bind (metaData cncFile 4) (\<lambda>toDriver.
     ret (AtomicBuffer (getMemoryPtr cncFile + int (unat VERSION_AND_META_DATA_LENGTH)) toDriver))"

definition createToClientsBuffer :: "mmfile \<Rightarrow> (cpu, abuf) act" where
  "createToClientsBuffer cncFile = bind (metaData cncFile 4) (\<lambda>toDriver. bind (metaData cncFile 8) (\<lambda>toClients.
     ret (AtomicBuffer (getMemoryPtr cncFile + int (unat VERSION_AND_META_DATA_LENGTH) + sint toDriver) toClients)))"

definition createCounterLabelsBuffer :: "mmfile \<Rightarrow> (cpu, abuf) act" where
  "createCounterLabelsBuffer cncFile = bind (metaData cncFile 4) (\<lambda>toDriver. bind (metaData cncFile 8) (\<lambda>toClients.
     bind (metaData cncFile 12) (\<lambda>labels.
     ret (AtomicBuffer (getMemoryPtr cncFile + int (unat VERSION_AND_META_DATA_LENGTH) + sint toDriver + sint toClients) labels))))"

definition createCounterValuesBuffer :: "mmfile \<Rightarrow> (cpu, abuf) act" where
  "createCounterValuesBuffer cncFile = bind (metaData cncFile 4) (\<lambda>toDriver. bind (metaData cncFile 8) (\<lambda>toClients.
     bind (metaData cncFile 12) (\<lambda>labels. bind (metaData cncFile 16) (\<lambda>vals.
     ret (AtomicBuffer (getMemoryPtr cncFile + int (unat VERSION_AND_META_DATA_LENGTH) + sint toDriver + sint toClients +
       sint labels) vals)))))"

text \<open>The buffers lie one behind the other, from the first cache line on.\<close>

lemma cnc_buffers:
  fixes f c
  assumes "20 \<le> sint (ucast (getMemorySize f) :: int32_t)"
  defines "p \<equiv> getMemoryPtr f" and "n \<equiv> \<lambda>off. get_le 4 c (getMemoryPtr f + off) :: int32_t"
  shows "cncVersion f c = (Inr (n 0), c)"
    "createToDriverBuffer f c = (Inr (AtomicBuffer (p + 64) (n 4)), c)"
    "createToClientsBuffer f c = (Inr (AtomicBuffer (p + 64 + sint (n 4)) (n 8)), c)"
    "createCounterLabelsBuffer f c = (Inr (AtomicBuffer (p + 64 + sint (n 4) + sint (n 8)) (n 12)), c)"
    "createCounterValuesBuffer f c = (Inr (AtomicBuffer (p + 64 + sint (n 4) + sint (n 8) + sint (n 12)) (n 16)), c)"
proof -
  have m: "metaData f off c = (Inr (n off), c)" for off
    using assms(1) by (simp add: metaData_def overlayStruct_def n_def in_range_def AtomicBuffer_def at_def)
  have v: "VERSION_AND_META_DATA_LENGTH = 64" by (simp add: layout align_def)
  note d = m v p_def
  show "cncVersion f c = (Inr (n 0), c)" by (simp add: cncVersion_def d)
  show "createToDriverBuffer f c = (Inr (AtomicBuffer (p + 64) (n 4)), c)" by (simp add: createToDriverBuffer_def d)
  show "createToClientsBuffer f c = (Inr (AtomicBuffer (p + 64 + sint (n 4)) (n 8)), c)"
    by (simp add: createToClientsBuffer_def d)
  show "createCounterLabelsBuffer f c = (Inr (AtomicBuffer (p + 64 + sint (n 4) + sint (n 8)) (n 12)), c)"
    by (simp add: createCounterLabelsBuffer_def d)
  show "createCounterValuesBuffer f c = (Inr (AtomicBuffer (p + 64 + sint (n 4) + sint (n 8) + sint (n 12)) (n 16)), c)"
    by (simp add: createCounterValuesBuffer_def d)
qed

end
