(* ===== verification/AeronContext.thy ===== *)
theory AeronContext
  imports ClientConductor CncFileDescriptor
begin

text \<open>
  \<^verbatim>\<open>Context.h\<close>: the configuration of a client. The environment is a parameter, the values of the
  variables that are set. The default error handler prints the exception and ends the program.
\<close>

definition NULL_TIMEOUT :: int64_t where "NULL_TIMEOUT = - 1"

definition DEFAULT_MEDIA_DRIVER_TIMEOUT_MS :: int64_t where "DEFAULT_MEDIA_DRIVER_TIMEOUT_MS = 10000"

definition DEFAULT_RESOURCE_LINGER_MS :: int64_t where "DEFAULT_RESOURCE_LINGER_MS = 5000"

type_synonym environment = "string \<Rightarrow> string option"

record 'u aeron_context =
  cx_dirName :: string
  cx_exceptionHandler :: "'u exception_handler"
  cx_onNewPublicationHandler :: "byte list \<Rightarrow> int32_t \<Rightarrow> int32_t \<Rightarrow> int64_t \<Rightarrow> 'u app"
  cx_onNewSubscriptionHandler :: "byte list \<Rightarrow> int32_t \<Rightarrow> int64_t \<Rightarrow> 'u app"
  cx_onNewImageHandler :: "'u image \<Rightarrow> byte list \<Rightarrow> int32_t \<Rightarrow> int32_t \<Rightarrow> int64_t \<Rightarrow> byte list \<Rightarrow> 'u app"
  cx_onInactiveImageHandler :: "'u image \<Rightarrow> byte list \<Rightarrow> int32_t \<Rightarrow> int32_t \<Rightarrow> int64_t \<Rightarrow> 'u app"
  cx_mediaDriverTimeout :: int64_t
  cx_resourceLingerTimeout :: int64_t

section \<open>Defaults\<close>

definition defaultErrorHandler :: "'u exception_handler" where
  "defaultErrorHandler ex = undefined_behaviour"

definition defaultOnNewPublicationHandler :: "byte list \<Rightarrow> int32_t \<Rightarrow> int32_t \<Rightarrow> int64_t \<Rightarrow> 'u app" where
  "defaultOnNewPublicationHandler channel streamId sessionId correlationId = oret ()"

definition defaultOnNewSubscriptionHandler :: "byte list \<Rightarrow> int32_t \<Rightarrow> int64_t \<Rightarrow> 'u app" where
  "defaultOnNewSubscriptionHandler channel streamId correlationId = oret ()"

definition defaultOnNewImageHandler ::
    "'u image \<Rightarrow> byte list \<Rightarrow> int32_t \<Rightarrow> int32_t \<Rightarrow> int64_t \<Rightarrow> byte list \<Rightarrow> 'u app" where
  "defaultOnNewImageHandler im channel streamId sessionId joiningPosition sourceIdentity = oret ()"

definition defaultOnInactiveImageHandler :: "'u image \<Rightarrow> byte list \<Rightarrow> int32_t \<Rightarrow> int32_t \<Rightarrow> int64_t \<Rightarrow> 'u app" where
  "defaultOnInactiveImageHandler im channel streamId sessionId pos = oret ()"

definition tmpDir :: "environment \<Rightarrow> string" where
  "tmpDir getenv = (case getenv ''TMPDIR'' of None \<Rightarrow> ''/tmp'' | Some dir \<Rightarrow> dir)"

definition getUserName :: "environment \<Rightarrow> string" where
  "getUserName getenv = (case getenv ''USER'' of None \<Rightarrow> ''default'' | Some username \<Rightarrow> username)"

text \<open>Linux.\<close>

definition defaultAeronPath :: "environment \<Rightarrow> string" where
  "defaultAeronPath getenv = ''/dev/shm/aeron-'' @ getUserName getenv"

definition AeronContext :: "environment \<Rightarrow> 'u aeron_context" where
  "AeronContext getenv =
     \<lparr>cx_dirName = defaultAeronPath getenv, cx_exceptionHandler = defaultErrorHandler,
      cx_onNewPublicationHandler = defaultOnNewPublicationHandler,
      cx_onNewSubscriptionHandler = defaultOnNewSubscriptionHandler, cx_onNewImageHandler = defaultOnNewImageHandler,
      cx_onInactiveImageHandler = defaultOnInactiveImageHandler, cx_mediaDriverTimeout = NULL_TIMEOUT,
      cx_resourceLingerTimeout = NULL_TIMEOUT\<rparr>"

section \<open>Operations\<close>

definition conclude :: "'u aeron_context \<Rightarrow> 'u aeron_context" where
  "conclude cx =
     (let cx = (if NULL_TIMEOUT = cx_mediaDriverTimeout cx then cx\<lparr>cx_mediaDriverTimeout := DEFAULT_MEDIA_DRIVER_TIMEOUT_MS\<rparr> else cx)
      in if NULL_TIMEOUT = cx_resourceLingerTimeout cx then cx\<lparr>cx_resourceLingerTimeout := DEFAULT_RESOURCE_LINGER_MS\<rparr>
         else cx)"

definition aeronDir :: "string \<Rightarrow> 'u aeron_context \<Rightarrow> 'u aeron_context" where
  "aeronDir directory cx = cx\<lparr>cx_dirName := directory\<rparr>"

definition cncFileName :: "'u aeron_context \<Rightarrow> string" where
  "cncFileName cx = cx_dirName cx @ ''/'' @ CNC_FILE"

definition errorHandler :: "'u exception_handler \<Rightarrow> 'u aeron_context \<Rightarrow> 'u aeron_context" where
  "errorHandler handler cx = cx\<lparr>cx_exceptionHandler := handler\<rparr>"

definition newPublicationHandler ::
    "(byte list \<Rightarrow> int32_t \<Rightarrow> int32_t \<Rightarrow> int64_t \<Rightarrow> 'u app) \<Rightarrow> 'u aeron_context \<Rightarrow> 'u aeron_context" where
  "newPublicationHandler handler cx = cx\<lparr>cx_onNewPublicationHandler := handler\<rparr>"

definition newSubscriptionHandler ::
    "(byte list \<Rightarrow> int32_t \<Rightarrow> int64_t \<Rightarrow> 'u app) \<Rightarrow> 'u aeron_context \<Rightarrow> 'u aeron_context" where
  "newSubscriptionHandler handler cx = cx\<lparr>cx_onNewSubscriptionHandler := handler\<rparr>"

definition newImageHandler ::
    "('u image \<Rightarrow> byte list \<Rightarrow> int32_t \<Rightarrow> int32_t \<Rightarrow> int64_t \<Rightarrow> byte list \<Rightarrow> 'u app) \<Rightarrow> 'u aeron_context \<Rightarrow> 'u aeron_context" where
  "newImageHandler handler cx = cx\<lparr>cx_onNewImageHandler := handler\<rparr>"

definition inactiveImageHandler ::
    "('u image \<Rightarrow> byte list \<Rightarrow> int32_t \<Rightarrow> int32_t \<Rightarrow> int64_t \<Rightarrow> 'u app) \<Rightarrow> 'u aeron_context \<Rightarrow> 'u aeron_context" where
  "inactiveImageHandler handler cx = cx\<lparr>cx_onInactiveImageHandler := handler\<rparr>"

definition mediaDriverTimeout :: "int64_t \<Rightarrow> 'u aeron_context \<Rightarrow> 'u aeron_context" where
  "mediaDriverTimeout value cx = cx\<lparr>cx_mediaDriverTimeout := value\<rparr>"

definition resourceLingerTimeout :: "int64_t \<Rightarrow> 'u aeron_context \<Rightarrow> 'u aeron_context" where
  "resourceLingerTimeout value cx = cx\<lparr>cx_resourceLingerTimeout := value\<rparr>"

text \<open>A timeout of -1 is the mark of one that was not set: it becomes the default, like the default itself.\<close>

lemma conclude_sel:
  "cx_mediaDriverTimeout (conclude cx) = (if cx_mediaDriverTimeout cx = - 1 then 10000 else cx_mediaDriverTimeout cx)"
  "cx_resourceLingerTimeout (conclude cx) = (if cx_resourceLingerTimeout cx = - 1 then 5000 else cx_resourceLingerTimeout cx)"
  "cx_exceptionHandler (conclude cx) = cx_exceptionHandler cx" "cncFileName (conclude cx) = cncFileName cx"
  "cx_onNewPublicationHandler (conclude cx) = cx_onNewPublicationHandler cx"
  "cx_onNewSubscriptionHandler (conclude cx) = cx_onNewSubscriptionHandler cx"
  "cx_onNewImageHandler (conclude cx) = cx_onNewImageHandler cx"
  "cx_onInactiveImageHandler (conclude cx) = cx_onInactiveImageHandler cx"
  by (simp_all add: conclude_def Let_def cncFileName_def NULL_TIMEOUT_def DEFAULT_MEDIA_DRIVER_TIMEOUT_MS_def
      DEFAULT_RESOURCE_LINGER_MS_def)

lemma conclude_idem: "conclude (conclude cx) = conclude cx"
  by (simp add: conclude_def Let_def NULL_TIMEOUT_def DEFAULT_MEDIA_DRIVER_TIMEOUT_MS_def DEFAULT_RESOURCE_LINGER_MS_def)

end
