(* ===== verification/AgentRunner.thy ===== *)
theory AgentRunner
  imports AtomicBuffer
begin

text \<open>
  \<^verbatim>\<open>AgentRunner.h\<close> and the idle strategies: the thread that calls an agent's \<^verbatim>\<open>doWork\<close> over and over until it
  is told to stop. \<open>running k\<close> is what the \<open>k\<close>-th test of \<^verbatim>\<open>m_running\<close> reads. The result is \<open>None\<close> where the
  loop does not end or an exception leaves the thread, which ends the program.
\<close>

section \<open>Idle strategies\<close>

text \<open>The sleeps are recorded.\<close>

definition SleepingIdleStrategy_idle :: "int64_t \<Rightarrow> int32_t \<Rightarrow> ('s \<times> int64_t list, unit) oact" where
  "SleepingIdleStrategy_idle duration workCount s =
     Some (Inr (), if 0 = workCount then (fst s, snd s @ [duration]) else s)"

definition BusySpinIdleStrategy_idle :: "int32_t \<Rightarrow> (cpu, unit) oact" where
  "BusySpinIdleStrategy_idle workCount c = Some (Inr (), if sint workCount > 0 then c else atomic_cpu_pause c)"

section \<open>The runner\<close>

text \<open>All exceptions of the library are \<^verbatim>\<open>SourcedException\<close>s, a plain \<^verbatim>\<open>std::exception\<close> is not.\<close>

definition isSourcedException :: "exn \<Rightarrow> bool" where
  "isSourcedException e \<longleftrightarrow> e \<noteq> StandardException"

text \<open>The body of the loop.\<close>

definition duty_cycle :: "('s, int32_t) oact \<Rightarrow> (int32_t \<Rightarrow> ('s, unit) oact) \<Rightarrow> (exn \<Rightarrow> ('s, unit) oact) \<Rightarrow> 's \<Rightarrow> 's option" where
  "duty_cycle work idle exceptionHandler s =
     (case obind work idle s of
        None \<Rightarrow> None
      | Some (Inr _, s) \<Rightarrow> Some s
      | Some (Inl e, s) \<Rightarrow>
          if isSourcedException e
          then (case exceptionHandler e s of None \<Rightarrow> None | Some (Inl _, s) \<Rightarrow> None | Some (Inr _, s) \<Rightarrow> Some s)
          else None)"

partial_function (option) run_agent :: "(nat \<Rightarrow> bool) \<Rightarrow> ('s \<Rightarrow> 's option) \<Rightarrow> nat \<Rightarrow> 's \<Rightarrow> 's option" where
  "run_agent running cycle k s =
     (if running k then case cycle s of None \<Rightarrow> None | Some s \<Rightarrow> run_agent running cycle (Suc k) s else Some s)"

section \<open>What a run is\<close>

fun cycles :: "('s \<Rightarrow> 's option) \<Rightarrow> nat \<Rightarrow> 's \<Rightarrow> 's option" where
  "cycles cycle 0 s = Some s"
| "cycles cycle (Suc n) s = Option.bind (cycle s) (cycles cycle n)"

lemma run_agent_unfolds:
  assumes "\<forall>j < n. running (k + j)" "\<not> running (k + n)"
  shows "run_agent running cycle k s = cycles cycle n s"
  using assms
proof (induction n arbitrary: k s)
  case 0
  then show ?case by (simp add: run_agent.simps)
next
  case (Suc n)
  have k: "running k" using spec[OF Suc.prems(1), of 0] by simp
  have "running (Suc k + j)" if "j < n" for j using spec[OF Suc.prems(1), of "Suc j"] that by simp
  moreover have "\<not> running (Suc k + n)" using Suc.prems(2) by simp
  ultimately have "run_agent running cycle (Suc k) t = cycles cycle n t" for t using Suc.IH by blast
  then show ?case using k by (subst run_agent.simps) (cases "cycle s"; simp)
qed

text \<open>What every duty cycle keeps, the run keeps.\<close>

lemma run_agent_induct:
  assumes "run_agent running cycle k s = Some t"
    and "\<And>k s. \<not> running k \<Longrightarrow> P k s s"
    and "\<And>k s u t. running k \<Longrightarrow> cycle s = Some u \<Longrightarrow> P (Suc k) u t \<Longrightarrow> P k s t"
  shows "P k s t"
proof -
  have "running = running \<longrightarrow> cycle = cycle \<longrightarrow> P k s t"
    by (rule run_agent.raw_induct[where P = "\<lambda>r c k s t. r = running \<longrightarrow> c = cycle \<longrightarrow> P k s t", OF _ assms(1)])
      (auto split: if_splits option.splits intro: assms(2,3))
  then show ?thesis by simp
qed

lemma run_agent_stopped: "run_agent running cycle k s = Some t \<Longrightarrow> \<exists>n. \<not> running n"
  by (erule run_agent_induct) auto

text \<open>
  The runner's thread makes exactly the duty cycles until its flag is first seen cleared, one after
  the other, and then ends; it never ends while the flag stays set.
\<close>

theorem runner_cycles:
  "run_agent running cycle 0 s = (if \<exists>n. \<not> running n then cycles cycle (LEAST n. \<not> running n) s else None)"
proof (cases "\<exists>n. \<not> running n")
  case True
  let ?n = "LEAST n. \<not> running n"
  have "\<not> running ?n" using True by (rule LeastI_ex)
  moreover have "\<forall>j < ?n. running (0 + j)" using not_less_Least[of _ "\<lambda>n. \<not> running n"] by (metis add_0)
  ultimately have "run_agent running cycle 0 s = cycles cycle ?n s" by (intro run_agent_unfolds) (simp_all only: add_0 not_False_eq_True)
  then show ?thesis using True by (simp only: if_True)
next
  case False
  then show ?thesis using run_agent_stopped[of running cycle 0 s] by (cases "run_agent running cycle 0 s") auto
qed

section \<open>The contract of an agent\<close>

text \<open>An agent whose work, idling and error handling keep an invariant, however they end.\<close>

locale agent =
  fixes work :: "('s, int32_t) oact"
    and idle :: "int32_t \<Rightarrow> ('s, unit) oact"
    and handler :: "exn \<Rightarrow> ('s, unit) oact"
    and inv :: "'s \<Rightarrow> 's \<Rightarrow> bool"
  assumes inv_refl: "inv s s" and inv_trans: "inv s t \<Longrightarrow> inv t u \<Longrightarrow> inv s u"
    and inv_work: "work s = Some (r, t) \<Longrightarrow> inv s t"
    and inv_idle: "idle n s = Some (r', t) \<Longrightarrow> inv s t"
    and inv_handler: "handler e s = Some (r', t) \<Longrightarrow> inv s t"
begin

lemma cycle_keeps: "duty_cycle work idle handler s = Some t \<Longrightarrow> inv s t"
  by (auto simp: duty_cycle_def obind_def split: option.splits sum.splits if_splits
      dest!: inv_work inv_idle inv_handler) (blast intro: inv_trans)+

lemma run_keeps: "run_agent running (duty_cycle work idle handler) k s = Some t \<Longrightarrow> inv s t"
  by (erule run_agent_induct) (blast intro: inv_refl inv_trans cycle_keeps)+

end

end
