(* ===== verification/ClientResources.thy ===== *)
theory ClientResources
  imports ClientConductor
begin

text \<open>
  What a client may rely on: whichever calls the application, the polling thread and the driver make,
  the arrays in use and the arrays that linger are allocated and have one owner each, so that nothing
  is freed twice or while it is in use; and what a check of the resources frees.
\<close>

section \<open>Outcomes of a call\<close>

text \<open>Every outcome of the call satisfies \<open>Q\<close>.\<close>

definition ensures :: "('s, 'a) oact \<Rightarrow> 's \<Rightarrow> (exn + 'a \<Rightarrow> 's \<Rightarrow> bool) \<Rightarrow> bool" where
  "ensures m s Q \<longleftrightarrow> (case m s of None \<Rightarrow> True | Some (r, s') \<Rightarrow> Q r s')"

lemma ensures_steps [simp]:
  "ensures (gets f) s P = P (Inr (f (snd s))) s"
  "ensures (modify g) s P' = P' (Inr ()) (fst s, g (snd s))"
  "ensures (on_cpu m) s P = (\<forall>r c. m (fst s) = Some (r, c) \<longrightarrow> P r (c, snd s))"
  "ensures (on_app a) s P' = (\<forall>r c u. a (fst s, wd_app (snd s)) = Some (r, c, u) \<longrightarrow> P' r (c, snd s\<lparr>wd_app := u\<rparr>))"
  "ensures epochClock s Q = Q (Inr (wd_clock (snd s) (wd_ticks (snd s)))) (fst s, (snd s)\<lparr>wd_ticks := Suc (wd_ticks (snd s))\<rparr>)"
  by (auto simp: ensures_def gets_def modify_def on_cpu_def on_app_def epochClock_def split: option.splits)

lemma ensures_control [simp]:
  "ensures (oret x) s Q = Q (Inr x) s"
  "ensures (othrow e) s Q = Q (Inl e) s"
  "ensures undefined_behaviour s Q = True"
  "ensures (ofOption v) s Q = (\<forall>x. v = Some x \<longrightarrow> Q (Inr x) s)"
  by (auto simp: ensures_def oret_def othrow_def undefined_behaviour_def ofOption_def split: option.splits)

lemma ensures_obind [simp]:
  "ensures (obind m f) s Q = ensures m s (\<lambda>r s'. case r of Inl e \<Rightarrow> Q (Inl e) s' | Inr x \<Rightarrow> ensures (f x) s' Q)"
  by (auto simp: ensures_def obind_def split: option.splits sum.splits)

lemma ensures_mono: "ensures m s P \<Longrightarrow> (\<And>r s'. P r s' \<Longrightarrow> Q r s') \<Longrightarrow> ensures m s Q"
  by (auto simp: ensures_def split: option.splits)

lemma ensuresD: "ensures m s Q \<Longrightarrow> m s = Some (r, s') \<Longrightarrow> Q r s'"
  by (simp add: ensures_def)

section \<open>Owners of the arrays\<close>

abbreviation in_use :: "(subscription \<times> nat) list \<Rightarrow> nat \<Rightarrow> bool" where
  "in_use objects k \<equiv> k < length objects \<and> 0 < snd (objects ! k)"

definition owned :: "(subscription \<times> nat) list \<Rightarrow> array_linger list \<Rightarrow> 'u image_heap \<Rightarrow> bool" where
  "owned objects arrays h \<longleftrightarrow>
     (\<forall>k. in_use objects k \<longrightarrow> sn_roundRobinIndex (fst (objects ! k)) = 0 \<and> (\<exists>xs. consistent (fst (objects ! k)) h xs)) \<and>
     (\<forall>j k. in_use objects j \<and> in_use objects k \<and> sn_images (fst (objects ! j)) \<noteq> None \<and>
        sn_images (fst (objects ! j)) = sn_images (fst (objects ! k)) \<longrightarrow> j = k) \<and>
     distinct (map al_array arrays) \<and>
     (\<forall>e\<in>set arrays. array h (al_array e) \<noteq> None) \<and>
     (\<forall>e\<in>set arrays. \<forall>k. in_use objects k \<longrightarrow> sn_images (fst (objects ! k)) \<noteq> al_array e)"

lemma ownedD:
  assumes "owned objects arrays h"
  shows "in_use objects k \<Longrightarrow> sn_roundRobinIndex (fst (objects ! k)) = 0"
    "in_use objects k \<Longrightarrow> \<exists>xs. consistent (fst (objects ! k)) h xs"
    "in_use objects j \<Longrightarrow> in_use objects k \<Longrightarrow> sn_images (fst (objects ! j)) = Some a \<Longrightarrow>
      sn_images (fst (objects ! k)) = Some a \<Longrightarrow> j = k"
    "distinct (map al_array arrays)" "e \<in> set arrays \<Longrightarrow> array h (al_array e) \<noteq> None"
    "e \<in> set arrays \<Longrightarrow> in_use objects k \<Longrightarrow> sn_images (fst (objects ! k)) \<noteq> al_array e"
  using assms unfolding owned_def by (blast, blast, metis option.distinct(1), blast, blast, blast)

lemma ownedI:
  assumes "\<And>k. in_use objects k \<Longrightarrow> sn_roundRobinIndex (fst (objects ! k)) = 0"
    "\<And>k. in_use objects k \<Longrightarrow> \<exists>xs. consistent (fst (objects ! k)) h xs"
    "\<And>j k a. in_use objects j \<Longrightarrow> in_use objects k \<Longrightarrow> sn_images (fst (objects ! j)) = Some a \<Longrightarrow>
      sn_images (fst (objects ! k)) = Some a \<Longrightarrow> j = k"
    "distinct (map al_array arrays)" "\<And>e. e \<in> set arrays \<Longrightarrow> array h (al_array e) \<noteq> None"
    "\<And>e k. e \<in> set arrays \<Longrightarrow> in_use objects k \<Longrightarrow> sn_images (fst (objects ! k)) \<noteq> al_array e"
  shows "owned objects arrays h"
proof -
  have "j = k" if "in_use objects j \<and> in_use objects k \<and> sn_images (fst (objects ! j)) \<noteq> None \<and>
      sn_images (fst (objects ! j)) = sn_images (fst (objects ! k))" for j k
    using that assms(3)[of j k] by (metis not_None_eq)
  then show ?thesis unfolding owned_def using assms(1,2,4-6) by blast
qed

definition client_inv :: "'u client \<Rightarrow> bool" where
  "client_inv w = owned (wd_subscriptions w) (cc_lingeringImageArrays w) (wd_heap w)"

lemma array_None [simp]: "array h None = None" "array h (Some (length h)) = None"
  by (simp_all add: array_def)

lemma array_replaced:
  assumes "array h old = Some xs \<or> old = None"
  shows "array (replaced h old left new) q =
    (if q = Some (length h) then Some new else if q = old \<and> q \<noteq> None then Some left else array h q)"
  using assms by (auto simp: replaced_def array_def nth_append nth_list_update split: option.splits if_splits)

lemma consistent_cong:
  "consistent sn h xs \<Longrightarrow> array h' (sn_images sn) = array h (sn_images sn) \<Longrightarrow> consistent sn h' xs"
  by (auto simp: consistent_def)

lemma owned_new_object:
  assumes "owned objects arrays h"
  shows "owned (objects @ [(Subscription_init r c st, n)]) arrays h"
proof -
  let ?o = "objects @ [(Subscription_init r c st, n)]"
  have nth: "\<And>k. in_use ?o k \<Longrightarrow> in_use objects k \<and> ?o ! k = objects ! k \<or> ?o ! k = (Subscription_init r c st, n)"
    by (auto simp: nth_append split: if_splits)
  have i: "sn_images (Subscription_init r c st) = None" "sn_roundRobinIndex (Subscription_init r c st) = 0"
    by (simp_all add: Subscription_init_def)
  have "sn_roundRobinIndex (fst (?o ! k)) = 0 \<and> (\<exists>xs. consistent (fst (?o ! k)) h xs)" if "in_use ?o k" for k
    using nth[OF that] assms i Subscription_init_consistent by (fastforce simp: owned_def)
  moreover have "j = k" if "in_use ?o j" "in_use ?o k" "sn_images (fst (?o ! j)) \<noteq> None"
    "sn_images (fst (?o ! j)) = sn_images (fst (?o ! k))" for j k
    using nth[OF that(1)] nth[OF that(2)] that(3,4) assms i by (auto simp: owned_def)
  moreover have "sn_images (fst (?o ! k)) \<noteq> al_array e" if "in_use ?o k" "e \<in> set arrays" for k e
  proof -
    have "al_array e \<noteq> None" using ownedD(5)[OF assms that(2)] by (metis array_None(1))
    then show ?thesis using nth[OF that(1)] assms that(2) i by (auto simp: owned_def)
  qed
  ultimately show ?thesis using assms unfolding owned_def by blast
qed

lemma owned_count:
  assumes "owned objects arrays h" "in_use objects k"
  shows "owned (objects[k := (fst (objects ! k), n)]) arrays h"
proof -
  let ?o = "objects[k := (fst (objects ! k), n)]"
  have nth: "in_use objects j \<and> fst (?o ! j) = fst (objects ! j)" if "in_use ?o j" for j
    using that assms(2) by (auto simp: nth_list_update split: if_splits)
  note o = ownedD[OF assms(1)]
  show ?thesis
  proof (rule ownedI)
    show "sn_roundRobinIndex (fst (?o ! j)) = 0" if "in_use ?o j" for j using nth[OF that] o(1) by simp
    show "\<exists>xs. consistent (fst (?o ! j)) h xs" if "in_use ?o j" for j using nth[OF that] o(2) by simp
    show "i = j" if "in_use ?o i" "in_use ?o j" "sn_images (fst (?o ! i)) = Some a" "sn_images (fst (?o ! j)) = Some a" for i j a
      using nth[OF that(1)] nth[OF that(2)] that(3,4) o(3)[of i j a] by simp
    show "sn_images (fst (?o ! j)) \<noteq> al_array e" if "e \<in> set arrays" "in_use ?o j" for e j
      using nth[OF that(2)] o(6)[OF that(1)] by simp
  qed (use o(4,5) in auto)
qed

lemma owned_linger:
  assumes "owned objects arrays h" "array h p \<noteq> None" "\<And>j. in_use objects j \<Longrightarrow> sn_images (fst (objects ! j)) \<noteq> p"
    "p \<notin> al_array ` set arrays"
  shows "owned objects (arrays @ [\<lparr>al_timeOfLastStatusChange = now, al_array = p\<rparr>]) h"
proof -
  note o = ownedD[OF assms(1)]
  show ?thesis
  proof (rule ownedI)
    show "distinct (map al_array (arrays @ [\<lparr>al_timeOfLastStatusChange = now, al_array = p\<rparr>]))" using o(4) assms(4) by auto
    show "array h (al_array e) \<noteq> None" if "e \<in> set (arrays @ [\<lparr>al_timeOfLastStatusChange = now, al_array = p\<rparr>])" for e
      using that o(5) assms(2) by auto
    show "sn_images (fst (objects ! k)) \<noteq> al_array e"
      if "e \<in> set (arrays @ [\<lparr>al_timeOfLastStatusChange = now, al_array = p\<rparr>])" "in_use objects k" for e k
      using that o(6)[of e k] assms(3) by auto
  qed (use o in auto)
qed

lemma owned_dead:
  assumes "owned objects arrays h" "in_use objects k" "sn_images (fst (objects ! k)) = Some a"
  shows "owned (objects[k := (fst (objects ! k), 0)]) (arrays @ [\<lparr>al_timeOfLastStatusChange = now, al_array = Some a\<rparr>]) h"
proof (rule owned_linger)
  let ?o = "objects[k := (fst (objects ! k), 0)]"
  show "owned ?o arrays h" using owned_count[OF assms(1,2)] .
  show "array h (Some a) \<noteq> None" using ownedD(2)[OF assms(1,2)] assms(3) by (auto simp: consistent_def)
  show "sn_images (fst (?o ! j)) \<noteq> Some a" if "in_use ?o j" for j
  proof -
    have j: "j \<noteq> k" "in_use objects j" "?o ! j = objects ! j" using that assms(2) by (auto simp: nth_list_update split: if_splits)
    then show ?thesis using ownedD(3)[OF assms(1) j(2) assms(2)] assms(3) by auto
  qed
  show "Some a \<notin> al_array ` set arrays" using ownedD(6)[OF assms(1) _ assms(2)] assms(3) by force
qed

text \<open>The array of a subscription is replaced; the old one may linger.\<close>

lemma owned_replaced:
  assumes "owned objects arrays h" "in_use objects k" "sn = fst (objects ! k)" "consistent sn h xs"
    "h' = replaced h (sn_images sn) left new" "length left = length xs" "consistent sn' h' ys" "sn_images sn' = Some (length h)"
    "sn_roundRobinIndex sn' = 0"
  shows "owned (objects[k := (sn', snd (objects ! k))]) arrays h'"
    "sn_images sn \<noteq> None \<Longrightarrow>
      owned (objects[k := (sn', snd (objects ! k))]) (arrays @ [\<lparr>al_timeOfLastStatusChange = now, al_array = sn_images sn\<rparr>]) h'"
proof -
  let ?o = "objects[k := (sn', snd (objects ! k))]"
  have arr: "array h' q = (if q = Some (length h) then Some new else if q = sn_images sn \<and> q \<noteq> None then Some left else array h q)" for q
    unfolding assms(5) using assms(4) by (intro array_replaced) (auto simp: consistent_def)
  have nth: "j = k \<and> fst (?o ! j) = sn' \<or> j \<noteq> k \<and> in_use objects j \<and> fst (?o ! j) = fst (objects ! j)" if "in_use ?o j" for j
    using that assms(2) by (auto simp: nth_list_update split: if_splits)
  have fresh: "sn_images (fst (objects ! j)) \<noteq> Some (length h)" if "in_use objects j" for j
    using ownedD(2)[OF assms(1) that] by (auto simp: consistent_def)
  have other: "sn_images (fst (objects ! j)) \<noteq> sn_images sn \<or> sn_images sn = None" if "in_use objects j" "j \<noteq> k" for j
    using ownedD(3)[OF assms(1) that(1) assms(2)] assms(3) that(2) by (cases "sn_images sn") auto
  have lng: "al_array e \<noteq> Some (length h)" "al_array e \<noteq> sn_images sn" "array h (al_array e) \<noteq> None" if "e \<in> set arrays" for e
    using ownedD(5)[OF assms(1) that] ownedD(6)[OF assms(1) that assms(2)] assms(3) by auto
  have obj: "sn_roundRobinIndex (fst (?o ! j)) = 0 \<and> (\<exists>xs. consistent (fst (?o ! j)) h' xs)" if "in_use ?o j" for j
    using nth[OF that]
  proof
    assume j: "j \<noteq> k \<and> in_use objects j \<and> fst (?o ! j) = fst (objects ! j)"
    then obtain zs where z: "consistent (fst (objects ! j)) h zs" "sn_roundRobinIndex (fst (objects ! j)) = 0"
      using ownedD(1,2)[OF assms(1)] by blast
    have "array h' (sn_images (fst (objects ! j))) = array h (sn_images (fst (objects ! j)))"
      using fresh[of j] other[of j] j by (auto simp: arr)
    then show ?thesis using consistent_cong[OF z(1)] z(2) j by auto
  qed (use assms(7,9) in auto)
  show o: "owned ?o arrays h'"
  proof (rule ownedI)
    show "i = j" if "in_use ?o i" "in_use ?o j" "sn_images (fst (?o ! i)) = Some a" "sn_images (fst (?o ! j)) = Some a" for i j a
      using nth[OF that(1)] nth[OF that(2)] that(3,4) fresh[of i] fresh[of j] assms(8) ownedD(3)[OF assms(1), of i j a] by auto
    show "sn_images (fst (?o ! j)) \<noteq> al_array e" if "e \<in> set arrays" "in_use ?o j" for j e
      using nth[OF that(2)] lng(1)[OF that(1)] assms(8) ownedD(6)[OF assms(1) that(1), of j] by auto
    show "array h' (al_array e) \<noteq> None" if "e \<in> set arrays" for e using lng[OF that] by (simp add: arr)
  qed (use obj ownedD(4)[OF assms(1)] in auto)
  show "owned ?o (arrays @ [\<lparr>al_timeOfLastStatusChange = now, al_array = sn_images sn\<rparr>]) h'" if ne: "sn_images sn \<noteq> None"
  proof (rule owned_linger[OF o])
    show "array h' (sn_images sn) \<noteq> None" using ne fresh[OF assms(2)] assms(3) by (simp add: arr)
    show "sn_images (fst (?o ! j)) \<noteq> sn_images sn" if "in_use ?o j" for j
      using nth[OF that] other[of j] ne fresh[OF assms(2)] assms(3,8) by auto
    show "sn_images sn \<notin> al_array ` set arrays" using lng(2) by force
  qed
qed

lemma owned_polled:
  assumes "owned objects arrays h" "in_use objects k" "sn_images (fst (objects ! k)) = Some a"
    "consistent (fst (objects ! k)) (h[a := Some ys]) ys"
  shows "owned objects arrays (h[a := Some ys])"
proof -
  note o = ownedD[OF assms(1)]
  obtain xs where "consistent (fst (objects ! k)) h xs" using o(2) assms(2) by blast
  then have a: "a < length h" using assms(3) array_Some[of h "Some a" xs] by (auto simp: consistent_def)
  have arr: "array (h[a := Some ys]) q = (if q = Some a then Some ys else array h q)" for q
    using a by (cases q) (auto simp: array_update)
  show ?thesis
  proof (rule ownedI)
    show "\<exists>xs. consistent (fst (objects ! j)) (h[a := Some ys]) xs" if u: "in_use objects j" for j
    proof (cases "j = k")
      case False
      then have "sn_images (fst (objects ! j)) \<noteq> Some a" using o(3)[OF u assms(2) _ assms(3)] by blast
      moreover obtain zs where "consistent (fst (objects ! j)) h zs" using o(2)[OF u] by blast
      ultimately show ?thesis using consistent_cong by (metis arr)
    qed (use assms(4) in blast)
    show "array (h[a := Some ys]) (al_array e) \<noteq> None" if "e \<in> set arrays" for e using o(5)[OF that] by (simp add: arr)
  qed (use o(1,3,4,6) in auto)
qed

section \<open>Freeing\<close>

definition expired :: "int64_t \<Rightarrow> int64_t \<Rightarrow> array_linger \<Rightarrow> bool" where
  "expired now timeout e \<longleftrightarrow> sint now > sint (al_timeOfLastStatusChange e + timeout)"

lemma deleteArray_spec:
  assumes "array h p \<noteq> None"
  obtains h' where "deleteArray h p = Some h'" "\<And>q. array h' q = (if q = p then None else array h q)"
proof -
  obtain a where a: "p = Some a" "a < length h" using assms array_Some by (metis not_None_eq)
  have "array (h[a := None]) q = (if q = p then None else array h q)" for q
    using a by (cases q) (auto simp: array_update)
  then show thesis using that[of "h[a := None]"] assms a by (simp add: deleteArray_def)
qed

lemma free_arrays_spec:
  assumes "distinct (map al_array es)" "\<And>e. e \<in> set es \<Longrightarrow> array h (al_array e) \<noteq> None"
  shows "\<exists>h'. free_arrays now timeout es h = Some (filter (\<lambda>e. \<not> expired now timeout e) es, h') \<and>
    (\<forall>q. array h' q = (if q \<in> al_array ` {e \<in> set es. expired now timeout e} then None else array h q))"
  using assms
proof (induction es arbitrary: h)
  case (Cons e es)
  show ?case
  proof (cases "expired now timeout e")
    case True
    obtain h1 where h1: "deleteArray h (al_array e) = Some h1" "\<And>q. array h1 q = (if q = al_array e then None else array h q)"
      using deleteArray_spec[of h "al_array e"] Cons.prems(2) by auto
    have "array h1 (al_array d) \<noteq> None" if "d \<in> set es" for d
    proof -
      have "al_array d \<noteq> al_array e" using Cons.prems(1) that by (force simp: image_iff)
      then show ?thesis using Cons.prems(2) that by (simp add: h1(2))
    qed
    with Cons.IH[of h1] Cons.prems(1) obtain h' where h': "free_arrays now timeout es h1 = Some (filter (\<lambda>e. \<not> expired now timeout e) es, h')"
      "\<And>q. array h' q = (if q \<in> al_array ` {e \<in> set es. expired now timeout e} then None else array h1 q)"
      by auto
    have "array h' q = (if q \<in> al_array ` {d \<in> set (e # es). expired now timeout d} then None else array h q)" for q
      unfolding h'(2) h1(2) using True by auto
    moreover have "free_arrays now timeout (e # es) h = Some (filter (\<lambda>e. \<not> expired now timeout e) (e # es), h')"
      using True h1(1) h'(1) by (simp add: expired_def)
    ultimately show ?thesis by blast
  next
    case False
    obtain h' where h': "free_arrays now timeout es h = Some (filter (\<lambda>e. \<not> expired now timeout e) es, h')"
      "\<And>q. array h' q = (if q \<in> al_array ` {e \<in> set es. expired now timeout e} then None else array h q)"
      using Cons.IH[of h] Cons.prems by auto
    have "{d \<in> set (e # es). expired now timeout d} = {d \<in> set es. expired now timeout d}" using False by auto
    then have "array h' q = (if q \<in> al_array ` {d \<in> set (e # es). expired now timeout d} then None else array h q)" for q
      using h'(2) by simp
    moreover have "free_arrays now timeout (e # es) h = Some (filter (\<lambda>e. \<not> expired now timeout e) (e # es), h')"
      using False h'(1) by (simp add: expired_def)
    ultimately show ?thesis by blast
  qed
qed simp

lemma owned_freed:
  assumes "owned objects arrays h"
  obtains h' where "free_arrays now timeout arrays h = Some (filter (\<lambda>e. \<not> expired now timeout e) arrays, h')"
    "\<And>q. array h' q = (if q \<in> al_array ` {e \<in> set arrays. expired now timeout e} then None else array h q)"
    "owned objects (filter (\<lambda>e. \<not> expired now timeout e) arrays) h'"
proof -
  note o = ownedD[OF assms]
  let ?gone = "al_array ` {e \<in> set arrays. expired now timeout e}"
  obtain h' where h': "free_arrays now timeout arrays h = Some (filter (\<lambda>e. \<not> expired now timeout e) arrays, h')"
    "\<And>q. array h' q = (if q \<in> ?gone then None else array h q)"
    using free_arrays_spec[OF o(4,5)] by blast
  have live: "array h' (sn_images (fst (objects ! k))) = array h (sn_images (fst (objects ! k)))" if "in_use objects k" for k
    unfolding h'(2) using o(6)[OF _ that] by fastforce
  have "owned objects (filter (\<lambda>e. \<not> expired now timeout e) arrays) h'"
  proof (rule ownedI)
    show "\<exists>xs. consistent (fst (objects ! k)) h' xs" if "in_use objects k" for k
      using o(2)[OF that] consistent_cong live[OF that] by blast
    show "distinct (map al_array (filter (\<lambda>e. \<not> expired now timeout e) arrays))"
      using o(4) by (simp add: distinct_map inj_on_def)
    show "array h' (al_array e) \<noteq> None" if "e \<in> set (filter (\<lambda>e. \<not> expired now timeout e) arrays)" for e
    proof -
      have "al_array e \<notin> ?gone" using that o(4) by (auto simp: distinct_map inj_on_def)
      then show ?thesis using o(5) that by (simp add: h'(2))
    qed
  qed (use o(1,3,6) in auto)
  then show thesis using that h' by blast
qed

text \<open>
  C25. Checking the resources never fails: it frees exactly the lingering arrays and log buffers whose
  time has passed, each once, and every array that a subscription uses is left as it is.
\<close>

theorem check_frees_expired:
  assumes "client_inv w"
  shows "\<exists>h'. onCheckManagedResources now (c, w) = Some (Inr (), c, w
      \<lparr>cc_lingeringLogBuffers := filter (\<lambda>e. \<not> sint now > sint (ll_timeOfLastStatusChange e + cc_resourceLingerTimeoutMs w))
         (cc_lingeringLogBuffers w),
       cc_lingeringImageArrays := filter (\<lambda>e. \<not> expired now (cc_resourceLingerTimeoutMs w) e) (cc_lingeringImageArrays w),
       wd_heap := h'\<rparr>) \<and>
    (\<forall>q. array h' q = (if \<exists>e\<in>set (cc_lingeringImageArrays w). al_array e = q \<and> expired now (cc_resourceLingerTimeoutMs w) e
       then None else array (wd_heap w) q)) \<and>
    (\<forall>k. in_use (wd_subscriptions w) k \<longrightarrow>
       array h' (sn_images (fst (wd_subscriptions w ! k))) = array (wd_heap w) (sn_images (fst (wd_subscriptions w ! k))))"
proof -
  have o: "owned (wd_subscriptions w) (cc_lingeringImageArrays w) (wd_heap w)" using assms by (simp add: client_inv_def)
  obtain h' where h': "free_arrays now (cc_resourceLingerTimeoutMs w) (cc_lingeringImageArrays w) (wd_heap w) =
      Some (filter (\<lambda>e. \<not> expired now (cc_resourceLingerTimeoutMs w) e) (cc_lingeringImageArrays w), h')"
    "\<And>q. array h' q = (if q \<in> al_array ` {e \<in> set (cc_lingeringImageArrays w). expired now (cc_resourceLingerTimeoutMs w) e}
      then None else array (wd_heap w) q)"
    using owned_freed[OF o] by blast
  have "array h' (sn_images (fst (wd_subscriptions w ! k))) = array (wd_heap w) (sn_images (fst (wd_subscriptions w ! k)))"
    if "in_use (wd_subscriptions w) k" for k
    unfolding h'(2) using ownedD(6)[OF o _ that] by fastforce
  moreover have "array h' q = (if \<exists>e\<in>set (cc_lingeringImageArrays w). al_array e = q \<and> expired now (cc_resourceLingerTimeoutMs w) e
      then None else array (wd_heap w) q)" for q
    unfolding h'(2) by (rule if_cong) auto
  moreover have "onCheckManagedResources now (c, w) = Some (Inr (), c, w
      \<lparr>cc_lingeringLogBuffers := filter (\<lambda>e. \<not> sint now > sint (ll_timeOfLastStatusChange e + cc_resourceLingerTimeoutMs w))
         (cc_lingeringLogBuffers w),
       cc_lingeringImageArrays := filter (\<lambda>e. \<not> expired now (cc_resourceLingerTimeoutMs w) e) (cc_lingeringImageArrays w),
       wd_heap := h'\<rparr>)"
    by (simp add: onCheckManagedResources_def obind_def modify_def gets_def h'(1) ofOption_def)
  ultimately show ?thesis by blast
qed

section \<open>Calls that keep the invariant\<close>

definition keeps :: "('u, 'a) cact \<Rightarrow> bool" where
  "keeps m \<longleftrightarrow> (\<forall>s. client_inv (snd s) \<longrightarrow> ensures m s (\<lambda>r s'. client_inv (snd s')))"

lemma keepsI: "(\<And>c w. client_inv w \<Longrightarrow> ensures m (c, w) (\<lambda>r s'. client_inv (snd s'))) \<Longrightarrow> keeps m"
  by (auto simp: keeps_def)

lemma keepsD: "keeps m \<Longrightarrow> client_inv (snd s) \<Longrightarrow> ensures m s (\<lambda>r s'. client_inv (snd s'))"
  unfolding keeps_def by blast

named_theorems keeping "calls of the conductor that keep the invariant"

text \<open>What does not touch the objects, the lingering arrays or the heap.\<close>

lemma client_inv_frame [simp]:
  "client_inv (w\<lparr>wd_ticks := n\<rparr>) = client_inv w"
  "client_inv (w\<lparr>wd_app := u\<rparr>) = client_inv w"
  "client_inv (w\<lparr>cc_publications := ps\<rparr>) = client_inv w"
  "client_inv (w\<lparr>cc_subscriptions := ss\<rparr>) = client_inv w"
  "client_inv (w\<lparr>wd_publications := po\<rparr>) = client_inv w"
  "client_inv (w\<lparr>wd_publications := po, cc_publications := ps\<rparr>) = client_inv w"
  "client_inv (w\<lparr>cc_driverActive := b\<rparr>) = client_inv w"
  "client_inv (w\<lparr>cc_timeOfLastKeepalive := t\<rparr>) = client_inv w"
  "client_inv (w\<lparr>cc_timeOfLastCheckManagedResources := t\<rparr>) = client_inv w"
  "client_inv (w\<lparr>cc_lingeringLogBuffers := ls\<rparr>) = client_inv w"
  by (simp_all add: client_inv_def)

lemma keeps_obind [keeping]:
  assumes "keeps m" "\<And>x. keeps (f x)"
  shows "keeps (obind m f)"
proof (rule keepsI)
  fix c and w :: "'a client" assume "client_inv w"
  then have "ensures m (c, w) (\<lambda>r s'. client_inv (snd s'))" using keepsD[OF assms(1), of "(c, w)"] by simp
  then show "ensures (obind m f) (c, w) (\<lambda>r s'. client_inv (snd s'))"
    unfolding ensures_obind by (rule ensures_mono) (auto intro: keepsD[OF assms(2)] split: sum.splits)
qed

lemma keeps_basic [keeping]:
  "keeps (gets f)" "keeps (oret x)" "keeps (othrow e)" "keeps undefined_behaviour" "keeps (ofOption v)" "keeps (on_cpu m)"
  "keeps (on_app a)" "keeps epochClock"
  by (auto intro!: keepsI)

lemma keeps_cases [keeping]:
  "keeps a \<Longrightarrow> (\<And>x. keeps (f x)) \<Longrightarrow> keeps (case v of None \<Rightarrow> a | Some x \<Rightarrow> f x)"
  "keeps b \<Longrightarrow> keeps d \<Longrightarrow> keeps (if P then b else d)"
  "(\<And>x y. keeps (g x y)) \<Longrightarrow> keeps (case p of (x, y) \<Rightarrow> g x y)"
  "keeps i \<Longrightarrow> keeps j \<Longrightarrow> keeps k \<Longrightarrow>
    keeps (case st of AWAITING_MEDIA_DRIVER \<Rightarrow> i | REGISTERED_MEDIA_DRIVER \<Rightarrow> j | ERRORED_MEDIA_DRIVER \<Rightarrow> k)"
  by (auto split: option.splits prod.splits registration_status.splits)

lemma keeps_modify [keeping]:
  "keeps (modify (\<lambda>w. w\<lparr>cc_publications := ps w\<rparr>))"
  "keeps (modify (\<lambda>w. w\<lparr>wd_publications := po w, cc_publications := ps w\<rparr>))"
  "keeps (modify (\<lambda>w. w\<lparr>wd_publications := po w\<rparr>))"
  "keeps (modify (\<lambda>w. w\<lparr>cc_subscriptions := ss w\<rparr>))"
  "keeps (modify (\<lambda>w. w\<lparr>cc_driverActive := False\<rparr>))"
  "keeps (modify (\<lambda>w. w\<lparr>cc_timeOfLastKeepalive := t\<rparr>))"
  "keeps (modify (\<lambda>w. w\<lparr>cc_timeOfLastCheckManagedResources := t\<rparr>))"
  "keeps (modify (\<lambda>w. w\<lparr>cc_lingeringLogBuffers := ls w\<rparr>))"
  by (auto intro!: keepsI)

lemma keeps_verify [keeping]: "keeps verifyDriverIsActive"
  unfolding verifyDriverIsActive_def by (intro keeping)

lemma keeps_noexcept [keeping]: "keeps m \<Longrightarrow> keeps (noexcept m)"
  unfolding keeps_def noexcept_def ensures_def by (fastforce split: option.splits sum.splits)

lemma keeps_for_each [keeping]: "(\<And>x. keeps (f x)) \<Longrightarrow> keeps (for_each f xs)"
proof (induction xs)
  case (Cons x xs)
  then show ?case unfolding for_each.simps by (intro keeping) blast+
qed (simp add: keeps_basic)

lemma keeps_publications [keeping]:
  "keeps (cc_addPublication channel streamId)" "keeps (findPublication registrationId)" "keeps (releasePublication registrationId)"
  "keeps (resetPublication k)" "keeps (cc_addSubscription channel streamId)"
  "keeps (onNewPublication streamId sessionId limit logFileName registrationId)"
  "keeps (onErrorResponse offending code message)"
  unfolding cc_addPublication_def findPublication_def lockPublication_def findPublicationState_def makePublication_def releasePublication_def
    resetPublication_def destroyPublication_def cc_addSubscription_def onNewPublication_def onErrorResponse_def
    findSubscriptionState_def Let_def
  by (intro keeping)+

lemma Image_init_copyable: "Image_init sid p cid sp lg eh c = (Inr im, c') \<Longrightarrow> copyable im"
  by (auto simp: Image_init_def Let_def bind_Inr_iff)

lemma addImage_Some: "addImage junk sn connection h = Some t \<Longrightarrow> consistent sn h xs \<Longrightarrow> Suc (length xs) < 2 ^ 31"
  using addImage_prepare_Some by (auto simp: addImage_def)

lemma lock_keeps_owned:
  assumes "owned objects arrays h" "lock_object p objects = (r, objects')"
  shows "owned objects' arrays h"
  using assms owned_count[OF assms(1)] by (auto simp: lock_object_def split: option.splits if_splits)

lemma client_inv_count:
  assumes "client_inv w" "k < length (wd_subscriptions w)" "0 < snd (wd_subscriptions w ! k)"
  shows "client_inv (w\<lparr>wd_subscriptions := (wd_subscriptions w)[k := (fst (wd_subscriptions w ! k), n)]\<rparr>)"
  using owned_count[of "wd_subscriptions w" _ _ k n] assms by (simp add: client_inv_def)

lemma keeps_locked [keeping]:
  "keeps (lockSubscription p)" "keeps (resetCache it)"
  unfolding lockSubscription_def resetCache_def
  by (auto intro!: keepsI split: prod.splits option.splits dest: lock_keeps_owned client_inv_count simp: client_inv_def owned_count)

lemma keeps_findSubscription [keeping]: "keeps (findSubscription registrationId)"
  unfolding findSubscription_def findSubscriptionState_def by (intro keeping)+

lemma keeps_onOperationSuccess [keeping]: "keeps (onOperationSuccess correlationId)"
proof -
  have "keeps (modify (\<lambda>w. w\<lparr>wd_subscriptions := wd_subscriptions w @ [(Subscription_init r c st, 1)], cc_subscriptions := ss w\<rparr>))" for r c st ss
    by (rule keepsI) (simp add: client_inv_def owned_new_object)
  then show ?thesis
    unfolding onOperationSuccess_def findSubscriptionState_def Let_def by (intro keeping)
qed

lemma installImage_keeps:
  assumes "client_inv w" "in_use (wd_subscriptions w) k" "copyable im"
  shows "ensures (installImage k im) (c, w) (\<lambda>r s'. client_inv (snd s'))"
proof -
  let ?sn = "fst (wd_subscriptions w ! k)" and ?h = "wd_heap w"
  have o: "owned (wd_subscriptions w) (cc_lingeringImageArrays w) ?h" using assms(1) by (simp add: client_inv_def)
  obtain xs where xs: "consistent ?sn ?h xs" using ownedD(2)[OF o assms(2)] by blast
  have rr: "sn_roundRobinIndex ?sn = 0" using ownedD(1)[OF o assms(2)] .
  {
    fix t assume t: "addImage (wd_junk w) ?sn im ?h = Some t"
    note spec = addImage_spec[OF xs assms(3) addImage_Some[OF t xs]]
    note keep = owned_replaced[OF o assms(2) HOL.refl xs HOL.refl _ spec(2)]
    have "case t of (old, im', sn', h') \<Rightarrow> old = sn_images ?sn \<and>
        owned ((wd_subscriptions w)[k := (sn', snd (wd_subscriptions w ! k))]) (cc_lingeringImageArrays w) h' \<and>
        (old \<noteq> None \<longrightarrow> (\<forall>now. owned ((wd_subscriptions w)[k := (sn', snd (wd_subscriptions w ! k))])
          (cc_lingeringImageArrays w @ [\<lparr>al_timeOfLastStatusChange = now, al_array = old\<rparr>]) h'))"
      using t spec(1)[of "wd_junk w"] keep rr by auto
  }
  then show ?thesis
    unfolding installImage_def by (auto simp: client_inv_def lingerArray_def split: prod.splits)
qed

lemma newImageAt_keeps:
  assumes "client_inv w" "in_use (wd_subscriptions w) k"
  shows "ensures (newImageAt k sessionId joiningPosition logFilename sourceIdentity streamId n a correlationId) (c, w)
    (\<lambda>r s'. client_inv (snd s'))"
  using assms
proof (induction n arbitrary: a c)
  case (Suc n)
  have install: "ensures (installImage k im) (c', w) P"
    if "copyable im" "\<And>r s'. client_inv (snd s') \<Longrightarrow> P r s'" for im c' P
    by (rule ensures_mono[OF installImage_keeps[OF Suc.prems that(1)] that(2)])
  show ?case
    using Suc.prems(1) Suc.IH[OF Suc.prems]
    by (auto simp: Let_def total_def intro!: install dest: Image_init_copyable split: sum.splits)
qed simp

lemma alive_in_use: "alive p objects = Some k \<Longrightarrow> in_use objects k"
  by (auto simp: alive_def lock_object_def split: option.splits if_splits)

lemma keeps_onNewImage [keeping]:
  "keeps (onNewImage streamId sessionId joiningPosition logFilename sourceIdentity count positions correlationId)"
proof -
  have "keeps (newImageFor streamId sessionId joiningPosition logFilename sourceIdentity count positions correlationId entry)" for entry
    unfolding newImageFor_def
    by (rule keepsI) (auto split: option.splits intro!: newImageAt_keeps dest: alive_in_use)
  then show ?thesis unfolding onNewImage_def by (intro keeping)
qed

text \<open>Removing an image: either nothing happens, or the array is replaced and the old one may linger.\<close>

lemma removeImage_owned:
  assumes "client_inv w" "in_use (wd_subscriptions w) k"
    "removeImage junk (fst (wd_subscriptions w ! k)) cid (wd_heap w) = Some ((old, i), sn', h')"
  shows "owned ((wd_subscriptions w)[k := (sn', snd (wd_subscriptions w ! k))]) (cc_lingeringImageArrays w) h'"
    "old \<noteq> None \<Longrightarrow> owned ((wd_subscriptions w)[k := (sn', snd (wd_subscriptions w ! k))])
      (cc_lingeringImageArrays w @ [\<lparr>al_timeOfLastStatusChange = now, al_array = old\<rparr>]) h'"
proof -
  let ?sn = "fst (wd_subscriptions w ! k)" and ?h = "wd_heap w"
  have o: "owned (wd_subscriptions w) (cc_lingeringImageArrays w) ?h" using assms(1) by (simp add: client_inv_def)
  obtain xs where xs: "consistent ?sn ?h xs" using ownedD(2)[OF o assms(2)] by blast
  have rr: "sn_roundRobinIndex ?sn = 0" using ownedD(1)[OF o assms(2)] .
  have same: "(wd_subscriptions w)[k := (?sn, snd (wd_subscriptions w ! k))] = wd_subscriptions w" by simp
  have "owned ((wd_subscriptions w)[k := (sn', snd (wd_subscriptions w ! k))]) (cc_lingeringImageArrays w) h' \<and>
    (old \<noteq> None \<longrightarrow> owned ((wd_subscriptions w)[k := (sn', snd (wd_subscriptions w ! k))])
      (cc_lingeringImageArrays w @ [\<lparr>al_timeOfLastStatusChange = now, al_array = old\<rparr>]) h')"
  proof (cases "\<exists>x\<in>set xs. im_correlationId x = cid")
    case True
    then obtain us x vs where x: "xs = us @ x # vs" "im_correlationId x = cid" "\<forall>u\<in>set us. im_correlationId u \<noteq> cid"
      by (rule without_split)
    note spec = removeImage_spec[OF xs[unfolded x(1)] x(2,3)]
    show ?thesis
      using owned_replaced[OF o assms(2) HOL.refl xs HOL.refl _ spec(2)] assms(3) spec(1)[of junk] x(1) rr by auto
  next
    case False
    then have "\<forall>x\<in>set xs. im_correlationId x \<noteq> cid" by blast
    then show ?thesis using removeImage_absent[OF xs, of cid junk] assms(3) o same by simp
  qed
  then show "owned ((wd_subscriptions w)[k := (sn', snd (wd_subscriptions w ! k))]) (cc_lingeringImageArrays w) h'"
    "old \<noteq> None \<Longrightarrow> owned ((wd_subscriptions w)[k := (sn', snd (wd_subscriptions w ! k))])
      (cc_lingeringImageArrays w @ [\<lparr>al_timeOfLastStatusChange = now, al_array = old\<rparr>]) h'" by blast+
qed

lemma keeps_onInactiveImage [keeping]: "keeps (onInactiveImage streamId sessionId pos correlationId)"
proof -
  have "keeps (inactiveImageFor streamId sessionId pos correlationId now entry)" for now entry
    unfolding inactiveImageFor_def deref_def lingerLogBuffers_def lingerArray_def
    by (rule keepsI) (auto simp: client_inv_def split: option.splits prod.splits
        dest!: alive_in_use dest: removeImage_owned[unfolded client_inv_def])
  then show ?thesis unfolding onInactiveImage_def by (intro keeping)
qed

lemma lingerLogs_frame:
  "ensures (lingerLogs now p n i) s (\<lambda>r s'. \<exists>ls. s' = (fst s, (snd s)\<lparr>cc_lingeringLogBuffers := ls\<rparr>))"
proof (induction n arbitrary: i s)
  case 0
  show ?case unfolding lingerLogs.simps ensures_control
    by (cases s) (auto intro: exI[of _ "cc_lingeringLogBuffers (snd s)"])
next
  case (Suc n)
  show ?case unfolding lingerLogs.simps ensures_obind deref_def lingerLogBuffers_def
    by (auto intro!: ensures_mono[OF Suc.IH] )
qed

text \<open>The last reference to a subscription: its array goes over to the lingering ones.\<close>

lemma lingerResources_keeps:
  assumes "client_inv w" "p \<noteq> None \<Longrightarrow> owned (wd_subscriptions w)
    (cc_lingeringImageArrays w @ [\<lparr>al_timeOfLastStatusChange = now, al_array = p\<rparr>]) (wd_heap w)"
  shows "ensures (lingerResources now p n) (c, w) (\<lambda>r s'. client_inv (snd s'))"
  unfolding lingerResources_def ensures_obind
  by (rule ensures_mono[OF lingerLogs_frame]) (use assms in \<open>auto simp: lingerArray_def client_inv_def split: sum.splits\<close>)

lemma releaseSubscription_keeps:
  assumes "client_inv w" "\<And>now. p \<noteq> None \<Longrightarrow> owned (wd_subscriptions w)
    (cc_lingeringImageArrays w @ [\<lparr>al_timeOfLastStatusChange = now, al_array = p\<rparr>]) (wd_heap w)"
  shows "ensures (releaseSubscription registrationId p n) (c, w) (\<lambda>r s'. client_inv (snd s'))"
  unfolding releaseSubscription_def verifyDriverIsActive_def findSubscriptionState_def
  using assms by (auto intro!: lingerResources_keeps split: option.splits sum.splits)

lemma keeps_resetSubscription [keeping]: "keeps (resetSubscription k)"
proof (rule keepsI)
  fix c and w :: "'a client" assume inv: "client_inv w"
  let ?os = "wd_subscriptions w"
  show "ensures (resetSubscription k) (c, w) (\<lambda>r s'. client_inv (snd s'))"
  proof (cases "in_use ?os k \<and> snd (?os ! k) = 1")
    case True
    let ?sn = "fst (?os ! k)" and ?w = "w\<lparr>wd_subscriptions := ?os[k := (fst (?os ! k), 0)]\<rparr>"
    have i: "client_inv ?w" using client_inv_count[OF inv, of k 0] True by simp
    have d: "owned (wd_subscriptions ?w) (cc_lingeringImageArrays ?w @ [\<lparr>al_timeOfLastStatusChange = now, al_array = sn_images ?sn\<rparr>]) (wd_heap ?w)"
      if "sn_images ?sn \<noteq> None" for now
      using owned_dead[of ?os "cc_lingeringImageArrays w" "wd_heap w" k _ now] inv True that by (auto simp: client_inv_def)
    have "ensures (releaseSubscription (sn_registrationId ?sn) (sn_images ?sn) (sn_imagesLength ?sn)) (c, ?w)
        (\<lambda>r s'. client_inv (snd s'))"
      by (rule releaseSubscription_keeps[OF i d])
    then have "ensures (destroySubscription ?sn) (c, ?w) (\<lambda>r s'. client_inv (snd s'))"
      unfolding destroySubscription_def ensures_def noexcept_def by (auto split: option.splits sum.splits)
    then show ?thesis using True by (simp add: resetSubscription_def)
  next
    case False
    then show ?thesis using client_inv_count[OF inv, of k "snd (?os ! k) - 1"] by (auto simp: resetSubscription_def)
  qed
qed

lemma keeps_onCheckManagedResources [keeping]: "keeps (onCheckManagedResources now)"
proof (rule keepsI)
  fix c and w :: "'a client" assume inv: "client_inv w"
  then obtain h' where "free_arrays now (cc_resourceLingerTimeoutMs w) (cc_lingeringImageArrays w) (wd_heap w) =
      Some (filter (\<lambda>e. \<not> expired now (cc_resourceLingerTimeoutMs w) e) (cc_lingeringImageArrays w), h')"
    "owned (wd_subscriptions w) (filter (\<lambda>e. \<not> expired now (cc_resourceLingerTimeoutMs w) e) (cc_lingeringImageArrays w)) h'"
    using owned_freed unfolding client_inv_def by metis
  then show "ensures (onCheckManagedResources now) (c, w) (\<lambda>r s'. client_inv (snd s'))"
    by (simp add: onCheckManagedResources_def client_inv_def)
qed

lemma keeps_onHeartbeatCheckTimeouts [keeping]: "keeps onHeartbeatCheckTimeouts"
  unfolding onHeartbeatCheckTimeouts_def checkKeepalive_def checkResources_def by (intro keeping)

lemma keeps_client_listener [keeping]: "keeps (client_listener ev)"
  by (cases ev) (simp_all add: keeping)

section \<open>Everything a client does\<close>

text \<open>The polling thread polls a subscription it has a reference to.\<close>

definition pollSubscription :: "nat \<Rightarrow> 'u fragment_handler \<Rightarrow> int32_t \<Rightarrow> ('u, int32_t) cact" where
  "pollSubscription k handler limit s =
     (let w = snd s; objects = wd_subscriptions w
      in if in_use objects k
         then case sn_poll (fst (objects ! k)) handler limit (wd_heap w, (fst s, wd_app w)) of
                None \<Rightarrow> None
              | Some (r, sn, h, (c, u)) \<Rightarrow>
                  Some (r, (c, w\<lparr>wd_heap := h, wd_subscriptions := objects[k := (sn, snd (objects ! k))], wd_app := u\<rparr>))
         else None)"

lemma keeps_pollSubscription [keeping]: "keeps (pollSubscription k handler limit)"
proof (rule keepsI)
  fix c and w :: "'a client" assume inv: "client_inv w"
  let ?sn = "fst (wd_subscriptions w ! k)"
  have o: "owned (wd_subscriptions w) (cc_lingeringImageArrays w) (wd_heap w)" using inv by (simp add: client_inv_def)
  have "owned ((wd_subscriptions w)[k := (sn, snd (wd_subscriptions w ! k))]) (cc_lingeringImageArrays w) h"
    if use: "in_use (wd_subscriptions w) k" and poll: "sn_poll ?sn handler limit (wd_heap w, s) = Some (r, sn, h, s')" for r sn h s s'
  proof -
    obtain xs where xs: "consistent ?sn (wd_heap w) xs" using ownedD(2)[OF o use] by blast
    obtain ys where y: "sn = ?sn" "consistent ?sn h ys" "h = wd_heap w \<or> (\<exists>a. sn_images ?sn = Some a \<and> h = (wd_heap w)[a := Some ys])"
      using sn_poll_consistent[OF xs ownedD(1)[OF o use] poll] by blast
    have "(wd_subscriptions w)[k := (sn, snd (wd_subscriptions w ! k))] = wd_subscriptions w" using y(1) by simp
    moreover have "owned (wd_subscriptions w) (cc_lingeringImageArrays w) h"
      using y(2,3) o owned_polled[OF o use] by blast
    ultimately show ?thesis by simp
  qed
  then show "ensures (pollSubscription k handler limit) (c, w) (\<lambda>r s'. client_inv (snd s'))"
    by (auto simp: ensures_def pollSubscription_def Let_def client_inv_def split: option.splits)
qed

datatype 'u call =
    AddPublication "byte list" int32_t
  | FindPublication int64_t
  | ResetPublication nat
  | AddSubscription "byte list" int32_t
  | FindSubscription int64_t
  | ResetSubscription nat
  | DriverEvent driver_event
  | Heartbeat
  | Poll nat "'u fragment_handler" int32_t

abbreviation discard :: "('u, 'a) cact \<Rightarrow> ('u, unit) cact" where
  "discard m \<equiv> obind m (\<lambda>_. oret ())"

fun run :: "'u call \<Rightarrow> ('u, unit) cact" where
  "run (AddPublication channel streamId) = discard (cc_addPublication channel streamId)"
| "run (FindPublication registrationId) = discard (findPublication registrationId)"
| "run (ResetPublication k) = resetPublication k"
| "run (AddSubscription channel streamId) = discard (cc_addSubscription channel streamId)"
| "run (FindSubscription registrationId) = discard (findSubscription registrationId)"
| "run (ResetSubscription k) = resetSubscription k"
| "run (DriverEvent ev) = client_listener ev"
| "run Heartbeat = discard onHeartbeatCheckTimeouts"
| "run (Poll k handler limit) = discard (pollSubscription k handler limit)"

lemma keeps_run: "keeps (run q)"
  by (cases q) (auto intro!: keeping)

text \<open>
  The states a client reaches; between calls the driver and others may change the memory, and the
  application its own state.
\<close>

inductive reaches :: "cpu \<times> 'u client \<Rightarrow> cpu \<times> 'u client \<Rightarrow> bool" where
  initially: "reaches s s"
| call: "reaches s t \<Longrightarrow> run q t = Some (r, t') \<Longrightarrow> reaches s t'"
| memory: "reaches s (c, w) \<Longrightarrow> reaches s (c', w)"
| application: "reaches s (c, w) \<Longrightarrow> reaches s (c, w\<lparr>wd_app := u\<rparr>)"

lemma reaches_inv: "reaches s t \<Longrightarrow> client_inv (snd s) \<Longrightarrow> client_inv (snd t)"
  by (induction rule: reaches.induct) (use keepsD[OF keeps_run] ensuresD in fastforce)+

lemma ClientConductor_init_inv: "wd_subscriptions w = [] \<Longrightarrow> client_inv (ClientConductor_init dp counters np ns ni ii eh dt lt w)"
  by (simp add: client_inv_def owned_def ClientConductor_init_def)

text \<open>
  C24. Whatever calls a new client makes and whatever the driver sends, in any order: each subscription
  that is still referenced has an array of its own with as many images as its length says (or none at
  all), no two subscriptions share an array, and the arrays that linger are allocated, pairwise
  different and used by no subscription.
\<close>

theorem arrays_have_one_owner:
  assumes "reaches (c, ClientConductor_init dp counters np ns ni ii eh dt lt w0) (c', w)" "wd_subscriptions w0 = []"
  shows "(\<forall>k. in_use (wd_subscriptions w) k \<longrightarrow> (let sn = fst (wd_subscriptions w ! k) in
      (case array (wd_heap w) (sn_images sn) of None \<Rightarrow> sn_images sn = None \<and> sn_imagesLength sn = 0
       | Some xs \<Rightarrow> sint (sn_imagesLength sn) = int (length xs)) \<and>
      (\<forall>j. in_use (wd_subscriptions w) j \<and> j \<noteq> k \<and> sn_images sn \<noteq> None \<longrightarrow> sn_images (fst (wd_subscriptions w ! j)) \<noteq> sn_images sn) \<and>
      sn_images sn \<notin> al_array ` set (cc_lingeringImageArrays w))) \<and>
    distinct (map al_array (cc_lingeringImageArrays w)) \<and>
    (\<forall>e\<in>set (cc_lingeringImageArrays w). array (wd_heap w) (al_array e) \<noteq> None)"
proof -
  have "client_inv w" using reaches_inv[OF assms(1)] ClientConductor_init_inv[OF assms(2)] by simp
  then have o: "owned (wd_subscriptions w) (cc_lingeringImageArrays w) (wd_heap w)" by (simp add: client_inv_def)
  have "(case array (wd_heap w) (sn_images sn) of None \<Rightarrow> sn_images sn = None \<and> sn_imagesLength sn = 0
       | Some xs \<Rightarrow> sint (sn_imagesLength sn) = int (length xs)) \<and>
      (\<forall>j. in_use (wd_subscriptions w) j \<and> j \<noteq> k \<and> sn_images sn \<noteq> None \<longrightarrow> sn_images (fst (wd_subscriptions w ! j)) \<noteq> sn_images sn) \<and>
      sn_images sn \<notin> al_array ` set (cc_lingeringImageArrays w)"
    if k: "in_use (wd_subscriptions w) k" "sn = fst (wd_subscriptions w ! k)" for k sn
  proof -
    obtain xs where xs: "consistent sn (wd_heap w) xs" using ownedD(2)[OF o k(1)] k(2) by blast
    have "case array (wd_heap w) (sn_images sn) of None \<Rightarrow> sn_images sn = None \<and> sn_imagesLength sn = 0
       | Some xs \<Rightarrow> sint (sn_imagesLength sn) = int (length xs)"
      using xs consistent_length[OF xs] by (auto simp: consistent_def)
    moreover have "sn_images (fst (wd_subscriptions w ! j)) \<noteq> sn_images sn"
      if "in_use (wd_subscriptions w) j" "j \<noteq> k" "sn_images sn \<noteq> None" for j
      using ownedD(3)[OF o that(1) k(1)] that(2,3) k(2) by (metis not_None_eq)
    moreover have "sn_images sn \<notin> al_array ` set (cc_lingeringImageArrays w)"
      using ownedD(6)[OF o _ k(1)] k(2) by force
    ultimately show ?thesis by blast
  qed
  then show ?thesis using ownedD(4,5)[OF o] by (simp add: Let_def)
qed

section \<open>A concrete client\<close>

theorem check_frees_expired_witness:
  "\<exists>h'. onCheckManagedResources 10000 (blank, demo_client) =
     Some (Inr (), blank, demo_client\<lparr>cc_lingeringImageArrays := [], wd_heap := h'\<rparr>) \<and> array h' (Some 0) = None"
proof -
  have inv: "client_inv demo_client" by (simp add: client_inv_def owned_def demo_client_def array_def)
  have d: "filter (\<lambda>e. \<not> expired 10000 (cc_resourceLingerTimeoutMs demo_client) e) (cc_lingeringImageArrays demo_client) = []"
    "filter P (cc_lingeringLogBuffers demo_client) = []"
    "\<exists>e\<in>set (cc_lingeringImageArrays demo_client). al_array e = Some 0 \<and> expired 10000 (cc_resourceLingerTimeoutMs demo_client) e" for P
    by (simp_all add: demo_client_def expired_def)
  have s: "demo_client\<lparr>cc_lingeringLogBuffers := [], cc_lingeringImageArrays := [], wd_heap := h\<rparr> =
      demo_client\<lparr>cc_lingeringImageArrays := [], wd_heap := h\<rparr>" for h by (simp add: demo_client_def)
  obtain h' where h': "onCheckManagedResources 10000 (blank, demo_client) =
      Some (Inr (), blank, demo_client\<lparr>cc_lingeringImageArrays := [], wd_heap := h'\<rparr>)"
    "\<forall>q. array h' q = (if \<exists>e\<in>set (cc_lingeringImageArrays demo_client). al_array e = q \<and>
       expired 10000 (cc_resourceLingerTimeoutMs demo_client) e then None else array (wd_heap demo_client) q)"
    using check_frees_expired[OF inv, of 10000 blank] unfolding d(1,2) s by blast
  have "array h' (Some 0) = None" using spec[OF h'(2), of "Some 0"] d(3) by (simp only: if_True)
  then show ?thesis using h'(1) by blast
qed

definition demo_init :: "byte list list client" where
  "demo_init = ClientConductor_init (cc_driverProxy demo_client) (AtomicBuffer 0 0) (cc_onNewPublicationHandler demo_client)
     (cc_onNewSubscriptionHandler demo_client) (cc_onNewImageHandler demo_client) (cc_onInactiveImageHandler demo_client)
     (cc_errorHandler demo_client) 0 0 demo_client"

theorem arrays_have_one_owner_witness:
  "\<exists>c w. reaches (c, demo_init) (c, w) \<and> cc_lingeringImageArrays w = [] \<and> wd_ticks w = 3 \<and> distinct (map al_array (cc_lingeringImageArrays w))"
proof -
  let ?w = "demo_init"
  have "run (DriverEvent (OnInactiveImage 0 0 0 0)) (c, ?w) = Some (Inr (), c, ?w\<lparr>wd_ticks := 3\<rparr>)" for c
    by (simp add: onInactiveImage_def epochClock_def obind_def gets_def ClientConductor_init_def demo_init_def demo_client_def oret_def)
  then have r: "reaches (c, ?w) (c, ?w\<lparr>wd_ticks := 3\<rparr>)" for c by (rule reaches.call[OF reaches.initially])
  have "wd_subscriptions demo_client = []" by (simp add: demo_client_def)
  with arrays_have_one_owner[OF r[unfolded demo_init_def] this] r show ?thesis
    by (intro exI[of _ blank] exI[of _ "?w\<lparr>wd_ticks := 3\<rparr>"]) (auto simp: demo_init_def ClientConductor_init_def)
qed

end
