(* ===== verification/ClientRegistration.thy ===== *)
theory ClientRegistration
  imports ClientConductor
begin

text \<open>
  How a registration goes: what the application is told when it asks for a publication, how the
  driver's answer on the broadcast buffer becomes a subscription, and four cases in which the
  conductor does not do what it means to.
\<close>

section \<open>Looking up\<close>

lemma find_if_Some:
  "find_if P xs = Some i \<Longrightarrow> i < length xs \<and> P (xs ! i) \<and> (\<forall>j<i. \<not> P (xs ! j))"
proof (induction xs arbitrary: i)
  case (Cons x xs)
  show ?case
  proof (cases "P x")
    case False
    then obtain j where j: "find_if P xs = Some j" "i = Suc j" using Cons.prems by auto
    then show ?thesis using Cons.IH[OF j(1)] False by (auto simp: less_Suc_eq_0_disj)
  qed (use Cons.prems in auto)
qed simp

lemma find_if_None: "find_if P xs = None \<longleftrightarrow> (\<forall>x\<in>set xs. \<not> P x)"
  by (induction xs) auto

lemma find_if_update:
  "find_if P xs = Some i \<Longrightarrow> P y \<Longrightarrow> find_if P (xs[i := y]) = Some i"
proof (induction xs arbitrary: i)
  case (Cons x xs)
  then show ?case by (auto split: if_splits)
qed simp

named_theorems step_defs "the steps of the conductor as functions of the state"

lemmas [step_defs] = obind_def gets_def modify_def oret_def othrow_def on_cpu_def on_app_def epochClock_def total_def ofOption_def
  verifyDriverIsActive_def findPublicationState_def findSubscriptionState_def undefined_behaviour_def

section \<open>Publications\<close>

text \<open>What becomes of the time-out of a registration at the next reading of the clock.\<close>

definition timed_out :: "'u client \<Rightarrow> int64_t \<Rightarrow> bool" where
  "timed_out w registered \<longleftrightarrow> sint (wd_clock w (wd_ticks w)) > sint (registered + cc_driverTimeoutMs w)"

text \<open>
  What asking for a publication answers, in every state of its registration: nothing for an
  unknown id; the one object that the application still refers to, with one more reference; while the
  driver has not answered, nothing, or an exception once the time for it is over; the driver's error
  code as an exception.
\<close>

theorem findPublication_answers:
  "findPublication i (c, w) = (case find_if (\<lambda>e. i = ps_registrationId e) (cc_publications w) of
     None \<Rightarrow> Some (Inr None, c, w)
   | Some it \<Rightarrow> (let e = cc_publications w ! it in
       case alive (ps_publication e) (wd_publications w) of
         Some k \<Rightarrow> Some (Inr (Some k), c, w\<lparr>wd_publications := (wd_publications w)
           [k := (fst (wd_publications w ! k), Suc (snd (wd_publications w ! k)))]\<rparr>)
       | None \<Rightarrow>
           (case ps_status e of
              AWAITING_MEDIA_DRIVER \<Rightarrow>
                Some (if timed_out w (ps_timeOfRegistration e) then Inl DriverTimeoutException else Inr None, c,
                  w\<lparr>wd_ticks := Suc (wd_ticks w)\<rparr>)
            | REGISTERED_MEDIA_DRIVER \<Rightarrow> makePublication it (c, w)
            | ERRORED_MEDIA_DRIVER \<Rightarrow>
                (case ps_errorCode e of None \<Rightarrow> None | Some code \<Rightarrow> Some (Inl (RegistrationException code), c, w)))))"
  by (auto simp: findPublication_def lockPublication_def step_defs alive_def lock_object_def timed_out_def Let_def
      split: option.splits registration_status.splits)

section \<open>Subscriptions\<close>

text \<open>The state in which the subscription \<open>it\<close> has been registered with a new object.\<close>

definition registered :: "nat \<Rightarrow> 'u client \<Rightarrow> 'u client" where
  "registered it w = (let e = cc_subscriptions w ! it; k = length (wd_subscriptions w) in
     w\<lparr>wd_subscriptions := wd_subscriptions w @ [(Subscription_init (ss_registrationId e) (ss_channel e) (ss_streamId e), 1)],
       cc_subscriptions := (cc_subscriptions w)[it := e\<lparr>ss_status := REGISTERED_MEDIA_DRIVER, ss_subscriptionCache := Some k,
         ss_subscription := Some k\<rparr>]\<rparr>)"

lemma onOperationSuccess_registers:
  assumes "find_if (\<lambda>e. corr = ss_registrationId e) (cc_subscriptions w) = Some it"
    "ss_status (cc_subscriptions w ! it) = AWAITING_MEDIA_DRIVER"
    "cc_onNewSubscriptionHandler w (ss_channel (cc_subscriptions w ! it)) (ss_streamId (cc_subscriptions w ! it)) corr
      (c, wd_app w) = Some (r, c', u)"
  shows "onOperationSuccess corr (c, w) = Some (r, c', (registered it w)\<lparr>wd_app := u\<rparr>)"
  using assms by (simp add: onOperationSuccess_def step_defs registered_def Let_def)

text \<open>The first request takes the reference of the cache over.\<close>

lemma findSubscription_registered:
  fixes w :: "'u client"
  assumes "find_if (\<lambda>e. corr = ss_registrationId e) (cc_subscriptions w) = Some it"
  defines "k \<equiv> length (wd_subscriptions w)"
  shows "\<exists>v. findSubscription corr (c, (registered it w)\<lparr>wd_app := u\<rparr>) = Some (Inr (Some k), c, v) \<and>
    wd_subscriptions v = wd_subscriptions (registered it w) \<and>
    cc_subscriptions v = (cc_subscriptions (registered it w))[it := (cc_subscriptions (registered it w) ! it)\<lparr>ss_subscriptionCache := None\<rparr>]"
proof -
  have it: "it < length (cc_subscriptions w)" "ss_registrationId (cc_subscriptions w ! it) = corr"
    using find_if_Some[OF assms(1)] by auto
  have f: "find_if (\<lambda>e. corr = ss_registrationId e) (cc_subscriptions (registered it w)) = Some it"
    using it(2) by (simp add: registered_def Let_def find_if_update[OF assms(1)])
  show ?thesis
    using f it unfolding k_def
    by (simp add: findSubscription_def lockSubscription_def resetCache_def step_defs registered_def Let_def lock_object_def nth_append)
qed

text \<open>
  C26. The driver's success message for a subscription that waits for it, as it stands in the broadcast
  buffer, makes the subscription available: the application's handler is told once, and asking for the
  subscription then answers a new object of the registration's id, channel and stream, without images,
  to which the application holds the only reference.
\<close>

theorem success_message_registers:
  fixes cb c and w :: "'u client" and client :: int64_t
  defines "r \<equiv> cb_receiver cb"
  assumes wf: "wf_receiver k r"
    and T: "bc_counter (br_buffer r) k 8 c = of_nat T" "bc_counter (br_buffer r) k 0 c = of_nat T" "T < 2 ^ 62"
    and P: "br_nextRecord r = of_nat P" "P \<le> T" "T < P + 2 ^ k"
    and sc: "cb_scratchBuffer cb = AtomicBuffer scratch 4096"
      "scratch + 4096 \<le> ab_buffer (br_buffer r) \<or> ab_buffer (br_buffer r) + 2 ^ k + 128 \<le> scratch"
    and msg: "chain k (ab_buffer (br_buffer r)) (view c) P
        (pad_recs n @ [Msg ON_OPERATION_SUCCESS (enc 8 client @ enc 8 corr)]) Q" "Q \<le> T"
      "n \<noteq> 0 \<longrightarrow> (P + n) mod 2 ^ k = 0 \<and> 8 dvd n"
    and w: "find_if (\<lambda>e. corr = ss_registrationId e) (cc_subscriptions w) = Some it"
      "cc_subscriptions w ! it = e" "ss_status e = AWAITING_MEDIA_DRIVER"
    and H: "\<And>s. cc_onNewSubscriptionHandler w (ss_channel e) (ss_streamId e) corr s = Some (Inr (), H s)"
  shows "\<exists>cb' c0 c' u v. H (c0, wd_app w) = (c', u) \<and>
    receiveMessages client_listener (cb, c, w) = Some (Inr 1, cb', c', (registered it w)\<lparr>wd_app := u\<rparr>) \<and>
    findSubscription corr (c', (registered it w)\<lparr>wd_app := u\<rparr>) = Some (Inr (Some (length (wd_subscriptions w))), c', v) \<and>
    wd_subscriptions v ! length (wd_subscriptions w) = (Subscription_init corr (ss_channel e) (ss_streamId e), 1)"
proof -
  let ?M = "OperationSuccess client corr"
  have m: "msg_type ?M = ON_OPERATION_SUCCESS" "msg_bytes ?M = enc 8 client @ enc 8 corr" "length (msg_bytes ?M) \<le> 4096"
    by (simp_all del: enc_numeral)
  obtain cb' c0 where c0: "receiveMessages client_listener (cb, c, w) =
      received cb' (client_listener (msg_event scratch ?M) (c0, w))"
    using receiveMessages_spec[OF wf[unfolded r_def] T[unfolded r_def] P[unfolded r_def] sc[unfolded r_def],
        of n ?M Q client_listener w] msg m unfolding r_def by auto
  obtain c' u where h: "H (c0, wd_app w) = (c', u)" by (cases "H (c0, wd_app w)")
  have "onOperationSuccess corr (c0, w) = Some (Inr (), c', (registered it w)\<lparr>wd_app := u\<rparr>)"
    using onOperationSuccess_registers[OF w(1), of c0 "Inr ()" c' u] w(2,3) H h by simp
  then have rec: "receiveMessages client_listener (cb, c, w) = Some (Inr 1, cb', c', (registered it w)\<lparr>wd_app := u\<rparr>)"
    using c0 by simp
  obtain v where v: "findSubscription corr (c', (registered it w)\<lparr>wd_app := u\<rparr>) = Some (Inr (Some (length (wd_subscriptions w))), c', v)"
    "wd_subscriptions v = wd_subscriptions (registered it w)"
    using findSubscription_registered[OF w(1), of c' u] by blast
  have "ss_registrationId e = corr" using find_if_Some[OF w(1)] w(2) by auto
  then have "wd_subscriptions v ! length (wd_subscriptions w) = (Subscription_init corr (ss_channel e) (ss_streamId e), 1)"
    using v(2) w(2) by (simp add: registered_def Let_def)
  then show ?thesis using h rec v(1) by blast
qed

section \<open>Where the conductor goes wrong\<close>

text \<open>
  A publication is marked as registered before its log file is mapped: when the mapping fails, asking
  for the publication dereferences the null pointer to its buffers.
\<close>

theorem lost_log_file:
  assumes "find_if (\<lambda>e. i = ps_registrationId e) (cc_publications w) = Some it"
    and "ps_publication (cc_publications w ! it) = None" "ps_buffers (cc_publications w ! it) = None"
    and "LogBuffers_file (wd_os w) (c_str name) c = (Inl e, c')"
  shows "\<exists>w'. onNewPublication streamId sessionId limit name i (c, w) = Some (Inl e, c', w') \<and> findPublication i (c', w') = None"
proof -
  let ?e = "(cc_publications w ! it)\<lparr>ps_status := REGISTERED_MEDIA_DRIVER, ps_sessionId := sessionId, ps_positionLimitCounterId := limit\<rparr>"
  let ?w = "w\<lparr>cc_publications := (cc_publications w)[it := ?e]\<rparr>"
  have it: "it < length (cc_publications w)" "ps_registrationId (cc_publications w ! it) = i"
    using find_if_Some[OF assms(1)] by auto
  have f: "find_if (\<lambda>e. i = ps_registrationId e) ((cc_publications w)[it := ?e]) = Some it"
    using it(2) by (simp add: find_if_update[OF assms(1)])
  have "onNewPublication streamId sessionId limit name i (c, w) = Some (Inl e, c', ?w)"
    using assms by (simp add: onNewPublication_def step_defs)
  moreover have "findPublication i (c', ?w) = None"
    using f it assms(2,3)
    by (simp add: findPublication_def lockPublication_def makePublication_def step_defs lock_object_def Let_def)
  ultimately show ?thesis by blast
qed

text \<open>
  Once the driver counts as inactive, giving the last reference to a publication or a subscription
  back throws out of its destructor, which ends the program.
\<close>

theorem destructors_throw:
  assumes "\<not> cc_driverActive w"
  shows "k < length (wd_publications w) \<and> snd (wd_publications w ! k) = 1 \<longrightarrow> resetPublication k (c, w) = None"
    "k < length (wd_subscriptions w) \<and> snd (wd_subscriptions w ! k) = 1 \<longrightarrow> resetSubscription k (c, w) = None"
  using assms
  by (simp_all add: resetPublication_def destroyPublication_def releasePublication_def noexcept_def resetSubscription_def
      destroySubscription_def releaseSubscription_def step_defs)

text \<open>The handler for a new image is given the image that the array has just been moved from.\<close>

theorem handler_sees_moved_image:
  assumes "installImage k im s = Some (Inr im', s')"
  shows "im_getLogBuffers im' = None"
  using assms
  by (auto simp: installImage_def addImage_def addImage_prepare_def step_defs Let_def Image_move_def im_getLogBuffers_def
      lingerArray_def split: option.splits sum.splits prod.splits if_splits)

text \<open>
  A publication that the driver refused stays registered: adding it again sends nothing to the driver
  and answers the old id, and asking for that id throws the old error again.
\<close>

theorem refused_publication_sticks:
  assumes "cc_driverActive w" "find_if (\<lambda>e. streamId = ps_streamId e \<and> channel = ps_channel e) (cc_publications w) = Some it"
    and "cc_publications w ! it = e" "ps_status e = ERRORED_MEDIA_DRIVER" "ps_errorCode e = Some code" "ps_publication e = None"
    and "find_if (\<lambda>e'. ps_registrationId e = ps_registrationId e') (cc_publications w) = Some it"
  shows "cc_addPublication channel streamId (c, w) = Some (Inr (ps_registrationId e), c, w)"
    "findPublication (ps_registrationId e) (c, w) = Some (Inl (RegistrationException code), c, w)"
  using assms
  by (simp_all add: cc_addPublication_def findPublication_def lockPublication_def lock_object_def step_defs)

section \<open>A concrete message\<close>

theorem success_message_registers_witness:
  "\<exists>c cb' c' v. findSubscription 0 (c', (registered 0 demo_client)\<lparr>wd_app := [[]]\<rparr>) = Some (Inr (Some 0), c', v) \<and>
    receiveMessages client_listener (\<lparr>cb_receiver = demo_br, cb_scratchBuffer = AtomicBuffer 100 4096\<rparr>, c, demo_client) =
      Some (Inr 1, cb', c', (registered 0 demo_client)\<lparr>wd_app := [[]]\<rparr>)"
proof -
  let ?cb = "\<lparr>cb_receiver = demo_br, cb_scratchBuffer = AtomicBuffer 100 4096\<rparr>" and ?e = "SubscriptionStateDefn [] 0 10 0"
  have bs: "enc 8 (0 :: int64_t) @ enc 8 (0 :: int64_t) = replicate 16 0" by (simp add: numeral_eq_Suc)
  obtain c where c: "bc_counter demo_bc 12 8 c = of_nat 24" "bc_counter demo_bc 12 0 c = of_nat 24"
    "rec_at 12 (ab_buffer demo_bc) (view c) 0 (Msg ON_OPERATION_SUCCESS (replicate 16 0))"
    using demo_zeros[of ON_OPERATION_SUCCESS 16 24] by (auto simp: rec_size_def events)
  have ch: "chain 12 (ab_buffer demo_bc) (view c) 0 (pad_recs 0 @ [Msg ON_OPERATION_SUCCESS (replicate 16 0)]) 24"
    using c(3) by (simp add: pad_recs_def rec_size_def)
  have w: "find_if (\<lambda>e. 0 = ss_registrationId e) (cc_subscriptions demo_client) = Some 0"
    "cc_subscriptions demo_client ! 0 = ?e" "ss_status ?e = AWAITING_MEDIA_DRIVER"
    "length (wd_subscriptions demo_client) = 0" "wd_app demo_client = []" "ss_channel ?e = []"
    by (simp_all add: demo_client_def SubscriptionStateDefn_def)
  have H: "cc_onNewSubscriptionHandler demo_client (ss_channel ?e) (ss_streamId ?e) 0 s = Some (Inr (), (fst s, snd s @ [[]]))" for s
    by (simp add: demo_client_def SubscriptionStateDefn_def)
  show ?thesis
    using success_message_registers[where cb = ?cb and c = c and k = 12 and T = 24 and P = 0 and scratch = 100 and n = 0
      and client = 0 and corr = 0 and Q = 24 and w = demo_client and it = 0 and e = ?e and H = "\<lambda>s. (fst s, snd s @ [[]])"]
      c(1,2) demo_bc_wf ch w H unfolding bs by (auto simp: demo_bc_def AtomicBuffer_def)
qed

end
