(* ===== verification/Aeron.thy ===== *)
theory Aeron
  imports AeronContext AgentRunner ClientResources ClientRegistration
begin

text \<open>
  \<^verbatim>\<open>Aeron.h\<close> and \<^verbatim>\<open>Aeron.cpp\<close>: the client's entry point. It maps the driver's command and control file,
  sets up what works on it, and lets a runner's thread drive the conductor. The members for random
  session ids, which nothing uses, are left out. The conductor's world -- the clock, the system calls, the
  application's state -- is the argument \<open>w\<close> of the constructor.
\<close>

section \<open>The client\<close>

definition IDLE_SLEEP_MS :: int64_t where "IDLE_SLEEP_MS = 4"

record 'u aeron =
  ae_context :: "'u aeron_context"
  ae_cncBuffer :: mmfile
  ae_toDriverAtomicBuffer :: abuf
  ae_toClientsAtomicBuffer :: abuf
  ae_countersValueBuffer :: abuf
  ae_toDriverRingBuffer :: ringbuf
  ae_driverProxy :: driver_proxy
  ae_toClientsCopyReceiver :: copyreceiver
  ae_conductor :: "'u client"

text \<open>The name as a C string: it ends at the first zero.\<close>

definition c_string :: "string \<Rightarrow> string" where
  "c_string s = takeWhile (\<lambda>ch. ch \<noteq> CHR 0x00) s"

definition mapCncFile :: "posix \<Rightarrow> 'u aeron_context \<Rightarrow> (cpu, mmfile) act" where
  "mapCncFile os context =
     bind (ofSum (mapExisting os (c_string (cncFileName context)))) (\<lambda>cncBuffer.
     bind (cncVersion cncBuffer) (\<lambda>version.
       if CNC_VERSION \<noteq> version then throw IllegalStateException else ret cncBuffer))"

text \<open>
  The members in the order of their declaration; \<open>scratch\<close> is the address of the buffer of the copying
  receiver. Starting the runner's thread is what follows the constructor.
\<close>

definition Aeron :: "posix \<Rightarrow> addr \<Rightarrow> 'u client \<Rightarrow> 'u aeron_context \<Rightarrow> (cpu, 'u aeron) oact" where
  "Aeron os scratch w cx =
     (let context = conclude cx
      in obind (total (mapCncFile os context)) (\<lambda>cncBuffer.
         obind (total (createToDriverBuffer cncBuffer)) (\<lambda>toDriver.
         obind (total (createToClientsBuffer cncBuffer)) (\<lambda>toClients.
         obind (total (createCounterValuesBuffer cncBuffer)) (\<lambda>counters.
         obind (total (ofSum (ManyToOneRingBuffer toDriver))) (\<lambda>ringBuffer.
         obind (total (DriverProxy ringBuffer)) (\<lambda>driverProxy.
         obind (total (ofSum (BroadcastReceiver toClients))) (\<lambda>receiver.
         obind (\<lambda>c. map_option (\<lambda>r. (r, c)) (CopyBroadcastReceiver receiver scratch c)) (\<lambda>copyReceiver.
         oret \<lparr>ae_context = context, ae_cncBuffer = cncBuffer, ae_toDriverAtomicBuffer = toDriver,
           ae_toClientsAtomicBuffer = toClients, ae_countersValueBuffer = counters, ae_toDriverRingBuffer = ringBuffer,
           ae_driverProxy = driverProxy, ae_toClientsCopyReceiver = copyReceiver,
           ae_conductor = ClientConductor_init driverProxy counters (cx_onNewPublicationHandler context)
             (cx_onNewSubscriptionHandler context) (cx_onNewImageHandler context) (cx_onInactiveImageHandler context)
             (cx_exceptionHandler context) (cx_mediaDriverTimeout context) (cx_resourceLingerTimeout context) w\<rparr>)))))))))"

definition connect :: "posix \<Rightarrow> addr \<Rightarrow> 'u client \<Rightarrow> 'u aeron_context \<Rightarrow> (cpu, 'u aeron) oact" where
  "connect os scratch w context = Aeron os scratch w context"

section \<open>Calls of the application\<close>

definition on_conductor :: "('u, 'a) cact \<Rightarrow> (cpu \<times> 'u aeron, 'a) oact" where
  "on_conductor m s = map_option (\<lambda>(r, c, w). (r, (c, snd s\<lparr>ae_conductor := w\<rparr>))) (m (fst s, ae_conductor (snd s)))"

definition ae_addPublication :: "byte list \<Rightarrow> int32_t \<Rightarrow> (cpu \<times> 'u aeron, int64_t) oact" where
  "ae_addPublication channel streamId = on_conductor (cc_addPublication channel streamId)"

definition ae_findPublication :: "int64_t \<Rightarrow> (cpu \<times> 'u aeron, nat option) oact" where
  "ae_findPublication registrationId = on_conductor (findPublication registrationId)"

definition ae_addSubscription :: "byte list \<Rightarrow> int32_t \<Rightarrow> (cpu \<times> 'u aeron, int64_t) oact" where
  "ae_addSubscription channel streamId = on_conductor (cc_addSubscription channel streamId)"

definition ae_findSubscription :: "int64_t \<Rightarrow> (cpu \<times> 'u aeron, nat option) oact" where
  "ae_findSubscription registrationId = on_conductor (findSubscription registrationId)"

section \<open>The conductor's thread\<close>

text \<open>
  The runner's agent is the conductor with the adapter's receiver, its error handler the one in the
  context. The state has the sleeps of the idle strategy behind it.
\<close>

type_synonym 'u thread = "(cpu \<times> 'u aeron) \<times> int64_t list"

definition conductorWork :: "('u thread, int32_t) oact" where
  "conductorWork = (\<lambda>((c, ae), sleeps).
     map_option (\<lambda>(r, cb, c, w). (r, (c, ae\<lparr>ae_toClientsCopyReceiver := cb, ae_conductor := w\<rparr>), sleeps))
       (doWork (ae_toClientsCopyReceiver ae, c, ae_conductor ae)))"

definition runnerErrorHandler :: "exn \<Rightarrow> ('u thread, unit) oact" where
  "runnerErrorHandler e = (\<lambda>((c, ae), sleeps).
     map_option (\<lambda>(r, s). (r, s, sleeps)) (on_conductor (on_app (cx_exceptionHandler (ae_context ae) e)) (c, ae)))"

definition conductorRunner :: "(nat \<Rightarrow> bool) \<Rightarrow> 'u thread \<Rightarrow> 'u thread option" where
  "conductorRunner running =
     run_agent running (duty_cycle conductorWork (SleepingIdleStrategy_idle IDLE_SLEEP_MS) runnerErrorHandler) 0"

text \<open>
  The destructor clears the runner's flag and waits for its thread, tells the agent that it is closed,
  and then the members are destroyed.
\<close>

definition closeRunner :: "nat \<Rightarrow> 'u thread \<Rightarrow> ('u thread) option" where
  "closeRunner k s = conductorRunner (\<lambda>n. n < k) s"

definition destroyAeron :: "nat \<Rightarrow> ('u thread, unit) oact" where
  "destroyAeron k s =
     (case closeRunner k s of
        None \<Rightarrow> None
      | Some (t, sleeps) \<Rightarrow>
          map_option (\<lambda>(r, t). (r, t, sleeps)) (on_conductor (obind onClose (\<lambda>_. ClientConductor_destroy)) t))"

section \<open>What the thread does to the client\<close>

lemma receive_calls:
  assumes "receive handler (cb, c, u) = Some (r, cb', c', u')"
  shows "u' = u \<or> (\<exists>t b i n d q. handler t b i n (d, u) = Some (q, c', u'))"
  using assms by (auto simp: receive_def Let_def split: sum.splits prod.splits if_splits option.splits)

lemma onMessage_calls:
  assumes "onMessage listener t b i n (c, u) = Some (r, c', u')"
  shows "u' = u \<or> (\<exists>ev d. listener ev (d, u) = Some (r, c', u'))"
  using assms by (auto simp: onMessage_def notify_def obind_def lift_act_def oret_def split: prod.splits sum.splits if_splits)

lemma reaches_call:
  assumes "reaches s (c, w)" "run q (d, w) = Some (r, t)"
  shows "reaches s t"
  by (rule reaches.call[OF reaches.memory[OF assms(1)] assms(2)])

lemma reaches_trans: "reaches t u \<Longrightarrow> reaches s t \<Longrightarrow> reaches s u"
  by (induction rule: reaches.induct) (auto intro: reaches.intros)

lemma discard_Some: "m s = Some (r, t) \<Longrightarrow> \<exists>r'. discard m s = Some (r', t)"
  by (cases r) (auto simp: obind_def oret_def)

lemma doWork_reaches:
  assumes "doWork (cb, c, w) = Some (r, cb', c', w')"
  shows "reaches (c, w) (c', w')"
proof -
  obtain r1 cb1 c1 w1 where 1: "receiveMessages client_listener (cb, c, w) = Some (r1, cb1, c1, w1)"
    and rest: "case r1 of Inl e \<Rightarrow> (c', w') = (c1, w1)
      | Inr n \<Rightarrow> \<exists>r2. onHeartbeatCheckTimeouts (c1, w1) = Some (r2, c', w')"
    using assms by (auto simp: doWork_def obind_def oret_def split: option.splits sum.splits prod.splits)
  have "w1 = w \<or> (\<exists>ev d q. client_listener ev (d, w) = Some (q, c1, w1))"
    using receive_calls[OF 1[unfolded receiveMessages_def]] by (elim disjE exE) (auto dest: onMessage_calls)
  then have r: "reaches (c, w) (c1, w1)"
  proof (elim disjE exE)
    assume "w1 = w"
    then show ?thesis by (auto intro: reaches.memory reaches.initially)
  next
    fix ev d q assume "client_listener ev (d, w) = Some (q, c1, w1)"
    then show ?thesis by (intro reaches_call[OF reaches.initially, of "DriverEvent ev"]) simp
  qed
  show ?thesis
  proof (cases r1)
    case (Inl e)
    then show ?thesis using rest r by simp
  next
    case (Inr n)
    then obtain r2 where "onHeartbeatCheckTimeouts (c1, w1) = Some (r2, c', w')" using rest by auto
    then obtain r3 where "run Heartbeat (c1, w1) = Some (r3, c', w')" using discard_Some by force
    then show ?thesis by (rule reaches.call[OF r])
  qed
qed

text \<open>The thread: the client reaches its new state, and nothing but its conductor and receiver changes.\<close>

definition driven :: "'u thread \<Rightarrow> 'u thread \<Rightarrow> bool" where
  "driven s t \<longleftrightarrow> (case (s, t) of (((c, ae), sl), ((c', ae'), sl')) \<Rightarrow>
     reaches (c, ae_conductor ae) (c', ae_conductor ae') \<and>
     (\<exists>cb w. ae' = ae\<lparr>ae_toClientsCopyReceiver := cb, ae_conductor := w\<rparr>))"

lemma reaches_app: "reaches (c, w) (c', w\<lparr>wd_app := u\<rparr>)"
  by (rule reaches.application[OF reaches.memory[OF reaches.initially]])

lemma same_aeron: "\<exists>cb w. ae = ae\<lparr>ae_toClientsCopyReceiver := cb, ae_conductor := w\<rparr>"
  "\<exists>cb w'. ae\<lparr>ae_conductor := w\<rparr> = ae\<lparr>ae_toClientsCopyReceiver := cb, ae_conductor := w'\<rparr>"
  "\<exists>cb' w'. ae\<lparr>ae_toClientsCopyReceiver := cb, ae_conductor := w\<rparr> = ae\<lparr>ae_toClientsCopyReceiver := cb', ae_conductor := w'\<rparr>"
  by (rule exI[of _ "ae_toClientsCopyReceiver ae"], auto intro: exI[of _ "ae_conductor ae"])+

interpretation conductor: agent conductorWork "SleepingIdleStrategy_idle IDLE_SLEEP_MS" runnerErrorHandler driven
proof
  fix s t u :: "'u thread" and r :: "exn + int32_t" and r' :: "exn + unit" and n e
  show "driven s s" by (cases s) (auto simp: driven_def intro: reaches.initially same_aeron)
  show "driven s u" if "driven s t" "driven t u"
    using that by (cases s; cases t; cases u) (auto simp: driven_def intro: reaches_trans same_aeron)
  show "driven s t" if "conductorWork s = Some (r, t)"
    using that by (auto simp: conductorWork_def driven_def dest!: doWork_reaches split: prod.splits)
  show "driven s t" if "SleepingIdleStrategy_idle IDLE_SLEEP_MS n s = Some (r', t)"
    using that by (cases s) (auto simp: SleepingIdleStrategy_idle_def driven_def intro: reaches.initially same_aeron split: if_splits)
  show "driven s t" if "runnerErrorHandler e s = Some (r', t)"
    using that by (cases s) (auto simp: runnerErrorHandler_def on_conductor_def on_app_def driven_def
        intro: reaches_app same_aeron)
qed

text \<open>
  Everything the runner's thread does to the client, whatever the driver sends and whatever it catches,
  is a sequence of calls of the conductor: the state in which it ends is one the client reaches, with the
  context, the mapped file and the buffers unchanged.
\<close>

theorem runner_calls_conductor:
  assumes "conductorRunner running ((c, ae), sleeps) = Some ((c', ae'), sleeps')"
  shows "reaches (c, ae_conductor ae) (c', ae_conductor ae') \<and>
    (\<exists>cb w. ae' = ae\<lparr>ae_toClientsCopyReceiver := cb, ae_conductor := w\<rparr>)"
  using conductor.run_keeps[OF assms[unfolded conductorRunner_def]] by (simp add: driven_def)

section \<open>Connecting\<close>

text \<open>
  Connecting fails cleanly: without the file or without memory for its mapping the exception is an
  \<open>IOException\<close>, a file too short for the meta data is out of bounds, one of another version an
  \<open>IllegalStateException\<close>, and the shared memory is untouched.
\<close>

theorem connect_fails:
  fixes cx :: "'u aeron_context" and w :: "'u client" and os :: posix
  defines "opened \<equiv> mapExisting os (c_string (cncFileName cx))"
  shows "(\<not> px_open os (c_string (cncFileName cx)) False \<longrightarrow> connect os scratch w cx c = Some (Inl IOException, c)) \<and>
    (\<forall>e. opened = Inl e \<longrightarrow> connect os scratch w cx c = Some (Inl e, c)) \<and>
    (\<forall>m. opened = Inr m \<and> sint (ucast (getMemorySize m) :: int32_t) < 20 \<longrightarrow>
       connect os scratch w cx c = Some (Inl OutOfBoundsException, c)) \<and>
    (\<forall>m. opened = Inr m \<and> 20 \<le> sint (ucast (getMemorySize m) :: int32_t) \<and>
         get_le 4 c (getMemoryPtr m) \<noteq> (2 :: int32_t) \<longrightarrow>
       connect os scratch w cx c = Some (Inl IllegalStateException, c))"
proof (intro conjI allI impI; (elim conjE)?)
  have run: "connect os scratch w cx c = Some (Inl e, c)" if "mapCncFile os (conclude cx) c = (Inl e, c)" for e
    using that by (simp add: connect_def Aeron_def Let_def)
  have mapped: "mapCncFile os (conclude cx) c = bind (ofSum opened) (\<lambda>cncBuffer. bind (cncVersion cncBuffer) (\<lambda>version.
      if CNC_VERSION \<noteq> version then throw IllegalStateException else ret cncBuffer)) c"
    by (simp add: mapCncFile_def conclude_sel opened_def)
  show "connect os scratch w cx c = Some (Inl IOException, c)" if "\<not> px_open os (c_string (cncFileName cx)) False"
  proof -
    have "opened = Inl IOException" using that by (simp add: opened_def mapExisting_def MemoryMappedFile3_def)
    then show ?thesis by (intro run) (simp add: mapped bind_def ofSum_def)
  qed
  show "connect os scratch w cx c = Some (Inl e, c)" if "opened = Inl e" for e
    using that by (intro run) (simp add: mapped bind_def ofSum_def)
  show "connect os scratch w cx c = Some (Inl OutOfBoundsException, c)"
    if "opened = Inr m" "sint (ucast (getMemorySize m) :: int32_t) < 20" for m
    using that by (intro run) (simp add: mapped bind_def ofSum_def cncVersion_def metaData_def overlayStruct_def boundsCheck_def AtomicBuffer_def)
  show "connect os scratch w cx c = Some (Inl IllegalStateException, c)"
    if "opened = Inr m" "20 \<le> sint (ucast (getMemorySize m) :: int32_t)" "get_le 4 c (getMemoryPtr m) \<noteq> (2 :: int32_t)" for m
    using that by (intro run) (simp add: mapped bind_def ofSum_def cnc_buffers(1) CNC_VERSION_def)
qed

text \<open>A command and control file of version 2 at \<open>p\<close>, with buffers of the sizes the driver gives them.\<close>

definition cnc_file :: "mmfile \<Rightarrow> nat \<Rightarrow> nat \<Rightarrow> cpu \<Rightarrow> bool" where
  "cnc_file m k j c \<longleftrightarrow> 20 \<le> sint (ucast (getMemorySize m) :: int32_t) \<and> 5 \<le> k \<and> k \<le> 29 \<and> 5 \<le> j \<and> j \<le> 29 \<and>
     get_le 4 c (getMemoryPtr m) = (2 :: int32_t) \<and> get_le 4 c (getMemoryPtr m + 4) = (of_nat (2 ^ k + 640) :: int32_t) \<and>
     get_le 4 c (getMemoryPtr m + 8) = (of_nat (2 ^ j + 128) :: int32_t)"

definition toDriver_of :: "mmfile \<Rightarrow> nat \<Rightarrow> abuf" where
  "toDriver_of m k = AtomicBuffer (getMemoryPtr m + 64) (of_nat (2 ^ k + 640))"

definition toClients_of :: "mmfile \<Rightarrow> nat \<Rightarrow> nat \<Rightarrow> abuf" where
  "toClients_of m k j = AtomicBuffer (getMemoryPtr m + 64 + int (2 ^ k + 640)) (of_nat (2 ^ j + 128))"

definition counters_of :: "mmfile \<Rightarrow> nat \<Rightarrow> nat \<Rightarrow> cpu \<Rightarrow> abuf" where
  "counters_of m k j c = AtomicBuffer (getMemoryPtr m + 64 + int (2 ^ k + 640) + int (2 ^ j + 128) +
     sint (get_le 4 c (getMemoryPtr m + 12) :: int32_t)) (get_le 4 c (getMemoryPtr m + 16))"

lemma cnc_file_buffers:
  assumes "cnc_file m k j c"
  shows "createToDriverBuffer m c = (Inr (toDriver_of m k), c)" "createToClientsBuffer m c = (Inr (toClients_of m k j), c)"
    "createCounterValuesBuffer m c = (Inr (counters_of m k j c), c)"
    "mapExisting os (c_string (cncFileName cx)) = Inr m \<Longrightarrow> mapCncFile os cx c = (Inr m, c)"
proof -
  have k: "k \<le> 29" "j \<le> 29" and m: "20 \<le> sint (ucast (getMemorySize m) :: int32_t)" using assms by (simp_all add: cnc_file_def)
  have "(2::nat) ^ k \<le> 2 ^ 29" "(2::nat) ^ j \<le> 2 ^ 29" using k by (intro power_increasing; simp)+
  then have s: "sint (of_nat (2 ^ k + 640) :: int32_t) = int (2 ^ k + 640)" "sint (of_nat (2 ^ j + 128) :: int32_t) = int (2 ^ j + 128)"
    by (intro sint_of_nat32; simp)+
  note g = assms[unfolded cnc_file_def]
  show "createToDriverBuffer m c = (Inr (toDriver_of m k), c)" using cnc_buffers(2)[OF m] g by (simp add: toDriver_of_def)
  show "createToClientsBuffer m c = (Inr (toClients_of m k j), c)"
    using cnc_buffers(3)[OF m, of c] g s by (simp add: toClients_of_def add.assoc del: of_nat_add of_nat_power)
  show "createCounterValuesBuffer m c = (Inr (counters_of m k j c), c)"
    using cnc_buffers(5)[OF m, of c] g s by (simp add: counters_of_def add.assoc del: of_nat_add of_nat_power)
  show "mapCncFile os cx c = (Inr m, c)" if "mapExisting os (c_string (cncFileName cx)) = Inr m"
    using that cnc_buffers(1)[OF m, of c] g by (simp add: mapCncFile_def CNC_VERSION_def bind_def ofSum_def)
qed

text \<open>
  C27. Connecting to a driver whose command and control file is in order succeeds: the commands go to the
  ring buffer in the file, which is as it was but for one correlation id that is taken as the client's id;
  the receiver stands behind everything the driver has sent so far; and the conductor starts without
  publications, subscriptions or lingering resources, with the handlers of the context and its timeouts, or
  their defaults.
\<close>

theorem connect_attaches:
  assumes cnc: "mapExisting os (c_string (cncFileName cx)) = Inr m" "cnc_file m k j c"
    and ring: "ManyToOneRingBuffer (toDriver_of m k) = Inr rb" "ring_inv k rb c H rs U"
    and clients: "BroadcastReceiver (toClients_of m k j) = Inr r" "transmitted j (toClients_of m k j) c T"
  shows "\<exists>ae c' r'. connect os scratch w cx c = Some (Inr ae, c') \<and>
    ring_inv k rb c' H rs U \<and> ae_toDriverRingBuffer ae = rb \<and>
    ae_driverProxy ae = \<lparr>dp_toDriverCommandBuffer = rb, dp_clientId = correlation_counter rb c\<rparr> \<and>
    correlation_counter rb c' = correlation_counter rb c + 1 \<and>
    ae_toClientsCopyReceiver ae = \<lparr>cb_receiver = r', cb_scratchBuffer = AtomicBuffer scratch 4096\<rparr> \<and>
    wf_receiver j r' \<and> br_buffer r' = toClients_of m k j \<and> br_nextRecord r' = of_nat T \<and>
    ae_conductor ae = ClientConductor_init (ae_driverProxy ae) (counters_of m k j c) (cx_onNewPublicationHandler cx)
      (cx_onNewSubscriptionHandler cx) (cx_onNewImageHandler cx) (cx_onInactiveImageHandler cx) (cx_exceptionHandler cx)
      (if cx_mediaDriverTimeout cx = - 1 then 10000 else cx_mediaDriverTimeout cx)
      (if cx_resourceLingerTimeout cx = - 1 then 5000 else cx_resourceLingerTimeout cx) w"
proof -
  have kj: "5 \<le> j" "j \<le> 30" "5 \<le> k" "k \<le> 30" using cnc(2) by (simp_all add: cnc_file_def)
  have l: "ab_length (toDriver_of m k) = of_nat (2 ^ k + 640)" "ab_length (toClients_of m k j) = of_nat (2 ^ j + 128)"
    by (simp_all add: toDriver_of_def toClients_of_def AtomicBuffer_def)
  have base: "rb_base rb = getMemoryPtr m + 64"
    using ManyToOneRingBuffer_wf[OF l(1) kj(3,4) ring(1)] by (simp add: toDriver_of_def AtomicBuffer_def)
  obtain c' where c': "nextCorrelationId rb c = (Inr (correlation_counter rb c), c')" "ring_inv k rb c' H rs U"
    "correlation_counter rb c' = correlation_counter rb c + 1"
    "\<And>a. a < rb_base rb \<or> rb_base rb + 2 ^ k + 640 \<le> a \<Longrightarrow> view c' a = view c a"
    by (rule nextCorrelationId_spec[OF ring(2)]) (rule that)
  have "transmitted j (toClients_of m k j) c' T"
    by (rule transmitted_cong[OF clients(2)], rule c'(4)[symmetric]) (simp add: base toClients_of_def AtomicBuffer_def)
  then obtain r' where r': "CopyBroadcastReceiver r scratch c' =
      Some (Inr \<lparr>cb_receiver = r', cb_scratchBuffer = AtomicBuffer scratch 4096\<rparr>)"
    "br_buffer r' = toClients_of m k j" "br_nextRecord r' = of_nat T" "wf_receiver j r'"
    using CopyBroadcastReceiver_spec[OF clients(1) l(2) kj(1,2)] by blast
  have dp: "DriverProxy rb c = (Inr \<lparr>dp_toDriverCommandBuffer = rb, dp_clientId = correlation_counter rb c\<rparr>, c')"
    using c'(1) by (simp add: DriverProxy_def)
  have map: "mapCncFile os (conclude cx) c = (Inr m, c)"
    by (rule cnc_file_buffers(4)[OF cnc(2)]) (simp add: cnc(1) conclude_sel)
  note b = cnc_file_buffers(1-3)[OF cnc(2)]
  show ?thesis
    unfolding connect_def Aeron_def Let_def using c'(2,3) r'(2-4)
    by (simp add: map b ring(1) clients(1) dp r'(1) conclude_sel obind_def oret_def total_def ofSum_def)
qed

section \<open>A concrete driver\<close>

definition cnc_posix :: "addr option \<Rightarrow> posix" where
  "cnc_posix p = \<lparr>px_stat = (\<lambda>f. Some 20000), px_fstat = (\<lambda>f. 20000), px_open = (\<lambda>f w. p \<noteq> None),
     px_write = (\<lambda>i n. n), px_mmap = (\<lambda>n i. p), px_pagesize = 4096\<rparr>"

definition demo_cnc :: mmfile where
  "demo_cnc = \<lparr>mm_memory = 8128, mm_memorySize = 20000\<rparr>"

definition demo_driver :: cpu where
  "demo_driver = put_le 4 (put_le 4 (put_le 4 blank 8128 (2 :: int32_t)) 8132 (4736 :: int32_t)) 8136 (4224 :: int32_t)"

definition demo_receiver :: breceiver where
  "demo_receiver = (case BroadcastReceiver (toClients_of demo_cnc 12 12) of Inr r \<Rightarrow> r | Inl e \<Rightarrow> undefined)"

lemma demo_driver_view: "view demo_driver = write_bytes (write_bytes (write_bytes (view blank) 8128 (enc 4 (2 :: int32_t)))
    8132 (enc 4 (4736 :: int32_t))) 8136 (enc 4 (4224 :: int32_t))"
  by (simp add: demo_driver_def view_put_le del: enc_numeral)

lemma demo_driver_zero:
  assumes "8140 \<le> a"
  shows "view demo_driver a = 0" "get_le 8 demo_driver a = (0 :: int64_t)"
proof -
  have "view blank a = 0" for a using load_blank[of a 1] by (simp add: load_def read_bytes_def)
  then have 1: "view demo_driver a = 0" if "8140 \<le> a" for a
    using that unfolding demo_driver_view
    by (simp add: write_bytes_outside del: enc_numeral)
  then show "view demo_driver a = 0" using assms .
  have "read_bytes (view demo_driver) a 8 = read_bytes (\<lambda>_. 0) a 8" using assms by (intro read_bytes_cong 1) simp
  then show "get_le 8 demo_driver a = (0 :: int64_t)"
    by (simp add: get_le_def load_def read_bytes_def map_replicate_const dec_zeros)
qed

lemma demo_driver_cnc:
  "mapExisting (cnc_posix (Some 8128)) f = Inr demo_cnc" "cnc_file demo_cnc 12 12 demo_driver"
  "toDriver_of demo_cnc 12 = demo_abuf" "ring_inv 12 demo_ring demo_driver 0 [] 0"
  "BroadcastReceiver (toClients_of demo_cnc 12 12) = Inr demo_receiver"
  "transmitted 12 (toClients_of demo_cnc 12 12) demo_driver 0"
proof -
  show "mapExisting (cnc_posix (Some 8128)) f = Inr demo_cnc"
    by (simp add: cnc_posix_def demo_cnc_def mapExisting_def MemoryMappedFile3_def doMapping_def)
  have "get_le 4 demo_driver 8128 = (2 :: int32_t)" "get_le 4 demo_driver 8132 = (4736 :: int32_t)"
    "get_le 4 demo_driver 8136 = (4224 :: int32_t)"
    by (simp_all add: get_le_def load_def demo_driver_view mem_simps dec_enc del: enc_numeral)
  then show "cnc_file demo_cnc 12 12 demo_driver"
    by (simp add: cnc_file_def demo_cnc_def getMemoryPtr_def getMemorySize_def)
  show "toDriver_of demo_cnc 12 = demo_abuf" by (simp add: toDriver_of_def demo_cnc_def getMemoryPtr_def demo_abuf_def)
  show "ring_inv 12 demo_ring demo_driver 0 [] 0"
    by (rule ring_inv_elsewhere[OF demo_ring_inv])
      (simp add: demo_ring_wf(2) demo_abuf_def AtomicBuffer_def demo_driver_zero blank_def view_def[of "\<lparr>shared = _, sbuf = _\<rparr>"])
  show "BroadcastReceiver (toClients_of demo_cnc 12 12) = Inr demo_receiver"
    by (simp add: demo_receiver_def BroadcastReceiver_def Let_def toClients_of_def AtomicBuffer_def ab_capacity_def layout
        bc_checkCapacity_def isPowerOfTwo_def)
  show "transmitted 12 (toClients_of demo_cnc 12 12) demo_driver 0"
    by (auto simp: transmitted_def bc_counter_def toClients_of_def demo_cnc_def getMemoryPtr_def AtomicBuffer_def demo_driver_zero
        intro: message_run.no_message)
qed

theorem connect_fails_witness:
  "connect (cnc_posix None) 100000 demo_client (AeronContext (\<lambda>_. None)) blank = Some (Inl IOException, blank)"
  using conjunct1[OF connect_fails[of "cnc_posix None" "AeronContext (\<lambda>_. None)" 100000 demo_client blank]]
  by (simp add: cnc_posix_def)

theorem connect_attaches_witness:
  "\<exists>ae c'. connect (cnc_posix (Some 8128)) 100000 demo_client (AeronContext (\<lambda>_. None)) demo_driver = Some (Inr ae, c') \<and>
    dp_clientId (ae_driverProxy ae) = 0 \<and> cc_driverTimeoutMs (ae_conductor ae) = 10000 \<and>
    cc_publications (ae_conductor ae) = []"
proof -
  have "correlation_counter demo_ring demo_driver = 0"
    using demo_ring_wf unfolding correlation_counter_def
    by (intro demo_driver_zero) (simp add: demo_ring_wf(2) at_def demo_abuf_def AtomicBuffer_def wf_ring_def)
  with connect_attaches[OF demo_driver_cnc(1,2) _ demo_driver_cnc(4,5,6), where cx = "AeronContext (\<lambda>_. None)" and scratch = 100000 and w = demo_client]
  show ?thesis
    by (auto simp: demo_driver_cnc(3) demo_ring_eq AeronContext_def NULL_TIMEOUT_def ClientConductor_init_def)
qed

text \<open>A client on an empty broadcast buffer: the runner's only cycle finds nothing to do and sleeps.\<close>

definition demo_aeron :: "byte list list aeron" where
  "demo_aeron =
     \<lparr>ae_context = AeronContext (\<lambda>_. None), ae_cncBuffer = demo_cnc, ae_toDriverAtomicBuffer = demo_abuf,
      ae_toClientsAtomicBuffer = demo_bc, ae_countersValueBuffer = AtomicBuffer 0 0, ae_toDriverRingBuffer = demo_ring,
      ae_driverProxy = \<lparr>dp_toDriverCommandBuffer = demo_ring, dp_clientId = 0\<rparr>,
      ae_toClientsCopyReceiver = \<lparr>cb_receiver = demo_br, cb_scratchBuffer = AtomicBuffer 100000 4096\<rparr>,
      ae_conductor = demo_client\<rparr>"

theorem runner_calls_conductor_witness:
  "\<exists>c' ae'. conductorRunner (\<lambda>n. n < 1) ((blank, demo_aeron), []) = Some ((c', ae'), [4]) \<and>
    reaches (blank, demo_client) (c', ae_conductor ae')"
proof -
  have "receiveNext blank demo_br = (Inr False, demo_br)"
    by (rule receiveNext_none[OF demo_bc_wf(3), of _ 0])
      (simp_all add: demo_bc_wf bc_counter_def get_le_def load_blank dec_zeros)
  then have rc: "receiveMessages client_listener (ae_toClientsCopyReceiver demo_aeron, blank, demo_client) =
      Some (Inr 0, ae_toClientsCopyReceiver demo_aeron, blank, demo_client)"
    by (simp add: receiveMessages_def receive_def Let_def demo_aeron_def)
  have "onHeartbeatCheckTimeouts (blank, demo_client) = Some (Inr 0, blank, demo_client\<lparr>wd_ticks := 1\<rparr>)"
    by (simp add: onHeartbeatCheckTimeouts_def checkKeepalive_def checkResources_def obind_def gets_def epochClock_def oret_def
        demo_client_def KEEPALIVE_TIMEOUT_MS_def RESOURCE_TIMEOUT_MS_def)
  then have work: "doWork (ae_toClientsCopyReceiver demo_aeron, blank, demo_client) =
      Some (Inr 0, ae_toClientsCopyReceiver demo_aeron, blank, demo_client\<lparr>wd_ticks := 1\<rparr>)"
    using rc by (simp add: doWork_def obind_def oret_def)
  have r: "conductorRunner (\<lambda>n. n < 1) ((blank, demo_aeron), []) =
      Some ((blank, demo_aeron\<lparr>ae_toClientsCopyReceiver := ae_toClientsCopyReceiver demo_aeron,
        ae_conductor := demo_client\<lparr>wd_ticks := 1\<rparr>\<rparr>), [4])"
    using work by (simp add: conductorRunner_def run_agent.simps duty_cycle_def conductorWork_def obind_def
        SleepingIdleStrategy_idle_def IDLE_SLEEP_MS_def demo_aeron_def)
  have "ae_conductor demo_aeron = demo_client" by (simp add: demo_aeron_def)
  then show ?thesis using runner_calls_conductor[OF r] r by auto
qed

end
