(* ===== verification/ConductorThread.thy ===== *)
theory ConductorThread
  imports Aeron
begin

text \<open>
  What one duty cycle of the conductor's thread does: \<^verbatim>\<open>AgentRunner::run\<close> over \<^verbatim>\<open>ClientConductor::doWork\<close>, from the
  broadcast buffer of the driver to its ring buffer. A message of the driver is handed to the
  conductor once; the keepalive is sent when it is due and only then; a driver that has fallen silent is
  noticed; what is thrown reaches the error handler; and the thread sleeps when there was nothing to do.
\<close>

section \<open>The keepalive\<close>

lemma consumer_heartbeat:
  assumes "wf_ring k rb"
  shows "consumerHeartbeatTime rb c = (Inr (get_le 8 c (rb_base rb + 2 ^ k + 512)), c)"
proof -
  have i: "rb_consumerHeartbeatIndex rb = of_nat (2 ^ k + 512)" using assms by (simp only: wf_ring_def)
  have a: "in_range (rb_buffer rb) (of_nat (2 ^ k + 512)) 8"
    "at (rb_buffer rb) (of_nat (2 ^ k + 512)) = rb_base rb + int (2 ^ k + 512)"
    using assms by (intro wf_ring_index[where n = 8], assumption, simp)+
  then show ?thesis unfolding consumerHeartbeatTime_def i by (simp add: ab_ok add.assoc)
qed

text \<open>The client after the keepalive: the driver has been heard of in time, or it has not.\<close>

definition kept_alive :: "int64_t \<Rightarrow> 'u client \<Rightarrow> 'u client" where
  "kept_alive now w = w\<lparr>cc_timeOfLastKeepalive := now\<rparr>"

definition lost_driver :: "'u \<Rightarrow> 'u client \<Rightarrow> 'u client" where
  "lost_driver u w = w\<lparr>cc_driverActive := False, wd_app := u\<rparr>"

definition ticked :: "'u client \<Rightarrow> 'u client" where
  "ticked w = w\<lparr>wd_ticks := Suc (wd_ticks w)\<rparr>"

text \<open>What a call with the clock at \<open>now\<close> does, without resources to check.\<close>

lemma heartbeat_spec:
  fixes w :: "'u client" and c
  defines "now \<equiv> wd_clock w (wd_ticks w)" and "dp \<equiv> cc_driverProxy w"
    and "rb \<equiv> dp_toDriverCommandBuffer (cc_driverProxy w)"
  assumes ring: "ring_inv k rb c H rs T" "12 \<le> k" "stack_apart k rb (wd_stack w)"
    and resources: "sint now \<le> sint (cc_timeOfLastCheckManagedResources w + RESOURCE_TIMEOUT_MS)"
    and handler: "\<And>s. cc_errorHandler w DriverTimeoutException s = Some (Inr (), G s)"
  shows "sint now \<le> sint (cc_timeOfLastKeepalive w + KEEPALIVE_TIMEOUT_MS) \<Longrightarrow>
      onHeartbeatCheckTimeouts (c, w) = Some (Inr 0, c, ticked w)"
    and "sint (cc_timeOfLastKeepalive w + KEEPALIVE_TIMEOUT_MS) < sint now \<Longrightarrow>
      \<exists>c' rs' T'. ring_inv k rb c' H (rs @ rs') T' \<and>
      (if claim_spec (2 ^ k) H T 24 = None
       then messages rs' = [] \<and> onHeartbeatCheckTimeouts (c, w) = Some (Inl IllegalStateException, c', ticked w)
       else messages rs' = [(CLIENT_KEEPALIVE, enc 8 (dp_clientId dp) @ enc 8 (0 :: int64_t))] \<and>
         onHeartbeatCheckTimeouts (c, w) =
           (if sint (get_le 8 c' (rb_base rb + 2 ^ k + 512) + cc_driverTimeoutMs w) < sint now
            then Some (Inr 1, fst (G (c', wd_app w)), kept_alive now (lost_driver (snd (G (c', wd_app w))) (ticked w)))
            else Some (Inr 1, c', kept_alive now (ticked w))))"
proof -
  assume "sint now \<le> sint (cc_timeOfLastKeepalive w + KEEPALIVE_TIMEOUT_MS)"
  then show "onHeartbeatCheckTimeouts (c, w) = Some (Inr 0, c, ticked w)"
    using resources by (simp add: onHeartbeatCheckTimeouts_def checkKeepalive_def checkResources_def step_defs now_def ticked_def)
next
  assume due: "sint (cc_timeOfLastKeepalive w + KEEPALIVE_TIMEOUT_MS) < sint now"
  have len: "rec_size (Msg CLIENT_KEEPALIVE (enc 8 (dp_clientId dp) @ enc 8 (0 :: int64_t))) = 24"
    by (simp add: rec_size_def del: enc_numeral)
  have "sends k rb H rs T () CLIENT_KEEPALIVE (enc 8 (dp_clientId dp) @ enc 8 (0 :: int64_t)) (sendClientKeepalive dp (wd_stack w) c)"
    unfolding rb_def dp_def by (rule keepalive_sends[OF ring[unfolded rb_def]])
  then obtain c' T' rs' where s: "ring_inv k rb c' H (rs @ rs') T'"
    "if claim_spec (2 ^ k) H T 24 = None then sendClientKeepalive dp (wd_stack w) c = Some (Inl IllegalStateException, c') \<and> messages rs' = []
     else sendClientKeepalive dp (wd_stack w) c = Some (Inr (), c') \<and>
       messages rs' = [(CLIENT_KEEPALIVE, enc 8 (dp_clientId dp) @ enc 8 (0 :: int64_t))]"
    unfolding sends_def len by blast
  have seen: "timeOfLastDriverKeepalive dp c' = (Inr (get_le 8 c' (rb_base rb + 2 ^ k + 512)), c')"
    using s(1) consumer_heartbeat[of k rb c'] by (simp add: timeOfLastDriverKeepalive_def ring_inv_def rb_def dp_def)
  note run = onHeartbeatCheckTimeouts_def checkKeepalive_def checkResources_def step_defs ticked_def kept_alive_def lost_driver_def
  show "\<exists>c' rs' T'. ring_inv k rb c' H (rs @ rs') T' \<and>
      (if claim_spec (2 ^ k) H T 24 = None
       then messages rs' = [] \<and> onHeartbeatCheckTimeouts (c, w) = Some (Inl IllegalStateException, c', ticked w)
       else messages rs' = [(CLIENT_KEEPALIVE, enc 8 (dp_clientId dp) @ enc 8 (0 :: int64_t))] \<and>
         onHeartbeatCheckTimeouts (c, w) =
           (if sint (get_le 8 c' (rb_base rb + 2 ^ k + 512) + cc_driverTimeoutMs w) < sint now
            then Some (Inr 1, fst (G (c', wd_app w)), kept_alive now (lost_driver (snd (G (c', wd_app w))) (ticked w)))
            else Some (Inr 1, c', kept_alive now (ticked w))))"
  proof (intro exI conjI)
    show "ring_inv k rb c' H (rs @ rs') T'" by (rule s(1))
    show "if claim_spec (2 ^ k) H T 24 = None
       then messages rs' = [] \<and> onHeartbeatCheckTimeouts (c, w) = Some (Inl IllegalStateException, c', ticked w)
       else messages rs' = [(CLIENT_KEEPALIVE, enc 8 (dp_clientId dp) @ enc 8 (0 :: int64_t))] \<and>
         onHeartbeatCheckTimeouts (c, w) =
           (if sint (get_le 8 c' (rb_base rb + 2 ^ k + 512) + cc_driverTimeoutMs w) < sint now
            then Some (Inr 1, fst (G (c', wd_app w)), kept_alive now (lost_driver (snd (G (c', wd_app w))) (ticked w)))
            else Some (Inr 1, c', kept_alive now (ticked w)))"
    proof (cases "claim_spec (2 ^ k) H T 24 = None")
      case True
      then have "sendClientKeepalive dp (wd_stack w) c = Some (Inl IllegalStateException, c')" "messages rs' = []"
        using s(2) by simp_all
      then show ?thesis using True due by (simp add: run now_def dp_def)
    next
      case False
      then have "sendClientKeepalive dp (wd_stack w) c = Some (Inr (), c')"
        "messages rs' = [(CLIENT_KEEPALIVE, enc 8 (dp_clientId dp) @ enc 8 (0 :: int64_t))]"
        using s(2) by simp_all
      then show ?thesis using False due resources seen handler
        by (cases "G (c', wd_app w)") (simp add: run now_def dp_def del: enc_numeral)
    qed
  qed
qed

section \<open>One cycle of the thread\<close>

definition with_client :: "'u aeron \<Rightarrow> copyreceiver \<Rightarrow> 'u client \<Rightarrow> 'u aeron" where
  "with_client ae cb w = ae\<lparr>ae_toClientsCopyReceiver := cb, ae_conductor := w\<rparr>"

lemma one_cycle:
  assumes "running 0" "\<not> running 1"
  shows "conductorRunner running s = duty_cycle conductorWork (SleepingIdleStrategy_idle IDLE_SLEEP_MS) runnerErrorHandler s"
  using assms by (simp add: conductorRunner_def run_agent.simps[of _ _ 0] run_agent.simps[of _ _ "Suc 0"] split: option.split)

lemmas cycle_defs = duty_cycle_def conductorWork_def obind_def SleepingIdleStrategy_idle_def IDLE_SLEEP_MS_def
  runnerErrorHandler_def on_conductor_def on_app_def isSourcedException_def with_client_def

lemma cycle_works:
  assumes "running 0" "\<not> running 1" "doWork (ae_toClientsCopyReceiver ae, c, ae_conductor ae) = Some (Inr n, cb', c', w')"
  shows "conductorRunner running ((c, ae), sleeps) =
    Some ((c', with_client ae cb' w'), if n = 0 then sleeps @ [4] else sleeps)"
  unfolding one_cycle[OF assms(1,2)] using assms(3) by (simp add: cycle_defs)

lemma cycle_throws:
  assumes "running 0" "\<not> running 1" "doWork (ae_toClientsCopyReceiver ae, c, ae_conductor ae) = Some (Inl e, cb', c', w')"
    and "\<And>e s. cx_exceptionHandler (ae_context ae) e s = Some (Inr (), G e s)"
  shows "conductorRunner running ((c, ae), sleeps) =
    (if e = StandardException then None
     else Some ((fst (G e (c', wd_app w')), with_client ae cb' (w'\<lparr>wd_app := snd (G e (c', wd_app w'))\<rparr>)), sleeps))"
  unfolding one_cycle[OF assms(1,2)] using assms(3,4) by (cases "G e (c', wd_app w')") (simp add: cycle_defs)

lemma cycle_stuck:
  assumes "running 0" "\<not> running 1" "doWork (ae_toClientsCopyReceiver ae, c, ae_conductor ae) = None"
  shows "conductorRunner running ((c, ae), sleeps) = None"
  unfolding one_cycle[OF assms(1,2)] using assms(3) by (simp add: cycle_defs)

lemma heartbeat_count: "onHeartbeatCheckTimeouts s = Some (Inr n, s') \<Longrightarrow> n = 0 \<or> n = 1"
  by (auto simp: onHeartbeatCheckTimeouts_def obind_def oret_def split: option.splits sum.splits prod.splits if_splits)

text \<open>With nothing new in the broadcast buffer the work is the heartbeat.\<close>

lemma doWork_silent:
  assumes "wf_receiver k (cb_receiver cb)" "bc_counter (br_buffer (cb_receiver cb)) k 8 c = of_nat T"
    "bc_counter (br_buffer (cb_receiver cb)) k 0 c = of_nat T" "T < 2 ^ 62" "br_nextRecord (cb_receiver cb) = of_nat T"
  shows "doWork (cb, c, w) = map_option (\<lambda>(r, s). (r, cb, s)) (onHeartbeatCheckTimeouts (c, w))"
proof -
  have "receiveMessages client_listener (cb, c, w) = Some (Inr 0, cb, c, w)"
    using receiveNext_none[OF assms] by (simp add: receiveMessages_def receive_def Let_def)
  then show ?thesis
    by (simp add: doWork_def obind_def oret_def split: option.split sum.split)
qed

lemma doWork_message:
  assumes "receiveMessages client_listener (cb, c, w) = received cb' (client_listener ev s)"
  shows "doWork (cb, c, w) =
    (case client_listener ev s of
       None \<Rightarrow> None
     | Some (Inl e, s) \<Rightarrow> Some (Inl e, cb', s)
     | Some (Inr _, s) \<Rightarrow> map_option (\<lambda>(r, s). (map_sum id (\<lambda>n. 1 + n) r, cb', s)) (onHeartbeatCheckTimeouts s))"
  using assms
  by (simp add: doWork_def obind_def oret_def split: option.split sum.split prod.split)

text \<open>A cycle that finds a message.\<close>

lemma runner_message:
  fixes ae :: "'u aeron" and c and sleeps :: "int64_t list"
  defines "cb \<equiv> ae_toClientsCopyReceiver ae" and "w \<equiv> ae_conductor ae"
  defines "r \<equiv> cb_receiver cb"
  assumes flag: "running 0" "\<not> running 1"
    and wf: "wf_receiver k r"
    and T: "bc_counter (br_buffer r) k 8 c = of_nat T" "bc_counter (br_buffer r) k 0 c = of_nat T" "T < 2 ^ 62"
    and P: "br_nextRecord r = of_nat P" "P \<le> T" "T < P + 2 ^ k"
    and sc: "cb_scratchBuffer cb = AtomicBuffer scratch 4096"
      "scratch + 4096 \<le> ab_buffer (br_buffer r) \<or> ab_buffer (br_buffer r) + 2 ^ k + 128 \<le> scratch"
    and handler: "\<And>e s. cx_exceptionHandler (ae_context ae) e s = Some (Inr (), G e s)"
    and msg: "chain k (ab_buffer (br_buffer r)) (view c) P (pad_recs n @ [Msg (msg_type M) (msg_bytes M)]) Q" "Q \<le> T"
      "n \<noteq> 0 \<longrightarrow> (P + n) mod 2 ^ k = 0 \<and> 8 dvd n" "length (msg_bytes M) \<le> 4096"
  shows "\<exists>cb' c'. br_nextRecord (cb_receiver cb') = of_nat Q \<and> load c' scratch (length (msg_bytes M)) = msg_bytes M \<and>
        (case client_listener (msg_event scratch M) (c', w) of
           None \<Rightarrow> conductorRunner running ((c, ae), sleeps) = None
         | Some (Inl e, c1, w1) \<Rightarrow> conductorRunner running ((c, ae), sleeps) =
             (if e = StandardException then None
              else Some ((fst (G e (c1, wd_app w1)), with_client ae cb' (w1\<lparr>wd_app := snd (G e (c1, wd_app w1))\<rparr>)), sleeps))
         | Some (Inr _, c1, w1) \<Rightarrow> (\<forall>n c2 w2. onHeartbeatCheckTimeouts (c1, w1) = Some (Inr n, c2, w2) \<longrightarrow>
             conductorRunner running ((c, ae), sleeps) = Some ((c2, with_client ae cb' w2), sleeps)))"
proof -
  obtain cb' c' where c': "br_nextRecord (cb_receiver cb') = of_nat Q" "load c' scratch (length (msg_bytes M)) = msg_bytes M"
    "receiveMessages client_listener (cb, c, w) = received cb' (client_listener (msg_event scratch M) (c', w))"
    using receiveMessages_spec[OF wf[unfolded r_def] T[unfolded r_def] P[unfolded r_def] sc[unfolded r_def] msg[unfolded r_def],
        of client_listener w] by blast
  note work = doWork_message[OF c'(3), unfolded cb_def w_def]
  have beat: "1 + n \<noteq> 0" if "onHeartbeatCheckTimeouts s = Some (Inr n, s')" for n s s'
    using heartbeat_count[OF that] by auto
  have "case client_listener (msg_event scratch M) (c', w) of
           None \<Rightarrow> conductorRunner running ((c, ae), sleeps) = None
         | Some (Inl e, c1, w1) \<Rightarrow> conductorRunner running ((c, ae), sleeps) =
             (if e = StandardException then None
              else Some ((fst (G e (c1, wd_app w1)), with_client ae cb' (w1\<lparr>wd_app := snd (G e (c1, wd_app w1))\<rparr>)), sleeps))
         | Some (Inr _, c1, w1) \<Rightarrow> (\<forall>n c2 w2. onHeartbeatCheckTimeouts (c1, w1) = Some (Inr n, c2, w2) \<longrightarrow>
             conductorRunner running ((c, ae), sleeps) = Some ((c2, with_client ae cb' w2), sleeps))"
  proof (cases "client_listener (msg_event scratch M) (c', w)")
    case None
    then show ?thesis using cycle_stuck[OF flag] work by (simp add: w_def)
  next
    case (Some a)
    obtain q c1 w1 where a: "a = (q, c1, w1)" by (metis prod_cases3)
    show ?thesis
    proof (cases q)
      case (Inl e)
      then show ?thesis using cycle_throws[OF flag _ handler] work Some a by (simp add: w_def)
    next
      case (Inr x)
      have "conductorRunner running ((c, ae), sleeps) = Some ((c2, with_client ae cb' w2), sleeps)"
        if h: "onHeartbeatCheckTimeouts (c1, w1) = Some (Inr n, c2, w2)" for n c2 w2
        using cycle_works[OF flag, of ae c "1 + n" cb' c2 w2 sleeps] work Some a Inr h beat[OF h] by (simp add: w_def)
      then show ?thesis using Some a Inr by simp
    qed
  qed
  with c'(1,2) show ?thesis by blast
qed

text \<open>A cycle that finds none.\<close>

lemma runner_silent:
  fixes ae :: "'u aeron" and c and sleeps :: "int64_t list"
  defines "cb \<equiv> ae_toClientsCopyReceiver ae" and "w \<equiv> ae_conductor ae"
  defines "r \<equiv> cb_receiver cb" and "now \<equiv> wd_clock w (wd_ticks w)" and "dp \<equiv> cc_driverProxy w"
  defines "rb \<equiv> dp_toDriverCommandBuffer dp"
  assumes flag: "running 0" "\<not> running 1"
    and wf: "wf_receiver k r"
    and T: "bc_counter (br_buffer r) k 8 c = of_nat T" "bc_counter (br_buffer r) k 0 c = of_nat T" "T < 2 ^ 62"
    and P: "br_nextRecord r = of_nat T"
    and handler: "\<And>e s. cx_exceptionHandler (ae_context ae) e s = Some (Inr (), G e s)"
      "cc_errorHandler w = cx_exceptionHandler (ae_context ae)"
    and ring: "ring_inv kd rb c H rs U" "12 \<le> kd" "stack_apart kd rb (wd_stack w)"
    and resources: "sint now \<le> sint (cc_timeOfLastCheckManagedResources w + RESOURCE_TIMEOUT_MS)"
  shows "(if sint now \<le> sint (cc_timeOfLastKeepalive w + KEEPALIVE_TIMEOUT_MS)
       then conductorRunner running ((c, ae), sleeps) = Some ((c, with_client ae cb (ticked w)), sleeps @ [4])
       else \<exists>c' rs' U'. ring_inv kd rb c' H (rs @ rs') U' \<and>
        (if claim_spec (2 ^ kd) H U 24 = None
         then messages rs' = [] \<and> conductorRunner running ((c, ae), sleeps) =
           (let (c2, u) = G IllegalStateException (c', wd_app w)
            in Some ((c2, with_client ae cb ((ticked w)\<lparr>wd_app := u\<rparr>)), sleeps))
         else messages rs' = [(CLIENT_KEEPALIVE, enc 8 (dp_clientId dp) @ enc 8 (0 :: int64_t))] \<and>
           conductorRunner running ((c, ae), sleeps) =
             (if sint (get_le 8 c' (rb_base rb + 2 ^ kd + 512) + cc_driverTimeoutMs w) < sint now
              then (let (c2, u) = G DriverTimeoutException (c', wd_app w)
                    in Some ((c2, with_client ae cb (kept_alive now (lost_driver u (ticked w)))), sleeps))
              else Some ((c', with_client ae cb (kept_alive now (ticked w))), sleeps))))"
proof -
  have handles: "cc_errorHandler w DriverTimeoutException s = Some (Inr (), G DriverTimeoutException s)" for s
    using handler by simp
  note beat = heartbeat_spec[of kd w c H rs U "G DriverTimeoutException", folded now_def dp_def, folded rb_def, OF ring resources handles]
  have work: "doWork (ae_toClientsCopyReceiver ae, c, ae_conductor ae) = map_option (\<lambda>(r, s). (r, cb, s)) (onHeartbeatCheckTimeouts (c, w))"
    using doWork_silent[of k cb c T w] wf T P by (simp add: r_def cb_def w_def)
  show ?thesis
  proof (cases "sint now \<le> sint (cc_timeOfLastKeepalive w + KEEPALIVE_TIMEOUT_MS)")
    case True
    then show ?thesis using cycle_works[OF flag, of ae c 0 cb c "ticked w" sleeps] work beat(1) by simp
  next
    case False
    then have due: "sint (cc_timeOfLastKeepalive w + KEEPALIVE_TIMEOUT_MS) < sint now" by simp
    obtain c' rs' U' where u: "ring_inv kd rb c' H (rs @ rs') U'"
      "if claim_spec (2 ^ kd) H U 24 = None
       then messages rs' = [] \<and> onHeartbeatCheckTimeouts (c, w) = Some (Inl IllegalStateException, c', ticked w)
       else messages rs' = [(CLIENT_KEEPALIVE, enc 8 (dp_clientId dp) @ enc 8 (0 :: int64_t))] \<and>
         onHeartbeatCheckTimeouts (c, w) =
           (if sint (get_le 8 c' (rb_base rb + 2 ^ kd + 512) + cc_driverTimeoutMs w) < sint now
            then Some (Inr 1, fst (G DriverTimeoutException (c', wd_app w)),
              kept_alive now (lost_driver (snd (G DriverTimeoutException (c', wd_app w))) (ticked w)))
            else Some (Inr 1, c', kept_alive now (ticked w)))"
      using beat(2)[OF due] by blast
    have app: "wd_app (ticked w) = wd_app w" by (simp add: ticked_def)
    show ?thesis
    proof (cases "claim_spec (2 ^ kd) H U 24 = None")
      case True
      then have "doWork (ae_toClientsCopyReceiver ae, c, ae_conductor ae) = Some (Inl IllegalStateException, cb, c', ticked w)"
        using u(2) work by simp
      from cycle_throws[OF flag this handler(1), of sleeps] show ?thesis
        unfolding if_not_P[OF False] using u True
        by (intro exI[of _ c'] exI[of _ rs'] exI[of _ U'] conjI) (simp_all add: app case_prod_beta Let_def)
    next
      case room: False
      let ?lost = "sint (get_le 8 c' (rb_base rb + 2 ^ kd + 512) + cc_driverTimeoutMs w) < sint now"
      let ?g = "G DriverTimeoutException (c', wd_app w)"
      have "doWork (ae_toClientsCopyReceiver ae, c, ae_conductor ae) =
          Some (Inr 1, cb, if ?lost then (fst ?g, kept_alive now (lost_driver (snd ?g) (ticked w))) else (c', kept_alive now (ticked w)))"
        using u(2) work room by simp
      then have "conductorRunner running ((c, ae), sleeps) =
          (if ?lost then Some ((fst ?g, with_client ae cb (kept_alive now (lost_driver (snd ?g) (ticked w)))), sleeps)
           else Some ((c', with_client ae cb (kept_alive now (ticked w))), sleeps))"
        using cycle_works[OF flag, of ae c 1 cb _ _ sleeps] by (cases ?lost) simp_all
      then show ?thesis
        unfolding if_not_P[OF False] using u room
        by (intro exI[of _ c'] exI[of _ rs'] exI[of _ U'] conjI) (simp_all add: case_prod_beta Let_def del: enc_numeral)
    qed
  qed
qed

text \<open>
  C28. One duty cycle of the conductor's thread, the flag being cleared after it. A message of the driver
  that stands next in the broadcast buffer is handed to the conductor exactly once, as the driver wrote it;
  then comes the heartbeat, and no sleep. With nothing new, the heartbeat decides: until 500 ms have passed since
  the last keepalive the thread only sleeps; after that exactly one keepalive with the client's identifier is
  put into the driver's ring buffer, the time is taken note of and the thread does not sleep, and if the driver's own
  heartbeat is older than its time-out, the driver is taken for inactive and the handler told so. Without room for the
  keepalive the handler is told and the time stays, so that the next cycle tries again. What the conductor throws
  reaches the error handler once, ends the cycle, and, if it is not one of the library's exceptions, the program.
\<close>

theorem runner_cycle:
  fixes ae :: "'u aeron" and c and sleeps :: "int64_t list"
  defines "cb \<equiv> ae_toClientsCopyReceiver ae" and "w \<equiv> ae_conductor ae"
  defines "r \<equiv> cb_receiver cb" and "now \<equiv> wd_clock w (wd_ticks w)" and "dp \<equiv> cc_driverProxy w"
  defines "rb \<equiv> dp_toDriverCommandBuffer dp"
  assumes flag: "running 0" "\<not> running 1"
    and wf: "wf_receiver k r"
    and T: "bc_counter (br_buffer r) k 8 c = of_nat T" "bc_counter (br_buffer r) k 0 c = of_nat T" "T < 2 ^ 62"
    and P: "br_nextRecord r = of_nat P" "P \<le> T" "T < P + 2 ^ k"
    and sc: "cb_scratchBuffer cb = AtomicBuffer scratch 4096"
      "scratch + 4096 \<le> ab_buffer (br_buffer r) \<or> ab_buffer (br_buffer r) + 2 ^ k + 128 \<le> scratch"
    and handler: "\<And>e s. cx_exceptionHandler (ae_context ae) e s = Some (Inr (), G e s)"
      "cc_errorHandler w = cx_exceptionHandler (ae_context ae)"
  shows
    "(\<forall>n M Q. chain k (ab_buffer (br_buffer r)) (view c) P (pad_recs n @ [Msg (msg_type M) (msg_bytes M)]) Q \<and> Q \<le> T \<and>
        (n \<noteq> 0 \<longrightarrow> (P + n) mod 2 ^ k = 0 \<and> 8 dvd n) \<and> length (msg_bytes M) \<le> 4096 \<longrightarrow>
      (\<exists>cb' c'. br_nextRecord (cb_receiver cb') = of_nat Q \<and> load c' scratch (length (msg_bytes M)) = msg_bytes M \<and>
        (case client_listener (msg_event scratch M) (c', w) of
           None \<Rightarrow> conductorRunner running ((c, ae), sleeps) = None
         | Some (Inl e, c1, w1) \<Rightarrow> conductorRunner running ((c, ae), sleeps) =
             (if e = StandardException then None
              else Some ((fst (G e (c1, wd_app w1)), with_client ae cb' (w1\<lparr>wd_app := snd (G e (c1, wd_app w1))\<rparr>)), sleeps))
         | Some (Inr _, c1, w1) \<Rightarrow> (\<forall>n c2 w2. onHeartbeatCheckTimeouts (c1, w1) = Some (Inr n, c2, w2) \<longrightarrow>
             conductorRunner running ((c, ae), sleeps) = Some ((c2, with_client ae cb' w2), sleeps))))) \<and>
     (\<forall>k H rs U. P = T \<and> ring_inv k rb c H rs U \<and> 12 \<le> k \<and> stack_apart k rb (wd_stack w) \<and>
        sint now \<le> sint (cc_timeOfLastCheckManagedResources w + RESOURCE_TIMEOUT_MS) \<longrightarrow>
      (if sint now \<le> sint (cc_timeOfLastKeepalive w + KEEPALIVE_TIMEOUT_MS)
       then conductorRunner running ((c, ae), sleeps) = Some ((c, with_client ae cb (ticked w)), sleeps @ [4])
       else \<exists>c' rs' U'. ring_inv k rb c' H (rs @ rs') U' \<and>
        (if claim_spec (2 ^ k) H U 24 = None
         then messages rs' = [] \<and> conductorRunner running ((c, ae), sleeps) =
           (let (c2, u) = G IllegalStateException (c', wd_app w)
            in Some ((c2, with_client ae cb ((ticked w)\<lparr>wd_app := u\<rparr>)), sleeps))
         else messages rs' = [(CLIENT_KEEPALIVE, enc 8 (dp_clientId dp) @ enc 8 (0 :: int64_t))] \<and>
           conductorRunner running ((c, ae), sleeps) =
             (if sint (get_le 8 c' (rb_base rb + 2 ^ k + 512) + cc_driverTimeoutMs w) < sint now
              then (let (c2, u) = G DriverTimeoutException (c', wd_app w)
                    in Some ((c2, with_client ae cb (kept_alive now (lost_driver u (ticked w)))), sleeps))
              else Some ((c', with_client ae cb (kept_alive now (ticked w))), sleeps)))))"
proof -
  note hyps = wf T P sc handler
  note expanded = hyps[unfolded r_def cb_def w_def]
  show ?thesis
    unfolding rb_def dp_def now_def r_def cb_def w_def
    by (intro conjI allI impI; elim conjE)
      (rule runner_message[OF flag expanded(1-10)], assumption+,
       rule runner_silent[OF flag expanded(1-4) _ expanded(10,11)], use expanded(5) in simp, assumption+)
qed

text \<open>700 ms after the last keepalive a client on empty buffers sends one.\<close>

definition late_bc :: abuf where
  "late_bc = AtomicBuffer 65536 4224"

definition late_br :: breceiver where
  "late_br = (case BroadcastReceiver late_bc of Inr r \<Rightarrow> r | Inl e \<Rightarrow> undefined)"

lemma late_br_wf: "wf_receiver 12 late_br" "br_buffer late_br = late_bc" "br_nextRecord late_br = of_nat 0"
proof -
  have "BroadcastReceiver late_bc = Inr late_br"
    by (simp add: late_br_def BroadcastReceiver_def Let_def late_bc_def AtomicBuffer_def ab_capacity_def layout
        bc_checkCapacity_def isPowerOfTwo_def)
  moreover have "ab_length late_bc = of_nat (2 ^ 12 + 128)" by (simp add: late_bc_def AtomicBuffer_def)
  ultimately show "wf_receiver 12 late_br" "br_buffer late_br = late_bc" "br_nextRecord late_br = of_nat 0"
    using bc_constructors[of late_bc 12] by auto
qed

definition late_client :: "byte list list client" where
  "late_client = demo_client\<lparr>wd_clock := (\<lambda>_. 700)\<rparr>"

definition late_aeron :: "byte list list aeron" where
  "late_aeron = demo_aeron\<lparr>ae_context := (AeronContext (\<lambda>_. None))\<lparr>cx_exceptionHandler := ignore\<rparr>,
     ae_toClientsCopyReceiver := \<lparr>cb_receiver = late_br, cb_scratchBuffer = AtomicBuffer 100000 4096\<rparr>,
     ae_conductor := late_client\<rparr>"

theorem runner_cycle_witness:
  "\<exists>c' rs' U' t. ring_inv 12 demo_ring c' 0 rs' U' \<and> messages rs' = [(CLIENT_KEEPALIVE, enc 8 (1 :: int64_t) @ enc 8 (0 :: int64_t))] \<and>
    conductorRunner (\<lambda>n. n < 1) ((blank, late_aeron), []) = Some (t, [])"
proof -
  have ae: "ae_toClientsCopyReceiver late_aeron = \<lparr>cb_receiver = late_br, cb_scratchBuffer = AtomicBuffer 100000 4096\<rparr>"
    "ae_conductor late_aeron = late_client" "cx_exceptionHandler (ae_context late_aeron) = ignore"
    by (simp_all add: late_aeron_def)
  have dp: "dp_toDriverCommandBuffer (cc_driverProxy late_client) = demo_ring" "dp_clientId (cc_driverProxy late_client) = 1"
    "cc_errorHandler late_client = ignore" "wd_stack late_client = 0" "wd_clock late_client n = 700"
    "cc_timeOfLastKeepalive late_client = 0" "cc_timeOfLastCheckManagedResources late_client = 0" for n
    by (simp_all add: late_client_def demo_client_def)
  have bc: "bc_counter late_bc 12 8 blank = of_nat 0" "bc_counter late_bc 12 0 blank = of_nat 0"
    by (simp_all add: bc_counter_def get_le_def load_blank dec_zeros)
  have st: "stack_apart 12 demo_ring 0"
    using demo_ring_wf by (simp add: stack_apart_def demo_abuf_def AtomicBuffer_def)
  have room: "claim_spec (2 ^ 12) 0 0 24 \<noteq> None" by (simp add: claim_spec_def)
  have times: "sint (700 :: int64_t) \<le> sint (0 + RESOURCE_TIMEOUT_MS)" "\<not> sint (700 :: int64_t) \<le> sint (0 + KEEPALIVE_TIMEOUT_MS)"
    by (simp_all add: KEEPALIVE_TIMEOUT_MS_def RESOURCE_TIMEOUT_MS_def)
  have apart: "100000 + 4096 \<le> ab_buffer late_bc \<or> ab_buffer late_bc + 2 ^ 12 + 128 \<le> 100000"
    by (simp add: late_bc_def AtomicBuffer_def)
  have ok: "ignore e s = Some (Inr (), s)" for e and s :: "cpu \<times> byte list list"
    by simp
  note cycle = runner_cycle[where running = "\<lambda>n. n < 1" and k = 12 and T = 0 and P = 0 and scratch = 100000 and ae = late_aeron
      and c = blank and G = "\<lambda>e s. s" and sleeps = "[]", unfolded ae dp copyreceiver.simps late_br_wf(2)]
  have none: "0 = 0 \<and> ring_inv 12 demo_ring blank 0 [] 0 \<and> 12 \<le> (12::nat) \<and> stack_apart 12 demo_ring 0 \<and>
      sint (700 :: int64_t) \<le> sint (0 + RESOURCE_TIMEOUT_MS)"
    using demo_ring_inv st times(1) by simp
  have flags: "(0::nat) < 1" "\<not> (1::nat) < 1" "(0::nat) < 2 ^ 62" "0 \<le> (0::nat)" "(0::nat) < 0 + 2 ^ 12" by simp_all
  note silent = conjunct2[OF cycle[OF flags(1,2) late_br_wf(1) bc flags(3) late_br_wf(3) flags(4,5) refl apart ok refl],
      THEN spec[of _ 12], THEN spec[of _ 0], THEN spec[of _ "[]"], THEN spec[of _ 0], THEN mp, OF none,
      unfolded if_not_P[OF times(2)] if_not_P[OF room]]
  have "\<exists>c' rs' U'. ring_inv 12 demo_ring c' 0 ([] @ rs') U' \<and>
      messages rs' = [(CLIENT_KEEPALIVE, enc 8 (1 :: int64_t) @ enc 8 (0 :: int64_t))] \<and>
      (\<exists>t. conductorRunner (\<lambda>n. n < 1) ((blank, late_aeron), []) = Some (t, []))"
    using silent by (elim exE) (auto simp: case_prod_beta simp del: enc_numeral split: if_splits)
  then show ?thesis by auto
qed

end
