(* ===== verification/CLimits.thy ===== *)
theory CLimits
  imports Prelude
begin

text \<open>The limits of \<^verbatim>\<open>stdint.h\<close> and the error numbers of \<^verbatim>\<open>errno.h\<close> that the HdrHistogram sources use.\<close>

definition INT64_MIN :: int64_t where
  "INT64_MIN = 0x8000000000000000"

definition INT64_MAX :: int64_t where
  "INT64_MAX = 0x7FFFFFFFFFFFFFFF"

definition EINVAL :: int where
  "EINVAL = 22"

definition ENOMEM :: int where
  "ENOMEM = 12"

end
