(* ===== verification/Histogram.thy ===== *)
theory Histogram
  imports BitUtil CLimits
begin

text \<open>
  \<^verbatim>\<open>hdr_histogram.c\<close> of the HdrHistogram sources that the build unpacks: how values are mapped to
  counters, how a histogram is sized and allocated, and recording. Values are grouped in buckets
  whose width doubles, each cut into the same number of sub-buckets, so that a counter stands for a
  range of values as narrow as the asked precision demands.

  The array of counters is a list; an access outside of it is \<open>None\<close>. A shift by a negative amount or
  by more than the width is undefined in C and gives the sign or 0 here; \<open>wf_with\<close>, which
  \<^verbatim>\<open>hdr_init\<close> establishes, excludes it. \<open>conversion_ratio\<close> is a \<^verbatim>\<open>double\<close> that is never computed with
  in this file, given as its 64 bits.
\<close>

section \<open>The structure and its counters\<close>

record histogram =
  lowest_trackable_value :: int64_t
  highest_trackable_value :: int64_t
  unit_magnitude :: int32_t
  significant_figures :: int64_t
  sub_bucket_half_count_magnitude :: int32_t
  sub_bucket_half_count :: int32_t
  sub_bucket_mask :: int64_t
  sub_bucket_count :: int32_t
  bucket_count :: int32_t
  min_value :: int64_t
  max_value :: int64_t
  normalizing_index_offset :: int32_t
  conversion_ratio :: uint64_t
  counts_len :: int32_t
  total_count :: int64_t
  counts :: "int64_t list"

definition normalize_index :: "histogram \<Rightarrow> int32_t \<Rightarrow> int32_t" where
  "normalize_index h index =
     (if normalizing_index_offset h = 0 then index
      else
        let normalized_index = index - normalizing_index_offset h;
            adjustment =
              (if sint normalized_index < 0 then counts_len h
               else if sint (counts_len h) \<le> sint normalized_index then - counts_len h
               else 0)
        in normalized_index + adjustment)"

definition counts_get_direct :: "histogram \<Rightarrow> int32_t \<Rightarrow> int64_t option" where
  "counts_get_direct h index =
     (if 0 \<le> sint index \<and> nat (sint index) < length (counts h)
      then Some (counts h ! nat (sint index)) else None)"

text \<open>The function returns an \<^verbatim>\<open>int32_t\<close>, which cuts the count.\<close>

definition counts_get_normalised :: "histogram \<Rightarrow> int32_t \<Rightarrow> int32_t option" where
  "counts_get_normalised h index = map_option ucast (counts_get_direct h (normalize_index h index))"

definition counts_set_direct :: "histogram \<Rightarrow> int32_t \<Rightarrow> int64_t \<Rightarrow> histogram option" where
  "counts_set_direct h index value =
     (if 0 \<le> sint index \<and> nat (sint index) < length (counts h)
      then Some (h\<lparr>counts := (counts h)[nat (sint index) := value]\<rparr>) else None)"

definition counts_inc_normalised :: "histogram \<Rightarrow> int32_t \<Rightarrow> int64_t \<Rightarrow> histogram option" where
  "counts_inc_normalised h index value =
     (let normalised_index = normalize_index h index
      in case counts_get_direct h normalised_index of
           None \<Rightarrow> None
         | Some count \<Rightarrow>
             map_option (\<lambda>h. h\<lparr>total_count := total_count h + value\<rparr>)
               (counts_set_direct h normalised_index (count + value)))"

definition counts_set_normalised :: "histogram \<Rightarrow> int32_t \<Rightarrow> int64_t \<Rightarrow> histogram option" where
  "counts_set_normalised h index value = counts_set_direct h (normalize_index h index) value"

definition counts_set_min_max :: "histogram \<Rightarrow> int64_t \<Rightarrow> int64_t \<Rightarrow> histogram" where
  "counts_set_min_max h least greatest = h\<lparr>min_value := least, max_value := greatest\<rparr>"

definition update_min_max :: "histogram \<Rightarrow> int64_t \<Rightarrow> histogram" where
  "update_min_max h value =
     h\<lparr>min_value := (if sint value < sint (min_value h) \<and> value \<noteq> 0 then value else min_value h),
       max_value := (if sint (max_value h) < sint value then value else max_value h)\<rparr>"

section \<open>From values to indices and back\<close>

text \<open>\<^verbatim>\<open>power\<close> counts its exponent down to 0; its result is an \<^verbatim>\<open>int\<close>.\<close>

fun power_loop :: "int64_t \<Rightarrow> nat \<Rightarrow> int32_t \<Rightarrow> int32_t" where
  "power_loop base 0 result = result"
| "power_loop base (Suc exp) result = power_loop base exp (ucast (scast result * base))"

definition hdr_power :: "int64_t \<Rightarrow> int64_t \<Rightarrow> int64_t" where
  "hdr_power base exp = scast (power_loop base (unat exp) 1)"

definition clzll :: "uint64_t \<Rightarrow> int32_t" where
  "clzll value = of_nat (64 - bit_length (unat value))"

definition get_bucket_index :: "histogram \<Rightarrow> int64_t \<Rightarrow> int32_t" where
  "get_bucket_index h value =
     (let pow2ceiling = 64 - clzll (value OR sub_bucket_mask h)
      in pow2ceiling - unit_magnitude h - (sub_bucket_half_count_magnitude h + 1))"

definition get_sub_bucket_index :: "int64_t \<Rightarrow> int32_t \<Rightarrow> int32_t \<Rightarrow> int32_t" where
  "get_sub_bucket_index value bucket_index unit_mag =
     ucast (signed_drop_bit (unat (bucket_index + unit_mag)) value)"

definition counts_index :: "histogram \<Rightarrow> int32_t \<Rightarrow> int32_t \<Rightarrow> int32_t" where
  "counts_index h bucket_index sub_bucket_index =
     (let bucket_base_index = push_bit (unat (sub_bucket_half_count_magnitude h)) (bucket_index + 1);
          offset_in_bucket = sub_bucket_index - sub_bucket_half_count h
      in bucket_base_index + offset_in_bucket)"

definition counts_index_for :: "histogram \<Rightarrow> int64_t \<Rightarrow> int32_t" where
  "counts_index_for h value =
     (let bucket_index = get_bucket_index h value;
          sub_bucket_index = get_sub_bucket_index value bucket_index (unit_magnitude h)
      in counts_index h bucket_index sub_bucket_index)"

definition value_from_index :: "int32_t \<Rightarrow> int32_t \<Rightarrow> int32_t \<Rightarrow> int64_t" where
  "value_from_index bucket_index sub_bucket_index unit_mag =
     push_bit (unat (bucket_index + unit_mag)) (scast sub_bucket_index)"

definition hdr_value_at_index :: "histogram \<Rightarrow> int32_t \<Rightarrow> int64_t" where
  "hdr_value_at_index h index =
     (let bucket_index = signed_drop_bit (unat (sub_bucket_half_count_magnitude h)) index - 1;
          sub_bucket_index = (index AND (sub_bucket_half_count h - 1)) + sub_bucket_half_count h
      in if sint bucket_index < 0
         then value_from_index 0 (sub_bucket_index - sub_bucket_half_count h) (unit_magnitude h)
         else value_from_index bucket_index sub_bucket_index (unit_magnitude h))"

definition get_count_at_index :: "histogram \<Rightarrow> int32_t \<Rightarrow> int32_t \<Rightarrow> int64_t option" where
  "get_count_at_index h bucket_index sub_bucket_index =
     map_option scast (counts_get_normalised h (counts_index h bucket_index sub_bucket_index))"

definition hdr_size_of_equivalent_value_range :: "histogram \<Rightarrow> int64_t \<Rightarrow> int64_t" where
  "hdr_size_of_equivalent_value_range h value =
     (let bucket_index = get_bucket_index h value;
          sub_bucket_index = get_sub_bucket_index value bucket_index (unit_magnitude h);
          adjusted_bucket =
            (if sint (sub_bucket_count h) \<le> sint sub_bucket_index then bucket_index + 1 else bucket_index)
      in push_bit (unat (unit_magnitude h + adjusted_bucket)) 1)"

definition lowest_equivalent_value :: "histogram \<Rightarrow> int64_t \<Rightarrow> int64_t" where
  "lowest_equivalent_value h value =
     (let bucket_index = get_bucket_index h value;
          sub_bucket_index = get_sub_bucket_index value bucket_index (unit_magnitude h)
      in value_from_index bucket_index sub_bucket_index (unit_magnitude h))"

definition hdr_next_non_equivalent_value :: "histogram \<Rightarrow> int64_t \<Rightarrow> int64_t" where
  "hdr_next_non_equivalent_value h value =
     lowest_equivalent_value h value + hdr_size_of_equivalent_value_range h value"

definition highest_equivalent_value :: "histogram \<Rightarrow> int64_t \<Rightarrow> int64_t" where
  "highest_equivalent_value h value = hdr_next_non_equivalent_value h value - 1"

definition hdr_median_equivalent_value :: "histogram \<Rightarrow> int64_t \<Rightarrow> int64_t" where
  "hdr_median_equivalent_value h value =
     lowest_equivalent_value h value + signed_drop_bit 1 (hdr_size_of_equivalent_value_range h value)"

definition hdr_values_are_equivalent :: "histogram \<Rightarrow> int64_t \<Rightarrow> int64_t \<Rightarrow> bool" where
  "hdr_values_are_equivalent h a b \<longleftrightarrow> lowest_equivalent_value h a = lowest_equivalent_value h b"

definition hdr_lowest_equivalent_value :: "histogram \<Rightarrow> int64_t \<Rightarrow> int64_t" where
  "hdr_lowest_equivalent_value h value = lowest_equivalent_value h value"

definition non_zero_min :: "histogram \<Rightarrow> int64_t" where
  "non_zero_min h =
     (if INT64_MAX = min_value h then INT64_MAX else lowest_equivalent_value h (min_value h))"

definition hdr_count_at_value :: "histogram \<Rightarrow> int64_t \<Rightarrow> int64_t option" where
  "hdr_count_at_value h value = map_option scast (counts_get_normalised h (counts_index_for h value))"

definition hdr_count_at_index :: "histogram \<Rightarrow> int32_t \<Rightarrow> int64_t option" where
  "hdr_count_at_index h index = map_option scast (counts_get_normalised h index)"

definition hdr_max :: "histogram \<Rightarrow> int64_t" where
  "hdr_max h = (if max_value h = 0 then 0 else highest_equivalent_value h (max_value h))"

definition hdr_min :: "histogram \<Rightarrow> int64_t option" where
  "hdr_min h = map_option (\<lambda>c. if 0 < sint c then 0 else non_zero_min h) (hdr_count_at_index h 0)"

section \<open>Sizing and allocating\<close>

text \<open>\<open>None\<close>: the loop does not end.\<close>

partial_function (option) buckets_loop :: "int64_t \<Rightarrow> int64_t \<Rightarrow> int32_t \<Rightarrow> int32_t option" where
  "buckets_loop value smallest_untrackable_value buckets_needed =
     (if sint smallest_untrackable_value \<le> sint value
      then if sint (drop_bit 1 INT64_MAX) < sint smallest_untrackable_value then Some (buckets_needed + 1)
           else buckets_loop value (push_bit 1 smallest_untrackable_value) (buckets_needed + 1)
      else Some buckets_needed)"

definition buckets_needed_to_cover_value :: "int64_t \<Rightarrow> int32_t \<Rightarrow> int32_t \<Rightarrow> int32_t option" where
  "buckets_needed_to_cover_value value sub_buckets unit_mag =
     buckets_loop value (push_bit (unat unit_mag) (scast sub_buckets)) 1"

record hdr_histogram_bucket_config =
  cfg_lowest_trackable_value :: int64_t
  cfg_highest_trackable_value :: int64_t
  cfg_unit_magnitude :: int64_t
  cfg_significant_figures :: int64_t
  cfg_sub_bucket_half_count_magnitude :: int32_t
  cfg_sub_bucket_half_count :: int32_t
  cfg_sub_bucket_mask :: int64_t
  cfg_sub_bucket_count :: int32_t
  cfg_bucket_count :: int32_t
  cfg_counts_len :: int32_t

text \<open>
  The code takes logarithms in \<^verbatim>\<open>double\<close>. \<open>ceil_log2\<close> is exact: its only arguments are twice a power of ten
  up to \<open>10 ^ 5\<close>, whose logarithms are far from an integer. \<open>floor_log2\<close> stands for
  \<^verbatim>\<open>(int32_t) floor(log(x) / log(2))\<close> and is a parameter, because its rounding shows just below the
  larger powers of two.
\<close>

definition ceil_log2 :: "int64_t \<Rightarrow> int32_t" where
  "ceil_log2 x = of_nat (bit_length (unat (x - 1)))"

definition hdr_calculate_bucket_config ::
    "(int64_t \<Rightarrow> int32_t) \<Rightarrow> int64_t \<Rightarrow> int64_t \<Rightarrow> int32_t \<Rightarrow> (int + hdr_histogram_bucket_config) option" where
  "hdr_calculate_bucket_config floor_log2 lowest highest figures =
     (if sint lowest < 1 \<or> sint figures < 1 \<or> 5 < sint figures then Some (Inl EINVAL)
      else if sint highest < sint (lowest * 2) then Some (Inl EINVAL)
      else
        let largest_value_with_single_unit_resolution = 2 * hdr_power 10 (scast figures);
            sub_bucket_count_magnitude = ceil_log2 largest_value_with_single_unit_resolution;
            half_count_magnitude =
              (if 1 < sint sub_bucket_count_magnitude then sub_bucket_count_magnitude else 1) - 1;
            unit_mag = scast (floor_log2 lowest) :: int64_t;
            sub_buckets = push_bit (unat (half_count_magnitude + 1)) 1 :: int32_t
        in map_option
             (\<lambda>buckets. Inr
                \<lparr>cfg_lowest_trackable_value = lowest,
                 cfg_highest_trackable_value = highest,
                 cfg_unit_magnitude = unit_mag,
                 cfg_significant_figures = scast figures,
                 cfg_sub_bucket_half_count_magnitude = half_count_magnitude,
                 cfg_sub_bucket_half_count = word_of_int (sint sub_buckets sdiv 2),
                 cfg_sub_bucket_mask = push_bit (unat unit_mag) (scast sub_buckets - 1),
                 cfg_sub_bucket_count = sub_buckets,
                 cfg_bucket_count = buckets,
                 cfg_counts_len = (buckets + 1) * word_of_int (sint sub_buckets sdiv 2)\<rparr>)
             (buckets_needed_to_cover_value highest sub_buckets (ucast unit_mag)))"

definition ONE_BITS :: uint64_t where
  "ONE_BITS = 0x3FF0000000000000"

definition hdr_init_preallocated :: "histogram \<Rightarrow> hdr_histogram_bucket_config \<Rightarrow> histogram" where
  "hdr_init_preallocated h cfg =
     h\<lparr>lowest_trackable_value := cfg_lowest_trackable_value cfg,
       highest_trackable_value := cfg_highest_trackable_value cfg,
       unit_magnitude := ucast (cfg_unit_magnitude cfg),
       significant_figures := cfg_significant_figures cfg,
       sub_bucket_half_count_magnitude := cfg_sub_bucket_half_count_magnitude cfg,
       sub_bucket_half_count := cfg_sub_bucket_half_count cfg,
       sub_bucket_mask := cfg_sub_bucket_mask cfg,
       sub_bucket_count := cfg_sub_bucket_count cfg,
       bucket_count := cfg_bucket_count cfg,
       min_value := INT64_MAX,
       max_value := 0,
       normalizing_index_offset := 0,
       conversion_ratio := ONE_BITS,
       counts_len := cfg_counts_len cfg,
       total_count := 0\<rparr>"

text \<open>The allocation, as \<^verbatim>\<open>memset\<close> leaves it, has room for so many counters.\<close>

definition zeroed :: "nat \<Rightarrow> histogram" where
  "zeroed n =
     \<lparr>lowest_trackable_value = 0, highest_trackable_value = 0, unit_magnitude = 0,
      significant_figures = 0, sub_bucket_half_count_magnitude = 0, sub_bucket_half_count = 0,
      sub_bucket_mask = 0, sub_bucket_count = 0, bucket_count = 0, min_value = 0, max_value = 0,
      normalizing_index_offset = 0, conversion_ratio = 0, counts_len = 0, total_count = 0,
      counts = replicate n 0\<rparr>"

definition hdr_init ::
    "(int64_t \<Rightarrow> int32_t) \<Rightarrow> int64_t \<Rightarrow> int64_t \<Rightarrow> int32_t \<Rightarrow> bool \<Rightarrow> (int + histogram) option" where
  "hdr_init floor_log2 lowest highest figures allocated =
     (case hdr_calculate_bucket_config floor_log2 lowest highest figures of
        None \<Rightarrow> None
      | Some (Inl r) \<Rightarrow> Some (Inl r)
      | Some (Inr cfg) \<Rightarrow>
          if \<not> allocated then Some (Inl ENOMEM)
          else Some (Inr (hdr_init_preallocated (zeroed (nat (sint (cfg_counts_len cfg)))) cfg)))"

definition hdr_alloc ::
    "(int64_t \<Rightarrow> int32_t) \<Rightarrow> int64_t \<Rightarrow> int32_t \<Rightarrow> bool \<Rightarrow> (int + histogram) option" where
  "hdr_alloc floor_log2 highest figures allocated = hdr_init floor_log2 1 highest figures allocated"

definition hdr_reset :: "histogram \<Rightarrow> histogram" where
  "hdr_reset h =
     h\<lparr>total_count := 0, min_value := INT64_MAX, max_value := 0,
       counts := replicate (nat (sint (counts_len h))) 0 @ drop (nat (sint (counts_len h))) (counts h)\<rparr>"

definition hdr_get_memory_size :: "histogram \<Rightarrow> nat" where
  "hdr_get_memory_size h = 104 + nat (sint (counts_len h)) * 8"

section \<open>Recording\<close>

definition hdr_record_values :: "histogram \<Rightarrow> int64_t \<Rightarrow> int64_t \<Rightarrow> (bool \<times> histogram) option" where
  "hdr_record_values h value count =
     (if sint value < 0 then Some (False, h)
      else
        let index = counts_index_for h value
        in if sint index < 0 \<or> sint (counts_len h) \<le> sint index then Some (False, h)
           else map_option (\<lambda>h. (True, update_min_max h value)) (counts_inc_normalised h index count))"

definition hdr_record_value :: "histogram \<Rightarrow> int64_t \<Rightarrow> (bool \<times> histogram) option" where
  "hdr_record_value h value = hdr_record_values h value 1"

text \<open>The loop that fills in the values that a stalled recorder missed.\<close>

partial_function (option) corrected_loop ::
    "histogram \<Rightarrow> int64_t \<Rightarrow> int64_t \<Rightarrow> int64_t \<Rightarrow> (bool \<times> histogram) option" where
  "corrected_loop h missing_value count expected_interval =
     (if sint expected_interval \<le> sint missing_value
      then case hdr_record_values h missing_value count of
             None \<Rightarrow> None
           | Some (recorded, h) \<Rightarrow>
               if recorded then corrected_loop h (missing_value - expected_interval) count expected_interval
               else Some (False, h)
      else Some (True, h))"

definition hdr_record_corrected_values ::
    "histogram \<Rightarrow> int64_t \<Rightarrow> int64_t \<Rightarrow> int64_t \<Rightarrow> (bool \<times> histogram) option" where
  "hdr_record_corrected_values h value count expected_interval =
     (case hdr_record_values h value count of
        None \<Rightarrow> None
      | Some (recorded, h) \<Rightarrow>
          if \<not> recorded then Some (False, h)
          else if sint expected_interval \<le> 0 \<or> sint value \<le> sint expected_interval then Some (True, h)
          else corrected_loop h (value - expected_interval) count expected_interval)"

definition hdr_record_corrected_value :: "histogram \<Rightarrow> int64_t \<Rightarrow> int64_t \<Rightarrow> (bool \<times> histogram) option" where
  "hdr_record_corrected_value h value expected_interval = hdr_record_corrected_values h value 1 expected_interval"

section \<open>Counting again, and shifting\<close>

record counters_seen =
  min_non_zero_index :: int
  max_index :: int
  observed_total_count :: int64_t

definition observe :: "histogram \<Rightarrow> int32_t \<Rightarrow> counters_seen \<Rightarrow> counters_seen option" where
  "observe h i seen =
     map_option (\<lambda>count_at_index.
       if 0 < sint count_at_index
       then seen\<lparr>observed_total_count := observed_total_count seen + count_at_index,
                 max_index := sint i,
                 min_non_zero_index :=
                   (if min_non_zero_index seen = -1 \<and> i \<noteq> 0 then sint i else min_non_zero_index seen)\<rparr>
       else seen) (counts_get_direct h i)"

fun observe_all :: "histogram \<Rightarrow> nat list \<Rightarrow> counters_seen \<Rightarrow> counters_seen option" where
  "observe_all h [] seen = Some seen"
| "observe_all h (i # is) seen = (case observe h (of_nat i) seen of None \<Rightarrow> None | Some seen \<Rightarrow> observe_all h is seen)"

definition hdr_reset_internal_counters :: "histogram \<Rightarrow> histogram option" where
  "hdr_reset_internal_counters h =
     map_option (\<lambda>seen.
       let h = h\<lparr>max_value :=
                  (if max_index seen = -1 then 0
                   else highest_equivalent_value h (hdr_value_at_index h (word_of_int (max_index seen))))\<rparr>;
           h = h\<lparr>min_value :=
                  (if min_non_zero_index seen = -1 then INT64_MAX
                   else hdr_value_at_index h (word_of_int (min_non_zero_index seen)))\<rparr>
       in h\<lparr>total_count := observed_total_count seen\<rparr>)
     (observe_all h [0..<nat (sint (counts_len h))]
        \<lparr>min_non_zero_index = -1, max_index = -1, observed_total_count = 0\<rparr>)"

definition shift_one_left :: "int32_t \<Rightarrow> int32_t \<Rightarrow> histogram \<Rightarrow> histogram option" where
  "shift_one_left binary_orders_of_magnitude from_index h =
     (let to_value = push_bit (unat binary_orders_of_magnitude) (hdr_value_at_index h from_index);
          to_index = counts_index_for h to_value
      in case counts_get_direct h from_index of
           None \<Rightarrow> None
         | Some count_at_from_index \<Rightarrow>
             (case counts_set_normalised h to_index count_at_from_index of
                None \<Rightarrow> None
              | Some h \<Rightarrow> counts_set_direct h from_index 0))"

fun shift_all_left :: "int32_t \<Rightarrow> nat list \<Rightarrow> histogram \<Rightarrow> histogram option" where
  "shift_all_left orders [] h = Some h"
| "shift_all_left orders (i # is) h =
     (case shift_one_left orders (of_nat i) h of None \<Rightarrow> None | Some h \<Rightarrow> shift_all_left orders is h)"

definition shift_lowest_half_bucket_contents_left :: "histogram \<Rightarrow> int32_t \<Rightarrow> histogram option" where
  "shift_lowest_half_bucket_contents_left h shift_amount =
     shift_all_left (signed_drop_bit (unat (sub_bucket_half_count_magnitude h)) shift_amount)
       [1..<nat (sint (sub_bucket_half_count h))] h"

definition shift_normalizing_index_by_offset :: "histogram \<Rightarrow> int32_t \<Rightarrow> bool \<Rightarrow> histogram option" where
  "shift_normalizing_index_by_offset h shift_amount populated =
     (case hdr_count_at_index h 0 of
        None \<Rightarrow> None
      | Some zero_value_count \<Rightarrow>
          (case counts_set_normalised h 0 0 of
             None \<Rightarrow> None
           | Some h \<Rightarrow>
               let h = h\<lparr>normalizing_index_offset := normalizing_index_offset h + shift_amount\<rparr>
               in case (if populated then shift_lowest_half_bucket_contents_left h shift_amount else Some h) of
                    None \<Rightarrow> None
                  | Some h \<Rightarrow> counts_set_normalised h 0 zero_value_count))"

definition hdr_shift_values_left :: "histogram \<Rightarrow> int32_t \<Rightarrow> (bool \<times> histogram) option" where
  "hdr_shift_values_left h orders =
     (if sint orders < 0 then Some (False, h)
      else if orders = 0 then Some (True, h)
      else
        case hdr_count_at_index h 0 of
          None \<Rightarrow> None
        | Some zero_count \<Rightarrow>
            if total_count h = zero_count then Some (True, h)
            else
              let shift_amount = push_bit (unat (sub_bucket_half_count_magnitude h)) orders;
                  max_value_index = counts_index_for h (hdr_max h)
              in if sint (counts_len h - shift_amount) \<le> sint max_value_index then Some (False, h)
                 else
                   let max_before_shift = max_value h;
                       min_before_shift = min_value h;
                       h = counts_set_min_max h INT64_MAX 0;
                       populated = (sint min_before_shift < sint (sub_bucket_half_count h))
                   in map_option
                        (\<lambda>h. let h = update_min_max h (push_bit (unat orders) max_before_shift)
                             in (True,
                                 if sint min_before_shift < sint INT64_MAX
                                 then update_min_max h (push_bit (unat orders) min_before_shift) else h))
                        (shift_normalizing_index_by_offset h shift_amount populated))"

definition hdr_shift_values_right :: "histogram \<Rightarrow> int32_t \<Rightarrow> (bool \<times> histogram) option" where
  "hdr_shift_values_right h orders =
     (if sint orders < 0 then Some (False, h)
      else if orders = 0 then Some (True, h)
      else
        case hdr_count_at_index h 0 of
          None \<Rightarrow> None
        | Some zero_count \<Rightarrow>
            if total_count h = zero_count then Some (True, h)
            else
              let shift_amount = sub_bucket_half_count h * orders;
                  min_value_index = counts_index_for h (non_zero_min h)
              in if sint min_value_index < sint (shift_amount + sub_bucket_half_count h) then Some (False, h)
                 else
                   let max_before_shift = max_value h;
                       min_before_shift = min_value h;
                       h = counts_set_min_max h INT64_MAX 0
                   in map_option
                        (\<lambda>h. let h = update_min_max h (signed_drop_bit (unat orders) max_before_shift)
                             in (True,
                                 if sint min_before_shift < sint INT64_MAX
                                 then update_min_max h (signed_drop_bit (unat orders) min_before_shift) else h))
                        (shift_normalizing_index_by_offset h (- shift_amount) False))"

end
