(* ===== verification/HistogramIndex.thy ===== *)
theory HistogramIndex
  imports Histogram AtomicBuffer
begin

text \<open>
  The arithmetic of the histogram over the naturals, and that the 32- and 64-bit code computes it.
  A histogram of shape \<open>(u, m, B)\<close> has units of \<open>2 ^ u\<close>, \<open>2 ^ m\<close> sub-buckets in half a bucket and
  \<open>B\<close> buckets; \<open>bkt\<close>, \<open>sub\<close> and \<open>idx\<close> are the bucket, the sub-bucket and the counter of a value, and the
  values of a counter are the \<open>wid\<close> many from \<open>low\<close> on.
\<close>

section \<open>Over the naturals\<close>

definition bkt :: "nat \<Rightarrow> nat \<Rightarrow> nat \<Rightarrow> nat" where
  "bkt u m n = bit_length n - (u + m + 1)"

definition wid :: "nat \<Rightarrow> nat \<Rightarrow> nat \<Rightarrow> nat" where
  "wid u m n = 2 ^ (bkt u m n + u)"

definition sub :: "nat \<Rightarrow> nat \<Rightarrow> nat \<Rightarrow> nat" where
  "sub u m n = n div wid u m n"

definition idx :: "nat \<Rightarrow> nat \<Rightarrow> nat \<Rightarrow> nat" where
  "idx u m n = bkt u m n * 2 ^ m + sub u m n"

definition low :: "nat \<Rightarrow> nat \<Rightarrow> nat \<Rightarrow> nat" where
  "low u m n = sub u m n * wid u m n"

text \<open>The bucket and the sub-bucket of a counter.\<close>

definition bkt_of :: "nat \<Rightarrow> nat \<Rightarrow> nat" where
  "bkt_of m i = i div 2 ^ m - 1"

definition sub_of :: "nat \<Rightarrow> nat \<Rightarrow> nat" where
  "sub_of m i = (if i < 2 ^ m then i else i mod 2 ^ m + 2 ^ m)"

definition val_at :: "nat \<Rightarrow> nat \<Rightarrow> nat \<Rightarrow> nat" where
  "val_at u m i = sub_of m i * 2 ^ (bkt_of m i + u)"

lemma bit_length_le_iff: "bit_length n \<le> k \<longleftrightarrow> n < 2 ^ k"
proof
  assume k: "bit_length n \<le> k"
  show "n < 2 ^ k"
  proof (cases "n = 0")
    case False
    then have "n < 2 ^ bit_length n" using bit_length_bounds by simp
    also have "\<dots> \<le> 2 ^ k" using k by (intro power_increasing) auto
    finally show ?thesis .
  qed simp
qed (rule bit_length_le)

lemma bit_length_eqI: "2 ^ k \<le> n \<Longrightarrow> n < 2 ^ Suc k \<Longrightarrow> bit_length n = Suc k"
  using bit_length_le_iff[of n k] bit_length_le_iff[of n "Suc k"] by linarith

lemma bkt_bounds:
  "n < 2 ^ (bkt u m n + u + m + 1)"
  "0 < bkt u m n \<Longrightarrow> 2 ^ (bkt u m n + u + m) \<le> n"
proof -
  show "n < 2 ^ (bkt u m n + u + m + 1)" unfolding bit_length_le_iff[symmetric] bkt_def by linarith
  show "2 ^ (bkt u m n + u + m) \<le> n" if "0 < bkt u m n"
  proof (rule ccontr)
    assume "\<not> 2 ^ (bkt u m n + u + m) \<le> n"
    then have "bit_length n \<le> bkt u m n + u + m" by (simp add: bit_length_le_iff)
    with that show False by (simp add: bkt_def)
  qed
qed

lemma bkt_eqI:
  assumes "n < 2 ^ (b + u + m + 1)" "0 < b \<Longrightarrow> 2 ^ (b + u + m) \<le> n"
  shows "bkt u m n = b"
proof (cases b)
  case 0
  then have "bit_length n \<le> u + m + 1" using assms(1) by (simp add: bit_length_le_iff)
  then show ?thesis by (simp add: bkt_def 0)
next
  case (Suc k)
  then have "bit_length n = Suc (b + u + m)" using assms by (intro bit_length_eqI) auto
  then show ?thesis by (simp add: bkt_def)
qed

lemma sub_bounds:
  "sub u m n < 2 ^ (m + 1)"
  "0 < bkt u m n \<Longrightarrow> 2 ^ m \<le> sub u m n"
proof -
  have "n < 2 ^ (m + 1) * wid u m n"
    using bkt_bounds(1)[of n u m] by (simp add: wid_def power_add algebra_simps)
  then show "sub u m n < 2 ^ (m + 1)" by (simp add: sub_def wid_def less_mult_imp_div_less)
  show "2 ^ m \<le> sub u m n" if "0 < bkt u m n"
  proof -
    have "2 ^ m * wid u m n \<le> n"
      using bkt_bounds(2)[OF that] by (simp add: wid_def power_add algebra_simps)
    then show ?thesis by (simp add: sub_def wid_def less_eq_div_iff_mult_less_eq)
  qed
qed

lemma low_le: "low u m n \<le> n"
  and less_low_wid: "n < low u m n + wid u m n"
proof -
  have w: "0 < wid u m n" by (simp add: wid_def)
  show "low u m n \<le> n" unfolding low_def sub_def by (rule div_times_less_eq_dividend)
  show "n < low u m n + wid u m n"
    unfolding low_def sub_def using dividend_less_div_times[OF w, of n] by simp
qed

lemma decode:
  assumes "s < 2 ^ (m + 1)" "0 < b \<Longrightarrow> 2 ^ m \<le> s"
  shows "bkt_of m (b * 2 ^ m + s) = b" "sub_of m (b * 2 ^ m + s) = s"
proof -
  have "bkt_of m (b * 2 ^ m + s) = b \<and> sub_of m (b * 2 ^ m + s) = s"
  proof (cases "s < 2 ^ m")
    case True
    then have "b = 0" using assms(2) by (cases b) auto
    then show ?thesis using True by (simp add: bkt_of_def sub_of_def)
  next
    case False
    then obtain t where t: "s = 2 ^ m + t" by (metis le_add_diff_inverse not_less)
    then have "t < 2 ^ m" using assms(1) by simp
    then have "(Suc b * 2 ^ m + t) div 2 ^ m = Suc b" "(Suc b * 2 ^ m + t) mod 2 ^ m = t"
      by (simp_all only: div_mult_self3[of "2 ^ m" "Suc b" t] mod_mult_self3 div_less mod_less
          power_not_zero zero_neq_numeral[symmetric] not_False_eq_True add_0_right)
    moreover have "\<not> Suc b * 2 ^ m + t < 2 ^ m" by simp
    ultimately have "bkt_of m (Suc b * 2 ^ m + t) = b" "sub_of m (Suc b * 2 ^ m + t) = s"
      unfolding bkt_of_def sub_of_def t by (simp_all only: if_False diff_Suc_1 add.commute)
    moreover have "b * 2 ^ m + s = Suc b * 2 ^ m + t" using t by simp
    ultimately show ?thesis by (simp only:)
  qed
  then show "bkt_of m (b * 2 ^ m + s) = b" "sub_of m (b * 2 ^ m + s) = s" by simp_all
qed

lemma decode_idx:
  "bkt_of m (idx u m n) = bkt u m n" "sub_of m (idx u m n) = sub u m n"
  unfolding idx_def using sub_bounds by (intro decode; blast)+

lemma val_at_idx: "val_at u m (idx u m n) = low u m n"
  by (simp add: val_at_def decode_idx low_def wid_def)

lemma same_bucket:
  assumes "low u m n \<le> k" "k < low u m n + wid u m n"
  shows "bkt u m k = bkt u m n" "sub u m k = sub u m n"
proof -
  let ?b = "bkt u m n" and ?s = "sub u m n"
  have "k < (?s + 1) * wid u m n" using assms(2) by (simp add: low_def)
  also have "\<dots> \<le> 2 ^ (m + 1) * wid u m n" using sub_bounds(1)[of u m n] by (intro mult_le_mono1) simp
  finally have up: "k < 2 ^ (?b + u + m + 1)" by (simp add: wid_def power_add algebra_simps)
  have lo: "2 ^ (?b + u + m) \<le> k" if "0 < ?b"
  proof -
    have "2 ^ (?b + u + m) = 2 ^ m * wid u m n" by (simp add: wid_def power_add algebra_simps)
    also have "\<dots> \<le> low u m n" unfolding low_def using sub_bounds(2)[OF that] by simp
    finally show ?thesis using assms(1) by simp
  qed
  show b: "bkt u m k = ?b" by (rule bkt_eqI[OF up lo])
  show "sub u m k = ?s"
    unfolding sub_def[of u m k] using assms
    by (intro div_nat_eqI) (simp_all add: low_def wid_def b mult.commute add.commute)
qed

theorem idx_eq_iff: "idx u m n = idx u m k \<longleftrightarrow> low u m n \<le> k \<and> k < low u m n + wid u m n"
proof
  assume "idx u m n = idx u m k"
  then have "bkt u m n = bkt u m k" "sub u m n = sub u m k"
    using decode_idx by metis+
  then show "low u m n \<le> k \<and> k < low u m n + wid u m n"
    using low_le[of u m k] less_low_wid[of k u m] by (simp add: low_def wid_def)
next
  assume "low u m n \<le> k \<and> k < low u m n + wid u m n"
  then show "idx u m n = idx u m k" using same_bucket[of u m n k] by (simp add: idx_def)
qed

lemma low_eq_iff: "low u m n = low u m k \<longleftrightarrow> idx u m n = idx u m k"
proof
  assume "idx u m n = idx u m k"
  then show "low u m n = low u m k" by (metis val_at_idx)
next
  assume "low u m n = low u m k"
  then have "low u m n \<le> low u m k" "low u m k < low u m n + wid u m n" by (simp_all add: wid_def)
  then have "idx u m n = idx u m (low u m k)" by (simp add: idx_eq_iff)
  moreover have "idx u m k = idx u m (low u m k)" by (simp add: idx_eq_iff wid_def)
  ultimately show "idx u m n = idx u m k" by simp
qed

text \<open>The width of a counter's range is one unit, or at most the share of the value that the shape asks.\<close>

lemma wid_precise: "wid u m n = 2 ^ u \<or> wid u m n * 2 ^ m \<le> n"
proof (cases "bkt u m n = 0")
  case False
  then have "2 ^ (bkt u m n + u + m) \<le> n" by (intro bkt_bounds(2)) simp
  then show ?thesis by (simp add: wid_def power_add algebra_simps)
qed (simp add: wid_def)

lemma idx_less:
  assumes "n < 2 ^ (u + m + B)" "0 < B"
  shows "idx u m n < (B + 1) * 2 ^ m" "bkt u m n < B"
proof -
  have "bit_length n \<le> u + m + B" using assms(1) by (simp add: bit_length_le_iff)
  then show b: "bkt u m n < B" using assms(2) by (simp add: bkt_def)
  have "idx u m n < bkt u m n * 2 ^ m + 2 ^ (m + 1)"
    using sub_bounds(1)[of u m n] by (simp add: idx_def)
  also have "\<dots> = (bkt u m n + 2) * 2 ^ m" by (simp add: algebra_simps)
  also have "\<dots> \<le> (B + 1) * 2 ^ m" using b by (intro mult_le_mono1) simp
  finally show "idx u m n < (B + 1) * 2 ^ m" .
qed

lemma less_idx:
  assumes "idx u m n < (B + 1) * 2 ^ m" "0 < B"
  shows "n < 2 ^ (u + m + B)"
proof (rule ccontr)
  assume "\<not> n < 2 ^ (u + m + B)"
  then have "\<not> bit_length n \<le> u + m + B" by (simp add: bit_length_le_iff)
  then have b: "B \<le> bkt u m n" by (simp add: bkt_def)
  then have "(B + 1) * 2 ^ m \<le> bkt u m n * 2 ^ m + 2 ^ m" by (simp add: algebra_simps)
  also have "\<dots> \<le> idx u m n" unfolding idx_def using sub_bounds(2)[of u m n] b assms(2) by simp
  finally show False using assms(1) by simp
qed

lemma idx_val_at: "idx u m (val_at u m i) = i"
proof -
  have s: "sub_of m i < 2 ^ (m + 1)" "0 < bkt_of m i \<Longrightarrow> 2 ^ m \<le> sub_of m i"
    by (auto simp: sub_of_def bkt_of_def)
  have "val_at u m i < 2 ^ (m + 1) * 2 ^ (bkt_of m i + u)"
    unfolding val_at_def using s(1) by (intro mult_strict_right_mono) simp_all
  then have b: "bkt u m (val_at u m i) = bkt_of m i"
    using s(2) by (intro bkt_eqI) (auto simp: val_at_def power_add algebra_simps)
  have "sub u m (val_at u m i) = sub_of m i"
    by (simp add: sub_def wid_def b) (simp add: val_at_def)
  moreover have "bkt_of m i * 2 ^ m + sub_of m i = i"
  proof (cases "i < 2 ^ m")
    case False
    then have "0 < i div 2 ^ m" by (simp add: div_greater_zero_iff)
    then obtain k where "i div 2 ^ m = Suc k" by (cases "i div 2 ^ m") auto
    then show ?thesis
      using False div_mult_mod_eq[of i "2 ^ m"] by (simp add: bkt_of_def sub_of_def)
  qed (simp add: bkt_of_def sub_of_def)
  ultimately show ?thesis by (simp add: idx_def b)
qed

section \<open>Words that hold naturals\<close>

named_theorems nat_words "operations on words that hold small naturals"

lemma unat_of_nat32: "n < 2 ^ 32 \<Longrightarrow> unat (of_nat n :: int32_t) = n"
  and unat_of_nat64: "n < 2 ^ 64 \<Longrightarrow> unat (of_nat n :: int64_t) = n"
  by (simp_all add: unat_of_nat_small)

lemma ucast_nat32 [nat_words]: "n < 2 ^ 32 \<Longrightarrow> (ucast (of_nat n :: int64_t) :: int32_t) = of_nat n"
  by (rule word_unat_eq_iff[THEN iffD2]) (simp add: unat_of_nat unsigned_ucast_eq take_bit_eq_mod)

lemmas [nat_words] = scast_of_nat

lemma push_nat [nat_words]: "push_bit k (of_nat n :: 'a::len word) = of_nat (n * 2 ^ k)"
  by (simp add: push_bit_eq_mult)

lemma drop_nat64 [nat_words]:
  assumes "n < 2 ^ 63"
  shows "signed_drop_bit k (of_nat n :: int64_t) = of_nat (n div 2 ^ k)"
proof -
  have "sint (signed_drop_bit k (of_nat n :: int64_t)) = int (n div 2 ^ k)"
    using assms by (simp only: sint_signed_drop_bit_eq sint_of_nat64 drop_bit_eq_div zdiv_int of_nat_power of_nat_numeral)
  moreover have "n div 2 ^ k < 2 ^ 63" using assms div_le_dividend[of n "2 ^ k"] by linarith
  ultimately show ?thesis by (metis sint_of_nat64 signed_word_eqI)
qed

lemma drop_nat32 [nat_words]:
  assumes "n < 2 ^ 31"
  shows "signed_drop_bit k (of_nat n :: int32_t) = of_nat (n div 2 ^ k)"
proof -
  have "sint (signed_drop_bit k (of_nat n :: int32_t)) = int (n div 2 ^ k)"
    using assms by (simp only: sint_signed_drop_bit_eq sint_of_nat32 drop_bit_eq_div zdiv_int of_nat_power of_nat_numeral)
  moreover have "n div 2 ^ k < 2 ^ 31" using assms div_le_dividend[of n "2 ^ k"] by linarith
  ultimately show ?thesis by (metis sint_of_nat32 signed_word_eqI)
qed

lemma bit_length_or: "bit_length (unat (a OR b :: 'a::len word)) = max (bit_length (unat a)) (bit_length (unat b))"
proof -
  have "unat (a OR b) < 2 ^ k \<longleftrightarrow> unat a < 2 ^ k \<and> unat b < 2 ^ k" for k
  proof
    assume o: "unat (a OR b) < 2 ^ k"
    have "uint a \<le> uint (a OR b)" "uint b \<le> uint (a OR b)"
      using or_greater_eq[of "uint b" "uint a"] or_greater_eq[of "uint a" "uint b"]
      by (simp_all add: unsigned_or_eq or.commute)
    then have "unat a \<le> unat (a OR b)" "unat b \<le> unat (a OR b)" by (simp_all add: word_le_def word_le_nat_alt[symmetric])
    with o show "unat a < 2 ^ k \<and> unat b < 2 ^ k" by linarith
  next
    assume "unat a < 2 ^ k \<and> unat b < 2 ^ k"
    then have "take_bit k (unat a) = unat a" "take_bit k (unat b) = unat b"
      by (simp_all add: take_bit_nat_eq_self_iff)
    then have "take_bit k (unat (a OR b)) = unat (a OR b)" by (simp add: unsigned_or_eq)
    then show "unat (a OR b) < 2 ^ k" by (simp add: take_bit_nat_eq_self_iff)
  qed
  then have "bit_length (unat (a OR b)) \<le> k \<longleftrightarrow> max (bit_length (unat a)) (bit_length (unat b)) \<le> k" for k
    by (simp add: bit_length_le_iff)
  then show ?thesis by (meson le_antisym order_refl)
qed

section \<open>The shape of a histogram\<close>

definition shaped :: "nat \<Rightarrow> nat \<Rightarrow> nat \<Rightarrow> histogram \<Rightarrow> bool" where
  "shaped u m B h \<longleftrightarrow>
     unit_magnitude h = of_nat u \<and> sub_bucket_half_count_magnitude h = of_nat m \<and>
     sub_bucket_half_count h = of_nat (2 ^ m) \<and> sub_bucket_count h = of_nat (2 ^ (m + 1)) \<and>
     sub_bucket_mask h = of_nat ((2 ^ (m + 1) - 1) * 2 ^ u) \<and>
     bucket_count h = of_nat B \<and> counts_len h = of_nat ((B + 1) * 2 ^ m) \<and>
     length (counts h) = (B + 1) * 2 ^ m \<and> \<bar>sint (normalizing_index_offset h)\<bar> < int ((B + 1) * 2 ^ m) \<and>
     0 < B \<and> m \<le> 17 \<and> u + m + B \<le> 63"

lemma shaped_bounds:
  assumes "shaped u m B h"
  shows "(2::nat) ^ m \<le> 2 ^ 17" "(B + 1) * 2 ^ m \<le> 2 ^ 23" "u < 63" "m \<le> 17" "B \<le> 63" "0 < B" "u + m + B \<le> 63"
proof -
  have sh: "m \<le> 17" "u + m + B \<le> 63" "0 < B" using assms by (simp_all add: shaped_def)
  show p: "(2::nat) ^ m \<le> 2 ^ 17" using sh(1) by (intro power_increasing) auto
  have "(B + 1) * 2 ^ m \<le> 64 * 2 ^ 17" using p sh by (intro mult_le_mono) auto
  then show "(B + 1) * 2 ^ m \<le> 2 ^ 23" by simp
qed (use assms in \<open>auto simp: shaped_def\<close>)

lemma get_bucket_index_nat [nat_words]:
  assumes "shaped u m B h" "n < 2 ^ 63"
  shows "get_bucket_index h (of_nat n) = of_nat (bkt u m n)"
proof -
  note b = shaped_bounds[OF assms(1)]
  let ?mask = "(2 ^ (m + 1) - 1) * 2 ^ u :: nat"
  have mask: "2 ^ (u + m) \<le> ?mask" "?mask < 2 ^ Suc (u + m)" "(2::nat) ^ Suc (u + m) \<le> 2 ^ 63"
  proof -
    have "(2::nat) ^ m \<le> 2 ^ (m + 1) - 1" "(2::nat) ^ (m + 1) - 1 < 2 ^ (m + 1)" by simp_all
    then have "2 ^ m * 2 ^ u \<le> ?mask" "?mask < 2 ^ (m + 1) * 2 ^ u" by (intro mult_le_mono1) simp_all
    then show "2 ^ (u + m) \<le> ?mask" "?mask < 2 ^ Suc (u + m)" by (simp_all add: power_add algebra_simps)
    show "(2::nat) ^ Suc (u + m) \<le> 2 ^ 63" using b by (intro power_increasing) auto
  qed
  have "(2::nat) ^ 63 < 2 ^ 64" by simp
  with less_le_trans[OF mask(2,3)] have "unat (of_nat ?mask :: int64_t) = ?mask"
    by (rule unat_of_nat64[OF less_trans])
  moreover have "unat (of_nat n :: int64_t) = n" using assms(2) by (intro unat_of_nat64) simp
  ultimately have bl: "bit_length (unat (of_nat n OR of_nat ?mask :: int64_t)) = max (bit_length n) (Suc (u + m))"
    using bit_length_eqI[OF mask(1,2)] by (simp only: bit_length_or)
  define L where "L = max (bit_length n) (Suc (u + m))"
  have L: "L \<le> 64" "u + (m + 1) \<le> L" "bkt u m n = L - (u + (m + 1))"
  proof -
    have "bit_length n \<le> 63" using assms(2) by (rule bit_length_le)
    then show "L \<le> 64" using b(7,6) by (simp add: L_def)
    show "u + (m + 1) \<le> L" by (simp add: L_def)
    show "bkt u m n = L - (u + (m + 1))" by (auto simp: L_def bkt_def)
  qed
  have "64 - clzll (of_nat n OR sub_bucket_mask h) = of_nat L"
    using assms(1) bl L(1) by (simp add: clzll_def shaped_def L_def[symmetric] of_nat_diff)
  then show ?thesis
    using assms(1) L(2) unfolding L(3) get_bucket_index_def Let_def
    by (simp add: shaped_def of_nat_diff diff_diff_eq)
qed

lemma bkt_small: "n < 2 ^ 63 \<Longrightarrow> bkt u m n + u + m \<le> 62 \<or> bkt u m n = 0"
proof -
  assume "n < 2 ^ 63"
  then have "bit_length n \<le> 63" by (rule bit_length_le)
  then show ?thesis by (auto simp: bkt_def)
qed

lemma shift_count [nat_words]:
  assumes "shaped u m B h" "n < 2 ^ 63"
  shows "unat (of_nat (bkt u m n) + unit_magnitude h) = bkt u m n + u"
    "unat (unit_magnitude h + of_nat (bkt u m n)) = bkt u m n + u"
    "bkt u m n + u \<le> 62"
proof -
  show le: "bkt u m n + u \<le> 62" using bkt_small[OF assms(2), of u m] shaped_bounds[OF assms(1)] by linarith
  then have less: "bkt u m n + u < 2 ^ 32" by simp
  have "of_nat (bkt u m n) + unit_magnitude h = of_nat (bkt u m n + u)"
    using assms(1) by (simp add: shaped_def)
  then show "unat (of_nat (bkt u m n) + unit_magnitude h) = bkt u m n + u"
    using unat_of_nat32[OF less] by (simp only:)
  then show "unat (unit_magnitude h + of_nat (bkt u m n)) = bkt u m n + u" by (simp add: add.commute)
qed

lemma sub_small: "shaped u m B h \<Longrightarrow> sub u m n < 2 ^ 18"
proof -
  assume "shaped u m B h"
  then have "m + 1 \<le> 18" by (simp add: shaped_def)
  then have "(2::nat) ^ (m + 1) \<le> 2 ^ 18" by (rule power_increasing) simp
  then show ?thesis using sub_bounds(1)[of u m n] by linarith
qed

lemma get_sub_bucket_index_nat [nat_words]:
  assumes "shaped u m B h" "n < 2 ^ 63"
  shows "get_sub_bucket_index (of_nat n) (of_nat (bkt u m n)) (unit_magnitude h) = of_nat (sub u m n)"
proof -
  have "n div 2 ^ (bkt u m n + u) = sub u m n" by (simp add: sub_def wid_def)
  moreover have "sub u m n < 2 ^ 32" using sub_small[OF assms(1), of n] by simp
  ultimately show ?thesis
    unfolding get_sub_bucket_index_def shift_count(1)[OF assms] drop_nat64[OF assms(2)]
    by (simp add: ucast_nat32)
qed

lemma counts_index_nat [nat_words]:
  assumes "shaped u m B h"
  shows "counts_index h (of_nat b) (of_nat s) = of_nat (b * 2 ^ m + s)"
proof -
  have sh: "sub_bucket_half_count_magnitude h = of_nat m" "sub_bucket_half_count h = of_nat (2 ^ m)" "m \<le> 17"
    using assms by (simp_all add: shaped_def)
  have "unat (of_nat m :: int32_t) = m" using sh(3) by (intro unat_of_nat32) simp
  then show ?thesis
    by (simp add: counts_index_def sh(1,2) push_bit_eq_mult algebra_simps)
qed

lemma counts_index_for_nat [nat_words]:
  assumes "shaped u m B h" "n < 2 ^ 63"
  shows "counts_index_for h (of_nat n) = of_nat (idx u m n)"
  using assms by (simp only: counts_index_for_def Let_def nat_words idx_def)

lemma value_from_index_nat [nat_words]:
  assumes "s < 2 ^ 31" "b + u \<le> 62" "unit_mag = of_nat u"
  shows "value_from_index (of_nat b) (of_nat s) unit_mag = of_nat (s * 2 ^ (b + u))"
proof -
  have "unat (of_nat b + of_nat u :: int32_t) = b + u"
    using assms(2) unat_of_nat32[of "b + u"] by simp
  then show ?thesis by (simp only: value_from_index_def scast_of_nat[OF assms(1)] push_nat assms(3))
qed

lemma lowest_nat [nat_words]:
  assumes "shaped u m B h" "n < 2 ^ 63"
  shows "lowest_equivalent_value h (of_nat n) = of_nat (low u m n)"
proof -
  have "sub u m n < 2 ^ 31" using sub_small[OF assms(1), of n] by simp
  moreover have "unit_magnitude h = of_nat u" using assms(1) by (simp add: shaped_def)
  ultimately have "value_from_index (of_nat (bkt u m n)) (of_nat (sub u m n)) (unit_magnitude h) = of_nat (low u m n)"
    unfolding low_def wid_def by (rule value_from_index_nat[OF _ shift_count(3)[OF assms]])
  then show ?thesis
    using assms by (simp only: lowest_equivalent_value_def Let_def get_bucket_index_nat get_sub_bucket_index_nat)
qed

lemma size_nat [nat_words]:
  assumes "shaped u m B h" "n < 2 ^ 63"
  shows "hdr_size_of_equivalent_value_range h (of_nat n) = of_nat (wid u m n)"
proof -
  have le: "m + 1 \<le> 18" and c: "sub_bucket_count h = of_nat (2 ^ (m + 1))" using assms(1) by (simp_all add: shaped_def)
  have "(2::nat) ^ (m + 1) \<le> 2 ^ 18" using le by (rule power_increasing) simp
  then have "sint (sub_bucket_count h) = int (2 ^ (m + 1))" unfolding c by (intro sint_of_nat32) simp
  moreover have "sint (of_nat (sub u m n) :: int32_t) = int (sub u m n)"
    using sub_small[OF assms(1), of n] by (intro sint_of_nat32) simp
  ultimately have "\<not> sint (sub_bucket_count h) \<le> sint (of_nat (sub u m n) :: int32_t)"
    using sub_bounds(1)[of u m n] by (simp only: of_nat_le_iff not_le)
  moreover have "push_bit k (1 :: int64_t) = of_nat (2 ^ k)" for k using push_nat[of k 1] by simp
  ultimately show ?thesis
    using assms by (simp only: hdr_size_of_equivalent_value_range_def Let_def get_bucket_index_nat
      get_sub_bucket_index_nat if_False shift_count(2)[OF assms] wid_def)
qed

lemma hdr_value_at_index_nat [nat_words]:
  assumes "shaped u m B h" "i < 2 ^ 31" "bkt_of m i + u \<le> 62"
  shows "hdr_value_at_index h (of_nat i) = of_nat (val_at u m i)"
proof -
  have sh: "sub_bucket_half_count_magnitude h = of_nat m" "sub_bucket_half_count h = of_nat (2 ^ m)"
    "unit_magnitude h = of_nat u" "m \<le> 17" using assms(1) by (simp_all add: shaped_def)
  have um: "unat (of_nat m :: int32_t) = m" using sh(4) by (intro unat_of_nat32) simp
  define j where "j = i div 2 ^ m"
  have j: "j < 2 ^ 31" unfolding j_def using assms(2) div_le_dividend[of i "2 ^ m"] by linarith
  have "(of_nat (2 ^ m) - 1 :: int32_t) = mask m" by (simp add: mask_eq_exp_minus_1)
  then have sub: "of_nat i AND (sub_bucket_half_count h - 1) = (of_nat (i mod 2 ^ m) :: int32_t)"
    unfolding sh(2) by (simp only: and_mask_take_bit take_bit_of_nat_word)
  have m17: "(2::nat) ^ m \<le> 2 ^ 17" using sh(4) by (rule power_increasing) simp
  have "i mod 2 ^ m < 2 ^ m" by simp
  then have "i mod 2 ^ m < 2 ^ 17" using m17 by (rule less_le_trans)
  then have small: "sub_of m i < 2 ^ 31" using m17 by (simp add: sub_of_def)
  show ?thesis
  proof (cases "i < 2 ^ m")
    case True
    then have "j = 0" "i mod 2 ^ m = i" by (simp_all add: j_def)
    then have "hdr_value_at_index h (of_nat i) = value_from_index (of_nat 0) (of_nat i) (unit_magnitude h)"
      unfolding hdr_value_at_index_def Let_def sub by (simp add: sh(1) um drop_nat32[OF assms(2)] flip: j_def)
    also have "\<dots> = of_nat (i * 2 ^ (0 + u))"
      using assms(2,3) sh(3) by (intro value_from_index_nat) simp_all
    finally show ?thesis using True by (simp add: val_at_def sub_of_def bkt_of_def)
  next
    case False
    then have "0 < j" by (simp add: j_def div_greater_zero_iff)
    then obtain k where k: "j = Suc k" by (cases j) auto
    have kw: "signed_drop_bit (unat (sub_bucket_half_count_magnitude h)) (of_nat i) - 1 = (of_nat k :: int32_t)"
      by (simp add: sh(1) um drop_nat32[OF assms(2)] k flip: j_def)
    have "sint (of_nat k :: int32_t) = int k" using j k by (intro sint_of_nat32) simp
    then have nn: "\<not> sint (of_nat k :: int32_t) < 0" by simp
    have kb: "bkt_of m i = k" by (simp add: bkt_of_def k flip: j_def)
    have "(of_nat (i mod 2 ^ m) + of_nat (2 ^ m) :: int32_t) = of_nat (sub_of m i)" using False by (simp add: sub_of_def)
    then have "hdr_value_at_index h (of_nat i) = value_from_index (of_nat k) (of_nat (sub_of m i)) (unit_magnitude h)"
      unfolding hdr_value_at_index_def Let_def sub kw by (simp only: nn if_False sh(2))
    also have "\<dots> = of_nat (sub_of m i * 2 ^ (k + u))"
      using small assms(3) kb sh(3) by (intro value_from_index_nat) simp_all
    finally show ?thesis by (simp add: val_at_def kb)
  qed
qed

lemma less_shape_bkt:
  assumes "shaped u m B h" "i < (B + 1) * 2 ^ m"
  shows "bkt_of m i + u \<le> 62" "i < 2 ^ 31"
proof -
  note b = shaped_bounds[OF assms(1)]
  have "i div 2 ^ m < B + 1" using assms(2) by (simp add: less_mult_imp_div_less)
  then have "bkt_of m i < B" using b(6) by (simp add: bkt_of_def)
  then show "bkt_of m i + u \<le> 62" using b(7) by linarith
  show "i < 2 ^ 31" using less_le_trans[OF assms(2) b(2)] by simp
qed

lemma val_at_less:
  assumes "shaped u m B h" "i < (B + 1) * 2 ^ m"
  shows "val_at u m i < 2 ^ (u + m + B)" "val_at u m i < 2 ^ 63"
proof -
  show v: "val_at u m i < 2 ^ (u + m + B)"
    using less_idx[of u m "val_at u m i" B] assms shaped_bounds(6)[OF assms(1)] by (simp add: idx_val_at)
  have "(2::nat) ^ (u + m + B) \<le> 2 ^ 63" using shaped_bounds(7)[OF assms(1)] by (rule power_increasing) simp
  with v show "val_at u m i < 2 ^ 63" by linarith
qed

section \<open>Counters and ranges of values\<close>

lemma low_wid_bound:
  assumes "shaped u m B h" "n < 2 ^ 63"
  shows "low u m n < 2 ^ 63" "low u m n + wid u m n \<le> 2 ^ 63"
proof -
  show "low u m n < 2 ^ 63" using low_le[of u m n] assms(2) by linarith
  let ?e = "bkt u m n + u"
  have e: "?e \<le> 62" by (rule shift_count(3)[OF assms])
  have "(2::nat) ^ 63 = 2 ^ (63 - ?e) * 2 ^ ?e" using e by (simp flip: power_add)
  moreover have "sub u m n < 2 ^ (63 - ?e)"
    unfolding sub_def wid_def using assms(2) calculation by (simp add: less_mult_imp_div_less)
  then have "(sub u m n + 1) * 2 ^ ?e \<le> 2 ^ (63 - ?e) * 2 ^ ?e" by (intro mult_le_mono1) simp
  ultimately show "low u m n + wid u m n \<le> 2 ^ 63" by (simp add: low_def wid_def)
qed

text \<open>
  The ranges, on words: the first value of a counter, how many it has, and the last. The last value of
  all counters is the greatest \<^verbatim>\<open>int64_t\<close>, after which \<^verbatim>\<open>next_non_equivalent_value\<close> wraps.
\<close>

lemma unat_low_size:
  assumes "shaped u m B h" "0 \<le> sint v"
  shows "unat (lowest_equivalent_value h v) = low u m (unat v)"
    "unat (hdr_size_of_equivalent_value_range h v) = wid u m (unat v)"
    "unat (highest_equivalent_value h v) = low u m (unat v) + wid u m (unat v) - 1"
    "counts_index_for h v = of_nat (idx u m (unat v))"
    "unat v < 2 ^ 63"
proof -
  define n where "n = unat v"
  have v: "v = of_nat n" and vn: "n < 2 ^ 63" and n: "unat v = n"
    using unat_less_half_iff[of v] assms(2) by (simp_all add: n_def)
  note v = v vn
  note b = low_wid_bound[OF assms(1) v(2)]
  have w: "0 < wid u m n" by (simp add: wid_def)
  have "wid u m n < 2 ^ 64" using b(2) by simp
  then show "unat (hdr_size_of_equivalent_value_range h v) = wid u m (unat v)"
    unfolding n unfolding v(1) size_nat[OF assms(1) v(2)] by (rule unat_of_nat64)
  have "low u m n < 2 ^ 64" using b(1) by simp
  then show "unat (lowest_equivalent_value h v) = low u m (unat v)"
    unfolding n unfolding v(1) lowest_nat[OF assms(1) v(2)] by (rule unat_of_nat64)
  have "highest_equivalent_value h v = of_nat (low u m n + wid u m n - 1)"
    unfolding highest_equivalent_value_def hdr_next_non_equivalent_value_def v(1)
      lowest_nat[OF assms(1) v(2)] size_nat[OF assms(1) v(2)]
    using w by (simp add: of_nat_diff)
  moreover have "low u m n + wid u m n - 1 < 2 ^ 64" using b(2) by simp
  ultimately show "unat (highest_equivalent_value h v) = low u m (unat v) + wid u m (unat v) - 1"
    unfolding n by (simp only: unat_of_nat64)
  show "counts_index_for h v = of_nat (idx u m (unat v))"
    unfolding n unfolding v(1) by (rule counts_index_for_nat[OF assms(1) v(2)])
  show "unat v < 2 ^ 63" using v(2) n by simp
qed

lemma idx_lt:
  assumes "shaped u m B h" "n < 2 ^ 63"
  shows "idx u m n < 2 ^ 30"
proof -
  have m: "m \<le> 17" using shaped_bounds(4)[OF assms(1)] .
  have "n < 2 ^ (u + m + 63)" using assms(2) less_le_trans power_increasing[of 63 "u + m + 63" "2::nat"] by simp
  then have "idx u m n < (63 + 1) * 2 ^ m" by (rule idx_less(1)) simp
  also have "\<dots> \<le> (63 + 1) * 2 ^ 17" using m by (intro mult_le_mono2 power_increasing) simp_all
  finally show ?thesis by simp
qed

lemma of_nat_idx_inj:
  assumes "shaped u m B h" "n < 2 ^ 63" "k < 2 ^ 63"
  shows "(of_nat (idx u m n) :: int32_t) = of_nat (idx u m k) \<longleftrightarrow> idx u m n = idx u m k"
proof -
  have "idx u m n < 2 ^ 32" "idx u m k < 2 ^ 32"
    using idx_lt[OF assms(1,2)] idx_lt[OF assms(1,3)] by simp_all
  then have "unat (of_nat (idx u m n) :: int32_t) = idx u m n" "unat (of_nat (idx u m k) :: int32_t) = idx u m k"
    using unat_of_nat32 by blast+
  then show ?thesis by metis
qed

end
