(* ===== verification/HistogramInit.thy ===== *)
theory HistogramInit
  imports HistogramIndex
begin

text \<open>
  What \<^verbatim>\<open>hdr_init\<close> builds has a shape that covers the values it was asked for with the precision it was
  asked for; and a histogram that it never returns from.
\<close>

section \<open>Ranges of values\<close>

lemma sint_of_unat64: "unat (x :: int64_t) < 2 ^ 63 \<Longrightarrow> sint x = int (unat x)"
  by (simp add: sint_eq_unat)

lemma sint_low_high:
  assumes "shaped u m B h" "0 \<le> sint v"
  shows "sint (lowest_equivalent_value h v) = int (low u m (unat v))"
    "sint (highest_equivalent_value h v) = int (low u m (unat v) + wid u m (unat v)) - 1"
    "sint v = int (unat v)"
proof -
  note un = unat_low_size[OF assms]
  note b = low_wid_bound[OF assms(1) un(5)]
  have w: "0 < wid u m (unat v)" by (simp add: wid_def)
  show "sint (lowest_equivalent_value h v) = int (low u m (unat v))"
    using b(1) un(1) by (simp add: sint_eq_unat)
  show "sint v = int (unat v)" using un(5) by (simp add: sint_eq_unat)
  have "unat (highest_equivalent_value h v) < 2 ^ 63" using b(2) w un(3) by linarith
  then have "sint (highest_equivalent_value h v) = int (low u m (unat v) + wid u m (unat v) - 1)"
    unfolding un(3)[symmetric] by (rule sint_of_unat64)
  then show "sint (highest_equivalent_value h v) = int (low u m (unat v) + wid u m (unat v)) - 1"
    using w by linarith
qed

lemma index_in_range:
  assumes "shaped u m B h" "0 \<le> sint v"
  shows "sint (counts_index_for h v) = int (idx u m (unat v))"
    "sint (counts_len h) = int ((B + 1) * 2 ^ m)"
    "sint (counts_index_for h v) < sint (counts_len h) \<longleftrightarrow> idx u m (unat v) < (B + 1) * 2 ^ m"
    "sint (counts_index_for h v) < sint (counts_len h) \<longleftrightarrow> unat v < 2 ^ (u + m + B)"
proof -
  note uv = unat_low_size[OF assms]
  have small: "idx u m (unat v) < 2 ^ 31" "(B + 1) * 2 ^ m < 2 ^ 31"
    using idx_lt[OF assms(1) uv(5)] shaped_bounds(2)[OF assms(1)] by simp_all
  have len: "counts_len h = of_nat ((B + 1) * 2 ^ m)" using assms(1) by (simp add: shaped_def)
  show i: "sint (counts_index_for h v) = int (idx u m (unat v))" unfolding uv(4) by (rule sint_of_nat32[OF small(1)])
  show l: "sint (counts_len h) = int ((B + 1) * 2 ^ m)" unfolding len by (rule sint_of_nat32[OF small(2)])
  show lt: "sint (counts_index_for h v) < sint (counts_len h) \<longleftrightarrow> idx u m (unat v) < (B + 1) * 2 ^ m"
    unfolding i l of_nat_less_iff ..
  show "sint (counts_index_for h v) < sint (counts_len h) \<longleftrightarrow> unat v < 2 ^ (u + m + B)"
    unfolding lt using idx_less(1) less_idx shaped_bounds(6)[OF assms(1)] by blast
qed

section \<open>The loop that finds the number of buckets\<close>

lemma buckets_loop_returns:
  assumes "e \<le> 62" "V < 2 ^ 63"
  shows "\<exists>k. buckets_loop (of_nat V) (of_nat (2 ^ e)) b = Some (b + of_nat k) \<and> V < 2 ^ (e + k) \<and> e + k \<le> 63"
  using assms
proof (induction "62 - e" arbitrary: e b)
  case 0
  then have e: "e = 62" by simp
  have s: "sint (of_nat (2 ^ e) :: int64_t) = 2 ^ e" "sint (of_nat V :: int64_t) = int V"
    using 0 e sint_of_nat64[of "2 ^ 62"] sint_of_nat64[of V] by simp_all
  have "sint (drop_bit 1 INT64_MAX) < 2 ^ 62" by (simp add: INT64_MAX_def)
  then show ?case
    using 0 e s by (subst buckets_loop.simps) (auto intro: exI[of _ 0] exI[of _ 1] split: if_splits)
next
  case (Suc d)
  then have e: "e < 62" by simp
  have "(2::nat) ^ e \<le> 2 ^ 61" using e by (intro power_increasing) auto
  then have s: "sint (of_nat (2 ^ e) :: int64_t) = 2 ^ e" "(2::int) ^ e \<le> 2 ^ 61" "sint (of_nat V :: int64_t) = int V"
    using Suc.prems sint_of_nat64[of "2 ^ e"] sint_of_nat64[of V] power_increasing[of e 61 "2::int"] e by simp_all
  show ?case
  proof (cases "2 ^ e \<le> V")
    case False
    then have "buckets_loop (of_nat V) (of_nat (2 ^ e)) b = Some b"
      using s by (subst buckets_loop.simps) (simp add: numeral_power_le_of_nat_cancel_iff)
    then show ?thesis using False e by (intro exI[of _ 0]) simp
  next
    case True
    have "push_bit 1 (of_nat (2 ^ e) :: int64_t) = of_nat (2 ^ Suc e)" by (simp only: push_nat) simp
    then have "buckets_loop (of_nat V) (of_nat (2 ^ e)) b = buckets_loop (of_nat V) (of_nat (2 ^ Suc e)) (b + 1)"
      using True s by (subst buckets_loop.simps) (simp add: INT64_MAX_def mult.commute)
    moreover have "d = 62 - Suc e" "Suc e \<le> 62" using Suc(2) e by simp_all
    from Suc(1)[OF this Suc.prems(2)] obtain k where "buckets_loop (of_nat V) (of_nat (2 ^ Suc e)) (b + 1) = Some (b + 1 + of_nat k)"
      "V < 2 ^ (Suc e + k)" "Suc e + k \<le> 63"
      by blast
    ultimately show ?thesis by (intro exI[of _ "Suc k"]) (simp add: algebra_simps)
  qed
qed

text \<open>Once the untrackable value has left the 64 bits the loop goes on for ever.\<close>

lemma buckets_loop_diverges:
  assumes "s = 0 \<or> s = INT64_MIN" "0 \<le> sint V"
  shows "buckets_loop V s b = None"
proof (rule ccontr)
  assume "buckets_loop V s b \<noteq> None"
  then obtain r where "buckets_loop V s b = Some r" by auto
  then have "(s = 0 \<or> s = INT64_MIN) \<longrightarrow> sint V < 0"
  proof (rule buckets_loop.raw_induct[where P = "\<lambda>V s b r. (s = 0 \<or> s = INT64_MIN) \<longrightarrow> sint V < 0", rotated])
    fix loop :: "int64_t \<Rightarrow> int64_t \<Rightarrow> int32_t \<Rightarrow> int32_t option" and V s b r
    assume ih: "\<And>V s b r. loop V s b = Some r \<Longrightarrow> (s = 0 \<or> s = INT64_MIN) \<longrightarrow> sint V < 0"
      and body: "(if sint s \<le> sint V
        then if sint (drop_bit 1 INT64_MAX) < sint s then Some (b + 1) else loop V (push_bit 1 s) (b + 1)
        else Some b) = Some r"
    show "(s = 0 \<or> s = INT64_MIN) \<longrightarrow> sint V < 0"
    proof
      assume s: "s = 0 \<or> s = INT64_MIN"
      then have "sint s \<le> 0" "push_bit 1 s = 0" by (auto simp: INT64_MIN_def)
      moreover have "0 \<le> sint (drop_bit 1 INT64_MAX)" by (simp add: INT64_MAX_def)
      ultimately have "sint V < 0 \<or> loop V 0 (b + 1) = Some r" using body by (auto split: if_splits)
      then show "sint V < 0" using ih by blast
    qed
  qed
  then show False using assms by auto
qed

section \<open>What an initialised histogram is like\<close>

definition half_magnitude :: "int32_t \<Rightarrow> nat" where
  "half_magnitude figures = [0, 4, 7, 10, 14, 17] ! unat figures"

lemma figures_cases:
  assumes "1 \<le> sint (f :: int32_t)" "sint f \<le> 5"
  obtains "f = 1" | "f = 2" | "f = 3" | "f = 4" | "f = 5"
proof -
  have "f = word_of_int (sint f)" by simp
  moreover have "sint f \<in> {1, 2, 3, 4, 5}" using assms by auto
  ultimately show thesis using that by fastforce
qed

lemma bit_length_numerals:
  "bit_length 19 = 5" "bit_length 199 = 8" "bit_length 1999 = 11" "bit_length 19999 = 15" "bit_length 199999 = 18"
  using bit_length_eqI[of 4 19] bit_length_eqI[of 7 199] bit_length_eqI[of 10 1999]
    bit_length_eqI[of 14 19999] bit_length_eqI[of 17 199999] by simp_all

lemma power_loop_numeral:
  "power_loop base (numeral k) r = power_loop base (pred_numeral k) (ucast (scast r * base))"
  by (simp add: numeral_eq_Suc)

lemma power_tens:
  "hdr_power 10 1 = 10" "hdr_power 10 2 = 100" "hdr_power 10 3 = 1000" "hdr_power 10 4 = 10000"
  "hdr_power 10 5 = 100000"
  by (simp_all add: hdr_power_def power_loop_numeral)

lemma ceil_log2_tens:
  "ceil_log2 20 = 5" "ceil_log2 200 = 8" "ceil_log2 2000 = 11" "ceil_log2 20000 = 15" "ceil_log2 200000 = 18"
  by (simp_all add: ceil_log2_def bit_length_numerals)

lemma precision_magnitude:
  assumes "1 \<le> sint f" "sint f \<le> 5"
  shows "ceil_log2 (2 * hdr_power 10 (scast f)) = of_nat (half_magnitude f + 1) \<and>
    1 < sint (ceil_log2 (2 * hdr_power 10 (scast f))) \<and>
    1 < half_magnitude f \<and> half_magnitude f \<le> 17 \<and> 10 ^ nat (sint f) \<le> (2::nat) ^ half_magnitude f"
  using assms
  by (rule figures_cases) (simp_all add: half_magnitude_def power_tens ceil_log2_tens)

lemma of_nat_pred: "0 < n \<Longrightarrow> (of_nat n - 1 :: 'a::len word) = of_nat (n - 1)"
  by (simp add: of_nat_diff)

lemma sdiv_two: "int (2 * n) sdiv 2 = int n"
  by (cases "n = 0") (simp_all add: signed_divide_int_def sgn_mult)

lemma config_words:
  assumes "m \<le> 17" "u \<le> 62"
  shows "unat (of_nat (m + 1) - 1 + 1 :: int32_t) = m + 1"
    "push_bit (m + 1) (1 :: int32_t) = of_nat (2 ^ (m + 1))"
    "word_of_int (sint (of_nat (2 ^ (m + 1)) :: int32_t) sdiv 2) = (of_nat (2 ^ m) :: int32_t)"
    "(scast (of_nat u :: int32_t) :: int64_t) = of_nat u"
    "unat (of_nat u :: int64_t) = u" "unat (of_nat u :: int32_t) = u"
    "(ucast (of_nat u :: int64_t) :: int32_t) = of_nat u"
    "(scast (of_nat (2 ^ (m + 1)) :: int32_t) :: int64_t) = of_nat (2 ^ (m + 1))"
proof -
  have p: "(2::nat) ^ (m + 1) \<le> 2 ^ 18" using assms(1) by (intro power_increasing) auto
  then have s: "2 ^ (m + 1) < (2::nat) ^ 31" by simp
  have "(of_nat (m + 1) - 1 + 1 :: int32_t) = of_nat (m + 1)" by simp
  moreover have "unat (of_nat (m + 1) :: int32_t) = m + 1" using assms(1) by (intro unat_of_nat32) simp
  ultimately show "unat (of_nat (m + 1) - 1 + 1 :: int32_t) = m + 1" by (simp only:)
  show "push_bit (m + 1) (1 :: int32_t) = of_nat (2 ^ (m + 1))" using push_nat[of "m + 1" 1] by simp
  have "sint (of_nat (2 ^ (m + 1)) :: int32_t) = int (2 * 2 ^ m)" using sint_of_nat32[OF s] by simp
  then show "word_of_int (sint (of_nat (2 ^ (m + 1)) :: int32_t) sdiv 2) = (of_nat (2 ^ m) :: int32_t)"
    by (simp only: sdiv_two of_int_of_nat_eq)
  show "(scast (of_nat u :: int32_t) :: int64_t) = of_nat u" using assms(2) by (intro scast_of_nat) simp
  show "unat (of_nat u :: int64_t) = u" using assms(2) by (intro unat_of_nat64) simp
  show "unat (of_nat u :: int32_t) = u" using assms(2) by (intro unat_of_nat32) simp
  show "(ucast (of_nat u :: int64_t) :: int32_t) = of_nat u" using assms(2) by (intro ucast_nat32) simp
  show "(scast (of_nat (2 ^ (m + 1)) :: int32_t) :: int64_t) = of_nat (2 ^ (m + 1))" using s by (rule scast_of_nat)
qed

text \<open>A histogram just made: its shape, no counts, and the range that it was made for.\<close>

definition fresh :: "histogram \<Rightarrow> bool" where
  "fresh h \<longleftrightarrow>
     counts h = replicate (length (counts h)) 0 \<and> total_count h = 0 \<and> normalizing_index_offset h = 0 \<and>
     min_value h = INT64_MAX \<and> max_value h = 0 \<and> conversion_ratio h = ONE_BITS"

lemma hdr_init_shaped:
  assumes "1 \<le> sint lowest" "1 \<le> sint f" "sint f \<le> 5" "sint (lowest * 2) \<le> sint highest" "0 \<le> sint highest"
    "floor_log2 lowest = of_nat u" "u + half_magnitude f \<le> 61"
  shows "\<exists>B h. hdr_init floor_log2 lowest highest f True = Some (Inr h) \<and> shaped u (half_magnitude f) B h \<and>
    unat highest < 2 ^ (u + half_magnitude f + B) \<and> fresh h \<and>
    lowest_trackable_value h = lowest \<and> highest_trackable_value h = highest \<and> significant_figures h = scast f"
proof -
  define m where "m = half_magnitude f"
  have pm: "ceil_log2 (2 * hdr_power 10 (scast f)) = of_nat (m + 1)" "1 < sint (of_nat (m + 1) :: int32_t)"
    "1 < m" "m \<le> 17"
    using precision_magnitude[OF assms(2,3)] unfolding m_def by metis+
  have um: "u + m \<le> 61" "u \<le> 62" using assms(7) by (simp_all add: m_def)
  note w = config_words[OF pm(4) um(2)]
  have H: "highest = of_nat (unat highest)" "unat highest < 2 ^ 63"
    using assms(5) unat_less_half_iff[of highest] by simp_all
  have shift: "push_bit u (of_nat (2 ^ (m + 1)) :: int64_t) = of_nat (2 ^ (m + 1 + u))"
    by (simp only: push_nat power_add)
  obtain k where k: "buckets_loop (of_nat (unat highest)) (of_nat (2 ^ (m + 1 + u))) 1 = Some (1 + of_nat k)"
    "unat highest < 2 ^ (m + 1 + u + k)" "m + 1 + u + k \<le> 63"
    using buckets_loop_returns[of "m + 1 + u" "unat highest" 1] H(2) um by auto
  have bn: "buckets_needed_to_cover_value highest (of_nat (2 ^ (m + 1))) (of_nat u) = Some (of_nat (Suc k))"
    using k(1) H(1) unfolding buckets_needed_to_cover_value_def w(6,8) shift by simp
  define B where "B = Suc k"
  have clen: "(of_nat B + 1) * (of_nat (2 ^ m)) = (of_nat ((B + 1) * 2 ^ m) :: int32_t)"
    by (simp only: of_nat_mult of_nat_add of_nat_1)
  have mask: "push_bit u (of_nat (2 ^ (m + 1)) - 1 :: int64_t) = of_nat ((2 ^ (m + 1) - 1) * 2 ^ u)"
    by (subst of_nat_pred) (simp_all only: push_nat zero_less_power zero_less_numeral)
  have "(2::nat) ^ m \<le> 2 ^ 17" using pm(4) by (intro power_increasing) auto
  moreover have "B + 1 \<le> 64" using k(3) by (simp add: B_def)
  ultimately have "(B + 1) * 2 ^ m \<le> 64 * 2 ^ 17" by (intro mult_le_mono) auto
  then have small: "(B + 1) * 2 ^ m < 2 ^ 31" by simp
  have len: "nat (sint (of_nat ((B + 1) * 2 ^ m) :: int32_t)) = (B + 1) * 2 ^ m"
    by (simp only: sint_of_nat32[OF small] nat_int)
  have ok: "\<not> (sint lowest < 1 \<or> sint f < 1 \<or> 5 < sint f)" "\<not> sint highest < sint (lowest * 2)"
    using assms by auto
  define cfg where "cfg = \<lparr>cfg_lowest_trackable_value = lowest, cfg_highest_trackable_value = highest,
      cfg_unit_magnitude = of_nat u, cfg_significant_figures = scast f,
      cfg_sub_bucket_half_count_magnitude = of_nat (m + 1) - 1, cfg_sub_bucket_half_count = of_nat (2 ^ m),
      cfg_sub_bucket_mask = of_nat ((2 ^ (m + 1) - 1) * 2 ^ u), cfg_sub_bucket_count = of_nat (2 ^ (m + 1)),
      cfg_bucket_count = of_nat B, cfg_counts_len = of_nat ((B + 1) * 2 ^ m)\<rparr>"
  have cfg: "hdr_calculate_bucket_config floor_log2 lowest highest f = Some (Inr cfg)"
    unfolding hdr_calculate_bucket_config_def Let_def if_not_P[OF ok(1)] if_not_P[OF ok(2)] pm(1)
      if_P[OF pm(2)] assms(6) w(1,2,4,5,7,3,8) bn mask
    by (simp only: option.map cfg_def B_def[symmetric] clen)
  let ?h = "hdr_init_preallocated (zeroed ((B + 1) * 2 ^ m)) cfg"
  have "hdr_init floor_log2 lowest highest f True = Some (Inr ?h)"
    unfolding hdr_init_def cfg
    by (simp only: option.case sum.case not_True_eq_False if_False
        cfg_def[THEN arg_cong[of _ _ cfg_counts_len], unfolded hdr_histogram_bucket_config.select_convs] len)
  moreover have "shaped u m B ?h"
  proof -
    have "u + m + B \<le> 63" using k(3) by (simp add: B_def)
    moreover have "(of_nat (m + 1) - 1 :: int32_t) = of_nat m" by simp
    moreover have "0 < (B + 1) * 2 ^ m" "0 < B" by (simp_all add: B_def)
    ultimately show ?thesis
      using pm(4) w(7) unfolding shaped_def hdr_init_preallocated_def cfg_def zeroed_def
      by (simp del: of_nat_add of_nat_mult of_nat_power of_nat_Suc mult_Suc)
  qed
  moreover have "fresh ?h" by (simp add: fresh_def hdr_init_preallocated_def zeroed_def)
  moreover have "unat highest < 2 ^ (u + m + B)" using k(2) by (simp add: B_def algebra_simps)
  ultimately show ?thesis
    by (intro exI[of _ B] exI[of _ ?h]) (simp_all add: hdr_init_preallocated_def cfg_def m_def[symmetric])
qed

lemma hdr_init_diverges:
  assumes "1 \<le> sint lowest" "1 \<le> sint f" "sint f \<le> 5" "sint (lowest * 2) \<le> sint highest" "0 \<le> sint highest"
    "floor_log2 lowest = of_nat u" "u \<le> 62" "62 \<le> u + half_magnitude f"
  shows "hdr_init floor_log2 lowest highest f allocated = None"
proof -
  define m where "m = half_magnitude f"
  have pm: "ceil_log2 (2 * hdr_power 10 (scast f)) = of_nat (m + 1)" "1 < sint (of_nat (m + 1) :: int32_t)"
    "m \<le> 17"
    using precision_magnitude[OF assms(2,3)] unfolding m_def by metis+
  note w = config_words[OF pm(3) assms(7)]
  have shift: "push_bit u (of_nat (2 ^ (m + 1)) :: int64_t) = of_nat (2 ^ (m + 1 + u))"
    by (simp only: push_nat power_add)
  have "(of_nat (2 ^ (m + 1 + u)) :: int64_t) = 0 \<or> (of_nat (2 ^ (m + 1 + u)) :: int64_t) = INT64_MIN"
  proof (cases "m + 1 + u = 63")
    case False
    then have "64 \<le> m + 1 + u" using assms(8) by (simp add: m_def)
    then obtain k where "m + 1 + u = 64 + k" using le_Suc_ex by blast
    then have "(of_nat (2 ^ (m + 1 + u)) :: int64_t) = of_nat (2 ^ 64) * of_nat (2 ^ k)"
      by (simp only: power_add of_nat_mult)
    moreover have "(of_nat (2 ^ 64) :: int64_t) = 0" by simp
    ultimately show ?thesis by (simp only: mult_zero_left simp_thms)
  qed (simp add: INT64_MIN_def)
  then have bn: "buckets_needed_to_cover_value highest (of_nat (2 ^ (m + 1))) (of_nat u) = None"
    unfolding buckets_needed_to_cover_value_def w(6,8) shift by (rule buckets_loop_diverges) (rule assms(5))
  have ok: "\<not> (sint lowest < 1 \<or> sint f < 1 \<or> 5 < sint f)" "\<not> sint highest < sint (lowest * 2)"
    using assms by auto
  have "hdr_calculate_bucket_config floor_log2 lowest highest f = None"
    unfolding hdr_calculate_bucket_config_def Let_def if_not_P[OF ok(1)] if_not_P[OF ok(2)] pm(1)
      if_P[OF pm(2)] assms(6) w(1,2,4,5,7,3,8) bn by (simp only: option.map)
  then show ?thesis by (simp add: hdr_init_def)
qed

section \<open>Properties of the ranges and of the size\<close>

text \<open>A histogram for values up to 1000 with one figure: units of 1, 16 sub-buckets in half a bucket, 6 buckets.\<close>

definition demo_histogram :: histogram where
  "demo_histogram = (case hdr_init (\<lambda>_. 0) 1 1000 1 True of Some (Inr h) \<Rightarrow> h | _ \<Rightarrow> zeroed 0)"

definition demo_record :: histogram where
  "demo_record = (zeroed 112)\<lparr>lowest_trackable_value := 1, highest_trackable_value := 1000,
     significant_figures := 1, sub_bucket_half_count_magnitude := 4, sub_bucket_half_count := 16,
     sub_bucket_mask := 31, sub_bucket_count := 32, bucket_count := 6, min_value := INT64_MAX,
     conversion_ratio := ONE_BITS, counts_len := 112\<rparr>"

lemma demo_histogram_eq: "hdr_init (\<lambda>_. 0) 1 1000 1 True = Some (Inr demo_record)" "demo_histogram = demo_record"
proof -
  have b: "buckets_needed_to_cover_value 1000 32 0 = Some 6"
    by (simp add: buckets_needed_to_cover_value_def buckets_loop.simps INT64_MAX_def)
  show "hdr_init (\<lambda>_. 0) 1 1000 1 True = Some (Inr demo_record)"
    by (simp add: hdr_init_def hdr_calculate_bucket_config_def Let_def power_tens ceil_log2_tens b
        hdr_init_preallocated_def demo_record_def signed_divide_int_def zeroed_def)
  then show "demo_histogram = demo_record" by (simp add: demo_histogram_def)
qed

lemma demo_shaped: "shaped 0 4 6 demo_histogram"
  by (simp add: shaped_def demo_histogram_eq demo_record_def zeroed_def)

text \<open>
  Two values share a counter exactly when the second lies between the lowest and the highest
  equivalent value of the first, and exactly then the histogram calls them equivalent. That range is
  one unit wide, or no wider than the value over half the number of sub-buckets, and its lowest value
  is the value of the counter.
\<close>

theorem counters_partition_values:
  assumes "shaped u m B h" "0 \<le> sint v" "0 \<le> sint w"
  shows "(counts_index_for h v = counts_index_for h w \<longleftrightarrow>
      sint (lowest_equivalent_value h v) \<le> sint w \<and> sint w \<le> sint (highest_equivalent_value h v)) \<and>
    (hdr_values_are_equivalent h v w \<longleftrightarrow> counts_index_for h v = counts_index_for h w) \<and>
    sint (highest_equivalent_value h v) - sint (lowest_equivalent_value h v) + 1 = int (wid u m (unat v)) \<and>
    (wid u m (unat v) = 2 ^ u \<or> int (wid u m (unat v)) * 2 ^ m \<le> sint v) \<and>
    (sint (counts_index_for h v) < sint (counts_len h) \<longrightarrow>
      hdr_value_at_index h (counts_index_for h v) = lowest_equivalent_value h v)"
proof (intro conjI impI)
  let ?n = "unat v" and ?k = "unat w"
  note uv = unat_low_size[OF assms(1,2)] and uw = unat_low_size[OF assms(1,3)]
  note sv = sint_low_high[OF assms(1,2)] and sw = sint_low_high(3)[OF assms(1,3)]
  have idx: "counts_index_for h v = counts_index_for h w \<longleftrightarrow> idx u m ?n = idx u m ?k"
    unfolding uv(4) uw(4) by (rule of_nat_idx_inj[OF assms(1) uv(5) uw(5)])
  show "counts_index_for h v = counts_index_for h w \<longleftrightarrow>
      sint (lowest_equivalent_value h v) \<le> sint w \<and> sint w \<le> sint (highest_equivalent_value h v)"
    unfolding idx idx_eq_iff sv(1,2) sw by linarith
  show "hdr_values_are_equivalent h v w \<longleftrightarrow> counts_index_for h v = counts_index_for h w"
    unfolding idx low_eq_iff[symmetric] uv(1)[symmetric] uw(1)[symmetric] hdr_values_are_equivalent_def
    by (simp only: word_unat_eq_iff)
  show "sint (highest_equivalent_value h v) - sint (lowest_equivalent_value h v) + 1 = int (wid u m ?n)"
    unfolding sv(1,2) by simp
  show "wid u m ?n = 2 ^ u \<or> int (wid u m ?n) * 2 ^ m \<le> sint v"
  proof (cases "wid u m ?n = 2 ^ u")
    case False
    then have "wid u m ?n * 2 ^ m \<le> ?n" using wid_precise[of u m ?n] by simp
    then have "int (wid u m ?n * 2 ^ m) \<le> int ?n" by (simp only: of_nat_le_iff)
    then show ?thesis unfolding sv(3) by (simp only: of_nat_mult of_nat_power of_nat_numeral simp_thms)
  qed (rule disjI1)
  assume lt: "sint (counts_index_for h v) < sint (counts_len h)"
  have i: "idx u m ?n < (B + 1) * 2 ^ m" using lt by (simp only: index_in_range(3)[OF assms(1,2)])
  have small: "idx u m ?n < 2 ^ 31" using idx_lt[OF assms(1) uv(5)] by simp
  have "v = of_nat ?n" by simp
  then have "lowest_equivalent_value h v = of_nat (low u m ?n)" using lowest_nat[OF assms(1) uv(5)] by simp
  then show "hdr_value_at_index h (counts_index_for h v) = lowest_equivalent_value h v"
    unfolding uv(4) hdr_value_at_index_nat[OF assms(1) small less_shape_bkt(1)[OF assms(1) i]]
    by (simp only: val_at_idx)
qed

theorem counters_partition_values_witness:
  "(counts_index_for demo_histogram 1000 = counts_index_for demo_histogram 999 \<longleftrightarrow>
      sint (lowest_equivalent_value demo_histogram 1000) \<le> sint (999 :: int64_t) \<and>
      sint (999 :: int64_t) \<le> sint (highest_equivalent_value demo_histogram 1000)) \<and>
    (hdr_values_are_equivalent demo_histogram 1000 999 \<longleftrightarrow>
      counts_index_for demo_histogram 1000 = counts_index_for demo_histogram 999) \<and>
    sint (highest_equivalent_value demo_histogram 1000) - sint (lowest_equivalent_value demo_histogram 1000) + 1 =
      int (wid 0 4 (unat (1000 :: int64_t))) \<and>
    (wid 0 4 (unat (1000 :: int64_t)) = 2 ^ 0 \<or> int (wid 0 4 (unat (1000 :: int64_t))) * 2 ^ 4 \<le> sint (1000 :: int64_t)) \<and>
    (sint (counts_index_for demo_histogram 1000) < sint (counts_len demo_histogram) \<longrightarrow>
      hdr_value_at_index demo_histogram (counts_index_for demo_histogram 1000) = lowest_equivalent_value demo_histogram 1000)"
  by (rule counters_partition_values[OF demo_shaped]) simp_all

text \<open>
  C37. With valid arguments, the binary order of the lowest value being \<open>u\<close>, \<^verbatim>\<open>hdr_init\<close> returns exactly when
  \<open>u\<close> and the order of the sub-buckets leave room for a bucket in 63 bits. It then returns a histogram
  without counts whose ranges are as precise as the figures asked for, and in which every value up to
  the highest has a counter; otherwise the search for the number of buckets never ends.
\<close>

theorem hdr_init_returns:
  assumes "1 \<le> sint lowest" "1 \<le> sint f" "sint f \<le> 5" "sint (lowest * 2) \<le> sint highest" "0 \<le> sint highest"
    "floor_log2 lowest = of_nat u" "u \<le> 62"
  shows "(if u + half_magnitude f \<le> 61
     then \<exists>B h. hdr_init floor_log2 lowest highest f True = Some (Inr h) \<and> fresh h \<and>
       shaped u (half_magnitude f) B h \<and> 10 ^ nat (sint f) \<le> (2::nat) ^ half_magnitude f \<and>
       (\<forall>v. 0 \<le> sint v \<and> sint v \<le> sint highest \<longrightarrow>
         0 \<le> sint (counts_index_for h v) \<and> sint (counts_index_for h v) < sint (counts_len h))
     else hdr_init floor_log2 lowest highest f True = None)"
proof (cases "u + half_magnitude f \<le> 61")
  case False
  then show ?thesis using hdr_init_diverges[of lowest f highest floor_log2 u, OF assms] by simp
next
  case True
  let ?m = "half_magnitude f"
  obtain B h where h: "hdr_init floor_log2 lowest highest f True = Some (Inr h)" "shaped u ?m B h"
    "unat highest < 2 ^ (u + ?m + B)" "fresh h"
    using hdr_init_shaped[of lowest f highest floor_log2 u, OF assms(1-6) True] by blast
  have cover: "0 \<le> sint (counts_index_for h v) \<and> sint (counts_index_for h v) < sint (counts_len h)"
    if v: "0 \<le> sint v" "sint v \<le> sint highest" for v
  proof -
    have "unat v \<le> unat highest"
      using v(2) by (simp only: sint_nonneg_unat[OF v(1)] sint_nonneg_unat[OF assms(5)] of_nat_le_iff)
    then show ?thesis
      using index_in_range(1)[OF h(2) v(1)] index_in_range(4)[OF h(2) v(1)] h(3) by simp
  qed
  have "10 ^ nat (sint f) \<le> (2::nat) ^ ?m" using precision_magnitude[OF assms(2,3)] by blast
  then show ?thesis using h(1,2,4) cover True by auto
qed

theorem hdr_init_returns_witness:
  "(\<exists>B h. hdr_init (\<lambda>_. 0) 1 1000 1 True = Some (Inr h) \<and> fresh h \<and> shaped 0 (half_magnitude 1) B h \<and>
      0 \<le> sint (counts_index_for h 1000) \<and> sint (counts_index_for h 1000) < sint (counts_len h)) \<and>
   hdr_init (\<lambda>_. 60) (2 ^ 60) (2 ^ 61) 3 True = None"
proof
  have "half_magnitude 1 = 4" "half_magnitude 3 = 10" by (simp_all add: half_magnitude_def)
  then show "\<exists>B h. hdr_init (\<lambda>_. 0) 1 1000 1 True = Some (Inr h) \<and> fresh h \<and> shaped 0 (half_magnitude 1) B h \<and>
      0 \<le> sint (counts_index_for h 1000) \<and> sint (counts_index_for h 1000) < sint (counts_len h)"
    "hdr_init (\<lambda>_. 60) (2 ^ 60) (2 ^ 61) 3 True = None"
    using hdr_init_returns[of 1 1 1000 "\<lambda>_. 0" 0] hdr_init_returns[of "2 ^ 60" 3 "2 ^ 61" "\<lambda>_. 60" 60] by auto
qed

end
