(* ===== verification/HistogramRecord.thy ===== *)
theory HistogramRecord
  imports HistogramInit
begin

text \<open>
  Recording refines adding to a list of values with their counts: \<open>represents\<close> relates a histogram to the
  list of what it has recorded. The array of counters is read through the normalizing offset, as the
  code does; \<open>logical_counts\<close> is the array without it.
\<close>

section \<open>The array behind the offset\<close>

definition physical :: "histogram \<Rightarrow> nat \<Rightarrow> nat" where
  "physical h i = nat ((int i - sint (normalizing_index_offset h)) mod int (length (counts h)))"

definition logical_counts :: "histogram \<Rightarrow> int64_t list" where
  "logical_counts h = map (\<lambda>i. counts h ! physical h i) [0..<length (counts h)]"

lemma length_logical_counts [simp]: "length (logical_counts h) = length (counts h)"
  by (simp add: logical_counts_def)

lemma shaped_array:
  assumes "shaped u m B h"
  shows "length (counts h) = (B + 1) * 2 ^ m" "sint (counts_len h) = int (length (counts h))"
    "\<bar>sint (normalizing_index_offset h)\<bar> < int (length (counts h))" "length (counts h) \<le> 2 ^ 23"
    "0 < length (counts h)"
proof -
  show l: "length (counts h) = (B + 1) * 2 ^ m" using assms by (simp add: shaped_def)
  show b: "length (counts h) \<le> 2 ^ 23" unfolding l by (rule shaped_bounds(2)[OF assms])
  have "counts_len h = of_nat (length (counts h))" using assms by (simp add: shaped_def)
  then show "sint (counts_len h) = int (length (counts h))" using b sint_of_nat32[of "length (counts h)"] by simp
  show "\<bar>sint (normalizing_index_offset h)\<bar> < int (length (counts h))" using assms by (simp add: shaped_def)
  then show "0 < length (counts h)" by linarith
qed

lemma sint_add_small: "\<bar>sint a + sint b\<bar> < 2 ^ 31 \<Longrightarrow> sint (a + b :: int32_t) = sint a + sint b"
  by (simp add: sint_word_ariths(1) signed_take_bit_int_eq_self)

lemma sint_diff_small: "\<bar>sint a - sint b\<bar> < 2 ^ 31 \<Longrightarrow> sint (a - b :: int32_t) = sint a - sint b"
  by (simp add: sint_word_ariths(2) signed_take_bit_int_eq_self)

lemma sint_uminus_small: "\<bar>sint a\<bar> < 2 ^ 31 \<Longrightarrow> sint (- a :: int32_t) = - sint a"
  using sint_diff_small[of 0 a] by simp

lemma int_physical: "shaped u m B h \<Longrightarrow>
    int (physical h i) = (int i - sint (normalizing_index_offset h)) mod int (length (counts h))"
  using shaped_array(5)[of u m B h] by (simp add: physical_def)

lemma physical_less: "shaped u m B h \<Longrightarrow> physical h i < length (counts h)"
  using shaped_array(5)[of u m B h] by (simp add: physical_def nat_less_iff)

lemma physical_inj:
  assumes "shaped u m B h" "i < length (counts h)" "j < length (counts h)"
  shows "physical h i = physical h j \<longleftrightarrow> i = j"
proof
  let ?L = "int (length (counts h))" and ?o = "sint (normalizing_index_offset h)"
  assume "physical h i = physical h j"
  then have "(int i - ?o) mod ?L = (int j - ?o) mod ?L"
    using int_physical[OF assms(1)] by metis
  then have "?L dvd int i - int j" by (simp add: mod_eq_dvd_iff)
  moreover have "\<bar>int i - int j\<bar> < ?L" using assms(2,3) by linarith
  ultimately have "int i - int j = 0" using zdvd_not_zless[of "\<bar>int i - int j\<bar>" ?L] by (meson dvd_abs_iff zero_less_abs_iff)
  then show "i = j" by simp
qed simp

lemma normalize_index_physical:
  assumes "shaped u m B h" "i < length (counts h)"
  shows "sint (normalize_index h (of_nat i)) = int (physical h i)"
proof -
  let ?L = "int (length (counts h))" and ?o = "sint (normalizing_index_offset h)"
  note a = shaped_array[OF assms(1)]
  have L: "?L \<le> 2 ^ 23" using a(4) by (metis of_nat_le_iff of_nat_numeral of_nat_power)
  have i: "sint (of_nat i :: int32_t) = int i" using assms(2) a(4) by (intro sint_of_nat32) simp
  note p = int_physical[OF assms(1), of i]
  have d: "sint (of_nat i - normalizing_index_offset h) = int i - ?o"
    using sint_diff_small[of "of_nat i" "normalizing_index_offset h"] i L a(3) assms(2) by simp
  show ?thesis
  proof (cases "normalizing_index_offset h = 0")
    case True
    then show ?thesis using assms(2) by (simp add: normalize_index_def p i)
  next
    case False
    consider "int i - ?o < 0" | "?L \<le> int i - ?o" | "0 \<le> int i - ?o" "int i - ?o < ?L" by linarith
    then show ?thesis
    proof cases
      case 1
      have "sint (of_nat i - normalizing_index_offset h + counts_len h) = int i - ?o + ?L"
        using sint_add_small[of "of_nat i - normalizing_index_offset h" "counts_len h"] d a(2,3) L 1 by simp
      moreover have "(int i - ?o) mod ?L = int i - ?o + ?L"
      proof -
        have "(int i - ?o + ?L) mod ?L = int i - ?o + ?L" using 1 a(3) by (intro mod_pos_pos_trivial) auto
        then show ?thesis by simp
      qed
      ultimately show ?thesis using False 1 d by (simp add: normalize_index_def Let_def p)
    next
      case 2
      have "sint (- counts_len h) = - ?L" using sint_uminus_small[of "counts_len h"] a(2) L by simp
      then have "sint (of_nat i - normalizing_index_offset h + - counts_len h) = int i - ?o - ?L"
        using sint_add_small[of "of_nat i - normalizing_index_offset h" "- counts_len h"] d a(3) L 2 assms(2) by simp
      moreover have "(int i - ?o) mod ?L = int i - ?o - ?L"
      proof -
        have "(int i - ?o - ?L) mod ?L = int i - ?o - ?L" using 2 a(3) assms(2) by (intro mod_pos_pos_trivial) auto
        then show ?thesis by simp
      qed
      ultimately show ?thesis using False 2 d a(2) by (simp add: normalize_index_def Let_def p)
    next
      case 3
      then show ?thesis using False d a(2) by (simp add: normalize_index_def Let_def p)
    qed
  qed
qed

section \<open>Reading and writing a counter\<close>

lemma counts_get_direct_physical:
  assumes "shaped u m B h" "i < length (counts h)"
  shows "counts_get_direct h (normalize_index h (of_nat i)) = Some (logical_counts h ! i)"
  using normalize_index_physical[OF assms] physical_less[OF assms(1), of i] assms(2)
  by (simp add: counts_get_direct_def logical_counts_def)

lemma counts_set_direct_physical:
  assumes "shaped u m B h" "i < length (counts h)"
  shows "counts_set_direct h (normalize_index h (of_nat i)) c = Some (h\<lparr>counts := (counts h)[physical h i := c]\<rparr>)"
  using normalize_index_physical[OF assms] physical_less[OF assms(1), of i]
  by (simp add: counts_set_direct_def)

lemma logical_update:
  assumes "shaped u m B h" "i < length (counts h)" "counts h' = (counts h)[physical h i := c]"
    "normalizing_index_offset h' = normalizing_index_offset h"
  shows "logical_counts h' = (logical_counts h)[i := c]"
proof (rule nth_equalityI)
  fix j assume "j < length (logical_counts h')"
  then have j: "j < length (counts h)" by (simp add: assms(3))
  have "physical h' j = physical h j" by (simp add: physical_def assms(3,4))
  then show "logical_counts h' ! j = (logical_counts h)[i := c] ! j"
    using j assms(2) physical_inj[OF assms(1,2) j] physical_less[OF assms(1), of i]
    by (cases "i = j") (simp_all add: logical_counts_def assms(3))
qed (simp add: assms(3))

lemma shaped_cong:
  assumes "shaped u m B h" "unit_magnitude h' = unit_magnitude h"
    "sub_bucket_half_count_magnitude h' = sub_bucket_half_count_magnitude h"
    "sub_bucket_half_count h' = sub_bucket_half_count h" "sub_bucket_count h' = sub_bucket_count h"
    "sub_bucket_mask h' = sub_bucket_mask h" "bucket_count h' = bucket_count h" "counts_len h' = counts_len h"
    "length (counts h') = length (counts h)" "normalizing_index_offset h' = normalizing_index_offset h"
  shows "shaped u m B h'"
  using assms by (simp add: shaped_def)

section \<open>What a histogram has recorded\<close>

text \<open>\<open>rs\<close> is the list of the values that were recorded, with the counts they were recorded with.\<close>

definition count_in :: "nat \<Rightarrow> nat \<Rightarrow> (int64_t \<times> int64_t) list \<Rightarrow> nat \<Rightarrow> int64_t" where
  "count_in u m rs i = sum_list (map snd (filter (\<lambda>(v, c). idx u m (unat v) = i) rs))"

definition represents :: "nat \<Rightarrow> nat \<Rightarrow> nat \<Rightarrow> histogram \<Rightarrow> (int64_t \<times> int64_t) list \<Rightarrow> bool" where
  "represents u m B h rs \<longleftrightarrow>
     shaped u m B h \<and>
     (\<forall>v \<in> fst ` set rs. 0 \<le> sint v \<and> unat v < 2 ^ (u + m + B)) \<and>
     logical_counts h = map (count_in u m rs) [0..<length (counts h)] \<and>
     total_count h = sum_list (map snd rs) \<and>
     sint (max_value h) = Max (insert 0 (sint ` fst ` set rs)) \<and>
     sint (min_value h) = Min (insert (2 ^ 63 - 1) (sint ` {v \<in> fst ` set rs. v \<noteq> 0}))"

lemma fresh_represents:
  assumes "shaped u m B h" "fresh h"
  shows "represents u m B h []"
proof -
  have "logical_counts h = map (count_in u m []) [0..<length (counts h)]"
  proof (rule nth_equalityI)
    fix i assume i: "i < length (logical_counts h)"
    have "counts h ! physical h i = 0"
      using assms(2) physical_less[OF assms(1), of i] by (metis fresh_def nth_replicate)
    then show "logical_counts h ! i = map (count_in u m []) [0..<length (counts h)] ! i"
      using i by (simp add: logical_counts_def count_in_def)
  qed simp
  then show ?thesis using assms by (simp add: represents_def fresh_def INT64_MAX_def)
qed

lemma Min_insert2: "finite A \<Longrightarrow> Min (insert a (insert b A)) = min b (Min (insert a A))" for a :: int
  by (cases "A = {}") (simp_all add: min.left_commute min.commute)

lemma Max_insert2: "finite A \<Longrightarrow> Max (insert a (insert b A)) = max b (Max (insert a A))" for a :: int
  by (cases "A = {}") (simp_all add: max.left_commute max.commute)

lemma record_represents:
  assumes "represents u m B h rs" "0 \<le> sint v" "unat v < 2 ^ (u + m + B)"
  shows "\<exists>h'. hdr_record_values h v c = Some (True, h') \<and> represents u m B h' ((v, c) # rs)"
proof -
  let ?i = "idx u m (unat v)"
  have sh: "shaped u m B h" using assms(1) by (simp add: represents_def)
  note a = shaped_array[OF sh] and r = index_in_range[OF sh assms(2)]
  have i: "?i < length (counts h)" using assms(3) r(3,4) a(1) by simp
  have w: "counts_index_for h v = of_nat ?i" by (rule unat_low_size(4)[OF sh assms(2)])
  define h1 where "h1 = h\<lparr>counts := (counts h)[physical h ?i := logical_counts h ! ?i + c], total_count := total_count h + c\<rparr>"
  have rec: "hdr_record_values h v c = Some (True, update_min_max h1 v)"
    using assms(2) r(1,2) i a(2)
    by (simp add: hdr_record_values_def Let_def counts_inc_normalised_def w
        counts_get_direct_physical[OF sh i] counts_set_direct_physical[OF sh i] h1_def)
  have "logical_counts h1 = (logical_counts h)[?i := logical_counts h ! ?i + c]"
    by (rule logical_update[OF sh i]) (simp_all add: h1_def)
  then have "logical_counts (update_min_max h1 v) = (logical_counts h)[?i := logical_counts h ! ?i + c]"
    by (simp add: logical_counts_def physical_def update_min_max_def)
  moreover have "(logical_counts h)[?i := logical_counts h ! ?i + c] = map (count_in u m ((v, c) # rs)) [0..<length (counts h)]"
    using assms(1) i by (intro nth_equalityI) (auto simp: represents_def count_in_def nth_list_update add.commute)
  moreover have "shaped u m B (update_min_max h1 v)"
    by (rule shaped_cong[OF sh]) (simp_all add: update_min_max_def h1_def)
  moreover have "length (counts (update_min_max h1 v)) = length (counts h)" by (simp add: update_min_max_def h1_def)
  moreover have "sint (max_value (update_min_max h1 v)) = Max (insert 0 (sint ` fst ` set ((v, c) # rs)))"
  proof -
    have "sint (max_value (update_min_max h1 v)) = max (sint v) (sint (max_value h))"
      by (simp add: update_min_max_def h1_def)
    also have "\<dots> = max (sint v) (Max (insert 0 (sint ` fst ` set rs)))" using assms(1) by (simp only: represents_def)
    also have "\<dots> = Max (insert 0 (insert (sint v) (sint ` fst ` set rs)))" by (rule Max_insert2[symmetric]) simp
    finally show ?thesis by simp
  qed
  moreover have "sint (min_value (update_min_max h1 v)) = Min (insert (2 ^ 63 - 1) (sint ` {w \<in> fst ` set ((v, c) # rs). w \<noteq> 0}))"
  proof (cases "v = 0")
    case True
    then have "{w \<in> fst ` set ((v, c) # rs). w \<noteq> 0} = {w \<in> fst ` set rs. w \<noteq> 0}" by auto
    then show ?thesis using assms(1) True by (simp add: update_min_max_def h1_def represents_def)
  next
    case False
    then have "{w \<in> fst ` set ((v, c) # rs). w \<noteq> 0} = insert v {w \<in> fst ` set rs. w \<noteq> 0}" by auto
    then have s: "insert (2 ^ 63 - 1) (sint ` {w \<in> fst ` set ((v, c) # rs). w \<noteq> 0}) =
        insert (2 ^ 63 - 1) (insert (sint v) (sint ` {w \<in> fst ` set rs. w \<noteq> 0}))" by simp
    have "sint (min_value (update_min_max h1 v)) = min (sint v) (sint (min_value h))"
      using False by (simp add: update_min_max_def h1_def)
    also have "\<dots> = min (sint v) (Min (insert (2 ^ 63 - 1) (sint ` {w \<in> fst ` set rs. w \<noteq> 0})))"
      using assms(1) by (simp only: represents_def)
    also have "\<dots> = Min (insert (2 ^ 63 - 1) (insert (sint v) (sint ` {w \<in> fst ` set rs. w \<noteq> 0})))"
      by (rule Min_insert2[symmetric]) simp
    finally show ?thesis unfolding s .
  qed
  moreover have "total_count (update_min_max h1 v) = sum_list (map snd ((v, c) # rs))"
    using assms(1) by (simp add: represents_def update_min_max_def h1_def add.commute)
  moreover have "\<forall>w \<in> fst ` set ((v, c) # rs). 0 \<le> sint w \<and> unat w < 2 ^ (u + m + B)"
    using assms(2,3) assms(1)[unfolded represents_def, THEN conjunct2, THEN conjunct1] by simp
  ultimately have "represents u m B (update_min_max h1 v) ((v, c) # rs)"
    unfolding represents_def by (intro conjI) (simp_all only:)
  with rec show ?thesis by blast
qed

lemma record_refused:
  assumes "shaped u m B h" "sint v < 0 \<or> \<not> unat v < 2 ^ (u + m + B)"
  shows "hdr_record_values h v c = Some (False, h)"
proof (cases "sint v < 0")
  case False
  then have "\<not> sint (counts_index_for h v) < sint (counts_len h)"
    using assms index_in_range(4)[of u m B h v] by simp
  then show ?thesis by (simp add: hdr_record_values_def Let_def)
qed (simp add: hdr_record_values_def)

section \<open>Recording with the missed values filled in\<close>

lemma corrected_loop_represents:
  assumes "represents u m B h rs" "M < 2 ^ (u + m + B)" "M < 2 ^ 63" "0 < e" "e < 2 ^ 63"
  shows "\<exists>h'. corrected_loop h (of_nat M) c (of_nat e) = Some (True, h') \<and>
    represents u m B h' (rev (map (\<lambda>k. (of_nat (M - k * e), c)) [0..<M div e]) @ rs)"
  using assms
proof (induction M arbitrary: h rs rule: less_induct)
  case (less M)
  have s: "sint (of_nat M :: int64_t) = int M" "sint (of_nat e :: int64_t) = int e"
    using less(4,6) by (simp_all add: sint_of_nat64)
  have un: "unat (of_nat M :: int64_t) = M" using less(4) by (intro unat_of_nat64) simp
  show ?case
  proof (cases "e \<le> M")
    case False
    then show ?thesis using less(2) s by (subst corrected_loop.simps) simp
  next
    case True
    obtain h1 where h1: "hdr_record_values h (of_nat M) c = Some (True, h1)" "represents u m B h1 ((of_nat M, c) # rs)"
      using record_represents[OF less(2), of "of_nat M" c] s un less(3) by auto
    have "M - e < M" using less(5) True by simp
    then obtain h' where h': "corrected_loop h1 (of_nat (M - e)) c (of_nat e) = Some (True, h')"
      "represents u m B h' (rev (map (\<lambda>k. (of_nat (M - e - k * e), c)) [0..<(M - e) div e]) @ (of_nat M, c) # rs)"
      using less(1)[of "M - e" h1] h1(2) less(3-6) by fastforce
    have d: "M div e = Suc ((M - e) div e)" using True less(5) by (simp add: le_div_geq)
    have "map (\<lambda>k. (of_nat (M - k * e) :: int64_t, c)) [0..<M div e] =
        (of_nat M, c) # map (\<lambda>k. (of_nat (M - e - k * e), c)) [0..<(M - e) div e]"
      unfolding d upt_conv_Cons[OF zero_less_Suc] list.map
      by (simp add: map_Suc_upt[symmetric] comp_def del: upt_Suc)
    moreover have "corrected_loop h (of_nat M) c (of_nat e) = corrected_loop h1 (of_nat (M - e)) c (of_nat e)"
      using True s by (subst corrected_loop.simps) (simp add: h1(1) of_nat_diff)
    ultimately show ?thesis using h' by simp
  qed
qed

text \<open>
  Recording a value with an expected interval records the value and, in steps of the interval, every
  smaller value down to the interval, and returns.
\<close>

lemma corrected_represents:
  assumes "represents u m B h rs" "0 \<le> sint v" "unat v < 2 ^ (u + m + B)" "0 < sint e"
  shows "\<exists>h'. hdr_record_corrected_values h v c e = Some (True, h') \<and>
    represents u m B h'
      (rev (map (\<lambda>k. (v - of_nat k * e, c)) [0..<max 1 (unat v div unat e)]) @ rs)"
proof -
  let ?M = "unat v" and ?E = "unat e"
  have ve: "v = of_nat ?M" "e = of_nat ?E" by simp_all
  have M: "?M < 2 ^ 63" "sint v = int ?M" using assms(2) unat_less_half_iff[of v] sint_nonneg_unat[of v] by simp_all
  have E: "?E < 2 ^ 63" "sint e = int ?E" using assms(4) unat_less_half_iff[of e] sint_nonneg_unat[of e] by simp_all
  have E0: "0 < ?E" using assms(4) unfolding E(2) by (simp only: of_nat_0_less_iff)
  obtain h1 where h1: "hdr_record_values h v c = Some (True, h1)" "represents u m B h1 ((v, c) # rs)"
    using record_represents[OF assms(1-3)] by blast
  show ?thesis
  proof (cases "?M \<le> ?E")
    case True
    then have "max 1 (?M div ?E) = 1" by (cases "?M = ?E") (use E0 in auto)
    moreover have le: "sint v \<le> sint e" using True unfolding M(2) E(2) by (simp only: of_nat_le_iff)
    moreover have "hdr_record_corrected_values h v c e = Some (True, h1)"
      using h1(1) le by (simp add: hdr_record_corrected_values_def)
    ultimately show ?thesis using h1(2) by simp
  next
    case False
    have d: "?M div ?E = Suc ((?M - ?E) div ?E)" using False E0 by (simp add: le_div_geq)
    have ve': "v - e = of_nat (?M - ?E)" using False by (simp add: of_nat_diff)
    have "?M - ?E < 2 ^ (u + m + B)" "?M - ?E < 2 ^ 63"
      using le_less_trans[OF diff_le_self] assms(3) M(1) by blast+
    from corrected_loop_represents[OF h1(2) this E0 E(1)]
    obtain h' where h': "corrected_loop h1 (of_nat (?M - ?E)) c (of_nat ?E) = Some (True, h')"
      "represents u m B h' (rev (map (\<lambda>k. (of_nat (?M - ?E - k * ?E), c)) [0..<(?M - ?E) div ?E]) @ (v, c) # rs)"
      by blast
    have "of_nat (?M - ?E - k * ?E) = v - of_nat (Suc k) * e" if "k < (?M - ?E) div ?E" for k
    proof -
      have "Suc k * ?E \<le> ?M div ?E * ?E" using that d by (intro mult_le_mono1) simp
      also have "\<dots> \<le> ?M" by (rule div_times_less_eq_dividend)
      finally have le: "?E + k * ?E \<le> ?M" by simp
      then have "of_nat (?M - (?E + k * ?E)) = (of_nat ?M - (of_nat ?E + of_nat k * of_nat ?E) :: int64_t)"
        by (simp only: of_nat_diff of_nat_add of_nat_mult)
      then show ?thesis by (simp add: algebra_simps)
    qed
    then have "map (\<lambda>k. (v - of_nat k * e, c)) [0..<max 1 (?M div ?E)] =
        (v, c) # map (\<lambda>k. (of_nat (?M - ?E - k * ?E), c)) [0..<(?M - ?E) div ?E]"
      unfolding d max_0L max_Suc_Suc by (simp add: upt_conv_Cons map_Suc_upt[symmetric] del: upt_Suc)
    moreover have loop: "corrected_loop h1 (v - e) c e = Some (True, h')"
      using h'(1) unfolding ve'[symmetric] ve(2)[symmetric] .
    have "\<not> sint v \<le> sint e" "\<not> sint e \<le> 0"
      using False assms(4) unfolding M(2) E(2) by (simp_all only: of_nat_le_iff not_le)
    then have "hdr_record_corrected_values h v c e = Some (True, h')"
      using h1(1) loop by (simp add: hdr_record_corrected_values_def)
    ultimately show ?thesis using h'(2) by simp
  qed
qed

text \<open>The values that are recorded for one value, with any interval.\<close>

definition corrected_values :: "int64_t \<Rightarrow> int64_t \<times> int64_t \<Rightarrow> (int64_t \<times> int64_t) list" where
  "corrected_values e vc =
     (case vc of (v, c) \<Rightarrow>
        if 0 < sint e then map (\<lambda>k. (v - of_nat k * e, c)) [0..<max 1 (unat v div unat e)] else [(v, c)])"

lemma corrected_values_represents:
  assumes "represents u m B h rs" "0 \<le> sint v" "unat v < 2 ^ (u + m + B)"
  shows "\<exists>h'. hdr_record_corrected_values h v c e = Some (True, h') \<and>
    represents u m B h' (rev (corrected_values e (v, c)) @ rs)"
proof (cases "0 < sint e")
  case True
  then show ?thesis using corrected_represents[OF assms True] by (simp add: corrected_values_def)
next
  case False
  obtain h1 where "hdr_record_values h v c = Some (True, h1)" "represents u m B h1 ((v, c) # rs)"
    using record_represents[OF assms] by blast
  then show ?thesis using False by (simp add: hdr_record_corrected_values_def corrected_values_def)
qed

section \<open>Properties of recording\<close>

text \<open>
  C38. Recording refines adding to a list: a value is taken exactly when it is not negative and below
  what the buckets cover; then the histogram represents the list with the value in front -- every
  counter, the total, the least and the greatest value -- and otherwise it is unchanged.
\<close>

theorem recording_refines:
  assumes "represents u m B h rs"
  shows "\<exists>recorded h'. hdr_record_values h v c = Some (recorded, h') \<and>
    (recorded \<longleftrightarrow> 0 \<le> sint v \<and> unat v < 2 ^ (u + m + B)) \<and>
    represents u m B h' (if recorded then (v, c) # rs else rs) \<and> (\<not> recorded \<longrightarrow> h' = h)"
proof (cases "0 \<le> sint v \<and> unat v < 2 ^ (u + m + B)")
  case True
  then show ?thesis using record_represents[OF assms] by fastforce
next
  case False
  have "shaped u m B h" using assms by (simp add: represents_def)
  then have "hdr_record_values h v c = Some (False, h)" by (rule record_refused) (use False in auto)
  then show ?thesis using assms False by auto
qed

lemma demo_represents: "represents 0 4 6 demo_histogram []"
  by (rule fresh_represents[OF demo_shaped])
    (simp add: fresh_def demo_histogram_eq demo_record_def zeroed_def)

theorem recording_refines_witness:
  "(\<exists>h'. hdr_record_values demo_histogram 999 3 = Some (True, h') \<and> represents 0 4 6 h' [(999, 3)]) \<and>
   hdr_record_values demo_histogram 1024 3 = Some (False, demo_histogram)"
  using recording_refines[OF demo_represents, of 999 3] recording_refines[OF demo_represents, of 1024 3] by auto

end
