(* ===== verification/HistogramIter.thy ===== *)
theory HistogramIter
  imports HistogramRecord
begin

text \<open>
  The iterators of \<^verbatim>\<open>hdr_histogram.c\<close> and the two functions that add one histogram to another. The
  iterator's pointer to its histogram is an argument; the members of its union are fields of their
  own, and the function pointer \<^verbatim>\<open>_next_fp\<close> is a value of \<open>next_fp\<close>. The percentile and logarithmic
  iterators, which step in \<^verbatim>\<open>double\<close>, are left out. \<open>None\<close> is an access outside the counters, or a
  loop that does not end.
\<close>

datatype next_fp = Basic_next | Recorded_next | Linear_next

record hdr_iter =
  it_bucket_index :: int32_t
  it_sub_bucket_index :: int32_t
  it_count_at_index :: int64_t
  it_count_to_index :: int64_t
  it_value_from_index :: int64_t
  it_highest_equivalent_value :: int64_t
  rec_count_added :: int64_t
  lin_value_units_per_bucket :: int64_t
  lin_count_added :: int64_t
  lin_next_value_reporting_level :: int64_t
  lin_next_value_reporting_level_lowest_equivalent :: int64_t
  it_next_fp :: next_fp

definition has_buckets :: "histogram \<Rightarrow> hdr_iter \<Rightarrow> bool" where
  "has_buckets h iter \<longleftrightarrow> sint (it_bucket_index iter) < sint (bucket_count h)"

definition has_next :: "histogram \<Rightarrow> hdr_iter \<Rightarrow> bool" where
  "has_next h iter \<longleftrightarrow> sint (it_count_to_index iter) < sint (total_count h)"

definition increment_bucket :: "histogram \<Rightarrow> int32_t \<Rightarrow> int32_t \<Rightarrow> int32_t \<times> int32_t" where
  "increment_bucket h bucket_index sub_bucket_index =
     (let sub_bucket_index = sub_bucket_index + 1
      in if sint (sub_bucket_count h) \<le> sint sub_bucket_index then (bucket_index + 1, sub_bucket_half_count h)
         else (bucket_index, sub_bucket_index))"

definition move_next :: "histogram \<Rightarrow> hdr_iter \<Rightarrow> (bool \<times> hdr_iter) option" where
  "move_next h iter =
     (let (bucket_index, sub_bucket_index) = increment_bucket h (it_bucket_index iter) (it_sub_bucket_index iter);
          iter = iter\<lparr>it_bucket_index := bucket_index, it_sub_bucket_index := sub_bucket_index\<rparr>
      in if \<not> has_buckets h iter then Some (False, iter)
         else map_option
           (\<lambda>count.
             let iter = iter\<lparr>it_count_at_index := count, it_count_to_index := it_count_to_index iter + count\<rparr>;
                 iter = iter\<lparr>it_value_from_index := value_from_index bucket_index sub_bucket_index (unit_magnitude h)\<rparr>
             in (True, iter\<lparr>it_highest_equivalent_value := highest_equivalent_value h (it_value_from_index iter)\<rparr>))
           (get_count_at_index h bucket_index sub_bucket_index))"

definition peek_next_value_from_index :: "histogram \<Rightarrow> hdr_iter \<Rightarrow> int64_t" where
  "peek_next_value_from_index h iter =
     (let (bucket_index, sub_bucket_index) = increment_bucket h (it_bucket_index iter) (it_sub_bucket_index iter)
      in value_from_index bucket_index sub_bucket_index (unit_magnitude h))"

text \<open>What \<^verbatim>\<open>move_next\<close> returns is not looked at.\<close>

definition basic_iter_next :: "histogram \<Rightarrow> hdr_iter \<Rightarrow> (bool \<times> hdr_iter) option" where
  "basic_iter_next h iter =
     (if \<not> has_next h iter then Some (False, iter)
      else map_option (\<lambda>(moved, iter). (True, iter)) (move_next h iter))"

definition hdr_iter_init :: "hdr_iter \<Rightarrow> hdr_iter" where
  "hdr_iter_init itr =
     itr\<lparr>it_bucket_index := 0, it_sub_bucket_index := - 1, it_count_at_index := 0, it_count_to_index := 0,
         it_value_from_index := 0, it_highest_equivalent_value := 0, it_next_fp := Basic_next\<rparr>"

partial_function (option) recorded_iter_next :: "histogram \<Rightarrow> hdr_iter \<Rightarrow> (bool \<times> hdr_iter) option" where
  "recorded_iter_next h iter =
     (case basic_iter_next h iter of
        None \<Rightarrow> None
      | Some (found, iter) \<Rightarrow>
          if \<not> found then Some (False, iter)
          else if it_count_at_index iter \<noteq> 0 then Some (True, iter\<lparr>rec_count_added := it_count_at_index iter\<rparr>)
          else recorded_iter_next h iter)"

definition hdr_iter_recorded_init :: "hdr_iter \<Rightarrow> hdr_iter" where
  "hdr_iter_recorded_init iter = (hdr_iter_init iter)\<lparr>rec_count_added := 0, it_next_fp := Recorded_next\<rparr>"

partial_function (option) linear_loop :: "histogram \<Rightarrow> hdr_iter \<Rightarrow> (bool \<times> hdr_iter) option" where
  "linear_loop h iter =
     (if sint (lin_next_value_reporting_level_lowest_equivalent iter) \<le> sint (it_value_from_index iter)
      then
        let iter = iter\<lparr>lin_next_value_reporting_level :=
                          lin_next_value_reporting_level iter + lin_value_units_per_bucket iter\<rparr>
        in Some (True, iter\<lparr>lin_next_value_reporting_level_lowest_equivalent :=
             lowest_equivalent_value h (lin_next_value_reporting_level iter)\<rparr>)
      else case move_next h iter of
             None \<Rightarrow> None
           | Some (moved, iter) \<Rightarrow>
               if \<not> moved then Some (False, iter)
               else linear_loop h (iter\<lparr>lin_count_added := lin_count_added iter + it_count_at_index iter\<rparr>))"

definition iter_linear_next :: "histogram \<Rightarrow> hdr_iter \<Rightarrow> (bool \<times> hdr_iter) option" where
  "iter_linear_next h iter =
     (let iter = iter\<lparr>lin_count_added := 0\<rparr>
      in if has_next h iter \<or>
            sint (lin_next_value_reporting_level_lowest_equivalent iter) < sint (peek_next_value_from_index h iter)
         then linear_loop h iter else Some (False, iter))"

definition hdr_iter_linear_init :: "histogram \<Rightarrow> int64_t \<Rightarrow> hdr_iter \<Rightarrow> hdr_iter" where
  "hdr_iter_linear_init h value_units_per_bucket iter =
     (hdr_iter_init iter)\<lparr>lin_count_added := 0,
       lin_value_units_per_bucket := value_units_per_bucket,
       lin_next_value_reporting_level := value_units_per_bucket,
       lin_next_value_reporting_level_lowest_equivalent := lowest_equivalent_value h value_units_per_bucket,
       it_next_fp := Linear_next\<rparr>"

definition hdr_iter_next :: "histogram \<Rightarrow> hdr_iter \<Rightarrow> (bool \<times> hdr_iter) option" where
  "hdr_iter_next h iter =
     (case it_next_fp iter of
        Basic_next \<Rightarrow> basic_iter_next h iter
      | Recorded_next \<Rightarrow> recorded_iter_next h iter
      | Linear_next \<Rightarrow> iter_linear_next h iter)"

text \<open>
  The two functions that add a histogram share their loop: they hand each entry to \<open>record\<close>, and count
  what it refuses. \<open>from\<close> is another histogram than the one that is added to.
\<close>

partial_function (option) add_loop ::
    "(histogram \<Rightarrow> int64_t \<Rightarrow> int64_t \<Rightarrow> (bool \<times> histogram) option) \<Rightarrow>
     histogram \<Rightarrow> histogram \<Rightarrow> hdr_iter \<Rightarrow> int64_t \<Rightarrow> (int64_t \<times> histogram) option" where
  "add_loop recording h from_h iter dropped =
     (case hdr_iter_next from_h iter of
        None \<Rightarrow> None
      | Some (found, iter) \<Rightarrow>
          if \<not> found then Some (dropped, h)
          else case recording h (it_value_from_index iter) (it_count_at_index iter) of
                 None \<Rightarrow> None
               | Some (recorded, h) \<Rightarrow>
                   add_loop recording h from_h iter (if recorded then dropped else dropped + it_count_at_index iter))"

definition hdr_add :: "hdr_iter \<Rightarrow> histogram \<Rightarrow> histogram \<Rightarrow> (int64_t \<times> histogram) option" where
  "hdr_add iter h from_h = add_loop hdr_record_values h from_h (hdr_iter_recorded_init iter) 0"

definition hdr_add_while_correcting_for_coordinated_omission ::
    "hdr_iter \<Rightarrow> histogram \<Rightarrow> histogram \<Rightarrow> int64_t \<Rightarrow> (int64_t \<times> histogram) option" where
  "hdr_add_while_correcting_for_coordinated_omission iter h from_h expected_interval =
     add_loop (\<lambda>h v c. hdr_record_corrected_values h v c expected_interval) h from_h (hdr_iter_recorded_init iter) 0"

section \<open>Where an iterator stands\<close>

text \<open>
  After \<open>p\<close> moves an iterator stands at the counter \<open>p - 1\<close>. \<open>cut\<close> is what the 32-bit result of
  \<^verbatim>\<open>counts_get_normalised\<close> leaves of a count.
\<close>

definition cut :: "int64_t \<Rightarrow> int64_t" where
  "cut c = scast (ucast c :: int32_t)"

definition stands_at :: "nat \<Rightarrow> nat \<Rightarrow> histogram \<Rightarrow> nat \<Rightarrow> hdr_iter \<Rightarrow> bool" where
  "stands_at u m h p iter \<longleftrightarrow>
     (if p = 0 then it_bucket_index iter = 0 \<and> it_sub_bucket_index iter = - 1
      else it_bucket_index iter = of_nat (bkt_of m (p - 1)) \<and> it_sub_bucket_index iter = of_nat (sub_of m (p - 1)) \<and>
        it_value_from_index iter = of_nat (val_at u m (p - 1)) \<and>
        it_count_at_index iter = cut (logical_counts h ! (p - 1))) \<and>
     it_count_to_index iter = sum_list (map cut (take p (logical_counts h)))"

lemma succ_index:
  "sub_of m (Suc i) = (if sub_of m i + 1 < 2 ^ (m + 1) then sub_of m i + 1 else 2 ^ m)"
  "bkt_of m (Suc i) = (if sub_of m i + 1 < 2 ^ (m + 1) then bkt_of m i else bkt_of m i + 1)"
proof -
  have s: "sub_of m i < 2 ^ (m + 1)" "0 < bkt_of m i \<Longrightarrow> 2 ^ m \<le> sub_of m i"
    by (auto simp: sub_of_def bkt_of_def)
  have i: "i = bkt_of m i * 2 ^ m + sub_of m i"
    using decode_idx[of m 0 "val_at 0 m i"] idx_val_at[of 0 m i] by (metis idx_def)
  show "sub_of m (Suc i) = (if sub_of m i + 1 < 2 ^ (m + 1) then sub_of m i + 1 else 2 ^ m)"
    "bkt_of m (Suc i) = (if sub_of m i + 1 < 2 ^ (m + 1) then bkt_of m i else bkt_of m i + 1)"
  proof -
    have "sub_of m (Suc i) = (if sub_of m i + 1 < 2 ^ (m + 1) then sub_of m i + 1 else 2 ^ m) \<and>
      bkt_of m (Suc i) = (if sub_of m i + 1 < 2 ^ (m + 1) then bkt_of m i else bkt_of m i + 1)"
    proof (cases "sub_of m i + 1 < 2 ^ (m + 1)")
      case True
      have "Suc i = bkt_of m i * 2 ^ m + (sub_of m i + 1)" using i by linarith
      then show ?thesis
        using decode[of "sub_of m i + 1" m "bkt_of m i"] True s(2) by (metis le_SucI Suc_eq_plus1)
    next
      case False
      then have "sub_of m i + 1 = 2 ^ m + 2 ^ m" using s(1) by simp
      then have "Suc i = (bkt_of m i + 1) * 2 ^ m + 2 ^ m" using i by (simp add: algebra_simps)
      moreover have "(2::nat) ^ m < 2 ^ (m + 1)" by simp
      ultimately show ?thesis using decode[of "2 ^ m" m "bkt_of m i + 1"] False by (metis order_refl)
    qed
    then show "sub_of m (Suc i) = (if sub_of m i + 1 < 2 ^ (m + 1) then sub_of m i + 1 else 2 ^ m)"
      "bkt_of m (Suc i) = (if sub_of m i + 1 < 2 ^ (m + 1) then bkt_of m i else bkt_of m i + 1)" by blast+
  qed
qed

lemma bkt_of_less_iff: "0 < B \<Longrightarrow> bkt_of m i < B \<longleftrightarrow> i < (B + 1) * 2 ^ m"
proof -
  assume "0 < B"
  have "bkt_of m i < B \<longleftrightarrow> i div 2 ^ m < B + 1" using \<open>0 < B\<close> by (auto simp: bkt_of_def)
  also have "\<dots> \<longleftrightarrow> i < (B + 1) * 2 ^ m" by (simp add: div_less_iff_less_mult)
  finally show ?thesis .
qed

lemma increment_bucket_stands:
  assumes "shaped u m B h" "stands_at u m h p iter"
  shows "increment_bucket h (it_bucket_index iter) (it_sub_bucket_index iter) = (of_nat (bkt_of m p), of_nat (sub_of m p))"
proof -
  have sh: "sub_bucket_count h = of_nat (2 ^ (m + 1))" "sub_bucket_half_count h = of_nat (2 ^ m)" "m + 1 \<le> 18"
    using assms(1) by (simp_all add: shaped_def)
  have le: "(2::nat) ^ (m + 1) \<le> 2 ^ 18" using sh(3) by (rule power_increasing) simp
  have cnt: "sint (sub_bucket_count h) = int (2 ^ (m + 1))" unfolding sh(1) using le by (intro sint_of_nat32) simp
  show ?thesis
  proof (cases p)
    case 0
    then show ?thesis using assms(2) cnt
      by (simp add: stands_at_def increment_bucket_def bkt_of_def sub_of_def)
  next
    case (Suc i)
    then have it: "it_bucket_index iter = of_nat (bkt_of m i)" "it_sub_bucket_index iter = of_nat (sub_of m i)"
      using assms(2) by (simp_all add: stands_at_def)
    have s: "sub_of m i < 2 ^ (m + 1)" by (auto simp: sub_of_def)
    then have "sub_of m i + 1 < 2 ^ 31" using le by simp
    then have "sint (of_nat (sub_of m i + 1) :: int32_t) = int (sub_of m i + 1)" by (rule sint_of_nat32)
    then have "sint (sub_bucket_count h) \<le> sint (of_nat (sub_of m i) + 1 :: int32_t) \<longleftrightarrow> \<not> sub_of m i + 1 < 2 ^ (m + 1)"
      unfolding cnt by (metis not_less of_nat_le_iff of_nat_Suc Suc_eq_plus1 add.commute)
    then show ?thesis
      unfolding it increment_bucket_def Let_def Suc succ_index sh(2) by (simp add: add.commute)
  qed
qed

lemma get_count_at_index_nat:
  assumes "shaped u m B h" "p < length (counts h)"
  shows "get_count_at_index h (of_nat (bkt_of m p)) (of_nat (sub_of m p)) = Some (cut (logical_counts h ! p))"
proof -
  have "bkt_of m p * 2 ^ m + sub_of m p = p"
    using idx_val_at[of 0 m p] decode_idx[of m 0 "val_at 0 m p"] by (metis idx_def)
  then show ?thesis
    unfolding get_count_at_index_def counts_index_nat[OF assms(1)] counts_get_normalised_def
    by (simp add: counts_get_direct_physical[OF assms] cut_def)
qed

lemma move_next_stands:
  assumes "shaped u m B h" "stands_at u m h p iter" "p < length (counts h)"
  shows "\<exists>iter'. move_next h iter = Some (True, iter') \<and> stands_at u m h (Suc p) iter' \<and>
    it_next_fp iter' = it_next_fp iter"
proof -
  have B: "bucket_count h = of_nat B" "0 < B" "B \<le> 63" "unit_magnitude h = of_nat u"
    using assms(1) shaped_bounds[OF assms(1)] by (simp_all add: shaped_def)
  have p: "p < (B + 1) * 2 ^ m" using assms(3) shaped_array(1)[OF assms(1)] by simp
  then have b: "bkt_of m p < B" by (simp add: bkt_of_less_iff[OF B(2)])
  have "sint (of_nat (bkt_of m p) :: int32_t) = int (bkt_of m p)" "sint (of_nat B :: int32_t) = int B"
    using b B(3) by (intro sint_of_nat32; simp)+
  then have hb: "has_buckets h (iter\<lparr>it_bucket_index := of_nat (bkt_of m p), it_sub_bucket_index := of_nat (sub_of m p)\<rparr>)"
    using b by (simp add: has_buckets_def B(1))
  have "(2::nat) ^ (m + 1) \<le> 2 ^ 18" using shaped_bounds(4)[OF assms(1)] by (intro power_increasing) auto
  moreover have "sub_of m p < 2 ^ (m + 1)" by (auto simp: sub_of_def)
  ultimately have s: "sub_of m p < 2 ^ 31" by simp
  have v: "value_from_index (of_nat (bkt_of m p)) (of_nat (sub_of m p)) (unit_magnitude h) = of_nat (val_at u m p)"
    unfolding val_at_def using s less_shape_bkt(1)[OF assms(1) p] B(4) by (rule value_from_index_nat)
  show ?thesis
    unfolding move_next_def increment_bucket_stands[OF assms(1,2)] Let_def case_prod_conv
    using hb assms(2,3)
    by (simp add: get_count_at_index_nat[OF assms(1,3)] v stands_at_def take_Suc_conv_app_nth)
qed

section \<open>Iterating over the recorded values\<close>

text \<open>
  A histogram is \<open>iterable\<close> when its total is the sum of its counts, as after recording, and no count
  has outgrown the 32 bits it is read with.
\<close>

definition iterable :: "histogram \<Rightarrow> bool" where
  "iterable h \<longleftrightarrow>
     total_count h = sum_list (logical_counts h) \<and>
     (\<forall>c \<in> set (logical_counts h). 0 \<le> sint c \<and> sint c < 2 ^ 31)"

definition entries_from :: "nat \<Rightarrow> nat \<Rightarrow> histogram \<Rightarrow> nat \<Rightarrow> (int64_t \<times> int64_t) list" where
  "entries_from u m h p =
     filter (\<lambda>(v, c). c \<noteq> 0) (map (\<lambda>i. (of_nat (val_at u m i), logical_counts h ! i)) [p..<length (counts h)])"

lemma unat_less_31:
  assumes "0 \<le> sint c" "sint c < 2 ^ 31"
  shows "unat (c :: int64_t) < 2 ^ 31"
proof -
  have "int (unat c) < int (2 ^ 31)"
    using assms(2) unfolding sint_nonneg_unat[OF assms(1)] by (simp only: of_nat_power of_nat_numeral)
  then show ?thesis by (simp only: of_nat_less_iff)
qed

lemma cut_small:
  assumes "0 \<le> sint c" "sint c < 2 ^ 31"
  shows "cut c = c"
proof -
  have n: "unat c < 2 ^ 31" by (rule unat_less_31[OF assms])
  then have "(ucast (of_nat (unat c) :: int64_t) :: int32_t) = of_nat (unat c)" by (intro ucast_nat32) simp
  then have "cut (of_nat (unat c)) = of_nat (unat c)" unfolding cut_def by (simp only: scast_of_nat[OF n])
  then show ?thesis by simp
qed

lemma unat_sum_list:
  assumes "sum_list (map unat xs) < 2 ^ 63"
  shows "sint (sum_list xs :: int64_t) = int (sum_list (map unat xs))"
proof -
  have "sum_list xs = of_nat (sum_list (map unat xs))" by (induction xs) simp_all
  then show ?thesis using sint_of_nat64[OF assms] by simp
qed

lemma sum_list_bound: "(\<And>x. x \<in> set xs \<Longrightarrow> x \<le> (k :: nat)) \<Longrightarrow> sum_list xs \<le> length xs * k"
  by (induction xs) (auto intro: add_mono)

lemma has_next_iff:
  assumes "shaped u m B h" "iterable h" "stands_at u m h p iter"
  shows "has_next h iter \<longleftrightarrow> (\<exists>c \<in> set (drop p (logical_counts h)). c \<noteq> 0)"
proof -
  let ?cs = "logical_counts h"
  have small: "unat c \<le> 2 ^ 31" "cut c = c" if "c \<in> set ?cs" for c
  proof -
    have c: "0 \<le> sint c" "sint c < 2 ^ 31" using assms(2) that by (simp_all add: iterable_def)
    show "cut c = c" using c by (rule cut_small)
    show "unat c \<le> 2 ^ 31" using unat_less_31[OF c] by (rule less_imp_le)
  qed
  have "sum_list (map unat ?cs) \<le> length (map unat ?cs) * 2 ^ 31"
    using small(1) by (intro sum_list_bound) auto
  also have "\<dots> \<le> 2 ^ 23 * 2 ^ 31" using shaped_array(4)[OF assms(1)] by (intro mult_le_mono1) simp
  finally have all: "sum_list (map unat ?cs) < 2 ^ 63" by simp
  have split: "sum_list (map unat ?cs) = sum_list (map unat (take p ?cs)) + sum_list (map unat (drop p ?cs))"
    by (metis append_take_drop_id map_append sum_list_append)
  have "map cut (take p ?cs) = take p ?cs" by (rule map_idI) (rule small(2)[OF in_set_takeD])
  then have "it_count_to_index iter = sum_list (take p ?cs)" using assms(3) by (simp add: stands_at_def)
  then have to: "sint (it_count_to_index iter) = int (sum_list (map unat (take p ?cs)))"
    using unat_sum_list[of "take p ?cs"] split all by simp
  have zero: "sum_list (map unat (drop p ?cs)) = 0 \<longleftrightarrow> (\<forall>c \<in> set (drop p ?cs). c = 0)"
    by (simp add: unat_eq_zero)
  have "sint (total_count h) = int (sum_list (map unat ?cs))"
    using assms(2) unat_sum_list[OF all] by (simp add: iterable_def)
  then have "has_next h iter \<longleftrightarrow> 0 < sum_list (map unat (drop p ?cs))"
    unfolding has_next_def to split by simp
  also have "\<dots> \<longleftrightarrow> (\<exists>c \<in> set (drop p ?cs). c \<noteq> 0)"
    unfolding neq0_conv[symmetric] zero by blast
  finally show ?thesis .
qed

lemma entries_step:
  "p < length (counts h) \<Longrightarrow> entries_from u m h p =
     (if logical_counts h ! p = 0 then entries_from u m h (Suc p)
      else (of_nat (val_at u m p), logical_counts h ! p) # entries_from u m h (Suc p))"
  by (simp add: entries_from_def upt_conv_Cons)

lemma entries_Nil_iff:
  "entries_from u m h p = [] \<longleftrightarrow> \<not> (\<exists>c \<in> set (drop p (logical_counts h)). c \<noteq> 0)"
proof -
  have "drop p (logical_counts h) = map (\<lambda>i. logical_counts h ! i) [p..<length (counts h)]"
    by (rule nth_equalityI) simp_all
  then show ?thesis by (auto simp: entries_from_def filter_empty_conv)
qed

lemma recorded_next_stands:
  assumes "shaped u m B h" "iterable h" "stands_at u m h p iter" "p \<le> length (counts h)"
  shows "case entries_from u m h p of
      [] \<Rightarrow> recorded_iter_next h iter = Some (False, iter)
    | (v, c) # es \<Rightarrow> \<exists>q iter'. recorded_iter_next h iter = Some (True, iter') \<and> stands_at u m h q iter' \<and>
        q \<le> length (counts h) \<and> p < q \<and> it_value_from_index iter' = v \<and> it_count_at_index iter' = c \<and>
        entries_from u m h q = es \<and> it_next_fp iter' = it_next_fp iter"
  using assms(3,4)
proof (induction "length (counts h) - p" arbitrary: p iter)
  case 0
  then have "entries_from u m h p = []" by (simp add: entries_from_def)
  moreover from this have "\<not> has_next h iter"
    using has_next_iff[OF assms(1,2) 0(2)] entries_Nil_iff[of u m h p] by simp
  ultimately show ?case by (subst recorded_iter_next.simps) (simp add: basic_iter_next_def)
next
  case (Suc d)
  then have p: "p < length (counts h)" by simp
  note hn = has_next_iff[OF assms(1,2) Suc(3)]
  show ?case
  proof (cases "entries_from u m h p")
    case Nil
    then have "\<not> has_next h iter" using hn entries_Nil_iff[of u m h p] by simp
    then show ?thesis using Nil by (subst recorded_iter_next.simps) (simp add: basic_iter_next_def)
  next
    case (Cons e es)
    then have more: "has_next h iter" using hn entries_Nil_iff[of u m h p] by simp
    obtain iter1 where i1: "move_next h iter = Some (True, iter1)" "stands_at u m h (Suc p) iter1"
      "it_next_fp iter1 = it_next_fp iter"
      using move_next_stands[OF assms(1) Suc(3) p] by blast
    have basic: "basic_iter_next h iter = Some (True, iter1)" using more i1(1) by (simp add: basic_iter_next_def)
    have "logical_counts h ! p \<in> set (logical_counts h)" using p by simp
    then have "cut (logical_counts h ! p) = logical_counts h ! p"
      using assms(2) by (intro cut_small) (simp_all add: iterable_def)
    then have cnt: "it_count_at_index iter1 = logical_counts h ! p" using i1(2) by (simp add: stands_at_def)
    show ?thesis
    proof (cases "logical_counts h ! p = 0")
      case True
      have "d = length (counts h) - Suc p" "Suc p \<le> length (counts h)" using Suc(2) p by simp_all
      note ih = Suc(1)[OF this(1) i1(2) this(2)]
      have "entries_from u m h (Suc p) = e # es" using entries_step[OF p, of u m] Cons True by simp
      moreover have "recorded_iter_next h iter = recorded_iter_next h iter1"
        by (subst recorded_iter_next.simps) (simp add: basic cnt True)
      ultimately show ?thesis
        using ih i1(3) Cons by (auto split: prod.splits intro: Suc_lessD)
    next
      case False
      let ?iter = "iter1\<lparr>rec_count_added := it_count_at_index iter1\<rparr>"
      have "recorded_iter_next h iter = Some (True, ?iter)"
        by (subst recorded_iter_next.simps) (simp add: basic cnt False)
      moreover have "stands_at u m h (Suc p) ?iter" using i1(2) by (simp add: stands_at_def)
      moreover have "e = (of_nat (val_at u m p), logical_counts h ! p)" "es = entries_from u m h (Suc p)"
        using entries_step[OF p, of u m] Cons False by simp_all
      moreover have "it_value_from_index ?iter = of_nat (val_at u m p)" using i1(2) by (simp add: stands_at_def)
      ultimately show ?thesis using Cons cnt i1(3) p by (auto intro!: exI[of _ "Suc p"])
    qed
  qed
qed

fun record_all ::
    "(histogram \<Rightarrow> int64_t \<Rightarrow> int64_t \<Rightarrow> (bool \<times> histogram) option) \<Rightarrow> histogram \<Rightarrow> int64_t \<Rightarrow>
     (int64_t \<times> int64_t) list \<Rightarrow> (int64_t \<times> histogram) option" where
  "record_all recording h dropped [] = Some (dropped, h)"
| "record_all recording h dropped ((v, c) # es) =
     (case recording h v c of
        None \<Rightarrow> None
      | Some (recorded, h) \<Rightarrow> record_all recording h (if recorded then dropped else dropped + c) es)"

lemma add_loop_record_all:
  assumes "shaped u m B f" "iterable f" "stands_at u m f p iter" "p \<le> length (counts f)" "it_next_fp iter = Recorded_next"
  shows "add_loop recording h f iter dropped = record_all recording h dropped (entries_from u m f p)"
  using assms(3-5)
proof (induction "length (counts f) - p" arbitrary: p iter h dropped rule: less_induct)
  case less
  note nx = recorded_next_stands[OF assms(1,2) less(2,3)]
  show ?case
  proof (cases "entries_from u m f p")
    case Nil
    then show ?thesis using nx less(4) by (subst add_loop.simps) (simp add: hdr_iter_next_def)
  next
    case (Cons e es)
    obtain v c where e: "e = (v, c)" by (cases e)
    from nx Cons e obtain q iter' where it: "recorded_iter_next f iter = Some (True, iter')"
      "stands_at u m f q iter'" "q \<le> length (counts f)" "p < q" "it_value_from_index iter' = v"
      "it_count_at_index iter' = c" "entries_from u m f q = es" "it_next_fp iter' = it_next_fp iter" by auto
    have "length (counts f) - q < length (counts f) - p" using it(3,4) by linarith
    from less(1)[OF this it(2,3)] have ih:
      "add_loop recording h f iter' dropped = record_all recording h dropped es" for h dropped
      using it(7,8) less(4) by simp
    show ?thesis
      by (subst add_loop.simps) (simp add: hdr_iter_next_def less(4) it Cons e ih split: option.split)
  qed
qed

lemma add_loop_entries:
  assumes "shaped u m B f" "iterable f"
  shows "add_loop recorder h f (hdr_iter_recorded_init iter) 0 = record_all recorder h 0 (entries_from u m f 0)"
proof -
  have "stands_at u m f 0 (hdr_iter_recorded_init iter)"
    by (simp add: stands_at_def hdr_iter_recorded_init_def hdr_iter_init_def)
  then show ?thesis
    by (rule add_loop_record_all[OF assms _ le0]) (simp add: hdr_iter_recorded_init_def)
qed

section \<open>Adding a histogram\<close>

definition fits :: "nat \<Rightarrow> nat \<Rightarrow> nat \<Rightarrow> int64_t \<times> int64_t \<Rightarrow> bool" where
  "fits u m B e \<longleftrightarrow> 0 \<le> sint (fst e) \<and> unat (fst e) < 2 ^ (u + m + B)"

lemma record_all_represents:
  assumes "represents u m B h rs"
  shows "\<exists>h'. record_all hdr_record_values h d es = Some (d + sum_list (map snd (filter (\<lambda>e. \<not> fits u m B e) es)), h') \<and>
    represents u m B h' (rev (filter (fits u m B) es) @ rs)"
  using assms
proof (induction es arbitrary: h d rs)
  case (Cons e es)
  obtain v c where e: "e = (v, c)" by (cases e)
  show ?case
  proof (cases "fits u m B e")
    case True
    then obtain h1 where "hdr_record_values h v c = Some (True, h1)" "represents u m B h1 ((v, c) # rs)"
      using record_represents[OF Cons(2), of v c] by (auto simp: fits_def e)
    then show ?thesis using Cons(1)[of h1 "(v, c) # rs" d] True by (simp add: e)
  next
    case False
    have "shaped u m B h" using Cons(2) by (simp add: represents_def)
    then have "hdr_record_values h v c = Some (False, h)"
      by (rule record_refused) (use False in \<open>auto simp: fits_def e\<close>)
    then show ?thesis using Cons(1)[OF Cons(2), of "d + c"] False by (simp add: e add.assoc)
  qed
qed simp

lemma count_in_append [simp]: "count_in u m (xs @ ys) i = count_in u m xs i + count_in u m ys i"
  by (simp add: count_in_def)

lemma count_in_rev [simp]: "count_in u m (rev xs) i = count_in u m xs i"
  by (simp add: count_in_def flip: rev_filter rev_map)

lemma count_in_Nil [simp]: "count_in u m [] i = 0"
  by (simp add: count_in_def)

lemma count_in_Cons: "count_in u m ((v, c) # rs) i = (if idx u m (unat v) = i then c else 0) + count_in u m rs i"
  by (simp add: count_in_def)

lemma unat_val_at:
  assumes "shaped u m B h" "i < length (counts h)"
  shows "unat (of_nat (val_at u m i) :: int64_t) = val_at u m i" "fits u m B (of_nat (val_at u m i), c)"
proof -
  have "i < (B + 1) * 2 ^ m" using assms shaped_array(1)[OF assms(1)] by simp
  note v = val_at_less[OF assms(1) this]
  show un: "unat (of_nat (val_at u m i) :: int64_t) = val_at u m i" using v(2) by (intro unat_of_nat64) simp
  show "fits u m B (of_nat (val_at u m i), c)" using v sint_of_nat64[OF v(2)] by (simp add: fits_def un)
qed

lemma count_in_entries:
  assumes "shaped u m B h" "p \<le> length (counts h)" "i < length (counts h)"
  shows "count_in u m (entries_from u m h p) i = (if p \<le> i then logical_counts h ! i else 0)"
  using assms(2)
proof (induction "length (counts h) - p" arbitrary: p)
  case 0
  then show ?case using assms(3) by (simp add: entries_from_def)
next
  case (Suc d)
  then have p: "p < length (counts h)" "d = length (counts h) - Suc p" by simp_all
  have "idx u m (unat (of_nat (val_at u m p) :: int64_t)) = p"
    by (simp only: unat_val_at(1)[OF assms(1) p(1)] idx_val_at)
  then show ?case using Suc(1)[OF p(2)] p(1) by (auto simp: entries_step[OF p(1)] count_in_Cons le_Suc_eq not_less_eq_eq)
qed

lemma entries_fit:
  assumes "shaped u m B h" "e \<in> set (entries_from u m h 0)"
  shows "fits u m B e"
proof -
  obtain i where "i < length (counts h)" "e = (of_nat (val_at u m i), logical_counts h ! i)"
    using assms(2) by (auto simp: entries_from_def)
  then show ?thesis using unat_val_at(2)[OF assms(1)] by blast
qed

lemma sum_count_in:
  assumes "\<forall>v \<in> fst ` set rs. idx u m (unat v) < L"
  shows "(\<Sum>i \<leftarrow> [0..<L]. count_in u m rs i) = sum_list (map snd rs)"
  using assms
proof (induction rs)
  case (Cons e rs)
  obtain v c where e: "e = (v, c)" by (cases e)
  have one: "(\<Sum>i \<leftarrow> [0..<L]. if j = i then c else 0) = c" if "j < L" for j
    using that by (simp add: interv_sum_list_conv_sum_set_nat sum.delta)
  show ?case using Cons one[of "idx u m (unat v)"] by (simp add: e count_in_Cons sum_list_addf)
qed (simp add: map_replicate_const[of 0, symmetric] sum_list_0 cong: map_cong)

lemma represents_iterable:
  assumes "represents u m B h rs" "\<forall>c \<in> set (logical_counts h). 0 \<le> sint c \<and> sint c < 2 ^ 31"
  shows "iterable h"
proof -
  have sh: "shaped u m B h" using assms(1) by (simp add: represents_def)
  have "\<forall>v \<in> fst ` set rs. idx u m (unat v) < length (counts h)"
    using assms(1) idx_less(1) shaped_bounds(6)[OF sh] shaped_array(1)[OF sh] by (simp add: represents_def)
  then have "sum_list (logical_counts h) = sum_list (map snd rs)"
    using assms(1) sum_count_in[of rs u m "length (counts h)"] by (simp add: represents_def)
  then show ?thesis using assms by (simp add: iterable_def represents_def)
qed

text \<open>
  What the loop of the two adding functions asks of the function that records an entry: a value that fits
  is taken, as the list of values \<open>taken\<close> says.
\<close>

locale recording =
  fixes recorder :: "histogram \<Rightarrow> int64_t \<Rightarrow> int64_t \<Rightarrow> (bool \<times> histogram) option"
    and taken :: "int64_t \<times> int64_t \<Rightarrow> (int64_t \<times> int64_t) list"
    and u m B :: nat
  assumes records: "represents u m B h rs \<Longrightarrow> fits u m B (v, c) \<Longrightarrow>
    \<exists>h'. recorder h v c = Some (True, h') \<and> represents u m B h' (rev (taken (v, c)) @ rs)"
begin

lemma records_all:
  assumes "represents u m B h rs" "\<And>e. e \<in> set es \<Longrightarrow> fits u m B e"
  shows "\<exists>h'. record_all recorder h d es = Some (d, h') \<and> represents u m B h' (rev (concat (map taken es)) @ rs)"
  using assms
proof (induction es arbitrary: h rs)
  case (Cons e es)
  obtain v c where e: "e = (v, c)" by (cases e)
  then obtain h1 where "recorder h v c = Some (True, h1)" "represents u m B h1 (rev (taken (v, c)) @ rs)"
    using records[OF Cons.prems(1), of v c] Cons.prems(2) by auto
  then show ?case using Cons.IH[of h1 "rev (taken (v, c)) @ rs"] Cons.prems(2) by (simp add: e)
qed simp

lemma add_loop_adds:
  assumes "represents u m B h rs" "shaped u m B f" "iterable f"
  shows "\<exists>h'. add_loop recorder h f (hdr_iter_recorded_init iter) 0 = Some (0, h') \<and>
    represents u m B h' (rev (concat (map taken (entries_from u m f 0))) @ rs)"
  unfolding add_loop_entries[OF assms(2,3)]
  by (rule records_all[OF assms(1) entries_fit[OF assms(2)]])

end

interpretation plain: recording hdr_record_values "\<lambda>e. [e]" u m B for u m B
  by unfold_locales (use record_represents in \<open>auto simp: fits_def\<close>)

interpretation corrected: recording "\<lambda>h v c. hdr_record_corrected_values h v c e" "corrected_values e" u m B for e u m B
  by unfold_locales (use corrected_values_represents in \<open>auto simp: fits_def\<close>)

lemma hdr_add_represents:
  assumes "represents u m B h rs" "shaped u m B f" "iterable f"
  shows "\<exists>h'. hdr_add iter h f = Some (0, h') \<and> represents u m B h' (rev (entries_from u m f 0) @ rs)"
  using plain.add_loop_adds[OF assms, of iter] by (simp add: hdr_add_def)

text \<open>Adding with correction records for each counter of the other what recording its value with the interval does.\<close>

lemma hdr_add_correcting_represents:
  assumes "represents u m B h rs" "shaped u m B f" "iterable f"
  shows "\<exists>h'. hdr_add_while_correcting_for_coordinated_omission iter h f e = Some (0, h') \<and>
    represents u m B h' (rev (concat (map (corrected_values e) (entries_from u m f 0))) @ rs)"
  unfolding hdr_add_while_correcting_for_coordinated_omission_def by (rule corrected.add_loop_adds[OF assms])

text \<open>A histogram of another shape drops the entries that do not fit, and counts them.\<close>

lemma hdr_add_other_shape:
  assumes "represents u' m' B' h rs" "shaped u m B f" "iterable f"
  shows "\<exists>h'. hdr_add iter h f =
      Some (sum_list (map snd (filter (\<lambda>e. \<not> fits u' m' B' e) (entries_from u m f 0))), h') \<and>
    represents u' m' B' h' (rev (filter (fits u' m' B') (entries_from u m f 0)) @ rs)"
  using record_all_represents[OF assms(1), of 0 "entries_from u m f 0"]
  unfolding hdr_add_def add_loop_entries[OF assms(2,3)] by simp

text \<open>
  When every count is cut to 0 but the total is positive, the iterator finds no value and never comes
  to the end: it does not look at whether it could move.
\<close>

lemma move_next_cut:
  assumes "move_next h iter = Some (moved, iter')" "\<forall>c \<in> set (counts h). cut c = 0"
    "it_count_to_index iter = 0" "it_count_at_index iter = 0"
  shows "it_count_to_index iter' = 0 \<and> it_count_at_index iter' = 0"
proof -
  have zero: "c = 0" if "get_count_at_index h b s = Some c" for b s c
    using that assms(2)
    by (auto simp: get_count_at_index_def counts_get_normalised_def counts_get_direct_def cut_def split: if_splits)
  show ?thesis
    using assms(1,3,4) by (auto simp: move_next_def Let_def split: prod.splits if_splits dest!: zero)
qed

lemma recorded_iter_next_diverges:
  assumes "\<forall>c \<in> set (counts h). cut c = 0" "0 < sint (total_count h)"
    "it_count_to_index iter = 0" "it_count_at_index iter = 0"
  shows "recorded_iter_next h iter = None"
proof (rule ccontr)
  let ?P = "\<lambda>h iter (r :: bool \<times> hdr_iter). \<not> ((\<forall>c \<in> set (counts h). cut c = 0) \<and> 0 < sint (total_count h) \<and>
    it_count_to_index iter = 0 \<and> it_count_at_index iter = 0)"
  assume "recorded_iter_next h iter \<noteq> None"
  then obtain r where "recorded_iter_next h iter = Some r" by auto
  then have "?P h iter r"
  proof (rule recorded_iter_next.raw_induct[where P = ?P, rotated])
    fix rec :: "histogram \<Rightarrow> hdr_iter \<Rightarrow> (bool \<times> hdr_iter) option" and h iter r
    assume ih: "\<And>h iter r. rec h iter = Some r \<Longrightarrow> ?P h iter r"
      and body: "(case basic_iter_next h iter of None \<Rightarrow> None
        | Some (found, iter) \<Rightarrow>
            if \<not> found then Some (False, iter)
            else if it_count_at_index iter \<noteq> 0 then Some (True, iter\<lparr>rec_count_added := it_count_at_index iter\<rparr>)
            else rec h iter) = Some r"
    show "?P h iter r"
    proof
      assume z: "(\<forall>c \<in> set (counts h). cut c = 0) \<and> 0 < sint (total_count h) \<and>
        it_count_to_index iter = 0 \<and> it_count_at_index iter = 0"
      then have hn: "has_next h iter" by (simp add: has_next_def)
      show False
      proof (cases "move_next h iter")
        case None
        then show ?thesis using body hn by (simp add: basic_iter_next_def)
      next
        case (Some mi)
        then obtain moved iter' where mi: "move_next h iter = Some (moved, iter')" by (cases mi) auto
        have z': "it_count_to_index iter' = 0 \<and> it_count_at_index iter' = 0"
          using move_next_cut[OF mi] z by blast
        then have "rec h iter' = Some r" using body hn mi by (simp add: basic_iter_next_def)
        then show ?thesis using ih z z' by blast
      qed
    qed
  qed
  then show False using assms by blast
qed

section \<open>Properties of reading and adding\<close>

lemma count_in_equivalent:
  assumes "represents u m B h rs" "0 \<le> sint v"
  shows "count_in u m rs (idx u m (unat v)) = sum_list (map snd (filter (\<lambda>(w, c). hdr_values_are_equivalent h v w) rs))"
proof -
  have sh: "shaped u m B h" using assms(1) by (simp add: represents_def)
  have "hdr_values_are_equivalent h v w \<longleftrightarrow> idx u m (unat w) = idx u m (unat v)" if "0 \<le> sint w" for w
  proof -
    note uv = unat_low_size[OF sh assms(2)] and uw = unat_low_size[OF sh that]
    show ?thesis
      unfolding hdr_values_are_equivalent_def word_unat_eq_iff uv(1) uw(1) low_eq_iff by (rule eq_commute)
  qed
  then have "filter (\<lambda>(w, c). idx u m (unat w) = idx u m (unat v)) rs = filter (\<lambda>(w, c). hdr_values_are_equivalent h v w) rs"
    using assms(1) by (intro filter_cong) (auto simp: represents_def)
  then show ?thesis by (simp add: count_in_def)
qed

text \<open>
  Asked for the count of a value, a histogram gives the sum of the counts that were recorded with the
  values equivalent to it, cut to 32 bits: the sum itself as long as it is below \<open>2 ^ 31\<close>.
\<close>

theorem count_at_value:
  assumes "represents u m B h rs" "0 \<le> sint v" "unat v < 2 ^ (u + m + B)"
  shows "\<exists>c. c = sum_list (map snd (filter (\<lambda>(w, c). hdr_values_are_equivalent h v w) rs)) \<and>
    hdr_count_at_value h v = Some (cut c) \<and> (0 \<le> sint c \<and> sint c < 2 ^ 31 \<longrightarrow> cut c = c)"
proof -
  have sh: "shaped u m B h" using assms(1) by (simp add: represents_def)
  have i: "idx u m (unat v) < length (counts h)"
    using assms(3) idx_less(1) shaped_bounds(6)[OF sh] shaped_array(1)[OF sh] by simp
  have "hdr_count_at_value h v = Some (cut (logical_counts h ! idx u m (unat v)))"
    unfolding hdr_count_at_value_def counts_get_normalised_def unat_low_size(4)[OF sh assms(2)]
      counts_get_direct_physical[OF sh i] by (simp add: cut_def)
  then show ?thesis
    using assms(1) i count_in_equivalent[OF assms(1,2)] cut_small by (simp add: represents_def)
qed

lemma demo_recorded:
  "\<exists>h. hdr_record_values demo_histogram 5 (2 ^ 32) = Some (True, h) \<and> represents 0 4 6 h [(5, 2 ^ 32)]"
  by (rule record_represents[OF demo_represents]) simp_all

theorem count_at_value_witness:
  "\<exists>h. hdr_record_values demo_histogram 5 (2 ^ 32) = Some (True, h) \<and> hdr_count_at_value h 5 = Some 0"
proof -
  obtain h where h: "hdr_record_values demo_histogram 5 (2 ^ 32) = Some (True, h)" "represents 0 4 6 h [(5, 2 ^ 32)]"
    using demo_recorded by blast
  then show ?thesis using count_at_value[OF h(2), of 5] by (auto simp: hdr_values_are_equivalent_def cut_def)
qed

text \<open>Between histograms of one shape nothing is dropped, and the counters are added one by one.\<close>

lemma hdr_add_same_shape:
  assumes "represents u m B h rs" "represents u m B f fs"
    "\<forall>c \<in> set (logical_counts f). 0 \<le> sint c \<and> sint c < 2 ^ 31"
  shows "\<exists>h'. hdr_add iter h f = Some (0, h') \<and> represents u m B h' (rev (entries_from u m f 0) @ rs) \<and>
    (\<forall>i < length (counts h). logical_counts h' ! i = logical_counts h ! i + logical_counts f ! i) \<and>
    total_count h' = total_count h + total_count f"
proof -
  have sf: "shaped u m B f" and sh: "shaped u m B h" using assms(1,2) by (simp_all add: represents_def)
  have it: "iterable f" by (rule represents_iterable[OF assms(2,3)])
  obtain h' where h': "hdr_add iter h f = Some (0, h')" "represents u m B h' (rev (entries_from u m f 0) @ rs)"
    using hdr_add_represents[OF assms(1) sf it] by blast
  have len: "length (counts h) = length (counts f)" "length (counts h') = length (counts f)"
    using h'(2) shaped_array(1)[OF sf] shaped_array(1)[OF sh] shaped_array(1)[of u m B h']
    by (simp_all add: represents_def)
  have cnt: "logical_counts h' ! i = logical_counts h ! i + logical_counts f ! i" if "i < length (counts h)" for i
  proof -
    have i: "i < length (counts f)" using that len by simp
    have "logical_counts h' ! i = count_in u m (entries_from u m f 0) i + count_in u m rs i"
      using h'(2) i len by (simp add: represents_def)
    also have "count_in u m (entries_from u m f 0) i = logical_counts f ! i"
      using count_in_entries[OF sf le0 i] by simp
    also have "count_in u m rs i = logical_counts h ! i" using assms(1) that by (simp add: represents_def)
    finally show ?thesis by (simp add: add.commute)
  qed
  have "sum_list (map snd (entries_from u m f 0)) = (\<Sum>i \<leftarrow> [0..<length (counts f)]. count_in u m (entries_from u m f 0) i)"
    using entries_fit[OF sf] idx_less(1)[of _ u m B] shaped_bounds(6)[OF sf] shaped_array(1)[OF sf]
    by (intro sum_count_in[symmetric]) (auto simp: fits_def)
  also have "\<dots> = sum_list (logical_counts f)"
    by (rule arg_cong[of _ _ sum_list], rule nth_equalityI) (simp_all add: count_in_entries[OF sf])
  also have "\<dots> = total_count f" using it by (simp add: iterable_def)
  finally have "total_count h' = total_count h + total_count f"
    using h'(2) assms(1) by (simp add: represents_def add.commute flip: rev_map)
  then show ?thesis using h' cnt by blast
qed

text \<open>
  C39. Adding a histogram whose counts are below \<open>2 ^ 31\<close> returns. It records, with its count, the least value
  of each counter of the other that is not 0, if the buckets of the sum cover that value; it drops the others
  and answers the sum of their counts. Not \<^verbatim>\<open>lowest_trackable_value\<close> and \<^verbatim>\<open>highest_trackable_value\<close>
  decide, as the comment in \<^verbatim>\<open>hdr_histogram.h\<close> says, but the range of the buckets, which reaches
  from 0 to a power of two: of a histogram of the same shape nothing is dropped, and each counter and the total
  of the sum are the sums of the two.
\<close>

theorem hdr_add_adds:
  assumes "represents u' m' B' h rs" "represents u m B f fs"
    "\<forall>c \<in> set (logical_counts f). 0 \<le> sint c \<and> sint c < 2 ^ 31"
  defines "es \<equiv> entries_from u m f 0" and "covered \<equiv> \<lambda>(v, c). 0 \<le> sint v \<and> unat v < 2 ^ (u' + m' + B')"
  shows "\<exists>h'. hdr_add iter h f = Some (sum_list (map snd (filter (\<lambda>e. \<not> covered e) es)), h') \<and>
    represents u' m' B' h' (rev (filter covered es) @ rs) \<and>
    (u' = u \<and> m' = m \<and> B' = B \<longrightarrow> hdr_add iter h f = Some (0, h') \<and>
      (\<forall>i < length (counts h). logical_counts h' ! i = logical_counts h ! i + logical_counts f ! i) \<and>
      total_count h' = total_count h + total_count f)"
proof -
  have sf: "shaped u m B f" using assms(2) by (simp add: represents_def)
  have cov: "covered = fits u' m' B'" by (simp add: covered_def fits_def fun_eq_iff)
  obtain h' where h': "hdr_add iter h f = Some (sum_list (map snd (filter (\<lambda>e. \<not> covered e) es)), h')"
    "represents u' m' B' h' (rev (filter covered es) @ rs)"
    using hdr_add_other_shape[OF assms(1) sf represents_iterable[OF assms(2,3)], of iter] by (auto simp: cov es_def)
  moreover have "hdr_add iter h f = Some (0, h') \<and>
      (\<forall>i < length (counts h). logical_counts h' ! i = logical_counts h ! i + logical_counts f ! i) \<and>
      total_count h' = total_count h + total_count f" if "u' = u \<and> m' = m \<and> B' = B"
    using hdr_add_same_shape[OF _ assms(2,3), of h rs iter] assms(1) that h'(1) by auto
  ultimately show ?thesis by blast
qed

text \<open>
  A histogram up to 900, as \<^verbatim>\<open>hdr_init\<close> would lay it out, takes the value 992 of another when that is added.
\<close>

definition demo_900 :: histogram where
  "demo_900 = demo_histogram\<lparr>highest_trackable_value := 900\<rparr>"

lemma demo_900_represents: "represents 0 4 6 demo_900 []"
  by (rule fresh_represents)
    (simp_all add: demo_900_def demo_histogram_eq demo_record_def zeroed_def fresh_def shaped_def)

lemma demo_other:
  obtains f where "represents 0 4 6 f [(992, 3)]" "\<forall>c \<in> set (logical_counts f). 0 \<le> sint c \<and> sint c < 2 ^ 31"
proof -
  obtain f where f: "represents 0 4 6 f [(992, 3)]" using record_represents[OF demo_represents, of 992 3] by auto
  have "logical_counts f = map (count_in 0 4 [(992, 3)]) [0..<length (counts f)]"
    using f by (simp add: represents_def)
  then have "\<forall>c \<in> set (logical_counts f). 0 \<le> sint c \<and> sint c < 2 ^ 31" by (auto simp: count_in_def)
  with f show thesis by (rule that)
qed

theorem hdr_add_adds_witness:
  "\<exists>f. represents 0 4 6 f [(992, 3)] \<and> highest_trackable_value demo_900 = 900 \<and>
    (\<forall>iter. \<exists>h'. hdr_add iter demo_900 f = Some (0, h') \<and> total_count h' = 3)"
proof -
  obtain f where f: "represents 0 4 6 f [(992, 3)]" "\<forall>c \<in> set (logical_counts f). 0 \<le> sint c \<and> sint c < 2 ^ 31"
    by (rule demo_other)
  have "total_count demo_900 + total_count f = 3"
    using f(1) demo_900_represents by (simp add: represents_def)
  then have "\<exists>h'. hdr_add iter demo_900 f = Some (0, h') \<and> total_count h' = 3" for iter
    using hdr_add_adds[OF demo_900_represents f, of iter] by auto
  moreover have "highest_trackable_value demo_900 = 900" by (simp add: demo_900_def)
  ultimately show ?thesis using f(1) by blast
qed

text \<open>
  A count of \<open>2 ^ 32\<close>, or a multiple, is read as 0. A histogram that has no other counts but a positive total
  is never added: the search for its recorded values does not end.
\<close>

theorem hdr_add_never_returns:
  assumes "\<forall>c \<in> set (counts f). cut c = 0" "0 < sint (total_count f)"
  shows "hdr_add iter h f = None"
proof -
  have "recorded_iter_next f (hdr_iter_recorded_init iter) = None"
    by (rule recorded_iter_next_diverges[OF assms]) (simp_all add: hdr_iter_recorded_init_def hdr_iter_init_def)
  then show ?thesis
    unfolding hdr_add_def by (subst add_loop.simps) (simp add: hdr_iter_next_def hdr_iter_recorded_init_def)
qed

lemma bit_length_numeral: "bit_length (numeral k) = Suc (bit_length (numeral k div 2))"
  using bit_length.simps(2)[of "pred_numeral k"] unfolding numeral_eq_Suc[of k, symmetric] .

theorem hdr_add_never_returns_witness:
  "\<exists>f. hdr_record_values demo_histogram 5 (2 ^ 32) = Some (True, f) \<and> (\<forall>iter. hdr_add iter demo_histogram f = None)"
proof -
  let ?f = "demo_histogram\<lparr>counts := (replicate 112 0)[5 := 2 ^ 32], total_count := 2 ^ 32, min_value := 5, max_value := 5\<rparr>"
  have "hdr_record_values demo_histogram 5 (2 ^ 32) = Some (True, ?f)"
    by (simp add: demo_histogram_eq demo_record_def zeroed_def hdr_record_values_def Let_def counts_index_for_def
        get_bucket_index_def clzll_def bit_length_numeral get_sub_bucket_index_def counts_index_def
        counts_inc_normalised_def normalize_index_def counts_get_direct_def counts_set_direct_def
        update_min_max_def INT64_MAX_def)
  moreover have "\<forall>c \<in> set (counts ?f). cut c = 0"
  proof
    fix c assume "c \<in> set (counts ?f)"
    then have "c \<in> insert (2 ^ 32) (set (replicate 112 0))"
      using set_update_subset_insert by fastforce
    then show "cut c = 0" by (auto simp: cut_def)
  qed
  then have "\<forall>iter. hdr_add iter demo_histogram ?f = None" using hdr_add_never_returns[of ?f] by simp
  ultimately show ?thesis by blast
qed

end
