(* ===== verification/Base64.thy ===== *)
theory Base64
  imports CLimits
begin

text \<open>
  The base-64 functions of \<^verbatim>\<open>hdr_histogram_log.c\<close>, with which encoded histograms are written to logs.
  Buffers are lists of bytes; a block function returns what it writes. The result of a function that
  may fail is an error number or what it wrote.
\<close>

section \<open>The code\<close>

definition base64_table :: "byte list" where
  "base64_table =
     map of_nat ([65..<91] @ [97..<123] @ [48..<58] @ [43, 47, 0])"

definition get_base_64 :: "uint32_t \<Rightarrow> nat \<Rightarrow> byte" where
  "get_base_64 v shift = base64_table ! unat (0x3F AND drop_bit shift v)"

text \<open>The argument is a \<^verbatim>\<open>char\<close>, which is signed. \<^verbatim>\<open>EINVAL\<close>, for any other character, is 22.\<close>

definition from_base_64 :: "byte \<Rightarrow> int" where
  "from_base_64 ch =
     (let c = sint ch
      in if 65 \<le> c \<and> c \<le> 90 then c - 65
         else if 97 \<le> c \<and> c \<le> 122 then (c - 97) + 26
         else if 48 \<le> c \<and> c \<le> 57 then (c - 48) + 52
         else if c = 43 then 62
         else if c = 47 then 63
         else if c = 61 then 0
         else EINVAL)"

text \<open>The code divides in \<^verbatim>\<open>double\<close> and rounds up, which is exact for the size of any buffer.\<close>

definition base64_encoded_len :: "nat \<Rightarrow> nat" where
  "base64_encoded_len decoded_size = (decoded_size + 2) div 3 * 4"

definition base64_decoded_len :: "nat \<Rightarrow> nat" where
  "base64_decoded_len encoded_size = encoded_size div 4 * 3"

definition base64_encode_block_pad :: "byte list \<Rightarrow> byte list" where
  "base64_encode_block_pad input =
     (case input of
        [a, b] \<Rightarrow>
          (let v = push_bit 16 (ucast a) + push_bit 8 (ucast b)
           in [get_base_64 v 18, get_base_64 v 12, get_base_64 v 6, 61])
      | [a] \<Rightarrow>
          (let v = push_bit 16 (ucast a)
           in [get_base_64 v 18, get_base_64 v 12, 61, 61])
      | _ \<Rightarrow> [])"

definition base64_encode_block :: "byte \<Rightarrow> byte \<Rightarrow> byte \<Rightarrow> byte list" where
  "base64_encode_block a b c =
     (let v = push_bit 16 (ucast a) + push_bit 8 (ucast b) + ucast c
      in [get_base_64 v 18, get_base_64 v 12, get_base_64 v 6, get_base_64 v 0])"

text \<open>The loop runs while three bytes are left and there is room for output; the rest is padded.\<close>

fun encode_loop :: "byte list \<Rightarrow> nat \<Rightarrow> byte list" where
  "encode_loop (a # b # c # input) room =
     (if 0 < room then base64_encode_block a b c @ encode_loop input (room - 4)
      else [])"
| "encode_loop input room = base64_encode_block_pad input"

definition base64_encode :: "byte list \<Rightarrow> nat \<Rightarrow> int + byte list" where
  "base64_encode input output_len =
     (if base64_encoded_len (length input) \<noteq> output_len then Inl EINVAL
      else Inr (encode_loop input output_len))"

definition base64_decode_block :: "byte \<Rightarrow> byte \<Rightarrow> byte \<Rightarrow> byte \<Rightarrow> byte list" where
  "base64_decode_block p q r s =
     (let v = push_bit 18 (word_of_int (from_base_64 p)) OR push_bit 12 (word_of_int (from_base_64 q)) OR
              push_bit 6 (word_of_int (from_base_64 r)) OR word_of_int (from_base_64 s) :: uint32_t
      in [ucast (drop_bit 16 v AND 0xFF), ucast (drop_bit 8 v AND 0xFF), ucast (v AND 0xFF)])"

fun decode_loop :: "byte list \<Rightarrow> byte list" where
  "decode_loop (p # q # r # s # input) = base64_decode_block p q r s @ decode_loop input"
| "decode_loop input = []"

definition base64_decode :: "byte list \<Rightarrow> nat \<Rightarrow> int + byte list" where
  "base64_decode input output_len =
     (if length input < 4 \<or> length input mod 4 \<noteq> 0 \<or> length input div 4 * 3 \<noteq> output_len then Inl EINVAL
      else Inr (decode_loop input))"

text \<open>
  \<^verbatim>\<open>null_trailing_whitespace\<close> overwrites the white space at the end of a line with zeros and returns the
  length that is left.
\<close>

definition is_space :: "byte \<Rightarrow> bool" where
  "is_space c \<longleftrightarrow> c = 32 \<or> 9 \<le> unat c \<and> unat c \<le> 13"

fun null_trailing_whitespace :: "byte list \<Rightarrow> nat \<Rightarrow> nat \<times> byte list" where
  "null_trailing_whitespace s 0 = (0, s)"
| "null_trailing_whitespace s (Suc i) =
     (if is_space (s ! i) then null_trailing_whitespace (s[i := 0]) i else (Suc i, s))"

section \<open>Blocks\<close>

lemma from_get: "k < 64 \<Longrightarrow> from_base_64 (base64_table ! k) = int k"
proof -
  have "\<forall>k \<in> set [0..<64]. from_base_64 (base64_table ! k) = int k" by code_simp
  then show "k < 64 \<Longrightarrow> from_base_64 (base64_table ! k) = int k" by simp
qed

lemma from_get_base_64: "word_of_int (from_base_64 (get_base_64 v k)) = 0x3F AND drop_bit k v"
proof -
  have "(0x3F :: uint32_t) = mask 6" by (simp add: mask_eq_exp_minus_1)
  then have m: "0x3F AND drop_bit k v = take_bit 6 (drop_bit k v)" by (simp add: take_bit_eq_mask and.commute)
  have "unat (0x3F AND drop_bit k v) < 64" unfolding m unat_take_bit by simp
  then show ?thesis by (simp add: get_base_64_def from_get)
qed

lemma sextets:
  fixes v :: uint32_t
  assumes "drop_bit 24 v = 0"
  shows "push_bit 18 (0x3F AND drop_bit 18 v) OR push_bit 12 (0x3F AND drop_bit 12 v) OR
    push_bit 6 (0x3F AND drop_bit 6 v) OR (0x3F AND v) = v"
proof (rule bit_word_eqI)
  have m: "(0x3F :: uint32_t) = mask 6" by (simp add: mask_eq_exp_minus_1)
  fix n assume "n < LENGTH(32)"
  have "\<not> bit v k" if "24 \<le> k" for k
    using arg_cong[OF assms, of "\<lambda>w. bit w (k - 24)"] that by (simp add: bit_drop_bit_eq)
  then show "bit (push_bit 18 (0x3F AND drop_bit 18 v) OR push_bit 12 (0x3F AND drop_bit 12 v) OR
    push_bit 6 (0x3F AND drop_bit 6 v) OR (0x3F AND v)) n = bit v n"
    unfolding m
    by (cases "n < 24"; auto simp: bit_simps not_le not_less) 
qed

definition three :: "byte \<Rightarrow> byte \<Rightarrow> byte \<Rightarrow> uint32_t" where
  "three a b c = push_bit 16 (ucast a) OR push_bit 8 (ucast b) OR ucast c"

lemma three_bits: "bit (three a b c) n \<longleftrightarrow>
    (if n < 8 then bit c n else if n < 16 then bit b (n - 8) else if n < 24 then bit a (n - 16) else False)"
  by (auto simp: three_def bit_simps not_less dest: bit_imp_le_length)

lemma sum_three: "push_bit 16 (ucast a) + push_bit 8 (ucast b) + ucast c = three a b c"
proof -
  have "push_bit 16 (ucast a) + push_bit 8 (ucast b) = (push_bit 16 (ucast a) OR push_bit 8 (ucast b) :: uint32_t)"
    by (rule disjunctive_add) (auto simp: bit_simps dest: bit_imp_le_length)
  moreover have "(push_bit 16 (ucast a) OR push_bit 8 (ucast b)) + ucast c =
      ((push_bit 16 (ucast a) OR push_bit 8 (ucast b)) OR ucast c :: uint32_t)"
    by (rule disjunctive_add) (auto simp: bit_simps dest: bit_imp_le_length)
  ultimately show ?thesis by (simp add: three_def or.assoc)
qed

lemma drop_24_three: "drop_bit 24 (three a b c) = 0"
  by (rule bit_word_eqI) (simp add: bit_drop_bit_eq three_bits)

lemma bytes_three:
  "ucast (drop_bit 16 (three a b c) AND 0xFF) = a" "ucast (drop_bit 8 (three a b c) AND 0xFF) = b"
  "ucast (three a b c AND 0xFF) = c"
proof -
  have m: "(0xFF :: uint32_t) = mask 8" by (simp add: mask_eq_exp_minus_1)
  show "ucast (drop_bit 16 (three a b c) AND 0xFF) = a" "ucast (drop_bit 8 (three a b c) AND 0xFF) = b"
    "ucast (three a b c AND 0xFF) = c"
    unfolding m by (rule bit_word_eqI, simp add: bit_simps three_bits)+
qed

lemma decode_sextets:
  assumes "word_of_int (from_base_64 p) = 0x3F AND drop_bit 18 v" "word_of_int (from_base_64 q) = 0x3F AND drop_bit 12 v"
    "word_of_int (from_base_64 r) = 0x3F AND drop_bit 6 v" "word_of_int (from_base_64 s) = 0x3F AND v"
    "v = three a b c"
  shows "base64_decode_block p q r s = [a, b, c]"
proof -
  have "push_bit 18 (word_of_int (from_base_64 p)) OR push_bit 12 (word_of_int (from_base_64 q)) OR
      push_bit 6 (word_of_int (from_base_64 r)) OR word_of_int (from_base_64 s) = three a b c"
    unfolding assms(1-4) unfolding assms(5) by (rule sextets[OF drop_24_three])
  then show ?thesis by (simp only: base64_decode_block_def Let_def bytes_three)
qed

lemma from_pad: "from_base_64 61 = 0"
  by (simp add: from_base_64_def Let_def)

lemma decode_block: "base64_encode_block a b c = [p, q, r, s] \<Longrightarrow> base64_decode_block p q r s = [a, b, c]"
  unfolding base64_encode_block_def Let_def sum_three list.inject
  by (rule decode_sextets[of _ "three a b c"]) (auto simp: from_get_base_64)

lemma zero_sextet:
  "0x3F AND three a b 0 = 0" "0x3F AND drop_bit 6 (three a 0 0) = 0" "0x3F AND three a 0 0 = 0"
proof -
  have m: "(0x3F :: uint32_t) = mask 6" by (simp add: mask_eq_exp_minus_1)
  show "0x3F AND three a b 0 = 0" "0x3F AND drop_bit 6 (three a 0 0) = 0" "0x3F AND three a 0 0 = 0"
    unfolding m by (rule bit_word_eqI, simp add: bit_simps three_bits)+
qed

lemma decode_pad:
  "base64_encode_block_pad [a, b] = [p, q, r, s] \<Longrightarrow> base64_decode_block p q r s = [a, b, 0]"
  "base64_encode_block_pad [a] = [p, q, r, s] \<Longrightarrow> base64_decode_block p q r s = [a, 0, 0]"
proof -
  have two: "push_bit 16 (ucast a) + push_bit 8 (ucast b) = three a b 0" using sum_three[of a b 0] by simp
  show "base64_encode_block_pad [a, b] = [p, q, r, s] \<Longrightarrow> base64_decode_block p q r s = [a, b, 0]"
    unfolding base64_encode_block_pad_def list.case Let_def two list.inject
    by (rule decode_sextets[of _ "three a b 0"]) (auto simp: from_get_base_64 from_pad zero_sextet)
  have one: "push_bit 16 (ucast a) = three a 0 0" using sum_three[of a 0 0] by simp
  show "base64_encode_block_pad [a] = [p, q, r, s] \<Longrightarrow> base64_decode_block p q r s = [a, 0, 0]"
    unfolding base64_encode_block_pad_def list.case Let_def one list.inject
    by (rule decode_sextets[of _ "three a 0 0"]) (auto simp: from_get_base_64 from_pad zero_sextet)
qed

section \<open>The round trip\<close>

definition padding :: "nat \<Rightarrow> byte list" where
  "padding n = replicate ((3 - n mod 3) mod 3) 0"

lemma base64_encoded_len_block: "base64_encoded_len (Suc (Suc (Suc n))) = base64_encoded_len n + 4"
  using div_add_self2[of 3 "n + 2"] by (simp add: base64_encoded_len_def)

lemma decode_encode_loop:
  "length xs div 3 * 4 \<le> room \<Longrightarrow>
    length (encode_loop xs room) = base64_encoded_len (length xs) \<and>
    decode_loop (encode_loop xs room) = xs @ padding (length xs)"
proof (induction xs room rule: encode_loop.induct[case_names Block Full One Two])
  case (Block a b c xs room)
  obtain p q r s where enc: "base64_encode_block a b c = [p, q, r, s]"
    by (simp add: base64_encode_block_def Let_def)
  have "length (a # b # c # xs) div 3 = Suc (length xs div 3)" using div_add_self2[of 3 "length xs"] by simp
  then have "length xs div 3 * 4 \<le> room - 4" "0 < room" using Block(2) by linarith+
  with Block(1) have ih: "length (encode_loop xs (room - 4)) = base64_encoded_len (length xs)"
    "decode_loop (encode_loop xs (room - 4)) = xs @ padding (length xs)" by simp_all
  have "padding (length (a # b # c # xs)) = padding (length xs)" by (simp add: padding_def)
  then show ?case
    using ih \<open>0 < room\<close> decode_block[OF enc] base64_encoded_len_block[of "length xs"]
    by (simp add: enc)
next
  case (Full room)
  then show ?case by (simp add: base64_encode_block_pad_def base64_encoded_len_def padding_def)
next
  case (One a room)
  obtain p q r s where enc: "base64_encode_block_pad [a] = [p, q, r, s]"
    by (simp add: base64_encode_block_pad_def Let_def)
  then show ?case using decode_pad(2)[OF enc] by (simp add: enc base64_encoded_len_def padding_def numeral_2_eq_2)
next
  case (Two a b room)
  obtain p q r s where enc: "base64_encode_block_pad [a, b] = [p, q, r, s]"
    by (simp add: base64_encode_block_pad_def Let_def)
  then show ?case using decode_pad(1)[OF enc] by (simp add: enc base64_encoded_len_def padding_def)
qed

lemma base64_decode_encode:
  assumes "xs \<noteq> []"
  obtains ys where "base64_encode xs (base64_encoded_len (length xs)) = Inr ys"
    "length ys = base64_encoded_len (length xs)"
    "base64_decode ys (base64_decoded_len (length ys)) = Inr (xs @ padding (length xs))"
proof -
  let ?n = "base64_encoded_len (length xs)"
  have "length xs div 3 * 4 \<le> ?n" by (simp add: base64_encoded_len_def div_le_mono)
  note e = decode_encode_loop[OF this]
  have "4 \<le> ?n" using assms by (cases xs) (auto simp: base64_encoded_len_def)
  then have "base64_decode (encode_loop xs ?n) (base64_decoded_len (length (encode_loop xs ?n))) = Inr (xs @ padding (length xs))"
    using e by (simp add: base64_decode_def base64_decoded_len_def) (simp add: base64_encoded_len_def)
  moreover have "base64_encode xs ?n = Inr (encode_loop xs ?n)" by (simp add: base64_encode_def)
  ultimately show thesis using that e by blast
qed

lemma decode_loop_cong:
  "map from_base_64 xs = map from_base_64 ys \<Longrightarrow> decode_loop xs = decode_loop ys"
proof (induction xs arbitrary: ys rule: decode_loop.induct)
  case (1 p q r s xs)
  then obtain p' q' r' s' zs where ys: "ys = p' # q' # r' # s' # zs" "map from_base_64 xs = map from_base_64 zs"
    "from_base_64 p = from_base_64 p'" "from_base_64 q = from_base_64 q'" "from_base_64 r = from_base_64 r'"
    "from_base_64 s = from_base_64 s'"
    by (auto simp: map_eq_Cons_conv Cons_eq_map_conv)
  then show ?case using 1(1)[OF ys(2)] by (simp add: base64_decode_block_def)
qed (auto simp: map_eq_Cons_conv Cons_eq_map_conv)

text \<open>
  Decoding what \<^verbatim>\<open>base64_encode\<close> wrote gives the bytes back, followed by at most two zeros that fill
  the last block.
\<close>

theorem base64_roundtrip:
  assumes "xs \<noteq> []"
  shows "\<exists>ys. base64_encode xs (base64_encoded_len (length xs)) = Inr ys \<and>
    length ys = base64_encoded_len (length xs) \<and>
    base64_decode ys (base64_decoded_len (length ys)) = Inr (xs @ padding (length xs)) \<and>
    length (padding (length xs)) \<le> 2"
proof -
  have "length (padding (length xs)) \<le> 2" unfolding padding_def length_replicate by arith
  then show ?thesis by (metis base64_decode_encode[OF assms])
qed

theorem base64_roundtrip_witness:
  "\<exists>ys. base64_encode [72, 105, 33, 10] (base64_encoded_len (length [72, 105, 33, 10 :: byte])) = Inr ys \<and>
    length ys = base64_encoded_len (length [72, 105, 33, 10 :: byte]) \<and>
    base64_decode ys (base64_decoded_len (length ys)) = Inr ([72, 105, 33, 10] @ padding (length [72, 105, 33, 10 :: byte])) \<and>
    length (padding (length [72, 105, 33, 10 :: byte])) \<le> 2"
  by (rule base64_roundtrip) simp

lemma alphabet: "of_nat n \<in> set (butlast base64_table)"
  if "n \<in> {65..90} \<union> {97..122} \<union> {48..57} \<union> {43, 47}"
proof -
  have bl: "butlast base64_table = map of_nat ([65..<91] @ [97..<123] @ [48..<58] @ [43, 47])"
    by (simp add: base64_table_def butlast_append map_butlast[symmetric] del: upt_rec_numeral)
  have "n \<in> set ([65..<91] @ [97..<123] @ [48..<58] @ [43, 47])"
    using that by (auto simp del: upt_rec_numeral)
  then show ?thesis unfolding bl set_map by (rule imageI)
qed

lemma outside_alphabet:
  assumes "c \<notin> set (butlast base64_table)" "c \<noteq> 61"
  shows "from_base_64 c = 22"
proof (rule ccontr)
  assume "from_base_64 c \<noteq> 22"
  then have "sint c \<in> {65..90} \<union> {97..122} \<union> {48..57} \<union> {43, 47, 61}"
    by (auto simp: from_base_64_def Let_def EINVAL_def split: if_splits)
  then have nn: "0 \<le> sint c" and n: "nat (sint c) \<in> {65..90} \<union> {97..122} \<union> {48..57} \<union> {43, 47, 61}" by auto
  have "c = of_nat (nat (sint c))" using nn by simp
  then show False using alphabet[of "nat (sint c)"] n assms by (auto simp del: of_nat_nat)
qed

text \<open>
  A character outside of the alphabet is not refused: the error number that stands for it is taken as
  its value, so that the text decodes as if it had a \<open>W\<close> there.
\<close>

theorem bad_character_decodes:
  assumes "c \<notin> set (butlast base64_table)" "c \<noteq> 61"
  shows "base64_decode (xs @ c # ys) n = base64_decode (xs @ 87 # ys) n"
proof -
  have "from_base_64 c = 22" by (rule outside_alphabet[OF assms])
  moreover have "from_base_64 87 = 22" by code_simp
  ultimately have "decode_loop (xs @ c # ys) = decode_loop (xs @ 87 # ys)"
    by (intro decode_loop_cong) simp
  then show ?thesis by (simp add: base64_decode_def)
qed

theorem bad_character_decodes_witness:
  "base64_decode ([65, 65] @ 35 # [65]) 3 = base64_decode ([65, 65] @ 87 # [65]) 3 \<and>
   base64_decode ([65, 65] @ 87 # [65]) 3 = Inr [0, 5, 128]"
proof
  show "base64_decode ([65, 65] @ 35 # [65]) 3 = base64_decode ([65, 65] @ 87 # [65]) 3"
    by (rule bad_character_decodes) code_simp+
  show "base64_decode ([65, 65] @ 87 # [65]) 3 = Inr [0, 5, 128]" by code_simp
qed

end
