(* ===== verification/HistogramLog.thy ===== *)
theory HistogramLog
  imports HistogramIter Base64
begin

text \<open>
  The encoding of histograms in \<^verbatim>\<open>hdr_histogram_log.c\<close>: the counters and the settings in big-endian order,
  compressed by zlib, behind a header, as base-64 text. zlib is a parameter. Memory that could not be
  allocated is given by the flags of \<open>allocations\<close>; the result of \<^verbatim>\<open>calloc\<close> in \<^verbatim>\<open>hdr_log_encode\<close> and of
  \<^verbatim>\<open>malloc\<close> in \<^verbatim>\<open>hdr_log_decode\<close> is used without a test, and is taken to be there.
\<close>

section \<open>The code\<close>

definition V0_ENCODING_COOKIE :: int32_t where
  "V0_ENCODING_COOKIE = 0x1c849308 + (push_bit 4 8)"

definition V0_COMPRESSION_COOKIE :: int32_t where
  "V0_COMPRESSION_COOKIE = 0x1c849309 + (push_bit 4 8)"

definition V1_ENCODING_COOKIE :: int32_t where
  "V1_ENCODING_COOKIE = 0x1c849301 + (push_bit 4 8)"

definition V1_COMPRESSION_COOKIE :: int32_t where
  "V1_COMPRESSION_COOKIE = 0x1c849302 + (push_bit 4 8)"

definition HDR_COMPRESSION_COOKIE_MISMATCH :: int where
  "HDR_COMPRESSION_COOKIE_MISMATCH = - 29999"

definition HDR_ENCODING_COOKIE_MISMATCH :: int where
  "HDR_ENCODING_COOKIE_MISMATCH = - 29998"

definition HDR_DEFLATE_FAIL :: int where
  "HDR_DEFLATE_FAIL = - 29996"

definition HDR_INFLATE_FAIL :: int where
  "HDR_INFLATE_FAIL = - 29994"

text \<open>
  The byte order macros, on a little-endian machine: they reverse the bytes. A structure in memory is
  the list of its fields in that machine's order.
\<close>

definition htobe32 :: "int32_t \<Rightarrow> int32_t" where
  "htobe32 x = dec (rev (enc 4 x))"

definition be32toh :: "int32_t \<Rightarrow> int32_t" where
  "be32toh x = dec (rev (enc 4 x))"

definition htobe64 :: "int64_t \<Rightarrow> int64_t" where
  "htobe64 x = dec (rev (enc 8 x))"

definition be64toh :: "int64_t \<Rightarrow> int64_t" where
  "be64toh x = dec (rev (enc 8 x))"

record encoding_flyweight_v0 =
  v0_cookie :: int32_t
  v0_significant_figures :: int32_t
  v0_lowest_trackable_value :: int64_t
  v0_highest_trackable_value :: int64_t
  v0_total_count :: int64_t

record encoding_flyweight_v1 =
  v1_cookie :: int32_t
  v1_payload_len :: int32_t
  v1_normalizing_index_offset :: int32_t
  v1_significant_figures :: int32_t
  v1_lowest_trackable_value :: int64_t
  v1_highest_trackable_value :: int64_t
  v1_conversion_ratio_bits :: int64_t

definition bytes_of_v1 :: "encoding_flyweight_v1 \<Rightarrow> byte list" where
  "bytes_of_v1 e =
     enc 4 (v1_cookie e) @ enc 4 (v1_payload_len e) @ enc 4 (v1_normalizing_index_offset e) @
     enc 4 (v1_significant_figures e) @ enc 8 (v1_lowest_trackable_value e) @
     enc 8 (v1_highest_trackable_value e) @ enc 8 (v1_conversion_ratio_bits e)"

definition v1_of_bytes :: "byte list \<Rightarrow> encoding_flyweight_v1" where
  "v1_of_bytes bs =
     \<lparr>v1_cookie = dec (take 4 bs), v1_payload_len = dec (take 4 (drop 4 bs)),
      v1_normalizing_index_offset = dec (take 4 (drop 8 bs)), v1_significant_figures = dec (take 4 (drop 12 bs)),
      v1_lowest_trackable_value = dec (take 8 (drop 16 bs)), v1_highest_trackable_value = dec (take 8 (drop 24 bs)),
      v1_conversion_ratio_bits = dec (take 8 (drop 32 bs))\<rparr>"

definition v0_of_bytes :: "byte list \<Rightarrow> encoding_flyweight_v0" where
  "v0_of_bytes bs =
     \<lparr>v0_cookie = dec (take 4 bs), v0_significant_figures = dec (take 4 (drop 4 bs)),
      v0_lowest_trackable_value = dec (take 8 (drop 8 bs)), v0_highest_trackable_value = dec (take 8 (drop 16 bs)),
      v0_total_count = dec (take 8 (drop 24 bs))\<rparr>"

text \<open>
  zlib: \<^verbatim>\<open>compress\<close>, \<open>None\<close> when it fails; whether \<^verbatim>\<open>inflateInit\<close> succeeds; a stream over compressed bytes; \<^verbatim>\<open>inflate\<close> with
  \<^verbatim>\<open>Z_SYNC_FLUSH\<close> into a buffer of so many bytes, when it gives \<^verbatim>\<open>Z_OK\<close>; and with \<^verbatim>\<open>Z_FINISH\<close>, when it
  gives \<^verbatim>\<open>Z_STREAM_END\<close>.
\<close>

record 'z zlib =
  z_compress :: "byte list \<Rightarrow> byte list option"
  z_ready :: bool
  z_open :: "byte list \<Rightarrow> 'z"
  z_inflate_sync :: "'z \<Rightarrow> nat \<Rightarrow> ('z \<times> byte list) option"
  z_inflate_finish :: "'z \<Rightarrow> nat \<Rightarrow> byte list option"

record allocations =
  encoded_allocated :: bool
  compressed_allocated :: bool
  histogram_allocated :: bool
  counts_allocated :: bool

definition counts_to_bytes :: "histogram \<Rightarrow> byte list" where
  "counts_to_bytes h = concat (map (\<lambda>i. enc 8 (htobe64 (counts h ! i))) [0..<nat (sint (counts_len h))])"

definition hdr_encode_compressed :: "'z zlib \<Rightarrow> allocations \<Rightarrow> histogram \<Rightarrow> int + byte list" where
  "hdr_encode_compressed z mem h =
     (let encoded_size = 40 + 8 * nat (sint (counts_len h))
      in if \<not> encoded_allocated mem then Inl ENOMEM
         else if \<not> compressed_allocated mem then Inl ENOMEM
         else
           let encoded = \<lparr>v1_cookie = htobe32 V1_ENCODING_COOKIE, v1_payload_len = htobe32 (of_nat encoded_size),
                 v1_normalizing_index_offset = htobe32 (normalizing_index_offset h),
                 v1_significant_figures = htobe32 (ucast (significant_figures h)),
                 v1_lowest_trackable_value = htobe64 (lowest_trackable_value h),
                 v1_highest_trackable_value = htobe64 (highest_trackable_value h),
                 v1_conversion_ratio_bits = htobe64 (conversion_ratio h)\<rparr>
           in case z_compress z (bytes_of_v1 encoded @ counts_to_bytes h) of
                None \<Rightarrow> Inl HDR_DEFLATE_FAIL
              | Some data \<Rightarrow>
                  Inr (enc 4 (htobe32 V1_COMPRESSION_COOKIE) @ enc 4 (htobe32 (of_nat (length data))) @ data))"

definition counts_of_bytes :: "byte list \<Rightarrow> nat \<Rightarrow> int64_t list" where
  "counts_of_bytes bs n = map (\<lambda>i. be64toh (dec (take 8 (drop (8 * i) bs)))) [0..<n]"

definition set_counts :: "histogram \<Rightarrow> byte list \<Rightarrow> histogram" where
  "set_counts h bs =
     (let n = nat (sint (counts_len h)) in h\<lparr>counts := counts_of_bytes bs n @ drop n (counts h)\<rparr>)"

text \<open>
  The two versions of decoding up to their clean-up: the error, or the histogram. Both compare the length
  as unsigned numbers, and both take whatever keeps \<^verbatim>\<open>hdr_init\<close> from succeeding for missing memory.
\<close>

definition decoded_v0 ::
    "'z zlib \<Rightarrow> (int64_t \<Rightarrow> int32_t) \<Rightarrow> allocations \<Rightarrow> byte list \<Rightarrow> (int + histogram) option" where
  "decoded_v0 z floor_log2 mem flyweight =
     (let compressed_length = be32toh (dec (take 4 (drop 4 flyweight)))
      in if \<not> z_ready z then Some (Inl HDR_INFLATE_FAIL)
         else if unat (of_nat (length flyweight) - 8 :: uint64_t) < unat (scast compressed_length :: uint64_t)
         then Some (Inl EINVAL)
         else case z_inflate_sync z (z_open z (take (unat compressed_length) (drop 8 flyweight))) 32 of
             None \<Rightarrow> Some (Inl HDR_INFLATE_FAIL)
           | Some (strm, header) \<Rightarrow>
      let e = v0_of_bytes header
      in if V0_ENCODING_COOKIE \<noteq> be32toh (v0_cookie e) then Some (Inl HDR_ENCODING_COOKIE_MISMATCH)
         else case hdr_init floor_log2 (be64toh (v0_lowest_trackable_value e)) (be64toh (v0_highest_trackable_value e))
                (be32toh (v0_significant_figures e)) (histogram_allocated mem) of
                None \<Rightarrow> None
              | Some (Inl r) \<Rightarrow> Some (Inl ENOMEM)
              | Some (Inr h) \<Rightarrow>
      if \<not> counts_allocated mem then Some (Inl ENOMEM)
      else case z_inflate_finish z strm (8 * nat (sint (counts_len h))) of
             None \<Rightarrow> Some (Inl HDR_INFLATE_FAIL)
           | Some bs \<Rightarrow>
      map_option (\<lambda>h. Inr (h\<lparr>normalizing_index_offset := 0, conversion_ratio := ONE_BITS\<rparr>))
        (hdr_reset_internal_counters (set_counts h bs)))"

text \<open>The offset was written with 32 bits and is read with 64.\<close>

definition read_offset :: "int32_t \<Rightarrow> int32_t" where
  "read_offset field = ucast (be64toh (scast field))"

definition decoded_v1 ::
    "'z zlib \<Rightarrow> (int64_t \<Rightarrow> int32_t) \<Rightarrow> allocations \<Rightarrow> byte list \<Rightarrow> (int + histogram) option" where
  "decoded_v1 z floor_log2 mem flyweight =
     (let compressed_length = be32toh (dec (take 4 (drop 4 flyweight)))
      in if \<not> z_ready z then Some (Inl HDR_INFLATE_FAIL)
         else if unat (of_nat (length flyweight) - 8 :: uint64_t) < unat (scast compressed_length :: uint64_t)
         then Some (Inl EINVAL)
         else case z_inflate_sync z (z_open z (take (unat compressed_length) (drop 8 flyweight))) 40 of
             None \<Rightarrow> Some (Inl HDR_INFLATE_FAIL)
           | Some (strm, header) \<Rightarrow>
      let e = v1_of_bytes header
      in if V1_ENCODING_COOKIE \<noteq> be32toh (v1_cookie e) then Some (Inl HDR_ENCODING_COOKIE_MISMATCH)
         else case hdr_init floor_log2 (be64toh (v1_lowest_trackable_value e)) (be64toh (v1_highest_trackable_value e))
                (be32toh (v1_significant_figures e)) (histogram_allocated mem) of
                None \<Rightarrow> None
              | Some (Inl r) \<Rightarrow> Some (Inl ENOMEM)
              | Some (Inr h) \<Rightarrow>
      if \<not> counts_allocated mem then Some (Inl ENOMEM)
      else case z_inflate_finish z strm (8 * nat (sint (counts_len h))) of
             None \<Rightarrow> Some (Inl HDR_INFLATE_FAIL)
           | Some bs \<Rightarrow>
      map_option Inr
        (hdr_reset_internal_counters
          ((set_counts h bs)\<lparr>normalizing_index_offset := read_offset (v1_normalizing_index_offset e),
             conversion_ratio := be64toh (v1_conversion_ratio_bits e)\<rparr>)))"

text \<open>
  The clean-up: the decoded histogram is the caller's, or is added to the one that the caller has.
  \<open>None\<close>: the call does not return.
\<close>

definition deliver :: "hdr_iter \<Rightarrow> histogram option \<Rightarrow> (int + histogram) option \<Rightarrow> (int \<times> histogram option) option" where
  "deliver iter histogram decoded =
     (case decoded of
        None \<Rightarrow> None
      | Some (Inl r) \<Rightarrow> Some (r, histogram)
      | Some (Inr h) \<Rightarrow>
          (case histogram of
             None \<Rightarrow> Some (0, Some h)
           | Some h0 \<Rightarrow> map_option (\<lambda>(dropped, h1). (0, Some h1)) (hdr_add iter h0 h)))"

definition hdr_decode_compressed ::
    "'z zlib \<Rightarrow> (int64_t \<Rightarrow> int32_t) \<Rightarrow> allocations \<Rightarrow> hdr_iter \<Rightarrow> byte list \<Rightarrow> histogram option \<Rightarrow>
     (int \<times> histogram option) option" where
  "hdr_decode_compressed z floor_log2 mem iter buffer histogram =
     (if length buffer < 8 then Some (EINVAL, histogram)
      else
        let cookie = be32toh (dec (take 4 buffer))
        in if V0_COMPRESSION_COOKIE = cookie then deliver iter histogram (decoded_v0 z floor_log2 mem buffer)
           else if V1_COMPRESSION_COOKIE = cookie then deliver iter histogram (decoded_v1 z floor_log2 mem buffer)
           else Some (HDR_COMPRESSION_COOKIE_MISMATCH, histogram))"

text \<open>The text ends with a zero byte.\<close>

definition hdr_log_encode :: "'z zlib \<Rightarrow> allocations \<Rightarrow> histogram \<Rightarrow> int + byte list" where
  "hdr_log_encode z mem h =
     (case hdr_encode_compressed z mem h of
        Inl rc \<Rightarrow> Inl rc
      | Inr compressed \<Rightarrow>
          (case base64_encode compressed (base64_encoded_len (length compressed)) of
             Inl rc \<Rightarrow> Inl rc
           | Inr encoded \<Rightarrow> Inr (encoded @ [0])))"

definition hdr_log_decode ::
    "'z zlib \<Rightarrow> (int64_t \<Rightarrow> int32_t) \<Rightarrow> allocations \<Rightarrow> hdr_iter \<Rightarrow> byte list \<Rightarrow> nat \<Rightarrow> histogram option \<Rightarrow>
     (int \<times> histogram option) option" where
  "hdr_log_decode z floor_log2 mem iter base64_histogram base64_len histogram =
     (case base64_decode (take base64_len base64_histogram) (base64_decoded_len base64_len) of
        Inl r \<Rightarrow> Some (r, histogram)
      | Inr compressed \<Rightarrow> hdr_decode_compressed z floor_log2 mem iter compressed histogram)"

section \<open>Byte order\<close>

lemma bit_dec:
  assumes "8 * length bs \<le> LENGTH('a)"
  shows "bit (dec bs :: 'a::len word) n \<longleftrightarrow> n < 8 * length bs \<and> bit (bs ! (n div 8)) (n mod 8)"
  using assms
proof (induction bs arbitrary: n)
  case (Cons b bs)
  show ?case
  proof (cases "n < 8")
    case True
    then show ?thesis using Cons.prems by (auto simp: bit_simps)
  next
    case False
    then obtain k where k: "n = k + 8" by (metis add.commute le_Suc_ex not_less)
    have "\<not> bit b (k + 8)" using bit_imp_le_length[of b "k + 8"] by auto
    have ih: "bit (dec bs :: 'a word) k \<longleftrightarrow> k < 8 * length bs \<and> bit (bs ! (k div 8)) (k mod 8)"
      using Cons.IH[of k] Cons.prems by simp
    have "bit (dec (b # bs) :: 'a word) n \<longleftrightarrow> k + 8 < LENGTH('a) \<and> bit (dec bs :: 'a word) k"
      using \<open>\<not> bit b (k + 8)\<close> by (simp add: k bit_or_iff bit_push_bit_iff bit_ucast_iff)
    also have "\<dots> \<longleftrightarrow> k < 8 * length bs \<and> bit (bs ! (k div 8)) (k mod 8)"
      unfolding ih using Cons.prems by auto
    finally have main: "bit (dec (b # bs) :: 'a word) n \<longleftrightarrow> k < 8 * length bs \<and> bit (bs ! (k div 8)) (k mod 8)" .
    have "n div 8 = Suc (k div 8)" "n mod 8 = k mod 8" "n < 8 * length (b # bs) \<longleftrightarrow> k < 8 * length bs"
      by (simp_all add: k div_add_self2)
    then show ?thesis unfolding main by (simp only: nth_Cons_Suc)
  qed
qed simp

lemma bit_enc: "j < n \<Longrightarrow> bit (enc n w ! j) k \<longleftrightarrow> k < 8 \<and> bit (w :: 'a::len word) (8 * j + k)"
proof (induction n arbitrary: w j)
  case (Suc n)
  show ?case
  proof (cases j)
    case 0
    then show ?thesis by (auto simp: bit_simps)
  next
    case (Suc i)
    then show ?thesis using Suc.IH[of i "drop_bit 8 w"] Suc.prems by (simp add: bit_simps algebra_simps)
  qed
qed simp

lemma swap32 [simp]: "be32toh (htobe32 x) = x"
  using enc_dec[of "rev (enc 4 x)", where 'a = 32] dec_enc[of 4 x]
  by (simp add: be32toh_def htobe32_def del: enc_numeral)

lemma swap64 [simp]: "be64toh (htobe64 x) = x"
  using enc_dec[of "rev (enc 8 x)", where 'a = 64] dec_enc[of 8 x]
  by (simp add: be64toh_def htobe64_def del: enc_numeral)

lemma bit_htobe32: "bit (htobe32 x) n \<longleftrightarrow> n < 32 \<and> bit x (8 * (3 - n div 8) + n mod 8)"
proof (cases "n < 32")
  case True
  then have "n div 8 < 4" by simp
  then show ?thesis
    using True by (simp add: htobe32_def bit_dec rev_nth bit_enc del: enc_numeral)
qed (auto simp: bit_dec htobe32_def simp del: enc_numeral)

lemma bit_be64toh: "bit (be64toh x) n \<longleftrightarrow> n < 64 \<and> bit x (8 * (7 - n div 8) + n mod 8)"
proof (cases "n < 64")
  case True
  then have "n div 8 < 8" by simp
  then show ?thesis
    using True by (simp add: be64toh_def bit_dec rev_nth bit_enc del: enc_numeral)
qed (auto simp: bit_dec be64toh_def simp del: enc_numeral)

text \<open>All that is left of the offset is a bit of its lowest byte.\<close>

lemma read_offset_htobe32: "read_offset (htobe32 x) = (if bit x 7 then - 1 else 0)"
proof (rule bit_word_eqI)
  fix n assume "n < LENGTH(32)"
  then have n: "n < 32" by simp
  then have d: "4 \<le> 7 - n div 8" by auto
  then have "32 \<le> 8 * (7 - n div 8) + n mod 8" by linarith
  moreover have "8 * (7 - n div 8) + n mod 8 < 64" by auto
  ultimately have "bit (be64toh (scast (htobe32 x))) n \<longleftrightarrow> bit (htobe32 x) 31"
    using n by (auto simp: bit_be64toh bit_simps)
  also have "\<dots> \<longleftrightarrow> bit x 7" by (simp add: bit_htobe32)
  finally show "bit (read_offset (htobe32 x)) n = bit (if bit x 7 then - 1 else 0 :: int32_t) n"
    using n by (simp add: read_offset_def bit_simps)
qed

section \<open>Structures and counters as bytes\<close>

lemma take_enc [simp]: "take n (enc n w @ bs) = enc n w" "drop n (enc n w @ bs) = bs"
  by (simp_all add: length_enc)

lemma drop_enc_add: "drop (n + k) (enc n w @ bs) = drop k bs"
  by simp

lemma v1_round_trip: "v1_of_bytes (bytes_of_v1 e @ bs) = e" "length (bytes_of_v1 e) = 40"
proof -
  note drops = drop_enc_add[of 4 4] drop_enc_add[of 4 8] drop_enc_add[of 4 12] drop_enc_add[of 4 20]
    drop_enc_add[of 4 28] drop_enc_add[of 8 8] drop_enc_add[of 8 16]
  show "length (bytes_of_v1 e) = 40" by (simp add: bytes_of_v1_def del: enc_numeral)
  show "v1_of_bytes (bytes_of_v1 e @ bs) = e"
    by (cases e) (simp add: v1_of_bytes_def bytes_of_v1_def dec_enc del: enc_numeral)
qed

lemma take_drop_concat:
  assumes "\<And>i. i < n \<Longrightarrow> length (f i) = k" "i < n"
  shows "take k (drop (k * i) (concat (map f [0..<n]))) = f i"
  using assms
proof (induction n)
  case (Suc n)
  have len: "length (concat (map f [0..<n])) = k * n"
    using Suc.prems(1) by (simp add: length_concat comp_def interv_sum_list_conv_sum_set_nat)
  show ?case
  proof (cases "i = n")
    case True
    then show ?thesis using Suc.prems(1)[of n] len by simp
  next
    case False
    then have i: "i < n" using Suc.prems(2) by simp
    then have "k * Suc i \<le> k * n" by (intro mult_le_mono2) simp
    then have "take k (drop (k * i) (concat (map f [0..<n]) @ f n)) = take k (drop (k * i) (concat (map f [0..<n])))"
      using len by simp
    then show ?thesis using Suc.IH i Suc.prems(1) by simp
  qed
qed simp

lemma counts_round_trip:
  assumes "length (counts h) = n" "nat (sint (counts_len h)) = n"
  shows "counts_of_bytes (counts_to_bytes h) n = counts h" "length (counts_to_bytes h) = 8 * n"
proof -
  have take: "take 8 (drop (8 * i) (counts_to_bytes h)) = enc 8 (htobe64 (counts h ! i))" if "i < n" for i
    unfolding counts_to_bytes_def assms(2) using that by (intro take_drop_concat) simp_all
  show "counts_of_bytes (counts_to_bytes h) n = counts h"
    unfolding counts_of_bytes_def using assms(1)
    by (intro nth_equalityI) (simp_all add: take dec_enc del: enc_numeral)
  show "length (counts_to_bytes h) = 8 * n"
    unfolding counts_to_bytes_def assms(2)
    by (simp add: length_concat comp_def interv_sum_list_conv_sum_set_nat del: enc_numeral)
qed

section \<open>Counting again\<close>

text \<open>The indices of the counters with a positive count, and the histogram counted again from them.\<close>

definition positive_among :: "histogram \<Rightarrow> nat list \<Rightarrow> nat list" where
  "positive_among h is = filter (\<lambda>i. 0 < sint (counts h ! i)) is"

definition counted :: "histogram \<Rightarrow> histogram" where
  "counted h =
     (let positive = positive_among h [0..<length (counts h)]
      in h\<lparr>min_value := (case filter (\<lambda>i. i \<noteq> 0) positive of [] \<Rightarrow> INT64_MAX | i # _ \<Rightarrow> hdr_value_at_index h (of_nat i)),
           max_value := (if positive = [] then 0
             else highest_equivalent_value h (hdr_value_at_index h (of_nat (last positive)))),
           total_count := sum_list (map ((!) (counts h)) positive)\<rparr>)"

lemma observe_all_ok:
  assumes "\<forall>i \<in> set is. i < length (counts h)" "length (counts h) < 2 ^ 31"
  shows "observe_all h is seen = Some
    \<lparr>min_non_zero_index =
       (case filter (\<lambda>i. i \<noteq> 0) (positive_among h is) of
          [] \<Rightarrow> min_non_zero_index seen
        | i # _ \<Rightarrow> if min_non_zero_index seen = -1 then int i else min_non_zero_index seen),
     max_index = (if positive_among h is = [] then max_index seen else int (last (positive_among h is))),
     observed_total_count = observed_total_count seen + sum_list (map ((!) (counts h)) (positive_among h is))\<rparr>"
  using assms(1)
proof (induction "is" arbitrary: seen)
  case Nil
  then show ?case by (simp add: positive_among_def)
next
  case (Cons i js)
  have i: "sint (of_nat i :: int32_t) = int i" using Cons.prems assms(2) by (intro sint_of_nat32) simp
  have nz: "(of_nat i :: int32_t) = 0 \<longleftrightarrow> i = 0"
  proof
    assume "(of_nat i :: int32_t) = 0"
    then show "i = 0" using i by (simp only: signed_0 of_nat_eq_0_iff)
  qed simp
  have get: "counts_get_direct h (of_nat i) = Some (counts h ! i)"
    using Cons.prems i by (simp add: counts_get_direct_def)
  have step: "observe h (of_nat i) seen = Some (if 0 < sint (counts h ! i)
      then seen\<lparr>observed_total_count := observed_total_count seen + counts h ! i, max_index := int i,
        min_non_zero_index := (if min_non_zero_index seen = -1 \<and> i \<noteq> 0 then int i else min_non_zero_index seen)\<rparr>
      else seen)"
    by (simp add: observe_def get i nz)
  show ?case
  proof (cases "0 < sint (counts h ! i)")
    case True
    then have "positive_among h (i # js) = i # positive_among h js" by (simp add: positive_among_def)
    then show ?thesis using Cons.IH Cons.prems True
      by (simp add: step add.assoc split: list.split)
  next
    case False
    then have "positive_among h (i # js) = positive_among h js" by (simp add: positive_among_def)
    then show ?thesis using Cons.IH Cons.prems False by (simp add: step)
  qed
qed

text \<open>Only the least and the greatest value and the total are set, from the counters and the settings.\<close>

lemma value_at_index_settings:
  "hdr_value_at_index (h\<lparr>max_value := b\<rparr>) i = hdr_value_at_index h i"
  by (simp add: hdr_value_at_index_def Let_def)

lemma reset_internal_counters:
  assumes "nat (sint (counts_len h)) = length (counts h)" "length (counts h) < 2 ^ 31"
  shows "hdr_reset_internal_counters h = Some (counted h)"
proof -
  have "observe_all h [0..<length (counts h)] \<lparr>min_non_zero_index = -1, max_index = -1, observed_total_count = 0\<rparr> = Some
    \<lparr>min_non_zero_index =
       (case filter (\<lambda>i. i \<noteq> 0) (positive_among h [0..<length (counts h)]) of [] \<Rightarrow> - 1 | i # _ \<Rightarrow> int i),
     max_index = (if positive_among h [0..<length (counts h)] = [] then - 1 else int (last (positive_among h [0..<length (counts h)]))),
     observed_total_count = sum_list (map ((!) (counts h)) (positive_among h [0..<length (counts h)]))\<rparr>"
    using observe_all_ok[of "[0..<length (counts h)]" h
        "\<lparr>min_non_zero_index = -1, max_index = -1, observed_total_count = 0\<rparr>"] assms(2) by (simp split: list.split)
  then show ?thesis
    unfolding hdr_reset_internal_counters_def assms(1) Let_def
    by (simp add: counted_def Let_def value_at_index_settings split: list.split)
qed

section \<open>The round trip\<close>

definition zlib_ok :: "'z zlib \<Rightarrow> bool" where
  "zlib_ok z \<longleftrightarrow> z_ready z \<and>
     (\<forall>bs data. z_compress z bs = Some data \<longrightarrow> length data \<le> 2 * length bs + 64 \<and>
        (\<forall>k < length bs. \<exists>s. z_inflate_sync z (z_open z data) k = Some (s, take k bs) \<and>
           z_inflate_finish z s (length bs - k) = Some (drop k bs)))"

text \<open>A histogram with the settings that \<^verbatim>\<open>hdr_init\<close> would give it, and any counts.\<close>

definition configured :: "(int64_t \<Rightarrow> int32_t) \<Rightarrow> histogram \<Rightarrow> bool" where
  "configured floor_log2 h \<longleftrightarrow>
     (\<exists>h0 u m B. hdr_init floor_log2 (lowest_trackable_value h) (highest_trackable_value h)
          (ucast (significant_figures h)) True = Some (Inr h0) \<and> shaped u m B h0 \<and>
        length (counts h) = length (counts h0) \<and>
        h = h0\<lparr>min_value := min_value h, max_value := max_value h,
              normalizing_index_offset := normalizing_index_offset h, conversion_ratio := conversion_ratio h,
              total_count := total_count h, counts := counts h\<rparr>)"

lemma configured_length:
  assumes "configured floor_log2 h"
  shows "nat (sint (counts_len h)) = length (counts h)" "length (counts h) \<le> 2 ^ 23" "0 < length (counts h)"
proof -
  obtain h0 u m B where h0: "shaped u m B h0" "length (counts h) = length (counts h0)"
    "h = h0\<lparr>min_value := min_value h, max_value := max_value h,
              normalizing_index_offset := normalizing_index_offset h, conversion_ratio := conversion_ratio h,
              total_count := total_count h, counts := counts h\<rparr>"
    using assms unfolding configured_def by blast
  note a = shaped_array[OF h0(1)]
  have "counts_len h = counts_len h0" by (subst h0(3)) simp
  then show "nat (sint (counts_len h)) = length (counts h)" using a(2) h0(2) by simp
  show "length (counts h) \<le> 2 ^ 23" "0 < length (counts h)" using a(4,5) h0(2) by simp_all
qed

lemma set_counts_configured:
  assumes "h = h0\<lparr>min_value := min_value h, max_value := max_value h,
      normalizing_index_offset := normalizing_index_offset h, conversion_ratio := conversion_ratio h,
      total_count := total_count h, counts := counts h\<rparr>"
    "length (counts h) = length (counts h0)" "nat (sint (counts_len h)) = length (counts h)"
  shows "set_counts h0 (counts_to_bytes h) = h0\<lparr>counts := counts h\<rparr>" "counts_len h0 = counts_len h"
proof -
  show cl: "counts_len h0 = counts_len h" by (subst assms(1)) simp
  show "set_counts h0 (counts_to_bytes h) = h0\<lparr>counts := counts h\<rparr>"
    using counts_round_trip(1)[OF HOL.refl assms(3)] assms(2,3) by (simp add: set_counts_def cl)
qed

lemma reset_depends:
  assumes "nat (sint (counts_len h)) = length (counts h)" "length (counts h) < 2 ^ 31"
    "h1 = h\<lparr>min_value := a, max_value := b, total_count := c\<rparr>"
  shows "hdr_reset_internal_counters h1 = hdr_reset_internal_counters h"
proof -
  have "counts_get_direct h1 i = counts_get_direct h i" for i by (simp add: counts_get_direct_def assms(3))
  then have "observe h1 i s = observe h i s" for i s by (simp add: observe_def)
  then have obs: "observe_all h1 is s = observe_all h is s" for "is" s
    by (induction "is" arbitrary: s) (simp_all split: option.split)
  have bi: "get_bucket_index (h\<lparr>max_value := b'\<rparr>) v = get_bucket_index h v"
    "get_bucket_index h1 v = get_bucket_index h v" for b' v
    by (simp_all add: get_bucket_index_def assms(3))
  have val: "hdr_value_at_index (h1\<lparr>max_value := x\<rparr>) i = hdr_value_at_index h i"
    "hdr_value_at_index (h\<lparr>max_value := x\<rparr>) i = hdr_value_at_index h i"
    "hdr_value_at_index h1 i = hdr_value_at_index h i" for x i
    by (simp_all add: hdr_value_at_index_def assms(3) Let_def)
  have high: "highest_equivalent_value h1 v = highest_equivalent_value h v" for v
    by (simp add: highest_equivalent_value_def hdr_next_non_equivalent_value_def lowest_equivalent_value_def
        hdr_size_of_equivalent_value_range_def bi) (simp add: assms(3))
  have "h1\<lparr>max_value := x, min_value := y, total_count := w\<rparr> = h\<lparr>max_value := x, min_value := y, total_count := w\<rparr>" for x y w
    unfolding assms(3) by (cases h) simp
  moreover have "counts_len h1 = counts_len h" by (simp add: assms(3))
  ultimately show ?thesis unfolding hdr_reset_internal_counters_def obs Let_def val high by simp
qed

lemma decoded_v1_encoded:
  assumes "configured floor_log2 h" "zlib_ok z" "hdr_encode_compressed z mem h = Inr compressed"
    "histogram_allocated mem'" "counts_allocated mem'" "length pad \<le> 2"
  shows "decoded_v1 z floor_log2 mem' (compressed @ pad) =
      map_option Inr (hdr_reset_internal_counters
        (h\<lparr>normalizing_index_offset := (if bit (normalizing_index_offset h) 7 then - 1 else 0)\<rparr>))"
    "be32toh (dec (take 4 (compressed @ pad))) = V1_COMPRESSION_COOKIE" "8 \<le> length compressed"
proof -
  let ?n = "length (counts h)"
  note len = configured_length[OF assms(1)]
  define e where "e = \<lparr>v1_cookie = htobe32 V1_ENCODING_COOKIE, v1_payload_len = htobe32 (of_nat (40 + 8 * ?n)),
    v1_normalizing_index_offset = htobe32 (normalizing_index_offset h),
    v1_significant_figures = htobe32 (ucast (significant_figures h)),
    v1_lowest_trackable_value = htobe64 (lowest_trackable_value h),
    v1_highest_trackable_value = htobe64 (highest_trackable_value h),
    v1_conversion_ratio_bits = htobe64 (conversion_ratio h)\<rparr>"
  let ?bs = "bytes_of_v1 e @ counts_to_bytes h"
  have cnt: "length (counts_to_bytes h) = 8 * ?n" by (rule counts_round_trip(2)[OF HOL.refl len(1)])
  obtain data where data: "z_compress z ?bs = Some data"
    "compressed = enc 4 (htobe32 V1_COMPRESSION_COOKIE) @ enc 4 (htobe32 (of_nat (length data))) @ data"
    using assms(3) by (auto simp: hdr_encode_compressed_def Let_def len(1) e_def split: if_splits option.splits)
  have lbs: "length ?bs = 40 + 8 * ?n" by (simp add: v1_round_trip cnt)
  note zz = assms(2)[unfolded zlib_ok_def, THEN conjunct2, rule_format, OF data(1)]
  have "40 < length ?bs" using lbs len(3) by simp
  note zok = zz[THEN conjunct1] zz[THEN conjunct2, rule_format, OF this]
  from zok(2) have "\<exists>s. z_inflate_sync z (z_open z data) 40 = Some (s, take 40 ?bs) \<and>
      z_inflate_finish z s (length ?bs - 40) = Some (drop 40 ?bs)" .
  then obtain s where s: "z_inflate_sync z (z_open z data) 40 = Some (s, bytes_of_v1 e)"
    "z_inflate_finish z s (8 * ?n) = Some (counts_to_bytes h)"
    using lbs by (auto simp: v1_round_trip)
  have ld: "length data < 2 ^ 31" using zok(1) lbs len(2) by simp
  have clen: "be32toh (dec (take 4 (drop 4 (compressed @ pad)))) = of_nat (length data)"
    unfolding data(2) by (simp add: dec_enc del: enc_numeral)
  have ul: "unat (of_nat (length data) :: int32_t) = length data" using ld by (intro unat_of_nat32) simp
  have strm: "take (length data) (drop 8 (compressed @ pad)) = data"
    unfolding data(2) by (simp del: enc_numeral)
  obtain h0 u m B where h0: "hdr_init floor_log2 (lowest_trackable_value h) (highest_trackable_value h)
      (ucast (significant_figures h)) True = Some (Inr h0)" "length ?bs = length ?bs"
    "length (counts h) = length (counts h0)"
    "h = h0\<lparr>min_value := min_value h, max_value := max_value h,
        normalizing_index_offset := normalizing_index_offset h, conversion_ratio := conversion_ratio h,
        total_count := total_count h, counts := counts h\<rparr>"
    using assms(1) unfolding configured_def by blast
  note sc = set_counts_configured[OF h0(4,3) len(1)]
  show "be32toh (dec (take 4 (compressed @ pad))) = V1_COMPRESSION_COOKIE"
    unfolding data(2) by (simp add: dec_enc del: enc_numeral)
  show "8 \<le> length compressed" unfolding data(2) by simp
  have big: "\<not> unat (of_nat (length (compressed @ pad)) - 8 :: uint64_t) < unat (scast (of_nat (length data) :: int32_t) :: uint64_t)"
  proof -
    have "length (compressed @ pad) = 8 + (length data + length pad)" unfolding data(2) by simp
    then have "(of_nat (length (compressed @ pad)) - 8 :: uint64_t) = of_nat (length data + length pad)" by simp
    moreover have "length data + length pad < 2 ^ 64" using ld assms(6) by simp
    ultimately have "unat (of_nat (length (compressed @ pad)) - 8 :: uint64_t) = length data + length pad"
      by (simp only: unat_of_nat64)
    moreover have "length data < 2 ^ 64" using ld by simp
    then have "unat (scast (of_nat (length data) :: int32_t) :: uint64_t) = length data"
      unfolding scast_of_nat[OF ld] by (rule unat_of_nat64)
    ultimately show ?thesis by simp
  qed
  have ready: "\<not> \<not> z_ready z" using assms(2) by (simp add: zlib_ok_def)
  have v1: "v1_of_bytes (bytes_of_v1 e) = e" using v1_round_trip(1)[of e "[]"] by simp
  have cookie: "\<not> V1_ENCODING_COOKIE \<noteq> be32toh (v1_cookie e)" by (simp add: e_def)
  have init: "hdr_init floor_log2 (be64toh (v1_lowest_trackable_value e)) (be64toh (v1_highest_trackable_value e))
      (be32toh (v1_significant_figures e)) (histogram_allocated mem') = Some (Inr h0)"
    using h0(1) assms(4) by (simp add: e_def)
  have "counts_len h0 = counts_len h" by (rule sc(2))
  then have nn: "8 * nat (sint (counts_len h0)) = 8 * ?n" using len(1) by simp
  let ?off = "if bit (normalizing_index_offset h) 7 then - 1 else 0 :: int32_t"
  define h1 where "h1 = h0\<lparr>counts := counts h, normalizing_index_offset := ?off, conversion_ratio := conversion_ratio h\<rparr>"
  have h1: "(set_counts h0 (counts_to_bytes h))\<lparr>normalizing_index_offset := read_offset (v1_normalizing_index_offset e),
      conversion_ratio := be64toh (v1_conversion_ratio_bits e)\<rparr> = h1"
    unfolding sc(1) by (simp add: e_def read_offset_htobe32 h1_def)
  have "decoded_v1 z floor_log2 mem' (compressed @ pad) = map_option Inr (hdr_reset_internal_counters h1)"
    unfolding decoded_v1_def Let_def clen ul strm if_not_P[OF ready] if_not_P[OF big] s(1) option.case prod.case
      v1 if_not_P[OF cookie] init sum.case nn s(2) h1
    using assms(5) by simp
  also have "hdr_reset_internal_counters h1 = hdr_reset_internal_counters (h\<lparr>normalizing_index_offset := ?off\<rparr>)"
  proof (rule reset_depends)
    show "nat (sint (counts_len (h\<lparr>normalizing_index_offset := ?off\<rparr>))) = length (counts (h\<lparr>normalizing_index_offset := ?off\<rparr>))"
      "length (counts (h\<lparr>normalizing_index_offset := ?off\<rparr>)) < 2 ^ 31" using len by simp_all
    show "h1 = (h\<lparr>normalizing_index_offset := ?off\<rparr>)\<lparr>min_value := min_value h0, max_value := max_value h0, total_count := total_count h0\<rparr>"
      unfolding h1_def by (subst (3) h0(4)) (cases h0, simp)
  qed
  finally show "decoded_v1 z floor_log2 mem' (compressed @ pad) =
      map_option Inr (hdr_reset_internal_counters (h\<lparr>normalizing_index_offset := ?off\<rparr>))" .
qed

text \<open>A zlib that does not compress, and memory for everything.\<close>

definition plain_zlib :: "byte list zlib" where
  "plain_zlib = \<lparr>z_compress = Some, z_ready = True, z_open = (\<lambda>bs. bs),
     z_inflate_sync = (\<lambda>bs k. Some (drop k bs, take k bs)), z_inflate_finish = (\<lambda>bs n. Some (take n bs))\<rparr>"

lemma plain_zlib_ok: "zlib_ok plain_zlib"
  by (simp add: zlib_ok_def plain_zlib_def)

definition all_allocated :: allocations where
  "all_allocated = \<lparr>encoded_allocated = True, compressed_allocated = True, histogram_allocated = True,
     counts_allocated = True\<rparr>"

lemma hdr_log_encode_text:
  assumes "hdr_log_encode z mem h = Inr text"
  obtains compressed encoded where "hdr_encode_compressed z mem h = Inr compressed"
    "base64_encode compressed (base64_encoded_len (length compressed)) = Inr encoded" "text = encoded @ [0]"
  using assms by (auto simp: hdr_log_encode_def split: sum.splits)

text \<open>
  C40. Decoding the text of a histogram gives a histogram with the same settings and the same counters, counted
  again: the total is that of the positive counts, the greatest value the highest that shares the last counter with a
  positive count, or 0, and the least the value of the first such counter but the one of 0, or the
  largest number. The normalizing offset does not survive: whatever it was, it is read as 0 or -1, so only a
  histogram that was never shifted comes back.
\<close>

theorem log_round_trip:
  assumes "configured floor_log2 h" "zlib_ok z" "hdr_log_encode z mem h = Inr text"
    "histogram_allocated mem'" "counts_allocated mem'"
  shows "hdr_log_decode z floor_log2 mem' iter text (length text - 1) None =
    Some (0, Some (counted (h\<lparr>normalizing_index_offset := (if bit (normalizing_index_offset h) 7 then - 1 else 0)\<rparr>)))"
proof -
  obtain compressed encoded where enc: "hdr_encode_compressed z mem h = Inr compressed"
    "base64_encode compressed (base64_encoded_len (length compressed)) = Inr encoded" "text = encoded @ [0]"
    by (rule hdr_log_encode_text[OF assms(3)])
  let ?pad = "padding (length compressed)"
  have "length ?pad \<le> 2" unfolding padding_def length_replicate by arith
  note dec = decoded_v1_encoded[OF assms(1,2) enc(1) assms(4,5) this]
  have "compressed \<noteq> []" using dec(3) by auto
  then have b64: "base64_decode encoded (base64_decoded_len (length encoded)) = Inr (compressed @ ?pad)"
    by (rule base64_decode_encode) (use enc(2) in auto)
  let ?h = "h\<lparr>normalizing_index_offset := (if bit (normalizing_index_offset h) 7 then - 1 else 0)\<rparr>"
  have reset: "hdr_reset_internal_counters ?h = Some (counted ?h)"
    using configured_length[OF assms(1)] by (intro reset_internal_counters) auto
  have "V0_COMPRESSION_COOKIE \<noteq> V1_COMPRESSION_COOKIE" by (simp add: V0_COMPRESSION_COOKIE_def V1_COMPRESSION_COOKIE_def)
  moreover have "\<not> length (compressed @ ?pad) < 8" using dec(3) by simp
  ultimately have "hdr_decode_compressed z floor_log2 mem' iter (compressed @ ?pad) None =
      deliver iter None (decoded_v1 z floor_log2 mem' (compressed @ ?pad))"
    unfolding hdr_decode_compressed_def Let_def dec(2) by (simp only: if_False if_True simp_thms)
  also have "\<dots> = Some (0, Some (counted ?h))"
    unfolding dec(1) reset deliver_def by (simp only: option.map option.case sum.case)
  finally show ?thesis
    by (simp add: hdr_log_decode_def enc(3) b64 split: if_splits)
qed

definition demo_shifted :: histogram where
  "demo_shifted = demo_histogram\<lparr>normalizing_index_offset := 16, counts := (replicate 112 0)[21 := 3], total_count := 3\<rparr>"

lemma demo_configured: "configured (\<lambda>_. 0) demo_shifted"
  unfolding configured_def
proof (intro exI conjI)
  show "shaped 0 4 6 demo_record" using demo_shaped by (simp add: demo_histogram_eq)
  show "hdr_init (\<lambda>_. 0) (lowest_trackable_value demo_shifted) (highest_trackable_value demo_shifted)
      (ucast (significant_figures demo_shifted)) True = Some (Inr demo_record)"
    using demo_histogram_eq(1) by (simp add: demo_shifted_def demo_histogram_eq(2)) (simp add: demo_record_def)
qed (simp_all add: demo_shifted_def demo_histogram_eq(2) demo_record_def zeroed_def)

theorem log_round_trip_witness:
  "\<exists>text. hdr_log_encode plain_zlib all_allocated demo_shifted = Inr text \<and>
    (\<forall>iter. \<exists>h'. hdr_log_decode plain_zlib (\<lambda>_. 0) all_allocated iter text (length text - 1) None = Some (0, Some h') \<and>
      counts h' = counts demo_shifted \<and> normalizing_index_offset demo_shifted = 16 \<and> normalizing_index_offset h' = 0)"
proof -
  obtain compressed where c: "hdr_encode_compressed plain_zlib all_allocated demo_shifted = Inr compressed"
    by (simp add: hdr_encode_compressed_def Let_def plain_zlib_def all_allocated_def del: enc_numeral)
  then obtain ts where t: "hdr_log_encode plain_zlib all_allocated demo_shifted = Inr ts"
    by (simp add: hdr_log_encode_def base64_encode_def)
  have "histogram_allocated all_allocated" "counts_allocated all_allocated" by (simp_all add: all_allocated_def)
  note rt = log_round_trip[OF demo_configured plain_zlib_ok t this]
  have offset: "normalizing_index_offset demo_shifted = 16" "\<not> bit (16 :: int32_t) 7" by (simp_all add: demo_shifted_def)
  have "\<exists>h'. hdr_log_decode plain_zlib (\<lambda>_. 0) all_allocated iter ts (length ts - 1) None = Some (0, Some h') \<and>
      counts h' = counts demo_shifted \<and> normalizing_index_offset demo_shifted = 16 \<and> normalizing_index_offset h' = 0" for iter
    using rt[of iter] offset by (auto simp: counted_def Let_def)
  with t show ?thesis by blast
qed

end
