(* ===== verification/IntervalRecorder.thy ===== *)
theory IntervalRecorder
  imports CLimits
begin

text \<open>
  \<^verbatim>\<open>hdr_writer_reader_phaser.h\<close> and \<^verbatim>\<open>hdr_interval_recorder.h\<close> of the HdrHistogram sources that the
  build unpacks: many writers update the object that is active, a sampler swaps it with the inactive
  one and then waits, in \<^verbatim>\<open>hdr_phaser_flip_phase\<close>, for the writers that had entered before.

  Every access is \<^verbatim>\<open>__ATOMIC_SEQ_CST\<close>, so the threads are interleaved, one atomic access a step.
  Writers and readers are two families of threads; the program counter of a thread is a value of
  \<open>wpc\<close> and \<open>rpc\<close>, with the locals of the functions it is in. A \<^verbatim>\<open>void*\<close> is an \<^typ>\<open>addr\<close>, the
  objects are in the map \<open>objects\<close>, of any type.
\<close>

section \<open>The phaser\<close>

datatype mutex = NoMutex | Uninitialised | Free | Held_by nat

record phaser =
  start_epoch :: int64_t
  even_end_epoch :: int64_t
  odd_end_epoch :: int64_t
  reader_mutex :: mutex

text \<open>
  \<open>None\<close> is the null pointer. The arguments after the phaser are what \<^verbatim>\<open>malloc\<close> gives, not null or null,
  and what \<^verbatim>\<open>pthread_mutex_init\<close> returns.
\<close>

definition hdr_writer_reader_phaser_init :: "phaser option \<Rightarrow> bool \<Rightarrow> int \<Rightarrow> int \<times> phaser option" where
  "hdr_writer_reader_phaser_init p allocated rc =
     (case p of
        None \<Rightarrow> (EINVAL, None)
      | Some p \<Rightarrow>
          (let p = p\<lparr>start_epoch := 0, even_end_epoch := 0, odd_end_epoch := INT64_MIN\<rparr>
           in if \<not> allocated then (ENOMEM, Some (p\<lparr>reader_mutex := NoMutex\<rparr>))
              else if rc \<noteq> 0 then (rc, Some (p\<lparr>reader_mutex := Uninitialised\<rparr>))
              else (0, Some (p\<lparr>reader_mutex := Free\<rparr>))))"

definition hdr_phaser_writer_enter :: "phaser \<Rightarrow> int64_t \<times> phaser" where
  "hdr_phaser_writer_enter p = (start_epoch p + 1, p\<lparr>start_epoch := start_epoch p + 1\<rparr>)"

definition hdr_phaser_writer_exit :: "phaser \<Rightarrow> int64_t \<Rightarrow> phaser" where
  "hdr_phaser_writer_exit p critical_value_at_enter =
     (if sint critical_value_at_enter < 0 then p\<lparr>odd_end_epoch := odd_end_epoch p + 1\<rparr>
      else p\<lparr>even_end_epoch := even_end_epoch p + 1\<rparr>)"

text \<open>The lock is taken when it is free; a thread that finds it held waits, which is no step.\<close>

definition hdr_phaser_reader_lock :: "nat \<Rightarrow> phaser \<Rightarrow> phaser option" where
  "hdr_phaser_reader_lock r p =
     (if reader_mutex p = Free then Some (p\<lparr>reader_mutex := Held_by r\<rparr>) else None)"

definition hdr_phaser_reader_unlock :: "phaser \<Rightarrow> phaser" where
  "hdr_phaser_reader_unlock p = p\<lparr>reader_mutex := Free\<rparr>"

text \<open>
  The four accesses of \<^verbatim>\<open>hdr_phaser_flip_phase\<close>: it reads the start epoch, whose sign is the phase;
  sets the end epoch of the next phase to that phase's first value; exchanges the start epoch with
  that value; and, again and again, compares the end epoch of the old phase with what it got.
\<close>

definition flip_reads_phase :: "phaser \<Rightarrow> bool" where
  "flip_reads_phase p = (sint (start_epoch p) < 0)"

definition initial_start_value :: "bool \<Rightarrow> int64_t" where
  "initial_start_value next_phase_is_even = (if next_phase_is_even then 0 else INT64_MIN)"

definition flip_clears_end :: "phaser \<Rightarrow> bool \<Rightarrow> phaser" where
  "flip_clears_end p next_phase_is_even =
     (if next_phase_is_even then p\<lparr>even_end_epoch := initial_start_value True\<rparr>
      else p\<lparr>odd_end_epoch := initial_start_value False\<rparr>)"

definition flip_resets_start :: "phaser \<Rightarrow> bool \<Rightarrow> int64_t \<times> phaser" where
  "flip_resets_start p next_phase_is_even =
     (start_epoch p, p\<lparr>start_epoch := initial_start_value next_phase_is_even\<rparr>)"

definition flip_caught_up :: "phaser \<Rightarrow> bool \<Rightarrow> int64_t \<Rightarrow> bool" where
  "flip_caught_up p next_phase_is_even start_value_at_flip \<longleftrightarrow>
     (if next_phase_is_even then odd_end_epoch p else even_end_epoch p) = start_value_at_flip"

text \<open>Destroying the mutex leaves the memory that was allocated for it.\<close>

definition hdr_writer_reader_phaser_destory :: "phaser \<Rightarrow> phaser" where
  "hdr_writer_reader_phaser_destory p = p\<lparr>reader_mutex := Uninitialised\<rparr>"

section \<open>The recorder and its threads\<close>

record recorder =
  active :: addr
  inactive :: addr
  phaser_of :: phaser

definition hdr_interval_recorder_init :: "recorder \<Rightarrow> bool \<Rightarrow> int \<Rightarrow> int \<times> recorder" where
  "hdr_interval_recorder_init r allocated rc =
     (case hdr_writer_reader_phaser_init (Some (phaser_of r)) allocated rc of
        (res, Some p) \<Rightarrow> (res, r\<lparr>phaser_of := p\<rparr>)
      | (res, None) \<Rightarrow> (res, r))"

definition hdr_interval_recorder_destroy :: "recorder \<Rightarrow> recorder" where
  "hdr_interval_recorder_destroy r = r\<lparr>phaser_of := hdr_writer_reader_phaser_destory (phaser_of r)\<rparr>"

text \<open>
  A writer in \<^verbatim>\<open>hdr_interval_recorder_update\<close>: it has entered the phaser and holds \<^verbatim>\<open>val\<close>; it has loaded
  \<^verbatim>\<open>active\<close> and is in \<^verbatim>\<open>update_action\<close>; the action has returned.
\<close>

datatype wpc = W_out | W_entered int64_t | W_updating int64_t addr | W_leaving int64_t

text \<open>
  A reader in \<^verbatim>\<open>hdr_interval_recorder_sample\<close>: it holds the lock; \<^verbatim>\<open>temp\<close> is set; \<^verbatim>\<open>r->inactive\<close> is set;
  \<^verbatim>\<open>r->active\<close> is stored; then the points between the accesses of the flip; the old phase has been
  left; the lock is given back; and the call has returned a pointer.
\<close>

datatype rpc =
    R_out
  | R_locked
  | R_temp addr
  | R_moved addr
  | R_swapped
  | R_flip_read bool
  | R_flip_cleared bool
  | R_flip_waits bool int64_t
  | R_flipped
  | R_unlocked
  | R_returned addr

record 'o system =
  recorder :: recorder
  writers :: "nat \<Rightarrow> wpc"
  readers :: "nat \<Rightarrow> rpc"
  objects :: "addr \<Rightarrow> 'o"

definition phaser_in :: "'o system \<Rightarrow> phaser" where
  "phaser_in s = phaser_of (recorder s)"

definition with_phaser :: "'o system \<Rightarrow> phaser \<Rightarrow> 'o system" where
  "with_phaser s p = s\<lparr>recorder := (recorder s)\<lparr>phaser_of := p\<rparr>\<rparr>"

definition writer_at :: "'o system \<Rightarrow> nat \<Rightarrow> wpc \<Rightarrow> 'o system" where
  "writer_at s w pc = s\<lparr>writers := (writers s)(w := pc)\<rparr>"

definition reader_at :: "'o system \<Rightarrow> nat \<Rightarrow> rpc \<Rightarrow> 'o system" where
  "reader_at s r pc = s\<lparr>readers := (readers s)(r := pc)\<rparr>"

text \<open>
  The steps of the writers. The action is any function on the object, and may write in several steps.
\<close>

inductive writer_step :: "nat \<Rightarrow> 'o system \<Rightarrow> 'o system \<Rightarrow> bool" for w :: nat where
  enter: "\<lbrakk>writers s w = W_out; hdr_phaser_writer_enter (phaser_in s) = (val, p)\<rbrakk>
    \<Longrightarrow> writer_step w s (writer_at (with_phaser s p) w (W_entered val))"
| load: "writers s w = W_entered val
    \<Longrightarrow> writer_step w s (writer_at s w (W_updating val (active (recorder s))))"
| update_part: "writers s w = W_updating val a
    \<Longrightarrow> writer_step w s (s\<lparr>objects := (objects s)(a := update_action (objects s a))\<rparr>)"
| update_done: "writers s w = W_updating val a \<Longrightarrow> writer_step w s (writer_at s w (W_leaving val))"
| exit: "writers s w = W_leaving val
    \<Longrightarrow> writer_step w s (writer_at (with_phaser s (hdr_phaser_writer_exit (phaser_in s) val)) w W_out)"

inductive reader_step :: "nat \<Rightarrow> 'o system \<Rightarrow> 'o system \<Rightarrow> bool" for r :: nat where
  lock: "\<lbrakk>readers s r = R_out \<or> readers s r = R_returned a; hdr_phaser_reader_lock r (phaser_in s) = Some p\<rbrakk>
    \<Longrightarrow> reader_step r s (reader_at (with_phaser s p) r R_locked)"
| take_temp: "readers s r = R_locked \<Longrightarrow> reader_step r s (reader_at s r (R_temp (inactive (recorder s))))"
| move: "readers s r = R_temp temp
    \<Longrightarrow> reader_step r s (reader_at (s\<lparr>recorder := (recorder s)\<lparr>inactive := active (recorder s)\<rparr>\<rparr>) r (R_moved temp))"
| swap: "readers s r = R_moved temp
    \<Longrightarrow> reader_step r s (reader_at (s\<lparr>recorder := (recorder s)\<lparr>active := temp\<rparr>\<rparr>) r R_swapped)"
| flip_read: "readers s r = R_swapped
    \<Longrightarrow> reader_step r s (reader_at s r (R_flip_read (flip_reads_phase (phaser_in s))))"
| flip_clear: "readers s r = R_flip_read next_even
    \<Longrightarrow> reader_step r s (reader_at (with_phaser s (flip_clears_end (phaser_in s) next_even)) r (R_flip_cleared next_even))"
| flip_reset: "\<lbrakk>readers s r = R_flip_cleared next_even; flip_resets_start (phaser_in s) next_even = (val, p)\<rbrakk>
    \<Longrightarrow> reader_step r s (reader_at (with_phaser s p) r (R_flip_waits next_even val))"
| flip_check: "readers s r = R_flip_waits next_even val
    \<Longrightarrow> reader_step r s (if flip_caught_up (phaser_in s) next_even val then reader_at s r R_flipped else s)"
| unlock: "readers s r = R_flipped
    \<Longrightarrow> reader_step r s (reader_at (with_phaser s (hdr_phaser_reader_unlock (phaser_in s))) r R_unlocked)"
| return_inactive: "readers s r = R_unlocked \<Longrightarrow> reader_step r s (reader_at s r (R_returned (inactive (recorder s))))"

text \<open>
  The executions from a state in which no thread is in the recorder, counting how often a writer
  has entered: the sign of an epoch is the phase, so that an epoch must not count to \<open>2 ^ 63\<close>.
\<close>

definition entering :: "nat \<Rightarrow> 'o system \<Rightarrow> nat" where
  "entering w s = (if writers s w = W_out then 1 else 0)"

inductive execution :: "'o system \<Rightarrow> nat \<Rightarrow> 'o system \<Rightarrow> bool" for s0 :: "'o system" where
  start: "execution s0 0 s0"
| by_writer: "\<lbrakk>execution s0 n s; writer_step w s s'\<rbrakk> \<Longrightarrow> execution s0 (n + entering w s) s'"
| by_reader: "\<lbrakk>execution s0 n s; reader_step r s s'\<rbrakk> \<Longrightarrow> execution s0 n s'"

definition initial :: "'o system \<Rightarrow> bool" where
  "initial s \<longleftrightarrow>
     active (recorder s) \<noteq> inactive (recorder s) \<and>
     (\<exists>r. hdr_interval_recorder_init r True 0 = (0, recorder s)) \<and>
     (\<forall>w. writers s w = W_out) \<and> (\<forall>r. readers s r = R_out)"

section \<open>The invariant\<close>

text \<open>
  \<open>inside s ph\<close> are the writers that entered in that phase and have not left. The start epoch counts
  the entries of the current phase, its end epoch the exits. Only while a reader waits in the flip
  are there writers of the other phase, and what is missing in its end epoch is their number.
\<close>

fun val_of :: "wpc \<Rightarrow> int64_t option" where
  "val_of W_out = None"
| "val_of (W_entered v) = Some v"
| "val_of (W_updating v a) = Some v"
| "val_of (W_leaving v) = Some v"

definition in_phase :: "wpc \<Rightarrow> bool \<Rightarrow> bool" where
  "in_phase pc ph \<longleftrightarrow> (\<exists>v. val_of pc = Some v \<and> (sint v < 0) = ph)"

definition inside :: "'o system \<Rightarrow> bool \<Rightarrow> nat set" where
  "inside s ph = {w. in_phase (writers s w) ph}"

definition odd_phase :: "'o system \<Rightarrow> bool" where
  "odd_phase s \<longleftrightarrow> sint (start_epoch (phaser_in s)) < 0"

definition end_epoch :: "phaser \<Rightarrow> bool \<Rightarrow> int64_t" where
  "end_epoch p ph = (if ph then odd_end_epoch p else even_end_epoch p)"

definition critical :: "'o system \<Rightarrow> rpc" where
  "critical s = (case reader_mutex (phaser_in s) of Held_by r \<Rightarrow> readers s r | _ \<Rightarrow> R_out)"

fun in_section :: "rpc \<Rightarrow> bool" where
  "in_section R_out = False"
| "in_section R_unlocked = False"
| "in_section (R_returned a) = False"
| "in_section _ = True"

definition apart :: "'o system \<Rightarrow> bool" where
  "apart s \<longleftrightarrow> active (recorder s) \<noteq> inactive (recorder s)"

definition updates_active :: "'o system \<Rightarrow> bool" where
  "updates_active s \<longleftrightarrow>
     (\<forall>w v a. writers s w = W_updating v a \<and> (sint v < 0) = odd_phase s \<longrightarrow> a = active (recorder s))"

definition alone :: "'o system \<Rightarrow> bool" where
  "alone s \<longleftrightarrow> inside s (\<not> odd_phase s) = {}"

fun sampled :: "rpc \<Rightarrow> 'o system \<Rightarrow> bool" where
  "sampled (R_temp temp) s \<longleftrightarrow> alone s \<and> updates_active s \<and> temp \<noteq> active (recorder s)"
| "sampled (R_moved temp) s \<longleftrightarrow> alone s \<and> updates_active s \<and> temp \<noteq> active (recorder s) \<and>
     inactive (recorder s) = active (recorder s)"
| "sampled R_swapped s \<longleftrightarrow> alone s \<and> apart s"
| "sampled (R_flip_read next_even) s \<longleftrightarrow> alone s \<and> apart s \<and> next_even = odd_phase s"
| "sampled (R_flip_cleared next_even) s \<longleftrightarrow> alone s \<and> apart s \<and> next_even = odd_phase s \<and>
     end_epoch (phaser_in s) (\<not> odd_phase s) = initial_start_value (odd_phase s)"
| "sampled (R_flip_waits next_even v) s \<longleftrightarrow> apart s \<and> updates_active s \<and> next_even = (\<not> odd_phase s) \<and>
     v = end_epoch (phaser_in s) (\<not> odd_phase s) + of_nat (card (inside s (\<not> odd_phase s)))"
| "sampled _ s \<longleftrightarrow> alone s \<and> updates_active s \<and> apart s"

definition counted :: "nat \<Rightarrow> 'o system \<Rightarrow> bool" where
  "counted n s \<longleftrightarrow>
     finite {w. writers s w \<noteq> W_out} \<and> card {w. writers s w \<noteq> W_out} \<le> n \<and>
     sint (start_epoch (phaser_in s)) \<le> sint (initial_start_value (\<not> odd_phase s)) + int n \<and>
     start_epoch (phaser_in s) =
       end_epoch (phaser_in s) (odd_phase s) + of_nat (card (inside s (odd_phase s)))"

definition exclusive :: "'o system \<Rightarrow> bool" where
  "exclusive s \<longleftrightarrow> (\<forall>r. in_section (readers s r) \<longleftrightarrow> reader_mutex (phaser_in s) = Held_by r)"

definition recorder_inv :: "nat \<Rightarrow> 'o system \<Rightarrow> bool" where
  "recorder_inv n s \<longleftrightarrow> counted n s \<and> exclusive s \<and> sampled (critical s) s"

named_theorems recorder_simps "the fields of a system after an update"

lemma with_phaser_simps [recorder_simps]:
  "phaser_in (with_phaser s p) = p"
  "writers (with_phaser s p) = writers s"
  "readers (with_phaser s p) = readers s"
  "active (recorder (with_phaser s p)) = active (recorder s)"
  "inactive (recorder (with_phaser s p)) = inactive (recorder s)"
  "objects (with_phaser s p) = objects s"
  by (simp_all add: with_phaser_def phaser_in_def)

lemma writer_at_simps [recorder_simps]:
  "phaser_in (writer_at s w pc) = phaser_in s"
  "writers (writer_at s w pc) = (writers s)(w := pc)"
  "readers (writer_at s w pc) = readers s"
  "recorder (writer_at s w pc) = recorder s"
  "objects (writer_at s w pc) = objects s"
  by (simp_all add: writer_at_def phaser_in_def)

lemma reader_at_simps [recorder_simps]:
  "phaser_in (reader_at s r pc') = phaser_in s"
  "writers (reader_at s r pc') = writers s"
  "readers (reader_at s r pc') = (readers s)(r := pc')"
  "recorder (reader_at s r pc') = recorder s"
  "objects (reader_at s r pc') = objects s"
  by (simp_all add: reader_at_def phaser_in_def)

lemma pointer_simps [recorder_simps]:
  "phaser_in (s\<lparr>recorder := (recorder s)\<lparr>active := a\<rparr>\<rparr>) = phaser_in s"
  "phaser_in (s\<lparr>recorder := (recorder s)\<lparr>inactive := a\<rparr>\<rparr>) = phaser_in s"
  "phaser_in (s\<lparr>objects := f\<rparr>) = phaser_in s"
  by (simp_all add: phaser_in_def)

text \<open>The invariant looks at the phaser, the pointers and the writers only.\<close>

lemma inside_cong: "writers s' = writers s \<Longrightarrow> inside s' ph = inside s ph"
  by (simp add: inside_def)

lemma inside_writer_at:
  "inside (writer_at s w pc) ph =
     (if in_phase pc ph then insert w (inside s ph) else inside s ph - {w})"
  by (auto simp: inside_def recorder_simps)

lemma inside_subset: "inside s ph \<subseteq> {w. writers s w \<noteq> W_out}"
  by (auto simp: inside_def in_phase_def)

lemma sint_succ: "sint x < 2 ^ 63 - 1 \<Longrightarrow> sint (x + 1 :: int64_t) = sint x + 1"
  using sint_ge[of x] by (simp add: sint_word_ariths(1) signed_take_bit_int_eq_self)

lemma sint_initial: "sint (initial_start_value e) = (if e then 0 else - (2 ^ 63))"
  by (simp add: initial_start_value_def INT64_MIN_def)

lemma card_inside: "finite {w. writers s w \<noteq> W_out} \<Longrightarrow>
    finite (inside s ph) \<and> card (inside s ph) \<le> card {w. writers s w \<noteq> W_out}"
  using inside_subset[of s ph] by (meson card_mono finite_subset)

lemma word_card_0:
  assumes "counted n s" "n < 2 ^ 63"
  shows "(of_nat (card (inside s ph)) :: int64_t) = 0 \<longleftrightarrow> inside s ph = {}"
proof -
  have f: "finite (inside s ph)" and c: "card (inside s ph) < 2 ^ 64"
    using assms card_inside[of s ph] by (auto simp: counted_def)
  have "(of_nat (card (inside s ph)) :: int64_t) = 0 \<longleftrightarrow> unat (of_nat (card (inside s ph)) :: int64_t) = 0"
    by (simp add: unat_eq_zero)
  also have "\<dots> \<longleftrightarrow> card (inside s ph) = 0" using c by (simp add: unat_of_nat_small)
  finally show ?thesis using f by simp
qed

lemma odd_phase_cong: "start_epoch (phaser_in s') = start_epoch (phaser_in s) \<Longrightarrow> odd_phase s' = odd_phase s"
  by (simp add: odd_phase_def)

text \<open>A step of a writer other than entering and leaving, or of a reader that moves a pointer.\<close>

lemma counted_cong:
  assumes "counted n s" "phaser_in s' = phaser_in s" "\<And>ph. inside s' ph = inside s ph"
    "\<And>w. writers s' w \<noteq> W_out \<longleftrightarrow> writers s w \<noteq> W_out"
  shows "counted n s'"
  using assms by (simp add: counted_def odd_phase_def)

section \<open>What the writers' steps do\<close>

lemma in_phase_simps [simp]:
  "in_phase W_out ph = False"
  "in_phase (W_entered v) ph \<longleftrightarrow> (sint v < 0) = ph"
  "in_phase (W_updating v a) ph \<longleftrightarrow> (sint v < 0) = ph"
  "in_phase (W_leaving v) ph \<longleftrightarrow> (sint v < 0) = ph"
  by (simp_all add: in_phase_def)

lemma inside_update:
  "writers s w = pc \<Longrightarrow> (\<And>ph. in_phase pc' ph = in_phase pc ph) \<Longrightarrow> inside (writer_at s w pc') ph = inside s ph"
  by (auto simp: inside_def recorder_simps)

lemma enter_counted:
  assumes "counted n s" "n + 1 < 2 ^ 63" "writers s w = W_out"
    "hdr_phaser_writer_enter (phaser_in s) = (val, p)"
  defines "s' \<equiv> writer_at (with_phaser s p) w (W_entered val)"
  shows "odd_phase s' = odd_phase s" (is ?ph)
    and "inside s' (odd_phase s) = insert w (inside s (odd_phase s))" (is ?in)
    and "inside s' (\<not> odd_phase s) = inside s (\<not> odd_phase s)" (is ?out)
    and "end_epoch (phaser_in s') ph = end_epoch (phaser_in s) ph" (is ?exits)
    and "counted (n + 1) s'"
proof -
  let ?x = "start_epoch (phaser_in s)"
  have v: "val = ?x + 1" and p: "p = (phaser_in s)\<lparr>start_epoch := ?x + 1\<rparr>"
    using assms(4) by (auto simp: hdr_phaser_writer_enter_def)
  have le: "sint ?x \<le> (if odd_phase s then - (2 ^ 63) else 0) + int n"
    using assms(1) by (auto simp: counted_def sint_initial)
  have n: "int n < 2 ^ 63 - 1" using assms(2) by simp
  have small: "sint ?x < 2 ^ 63 - 1" using le n by (auto split: if_splits)
  have succ: "sint (?x + 1) = sint ?x + 1" by (rule sint_succ[OF small])
  have sign: "(sint val < 0) = odd_phase s"
    using le n succ v by (auto simp: odd_phase_def split: if_splits)
  have pin: "phaser_in s' = p" by (simp add: s'_def recorder_simps)
  show ph: ?ph using sign by (simp add: odd_phase_def pin p v)
  have out: "w \<notin> inside s ph" for ph using assms(3) by (simp add: inside_def)
  have ins: "inside (with_phaser s p) ph = inside s ph" for ph
    by (rule inside_cong) (simp add: recorder_simps)
  show i: ?in using sign by (simp add: s'_def inside_writer_at ins)
  show ?out using sign out by (simp add: s'_def inside_writer_at ins)
  show e: ?exits by (simp add: pin p end_epoch_def)
  have fin: "finite {w. writers s w \<noteq> W_out}" using assms(1) by (simp add: counted_def)
  have ws: "{v. writers s' v \<noteq> W_out} = insert w {v. writers s v \<noteq> W_out}"
    by (auto simp: s'_def recorder_simps)
  have fi: "finite (inside s (odd_phase s))" using card_inside[OF fin] by blast
  have "start_epoch (phaser_in s') = end_epoch (phaser_in s') (odd_phase s') + of_nat (card (inside s' (odd_phase s')))"
  proof -
    have "end_epoch (phaser_in s') (odd_phase s') = end_epoch (phaser_in s) (odd_phase s)"
      by (simp add: ph pin p end_epoch_def)
    moreover have "card (inside s' (odd_phase s')) = card (inside s (odd_phase s)) + 1"
      using out fi by (simp add: ph i)
    moreover have "?x = end_epoch (phaser_in s) (odd_phase s) + of_nat (card (inside s (odd_phase s)))"
      using assms(1) by (simp add: counted_def)
    moreover have "start_epoch (phaser_in s') = ?x + 1" by (simp add: pin p)
    ultimately show ?thesis by simp
  qed
  moreover have "sint (start_epoch (phaser_in s')) \<le> sint (initial_start_value (\<not> odd_phase s')) + int (n + 1)"
    using le succ by (cases "odd_phase s") (simp_all add: ph pin p sint_initial)
  moreover have "card {v. writers s' v \<noteq> W_out} \<le> n + 1"
    using assms(1,3) fin by (simp add: ws counted_def)
  ultimately show "counted (n + 1) s'" using fin by (simp add: counted_def ws)
qed

lemma exit_counted:
  assumes "counted n s" "writers s w = W_leaving val"
  defines "s' \<equiv> writer_at (with_phaser s (hdr_phaser_writer_exit (phaser_in s) val)) w W_out"
  shows "odd_phase s' = odd_phase s" (is ?ph)
    and "inside s' ph = (if (sint val < 0) = ph then inside s ph - {w} else inside s ph)" (is "?in ph")
    and "end_epoch (phaser_in s') ph + of_nat (card (inside s' ph)) =
         end_epoch (phaser_in s) ph + of_nat (card (inside s ph))" (is "?sum ph")
    and "(sint val < 0) \<noteq> ph \<Longrightarrow> end_epoch (phaser_in s') ph = end_epoch (phaser_in s) ph"
    and "counted n s'"
proof -
  have pin: "phaser_in s' = hdr_phaser_writer_exit (phaser_in s) val" by (simp add: s'_def recorder_simps)
  show ph: ?ph by (simp add: odd_phase_def pin hdr_phaser_writer_exit_def)
  have ins: "inside (with_phaser s p) ph = inside s ph" for p ph
    by (rule inside_cong) (simp add: recorder_simps)
  have mem: "w \<in> inside s ph \<longleftrightarrow> (sint val < 0) = ph" for ph using assms(2) by (simp add: inside_def)
  show i: "?in ph" for ph using mem[of ph] by (auto simp: s'_def inside_writer_at ins)
  show e: "end_epoch (phaser_in s') ph = end_epoch (phaser_in s) ph" if "(sint val < 0) \<noteq> ph" for ph
    using that by (auto simp: pin end_epoch_def hdr_phaser_writer_exit_def)
  have fin: "finite {w. writers s w \<noteq> W_out}" using assms(1) by (simp add: counted_def)
  show sum: "?sum ph" for ph
  proof (cases "(sint val < 0) = ph")
    case True
    have "finite (inside s ph)" using card_inside[OF fin] by blast
    then obtain k where k: "card (inside s ph) = Suc k" "card (inside s ph - {w}) = k"
      using mem[of ph] True by (metis card.remove card_Diff_singleton diff_Suc_1 One_nat_def)
    moreover have "end_epoch (phaser_in s') ph = end_epoch (phaser_in s) ph + 1"
      using True by (auto simp: pin end_epoch_def hdr_phaser_writer_exit_def)
    ultimately show ?thesis using True by (simp add: i)
  next
    case False
    then show ?thesis by (simp add: i e)
  qed
  have ws: "{v. writers s' v \<noteq> W_out} = {v. writers s v \<noteq> W_out} - {w}"
    by (auto simp: s'_def recorder_simps)
  have "card {v. writers s' v \<noteq> W_out} \<le> n"
    using assms(1) fin unfolding ws counted_def by (meson card_Diff1_le le_trans)
  moreover have st: "start_epoch (phaser_in s') = start_epoch (phaser_in s)"
    by (simp add: pin hdr_phaser_writer_exit_def)
  moreover have "start_epoch (phaser_in s') = end_epoch (phaser_in s') (odd_phase s') + of_nat (card (inside s' (odd_phase s')))"
    using assms(1) unfolding st ph sum[of "odd_phase s"] by (simp add: counted_def)
  moreover have "sint (start_epoch (phaser_in s')) \<le> sint (initial_start_value (\<not> odd_phase s')) + int n"
    using assms(1) unfolding st ph counted_def by blast
  ultimately show "counted n s'" using fin unfolding counted_def ws by simp
qed

section \<open>The steps keep the invariant\<close>

lemma sampled_mono:
  assumes "sampled pc s" "active (recorder s') = active (recorder s)"
    "inactive (recorder s') = inactive (recorder s)" "odd_phase s' = odd_phase s"
    "alone s \<Longrightarrow> alone s'" "updates_active s \<Longrightarrow> updates_active s'"
    "alone s \<Longrightarrow> end_epoch (phaser_in s') (\<not> odd_phase s) = end_epoch (phaser_in s) (\<not> odd_phase s)"
    "end_epoch (phaser_in s') (\<not> odd_phase s) + of_nat (card (inside s' (\<not> odd_phase s))) =
     end_epoch (phaser_in s) (\<not> odd_phase s) + of_nat (card (inside s (\<not> odd_phase s)))"
  shows "sampled pc s'"
  using assms by (cases pc) (auto simp: apart_def)

lemma updates_active_writer_at:
  assumes "updates_active s" "odd_phase s' = odd_phase s" "active (recorder s') = active (recorder s)"
    "writers s' = (writers s)(w := pc)"
    "\<And>v a. pc = W_updating v a \<Longrightarrow> (sint v < 0) = odd_phase s \<Longrightarrow> a = active (recorder s)"
  shows "updates_active s'"
  using assms unfolding updates_active_def by (auto split: if_splits)

lemma writer_step_frame:
  assumes "writer_step w s s'"
  shows "reader_mutex (phaser_in s') = reader_mutex (phaser_in s) \<and> readers s' = readers s \<and>
    active (recorder s') = active (recorder s) \<and> inactive (recorder s') = inactive (recorder s)"
  using assms
  by cases (auto simp: recorder_simps hdr_phaser_writer_enter_def hdr_phaser_writer_exit_def)

lemma writer_frame:
  assumes "writer_step w s s'"
  shows "critical s' = critical s" "exclusive s' = exclusive s"
    "active (recorder s') = active (recorder s)" "inactive (recorder s') = inactive (recorder s)"
  using writer_step_frame[OF assms] by (simp_all add: critical_def exclusive_def split: mutex.split)

lemma writer_inv:
  assumes "recorder_inv n s" "writer_step w s s'" "n + entering w s < 2 ^ 63"
  shows "recorder_inv (n + entering w s) s'"
proof -
  have c: "counted n s" and m: "sampled (critical s) s" and e: "exclusive s"
    using assms(1) by (simp_all add: recorder_inv_def)
  note frame = writer_frame[OF assms(2)]
  have keep: "recorder_inv (n + entering w s) s'"
    if w: "writers s w = pc" "writers s' = (writers s)(w := pc')" "pc \<noteq> W_out" "pc' \<noteq> W_out"
      and ph: "\<And>p. in_phase pc' p = in_phase pc p" and pin: "phaser_in s' = phaser_in s"
      and upd: "\<And>v a. pc' = W_updating v a \<Longrightarrow> (sint v < 0) = odd_phase s \<Longrightarrow>
        a = active (recorder s) \<or> \<not> updates_active s" for pc pc'
  proof -
    have ins: "inside s' p = inside s p" for p using w(1,2) ph by (auto simp: inside_def)
    have odd: "odd_phase s' = odd_phase s" by (simp add: odd_phase_def pin)
    have "updates_active s'" if "updates_active s"
      using updates_active_writer_at[OF that odd frame(3) w(2)] upd that by blast
    then have "sampled (critical s) s'"
      using m frame(3,4) odd by (elim sampled_mono) (simp_all add: alone_def ins pin)
    moreover have "counted n s'" by (rule counted_cong[OF c pin ins]) (use w in auto)
    ultimately show ?thesis using frame e w(1,3) by (simp add: recorder_inv_def entering_def)
  qed
  show ?thesis using assms(2)
  proof cases
    case (enter val p)
    have n: "n + 1 < 2 ^ 63" using assms(3) enter(2) by (simp add: entering_def)
    note en = enter_counted[OF c n enter(2,3), folded enter(1)]
    have "updates_active s'" if "updates_active s"
      by (rule updates_active_writer_at[OF that en(1) frame(3)]) (auto simp: enter(1) recorder_simps)
    then have "sampled (critical s) s'"
      using m frame(3,4) en(1-4) by (elim sampled_mono) (simp_all add: alone_def)
    then show ?thesis using en(5) frame e enter(2) by (simp add: recorder_inv_def entering_def)
  next
    case (load val)
    show ?thesis by (rule keep[OF load(2)]) (auto simp: load(1) recorder_simps)
  next
    case (update_part val a update_action)
    show ?thesis
      by (rule keep[OF update_part(2)])
        (use update_part(2) in \<open>auto simp: update_part(1) fun_upd_idem updates_active_def phaser_in_def\<close>)
  next
    case (update_done val a)
    show ?thesis by (rule keep[OF update_done(2)]) (auto simp: update_done(1) recorder_simps)
  next
    case (exit val)
    note ex = exit_counted[OF c exit(2), folded exit(1)]
    have mem: "w \<in> inside s (sint val < 0)" using exit(2) by (simp add: inside_def)
    have "updates_active s'" if "updates_active s"
      by (rule updates_active_writer_at[OF that ex(1) frame(3)]) (auto simp: exit(1) recorder_simps)
    moreover have "(sint val < 0) \<noteq> (\<not> odd_phase s)" if "alone s" using that mem
      by (cases "odd_phase s"; cases "sint val < 0") (auto simp: alone_def)
    ultimately have "sampled (critical s) s'"
      using m frame(3,4) ex(1-4) by (elim sampled_mono) (auto simp: alone_def)
    then show ?thesis using ex(5) frame e exit(2) by (simp add: recorder_inv_def entering_def)
  qed
qed

lemma sampled_cong:
  assumes "recorder s' = recorder s" "writers s' = writers s"
  shows "sampled pc s' = sampled pc s"
  using assms
  by (cases pc) (simp_all add: alone_def updates_active_def apart_def odd_phase_def phaser_in_def
      inside_cong[OF assms(2)])

lemma critical_reader: "exclusive s \<Longrightarrow> in_section (readers s r) \<Longrightarrow> critical s = readers s r"
  by (simp add: exclusive_def critical_def)

lemma exclusive_step:
  assumes "exclusive s" "in_section (readers s r)" "reader_mutex (phaser_in s') = reader_mutex (phaser_in s)"
    "readers s' = (readers s)(r := pc)" "in_section pc"
  shows "exclusive s'" "critical s' = pc" "critical s = readers s r"
proof -
  have m: "reader_mutex (phaser_in s) = Held_by r" using assms(1,2) by (simp add: exclusive_def)
  show "exclusive s'" using assms by (auto simp: exclusive_def)
  show "critical s' = pc" "critical s = readers s r" using assms(3,4) m by (simp_all add: critical_def)
qed

lemma counted_pointers:
  "counted n s \<Longrightarrow> phaser_in s' = phaser_in s \<Longrightarrow> writers s' = writers s \<Longrightarrow> counted n s'"
  by (erule counted_cong) (simp_all add: inside_def)

lemma counted_epochs:
  assumes "counted n s" "start_epoch (phaser_in s') = start_epoch (phaser_in s)" "writers s' = writers s"
    "end_epoch (phaser_in s') (odd_phase s) = end_epoch (phaser_in s) (odd_phase s)"
  shows "counted n s'"
  using assms by (simp add: counted_def odd_phase_def inside_def)

lemma counted_flip:
  assumes "counted n s" "alone s" "writers s' = writers s" "n < 2 ^ 63"
    "end_epoch (phaser_in s) (\<not> odd_phase s) = initial_start_value (odd_phase s)"
    "flip_resets_start (phaser_in s) (odd_phase s) = (val, p)" "phaser_in s' = p"
  shows "counted n s'" "odd_phase s' = (\<not> odd_phase s)"
    "val = end_epoch p (odd_phase s) + of_nat (card (inside s (odd_phase s)))"
proof -
  have p: "p = (phaser_in s)\<lparr>start_epoch := initial_start_value (odd_phase s)\<rparr>" "val = start_epoch (phaser_in s)"
    using assms(6) by (auto simp: flip_resets_start_def)
  show odd: "odd_phase s' = (\<not> odd_phase s)"
    using sint_initial[of "odd_phase s"] by (cases "odd_phase s") (simp_all add: odd_phase_def[of s'] assms(7) p)
  have e: "end_epoch p ph = end_epoch (phaser_in s) ph" for ph by (simp add: p end_epoch_def)
  show "val = end_epoch p (odd_phase s) + of_nat (card (inside s (odd_phase s)))"
    using assms(1) unfolding e by (simp add: counted_def p)
  have ins: "inside s' ph = inside s ph" for ph by (simp add: inside_def assms(3))
  show "counted n s'"
    using assms(1,2,5) unfolding counted_def odd ins assms(7) e alone_def assms(3) by (simp add: p)
qed

lemma reader_inv:
  assumes "recorder_inv n s" "reader_step r s s'" "n < 2 ^ 63"
  shows "recorder_inv n s'"
proof -
  have c: "counted n s" and m: "sampled (critical s) s" and e: "exclusive s"
    using assms(1) by (simp_all add: recorder_inv_def)
  have keep: "recorder_inv n s'"
    if "in_section (readers s r)" "reader_mutex (phaser_in s') = reader_mutex (phaser_in s)"
      "readers s' = (readers s)(r := pc)" "in_section pc" "counted n s'"
      "sampled (readers s r) s \<Longrightarrow> sampled pc s'" for pc
    using exclusive_step[OF e that(1-4)] that(5,6) m by (simp add: recorder_inv_def)
  have cs: "sampled (readers s r) s" if "in_section (readers s r)"
    using m critical_reader[OF e that] by simp
  show ?thesis using assms(2)
  proof cases
    case (lock a p)
    have p: "reader_mutex (phaser_in s) = Free" "p = (phaser_in s)\<lparr>reader_mutex := Held_by r\<rparr>"
      using lock(3) by (auto simp: hdr_phaser_reader_lock_def split: if_splits)
    have out: "\<not> in_section (readers s r')" for r' using e p(1) by (simp add: exclusive_def)
    have "counted n s'"
      by (rule counted_epochs[OF c]) (simp_all add: lock(1) recorder_simps p(2) end_epoch_def)
    moreover have "exclusive s'" using out by (simp add: exclusive_def lock(1) recorder_simps p(2))
    moreover have "sampled R_out s" using m p(1) by (simp add: critical_def)
    then have "sampled (critical s') s'"
      by (simp add: critical_def lock(1) recorder_simps p(2) alone_def updates_active_def apart_def
          odd_phase_def inside_def)
    ultimately show ?thesis by (simp add: recorder_inv_def)
  next
    case take_temp
    show ?thesis
      by (rule keep[of "R_temp (inactive (recorder s))"])
        (simp_all add: take_temp recorder_simps counted_pointers[OF c] alone_def updates_active_def
          apart_def odd_phase_def inside_def)
  next
    case (move temp)
    show ?thesis
      by (rule keep[of "R_moved temp"])
        (simp_all add: move recorder_simps counted_pointers[OF c] alone_def updates_active_def
          odd_phase_def inside_def)
  next
    case (swap temp)
    show ?thesis
      by (rule keep[of R_swapped])
        (simp_all add: swap recorder_simps counted_pointers[OF c] alone_def apart_def
          odd_phase_def inside_def)
  next
    case flip_read
    show ?thesis
      by (rule keep[of "R_flip_read (flip_reads_phase (phaser_in s))"])
        (simp_all add: flip_read recorder_simps counted_pointers[OF c] alone_def apart_def
          odd_phase_def inside_def flip_reads_phase_def)
  next
    case (flip_clear next_even)
    have ne: "next_even = odd_phase s" and al: "alone s" "apart s" using cs flip_clear(2) by simp_all
    have pin: "phaser_in s' = flip_clears_end (phaser_in s) (odd_phase s)"
      and w: "writers s' = writers s" "readers s' = (readers s)(r := R_flip_cleared next_even)"
        "active (recorder s') = active (recorder s)" "inactive (recorder s') = inactive (recorder s)"
      by (simp_all add: flip_clear(1) recorder_simps ne)
    have st: "start_epoch (phaser_in s') = start_epoch (phaser_in s)"
      "reader_mutex (phaser_in s') = reader_mutex (phaser_in s)" by (simp_all add: pin flip_clears_end_def)
    have odd: "odd_phase s' = odd_phase s" using st(1) by (simp add: odd_phase_def)
    have "counted n s'"
      by (rule counted_epochs[OF c st(1) w(1)]) (simp add: pin flip_clears_end_def end_epoch_def)
    moreover have "alone s'" using al(1) by (simp add: alone_def odd inside_def w(1))
    moreover have "end_epoch (phaser_in s') (\<not> odd_phase s) = initial_start_value (odd_phase s)"
      by (simp add: pin flip_clears_end_def end_epoch_def)
    ultimately show ?thesis
      using al(2) flip_clear(2)
      by (intro keep[OF _ st(2) w(2)]) (simp_all add: ne odd apart_def w(3,4))
  next
    case (flip_reset next_even val p)
    have cleared: "sampled (R_flip_cleared next_even) s" using cs flip_reset(2) by simp
    then have ne: "next_even = odd_phase s" by simp
    have pin: "phaser_in s' = p" and w: "writers s' = writers s" by (simp_all add: flip_reset(1) recorder_simps)
    have "alone s" "end_epoch (phaser_in s) (\<not> odd_phase s) = initial_start_value (odd_phase s)"
      using cleared by simp_all
    note fl = counted_flip[OF c this(1) w assms(3) this(2) flip_reset(3)[unfolded ne] pin]
    have ins: "inside s' ph = inside s ph" for ph by (simp add: inside_def w)
    have "in_phase (W_updating v a) (\<not> odd_phase s) = False" if "writers s x = W_updating v a" for x v a
      using \<open>alone s\<close> that by (auto simp: alone_def inside_def dest: arg_cong[of _ _ "\<lambda>pc. in_phase pc (\<not> odd_phase s)"])
    then have u: "updates_active s'" by (auto simp: updates_active_def w fl(2))
    have mu: "reader_mutex p = reader_mutex (phaser_in s)"
      using flip_reset(3) by (auto simp: flip_resets_start_def)
    show ?thesis
      by (rule keep[of "R_flip_waits next_even val"])
        (use cleared u fl in \<open>simp_all add: flip_reset(2) ne ins pin mu apart_def fl(2), simp_all add: flip_reset(1) recorder_simps\<close>)
  next
    case (flip_check next_even val)
    show ?thesis
    proof (cases "flip_caught_up (phaser_in s) next_even val")
      case False
      then show ?thesis using flip_check(1) assms(1) by simp
    next
      case True
      have waits: "sampled (R_flip_waits next_even val) s" using cs flip_check(2) by simp
      then have "(of_nat (card (inside s (\<not> odd_phase s))) :: int64_t) = 0"
        using True by (auto simp: flip_caught_up_def end_epoch_def split: if_splits)
      then have "alone s" using word_card_0[OF c assms(3)] by (simp add: alone_def)
      then show ?thesis using waits True
        by (intro keep[of R_flipped])
          (simp_all add: flip_check recorder_simps counted_pointers[OF c] alone_def apart_def
            updates_active_def odd_phase_def inside_def)
    qed
  next
    case unlock
    have h: "reader_mutex (phaser_in s) = Held_by r" using e unlock(2)
      by (metis exclusive_def in_section.simps(11))
    have "counted n s'"
      by (rule counted_epochs[OF c])
        (simp_all add: unlock(1) recorder_simps hdr_phaser_reader_unlock_def end_epoch_def)
    moreover have "exclusive s'"
      using e h by (auto simp: exclusive_def unlock(1) recorder_simps hdr_phaser_reader_unlock_def)
    moreover have "sampled (critical s') s'"
      using cs unlock(2)
      by (simp add: critical_def unlock(1) recorder_simps hdr_phaser_reader_unlock_def alone_def
          updates_active_def apart_def odd_phase_def inside_def)
    ultimately show ?thesis by (simp add: recorder_inv_def)
  next
    case return_inactive
    have nh: "reader_mutex (phaser_in s) \<noteq> Held_by r" using e return_inactive(2)
      by (metis exclusive_def in_section.simps(2))
    have "counted n s'" by (rule counted_pointers[OF c]) (simp_all add: return_inactive(1) recorder_simps)
    moreover have "exclusive s'"
      using e nh by (auto simp: exclusive_def return_inactive(1) recorder_simps)
    moreover have "critical s' = critical s"
      using nh by (auto simp: critical_def return_inactive(1) recorder_simps split: mutex.split)
    then have "sampled (critical s') s'"
      using m sampled_cong[of s' s] by (simp add: return_inactive(1) recorder_simps)
    ultimately show ?thesis by (simp add: recorder_inv_def)
  qed
qed

lemma initial_phaser:
  assumes "initial s"
  shows "start_epoch (phaser_in s) = 0" "even_end_epoch (phaser_in s) = 0"
    "reader_mutex (phaser_in s) = Free"
proof -
  obtain r where "hdr_interval_recorder_init r True 0 = (0, recorder s)" using assms by (auto simp: initial_def)
  then have "recorder s = snd (hdr_interval_recorder_init r True 0)" by simp
  then show "start_epoch (phaser_in s) = 0" "even_end_epoch (phaser_in s) = 0"
    "reader_mutex (phaser_in s) = Free"
    by (simp_all add: phaser_in_def hdr_interval_recorder_init_def hdr_writer_reader_phaser_init_def)
qed

lemma initial_inv:
  assumes "initial s"
  shows "recorder_inv 0 s"
proof -
  have out: "writers s w = W_out" "readers s r = R_out" for w r using assms by (simp_all add: initial_def)
  have "sampled R_out s" using assms
    by (simp add: alone_def updates_active_def apart_def inside_def out initial_def)
  then show ?thesis
    by (simp add: recorder_inv_def counted_def exclusive_def critical_def out inside_def
        initial_phaser[OF assms] odd_phase_def end_epoch_def sint_initial)
qed

lemma execution_inv:
  assumes "execution s0 n s" "initial s0" "n < 2 ^ 63"
  shows "recorder_inv n s"
  using assms
proof induction
  case start
  then show ?case by (simp add: initial_inv)
next
  case (by_writer n s w s')
  then have "recorder_inv n s" by simp
  then show ?case using by_writer(2,5) by (rule writer_inv)
next
  case (by_reader n s r s')
  then have "recorder_inv n s" by simp
  then show ?case using by_reader(2,5) by (rule reader_inv)
qed

lemma settled:
  assumes "recorder_inv n s" "critical s = R_out \<or> critical s = R_flipped"
  shows "active (recorder s) \<noteq> inactive (recorder s)"
    "writers s w = W_updating v a \<Longrightarrow> a = active (recorder s)"
proof -
  have m: "sampled (critical s) s" using assms(1) by (simp add: recorder_inv_def)
  from assms(2) have al: "alone s" "updates_active s" and "apart s"
    by (elim disjE; use m in simp)+
  then show "active (recorder s) \<noteq> inactive (recorder s)" by (simp add: apart_def)
  show "a = active (recorder s)" if "writers s w = W_updating v a"
  proof -
    have "\<not> in_phase (writers s w) (\<not> odd_phase s)" using al(1) by (auto simp: alone_def inside_def)
    then have "(sint v < 0) = odd_phase s" using that by auto
    with al(2) that show ?thesis unfolding updates_active_def by blast
  qed
qed

lemma settled_inactive:
  assumes "recorder_inv n s" "reader_mutex (phaser_in s) = Free \<or> (\<exists>r. readers s r = R_flipped)"
  shows "active (recorder s) \<noteq> inactive (recorder s)"
    "writers s w = W_updating v a \<Longrightarrow> a \<noteq> inactive (recorder s)"
    "writer_step w s s' \<Longrightarrow> objects s' (inactive (recorder s)) = objects s (inactive (recorder s))"
proof -
  have "exclusive s" using assms(1) by (simp add: recorder_inv_def)
  then have f: "critical s = R_flipped" if "readers s r = R_flipped" for r
    using critical_reader[of s r] that by simp
  have c: "critical s = R_out \<or> critical s = R_flipped"
    using assms(2)
  proof (elim disjE exE)
    assume "reader_mutex (phaser_in s) = Free"
    then show ?thesis by (simp add: critical_def)
  qed (simp add: f)
  note st = settled[OF assms(1) c]
  show ap: "active (recorder s) \<noteq> inactive (recorder s)" by (rule st(1))
  show upd: "a \<noteq> inactive (recorder s)" if "writers s w = W_updating v a" for w v a
    using st(2)[OF that] ap by simp
  show "objects s' (inactive (recorder s)) = objects s (inactive (recorder s))" if "writer_step w s s'"
    using that by cases (use upd in \<open>auto simp: recorder_simps\<close>)
qed

lemma waiting:
  assumes "recorder_inv n s" "n < 2 ^ 63" "readers s r = R_flip_waits next_even v"
  shows "flip_caught_up (phaser_in s) next_even v \<longleftrightarrow> (\<forall>w. \<not> in_phase (writers s w) next_even)"
    "next_even = (\<not> odd_phase s)"
proof -
  have c: "counted n s" and w: "sampled (R_flip_waits next_even v) s"
    using assms(1,3) critical_reader[of s r] by (auto simp: recorder_inv_def)
  show ne: "next_even = (\<not> odd_phase s)" using w by simp
  have "flip_caught_up (phaser_in s) next_even v \<longleftrightarrow> end_epoch (phaser_in s) (\<not> odd_phase s) = v"
    by (simp add: flip_caught_up_def end_epoch_def ne)
  also have "\<dots> \<longleftrightarrow> (of_nat (card (inside s (\<not> odd_phase s))) :: int64_t) = 0" using w by auto
  also have "\<dots> \<longleftrightarrow> inside s (\<not> odd_phase s) = {}" by (rule word_card_0[OF c assms(2)])
  finally show "flip_caught_up (phaser_in s) next_even v \<longleftrightarrow> (\<forall>w. \<not> in_phase (writers s w) next_even)"
    by (simp add: inside_def ne)
qed

text \<open>The next step of a reader as a function, to run a reader; \<open>None\<close>: it waits for the lock.\<close>

definition reader_next :: "nat \<Rightarrow> 'o system \<Rightarrow> 'o system option" where
  "reader_next r s =
     (case readers s r of
        R_out \<Rightarrow> map_option (\<lambda>p. reader_at (with_phaser s p) r R_locked) (hdr_phaser_reader_lock r (phaser_in s))
      | R_returned a \<Rightarrow> map_option (\<lambda>p. reader_at (with_phaser s p) r R_locked) (hdr_phaser_reader_lock r (phaser_in s))
      | R_locked \<Rightarrow> Some (reader_at s r (R_temp (inactive (recorder s))))
      | R_temp temp \<Rightarrow> Some (reader_at (s\<lparr>recorder := (recorder s)\<lparr>inactive := active (recorder s)\<rparr>\<rparr>) r (R_moved temp))
      | R_moved temp \<Rightarrow> Some (reader_at (s\<lparr>recorder := (recorder s)\<lparr>active := temp\<rparr>\<rparr>) r R_swapped)
      | R_swapped \<Rightarrow> Some (reader_at s r (R_flip_read (flip_reads_phase (phaser_in s))))
      | R_flip_read ne \<Rightarrow> Some (reader_at (with_phaser s (flip_clears_end (phaser_in s) ne)) r (R_flip_cleared ne))
      | R_flip_cleared ne \<Rightarrow>
          (case flip_resets_start (phaser_in s) ne of
             (val, p) \<Rightarrow> Some (reader_at (with_phaser s p) r (R_flip_waits ne val)))
      | R_flip_waits ne val \<Rightarrow> Some (if flip_caught_up (phaser_in s) ne val then reader_at s r R_flipped else s)
      | R_flipped \<Rightarrow> Some (reader_at (with_phaser s (hdr_phaser_reader_unlock (phaser_in s))) r R_unlocked)
      | R_unlocked \<Rightarrow> Some (reader_at s r (R_returned (inactive (recorder s)))))"

lemma reader_next_step: "reader_next r s = Some s' \<Longrightarrow> reader_step r s s'"
  by (auto simp: reader_next_def split: rpc.splits prod.splits intro: reader_step.intros)

lemma reader_step_next: "reader_step r s s' \<Longrightarrow> reader_next r s = Some s'"
  by (cases rule: reader_step.cases) (auto simp: reader_next_def)

fun readers_run :: "nat list \<Rightarrow> 'o system \<Rightarrow> 'o system option" where
  "readers_run [] s = Some s"
| "readers_run (r # rs) s = (case reader_next r s of None \<Rightarrow> None | Some s' \<Rightarrow> readers_run rs s')"

lemma readers_run_execution: "execution s0 n s \<Longrightarrow> readers_run rs s = Some s' \<Longrightarrow> execution s0 n s'"
  by (induction rs arbitrary: s) (auto split: option.splits dest: by_reader reader_next_step)

section \<open>What the recorder guarantees\<close>

text \<open>Two objects, a counter each, at addresses 1 (active) and 2, and no thread in the recorder.\<close>

definition demo_system :: "nat system" where
  "demo_system =
     \<lparr>recorder = snd (hdr_interval_recorder_init
        \<lparr>active = 1, inactive = 2,
         phaser_of = \<lparr>start_epoch = 0, even_end_epoch = 0, odd_end_epoch = 0, reader_mutex = NoMutex\<rparr>\<rparr> True 0),
      writers = (\<lambda>_. W_out), readers = (\<lambda>_. R_out), objects = (\<lambda>_. 0)\<rparr>"

lemma demo_initial: "initial demo_system"
  unfolding initial_def
proof (intro conjI exI)
  show "hdr_interval_recorder_init (recorder demo_system) True 0 = (0, recorder demo_system)"
    by (simp add: demo_system_def hdr_interval_recorder_init_def hdr_writer_reader_phaser_init_def)
qed (simp_all add: demo_system_def hdr_interval_recorder_init_def hdr_writer_reader_phaser_init_def)

text \<open>A writer that has entered and loaded the active pointer, and the state in which it is.\<close>

definition demo_entered :: "nat system" where
  "demo_entered = writer_at (with_phaser demo_system (snd (hdr_phaser_writer_enter (phaser_in demo_system)))) 0 (W_entered 1)"

definition demo_updating :: "nat system" where
  "demo_updating = writer_at demo_entered 0 (W_updating 1 (active (recorder demo_entered)))"

lemma demo_updating_execution: "execution demo_system 1 demo_updating"
proof -
  have "writer_step 0 demo_system demo_entered"
    unfolding demo_entered_def
    by (rule writer_step.enter)
      (simp_all add: demo_system_def hdr_phaser_writer_enter_def phaser_in_def
        hdr_interval_recorder_init_def hdr_writer_reader_phaser_init_def)
  from execution.by_writer[OF execution.start this] have "execution demo_system 1 demo_entered"
    by (simp add: entering_def demo_system_def)
  moreover have "writer_step 0 demo_entered demo_updating"
    unfolding demo_updating_def by (rule writer_step.load) (simp add: demo_entered_def recorder_simps)
  ultimately have "execution demo_system (1 + entering 0 demo_entered) demo_updating"
    by (rule execution.by_writer)
  then show ?thesis by (simp add: entering_def demo_entered_def recorder_simps)
qed

text \<open>
  C35. Whenever no sample is under way, or one has flipped the phase, the inactive object is left alone:
  it is not the active one, no writer that is inside an update holds it, however the writers were
  interleaved with the samples before, and no step of a writer changes it.
\<close>

theorem sample_exclusive:
  assumes "execution s0 n s" "initial s0" "n < 2 ^ 63"
    "reader_mutex (phaser_in s) = Free \<or> (\<exists>r. readers s r = R_flipped)"
  shows "active (recorder s) \<noteq> inactive (recorder s) \<and>
    (\<forall>w v a. writers s w = W_updating v a \<longrightarrow> a \<noteq> inactive (recorder s)) \<and>
    (\<forall>w s'. writer_step w s s' \<longrightarrow> objects s' (inactive (recorder s)) = objects s (inactive (recorder s)))"
  using settled_inactive[OF execution_inv[OF assms(1-3)] assms(4)] by blast

theorem sample_exclusive_witness:
  "active (recorder demo_updating) \<noteq> inactive (recorder demo_updating) \<and>
   (\<exists>s'. writer_step 0 demo_updating s' \<and>
     objects s' (inactive (recorder demo_updating)) = objects demo_updating (inactive (recorder demo_updating)))"
proof -
  have idle: "reader_mutex (phaser_in demo_updating) = Free \<or> (\<exists>r. readers demo_updating r = R_flipped)"
    by (simp_all add: demo_updating_def demo_entered_def recorder_simps hdr_phaser_writer_enter_def
        initial_phaser[OF demo_initial])
  note exclusive = sample_exclusive[OF demo_updating_execution demo_initial _ idle, simplified]
  have "writers demo_updating 0 = W_updating 1 (active (recorder demo_entered))"
    by (simp add: demo_updating_def recorder_simps)
  from writer_step.update_part[OF this] show ?thesis using exclusive by blast
qed

text \<open>
  C36. The flip waits for the writers that entered in the phase that it ends, and for no others: the
  epochs agree exactly when they all have left, and then its next step ends the wait. A writer that
  enters while the flip waits belongs to the other phase, so newcomers do not prolong the wait.
\<close>

theorem flip_waits_exactly:
  assumes "execution s0 n s" "initial s0" "n + 1 < 2 ^ 63" "readers s r = R_flip_waits next_even v"
  shows "(flip_caught_up (phaser_in s) next_even v \<longleftrightarrow> (\<forall>w. \<not> in_phase (writers s w) next_even)) \<and>
    ((\<forall>w. \<not> in_phase (writers s w) next_even) \<longrightarrow> reader_step r s (reader_at s r R_flipped)) \<and>
    (\<forall>w s'. writer_step w s s' \<and> writers s w = W_out \<longrightarrow> \<not> in_phase (writers s' w) next_even)"
proof (intro conjI allI impI)
  have inv: "recorder_inv n s" using execution_inv[OF assms(1,2)] assms(3) by simp
  note wait = waiting[OF inv _ assms(4)]
  show iff: "flip_caught_up (phaser_in s) next_even v \<longleftrightarrow> (\<forall>w. \<not> in_phase (writers s w) next_even)"
    using wait(1) assms(3) by simp
  show "reader_step r s (reader_at s r R_flipped)" if "\<forall>w. \<not> in_phase (writers s w) next_even"
    using reader_step.flip_check[OF assms(4)] iff that by simp
  show "\<not> in_phase (writers s' w) next_even" if "writer_step w s s' \<and> writers s w = W_out" for w s'
    using that[THEN conjunct1]
  proof cases
    case (enter val p)
    have "counted n s" using inv by (simp add: recorder_inv_def)
    note en = enter_counted[OF this assms(3) enter(2,3)]
    have "w \<notin> inside s' (\<not> odd_phase s)" using en(3) enter(1,2) by (simp add: inside_def)
    then show ?thesis using wait(2) assms(3) by (simp add: inside_def)
  qed (use that in auto)
qed

definition demo_waiting :: "nat system" where
  "demo_waiting = the (readers_run (replicate 7 5) demo_updating)"

lemmas demo_simps = demo_updating_def demo_entered_def demo_system_def recorder_simps reader_next_def
  hdr_phaser_writer_enter_def hdr_phaser_reader_lock_def phaser_in_def with_phaser_def
  hdr_interval_recorder_init_def hdr_writer_reader_phaser_init_def flip_reads_phase_def
  flip_clears_end_def flip_resets_start_def initial_start_value_def reader_at_def writer_at_def

lemma demo_waiting_run:
  "readers_run (replicate 7 5) demo_updating = Some demo_waiting"
  "readers demo_waiting 5 = R_flip_waits False 1"
  "writers demo_waiting 0 = W_updating 1 1"
  by (simp_all add: demo_waiting_def eval_nat_numeral demo_simps)

theorem flip_waits_exactly_witness:
  "in_phase (writers demo_waiting 0) False \<and> \<not> flip_caught_up (phaser_in demo_waiting) False 1"
proof -
  have "in_phase (writers demo_waiting 0) False" by (simp add: demo_waiting_run(3))
  moreover have "flip_caught_up (phaser_in demo_waiting) False 1 \<longleftrightarrow> (\<forall>w. \<not> in_phase (writers demo_waiting w) False)"
    by (rule conjunct1[OF flip_waits_exactly[OF readers_run_execution[OF demo_updating_execution demo_waiting_run(1)]
          demo_initial _ demo_waiting_run(2)]]) simp
  ultimately show ?thesis by blast
qed

definition demo_race :: "nat system" where
  "demo_race = the (readers_run (replicate 9 0 @ replicate 3 1 @ [0]) demo_system)"

lemma demo_race_run:
  "readers_run (replicate 9 0 @ replicate 3 1 @ [0]) demo_system = Some demo_race"
  "readers demo_race 0 = R_returned 2" "active (recorder demo_race) = 2"
  by (simp_all add: demo_race_def eval_nat_numeral demo_simps flip_caught_up_def hdr_phaser_reader_unlock_def)

text \<open>
  With two samplers the recorder hands out an object that is still being written: a sample reads the
  pointer that it returns after it has given back the lock, and by then another sample can have stored
  the active pointer there.
\<close>

theorem sample_returns_active:
  "\<exists>s0 :: nat system. \<exists>s. initial s0 \<and> execution s0 0 s \<and> readers s 0 = R_returned (active (recorder s))"
  using demo_initial readers_run_execution[OF execution.start demo_race_run(1)] demo_race_run(2,3)
  by metis

end
