(* ===== verification/Spec2Isabelle.thy ===== *)
theory Spec2Isabelle
  imports IPCQueueMain FragmentAssembler ConductorThread HistogramLog IntervalRecorder
begin

text \<open>
  A verification development of the shared-memory single-producer single-consumer queue under
  \<^verbatim>\<open>src/main/cpp\<close> and of the C++ client of Aeron that its build unpacks under \<^verbatim>\<open>cppbuild\<close> and compiles
  against: the queue takes its atomic operations, its mapped files, its bit utilities and its
  command line options from there. The samples of Aeron record latencies with HdrHistogram, which the
  build unpacks beside it and whose integer part is verified as well.

  \<^bold>\<open>The parts and how they interact.\<close> A queue file is sized, created and mapped
  (\<^verbatim>\<open>QueueMemoryMappedBuffer\<close> over \<^verbatim>\<open>MemoryMappedFile\<close>, with the cache geometry of \<^verbatim>\<open>CPUStats\<close>). A
  producer and a consumer process attach a \<^verbatim>\<open>SpscMemoryMappedCacheLineQueue\<close> to it and hand over cache
  lines through two counters, with the loads and stores of \<^verbatim>\<open>Atomic64\<close>. The rig \<^verbatim>\<open>IPCQueueMain\<close> runs a
  source and a sink over ten rounds, which a synchronisation word in the file keeps in step. In
  the Aeron client, commands go to the media driver through a many-to-one ring buffer
  (\<^verbatim>\<open>DriverProxy\<close>), its notifications come back over a broadcast buffer (\<^verbatim>\<open>DriverListenerAdapter\<close>),
  both laid out in the CnC file; messages are offered to the terms of a log (\<^verbatim>\<open>Publication\<close> over
  \<^verbatim>\<open>TermAppender\<close>) and polled from it (\<^verbatim>\<open>Image\<close> over \<^verbatim>\<open>TermReader\<close>), put together again by a
  \<^verbatim>\<open>FragmentAssembler\<close>, with the positions kept in counters (\<^verbatim>\<open>CountersManager\<close>). A \<^verbatim>\<open>ClientConductor\<close>
  sends the commands, follows the notifications, gives out publications and subscriptions, whose
  arrays of images it replaces while they are polled (\<^verbatim>\<open>Subscription\<close>), and frees what has lingered.

  \<^bold>\<open>The memory.\<close> Theory \<open>Prelude\<close> has the machine integers as words, the memory as a function from
  addresses to bytes and the little-endian layout of integers; \<open>X86Memory\<close> has one hardware thread of
  x86-TSO, a shared memory and a buffer of stores of its own that it sees at once and that reach
  the memory in order. An address is an \<open>int\<close>, a \<^verbatim>\<open>std::uint8_t*\<close> that never leaves the address space.
  All components read and write through this state; its \<open>view\<close> is the memory as the thread sees it.

  \<^bold>\<open>The queue.\<close>
  \<^item> \<open>Atomic64\<close>: \<^verbatim>\<open>Atomic64.h\<close>, every accessor and barrier; compare-and-exchange is an atomic update.
  \<^item> \<open>CacheLine\<close>: \<^verbatim>\<open>CacheLine.h\<close>; every accessor round-trips.
  \<^item> \<open>CPUStats\<close>: \<^verbatim>\<open>CPUStats.h\<close>, \<^verbatim>\<open>CPUStats.cpp\<close>, \<^verbatim>\<open>CPUStatsMain.cpp\<close>; the answers of the operating system
    are parameters.
  \<^item> \<open>MemoryMappedFile\<close>: the POSIX half of \<^verbatim>\<open>util/MemoryMappedFile.cpp\<close> over a record of the system
    calls; filling a file writes exactly the requested bytes, mapping a range swaps its arguments.
  \<^item> \<open>QueueMemoryMappedBuffer\<close>: sizing and creating the queue file, and when the elements fit into it.
  \<^item> \<open>SpscQueue\<close>: \<^verbatim>\<open>SpscMemoryMappedCacheLineQueue.h\<close>, one definition per member, over the record
    \<open>queue\<close> of its fields and the thread state.
  \<^item> \<open>BoundedFifo\<close>: the abstract bounded queue, a list, and the locale \<open>bounded_fifo\<close> of an
    implementation's laws. \<open>SpscFifo\<close> interprets it: the members refine the list; clearing, attaching
    and size are exact; nothing outside the header and the elements is written.
  \<^item> \<open>SpscTso\<close>: producer and consumer as step relations over two threads, each load, store and arrival of a
    store being a step, with the invariant \<open>tso_inv\<close>: lines are delivered in order, once and
    unchanged, the claimed line is never one still in use, and neither side is blocked; what a thread can do
    between two methods (\<open>call\<close>) is what the methods do, and nothing else.
  \<^item> \<open>StringUtil\<close>: \<^verbatim>\<open>util/StringUtil.h\<close>; trimming, and numbers to text and back.
  \<^item> \<open>CommandOption\<close>, \<open>IPCQueueMain\<close>: the command line, the setup on a new file or on that of an earlier run, the
    rig as a step relation with its handshake; no interleaving reports an error.

  \<^bold>\<open>The Aeron client.\<close>
  \<^item> \<open>Exceptions\<close>: the exception classes, and actions -- functions from the state to an exception or a
    result and a state -- in which all code that may throw is written; \<open>oact\<close> are those that may not return.
  \<^item> \<open>BitUtil\<close>, \<open>AtomicBuffer\<close>: \<^verbatim>\<open>util/BitUtil.h\<close>, \<^verbatim>\<open>Atomic64_gcc_x86_64.h\<close>, \<^verbatim>\<open>AtomicBuffer.h\<close>.
  \<^item> \<open>RingBuffer\<close>: \<^verbatim>\<open>ManyToOneRingBuffer.h\<close> and its descriptors; writing appends a message to a
    queue of messages or is refused, reading hands the oldest to any handler and removes them.
  \<^item> \<open>Broadcast\<close>: \<^verbatim>\<open>concurrent/broadcast\<close>; a receiver follows the records in order, or notices that it
    was lapped.
  \<^item> \<open>LogBuffer\<close>: layout of frames, positions and partitions, \<^verbatim>\<open>Header.h\<close>, \<^verbatim>\<open>BufferClaim.h\<close>.
    \<open>TermBuffer\<close>: \<^verbatim>\<open>TermAppender.h\<close>; a term is a list of frames that appending extends. \<open>TermReader\<close>:
    \<^verbatim>\<open>TermReader.h\<close>, \<^verbatim>\<open>TermBlockScanner.h\<close>, with the locale \<open>fragment_client\<close> of the laws of a handler.
    \<open>FragmentAssembler\<close> interprets it for the assembler, which refines the delivery of whole messages.
  \<^item> \<open>LogBuffers\<close>, \<open>Image\<close>, \<open>Publication\<close>: the three terms of a log, polling them in turn and
    offering to them in turn; the rotation between them is where the components meet.
  \<^item> \<open>CountersManager\<close>: \<^verbatim>\<open>CountersManager.h\<close>, \<^verbatim>\<open>AtomicCounter.h\<close>, \<^verbatim>\<open>UnsafeBufferPosition.h\<close>; the registry of
    counters as a map of labels with the invariant \<open>counters_inv\<close>.
  \<^item> \<open>Command\<close>: \<^verbatim>\<open>command/*.h\<close>, every flyweight. \<open>DriverProxy\<close>, \<open>DriverListenerAdapter\<close>: the commands and
    the notifications arrive with every field as written. \<open>CncFileDescriptor\<close>: the sections of the CnC file.

  \<^item> \<open>Subscription\<close>: the arrays of images on a heap of blocks. Adding and removing images implements a
    list; a poll visits each image once at most; the interleavings of a poll with the conductor,
    step by step: adding is safe, removing is not.
  \<^item> \<open>ClientConductor\<close>: every operation of the class over the registrations, a table of objects with
    their reference counts, the heap of arrays, the clock and the state of the application.
    \<open>ClientResources\<close>: \<open>ensures\<close> and \<open>keeps\<close>, a small logic of outcomes, and the invariant \<open>client_inv\<close> of the
    owners of the arrays over every sequence of calls, notifications and polls; freeing is exact.
    \<open>ClientRegistration\<close>: from the driver's message in the broadcast buffer to the subscription in the
    hands of the application, and four cases in which the conductor goes wrong.
  \<^item> \<open>AgentRunner\<close>: the thread's loop of duty cycles, with the locale \<open>agent\<close> of what an agent's work keeps;
    \<open>AeronContext\<close>: the configuration. \<open>Aeron\<close>: connecting to a driver's CnC file, which succeeds on a file in
    order and fails cleanly otherwise, and the conductor as the runner's agent: the interpretation of
    \<open>agent\<close> shows that the thread makes calls of the conductor only, so that its invariant covers it.
    \<open>ConductorThread\<close>: what a duty cycle does, from the driver's message to the keepalive and the sleep.

  \<^bold>\<open>The histogram\<close> (\<^verbatim>\<open>cppbuild/aeron-prefix/src/aeron-build/hdr_histogram-prefix/src/hdr_histogram/src\<close>).
  \<^item> \<open>Histogram\<close>: the functions of \<^verbatim>\<open>hdr_histogram.c\<close> on values, counters, recording, resetting and shifting, over
    the record \<open>histogram\<close> at the widths of the C types; a count read past the array is \<open>None\<close>. \<open>CLimits\<close>
    has the constants of the C library. What \<^verbatim>\<open>hdr_init\<close> computes with the mathematical library is the
    parameter \<open>floor_log2\<close> for the order of the lowest value, and \<open>ceil_log2\<close> in integers for the figures.
  \<^item> \<open>HistogramIndex\<close>: the bucket, sub-bucket, index, width and lowest value of a number in \<open>nat\<close>, for the shape
    of \<open>u\<close> unit bits, \<open>2 ^ m\<close> sub-buckets in half a bucket and \<open>B\<close> further buckets, and that the words compute
    them. \<open>HistogramInit\<close>: two values share a counter exactly when they are equivalent; \<^verbatim>\<open>hdr_init\<close> returns
    exactly when a bucket fits into 63 bits. \<open>HistogramRecord\<close>: recording refines adding to a list of values and
    counts (\<open>represents\<close>), also with the values that make up for coordinated omission.
  \<^item> \<open>HistogramIter\<close>: the basic, recorded and linear iterators and both additions of histograms, with the
    locale \<open>recording\<close> of what the addition asks of a recording, interpreted on the plain and on the
    correcting one. Adding adds counters, unless the counts do not fit into 32 bits: then it may not return.
  \<^item> \<open>Base64\<close>, \<open>HistogramLog\<close>: the text of a compressed histogram in \<^verbatim>\<open>hdr_histogram_log.c\<close>, in both versions,
    over the record \<open>zlib\<close> of the library's calls, which is assumed to give back what it compressed.
  \<^item> \<open>IntervalRecorder\<close>: \<^verbatim>\<open>hdr_writer_reader_phaser.h\<close> and \<^verbatim>\<open>hdr_interval_recorder.h\<close>, any number of writers and
    samplers as step relations, each atomic operation being a step; for fewer than \<open>2 ^ 63\<close> updates,
    a sampler that has flipped the phase has the inactive object for itself.

  \<^bold>\<open>How the code is translated.\<close> A class is a record of its fields and a method a definition of its name
  (with a suffix or prefix where the name is taken) whose branches are those of the code; a throw is a value \<open>Inl\<close> of
  the sum, and what was written before it stays. Destructors that only release memory and
  diagnostics are left out; references are counted where the last one has an effect, for the
  publications and subscriptions of a client. A loop whose end depends on the data is a
  \<open>partial_function (option)\<close> and is proved to return. There is no fuel. Undefined behaviour of the
  code (a table read beyond its end, signed overflow) is \<open>None\<close> or the wrapped value, and the lemmas
  exclude it by bounds on lengths and positions: terms of \<open>2 ^ 16\<close> to \<open>2 ^ 30\<close> bytes, positions below \<open>2 ^ 61\<close>.

  \<^bold>\<open>What is not modelled.\<close> Interleavings in the Aeron client: its buffers are verified for the
  operations of one thread at a time, the queue for all interleavings of its two and a poll of a
  subscription for those with the conductor that replaces its array. The lock of the conductor is not
  a state: its operations are atomic, and what calls back into it while it is held is undefined.
  The MSVC and Win32 variants, of which the build uses the POSIX ones; formatted output. Of HdrHistogram what
  computes in floating point: percentiles, mean, deviation, the logarithmic and percentile iterators,
  \<^verbatim>\<open>hdr_dbl_histogram\<close> and printing; and the reading and writing of log files around the text of a histogram. The
  atomic operations of the interval recorder are those the C compiler provides, in one order for all threads.
  Catch, Google Test and Google Mock are third-party code that the build unpacks; the Java classes mirror the C++ ones.
\<close>

end
